(* ===== verification/Uvent_Prelude.thy ===== *)
theory Uvent_Prelude
  imports Main "HOL-Library.Word" "HOL-Library.Multiset"
begin

text \<open>
  Shared vocabulary of the development: the names of the machine integer types the runtime
  uses, the lemma collections, generic facts about power-of-two index masks and about the
  swap-with-last removal that several containers of the code share, the interface every queue
  of the runtime offers to its clients (\<open>fifo\<close> and its extensions, stated as locales), and
  reachability with invariants for the concurrent components.
\<close>

unbundle bit_operations_syntax

type_synonym u8 = "8 word"
type_synonym u16 = "16 word"
type_synonym u32 = "32 word"
type_synonym u64 = "64 word"

named_theorems ring_simps \<open>index arithmetic of power-of-two rings\<close>
named_theorems queue_defs \<open>definitions of queue operations, for unfolding in proofs\<close>

section \<open>Power-of-two masks\<close>

lemma unat_and_mask [ring_simps]:
  fixes x :: "'w::len word"
  shows "unat (x AND mask k) = unat x mod 2 ^ k"
proof -
  have "unat (take_bit k x) = take_bit k (unat x)"
    by (simp add: unsigned_take_bit_eq)
  then show ?thesis
    by (simp only: take_bit_eq_mask [of k x] take_bit_eq_mod [of k "unat x"])
qed

lemma mod_pow2_pow2:
  fixes x :: nat
  assumes "k \<le> n"
  shows "x mod 2 ^ n mod 2 ^ k = x mod 2 ^ k"
  using assms by (simp add: le_imp_power_dvd mod_mod_cancel)

text \<open>The ring index \<open>(h + i) & mask\<close> of the code, read in the natural numbers.\<close>

lemma unat_ring_index [ring_simps]:
  fixes h :: u64
  assumes "k \<le> 64"
  shows "unat ((h + of_nat i) AND mask k) = (unat h + i) mod 2 ^ k"
proof -
  have "unat (h + of_nat i) = (unat h + i) mod 2 ^ 64"
    by (simp add: unat_word_ariths unat_of_nat mod_simps)
  then show ?thesis
    unfolding unat_and_mask by (simp only: mod_pow2_pow2 [OF assms])
qed

lemma unat_pow2 [ring_simps]:
  assumes "k < 64"
  shows "unat ((2::u64) ^ k) = 2 ^ k"
proof -
  have "(2::nat) ^ k < 2 ^ 64" using assms by (intro power_strict_increasing) auto
  then have "unat (of_nat (2 ^ k) :: u64) = 2 ^ k"
    unfolding unat_of_nat by simp
  then show ?thesis by simp
qed

lemma unat_of_nat_small: "n < 2 ^ 64 \<Longrightarrow> unat (of_nat n :: u64) = n"
  by (simp add: unat_of_nat)

lemma pow2_minus_one: "(2::'w::len word) ^ k - 1 = mask k"
  by (simp add: mask_eq_exp_minus_1)

lemma ring_index_inj:
  fixes h :: nat
  assumes "i < n" "j < n" "(h + i) mod n = (h + j) mod n"
  shows "i = j"
proof (rule ccontr)
  assume "i \<noteq> j"
  have "\<And>i j. i < j \<Longrightarrow> j < n \<Longrightarrow> (h + i) mod n \<noteq> (h + j) mod n"
  proof
    fix i j :: nat
    assume ij: "i < j" "j < n" "(h + i) mod n = (h + j) mod n"
    then have "n dvd (h + j) - (h + i)"
      by (metis add_le_cancel_left less_imp_le mod_eq_dvd_iff_nat)
    with ij show False by (auto dest: dvd_imp_le)
  qed
  from this [of i j] this [of j i] assms \<open>i \<noteq> j\<close> show False
    by (metis nat_neq_iff)
qed

lemma unat_diff_succ:
  fixes t h :: u64
  assumes "unat (t - h) < 2 ^ 63"
  shows "unat (t + 1 - h) = Suc (unat (t - h))"
proof -
  have "unat ((t - h) + 1) = unat (t - h) + 1"
    using assms by (simp add: unat_word_ariths)
  moreover have "t + 1 - h = (t - h) + 1" by simp
  ultimately show ?thesis by (simp only: Suc_eq_plus1)
qed

section \<open>Smearing the top bit of a word\<close>

text \<open>
  The step \<open>x |= x >> n\<close> that both \<open>next_pow2\<close> functions of the code repeat for
  \<open>n = 1, 2, 4, 8, 16, 32\<close>.
\<close>

definition or_shift :: "nat \<Rightarrow> u64 \<Rightarrow> u64" where
  "or_shift n x = x OR drop_bit n x"

definition smeared :: "nat \<Rightarrow> u64 \<Rightarrow> u64 \<Rightarrow> bool" where
  "smeared n x y \<longleftrightarrow> (\<forall>i. bit y i \<longleftrightarrow> (\<exists>j<n. bit x (i + j)))"

lemma smeared_self: "smeared 1 x x"
  by (simp add: smeared_def)

lemma smeared_or_shift:
  assumes "smeared n x y"
  shows "smeared (2 * n) x (or_shift n y)"
  unfolding smeared_def
proof
  fix i
  have "bit (or_shift n y) i \<longleftrightarrow> (\<exists>j<n. bit x (i + j)) \<or> (\<exists>j<n. bit x (i + n + j))"
    using assms by (simp add: or_shift_def smeared_def bit_simps ac_simps)
  also have "\<dots> \<longleftrightarrow> (\<exists>j<2 * n. bit x (i + j))" (is "?L \<longleftrightarrow> ?R")
  proof
    assume ?L
    then show ?R
      by (metis add.assoc add_less_cancel_left mult_2 trans_less_add1)
  next
    assume ?R
    then obtain j where j: "j < 2 * n" "bit x (i + j)" by blast
    show ?L
    proof (cases "j < n")
      case False
      then have "j - n < n" "bit x (i + n + (j - n))" using j by (auto simp: mult_2)
      then show ?thesis by blast
    qed (use j in blast)
  qed
  finally show "bit (or_shift n y) i \<longleftrightarrow> (\<exists>j<2 * n. bit x (i + j))" .
qed

lemma smear_mask:
  fixes x :: u64
  assumes "x \<noteq> 0" "smeared 64 x y"
  obtains k where "k < 64" "y = mask (Suc k)" "2 ^ k \<le> unat x" "unat x < 2 ^ Suc k"
proof -
  define S where "S = {j. bit x j}"
  have fin: "finite S" unfolding S_def
    by (rule finite_subset [of _ "{..<64}"]) (auto dest: bit_imp_le_length simp: bit_word.rep_eq)
  have ne: "S \<noteq> {}" using \<open>x \<noteq> 0\<close> unfolding S_def by (auto simp: bit_eq_iff)
  define k where "k = Max S"
  have k: "bit x k" "\<And>j. bit x j \<Longrightarrow> j \<le> k"
    using Max_in [OF fin ne] Max_ge [OF fin] by (auto simp: k_def S_def)
  have k64: "k < 64" using bit_imp_le_length [OF k(1)] by simp
  have "bit y i \<longleftrightarrow> i \<le> k" for i
  proof
    assume "bit y i"
    then obtain j where "bit x (i + j)" using assms(2) by (auto simp: smeared_def)
    with k(2) show "i \<le> k" by fastforce
  next
    assume "i \<le> k"
    then have "k - i < 64" "bit x (i + (k - i))" using k64 k(1) by auto
    then show "bit y i" using assms(2) unfolding smeared_def by blast
  qed
  then have 1: "y = mask (Suc k)"
    by (intro bit_word_eqI) (simp add: bit_mask_iff less_Suc_eq_le)
  have "unat x < 2 ^ Suc k"
  proof -
    have "take_bit (Suc k) x = x"
      by (rule bit_eqI) (use k(2) in \<open>auto simp: bit_take_bit_iff less_Suc_eq_le\<close>)
    then have "unat x mod 2 ^ Suc k = unat x"
      by (metis take_bit_eq_mask unat_and_mask)
    then show ?thesis
      by (metis mod_less_divisor zero_less_numeral zero_less_power)
  qed
  moreover have "2 ^ k \<le> unat x"
  proof -
    have "bit (unat x) k" using k(1) k64 by (simp add: bit_unsigned_iff)
    then have "odd (unat x div 2 ^ k)" by (simp add: bit_iff_odd)
    then have "unat x div 2 ^ k \<noteq> 0" by (metis even_zero)
    then show ?thesis by (simp add: div_eq_0_iff)
  qed
  ultimately show ?thesis using that k64 1 by blast
qed

text \<open>The round-up to a power of two that the smearing computes.\<close>

lemma smear_succ_pow2:
  fixes x :: u64
  assumes "x \<noteq> 0" "unat x \<le> 2 ^ 63" 
    and "smeared 64 (x - 1) y"
  shows "\<exists>k\<le>63. unat (y + 1) = 2 ^ k \<and> unat x \<le> 2 ^ k \<and> (\<forall>j. unat x \<le> 2 ^ j \<longrightarrow> k \<le> j)"
proof (cases "x = 1")
  case True
  with assms have "y = 0" by (auto simp: smeared_def bit_eq_iff)
  with True show ?thesis by (intro exI [of _ 0]) simp
next
  case False
  then have "x - 1 \<noteq> 0" by simp
  from smear_mask [OF this assms(3)] obtain k where
    k: "k < 64" "y = mask (Suc k)" "2 ^ k \<le> unat (x - 1)" "unat (x - 1) < 2 ^ Suc k" .
  have ux: "unat (x - 1) = unat x - 1" "0 < unat x"
    using assms(1) by (simp_all add: unat_minus_one unat_gt_0)
  have "k < 63"
  proof (rule ccontr)
    assume "\<not> k < 63"
    then have "(2::nat) ^ 63 \<le> 2 ^ k" by (intro power_increasing) auto
    with k(3) ux assms(2) show False by linarith
  qed
  moreover have "unat (y + 1) = 2 ^ Suc k"
  proof -
    have "y + 1 = 2 ^ Suc k" by (simp add: k(2) mask_eq_exp_minus_1)
    moreover have "unat ((2::u64) ^ Suc k) = 2 ^ Suc k"
      using \<open>k < 63\<close> by (intro unat_pow2) simp
    ultimately show ?thesis by simp
  qed
  moreover have "Suc k \<le> j" if "unat x \<le> 2 ^ j" for j
  proof (rule ccontr)
    assume "\<not> Suc k \<le> j"
    then have "(2::nat) ^ j \<le> 2 ^ k" by (intro power_increasing) auto
    with that k(3) ux show False by linarith
  qed
  ultimately show ?thesis
    using k(4) ux by (intro exI [of _ "Suc k"]) auto
qed

section \<open>Removal by swapping with the last element\<close>

text \<open>
  \<open>v[i] = v.back(); v.pop_back();\<close> as the timer wheel does on its buckets. Out of range the code
  has undefined behaviour; the model leaves the vector unchanged there and no lemma uses it.
\<close>

definition swap_pop :: "nat \<Rightarrow> 'a list \<Rightarrow> 'a list" where
  "swap_pop i xs = (if i < length xs then butlast (xs[i := last xs]) else xs)"

lemma length_swap_pop [simp]: "i < length xs \<Longrightarrow> length (swap_pop i xs) = length xs - 1"
  by (simp add: swap_pop_def)

lemma mset_swap_pop:
  assumes "i < length xs"
  shows "mset (swap_pop i xs) = mset xs - {#xs ! i#}"
proof -
  have ne: "xs[i := last xs] \<noteq> []" using assms by auto
  have l: "last (xs[i := last xs]) = last xs"
    using assms by (subst last_list_update) auto
  have "mset (xs[i := last xs]) = mset (swap_pop i xs) + {#last xs#}"
    using assms append_butlast_last_id [OF ne] l
    by (metis mset_append mset_single_iff_right swap_pop_def union_mset_add_mset_right
        add_mset_add_single mset.simps(1) mset.simps(2))
  moreover have "mset (xs[i := last xs]) = add_mset (last xs) (mset xs - {#xs ! i#})"
    using assms by (simp add: mset_update)
  ultimately show ?thesis by simp
qed

lemma set_swap_pop_subset: "set (swap_pop i xs) \<subseteq> set xs"
  using mset_swap_pop [of i xs]
  by (metis in_diffD set_mset_mset subsetI swap_pop_def)

lemma swap_pop_distinct:
  assumes "i < length xs" "distinct xs"
  shows "distinct (swap_pop i xs) \<and> set (swap_pop i xs) = set xs - {xs ! i}"
proof -
  have "mset (swap_pop i xs) = mset (remove1 (xs ! i) xs)"
    using assms by (simp add: mset_swap_pop)
  from mset_eq_imp_distinct_iff [OF this] mset_eq_setD [OF this] show ?thesis
    using assms by simp
qed

section \<open>The queue interface\<close>

text \<open>
  What a client of any FIFO queue of the runtime relies on: \<open>enq\<close> either refuses (full queue, failed
  allocation) or appends, and \<open>deq\<close> returns the oldest element, or reports that there is none. The
  laws are those of the code's return values; a refused \<open>enq\<close> leaves the caller with its old queue.
\<close>

datatype 'a qop = Enq 'a | Deq

fun q_run :: "('a \<Rightarrow> 'q \<Rightarrow> 'q option) \<Rightarrow> ('q \<Rightarrow> ('a \<times> 'q) option) \<Rightarrow> 'a qop list \<Rightarrow> 'q
    \<Rightarrow> 'a list \<times> 'a list \<times> 'q" where
  "q_run enq deq [] q = ([], [], q)"
| "q_run enq deq (Enq x # ops) q = (case enq x q of
     None \<Rightarrow> q_run enq deq ops q
   | Some q1 \<Rightarrow> (case q_run enq deq ops q1 of (ins, outs, q2) \<Rightarrow> (x # ins, outs, q2)))"
| "q_run enq deq (Deq # ops) q = (case deq q of
     None \<Rightarrow> q_run enq deq ops q
   | Some (x, q1) \<Rightarrow> (case q_run enq deq ops q1 of (ins, outs, q2) \<Rightarrow> (ins, x # outs, q2)))"

text \<open>
  The loop \<open>while (try_dequeue(tmp)) {}\<close> of the queue destructors; the result lists the destroyed
  elements.
\<close>

partial_function (option) q_drain :: "('q \<Rightarrow> ('a \<times> 'q) option) \<Rightarrow> 'q \<Rightarrow> ('a list \<times> 'q) option" where
  "q_drain deq q = (case deq q of
     None \<Rightarrow> Some ([], q)
   | Some p \<Rightarrow> Option.bind (q_drain deq (snd p)) (\<lambda>r. Some (fst p # fst r, snd r)))"

locale fifo =
  fixes invar :: "'q \<Rightarrow> bool"
    and contents :: "'q \<Rightarrow> 'a list"
    and enq :: "'a \<Rightarrow> 'q \<Rightarrow> 'q option"
    and deq :: "'q \<Rightarrow> ('a \<times> 'q) option"
  assumes enq_Some: "invar q \<Longrightarrow> enq x q = Some q' \<Longrightarrow> invar q' \<and> contents q' = contents q @ [x]"
    and deq_None: "invar q \<Longrightarrow> deq q = None \<longleftrightarrow> contents q = []"
    and deq_Some: "invar q \<Longrightarrow> deq q = Some (x, q') \<Longrightarrow> invar q' \<and> contents q = x # contents q'"
begin

text \<open>
  Whatever the sequence of operations, the queue hands out exactly the accepted elements, in the
  order they were accepted: nothing is lost, duplicated or reordered.
\<close>

lemma run_fifo:
  assumes "invar q" "q_run enq deq ops q = (ins, outs, q')"
  shows "invar q' \<and> contents q @ ins = outs @ contents q'"
  using assms
proof (induction ops arbitrary: q ins outs)
  case (Cons op ops)
  show ?case
  proof (cases op)
    case (Enq x)
    then show ?thesis using Cons.IH Cons.prems
      by (auto split: option.splits prod.splits dest!: enq_Some [OF Cons.prems(1)]) fastforce+
  next
    case Deq
    then show ?thesis using Cons.IH Cons.prems
      by (auto split: option.splits prod.splits dest!: deq_Some [OF Cons.prems(1)])
  qed
qed auto

lemma drain_all:
  assumes "invar q"
  shows "\<exists>q'. q_drain deq q = Some (contents q, q') \<and> invar q' \<and> contents q' = []"
  using assms
proof (induction "length (contents q)" arbitrary: q)
  case 0
  then have "deq q = None" using deq_None by simp
  then show ?case using 0 by (subst q_drain.simps) simp
next
  case (Suc n)
  then obtain x q1 where d: "deq q = Some (x, q1)" using deq_None [of q] by (cases "deq q") auto
  then have "n = length (contents q1)" "invar q1" "contents q = x # contents q1"
    using deq_Some [OF Suc.prems d] Suc.hyps(2) by auto
  then show ?case using Suc.hyps(1) [of q1] d by (subst q_drain.simps) auto
qed

lemma deq_nonempty:
  assumes "invar q" "contents q \<noteq> []"
  obtains q' where "deq q = Some (hd (contents q), q')" "invar q'" "contents q' = tl (contents q)"
proof (cases "deq q")
  case None
  with assms deq_None show ?thesis by blast
next
  case (Some p)
  then show ?thesis using that assms deq_Some by (cases p) fastforce
qed

end

text \<open>A bounded queue refuses exactly when it holds \<open>cap\<close> elements.\<close>

locale bounded_fifo = fifo +
  fixes cap :: "'q \<Rightarrow> nat"
  assumes enq_None: "invar q \<Longrightarrow> enq x q = None \<longleftrightarrow> length (contents q) = cap q"
    and cap_enq: "invar q \<Longrightarrow> enq x q = Some q' \<Longrightarrow> cap q' = cap q"
    and cap_deq: "invar q \<Longrightarrow> deq q = Some (x, q') \<Longrightarrow> cap q' = cap q"
begin

lemma run_bounded:
  assumes "invar q" "length (contents q) \<le> cap q" "q_run enq deq ops q = (ins, outs, q')"
  shows "cap q' = cap q \<and> length (contents q') \<le> cap q"
  using assms
proof (induction ops arbitrary: q ins outs)
  case (Cons op ops)
  show ?case
  proof (cases op)
    case (Enq x)
    show ?thesis
    proof (cases "enq x q")
      case None
      then show ?thesis using Cons Enq by auto
    next
      case (Some q1)
      then have "invar q1" "length (contents q1) \<le> cap q1" "cap q1 = cap q"
        using enq_Some [OF Cons.prems(1) Some] enq_None [OF Cons.prems(1), of x] cap_enq
          Cons.prems by (auto simp: le_less)
      then show ?thesis using Cons.IH [of q1] Cons.prems Some Enq
        by (auto split: prod.splits)
    qed
  next
    case Deq
    then show ?thesis using Cons.IH Cons.prems cap_deq [OF Cons.prems(1)]
      by (fastforce split: option.splits prod.splits dest!: deq_Some [OF Cons.prems(1)])
  qed
qed auto

end

section \<open>Reachable states and invariants\<close>

inductive reach :: "('s \<Rightarrow> bool) \<Rightarrow> ('s \<Rightarrow> 's \<Rightarrow> bool) \<Rightarrow> 's \<Rightarrow> bool" for init step where
  reach_init: "init s \<Longrightarrow> reach init step s"
| reach_step: "reach init step s \<Longrightarrow> step s s' \<Longrightarrow> reach init step s'"

locale inv_system =
  fixes init :: "'s \<Rightarrow> bool" and step :: "'s \<Rightarrow> 's \<Rightarrow> bool" and inv :: "'s \<Rightarrow> bool"
  assumes inv_init: "init s \<Longrightarrow> inv s"
    and inv_step: "inv s \<Longrightarrow> step s s' \<Longrightarrow> inv s'"
begin

lemma reach_inv: "reach init step s \<Longrightarrow> inv s"
  by (induction rule: reach.induct) (auto intro: inv_init inv_step)

end

end
