(* ===== verification/Ring_Buffer.thy ===== *)
theory Ring_Buffer
  imports Uvent_Prelude
begin

text \<open>
  The window view of a ring buffer, shared by every array-backed queue of the runtime: the cells
  from position \<open>h\<close> on, taken modulo the length of the array, and how single writes, loops of
  writes and the two-part \<open>memcpy\<close> of the bulk operations change that window.
\<close>

definition ring_list :: "'c list \<Rightarrow> nat \<Rightarrow> nat \<Rightarrow> 'c list" where
  "ring_list buf h n = map (\<lambda>i. buf ! ((h + i) mod length buf)) [0..<n]"

lemma length_ring_list [simp]: "length (ring_list buf h n) = n"
  by (simp add: ring_list_def)

lemma ring_list_0 [simp]: "ring_list buf h 0 = []"
  by (simp add: ring_list_def)

lemma nth_ring_list [simp]: "i < n \<Longrightarrow> ring_list buf h n ! i = buf ! ((h + i) mod length buf)"
  by (simp add: ring_list_def)

lemma ring_list_Suc: "ring_list buf h (Suc n) = ring_list buf h n @ [buf ! ((h + n) mod length buf)]"
  by (simp add: ring_list_def)

lemma ring_list_append: "ring_list buf h (n + m) = ring_list buf h n @ ring_list buf (h + n) m"
  by (induction m) (simp_all add: ring_list_Suc add.assoc)

lemma ring_list_Cons: "ring_list buf h (Suc n) = buf ! (h mod length buf) # ring_list buf (Suc h) n"
  using ring_list_append [of buf h 1 n] by (simp add: ring_list_def)

lemma ring_list_head_mod:
  assumes "h mod length buf = h' mod length buf"
  shows "ring_list buf h n = ring_list buf h' n"
  unfolding ring_list_def using assms by (metis mod_add_cong)

lemma ring_list_add_len [simp]: "ring_list buf (h + length buf) n = ring_list buf h n"
  by (rule ring_list_head_mod) simp

text \<open>A write outside the window does not change it.\<close>

lemma ring_list_update_out:
  assumes "n \<le> p" "p < length buf"
  shows "ring_list (buf[(h + p) mod length buf := x]) h n = ring_list buf h n"
proof (rule nth_equalityI)
  fix i assume "i < length (ring_list (buf[(h + p) mod length buf := x]) h n)"
  then have i: "i < n" by simp
  then have "(h + i) mod length buf \<noteq> (h + p) mod length buf"
    using assms ring_index_inj [of i "length buf" p h] by auto
  then show "ring_list (buf[(h + p) mod length buf := x]) h n ! i = ring_list buf h n ! i"
    using i by simp
qed simp

lemma ring_list_update_head:
  assumes "n < length buf"
  shows "ring_list (buf[h mod length buf := x]) (Suc h) n = ring_list buf (Suc h) n"
proof -
  have "(Suc h + (length buf - 1)) mod length buf = h mod length buf"
  proof -
    have "Suc h + (length buf - 1) = h + length buf" using assms by simp
    then show ?thesis by (simp only: mod_add_self2)
  qed
  then show ?thesis
    using ring_list_update_out [of n "length buf - 1" buf "Suc h" x] assms by simp
qed

lemma ring_list_update_tail:
  assumes "n < length buf"
  shows "ring_list (buf[(h + n) mod length buf := x]) h (Suc n) = ring_list buf h n @ [x]"
proof -
  have "(h + n) mod length buf < length buf" using assms by (intro mod_less_divisor) auto
  then show ?thesis using assms by (simp add: ring_list_Suc ring_list_update_out)
qed

text \<open>
  Every cell of the array lies in the full window, so that a window of \<open>n\<close> live cells and the
  remaining \<open>length buf - n\<close> cells behind it partition the array.
\<close>

lemma ring_index_cover:
  fixes N :: nat
  assumes "j < N"
  obtains i where "i < N" "(h + i) mod N = j"
proof
  let ?i = "(j + N - h mod N) mod N"
  show "?i < N" using assms by simp
  have "h mod N < N" using assms by simp
  then have "h mod N + (j + N - h mod N) = j + N" by simp
  then have "(h mod N + (j + N - h mod N) mod N) mod N = j"
    using assms by (simp add: mod_simps)
  then show "(h + ?i) mod N = j" by (simp add: mod_simps)
qed

lemma set_ring_list_full: "set (ring_list buf h (length buf)) = set buf"
proof
  show "set (ring_list buf h (length buf)) \<subseteq> set buf"
    by (cases "buf = []") (auto simp: ring_list_def)
  show "set buf \<subseteq> set (ring_list buf h (length buf))"
  proof
    fix x assume "x \<in> set buf"
    then obtain j where j: "j < length buf" "buf ! j = x" by (auto simp: in_set_conv_nth)
    obtain i where "i < length buf" "(h + i) mod length buf = j"
      using ring_index_cover [OF j(1)] by metis
    then show "x \<in> set (ring_list buf h (length buf))"
      using j by (auto simp: ring_list_def)
  qed
qed

section \<open>Loops of writes and block copies\<close>

fun ring_write :: "'c list \<Rightarrow> nat \<Rightarrow> 'c list \<Rightarrow> 'c list" where
  "ring_write buf t [] = buf"
| "ring_write buf t (x # xs) = ring_write (buf[t mod length buf := x]) (Suc t) xs"

lemma length_ring_write [simp]: "length (ring_write buf t xs) = length buf"
  by (induction buf t xs rule: ring_write.induct) simp_all

lemma ring_write_start_mod:
  assumes "t mod length buf = t' mod length buf"
  shows "ring_write buf t xs = ring_write buf t' xs"
  using assms
proof (induction xs arbitrary: buf t t')
  case (Cons x xs)
  have "Suc t mod length buf = Suc t' mod length buf"
    using Cons.prems by (metis mod_Suc_eq)
  then have "ring_write (buf[t mod length buf := x]) (Suc t) xs
      = ring_write (buf[t mod length buf := x]) (Suc t') xs"
    by (intro Cons.IH) (simp only: length_list_update)
  then show ?case by (simp only: ring_write.simps Cons.prems)
qed simp

lemma ring_list_write:
  assumes "n + length xs \<le> length buf"
  shows "ring_list (ring_write buf (h + n) xs) h (n + length xs) = ring_list buf h n @ xs"
  using assms
proof (induction xs arbitrary: buf n)
  case (Cons x xs)
  let ?b = "buf[(h + n) mod length buf := x]"
  have "ring_list (ring_write ?b (h + Suc n) xs) h (Suc n + length xs) = ring_list ?b h (Suc n) @ xs"
    using Cons.prems by (intro Cons.IH) simp
  also have "\<dots> = ring_list buf h n @ x # xs"
    using Cons.prems by (simp add: ring_list_update_tail)
  finally show ?case by simp
qed simp

lemma ring_list_write_out:
  assumes "p + length xs \<le> length buf" "n \<le> p"
  shows "ring_list (ring_write buf (h + p) xs) h n = ring_list buf h n"
  using assms
proof (induction xs arbitrary: buf p)
  case (Cons x xs)
  have "ring_list (ring_write (buf[(h + p) mod length buf := x]) (h + Suc p) xs) h n
      = ring_list (buf[(h + p) mod length buf := x]) h n"
    using Cons.prems by (intro Cons.IH) auto
  then show ?case using Cons.prems by (simp add: ring_list_update_out)
qed simp

lemma ring_write_nth_in:
  assumes "i < length xs" "length xs \<le> length buf"
  shows "ring_write buf t xs ! ((t + i) mod length buf) = xs ! i"
proof -
  have "ring_list (ring_write buf t xs) t (length xs) ! i = xs ! i"
    using ring_list_write [of 0 xs buf t] assms by simp
  then show ?thesis using assms by simp
qed

lemma ring_write_nth_out:
  assumes "length xs \<le> i" "i < length buf"
  shows "ring_write buf t xs ! ((t + i) mod length buf) = buf ! ((t + i) mod length buf)"
proof -
  let ?h = "t + length xs"
  have len: "?h + (length buf - length xs) = t + length buf" using assms by simp
  have "ring_list (ring_write buf (?h + (length buf - length xs)) xs) ?h (length buf - length xs)
      = ring_list buf ?h (length buf - length xs)"
    using assms by (intro ring_list_write_out) auto
  moreover have "ring_write buf (t + length buf) xs = ring_write buf t xs"
    by (rule ring_write_start_mod) simp
  ultimately have "ring_list (ring_write buf t xs) ?h (length buf - length xs) ! (i - length xs)
      = ring_list buf ?h (length buf - length xs) ! (i - length xs)"
    by (simp only: len)
  then show ?thesis using assms by simp
qed

text \<open>\<open>blit\<close> is \<open>memcpy(&buf[s], xs, ...)\<close> on a range that lies inside the array.\<close>

definition blit :: "nat \<Rightarrow> 'c list \<Rightarrow> 'c list \<Rightarrow> 'c list" where
  "blit s xs buf = take s buf @ xs @ drop (s + length xs) buf"

lemma length_blit [simp]: "s + length xs \<le> length buf \<Longrightarrow> length (blit s xs buf) = length buf"
  by (simp add: blit_def)

lemma nth_blit:
  assumes "s + length xs \<le> length buf" "j < length buf"
  shows "blit s xs buf ! j = (if s \<le> j \<and> j < s + length xs then xs ! (j - s) else buf ! j)"
  using assms by (auto simp: blit_def nth_append)

lemma ring_write_blit:
  assumes "t mod length buf + length xs \<le> length buf"
  shows "ring_write buf t xs = blit (t mod length buf) xs buf"
proof (rule nth_equalityI)
  fix j assume "j < length (ring_write buf t xs)"
  then have j: "j < length buf" by simp
  then obtain i where i: "i < length buf" "(t + i) mod length buf = j"
    using ring_index_cover by metis
  let ?s = "t mod length buf"
  have js: "j = (?s + i) mod length buf" using i(2) by (simp add: mod_simps)
  show "ring_write buf t xs ! j = blit ?s xs buf ! j"
  proof (cases "i < length xs")
    case True
    then have "j = ?s + i" using js assms i by simp
    then show ?thesis using True assms j ring_write_nth_in [of i xs buf t] i
      by (simp add: nth_blit)
  next
    case False
    have "\<not> (?s \<le> j \<and> j < ?s + length xs)"
    proof
      assume c: "?s \<le> j \<and> j < ?s + length xs"
      then have "(?s + (j - ?s)) mod length buf = (?s + i) mod length buf"
        using js j by (metis le_add_diff_inverse mod_less)
      then have "j - ?s = i" using ring_index_inj i(1) j by (metis less_imp_diff_less)
      with c False show False by linarith
    qed
    then show ?thesis
      using False assms j ring_write_nth_out [of xs i buf t] i by (auto simp: nth_blit)
  qed
qed (use assms in simp)

lemma ring_write_append: "ring_write buf t (xs @ ys) = ring_write (ring_write buf t xs) (t + length xs) ys"
  by (induction xs arbitrary: buf t) simp_all

lemma ring_write_two_blits:
  assumes "t mod length buf + length xs = length buf" "length ys \<le> t mod length buf"
  shows "ring_write buf t (xs @ ys) = blit 0 ys (blit (t mod length buf) xs buf)"
proof -
  let ?b = "blit (t mod length buf) xs buf"
  have "ring_write buf t xs = ?b" using assms by (intro ring_write_blit) simp
  moreover have "(t + length xs) mod length buf = 0"
    using assms by (metis mod_add_left_eq mod_self)
  ultimately show ?thesis
    using assms ring_write_blit [of "t + length xs" ?b ys] by (simp add: ring_write_append)
qed

lemma ring_list_one_block:
  assumes "h mod length buf + n \<le> length buf"
  shows "ring_list buf h n = take n (drop (h mod length buf) buf)"
proof (rule nth_equalityI)
  fix i assume "i < length (ring_list buf h n)"
  then have i: "i < n" by simp
  have "(h + i) mod length buf = (h mod length buf + i) mod length buf" by (simp add: mod_simps)
  also have "\<dots> = h mod length buf + i" using assms i by (intro mod_less) simp
  finally show "ring_list buf h n ! i = take n (drop (h mod length buf) buf) ! i"
    using assms i by simp
qed (use assms in simp)

lemma ring_list_two_blocks:
  assumes "h mod length buf + m = length buf" "k \<le> length buf"
  shows "ring_list buf h (m + k) = drop (h mod length buf) buf @ take k buf"
proof -
  have z: "(h + m) mod length buf = 0"
    using assms by (metis mod_add_left_eq mod_self)
  have "ring_list buf h m = drop (h mod length buf) buf"
    using assms by (subst ring_list_one_block) auto
  moreover have "ring_list buf (h + m) k = take k buf"
    using assms z ring_list_one_block [of "h + m" buf k] by simp
  ultimately show ?thesis by (simp add: ring_list_append)
qed

end
