(* ===== verification/Fast_Queue.thy ===== *)
theory Fast_Queue
  imports Ring_Buffer
begin

text \<open>
  The single-threaded queues of \<open>utils/datastructures/queue/FastQueue.h\<close>: the growing \<open>Queue\<close> that
  carries the timer operations and the loop's local work, and the fixed \<open>RingQueue\<close>. Cells are
  \<open>'a option\<close>: \<open>None\<close> is raw storage, \<open>Some x\<close> a constructed object. \<open>size_t\<close> counters are 64-bit
  words and wrap as in the code. The allocator and the type traits of the element type are the
  parameters of the record \<open>qenv\<close>; a refused allocation (\<open>std::bad_alloc\<close>) is \<open>None\<close>.
\<close>

record qenv =
  sizeof_T :: u64
  grants :: "u64 \<Rightarrow> bool"
  triv_copy :: bool
  triv_destr :: bool

text \<open>
  What the code relies on: objects have a size, no allocation exceeds \<open>PTRDIFF_MAX\<close> bytes, and a
  trivially copyable type has a trivial destructor (as the language defines the trait).
\<close>

definition qenv_ok :: "qenv \<Rightarrow> bool" where
  "qenv_ok env \<longleftrightarrow> 0 < unat (sizeof_T env) \<and> (\<forall>b. grants env b \<longrightarrow> unat b < 2 ^ 63)
     \<and> (triv_copy env \<longrightarrow> triv_destr env)"

record 'a fq =
  fq_buffer :: "'a option list"
  fq_capacity :: u64
  fq_head :: u64
  fq_tail :: u64
  fq_mask :: u64

section \<open>Allocation and growth\<close>

definition alloc_items :: "qenv \<Rightarrow> u64 \<Rightarrow> 'a option list option" where
  "alloc_items env n = (let bytes = sizeof_T env * n in
     if grants env bytes then Some (replicate (unat bytes div unat (sizeof_T env)) None) else None)"

definition next_pow2 :: "u64 \<Rightarrow> u64" where
  "next_pow2 x = (if x = 0 then 1
     else or_shift 32 (or_shift 16 (or_shift 8 (or_shift 4 (or_shift 2 (or_shift 1 (x - 1)))))) + 1)"

definition allocate :: "qenv \<Rightarrow> u64 \<Rightarrow> 'a fq \<Rightarrow> 'a fq option" where
  "allocate env cap q = (let c = next_pow2 cap in
     case alloc_items env c of None \<Rightarrow> None
     | Some b \<Rightarrow> Some (q\<lparr>fq_capacity := c, fq_mask := c - 1, fq_buffer := b\<rparr>))"

definition fq_new :: "qenv \<Rightarrow> u64 \<Rightarrow> 'a fq option" where
  "fq_new env initial_capacity = allocate env initial_capacity
     \<lparr>fq_buffer = [], fq_capacity = 0, fq_head = 0, fq_tail = 0, fq_mask = 0\<rparr>"

definition fq_size :: "'a fq \<Rightarrow> u64" where
  "fq_size q = fq_tail q - fq_head q"

definition fq_empty :: "'a fq \<Rightarrow> bool" where
  "fq_empty q \<longleftrightarrow> fq_head q = fq_tail q"

definition destroy_cell :: "qenv \<Rightarrow> 'a option \<Rightarrow> 'a option" where
  "destroy_cell env c = (if triv_destr env then c else None)"

text \<open>The move loop of \<open>grow\<close>: cell \<open>(head + i) & mask\<close> of the old buffer to cell \<open>i\<close> of the new.\<close>

fun grow_move :: "qenv \<Rightarrow> 'a fq \<Rightarrow> nat list \<Rightarrow> 'a option list \<times> 'a option list
    \<Rightarrow> 'a option list \<times> 'a option list" where
  "grow_move env q [] bufs = bufs"
| "grow_move env q (i # is) (old, new) = (let src = unat ((fq_head q + of_nat i) AND fq_mask q) in
     grow_move env q is (old[src := destroy_cell env (old ! src)], new[i := old ! src]))"

definition grow :: "qenv \<Rightarrow> 'a fq \<Rightarrow> 'a fq option" where
  "grow env q = (let new_cap = fq_capacity q * 2 in
     case alloc_items env new_cap of None \<Rightarrow> None
     | Some new_buf \<Rightarrow> (let count = fq_size q;
           bufs = grow_move env q [0..<unat count] (fq_buffer q, new_buf) in
         Some (q\<lparr>fq_buffer := snd bufs, fq_head := 0, fq_tail := count,
                 fq_capacity := new_cap, fq_mask := new_cap - 1\<rparr>)))"

section \<open>Element operations\<close>

definition enqueue :: "qenv \<Rightarrow> 'a \<Rightarrow> 'a fq \<Rightarrow> 'a fq option" where
  "enqueue env x q =
    (case (if fq_tail q - fq_head q = fq_capacity q then grow env q else Some q) of
       None \<Rightarrow> None
     | Some q1 \<Rightarrow> (let idx = unat (fq_tail q1 AND fq_mask q1) in
         Some (q1\<lparr>fq_buffer := (fq_buffer q1)[idx := Some x], fq_tail := fq_tail q1 + 1\<rparr>)))"

definition normalize_if_empty :: "'a fq \<Rightarrow> 'a fq" where
  "normalize_if_empty q = (if fq_head q = fq_tail q then q\<lparr>fq_head := 0, fq_tail := 0\<rparr> else q)"

definition dequeue :: "qenv \<Rightarrow> 'a fq \<Rightarrow> ('a \<times> 'a fq) option" where
  "dequeue env q = (if fq_head q = fq_tail q then None
     else (let idx = unat (fq_head q AND fq_mask q); c = fq_buffer q ! idx in
       Some (the c, normalize_if_empty
         (q\<lparr>fq_buffer := (fq_buffer q)[idx := destroy_cell env c], fq_head := fq_head q + 1\<rparr>))))"

section \<open>Bulk operations\<close>

text \<open>\<open>while (need > capacity) grow();\<close>: the outer \<open>None\<close> is a loop that does not end.\<close>

partial_function (option) grow_until :: "qenv \<Rightarrow> u64 \<Rightarrow> 'a fq \<Rightarrow> 'a fq option option" where
  "grow_until env need q = (if need > fq_capacity q
     then (case grow env q of None \<Rightarrow> Some None | Some q1 \<Rightarrow> grow_until env need q1)
     else Some (Some q))"

fun write_loop :: "'a fq \<Rightarrow> u64 \<Rightarrow> nat \<Rightarrow> 'a list \<Rightarrow> 'a option list \<Rightarrow> 'a option list" where
  "write_loop q start i [] buf = buf"
| "write_loop q start i (x # xs) buf =
     write_loop q start (Suc i) xs (buf[unat ((start + of_nat i) AND fq_mask q) := Some x])"

definition bulk_store :: "qenv \<Rightarrow> 'a fq \<Rightarrow> u64 \<Rightarrow> 'a list \<Rightarrow> 'a option list" where
  "bulk_store env q start src = (let count = of_nat (length src); e = start + count AND fq_mask q;
       s = start AND fq_mask q in
     if triv_copy env then
       (if s < e then blit (unat s) (map Some src) (fq_buffer q)
        else let first_part = unat (fq_capacity q - s) in
          blit 0 (map Some (drop first_part src))
            (blit (unat s) (map Some (take first_part src)) (fq_buffer q)))
     else write_loop q start 0 src (fq_buffer q))"

definition enqueue_bulk :: "qenv \<Rightarrow> 'a list \<Rightarrow> 'a fq \<Rightarrow> (u64 \<times> 'a fq) option option" where
  "enqueue_bulk env src q = (let count = of_nat (length src) in
     if count = 0 then Some (Some (0, q))
     else (case grow_until env (fq_tail q - fq_head q + count) q of
         None \<Rightarrow> None
       | Some None \<Rightarrow> Some None
       | Some (Some q1) \<Rightarrow> Some (Some (count,
           q1\<lparr>fq_buffer := bulk_store env q1 (fq_tail q1) src, fq_tail := fq_tail q1 + count\<rparr>))))"

text \<open>The variant that constructs each element from the \<open>i\<close>-th entries of several arrays.\<close>

definition enqueue_bulk_emplace :: "qenv \<Rightarrow> 'a list \<Rightarrow> 'a fq \<Rightarrow> (u64 \<times> 'a fq) option option" where
  "enqueue_bulk_emplace env built q = (let count = of_nat (length built) in
     if count = 0 then Some (Some (0, q))
     else (case grow_until env (fq_tail q - fq_head q + count) q of
         None \<Rightarrow> None
       | Some None \<Rightarrow> Some None
       | Some (Some q1) \<Rightarrow> Some (Some (count,
           q1\<lparr>fq_buffer := write_loop q1 (fq_tail q1) 0 built (fq_buffer q1),
              fq_tail := fq_tail q1 + count\<rparr>))))"

definition read_loop :: "'a fq \<Rightarrow> nat list \<Rightarrow> 'a list" where
  "read_loop q is = map (\<lambda>i. the (fq_buffer q ! unat ((fq_head q + of_nat i) AND fq_mask q))) is"

definition bulk_load :: "qenv \<Rightarrow> 'a fq \<Rightarrow> u64 \<Rightarrow> 'a list" where
  "bulk_load env q n = (let s = fq_head q AND fq_mask q; e = fq_head q + n AND fq_mask q in
     if triv_copy env then
       (if s < e then map the (take (unat n) (drop (unat s) (fq_buffer q)))
        else let first_part = unat (fq_capacity q - s) in
          map the (take first_part (drop (unat s) (fq_buffer q)))
            @ map the (take (unat n - first_part) (fq_buffer q)))
     else read_loop q [0..<unat n])"

fun destroy_loop :: "'a fq \<Rightarrow> nat list \<Rightarrow> 'a option list \<Rightarrow> 'a option list" where
  "destroy_loop q [] buf = buf"
| "destroy_loop q (i # is) buf = destroy_loop q is (buf[unat ((fq_head q + of_nat i) AND fq_mask q) := None])"

definition dequeue_bulk :: "qenv \<Rightarrow> u64 \<Rightarrow> 'a fq \<Rightarrow> 'a list \<times> 'a fq" where
  "dequeue_bulk env max_count q = (let available = fq_tail q - fq_head q in
     if available = 0 \<or> max_count = 0 then ([], q)
     else (let count = (if available < max_count then available else max_count);
         buf = (if triv_copy env then fq_buffer q
           else destroy_loop q [0..<unat count] (fq_buffer q)) in
       (bulk_load env q count,
        normalize_if_empty (q\<lparr>fq_buffer := buf, fq_head := fq_head q + count\<rparr>))))"

text \<open>\<open>~Queue\<close>: the destructor loop; the loop runs over the live cells only.\<close>

definition destroy_all :: "qenv \<Rightarrow> 'a fq \<Rightarrow> 'a fq" where
  "destroy_all env q = (if triv_destr env then q
     else q\<lparr>fq_buffer := destroy_loop q [0..<unat (fq_size q)] (fq_buffer q), fq_head := fq_tail q\<rparr>)"

section \<open>Invariant and abstraction\<close>

definition fq_count :: "'a fq \<Rightarrow> nat" where
  "fq_count q = unat (fq_tail q - fq_head q)"

definition fq_live :: "'a fq \<Rightarrow> 'a option list" where
  "fq_live q = ring_list (fq_buffer q) (unat (fq_head q)) (fq_count q)"

definition fq_dead :: "'a fq \<Rightarrow> 'a option list" where
  "fq_dead q = ring_list (fq_buffer q) (unat (fq_head q) + fq_count q)
     (length (fq_buffer q) - fq_count q)"

definition fq_contents :: "'a fq \<Rightarrow> 'a list" where
  "fq_contents q = map the (fq_live q)"

definition shape :: "qenv \<Rightarrow> nat \<Rightarrow> 'a fq \<Rightarrow> bool" where
  "shape env k q \<longleftrightarrow> k < 63 \<and> fq_capacity q = 2 ^ k \<and> fq_mask q = mask k
     \<and> length (fq_buffer q) = 2 ^ k \<and> unat (sizeof_T env) * 2 ^ k < 2 ^ 63"

definition fq_inv :: "qenv \<Rightarrow> 'a fq \<Rightarrow> bool" where
  "fq_inv env q \<longleftrightarrow> (\<exists>k. shape env k q) \<and> fq_count q \<le> length (fq_buffer q)
     \<and> None \<notin> set (fq_live q) \<and> (\<not> triv_destr env \<longrightarrow> set (fq_dead q) \<subseteq> {None})"

lemma shapeD:
  assumes "shape env k q"
  shows "k < 63" "unat (fq_capacity q) = length (fq_buffer q)" "length (fq_buffer q) = 2 ^ k"
    "fq_mask q = mask k"
  using assms by (auto simp: shape_def ring_simps)

lemma ring_pos:
  assumes "shape env k q"
  shows "unat ((p + of_nat i) AND fq_mask q) = (unat p + i) mod length (fq_buffer q)"
  using shapeD [OF assms] by (simp add: unat_ring_index)

lemma ring_pos0:
  assumes "shape env k q"
  shows "unat (p AND fq_mask q) = unat p mod length (fq_buffer q)"
  using shapeD [OF assms] by (simp add: unat_and_mask)

lemma unat_tail_mod:
  assumes "shape env k q"
  shows "unat (fq_tail q) mod length (fq_buffer q)
    = (unat (fq_head q) + fq_count q) mod length (fq_buffer q)"
proof -
  have "fq_tail q = fq_head q + of_nat (fq_count q)" by (simp add: fq_count_def)
  then show ?thesis using ring_pos [OF assms] ring_pos0 [OF assms] by metis
qed

lemma fq_invD:
  assumes "fq_inv env q"
  obtains k where "shape env k q" "fq_count q \<le> length (fq_buffer q)" "None \<notin> set (fq_live q)"
    "\<not> triv_destr env \<longrightarrow> set (fq_dead q) \<subseteq> {None}"
  using assms unfolding fq_inv_def by blast

lemma fq_count_less:
  assumes "shape env k q" "fq_count q \<le> length (fq_buffer q)"
  shows "fq_count q < 2 ^ 63"
proof -
  have "(2::nat) ^ k < 2 ^ 63" using shapeD [OF assms(1)] by (intro power_strict_increasing) auto
  then show ?thesis using assms shapeD [OF assms(1)] by simp
qed

lemma length_fq_contents [simp]: "length (fq_contents q) = fq_count q"
  by (simp add: fq_contents_def fq_live_def)

lemma full_iff:
  assumes "shape env k q"
  shows "fq_tail q - fq_head q = fq_capacity q \<longleftrightarrow> fq_count q = length (fq_buffer q)"
  using shapeD [OF assms] by (metis fq_count_def word_unat_eq_iff)

section \<open>Rounding up to a power of two\<close>

lemma next_pow2_smeared:
  assumes "x \<noteq> 0"
  obtains y where "next_pow2 x = y + 1" "smeared 64 (x - 1) y"
proof
  show "next_pow2 x = or_shift 32 (or_shift 16 (or_shift 8 (or_shift 4 (or_shift 2 (or_shift 1 (x - 1)))))) + 1"
    using assms by (simp add: next_pow2_def)
  have s: "smeared n (x - 1) y \<Longrightarrow> m = 2 * n \<Longrightarrow> smeared m (x - 1) (or_shift n y)" for n m y
    using smeared_or_shift by simp
  show "smeared 64 (x - 1)
      (or_shift 32 (or_shift 16 (or_shift 8 (or_shift 4 (or_shift 2 (or_shift 1 (x - 1)))))))"
    by (rule s s [OF smeared_self] | simp)+
qed

lemma next_pow2_least:
  assumes "unat x \<le> 2 ^ 63"
  shows "\<exists>k\<le>63. unat (next_pow2 x) = 2 ^ k \<and> unat x \<le> 2 ^ k \<and> (\<forall>j. unat x \<le> 2 ^ j \<longrightarrow> k \<le> j)"
proof (cases "x = 0")
  case True
  then show ?thesis by (intro exI [of _ 0]) (simp add: next_pow2_def)
next
  case False
  with next_pow2_smeared obtain y where "next_pow2 x = y + 1" "smeared 64 (x - 1) y" by blast
  then show ?thesis using smear_succ_pow2 [OF False assms] by simp
qed

section \<open>Growth keeps the contents\<close>

lemma grow_move_new:
  assumes "shape env k q" "length old = length (fq_buffer q)" "i \<le> n" "n \<le> length old"
    "n \<le> length new"
  shows "snd (grow_move env q [i..<n] (old, new))
    = take i new @ ring_list old (unat (fq_head q) + i) (n - i) @ drop n new"
  using assms(2-)
proof (induction "n - i" arbitrary: i old new)
  case (Suc d)
  let ?h = "unat (fq_head q) + i" and ?src = "(unat (fq_head q) + i) mod length (fq_buffer q)"
  have i: "i < n" "[i..<n] = i # [Suc i..<n]" using Suc.hyps(2) by (auto simp: upt_conv_Cons)
  have "snd (grow_move env q [i..<n] (old, new)) = snd (grow_move env q [Suc i..<n]
      (old[?src := destroy_cell env (old ! ?src)], new[i := old ! ?src]))"
    by (simp add: i(2) ring_pos [OF assms(1)] Let_def)
  also have "\<dots> = take (Suc i) (new[i := old ! ?src])
      @ ring_list (old[?h mod length old := destroy_cell env (old ! ?src)]) (Suc ?h) (n - Suc i) @ drop n new"
    using Suc.hyps(2) Suc.prems i(1) by (subst Suc.hyps(1)) auto
  also have "\<dots> = take i new @ ring_list old ?h (Suc (n - Suc i)) @ drop n new"
    using Suc.prems i(1) by (subst ring_list_update_head)
      (auto simp: ring_list_Cons take_Suc_conv_app_nth)
  finally show ?case using i(1) by (simp add: Suc_diff_Suc)
qed simp

lemma alloc_items_Some:
  assumes "qenv_ok env" "alloc_items env n = Some b" "unat (sizeof_T env) * unat n < 2 ^ 64"
  shows "b = replicate (unat n) None" "unat (sizeof_T env) * unat n < 2 ^ 63"
proof -
  have m: "unat (sizeof_T env * n) = unat (sizeof_T env) * unat n"
    using assms(3) by (simp add: unat_word_ariths)
  have g: "grants env (sizeof_T env * n)"
    and b: "b = replicate (unat (sizeof_T env * n) div unat (sizeof_T env)) None"
    using assms(2) unfolding alloc_items_def Let_def by (metis option.distinct(1) option.inject)+
  from g show "unat (sizeof_T env) * unat n < 2 ^ 63"
    using assms(1) m unfolding qenv_ok_def by metis
  from b m show "b = replicate (unat n) None"
    using assms(1) by (simp add: qenv_ok_def)
qed

lemma grow_spec:
  assumes "qenv_ok env" "fq_inv env q" "grow env q = Some q'"
  shows "fq_inv env q' \<and> fq_contents q' = fq_contents q \<and> fq_count q' = fq_count q
    \<and> length (fq_buffer q') = 2 * length (fq_buffer q)"
proof -
  obtain k where sh: "shape env k q" and c: "fq_count q \<le> length (fq_buffer q)"
    and lv: "None \<notin> set (fq_live q)" using assms(2) by (rule fq_invD)
  note d = shapeD [OF sh]
  have k2: "fq_capacity q * 2 = 2 ^ Suc k" using sh by (simp add: shape_def)
  have uk: "unat ((2::u64) ^ Suc k) = 2 ^ Suc k" using d by (intro unat_pow2) simp
  obtain b where b: "alloc_items env (2 ^ Suc k) = Some b" and
    q': "q' = q\<lparr>fq_buffer := snd (grow_move env q [0..<fq_count q] (fq_buffer q, b)), fq_head := 0,
      fq_tail := fq_size q, fq_capacity := 2 ^ Suc k, fq_mask := 2 ^ Suc k - 1\<rparr>"
    using assms(3) k2 unfolding grow_def Let_def fq_size_def fq_count_def
    by (auto split: option.splits)
  have "unat (sizeof_T env) * unat ((2::u64) ^ Suc k) < 2 ^ 64"
    using sh uk by (simp add: shape_def)
  note al = alloc_items_Some [OF assms(1) b this]
  have b': "b = replicate (2 ^ Suc k) None" using al(1) uk by simp
  let ?n = "fq_count q"
  have n: "?n \<le> 2 ^ k" using c d by simp
  have buf: "fq_buffer q' = fq_live q @ replicate (2 ^ Suc k - ?n) None"
    using grow_move_new [OF sh refl le0 c, of b] n by (simp add: q' b' fq_live_def)
  have cnt: "fq_count q' = ?n" by (simp add: q' fq_count_def fq_size_def)
  have h0: "unat (fq_head q') = 0" by (simp add: q')
  have ll: "length (fq_live q) = ?n" by (simp add: fq_live_def)
  have live: "fq_live q' = fq_live q"
    using n unfolding fq_live_def [of q'] cnt h0
    by (subst ring_list_one_block) (auto simp: buf ll)
  have lb: "length (fq_buffer q') = 2 ^ Suc k" using n by (simp add: buf ll)
  have dead: "set (fq_dead q') \<subseteq> {None}"
  proof -
    have "?n < 2 * 2 ^ k" using n by (rule le_less_trans) simp
    then have "fq_dead q' = replicate (2 ^ Suc k - ?n) None"
      using n unfolding fq_dead_def cnt lb h0
      by (subst ring_list_one_block) (auto simp: buf ll)
    then show ?thesis by auto
  qed
  have "Suc k < 63"
  proof (rule ccontr)
    assume "\<not> Suc k < 63"
    then have "(2::nat) ^ 63 \<le> 2 ^ Suc k" by (intro power_increasing) auto
    then have "(2::nat) ^ 63 \<le> unat (sizeof_T env) * 2 ^ Suc k"
      using assms(1) unfolding qenv_ok_def by (metis One_nat_def Suc_leI le_trans mult.left_neutral mult_le_mono1)
    then show False using al(2) uk by simp
  qed
  then have "shape env (Suc k) q'"
    using al(2) lb uk by (simp add: shape_def q' mask_eq_exp_minus_1)
  then show ?thesis
    using live cnt dead lv n d lb by (auto simp: fq_inv_def fq_contents_def)
qed

section \<open>Element operations refine list operations\<close>

lemma shape_update [simp]:
  "length b = length (fq_buffer q) \<Longrightarrow> shape env k (q\<lparr>fq_buffer := b\<rparr>) = shape env k q"
  "shape env k (q\<lparr>fq_head := h\<rparr>) = shape env k q"
  "shape env k (q\<lparr>fq_tail := t\<rparr>) = shape env k q"
  by (auto simp: shape_def)

text \<open>Appending \<open>xs\<close> behind the live window by any routine that acts as \<open>ring_write\<close>.\<close>

lemma append_write:
  assumes "fq_inv env q" "fq_count q + length xs \<le> length (fq_buffer q)"
    "b = ring_write (fq_buffer q) (unat (fq_tail q)) (map Some xs)"
    "q' = q\<lparr>fq_buffer := b, fq_tail := fq_tail q + of_nat (length xs)\<rparr>"
  shows "fq_inv env q' \<and> fq_contents q' = fq_contents q @ xs"
proof -
  obtain k where sh: "shape env k q" and lv: "None \<notin> set (fq_live q)"
    and dd: "\<not> triv_destr env \<longrightarrow> set (fq_dead q) \<subseteq> {None}" using assms(1) by (rule fq_invD)
  let ?h = "unat (fq_head q)" and ?n = "fq_count q" and ?m = "length xs"
  have "(2::nat) ^ k < 2 ^ 63" using shapeD [OF sh] by (intro power_strict_increasing) auto
  then have nm: "?n + ?m < 2 ^ 63" using assms(2) shapeD [OF sh] by linarith
  have cnt: "fq_count q' = ?n + ?m"
  proof -
    have "fq_tail q' - fq_head q' = of_nat (?n + ?m)"
      by (simp add: assms(4) fq_count_def)
    moreover have "unat (of_nat (?n + ?m) :: u64) = ?n + ?m"
      using nm by (intro unat_of_nat_small) simp
    ultimately show ?thesis unfolding fq_count_def [of q'] by (simp only:)
  qed
  have b: "b = ring_write (fq_buffer q) (?h + ?n) (map Some xs)"
    unfolding assms(3) by (rule ring_write_start_mod) (rule unat_tail_mod [OF sh])
  have lb: "length b = length (fq_buffer q)" by (simp add: b)
  have fld: "fq_buffer q' = b" "fq_head q' = fq_head q" by (simp_all add: assms(4))
  have live: "fq_live q' = fq_live q @ map Some xs"
    using ring_list_write [of ?n "map Some xs" "fq_buffer q" ?h] assms(2)
    by (simp add: fq_live_def cnt fld b)
  have dead: "fq_dead q' = drop ?m (fq_dead q)"
  proof -
    let ?r = "length (fq_buffer q) - (?n + ?m)"
    have "ring_list (ring_write (fq_buffer q) (?h + ?n + ?m + (length (fq_buffer q) - ?m)) (map Some xs))
        (?h + ?n + ?m) ?r = ring_list (fq_buffer q) (?h + ?n + ?m) ?r"
      using assms(2) by (intro ring_list_write_out) auto
    moreover have "?h + ?n + ?m + (length (fq_buffer q) - ?m) = ?h + ?n + length (fq_buffer q)"
      using assms(2) by simp
    moreover have "ring_write (fq_buffer q) (?h + ?n + length (fq_buffer q)) (map Some xs) = b"
      unfolding b by (rule ring_write_start_mod) simp
    ultimately have "fq_dead q' = ring_list (fq_buffer q) (?h + ?n + ?m) ?r"
      by (simp add: fq_dead_def cnt fld lb add.assoc)
    moreover have "fq_dead q = ring_list (fq_buffer q) (?h + ?n) ?m @ ring_list (fq_buffer q) (?h + ?n + ?m) ?r"
      using assms(2) unfolding fq_dead_def ring_list_append [symmetric] by simp
    ultimately show ?thesis by simp
  qed
  have "shape env k q'" using sh lb by (simp add: assms(4))
  then show ?thesis
    using lv dd live dead cnt assms(2) lb
    by (auto simp: fq_inv_def fq_contents_def fld dest: in_set_dropD)
qed

lemma enqueue_refines:
  assumes "qenv_ok env" "fq_inv env q" "enqueue env x q = Some q'"
  shows "fq_inv env q' \<and> fq_contents q' = fq_contents q @ [x]"
proof -
  obtain q1 where q1: "(if fq_tail q - fq_head q = fq_capacity q then grow env q else Some q) = Some q1"
    and q': "q' = q1\<lparr>fq_buffer := (fq_buffer q1)[unat (fq_tail q1 AND fq_mask q1) := Some x],
      fq_tail := fq_tail q1 + 1\<rparr>"
    using assms(3) by (auto simp: enqueue_def Let_def split: option.splits)
  obtain k where sh: "shape env k q" and c: "fq_count q \<le> length (fq_buffer q)"
    using assms(2) by (rule fq_invD)
  have pos: "0 < length (fq_buffer q)" using shapeD [OF sh] by simp
  have i1: "fq_inv env q1" "fq_contents q1 = fq_contents q" "fq_count q1 < length (fq_buffer q1)"
    using q1 grow_spec [OF assms(1,2), of q1] full_iff [OF sh] c assms(2) pos
    by (auto split: if_splits)
  obtain k1 where sh1: "shape env k1 q1" using i1(1) by (rule fq_invD)
  show ?thesis
    using append_write [OF i1(1), of "[x]" _ q'] i1(2,3) q' ring_pos0 [OF sh1]
    by (simp add: Suc_le_eq)
qed

lemma normalize_inv:
  assumes "fq_inv env q"
  shows "fq_inv env (normalize_if_empty q) \<and> fq_contents (normalize_if_empty q) = fq_contents q"
proof (cases "fq_head q = fq_tail q")
  case True
  obtain k where sh: "shape env k q" and dd: "\<not> triv_destr env \<longrightarrow> set (fq_dead q) \<subseteq> {None}"
    using assms by (rule fq_invD)
  have "fq_count q = 0" using True by (simp add: fq_count_def)
  then have "set (fq_dead q) = set (fq_buffer q)"
    by (simp add: fq_dead_def set_ring_list_full)
  then show ?thesis
    using True sh dd set_ring_list_full [of "fq_buffer q" 0]
    by (auto simp: normalize_if_empty_def fq_inv_def fq_contents_def fq_count_def fq_live_def
        fq_dead_def set_ring_list_full)
qed (use assms in \<open>simp add: normalize_if_empty_def\<close>)

text \<open>Dropping the first \<open>m\<close> live cells by a destroying loop (or none, for trivial types).\<close>

lemma destroy_loop_cells:
  assumes "shape env k q" "length buf = length (fq_buffer q)" "i + m \<le> length buf"
  shows "destroy_loop q [i..<i + m] buf = ring_write buf (unat (fq_head q) + i) (replicate m None)"
  using assms(2,3)
proof (induction m arbitrary: i buf)
  case (Suc m)
  let ?b = "buf[(unat (fq_head q) + i) mod length buf := None]"
  have "destroy_loop q [i..<i + Suc m] buf = destroy_loop q [Suc i..<Suc i + m] ?b"
    using Suc.prems by (simp add: upt_conv_Cons ring_pos [OF assms(1)] del: upt_Suc)
  also have "\<dots> = ring_write ?b (unat (fq_head q) + Suc i) (replicate m None)"
    using Suc.prems by (intro Suc.IH) auto
  finally show ?case by simp
qed simp

lemma drop_cells:
  assumes "fq_inv env q" "m \<le> fq_count q"
    and b: "b = fq_buffer q \<and> triv_destr env
       \<or> b = ring_write (fq_buffer q) (unat (fq_head q)) (replicate m None)"
    and q': "q' = q\<lparr>fq_buffer := b, fq_head := fq_head q + of_nat m\<rparr>"
  shows "fq_inv env q' \<and> fq_contents q' = drop m (fq_contents q)"
proof -
  obtain k where sh: "shape env k q" and c: "fq_count q \<le> length (fq_buffer q)"
    and lv: "None \<notin> set (fq_live q)"
    and dd: "\<not> triv_destr env \<longrightarrow> set (fq_dead q) \<subseteq> {None}" using assms(1) by (rule fq_invD)
  let ?h = "unat (fq_head q)" and ?n = "fq_count q" and ?L = "length (fq_buffer q)"
  have lb: "length b = ?L" using b by auto
  have cnt: "fq_count q' = ?n - m"
  proof -
    have "fq_tail q' - fq_head q' = of_nat ?n - of_nat m"
      by (simp add: q' fq_count_def)
    also have "\<dots> = of_nat (?n - m)" using assms(2) by (simp add: of_nat_diff)
    finally show ?thesis
      using fq_count_less [OF sh c] unfolding fq_count_def [of q']
      by (simp add: unat_of_nat_small)
  qed
  have hm: "unat (fq_head q') mod ?L = (?h + m) mod ?L"
    using ring_pos [OF sh, of "fq_head q" m] ring_pos0 [OF sh, of "fq_head q'"] by (simp add: q')
  have out: "ring_list b (?h + m) (?L - m) = ring_list (fq_buffer q) (?h + m) (?L - m)"
  proof -
    have *: "ring_write (fq_buffer q) ?h (replicate m None)
        = ring_write (fq_buffer q) (?h + m + (?L - m)) (replicate m None)"
      using c assms(2) by (intro ring_write_start_mod) simp
    have "ring_list (ring_write (fq_buffer q) ?h (replicate m None)) (?h + m) (?L - m)
        = ring_list (fq_buffer q) (?h + m) (?L - m)"
      unfolding * using c assms(2) by (intro ring_list_write_out) auto
    then show ?thesis using b by auto
  qed
  have split: "ring_list c (?h + m) (?L - m)
      = ring_list c (?h + m) (?n - m) @ ring_list c (?h + ?n) (?L - ?n)" for c :: "'a option list"
    using ring_list_append [of c "?h + m" "?n - m" "?L - ?n"] c assms(2) by simp
  have live: "fq_live q' = drop m (fq_live q)"
  proof -
    have "fq_live q' = ring_list b (?h + m) (?n - m)"
      unfolding fq_live_def cnt using hm lb by (simp add: q') (rule ring_list_head_mod, simp)
    also have "\<dots> = ring_list (fq_buffer q) (?h + m) (?n - m)"
      using out unfolding split by simp
    finally show ?thesis
      using ring_list_append [of "fq_buffer q" ?h m "?n - m"] assms(2) by (simp add: fq_live_def)
  qed
  have dead: "set (fq_dead q') \<subseteq> {None}" if "\<not> triv_destr env"
  proof -
    have "fq_dead q' = ring_list b (?h + m + (?n - m)) (?L - (?n - m))"
      unfolding fq_dead_def cnt using hm lb
      by (simp add: q') (rule ring_list_head_mod, metis mod_add_left_eq)
    also have "?L - (?n - m) = (?L - ?n) + m" using c assms(2) by simp
    also have "?h + m + (?n - m) = ?h + ?n" using assms(2) by simp
    also have "ring_list b (?h + ?n) (?L - ?n + m) = ring_list (fq_buffer q) (?h + ?n) (?L - ?n)
        @ ring_list b (?h + ?L) m"
      using out c unfolding split ring_list_append [of b "?h + ?n" "?L - ?n" m] by simp
    also have "ring_list b (?h + ?L) m = replicate m None"
      using that ring_list_write [of 0 "replicate m None" "fq_buffer q" ?h] c assms(2) lb
        ring_list_add_len [of b ?h m] b
      by auto
    finally show ?thesis using dd that by (auto simp: fq_dead_def)
  qed
  have "shape env k q'" using sh lb by (simp add: q')
  then show ?thesis
    using lv live dead cnt c lb assms(2)
    by (auto simp: fq_inv_def fq_contents_def q' drop_map dest: in_set_dropD)
qed

lemma head_contents:
  assumes "shape env k q" "i < fq_count q"
  shows "the (fq_buffer q ! unat ((fq_head q + of_nat i) AND fq_mask q)) = fq_contents q ! i"
  using assms by (simp add: ring_pos [OF assms(1)] fq_contents_def fq_live_def)

lemma dequeue_refines:
  assumes "fq_inv env q" "dequeue env q = Some (x, q')"
  shows "fq_inv env q' \<and> fq_contents q = x # fq_contents q'"
proof -
  obtain k where sh: "shape env k q" and c: "fq_count q \<le> length (fq_buffer q)"
    using assms(1) by (rule fq_invD)
  let ?q1 = "q\<lparr>fq_buffer := (fq_buffer q)[unat (fq_head q AND fq_mask q)
      := destroy_cell env (fq_buffer q ! unat (fq_head q AND fq_mask q))], fq_head := fq_head q + 1\<rparr>"
  have ne: "fq_head q \<noteq> fq_tail q" and x: "x = the (fq_buffer q ! unat (fq_head q AND fq_mask q))"
    and q': "q' = normalize_if_empty ?q1"
    using assms(2) by (auto simp: dequeue_def Let_def split: if_splits)
  have n: "0 < fq_count q" using ne by (simp add: fq_count_def unat_gt_0)
  have "fq_inv env ?q1 \<and> fq_contents ?q1 = drop 1 (fq_contents q)"
    by (rule drop_cells [OF assms(1)]) (use n in \<open>auto simp: destroy_cell_def ring_pos0 [OF sh]\<close>)
  moreover have "x = fq_contents q ! 0" using head_contents [OF sh n] x by simp
  moreover have "fq_contents q = fq_contents q ! 0 # drop 1 (fq_contents q)"
    using n by (metis Cons_nth_drop_Suc One_nat_def drop0 length_fq_contents)
  ultimately show ?thesis using normalize_inv [of env ?q1] q' by metis
qed

lemma dequeue_None: "dequeue env q = None \<longleftrightarrow> fq_contents q = []"
  by (auto simp: dequeue_def Let_def fq_contents_def fq_live_def fq_count_def ring_list_def unat_eq_0)

section \<open>Bulk operations\<close>

lemma grow_until_spec:
  assumes "qenv_ok env" "fq_inv env q"
  shows "\<exists>r. grow_until env need q = Some r \<and> (\<forall>q'. r = Some q' \<longrightarrow> fq_inv env q'
    \<and> fq_contents q' = fq_contents q \<and> fq_count q' = fq_count q \<and> unat need \<le> length (fq_buffer q'))"
proof -
  obtain k where "shape env k q" using assms(2) by (rule fq_invD)
  then show ?thesis
    using assms(2)
  proof (induction "63 - k" arbitrary: k q rule: less_induct)
    case less
    note d = shapeD [OF less.prems(1)]
    show ?case
    proof (cases "need > fq_capacity q")
      case False
      then have "unat need \<le> length (fq_buffer q)" 
        unfolding d(2) [symmetric] by (simp add: word_le_nat_alt not_less)
      then show ?thesis using False less.prems by (subst grow_until.simps) simp
    next
      case True
      show ?thesis
      proof (cases "grow env q")
        case None
        then show ?thesis using True by (subst grow_until.simps) simp
      next
        case (Some q1)
        note g = grow_spec [OF assms(1) less.prems(2) Some]
        then obtain k1 where k1: "shape env k1 q1" by (meson fq_invD)
        have "(2::nat) ^ k1 = 2 ^ Suc k" using g shapeD [OF k1] d by simp
        then have "k1 = Suc k" by (metis power_inject_exp one_less_numeral_iff semiring_norm(76))
        then have "63 - k1 < 63 - k" using d by simp
        from less.hyps [OF this k1] g show ?thesis using True Some
          by (subst grow_until.simps) auto
      qed
    qed
  qed
qed

lemma wrap_cases:
  fixes L s c :: nat
  assumes "s < L" "0 < c" "c \<le> L"
  shows "s < (s + c) mod L \<Longrightarrow> s + c \<le> L" "\<not> s < (s + c) mod L \<Longrightarrow> L \<le> s + c"
  using assms by (auto simp: mod_if split: if_splits)

lemma write_loop_cells:
  assumes "shape env k q" "length buf = length (fq_buffer q)"
  shows "write_loop q start i xs buf = ring_write buf (unat start + i) (map Some xs)"
  using assms(2) by (induction xs arbitrary: i buf) (simp_all add: ring_pos [OF assms(1)])

lemma bulk_store_cells:
  assumes sh: "shape env k q" and xs: "xs \<noteq> []" "length xs \<le> length (fq_buffer q)"
  shows "bulk_store env q start xs = ring_write (fq_buffer q) (unat start) (map Some xs)"
proof (cases "triv_copy env")
  case False
  then show ?thesis by (simp add: bulk_store_def Let_def write_loop_cells [OF sh])
next
  case True
  let ?L = "length (fq_buffer q)" and ?s = "unat start mod length (fq_buffer q)"
  note d = shapeD [OF sh]
  have L: "?s < ?L" "0 < length xs" using d xs by auto
  have e: "unat (start + of_nat (length xs) AND fq_mask q) = (?s + length xs) mod ?L"
    using ring_pos [OF sh] by (simp add: mod_simps)
  have s: "unat (start AND fq_mask q) = ?s" by (rule ring_pos0 [OF sh])
  have fp: "unat (fq_capacity q - (start AND fq_mask q)) = ?L - ?s"
    using L(1) s d(2) by (subst unat_sub) (simp_all add: word_le_nat_alt)
  show ?thesis
  proof (cases "?s < (?s + length xs) mod ?L")
    case lt: True
    then show ?thesis
      using True wrap_cases(1) [OF L xs(2)] ring_write_blit [of "unat start" "fq_buffer q" "map Some xs"]
      by (simp add: bulk_store_def Let_def word_less_nat_alt e s)
  next
    case ge: False
    let ?f = "?L - ?s"
    have f: "?f \<le> length xs" using wrap_cases(2) [OF L xs(2) ge] by simp
    have "ring_write (fq_buffer q) (unat start) (map Some (take ?f xs) @ map Some (drop ?f xs))
        = blit 0 (map Some (drop ?f xs)) (blit ?s (map Some (take ?f xs)) (fq_buffer q))"
      using f L xs(2) by (intro ring_write_two_blits) auto
    then show ?thesis
      using ge True by (simp add: bulk_store_def Let_def word_less_nat_alt e s fp flip: map_append)
  qed
qed

lemma enqueue_bulk_refines:
  assumes "qenv_ok env" "fq_inv env q" "length xs < 2 ^ 62"
  shows "\<exists>r. enqueue_bulk env xs q = Some r \<and> (\<forall>n q'. r = Some (n, q') \<longrightarrow>
    unat n = length xs \<and> fq_inv env q' \<and> fq_contents q' = fq_contents q @ xs)"
proof (cases "xs = []")
  case True
  then show ?thesis using assms by (simp add: enqueue_bulk_def)
next
  case False
  have cnt: "unat (of_nat (length xs) :: u64) = length xs"
    using assms(3) by (intro unat_of_nat_small) simp
  then have nz: "(of_nat (length xs) :: u64) \<noteq> 0" using False by (metis length_0_conv unat_0)
  obtain k where sh: "shape env k q" and c: "fq_count q \<le> length (fq_buffer q)"
    using assms(2) by (rule fq_invD)
  have need: "unat (fq_tail q - fq_head q + of_nat (length xs)) = fq_count q + length xs"
    using fq_count_less [OF sh c] assms(3) cnt
    by (simp add: unat_word_ariths fq_count_def)
  obtain r where r: "grow_until env (fq_tail q - fq_head q + of_nat (length xs)) q = Some r"
    and rs: "\<And>q1. r = Some q1 \<Longrightarrow> fq_inv env q1 \<and> fq_contents q1 = fq_contents q
      \<and> fq_count q1 = fq_count q \<and> fq_count q + length xs \<le> length (fq_buffer q1)"
    using grow_until_spec [OF assms(1,2)] need by metis
  show ?thesis
  proof (cases r)
    case None
    then show ?thesis using r nz by (simp add: enqueue_bulk_def Let_def)
  next
    case (Some q1)
    note s = rs [OF Some]
    then obtain k1 where sh1: "shape env k1 q1" by (meson fq_invD)
    have "fq_inv env (q1\<lparr>fq_buffer := bulk_store env q1 (fq_tail q1) xs, fq_tail := fq_tail q1 + of_nat (length xs)\<rparr>)
      \<and> fq_contents (q1\<lparr>fq_buffer := bulk_store env q1 (fq_tail q1) xs, fq_tail := fq_tail q1 + of_nat (length xs)\<rparr>)
        = fq_contents q1 @ xs"
      using s by (intro append_write [OF _ _ _ refl] bulk_store_cells [OF sh1 False]) auto
    then show ?thesis using r Some nz s cnt by (simp add: enqueue_bulk_def Let_def)
  qed
qed

text \<open>Emplacing in bulk is the element-wise variant of \<open>enqueue_bulk\<close>.\<close>

lemma enqueue_bulk_emplace_eq:
  "\<not> triv_copy env \<Longrightarrow> enqueue_bulk_emplace env xs q = enqueue_bulk env xs q"
  unfolding enqueue_bulk_emplace_def enqueue_bulk_def Let_def
  by (auto simp: bulk_store_def Let_def split: option.split)

lemma bulk_load_cells:
  assumes sh: "shape env k q" and n0: "0 < unat w" "unat w \<le> length (fq_buffer q)"
  shows "bulk_load env q w = map the (ring_list (fq_buffer q) (unat (fq_head q)) (unat w))"
proof (cases "triv_copy env")
  case False
  then show ?thesis
    by (simp add: bulk_load_def Let_def read_loop_def ring_pos [OF sh] ring_list_def)
next
  case True
  let ?n = "unat w" and ?L = "length (fq_buffer q)" and ?h = "unat (fq_head q)"
  let ?s = "?h mod ?L"
  note d = shapeD [OF sh]
  have sL: "?s < ?L" using d by simp
  have s: "unat (fq_head q AND fq_mask q) = ?s" by (rule ring_pos0 [OF sh])
  have e: "unat (fq_head q + w AND fq_mask q) = (?s + ?n) mod ?L"
    using ring_pos [OF sh, of "fq_head q" ?n] by (simp add: mod_simps)
  have fp: "unat (fq_capacity q - (fq_head q AND fq_mask q)) = ?L - ?s"
    using sL s d(2) by (subst unat_sub) (simp_all add: word_le_nat_alt)
  show ?thesis
  proof (cases "?s < (?s + ?n) mod ?L")
    case lt: True
    then show ?thesis using True wrap_cases(1) [OF sL n0]
      by (simp add: bulk_load_def Let_def word_less_nat_alt s e ring_list_one_block)
  next
    case ge: False
    then have "?L - ?s \<le> ?n" using wrap_cases(2) [OF sL n0] by simp
    then have "ring_list (fq_buffer q) ?h ?n = drop ?s (fq_buffer q) @ take (?n - (?L - ?s)) (fq_buffer q)"
      using ring_list_two_blocks [of ?h "fq_buffer q" "?L - ?s" "?n - (?L - ?s)"] sL n0 by simp
    then show ?thesis using ge True
      by (simp add: bulk_load_def Let_def word_less_nat_alt s e fp)
  qed
qed

lemma dequeue_bulk_refines:
  assumes "qenv_ok env" "fq_inv env q" "dequeue_bulk env m q = (out, q')"
  shows "out = take (unat m) (fq_contents q) \<and> fq_inv env q' \<and> fq_contents q' = drop (unat m) (fq_contents q)"
proof (cases "fq_count q = 0 \<or> m = 0")
  case True
  then have "fq_tail q - fq_head q = 0 \<or> m = 0" by (metis fq_count_def unat_eq_0)
  then show ?thesis using assms True length_fq_contents [of q]
    by (auto simp: dequeue_bulk_def Let_def simp del: length_fq_contents)
next
  case False
  obtain k where sh: "shape env k q" and c: "fq_count q \<le> length (fq_buffer q)"
    using assms(2) by (rule fq_invD)
  define w where "w = (if fq_tail q - fq_head q < m then fq_tail q - fq_head q else m)"
  let ?n = "unat w"
  have n: "?n = min (fq_count q) (unat m)" by (auto simp: w_def fq_count_def word_less_nat_alt)
  then have nc: "?n \<le> fq_count q" by simp
  have av: "fq_tail q - fq_head q \<noteq> 0" using False unfolding fq_count_def by (metis unat_0)
  have n0: "0 < ?n" "?n \<le> length (fq_buffer q)" using n False c by (auto simp: unat_gt_0)
  let ?b = "if triv_copy env then fq_buffer q else destroy_loop q [0..<?n] (fq_buffer q)"
  let ?q1 = "q\<lparr>fq_buffer := ?b, fq_head := fq_head q + w\<rparr>"
  have step: "out = bulk_load env q w" "q' = normalize_if_empty ?q1"
    using assms(3) av False unfolding dequeue_bulk_def w_def by (auto simp: Let_def)
  have tk: "take ?n (fq_contents q) = map the (ring_list (fq_buffer q) (unat (fq_head q)) ?n)"
    using n ring_list_append [of "fq_buffer q" "unat (fq_head q)" ?n "fq_count q - ?n"]
    by (simp add: fq_contents_def fq_live_def take_map)
  have "fq_inv env ?q1 \<and> fq_contents ?q1 = drop ?n (fq_contents q)"
  proof (cases "triv_copy env")
    case True
    then show ?thesis using assms(1) nc
      by (intro drop_cells [OF assms(2) _ disjI1]) (auto simp: qenv_ok_def)
  next
    case False
    then show ?thesis using nc n0 destroy_loop_cells [OF sh refl, of 0 ?n]
      by (intro drop_cells [OF assms(2) _ disjI2]) auto
  qed
  moreover have "take ?n (fq_contents q) = take (unat m) (fq_contents q)"
    "drop ?n (fq_contents q) = drop (unat m) (fq_contents q)"
    using n by (auto simp: min_def)
  ultimately show ?thesis
    using step tk bulk_load_cells [OF sh n0] normalize_inv [of env ?q1] by simp
qed

section \<open>Construction and destruction\<close>

lemma fq_new_spec:
  assumes "qenv_ok env" "unat cap \<le> 2 ^ 63" "unat (sizeof_T env) * unat (next_pow2 cap) < 2 ^ 64"
    "fq_new env cap = Some q"
  shows "fq_inv env q \<and> fq_contents q = [] \<and> fq_head q = 0 \<and> fq_tail q = 0
    \<and> unat cap \<le> length (fq_buffer q)"
proof -
  obtain b where b: "alloc_items env (next_pow2 cap) = Some b" and
    q: "q = \<lparr>fq_buffer = b, fq_capacity = next_pow2 cap, fq_head = 0, fq_tail = 0,
      fq_mask = next_pow2 cap - 1\<rparr>"
    using assms(4) by (auto simp: fq_new_def allocate_def Let_def split: option.splits)
  note al = alloc_items_Some [OF assms(1) b assms(3)]
  obtain k where k: "unat (next_pow2 cap) = 2 ^ k" "unat cap \<le> 2 ^ k" "k \<le> 63"
    using next_pow2_least [OF assms(2)] by blast
  have "k < 63"
  proof (rule ccontr)
    assume "\<not> k < 63"
    with k(3) have "k = 63" by simp
    moreover have "1 * 2 ^ k \<le> unat (sizeof_T env) * 2 ^ k"
      using assms(1) by (intro mult_le_mono1) (simp add: qenv_ok_def)
    ultimately show False using al(2) k by simp
  qed
  have "next_pow2 cap = 2 ^ k"
    using k unat_pow2 [of k] by (simp add: word_unat_eq_iff)
  then have "shape env k q"
    using \<open>k < 63\<close> al k by (simp add: shape_def q mask_eq_exp_minus_1)
  moreover have "set (fq_dead q) \<subseteq> {None}"
    using set_ring_list_full [of b 0] al(1) by (auto simp: fq_dead_def q fq_count_def)
  ultimately show ?thesis using k al(1)
    by (auto simp: fq_inv_def fq_contents_def fq_live_def q fq_count_def)
qed

lemma destroy_all_spec:
  assumes "fq_inv env q" "\<not> triv_destr env"
  shows "set (fq_buffer (destroy_all env q)) \<subseteq> {None} \<and> fq_empty (destroy_all env q)"
proof -
  obtain k where sh: "shape env k q" and c: "fq_count q \<le> length (fq_buffer q)"
    using assms(1) by (rule fq_invD)
  let ?b = "destroy_loop q [0..<fq_count q] (fq_buffer q)"
  let ?q = "q\<lparr>fq_buffer := ?b, fq_head := fq_head q + of_nat (fq_count q)\<rparr>"
  have q: "destroy_all env q = ?q"
    using assms(2) by (simp add: destroy_all_def fq_size_def fq_count_def)
  have "fq_inv env ?q"
    using drop_cells [OF assms(1) order_refl _ refl, of ?b] destroy_loop_cells [OF sh refl, of 0 "fq_count q"] c
    by simp
  moreover have "fq_count ?q = 0" by (simp add: fq_count_def)
  ultimately have "set (fq_buffer ?q) \<subseteq> {None}"
    using assms(2) fq_invD [of env ?q] set_ring_list_full [of "fq_buffer ?q" "unat (fq_head ?q)"]
    by (simp add: fq_dead_def) (metis fq_dead_def add_0_right diff_zero fq_invD)
  then show ?thesis by (simp add: q fq_empty_def fq_count_def)
qed

interpretation fq: fifo "\<lambda>q. qenv_ok env \<and> fq_inv env q" fq_contents "enqueue env" "dequeue env" for env
  by unfold_locales (auto simp: dequeue_None dest: enqueue_refines dequeue_refines)

section \<open>The fixed-size ring\<close>

record 'a ringq =
  rq_buffer :: "'a list"
  rq_head :: u64
  rq_tail :: u64

definition rq_enqueue :: "'a \<Rightarrow> 'a ringq \<Rightarrow> 'a ringq option" where
  "rq_enqueue item q = (let cap = of_nat (length (rq_buffer q)); next_tail = (rq_tail q + 1) AND (cap - 1) in
     if next_tail = rq_head q then None
     else Some (q\<lparr>rq_buffer := (rq_buffer q)[unat (rq_tail q) := item], rq_tail := next_tail\<rparr>))"

definition rq_dequeue :: "'a ringq \<Rightarrow> ('a \<times> 'a ringq) option" where
  "rq_dequeue q = (let cap = of_nat (length (rq_buffer q)) in
     if rq_head q = rq_tail q then None
     else Some (rq_buffer q ! unat (rq_head q), q\<lparr>rq_head := (rq_head q + 1) AND (cap - 1)\<rparr>))"

definition rq_len :: "'a ringq \<Rightarrow> nat" where
  "rq_len q = (unat (rq_tail q) + length (rq_buffer q) - unat (rq_head q)) mod length (rq_buffer q)"

definition rq_contents :: "'a ringq \<Rightarrow> 'a list" where
  "rq_contents q = ring_list (rq_buffer q) (unat (rq_head q)) (rq_len q)"

definition rq_inv :: "'a ringq \<Rightarrow> bool" where
  "rq_inv q \<longleftrightarrow> (\<exists>k<64. length (rq_buffer q) = 2 ^ k) \<and> unat (rq_head q) < length (rq_buffer q)
     \<and> unat (rq_tail q) < length (rq_buffer q)"

lemma rq_next:
  fixes p :: u64
  assumes "length b = 2 ^ k" "k < 64" "unat p < length b"
  shows "unat ((p + 1) AND (of_nat (length b) - 1)) = (unat p + 1) mod length b"
proof -
  have "(of_nat (length b) :: u64) - 1 = mask k"
    using assms by (simp add: mask_eq_exp_minus_1)
  then show ?thesis using unat_ring_index [of k p 1] assms by simp
qed

lemma ring_dist:
  fixes L h t :: nat
  assumes "h < L" "t < L"
  shows "(h + (t + L - h) mod L) mod L = t"
    "(t + 1) mod L = h \<longleftrightarrow> (t + L - h) mod L = L - 1"
    "(t + 1) mod L \<noteq> h \<Longrightarrow> ((t + 1) mod L + L - h) mod L = (t + L - h) mod L + 1"
    "h \<noteq> t \<Longrightarrow> (t + L - (h + 1) mod L) mod L = (t + L - h) mod L - 1"
    "(t + L - h) mod L = 0 \<longleftrightarrow> h = t"
  using assms by (auto simp: mod_if split: if_splits)

lemma rq_enqueue_Some:
  assumes "rq_inv q" "rq_enqueue x q = Some q'"
  shows "rq_inv q' \<and> rq_contents q' = rq_contents q @ [x] \<and> length (rq_buffer q') = length (rq_buffer q)"
proof -
  let ?b = "rq_buffer q" and ?h = "unat (rq_head q)" and ?t = "unat (rq_tail q)"
  obtain k where k: "length ?b = 2 ^ k" "k < 64" and ht: "?h < length ?b" "?t < length ?b"
    using assms(1) by (auto simp: rq_inv_def)
  note nx = rq_next [OF k ht(2)]
  from assms(2) have ne: "(?t + 1) mod length ?b \<noteq> ?h"
    and q': "q' = q\<lparr>rq_buffer := ?b[?t := x], rq_tail := (rq_tail q + 1) AND (of_nat (length ?b) - 1)\<rparr>"
    using nx by (auto simp: rq_enqueue_def Let_def word_unat_eq_iff split: if_splits)
  note rd = ring_dist [OF ht]
  have len: "rq_len q' = Suc (rq_len q)" using rd(3) [OF ne] nx by (simp add: rq_len_def q')
  have "rq_len q < length ?b" using k by (simp add: rq_len_def)
  moreover have "rq_contents q' = ring_list (?b[(?h + rq_len q) mod length ?b := x]) ?h (Suc (rq_len q))"
    using rd(1) unfolding rq_contents_def len by (simp add: q' rq_len_def)
  ultimately have "rq_contents q' = rq_contents q @ [x]"
    by (simp add: ring_list_update_tail rq_contents_def)
  moreover have "rq_inv q'" using k ht nx by (auto simp: rq_inv_def q')
  ultimately show ?thesis by (simp add: q')
qed

lemma rq_dequeue_Some:
  assumes "rq_inv q" "rq_dequeue q = Some (x, q')"
  shows "rq_inv q' \<and> rq_contents q = x # rq_contents q' \<and> length (rq_buffer q') = length (rq_buffer q)"
proof -
  let ?b = "rq_buffer q" and ?h = "unat (rq_head q)" and ?t = "unat (rq_tail q)"
  obtain k where k: "length ?b = 2 ^ k" "k < 64" and ht: "?h < length ?b" "?t < length ?b"
    using assms(1) by (auto simp: rq_inv_def)
  note nx = rq_next [OF k ht(1)]
  from assms(2) have ne: "?h \<noteq> ?t" and x: "x = ?b ! ?h"
    and q': "q' = q\<lparr>rq_head := (rq_head q + 1) AND (of_nat (length ?b) - 1)\<rparr>"
    by (auto simp: rq_dequeue_def Let_def word_unat_eq_iff split: if_splits)
  note rd = ring_dist [OF ht]
  have "rq_len q \<noteq> 0" using rd(5) ne by (simp add: rq_len_def)
  moreover have "rq_len q' = rq_len q - 1" using rd(4) [OF ne] nx by (simp add: rq_len_def q')
  ultimately have len: "rq_len q = Suc (rq_len q')" by simp
  have "rq_contents q = ?b ! ?h # ring_list ?b (Suc ?h) (rq_len q')"
    using ht unfolding rq_contents_def len by (simp add: ring_list_Cons)
  also have "ring_list ?b (Suc ?h) (rq_len q') = rq_contents q'"
    using nx unfolding rq_contents_def by (simp add: q') (rule ring_list_head_mod, simp)
  finally show ?thesis using x k ht nx by (auto simp: rq_inv_def q')
qed

lemma rq_enqueue_None:
  assumes "rq_inv q"
  shows "rq_enqueue x q = None \<longleftrightarrow> length (rq_contents q) = length (rq_buffer q) - 1"
proof -
  obtain k where k: "length (rq_buffer q) = 2 ^ k" "k < 64"
    and ht: "unat (rq_head q) < length (rq_buffer q)" "unat (rq_tail q) < length (rq_buffer q)"
    using assms by (auto simp: rq_inv_def)
  have "rq_enqueue x q = None \<longleftrightarrow> (unat (rq_tail q) + 1) mod length (rq_buffer q) = unat (rq_head q)"
    using rq_next [OF k ht(2)] by (auto simp: rq_enqueue_def Let_def word_unat_eq_iff)
  then show ?thesis using ring_dist(2) [OF ht] by (simp add: rq_contents_def rq_len_def)
qed

lemma rq_dequeue_None:
  assumes "rq_inv q"
  shows "rq_dequeue q = None \<longleftrightarrow> rq_contents q = []"
proof -
  have "rq_dequeue q = None \<longleftrightarrow> rq_len q = 0"
    using assms ring_dist(5) [of "unat (rq_head q)" "length (rq_buffer q)" "unat (rq_tail q)"]
    by (auto simp: rq_dequeue_def Let_def rq_inv_def rq_len_def word_unat_eq_iff)
  then show ?thesis by (metis length_0_conv length_ring_list rq_contents_def)
qed

text \<open>A \<open>RingQueue\<close> of \<open>Capacity\<close> cells is a bounded queue of \<open>Capacity - 1\<close> elements.\<close>

interpretation rq: bounded_fifo rq_inv rq_contents rq_enqueue rq_dequeue "\<lambda>q. length (rq_buffer q) - 1"
  by unfold_locales
    (auto simp: rq_enqueue_None rq_dequeue_None dest: rq_enqueue_Some rq_dequeue_Some)

section \<open>Properties\<close>

text \<open>
  C5. Starting from a constructed \<open>Queue\<close>, any sequence of \<open>enqueue\<close> and \<open>dequeue\<close> calls, whatever
  growth, index wrap-around and refused allocations happen on the way, delivers exactly the accepted
  elements in the order of acceptance; what was accepted and not delivered is still stored, and the
  storage invariant (live cells constructed, dead cells of a non-trivial type destroyed) holds.
\<close>

theorem fast_queue_fifo:
  assumes "qenv_ok env" "unat cap \<le> 2 ^ 63" "unat (sizeof_T env) * unat (next_pow2 cap) < 2 ^ 64"
    "fq_new env cap = Some q" "q_run (enqueue env) (dequeue env) ops q = (accepted, delivered, q')"
  shows "fq_inv env q' \<and> accepted = delivered @ fq_contents q'"
  using fq.run_fifo [OF _ assms(5)] fq_new_spec [OF assms(1-4)] assms(1) by simp

definition demo_env :: qenv where
  "demo_env = \<lparr>sizeof_T = 8, grants = (\<lambda>b. b \<le> 4096), triv_copy = False, triv_destr = False\<rparr>"

lemma demo_env_ok: "qenv_ok demo_env"
proof -
  have "unat b < 2 ^ 63" if "b \<le> (4096::u64)" for b
    using that by (simp add: word_le_nat_alt)
  then show ?thesis by (simp add: qenv_ok_def demo_env_def)
qed

lemmas fq_eval = enqueue_def dequeue_def grow_def fq_size_def alloc_items_def destroy_cell_def
  normalize_if_empty_def fq_new_def allocate_def next_pow2_def or_shift_def Let_def upt_rec

theorem fast_queue_fifo_witness:
  "\<exists>q q'. fq_new demo_env 1 = Some q
    \<and> q_run (enqueue demo_env) (dequeue demo_env) [Enq 1, Enq 2, Deq, Enq 3, Enq 4, Deq] q
        = ([1, 2, 3, 4::nat], [1, 2], q')
    \<and> fq_inv demo_env q' \<and> [1, 2, 3, 4] = [1, 2] @ fq_contents q'"
proof -
  obtain q :: "nat fq" and q' where n: "fq_new demo_env 1 = Some q" and
    r: "q_run (enqueue demo_env) (dequeue demo_env) [Enq 1, Enq 2, Deq, Enq 3, Enq 4, Deq] q
        = ([1, 2, 3, 4], [1, 2], q')"
    by (simp add: fq_eval demo_env_def)
  have p: "unat (1::u64) \<le> 2 ^ 63" "unat (sizeof_T demo_env) * unat (next_pow2 1) < 2 ^ 64"
    by (simp_all add: demo_env_def next_pow2_def or_shift_def)
  from fast_queue_fifo [OF demo_env_ok p n r] show ?thesis using n r by blast
qed

text \<open>
  The bulk operations agree with the list they move: \<open>enqueue_bulk\<close> always returns (its growth
  loop ends) and, unless an allocation is refused, appends the whole array; a following
  \<open>dequeue_bulk\<close> hands out the longest possible prefix in order and keeps the rest, in both the
  \<open>memcpy\<close> and the element-wise variant, also when the window wraps around the array.
\<close>

theorem fast_queue_bulk:
  assumes "qenv_ok env" "fq_inv env q" "length xs < 2 ^ 62"
  shows "\<exists>r. enqueue_bulk env xs q = Some r \<and> (\<forall>n q1. r = Some (n, q1) \<longrightarrow>
      unat n = length xs \<and> fq_inv env q1 \<and> fq_contents q1 = fq_contents q @ xs
      \<and> (\<forall>m out q2. dequeue_bulk env m q1 = (out, q2) \<longrightarrow>
           out = take (unat m) (fq_contents q @ xs)
         \<and> fq_inv env q2 \<and> fq_contents q2 = drop (unat m) (fq_contents q @ xs)))"
  using enqueue_bulk_refines [OF assms] dequeue_bulk_refines [OF assms(1)] by metis

definition demo_env_triv :: qenv where
  "demo_env_triv = \<lparr>sizeof_T = 4, grants = (\<lambda>b. b \<le> 4096), triv_copy = True, triv_destr = True\<rparr>"

definition demo_wrapped :: "nat fq" where
  "demo_wrapped = \<lparr>fq_buffer = [Some 3, Some 7, Some 1, Some 2], fq_capacity = 4, fq_head = 2,
     fq_tail = 5, fq_mask = 3\<rparr>"

lemma demo_env_triv_ok: "qenv_ok demo_env_triv"
  using demo_env_ok by (simp add: qenv_ok_def demo_env_def demo_env_triv_def)

lemma demo_wrapped_inv: "fq_inv demo_env_triv demo_wrapped"
  unfolding fq_inv_def
  by (intro conjI exI [of _ 2]) (simp_all add: demo_wrapped_def demo_env_triv_def shape_def
      fq_count_def fq_live_def fq_dead_def ring_list_def mask_eq_exp_minus_1 upt_rec)

theorem fast_queue_bulk_witness:
  "\<exists>n q1. enqueue_bulk demo_env_triv [4] demo_wrapped = Some (Some (n, q1))
     \<and> fq_contents q1 = [1, 2, 3, 4] \<and> fst (dequeue_bulk demo_env_triv 3 q1) = [1, 2, 3]"
proof -
  have c: "fq_contents demo_wrapped = [1, 2, 3]"
    by (simp add: demo_wrapped_def fq_contents_def fq_live_def fq_count_def ring_list_def upt_rec)
  obtain n q1 where e: "enqueue_bulk demo_env_triv [4] demo_wrapped = Some (Some (n, q1))"
    by (simp add: enqueue_bulk_def demo_wrapped_def grow_until.simps)
  have "length [4::nat] < 2 ^ 62" by simp
  from fast_queue_bulk [OF demo_env_triv_ok demo_wrapped_inv this] e
  have "fq_contents q1 = [1, 2, 3] @ [4]"
    "fst (dequeue_bulk demo_env_triv 3 q1) = take (unat (3::u64)) ([1, 2, 3] @ [4])"
    unfolding c by (metis option.inject prod.collapse)+
  then show ?thesis using e by simp
qed

text \<open>\<open>next_pow2\<close>, the shift-and-or cascade that sizes every power-of-two buffer, returns the least
  power of two that is at least its argument, for every argument up to \<open>2^63\<close>.
\<close>

theorem next_pow2_correct:
  assumes "unat x \<le> 2 ^ 63"
  shows "unat (next_pow2 x) = (LEAST p. unat x \<le> p \<and> (\<exists>k. p = 2 ^ k))"
proof -
  obtain k where k: "unat (next_pow2 x) = 2 ^ k" "unat x \<le> 2 ^ k" "\<And>j. unat x \<le> 2 ^ j \<Longrightarrow> k \<le> j"
    using next_pow2_least [OF assms] by blast
  show ?thesis unfolding k(1)
    by (rule Least_equality [symmetric]) (use k(2,3) in \<open>auto intro: power_increasing\<close>)
qed

theorem next_pow2_correct_witness:
  "unat (next_pow2 5) = (LEAST p. unat (5::u64) \<le> p \<and> (\<exists>k. p = 2 ^ k)) \<and> next_pow2 5 = 8"
  using next_pow2_correct [of 5] by (simp add: next_pow2_def or_shift_def)

end
