(* ===== verification/Timer_Wheel.thy ===== *)
theory Timer_Wheel
  imports Uvent_Prelude
begin

text \<open>
  The hierarchical timer wheel: \<open>utils/timer/Timer.h\<close>, \<open>Timer.cpp\<close>, \<open>TimerWheel.h\<close> and
  \<open>TimerWheel.cpp\<close>. Timers live in a store indexed by pointers; buckets hold pointers, as in the
  code, and every timer carries its back-references \<open>level\<close>, \<open>slotIndex\<close> and \<open>posInBucket\<close>. The
  steady clock is a sequence of readings, consumed one by one by \<open>getCurrentTime\<close>. Coroutine
  handles, raw callbacks and their arguments are opaque numbers; resuming a coroutine, destroying
  one and calling a callback are recorded in the logs \<open>ready\<close>, \<open>destroyed\<close> and \<open>called\<close>. The
  operations queue is used through its contents, a list.
\<close>

section \<open>Data\<close>

type_synonym ptr = nat
type_synonym coro_handle = nat
type_synonym raw_call = "nat \<times> nat"

record Timer =
  expiryTime :: u64
  duration_ms :: u64
  coro :: "coro_handle option"
  raw_fn :: "nat option"
  raw_arg :: nat
  heap :: bool
  active :: bool
  id_of :: u64
  slotIndex :: nat
  level :: nat
  posInBucket :: nat

datatype Op =
  ADD ptr u64
| UPDATE u64 u64
| REMOVE u64 "raw_call option"

record Wheel =
  slots :: u64
  interval :: u64
  buckets :: "ptr list list"

record tw =
  wheels :: "Wheel list"
  currentTime :: u64
  timerMap :: "u64 \<rightharpoonup> ptr"
  timerIdCounter :: u64
  nextExpiryTime :: u64
  nextExpiryDirty :: bool
  activeTimerCount :: u64
  opsq :: "Op list"
  fired_raw :: "raw_call list"
  cancelledPending :: "u64 set"
  detachedPending :: "u64 set"
  maxAddedId :: u64
  mem :: "ptr \<rightharpoonup> Timer"
  clock :: "nat \<Rightarrow> u64"
  reads :: nat
  ready :: "coro_handle list"
  destroyed :: "coro_handle list"
  called :: "raw_call list"

definition deref :: "tw \<Rightarrow> ptr \<Rightarrow> Timer" where
  "deref s p = the (mem s p)"

definition upd :: "ptr \<Rightarrow> (Timer \<Rightarrow> Timer) \<Rightarrow> tw \<Rightarrow> tw" where
  "upd p f s = s\<lparr>mem := (mem s)(p \<mapsto> f (deref s p))\<rparr>"

section \<open>Timers\<close>

definition Timer_new :: "u64 \<Rightarrow> Timer" where
  "Timer_new duration = \<lparr>expiryTime = 0, duration_ms = duration, coro = None, raw_fn = None,
     raw_arg = 0, heap = True, active = True, id_of = 0, slotIndex = 0, level = 0, posInBucket = 0\<rparr>"

definition bind :: "coro_handle \<Rightarrow> Timer \<Rightarrow> Timer" where
  "bind h t = t\<lparr>coro := Some h, active := True\<rparr>"

text \<open>\<open>addFunction\<close> wraps the callback into a fresh coroutine, whose handle is the argument here.\<close>

definition addFunction :: "coro_handle \<Rightarrow> Timer \<Rightarrow> Timer" where
  "addFunction h t = t\<lparr>coro := Some h\<rparr>"

definition addCoroutine :: "coro_handle \<Rightarrow> Timer \<Rightarrow> Timer" where
  "addCoroutine h t = t\<lparr>coro := Some h, active := True\<rparr>"

definition arm_raw :: "u64 \<Rightarrow> nat \<Rightarrow> nat \<Rightarrow> Timer \<Rightarrow> Timer" where
  "arm_raw dur f arg t = t\<lparr>duration_ms := dur, raw_fn := Some f, raw_arg := arg, coro := None, active := True\<rparr>"

definition arm_embedded :: "u64 \<Rightarrow> nat \<Rightarrow> nat \<Rightarrow> Timer \<Rightarrow> Timer" where
  "arm_embedded dur f arg t = t\<lparr>duration_ms := dur, heap := False, raw_fn := Some f, raw_arg := arg,
     coro := None, active := True\<rparr>"

section \<open>The wheel\<close>

definition Wheel_new :: "nat \<Rightarrow> u64 \<Rightarrow> Wheel" where
  "Wheel_new n iv = \<lparr>slots = of_nat n, interval = iv, buckets = replicate n []\<rparr>"

definition TimerWheel_new :: "nat \<Rightarrow> (ptr \<rightharpoonup> Timer) \<Rightarrow> (nat \<Rightarrow> u64) \<Rightarrow> tw" where
  "TimerWheel_new tw_levels m ck = \<lparr>
     wheels = map (\<lambda>i. Wheel_new 256 (push_bit (8 * i) 1)) [0..<tw_levels],
     currentTime = ck 0, timerMap = Map.empty, timerIdCounter = 0, nextExpiryTime = 0,
     nextExpiryDirty = False, activeTimerCount = 0, opsq = [], fired_raw = [],
     cancelledPending = {}, detachedPending = {}, maxAddedId = 0,
     mem = m, clock = ck, reads = 1, ready = [], destroyed = [], called = []\<rparr>"

definition getCurrentTime :: "tw \<Rightarrow> u64 \<times> tw" where
  "getCurrentTime s = (clock s (reads s), s\<lparr>reads := Suc (reads s)\<rparr>)"

definition addTimer :: "ptr \<Rightarrow> tw \<Rightarrow> u64 \<times> tw" where
  "addTimer p s = (let (now, s1) = getCurrentTime s;
       i = timerIdCounter s1 + 1;
       s2 = upd p (\<lambda>t. t\<lparr>expiryTime := now + duration_ms t, id_of := i\<rparr>) (s1\<lparr>timerIdCounter := i\<rparr>) in
     (i, s2\<lparr>opsq := opsq s2 @ [ADD p i]\<rparr>))"

definition updateTimer :: "u64 \<Rightarrow> u64 \<Rightarrow> tw \<Rightarrow> bool \<times> tw" where
  "updateTimer timerId new_duration s = (True, s\<lparr>opsq := opsq s @ [UPDATE timerId new_duration]\<rparr>)"

definition removeTimer :: "u64 \<Rightarrow> raw_call option \<Rightarrow> tw \<Rightarrow> bool \<times> tw" where
  "removeTimer timerId done_call s = (True, s\<lparr>opsq := opsq s @ [REMOVE timerId done_call]\<rparr>)"

text \<open>\<open>while (level + 1 < wheels_.size() && diff >= interval_ * slots_) ++level;\<close>\<close>

function find_level :: "Wheel list \<Rightarrow> nat \<Rightarrow> u64 \<Rightarrow> nat" where
  "find_level ws lv diff = (if lv + 1 < length ws \<and> diff \<ge> interval (ws ! lv) * slots (ws ! lv)
     then find_level ws (lv + 1) diff else lv)"
  by pat_completeness auto
termination by (relation "measure (\<lambda>(ws, lv, _). length ws - lv)") auto

declare find_level.simps [simp del]

definition put_bucket :: "nat \<Rightarrow> nat \<Rightarrow> ptr list \<Rightarrow> tw \<Rightarrow> tw" where
  "put_bucket lv k b s = s\<lparr>wheels := (wheels s)[lv := (wheels s ! lv)
     \<lparr>buckets := (buckets (wheels s ! lv))[k := b]\<rparr>]\<rparr>"

definition bucket :: "tw \<Rightarrow> nat \<Rightarrow> nat \<Rightarrow> ptr list" where
  "bucket s lv k = buckets (wheels s ! lv) ! k"

definition addTimerToWheel :: "ptr \<Rightarrow> u64 \<Rightarrow> tw \<Rightarrow> tw" where
  "addTimerToWheel p e s = (let diff = (if e > currentTime s then e - currentTime s else 0);
       lv = find_level (wheels s) 0 diff; w = wheels s ! lv; msk = slots w - 1;
       slot = unat (if diff = 0 then (currentTime s + 1) AND msk else (e div interval w) AND msk);
       s1 = upd p (\<lambda>t. t\<lparr>level := lv, slotIndex := slot, posInBucket := length (bucket s lv slot)\<rparr>) s;
       s2 = put_bucket lv slot (bucket s lv slot @ [p]) s1 in
     if nextExpiryTime s2 = 0 \<or> e < nextExpiryTime s2 then s2\<lparr>nextExpiryTime := e\<rparr> else s2)"

text \<open>\<open>bucket[i] = bucket.back(); bucket[i]->posInBucket = i; bucket.pop_back();\<close>\<close>

definition swap_pop_at :: "nat \<Rightarrow> nat \<Rightarrow> nat \<Rightarrow> tw \<Rightarrow> tw" where
  "swap_pop_at lv k i s = (let b = bucket s lv k; s1 = put_bucket lv k (swap_pop i b) s in
     if i \<noteq> length b - 1 then upd (last b) (\<lambda>t. t\<lparr>posInBucket := i\<rparr>) s1 else s1)"

fun find_ptr :: "ptr \<Rightarrow> ptr list \<Rightarrow> nat option" where
  "find_ptr p [] = None"
| "find_ptr p (x # xs) = (if x = p then Some 0 else map_option Suc (find_ptr p xs))"

definition removeTimerFromWheel :: "ptr \<Rightarrow> tw \<Rightarrow> tw" where
  "removeTimerFromWheel p s = (let t = deref s p in
     if level t \<ge> length (wheels s) then s
     else (let b = bucket s (level t) (slotIndex t); pos = posInBucket t;
         s1 = (if pos < length b \<and> b ! pos = p then swap_pop_at (level t) (slotIndex t) pos s
               else (case find_ptr p b of None \<Rightarrow> s
                     | Some i \<Rightarrow> swap_pop_at (level t) (slotIndex t) i s)) in
       if expiryTime t = nextExpiryTime s1 then s1\<lparr>nextExpiryDirty := True\<rparr> else s1))"

definition destroy_coro :: "ptr \<Rightarrow> tw \<Rightarrow> tw" where
  "destroy_coro p s = (case coro (deref s p) of None \<Rightarrow> s
     | Some h \<Rightarrow> s\<lparr>destroyed := destroyed s @ [h]\<rparr>)"

definition delete_heap :: "ptr \<Rightarrow> tw \<Rightarrow> tw" where
  "delete_heap p s = (if heap (deref s p) then s\<lparr>mem := (mem s)(p := None)\<rparr> else s)"

text \<open>The common part of both synchronous cancels and of \<open>REMOVE\<close>: take an active timer out.\<close>

definition drop_active :: "u64 \<Rightarrow> ptr \<Rightarrow> tw \<Rightarrow> tw" where
  "drop_active i p s = (let s1 = removeTimerFromWheel p (upd p (\<lambda>t. t\<lparr>active := False\<rparr>) s) in
     s1\<lparr>timerMap := (timerMap s1)(i := None), activeTimerCount := activeTimerCount s1 - 1\<rparr>)"

definition cancelTimer :: "u64 \<Rightarrow> tw \<Rightarrow> bool \<times> tw" where
  "cancelTimer timerId s = (if timerId = 0 then (False, s)
     else case timerMap s timerId of
       None \<Rightarrow> (if timerId > maxAddedId s
          then (True, s\<lparr>cancelledPending := insert timerId (cancelledPending s)\<rparr>) else (False, s))
     | Some p \<Rightarrow> (if \<not> active (deref s p) then (False, s)
          else (True, delete_heap p (destroy_coro p (drop_active timerId p s)))))"

definition cancelTimerDetach :: "u64 \<Rightarrow> tw \<Rightarrow> bool \<times> tw" where
  "cancelTimerDetach timerId s = (if timerId = 0 then (False, s)
     else case timerMap s timerId of
       None \<Rightarrow> (if timerId > maxAddedId s
          then (True, s\<lparr>detachedPending := insert timerId (detachedPending s)\<rparr>) else (False, s))
     | Some p \<Rightarrow> (if \<not> active (deref s p) then (False, s) else (True, drop_active timerId p s)))"

definition getNextTimeout :: "tw \<Rightarrow> int \<times> tw" where
  "getNextTimeout s = (let (now, s1) = getCurrentTime s; nxt = nextExpiryTime s in
     (if nxt = 0 then -1 else if nxt \<le> now then 0
      else if nxt - now > 2147483647 then 2147483647 else uint (nxt - now), s1))"

section \<open>The cached next expiry\<close>

definition min_scan :: "tw \<Rightarrow> ptr list \<Rightarrow> u64 \<Rightarrow> u64" where
  "min_scan s ps = fold (\<lambda>p m. let t = deref s p in
     if \<not> active t then m else if m = 0 \<or> expiryTime t < m then expiryTime t else m) ps"

definition updateNextExpiryTime :: "tw \<Rightarrow> tw" where
  "updateNextExpiryTime s = s\<lparr>nextExpiryTime :=
     fold (\<lambda>w m. fold (\<lambda>b m. min_scan s b m) (buckets w) m) (wheels s) 0\<rparr>"

definition refreshNextExpiry :: "tw \<Rightarrow> tw" where
  "refreshNextExpiry s = (let s1 = (if activeTimerCount s = 0 then s\<lparr>nextExpiryTime := 0\<rparr>
       else if nextExpiryDirty s \<or> nextExpiryTime s = 0 then updateNextExpiryTime s else s) in
     s1\<lparr>nextExpiryDirty := False\<rparr>)"

section \<open>Draining queued operations\<close>

definition op_add :: "ptr \<Rightarrow> u64 \<Rightarrow> tw \<Rightarrow> tw" where
  "op_add p add_id s = (let s1 = (if add_id > maxAddedId s then s\<lparr>maxAddedId := add_id\<rparr> else s) in
     if add_id \<in> detachedPending s1 then s1\<lparr>detachedPending := detachedPending s1 - {add_id}\<rparr>
     else if add_id \<in> cancelledPending s1
       then delete_heap p (destroy_coro p (s1\<lparr>cancelledPending := cancelledPending s1 - {add_id}\<rparr>))
     else (let s2 = addTimerToWheel p (expiryTime (deref s1 p)) s1 in
       s2\<lparr>timerMap := (timerMap s2)(id_of (deref s2 p) \<mapsto> p), activeTimerCount := activeTimerCount s2 + 1\<rparr>))"

definition op_update :: "u64 \<Rightarrow> u64 \<Rightarrow> tw \<Rightarrow> tw" where
  "op_update i new_dur s = (case timerMap s i of None \<Rightarrow> s
     | Some p \<Rightarrow> (if \<not> active (deref s p) then s
        else (let s1 = removeTimerFromWheel p s;
            s2 = upd p (\<lambda>t. t\<lparr>duration_ms := new_dur\<rparr>) s1;
            (now, s3) = getCurrentTime s2;
            s4 = upd p (\<lambda>t. t\<lparr>expiryTime := now + duration_ms t\<rparr>) s3 in
          addTimerToWheel p (expiryTime (deref s4 p)) s4)))"

definition op_remove :: "u64 \<Rightarrow> raw_call option \<Rightarrow> tw \<Rightarrow> tw" where
  "op_remove i dn s = (let s1 = (case timerMap s i of
         Some p \<Rightarrow> (if active (deref s p)
            then delete_heap p (destroy_coro p (drop_active i p s)) else s)
       | None \<Rightarrow> (if i > maxAddedId s
            then s\<lparr>cancelledPending := insert i (cancelledPending s)\<rparr> else s)) in
     case dn of None \<Rightarrow> s1 | Some c \<Rightarrow> s1\<lparr>called := called s1 @ [c]\<rparr>)"

fun apply_op :: "Op \<Rightarrow> tw \<Rightarrow> tw" where
  "apply_op (ADD p add_id) s = op_add p add_id s"
| "apply_op (UPDATE i new_dur) s = op_update i new_dur s"
| "apply_op (REMOVE i dn) s = op_remove i dn s"

text \<open>
  The outer loop of \<open>tick\<close>: batches of at most \<open>cap = ops_.size()\<close> operations until the queue is
  empty. The queue is an argument, so that the loop is seen to consume it.
\<close>

function drain :: "nat \<Rightarrow> Op list \<Rightarrow> tw \<Rightarrow> tw" where
  "drain cap q s = (let batch = take cap q in
     if batch = [] then s\<lparr>opsq := q\<rparr> else drain cap (drop cap q) (fold apply_op batch s))"
  by pat_completeness auto
termination by (relation "measure (\<lambda>(_, q, _). length q)") (auto simp: Suc_le_eq)

declare drain.simps [simp del]

section \<open>Advancing time\<close>

definition fire :: "ptr \<Rightarrow> tw \<Rightarrow> tw" where
  "fire p s = (let t = deref s p;
       s1 = (case raw_fn t of Some f \<Rightarrow> s\<lparr>fired_raw := fired_raw s @ [(f, raw_arg t)]\<rparr>
             | None \<Rightarrow> (case coro t of Some h \<Rightarrow> s\<lparr>ready := ready s @ [h]\<rparr> | None \<Rightarrow> s));
       s2 = upd p (\<lambda>t. t\<lparr>active := False\<rparr>) s1;
       s3 = s2\<lparr>timerMap := (timerMap s2)(id_of t := None), activeTimerCount := activeTimerCount s2 - 1\<rparr>;
       s4 = (if expiryTime t = nextExpiryTime s3 then s3\<lparr>nextExpiryDirty := True\<rparr> else s3) in
     delete_heap p s4)"

definition slot_step :: "nat \<Rightarrow> nat \<Rightarrow> nat \<Rightarrow> tw \<Rightarrow> tw" where
  "slot_step lv k i s = (let p = bucket s lv k ! i; t = deref s p;
       s1 = (if active t then (if expiryTime t \<le> currentTime s then fire p s
               else addTimerToWheel p (expiryTime t) s) else s) in
     swap_pop_at lv k i s1)"

text \<open>
  The loop of \<open>processSlot\<close>; its index never moves, since every iteration removes the element it
  looked at. \<open>None\<close> means that the loop does not end.
\<close>

partial_function (option) slot_loop :: "nat \<Rightarrow> nat \<Rightarrow> nat \<Rightarrow> tw \<Rightarrow> tw option" where
  "slot_loop lv k i s = (if i < length (bucket s lv k) then slot_loop lv k i (slot_step lv k i s)
     else Some s)"

definition processSlot :: "nat \<Rightarrow> nat \<Rightarrow> tw \<Rightarrow> tw option" where
  "processSlot lv k s = slot_loop lv k 0 s"

fun advance_levels :: "nat list \<Rightarrow> tw \<Rightarrow> tw option" where
  "advance_levels [] s = Some s"
| "advance_levels (lv # lvs) s = (let w = wheels s ! lv in
     if currentTime s mod interval w \<noteq> 0 then advance_levels lvs s
     else (case processSlot lv (unat ((currentTime s div interval w) AND (slots w - 1))) s of
         None \<Rightarrow> None | Some s1 \<Rightarrow> advance_levels lvs s1))"

definition advance :: "tw \<Rightarrow> tw option" where
  "advance s = (let s1 = s\<lparr>currentTime := currentTime s + 1\<rparr> in
     case advance_levels (rev [1..<length (wheels s1)]) s1 of None \<Rightarrow> None
     | Some s2 \<Rightarrow> processSlot 0 (unat (currentTime s2 AND (slots (wheels s2 ! 0) - 1))) s2)"

partial_function (option) advance_to :: "u64 \<Rightarrow> tw \<Rightarrow> tw option" where
  "advance_to newTime s = (if currentTime s < newTime
     then (case advance s of None \<Rightarrow> None | Some s1 \<Rightarrow> advance_to newTime s1) else Some s)"

definition run_fired :: "tw \<Rightarrow> tw" where
  "run_fired s = s\<lparr>called := called s @ fired_raw s, fired_raw := []\<rparr>"

definition tick :: "nat \<Rightarrow> tw \<Rightarrow> tw option" where
  "tick cap s = (let s1 = drain cap (opsq s) s; (newTime, s2) = getCurrentTime s1 in
     if newTime \<le> currentTime s2 then Some (refreshNextExpiry s2)
     else (case advance_to newTime s2 of None \<Rightarrow> None
           | Some s3 \<Rightarrow> Some (run_fired (refreshNextExpiry s3))))"

definition tw_empty :: "tw \<Rightarrow> bool" where
  "tw_empty s \<longleftrightarrow> activeTimerCount s = 0"

end
