(* ===== verification/Timer_Wheel_Inv.thy ===== *)
theory Timer_Wheel_Inv
  imports Timer_Wheel
begin

text \<open>
  The representation invariant of the timer wheel and its preservation by the pointer-level
  operations: every bucket cell points to an allocated, active timer whose back-references name that
  cell, and every timer sits in a bucket that the clock will reach exactly when the timer is due or
  has to cascade to a finer level.
\<close>

section \<open>Geometry\<close>

definition wshape :: "nat \<Rightarrow> tw \<Rightarrow> bool" where
  "wshape L s \<longleftrightarrow> length (wheels s) = L \<and> 1 \<le> L \<and> L \<le> 7
     \<and> (\<forall>l<L. slots (wheels s ! l) = 256 \<and> unat (interval (wheels s ! l)) = 256 ^ l
          \<and> length (buckets (wheels s ! l)) = 256)"

text \<open>
  A timer due at \<open>e\<close> may sit in slot \<open>k\<close> of level \<open>l\<close> at time \<open>c\<close>: late timers wait in the next
  slot of level 0, all others in the slot of their due time, at most one revolution ahead.
\<close>

definition placed :: "nat \<Rightarrow> nat \<Rightarrow> nat \<Rightarrow> nat \<Rightarrow> bool" where
  "placed c l k e \<longleftrightarrow> (l = 0 \<and> e \<le> c \<and> k = Suc c mod 256)
     \<or> (c div 256 ^ l < e div 256 ^ l \<and> e div 256 ^ l \<le> c div 256 ^ l + 256 \<and> k = e div 256 ^ l mod 256)"

definition at :: "tw \<Rightarrow> nat \<Rightarrow> nat \<Rightarrow> nat \<Rightarrow> ptr \<Rightarrow> bool" where
  "at s l k j p \<longleftrightarrow> l < length (wheels s) \<and> k < 256 \<and> j < length (bucket s l k) \<and> bucket s l k ! j = p"

definition cell_ok :: "(ptr \<rightharpoonup> Timer) \<Rightarrow> nat \<Rightarrow> nat \<Rightarrow> nat \<Rightarrow> nat \<Rightarrow> ptr \<Rightarrow> bool" where
  "cell_ok m c l k j p \<longleftrightarrow> (\<exists>t. m p = Some t \<and> active t \<and> level t = l \<and> slotIndex t = k
     \<and> posInBucket t = j \<and> placed c l k (unat (expiryTime t)))"

text \<open>\<open>X\<close> is the set of cells exempted while an operation is under way.\<close>

definition cells_ok :: "tw \<Rightarrow> (nat \<Rightarrow> nat) \<Rightarrow> (nat \<times> nat \<times> nat) set \<Rightarrow> bool" where
  "cells_ok s cs X \<longleftrightarrow> (\<forall>l k j p. at s l k j p \<longrightarrow> (l, k, j) \<notin> X \<longrightarrow> cell_ok (mem s) (cs l) l k j p)"

definition ptrs :: "tw \<Rightarrow> (nat \<times> nat \<times> nat) set \<Rightarrow> ptr set" where
  "ptrs s X = {p. \<exists>l k j. at s l k j p \<and> (l, k, j) \<notin> X}"

lemma cells_okD: "cells_ok s cs X \<Longrightarrow> at s l k j p \<Longrightarrow> (l, k, j) \<notin> X \<Longrightarrow> cell_ok (mem s) (cs l) l k j p"
  by (auto simp: cells_ok_def)

lemma at_unique:
  assumes "cells_ok s cs X" "at s l k j p" "(l, k, j) \<notin> X" "at s l' k' j' p" "(l', k', j') \<notin> X"
  shows "l' = l \<and> k' = k \<and> j' = j"
  using cells_okD [OF assms(1-3)] cells_okD [OF assms(1,4,5)] by (auto simp: cell_ok_def)

section \<open>Field lemmas\<close>

lemma put_bucket_fields [simp]:
  "mem (put_bucket l k b s) = mem s" "timerMap (put_bucket l k b s) = timerMap s"
  "currentTime (put_bucket l k b s) = currentTime s" "nextExpiryTime (put_bucket l k b s) = nextExpiryTime s"
  "nextExpiryDirty (put_bucket l k b s) = nextExpiryDirty s"
  "activeTimerCount (put_bucket l k b s) = activeTimerCount s"
  "fired_raw (put_bucket l k b s) = fired_raw s" "ready (put_bucket l k b s) = ready s"
  "length (wheels (put_bucket l k b s)) = length (wheels s)"
  "deref (put_bucket l k b s) p = deref s p"
  by (simp_all add: put_bucket_def deref_def)

lemma upd_fields [simp]:
  "wheels (upd p f s) = wheels s" "timerMap (upd p f s) = timerMap s"
  "currentTime (upd p f s) = currentTime s" "nextExpiryTime (upd p f s) = nextExpiryTime s"
  "nextExpiryDirty (upd p f s) = nextExpiryDirty s"
  "activeTimerCount (upd p f s) = activeTimerCount s"
  "fired_raw (upd p f s) = fired_raw s" "ready (upd p f s) = ready s"
  "mem (upd p f s) = (mem s)(p \<mapsto> f (deref s p))" "bucket (upd p f s) = bucket s"
  "deref (upd p f s) q = (if q = p then f (deref s p) else deref s q)"
  by (simp_all add: upd_def bucket_def deref_def fun_eq_iff)

lemma deref_Some [simp]: "mem s p = Some t \<Longrightarrow> deref s p = t"
  by (simp add: deref_def)

lemma wheels_put_nth [simp]:
  "slots (wheels (put_bucket l k b s) ! i) = slots (wheels s ! i)"
  "interval (wheels (put_bucket l k b s) ! i) = interval (wheels s ! i)"
  "length (buckets (wheels (put_bucket l k b s) ! i)) = length (buckets (wheels s ! i))"
  by (cases "l < length (wheels s)"; cases "i = l"; simp add: put_bucket_def list_update_beyond)+

lemma wshape_put [simp]: "wshape L (put_bucket l k b s) = wshape L s"
  by (simp add: wshape_def)

lemma wshape_cong: "wheels s' = wheels s \<Longrightarrow> wshape L s' = wshape L s"
  by (simp add: wshape_def)

lemma wshape_upd [simp]: "wshape L (upd p f s) = wshape L s"
  by (rule wshape_cong) simp

lemma bucket_cong: "wheels s' = wheels s \<Longrightarrow> bucket s' = bucket s"
  by (simp add: bucket_def fun_eq_iff)

lemma at_cong: "wheels s' = wheels s \<Longrightarrow> at s' = at s"
  by (simp add: at_def bucket_def fun_eq_iff)

lemma bucket_put:
  assumes "wshape L s" "l < L" "k < 256"
  shows "bucket (put_bucket l k b s) l' k' = (if l' = l \<and> k' = k then b else bucket s l' k')"
  using assms by (auto simp: wshape_def bucket_def put_bucket_def nth_list_update)

section \<open>Choosing level and slot\<close>

lemma unat_sub_le: "b \<le> a \<Longrightarrow> unat (a - b) = unat a - unat (b::u64)"
  by (simp add: unat_sub)

lemma pow256: "(256::nat) ^ l = 2 ^ (8 * l)"
  by (simp add: power_mult)

lemma interval_times_slots:
  assumes "wshape L s" "Suc l < L"
  shows "unat (interval (wheels s ! l) * slots (wheels s ! l)) = 256 ^ Suc l"
proof -
  have i: "unat (interval (wheels s ! l)) = 256 ^ l" "slots (wheels s ! l) = 256" "l < 6"
    using assms by (auto simp: wshape_def)
  have "(256::nat) ^ l \<le> 256 ^ 6" using i(3) by (intro power_increasing) auto
  then have "unat (interval (wheels s ! l)) * 256 < 2 ^ 64" using i(1) by simp
  then show ?thesis using i by (simp add: unat_word_ariths)
qed

lemma find_level_spec:
  assumes "wshape L s" "l0 < L" "l0 = 0 \<or> 256 ^ l0 \<le> unat diff" "lv = find_level (wheels s) l0 diff"
  shows "lv < L \<and> (lv = 0 \<or> 256 ^ lv \<le> unat diff) \<and> (Suc lv < L \<longrightarrow> unat diff < 256 ^ Suc lv)"
  using assms(2-)
proof (induction "L - l0" arbitrary: l0 rule: less_induct)
  case less
  have len: "length (wheels s) = L" using assms(1) by (simp add: wshape_def)
  show ?case
  proof (cases "Suc l0 < L")
    case False
    then have "lv = l0" using less.prems(3) len find_level.simps [of "wheels s" l0 diff] by simp
    then show ?thesis using False less.prems by simp
  next
    case True
    note iv = interval_times_slots [OF assms(1) True]
    show ?thesis
    proof (cases "diff \<ge> interval (wheels s ! l0) * slots (wheels s ! l0)")
      case ge: True
      then have "lv = find_level (wheels s) (Suc l0) diff"
        using less.prems(3) True len find_level.simps [of "wheels s" l0 diff] by simp
      moreover have "256 ^ Suc l0 \<le> unat diff" using ge iv by (simp add: word_le_nat_alt)
      ultimately show ?thesis using less.hyps [of "Suc l0"] True by simp
    next
      case lt: False
      then have "lv = l0" using less.prems(3) find_level.simps [of "wheels s" l0 diff] by simp
      moreover have "unat diff < 256 ^ Suc l0" using lt iv by (simp add: word_le_nat_alt)
      ultimately show ?thesis using less.prems by simp
    qed
  qed
qed

definition add_bucket :: "ptr \<Rightarrow> nat \<Rightarrow> nat \<Rightarrow> tw \<Rightarrow> tw" where
  "add_bucket p l k s = put_bucket l k (bucket s l k @ [p])
     (upd p (\<lambda>t. t\<lparr>level := l, slotIndex := k, posInBucket := length (bucket s l k)\<rparr>) s)"

lemma add_shape:
  assumes "wshape L s" "unat (currentTime s) < 2 ^ 63"
    "unat e \<le> unat (currentTime s) \<or> unat e - unat (currentTime s) < 256 ^ L"
  obtains l k where "l < L" "k < 256" "placed (unat (currentTime s)) l k (unat e)"
    "unat (currentTime s) < unat e \<Longrightarrow> unat e - unat (currentTime s) < 256 ^ Suc l"
    "\<And>n. unat (currentTime s) < unat e \<Longrightarrow> unat e - unat (currentTime s) < 256 ^ n \<Longrightarrow> l < n \<or> l = 0"
    "addTimerToWheel p e s = (let s2 = add_bucket p l k s in
       if nextExpiryTime s = 0 \<or> e < nextExpiryTime s then s2\<lparr>nextExpiryTime := e\<rparr> else s2)"
proof -
  let ?c = "unat (currentTime s)" and ?e = "unat e"
  let ?diff = "if e > currentTime s then e - currentTime s else 0"
  define l where "l = find_level (wheels s) 0 ?diff"
  let ?w = "wheels s ! l"
  define k where "k = unat (if ?diff = 0 then (currentTime s + 1) AND (slots ?w - 1) else (e div interval ?w) AND (slots ?w - 1))"
  have ud: "unat ?diff = ?e - ?c" 
    by (cases "currentTime s < e") (auto simp: word_less_nat_alt word_le_nat_alt unat_sub)
  have L: "0 < L" using assms(1) by (simp add: wshape_def)
  note fl = find_level_spec [OF assms(1) L disjI1 l_def, OF refl, unfolded ud]
  have w: "slots ?w - 1 = (mask 8 :: u64)" "unat (interval ?w) = 256 ^ l"
    using assms(1) fl by (auto simp: wshape_def mask_eq_exp_minus_1)
  have m: "unat (x AND (slots ?w - 1)) = unat x mod 256" for x
    using unat_and_mask [of x 8] by (simp add: w)
  have pl: "placed ?c l k ?e"
  proof (cases "?c < ?e")
    case False
    then have "l = 0" using fl by (cases "l = 0") auto
    moreover have "unat (currentTime s + 1) = Suc ?c" using assms(2) by (simp add: unat_word_ariths)
    moreover have "k = unat (currentTime s + 1) mod 256"
      using False unfolding k_def m [symmetric] by (simp add: word_less_nat_alt)
    ultimately show ?thesis using False by (simp add: placed_def)
  next
    case True
    then have "currentTime s < e" "e - currentTime s \<noteq> 0" by (auto simp: word_less_nat_alt)
    then have "k = unat (e div interval ?w) mod 256" unfolding k_def m [symmetric] by simp
    then have k: "k = ?e div 256 ^ l mod 256" by (simp add: unat_div w)
    have "?c + 256 ^ l \<le> ?e" using True fl by (cases "l = 0") auto
    then have "(?c + 256 ^ l) div 256 ^ l \<le> ?e div 256 ^ l" by (rule div_le_mono)
    moreover have "(?c + 256 ^ l) div 256 ^ l = ?c div 256 ^ l + 1"
      by (subst div_add_self2) simp_all
    ultimately have "?c div 256 ^ l < ?e div 256 ^ l" by linarith
    moreover have "?e - ?c < 256 ^ Suc l"
      using fl assms(3) True by (cases "Suc l < L") (auto simp: not_less dest: le_antisym)
    then have "?e \<le> ?c + 256 * 256 ^ l" by simp
    then have "?e div 256 ^ l \<le> (?c + 256 * 256 ^ l) div 256 ^ l" by (rule div_le_mono)
    moreover have "(?c + 256 * 256 ^ l) div 256 ^ l = ?c div 256 ^ l + 256"
      by (subst div_mult_self1) simp_all
    ultimately show ?thesis using k by (simp add: placed_def)
  qed
  have up: "?e - ?c < 256 ^ Suc l" if "?c < ?e"
    using fl assms(3) that by (cases "Suc l < L") (auto simp: not_less dest: le_antisym)
  have lo: "l < n \<or> l = 0" if "?c < ?e" "?e - ?c < 256 ^ n" for n
  proof (rule ccontr)
    assume "\<not> (l < n \<or> l = 0)"
    then have "(256::nat) ^ n \<le> 256 ^ l" "256 ^ l \<le> ?e - ?c" using fl by (auto intro: power_increasing)
    with that show False by linarith
  qed
  have "k < 256" unfolding k_def m by (auto simp: m)
  have eq: "addTimerToWheel p e s = (let s2 = add_bucket p l k s in
       if nextExpiryTime s = 0 \<or> e < nextExpiryTime s then s2\<lparr>nextExpiryTime := e\<rparr> else s2)"
    unfolding addTimerToWheel_def Let_def l_def [symmetric] k_def [symmetric] add_bucket_def by simp
  show ?thesis using that [of l k] fl \<open>k < 256\<close> pl up lo eq by blast
qed

section \<open>Adding a cell\<close>

lemma add_bucket_fields [simp]:
  "timerMap (add_bucket p l k s) = timerMap s" "currentTime (add_bucket p l k s) = currentTime s"
  "nextExpiryTime (add_bucket p l k s) = nextExpiryTime s"
  "nextExpiryDirty (add_bucket p l k s) = nextExpiryDirty s"
  "activeTimerCount (add_bucket p l k s) = activeTimerCount s"
  "fired_raw (add_bucket p l k s) = fired_raw s" "ready (add_bucket p l k s) = ready s"
  "wshape L (add_bucket p l k s) = wshape L s"
  "mem (add_bucket p l k s) = (mem s)(p \<mapsto> (deref s p)
     \<lparr>level := l, slotIndex := k, posInBucket := length (bucket s l k)\<rparr>)"
  by (simp_all add: add_bucket_def)

lemma bucket_add:
  assumes "wshape L s" "l < L" "k < 256"
  shows "bucket (add_bucket p l k s) l' k' = (if l' = l \<and> k' = k then bucket s l k @ [p] else bucket s l' k')"
  using assms by (simp add: add_bucket_def bucket_put [where L = L])

lemma at_add:
  assumes "wshape L s" "l < L" "k < 256"
  shows "at (add_bucket p l k s) l' k' j q \<longleftrightarrow>
    at s l' k' j q \<or> (l' = l \<and> k' = k \<and> j = length (bucket s l k) \<and> q = p)"
proof -
  have "length (wheels (add_bucket p l k s)) = length (wheels s)" "length (wheels s) = L"
    using assms by (auto simp: add_bucket_def wshape_def)
  then show ?thesis using assms
    by (auto simp: at_def bucket_add [OF assms] nth_append less_Suc_eq)
qed

lemma cells_ok_add:
  assumes "wshape L s" "l < L" "k < 256" "cells_ok s cs X" "p \<notin> ptrs s X"
    "mem s p = Some t" "active t" "placed (cs l) l k (unat (expiryTime t))"
  shows "cells_ok (add_bucket p l k s) cs X"
  unfolding cells_ok_def
proof (intro allI impI)
  fix l' k' j q
  assume a: "at (add_bucket p l k s) l' k' j q" and x: "(l', k', j) \<notin> X"
  consider "at s l' k' j q" | "l' = l" "k' = k" "j = length (bucket s l k)" "q = p"
    using a at_add [OF assms(1-3)] by blast
  then show "cell_ok (mem (add_bucket p l k s)) (cs l') l' k' j q"
  proof cases
    case 1
    then have "q \<noteq> p" using assms(5) x by (auto simp: ptrs_def)
    then show ?thesis using cells_okD [OF assms(4) 1 x] by (simp add: cell_ok_def)
  next
    case 2
    then show ?thesis using assms(6-8) by (simp add: cell_ok_def)
  qed
qed

lemma ptrs_add:
  assumes "wshape L s" "l < L" "k < 256" "(l, k, length (bucket s l k)) \<notin> X"
  shows "ptrs (add_bucket p l k s) X = insert p (ptrs s X)"
  using assms(4) by (auto simp: ptrs_def at_add [OF assms(1-3)])

section \<open>Removing a cell\<close>

lemma swap_pop_nth:
  assumes "i < length b" "j < length b - 1"
  shows "swap_pop i b ! j = (if j = i then last b else b ! j)"
  using assms by (simp add: swap_pop_def nth_butlast)

lemma swap_pop_at_fields [simp]:
  "timerMap (swap_pop_at l k i s) = timerMap s" "currentTime (swap_pop_at l k i s) = currentTime s"
  "nextExpiryTime (swap_pop_at l k i s) = nextExpiryTime s"
  "nextExpiryDirty (swap_pop_at l k i s) = nextExpiryDirty s"
  "activeTimerCount (swap_pop_at l k i s) = activeTimerCount s"
  "fired_raw (swap_pop_at l k i s) = fired_raw s" "ready (swap_pop_at l k i s) = ready s"
  "wshape L (swap_pop_at l k i s) = wshape L s"
  by (simp_all add: swap_pop_at_def Let_def)

lemma mem_swap_pop_at:
  "mem (swap_pop_at l k i s) = (if i \<noteq> length (bucket s l k) - 1
     then (mem s)(last (bucket s l k) \<mapsto> (deref s (last (bucket s l k)))\<lparr>posInBucket := i\<rparr>) else mem s)"
  by (simp add: swap_pop_at_def Let_def)

lemma bucket_swap_pop_at:
  assumes "wshape L s" "l < L" "k < 256"
  shows "bucket (swap_pop_at l k i s) l' k' = (if l' = l \<and> k' = k then swap_pop i (bucket s l k) else bucket s l' k')"
  using assms by (simp add: swap_pop_at_def Let_def bucket_put [where L = L])

lemma at_swap_pop:
  assumes "wshape L s" "l < L" "k < 256" "i < length (bucket s l k)"
  shows "at (swap_pop_at l k i s) l' k' j q \<longleftrightarrow>
    (if l' = l \<and> k' = k then j < length (bucket s l k) - 1 \<and> q = (if j = i then last (bucket s l k) else bucket s l k ! j)
     else at s l' k' j q)"
proof -
  have "length (wheels (swap_pop_at l k i s)) = length (wheels s)" "length (wheels s) = L"
    using assms by (auto simp: swap_pop_at_def Let_def wshape_def)
  then show ?thesis using assms
    by (auto simp: at_def bucket_swap_pop_at [OF assms(1-3)] swap_pop_nth)
qed

lemma cells_ok_swap_pop:
  assumes "wshape L s" "l < L" "k < 256" "i < length (bucket s l k)" "cells_ok s cs {(l, k, i)}"
  shows "cells_ok (swap_pop_at l k i s) cs {}"
  unfolding cells_ok_def
proof (intro allI impI)
  fix l' k' j q
  let ?b = "bucket s l k" and ?n = "length (bucket s l k) - 1"
  assume a: "at (swap_pop_at l k i s) l' k' j q"
  have len: "length (wheels s) = L" using assms(1) by (simp add: wshape_def)
  have ln: "last ?b = ?b ! ?n" using assms(4) by (cases ?b rule: rev_cases) auto
  have la: "at s l k ?n (last ?b)" using assms len by (auto simp: at_def ln)
  show "cell_ok (mem (swap_pop_at l k i s)) (cs l') l' k' j q"
  proof (cases "l' = l \<and> k' = k \<and> j = i")
    case True
    then have q: "i < ?n" "q = last ?b" using a at_swap_pop [OF assms(1-4), of l k i q] by auto
    then show ?thesis using cells_okD [OF assms(5) la] True
      by (auto simp: cell_ok_def mem_swap_pop_at deref_def)
  next
    case False
    have *: "at s l' k' j q" "(l', k', j) \<noteq> (l, k, i)"
      using a False at_swap_pop [OF assms(1-4), of l' k' j q] assms len
      by (auto simp: at_def [of s] split: if_splits)
    have ne: "(l', k', j) \<noteq> (l, k, ?n)"
      using a at_swap_pop [OF assms(1-4), of l' k' j q] by auto
    have "q \<noteq> last ?b" if "i \<noteq> ?n"
      using at_unique [OF assms(5), of l' k' j q l k ?n] la * ne that by auto
    then show ?thesis using cells_okD [OF assms(5) *(1)] *(2)
      by (auto simp: cell_ok_def mem_swap_pop_at)
  qed
qed

lemma ptrs_swap_pop:
  assumes "wshape L s" "l < L" "k < 256" "i < length (bucket s l k)"
  shows "ptrs (swap_pop_at l k i s) {} = ptrs s {(l, k, i)}"
proof -
  let ?b = "bucket s l k" and ?n = "length (bucket s l k) - 1"
  have len: "length (wheels s) = L" using assms(1) by (simp add: wshape_def)
  have ln: "last ?b = ?b ! ?n" using assms(4) by (cases ?b rule: rev_cases) auto
  have "(\<exists>l' k' j. at (swap_pop_at l k i s) l' k' j q) \<longleftrightarrow>
      (\<exists>l' k' j. at s l' k' j q \<and> (l', k', j) \<noteq> (l, k, i))" for q
  proof
    assume "\<exists>l' k' j. at (swap_pop_at l k i s) l' k' j q"
    then obtain l' k' j where a: "at (swap_pop_at l k i s) l' k' j q" by blast
    show "\<exists>l' k' j. at s l' k' j q \<and> (l', k', j) \<noteq> (l, k, i)"
    proof (cases "l' = l \<and> k' = k \<and> j = i")
      case True
      then have "at s l k ?n q \<and> (l, k, ?n) \<noteq> (l, k, i)"
        using a at_swap_pop [OF assms, of l k i q] assms len ln by (auto simp: at_def [of s])
      then show ?thesis by blast
    next
      case False
      then have "at s l' k' j q" using a at_swap_pop [OF assms, of l' k' j q] assms len
        by (auto simp: at_def [of s] split: if_splits)
      then show ?thesis using False by blast
    qed
  next
    assume "\<exists>l' k' j. at s l' k' j q \<and> (l', k', j) \<noteq> (l, k, i)"
    then obtain l' k' j where a: "at s l' k' j q" "(l', k', j) \<noteq> (l, k, i)" by blast
    have "at (swap_pop_at l k i s) l' k' (if l' = l \<and> k' = k \<and> j = ?n then i else j) q"
      using a assms ln by (auto simp: at_swap_pop [OF assms] at_def [of s])
    then show "\<exists>l' k' j. at (swap_pop_at l k i s) l' k' j q" by blast
  qed
  then show ?thesis by (auto simp: ptrs_def)
qed

end
