(* ===== verification/Timer_Wheel_Firing.thy ===== *)
theory Timer_Wheel_Firing
  imports Timer_Wheel_Inv
begin

text \<open>
  What the wheel does when time passes: \<open>processSlot\<close> ends, fires exactly the due timers of its slot
  and cascades the others to finer levels; \<open>advance\<close> fires exactly the timers whose due time has
  come; \<open>nextExpiryTime\<close> is the earliest due time of the pending timers.
\<close>

section \<open>Pending timers and the invariant\<close>

definition pend :: "tw \<Rightarrow> u64 \<rightharpoonup> Timer" where
  "pend s i = map_option (deref s) (timerMap s i)"

definition expiries :: "tw \<Rightarrow> u64 set" where
  "expiries s = expiryTime ` ran (pend s)"

definition map_ok :: "tw \<Rightarrow> (nat \<times> nat \<times> nat) set \<Rightarrow> bool" where
  "map_ok s X \<longleftrightarrow> (\<forall>i p. timerMap s i = Some p \<longleftrightarrow> p \<in> ptrs s X \<and> id_of (deref s p) = i)"

definition cnt_ok :: "tw \<Rightarrow> bool" where
  "cnt_ok s \<longleftrightarrow> timerMap s 0 = None \<and> unat (activeTimerCount s) = card (dom (timerMap s))"

definition nx_ok :: "tw \<Rightarrow> bool" where
  "nx_ok s \<longleftrightarrow> 0 \<notin> expiries s
     \<and> (nextExpiryDirty s \<or> nextExpiryTime s = (if expiries s = {} then 0 else Min (expiries s)))"

definition winv :: "nat \<Rightarrow> tw \<Rightarrow> (nat \<Rightarrow> nat) \<Rightarrow> (nat \<times> nat \<times> nat) set \<Rightarrow> bool" where
  "winv L s cs X \<longleftrightarrow> wshape L s \<and> cells_ok s cs X \<and> map_ok s X \<and> cnt_ok s \<and> nx_ok s"

lemma winvD:
  assumes "winv L s cs X"
  shows "wshape L s" "cells_ok s cs X" "map_ok s X" "cnt_ok s" "nx_ok s" "length (wheels s) = L"
  using assms by (auto simp: winv_def wshape_def)

lemma finite_expiries [simp]: "finite (expiries s)"
  unfolding expiries_def by (simp add: finite_ran)

lemma map_ok_ptr: "map_ok s X \<Longrightarrow> p \<in> ptrs s X \<Longrightarrow> timerMap s (id_of (deref s p)) = Some p"
  by (simp add: map_ok_def)

lemma ran_timerMap: "map_ok s X \<Longrightarrow> ran (timerMap s) = ptrs s X"
  by (auto simp: map_ok_def ran_def)

lemma ptr_alive:
  assumes "cells_ok s cs X" "p \<in> ptrs s X"
  obtains t where "mem s p = Some t" "active t"
  using assms by (auto simp: ptrs_def cell_ok_def dest!: cells_okD)

text \<open>The observable effect of firing: the callback or the coroutine a timer carries.\<close>

definition ev_ms :: "Timer \<Rightarrow> (raw_call + coro_handle) multiset" where
  "ev_ms t = (case raw_fn t of Some f \<Rightarrow> {#Inl (f, raw_arg t)#}
     | None \<Rightarrow> (case coro t of Some h \<Rightarrow> {#Inr h#} | None \<Rightarrow> {#}))"

definition fired_ms :: "tw \<Rightarrow> (raw_call + coro_handle) multiset" where
  "fired_ms s = image_mset Inl (mset (fired_raw s)) + image_mset Inr (mset (ready s))"

definition payload :: "Timer \<Rightarrow> Timer" where
  "payload t = t\<lparr>level := 0, slotIndex := 0, posInBucket := 0\<rparr>"

definition rest :: "tw \<Rightarrow> u64 \<times> Op list \<times> (nat \<Rightarrow> u64) \<times> nat \<times> u64 set \<times> u64 set \<times> u64 \<times> u64
    \<times> coro_handle list \<times> raw_call list" where
  "rest s = (currentTime s, opsq s, clock s, reads s, cancelledPending s, detachedPending s,
     maxAddedId s, timerIdCounter s, destroyed s, called s)"

text \<open>
  \<open>fires D s s'\<close>: from \<open>s\<close> to \<open>s'\<close> exactly the timers with ids in \<open>D\<close> fired, each once, heap
  timers among them were freed, and everything else about the pending timers is unchanged.
\<close>

definition fires :: "u64 set \<Rightarrow> tw \<Rightarrow> tw \<Rightarrow> bool" where
  "fires D s s' \<longleftrightarrow> D \<subseteq> dom (timerMap s) \<and> timerMap s' = timerMap s |` (- D)
     \<and> fired_ms s' = fired_ms s + (\<Sum>i\<in>D. ev_ms (the (pend s i)))
     \<and> (\<forall>i. i \<notin> D \<longrightarrow> map_option payload (pend s' i) = map_option payload (pend s i))
     \<and> (\<forall>i\<in>D. heap (the (pend s i)) \<longrightarrow> mem s' (the (timerMap s i)) = None)
     \<and> (\<forall>p. p \<notin> ran (timerMap s) \<longrightarrow> mem s' p = mem s p)
     \<and> rest s' = rest s"

lemma payload_fields [simp]:
  "expiryTime (payload t) = expiryTime t" "ev_ms (payload t) = ev_ms t" "heap (payload t) = heap t"
  "id_of (payload t) = id_of t" "active (payload t) = active t" "duration_ms (payload t) = duration_ms t"
  by (simp_all add: payload_def ev_ms_def split: option.splits)

lemma payload_eqD:
  assumes "payload t = payload t'"
  shows "expiryTime t = expiryTime t'" "ev_ms t = ev_ms t'" "heap t = heap t'" "id_of t = id_of t'"
    "active t = active t'" "duration_ms t = duration_ms t'"
  using assms payload_fields by metis+

lemma fires_pendD:
  assumes "fires D s s'" "i \<notin> D"
  shows "pend s' i = None \<longleftrightarrow> pend s i = None"
    "pend s' i = Some t' \<Longrightarrow> \<exists>t. pend s i = Some t \<and> payload t = payload t'"
proof -
  have "map_option payload (pend s' i) = map_option payload (pend s i)"
    using assms by (simp add: fires_def)
  then show "pend s' i = None \<longleftrightarrow> pend s i = None"
    "pend s' i = Some t' \<Longrightarrow> \<exists>t. pend s i = Some t \<and> payload t = payload t'"
    by (auto simp: map_option_case split: option.splits)
qed

lemma fires_refl: "fires {} s s"
  by (simp add: fires_def restrict_map_def)

lemma fires_trans:
  assumes "fires D1 s s1" "fires D2 s1 s2" "inj_on (timerMap s) (dom (timerMap s))"
  shows "fires (D1 \<union> D2) s s2"
proof -
  have D2: "D2 \<subseteq> dom (timerMap s)" "D2 \<inter> D1 = {}" and m1: "timerMap s1 = timerMap s |` (- D1)"
    using assms by (auto simp: fires_def restrict_map_def split: if_splits)
  have pd: "map_option payload (pend s1 i) = map_option payload (pend s i)" if "i \<notin> D1" for i
    using assms(1) that by (simp add: fires_def)
  have ev: "ev_ms (the (pend s1 i)) = ev_ms (the (pend s i))"
    "heap (the (pend s1 i)) = heap (the (pend s i))" "timerMap s1 i = timerMap s i" if "i \<in> D2" for i
  proof -
    have i: "i \<notin> D1" "i \<in> dom (timerMap s)" using that D2 by auto
    then obtain t where t: "pend s i = Some t" by (auto simp: pend_def)
    then obtain t1 where "pend s1 i = Some t1" "payload t1 = payload t"
      using pd [OF i(1)] by (cases "pend s1 i") auto
    with t show "ev_ms (the (pend s1 i)) = ev_ms (the (pend s i))"
      "heap (the (pend s1 i)) = heap (the (pend s i))" by (auto dest: payload_eqD)
    show "timerMap s1 i = timerMap s i" using i m1 by simp
  qed
  have "(\<Sum>i\<in>D1 \<union> D2. ev_ms (the (pend s i)))
      = (\<Sum>i\<in>D1. ev_ms (the (pend s i))) + (\<Sum>i\<in>D2. ev_ms (the (pend s i)))"
    using D2(2) by (intro sum.union_disjoint) auto
  also have "(\<Sum>i\<in>D2. ev_ms (the (pend s i))) = (\<Sum>i\<in>D2. ev_ms (the (pend s1 i)))"
    by (intro sum.cong) (auto simp: ev)
  finally have sm: "fired_ms s2 = fired_ms s + (\<Sum>i\<in>D1 \<union> D2. ev_ms (the (pend s i)))"
    using assms(1,2) by (simp add: fires_def)
  have "mem s2 (the (timerMap s i)) = None"
    if i: "i \<in> D1 \<union> D2" "heap (the (pend s i))" for i
  proof (cases "i \<in> D1")
    case True
    then obtain p where p: "timerMap s i = Some p" using assms(1) by (auto simp: fires_def)
    have "p \<notin> ran (timerMap s1)"
    proof
      assume "p \<in> ran (timerMap s1)"
      then obtain j where j: "timerMap s j = Some p" "j \<notin> D1"
        by (auto simp: m1 ran_def restrict_map_def split: if_splits)
      then have "j = i" using p assms(3) by (metis domI inj_onD)
      with j True show False by simp
    qed
    moreover have "mem s1 (the (timerMap s i)) = None"
      using assms(1) True i(2) unfolding fires_def by blast
    ultimately show ?thesis using assms(2) p unfolding fires_def by simp
  next
    case False
    then show ?thesis using assms(2) i ev by (simp add: fires_def)
  qed
  moreover have "mem s2 p = mem s p" if "p \<notin> ran (timerMap s)" for p
  proof -
    have "p \<notin> ran (timerMap s1)"
      using that by (auto simp: m1 ran_def restrict_map_def split: if_splits)
    then show ?thesis using that assms(1,2) by (simp add: fires_def)
  qed
  moreover have "timerMap s2 = timerMap s |` (- (D1 \<union> D2))"
    using assms by (simp add: fires_def Int_commute)
  ultimately show ?thesis
    using assms(1,2) D2 sm unfolding fires_def by simp
qed

lemma map_ok_inj: "map_ok s X \<Longrightarrow> inj_on (timerMap s) (dom (timerMap s))"
  unfolding inj_on_def map_ok_def by (metis domD)

section \<open>Field lemmas\<close>

lemma rest_simps [simp]:
  "rest (put_bucket l k b s) = rest s" "rest (upd p f s) = rest s" "rest (add_bucket p l k s) = rest s"
  "rest (swap_pop_at l k i s) = rest s" "rest (s\<lparr>nextExpiryTime := x\<rparr>) = rest s"
  by (simp_all add: rest_def put_bucket_def upd_def add_bucket_def swap_pop_at_def Let_def)

lemma fired_ms_simps [simp]:
  "fired_ms (add_bucket p l k s) = fired_ms s" "fired_ms (swap_pop_at l k i s) = fired_ms s"
  by (simp_all add: fired_ms_def)

lemma fire_fields:
  fixes p s
  defines "t \<equiv> deref s p" and "s' \<equiv> fire p s"
  shows "timerMap s' = (timerMap s)(id_of t := None)" "wheels s' = wheels s"
    "activeTimerCount s' = activeTimerCount s - 1" "nextExpiryTime s' = nextExpiryTime s"
    "nextExpiryDirty s' \<longleftrightarrow> nextExpiryDirty s \<or> expiryTime t = nextExpiryTime s"
    "mem s' = (mem s)(p := if heap t then None else Some (t\<lparr>active := False\<rparr>))"
    "fired_ms s' = fired_ms s + ev_ms t" "rest s' = rest s"
  by (auto simp: assms fire_def Let_def delete_heap_def upd_def deref_def fired_ms_def ev_ms_def rest_def
      split: option.splits)

lemma expiries_iff: "x \<in> expiries s \<longleftrightarrow> (\<exists>i p. timerMap s i = Some p \<and> x = expiryTime (deref s p))"
  by (auto simp: expiries_def pend_def ran_def)

text \<open>Removing a timer keeps the cached minimum right, or marks it dirty.\<close>

lemma nx_ok_remove:
  assumes "nx_ok s" "timerMap s i = Some p" "timerMap s' = (timerMap s)(i := None)"
    "\<And>j q. timerMap s' j = Some q \<Longrightarrow> expiryTime (deref s' q) = expiryTime (deref s q)"
    "nextExpiryTime s' = nextExpiryTime s"
    "nextExpiryDirty s' \<longleftrightarrow> nextExpiryDirty s \<or> expiryTime (deref s p) = nextExpiryTime s"
  shows "nx_ok s'"
proof -
  have sub: "expiries s' \<subseteq> expiries s"
    using assms(3,4) by (auto simp: expiries_iff split: if_splits) metis
  have ne: "expiryTime (deref s p) \<in> expiries s" using assms(2) by (auto simp: expiries_iff)
  have "nextExpiryTime s' = (if expiries s' = {} then 0 else Min (expiries s'))"
    if nd: "\<not> nextExpiryDirty s'"
  proof -
    have nx: "nextExpiryTime s = Min (expiries s)" "expiryTime (deref s p) \<noteq> nextExpiryTime s"
      using assms(1,6) nd ne by (auto simp: nx_ok_def split: if_splits)
    have "Min (expiries s) \<in> expiries s" using ne by (intro Min_in) auto
    then obtain j q where j: "timerMap s j = Some q" "Min (expiries s) = expiryTime (deref s q)"
      by (auto simp: expiries_iff)
    then have "j \<noteq> i" using nx assms(2) by auto
    then have "timerMap s' j = Some q" using j assms(3) by simp
    then have "Min (expiries s) \<in> expiries s'"
      using j(2) assms(4) unfolding expiries_iff by metis
    moreover from this have "Min (expiries s') = Min (expiries s)"
      using sub by (intro antisym Min.coboundedI Min_antimono) auto
    ultimately show ?thesis using nx assms(5) by auto
  qed
  then show ?thesis using sub assms(1) unfolding nx_ok_def by blast
qed

lemma card_dom_remove:
  fixes m :: "u64 \<rightharpoonup> ptr"
  assumes "m 0 = None" "unat (c::u64) = card (dom m)" "m i = Some p"
  shows "unat (c - 1) = card (dom (m(i := None)))"
proof -
  have d: "i \<in> dom m" using assms(3) by auto
  then have "0 < card (dom m)" by (auto simp: card_gt_0_iff)
  then have "unat (c - 1) = card (dom m) - 1"
    using assms(2) by (metis gr_implies_not0 unat_0 unat_minus_one)
  then show ?thesis using d by simp
qed

lemma at_in_ptrs: "at s l k j p \<Longrightarrow> (l, k, j) \<notin> X \<Longrightarrow> p \<in> ptrs s X"
  by (auto simp: ptrs_def)

lemma ptrs_exempt:
  assumes "cells_ok s cs {}" "at s l k j p"
  shows "ptrs s {(l, k, j)} = ptrs s {} - {p}"
proof -
  have "(\<exists>l' k' j'. at s l' k' j' q \<and> (l', k', j') \<noteq> (l, k, j)) \<longleftrightarrow> (\<exists>l' k' j'. at s l' k' j' q) \<and> q \<noteq> p" for q
  proof (cases "q = p")
    case True
    then show ?thesis using at_unique [OF assms(1) assms(2)] by auto
  next
    case False
    then have "(l', k', j') \<noteq> (l, k, j)" if "at s l' k' j' q" for l' k' j'
      using that assms(2) by (auto simp: at_def)
    then show ?thesis using False by blast
  qed
  then show ?thesis by (auto simp: ptrs_def)
qed

lemma cells_ok_mono: "cells_ok s cs X \<Longrightarrow> X \<subseteq> Y \<Longrightarrow> cells_ok s cs Y"
  unfolding cells_ok_def by blast

section \<open>One iteration of the slot loop\<close>

lemma ptrs_cong:
  assumes "wheels s' = wheels s"
  shows "ptrs s' = ptrs s"
  unfolding ptrs_def at_cong [OF assms] by simp

lemma map_ok_id:
  "map_ok s X \<Longrightarrow> p \<in> ptrs s X \<Longrightarrow> q \<in> ptrs s X \<Longrightarrow> id_of (deref s p) = id_of (deref s q) \<Longrightarrow> p = q"
  by (metis map_ok_ptr option.inject)

text \<open>Taking a timer out of the map while its cell is still to be popped.\<close>

lemma deact_winv:
  assumes "winv L s cs {}" "at s l k j p"
    and f: "timerMap s' = (timerMap s)(id_of (deref s p) := None)" "wheels s' = wheels s"
      "activeTimerCount s' = activeTimerCount s - 1" "nextExpiryTime s' = nextExpiryTime s"
      "nextExpiryDirty s' \<longleftrightarrow> nextExpiryDirty s \<or> expiryTime (deref s p) = nextExpiryTime s"
      "mem s' = (mem s)(p := x)"
  shows "winv L s' cs {(l, k, j)}"
proof -
  note w = winvD [OF assms(1)]
  let ?i = "id_of (deref s p)"
  have pp: "p \<in> ptrs s {}" using assms(2) by (auto simp: ptrs_def)
  have tm: "timerMap s ?i = Some p" using map_ok_ptr [OF w(3) pp] .
  have oth: "mem s' q = mem s q" "deref s' q = deref s q" if "q \<noteq> p" for q
    using that by (simp_all add: f deref_def)
  have px: "ptrs s' {(l, k, j)} = ptrs s {} - {p}"
    using ptrs_exempt [OF w(2) assms(2)] ptrs_cong [OF f(2)] by simp
  have c: "cells_ok s' cs {(l, k, j)}"
    unfolding cells_ok_def
  proof (intro allI impI)
    fix l' k' j' q
    assume a: "at s' l' k' j' q" "(l', k', j') \<notin> {(l, k, j)}"
    then have a': "at s l' k' j' q" using at_cong [OF f(2)] by simp
    then have "q \<noteq> p" using at_unique [OF w(2) assms(2)] a(2) by auto
    then show "cell_ok (mem s') (cs l') l' k' j' q"
      using cells_okD [OF w(2) a'] by (simp add: cell_ok_def oth)
  qed
  have m: "map_ok s' {(l, k, j)}"
    unfolding map_ok_def px f(1)
  proof (intro allI)
    fix i q
    show "((timerMap s)(?i := None)) i = Some q \<longleftrightarrow> q \<in> ptrs s {} - {p} \<and> id_of (deref s' q) = i"
      using w(3) pp oth(2) [of q] map_ok_id [OF w(3) pp, of q] tm by (cases "q = p") (auto simp: map_ok_def)
  qed
  have cn: "cnt_ok s'"
    using w(4) card_dom_remove [of "timerMap s" "activeTimerCount s", OF _ _ tm] by (auto simp: cnt_ok_def f)
  have nx: "nx_ok s'"
  proof (rule nx_ok_remove [OF w(5) tm f(1) _ f(4) f(5)])
    fix i q assume "timerMap s' i = Some q"
    then have "timerMap s i = Some q" "i \<noteq> ?i" by (auto simp: f(1) split: if_splits)
    then have "q \<noteq> p" using w(3) by (auto simp: map_ok_def)
    then show "expiryTime (deref s' q) = expiryTime (deref s q)" by (simp add: oth)
  qed
  show ?thesis using w(1) c m cn nx wshape_cong [OF f(2)] by (simp add: winv_def)
qed

lemma fire_winv:
  assumes "winv L s cs {}" "at s l k j p"
  shows "winv L (fire p s) cs {(l, k, j)} \<and> fires {id_of (deref s p)} s (fire p s)"
proof -
  note w = winvD [OF assms(1)] and f = fire_fields [of p s]
  let ?s = "fire p s" and ?i = "id_of (deref s p)"
  have pp: "p \<in> ptrs s {}" using assms(2) by (auto simp: ptrs_def)
  have tm: "timerMap s ?i = Some p" using map_ok_ptr [OF w(3) pp] .
  have oth: "mem ?s q = mem s q" "deref ?s q = deref s q" if "q \<noteq> p" for q
    using that by (simp_all add: f deref_def)
  have "winv L ?s cs {(l, k, j)}" by (rule deact_winv [OF assms f(1-6)])
  moreover have "fires {?i} s ?s"
  proof -
    have "timerMap ?s = timerMap s |` (- {?i})" by (auto simp: f restrict_map_def fun_eq_iff)
    moreover have "pend ?s i = pend s i" if "i \<noteq> ?i" for i
    proof -
      have "q \<noteq> p" if "timerMap s i = Some q" for q
        using that \<open>i \<noteq> ?i\<close> w(3) by (auto simp: map_ok_def)
      then show ?thesis using that oth(2) by (cases "timerMap s i") (auto simp: pend_def f(1))
    qed
    moreover have "mem ?s q = mem s q" if "q \<notin> ran (timerMap s)" for q
      using that tm oth by (metis ranI)
    moreover have "?i \<in> dom (timerMap s)" using tm by blast
    ultimately show ?thesis using tm
      by (simp add: fires_def f pend_def)
  qed
  ultimately show ?thesis by blast
qed

lemma nx_ok_cong:
  assumes "expiries s' = expiries s" "nextExpiryDirty s' = nextExpiryDirty s"
    "nextExpiryTime s' = nextExpiryTime s"
  shows "nx_ok s' = nx_ok s"
  unfolding nx_ok_def assms ..

lemma swap_pop_winv:
  assumes "winv L s cs {(l, k, i)}" "l < L" "k < 256" "i < length (bucket s l k)"
  shows "winv L (swap_pop_at l k i s) cs {} \<and> fires {} s (swap_pop_at l k i s)"
proof -
  let ?s = "swap_pop_at l k i s" and ?q = "last (bucket s l k)"
  note w = winvD [OF assms(1)]
  note p = ptrs_swap_pop [OF w(1) assms(2-4)]
  have ln: "?q = bucket s l k ! (length (bucket s l k) - 1)"
    using assms(4) by (cases "bucket s l k" rule: rev_cases) auto
  have la: "?q \<in> ptrs s {(l, k, i)}" if "i \<noteq> length (bucket s l k) - 1"
    using that assms w(6) ln by (intro at_in_ptrs [of s l k "length (bucket s l k) - 1"]) (auto simp: at_def)
  have d: "payload (deref ?s q) = payload (deref s q)" for q
    by (simp add: deref_def mem_swap_pop_at payload_def)
  have pd: "map_option payload (pend ?s i') = map_option payload (pend s i')" for i'
    by (cases "timerMap s i'") (simp_all add: pend_def d)
  have ex: "expiries ?s = expiries s"
    using payload_eqD(1) [OF d] by (simp add: expiries_iff set_eq_iff)
  have "winv L ?s cs {}"
    using w cells_ok_swap_pop [OF w(1) assms(2-4) w(2)] payload_eqD(4) [OF d]
      nx_ok_cong [OF ex]
    by (simp add: winv_def map_ok_def p cnt_ok_def)
  moreover have "mem ?s q = mem s q" if "q \<notin> ran (timerMap s)" for q
    using that la ran_timerMap [OF w(3)] by (auto simp: mem_swap_pop_at)
  then have "fires {} s ?s"
    using pd by (simp add: fires_def restrict_map_def)
  ultimately show ?thesis by blast
qed

lemma readd_winv:
  assumes "winv L s cs {}" "at s l k j p" "l' < l" "k' < 256" "l < L"
    "placed (cs l') l' k' (unat (expiryTime (deref s p)))"
  shows "winv L (add_bucket p l' k' s) cs {(l, k, j)} \<and> fires {} s (add_bucket p l' k' s)"
proof -
  let ?s = "add_bucket p l' k' s"
  note w = winvD [OF assms(1)]
  have pp: "p \<in> ptrs s {}" using assms(2) by (auto simp: ptrs_def)
  obtain t where t: "mem s p = Some t" "active t" using ptr_alive [OF w(2) pp] .
  have px: "ptrs s {(l, k, j)} = ptrs s {} - {p}" by (rule ptrs_exempt [OF w(2) assms(2)])
  have l': "l' < L" "(l', k', length (bucket s l' k')) \<notin> {(l, k, j)}" using assms(3,5) by auto
  have "cells_ok ?s cs {(l, k, j)}"
    by (rule cells_ok_add [OF w(1) l'(1) assms(4) cells_ok_mono [OF w(2)] _ t])
      (use px t assms(6) in auto)
  moreover have p': "ptrs ?s {(l, k, j)} = ptrs s {}"
    using ptrs_add [OF w(1) l'(1) assms(4) l'(2)] px pp by auto
  moreover have d: "payload (deref ?s q) = payload (deref s q)" for q
    using t by (simp add: deref_def payload_def)
  moreover have ex: "expiries ?s = expiries s"
    using payload_eqD(1) [OF d] by (simp add: expiries_iff set_eq_iff)
  ultimately have "winv L ?s cs {(l, k, j)}"
    using w payload_eqD(4) [OF d] nx_ok_cong [OF ex] by (simp add: winv_def map_ok_def cnt_ok_def)
  moreover have pd: "map_option payload (pend ?s i') = map_option payload (pend s i')" for i'
    by (cases "timerMap s i'") (simp_all add: pend_def d)
  moreover have "mem ?s q = mem s q" if "q \<notin> ran (timerMap s)" for q
    using that pp ran_timerMap [OF w(3)] by auto
  ultimately show ?thesis by (simp add: fires_def restrict_map_def)
qed

text \<open>The cached minimum is not changed by re-adding a timer that is already pending.\<close>

lemma winv_nextExpiry:
  assumes "winv L s cs X" "nx_ok (s\<lparr>nextExpiryTime := e\<rparr>)"
  shows "winv L (s\<lparr>nextExpiryTime := e\<rparr>) cs X"
proof -
  let ?s = "s\<lparr>nextExpiryTime := e\<rparr>"
  have "at ?s = at s" "wshape L ?s = wshape L s" "ptrs ?s = ptrs s"
    by (rule at_cong wshape_cong ptrs_cong; simp)+
  then show ?thesis using assms
    by (simp add: winv_def cells_ok_def map_ok_def cnt_ok_def deref_def)
qed

lemma readd_min:
  assumes "nx_ok s" "timerMap s i = Some p" "e = expiryTime (deref s p)"
    "nextExpiryTime s = 0 \<or> e < nextExpiryTime s"
  shows "nextExpiryDirty s"
proof (rule ccontr)
  assume "\<not> nextExpiryDirty s"
  moreover have e: "e \<in> expiries s" using assms(2,3) by (auto simp: expiries_iff)
  ultimately have "nextExpiryTime s = Min (expiries s)" "0 \<notin> expiries s"
    using assms(1) by (auto simp: nx_ok_def split: if_splits)
  moreover have "Min (expiries s) \<in> expiries s" "Min (expiries s) \<le> e"
    using e by (auto intro: Min_in)
  ultimately show False using assms(4) by auto
qed

definition slot_good :: "(nat \<Rightarrow> nat) \<Rightarrow> nat \<Rightarrow> nat \<Rightarrow> nat \<Rightarrow> bool" where
  "slot_good cs l c e \<longleftrightarrow> e \<le> c \<or> (0 < l \<and> e - c < 256 ^ l
     \<and> (\<forall>l'<l. \<forall>k'. placed c l' k' e \<and> e - c < 256 ^ Suc l' \<longrightarrow> placed (cs l') l' k' e))"

lemma next_fields [simp]:
  "deref (s\<lparr>nextExpiryTime := e\<rparr>) = deref s" "pend (s\<lparr>nextExpiryTime := e\<rparr>) = pend s"
  "expiries (s\<lparr>nextExpiryTime := e\<rparr>) = expiries s" "fired_ms (s\<lparr>nextExpiryTime := e\<rparr>) = fired_ms s"
proof -
  show d: "deref (s\<lparr>nextExpiryTime := e\<rparr>) = deref s" by (simp add: deref_def fun_eq_iff)
  show p: "pend (s\<lparr>nextExpiryTime := e\<rparr>) = pend s" by (simp add: pend_def fun_eq_iff d)
  show "expiries (s\<lparr>nextExpiryTime := e\<rparr>) = expiries s" by (simp add: expiries_def p)
  show "fired_ms (s\<lparr>nextExpiryTime := e\<rparr>) = fired_ms s" by (simp add: fired_ms_def)
qed

lemma fires_next [simp]: "fires D s (s'\<lparr>nextExpiryTime := e\<rparr>) = fires D s s'"
  by (simp add: fires_def)

lemma readd_step:
  assumes w: "winv L s cs {}" and a: "at s l k j p" and l: "0 < l" "l < L"
    and c: "unat (currentTime s) < 2 ^ 63" "unat (currentTime s) < unat (expiryTime (deref s p))"
    and g: "slot_good cs l (unat (currentTime s)) (unat (expiryTime (deref s p)))"
  obtains s1 where "addTimerToWheel p (expiryTime (deref s p)) s = s1" "winv L s1 cs {(l, k, j)}"
    "fires {} s s1" "bucket s1 l k = bucket s l k"
proof -
  let ?c = "unat (currentTime s)" and ?e = "unat (expiryTime (deref s p))"
  note wd = winvD [OF w]
  have ec: "?e - ?c < 256 ^ l" using g c by (simp add: slot_good_def)
  then have "?e - ?c < 256 ^ L" using l by (meson less_le_trans less_imp_le power_increasing
      one_le_numeral)
  then obtain l' k' where lk: "l' < L" "k' < 256" "placed ?c l' k' ?e"
    "?e - ?c < 256 ^ Suc l'" "l' < l \<or> l' = 0"
    and eq: "addTimerToWheel p (expiryTime (deref s p)) s = (let s2 = add_bucket p l' k' s in
       if nextExpiryTime s = 0 \<or> expiryTime (deref s p) < nextExpiryTime s
       then s2\<lparr>nextExpiryTime := expiryTime (deref s p)\<rparr> else s2)"
    using add_shape [OF wd(1) c(1), of "expiryTime (deref s p)" p] c(2) ec by metis
  have l': "l' < l" using lk(5) l(1) by auto
  have pl: "placed (cs l') l' k' ?e" using g lk l' c(2) by (auto simp: slot_good_def)
  note r = readd_winv [OF w a l' lk(2) l(2) pl]
  let ?s = "add_bucket p l' k' s"
  have b: "bucket ?s l k = bucket s l k" using bucket_add [OF wd(1) lk(1,2)] l' by simp
  have tm: "timerMap s (id_of (deref s p)) = Some p"
    using map_ok_ptr [OF wd(3)] at_in_ptrs [OF a] by simp
  show ?thesis
  proof (cases "nextExpiryTime s = 0 \<or> expiryTime (deref s p) < nextExpiryTime s")
    case False
    then show ?thesis using that [of ?s] eq r b by simp
  next
    case True
    have "nx_ok (?s\<lparr>nextExpiryTime := expiryTime (deref s p)\<rparr>)"
      using readd_min [OF wd(5) tm refl True] winvD(5) [OF conjunct1 [OF r]]
      by (simp add: nx_ok_def)
    then show ?thesis
      using that [of "?s\<lparr>nextExpiryTime := expiryTime (deref s p)\<rparr>"] eq r b True
        winv_nextExpiry [OF conjunct1 [OF r]] by (simp add: bucket_def)
  qed
qed

lemma slot_step_spec:
  assumes w: "winv L s cs {}" and l: "l < L" "k < 256" and ne: "bucket s l k \<noteq> []"
    and c: "unat (currentTime s) < 2 ^ 63"
    and g: "slot_good cs l (unat (currentTime s)) (unat (expiryTime (deref s (bucket s l k ! 0))))"
  shows "winv L (slot_step l k 0 s) cs {} \<and> bucket (slot_step l k 0 s) l k = swap_pop 0 (bucket s l k)
    \<and> (\<exists>D. fires D s (slot_step l k 0 s)
        \<and> (\<forall>i\<in>D. unat (expiryTime (the (pend s i))) \<le> unat (currentTime s)))"
proof -
  let ?p = "bucket s l k ! 0"
  note wd = winvD [OF w]
  have a: "at s l k 0 ?p" using l ne wd(6) by (simp add: at_def)
  have pp: "?p \<in> ptrs s {}" using a by (auto simp: ptrs_def)
  obtain t where t: "mem s ?p = Some t" "active t" using ptr_alive [OF wd(2) pp] .
  obtain s1 D where s1: "slot_step l k 0 s = swap_pop_at l k 0 s1" "winv L s1 cs {(l, k, 0)}"
    "fires D s s1" "bucket s1 l k = bucket s l k"
    and D: "\<forall>i\<in>D. unat (expiryTime (the (pend s i))) \<le> unat (currentTime s)"
  proof (cases "expiryTime t \<le> currentTime s")
    case True
    have "the (pend s (id_of t)) = t"
      using map_ok_ptr [OF wd(3) pp] t by (simp add: pend_def)
    moreover have "bucket (fire ?p s) l k = bucket s l k"
      by (simp add: bucket_cong [OF fire_fields(2)])
    ultimately show ?thesis
      using that [of "fire ?p s" "{id_of t}"] fire_winv [OF w a] True t
      by (simp add: slot_step_def Let_def word_le_nat_alt)
  next
    case False
    then have lt: "unat (currentTime s) < unat (expiryTime (deref s ?p))"
      using t by (simp add: word_le_nat_alt)
    then have "0 < l" using g by (simp add: slot_good_def)
    then obtain s1 where "addTimerToWheel ?p (expiryTime (deref s ?p)) s = s1"
      "winv L s1 cs {(l, k, 0)}" "fires {} s s1" "bucket s1 l k = bucket s l k"
      using readd_step [OF w a _ l(1) c lt g] by blast
    then show ?thesis using that [of s1 "{}"] False t by (simp add: slot_step_def Let_def)
  qed
  have "0 < length (bucket s1 l k)" using s1(4) ne by simp
  note sp = swap_pop_winv [OF s1(2) l this]
  have "fires D s (slot_step l k 0 s)"
    using fires_trans [OF s1(3) conjunct2 [OF sp] map_ok_inj [OF wd(3)]] s1(1) by simp
  then show ?thesis
    using sp s1 D bucket_swap_pop_at [OF winvD(1) [OF s1(2)] l] by auto
qed

section \<open>The slot loop ends and empties its slot\<close>

lemma fires_deref:
  assumes "fires D s s'" "map_ok s' {}" "p \<in> ptrs s' {}" "map_ok s {}"
  shows "p \<in> ptrs s {} \<and> payload (deref s' p) = payload (deref s p)"
proof -
  let ?i = "id_of (deref s' p)"
  have m: "timerMap s' ?i = Some p" using map_ok_ptr [OF assms(2,3)] .
  moreover have "timerMap s' = timerMap s |` (- D)" using assms(1) by (simp add: fires_def)
  ultimately have i: "?i \<notin> D" "timerMap s ?i = Some p"
    by (auto simp: restrict_map_def split: if_splits)
  then have "map_option payload (pend s' ?i) = map_option payload (pend s ?i)"
    using assms(1) by (simp add: fires_def)
  then show ?thesis using i(2) m assms(4) by (simp add: pend_def map_ok_def)
qed

definition due :: "u64 set \<Rightarrow> tw \<Rightarrow> nat \<Rightarrow> bool" where
  "due D s c \<longleftrightarrow> (\<forall>i\<in>D. unat (expiryTime (the (pend s i))) \<le> c)"

lemma fires_expiry:
  assumes "fires D s s'" "i \<in> dom (timerMap s')"
  shows "i \<in> dom (timerMap s) \<and> i \<notin> D \<and> expiryTime (the (pend s i)) = expiryTime (the (pend s' i))"
proof -
  have i: "i \<notin> D" "i \<in> dom (timerMap s)" using assms by (auto simp: fires_def)
  obtain t1 where t1: "pend s' i = Some t1" using assms(2) by (auto simp: pend_def)
  then obtain t where "pend s i = Some t" "payload t = payload t1"
    using fires_pendD(2) [OF assms(1) i(1)] by blast
  then show ?thesis using t1 i payload_eqD(1) [of t t1] by simp
qed

lemma fires_due_trans:
  assumes "fires D1 s s1" "fires D2 s1 s2" "inj_on (timerMap s) (dom (timerMap s))"
    "due D1 s c" "due D2 s1 c"
  shows "fires (D1 \<union> D2) s s2 \<and> due (D1 \<union> D2) s c"
proof -
  have "D2 \<subseteq> dom (timerMap s1)" using assms(2) by (simp add: fires_def)
  then have "due D2 s c" using assms(5) fires_expiry [OF assms(1)]
    unfolding due_def by (metis subsetD)
  then show ?thesis using fires_trans [OF assms(1-3)] assms(4) by (auto simp: due_def)
qed

lemma slot_loop_spec:
  assumes "winv L s cs {}" "l < L" "k < 256" "unat (currentTime s) = c" "c < 2 ^ 63"
    "\<And>p. p \<in> set (bucket s l k) \<Longrightarrow> slot_good cs l c (unat (expiryTime (deref s p)))"
  shows "\<exists>s' D. slot_loop l k 0 s = Some s' \<and> winv L s' cs {} \<and> bucket s' l k = []
    \<and> fires D s s' \<and> due D s c"
  using assms
proof (induction "length (bucket s l k)" arbitrary: s)
  case 0
  then show ?case by (intro exI [of _ s] exI [of _ "{}"]) (simp add: slot_loop.simps [of l k 0 s] fires_refl due_def)
next
  case (Suc n)
  let ?s1 = "slot_step l k 0 s"
  have ne: "bucket s l k \<noteq> []" using Suc.hyps(2) by auto
  then have g: "slot_good cs l (unat (currentTime s)) (unat (expiryTime (deref s (bucket s l k ! 0))))"
    using Suc.prems(4,6) by (cases "bucket s l k") auto
  from slot_step_spec [OF Suc.prems(1-3) ne _ g] Suc.prems obtain D1 where
    w1: "winv L ?s1 cs {}" and b1: "bucket ?s1 l k = swap_pop 0 (bucket s l k)"
    and f1: "fires D1 s ?s1" and D1: "due D1 s c" by (auto simp: due_def)
  have ct: "currentTime ?s1 = currentTime s" using f1 by (simp add: fires_def rest_def)
  have m: "map_ok s {}" "map_ok ?s1 {}" using winvD(3) [OF Suc.prems(1)] winvD(3) [OF w1] by auto
  have keep: "slot_good cs l c (unat (expiryTime (deref ?s1 p)))" if "p \<in> set (bucket ?s1 l k)" for p
  proof -
    have "p \<in> ptrs ?s1 {}"
      using that Suc.prems(2,3) winvD(6) [OF w1] by (auto simp: ptrs_def at_def in_set_conv_nth)
    then have "expiryTime (deref ?s1 p) = expiryTime (deref s p)"
      using fires_deref [OF f1 m(2) _ m(1)] payload_eqD(1) by blast
    moreover have "p \<in> set (bucket s l k)" using that b1 set_swap_pop_subset by fastforce
    ultimately show ?thesis using Suc.prems(6) by simp
  qed
  have "n = length (bucket ?s1 l k)" using b1 Suc.hyps(2) ne by simp
  from Suc.hyps(1) [OF this w1 Suc.prems(2,3) _ Suc.prems(5) keep] Suc.prems(4) ct
  obtain s' D2 where s': "slot_loop l k 0 ?s1 = Some s'" "winv L s' cs {}" "bucket s' l k = []"
    and f2: "fires D2 ?s1 s'" and D2: "due D2 ?s1 c" by auto
  have "fires (D1 \<union> D2) s s' \<and> due (D1 \<union> D2) s c"
    using fires_due_trans [OF f1 f2 map_ok_inj [OF m(1)]] D1 D2 by simp
  moreover have "slot_loop l k 0 s = Some s'" using s'(1) ne by (subst slot_loop.simps) simp
  ultimately show ?case
    using s'(2,3) by blast
qed

section \<open>Arithmetic of one clock step\<close>

lemma aligned_div:
  fixes c I :: nat
  assumes "0 < I" "Suc c mod I = 0"
  shows "Suc c div I = Suc (c div I)"
  using assms by (simp add: div_Suc)

lemma unaligned_div:
  fixes c I :: nat
  assumes "Suc c mod I \<noteq> 0"
  shows "Suc c div I = c div I"
  using assms by (simp add: div_Suc)

lemma mod_window:
  fixes E d :: nat
  assumes "d < E" "E \<le> d + 256" "E mod 256 = Suc d mod 256"
  shows "E = Suc d"
proof -
  have "(Suc d + (E - Suc d)) mod 256 = (Suc d + 0) mod 256" "E - Suc d < 256" using assms by auto
  then have "E - Suc d = 0" by (intro ring_index_inj [of _ 256 0 "Suc d"]) auto
  then show ?thesis using assms by simp
qed

lemma placed_crossing:
  assumes "placed c l (Suc c div 256 ^ l mod 256) e" "Suc c mod 256 ^ l = 0" "0 < l"
  shows "e div 256 ^ l = Suc c div 256 ^ l"
proof -
  have d: "Suc c div 256 ^ l = Suc (c div 256 ^ l)" using assms(2) by (intro aligned_div) auto
  from assms(1,3) have "c div 256 ^ l < e div 256 ^ l" "e div 256 ^ l \<le> c div 256 ^ l + 256"
    "e div 256 ^ l mod 256 = Suc (c div 256 ^ l) mod 256"
    by (auto simp: placed_def d)
  then show ?thesis using mod_window d by simp
qed

lemma placed_other:
  assumes "placed c l k e" "k \<noteq> Suc c div 256 ^ l mod 256" "Suc c mod 256 ^ l = 0"
  shows "placed (Suc c) l k e \<and> Suc c < e"
proof -
  have d: "Suc c div 256 ^ l = Suc (c div 256 ^ l)" using assms(3) by (intro aligned_div) auto
  have p: "c div 256 ^ l < e div 256 ^ l" "e div 256 ^ l \<le> c div 256 ^ l + 256"
    "k = e div 256 ^ l mod 256"
    using assms(1,2) by (auto simp: placed_def)
  have lt: "Suc c div 256 ^ l < e div 256 ^ l"
    using p assms(2) unfolding d by (cases "e div 256 ^ l = Suc (c div 256 ^ l)") auto
  have "Suc c < e"
  proof (rule ccontr)
    assume "\<not> Suc c < e"
    then have "e div 256 ^ l \<le> Suc c div 256 ^ l" by (intro div_le_mono) simp
    with lt show False by simp
  qed
  then show ?thesis using lt p d by (simp add: placed_def)
qed

lemma placed_skip:
  assumes "Suc c mod 256 ^ l \<noteq> 0" "placed c l k e"
  shows "placed (Suc c) l k e"
proof -
  have "l \<noteq> 0" using assms(1) by (cases l) auto
  then show ?thesis using assms unaligned_div [OF assms(1)] by (simp add: placed_def)
qed

lemma placed_back:
  assumes "placed (Suc c) l k e" "Suc c mod 256 ^ l = 0" "Suc c < e" "e - Suc c < 256 ^ Suc l"
  shows "placed c l k e"
proof -
  let ?I = "256 ^ l :: nat"
  have d: "Suc c div ?I = Suc (c div ?I)" using assms(2) by (intro aligned_div) auto
  have p: "Suc c div ?I < e div ?I" "k = e div ?I mod 256" using assms(1,3) by (auto simp: placed_def)
  have "Suc c = Suc c div ?I * ?I" using assms(2) by (metis add.right_neutral div_mult_mod_eq)
  then have "e < (Suc c div ?I + 256) * ?I" using assms(4) by (simp add: add_mult_distrib)
  then have "e div ?I < Suc c div ?I + 256" by (simp add: less_mult_imp_div_less)
  then show ?thesis using p d by (simp add: placed_def)
qed

lemma crossing_good:
  assumes p: "placed c l (Suc c div 256 ^ l mod 256) e" "Suc c mod 256 ^ l = 0" "0 < l"
    and cs: "\<And>l'. l' < l \<Longrightarrow> cs l' = c"
  shows "slot_good cs l (Suc c) e"
proof -
  let ?I = "256 ^ l :: nat"
  have "e div ?I = Suc c div ?I" by (rule placed_crossing [OF p])
  then have "e < Suc c div ?I * ?I + ?I"
    by (metis div_mult_mod_eq nat_add_left_cancel_less mod_less_divisor zero_less_numeral zero_less_power)
  moreover have "Suc c = Suc c div ?I * ?I" using p(2) by (metis add.right_neutral div_mult_mod_eq)
  ultimately have e: "e < Suc c + ?I" by simp
  have "placed (cs l') l' k' e"
    if "Suc c < e" "l' < l" "placed (Suc c) l' k' e" "e - Suc c < 256 ^ Suc l'" for l' k'
  proof -
    have "Suc c mod 256 ^ l' = 0"
      using p(2) that(2) by (meson dvd_trans less_imp_le le_imp_power_dvd mod_eq_0_iff_dvd)
    then show ?thesis using placed_back [OF that(3) _ that(1,4)] cs that(2) by simp
  qed
  then show ?thesis using e p(3) by (auto simp: slot_good_def)
qed

lemma level0_good:
  assumes "placed c 0 (Suc c mod 256) e"
  shows "slot_good cs 0 (Suc c) e"
  using assms mod_window [of c e] by (auto simp: placed_def slot_good_def)

section \<open>One step of the clock\<close>

definition stepping :: "nat \<Rightarrow> nat \<Rightarrow> nat \<Rightarrow> nat" where
  "stepping c n l = (if l \<le> n then c else Suc c)"

lemma winv_recs:
  assumes "winv L s cs {}" "\<And>l k j p e. at s l k j p \<Longrightarrow> e = unat (expiryTime (deref s p)) \<Longrightarrow>
    placed (cs l) l k e \<Longrightarrow> placed (cs' l) l k e"
  shows "winv L s cs' {}"
proof -
  note w = winvD [OF assms(1)]
  have "cells_ok s cs' {}"
    unfolding cells_ok_def
  proof (intro allI impI)
    fix l k j p assume a: "at s l k j p"
    from cells_okD [OF w(2) a] show "cell_ok (mem s) (cs' l) l k j p"
      using assms(2) [OF a] by (auto simp: cell_ok_def)
  qed
  then show ?thesis using assms(1) by (simp add: winv_def)
qed

lemma bucket_placed:
  assumes "winv L s cs {}" "l < L" "k < 256" "p \<in> set (bucket s l k)"
  shows "placed (cs l) l k (unat (expiryTime (deref s p)))"
proof -
  obtain j where "at s l k j p"
    using assms winvD(6) [OF assms(1)] by (auto simp: at_def in_set_conv_nth)
  from cells_okD [OF winvD(2) [OF assms(1)] this] show ?thesis by (auto simp: cell_ok_def)
qed

lemma word_slot:
  assumes "wshape L s" "l < L"
  shows "currentTime s mod interval (wheels s ! l) = 0 \<longleftrightarrow> unat (currentTime s) mod 256 ^ l = 0"
    "unat ((currentTime s div interval (wheels s ! l)) AND (slots (wheels s ! l) - 1))
       = unat (currentTime s) div 256 ^ l mod 256"
    "unat (currentTime s AND (slots (wheels s ! l) - 1)) = unat (currentTime s) mod 256"
proof -
  have w: "unat (interval (wheels s ! l)) = 256 ^ l" "slots (wheels s ! l) - 1 = (mask 8 :: u64)"
    using assms by (auto simp: wshape_def mask_eq_exp_minus_1)
  have "unat (currentTime s mod interval (wheels s ! l)) = unat (currentTime s) mod 256 ^ l"
    by (simp add: unat_mod w)
  then show "currentTime s mod interval (wheels s ! l) = 0 \<longleftrightarrow> unat (currentTime s) mod 256 ^ l = 0"
    by (metis unat_eq_0)
  have m: "unat (x AND mask 8) = unat x mod 256" for x :: u64
    using unat_and_mask [of x 8] by simp
  show "unat ((currentTime s div interval (wheels s ! l)) AND (slots (wheels s ! l) - 1))
       = unat (currentTime s) div 256 ^ l mod 256"
    "unat (currentTime s AND (slots (wheels s ! l) - 1)) = unat (currentTime s) mod 256"
    unfolding w(2) m by (simp_all add: unat_div w)
qed

lemma advance_levels_spec:
  assumes "winv L s (stepping c n) {}" "n < L" "unat (currentTime s) = Suc c" "Suc c < 2 ^ 63"
  shows "\<exists>s' D. advance_levels (rev [1..<Suc n]) s = Some s' \<and> winv L s' (stepping c 0) {}
    \<and> fires D s s' \<and> due D s (Suc c)"
  using assms
proof (induction n arbitrary: s)
  case 0
  then show ?case by (intro exI [of _ s] exI [of _ "{}"]) (simp add: fires_refl due_def)
next
  case (Suc n)
  let ?l = "Suc n"
  note ws = word_slot [OF winvD(1) [OF Suc.prems(1)] Suc.prems(2)]
  have lv: "rev [1..<Suc ?l] = ?l # rev [1..<Suc n]" by simp
  show ?case
  proof (cases "Suc c mod 256 ^ ?l = 0")
    case False
    have "winv L s (stepping c n) {}"
    proof (rule winv_recs [OF Suc.prems(1)])
      fix l k j p e assume "placed (stepping c ?l l) l k e"
      then show "placed (stepping c n l) l k e"
        using placed_skip [OF False] by (cases "l = ?l") (auto simp: stepping_def)
    qed
    from Suc.IH [OF this _ Suc.prems(3,4)] Suc.prems(2) False ws Suc.prems(3) show ?thesis
      unfolding lv by simp
  next
    case True
    let ?k = "Suc c div 256 ^ ?l mod 256"
    have k: "?k < 256" by simp
    have good: "slot_good (stepping c ?l) ?l (Suc c) (unat (expiryTime (deref s p)))"
      if "p \<in> set (bucket s ?l ?k)" for p
      using bucket_placed [OF Suc.prems(1,2) k that] True
      by (intro crossing_good) (auto simp: stepping_def)
    from slot_loop_spec [OF Suc.prems(1,2) k Suc.prems(3,4) good] obtain s1 D1 where
      s1: "slot_loop ?l ?k 0 s = Some s1" "winv L s1 (stepping c ?l) {}" "bucket s1 ?l ?k = []"
        "fires D1 s s1" "due D1 s (Suc c)" by blast
    have "winv L s1 (stepping c n) {}"
    proof (rule winv_recs [OF s1(2)])
      fix l k j p e assume a: "at s1 l k j p" and pl: "placed (stepping c ?l l) l k e"
      show "placed (stepping c n l) l k e"
      proof (cases "l = ?l")
        case l: True
        then have "k \<noteq> ?k" using a s1(3) by (auto simp: at_def)
        then show ?thesis using placed_other [of c ?l k e] pl True l by (simp add: stepping_def)
      qed (use pl in \<open>auto simp: stepping_def\<close>)
    qed
    moreover have ct: "currentTime s1 = currentTime s" using s1(4) by (simp add: fires_def rest_def)
    ultimately obtain s' D2 where s': "advance_levels (rev [1..<Suc n]) s1 = Some s'"
      "winv L s' (stepping c 0) {}" "fires D2 s1 s'" "due D2 s1 (Suc c)"
      using Suc.IH [of s1] Suc.prems by auto
    have "fires (D1 \<union> D2) s s' \<and> due (D1 \<union> D2) s (Suc c)"
      using fires_due_trans [OF s1(4) s'(3) map_ok_inj [OF winvD(3) [OF Suc.prems(1)]] s1(5) s'(4)] .
    moreover have "advance_levels (rev [1..<Suc ?l]) s = Some s'"
      unfolding lv using ws True Suc.prems(3) s1(1) s'(1) by (simp add: processSlot_def)
    ultimately show ?thesis using s'(2) by blast
  qed
qed

definition due_ids :: "tw \<Rightarrow> nat \<Rightarrow> u64 set" where
  "due_ids s n = {i \<in> dom (timerMap s). unat (expiryTime (the (pend s i))) \<le> n}"

definition tw_inv :: "nat \<Rightarrow> tw \<Rightarrow> bool" where
  "tw_inv L s \<longleftrightarrow> winv L s (\<lambda>_. unat (currentTime s)) {} \<and> unat (currentTime s) < 2 ^ 63"

lemma winv_time:
  "winv L (s\<lparr>currentTime := x\<rparr>) cs X = winv L s cs X"
proof -
  let ?s = "s\<lparr>currentTime := x\<rparr>"
  have d: "at ?s = at s" "wshape L ?s = wshape L s" "ptrs ?s = ptrs s"
    by (rule at_cong wshape_cong ptrs_cong; simp)+
  have e: "deref ?s = deref s" by (simp add: deref_def fun_eq_iff)
  have "pend ?s = pend s" by (simp add: pend_def fun_eq_iff e)
  then have "expiries ?s = expiries s" by (simp add: expiries_def)
  then show ?thesis
    unfolding winv_def cells_ok_def map_ok_def cnt_ok_def nx_ok_def d e by simp
qed

lemma pend_time [simp]: "pend (s\<lparr>currentTime := x\<rparr>) = pend s"
  by (simp add: pend_def deref_def fun_eq_iff map_option_case split: option.splits)

lemma pend_ran:
  assumes "i \<in> dom (timerMap s)"
  shows "the (pend s i) \<in> ran (pend s)"
proof -
  obtain p where "timerMap s i = Some p" using assms by blast
  then have "pend s i = Some (the (pend s i))" by (simp add: pend_def)
  then show ?thesis by (rule ranI)
qed

lemma advance_spec:
  assumes "tw_inv L s" "Suc (unat (currentTime s)) < 2 ^ 63"
  shows "\<exists>s'. advance s = Some s' \<and> tw_inv L s' \<and> unat (currentTime s') = Suc (unat (currentTime s))
    \<and> fires (due_ids s (Suc (unat (currentTime s)))) (s\<lparr>currentTime := currentTime s + 1\<rparr>) s'
    \<and> (\<forall>t\<in>ran (pend s'). unat (currentTime s') < unat (expiryTime t))"
proof -
  let ?c = "unat (currentTime s)" and ?s = "s\<lparr>currentTime := currentTime s + 1\<rparr>"
  have ct: "unat (currentTime ?s) = Suc ?c" using assms(2) by (simp add: unat_word_ariths)
  have L: "L - 1 < L" "0 < L" and wl: "length (wheels ?s) = L"
    using winvD(1) [of L s "\<lambda>_. ?c" "{}"] assms(1) by (auto simp: tw_inv_def wshape_def)
  have w: "winv L ?s (stepping ?c (L - 1)) {}"
    unfolding winv_time
  proof (rule winv_recs [of L s "\<lambda>_. ?c"])
    show "winv L s (\<lambda>_. ?c) {}" using assms(1) by (simp add: tw_inv_def)
    fix l k j p e assume "at s l k j p" "placed ?c l k e"
    moreover from this have "l \<le> L - 1" using wl by (auto simp: at_def)
    ultimately show "placed (stepping ?c (L - 1) l) l k e" by (simp add: stepping_def)
  qed
  obtain s1 D1 where s1: "advance_levels (rev [1..<L]) ?s = Some s1" "winv L s1 (stepping ?c 0) {}"
    "fires D1 ?s s1" "due D1 ?s (Suc ?c)"
    using advance_levels_spec [OF w L(1) ct assms(2)] L by auto
  have ct1: "unat (currentTime s1) = Suc ?c" using s1(3) ct by (simp add: fires_def rest_def)
  let ?k = "Suc ?c mod 256"
  have k: "?k < 256" by simp
  have good: "slot_good (stepping ?c 0) 0 (Suc ?c) (unat (expiryTime (deref s1 p)))"
    if "p \<in> set (bucket s1 0 ?k)" for p
    using bucket_placed [OF s1(2) L(2) k that] by (intro level0_good) (simp add: stepping_def)
  from slot_loop_spec [OF s1(2) L(2) k ct1 assms(2) good] obtain s2 D2 where
    s2: "slot_loop 0 ?k 0 s1 = Some s2" "winv L s2 (stepping ?c 0) {}" "bucket s2 0 ?k = []"
      "fires D2 s1 s2" "due D2 s1 (Suc ?c)" by blast
  have ct2: "unat (currentTime s2) = Suc ?c" using s2(4) ct1 by (simp add: fires_def rest_def)
  have adv: "advance s = Some s2"
    using s1(1) s2(1) wl word_slot(3) [OF winvD(1) [OF s1(2)] L(2)] ct1
    by (simp add: advance_def processSlot_def)
  have fut: "placed (Suc ?c) l k e \<and> Suc ?c < e" if a: "at s2 l k j p"
    and pl: "placed (stepping ?c 0 l) l k e" for l k j p e
  proof (cases "l = 0")
    case True
    then have "k \<noteq> ?k" using a s2(3) by (auto simp: at_def)
    then show ?thesis using placed_other [of ?c 0 k e] pl True by (simp add: stepping_def)
  next
    case False
    then have "placed (Suc ?c) l k e" using pl by (simp add: stepping_def)
    moreover from this have "Suc ?c div 256 ^ l < e div 256 ^ l" using False by (auto simp: placed_def)
    then have "Suc ?c < e" by (meson div_le_mono leD not_le)
    ultimately show ?thesis by simp
  qed
  have "winv L s2 (\<lambda>_. Suc ?c) {}" using winv_recs [OF s2(2), of "\<lambda>_. Suc ?c"] fut by blast
  then have i2: "tw_inv L s2" using ct2 assms(2) by (simp add: tw_inv_def)
  have fut2: "Suc ?c < unat (expiryTime t)" if t: "t \<in> ran (pend s2)" for t
  proof -
    obtain i p where ip: "timerMap s2 i = Some p" "t = deref s2 p"
      using t by (auto simp: ran_def pend_def)
    then have "p \<in> ptrs s2 {}" using winvD(3) [OF s2(2)] by (auto simp: map_ok_def)
    then obtain l k j where a: "at s2 l k j p" by (auto simp: ptrs_def)
    from cells_okD [OF winvD(2) [OF s2(2)] this] fut [OF a] ip(2) show ?thesis
      by (auto simp: cell_ok_def)
  qed
  have f: "fires (D1 \<union> D2) ?s s2" "due (D1 \<union> D2) ?s (Suc ?c)"
    using fires_due_trans [OF s1(3) s2(4) map_ok_inj [OF winvD(3) [OF w]] s1(4) s2(5)] by auto
  have "D1 \<union> D2 = due_ids s (Suc ?c)"
  proof
    show "D1 \<union> D2 \<subseteq> due_ids s (Suc ?c)"
      using f by (auto simp: due_ids_def due_def fires_def)
    show "due_ids s (Suc ?c) \<subseteq> D1 \<union> D2"
    proof
      fix i assume i: "i \<in> due_ids s (Suc ?c)"
      show "i \<in> D1 \<union> D2"
      proof (rule ccontr)
        assume n: "i \<notin> D1 \<union> D2"
        then have "i \<in> dom (timerMap s2)" using i f(1) by (auto simp: fires_def due_ids_def)
        moreover from this have "the (pend s2 i) \<in> ran (pend s2)" by (rule pend_ran)
        ultimately show False
          using fires_expiry [OF f(1)] fut2 [of "the (pend s2 i)"] i by (auto simp: due_ids_def)
      qed
    qed
  qed
  then show ?thesis using adv i2 ct2 f(1) fut2 by auto
qed

section \<open>Running the clock up to a given time\<close>

lemma fires_time:
  assumes "fires D s s'"
  shows "fires D (s\<lparr>currentTime := x\<rparr>) (s'\<lparr>currentTime := x\<rparr>)"
  using assms by (simp add: fires_def fired_ms_def rest_def)

lemma advance_to_aux:
  assumes "tw_inv L s" "unat n < 2 ^ 63" "unat (currentTime s) \<le> unat n"
    "unat (currentTime s) < unat n \<or> (\<forall>t\<in>ran (pend s). unat (currentTime s) < unat (expiryTime t))"
  shows "\<exists>s'. advance_to n s = Some s' \<and> tw_inv L s' \<and> currentTime s' = n
    \<and> fires (due_ids s (unat n)) (s\<lparr>currentTime := n\<rparr>) s'
    \<and> (\<forall>t\<in>ran (pend s'). unat n < unat (expiryTime t))"
  using assms
proof (induction "unat n - unat (currentTime s)" arbitrary: s)
  case 0
  then have eq: "currentTime s = n" by (simp add: word_unat_eq_iff)
  have f: "\<forall>t\<in>ran (pend s). unat n < unat (expiryTime t)" using 0 eq by auto
  then have "due_ids s (unat n) = {}" using pend_ran by (fastforce simp: due_ids_def)
  moreover have "s\<lparr>currentTime := n\<rparr> = s" using eq by simp
  then have "fires {} (s\<lparr>currentTime := n\<rparr>) s" by (simp only: fires_refl)
  moreover have "advance_to n s = Some s" using eq by (simp add: advance_to.simps [of n s])
  ultimately show ?case using 0(2) f eq by (intro exI [of _ s]) simp
next
  case (Suc d)
  let ?c = "unat (currentTime s)"
  have lt: "?c < unat n" using Suc.hyps(2) by simp
  then have "Suc ?c < 2 ^ 63" using Suc.prems(2) by simp
  from advance_spec [OF Suc.prems(1) this] obtain s1 where
    s1: "advance s = Some s1" "tw_inv L s1" "unat (currentTime s1) = Suc ?c"
      "fires (due_ids s (Suc ?c)) (s\<lparr>currentTime := currentTime s + 1\<rparr>) s1"
      "\<forall>t\<in>ran (pend s1). unat (currentTime s1) < unat (expiryTime t)" by auto
  have "d = unat n - unat (currentTime s1)" "unat (currentTime s1) \<le> unat n"
    using Suc.hyps(2) s1(3) lt by auto
  from Suc.hyps(1) [OF this(1) s1(2) Suc.prems(2) this(2)] s1(5) obtain s2 where
    s2: "advance_to n s1 = Some s2" "tw_inv L s2" "currentTime s2 = n"
      "fires (due_ids s1 (unat n)) (s1\<lparr>currentTime := n\<rparr>) s2"
      "\<forall>t\<in>ran (pend s2). unat n < unat (expiryTime t)" by auto
  have f1: "fires (due_ids s (Suc ?c)) (s\<lparr>currentTime := n\<rparr>) (s1\<lparr>currentTime := n\<rparr>)"
    using fires_time [OF s1(4), of n] by simp
  have inj: "inj_on (timerMap s) (dom (timerMap s))"
    using Suc.prems(1) by (auto simp: tw_inv_def dest!: winvD(3) intro: map_ok_inj)
  have "fires (due_ids s (Suc ?c) \<union> due_ids s1 (unat n)) (s\<lparr>currentTime := n\<rparr>) s2"
    using fires_trans [OF f1 s2(4)] inj by simp
  moreover have "due_ids s (Suc ?c) \<union> due_ids s1 (unat n) = due_ids s (unat n)"
  proof -
    have tm: "timerMap s1 = timerMap s |` (- due_ids s (Suc ?c))" using s1(4) by (simp add: fires_def)
    have "i \<in> due_ids s1 (unat n) \<longleftrightarrow> i \<in> due_ids s (unat n)" if i: "i \<notin> due_ids s (Suc ?c)" for i
    proof (cases "i \<in> dom (timerMap s)")
      case True
      then have "i \<in> dom (timerMap s1)" using i tm by (auto simp: restrict_map_def)
      then show ?thesis using True fires_expiry [OF s1(4), of i] by (simp add: due_ids_def)
    next
      case False
      then have "i \<notin> dom (timerMap s1)" by (simp add: tm)
      then show ?thesis using False by (simp add: due_ids_def)
    qed
    moreover have "due_ids s (Suc ?c) \<subseteq> due_ids s (unat n)" using lt by (auto simp: due_ids_def)
    ultimately show ?thesis by blast
  qed
  moreover have "advance_to n s = Some s2"
    using lt s1(1) s2(1) by (subst advance_to.simps) (simp add: word_less_nat_alt)
  ultimately show ?case using s2 by auto
qed

section \<open>The cached next expiry is exact after a refresh\<close>

definition all_ptrs :: "tw \<Rightarrow> ptr list" where
  "all_ptrs s = concat (concat (map buckets (wheels s)))"

lemma min_scan_append: "min_scan s (xs @ ys) m = min_scan s ys (min_scan s xs m)"
  by (simp add: min_scan_def)

lemma min_scan_concat: "fold (\<lambda>b m. min_scan s b m) bs m = min_scan s (concat bs) m"
  by (induction bs arbitrary: m) (simp_all add: min_scan_append, simp add: min_scan_def)

lemma scan_all:
  "fold (\<lambda>w m. fold (\<lambda>b m. min_scan s b m) (buckets w) m) (wheels s) 0 = min_scan s (all_ptrs s) 0"
proof -
  have "fold (\<lambda>w m. fold (\<lambda>b m. min_scan s b m) (buckets w) m) ws m
      = min_scan s (concat (concat (map buckets ws))) m" for ws m
    by (induction ws arbitrary: m) (simp_all add: min_scan_append min_scan_concat, simp add: min_scan_def)
  then show ?thesis by (simp add: all_ptrs_def)
qed

lemma set_all_ptrs:
  assumes "wshape L s"
  shows "set (all_ptrs s) = ptrs s {}"
proof -
  have "p \<in> set (all_ptrs s) \<longleftrightarrow> (\<exists>l<L. \<exists>k<256. p \<in> set (bucket s l k))" for p
  proof -
    have "p \<in> set (all_ptrs s) \<longleftrightarrow> (\<exists>l<length (wheels s). \<exists>k<length (buckets (wheels s ! l)).
        p \<in> set (buckets (wheels s ! l) ! k))"
      by (simp add: all_ptrs_def) (metis in_set_conv_nth)
    also have "\<dots> \<longleftrightarrow> (\<exists>l<L. \<exists>k<256. p \<in> set (bucket s l k))"
      using assms by (simp add: wshape_def bucket_def cong: conj_cong)
    finally show ?thesis .
  qed
  moreover have "p \<in> ptrs s {} \<longleftrightarrow> (\<exists>l<L. \<exists>k<256. p \<in> set (bucket s l k))" for p
    using assms by (simp add: ptrs_def at_def wshape_def in_set_conv_nth)
  ultimately show ?thesis by blast
qed

lemma min_scan_Min:
  assumes "\<forall>p\<in>set ps. active (deref s p) \<and> expiryTime (deref s p) \<noteq> 0"
  defines "E m \<equiv> (if m = 0 then {} else {m}) \<union> (\<lambda>p. expiryTime (deref s p)) ` set ps"
  shows "min_scan s ps m = (if E m = {} then 0 else Min (E m))"
  unfolding E_def using assms(1)
proof (induction ps arbitrary: m)
  case (Cons p ps)
  let ?e = "expiryTime (deref s p)"
  let ?m = "if m = 0 \<or> ?e < m then ?e else m"
  let ?R = "(\<lambda>p. expiryTime (deref s p)) ` set ps"
  have e: "?e \<noteq> 0" "active (deref s p)" using Cons.prems by auto
  have "min_scan s (p # ps) m = min_scan s ps ?m" using e by (simp add: min_scan_def Let_def)
  also have "\<dots> = Min ({?m} \<union> ?R)" using Cons.IH [of ?m] Cons.prems e by auto
  also have "\<dots> = Min ((if m = 0 then {} else {m}) \<union> insert ?e ?R)"
    by (cases "?R = {}") (auto simp: min_def)
  finally show ?case by auto
qed (simp add: min_scan_def)

end
