(* ===== verification/Timer_Wheel_Ops.thy ===== *)
theory Timer_Wheel_Ops
  imports Timer_Wheel_Firing
begin

text \<open>
  The queued operations, the synchronous cancels and \<open>tick\<close>: each keeps the wheel invariant and has
  its effect on the map of pending timers, and a whole \<open>tick\<close> ends.
\<close>

section \<open>Refreshing the cached next expiry\<close>

lemma refresh_exact:
  assumes "winv L s cs {}"
  shows "winv L (refreshNextExpiry s) cs {}
    \<and> nextExpiryTime (refreshNextExpiry s) = (if expiries s = {} then 0 else Min (expiries s))
    \<and> \<not> nextExpiryDirty (refreshNextExpiry s)"
proof -
  note w = winvD [OF assms]
  let ?s = "refreshNextExpiry s"
  have flds: "wheels ?s = wheels s" "timerMap ?s = timerMap s" "mem ?s = mem s"
    "activeTimerCount ?s = activeTimerCount s" "\<not> nextExpiryDirty ?s"
    by (simp_all add: refreshNextExpiry_def updateNextExpiryTime_def Let_def)
  have d: "deref ?s = deref s" by (simp add: deref_def fun_eq_iff flds)
  have "pend ?s = pend s" by (simp add: pend_def fun_eq_iff d flds)
  then have ex: "expiries ?s = expiries s" by (simp add: expiries_def)
  have em: "activeTimerCount s = 0 \<longleftrightarrow> expiries s = {}"
  proof -
    have "activeTimerCount s = 0 \<longleftrightarrow> dom (timerMap s) = {}"
      using w(4) by (metis card_0_eq cnt_ok_def finite unat_eq_0)
    moreover have "expiries s = {} \<longleftrightarrow> dom (timerMap s) = {}"
      using pend_ran [of _ s] unfolding expiries_def image_is_empty
      by (metis empty_iff equals0I domIff option.map_disc_iff pend_def ranI ran_empty ext)
    ultimately show ?thesis by simp
  qed
  have scan: "nextExpiryTime (updateNextExpiryTime s) = (if expiries s = {} then 0 else Min (expiries s))"
  proof -
    have "expiries s = (\<lambda>p. expiryTime (deref s p)) ` ran (timerMap s)"
      unfolding set_eq_iff expiries_iff image_iff ran_def by blast
    then have E: "expiries s = (\<lambda>p. expiryTime (deref s p)) ` set (all_ptrs s)"
      using ran_timerMap [OF w(3)] set_all_ptrs [OF w(1)] by simp
    have "\<forall>p\<in>set (all_ptrs s). active (deref s p) \<and> expiryTime (deref s p) \<noteq> 0"
    proof
      fix p assume p: "p \<in> set (all_ptrs s)"
      then obtain t where "mem s p = Some t" "active t"
        using ptr_alive [OF w(2)] set_all_ptrs [OF w(1)] by metis
      moreover have "expiryTime (deref s p) \<in> expiries s" using E p by blast
      ultimately show "active (deref s p) \<and> expiryTime (deref s p) \<noteq> 0"
        using w(5) by (auto simp: nx_ok_def)
    qed
    from min_scan_Min [OF this, of 0] show ?thesis
      by (simp add: updateNextExpiryTime_def scan_all E)
  qed
  have nx: "nextExpiryTime ?s = (if expiries s = {} then 0 else Min (expiries s))"
  proof -
    have "nextExpiryTime s = (if expiries s = {} then 0 else Min (expiries s))"
      if "\<not> nextExpiryDirty s" using w(5) that by (simp add: nx_ok_def)
    then show ?thesis using em scan by (auto simp: refreshNextExpiry_def Let_def)
  qed
  have "winv L ?s cs {}"
    using w nx wshape_cong [OF flds(1)]
    unfolding winv_def cells_ok_def map_ok_def cnt_ok_def nx_ok_def ex d flds
      at_cong [OF flds(1)] ptrs_cong [OF flds(1)] by simp
  then show ?thesis using nx flds(5) by blast
qed

section \<open>Taking a pending timer out\<close>

lemma swap_pop_at_commute:
  "swap_pop_at l k j (s\<lparr>timerMap := m\<rparr>) = (swap_pop_at l k j s)\<lparr>timerMap := m\<rparr>"
  "swap_pop_at l k j (s\<lparr>activeTimerCount := n\<rparr>) = (swap_pop_at l k j s)\<lparr>activeTimerCount := n\<rparr>"
  "swap_pop_at l k j (s\<lparr>nextExpiryDirty := b\<rparr>) = (swap_pop_at l k j s)\<lparr>nextExpiryDirty := b\<rparr>"
  by (simp_all add: swap_pop_at_def Let_def put_bucket_def upd_def deref_def bucket_def)

lemma unlink_eq:
  assumes "at s l k j p" "mem s p = Some t" "level t = l" "slotIndex t = k" "posInBucket t = j"
  shows "removeTimerFromWheel p s
    = (swap_pop_at l k j s)\<lparr>nextExpiryDirty := nextExpiryDirty s \<or> expiryTime t = nextExpiryTime s\<rparr>"
  using assms by (auto simp: removeTimerFromWheel_def Let_def at_def)

lemma pending_at:
  assumes "winv L s cs {}" "timerMap s i = Some p"
  obtains l k j t where "at s l k j p" "mem s p = Some t" "active t" "level t = l" "slotIndex t = k"
    "posInBucket t = j" "l < L" "k < 256" "id_of t = i"
proof -
  note w = winvD [OF assms(1)]
  have p: "p \<in> ptrs s {}" "id_of (deref s p) = i" using w(3) assms(2) by (auto simp: map_ok_def)
  then obtain l k j where a: "at s l k j p" by (auto simp: ptrs_def)
  from cells_okD [OF w(2) a] obtain t where "mem s p = Some t" "active t" "level t = l"
    "slotIndex t = k" "posInBucket t = j" by (auto simp: cell_ok_def)
  then show ?thesis using that a p w(6) by (auto simp: at_def)
qed

text \<open>\<open>drops i s s'\<close>: the pending timer \<open>i\<close> is gone without firing, all others are as before.\<close>

definition drops :: "u64 \<Rightarrow> tw \<Rightarrow> tw \<Rightarrow> bool" where
  "drops i s s' \<longleftrightarrow> timerMap s' = (timerMap s)(i := None) \<and> fired_ms s' = fired_ms s
     \<and> (\<forall>j. j \<noteq> i \<longrightarrow> map_option payload (pend s' j) = map_option payload (pend s j))
     \<and> (\<forall>p. p \<notin> ran (timerMap s) \<longrightarrow> mem s' p = mem s p) \<and> rest s' = rest s"

lemma drop_active_spec:
  assumes "winv L s cs {}" "timerMap s i = Some p"
  shows "winv L (drop_active i p s) cs {} \<and> drops i s (drop_active i p s)
    \<and> payload (deref (drop_active i p s) p) = payload ((deref s p)\<lparr>active := False\<rparr>)
    \<and> mem (drop_active i p s) p \<noteq> None"
proof -
  note w = winvD [OF assms(1)]
  obtain l k j t where a: "at s l k j p" and t: "mem s p = Some t" "active t" "level t = l"
    "slotIndex t = k" "posInBucket t = j" "l < L" "k < 256" "id_of t = i"
    using pending_at [OF assms] .
  define u where "u = upd p (\<lambda>t. t\<lparr>active := False\<rparr>) s"
  define s0 where "s0 = u\<lparr>timerMap := (timerMap s)(i := None),
    activeTimerCount := activeTimerCount s - 1,
    nextExpiryDirty := nextExpiryDirty s \<or> expiryTime t = nextExpiryTime s\<rparr>"
  define r where "r = swap_pop_at l k j s0"
  have "at u l k j p" using a by (simp add: at_def u_def)
  from unlink_eq [OF this, of "t\<lparr>active := False\<rparr>"] t
  have eq: "drop_active i p s = r"
    by (simp add: drop_active_def Let_def r_def s0_def u_def swap_pop_at_commute)
  have f0: "timerMap s0 = (timerMap s)(i := None)" "wheels s0 = wheels s"
    "mem s0 = (mem s)(p \<mapsto> t\<lparr>active := False\<rparr>)" "fired_ms s0 = fired_ms s" "rest s0 = rest s"
    using t by (simp_all add: s0_def u_def fired_ms_def rest_def upd_def)
  have wi: "winv L s0 cs {(l, k, j)}"
    by (rule deact_winv [OF assms(1) a]) (use t in \<open>auto simp: s0_def u_def\<close>)
  have jl: "j < length (bucket s0 l k)" using a bucket_cong [OF f0(2)] by (simp add: at_def)
  have wr: "winv L r cs {}" and fr: "fires {} s0 r"
    using swap_pop_winv [OF wi t(6,7) jl] by (auto simp: r_def)
  have f1: "timerMap r = timerMap s0" "fired_ms r = fired_ms s0" "rest r = rest s0"
    "\<And>i'. map_option payload (pend r i') = map_option payload (pend s0 i')"
    "\<And>q. q \<notin> ran (timerMap s0) \<Longrightarrow> mem r q = mem s0 q"
    using fr by (auto simp: fires_def)
  have np: "p \<notin> ran (timerMap s0)"
    using assms(2) w(3) by (auto simp: f0 ran_def map_ok_def split: if_splits)
  have mp: "mem r p = Some (t\<lparr>active := False\<rparr>)" using f1(5) [OF np] f0 by simp
  have "map_option payload (pend r i') = map_option payload (pend s i')" if ne: "i' \<noteq> i" for i'
  proof -
    have "q \<noteq> p" if "timerMap s i' = Some q" for q
      using that ne w(3) t(8,1) by (auto simp: map_ok_def)
    then have "pend s0 i' = pend s i'"
      using ne f0 by (cases "timerMap s i'") (auto simp: pend_def deref_def)
    then show ?thesis using f1(4) by simp
  qed
  moreover have "mem r q = mem s q" if "q \<notin> ran (timerMap s)" for q
  proof -
    have "q \<noteq> p" "q \<notin> ran (timerMap s0)" using that assms(2) by (auto simp: f0 ran_def)
    then show ?thesis using f1(5) f0(3) by simp
  qed
  ultimately have "drops i s r" by (simp add: drops_def f1 f0)
  then show ?thesis unfolding eq using wr mp t(1) by (simp add: deref_def)
qed

section \<open>Linking a timer in\<close>

definition link :: "u64 \<Rightarrow> ptr \<Rightarrow> tw \<Rightarrow> tw" where
  "link i p s = (let s2 = addTimerToWheel p (expiryTime (deref s p)) s in
     s2\<lparr>timerMap := (timerMap s2)(i \<mapsto> p), activeTimerCount := activeTimerCount s2 + 1\<rparr>)"

definition in_reach :: "nat \<Rightarrow> tw \<Rightarrow> u64 \<Rightarrow> bool" where
  "in_reach L s e \<longleftrightarrow> e \<noteq> 0 \<and> (unat e \<le> unat (currentTime s) \<or> unat e - unat (currentTime s) < 256 ^ L)"

text \<open>\<open>adds i t s s'\<close>: the timer \<open>t\<close> became pending under \<open>i\<close>, all others are as before.\<close>

definition adds :: "u64 \<Rightarrow> ptr \<Rightarrow> Timer \<Rightarrow> tw \<Rightarrow> tw \<Rightarrow> bool" where
  "adds i p t s s' \<longleftrightarrow> timerMap s' = (timerMap s)(i \<mapsto> p) \<and> fired_ms s' = fired_ms s
     \<and> map_option payload (pend s' i) = Some (payload t)
     \<and> (\<forall>j. j \<noteq> i \<longrightarrow> pend s' j = pend s j)
     \<and> (\<forall>q. q \<noteq> p \<longrightarrow> mem s' q = mem s q) \<and> rest s' = rest s"

lemma card_dom_add:
  fixes m :: "u64 \<rightharpoonup> ptr"
  assumes "m 0 = None" "unat (c::u64) = card (dom m)" "m i = None" "i \<noteq> 0"
  shows "unat (c + 1) = card (dom (m(i \<mapsto> p)))"
proof -
  have "card (dom (m(i \<mapsto> p))) = Suc (card (dom m))" using assms(3) by (simp add: domIff)
  moreover have "card (dom (m(i \<mapsto> p))) \<le> card (UNIV - {0::u64})"
    using assms(1,4) by (intro card_mono) (auto split: if_splits)
  moreover have "card (UNIV - {0::u64}) = 2 ^ 64 - 1" by (simp add: card_Diff_singleton card_word)
  ultimately show ?thesis using assms(2) by (simp add: unat_word_ariths)
qed

lemma min_insert_next:
  fixes E :: "u64 set"
  assumes "finite E" "0 \<notin> E" "n = (if E = {} then 0 else Min E)" "e \<noteq> 0"
  shows "(if n = 0 \<or> e < n then e else n) = Min (insert e E)"
proof (cases "E = {}")
  case False
  then have "n = Min E" "Min E \<in> E" using assms by (auto intro: Min_in)
  moreover from this have "n \<noteq> 0" using assms(2) by metis
  ultimately have "n \<noteq> 0" "n = Min E" by auto
  moreover have "Min (insert e E) = min e (Min E)" using assms(1) False by (rule Min_insert)
  ultimately show ?thesis by (auto simp: min_def)
qed (use assms in auto)

lemma link_spec:
  assumes "winv L s (\<lambda>_. unat (currentTime s)) {}" "unat (currentTime s) < 2 ^ 63"
    and t: "mem s p = Some t" "active t" "id_of t = i" "in_reach L s (expiryTime t)"
    and fresh: "i \<noteq> 0" "timerMap s i = None" "p \<notin> ran (timerMap s)"
  shows "winv L (link i p s) (\<lambda>_. unat (currentTime s)) {} \<and> adds i p t s (link i p s)"
proof -
  let ?c = "unat (currentTime s)" and ?e = "expiryTime t"
  note w = winvD [OF assms(1)]
  obtain l k where lk: "l < L" "k < 256" "placed ?c l k (unat ?e)"
    and eq: "addTimerToWheel p ?e s = (let s2 = add_bucket p l k s in
       if nextExpiryTime s = 0 \<or> ?e < nextExpiryTime s then s2\<lparr>nextExpiryTime := ?e\<rparr> else s2)"
    using add_shape [OF w(1) assms(2), of ?e p] t(4) unfolding in_reach_def by metis
  define s1 where "s1 = add_bucket p l k s"
  define nx where "nx = (if nextExpiryTime s = 0 \<or> ?e < nextExpiryTime s then ?e else nextExpiryTime s)"
  define r where "r = link i p s"
  have re: "r = s1\<lparr>nextExpiryTime := nx, timerMap := (timerMap s)(i \<mapsto> p),
      activeTimerCount := activeTimerCount s + 1\<rparr>"
    using t(1) by (auto simp: r_def link_def Let_def eq nx_def s1_def)
  have wl: "wheels r = wheels s1" by (simp add: re)
  have f: "timerMap r = (timerMap s)(i \<mapsto> p)" "activeTimerCount r = activeTimerCount s + 1"
    "nextExpiryTime r = nx" "nextExpiryDirty r = nextExpiryDirty s" "mem r = mem s1"
    "fired_ms r = fired_ms s" "rest r = rest s"
    by (simp_all add: re s1_def fired_ms_def)
      (simp_all add: rest_def add_bucket_def put_bucket_def upd_def)
  have ms: "mem s1 = (mem s)(p \<mapsto> t\<lparr>level := l, slotIndex := k, posInBucket := length (bucket s l k)\<rparr>)"
    using t(1) by (simp add: s1_def)
  have dr: "deref r q = deref s q" if "q \<noteq> p" for q using that by (simp add: deref_def f ms)
  have dp: "payload (deref r p) = payload t" by (simp add: deref_def f ms payload_def)
  have np: "p \<notin> ptrs s {}" using fresh(3) ran_timerMap [OF w(3)] by simp
  have c: "cells_ok r (\<lambda>_. ?c) {}"
    using cells_ok_add [OF w(1) lk(1,2) w(2) np t(1,2) lk(3)]
    unfolding cells_ok_def at_cong [OF wl] f by (simp add: s1_def)
  have pt: "ptrs r {} = insert p (ptrs s {})"
    using ptrs_add [OF w(1) lk(1,2)] by (simp add: ptrs_cong [OF wl] s1_def)
  have idp: "id_of (deref r p) = i" using payload_eqD(4) [OF dp] t(3) by simp
  have m: "map_ok r {}"
    unfolding map_ok_def pt f
  proof (intro allI)
    fix j q
    show "((timerMap s)(i \<mapsto> p)) j = Some q \<longleftrightarrow> q \<in> insert p (ptrs s {}) \<and> id_of (deref r q) = j"
    proof (cases "q = p")
      case True
      then show ?thesis using idp fresh(3) by (auto simp: ran_def)
    next
      case False
      then have "((timerMap s)(i \<mapsto> p)) j = Some q \<longleftrightarrow> timerMap s j = Some q"
        using fresh(2) by auto
      then show ?thesis using False w(3) dr [OF False] by (simp add: map_ok_def)
    qed
  qed
  have cn: "cnt_ok r"
    using w(4) card_dom_add [of "timerMap s" "activeTimerCount s" i] fresh by (auto simp: cnt_ok_def f)
  have pd: "pend r j = pend s j" if "j \<noteq> i" for j
  proof -
    have "q \<noteq> p" if "timerMap s j = Some q" for q using that fresh(3) by (auto simp: ran_def)
    then show ?thesis using that dr by (cases "timerMap s j") (auto simp: pend_def f)
  qed
  have pi: "map_option payload (pend r i) = Some (payload t)" using dp by (simp add: pend_def f)
  have ex: "expiries r = insert ?e (expiries s)"
  proof -
    have pr: "pend r = (pend s)(i \<mapsto> deref r p)" using pd by (auto simp: pend_def f fun_eq_iff)
    have "pend s i = None" using fresh(2) by (simp add: pend_def)
    then have "ran (pend r) = insert (deref r p) (ran (pend s))" by (simp add: pr)
    then show ?thesis using payload_eqD(1) [OF dp] by (simp add: expiries_def)
  qed
  have "nx_ok r"
    using w(5) t(4) min_insert_next [of "expiries s" "nextExpiryTime s" ?e]
    by (auto simp: nx_ok_def ex f nx_def in_reach_def)
  then have "winv L r (\<lambda>_. ?c) {}"
    using c m cn w(1) wshape_cong [OF wl] by (simp add: winv_def s1_def)
  moreover have "adds i p t s r" using pd pi by (simp add: adds_def f ms)
  ultimately show ?thesis by (simp add: r_def)
qed

section \<open>The abstract timer service\<close>

text \<open>
  What the queued operations mean to a client: a map of pending timers and the two sets of ids whose
  \<open>ADD\<close> is to be ignored. \<open>m\<close> gives the timer a pointer stood for when it was queued, \<open>ck\<close> the
  clock readings.
\<close>

record awheel =
  a_pend :: "u64 \<rightharpoonup> Timer"
  a_canc :: "u64 set"
  a_det :: "u64 set"
  a_max :: u64
  a_reads :: nat

definition absw :: "tw \<Rightarrow> awheel" where
  "absw s = \<lparr>a_pend = (\<lambda>i. map_option payload (pend s i)), a_canc = cancelledPending s,
     a_det = detachedPending s, a_max = maxAddedId s, a_reads = reads s\<rparr>"

fun a_op :: "(nat \<Rightarrow> u64) \<Rightarrow> (ptr \<rightharpoonup> Timer) \<Rightarrow> Op \<Rightarrow> awheel \<Rightarrow> awheel" where
  "a_op ck m (ADD p i) a = (let a1 = a\<lparr>a_max := max (a_max a) i\<rparr> in
     if i \<in> a_det a then a1\<lparr>a_det := a_det a - {i}\<rparr>
     else if i \<in> a_canc a then a1\<lparr>a_canc := a_canc a - {i}\<rparr>
     else a1\<lparr>a_pend := (a_pend a)(i \<mapsto> payload (the (m p)))\<rparr>)"
| "a_op ck m (UPDATE i d) a = (case a_pend a i of None \<Rightarrow> a
     | Some t \<Rightarrow> a\<lparr>a_pend := (a_pend a)(i \<mapsto> t\<lparr>duration_ms := d, expiryTime := ck (a_reads a) + d\<rparr>),
         a_reads := Suc (a_reads a)\<rparr>)"
| "a_op ck m (REMOVE i dn) a = (if i \<in> dom (a_pend a) then a\<lparr>a_pend := (a_pend a)(i := None)\<rparr>
     else if i > a_max a then a\<lparr>a_canc := insert i (a_canc a)\<rparr> else a)"

text \<open>What holds of the operations in the queue when they are drained.\<close>

fun op_ok :: "nat \<Rightarrow> tw \<Rightarrow> nat \<Rightarrow> Op \<Rightarrow> bool" where
  "op_ok L s n (ADD p i) = (i \<noteq> 0 \<and> timerMap s i = None \<and> p \<notin> ran (timerMap s)
     \<and> (\<exists>t. mem s p = Some t \<and> active t \<and> id_of t = i \<and> in_reach L s (expiryTime t)))"
| "op_ok L s n (UPDATE i d) = (\<forall>r. reads s \<le> r \<and> r < reads s + n \<longrightarrow> in_reach L s (clock s r + d))"
| "op_ok L s n (REMOVE i dn) = True"

fun op_adds :: "Op \<Rightarrow> (ptr \<times> u64) list" where
  "op_adds (ADD p i) = [(p, i)]"
| "op_adds _ = []"

definition ops_ok :: "nat \<Rightarrow> tw \<Rightarrow> Op list \<Rightarrow> bool" where
  "ops_ok L s q \<longleftrightarrow> (\<forall>op\<in>set q. op_ok L s (length q) op)
     \<and> distinct (map fst (concat (map op_adds q))) \<and> distinct (map snd (concat (map op_adds q)))"

text \<open>The frame that every queued operation respects.\<close>

definition op_frame :: "tw \<Rightarrow> tw \<Rightarrow> bool" where
  "op_frame s s' \<longleftrightarrow> currentTime s' = currentTime s \<and> clock s' = clock s \<and> opsq s' = opsq s
     \<and> fired_ms s' = fired_ms s \<and> reads s \<le> reads s' \<and> reads s' \<le> Suc (reads s)"

lemma op_frame_rest: "rest s' = rest s \<Longrightarrow> fired_ms s' = fired_ms s \<Longrightarrow> op_frame s s'"
  by (simp add: op_frame_def rest_def)

lemma winv_free:
  assumes "winv L s cs {}" "p \<notin> ran (timerMap s)"
    "timerMap s' = timerMap s" "wheels s' = wheels s" "activeTimerCount s' = activeTimerCount s"
    "nextExpiryTime s' = nextExpiryTime s" "nextExpiryDirty s' = nextExpiryDirty s"
    "\<And>q. q \<noteq> p \<Longrightarrow> mem s' q = mem s q"
  shows "winv L s' cs {} \<and> pend s' = pend s"
proof -
  note w = winvD [OF assms(1)]
  have np: "q \<noteq> p" if "q \<in> ptrs s {}" for q using that assms(2) ran_timerMap [OF w(3)] by auto
  have d: "deref s' q = deref s q" if "q \<in> ptrs s {}" for q
    using assms(8) np [OF that] by (simp add: deref_def)
  have m: "map_ok s' {}"
    using w(3) d unfolding map_ok_def ptrs_cong [OF assms(4)] assms(3) by metis
  have "cell_ok (mem s') (cs l) l k j q" if "at s l k j q" for l k j q
    using cells_okD [OF w(2) that] np [OF at_in_ptrs [OF that]] assms(8)
    by (auto simp: cell_ok_def)
  then have "cells_ok s' cs {}" unfolding cells_ok_def at_cong [OF assms(4)] by simp
  moreover have pd: "pend s' = pend s"
  proof
    fix i
    have "deref s' q = deref s q" if "timerMap s i = Some q" for q
      using that d w(3) by (auto simp: map_ok_def)
    then show "pend s' i = pend s i" by (cases "timerMap s i") (auto simp: pend_def assms(3))
  qed
  then have "expiries s' = expiries s" by (simp add: expiries_def)
  then have "nx_ok s'" using w(5) nx_ok_cong [of s' s] assms(6,7) by simp
  ultimately show ?thesis using w m wshape_cong [OF assms(4)] pd
    by (simp add: winv_def cnt_ok_def assms(3,5))
qed

lemma drop_refs_fields:
  fixes p s
  defines "s' \<equiv> delete_heap p (destroy_coro p s)"
  shows "timerMap s' = timerMap s" "wheels s' = wheels s" "activeTimerCount s' = activeTimerCount s"
    "nextExpiryTime s' = nextExpiryTime s" "nextExpiryDirty s' = nextExpiryDirty s"
    "\<And>q. q \<noteq> p \<Longrightarrow> mem s' q = mem s q" "fired_ms s' = fired_ms s"
    "currentTime s' = currentTime s" "clock s' = clock s" "opsq s' = opsq s" "reads s' = reads s"
    "cancelledPending s' = cancelledPending s" "detachedPending s' = detachedPending s"
    "maxAddedId s' = maxAddedId s" "fired_raw s' = fired_raw s"
    "destroyed s' = destroyed s @ (case coro (deref s p) of None \<Rightarrow> [] | Some h \<Rightarrow> [h])"
    "mem s' p = (if heap (deref s p) then None else mem s p)"
  by (auto simp: assms delete_heap_def destroy_coro_def deref_def fired_ms_def split: option.splits)

section \<open>Each queued operation implements its abstract counterpart\<close>

definition refines_op :: "nat \<Rightarrow> Op \<Rightarrow> tw \<Rightarrow> tw \<Rightarrow> bool" where
  "refines_op L op s s' \<longleftrightarrow> tw_inv L s' \<and> op_frame s s' \<and> absw s' = a_op (clock s) (mem s) op (absw s)
     \<and> (\<forall>p. p \<notin> ran (timerMap s) \<and> p \<notin> fst ` set (op_adds op) \<longrightarrow> mem s' p = mem s p)
     \<and> ran (timerMap s') \<subseteq> ran (timerMap s) \<union> fst ` set (op_adds op)
     \<and> dom (timerMap s') \<subseteq> dom (timerMap s) \<union> snd ` set (op_adds op)"

lemma tw_inv_cong:
  assumes "winv L s' (\<lambda>_. unat (currentTime s)) {}" "currentTime s' = currentTime s" "tw_inv L s"
  shows "tw_inv L s'"
  using assms by (simp add: tw_inv_def)

lemma op_add_refines:
  assumes "tw_inv L s" "op_ok L s n (ADD p i)"
  shows "refines_op L (ADD p i) s (op_add p i s)"
proof -
  let ?c = "\<lambda>_::nat. unat (currentTime s)"
  obtain t where t: "mem s p = Some t" "active t" "id_of t = i" "in_reach L s (expiryTime t)"
    and fr: "i \<noteq> 0" "timerMap s i = None" "p \<notin> ran (timerMap s)" using assms(2) by auto
  have w: "winv L s ?c {}" and c: "unat (currentTime s) < 2 ^ 63" using assms(1) by (auto simp: tw_inv_def)
  define s1 where "s1 = s\<lparr>maxAddedId := max (maxAddedId s) i\<rparr>"
  have s1: "s1 = (if i > maxAddedId s then s\<lparr>maxAddedId := i\<rparr> else s)"
    by (auto simp: s1_def max_def)
  have f1: "timerMap s1 = timerMap s" "wheels s1 = wheels s" "activeTimerCount s1 = activeTimerCount s"
    "nextExpiryTime s1 = nextExpiryTime s" "nextExpiryDirty s1 = nextExpiryDirty s" "mem s1 = mem s"
    "currentTime s1 = currentTime s" "clock s1 = clock s" "opsq s1 = opsq s" "reads s1 = reads s"
    "detachedPending s1 = detachedPending s" "cancelledPending s1 = cancelledPending s"
    "maxAddedId s1 = max (maxAddedId s) i" "fired_ms s1 = fired_ms s"
    by (simp_all add: s1_def fired_ms_def)
  have free: "winv L s' ?c {} \<and> pend s' = pend s"
    if "timerMap s' = timerMap s" "wheels s' = wheels s" "activeTimerCount s' = activeTimerCount s"
      "nextExpiryTime s' = nextExpiryTime s" "nextExpiryDirty s' = nextExpiryDirty s"
      "\<And>q. q \<noteq> p \<Longrightarrow> mem s' q = mem s q" for s'
    by (rule winv_free [OF w fr(3) that])
  have w1: "winv L s1 ?c {}" "pend s1 = pend s" using free [of s1] f1 by auto
  consider (det) "i \<in> detachedPending s" | (canc) "i \<notin> detachedPending s" "i \<in> cancelledPending s"
    | (add) "i \<notin> detachedPending s" "i \<notin> cancelledPending s" by blast
  then show ?thesis
  proof cases
    case det
    define r where "r = s1\<lparr>detachedPending := detachedPending s - {i}\<rparr>"
    have r: "op_add p i s = r" using det by (simp add: op_add_def Let_def s1 [symmetric] f1 r_def)
    have f: "winv L r ?c {} \<and> pend r = pend s" by (rule free) (simp_all add: r_def f1)
    then have "absw r = a_op (clock s) (mem s) (ADD p i) (absw s)"
      using det by (simp add: absw_def Let_def r_def f1)
    then show ?thesis unfolding r refines_op_def
      using f tw_inv_cong [OF _ _ assms(1), of r]
      by (auto simp: r_def f1 op_frame_def fired_ms_def) (auto simp: s1_def)
  next
    case canc
    define u where "u = s1\<lparr>cancelledPending := cancelledPending s - {i}\<rparr>"
    define r where "r = delete_heap p (destroy_coro p u)"
    have r: "op_add p i s = r" using canc by (simp add: op_add_def Let_def s1 [symmetric] f1 u_def r_def)
    note df = drop_refs_fields [where p = p and s = u, folded r_def]
    have fu: "timerMap u = timerMap s" "wheels u = wheels s" "activeTimerCount u = activeTimerCount s"
      "nextExpiryTime u = nextExpiryTime s" "nextExpiryDirty u = nextExpiryDirty s" "mem u = mem s"
      "currentTime u = currentTime s" "clock u = clock s" "opsq u = opsq s" "reads u = reads s"
      "detachedPending u = detachedPending s" "cancelledPending u = cancelledPending s - {i}"
      "maxAddedId u = max (maxAddedId s) i" "fired_ms u = fired_ms s"
      by (simp_all add: u_def f1 fired_ms_def) (simp_all add: s1_def)
    have f: "winv L r ?c {} \<and> pend r = pend s" by (rule free) (simp_all add: df fu)
    then have "absw r = a_op (clock s) (mem s) (ADD p i) (absw s)"
      using canc by (simp add: absw_def Let_def df fu)
    then show ?thesis unfolding r refines_op_def
      using f tw_inv_cong [OF _ _ assms(1), of r] by (auto simp: df fu op_frame_def)
  next
    case add
    have d1: "deref s1 p = t" using t(1) f1 by simp
    have idk: "id_of (deref (addTimerToWheel p e s1) p) = i" for e
      using d1 t(3) by (simp add: addTimerToWheel_def Let_def)
    have r: "op_add p i s = link i p s1"
      using add by (simp add: op_add_def Let_def s1 [symmetric] f1 link_def idk)
    have l: "winv L (link i p s1) ?c {} \<and> adds i p t s1 (link i p s1)"
      using link_spec [of L s1 p t i] w1 c t fr by (simp add: f1 in_reach_def)
    then have a: "timerMap (link i p s1) = (timerMap s)(i \<mapsto> p)" "fired_ms (link i p s1) = fired_ms s"
      "map_option payload (pend (link i p s1) i) = Some (payload t)"
      "\<And>j. j \<noteq> i \<Longrightarrow> pend (link i p s1) j = pend s j"
      "\<And>q. q \<noteq> p \<Longrightarrow> mem (link i p s1) q = mem s q" "rest (link i p s1) = rest s1"
      by (auto simp: adds_def f1 w1)
    have rs: "currentTime (link i p s1) = currentTime s" "clock (link i p s1) = clock s"
      "opsq (link i p s1) = opsq s" "reads (link i p s1) = reads s"
      "cancelledPending (link i p s1) = cancelledPending s"
      "detachedPending (link i p s1) = detachedPending s"
      "maxAddedId (link i p s1) = max (maxAddedId s) i"
      using a(6) by (simp_all add: rest_def f1)
    have "absw (link i p s1) = a_op (clock s) (mem s) (ADD p i) (absw s)"
      using add a t(1) by (simp add: absw_def Let_def rs fun_eq_iff)
    then show ?thesis unfolding r refines_op_def
      using l tw_inv_cong [OF _ _ assms(1), of "link i p s1"] fr
      by (auto simp: a rs op_frame_def ran_def)
  qed
qed

lemma pend_cong:
  assumes "timerMap s' = timerMap s" "mem s' = mem s"
  shows "pend s' = pend s"
proof
  fix i show "pend s' i = pend s i"
    using assms by (cases "timerMap s i") (simp_all add: pend_def deref_def)
qed

lemma winv_cong:
  assumes "timerMap s' = timerMap s" "wheels s' = wheels s" "activeTimerCount s' = activeTimerCount s"
    "nextExpiryTime s' = nextExpiryTime s" "nextExpiryDirty s' = nextExpiryDirty s" "mem s' = mem s"
  shows "winv L s' cs X = winv L s cs X"
proof -
  have d: "deref s' = deref s" by (simp add: deref_def fun_eq_iff assms)
  have "expiries s' = expiries s" using pend_cong [OF assms(1,6)] by (simp add: expiries_def)
  then show ?thesis
    unfolding winv_def cells_ok_def map_ok_def cnt_ok_def nx_ok_def d assms
      at_cong [OF assms(2)] ptrs_cong [OF assms(2)] wshape_cong [OF assms(2)] by simp
qed

lemma pend_None: "pend s i = None \<longleftrightarrow> timerMap s i = None"
  by (simp add: pend_def)

lemma remove_pending:
  assumes "tw_inv L s" "timerMap s i = Some p"
  defines "r \<equiv> delete_heap p (destroy_coro p (drop_active i p s))"
  shows "tw_inv L r" "timerMap r = (timerMap s)(i := None)" "fired_ms r = fired_ms s"
    "\<And>j. map_option payload (pend r j) = (if j = i then None else map_option payload (pend s j))"
    "\<And>q. q \<notin> ran (timerMap s) \<Longrightarrow> mem r q = mem s q"
    "currentTime r = currentTime s" "clock r = clock s" "opsq r = opsq s" "reads r = reads s"
    "cancelledPending r = cancelledPending s" "detachedPending r = detachedPending s"
    "maxAddedId r = maxAddedId s" "called r = called s"
    "destroyed r = destroyed s @ (case coro (deref s p) of None \<Rightarrow> [] | Some h \<Rightarrow> [h])"
    "heap (deref s p) \<Longrightarrow> mem r p = None"
proof -
  let ?c = "\<lambda>_::nat. unat (currentTime s)"
  have w: "winv L s ?c {}" using assms(1) by (simp add: tw_inv_def)
  define d where "d = drop_active i p s"
  have ds: "winv L d ?c {}" "drops i s d" "payload (deref d p) = payload ((deref s p)\<lparr>active := False\<rparr>)"
    using drop_active_spec [OF w assms(2)] by (auto simp: d_def)
  note df = drop_refs_fields [where p = p and s = d, folded r_def [folded d_def]]
  have dr: "timerMap d = (timerMap s)(i := None)" "rest d = rest s" using ds(2) by (auto simp: drops_def)
  have rs: "currentTime d = currentTime s" "clock d = clock s" "opsq d = opsq s" "reads d = reads s"
    "cancelledPending d = cancelledPending s" "detachedPending d = detachedPending s"
    "maxAddedId d = maxAddedId s" "called d = called s" "destroyed d = destroyed s"
    using dr(2) by (simp_all add: rest_def)
  have np: "p \<notin> ran (timerMap d)"
    using winvD(3) [OF w] assms(2) by (auto simp: dr ran_def map_ok_def split: if_splits)
  have fr: "winv L r ?c {} \<and> pend r = pend d"
    by (rule winv_free [OF ds(1) np]) (simp_all add: df)
  show "tw_inv L r" using tw_inv_cong [OF _ _ assms(1)] fr df rs by simp
  show "timerMap r = (timerMap s)(i := None)" by (simp add: df dr)
  show "fired_ms r = fired_ms s" using ds(2) by (simp add: df drops_def)
  show "map_option payload (pend r j) = (if j = i then None else map_option payload (pend s j))" for j
    using ds(2) fr dr(1) by (auto simp: drops_def pend_def)
  show "mem r q = mem s q" if "q \<notin> ran (timerMap s)" for q
  proof -
    have "q \<noteq> p" using that assms(2) by (auto simp: ran_def)
    then show ?thesis using that ds(2) by (simp add: df drops_def)
  qed
  show "called r = called s" using rs by (simp add: r_def d_def [symmetric] delete_heap_def
    destroy_coro_def split: option.splits)
  have "coro (deref d p) = coro (deref s p)" "heap (deref d p) = heap (deref s p)"
    using arg_cong [OF ds(3), of coro] arg_cong [OF ds(3), of heap] by (simp_all add: payload_def)
  then show "destroyed r = destroyed s @ (case coro (deref s p) of None \<Rightarrow> [] | Some h \<Rightarrow> [h])"
    "heap (deref s p) \<Longrightarrow> mem r p = None" by (simp_all add: df rs)
  show "currentTime r = currentTime s" "clock r = clock s" "opsq r = opsq s" "reads r = reads s"
    "cancelledPending r = cancelledPending s" "detachedPending r = detachedPending s"
    "maxAddedId r = maxAddedId s" by (simp_all add: df rs)
qed

lemma op_remove_refines:
  assumes "tw_inv L s"
  shows "refines_op L (REMOVE i dn) s (op_remove i dn s)"
proof -
  have log: "refines_op L (REMOVE i dn) s (s1\<lparr>called := x\<rparr>)" if "refines_op L (REMOVE i dn) s s1" for s1 x
  proof -
    have p: "pend (s1\<lparr>called := x\<rparr>) = pend s1" by (rule pend_cong) simp_all
    have "winv L (s1\<lparr>called := x\<rparr>) cs {} = winv L s1 cs {}" for cs by (rule winv_cong) simp_all
    then have "tw_inv L (s1\<lparr>called := x\<rparr>) = tw_inv L s1" by (simp add: tw_inv_def)
    moreover have "absw (s1\<lparr>called := x\<rparr>) = absw s1" by (simp add: absw_def p)
    moreover have "op_frame s (s1\<lparr>called := x\<rparr>) = op_frame s s1" by (simp add: op_frame_def fired_ms_def)
    ultimately show ?thesis using that by (simp add: refines_op_def)
  qed
  define s1 where "s1 = (case timerMap s i of
      Some p \<Rightarrow> (if active (deref s p) then delete_heap p (destroy_coro p (drop_active i p s)) else s)
    | None \<Rightarrow> (if i > maxAddedId s then s\<lparr>cancelledPending := insert i (cancelledPending s)\<rparr> else s))"
  have "refines_op L (REMOVE i dn) s s1"
  proof (cases "timerMap s i")
    case None
    define r where "r = s\<lparr>cancelledPending := insert i (cancelledPending s)\<rparr>"
    have p: "pend r = pend s" by (rule pend_cong) (simp_all add: r_def)
    have "winv L r cs {} = winv L s cs {}" for cs by (rule winv_cong) (simp_all add: r_def)
    then have "tw_inv L r" using assms by (simp add: tw_inv_def r_def)
    moreover have "i \<notin> dom (\<lambda>i. map_option payload (pend s i))" using None by (simp add: pend_def domIff)
    ultimately show ?thesis using None assms p
      by (auto simp: s1_def refines_op_def absw_def op_frame_def r_def [symmetric])
        (simp_all add: r_def fired_ms_def)
  next
    case (Some p)
    have "active (deref s p)"
      using pending_at [of L s _ i p] assms Some by (auto simp: tw_inv_def) (metis deref_Some)
    then have s1: "s1 = delete_heap p (destroy_coro p (drop_active i p s))" using Some by (simp add: s1_def)
    note rp = remove_pending [OF assms Some, folded s1]
    have "absw s1 = a_op (clock s) (mem s) (REMOVE i dn) (absw s)"
    proof -
      have "i \<in> dom (\<lambda>i. map_option payload (pend s i))" using Some by (simp add: pend_def domIff)
      moreover have "(\<lambda>j. map_option payload (pend s1 j)) = (\<lambda>j. map_option payload (pend s j))(i := None)"
        by (simp add: fun_eq_iff rp(4))
      ultimately show ?thesis by (simp add: absw_def rp(9-12))
    qed
    then show ?thesis using rp(1-3,5) by (auto simp: refines_op_def op_frame_def rp(6-9) ran_def)
  qed
  then show ?thesis using log
    by (cases dn) (simp_all add: op_remove_def Let_def s1_def [symmetric])
qed

section \<open>Updating a pending timer\<close>

lemma addTimerToWheel_commute:
  "addTimerToWheel p e (s\<lparr>timerMap := m, activeTimerCount := n\<rparr>)
     = (addTimerToWheel p e s)\<lparr>timerMap := m, activeTimerCount := n\<rparr>"
  by (simp add: addTimerToWheel_def Let_def put_bucket_def upd_def deref_def bucket_def)

lemma at_last:
  assumes "cells_ok s cs {}" "at s l k j p" "j \<noteq> length (bucket s l k) - 1"
  shows "last (bucket s l k) \<noteq> p"
proof -
  have b: "bucket s l k \<noteq> []" using assms(2) by (auto simp: at_def)
  then have "at s l k (length (bucket s l k) - 1) (last (bucket s l k))"
    using assms(2) by (auto simp: at_def last_conv_nth)
  then show ?thesis using at_unique [OF assms(1) assms(2)] assms(3) by auto
qed

lemma op_update_eq:
  fixes d :: u64
  assumes "winv L s cs {}" "timerMap s i = Some p" "at s l k j p" "mem s p = Some t" "active t"
    "level t = l" "slotIndex t = k" "posInBucket t = j"
  defines "t' \<equiv> t\<lparr>duration_ms := d, expiryTime := clock s (reads s) + d\<rparr>"
  defines "s0 \<equiv> s\<lparr>timerMap := (timerMap s)(i := None), activeTimerCount := activeTimerCount s - 1,
    nextExpiryDirty := nextExpiryDirty s \<or> expiryTime t = nextExpiryTime s,
    reads := Suc (reads s), mem := (mem s)(p \<mapsto> t')\<rparr>"
  shows "op_update i d s = link i p (swap_pop_at l k j s0)"
proof -
  note w = winvD [OF assms(1)]
  define s1 where "s1 = removeTimerFromWheel p s"
  define s4 where "s4 = s1\<lparr>reads := Suc (reads s), mem := (mem s1)(p \<mapsto> t')\<rparr>"
  let ?q = "last (bucket s l k)"
  have lastne: "?q \<noteq> p" if "j \<noteq> length (bucket s l k) - 1" using at_last [OF w(2) assms(3) that] .
  have s1: "s1 = (swap_pop_at l k j s)\<lparr>nextExpiryDirty := nextExpiryDirty s \<or> expiryTime t = nextExpiryTime s\<rparr>"
    unfolding s1_def by (rule unlink_eq) (use assms in auto)
  have ms1: "mem s1 p = Some t"
    using assms(4) lastne by (auto simp: s1 mem_swap_pop_at)
  have cl: "clock s1 = clock s" "reads s1 = reads s"
    by (simp_all add: s1 swap_pop_at_def put_bucket_def upd_def Let_def)
  have u: "op_update i d s = addTimerToWheel p (clock s (reads s) + d) s4"
    using assms(2,4,5) ms1
    by (simp add: op_update_def s1_def [symmetric] Let_def getCurrentTime_def s4_def upd_def deref_def
        t'_def cl)
  have r: "swap_pop_at l k j s0 = s4\<lparr>timerMap := (timerMap s)(i := None),
      activeTimerCount := activeTimerCount s - 1\<rparr>"
  proof (cases "j = length (bucket s l k) - 1")
    case True
    then show ?thesis
      by (simp add: s0_def s4_def s1 swap_pop_at_def Let_def put_bucket_def bucket_def)
  next
    case False
    then show ?thesis using lastne [OF False]
      by (simp add: s0_def s4_def s1 swap_pop_at_def Let_def put_bucket_def upd_def deref_def bucket_def
          fun_upd_twist)
  qed
  have tm4: "timerMap s4 = timerMap s" "activeTimerCount s4 = activeTimerCount s"
    by (simp_all add: s4_def s1)
  have d: "expiryTime (deref (swap_pop_at l k j s0) p) = clock s (reads s) + d"
    by (simp add: r s4_def deref_def t'_def)
  have keep: "timerMap (addTimerToWheel p e x) = timerMap x"
    "activeTimerCount (addTimerToWheel p e x) = activeTimerCount x" for e x
    by (simp_all add: addTimerToWheel_def Let_def)
  show ?thesis
    unfolding u link_def d Let_def unfolding r addTimerToWheel_commute
    using keep [of "clock s (reads s) + d" s4] tm4 map_upd_triv [of "timerMap s" i p] assms(2)
    by (intro tw.equality) simp_all
qed

lemma op_update_refines:
  assumes "tw_inv L s" "op_ok L s (Suc n) (UPDATE i d)"
  shows "refines_op L (UPDATE i d) s (op_update i d s)"
proof (cases "timerMap s i")
  case None
  then have "op_update i d s = s" by (simp add: op_update_def)
  moreover have "a_pend (absw s) i = None" using None by (simp add: absw_def pend_def)
  ultimately show ?thesis using assms(1) by (simp add: refines_op_def op_frame_def)
next
  case (Some p)
  let ?c = "\<lambda>_::nat. unat (currentTime s)"
  have w: "winv L s ?c {}" and c63: "unat (currentTime s) < 2 ^ 63" using assms(1) by (auto simp: tw_inv_def)
  obtain l k j t where a: "at s l k j p" and t: "mem s p = Some t" "active t" "level t = l"
    "slotIndex t = k" "posInBucket t = j" "l < L" "k < 256" "id_of t = i"
    using pending_at [OF w Some] .
  define t' where "t' = t\<lparr>duration_ms := d, expiryTime := clock s (reads s) + d\<rparr>"
  define s0 where "s0 = s\<lparr>timerMap := (timerMap s)(i := None), activeTimerCount := activeTimerCount s - 1,
    nextExpiryDirty := nextExpiryDirty s \<or> expiryTime t = nextExpiryTime s,
    reads := Suc (reads s), mem := (mem s)(p \<mapsto> t')\<rparr>"
  define r where "r = swap_pop_at l k j s0"
  have eq: "op_update i d s = link i p r"
    unfolding r_def s0_def t'_def by (rule op_update_eq [OF w Some a t(1-5)])
  have w0: "winv L s0 ?c {(l, k, j)}"
    by (rule deact_winv [OF w a]) (use t in \<open>auto simp: s0_def\<close>)
  have jl: "j < length (bucket s0 l k)"
    using a bucket_cong [of s0 s] by (simp add: at_def s0_def)
  have wr: "winv L r ?c {}" and fr: "fires {} s0 r"
    using swap_pop_winv [OF w0 t(6,7) jl] by (auto simp: r_def)
  have f0: "timerMap s0 = (timerMap s)(i := None)" "mem s0 = (mem s)(p \<mapsto> t')"
    "fired_ms s0 = fired_ms s" by (simp_all add: s0_def fired_ms_def)
  have fr1: "timerMap r = timerMap s0" "fired_ms r = fired_ms s0" "rest r = rest s0"
    "\<And>i'. map_option payload (pend r i') = map_option payload (pend s0 i')"
    "\<And>q. q \<notin> ran (timerMap s0) \<Longrightarrow> mem r q = mem s0 q"
    using fr by (auto simp: fires_def)
  have np: "p \<notin> ran (timerMap s0)"
    using winvD(3) [OF w] Some by (auto simp: f0 ran_def map_ok_def split: if_splits)
  have mr: "mem r p = Some t'" using fr1(5) [OF np] f0 by simp
  have rr: "currentTime r = currentTime s" "clock r = clock s" "opsq r = opsq s"
    "reads r = Suc (reads s)" "cancelledPending r = cancelledPending s"
    "detachedPending r = detachedPending s" "maxAddedId r = maxAddedId s"
    using fr1(3) by (simp_all add: rest_def s0_def)
  have i0: "i \<noteq> 0" using Some winvD(4) [OF w] by (auto simp: cnt_ok_def)
  have reach: "in_reach L r (expiryTime t')"
    using assms(2) by (simp add: in_reach_def rr t'_def)
  have ln: "winv L (link i p r) ?c {}" "adds i p t' r (link i p r)"
    using link_spec [of L r p t' i] wr c63 mr t reach np i0
    by (simp_all add: rr t'_def fr1(1) f0)
  then have ad: "timerMap (link i p r) = timerMap s" "fired_ms (link i p r) = fired_ms s"
    "map_option payload (pend (link i p r) i) = Some (payload t')"
    "\<And>j. j \<noteq> i \<Longrightarrow> pend (link i p r) j = pend r j"
    "\<And>q. q \<noteq> p \<Longrightarrow> mem (link i p r) q = mem r q" "rest (link i p r) = rest r"
    using Some by (auto simp: adds_def fr1(1,2) f0)
  have po: "map_option payload (pend (link i p r) j') = map_option payload (pend s j')" if ne: "j' \<noteq> i" for j'
  proof -
    have "q \<noteq> p" if "timerMap s j' = Some q" for q
      using that ne winvD(3) [OF w] t(8,1) by (auto simp: map_ok_def)
    then have "pend s0 j' = pend s j'"
      using ne f0 by (cases "timerMap s j'") (auto simp: pend_def deref_def)
    then show ?thesis using fr1(4) ad(4) [OF ne] by simp
  qed
  have "(\<lambda>j. map_option payload (pend (link i p r) j))
      = (\<lambda>j. map_option payload (pend s j))(i \<mapsto> (payload t)\<lparr>duration_ms := d, expiryTime := clock s (reads s) + d\<rparr>)"
    using po ad(3) by (auto simp: fun_eq_iff t'_def payload_def)
  moreover have "pend s i = Some t" using Some t(1) by (simp add: pend_def)
  ultimately have "absw (link i p r) = a_op (clock s) (mem s) (UPDATE i d) (absw s)"
    using ad(6) rr by (simp add: absw_def rest_def)
  moreover have "mem (link i p r) q = mem s q" if "q \<notin> ran (timerMap s)" for q
  proof -
    have "q \<noteq> p" "q \<notin> ran (timerMap s0)" using that Some by (auto simp: f0 ran_def)
    then show ?thesis using ad(5) fr1(5) f0(2) by simp
  qed
  moreover have "op_frame s (link i p r)" using ad(2,6) rr by (simp add: op_frame_def rest_def)
  moreover have "tw_inv L (link i p r)"
    using tw_inv_cong [OF ln(1) _ assms(1)] ad(6) rr by (simp add: rest_def)
  ultimately show ?thesis by (simp add: eq refines_op_def ad(1))
qed

section \<open>Draining the queue\<close>

lemma apply_op_refines:
  assumes "tw_inv L s" "op_ok L s (Suc n) op"
  shows "refines_op L op s (apply_op op s)"
  using assms by (cases op) (auto intro!: op_add_refines op_update_refines op_remove_refines)

lemma ops_ok_step:
  assumes "tw_inv L s" "ops_ok L s (op # q)"
  defines "s' \<equiv> apply_op op s"
  shows "ops_ok L s' q \<and> (\<forall>p i. ADD p i \<in> set q \<longrightarrow> mem s' p = mem s p)"
proof -
  have ok: "op_ok L s (Suc (length q)) op" and okq: "\<And>o'. o' \<in> set q \<Longrightarrow> op_ok L s (Suc (length q)) o'"
    and dist: "distinct (map fst (concat (map op_adds (op # q))))"
      "distinct (map snd (concat (map op_adds (op # q))))"
    using assms(2) by (auto simp: ops_ok_def)
  note r = apply_op_refines [OF assms(1) ok, folded s'_def, unfolded refines_op_def op_frame_def]
  have add: "p \<notin> ran (timerMap s) \<and> p \<notin> fst ` set (op_adds op) \<and> i \<notin> snd ` set (op_adds op)"
    if "ADD p i \<in> set q" for p i
  proof -
    have "(p, i) \<in> set (concat (map op_adds q))" using that by force
    then have "p \<notin> fst ` set (op_adds op)" "i \<notin> snd ` set (op_adds op)"
      using dist by (auto simp: image_iff disjoint_iff) force+
    then show ?thesis using okq [OF that] by simp
  qed
  have keep: "mem s' p = mem s p" if "ADD p i \<in> set q" for p i using r add [OF that] by blast
  have "op_ok L s' (length q) o'" if o: "o' \<in> set q" for o'
  proof (cases o')
    case (ADD p i)
    then show ?thesis using okq [OF o] add [of p i] keep [of p i] r o
      by (auto simp: in_reach_def)
  next
    case (UPDATE i d)
    then show ?thesis using okq [OF o] r by (auto simp: in_reach_def)
  qed simp
  then show ?thesis using dist keep by (simp add: ops_ok_def)
qed

lemma a_op_cong: "(\<And>p i. op = ADD p i \<Longrightarrow> m p = m' p) \<Longrightarrow> a_op ck m op a = a_op ck m' op a"
  by (cases op) (simp_all add: Let_def)

lemma fold_a_op_cong:
  "(\<And>p i. ADD p i \<in> set q \<Longrightarrow> m p = m' p) \<Longrightarrow> fold (a_op ck m) q a = fold (a_op ck m') q a"
proof (induction q arbitrary: a)
  case (Cons op q)
  have "a_op ck m op a = a_op ck m' op a" using Cons.prems by (intro a_op_cong) auto
  moreover have "fold (a_op ck m) q b = fold (a_op ck m') q b" for b
    using Cons.prems by (intro Cons.IH) auto
  ultimately show ?case by simp
qed simp

lemma fold_apply_op:
  assumes "tw_inv L s" "ops_ok L s (q1 @ q2)"
  defines "s' \<equiv> fold apply_op q1 s"
  shows "tw_inv L s' \<and> ops_ok L s' q2 \<and> currentTime s' = currentTime s \<and> clock s' = clock s
    \<and> fired_ms s' = fired_ms s \<and> absw s' = fold (a_op (clock s) (mem s)) q1 (absw s)
    \<and> (\<forall>p i. ADD p i \<in> set q2 \<longrightarrow> mem s' p = mem s p)"
  unfolding s'_def using assms(1,2)
proof (induction q1 arbitrary: s)
  case (Cons op q1)
  let ?s = "apply_op op s"
  have ok: "op_ok L s (Suc (length (q1 @ q2))) op" using Cons.prems(2) by (simp add: ops_ok_def)
  note r = apply_op_refines [OF Cons.prems(1) ok, unfolded refines_op_def op_frame_def]
  have st: "ops_ok L ?s (q1 @ q2)" "\<And>p i. ADD p i \<in> set (q1 @ q2) \<Longrightarrow> mem ?s p = mem s p"
    using ops_ok_step [OF Cons.prems(1), of op "q1 @ q2"] Cons.prems(2) by auto
  have "fold (a_op (clock s) (mem ?s)) q1 x = fold (a_op (clock s) (mem s)) q1 x" for x
    using st(2) by (intro fold_a_op_cong) auto
  then show ?case using Cons.IH [of ?s] r st by auto
qed simp

lemma drain_spec:
  assumes "0 < cap" "tw_inv L s" "ops_ok L s q"
  defines "s' \<equiv> drain cap q s"
  shows "tw_inv L s' \<and> opsq s' = [] \<and> currentTime s' = currentTime s \<and> clock s' = clock s
    \<and> fired_ms s' = fired_ms s \<and> absw s' = fold (a_op (clock s) (mem s)) q (absw s)"
  unfolding s'_def using assms(1-3)
proof (induction cap q s rule: drain.induct)
  case (1 cap q s)
  show ?case
  proof (cases "take cap q = []")
    case True
    then have q: "q = []" using 1(2) by simp
    have d: "drain cap [] s = s\<lparr>opsq := []\<rparr>" by (simp add: drain.simps)
    have "winv L (s\<lparr>opsq := []\<rparr>) cs {} = winv L s cs {}" for cs by (rule winv_cong) simp_all
    moreover have "pend (s\<lparr>opsq := []\<rparr>) = pend s" by (rule pend_cong) simp_all
    ultimately show ?thesis using 1(3) unfolding q d
      by (simp add: tw_inv_def absw_def fired_ms_def)
  next
    case False
    let ?s = "fold apply_op (take cap q) s"
    have ok: "ops_ok L s (take cap q @ drop cap q)" using 1(4) by simp
    note f = fold_apply_op [OF 1(3) ok]
    have "fold (a_op (clock s) (mem ?s)) (drop cap q) x = fold (a_op (clock s) (mem s)) (drop cap q) x" for x
      using f by (intro fold_a_op_cong) auto
    moreover have "fold (a_op (clock s) (mem s)) q (absw s)
        = fold (a_op (clock s) (mem s)) (drop cap q) (fold (a_op (clock s) (mem s)) (take cap q) (absw s))"
      by (metis append_take_drop_id comp_apply fold_append)
    moreover have "drain cap q s = drain cap (drop cap q) ?s" using False by (subst drain.simps) simp
    ultimately show ?thesis using 1(1) [OF refl False 1(2)] f by simp
  qed
qed

end
