(* ===== verification/Timer_Wheel_Props.thy ===== *)
theory Timer_Wheel_Props
  imports Timer_Wheel_Ops
begin

text \<open>
  The properties of the timer wheel as a whole: a \<open>tick\<close> refines the abstract timer service and ends,
  the synchronous cancels, the time until the next wake-up, and the case outside the wheel's horizon
  where the slot loop does not end.
\<close>

section \<open>Logs\<close>

fun done_calls :: "Op \<Rightarrow> raw_call list" where
  "done_calls (REMOVE i (Some c)) = [c]"
| "done_calls _ = []"

definition obs :: "tw \<Rightarrow> (raw_call + coro_handle) multiset" where
  "obs s = image_mset Inl (mset (called s)) + image_mset Inr (mset (ready s))"

lemma log_fields [simp]:
  "called (upd p f s) = called s" "called (put_bucket l k b s) = called s"
  "called (swap_pop_at l k i s) = called s" "fired_raw (addTimerToWheel p e s) = fired_raw s"
  "ready (addTimerToWheel p e s) = ready s" "called (addTimerToWheel p e s) = called s"
  "fired_raw (removeTimerFromWheel p s) = fired_raw s" "ready (removeTimerFromWheel p s) = ready s"
  "called (removeTimerFromWheel p s) = called s"
  by (auto simp: upd_def put_bucket_def swap_pop_at_def addTimerToWheel_def removeTimerFromWheel_def
      Let_def split: option.splits)

lemma log_drop [simp]:
  "fired_raw (drop_active i p s) = fired_raw s" "ready (drop_active i p s) = ready s"
  "called (drop_active i p s) = called s" "fired_raw (delete_heap p s) = fired_raw s"
  "ready (delete_heap p s) = ready s" "called (delete_heap p s) = called s"
  "fired_raw (destroy_coro p s) = fired_raw s" "ready (destroy_coro p s) = ready s"
  "called (destroy_coro p s) = called s"
  by (auto simp: drop_active_def delete_heap_def destroy_coro_def Let_def split: option.splits)

lemma log_apply_op:
  "fired_raw (apply_op op s) = fired_raw s \<and> ready (apply_op op s) = ready s
    \<and> called (apply_op op s) = called s @ done_calls op"
proof (cases op)
  case (ADD p i)
  then show ?thesis by (simp add: op_add_def Let_def)
next
  case (UPDATE i d)
  then show ?thesis
    by (simp add: op_update_def Let_def getCurrentTime_def split: option.split)
next
  case (REMOVE i dn)
  then show ?thesis by (cases dn) (simp_all add: op_remove_def Let_def split: option.split)
qed

lemma log_fold:
  "fired_raw (fold apply_op q s) = fired_raw s \<and> ready (fold apply_op q s) = ready s
    \<and> called (fold apply_op q s) = called s @ concat (map done_calls q)"
  by (induction q arbitrary: s) (simp_all add: log_apply_op)

lemma log_drain:
  "0 < cap \<Longrightarrow> fired_raw (drain cap q s) = fired_raw s \<and> ready (drain cap q s) = ready s
    \<and> called (drain cap q s) = called s @ concat (map done_calls q)"
proof (induction cap q s rule: drain.induct)
  case (1 cap q s)
  have "concat (map done_calls q) = concat (map done_calls (take cap q)) @ concat (map done_calls (drop cap q))"
    by (metis append_take_drop_id concat_append map_append)
  moreover have "drain cap q s = s\<lparr>opsq := q\<rparr>" if "take cap q = []"
    using that by (subst drain.simps) simp
  moreover have "drain cap q s = drain cap (drop cap q) (fold apply_op (take cap q) s)" if "take cap q \<noteq> []"
    using that by (subst drain.simps) simp
  ultimately show ?case using 1 log_fold [of "take cap q" s]
    by (cases "take cap q = []") auto
qed

section \<open>A whole tick\<close>

definition a_due :: "awheel \<Rightarrow> nat \<Rightarrow> u64 set" where
  "a_due a n = {i \<in> dom (a_pend a). unat (expiryTime (the (a_pend a i))) \<le> n}"

lemma absw_dom: "dom (a_pend (absw s)) = dom (timerMap s)"
  by (auto simp: absw_def pend_def domIff)

lemma absw_due: "a_due (absw s) n = due_ids s n"
proof -
  have "expiryTime (the (a_pend (absw s) i)) = expiryTime (the (pend s i))" if i: "i \<in> dom (timerMap s)" for i
  proof -
    obtain t where "pend s i = Some t" using i by (auto simp: pend_def)
    then show ?thesis by (simp add: absw_def)
  qed
  then show ?thesis unfolding a_due_def due_ids_def absw_dom
    by (intro Collect_cong conj_cong refl) simp
qed

lemma tick_spec:
  assumes inv: "tw_inv L s" "ops_ok L s (opsq s)" "0 < cap" "fired_raw s = []"
    and A: "A = fold (a_op (clock s) (mem s)) (opsq s) (absw s)" "n = clock s (a_reads A)" "unat n < 2 ^ 63"
  defines "D \<equiv> (if currentTime s < n then a_due A (unat n) else {})"
  shows "\<exists>s'. tick cap s = Some s' \<and> tw_inv L s' \<and> opsq s' = [] \<and> fired_raw s' = []
    \<and> currentTime s' = max (currentTime s) n
    \<and> a_pend (absw s') = a_pend A |` (- D)
    \<and> obs s' = obs s + image_mset Inl (mset (concat (map done_calls (opsq s))))
        + (\<Sum>i\<in>D. ev_ms (the (a_pend A i)))
    \<and> \<not> nextExpiryDirty s' \<and> nextExpiryTime s' = (if expiries s' = {} then 0 else Min (expiries s'))"
proof -
  define s1 where "s1 = drain cap (opsq s) s"
  have d: "tw_inv L s1" "opsq s1 = []" "currentTime s1 = currentTime s" "clock s1 = clock s"
    "absw s1 = A" using drain_spec [OF inv(3,1,2)] A(1) by (auto simp: s1_def)
  have lg: "fired_raw s1 = []" "ready s1 = ready s" "called s1 = called s @ concat (map done_calls (opsq s))"
    using log_drain [OF inv(3)] inv(4) by (auto simp: s1_def)
  define s2 where "s2 = s1\<lparr>reads := Suc (reads s1)\<rparr>"
  have n: "getCurrentTime s1 = (n, s2)"
    using A(2) d(4,5) by (auto simp: getCurrentTime_def s2_def absw_def)
  have w2: "winv L s2 cs {} = winv L s1 cs {}" for cs by (rule winv_cong) (simp_all add: s2_def)
  have i2: "tw_inv L s2" using d(1) w2 by (simp add: tw_inv_def s2_def)
  have p2: "pend s2 = pend s1" by (rule pend_cong) (simp_all add: s2_def)
  have f2: "currentTime s2 = currentTime s" "opsq s2 = []" "fired_raw s2 = []" "ready s2 = ready s"
    "called s2 = called s1" "timerMap s2 = timerMap s1" using d lg by (simp_all add: s2_def)
  have ap2: "a_pend (absw s2) = a_pend A" using d(5) p2 by (auto simp: absw_def)
  have tick: "tick cap s = (if n \<le> currentTime s then Some (refreshNextExpiry s2)
      else (case advance_to n s2 of None \<Rightarrow> None | Some s3 \<Rightarrow> Some (run_fired (refreshNextExpiry s3))))"
    by (simp add: tick_def s1_def [symmetric] n f2)
  have rf: "currentTime (refreshNextExpiry x) = currentTime x" "opsq (refreshNextExpiry x) = opsq x"
    "fired_raw (refreshNextExpiry x) = fired_raw x" "ready (refreshNextExpiry x) = ready x"
    "called (refreshNextExpiry x) = called x" "timerMap (refreshNextExpiry x) = timerMap x"
    "mem (refreshNextExpiry x) = mem x" for x
    by (simp_all add: refreshNextExpiry_def updateNextExpiryTime_def Let_def)
  have pr: "pend (refreshNextExpiry x) = pend x" "expiries (refreshNextExpiry x) = expiries x" for x
  proof -
    show *: "pend (refreshNextExpiry x) = pend x" by (rule pend_cong) (simp_all add: rf)
    show "expiries (refreshNextExpiry x) = expiries x" by (simp add: expiries_def *)
  qed
  show ?thesis
  proof (cases "currentTime s < n")
    case False
    let ?r = "refreshNextExpiry s2"
    have "winv L ?r (\<lambda>_. unat (currentTime s2)) {}" "\<not> nextExpiryDirty ?r"
      "nextExpiryTime ?r = (if expiries ?r = {} then 0 else Min (expiries ?r))"
      using refresh_exact [of L s2 "\<lambda>_. unat (currentTime s2)"] i2 by (auto simp: tw_inv_def pr)
    moreover have "a_pend (absw ?r) = a_pend A" using ap2 by (simp add: absw_def pr)
    ultimately show ?thesis using False i2 f2 lg
      by (intro exI [of _ ?r]) (auto simp: tick D_def tw_inv_def rf obs_def restrict_map_def)
  next
    case True
    have le: "unat (currentTime s2) \<le> unat n" "unat (currentTime s2) < unat n"
      using True f2 by (auto simp: word_less_nat_alt)
    obtain s3 where s3: "advance_to n s2 = Some s3" "tw_inv L s3" "currentTime s3 = n"
      "fires (due_ids s2 (unat n)) (s2\<lparr>currentTime := n\<rparr>) s3"
      using advance_to_aux [OF i2 A(3) le(1) disjI1 [OF le(2)]] by blast
    have D: "D = due_ids s2 (unat n)"
      using True ap2 absw_due [of s2 "unat n"] by (simp add: D_def a_due_def)
    let ?r = "refreshNextExpiry s3"
    have rs: "winv L ?r (\<lambda>_. unat n) {}" "\<not> nextExpiryDirty ?r"
      "nextExpiryTime ?r = (if expiries ?r = {} then 0 else Min (expiries ?r))"
      using refresh_exact [of L s3 "\<lambda>_. unat n"] s3(2,3) by (auto simp: tw_inv_def pr)
    define r where "r = run_fired ?r"
    have wr: "winv L r cs {} = winv L ?r cs {}" for cs by (rule winv_cong) (simp_all add: r_def run_fired_def)
    have prr: "pend r = pend s3" using pend_cong [of r s3] by (simp add: r_def run_fired_def rf)
    then have ex: "expiries r = expiries ?r" by (simp add: expiries_def pr)
    have fs: "fired_ms s3 = fired_ms s2 + (\<Sum>i\<in>D. ev_ms (the (pend s2 i)))" "rest s3 = rest (s2\<lparr>currentTime := n\<rparr>)"
      "timerMap s3 = timerMap s2 |` (- D)"
      "\<And>i. i \<notin> D \<Longrightarrow> map_option payload (pend s3 i) = map_option payload (pend s2 i)"
      using s3(4) by (auto simp: fires_def D fired_ms_def)
    have evp: "ev_ms (the (pend s2 i)) = ev_ms (the (a_pend A i))" if "i \<in> D" for i
    proof -
      have "i \<in> dom (timerMap s2)" using that D by (auto simp: due_ids_def)
      then obtain t where "pend s2 i = Some t" by (auto simp: pend_def)
      then show ?thesis unfolding ap2 [symmetric] by (simp add: absw_def)
    qed
    have "obs r = image_mset Inl (mset (called s3)) + fired_ms s3"
      by (simp add: obs_def r_def run_fired_def rf fired_ms_def)
    also have "called s3 = called s1" using fs(2) f2 by (simp add: rest_def)
    also have "fired_ms s3 = image_mset Inr (mset (ready s)) + (\<Sum>i\<in>D. ev_ms (the (a_pend A i)))"
      using fs(1) evp f2 by (simp add: fired_ms_def cong: sum.cong)
    finally have ob: "obs r = obs s + image_mset Inl (mset (concat (map done_calls (opsq s))))
        + (\<Sum>i\<in>D. ev_ms (the (a_pend A i)))"
      using lg by (simp add: obs_def)
    have "a_pend (absw r) = a_pend A |` (- D)"
    proof
      fix i
      have "pend s3 i = None" if "i \<in> D" using fs(3) that by (simp add: pend_def)
      then show "a_pend (absw r) i = (a_pend A |` (- D)) i"
        unfolding ap2 [symmetric] using fs(4) [of i] by (cases "i \<in> D") (simp_all add: absw_def prr)
    qed
    moreover have "tw_inv L r" using rs(1) wr s3(2,3) by (simp add: tw_inv_def r_def run_fired_def rf)
    moreover have "opsq r = []" "fired_raw r = []" "currentTime r = n"
      "nextExpiryDirty r = nextExpiryDirty ?r" "nextExpiryTime r = nextExpiryTime ?r"
      using fs(2) f2 s3(3) by (simp_all add: r_def run_fired_def rf rest_def)
    moreover have "tick cap s = Some r" using True s3(1) by (simp add: tick r_def)
    moreover have "max (currentTime s) n = n" using True by (auto simp: max_def)
    ultimately show ?thesis using rs ob ex by (intro exI [of _ r]) simp
  qed
qed

section \<open>Construction\<close>

lemma new_bucket:
  assumes "l < L" "k < 256"
  shows "bucket (TimerWheel_new L m ck) l k = []"
  using assms by (simp add: bucket_def TimerWheel_new_def Wheel_new_def)

lemma new_wshape:
  assumes "1 \<le> L" "L \<le> 7"
  shows "wshape L (TimerWheel_new L m ck)"
proof -
  have "unat (push_bit (8 * l) (1::u64)) = 256 ^ l" if "l < L" for l
  proof -
    have "push_bit (8 * l) (1::u64) = 2 ^ (8 * l)" by (simp add: push_bit_eq_mult)
    then show ?thesis using that assms by (simp add: unat_pow2 pow256)
  qed
  then show ?thesis using assms by (simp add: wshape_def TimerWheel_new_def Wheel_new_def)
qed

lemma new_inv:
  assumes "1 \<le> L" "L \<le> 7" "unat (ck 0) < 2 ^ 63"
  shows "tw_inv L (TimerWheel_new L m ck)"
proof -
  let ?s = "TimerWheel_new L m ck"
  have n: "\<not> at ?s l k j p" for l k j p
    using new_bucket [of l L k m ck] new_wshape [OF assms(1,2), of m ck] by (auto simp: at_def wshape_def)
  have f: "timerMap ?s = Map.empty" "activeTimerCount ?s = 0" "currentTime ?s = ck 0"
    "nextExpiryTime ?s = 0" by (simp_all add: TimerWheel_new_def)
  have "expiries ?s = {}" by (auto simp: expiries_iff f)
  then show ?thesis using n new_wshape [OF assms(1,2), of m ck] assms(3)
    by (simp add: tw_inv_def winv_def cells_ok_def map_ok_def ptrs_def cnt_ok_def nx_ok_def f)
qed

section \<open>Properties\<close>

text \<open>
  C1. One \<open>tick\<close> of the wheel, started in a state that satisfies the wheel invariant, with queued
  operations that add fresh timers and whose expiries lie within the horizon of the wheels, always ends
  and refines the abstract timer service: the queued operations act in order on the map of pending
  timers, then exactly the timers whose expiry lies at or before the new time are taken out and
  their callbacks or coroutines released, each once, and every other pending timer stays as it was.
  The invariant holds again, and the cached next expiry is the least expiry of a pending timer.
\<close>

theorem tick_refines_timer_service:
  assumes "tw_inv L s" "ops_ok L s (opsq s)" "0 < cap" "fired_raw s = []"
    and "A = fold (a_op (clock s) (mem s)) (opsq s) (absw s)" "n = clock s (a_reads A)"
    and "unat n < 2 ^ 63" "currentTime s < n"
  shows "\<exists>s'. tick cap s = Some s' \<and> tw_inv L s' \<and> opsq s' = [] \<and> fired_raw s' = []
    \<and> currentTime s' = n
    \<and> a_pend (absw s') = a_pend A |` (- a_due A (unat n))
    \<and> obs s' = obs s + image_mset Inl (mset (concat (map done_calls (opsq s))))
        + (\<Sum>i\<in>a_due A (unat n). ev_ms (the (a_pend A i)))
    \<and> nextExpiryTime s' = (if expiries s' = {} then 0 else Min (expiries s'))"
proof -
  have "max (currentTime s) n = n" using assms(8) by (auto simp: max_def)
  from tick_spec [OF assms(1-7), unfolded if_P [OF assms(8)] this] show ?thesis by blast
qed

definition demo_timer :: Timer where
  "demo_timer = (arm_embedded 5 7 9 (Timer_new 5))\<lparr>expiryTime := 105, id_of := 1\<rparr>"

definition demo_wheel :: tw where
  "demo_wheel = (TimerWheel_new 4 [1 \<mapsto> demo_timer] (\<lambda>i. if i = 0 then 100 else 200))\<lparr>opsq := [ADD 1 1]\<rparr>"

lemma demo_wheel_ok:
  "tw_inv 4 demo_wheel" "ops_ok 4 demo_wheel [ADD 1 1]"
proof -
  let ?s = "TimerWheel_new 4 [1 \<mapsto> demo_timer] (\<lambda>i. if i = 0 then 100 else 200)"
  have "winv 4 demo_wheel cs {} = winv 4 ?s cs {}" for cs
    by (rule winv_cong) (simp_all add: demo_wheel_def)
  moreover have "tw_inv 4 ?s" by (rule new_inv) simp_all
  ultimately show "tw_inv 4 demo_wheel" by (simp add: tw_inv_def demo_wheel_def)
  show "ops_ok 4 demo_wheel [ADD 1 1]"
    by (simp add: ops_ok_def demo_wheel_def TimerWheel_new_def demo_timer_def arm_embedded_def
        Timer_new_def in_reach_def)
qed

lemma demo_wheel_fields:
  "opsq demo_wheel = [ADD 1 1]" "fired_raw demo_wheel = []" "currentTime demo_wheel = 100"
  "a_reads (absw demo_wheel) = 1" "clock demo_wheel i = (if i = 0 then 100 else 200)"
  "a_canc (absw demo_wheel) = {}" "a_det (absw demo_wheel) = {}" "a_pend (absw demo_wheel) = Map.empty"
  "the (mem demo_wheel (Suc 0)) = demo_timer" "obs demo_wheel = {#}"
  by (simp_all add: demo_wheel_def TimerWheel_new_def absw_def pend_def obs_def fun_eq_iff)

theorem tick_refines_timer_service_witness:
  "\<exists>s'. tick 256 demo_wheel = Some s' \<and> tw_inv 4 s' \<and> a_pend (absw s') = Map.empty
    \<and> obs s' = {#Inl (7, 9)#}"
proof -
  let ?A = "fold (a_op (clock demo_wheel) (mem demo_wheel)) (opsq demo_wheel) (absw demo_wheel)"
  have A: "a_reads ?A = 1" "a_pend ?A = [1 \<mapsto> payload demo_timer]"
    by (simp_all add: demo_wheel_fields Let_def)
  have due: "a_due ?A (unat (200::u64)) = {1}"
    by (auto simp: a_due_def A demo_timer_def split: if_splits)
  have n: "200 = clock demo_wheel (a_reads ?A)" "unat (200::u64) < 2 ^ 63" "currentTime demo_wheel < 200"
    by (simp_all add: demo_wheel_fields A)
  have ev: "ev_ms demo_timer = {#Inl (7, 9)#}"
    by (simp add: ev_ms_def demo_timer_def arm_embedded_def)
  have "\<exists>s'. tick 256 demo_wheel = Some s' \<and> tw_inv 4 s' \<and> opsq s' = [] \<and> fired_raw s' = []
    \<and> currentTime s' = 200 \<and> a_pend (absw s') = a_pend ?A |` (- a_due ?A (unat (200::u64)))
    \<and> obs s' = obs demo_wheel + image_mset Inl (mset (concat (map done_calls (opsq demo_wheel))))
        + (\<Sum>i\<in>a_due ?A (unat (200::u64)). ev_ms (the (a_pend ?A i)))
    \<and> nextExpiryTime s' = (if expiries s' = {} then 0 else Min (expiries s'))"
    by (rule tick_refines_timer_service [OF demo_wheel_ok(1) _ _ _ refl n])
      (simp_all add: demo_wheel_fields demo_wheel_ok(2) [unfolded One_nat_def])
  then obtain s' where s': "tick 256 demo_wheel = Some s'" "tw_inv 4 s'"
    "a_pend (absw s') = a_pend ?A |` (- {1})"
    "obs s' = obs demo_wheel + image_mset Inl (mset (concat (map done_calls (opsq demo_wheel))))
        + (\<Sum>i\<in>{1}. ev_ms (the (a_pend ?A i)))"
    unfolding due by blast
  have "a_pend (absw s') = Map.empty" unfolding s'(3) A by (simp add: restrict_map_def fun_eq_iff)
  moreover have "obs s' = {#Inl (7, 9)#}" unfolding s'(4) A by (simp add: demo_wheel_fields ev)
  ultimately show ?thesis using s'(1,2) by blast
qed

text \<open>
  C2. \<open>cancelTimer\<close> on every branch: a pending timer is taken out without firing, its coroutine is
  destroyed and a heap timer freed, and no other pending timer is touched; an id whose \<open>ADD\<close> is
  still queued is remembered so that the \<open>ADD\<close> will be dropped; any other id reports \<open>false\<close>
  and changes nothing.
\<close>

theorem cancelTimer_cases:
  assumes "tw_inv L s"
  shows "case timerMap s i of
      Some p \<Rightarrow> (\<exists>s'. cancelTimer i s = (True, s') \<and> tw_inv L s' \<and> timerMap s' = (timerMap s)(i := None)
        \<and> obs s' = obs s \<and> fired_ms s' = fired_ms s
        \<and> destroyed s' = destroyed s @ (case coro (deref s p) of None \<Rightarrow> [] | Some h \<Rightarrow> [h])
        \<and> (heap (deref s p) \<longrightarrow> mem s' p = None)
        \<and> a_pend (absw s') = (a_pend (absw s))(i := None))
    | None \<Rightarrow> cancelTimer i s = (if i \<noteq> 0 \<and> maxAddedId s < i
        then (True, s\<lparr>cancelledPending := insert i (cancelledPending s)\<rparr>) else (False, s))"
proof (cases "timerMap s i")
  case None
  then show ?thesis by (simp add: cancelTimer_def)
next
  case (Some p)
  have w: "winv L s (\<lambda>_. unat (currentTime s)) {}" using assms by (simp add: tw_inv_def)
  obtain t where t: "mem s p = Some t" "active t" using pending_at [OF w Some] by metis
  have i0: "i \<noteq> 0" using Some winvD(4) [OF w] by (auto simp: cnt_ok_def)
  let ?r = "delete_heap p (destroy_coro p (drop_active i p s))"
  note rp = remove_pending [OF assms Some]
  have "a_pend (absw ?r) = (a_pend (absw s))(i := None)" using rp(4) by (auto simp: absw_def fun_eq_iff)
  then show ?thesis using Some t i0 rp by (simp add: cancelTimer_def obs_def)
qed

lemma demo_pending:
  obtains s where "tick 256 (demo_wheel\<lparr>clock := \<lambda>i. 100\<rparr>) = Some s" "tw_inv 4 s"
    "a_pend (absw s) = [1 \<mapsto> payload demo_timer]"
proof -
  let ?s = "demo_wheel\<lparr>clock := \<lambda>i. 100\<rparr>"
  have "winv 4 ?s cs {} = winv 4 demo_wheel cs {}" for cs by (rule winv_cong) simp_all
  then have i: "tw_inv 4 ?s" using demo_wheel_ok(1) by (simp add: tw_inv_def)
  have o: "ops_ok 4 ?s [ADD 1 1]"
    by (simp add: ops_ok_def demo_wheel_def TimerWheel_new_def demo_timer_def arm_embedded_def
        Timer_new_def in_reach_def)
  have p: "pend ?s = pend demo_wheel" by (rule pend_cong) simp_all
  have ab: "absw ?s = absw demo_wheel" by (simp add: absw_def p)
  let ?A = "fold (a_op (clock ?s) (mem ?s)) (opsq ?s) (absw ?s)"
  have A: "a_pend ?A = [1 \<mapsto> payload demo_timer]"
    by (simp add: demo_wheel_fields Let_def ab)
  have c: "currentTime ?s = 100" "opsq ?s = [ADD 1 1]" "fired_raw ?s = []"
    by (simp_all add: demo_wheel_fields)
  have "\<exists>s'. tick 256 ?s = Some s' \<and> tw_inv 4 s' \<and> opsq s' = [] \<and> fired_raw s' = []
    \<and> currentTime s' = max (currentTime ?s) 100
    \<and> a_pend (absw s') = a_pend ?A |` (- (if currentTime ?s < 100 then a_due ?A (unat (100::u64)) else {}))
    \<and> obs s' = obs ?s + image_mset Inl (mset (concat (map done_calls (opsq ?s))))
        + (\<Sum>i\<in>(if currentTime ?s < 100 then a_due ?A (unat (100::u64)) else {}). ev_ms (the (a_pend ?A i)))
    \<and> \<not> nextExpiryDirty s' \<and> nextExpiryTime s' = (if expiries s' = {} then 0 else Min (expiries s'))"
    by (rule tick_spec [OF i _ _ _ refl]) (use o in \<open>simp_all add: c\<close>)
  then obtain s' where s': "tick 256 ?s = Some s'" "tw_inv 4 s'"
    "a_pend (absw s') = a_pend ?A |` (- (if currentTime ?s < 100 then a_due ?A (unat (100::u64)) else {}))"
    by blast
  have "(if currentTime ?s < 100 then x else {}) = {}" for x :: "u64 set" using c(1) by simp
  then have "a_pend (absw s') = [1 \<mapsto> payload demo_timer]"
    using s'(3) unfolding A by (simp add: restrict_map_def fun_eq_iff)
  then show ?thesis using that s' by blast
qed

theorem cancelTimer_cases_witness:
  "\<exists>s s'. tick 256 (demo_wheel\<lparr>clock := \<lambda>i. 100\<rparr>) = Some s \<and> timerMap s 1 \<noteq> None
    \<and> cancelTimer 1 s = (True, s') \<and> timerMap s' = (timerMap s)(1 := None) \<and> obs s' = obs s"
proof -
  obtain s where s: "tick 256 (demo_wheel\<lparr>clock := \<lambda>i. 100\<rparr>) = Some s" "tw_inv 4 s"
    "a_pend (absw s) = [1 \<mapsto> payload demo_timer]" using demo_pending .
  have "1 \<in> dom (timerMap s)" unfolding absw_dom [symmetric] s(3) by simp
  then obtain p where "timerMap s 1 = Some p" by blast
  then show ?thesis using cancelTimer_cases [OF s(2), of 1] s(1) by auto
qed

lemma a_op_dropped:
  assumes "i \<notin> dom (a_pend a)" "i \<in> a_canc a \<union> a_det a \<or> i \<notin> snd ` set (concat (map op_adds (op # q)))"
    "distinct (map snd (concat (map op_adds (op # q))))"
  shows "i \<notin> dom (a_pend (a_op ck m op a))
    \<and> (i \<in> a_canc (a_op ck m op a) \<union> a_det (a_op ck m op a) \<or> i \<notin> snd ` set (concat (map op_adds q)))"
  using assms by (cases op) (auto simp: Let_def domIff split: option.split)

lemma fold_a_op_dropped:
  assumes "i \<notin> dom (a_pend a)" "i \<in> a_canc a \<union> a_det a \<or> i \<notin> snd ` set (concat (map op_adds q))"
    "distinct (map snd (concat (map op_adds q)))"
  shows "i \<notin> dom (a_pend (fold (a_op ck m) q a))"
  using assms
proof (induction q arbitrary: a)
  case (Cons op q)
  have "distinct (map snd (concat (map op_adds q)))" using Cons.prems(3) by simp
  then show ?case using Cons.IH [of "a_op ck m op a"] a_op_dropped [OF Cons.prems] by auto
qed simp

text \<open>
  Cancelling a timer whose \<open>ADD\<close> is still in the operations queue works: \<open>cancelTimer\<close> reports
  \<open>true\<close>, and the next \<open>tick\<close> drops the \<open>ADD\<close>, so that the timer neither becomes pending nor is
  among the timers that fire.
\<close>

theorem cancel_queued_add:
  assumes "tw_inv L s" "ops_ok L s (opsq s)" "0 < cap" "fired_raw s = []"
    and "i \<noteq> 0" "timerMap s i = None" "maxAddedId s < i" "cancelTimer i s = (b, s1)"
    and "A = fold (a_op (clock s1) (mem s1)) (opsq s1) (absw s1)" "unat (clock s1 (a_reads A)) < 2 ^ 63"
  shows "b \<and> i \<notin> dom (a_pend A) \<and> (\<exists>s'. tick cap s1 = Some s' \<and> tw_inv L s' \<and> timerMap s' i = None)"
proof -
  have s1: "b" "s1 = s\<lparr>cancelledPending := insert i (cancelledPending s)\<rparr>"
    using assms(5-8) by (auto simp: cancelTimer_def)
  have "winv L s1 cs {} = winv L s cs {}" for cs by (rule winv_cong) (simp_all add: s1)
  then have inv: "tw_inv L s1" using assms(1) by (simp add: tw_inv_def s1)
  have f: "opsq s1 = opsq s" "fired_raw s1 = []" using assms(4) by (simp_all add: s1)
  have ok1: "op_ok L s1 n op = op_ok L s n op" for op n
    by (cases op) (simp_all add: s1 in_reach_def)
  have ok: "ops_ok L s1 (opsq s1)" using assms(2) ok1 by (simp add: ops_ok_def f)
  have "i \<notin> dom (a_pend (absw s1))" "i \<in> a_canc (absw s1)"
    using assms(6) by (simp_all add: absw_dom domIff) (simp_all add: s1 absw_def)
  then have nd: "i \<notin> dom (a_pend A)"
    using fold_a_op_dropped [of i "absw s1" "opsq s1"] ok unfolding assms(9) ops_ok_def by blast
  from tick_spec [OF inv ok assms(3) f(2) assms(9) refl assms(10)] obtain s' where
    s': "tick cap s1 = Some s'" "tw_inv L s'"
    "a_pend (absw s') = a_pend A |` (- (if currentTime s1 < clock s1 (a_reads A)
        then a_due A (unat (clock s1 (a_reads A))) else {}))" by blast
  have "i \<notin> dom (a_pend (absw s'))" unfolding s'(3) using nd by (auto simp: domIff restrict_map_def)
  then show ?thesis using s1(1) nd s'(1,2) by (simp add: absw_dom domIff)
qed

theorem cancel_queued_add_witness:
  "\<exists>s1 s'. cancelTimer 1 demo_wheel = (True, s1) \<and> tick 256 s1 = Some s' \<and> timerMap s' 1 = None"
proof -
  define s1 where "s1 = demo_wheel\<lparr>cancelledPending := {1}\<rparr>"
  let ?A = "fold (a_op (clock s1) (mem s1)) (opsq s1) (absw s1)"
  have f: "timerMap demo_wheel 1 = None" "maxAddedId demo_wheel = 0" "cancelledPending demo_wheel = {}"
    by (simp_all add: demo_wheel_def TimerWheel_new_def)
  have c: "cancelTimer 1 demo_wheel = (True, s1)" by (simp add: cancelTimer_def f s1_def)
  have m: "maxAddedId demo_wheel < 1" by (simp add: f)
  have "unat (clock s1 n) < 2 ^ 63" for n by (simp add: s1_def demo_wheel_fields)
  from cancel_queued_add [OF demo_wheel_ok(1) _ _ _ _ f(1) m c refl this, of 256]
  show ?thesis using c demo_wheel_ok(2) by (auto simp: demo_wheel_fields)
qed

text \<open>
  C3. After a \<open>tick\<close>, \<open>getNextTimeout\<close> never lets the loop oversleep: it returns \<open>-1\<close> exactly when
  no timer is pending, and otherwise a delay that is zero when a timer is already due and ends no
  later than the earliest expiry; it is that expiry exactly whenever it fits into an \<open>int\<close>.
\<close>

theorem getNextTimeout_safe:
  assumes "tw_inv L s" "\<not> nextExpiryDirty s" "now = clock s (reads s)" "getNextTimeout s = (r, s')"
  shows "(r = -1 \<longleftrightarrow> expiries s = {}) \<and> -1 \<le> r \<and> r \<le> 2147483647
    \<and> (\<forall>e\<in>expiries s. uint now + r \<le> uint e \<or> (e \<le> now \<and> r = 0))
    \<and> (expiries s \<noteq> {} \<and> uint (Min (expiries s)) - uint now \<le> 2147483647
        \<longrightarrow> r = max 0 (uint (Min (expiries s)) - uint now))"
proof -
  have nx: "nx_ok s" using winvD(5) assms(1) unfolding tw_inv_def by blast
  then have n: "nextExpiryTime s = (if expiries s = {} then 0 else Min (expiries s))" "0 \<notin> expiries s"
    using assms(2) by (auto simp: nx_ok_def)
  have "r = fst (getNextTimeout s)" using assms(4) by simp
  then have r: "r = (if nextExpiryTime s = 0 then -1 else if nextExpiryTime s \<le> now then 0
      else if nextExpiryTime s - now > 2147483647 then 2147483647 else uint (nextExpiryTime s - now))"
    unfolding getNextTimeout_def getCurrentTime_def Let_def assms(3)
    by (simp only: case_prod_conv fst_conv)
  show ?thesis
  proof (cases "expiries s = {}")
    case True
    then show ?thesis using n r by simp
  next
    case False
    let ?m = "Min (expiries s)"
    have m: "?m \<in> expiries s" "\<And>e. e \<in> expiries s \<Longrightarrow> ?m \<le> e"
      using False by (auto intro: Min_in)
    then have "?m \<noteq> 0" using n(2) by metis
    then have m0: "nextExpiryTime s = ?m" "?m \<noteq> 0" using n(1) False by simp_all
    show ?thesis
    proof (cases "?m \<le> now")
      case True
      then have "r = 0" using r m0 by simp
      moreover have "uint now \<le> uint e \<or> e \<le> now" for e by (auto simp: word_le_def)
      moreover have "uint ?m \<le> uint now" using True by (simp add: word_le_def)
      ultimately show ?thesis using False by simp
    next
      case gt: False
      then have "now \<le> ?m" by simp
      then have d: "uint (?m - now) = uint ?m - uint now" by (simp only: uint_minus_simple_alt)
      have big: "?m - now > 2147483647 \<longleftrightarrow> uint ?m - uint now > 2147483647" by (simp add: word_less_def d)
      have rv: "r = (if uint ?m - uint now > 2147483647 then 2147483647 else uint ?m - uint now)"
        using r m0 gt big d by simp
      have pos: "0 < uint ?m - uint now" using gt by (simp add: word_le_def)
      have "uint now + r \<le> uint e" if "e \<in> expiries s" for e
        using m(2) [OF that] rv by (simp add: word_le_def split: if_splits)
      then show ?thesis using False rv pos by (auto split: if_splits)
    qed
  qed
qed

theorem getNextTimeout_safe_witness:
  "\<exists>r s'. getNextTimeout demo_wheel = (r, s') \<and> r = -1 \<and> expiries demo_wheel = {}"
proof -
  have e: "expiries demo_wheel = {}" by (auto simp: expiries_iff demo_wheel_def TimerWheel_new_def)
  have d: "\<not> nextExpiryDirty demo_wheel" by (simp add: demo_wheel_def TimerWheel_new_def)
  obtain r s' where g: "getNextTimeout demo_wheel = (r, s')" by fastforce
  show ?thesis using getNextTimeout_safe [OF demo_wheel_ok(1) d refl g] e g by simp
qed

section \<open>Beyond the horizon\<close>

lemma put_put:
  assumes "wshape L s" "l < L" "k < 256"
  shows "put_bucket l k b' (put_bucket l k b s) = put_bucket l k b' s"
    "put_bucket l k (bucket s l k) s = s"
proof -
  have l: "l < length (wheels s)" "k < length (buckets (wheels s ! l))" using assms by (auto simp: wshape_def)
  show "put_bucket l k b' (put_bucket l k b s) = put_bucket l k b' s"
    using l by (simp add: put_bucket_def)
  have "(wheels s ! l)\<lparr>buckets := (buckets (wheels s ! l))[k := bucket s l k]\<rparr> = wheels s ! l"
    by (simp add: bucket_def)
  then show "put_bucket l k (bucket s l k) s = s" using l by (simp add: put_bucket_def)
qed

lemma put_upd: "put_bucket l k b (upd p f s) = upd p f (put_bucket l k b s)"
  by (simp add: put_bucket_def upd_def deref_def)

lemma upd_upd: "upd p g (upd p f s) = upd p (\<lambda>t. g (f t)) s"
  by (simp add: upd_def deref_def)

lemma upd_id: "mem s p = Some t \<Longrightarrow> f t = t \<Longrightarrow> upd p f s = s"
  by (simp add: upd_def deref_def map_upd_triv)

lemma far_step_fixed:
  assumes "wshape L s" "l = L - 1" "k < 256" "bucket s l k = [p]"
    and t: "mem s p = Some t" "active t" "level t = l" "slotIndex t = k" "posInBucket t = 0"
    and far: "unat (currentTime s) + 256 ^ L \<le> unat (expiryTime t)"
      "unat (expiryTime t) div 256 ^ l mod 256 = k"
    and nx: "nextExpiryTime s \<noteq> 0" "nextExpiryTime s \<le> expiryTime t"
  shows "slot_step l k 0 s = s"
proof -
  let ?e = "expiryTime t"
  have L: "1 \<le> L" "l < L" "length (wheels s) = L" using assms(1,2) by (auto simp: wshape_def)
  have lt: "currentTime s < ?e" using far(1) by (simp add: word_less_nat_alt) (metis add_lessD1 less_add_same_cancel1 order_less_le_trans zero_less_numeral zero_less_power)
  then have ud: "unat (?e - currentTime s) = unat ?e - unat (currentTime s)"
    by (intro unat_sub) simp
  have fl: "find_level (wheels s) 0 (?e - currentTime s) = l"
  proof -
    let ?lv = "find_level (wheels s) 0 (?e - currentTime s)"
    have f: "?lv < L" "Suc ?lv < L \<longrightarrow> unat ?e - unat (currentTime s) < 256 ^ Suc ?lv"
      using find_level_spec [OF assms(1) _ disjI1 refl, of 0 "?e - currentTime s"] L ud by auto
    have "(256::nat) ^ Suc ?lv \<le> 256 ^ L" if "Suc ?lv < L" using that by (intro power_increasing) auto
    then show ?thesis using f far(1) assms(2) by (cases "Suc ?lv < L") auto
  qed
  have sl: "unat ((?e div interval (wheels s ! l)) AND (slots (wheels s ! l) - 1)) = k"
  proof -
    have w: "unat (interval (wheels s ! l)) = 256 ^ l" "slots (wheels s ! l) - 1 = (mask 8 :: u64)"
      using assms(1) L by (auto simp: wshape_def mask_eq_exp_minus_1)
    show ?thesis using far(2) unfolding w(2) unat_and_mask by (simp add: unat_div w)
  qed
  let ?f = "\<lambda>t. t\<lparr>level := l, slotIndex := k, posInBucket := Suc 0\<rparr>"
  have "e - currentTime s \<noteq> 0" if "currentTime s < e" for e using that by auto
  then have add: "addTimerToWheel p ?e s = upd p ?f (put_bucket l k [p, p] s)"
    using lt nx assms(4) by (simp add: addTimerToWheel_def Let_def fl sl put_upd not_less)
  let ?s1 = "upd p ?f (put_bucket l k [p, p] s)"
  have b1: "bucket (put_bucket l k [p, p] s) l k = [p, p]"
    using bucket_put [OF assms(1) L(2) assms(3)] by simp
  have "slot_step l k 0 s = swap_pop_at l k 0 ?s1"
    using assms(4) t(1,2) lt add by (simp add: slot_step_def Let_def)
  also have "\<dots> = upd p (\<lambda>t. (?f t)\<lparr>posInBucket := 0\<rparr>) (put_bucket l k [p] s)"
    using put_put(1) [OF assms(1) L(2) assms(3)]
    by (simp add: swap_pop_at_def Let_def b1 swap_pop_def put_upd upd_upd)
  also have "put_bucket l k [p] s = s" using put_put(2) [OF assms(1) L(2) assms(3)] assms(4) by simp
  also have "upd p (\<lambda>t. (?f t)\<lparr>posInBucket := 0\<rparr>) s = s"
    by (rule upd_id [OF t(1)]) (use t in simp)
  finally show ?thesis .
qed

lemma slot_loop_fixed:
  assumes "slot_step l k i s = s" "i < length (bucket s l k)"
  shows "slot_loop l k i s = None"
proof -
  have "slot_loop l k i s = Some r \<Longrightarrow> slot_step l k i s = s \<and> i < length (bucket s l k) \<longrightarrow> False" for r
    by (rule slot_loop.raw_induct [of "\<lambda>l k i s r. slot_step l k i s = s \<and> i < length (bucket s l k) \<longrightarrow> False"])
      (auto split: if_splits)
  then show ?thesis using assms by (cases "slot_loop l k i s") auto
qed

text \<open>
  C4. Outside the horizon the wheel does not terminate: when the clock reaches the slot of a timer
  that is the only one in its top-level slot and still at least \<open>256^levels\<close> milliseconds away
  (\<open>2^32\<close> ms, about 49.7 days, with the default four levels), \<open>processSlot\<close> re-adds the timer to
  the very slot it is emptying and \<open>advance\<close> never returns.
\<close>

theorem far_timer_diverges:
  assumes "wshape L s" "2 \<le> L" "unat (currentTime s) < 2 ^ 63"
    and "Suc (unat (currentTime s)) mod 256 ^ (L - 1) = 0"
    and "k = Suc (unat (currentTime s)) div 256 ^ (L - 1) mod 256" "bucket s (L - 1) k = [p]"
    and "mem s p = Some t" "active t" "level t = L - 1" "slotIndex t = k" "posInBucket t = 0"
    and "Suc (unat (currentTime s)) + 256 ^ L \<le> unat (expiryTime t)"
      "unat (expiryTime t) div 256 ^ (L - 1) mod 256 = k"
    and "nextExpiryTime s \<noteq> 0" "nextExpiryTime s \<le> expiryTime t"
  shows "advance s = None"
proof -
  let ?s = "s\<lparr>currentTime := currentTime s + 1\<rparr>" and ?l = "L - 1"
  have ws: "wshape L ?s" using assms(1) wshape_cong [of ?s s] by simp
  have b: "bucket ?s = bucket s" by (rule bucket_cong) simp
  have ct: "unat (currentTime ?s) = Suc (unat (currentTime s))" using assms(3) by (simp add: unat_word_ariths)
  have l: "?l < L" and len: "length (wheels ?s) = L" using assms(2) ws by (auto simp: wshape_def)
  note sl = word_slot [OF ws l, unfolded ct]
  have "slot_step ?l k 0 ?s = ?s"
  proof (rule far_step_fixed [OF ws refl])
    show "k < 256" using assms(5) by simp
    show "unat (currentTime ?s) + 256 ^ L \<le> unat (expiryTime t)" using assms(12) ct by simp
  qed (use assms b in simp_all)
  then have "slot_loop ?l k 0 ?s = None" using assms(6) b by (intro slot_loop_fixed) simp_all
  moreover have "rev [1..<L] = ?l # rev [1..<?l]"
    using assms(2) by (cases L) auto
  ultimately show ?thesis
    using sl assms(4,5) len by (simp add: advance_def processSlot_def)
qed

definition far_timer :: Timer where
  "far_timer = (arm_embedded 4294967297 7 9 (Timer_new 0))\<lparr>expiryTime := 4311744512, id_of := 1\<rparr>"

definition far_wheel :: tw where
  "far_wheel = op_add 5 1 (TimerWheel_new 4 [5 \<mapsto> far_timer] (\<lambda>i. 16777215))"

lemma far_wheel_eq:
  "far_wheel = (put_bucket 3 1 [5] (upd 5 (\<lambda>t. t\<lparr>level := 3, slotIndex := 1, posInBucket := 0\<rparr>)
       ((TimerWheel_new 4 [5 \<mapsto> far_timer] (\<lambda>i. 16777215))\<lparr>maxAddedId := 1\<rparr>)))
       \<lparr>nextExpiryTime := 4311744512, timerMap := [1 \<mapsto> 5], activeTimerCount := 1\<rparr>"
proof -
  define s where "s = (TimerWheel_new 4 [5 \<mapsto> far_timer] (\<lambda>i. 16777215))\<lparr>maxAddedId := 1\<rparr>"
  have ws: "wheels s = [Wheel_new 256 1, Wheel_new 256 256, Wheel_new 256 65536, Wheel_new 256 16777216]"
    by (simp add: s_def TimerWheel_new_def upt_rec push_bit_eq_mult)
  have fl: "find_level (wheels s) 0 4294967297 = 3"
    unfolding ws by (simp add: find_level.simps Wheel_new_def)
  have f: "currentTime s = 16777215" "nextExpiryTime s = 0" "timerMap s = Map.empty"
    "activeTimerCount s = 0" "cancelledPending s = {}" "detachedPending s = {}"
    "deref s 5 = far_timer" "expiryTime far_timer = 4311744512" "id_of far_timer = 1"
    by (simp_all add: s_def TimerWheel_new_def deref_def far_timer_def)
  have b: "bucket s 3 1 = []" by (simp add: bucket_def ws Wheel_new_def)
  have sl: "slots (wheels s ! 3) = 256" "interval (wheels s ! 3) = 16777216"
    by (simp_all add: ws Wheel_new_def)
  have "far_wheel = (let s2 = addTimerToWheel 5 4311744512 s in
      s2\<lparr>timerMap := (timerMap s2)(id_of (deref s2 5) \<mapsto> 5), activeTimerCount := activeTimerCount s2 + 1\<rparr>)"
    using f by (simp add: far_wheel_def op_add_def Let_def s_def TimerWheel_new_def)
  moreover define r where "r = (put_bucket 3 1 [5]
      (upd 5 (\<lambda>t. t\<lparr>level := 3, slotIndex := 1, posInBucket := 0\<rparr>) s))\<lparr>nextExpiryTime := 4311744512\<rparr>"
  moreover have "addTimerToWheel 5 4311744512 s = r"
    using b by (simp add: addTimerToWheel_def Let_def f fl sl r_def)
  moreover have "timerMap r = Map.empty" "activeTimerCount r = 0" "id_of (deref r 5) = 1"
    by (simp_all add: r_def f)
  ultimately have "far_wheel = r\<lparr>timerMap := [1 \<mapsto> 5], activeTimerCount := 1\<rparr>"
    by (simp only: Let_def add_0)
  then show ?thesis unfolding s_def [symmetric] r_def by simp
qed

theorem far_timer_diverges_witness:
  "advance far_wheel = None \<and> currentTime far_wheel = 16777215 \<and> duration_ms far_timer = 2 ^ 32 + 1"
proof -
  let ?n = "(TimerWheel_new 4 [5 \<mapsto> far_timer] (\<lambda>i. 16777215))\<lparr>maxAddedId := 1\<rparr>"
  let ?u = "upd 5 (\<lambda>t. t\<lparr>level := 3, slotIndex := 1, posInBucket := 0\<rparr>) ?n"
  let ?t = "far_timer\<lparr>level := 3, slotIndex := 1, posInBucket := 0\<rparr>"
  have wn: "wshape 4 ?n" using new_wshape [of 4 "[5 \<mapsto> far_timer]" "\<lambda>i. 16777215"]
    by (subst wshape_cong) simp_all
  have w: "wshape 4 far_wheel" using wn by (subst wshape_cong [of _ "put_bucket 3 1 [5] ?u"])
    (simp_all add: far_wheel_eq)
  have f: "unat (currentTime far_wheel) = 16777215" "nextExpiryTime far_wheel = 4311744512"
    by (simp_all add: far_wheel_eq TimerWheel_new_def)
  have b: "bucket far_wheel (4 - 1) 1 = [5]"
    using bucket_put [of 4 ?u 3 1 "[5]" 3 1] wn bucket_cong [of far_wheel "put_bucket 3 1 [5] ?u"]
    by (simp add: far_wheel_eq)
  have m: "mem far_wheel 5 = Some ?t"
    by (simp add: far_wheel_eq TimerWheel_new_def deref_def)
  have "advance far_wheel = None"
    by (rule far_timer_diverges [OF w _ _ _ _ b m])
      (simp_all add: f far_timer_def arm_embedded_def Timer_new_def)
  then show ?thesis by (simp add: far_wheel_eq TimerWheel_new_def far_timer_def arm_embedded_def)
qed

end
