(* ===== verification/Mpmc_Queue.thy ===== *)
theory Mpmc_Queue
  imports Fast_Queue
begin

text \<open>
  \<open>utils/datastructures/queue/ConcurrentQueues.h\<close>, first part: \<open>next_pow2\<close>, the single-producer
  single-consumer ring \<open>SPSCQueue\<close> and the bounded \<open>MPMCQueue\<close> with its per-cell sequence numbers.
  The operations are modelled as one thread executes them alone, with 64-bit words; a loop that spins
  forever is the outer \<open>None\<close>. \<open>Mpmc_Concurrent\<close> treats the interleavings.
\<close>

definition cq_next_pow2 :: "u64 \<Rightarrow> u64" where
  "cq_next_pow2 x = (if x \<le> 1 then 1
     else or_shift 32 (or_shift 16 (or_shift 8 (or_shift 4 (or_shift 2 (or_shift 1 (x - 1)))))) + 1)"

lemma cq_next_pow2_eq: "cq_next_pow2 x = next_pow2 x"
proof (cases "x \<le> 1")
  case True
  then have "unat x \<le> 1" by (simp add: word_le_nat_alt)
  then have "x = 0 \<or> x = 1" by (metis le_eq_less_or_eq less_one unat_1 unat_eq_0 word_unat_eq_iff)
  then show ?thesis by (auto simp: cq_next_pow2_def next_pow2_def or_shift_def)
next
  case False
  then have "x \<noteq> 0" by auto
  with False show ?thesis by (simp add: cq_next_pow2_def next_pow2_def)
qed

section \<open>SPSCQueue\<close>

record 'a spsc =
  sp_cap :: u64
  sp_mask :: u64
  sp_buf :: "'a option list"
  sp_head :: u64
  sp_tail :: u64

definition sp_new :: "u64 \<Rightarrow> 'a spsc" where
  "sp_new capacity_pow2 = (let c = cq_next_pow2 capacity_pow2 in
     \<lparr>sp_cap = c, sp_mask = c - 1, sp_buf = replicate (unat c) None, sp_head = 0, sp_tail = 0\<rparr>)"

definition sp_emplace :: "'a \<Rightarrow> 'a spsc \<Rightarrow> 'a spsc option" where
  "sp_emplace v q = (let nxt = (sp_tail q + 1) AND sp_mask q in
     if nxt = sp_head q then None
     else Some (q\<lparr>sp_buf := (sp_buf q)[unat (sp_tail q) := Some v], sp_tail := nxt\<rparr>))"

definition sp_try_dequeue :: "'a spsc \<Rightarrow> ('a \<times> 'a spsc) option" where
  "sp_try_dequeue q = (if sp_head q = sp_tail q then None
     else Some (the (sp_buf q ! unat (sp_head q)),
       q\<lparr>sp_buf := (sp_buf q)[unat (sp_head q) := None], sp_head := (sp_head q + 1) AND sp_mask q\<rparr>))"

definition sp_destroy :: "'a spsc \<Rightarrow> ('a list \<times> 'a spsc) option" where
  "sp_destroy q = q_drain sp_try_dequeue q"

definition sp_empty :: "'a spsc \<Rightarrow> bool" where
  "sp_empty q \<longleftrightarrow> sp_head q = sp_tail q"

definition sp_capacity :: "'a spsc \<Rightarrow> u64" where
  "sp_capacity q = sp_cap q - 1"

definition sp_size :: "'a spsc \<Rightarrow> u64" where
  "sp_size q = (sp_tail q - sp_head q) AND sp_mask q"

definition sp_len :: "'a spsc \<Rightarrow> nat" where
  "sp_len q = (unat (sp_tail q) + length (sp_buf q) - unat (sp_head q)) mod length (sp_buf q)"

definition sp_contents :: "'a spsc \<Rightarrow> 'a list" where
  "sp_contents q = map the (ring_list (sp_buf q) (unat (sp_head q)) (sp_len q))"

definition sp_inv :: "'a spsc \<Rightarrow> bool" where
  "sp_inv q \<longleftrightarrow> (\<exists>k<64. sp_cap q = 2 ^ k \<and> sp_mask q = mask k \<and> length (sp_buf q) = 2 ^ k)
     \<and> unat (sp_head q) < length (sp_buf q) \<and> unat (sp_tail q) < length (sp_buf q)"

section \<open>MPMCQueue\<close>

record 'a mcell =
  c_seq :: u64
  c_val :: "'a option"

record 'a mpmc =
  mp_cap :: u64
  mp_mask :: u64
  mp_cells :: "'a mcell list"
  mp_enq :: u64
  mp_deq :: u64

definition mp_new :: "u64 \<Rightarrow> 'a mpmc" where
  "mp_new capacity_pow2 = (let c = cq_next_pow2 capacity_pow2 in
     \<lparr>mp_cap = c, mp_mask = c - 1,
      mp_cells = map (\<lambda>i. \<lparr>c_seq = of_nat i, c_val = None\<rparr>) [0..<unat c], mp_enq = 0, mp_deq = 0\<rparr>)"

text \<open>\<open>intptr_t dif = (intptr_t)seq - (intptr_t)pos\<close>, read as the signed 64-bit difference.\<close>

definition dif :: "u64 \<Rightarrow> u64 \<Rightarrow> int" where
  "dif s p = sint (s - p)"

partial_function (option) mp_enqueue_loop :: "'a \<Rightarrow> u64 \<Rightarrow> 'a mpmc \<Rightarrow> 'a mpmc option option" where
  "mp_enqueue_loop v pos q = (let i = unat (pos AND mp_mask q); c = mp_cells q ! i; d = dif (c_seq c) pos in
     if d = 0 then
       (if mp_enq q = pos
        then Some (Some (q\<lparr>mp_enq := pos + 1,
                           mp_cells := (mp_cells q)[i := \<lparr>c_seq = pos + 1, c_val = Some v\<rparr>]\<rparr>))
        else mp_enqueue_loop v (mp_enq q) q)
     else if d < 0 then Some None
     else mp_enqueue_loop v (mp_enq q) q)"

definition mp_do_enqueue :: "'a \<Rightarrow> 'a mpmc \<Rightarrow> 'a mpmc option option" where
  "mp_do_enqueue v q = mp_enqueue_loop v (mp_enq q) q"

partial_function (option) mp_dequeue_loop :: "u64 \<Rightarrow> 'a mpmc \<Rightarrow> ('a \<times> 'a mpmc) option option" where
  "mp_dequeue_loop pos q = (let i = unat (pos AND mp_mask q); c = mp_cells q ! i; d = dif (c_seq c) (pos + 1) in
     if d = 0 then
       (if mp_deq q = pos
        then Some (Some (the (c_val c), q\<lparr>mp_deq := pos + 1,
               mp_cells := (mp_cells q)[i := \<lparr>c_seq = pos + mp_cap q, c_val = None\<rparr>]\<rparr>))
        else mp_dequeue_loop (mp_deq q) q)
     else if d < 0 then Some None
     else mp_dequeue_loop (mp_deq q) q)"

definition mp_try_dequeue :: "'a mpmc \<Rightarrow> ('a \<times> 'a mpmc) option option" where
  "mp_try_dequeue q = mp_dequeue_loop (mp_deq q) q"

fun mp_try_enqueue_bulk :: "'a list \<Rightarrow> 'a mpmc \<Rightarrow> (nat \<times> 'a mpmc) option" where
  "mp_try_enqueue_bulk [] q = Some (0, q)"
| "mp_try_enqueue_bulk (v # vs) q = (case mp_do_enqueue v q of None \<Rightarrow> None
     | Some None \<Rightarrow> Some (0, q)
     | Some (Some q1) \<Rightarrow> map_option (\<lambda>(n, q2). (Suc n, q2)) (mp_try_enqueue_bulk vs q1))"

fun mp_try_dequeue_bulk :: "nat \<Rightarrow> 'a mpmc \<Rightarrow> ('a list \<times> 'a mpmc) option" where
  "mp_try_dequeue_bulk 0 q = Some ([], q)"
| "mp_try_dequeue_bulk (Suc n) q = (case mp_try_dequeue q of None \<Rightarrow> None
     | Some None \<Rightarrow> Some ([], q)
     | Some (Some (v, q1)) \<Rightarrow> map_option (\<lambda>(vs, q2). (v # vs, q2)) (mp_try_dequeue_bulk n q1))"

definition mp_empty :: "'a mpmc \<Rightarrow> bool" where
  "mp_empty q \<longleftrightarrow> dif (c_seq (mp_cells q ! unat (mp_deq q AND mp_mask q))) (mp_deq q + 1) < 0"

definition mp_empty_relaxed :: "'a mpmc \<Rightarrow> bool" where
  "mp_empty_relaxed q \<longleftrightarrow> mp_enq q = mp_deq q"

text \<open>
  The destructor: the drain loop, then the cells are destroyed. A dequeue that spins makes the
  destructor spin.
\<close>

partial_function (option) mp_drain :: "'a mpmc \<Rightarrow> ('a list \<times> 'a mpmc) option" where
  "mp_drain q = Option.bind (mp_try_dequeue q) (\<lambda>r. case r of
     None \<Rightarrow> Some ([], q)
   | Some p \<Rightarrow> Option.bind (mp_drain (snd p)) (\<lambda>s. Some (fst p # fst s, snd s)))"

definition mp_destroy :: "'a mpmc \<Rightarrow> ('a list \<times> 'a mpmc) option" where
  "mp_destroy q = map_option (\<lambda>r. (fst r, (snd r)\<lparr>mp_cells := []\<rparr>)) (mp_drain q)"

definition mp_size :: "'a mpmc \<Rightarrow> u64" where
  "mp_size q = (let d = mp_enq q - mp_deq q in if d > mp_cap q then mp_cap q else d)"

definition mp_count :: "'a mpmc \<Rightarrow> nat" where
  "mp_count q = unat (mp_enq q - mp_deq q)"

definition mp_ring :: "'a mpmc \<Rightarrow> nat \<Rightarrow> 'a mcell" where
  "mp_ring q i = mp_cells q ! ((unat (mp_deq q) + i) mod length (mp_cells q))"

definition mp_contents :: "'a mpmc \<Rightarrow> 'a list" where
  "mp_contents q = map (\<lambda>i. the (c_val (mp_ring q i))) [0..<mp_count q]"

definition mp_shape :: "nat \<Rightarrow> 'a mpmc \<Rightarrow> bool" where
  "mp_shape k q \<longleftrightarrow> k < 63 \<and> mp_cap q = 2 ^ k \<and> mp_mask q = mask k \<and> length (mp_cells q) = 2 ^ k"

text \<open>
  Cell \<open>i\<close> of the window that starts at \<open>deq_pos\<close> carries the sequence number of its position, plus
  one while it holds an element.
\<close>

definition mp_inv :: "'a mpmc \<Rightarrow> bool" where
  "mp_inv q \<longleftrightarrow> (\<exists>k\<ge>1. mp_shape k q) \<and> mp_count q \<le> length (mp_cells q)
     \<and> (\<forall>i<length (mp_cells q). c_seq (mp_ring q i) = mp_deq q + of_nat i + (if i < mp_count q then 1 else 0)
          \<and> (c_val (mp_ring q i) = None \<longleftrightarrow> mp_count q \<le> i))"

section \<open>SPSCQueue is a bounded queue\<close>

definition rq_of :: "'a spsc \<Rightarrow> 'a option ringq" where
  "rq_of q = \<lparr>rq_buffer = sp_buf q, rq_head = sp_head q, rq_tail = sp_tail q\<rparr>"

lemma sp_view:
  assumes "sp_inv q"
  shows "rq_inv (rq_of q)" "sp_contents q = map the (rq_contents (rq_of q))"
    "sp_mask q = of_nat (length (sp_buf q)) - 1"
  using assms by (auto simp: sp_inv_def rq_inv_def rq_of_def sp_contents_def rq_contents_def sp_len_def
      rq_len_def mask_eq_exp_minus_1)

lemma sp_emplace_view:
  assumes "sp_inv q"
  shows "map_option rq_of (sp_emplace v q) = rq_enqueue (Some v) (rq_of q)"
  using sp_view(3) [OF assms] by (simp add: sp_emplace_def rq_enqueue_def rq_of_def Let_def)

lemma sp_emplace_Some:
  assumes "sp_inv q" "sp_emplace v q = Some q'"
  shows "sp_inv q' \<and> sp_contents q' = sp_contents q @ [v] \<and> length (sp_buf q') = length (sp_buf q)"
proof -
  have e: "rq_enqueue (Some v) (rq_of q) = Some (rq_of q')"
    using sp_emplace_view [OF assms(1), of v] assms(2) by simp
  note r = rq_enqueue_Some [OF sp_view(1) [OF assms(1)] e]
  have f: "sp_cap q' = sp_cap q" "sp_mask q' = sp_mask q"
    using assms(2) by (auto simp: sp_emplace_def Let_def split: if_splits)
  have l: "length (sp_buf q') = length (sp_buf q)" using r by (simp add: rq_of_def)
  have "unat (sp_head q') < length (sp_buf q')" "unat (sp_tail q') < length (sp_buf q')"
    using r by (simp_all add: rq_inv_def rq_of_def)
  then have i: "sp_inv q'" using assms(1) f l unfolding sp_inv_def by simp
  then show ?thesis using r sp_view(2) [OF i] sp_view(2) [OF assms(1)] l by simp
qed

lemma sp_dequeue_Some:
  assumes "sp_inv q" "sp_try_dequeue q = Some (x, q')"
  shows "sp_inv q' \<and> sp_contents q = x # sp_contents q' \<and> length (sp_buf q') = length (sp_buf q)"
proof -
  define q1 where "q1 = q\<lparr>sp_head := (sp_head q + 1) AND sp_mask q\<rparr>"
  let ?h = "unat (sp_head q)"
  have ne: "sp_head q \<noteq> sp_tail q" and x: "x = the (sp_buf q ! ?h)"
    and q': "q' = q1\<lparr>sp_buf := (sp_buf q)[?h := None]\<rparr>"
    using assms(2) by (auto simp: sp_try_dequeue_def q1_def split: if_splits)
  have d: "rq_dequeue (rq_of q) = Some (sp_buf q ! ?h, rq_of q1)"
    using ne sp_view(3) [OF assms(1)] by (simp add: rq_dequeue_def rq_of_def q1_def Let_def)
  note r = rq_dequeue_Some [OF sp_view(1) [OF assms(1)] d]
  have b: "unat (sp_head q1) < length (sp_buf q)" "unat (sp_tail q1) < length (sp_buf q)"
    using r by (simp_all add: rq_inv_def rq_of_def q1_def)
  have i1: "sp_inv q1" using assms(1) b unfolding sp_inv_def by (simp add: q1_def)
  have i: "sp_inv q'" using i1 b unfolding sp_inv_def by (simp add: q' q1_def)
  have len: "sp_len q1 < length (sp_buf q)"
    unfolding sp_len_def using b by (intro mod_less_divisor [THEN order_less_le_trans])
      (auto simp: q1_def intro: less_imp_le)
  obtain k where k: "sp_mask q = mask k" "length (sp_buf q) = 2 ^ k" "k < 64"
    using assms(1) by (auto simp: sp_inv_def)
  have hm: "unat (sp_head q1) mod length (sp_buf q) = Suc ?h mod length (sp_buf q)"
    using unat_ring_index [of k "sp_head q" 1] k by (simp add: q1_def)
  have hl: "?h mod length (sp_buf q) = ?h" using assms(1) by (simp add: sp_inv_def)
  have "ring_list (sp_buf q') (unat (sp_head q1)) (sp_len q1) = ring_list (sp_buf q') (Suc ?h) (sp_len q1)"
    using hm by (intro ring_list_head_mod) (simp add: q')
  also have "\<dots> = ring_list (sp_buf q) (Suc ?h) (sp_len q1)"
    using ring_list_update_head [OF len, of ?h None] hl by (simp add: q')
  also have "\<dots> = ring_list (sp_buf q) (unat (sp_head q1)) (sp_len q1)"
    using hm by (intro ring_list_head_mod) simp
  finally have "sp_contents q' = sp_contents q1"
    by (simp add: sp_contents_def sp_len_def q' q1_def)
  then show ?thesis
    using r x i sp_view(2) [OF i1] sp_view(2) [OF assms(1)] by (simp add: q')
qed

lemma sp_emplace_None:
  assumes "sp_inv q"
  shows "sp_emplace v q = None \<longleftrightarrow> length (sp_contents q) = length (sp_buf q) - 1"
proof -
  have "sp_emplace v q = None \<longleftrightarrow> rq_enqueue (Some v) (rq_of q) = None"
    using sp_emplace_view [OF assms, of v] by (metis option.map_disc_iff)
  then show ?thesis
    using rq_enqueue_None [OF sp_view(1) [OF assms], of "Some v"] sp_view(2) [OF assms]
    by (simp add: rq_of_def)
qed

lemma sp_dequeue_None:
  assumes "sp_inv q"
  shows "sp_try_dequeue q = None \<longleftrightarrow> sp_contents q = []"
  using rq_dequeue_None [OF sp_view(1) [OF assms]] sp_view(2) [OF assms]
  by (auto simp: sp_try_dequeue_def rq_dequeue_def rq_of_def Let_def split: if_splits)

text \<open>An \<open>SPSCQueue\<close> whose buffer has \<open>cap\<close> cells holds at most \<open>cap - 1\<close> elements.\<close>

interpretation sp: bounded_fifo sp_inv sp_contents sp_emplace sp_try_dequeue "\<lambda>q. length (sp_buf q) - 1"
  by unfold_locales
    (auto simp: sp_emplace_None sp_dequeue_None dest: sp_emplace_Some sp_dequeue_Some)

section \<open>MPMCQueue alone is a bounded queue, for a capacity of at least two\<close>

lemma mp_shapeD:
  assumes "mp_shape k q"
  shows "k < 63" "unat (mp_cap q) = 2 ^ k" "length (mp_cells q) = 2 ^ k" "mp_mask q = mask k"
    "mp_cap q = 2 ^ k"
  using assms by (auto simp: mp_shape_def ring_simps)

lemma mp_pos:
  assumes "mp_shape k q"
  shows "unat ((mp_deq q + of_nat i) AND mp_mask q) = (unat (mp_deq q) + i) mod length (mp_cells q)"
  using mp_shapeD [OF assms] by (simp add: unat_ring_index)

lemma mp_enq_eq: "mp_enq q = mp_deq q + of_nat (mp_count q)"
  by (simp add: mp_count_def)

lemma dif_eq_0: "dif s p = 0 \<longleftrightarrow> s = p"
  by (simp add: dif_def signed_eq_0_iff)

lemma sint_neg_small:
  assumes "0 < n" "n < 2 ^ 63"
  shows "sint (- of_nat n :: u64) < 0"
proof -
  have "(- of_nat n :: u64) = word_of_int (- int n)" by simp
  then have "sint (- of_nat n :: u64) = signed_take_bit 63 (- int n)"
    by (simp only: sint_sbintrunc') simp
  also have "\<dots> = - int n" using assms by (intro signed_take_bit_int_eq_self) auto
  finally show ?thesis using assms by simp
qed

lemma mp_invD:
  assumes "mp_inv q"
  obtains k where "1 \<le> k" "mp_shape k q" "mp_count q \<le> 2 ^ k"
    "\<And>i. i < 2 ^ k \<Longrightarrow> c_seq (mp_ring q i) = mp_deq q + of_nat i + (if i < mp_count q then 1 else 0)"
    "\<And>i. i < 2 ^ k \<Longrightarrow> c_val (mp_ring q i) = None \<longleftrightarrow> mp_count q \<le> i"
proof -
  obtain k where k: "1 \<le> k" "mp_shape k q" using assms by (auto simp: mp_inv_def)
  then have "length (mp_cells q) = 2 ^ k" by (simp add: mp_shapeD)
  then show ?thesis using that [of k] k assms by (simp add: mp_inv_def)
qed

lemma mp_enqueue_cases:
  assumes "mp_inv q"
  shows "mp_do_enqueue v q = Some (if mp_count q = length (mp_cells q) then None
    else Some (q\<lparr>mp_enq := mp_enq q + 1, mp_cells := (mp_cells q)
      [(unat (mp_deq q) + mp_count q) mod length (mp_cells q) := \<lparr>c_seq = mp_enq q + 1, c_val = Some v\<rparr>]\<rparr>))"
proof -
  obtain k where k: "1 \<le> k" "mp_shape k q" "mp_count q \<le> 2 ^ k"
    and seq: "\<And>i. i < 2 ^ k \<Longrightarrow> c_seq (mp_ring q i) = mp_deq q + of_nat i + (if i < mp_count q then 1 else 0)"
    using mp_invD [OF assms] by metis
  note d = mp_shapeD [OF k(2)]
  let ?i = "(unat (mp_deq q) + mp_count q) mod length (mp_cells q)"
  have pos: "unat (mp_enq q AND mp_mask q) = ?i" using mp_pos [OF k(2), of "mp_count q"] mp_enq_eq [of q] by simp
  show ?thesis
  proof (cases "mp_count q = 2 ^ k")
    case False
    then have lt: "mp_count q < 2 ^ k" using k(3) by simp
    have "c_seq (mp_cells q ! ?i) = mp_enq q"
      using seq [OF lt] mp_enq_eq [of q] by (simp add: mp_ring_def)
    then show ?thesis using False d(3) unfolding mp_do_enqueue_def
      by (subst mp_enqueue_loop.simps) (simp add: Let_def pos dif_eq_0)
  next
    case True
    have i0: "?i = unat (mp_deq q) mod length (mp_cells q)" using True d(3) by simp
    have "c_seq (mp_ring q 0) = mp_deq q + 1" using seq [of 0] True by simp
    then have s: "c_seq (mp_cells q ! ?i) = mp_deq q + 1" by (simp add: mp_ring_def i0)
    have p2: "(2::nat) ^ 1 \<le> 2 ^ k" "(2::nat) ^ k < 2 ^ 63"
      using k(1) d(1) by (intro power_increasing power_strict_increasing; simp)+
    have e: "mp_deq q + 1 - mp_enq q = - of_nat (2 ^ k - 1)"
      using p2 mp_enq_eq [of q] by (simp add: True of_nat_diff)
    have neg: "dif (mp_deq q + 1) (mp_enq q) < 0"
      unfolding dif_def e by (rule sint_neg_small) (use p2 in auto)
    then show ?thesis using True d(3) s unfolding mp_do_enqueue_def
      by (subst mp_enqueue_loop.simps) (simp add: Let_def pos)
  qed
qed

lemma mp_dequeue_cases:
  assumes "mp_inv q"
  shows "mp_try_dequeue q = Some (if mp_count q = 0 then None
    else Some (the (c_val (mp_ring q 0)), q\<lparr>mp_deq := mp_deq q + 1, mp_cells := (mp_cells q)
      [unat (mp_deq q) mod length (mp_cells q) := \<lparr>c_seq = mp_deq q + mp_cap q, c_val = None\<rparr>]\<rparr>))"
proof -
  obtain k where k: "1 \<le> k" "mp_shape k q" "mp_count q \<le> 2 ^ k"
    and seq: "\<And>i. i < 2 ^ k \<Longrightarrow> c_seq (mp_ring q i) = mp_deq q + of_nat i + (if i < mp_count q then 1 else 0)"
    using mp_invD [OF assms] by metis
  have pos: "unat (mp_deq q AND mp_mask q) = unat (mp_deq q) mod length (mp_cells q)"
    using mp_pos [OF k(2), of 0] by simp
  have r: "mp_ring q 0 = mp_cells q ! (unat (mp_deq q) mod length (mp_cells q))" by (simp add: mp_ring_def)
  have s: "c_seq (mp_ring q 0) = mp_deq q + (if 0 < mp_count q then 1 else 0)" using seq [of 0] by simp
  have "dif (mp_deq q) (mp_deq q + 1) < 0" using sint_neg_small [of 1] by (simp add: dif_def)
  moreover have "dif (mp_deq q) (mp_deq q + 1) \<noteq> 0" using calculation by simp
  ultimately show ?thesis using s unfolding mp_try_dequeue_def
    by (subst mp_dequeue_loop.simps) (simp add: Let_def pos r [symmetric] dif_eq_0)
qed

lemma mp_enqueue_inv:
  assumes "mp_inv q" "mp_do_enqueue v q = Some (Some q')"
  shows "mp_inv q' \<and> mp_contents q' = mp_contents q @ [v] \<and> length (mp_cells q') = length (mp_cells q)"
proof -
  obtain k where k: "1 \<le> k" "mp_shape k q" "mp_count q \<le> 2 ^ k"
    and seq: "\<And>i. i < 2 ^ k \<Longrightarrow> c_seq (mp_ring q i) = mp_deq q + of_nat i + (if i < mp_count q then 1 else 0)"
    and val: "\<And>i. i < 2 ^ k \<Longrightarrow> c_val (mp_ring q i) = None \<longleftrightarrow> mp_count q \<le> i"
    using mp_invD [OF assms(1)] by metis
  note d = mp_shapeD [OF k(2)]
  let ?n = "mp_count q" and ?c = "\<lparr>c_seq = mp_enq q + 1, c_val = Some v\<rparr>"
  let ?i = "(unat (mp_deq q) + ?n) mod length (mp_cells q)"
  have n: "?n < 2 ^ k" and q': "q' = q\<lparr>mp_enq := mp_enq q + 1, mp_cells := (mp_cells q)[?i := ?c]\<rparr>"
    using assms(2) mp_enqueue_cases [OF assms(1), of v] k(3) d(3) by (auto split: if_splits)
  have n63: "?n < 2 ^ 63" using n d(1) by (meson less_trans power_strict_increasing one_less_numeral_iff semiring_norm(76))
  have cnt: "mp_count q' = Suc ?n"
    using unat_diff_succ [of "mp_enq q" "mp_deq q"] n63 by (simp add: mp_count_def q')
  have ring: "mp_ring q' i = (if i = ?n then ?c else mp_ring q i)" if "i < 2 ^ k" for i
  proof -
    have "i = ?n" if "(unat (mp_deq q) + i) mod 2 ^ k = (unat (mp_deq q) + ?n) mod 2 ^ k"
      using that \<open>i < 2 ^ k\<close> n by (rule ring_index_inj [rotated 2])
    then show ?thesis using d(3) by (auto simp: mp_ring_def q' nth_list_update)
  qed
  have "c_seq (mp_ring q' i) = mp_deq q' + of_nat i + (if i < mp_count q' then 1 else 0)
      \<and> (c_val (mp_ring q' i) = None \<longleftrightarrow> mp_count q' \<le> i)" if "i < 2 ^ k" for i
    using ring [OF that] seq [OF that] val [OF that] mp_enq_eq [of q] unfolding cnt
    by (simp add: q') auto
  moreover have "mp_shape k q'" using k(2) by (simp add: mp_shape_def q')
  ultimately have "mp_inv q'" using k(1) n d(3) cnt unfolding mp_inv_def by (auto simp: q')
  moreover have "mp_contents q' = mp_contents q @ [v]"
    using ring n unfolding mp_contents_def cnt by (auto simp: less_Suc_eq)
  ultimately show ?thesis by (simp add: q')
qed

lemma mp_dequeue_inv:
  assumes "mp_inv q" "mp_try_dequeue q = Some (Some (x, q'))"
  shows "mp_inv q' \<and> mp_contents q = x # mp_contents q' \<and> length (mp_cells q') = length (mp_cells q)"
proof -
  obtain k where k: "1 \<le> k" "mp_shape k q" "mp_count q \<le> 2 ^ k"
    and seq: "\<And>i. i < 2 ^ k \<Longrightarrow> c_seq (mp_ring q i) = mp_deq q + of_nat i + (if i < mp_count q then 1 else 0)"
    and val: "\<And>i. i < 2 ^ k \<Longrightarrow> c_val (mp_ring q i) = None \<longleftrightarrow> mp_count q \<le> i"
    using mp_invD [OF assms(1)] by metis
  note d = mp_shapeD [OF k(2)]
  let ?n = "mp_count q" and ?c = "\<lparr>c_seq = mp_deq q + mp_cap q, c_val = None\<rparr>" and ?L = "(2::nat) ^ k"
  let ?i = "unat (mp_deq q) mod length (mp_cells q)"
  have n: "0 < ?n" and x: "x = the (c_val (mp_ring q 0))"
    and q': "q' = q\<lparr>mp_deq := mp_deq q + 1, mp_cells := (mp_cells q)[?i := ?c]\<rparr>"
    using assms(2) mp_dequeue_cases [OF assms(1)] by (auto split: if_splits)
  have L: "0 < ?L" by simp
  have cnt: "mp_count q' = ?n - 1"
  proof -
    have "mp_enq q - mp_deq q \<noteq> 0" using n by (auto simp: mp_count_def)
    moreover have "mp_enq q - (mp_deq q + 1) = (mp_enq q - mp_deq q) - 1" by simp
    ultimately have "unat (mp_enq q - (mp_deq q + 1)) = ?n - 1"
      unfolding mp_count_def by (metis unat_minus_one)
    then show ?thesis by (simp add: mp_count_def q')
  qed
  have hd: "unat (mp_deq q') mod ?L = Suc (unat (mp_deq q)) mod ?L"
  proof -
    have "unat ((mp_deq q + of_nat 1) AND mp_mask q) = (unat (mp_deq q) + 1) mod ?L" using mp_pos [OF k(2), of 1] d(3) by simp
    then show ?thesis using d(4) by (simp add: q' unat_and_mask)
  qed
  have idx: "(unat (mp_deq q') + i) mod ?L = (unat (mp_deq q) + Suc i) mod ?L" for i
    using hd by (metis add_Suc add_Suc_right mod_add_left_eq)
  have wrap: "(unat (mp_deq q) + Suc i) mod ?L = unat (mp_deq q) mod ?L \<longleftrightarrow> i = ?L - 1" if i: "i < ?L" for i
  proof
    assume "(unat (mp_deq q) + Suc i) mod ?L = unat (mp_deq q) mod ?L"
    then have "(unat (mp_deq q) + Suc i) mod ?L = (unat (mp_deq q) + 0) mod ?L" by simp
    then show "i = ?L - 1" using ring_index_inj [of "Suc i" ?L 0 "unat (mp_deq q)"] i by (cases "Suc i < ?L") auto
  qed simp
  have ring: "mp_ring q' i = (if i = ?L - 1 then ?c else mp_ring q (Suc i))" if "i < ?L" for i
    using idx [of i] wrap [OF that] d(3) by (auto simp: mp_ring_def q' nth_list_update)
  have "c_seq (mp_ring q' i) = mp_deq q' + of_nat i + (if i < mp_count q' then 1 else 0)
      \<and> (c_val (mp_ring q' i) = None \<longleftrightarrow> mp_count q' \<le> i)" if i: "i < ?L" for i
  proof (cases "i = ?L - 1")
    case True
    have "\<not> i < mp_count q'" using True k(3) n cnt by simp
    moreover have "mp_deq q + mp_cap q = mp_deq q' + of_nat i"
      using True d(5) by (simp add: q' of_nat_diff)
    ultimately show ?thesis using ring [OF i] True by simp
  next
    case False
    then have s: "Suc i < ?L" using i by simp
    then show ?thesis using ring [OF i] False seq [OF s] val [OF s] n unfolding cnt
      by (auto simp: q' algebra_simps)
  qed
  moreover have "mp_shape k q'" using k(2) by (simp add: mp_shape_def q')
  ultimately have "mp_inv q'" using k(1,3) n d(3) cnt unfolding mp_inv_def by (auto simp: q')
  moreover have "mp_contents q = x # mp_contents q'"
  proof -
    have "mp_contents q = map (\<lambda>i. the (c_val (mp_ring q i))) (0 # map Suc [0..<?n - 1])"
      unfolding mp_contents_def using n by (simp add: map_Suc_upt upt_conv_Cons)
    also have "\<dots> = x # mp_contents q'"
      using ring k(3) n unfolding mp_contents_def cnt x by auto
    finally show ?thesis .
  qed
  ultimately show ?thesis by (simp add: q')
qed

lemma mp_new_inv:
  assumes "2 \<le> unat c" "unat c \<le> 2 ^ 62"
  shows "mp_inv (mp_new c :: 'a mpmc) \<and> mp_contents (mp_new c :: 'a mpmc) = []"
proof -
  define q where "q = (mp_new c :: 'a mpmc)"
  have "unat c \<le> 2 ^ 63" using assms(2) by simp
  then obtain k where k: "unat (cq_next_pow2 c) = 2 ^ k" "unat c \<le> 2 ^ k" "\<And>j. unat c \<le> 2 ^ j \<Longrightarrow> k \<le> j"
    using next_pow2_least [of c] by (auto simp: cq_next_pow2_eq)
  have "k < 63" using k(3) [OF assms(2)] by simp
  moreover have "1 \<le> k" using k(2) assms(1) by (cases k) auto
  moreover have "cq_next_pow2 c = 2 ^ k" using k(1) unat_pow2 [of k] \<open>k < 63\<close> by (simp add: word_unat_eq_iff)
  moreover have "mp_ring q i = \<lparr>c_seq = of_nat i, c_val = None\<rparr>" if "i < 2 ^ k" for i
    using that k(1) by (simp add: mp_ring_def q_def mp_new_def Let_def)
  moreover have "mp_count q = 0" "mp_deq q = 0" "length (mp_cells q) = 2 ^ k" "mp_cap q = cq_next_pow2 c"
    "mp_mask q = cq_next_pow2 c - 1"
    using k(1) by (simp_all add: q_def mp_new_def Let_def mp_count_def)
  ultimately have "mp_inv q \<and> mp_contents q = []"
    by (auto simp: mp_inv_def mp_shape_def mp_contents_def mask_eq_exp_minus_1 intro!: exI [of _ k])
  then show ?thesis by (simp add: q_def)
qed

definition mp_enq_op :: "'a \<Rightarrow> 'a mpmc \<Rightarrow> 'a mpmc option" where
  "mp_enq_op v q = (case mp_do_enqueue v q of Some r \<Rightarrow> r | None \<Rightarrow> None)"

definition mp_deq_op :: "'a mpmc \<Rightarrow> ('a \<times> 'a mpmc) option" where
  "mp_deq_op q = (case mp_try_dequeue q of Some r \<Rightarrow> r | None \<Rightarrow> None)"

lemma mp_count_contents: "length (mp_contents q) = mp_count q"
  by (simp add: mp_contents_def)

interpretation mp: bounded_fifo mp_inv mp_contents mp_enq_op mp_deq_op "\<lambda>q. length (mp_cells q)"
proof
  fix q q' :: "'a mpmc" and x
  assume i: "mp_inv q"
  show "mp_enq_op x q = Some q' \<Longrightarrow> mp_inv q' \<and> mp_contents q' = mp_contents q @ [x]"
    "mp_enq_op x q = Some q' \<Longrightarrow> length (mp_cells q') = length (mp_cells q)"
    using mp_enqueue_inv [OF i, of x q'] by (auto simp: mp_enq_op_def split: option.splits)
  show "mp_deq_op q = None \<longleftrightarrow> mp_contents q = []"
    using mp_dequeue_cases [OF i] mp_count_contents [of q] by (auto simp: mp_deq_op_def)
  show "mp_deq_op q = Some (x, q') \<Longrightarrow> mp_inv q' \<and> mp_contents q = x # mp_contents q'"
    "mp_deq_op q = Some (x, q') \<Longrightarrow> length (mp_cells q') = length (mp_cells q)"
    using mp_dequeue_inv [OF i, of x q'] by (auto simp: mp_deq_op_def split: option.splits)
  show "mp_enq_op x q = None \<longleftrightarrow> length (mp_contents q) = length (mp_cells q)"
    using mp_enqueue_cases [OF i, of x] by (auto simp: mp_enq_op_def mp_count_contents)
qed

text \<open>The helpers that report on the queue, and the destructors.\<close>

lemma mp_reports:
  assumes "mp_inv q"
  shows "mp_empty q \<longleftrightarrow> mp_contents q = []" "mp_empty_relaxed q \<longleftrightarrow> mp_contents q = []"
    "unat (mp_size q) = length (mp_contents q)"
proof -
  obtain k where k: "1 \<le> k" "mp_shape k q" "mp_count q \<le> 2 ^ k"
    and seq: "\<And>i. i < 2 ^ k \<Longrightarrow> c_seq (mp_ring q i) = mp_deq q + of_nat i + (if i < mp_count q then 1 else 0)"
    using mp_invD [OF assms] by metis
  have s: "c_seq (mp_cells q ! unat (mp_deq q AND mp_mask q)) = mp_deq q + (if 0 < mp_count q then 1 else 0)"
    using seq [of 0] mp_pos [OF k(2), of 0] by (simp add: mp_ring_def)
  have "dif (mp_deq q) (mp_deq q + 1) < 0" using sint_neg_small [of 1] by (simp add: dif_def)
  then show "mp_empty q \<longleftrightarrow> mp_contents q = []"
    using s by (auto simp: mp_empty_def mp_contents_def dif_def)
  show "mp_empty_relaxed q \<longleftrightarrow> mp_contents q = []"
    by (auto simp: mp_empty_relaxed_def mp_contents_def mp_count_def unat_eq_0)
  show "unat (mp_size q) = length (mp_contents q)"
    using k mp_shapeD(2) [OF k(2)] by (auto simp: mp_size_def mp_count_contents mp_count_def word_less_nat_alt Let_def)
qed

lemma mp_destroy_all:
  assumes "mp_inv q"
  shows "\<exists>q'. mp_destroy q = Some (mp_contents q, q')"
proof -
  have "\<exists>q'. mp_drain q = Some (mp_contents q, q')" using assms
  proof (induction "mp_count q" arbitrary: q)
    case 0
    then show ?case using mp_dequeue_cases [of q] by (subst mp_drain.simps) (simp add: mp_contents_def)
  next
    case (Suc n)
    have "mp_count q \<noteq> 0" using Suc.hyps(2) by simp
    then obtain x q1 where d: "mp_try_dequeue q = Some (Some (x, q1))"
      using mp_dequeue_cases [OF Suc.prems] by simp
    note i = mp_dequeue_inv [OF Suc.prems d]
    then have "n = mp_count q1" using Suc.hyps(2) mp_count_contents [of q] mp_count_contents [of q1] by simp
    then show ?case using Suc.hyps(1) [of q1] i d by (subst mp_drain.simps) auto
  qed
  then show ?thesis by (auto simp: mp_destroy_def)
qed

section \<open>Capacity one\<close>

lemma mp_dequeue_spin:
  assumes "0 < dif (c_seq (mp_cells q ! unat (mp_deq q AND mp_mask q))) (mp_deq q + 1)"
  shows "mp_try_dequeue q = None"
proof -
  have "mp_dequeue_loop pos q' = Some r \<Longrightarrow> q' = q \<and> pos = mp_deq q \<longrightarrow> False" for pos q' r
    by (rule mp_dequeue_loop.raw_induct [of "\<lambda>pos q' r. q' = q \<and> pos = mp_deq q \<longrightarrow> False"])
      (use assms in \<open>auto simp: Let_def split: if_splits\<close>)
  then show ?thesis unfolding mp_try_dequeue_def by (cases "mp_dequeue_loop (mp_deq q) q") auto
qed

lemma mp_new_1: "c \<le> 1 \<Longrightarrow> mp_new c = \<lparr>mp_cap = 1, mp_mask = 0, mp_cells = [\<lparr>c_seq = 0, c_val = None\<rparr>],
    mp_enq = 0, mp_deq = 0\<rparr>"
  by (simp add: mp_new_def cq_next_pow2_def Let_def)

lemma mp_new_2: "mp_new 2 = \<lparr>mp_cap = 2, mp_mask = 1,
    mp_cells = [\<lparr>c_seq = 0, c_val = None\<rparr>, \<lparr>c_seq = 1, c_val = None\<rparr>], mp_enq = 0, mp_deq = 0\<rparr>"
proof -
  have "cq_next_pow2 2 = 2" by (simp add: cq_next_pow2_def or_shift_def word_le_nat_alt)
  then show ?thesis by (simp add: mp_new_def upt_rec)
qed

text \<open>One iteration of each loop, for evaluation.\<close>

lemma mp_do_enqueue_hit:
  assumes "c_seq (mp_cells q ! unat (mp_enq q AND mp_mask q)) = mp_enq q"
  shows "mp_do_enqueue v q = Some (Some (q\<lparr>mp_enq := mp_enq q + 1, mp_cells := (mp_cells q)
    [unat (mp_enq q AND mp_mask q) := \<lparr>c_seq = mp_enq q + 1, c_val = Some v\<rparr>]\<rparr>))"
  using assms unfolding mp_do_enqueue_def by (subst mp_enqueue_loop.simps) (simp add: dif_def Let_def)

lemma mp_do_enqueue_full:
  assumes "dif (c_seq (mp_cells q ! unat (mp_enq q AND mp_mask q))) (mp_enq q) < 0"
  shows "mp_do_enqueue v q = Some None"
  using assms unfolding mp_do_enqueue_def by (subst mp_enqueue_loop.simps) (simp add: Let_def)

lemma mp_try_dequeue_hit:
  assumes "c_seq (mp_cells q ! unat (mp_deq q AND mp_mask q)) = mp_deq q + 1"
  shows "mp_try_dequeue q = Some (Some (the (c_val (mp_cells q ! unat (mp_deq q AND mp_mask q))),
    q\<lparr>mp_deq := mp_deq q + 1, mp_cells := (mp_cells q)
    [unat (mp_deq q AND mp_mask q) := \<lparr>c_seq = mp_deq q + mp_cap q, c_val = None\<rparr>]\<rparr>))"
  using assms unfolding mp_try_dequeue_def by (subst mp_dequeue_loop.simps) (simp add: dif_def Let_def)

section \<open>Properties\<close>

text \<open>
  A \<open>MPMCQueue\<close> with at least two cells is a bounded FIFO queue: starting from construction, any
  sequence of \<open>try_enqueue\<close> and \<open>try_dequeue\<close> calls delivers the accepted elements in order, never
  holds more than its capacity, no call spins forever, \<open>size\<close> is exact and the destructor destroys
  exactly the elements left.
\<close>

theorem mpmc_fifo:
  fixes q :: "'a mpmc"
  assumes "2 \<le> unat c" "unat c \<le> 2 ^ 62"
    "q_run mp_enq_op mp_deq_op ops (mp_new c) = (accepted, delivered, q)"
  shows "accepted = delivered @ mp_contents q \<and> length (mp_contents q) \<le> length (mp_cells q)
    \<and> length (mp_cells q) = unat (cq_next_pow2 c) \<and> unat (mp_size q) = length (mp_contents q)
    \<and> mp_do_enqueue v q \<noteq> None \<and> mp_try_dequeue q \<noteq> None \<and> (\<exists>q'. mp_destroy q = Some (mp_contents q, q'))"
proof -
  have n: "mp_inv (mp_new c :: 'a mpmc)" "mp_contents (mp_new c :: 'a mpmc) = []"
    using mp_new_inv [OF assms(1,2), where 'a = 'a] by auto
  have l: "length (mp_cells (mp_new c :: 'a mpmc)) = unat (cq_next_pow2 c)" by (simp add: mp_new_def Let_def)
  have r: "mp_inv q" "accepted = delivered @ mp_contents q"
    using mp.run_fifo [OF n(1) assms(3)] n(2) by auto
  have b: "length (mp_cells q) = length (mp_cells (mp_new c :: 'a mpmc))"
    "length (mp_contents q) \<le> length (mp_cells (mp_new c :: 'a mpmc))"
    using mp.run_bounded [OF n(1) _ assms(3)] n(2) by auto
  show ?thesis
    using r(2) b l mp_enqueue_cases [OF r(1), of v] mp_dequeue_cases [OF r(1)] mp_destroy_all [OF r(1)]
      mp_reports(3) [OF r(1)] by auto
qed

theorem mpmc_fifo_witness:
  "\<exists>q. q_run mp_enq_op mp_deq_op [Enq 1, Enq 2, Enq 3, Deq, Enq 4] (mp_new 2) = ([1, 2, 4::nat], [1], q)
    \<and> mp_contents q = [2, 4]"
proof -
  obtain q where r: "q_run mp_enq_op mp_deq_op [Enq 1, Enq 2, Enq 3, Deq, Enq 4] (mp_new 2)
      = ([1, 2, 4::nat], [1], q)"
    by (simp add: mp_new_2 mp_enq_op_def mp_deq_op_def mp_do_enqueue_hit mp_do_enqueue_full
        mp_try_dequeue_hit dif_def)
  have c: "2 \<le> unat (2::u64)" "unat (2::u64) \<le> 2 ^ 62" by simp_all
  show ?thesis using mpmc_fifo [OF c r] r by auto
qed

text \<open>
  With a requested capacity of zero or one the queue has a single cell and breaks: the second
  \<open>try_enqueue\<close> succeeds and overwrites the first element, and the next \<open>try_dequeue\<close> spins forever.
\<close>

theorem mpmc_capacity_one_broken:
  assumes "c \<le> 1"
  shows "\<exists>q1 q2. mp_do_enqueue a (mp_new c) = Some (Some q1) \<and> mp_do_enqueue b q1 = Some (Some q2)
    \<and> mp_contents q1 = [a] \<and> map c_val (mp_cells q2) = [Some b] \<and> mp_try_dequeue q2 = None"
proof -
  let ?q1 = "\<lparr>mp_cap = 1, mp_mask = 0, mp_cells = [\<lparr>c_seq = 1, c_val = Some a\<rparr>], mp_enq = 1, mp_deq = 0\<rparr>"
  let ?q2 = "\<lparr>mp_cap = 1, mp_mask = 0, mp_cells = [\<lparr>c_seq = 2, c_val = Some b\<rparr>], mp_enq = 2, mp_deq = 0\<rparr>"
  have 1: "mp_do_enqueue a (mp_new c) = Some (Some ?q1)"
    by (simp add: mp_new_1 [OF assms] mp_do_enqueue_hit)
  have 2: "mp_do_enqueue b ?q1 = Some (Some ?q2)"
    by (simp add: mp_do_enqueue_hit)
  have 3: "mp_try_dequeue ?q2 = None" by (rule mp_dequeue_spin) (simp add: dif_def)
  show ?thesis using 1 2 3
    by (intro exI [of _ ?q1] exI [of _ ?q2]) (simp add: mp_contents_def mp_count_def mp_ring_def)
qed

theorem mpmc_capacity_one_broken_witness:
  "\<exists>q1 q2. mp_do_enqueue (7::nat) (mp_new 1) = Some (Some q1) \<and> mp_do_enqueue 8 q1 = Some (Some q2)
    \<and> mp_try_dequeue q2 = None"
  using mpmc_capacity_one_broken [of 1 7 8] by auto

end
