(* ===== verification/Mpmc_Concurrent.thy ===== *)
theory Mpmc_Concurrent
  imports Mpmc_Queue
begin

text \<open>
  The interleavings of \<open>MPMCQueue::do_enqueue\<close> and \<open>MPMCQueue::try_dequeue\<close>: any number of threads, each
  between two atomic accesses of the code. A step is one atomic access (or one access to a cell the
  thread owns). Positions and sequence numbers are 64-bit words as in the code (\<open>enq_step\<close>, \<open>deq_step\<close>), with the
  signed difference \<open>dif\<close>. \<open>compare_exchange_weak\<close> may fail spuriously. Three components of the state
  record history: \<open>claims\<close>, the number of positions taken by producers, \<open>claimed\<close>, the value whose producer took a
  position, and \<open>returned\<close>, the value a consumer returned for a position. The proof goes through a second step
  relation, \<open>cq_step\<close>, in which positions are natural numbers; the words refine it as long as the counters do not wrap.
\<close>

datatype ('a, 'p) pc =
  Idle
| E_load 'a
| E_seq 'a 'p
| E_cas 'a 'p 'p
| E_ctor 'a 'p
| E_publish 'a 'p
| D_load
| D_seq 'p
| D_cas 'p 'p
| D_move 'p
| D_release 'p 'a

record ('a, 'p) cq =
  enq_pos :: 'p
  deq_pos :: 'p
  seqs :: "nat \<Rightarrow> 'p"
  cell :: "nat \<Rightarrow> 'a option"
  pcs :: "nat \<Rightarrow> ('a, 'p) pc"
  claims :: nat
  claimed :: "nat \<Rightarrow> 'a option"
  returned :: "nat \<Rightarrow> 'a option"

definition goto :: "nat \<Rightarrow> ('a, 'p) pc \<Rightarrow> ('a, 'p) cq \<Rightarrow> ('a, 'p) cq" where
  "goto t l s = s\<lparr>pcs := (pcs s)(t := l)\<rparr>"

section \<open>The code, on words\<close>

definition mq_init :: "u64 \<Rightarrow> ('a, u64) cq \<Rightarrow> bool" where
  "mq_init cap s \<longleftrightarrow> s = \<lparr>enq_pos = 0, deq_pos = 0, seqs = (\<lambda>i. if i < unat cap then of_nat i else 0), cell = (\<lambda>_. None),
     pcs = (\<lambda>_. Idle), claims = 0, claimed = (\<lambda>_. None), returned = (\<lambda>_. None)\<rparr>"

definition mq_index :: "u64 \<Rightarrow> u64 \<Rightarrow> nat" where
  "mq_index cap pos = unat (pos AND (cap - 1))"

inductive enq_step :: "u64 \<Rightarrow> ('a, u64) cq \<Rightarrow> ('a, u64) cq \<Rightarrow> bool" for cap where
  call_enq: "pcs s t = Idle \<Longrightarrow> enq_step cap s (goto t (E_load v) s)"
| e_load: "pcs s t = E_load v \<Longrightarrow> enq_step cap s (goto t (E_seq v (enq_pos s)) s)"
| e_seq: "pcs s t = E_seq v p \<Longrightarrow> enq_step cap s (goto t (E_cas v p (seqs s (mq_index cap p))) s)"
| e_cas_ok: "pcs s t = E_cas v p q \<Longrightarrow> dif q p = 0 \<Longrightarrow> enq_pos s = p \<Longrightarrow>
    enq_step cap s (goto t (E_ctor v p) (s\<lparr>enq_pos := p + 1, claims := Suc (claims s), claimed := (claimed s)(unat p \<mapsto> v)\<rparr>))"
| e_cas_fail: "pcs s t = E_cas v p q \<Longrightarrow> dif q p = 0 \<Longrightarrow> enq_step cap s (goto t (E_seq v (enq_pos s)) s)"
| e_full: "pcs s t = E_cas v p q \<Longrightarrow> dif q p < 0 \<Longrightarrow> enq_step cap s (goto t Idle s)"
| e_retry: "pcs s t = E_cas v p q \<Longrightarrow> 0 < dif q p \<Longrightarrow> enq_step cap s (goto t (E_seq v (enq_pos s)) s)"
| e_ctor: "pcs s t = E_ctor v p \<Longrightarrow> enq_step cap s (goto t (E_publish v p) (s\<lparr>cell := (cell s)(mq_index cap p \<mapsto> v)\<rparr>))"
| e_publish: "pcs s t = E_publish v p \<Longrightarrow> enq_step cap s (goto t Idle (s\<lparr>seqs := (seqs s)(mq_index cap p := p + 1)\<rparr>))"

inductive deq_step :: "u64 \<Rightarrow> ('a, u64) cq \<Rightarrow> ('a, u64) cq \<Rightarrow> bool" for cap where
  call_deq: "pcs s t = Idle \<Longrightarrow> deq_step cap s (goto t D_load s)"
| d_load: "pcs s t = D_load \<Longrightarrow> deq_step cap s (goto t (D_seq (deq_pos s)) s)"
| d_seq: "pcs s t = D_seq p \<Longrightarrow> deq_step cap s (goto t (D_cas p (seqs s (mq_index cap p))) s)"
| d_cas_ok: "pcs s t = D_cas p q \<Longrightarrow> dif q (p + 1) = 0 \<Longrightarrow> deq_pos s = p \<Longrightarrow> deq_step cap s (goto t (D_move p) (s\<lparr>deq_pos := p + 1\<rparr>))"
| d_cas_fail: "pcs s t = D_cas p q \<Longrightarrow> dif q (p + 1) = 0 \<Longrightarrow> deq_step cap s (goto t (D_seq (deq_pos s)) s)"
| d_empty: "pcs s t = D_cas p q \<Longrightarrow> dif q (p + 1) < 0 \<Longrightarrow> deq_step cap s (goto t Idle s)"
| d_retry: "pcs s t = D_cas p q \<Longrightarrow> 0 < dif q (p + 1) \<Longrightarrow> deq_step cap s (goto t (D_seq (deq_pos s)) s)"
| d_move: "pcs s t = D_move p \<Longrightarrow> cell s (mq_index cap p) = Some v \<Longrightarrow>
    deq_step cap s (goto t (D_release p v) (s\<lparr>cell := (cell s)(mq_index cap p := None)\<rparr>))"
| d_release: "pcs s t = D_release p v \<Longrightarrow>
    deq_step cap s (goto t Idle (s\<lparr>seqs := (seqs s)(mq_index cap p := p + cap), returned := (returned s)(unat p \<mapsto> v)\<rparr>))"

definition mq_step :: "u64 \<Rightarrow> ('a, u64) cq \<Rightarrow> ('a, u64) cq \<Rightarrow> bool" where
  "mq_step cap s s' \<longleftrightarrow> enq_step cap s s' \<or> deq_step cap s s'"

section \<open>The same steps on natural numbers\<close>

definition cq_init :: "nat \<Rightarrow> ('a, nat) cq \<Rightarrow> bool" where
  "cq_init cap s \<longleftrightarrow> s = \<lparr>enq_pos = 0, deq_pos = 0, seqs = (\<lambda>i. if i < cap then i else 0), cell = (\<lambda>_. None), pcs = (\<lambda>_. Idle),
     claims = 0, claimed = (\<lambda>_. None), returned = (\<lambda>_. None)\<rparr>"

inductive cq_step :: "nat \<Rightarrow> ('a, nat) cq \<Rightarrow> ('a, nat) cq \<Rightarrow> bool" for cap where
  call_enq: "pcs s t = Idle \<Longrightarrow> cq_step cap s (goto t (E_load v) s)"
| e_load: "pcs s t = E_load v \<Longrightarrow> cq_step cap s (goto t (E_seq v (enq_pos s)) s)"
| e_seq: "pcs s t = E_seq v p \<Longrightarrow> cq_step cap s (goto t (E_cas v p (seqs s (p mod cap))) s)"
| e_cas_ok: "pcs s t = E_cas v p q \<Longrightarrow> q = p \<Longrightarrow> enq_pos s = p \<Longrightarrow>
    cq_step cap s (goto t (E_ctor v p) (s\<lparr>enq_pos := Suc p, claims := Suc (claims s), claimed := (claimed s)(p \<mapsto> v)\<rparr>))"
| e_cas_fail: "pcs s t = E_cas v p q \<Longrightarrow> q = p \<Longrightarrow> cq_step cap s (goto t (E_seq v (enq_pos s)) s)"
| e_full: "pcs s t = E_cas v p q \<Longrightarrow> q < p \<Longrightarrow> cq_step cap s (goto t Idle s)"
| e_retry: "pcs s t = E_cas v p q \<Longrightarrow> p < q \<Longrightarrow> cq_step cap s (goto t (E_seq v (enq_pos s)) s)"
| e_ctor: "pcs s t = E_ctor v p \<Longrightarrow>
    cq_step cap s (goto t (E_publish v p) (s\<lparr>cell := (cell s)(p mod cap \<mapsto> v)\<rparr>))"
| e_publish: "pcs s t = E_publish v p \<Longrightarrow>
    cq_step cap s (goto t Idle (s\<lparr>seqs := (seqs s)(p mod cap := Suc p)\<rparr>))"
| call_deq: "pcs s t = Idle \<Longrightarrow> cq_step cap s (goto t D_load s)"
| d_load: "pcs s t = D_load \<Longrightarrow> cq_step cap s (goto t (D_seq (deq_pos s)) s)"
| d_seq: "pcs s t = D_seq p \<Longrightarrow> cq_step cap s (goto t (D_cas p (seqs s (p mod cap))) s)"
| d_cas_ok: "pcs s t = D_cas p q \<Longrightarrow> q = Suc p \<Longrightarrow> deq_pos s = p \<Longrightarrow>
    cq_step cap s (goto t (D_move p) (s\<lparr>deq_pos := Suc p\<rparr>))"
| d_cas_fail: "pcs s t = D_cas p q \<Longrightarrow> q = Suc p \<Longrightarrow> cq_step cap s (goto t (D_seq (deq_pos s)) s)"
| d_empty: "pcs s t = D_cas p q \<Longrightarrow> q < Suc p \<Longrightarrow> cq_step cap s (goto t Idle s)"
| d_retry: "pcs s t = D_cas p q \<Longrightarrow> Suc p < q \<Longrightarrow> cq_step cap s (goto t (D_seq (deq_pos s)) s)"
| d_move: "pcs s t = D_move p \<Longrightarrow> cell s (p mod cap) = Some v \<Longrightarrow>
    cq_step cap s (goto t (D_release p v) (s\<lparr>cell := (cell s)(p mod cap := None)\<rparr>))"
| d_release: "pcs s t = D_release p v \<Longrightarrow>
    cq_step cap s (goto t Idle (s\<lparr>seqs := (seqs s)(p mod cap := p + cap), returned := (returned s)(p \<mapsto> v)\<rparr>))"

section \<open>Invariant\<close>

fun eclaim :: "('a, 'p) pc \<Rightarrow> 'p option" where
  "eclaim (E_ctor v p) = Some p"
| "eclaim (E_publish v p) = Some p"
| "eclaim _ = None"

fun dclaim :: "('a, 'p) pc \<Rightarrow> 'p option" where
  "dclaim (D_move p) = Some p"
| "dclaim (D_release p v) = Some p"
| "dclaim _ = None"

text \<open>What a thread may rely on at each program point.\<close>

fun thr_ok :: "nat \<Rightarrow> ('a, nat) cq \<Rightarrow> ('a, nat) pc \<Rightarrow> bool" where
  "thr_ok cap s (E_cas v p q) \<longleftrightarrow> q = p \<longrightarrow> seqs s (p mod cap) = p \<or> p < enq_pos s"
| "thr_ok cap s (E_ctor v p) \<longleftrightarrow> p < enq_pos s \<and> seqs s (p mod cap) = p \<and> claimed s p = Some v \<and> cell s (p mod cap) = None"
| "thr_ok cap s (E_publish v p) \<longleftrightarrow> p < enq_pos s \<and> seqs s (p mod cap) = p \<and> claimed s p = Some v \<and> cell s (p mod cap) = Some v"
| "thr_ok cap s (D_cas p q) \<longleftrightarrow> q = Suc p \<longrightarrow> seqs s (p mod cap) = Suc p \<or> p < deq_pos s"
| "thr_ok cap s (D_move p) \<longleftrightarrow> p < deq_pos s \<and> seqs s (p mod cap) = Suc p \<and> claimed s p \<noteq> None \<and> cell s (p mod cap) = claimed s p
     \<and> returned s p = None"
| "thr_ok cap s (D_release p v) \<longleftrightarrow> p < deq_pos s \<and> seqs s (p mod cap) = Suc p \<and> claimed s p = Some v \<and> cell s (p mod cap) = None
     \<and> returned s p = None"
| "thr_ok cap s _ \<longleftrightarrow> True"

text \<open>
  A cell \<open>j\<close> is full for a position \<open>q\<close> (sequence number \<open>q + 1\<close>) or free for a position \<open>p\<close>
  (sequence number \<open>p\<close>), with \<open>q\<close> and \<open>p\<close> congruent to \<open>j\<close>.
\<close>

definition cq_cells_ok :: "nat \<Rightarrow> ('a, nat) cq \<Rightarrow> bool" where
  "cq_cells_ok cap s \<longleftrightarrow>
     (\<forall>q. seqs s (q mod cap) = Suc q \<longrightarrow>
        q < enq_pos s \<and> (deq_pos s \<le> q \<longrightarrow> claimed s q \<noteq> None \<and> cell s (q mod cap) = claimed s q))
     \<and> (\<forall>p. seqs s (p mod cap) = p \<longrightarrow> p < deq_pos s + cap \<and> (enq_pos s \<le> p \<longrightarrow> cell s (p mod cap) = None))"

definition eclaims :: "('a, nat) cq \<Rightarrow> nat set" where
  "eclaims s = {p. \<exists>t. eclaim (pcs s t) = Some p}"

definition dclaims :: "('a, nat) cq \<Rightarrow> nat set" where
  "dclaims s = {p. \<exists>t. dclaim (pcs s t) = Some p}"

definition claims_ok :: "nat \<Rightarrow> ('a, nat) cq \<Rightarrow> bool" where
  "claims_ok cap s \<longleftrightarrow>
     deq_pos s \<le> enq_pos s \<and> enq_pos s \<le> deq_pos s + cap
     \<and> (\<forall>p. claimed s p \<noteq> None \<longleftrightarrow> p < enq_pos s)
     \<and> (\<forall>p v. returned s p = Some v \<longrightarrow> p < deq_pos s \<and> claimed s p = Some v)
     \<and> (\<forall>p<deq_pos s. returned s p \<noteq> None \<or> p \<in> dclaims s)
     \<and> (\<forall>p. deq_pos s \<le> p \<and> p < enq_pos s \<longrightarrow> p \<in> eclaims s \<or> seqs s (p mod cap) = Suc p)"

definition uniq_ok :: "('a, nat) cq \<Rightarrow> bool" where
  "uniq_ok s \<longleftrightarrow> (\<forall>t t' p. t \<noteq> t' \<longrightarrow>
     \<not> (eclaim (pcs s t) = Some p \<and> eclaim (pcs s t') = Some p)
     \<and> \<not> (dclaim (pcs s t) = Some p \<and> dclaim (pcs s t') = Some p))"

definition cq_inv :: "nat \<Rightarrow> ('a, nat) cq \<Rightarrow> bool" where
  "cq_inv cap s \<longleftrightarrow> 2 \<le> cap \<and> (\<forall>t. thr_ok cap s (pcs s t)) \<and> cq_cells_ok cap s \<and> claims_ok cap s \<and> uniq_ok s"

lemma mod_Suc_neq:
  assumes "2 \<le> cap"
  shows "Suc q mod cap \<noteq> q mod cap"
  using assms by (auto simp: mod_Suc)

lemma goto_simps [simp]:
  "enq_pos (goto t l s) = enq_pos s" "deq_pos (goto t l s) = deq_pos s" "seqs (goto t l s) = seqs s"
  "cell (goto t l s) = cell s" "claimed (goto t l s) = claimed s" "returned (goto t l s) = returned s"
  "pcs (goto t l s) = (pcs s)(t := l)" "claims (goto t l s) = claims s"
  by (simp_all add: goto_def)

lemma thr_ok_cong:
  assumes "enq_pos s' = enq_pos s" "deq_pos s' = deq_pos s" "seqs s' = seqs s" "cell s' = cell s"
    "claimed s' = claimed s" "returned s' = returned s"
  shows "thr_ok cap s' l = thr_ok cap s l"
  using assms by (cases l) auto

lemma thr_ok_goto [simp]: "thr_ok cap (goto t l s) = thr_ok cap s"
  by (rule ext) (simp add: thr_ok_cong [of "goto t l s" s])

text \<open>A step that only moves a thread between unclaimed program points.\<close>

lemma inv_goto:
  assumes "cq_inv cap s" "eclaim l = None" "dclaim l = None" "eclaim (pcs s t) = None" "dclaim (pcs s t) = None"
    "thr_ok cap s l"
  shows "cq_inv cap (goto t l s)"
proof -
  have e: "eclaim (((pcs s)(t := l)) t') = eclaim (pcs s t')" "dclaim (((pcs s)(t := l)) t') = dclaim (pcs s t')" for t'
    using assms(2-5) by auto
  show ?thesis
    using assms(1,6) unfolding cq_inv_def cq_cells_ok_def claims_ok_def uniq_ok_def eclaims_def dclaims_def
      goto_simps thr_ok_goto e
    by auto
qed

lemma cq_invD:
  assumes "cq_inv cap s"
  shows "2 \<le> cap" "thr_ok cap s (pcs s t)" "cq_cells_ok cap s" "claims_ok cap s" "uniq_ok s"
  using assms by (auto simp: cq_inv_def)

lemma cq_cells_okD:
  assumes "cq_cells_ok cap s"
  shows "seqs s (q mod cap) = Suc q \<Longrightarrow> q < enq_pos s"
    "seqs s (q mod cap) = Suc q \<Longrightarrow> deq_pos s \<le> q \<Longrightarrow> claimed s q \<noteq> None \<and> cell s (q mod cap) = claimed s q"
    "seqs s (p mod cap) = p \<Longrightarrow> p < deq_pos s + cap"
    "seqs s (p mod cap) = p \<Longrightarrow> enq_pos s \<le> p \<Longrightarrow> cell s (p mod cap) = None"
  using assms by (auto simp: cq_cells_ok_def)

lemma claims_okD:
  assumes "claims_ok cap s"
  shows "deq_pos s \<le> enq_pos s" "enq_pos s \<le> deq_pos s + cap" "claimed s p \<noteq> None \<longleftrightarrow> p < enq_pos s"
    "returned s p = Some v \<Longrightarrow> p < deq_pos s \<and> claimed s p = Some v"
    "p < deq_pos s \<Longrightarrow> returned s p \<noteq> None \<or> p \<in> dclaims s"
    "deq_pos s \<le> p \<Longrightarrow> p < enq_pos s \<Longrightarrow> p \<in> eclaims s \<or> seqs s (p mod cap) = Suc p"
  using assms unfolding claims_ok_def by blast+

lemma claims_okI:
  assumes "deq_pos s \<le> enq_pos s" "enq_pos s \<le> deq_pos s + cap" "\<And>p. claimed s p \<noteq> None \<longleftrightarrow> p < enq_pos s"
    "\<And>p v. returned s p = Some v \<Longrightarrow> p < deq_pos s \<and> claimed s p = Some v"
    "\<And>p. p < deq_pos s \<Longrightarrow> returned s p = None \<Longrightarrow> p \<in> dclaims s"
    "\<And>p. deq_pos s \<le> p \<Longrightarrow> p < enq_pos s \<Longrightarrow> seqs s (p mod cap) \<noteq> Suc p \<Longrightarrow> p \<in> eclaims s"
  shows "claims_ok cap s"
  using assms unfolding claims_ok_def by blast

lemma claims_goto:
  assumes "pcs s' = pcs s"
  shows "p \<in> eclaims s \<Longrightarrow> eclaim (pcs s t) \<noteq> Some p \<Longrightarrow> p \<in> eclaims (goto t l s')"
    "p \<in> dclaims s \<Longrightarrow> dclaim (pcs s t) \<noteq> Some p \<Longrightarrow> p \<in> dclaims (goto t l s')"
    "eclaim l = Some p \<Longrightarrow> p \<in> eclaims (goto t l s')"
    "dclaim l = Some p \<Longrightarrow> p \<in> dclaims (goto t l s')"
  using assms unfolding eclaims_def dclaims_def by (auto simp: fun_upd_apply)

text \<open>A claimed position is below its counter.\<close>

lemma eclaim_less: "cq_inv cap s \<Longrightarrow> eclaim (pcs s t) = Some p \<Longrightarrow> p < enq_pos s \<and> seqs s (p mod cap) = p"
  using cq_invD(2) [of cap s t] by (cases "pcs s t") auto

lemma dclaim_less: "cq_inv cap s \<Longrightarrow> dclaim (pcs s t) = Some p \<Longrightarrow> p < deq_pos s \<and> seqs s (p mod cap) = Suc p"
  using cq_invD(2) [of cap s t] by (cases "pcs s t") auto

text \<open>
  Two threads own the same cell only if they are the same thread: a producer owns it at sequence
  number \<open>p\<close>, a consumer at \<open>p + 1\<close>.
\<close>

lemma claim_cell:
  assumes "cq_inv cap s" "t' \<noteq> t" "eclaim (pcs s t) = Some p \<or> dclaim (pcs s t) = Some p"
    "eclaim (pcs s t') = Some p' \<or> dclaim (pcs s t') = Some p'"
  shows "p' mod cap \<noteq> p mod cap"
proof
  assume eq: "p' mod cap = p mod cap"
  have u: "\<not> (eclaim (pcs s t) = Some p \<and> eclaim (pcs s t') = Some p)"
    "\<not> (dclaim (pcs s t) = Some p \<and> dclaim (pcs s t') = Some p)"
    using cq_invD(5) [OF assms(1)] assms(2) unfolding uniq_ok_def by blast+
  have ne: "Suc p mod cap \<noteq> p mod cap" "Suc p' mod cap \<noteq> p' mod cap"
    using mod_Suc_neq [OF cq_invD(1) [OF assms(1)]] by auto
  note l = eclaim_less [OF assms(1)] dclaim_less [OF assms(1)]
  from assms(3,4) show False
  proof (elim disjE)
    assume c: "eclaim (pcs s t) = Some p" "eclaim (pcs s t') = Some p'"
    then have "p' = p" using l(1) [OF c(1)] l(1) [OF c(2)] eq by simp
    then show False using u c by blast
  next
    assume c: "dclaim (pcs s t) = Some p" "dclaim (pcs s t') = Some p'"
    then have "p' = p" using l(2) [OF c(1)] l(2) [OF c(2)] eq by simp
    then show False using u c by blast
  next
    assume c: "eclaim (pcs s t) = Some p" "dclaim (pcs s t') = Some p'"
    then have "p = Suc p'" using l(1) [OF c(1)] l(2) [OF c(2)] eq by simp
    then show False using ne eq by simp
  next
    assume c: "dclaim (pcs s t) = Some p" "eclaim (pcs s t') = Some p'"
    then have "p' = Suc p" using l(2) [OF c(1)] l(1) [OF c(2)] eq by simp
    then show False using ne eq by simp
  qed
qed

text \<open>Threads other than the one that moves keep what they rely on.\<close>

lemma inv_cas_enq:
  assumes i: "cq_inv cap s" and pc: "pcs s t = E_cas v p p" and e: "enq_pos s = p"
  shows "cq_inv cap (goto t (E_ctor v p) (s\<lparr>enq_pos := Suc p, claims := Suc (claims s), claimed := (claimed s)(p \<mapsto> v)\<rparr>))" (is "cq_inv cap (goto t ?l ?s)")
proof -
  note c = cq_invD [OF i] and k = cq_cells_okD [OF cq_invD(3) [OF i]]
  have seq: "seqs s (p mod cap) = p" using c(2) [of t] pc e by simp
  have others: "thr_ok cap ?s (pcs s t')" for t'
    using c(2) [of t'] e k(1) eclaim_less [OF i, of t'] dclaim_less [OF i, of t'] by (cases "pcs s t'") auto
  have own: "thr_ok cap ?s ?l" using seq k(4) [OF seq] e by simp
  have "cq_cells_ok cap (goto t ?l ?s)" unfolding cq_cells_ok_def
    using k e by (auto dest: less_SucI)
  moreover have "claims_ok cap (goto t ?l ?s)"
  proof (rule claims_okI)
    note d = claims_okD [OF c(4)] and g = claims_goto [where s' = ?s and s = s and t = t and l = ?l, simplified]
    show "deq_pos (goto t ?l ?s) \<le> enq_pos (goto t ?l ?s)" "enq_pos (goto t ?l ?s) \<le> deq_pos (goto t ?l ?s) + cap"
      using d(1) e k(3) [OF seq] by simp_all
    show "claimed (goto t ?l ?s) q \<noteq> None \<longleftrightarrow> q < enq_pos (goto t ?l ?s)" for q
      using d(3) [of q] e by auto
    show "q < deq_pos (goto t ?l ?s) \<and> claimed (goto t ?l ?s) q = Some w" if "returned (goto t ?l ?s) q = Some w" for q w
      using d(1) d(4) [of q w] that e by auto
    show "q \<in> dclaims (goto t ?l ?s)" if "q < deq_pos (goto t ?l ?s)" "returned (goto t ?l ?s) q = None" for q
      using d(5) [of q] that g(2) [of q] pc by auto
    show "q \<in> eclaims (goto t ?l ?s)"
      if "deq_pos (goto t ?l ?s) \<le> q" "q < enq_pos (goto t ?l ?s)" "seqs (goto t ?l ?s) (q mod cap) \<noteq> Suc q" for q
      using d(6) [of q] that g(1,3) [of q] pc e by (auto simp: less_Suc_eq)
  qed
  moreover have "uniq_ok (goto t ?l ?s)"
    using c(5) e eclaim_less [OF i] unfolding uniq_ok_def by auto
  ultimately show ?thesis using c(1) others own by (auto simp: cq_inv_def)
qed

lemma inv_cas_deq:
  assumes i: "cq_inv cap s" and pc: "pcs s t = D_cas p (Suc p)" and e: "deq_pos s = p"
  shows "cq_inv cap (goto t (D_move p) (s\<lparr>deq_pos := Suc p\<rparr>))" (is "cq_inv cap (goto t ?l ?s)")
proof -
  note c = cq_invD [OF i] and k = cq_cells_okD [OF cq_invD(3) [OF i]] and d = claims_okD [OF cq_invD(4) [OF i]]
  have seq: "seqs s (p mod cap) = Suc p" using c(2) [of t] pc e by simp
  have others: "thr_ok cap ?s (pcs s t')" for t'
    using c(2) [of t'] e by (cases "pcs s t'") auto
  have "returned s p = None" using d(4) [of p] e by (cases "returned s p") auto
  then have own: "thr_ok cap ?s ?l" using seq k(2) [OF seq] e by simp
  have "cq_cells_ok cap (goto t ?l ?s)" unfolding cq_cells_ok_def
    using k e by (auto dest: less_SucI)
  moreover have "claims_ok cap (goto t ?l ?s)"
  proof (rule claims_okI)
    note g = claims_goto [where s' = ?s and s = s and t = t and l = ?l, simplified]
    show "deq_pos (goto t ?l ?s) \<le> enq_pos (goto t ?l ?s)" "enq_pos (goto t ?l ?s) \<le> deq_pos (goto t ?l ?s) + cap"
      using d(2) e k(1) [OF seq] by simp_all
    show "claimed (goto t ?l ?s) q \<noteq> None \<longleftrightarrow> q < enq_pos (goto t ?l ?s)" for q
      using d(3) [of q] by auto
    show "q < deq_pos (goto t ?l ?s) \<and> claimed (goto t ?l ?s) q = Some w" if "returned (goto t ?l ?s) q = Some w" for q w
      using d(4) [of q w] that e by auto
    show "q \<in> dclaims (goto t ?l ?s)" if "q < deq_pos (goto t ?l ?s)" "returned (goto t ?l ?s) q = None" for q
      using d(5) [of q] that g(2,4) [of q] pc e by (auto simp: less_Suc_eq)
    show "q \<in> eclaims (goto t ?l ?s)"
      if "deq_pos (goto t ?l ?s) \<le> q" "q < enq_pos (goto t ?l ?s)" "seqs (goto t ?l ?s) (q mod cap) \<noteq> Suc q" for q
      using d(6) [of q] that g(1) [of q] pc e by auto
  qed
  moreover have "uniq_ok (goto t ?l ?s)"
    using c(5) e dclaim_less [OF i] unfolding uniq_ok_def by auto
  ultimately show ?thesis using c(1) others own by (auto simp: cq_inv_def)
qed

text \<open>The other threads, when the cell of an owner changes.\<close>

lemma thr_ok_own_cell:
  assumes i: "cq_inv cap s" and t: "t' \<noteq> t" and cl: "eclaim (pcs s t) = Some p \<or> dclaim (pcs s t) = Some p"
    and same: "enq_pos s' = enq_pos s" "deq_pos s' = deq_pos s" "claimed s' = claimed s"
    and ret: "\<And>q. q \<noteq> p \<Longrightarrow> returned s' q = returned s q"
    and cell: "\<And>j. j \<noteq> p mod cap \<Longrightarrow> cell s' j = cell s j" "\<And>j. j \<noteq> p mod cap \<Longrightarrow> seqs s' j = seqs s j"
  shows "thr_ok cap s' (pcs s t')"
proof -
  have l: "p < enq_pos s" "dclaim (pcs s t) = Some p \<Longrightarrow> p < deq_pos s"
    "eclaim (pcs s t) = Some p \<and> seqs s (p mod cap) = p \<or> dclaim (pcs s t) = Some p \<and> seqs s (p mod cap) = Suc p"
    using cl eclaim_less [OF i, of t p] dclaim_less [OF i, of t p] claims_okD(1) [OF cq_invD(4) [OF i]] by auto
  have n: "p mod cap \<noteq> Suc p mod cap" "Suc p mod cap \<noteq> p mod cap" for p
    using mod_Suc_neq [OF cq_invD(1) [OF i], of p] by simp_all
  have o: "thr_ok cap s (pcs s t')" using cq_invD(2) [OF i] .
  have ret': "returned s' q = returned s q" if "q mod cap \<noteq> p mod cap" for q using ret [of q] that by auto
  show ?thesis
  proof (cases "pcs s t'")
    case (E_cas v q r)
    have "q < enq_pos s" if "q mod cap = p mod cap" "seqs s (q mod cap) = q"
      using l that n by auto
    then show ?thesis using o E_cas same cell by (cases "q mod cap = p mod cap") auto
  next
    case (D_cas q r)
    have "q < deq_pos s" if "q mod cap = p mod cap" "seqs s (q mod cap) = Suc q"
      using l that n by auto
    then show ?thesis using o D_cas same cell by (cases "q mod cap = p mod cap") auto
  qed (use o same cell ret' claim_cell [OF i t cl] in auto)
qed

lemma uniq_goto:
  assumes "uniq_ok s" "eclaim l = eclaim (pcs s t) \<or> eclaim l = None" "dclaim l = dclaim (pcs s t) \<or> dclaim l = None"
    "pcs s' = pcs s"
  shows "uniq_ok (goto t l s')"
proof -
  have "eclaim (((pcs s)(t := l)) u) = Some p \<Longrightarrow> eclaim (pcs s u) = Some p"
    "dclaim (((pcs s)(t := l)) u) = Some p \<Longrightarrow> dclaim (pcs s u) = Some p" for u p
    using assms(2,3) by (auto split: if_splits)
  then show ?thesis using assms(1,4) unfolding uniq_ok_def by (metis goto_simps(7))
qed

text \<open>
  The steps of an owner: the position counters and the claimed values stay, the owner's cell may
  change in any way that leaves it well formed.
\<close>

lemma inv_own:
  assumes i: "cq_inv cap s" and cl: "eclaim (pcs s t) = Some p \<or> dclaim (pcs s t) = Some p"
    and same: "enq_pos s' = enq_pos s" "deq_pos s' = deq_pos s" "claimed s' = claimed s" "pcs s' = pcs s"
    and ret: "\<And>q. q \<noteq> p \<Longrightarrow> returned s' q = returned s q"
    and cell: "\<And>j. j \<noteq> p mod cap \<Longrightarrow> cell s' j = cell s j" "\<And>j. j \<noteq> p mod cap \<Longrightarrow> seqs s' j = seqs s j"
    and own: "thr_ok cap s' l" "eclaim l = eclaim (pcs s t) \<or> eclaim l = None"
      "dclaim l = dclaim (pcs s t) \<or> dclaim l = None"
    and full: "\<And>q. seqs s' (q mod cap) = Suc q \<Longrightarrow> q mod cap = p mod cap \<Longrightarrow>
      q < enq_pos s \<and> (deq_pos s \<le> q \<longrightarrow> cell s' (q mod cap) = claimed s q)"
    and free: "\<And>q. seqs s' (q mod cap) = q \<Longrightarrow> q mod cap = p mod cap \<Longrightarrow>
      q < deq_pos s + cap \<and> (enq_pos s \<le> q \<longrightarrow> cell s' (q mod cap) = None)"
    and rets: "\<And>w. returned s' p = Some w \<Longrightarrow> p < deq_pos s \<and> claimed s p = Some w"
    and dcl: "dclaim (pcs s t) = Some p \<Longrightarrow> returned s' p \<noteq> None \<or> dclaim l = Some p"
    and ecl: "eclaim (pcs s t) = Some p \<Longrightarrow> seqs s' (p mod cap) = Suc p \<or> eclaim l = Some p"
    and keep: "\<And>q. returned s q \<noteq> None \<Longrightarrow> returned s' q \<noteq> None"
  shows "cq_inv cap (goto t l s')"
proof -
  note c = cq_invD [OF i] and k = cq_cells_okD [OF cq_invD(3) [OF i]] and d = claims_okD [OF cq_invD(4) [OF i]]
  note g = claims_goto [where s' = s' and s = s and t = t and l = l, OF same(4)]
  have p: "p < enq_pos s" using cl eclaim_less [OF i] dclaim_less [OF i] d(1) by fastforce
  have cells: "cq_cells_ok cap (goto t l s')" unfolding cq_cells_ok_def
  proof (intro conjI allI impI)
    fix q assume q: "seqs (goto t l s') (q mod cap) = Suc q"
    show lt: "q < enq_pos (goto t l s')"
      using full [of q] k(1) [of q] cell same q by (cases "q mod cap = p mod cap") auto
    assume dq: "deq_pos (goto t l s') \<le> q"
    show "claimed (goto t l s') q \<noteq> None" using lt d(3) [of q] same by simp
    show "cell (goto t l s') (q mod cap) = claimed (goto t l s') q"
      using full [of q] k(2) [of q] cell same q dq by (cases "q mod cap = p mod cap") auto
  next
    fix q assume q: "seqs (goto t l s') (q mod cap) = q"
    show "q < deq_pos (goto t l s') + cap"
      using free [of q] k(3) [of q] cell same q by (cases "q mod cap = p mod cap") auto
    assume "enq_pos (goto t l s') \<le> q"
    then show "cell (goto t l s') (q mod cap) = None"
      using free [of q] k(4) [of q] cell same q by (cases "q mod cap = p mod cap") auto
  qed
  have claims: "claims_ok cap (goto t l s')"
  proof (rule claims_okI)
    show "deq_pos (goto t l s') \<le> enq_pos (goto t l s')" "enq_pos (goto t l s') \<le> deq_pos (goto t l s') + cap"
      using d(1,2) same by simp_all
    show "claimed (goto t l s') q \<noteq> None \<longleftrightarrow> q < enq_pos (goto t l s')" for q
      using d(3) [of q] same by simp
    show "q < deq_pos (goto t l s') \<and> claimed (goto t l s') q = Some w" if "returned (goto t l s') q = Some w" for q w
      using d(4) [of q w] rets [of w] ret [of q] same that by (cases "q = p") auto
    show "q \<in> dclaims (goto t l s')" if "q < deq_pos (goto t l s')" "returned (goto t l s') q = None" for q
    proof (cases "dclaim (pcs s t) = Some q")
      case True
      then have "q = p" using cl eclaim.simps by (cases "pcs s t") auto
      then show ?thesis using True dcl that g(4) [of q] by auto
    next
      case False
      have "returned s q = None" using keep [of q] that(2) by (metis goto_simps(6))
      then show ?thesis using d(5) [of q] that same g(2) [of q] False by auto
    qed
    show "q \<in> eclaims (goto t l s')"
      if q: "deq_pos (goto t l s') \<le> q" "q < enq_pos (goto t l s')" "seqs (goto t l s') (q mod cap) \<noteq> Suc q" for q
    proof (cases "eclaim (pcs s t) = Some q")
      case True
      then have "q = p" using cl by (cases "pcs s t") auto
      then show ?thesis using True ecl q g(3) [of q] by auto
    next
      case False
      have "q mod cap \<noteq> p mod cap \<or> q \<notin> eclaims s"
        using claim_cell [OF i _ cl] False unfolding eclaims_def mem_Collect_eq by metis
      moreover have "seqs s (q mod cap) \<noteq> Suc q" if "q mod cap = p mod cap"
      proof
        assume a: "seqs s (q mod cap) = Suc q"
        have "q \<noteq> p" using a cl eclaim_less [OF i, of t p] dclaim_less [OF i, of t p] q same by auto
        then have "p = Suc q" using a that cl eclaim_less [OF i, of t p] dclaim_less [OF i, of t p] by auto
        then show False using mod_Suc_neq [OF c(1), of q] that by simp
      qed
      ultimately show ?thesis using d(6) [of q] g(1) [of q] False q same cell by (cases "q mod cap = p mod cap") auto
    qed
  qed
  have "thr_ok cap s' (pcs s t')" if "t' \<noteq> t" for t'
    using thr_ok_own_cell [OF i that cl] same ret cell by simp
  then show ?thesis using c(1) own(1) cells claims uniq_goto [OF c(5) own(2,3) same(4)] same(4)
    by (auto simp: cq_inv_def)
qed

lemma inv_ctor:
  assumes i: "cq_inv cap s" and pc: "pcs s t = E_ctor v p"
  shows "cq_inv cap (goto t (E_publish v p) (s\<lparr>cell := (cell s)(p mod cap \<mapsto> v)\<rparr>))"
proof -
  note o = cq_invD(2) [OF i, of t, unfolded pc, simplified]
  have full: False if "seqs s (q mod cap) = Suc q" "q mod cap = p mod cap" for q
  proof -
    have "p = Suc q" using that o by metis
    then show False using mod_Suc_neq [OF cq_invD(1) [OF i], of q] that(2) by metis
  qed
  have free: "q = p" "p < deq_pos s + cap" if "seqs s (q mod cap) = q" "q mod cap = p mod cap" for q
    using that o cq_cells_okD(3) [OF cq_invD(3) [OF i], of p] by auto
  show ?thesis
    by (rule inv_own [OF i, of t p])
      (use pc o full free claims_okD(4) [OF cq_invD(4) [OF i], of p] in \<open>force+\<close>)
qed

lemma inv_publish:
  assumes i: "cq_inv cap s" and pc: "pcs s t = E_publish v p"
  shows "cq_inv cap (goto t Idle (s\<lparr>seqs := (seqs s)(p mod cap := Suc p)\<rparr>))"
proof -
  note o = cq_invD(2) [OF i, of t, unfolded pc, simplified]
  have n: "q mod cap \<noteq> p mod cap" if "q = Suc p" for q
    using mod_Suc_neq [OF cq_invD(1) [OF i], of p] that by simp
  show ?thesis
    by (rule inv_own [OF i, of t p])
      (use pc o n claims_okD(4) [OF cq_invD(4) [OF i], of p] in auto)
qed

lemma inv_move:
  assumes i: "cq_inv cap s" and pc: "pcs s t = D_move p" and v: "cell s (p mod cap) = Some v"
  shows "cq_inv cap (goto t (D_release p v) (s\<lparr>cell := (cell s)(p mod cap := None)\<rparr>))"
proof -
  note o = cq_invD(2) [OF i, of t, unfolded pc, simplified]
  show ?thesis
    by (rule inv_own [OF i, of t p])
      (use pc o v cq_cells_okD [OF cq_invD(3) [OF i]] claims_okD(1) [OF cq_invD(4) [OF i]]
        mod_Suc_neq [OF cq_invD(1) [OF i]] in auto)
qed

lemma inv_release:
  assumes i: "cq_inv cap s" and pc: "pcs s t = D_release p v"
  shows "cq_inv cap (goto t Idle (s\<lparr>seqs := (seqs s)(p mod cap := p + cap), returned := (returned s)(p \<mapsto> v)\<rparr>))"
proof -
  note o = cq_invD(2) [OF i, of t, unfolded pc, simplified]
  have n: "q mod cap \<noteq> p mod cap" if "p + cap = Suc q" for q
  proof
    assume "q mod cap = p mod cap"
    then have "q mod cap = Suc q mod cap" using that by (metis mod_add_self2)
    then show False using mod_Suc_neq [OF cq_invD(1) [OF i], of q] by simp
  qed
  show ?thesis
    by (rule inv_own [OF i, of t p]) (use pc o n in auto)
qed

lemma cq_init_inv:
  assumes "2 \<le> cap" "cq_init cap s"
  shows "cq_inv cap s"
proof -
  have "0 < cap" using assms(1) by simp
  moreover have "q mod cap \<noteq> Suc q" for q by (metis Suc_n_not_le_n mod_less_eq_dividend)
  moreover have "q < cap" if "q mod cap = q" for q
    using assms(1) that by (metis mod_less_divisor not_gr_zero not_numeral_le_zero)
  ultimately show ?thesis using assms
    by (simp add: cq_init_def cq_inv_def cq_cells_ok_def claims_ok_def uniq_ok_def)
qed

lemma cq_step_inv: "cq_inv cap s \<Longrightarrow> cq_step cap s s' \<Longrightarrow> cq_inv cap s'"
  by (erule cq_step.cases)
    (auto intro: inv_goto inv_cas_enq inv_cas_deq inv_ctor inv_publish inv_move inv_release)

text \<open>The queue as a transition system: \<open>cq_inv\<close> is one of its invariants.\<close>

interpretation cqs: inv_system "\<lambda>s. 2 \<le> cap \<and> cq_init cap s" "cq_step cap" "cq_inv cap" for cap
  by unfold_locales (auto intro: cq_init_inv cq_step_inv)

section \<open>The words refine the natural numbers\<close>

text \<open>Bounds on every number of the state, in terms of the producers' counter.\<close>

fun pc_le :: "nat \<Rightarrow> nat \<Rightarrow> ('a, nat) pc \<Rightarrow> bool" where
  "pc_le n m (E_seq v p) \<longleftrightarrow> p \<le> n"
| "pc_le n m (E_cas v p q) \<longleftrightarrow> p \<le> n \<and> q \<le> m"
| "pc_le n m (E_ctor v p) \<longleftrightarrow> p < n"
| "pc_le n m (E_publish v p) \<longleftrightarrow> p < n"
| "pc_le n m (D_seq p) \<longleftrightarrow> p \<le> n"
| "pc_le n m (D_cas p q) \<longleftrightarrow> p \<le> n \<and> q \<le> m"
| "pc_le n m (D_move p) \<longleftrightarrow> p < n"
| "pc_le n m (D_release p v) \<longleftrightarrow> p < n"
| "pc_le n m _ \<longleftrightarrow> True"

definition cq_bound :: "nat \<Rightarrow> ('a, nat) cq \<Rightarrow> bool" where
  "cq_bound cap s \<longleftrightarrow> claims s = enq_pos s \<and> (\<forall>i. seqs s i \<le> enq_pos s + cap) \<and> (\<forall>t. pc_le (enq_pos s) (enq_pos s + cap) (pcs s t))"

lemma pc_le_mono: "pc_le n m l \<Longrightarrow> n \<le> n' \<Longrightarrow> m \<le> m' \<Longrightarrow> pc_le n' m' l"
  by (cases l) auto

lemma cq_bound_init: "2 \<le> cap \<Longrightarrow> cq_init cap s \<Longrightarrow> cq_bound cap s"
  by (simp add: cq_init_def cq_bound_def)

lemma cq_bound_step:
  assumes i: "cq_inv cap s" and b: "cq_bound cap s" and st: "cq_step cap s s'"
  shows "cq_bound cap s'"
proof -
  have d: "deq_pos s \<le> enq_pos s" using claims_okD(1) [OF cq_invD(4) [OF i]] .
  have q: "seqs s j \<le> enq_pos s + cap" "pc_le (enq_pos s) (enq_pos s + cap) (pcs s t)" "claims s = enq_pos s" for j t
    using b by (auto simp: cq_bound_def)
  have up: "pc_le (Suc (enq_pos s)) (Suc (enq_pos s + cap)) (pcs s t)" for t using pc_le_mono [OF q(2)] by simp
  have c: "2 \<le> cap" using cq_invD(1) [OF i] .
  have own: "dclaim (pcs s t) = Some p \<Longrightarrow> p < deq_pos s" for t p using dclaim_less [OF i] by blast
  from st show ?thesis
  proof cases
    case (e_publish t v p)
    then show ?thesis using q q(2) [of t] c by (auto simp: cq_bound_def)
  next
    case (d_release t p v)
    then show ?thesis using q own [of t p] d by (auto simp: cq_bound_def)
  next
    case (e_cas_ok t v p q)
    then show ?thesis using q(1,3) up le_SucI [OF q(1)] by (auto simp: cq_bound_def)
  next
    case (e_retry t v p q')
    then show ?thesis using q by (auto simp: cq_bound_def)
  next
    case (d_cas_ok t p q')
    then show ?thesis using q own [of t p] d cq_cells_okD(1) [OF cq_invD(3) [OF i], of p] cq_invD(2) [OF i, of t] by (auto simp: cq_bound_def)
  next
    case (e_seq t v p)
    then show ?thesis using q q(2) [of t] by (auto simp: cq_bound_def)
  next
    case (e_ctor t v p)
    then show ?thesis using q q(2) [of t] by (auto simp: cq_bound_def)
  next
    case (d_seq t p)
    then show ?thesis using q q(2) [of t] by (auto simp: cq_bound_def)
  next
    case (d_move t p v)
    then show ?thesis using q q(2) [of t] by (auto simp: cq_bound_def)
  qed (use q d in \<open>auto simp: cq_bound_def\<close>)
qed

definition mq_abs :: "('a, u64) cq \<Rightarrow> ('a, nat) cq" where
  "mq_abs s = \<lparr>enq_pos = unat (enq_pos s), deq_pos = unat (deq_pos s), seqs = (\<lambda>i. unat (seqs s i)), cell = cell s,
     pcs = (\<lambda>t. map_pc id unat (pcs s t)), claims = claims s, claimed = claimed s, returned = returned s\<rparr>"

lemma mq_abs_simps [simp]:
  "enq_pos (mq_abs s) = unat (enq_pos s)" "deq_pos (mq_abs s) = unat (deq_pos s)" "seqs (mq_abs s) i = unat (seqs s i)" "cell (mq_abs s) = cell s"
  "pcs (mq_abs s) t = map_pc id unat (pcs s t)" "claims (mq_abs s) = claims s" "claimed (mq_abs s) = claimed s" "returned (mq_abs s) = returned s"
  by (simp_all add: mq_abs_def)

lemma mq_abs_goto: "mq_abs (goto t l s) = goto t (map_pc id unat l) (mq_abs s)"
  by (auto simp: mq_abs_def goto_def fun_eq_iff)

lemma unat_Suc_small: "unat (p + 1) = Suc (unat p)" if "unat p < 2 ^ 63" for p :: u64
  using that by (subst unat_add_lem [THEN iffD1]) simp_all

text \<open>The signed difference compares numbers below \<open>2 ^ 63\<close>.\<close>

lemma dif_small:
  assumes "unat q < 2 ^ 63" "unat p < 2 ^ 63"
  shows "dif q p < 0 \<longleftrightarrow> unat q < unat p" "0 < dif q p \<longleftrightarrow> unat p < unat q"
proof -
  have b: "int (unat q) < 2 ^ 63" "int (unat p) < 2 ^ 63" using assms by (metis of_nat_less_iff of_nat_numeral of_nat_power)+
  have "q - p = word_of_int (int (unat q) - int (unat p))" by simp
  then have "dif q p = signed_take_bit 63 (int (unat q) - int (unat p))"
    unfolding dif_def by (simp only: sint_sbintrunc') simp
  also have "\<dots> = int (unat q) - int (unat p)" by (rule signed_take_bit_int_eq_self) (use b in linarith)+
  finally have "dif q p = int (unat q) - int (unat p)" .
  then show "dif q p < 0 \<longleftrightarrow> unat q < unat p" "0 < dif q p \<longleftrightarrow> unat p < unat q" by linarith+
qed

lemma mq_index_mod: "mq_index (2 ^ k) p = unat p mod 2 ^ k"
  by (simp add: mq_index_def pow2_minus_one unat_and_mask)

text \<open>What the bounds give for the words of the state, when fewer than \<open>2 ^ 62\<close> positions have been taken.\<close>

lemma mq_bounds:
  assumes i: "cq_inv (2 ^ k) (mq_abs s)" and b: "cq_bound (2 ^ k) (mq_abs s)" and k: "k \<le> 62" and c: "claims s < 2 ^ 62"
  shows "unat (enq_pos s) < 2 ^ 62" "unat (deq_pos s) < 2 ^ 62" "pcs s t = E_cas v p q \<Longrightarrow> unat p < 2 ^ 63 \<and> unat q < 2 ^ 63"
    "pcs s t = D_cas p q \<Longrightarrow> unat (p + 1) = Suc (unat p) \<and> Suc (unat p) < 2 ^ 63 \<and> unat q < 2 ^ 63"
    "pcs s t = E_publish v p \<Longrightarrow> unat (p + 1) = Suc (unat p)" "pcs s t = D_release p v \<Longrightarrow> unat (p + 2 ^ k) = unat p + 2 ^ k"
proof -
  have e: "unat (enq_pos s) = claims s" and pc: "pc_le (claims s) (claims s + 2 ^ k) (map_pc id unat (pcs s t))" for t
    using b by (simp_all add: cq_bound_def)
  have p: "(2::nat) ^ k \<le> 2 ^ 62" using k by (rule power_increasing) simp
  have u: "unat ((2::u64) ^ k) = 2 ^ k" using k by (simp add: unat_pow2)
  show "unat (enq_pos s) < 2 ^ 62" using e c by simp
  show "unat (deq_pos s) < 2 ^ 62" using e c claims_okD(1) [OF cq_invD(4) [OF i]] by simp
  show "pcs s t = E_cas v p q \<Longrightarrow> unat p < 2 ^ 63 \<and> unat q < 2 ^ 63" using pc [of t] c p by simp
  show "pcs s t = D_cas p q \<Longrightarrow> unat (p + 1) = Suc (unat p) \<and> Suc (unat p) < 2 ^ 63 \<and> unat q < 2 ^ 63"
    using pc [of t] c p unat_Suc_small [of p] by simp
  show "pcs s t = E_publish v p \<Longrightarrow> unat (p + 1) = Suc (unat p)" using pc [of t] c unat_Suc_small [of p] by simp
  show "pcs s t = D_release p v \<Longrightarrow> unat (p + 2 ^ k) = unat p + 2 ^ k"
    using pc [of t] c p u by (subst unat_add_lem [THEN iffD1]) simp_all
qed

lemma mq_abs_upd [simp]:
  "mq_abs (s\<lparr>cell := c\<rparr>) = (mq_abs s)\<lparr>cell := c\<rparr>" "mq_abs (s\<lparr>deq_pos := p\<rparr>) = (mq_abs s)\<lparr>deq_pos := unat p\<rparr>"
  "mq_abs (s\<lparr>enq_pos := p, claims := n, claimed := m\<rparr>) = (mq_abs s)\<lparr>enq_pos := unat p, claims := n, claimed := m\<rparr>"
  "mq_abs (s\<lparr>seqs := (seqs s)(j := p)\<rparr>) = (mq_abs s)\<lparr>seqs := (seqs (mq_abs s))(j := unat p)\<rparr>"
  "mq_abs (s\<lparr>seqs := (seqs s)(j := p), returned := m\<rparr>) = (mq_abs s)\<lparr>seqs := (seqs (mq_abs s))(j := unat p), returned := m\<rparr>"
  by (auto simp: mq_abs_def fun_eq_iff)

lemma enq_step_sim:
  assumes i: "cq_inv (2 ^ k) (mq_abs s)" and b: "cq_bound (2 ^ k) (mq_abs s)" and k: "k \<le> 62" and c: "claims s < 2 ^ 62" and st: "enq_step (2 ^ k) s s'"
  shows "cq_step (2 ^ k) (mq_abs s) (mq_abs s')"
  using st
proof cases
  note B = mq_bounds [OF i b k c]
  {
    case (call_enq t v)
    then show ?thesis using cq_step.call_enq [of "mq_abs s" t "2 ^ k" v] by (simp add: mq_abs_goto)
  next
    case (e_load t v)
    then show ?thesis using cq_step.e_load [of "mq_abs s" t v "2 ^ k"] by (simp add: mq_abs_goto)
  next
    case (e_seq t v p)
    then show ?thesis using cq_step.e_seq [of "mq_abs s" t v "unat p" "2 ^ k"] by (simp add: mq_abs_goto mq_index_mod)
  next
    case (e_cas_ok t v p q)
    then have "q = p" "unat (p + 1) = Suc (unat p)" using B(1) unat_Suc_small [of p] by (simp_all add: dif_eq_0)
    then show ?thesis using e_cas_ok cq_step.e_cas_ok [of "mq_abs s" t v "unat p" "unat q" "2 ^ k"] by (simp add: mq_abs_goto)
  next
    case (e_cas_fail t v p q)
    then show ?thesis using cq_step.e_cas_fail [of "mq_abs s" t v "unat p" "unat q" "2 ^ k"] by (simp add: mq_abs_goto dif_eq_0)
  next
    case (e_full t v p q)
    then show ?thesis using cq_step.e_full [of "mq_abs s" t v "unat p" "unat q" "2 ^ k"] B(3) [of t v p q] dif_small [of q p] by (simp add: mq_abs_goto)
  next
    case (e_retry t v p q)
    then show ?thesis using cq_step.e_retry [of "mq_abs s" t v "unat p" "unat q" "2 ^ k"] B(3) [of t v p q] dif_small [of q p] by (simp add: mq_abs_goto)
  next
    case (e_ctor t v p)
    then show ?thesis using cq_step.e_ctor [of "mq_abs s" t v "unat p" "2 ^ k"] by (simp add: mq_abs_goto mq_index_mod)
  next
    case (e_publish t v p)
    then show ?thesis using cq_step.e_publish [of "mq_abs s" t v "unat p" "2 ^ k"] B(5) [of t v p] by (simp add: mq_abs_goto mq_index_mod)
  }
qed

lemma deq_step_sim:
  assumes i: "cq_inv (2 ^ k) (mq_abs s)" and b: "cq_bound (2 ^ k) (mq_abs s)" and k: "k \<le> 62" and c: "claims s < 2 ^ 62" and st: "deq_step (2 ^ k) s s'"
  shows "cq_step (2 ^ k) (mq_abs s) (mq_abs s')"
  using st
proof cases
  note B = mq_bounds [OF i b k c]
  {
    case (call_deq t)
    then show ?thesis using cq_step.call_deq [of "mq_abs s" t "2 ^ k"] by (simp add: mq_abs_goto)
  next
    case (d_load t)
    then show ?thesis using cq_step.d_load [of "mq_abs s" t "2 ^ k"] by (simp add: mq_abs_goto)
  next
    case (d_seq t p)
    then show ?thesis using cq_step.d_seq [of "mq_abs s" t "unat p" "2 ^ k"] by (simp add: mq_abs_goto mq_index_mod)
  next
    case (d_cas_ok t p q)
    then have "q = p + 1" by (simp add: dif_eq_0)
    then show ?thesis using d_cas_ok B(4) [of t p q] cq_step.d_cas_ok [of "mq_abs s" t "unat p" "unat q" "2 ^ k"] by (simp add: mq_abs_goto)
  next
    case (d_cas_fail t p q)
    then have "q = p + 1" by (simp add: dif_eq_0)
    then show ?thesis using d_cas_fail B(4) [of t p q] cq_step.d_cas_fail [of "mq_abs s" t "unat p" "unat q" "2 ^ k"] by (simp add: mq_abs_goto)
  next
    case (d_empty t p q)
    then show ?thesis using cq_step.d_empty [of "mq_abs s" t "unat p" "unat q" "2 ^ k"] B(4) [of t p q] dif_small [of q "p + 1"] by (simp add: mq_abs_goto)
  next
    case (d_retry t p q)
    then show ?thesis using cq_step.d_retry [of "mq_abs s" t "unat p" "unat q" "2 ^ k"] B(4) [of t p q] dif_small [of q "p + 1"] by (simp add: mq_abs_goto)
  next
    case (d_move t p v)
    then show ?thesis using cq_step.d_move [of "mq_abs s" t "unat p" "2 ^ k" v] by (simp add: mq_abs_goto mq_index_mod)
  next
    case (d_release t p v)
    then show ?thesis using cq_step.d_release [of "mq_abs s" t "unat p" v "2 ^ k"] B(6) [of t p v] by (simp add: mq_abs_goto mq_index_mod)
  }
qed

text \<open>The queue of the code as a transition system: up to \<open>2 ^ 62\<close> claims its states abstract to states with the invariant.\<close>

definition mq_inv :: "nat \<Rightarrow> ('a, u64) cq \<Rightarrow> bool" where
  "mq_inv k s \<longleftrightarrow> (claims s < 2 ^ 62 \<longrightarrow> cq_inv (2 ^ k) (mq_abs s) \<and> cq_bound (2 ^ k) (mq_abs s))"

lemma mq_claims_mono: "mq_step cap s s' \<Longrightarrow> claims s \<le> claims s'"
  by (auto simp: mq_step_def elim!: enq_step.cases deq_step.cases)

lemma mq_init_abs: "k \<le> 62 \<Longrightarrow> mq_init (2 ^ k) s \<Longrightarrow> cq_init (2 ^ k) (mq_abs s)"
proof -
  assume k: "k \<le> 62" and s: "mq_init (2 ^ k) s"
  have "(2::nat) ^ k \<le> 2 ^ 62" using k by (rule power_increasing) simp
  then have "unat (of_nat i :: u64) = i" if "i < 2 ^ k" for i using that by (intro unat_of_nat_small) simp
  moreover have "unat ((2::u64) ^ k) = 2 ^ k" using k by (simp add: unat_pow2)
  ultimately show ?thesis using s by (auto simp: mq_init_def cq_init_def mq_abs_def fun_eq_iff)
qed

interpretation mqs: inv_system "\<lambda>s. 1 \<le> k \<and> k \<le> 62 \<and> mq_init (2 ^ k) s" "\<lambda>s s'. k \<le> 62 \<and> mq_step (2 ^ k) s s'" "mq_inv k" for k
proof
  show "mq_inv k s" if "1 \<le> k \<and> k \<le> 62 \<and> mq_init (2 ^ k) s" for s
  proof -
    have "(2::nat) ^ 1 \<le> 2 ^ k" using that by (intro power_increasing) simp_all
    then have "2 \<le> (2::nat) ^ k" by simp
    then show ?thesis using mq_init_abs [of k s] cq_init_inv [of "2 ^ k" "mq_abs s"] cq_bound_init [of "2 ^ k" "mq_abs s"] that by (simp add: mq_inv_def)
  qed
  show "mq_inv k s'" if "mq_inv k s" "k \<le> 62 \<and> mq_step (2 ^ k) s s'" for s s'
    unfolding mq_inv_def
  proof
    assume c: "claims s' < 2 ^ 62"
    then have c: "claims s < 2 ^ 62" using mq_claims_mono [of "2 ^ k" s s'] that(2) by simp
    then have I: "cq_inv (2 ^ k) (mq_abs s)" "cq_bound (2 ^ k) (mq_abs s)" using that(1) by (simp_all add: mq_inv_def)
    have "cq_step (2 ^ k) (mq_abs s) (mq_abs s')" using enq_step_sim [OF I _ c] deq_step_sim [OF I _ c] that(2) by (auto simp: mq_step_def)
    then show "cq_inv (2 ^ k) (mq_abs s') \<and> cq_bound (2 ^ k) (mq_abs s')" using cq_step_inv cq_bound_step I by blast
  qed
qed

lemma cq_inv_results:
  assumes i: "cq_inv cap s"
  shows "deq_pos s \<le> enq_pos s" "enq_pos s \<le> deq_pos s + cap" "returned s p = Some v \<Longrightarrow> p < deq_pos s \<and> claimed s p = Some v"
    "dclaim (pcs s t) = Some p \<Longrightarrow> returned s p = None" "dclaim (pcs s t) = Some p \<Longrightarrow> t' \<noteq> t \<Longrightarrow> dclaim (pcs s t') \<noteq> Some p"
    "pcs s t = D_move p \<Longrightarrow> \<exists>v. cell s (p mod cap) = Some v \<and> claimed s p = Some v"
    "(\<And>t. pcs s t = Idle) \<Longrightarrow> p < deq_pos s \<Longrightarrow> returned s p = claimed s p"
    "(\<And>t. pcs s t = Idle) \<Longrightarrow> deq_pos s \<le> p \<Longrightarrow> p < enq_pos s \<Longrightarrow> seqs s (p mod cap) = Suc p \<and> cell s (p mod cap) = claimed s p"
proof -
  note d = claims_okD [OF cq_invD(4) [OF i]] and k = cq_cells_okD [OF cq_invD(3) [OF i]]
  show "deq_pos s \<le> enq_pos s" "enq_pos s \<le> deq_pos s + cap" "returned s p = Some v \<Longrightarrow> p < deq_pos s \<and> claimed s p = Some v" using d by blast+
  show "dclaim (pcs s t) = Some p \<Longrightarrow> returned s p = None" using cq_invD(2) [OF i, of t] by (cases "pcs s t") auto
  show "dclaim (pcs s t) = Some p \<Longrightarrow> t' \<noteq> t \<Longrightarrow> dclaim (pcs s t') \<noteq> Some p" using cq_invD(5) [OF i] unfolding uniq_ok_def by metis
  show "pcs s t = D_move p \<Longrightarrow> \<exists>v. cell s (p mod cap) = Some v \<and> claimed s p = Some v" using cq_invD(2) [OF i, of t] by auto
  show "returned s p = claimed s p" if "\<And>t. pcs s t = Idle" "p < deq_pos s"
    using d(4) [of p] d(5) [OF that(2)] that(1) by (cases "returned s p") (auto simp: dclaims_def)
  show "seqs s (p mod cap) = Suc p \<and> cell s (p mod cap) = claimed s p" if "\<And>t. pcs s t = Idle" "deq_pos s \<le> p" "p < enq_pos s"
    using d(6) [OF that(2,3)] k(2) [of p] that by (auto simp: eclaims_def)
qed

lemma dclaim_abs: "dclaim (map_pc id unat l) = map_option unat (dclaim l)"
  by (cases l) auto

section \<open>Properties\<close>

text \<open>
  C6. Concurrent correctness of \<open>MPMCQueue\<close>, with its 64-bit positions and sequence numbers, under every interleaving of any number of
  producers and consumers, for a capacity that is a power of two between two and \<open>2 ^ 62\<close> and as long as fewer than \<open>2 ^ 62\<close>
  positions have been taken: the number of claimed and not yet taken positions stays
  within the capacity; a value returned for a position is the value whose producer claimed that
  position, and each position is handed to one consumer only; a consumer that won a position finds
  the element constructed; and once every call has returned, the consumers have received exactly the
  first \<open>deq_pos\<close> claimed values, one for each position, while the remaining ones all sit published in
  their cells.
\<close>

theorem mpmc_concurrent_correct:
  assumes "reach (mq_init (2 ^ k)) (mq_step (2 ^ k)) s" and "1 \<le> k" "k \<le> 62" and "claims s < 2 ^ 62"
  shows "unat (enq_pos s) = claims s \<and> unat (deq_pos s) \<le> claims s \<and> claims s - unat (deq_pos s) \<le> 2 ^ k
    \<and> (\<forall>p v. returned s p = Some v \<longrightarrow> p < unat (deq_pos s) \<and> claimed s p = Some v)
    \<and> (\<forall>t p. dclaim (pcs s t) = Some p \<longrightarrow> returned s (unat p) = None \<and> (\<forall>t'. t' \<noteq> t \<longrightarrow> dclaim (pcs s t') \<noteq> Some p))
    \<and> (\<forall>t p. pcs s t = D_move p \<longrightarrow> (\<exists>v. cell s (mq_index (2 ^ k) p) = Some v \<and> claimed s (unat p) = Some v))
    \<and> ((\<forall>t. pcs s t = Idle) \<longrightarrow> map (returned s) [0..<unat (deq_pos s)] = map (claimed s) [0..<unat (deq_pos s)]
      \<and> (\<forall>p. deq_pos s \<le> p \<and> p < enq_pos s \<longrightarrow>
          seqs s (mq_index (2 ^ k) p) = p + 1 \<and> cell s (mq_index (2 ^ k) p) = claimed s (unat p)))"
proof -
  have "mq_inv k s" using mqs.reach_inv [of k s] assms(1-3) by simp
  then have i: "cq_inv (2 ^ k) (mq_abs s)" and b: "cq_bound (2 ^ k) (mq_abs s)" using assms(4) by (simp_all add: mq_inv_def)
  note R = cq_inv_results [OF i]
  have e: "unat (enq_pos s) = claims s" using b by (simp add: cq_bound_def)
  have own: "returned s (unat p) = None \<and> (\<forall>t'. t' \<noteq> t \<longrightarrow> dclaim (pcs s t') \<noteq> Some p)" if "dclaim (pcs s t) = Some p" for t p
    using R(4) [of t "unat p"] R(5) [of t "unat p"] that by (auto simp: dclaim_abs)
  have move: "\<exists>v. cell s (mq_index (2 ^ k) p) = Some v \<and> claimed s (unat p) = Some v" if "pcs s t = D_move p" for t p
    using R(6) [of t "unat p"] that by (simp add: mq_index_mod)
  have rest: "seqs s (mq_index (2 ^ k) p) = p + 1 \<and> cell s (mq_index (2 ^ k) p) = claimed s (unat p)"
    if idle: "\<forall>t. pcs s t = Idle" and p: "deq_pos s \<le> p \<and> p < enq_pos s" for p
  proof -
    have "unat p < 2 ^ 62" using p e assms(4) by (simp add: word_less_nat_alt)
    then have "unat (p + 1) = Suc (unat p)" by (intro unat_Suc_small) simp
    moreover have "unat (seqs s (mq_index (2 ^ k) p)) = Suc (unat p) \<and> cell s (mq_index (2 ^ k) p) = claimed s (unat p)"
      using R(8) [of "unat p"] idle p by (simp add: word_less_nat_alt word_le_nat_alt mq_index_mod)
    ultimately show ?thesis by (metis unsigned_word_eqI)
  qed
  have taken: "map (returned s) [0..<unat (deq_pos s)] = map (claimed s) [0..<unat (deq_pos s)]" if "\<forall>t. pcs s t = Idle"
    using R(7) that by simp
  have len: "unat (deq_pos s) \<le> claims s" "claims s - unat (deq_pos s) \<le> 2 ^ k" using R(1,2) e by simp_all
  have ret: "p < unat (deq_pos s) \<and> claimed s p = Some v" if "returned s p = Some v" for p v using R(3) [of p v] that by simp
  show ?thesis using e len ret own move taken rest by (intro conjI allI impI; blast)
qed

text \<open>A producer and a consumer interleave on a two-cell queue.\<close>

lemma mq_run:
  "reach P (mq_step cap) s \<Longrightarrow> enq_step cap s s' \<Longrightarrow> reach P (mq_step cap) s'"
  "reach P (mq_step cap) s \<Longrightarrow> deq_step cap s s' \<Longrightarrow> reach P (mq_step cap) s'"
  by (auto intro: reach_step simp: mq_step_def)

lemma mq_demo:
  "\<exists>s. reach (mq_init (2 ^ 1)) (mq_step (2 ^ 1)) s \<and> claims s = 1 \<and> deq_pos s = 1 \<and> returned s 0 = Some (7::nat) \<and> (\<forall>t. pcs s t = Idle)"
proof -
  define S where "S = reach (mq_init (2 ^ 1) :: (nat, u64) cq \<Rightarrow> bool) (mq_step (2 ^ 1))"
  define s0 :: "(nat, u64) cq" where "s0 = \<lparr>enq_pos = 0, deq_pos = 0, seqs = (\<lambda>i. if i < unat (2 ^ 1 :: u64) then of_nat i else 0), cell = (\<lambda>_. None),
     pcs = (\<lambda>_. Idle), claims = 0, claimed = (\<lambda>_. None), returned = (\<lambda>_. None)\<rparr>"
  have enq: "S s \<Longrightarrow> enq_step (2 ^ 1) s s' \<Longrightarrow> S s'" and deq: "S s \<Longrightarrow> deq_step (2 ^ 1) s s' \<Longrightarrow> S s'" for s s' unfolding S_def by (rule mq_run; assumption)+
  have ix: "mq_index 2 0 = 0" by (simp add: mq_index_def)
  have 0: "S s0" unfolding S_def by (rule reach_init) (simp add: s0_def mq_init_def)
  define s1 where "s1 = goto 2 D_load s0"
  define s2 where "s2 = goto 3 (E_load 7) s1"
  define s3 where "s3 = goto 3 (E_seq 7 (enq_pos s2)) s2"
  define s4 where "s4 = goto 3 (E_cas 7 0 (seqs s3 (mq_index (2 ^ 1) 0))) s3"
  define s5 where "s5 = goto 3 (E_ctor 7 0) (s4\<lparr>enq_pos := 0 + 1, claims := Suc (claims s4), claimed := (claimed s4)(unat (0::u64) \<mapsto> 7)\<rparr>)"
  define s6 where "s6 = goto 2 (D_seq (deq_pos s5)) s5"
  define s7 where "s7 = goto 3 (E_publish 7 0) (s6\<lparr>cell := (cell s6)(mq_index (2 ^ 1) 0 \<mapsto> 7)\<rparr>)"
  define s8 where "s8 = goto 3 Idle (s7\<lparr>seqs := (seqs s7)(mq_index (2 ^ 1) 0 := 0 + 1)\<rparr>)"
  define s9 where "s9 = goto 2 (D_cas 0 (seqs s8 (mq_index (2 ^ 1) 0))) s8"
  define s10 where "s10 = goto 2 (D_move 0) (s9\<lparr>deq_pos := 0 + 1\<rparr>)"
  define s11 where "s11 = goto 2 (D_release 0 7) (s10\<lparr>cell := (cell s10)(mq_index (2 ^ 1) 0 := None)\<rparr>)"
  define s12 where "s12 = goto 2 Idle (s11\<lparr>seqs := (seqs s11)(mq_index (2 ^ 1) 0 := 0 + 2 ^ 1), returned := (returned s11)(unat (0::u64) \<mapsto> 7)\<rparr>)"
  note defs = s0_def s1_def s2_def s3_def s4_def s5_def s6_def s7_def s8_def s9_def s10_def s11_def s12_def
  have 1: "S s1" unfolding s1_def by (rule deq [OF 0 deq_step.call_deq]) (simp_all add: defs)
  have 2: "S s2" unfolding s2_def by (rule enq [OF 1 enq_step.call_enq]) (simp_all add: defs)
  have 3: "S s3" unfolding s3_def by (rule enq [OF 2 enq_step.e_load]) (simp_all add: defs)
  have 4: "S s4" unfolding s4_def by (rule enq [OF 3 enq_step.e_seq]) (simp_all add: defs)
  have 5: "S s5" unfolding s5_def by (rule enq [OF 4 enq_step.e_cas_ok]) (simp_all add: defs ix dif_eq_0)
  have 6: "S s6" unfolding s6_def by (rule deq [OF 5 deq_step.d_load]) (simp_all add: defs)
  have 7: "S s7" unfolding s7_def by (rule enq [OF 6 enq_step.e_ctor]) (simp_all add: defs)
  have 8: "S s8" unfolding s8_def by (rule enq [OF 7 enq_step.e_publish]) (simp_all add: defs)
  have 9: "S s9" unfolding s9_def by (rule deq [OF 8 deq_step.d_seq]) (simp_all add: defs)
  have 10: "S s10" unfolding s10_def by (rule deq [OF 9 deq_step.d_cas_ok]) (simp_all add: defs ix dif_eq_0)
  have 11: "S s11" unfolding s11_def by (rule deq [OF 10 deq_step.d_move]) (simp_all add: defs)
  have 12: "S s12" unfolding s12_def by (rule deq [OF 11 deq_step.d_release]) (simp_all add: defs)
  show ?thesis using 12 by (intro exI [of _ s12]) (auto simp: S_def defs)
qed

theorem mpmc_concurrent_correct_witness:
  "\<exists>s. reach (mq_init (2 ^ 1)) (mq_step (2 ^ 1)) s \<and> claims s = 1 \<and> returned s 0 = Some (7::nat) \<and> claimed s 0 = Some 7
     \<and> unat (enq_pos s) = 1 \<and> map (returned s) [0..<1] = map (claimed s) [0..<1]"
proof -
  obtain s where s: "reach (mq_init (2 ^ 1)) (mq_step (2 ^ 1)) s" "claims s = 1" "deq_pos s = 1" "returned s 0 = Some (7::nat)" "\<forall>t. pcs s t = Idle"
    using mq_demo by blast
  have c: "claims s < 2 ^ 62" "(1::nat) \<le> 62" using s(2) by simp_all
  note T = mpmc_concurrent_correct [OF s(1) order_refl c(2,1)]
  have "claimed s 0 = Some 7" using T s(4) by blast
  moreover have "unat (enq_pos s) = 1" using conjunct1 [OF T] s(2) by simp
  ultimately show ?thesis using s by (intro exI [of _ s]) simp
qed

end
