(* ===== verification/Wait_List.thy ===== *)
theory Wait_List
  imports Uvent_Prelude
begin

text \<open>
  \<open>sync/WaitList.h\<close> and \<open>sync/SyncCommon.h\<close>: waiter nodes, the intrusive doubly linked list every
  synchronisation primitive parks its waiters in, and the firing of a waiter. Nodes live in a store
  indexed by address. A method that runs between \<open>lock()\<close> and \<open>unlock()\<close> of the list's spin lock is one
  atomic operation of the model. The abstraction \<open>wl_rep\<close> reads the links as a list, and the operations
  implement append, take-first and remove on it.
\<close>

section \<open>Waiters and the list\<close>

text \<open>The word a waiter is claimed through: its own, or the one a \<open>select\<close> shares among its nodes.\<close>

datatype winner = Own | Shared nat

record Waiter =
  w_h :: nat
  w_winner :: winner
  w_own :: int
  w_prev :: "nat option"
  w_next :: "nat option"
  w_index :: int
  w_tid :: int
  w_in_list :: bool

definition kCancelledIndex :: int where
  "kCancelledIndex = - 2"

definition waiter_reset :: "nat \<Rightarrow> int \<Rightarrow> Waiter \<Rightarrow> Waiter" where
  "waiter_reset handle thread_id w = w\<lparr>w_h := handle, w_tid := thread_id, w_winner := Own, w_own := - 1, w_index := 0\<rparr>"

definition cancel_claimed :: "Waiter \<Rightarrow> bool" where
  "cancel_claimed w \<longleftrightarrow> w_own w = kCancelledIndex"

record WaitList =
  wl_count :: u32
  wl_head :: "nat option"
  wl_tail :: "nat option"

definition wl_new :: WaitList where
  "wl_new = \<lparr>wl_count = 0, wl_head = None, wl_tail = None\<rparr>"

definition empty_relaxed :: "WaitList \<Rightarrow> bool" where
  "empty_relaxed l \<longleftrightarrow> wl_count l = 0"

type_synonym nodes = "nat \<Rightarrow> Waiter"

definition set_next :: "nat \<Rightarrow> nat option \<Rightarrow> nodes \<Rightarrow> nodes" where
  "set_next w p h = h(w := (h w)\<lparr>w_next := p\<rparr>)"

definition set_prev :: "nat \<Rightarrow> nat option \<Rightarrow> nodes \<Rightarrow> nodes" where
  "set_prev w p h = h(w := (h w)\<lparr>w_prev := p\<rparr>)"

definition set_in_list :: "nat \<Rightarrow> bool \<Rightarrow> nodes \<Rightarrow> nodes" where
  "set_in_list w b h = h(w := (h w)\<lparr>w_in_list := b\<rparr>)"

definition push_locked :: "nat \<Rightarrow> WaitList \<times> nodes \<Rightarrow> WaitList \<times> nodes" where
  "push_locked w s = (case s of (l, h) \<Rightarrow>
     let h1 = set_next w None (set_prev w (wl_tail l) h);
         (l2, h2) = (case wl_tail l of Some t \<Rightarrow> (l, set_next t (Some w) h1)
                     | None \<Rightarrow> (l\<lparr>wl_head := Some w\<rparr>, h1))
     in (l2\<lparr>wl_tail := Some w, wl_count := wl_count l2 + 1\<rparr>, set_in_list w True h2))"

definition pop_front_locked :: "WaitList \<times> nodes \<Rightarrow> nat option \<times> WaitList \<times> nodes" where
  "pop_front_locked s = (case s of (l, h) \<Rightarrow>
     case wl_head l of None \<Rightarrow> (None, l, h)
     | Some w \<Rightarrow>
       let l1 = l\<lparr>wl_head := w_next (h w)\<rparr>;
           (l2, h2) = (case wl_head l1 of Some n \<Rightarrow> (l1, set_prev n None h) | None \<Rightarrow> (l1\<lparr>wl_tail := None\<rparr>, h))
       in (Some w, l2\<lparr>wl_count := wl_count l2 - 1\<rparr>, set_in_list w False (set_next w None (set_prev w None h2))))"

definition remove_locked :: "nat \<Rightarrow> WaitList \<times> nodes \<Rightarrow> bool \<times> WaitList \<times> nodes" where
  "remove_locked w s = (case s of (l, h) \<Rightarrow>
     if \<not> w_in_list (h w) then (False, l, h)
     else
       let (l1, h1) = (case w_prev (h w) of Some p \<Rightarrow> (l, set_next p (w_next (h w)) h)
                       | None \<Rightarrow> (l\<lparr>wl_head := w_next (h w)\<rparr>, h));
           (l2, h2) = (case w_next (h1 w) of Some n \<Rightarrow> (l1, set_prev n (w_prev (h1 w)) h1)
                       | None \<Rightarrow> (l1\<lparr>wl_tail := w_prev (h1 w)\<rparr>, h1))
       in (True, l2\<lparr>wl_count := wl_count l2 - 1\<rparr>, set_in_list w False (set_next w None (set_prev w None h2))))"

section \<open>Firing a waiter\<close>

text \<open>
  What firing touches: the nodes, the words shared by selects, and the run queues. \<open>resume_on\<close> puts a
  coroutine on the caller's own queue, on the inbox of a given thread (\<open>co_spawn_static\<close>, when the
  runtime is built with \<open>UVENT_ENABLE_REUSEADDR\<close>), or on the shared spawn queue; \<open>reuse\<close> says which build.
\<close>

record sched =
  s_tid :: int
  s_threads :: nat
  s_registry :: bool
  s_q :: "nat list"
  s_static :: "(nat \<times> int) list"
  s_spawn :: "nat list"
  s_wakes :: nat

definition is_valid_thread_id :: "int \<Rightarrow> sched \<Rightarrow> bool" where
  "is_valid_thread_id tid s \<longleftrightarrow> tid \<ge> 0 \<and> nat tid < s_threads s"

definition resume_on :: "bool \<Rightarrow> nat \<Rightarrow> int \<Rightarrow> sched \<Rightarrow> sched" where
  "resume_on reuse h tid s = (if tid = s_tid s \<and> tid \<ge> 0 then s\<lparr>s_q := s_q s @ [h]\<rparr>
     else if reuse then
       (if is_valid_thread_id tid s then s\<lparr>s_static := s_static s @ [(h, tid)]\<rparr> else s\<lparr>s_spawn := s_spawn s @ [h]\<rparr>)
     else (let s1 = s\<lparr>s_spawn := s_spawn s @ [h]\<rparr> in
       if s_registry s1 \<and> 0 < s_threads s1 then s1\<lparr>s_wakes := s_wakes s1 + 1\<rparr> else s1))"

record wenv =
  e_nodes :: nodes
  e_shared :: "nat \<Rightarrow> int"
  e_sched :: sched

definition winner_word :: "nat \<Rightarrow> wenv \<Rightarrow> int" where
  "winner_word w e = (case w_winner (e_nodes e w) of Own \<Rightarrow> w_own (e_nodes e w) | Shared s \<Rightarrow> e_shared e s)"

definition set_winner :: "nat \<Rightarrow> int \<Rightarrow> wenv \<Rightarrow> wenv" where
  "set_winner w v e = (case w_winner (e_nodes e w) of
     Own \<Rightarrow> e\<lparr>e_nodes := (e_nodes e)(w := (e_nodes e w)\<lparr>w_own := v\<rparr>)\<rparr>
   | Shared s \<Rightarrow> e\<lparr>e_shared := (e_shared e)(s := v)\<rparr>)"

definition claim :: "nat \<Rightarrow> int \<Rightarrow> wenv \<Rightarrow> bool \<times> wenv" where
  "claim w idx e = (if winner_word w e = - 1 then (True, set_winner w idx e) else (False, e))"

definition fire_waiter :: "bool \<Rightarrow> nat \<Rightarrow> wenv \<Rightarrow> bool \<times> wenv" where
  "fire_waiter reuse w e = (case claim w (w_index (e_nodes e w)) e of
     (False, e1) \<Rightarrow> (False, e1)
   | (True, e1) \<Rightarrow> (True, e1\<lparr>e_sched := resume_on reuse (w_h (e_nodes e1 w)) (w_tid (e_nodes e1 w)) (e_sched e1)\<rparr>))"

text \<open>
  The wake loops of the primitives, run under the list lock: pop until the list is empty, or until
  \<open>k\<close> waiters were claimed. A waiter whose claim fails was popped without using up the budget.
\<close>

partial_function (option) wake_up_to :: "bool \<Rightarrow> int \<Rightarrow> WaitList \<Rightarrow> wenv \<Rightarrow> (WaitList \<times> wenv) option" where
  "wake_up_to reuse k l e = (if k \<le> 0 then Some (l, e) else
     (let p = pop_front_locked (l, e_nodes e) in
      case fst p of None \<Rightarrow> Some (fst (snd p), e\<lparr>e_nodes := snd (snd p)\<rparr>)
      | Some w \<Rightarrow> (let r = fire_waiter reuse w (e\<lparr>e_nodes := snd (snd p)\<rparr>) in
          wake_up_to reuse (if fst r then k - 1 else k) (fst (snd p)) (snd r))))"

partial_function (option) wake_all :: "bool \<Rightarrow> WaitList \<Rightarrow> wenv \<Rightarrow> (WaitList \<times> wenv) option" where
  "wake_all reuse l e =
     (let p = pop_front_locked (l, e_nodes e) in
      case fst p of None \<Rightarrow> Some (fst (snd p), e\<lparr>e_nodes := snd (snd p)\<rparr>)
      | Some w \<Rightarrow> wake_all reuse (fst (snd p)) (snd (fire_waiter reuse w (e\<lparr>e_nodes := snd (snd p)\<rparr>))))"

definition wake_one_waiter :: "bool \<Rightarrow> WaitList \<Rightarrow> wenv \<Rightarrow> (WaitList \<times> wenv) option" where
  "wake_one_waiter reuse l e = (if empty_relaxed l then Some (l, e) else wake_up_to reuse 1 l e)"

definition wake_all_waiters :: "bool \<Rightarrow> WaitList \<Rightarrow> wenv \<Rightarrow> (WaitList \<times> wenv) option" where
  "wake_all_waiters reuse l e = (if empty_relaxed l then Some (l, e) else wake_all reuse l e)"

section \<open>The linked list as a list\<close>

fun dl :: "nodes \<Rightarrow> nat option \<Rightarrow> nat list \<Rightarrow> nat option \<Rightarrow> bool" where
  "dl h p [] n \<longleftrightarrow> True"
| "dl h p (a # as) n \<longleftrightarrow> w_prev (h a) = p \<and> w_next (h a) = (case as of [] \<Rightarrow> n | b # _ \<Rightarrow> Some b) \<and> dl h (Some a) as n"

definition first :: "nat list \<Rightarrow> nat option" where
  "first xs = (case xs of [] \<Rightarrow> None | a # _ \<Rightarrow> Some a)"

definition final :: "nat list \<Rightarrow> nat option" where
  "final xs = (if xs = [] then None else Some (last xs))"

text \<open>
  The list \<open>l\<close> in the store \<open>h\<close> holds the waiters \<open>xs\<close>, oldest first; \<open>own\<close> are the nodes that are only
  ever attached to this list, for which the flag \<open>in_list\<close> means membership.
\<close>

definition wl_rep :: "nat set \<Rightarrow> nat list \<Rightarrow> WaitList \<times> nodes \<Rightarrow> bool" where
  "wl_rep own xs s \<longleftrightarrow> (case s of (l, h) \<Rightarrow> distinct xs \<and> set xs \<subseteq> own \<and> dl h None xs None
     \<and> wl_head l = first xs \<and> wl_tail l = final xs \<and> wl_count l = of_nat (length xs)
     \<and> (\<forall>w\<in>own. w_in_list (h w) \<longleftrightarrow> w \<in> set xs))"

lemma dl_append:
  "dl h p (as @ bs) n \<longleftrightarrow> dl h p as (case bs of [] \<Rightarrow> n | b # _ \<Rightarrow> Some b)
     \<and> dl h (if as = [] then p else Some (last as)) bs n"
  by (induction as arbitrary: p) (auto split: list.splits)

lemma dl_frame:
  assumes "\<And>a. a \<in> set xs \<Longrightarrow> w_prev (h' a) = w_prev (h a) \<and> w_next (h' a) = w_next (h a)"
  shows "dl h' p xs n \<longleftrightarrow> dl h p xs n"
  using assms by (induction xs arbitrary: p) auto

lemma dl_set_next_last:
  assumes "dl h p as n" "as \<noteq> []" "distinct as"
  shows "dl (set_next (last as) n' h) p as n'"
  using assms
proof (induction as arbitrary: p)
  case (Cons a as)
  show ?case
  proof (cases as)
    case (Cons b bs)
    then have "last as \<noteq> a" using Cons.prems(3) last_in_set [of as] by auto
    then show ?thesis using Cons.IH [of "Some a"] Cons.prems Cons by (simp add: set_next_def)
  qed (use Cons in \<open>simp add: set_next_def\<close>)
qed simp

lemma dl_set_prev_hd:
  assumes "dl h p (b # bs) n" "distinct (b # bs)"
  shows "dl (set_prev b p' h) p' (b # bs) n"
proof -
  have "dl (set_prev b p' h) (Some b) bs n \<longleftrightarrow> dl h (Some b) bs n"
    by (rule dl_frame) (use assms(2) in \<open>auto simp: set_prev_def\<close>)
  then show ?thesis using assms(1) by (simp add: set_prev_def)
qed

lemma set_fields [simp]:
  "w_next (set_next w p h a) = (if a = w then p else w_next (h a))" "w_prev (set_next w p h a) = w_prev (h a)"
  "w_in_list (set_next w p h a) = w_in_list (h a)"
  "w_prev (set_prev w p h a) = (if a = w then p else w_prev (h a))" "w_next (set_prev w p h a) = w_next (h a)"
  "w_in_list (set_prev w p h a) = w_in_list (h a)"
  "w_prev (set_in_list w b h a) = w_prev (h a)" "w_next (set_in_list w b h a) = w_next (h a)"
  "w_in_list (set_in_list w b h a) = (if a = w then b else w_in_list (h a))"
  by (simp_all add: set_next_def set_prev_def set_in_list_def)

text \<open>The fields that linking never changes.\<close>

definition wdata :: "Waiter \<Rightarrow> nat \<times> winner \<times> int \<times> int \<times> int" where
  "wdata w = (w_h w, w_winner w, w_own w, w_index w, w_tid w)"

lemma wdata_set [simp]:
  "wdata (set_next w p h a) = wdata (h a)" "wdata (set_prev w p h a) = wdata (h a)"
  "wdata (set_in_list w b h a) = wdata (h a)"
  by (simp_all add: wdata_def set_next_def set_prev_def set_in_list_def)

lemma first_simps [simp]: "first [] = None" "first (a # as) = Some a" "first (as @ bs) = (if as = [] then first bs else first as)"
  by (auto simp: first_def split: list.splits)

lemma final_simps [simp]: "final [] = None" "final (as @ [a]) = Some a" "as \<noteq> [] \<Longrightarrow> final as = Some (last as)"
  "as \<noteq> [] \<Longrightarrow> final (a # as) = final as" "final [a] = Some a"
  by (auto simp: final_def)

lemma final_append: "final (as @ bs) = (if bs = [] then final as else final bs)"
  by (simp add: final_def)

lemma push_locked_rep:
  assumes rep: "wl_rep own xs s" and w: "w \<in> own" "w \<notin> set xs"
  shows "wl_rep own (xs @ [w]) (push_locked w s)" "wdata (snd (push_locked w s) a) = wdata (snd s a)"
proof -
  obtain l h where s: "s = (l, h)" by (cases s)
  have r: "distinct xs" "set xs \<subseteq> own" "dl h None xs None" "wl_head l = first xs" "wl_tail l = final xs"
    "wl_count l = of_nat (length xs)" "\<And>a. a \<in> own \<Longrightarrow> w_in_list (h a) \<longleftrightarrow> a \<in> set xs"
    using rep by (auto simp: wl_rep_def s)
  define h1 where "h1 = set_next w None (set_prev w (final xs) h)"
  have d1: "dl h1 None xs None" using r(3) w(2) unfolding h1_def by (subst dl_frame [where h = h]) auto
  have "wl_rep own (xs @ [w]) (push_locked w s)"
  proof (cases "xs = []")
    case True
    then show ?thesis using r w by (auto simp: s push_locked_def wl_rep_def Let_def)
  next
    case False
    define h2 where "h2 = set_next (last xs) (Some w) h1"
    have "dl h2 None xs (Some w)" unfolding h2_def by (rule dl_set_next_last [OF d1 False r(1)])
    moreover have "w \<noteq> last xs" using False w(2) by auto
    then have "dl h2 (Some (last xs)) [w] None" using False unfolding h2_def h1_def by simp
    ultimately have "dl h2 None (xs @ [w]) None" using False by (subst dl_append) simp
    then have "dl (set_in_list w True h2) None (xs @ [w]) None" by (subst dl_frame [where h = h2]) auto
    moreover have "push_locked w s = (l\<lparr>wl_tail := Some w, wl_count := wl_count l + 1\<rparr>, set_in_list w True h2)"
      using False r(5) by (simp add: push_locked_def s h1_def h2_def Let_def)
    moreover have "w_in_list (set_in_list w True h2 a) \<longleftrightarrow> a \<in> set (xs @ [w])" if "a \<in> own" for a
      using r(7) [OF that] by (auto simp: h2_def h1_def)
    ultimately show ?thesis using r w False by (simp add: wl_rep_def)
  qed
  then show "wl_rep own (xs @ [w]) (push_locked w s)" .
  show "wdata (snd (push_locked w s) a) = wdata (snd s a)"
    by (simp add: s push_locked_def Let_def split: option.splits)
qed

text \<open>Removal of an element in the middle of the list; popping is the case of the first element.\<close>

lemma unlink_rep:
  assumes rep: "wl_rep own (as @ w # bs) s"
  shows "remove_locked w s = (True, snd (remove_locked w s))" "wl_rep own (as @ bs) (snd (remove_locked w s))"
proof -
  obtain l h where s: "s = (l, h)" by (cases s)
  let ?xs = "as @ w # bs"
  have r: "distinct ?xs" "set ?xs \<subseteq> own" "dl h None ?xs None" "wl_head l = first ?xs" "wl_tail l = final ?xs"
    "wl_count l = of_nat (length ?xs)" "\<And>a. a \<in> own \<Longrightarrow> w_in_list (h a) \<longleftrightarrow> a \<in> set ?xs"
    using rep by (auto simp: wl_rep_def s)
  have dw: "dl h None as (Some w)" "w_prev (h w) = final as" "w_next (h w) = first bs" "dl h (Some w) bs None"
    using r(3) by (auto simp: dl_append final_def first_def)
  have win: "w_in_list (h w)" using r(2,7) by auto
  define h1 where "h1 = (if as = [] then h else set_next (last as) (first bs) h)"
  define h2 where "h2 = (if bs = [] then h1 else set_prev (hd bs) (final as) h1)"
  define h3 where "h3 = set_in_list w False (set_next w None (set_prev w None h2))"
  define l1 where "l1 = (if as = [] then l\<lparr>wl_head := first bs\<rparr> else l)"
  define l2 where "l2 = (if bs = [] then l1\<lparr>wl_tail := final as\<rparr> else l1)\<lparr>wl_count := wl_count l - 1\<rparr>"
  have wn: "as \<noteq> [] \<Longrightarrow> w \<noteq> last as" "bs \<noteq> [] \<Longrightarrow> w \<noteq> hd bs" using r(1) by auto
  have rem: "remove_locked w s = (True, l2, h3)"
  proof (cases as rule: rev_cases)
    case Nil
    show ?thesis
    proof (cases bs)
      case Nil
      then show ?thesis using \<open>as = []\<close> win dw r(4,5)
        by (simp add: remove_locked_def s l2_def l1_def h1_def h2_def h3_def Let_def)
    next
      case (Cons b bs')
      then show ?thesis using Nil win dw r(4,5) wn
        by (simp add: remove_locked_def s l2_def l1_def h1_def h2_def h3_def Let_def final_def)
    qed
  next
    case (snoc as' a)
    then have "w \<noteq> a" using wn(1) by auto
    show ?thesis
    proof (cases bs)
      case Nil
      then show ?thesis using snoc win dw r(4,5) \<open>w \<noteq> a\<close>
        by (simp add: remove_locked_def s l2_def l1_def h1_def h2_def h3_def Let_def first_def)
    next
      case (Cons b bs')
      then show ?thesis using snoc win dw r(4,5) \<open>w \<noteq> a\<close>
        by (simp add: remove_locked_def s l2_def l1_def h1_def h2_def h3_def Let_def final_def first_def)
    qed
  qed
  then show "remove_locked w s = (True, snd (remove_locked w s))" by simp
  have a1: "dl h1 None as (first bs)" using dl_set_next_last [OF dw(1), of "first bs"] r(1) by (auto simp: h1_def)
  have "set as \<inter> set bs = {}" using r(1) by auto
  then have disj: "as \<noteq> [] \<Longrightarrow> last as \<notin> set bs" "bs \<noteq> [] \<Longrightarrow> hd bs \<notin> set as"
    using last_in_set [of as] hd_in_set [of bs] by blast+
  have "dl h1 (Some w) bs None \<longleftrightarrow> dl h (Some w) bs None"
    by (rule dl_frame) (use disj(1) in \<open>auto simp: h1_def\<close>)
  then have b1: "dl h1 (Some w) bs None" using dw(4) by simp
  have "dl h2 None as (first bs) \<longleftrightarrow> dl h1 None as (first bs)"
    by (rule dl_frame) (use disj(2) in \<open>auto simp: h2_def\<close>)
  then have a2: "dl h2 None as (first bs)" using a1 by simp
  have b2: "dl h2 (final as) bs None"
    using b1 dl_set_prev_hd [of h1 "Some w" _ _ None "final as"] r(1) unfolding h2_def by (cases bs) auto
  have "dl h2 None (as @ bs) None"
    using a2 b2 by (subst dl_append) (auto simp: final_def first_def split: if_splits list.splits)
  then have "dl h3 None (as @ bs) None" unfolding h3_def using r(1) by (subst dl_frame [where h = h2]) auto
  moreover have "w_in_list (h3 a) \<longleftrightarrow> a \<in> set (as @ bs)" if "a \<in> own" for a
    using r(7) [OF that] r(1) by (auto simp: h3_def h2_def h1_def)
  ultimately show "wl_rep own (as @ bs) (snd (remove_locked w s))"
    using r unfolding rem by (auto simp: wl_rep_def l2_def l1_def final_append)
qed

lemma remove_locked_rep:
  assumes rep: "wl_rep own xs s" and w: "w \<in> own"
  shows "fst (remove_locked w s) \<longleftrightarrow> w \<in> set xs" "wl_rep own (remove1 w xs) (snd (remove_locked w s))"
    "wdata (snd (snd (remove_locked w s)) a) = wdata (snd s a)"
proof -
  obtain l h where s: "s = (l, h)" by (cases s)
  show "wdata (snd (snd (remove_locked w s)) a) = wdata (snd s a)"
    by (simp add: s remove_locked_def Let_def split: option.splits)
  have "(fst (remove_locked w s) \<longleftrightarrow> w \<in> set xs) \<and> wl_rep own (remove1 w xs) (snd (remove_locked w s))"
  proof (cases "w \<in> set xs")
    case True
    then obtain as bs where xs: "xs = as @ w # bs" by (meson split_list)
    have "remove1 w xs = as @ bs" using rep by (auto simp: xs wl_rep_def remove1_append s)
    then show ?thesis using unlink_rep [of own as w bs s] rep True unfolding xs
      by (cases "remove_locked w s") simp
  next
    case False
    then have "\<not> w_in_list (h w)" using rep w by (auto simp: wl_rep_def s)
    then show ?thesis using False rep by (simp add: remove_locked_def s remove1_idem)
  qed
  then show "fst (remove_locked w s) \<longleftrightarrow> w \<in> set xs" "wl_rep own (remove1 w xs) (snd (remove_locked w s))" by auto
qed

text \<open>Popping the first waiter is removing it.\<close>

lemma pop_is_remove:
  assumes "wl_rep own (w # xs) s"
  shows "pop_front_locked s = (Some w, snd (remove_locked w s))"
proof -
  obtain l h where s: "s = (l, h)" by (cases s)
  have r: "wl_head l = Some w" "w_prev (h w) = None" "w_in_list (h w)" "w_next (h w) = first xs" "distinct (w # xs)"
    using assms by (auto simp: wl_rep_def s first_def)
  show ?thesis
  proof (cases xs)
    case Nil
    then show ?thesis using r by (simp add: pop_front_locked_def remove_locked_def s Let_def)
  next
    case (Cons b bs)
    then show ?thesis using r by (simp add: pop_front_locked_def remove_locked_def s Let_def)
  qed
qed

lemma pop_front_rep:
  assumes rep: "wl_rep own xs s"
  shows "fst (pop_front_locked s) = first xs" "wl_rep own (tl xs) (snd (pop_front_locked s))"
    "wdata (snd (snd (pop_front_locked s)) a) = wdata (snd s a)"
proof -
  have "fst (pop_front_locked s) = first xs \<and> wl_rep own (tl xs) (snd (pop_front_locked s))
    \<and> wdata (snd (snd (pop_front_locked s)) a) = wdata (snd s a)"
  proof (cases xs)
    case Nil
    then show ?thesis using rep by (cases s) (simp add: wl_rep_def pop_front_locked_def)
  next
    case (Cons w ys)
    then have "w \<in> own" "wl_rep own (w # ys) s" using rep by (auto simp: wl_rep_def split: prod.splits)
    then show ?thesis using remove_locked_rep [of own "w # ys" s w] pop_is_remove [of own w ys s] Cons by simp
  qed
  then show "fst (pop_front_locked s) = first xs" "wl_rep own (tl xs) (snd (pop_front_locked s))"
    "wdata (snd (snd (pop_front_locked s)) a) = wdata (snd s a)" by auto
qed

lemma empty_relaxed_rep:
  assumes "wl_rep own xs (l, h)" "length xs < 2 ^ 32"
  shows "empty_relaxed l \<longleftrightarrow> xs = []"
proof -
  have "wl_count l = of_nat (length xs)" using assms(1) by (simp add: wl_rep_def)
  moreover have "(of_nat (length xs) :: u32) = 0 \<longleftrightarrow> length xs = 0"
  proof -
    have "unat (of_nat (length xs) :: u32) = length xs" using assms(2) by (simp add: unat_of_nat)
    then show ?thesis by (metis unat_eq_0)
  qed
  ultimately show ?thesis by (simp add: empty_relaxed_def)
qed

lemma wl_new_rep: "\<forall>w\<in>own. \<not> w_in_list (h w) \<Longrightarrow> wl_rep own [] (wl_new, h)"
  by (simp add: wl_rep_def wl_new_def)

text \<open>
  What the primitives rely on: a list of waiters with append, take-first and removal of a given
  waiter, none of which touches anything but the links.
\<close>

locale wait_list =
  fixes rep :: "nat list \<Rightarrow> 's \<Rightarrow> bool" and own :: "nat set" and data :: "nat \<Rightarrow> 's \<Rightarrow> 'd"
    and push :: "nat \<Rightarrow> 's \<Rightarrow> 's" and pop :: "'s \<Rightarrow> nat option \<times> 's" and remove :: "nat \<Rightarrow> 's \<Rightarrow> bool \<times> 's"
  assumes push_rep: "rep xs s \<Longrightarrow> w \<in> own \<Longrightarrow> w \<notin> set xs \<Longrightarrow> rep (xs @ [w]) (push w s)"
    and push_data: "rep xs s \<Longrightarrow> w \<in> own \<Longrightarrow> w \<notin> set xs \<Longrightarrow> data a (push w s) = data a s"
    and pop_rep: "rep xs s \<Longrightarrow> fst (pop s) = first xs \<and> rep (tl xs) (snd (pop s)) \<and> data a (snd (pop s)) = data a s"
    and remove_rep: "rep xs s \<Longrightarrow> w \<in> own \<Longrightarrow> fst (remove w s) = (w \<in> set xs) \<and> rep (remove1 w xs) (snd (remove w s))
      \<and> data a (snd (remove w s)) = data a s"
begin

text \<open>A waiter that detaches before it is popped is never popped; the others keep their order.\<close>

fun pops :: "nat \<Rightarrow> 's \<Rightarrow> nat list \<times> 's" where
  "pops 0 s = ([], s)"
| "pops (Suc n) s = (case pop s of (None, s1) \<Rightarrow> ([], s1) | (Some w, s1) \<Rightarrow> (case pops n s1 of (ws, s2) \<Rightarrow> (w # ws, s2)))"

lemma pops_rep:
  assumes "rep xs s"
  shows "fst (pops n s) = take n xs \<and> rep (drop n xs) (snd (pops n s))"
  using assms
proof (induction n arbitrary: xs s)
  case (Suc n)
  obtain w s1 where p: "pop s = (w, s1)" by fastforce
  have r: "w = first xs" "rep (tl xs) s1" using pop_rep [OF Suc.prems] p by auto
  show ?case
  proof (cases xs)
    case Nil
    then show ?thesis using p r by (simp add: first_def)
  next
    case (Cons x ys)
    then show ?thesis using p r Suc.IH [of ys s1] by (auto simp: first_def split: prod.splits)
  qed
qed simp

lemma detached_not_popped:
  assumes "rep xs s" "w \<in> own" "distinct xs"
  shows "w \<notin> set (fst (pops n (snd (remove w s)))) \<and> fst (pops n (snd (remove w s))) = take n (remove1 w xs)"
  using pops_rep [of "remove1 w xs" "snd (remove w s)" n] remove_rep [OF assms(1,2)] assms(3)
  by (auto dest: in_set_takeD)

end

interpretation wls: wait_list "wl_rep own" own "\<lambda>a s. wdata (snd s a)" push_locked pop_front_locked remove_locked for own
  by unfold_locales (auto simp: push_locked_rep pop_front_rep remove_locked_rep)

section \<open>The wake loops\<close>

lemma fire_links:
  "w_prev (e_nodes (snd (fire_waiter reuse w e)) a) = w_prev (e_nodes e a)"
  "w_next (e_nodes (snd (fire_waiter reuse w e)) a) = w_next (e_nodes e a)"
  "w_in_list (e_nodes (snd (fire_waiter reuse w e)) a) = w_in_list (e_nodes e a)"
  by (simp_all add: fire_waiter_def claim_def set_winner_def split: winner.splits)

lemma fire_rep:
  assumes "wl_rep own xs (l, e_nodes e)"
  shows "wl_rep own xs (l, e_nodes (snd (fire_waiter reuse w e)))"
proof -
  have "dl (e_nodes (snd (fire_waiter reuse w e))) None xs None \<longleftrightarrow> dl (e_nodes e) None xs None"
    by (rule dl_frame) (simp add: fire_links)
  then show ?thesis using assms by (simp add: wl_rep_def fire_links)
qed

text \<open>A plain waiter, as \<open>Waiter::reset\<close> leaves it: claimed through its own word, which is still free.\<close>

definition plain :: "nat \<Rightarrow> wenv \<Rightarrow> bool" where
  "plain w e \<longleftrightarrow> w_winner (e_nodes e w) = Own \<and> w_own (e_nodes e w) = - 1"

definition resume_waiter :: "bool \<Rightarrow> nodes \<Rightarrow> nat \<Rightarrow> sched \<Rightarrow> sched" where
  "resume_waiter reuse h w s = resume_on reuse (w_h (h w)) (w_tid (h w)) s"

lemma fire_plain:
  assumes "plain w e"
  shows "fire_waiter reuse w e = (True, e\<lparr>e_nodes := (e_nodes e)(w := (e_nodes e w)\<lparr>w_own := w_index (e_nodes e w)\<rparr>),
    e_sched := resume_waiter reuse (e_nodes e) w (e_sched e)\<rparr>)"
  using assms by (simp add: fire_waiter_def claim_def winner_word_def set_winner_def plain_def resume_waiter_def)

lemma wdata_eqD:
  assumes "wdata x = wdata y"
  shows "w_winner x = w_winner y" "w_own x = w_own y" "w_h x = w_h y" "w_tid x = w_tid y" "w_index x = w_index y"
  using assms by (simp_all add: wdata_def)

lemma wake_up_to_plain:
  assumes "wl_rep own xs (l, e_nodes e)" "\<And>w. w \<in> set xs \<Longrightarrow> plain w e"
  shows "\<exists>l' e'. wake_up_to reuse (int k) l e = Some (l', e') \<and> wl_rep own (drop k xs) (l', e_nodes e')
    \<and> e_sched e' = fold (resume_waiter reuse (e_nodes e)) (take k xs) (e_sched e)
    \<and> e_shared e' = e_shared e \<and> (\<forall>w\<in>set (drop k xs). plain w e')
    \<and> (\<forall>w. w \<notin> set (take k xs) \<longrightarrow> wdata (e_nodes e' w) = wdata (e_nodes e w))"
  using assms
proof (induction k arbitrary: xs l e)
  case 0
  then show ?case by (subst wake_up_to.simps) auto
next
  case (Suc k)
  obtain p l1 h1 where pop: "pop_front_locked (l, e_nodes e) = (p, l1, h1)" by (metis prod_cases3)
  have r: "p = first xs" "wl_rep own (tl xs) (l1, h1)" "\<And>a. wdata (h1 a) = wdata (e_nodes e a)"
    using pop_front_rep [OF Suc.prems(1)] pop by auto
  show ?case
  proof (cases xs)
    case Nil
    then have "wake_up_to reuse (int (Suc k)) l e = Some (l1, e\<lparr>e_nodes := h1\<rparr>)"
      using pop r(1) by (subst wake_up_to.simps) (simp add: Let_def)
    then show ?thesis using r Nil by simp
  next
    case (Cons w ys)
    define e1 where "e1 = e\<lparr>e_nodes := h1\<rparr>"
    have pl: "plain a e1" if "a \<in> set xs" for a
      using Suc.prems(2) [OF that] wdata_eqD [OF r(3)] by (simp add: plain_def e1_def)
    define e2 where "e2 = e1\<lparr>e_nodes := h1(w := (h1 w)\<lparr>w_own := w_index (h1 w)\<rparr>), e_sched := resume_waiter reuse h1 w (e_sched e)\<rparr>"
    have f: "fire_waiter reuse w e1 = (True, e2)" using fire_plain [OF pl] Cons by (simp add: e2_def e1_def)
    have step: "wake_up_to reuse (int (Suc k)) l e = wake_up_to reuse (int k) l1 e2"
      using pop r(1) f Cons by (subst wake_up_to.simps) (simp add: Let_def e1_def)
    have "w \<notin> set ys" using Suc.prems(1) Cons by (simp add: wl_rep_def)
    then have p2: "plain a e2" if "a \<in> set ys" for a
      using pl [of a] that Cons by (auto simp: plain_def e2_def e1_def)
    have "wl_rep own ys (l1, e_nodes e2)"
      using fire_rep [of own ys l1 e1 reuse w] r(2) Cons f by (simp add: e1_def)
    from Suc.IH [OF this p2] obtain l' e' where ih: "wake_up_to reuse (int k) l1 e2 = Some (l', e')"
      "wl_rep own (drop k ys) (l', e_nodes e')" "e_sched e' = fold (resume_waiter reuse (e_nodes e2)) (take k ys) (e_sched e2)"
      "e_shared e' = e_shared e2" "\<forall>w\<in>set (drop k ys). plain w e'"
      "\<forall>a. a \<notin> set (take k ys) \<longrightarrow> wdata (e_nodes e' a) = wdata (e_nodes e2 a)" by auto
    have res: "resume_waiter reuse (e_nodes e2) a s = resume_waiter reuse (e_nodes e) a s"
      "resume_waiter reuse h1 a s = resume_waiter reuse (e_nodes e) a s" for a s
      using wdata_eqD [OF r(3), of a] by (auto simp: resume_waiter_def e2_def)
    have "e_sched e' = fold (resume_waiter reuse (e_nodes e)) (take (Suc k) xs) (e_sched e)"
    proof -
      have "resume_waiter reuse (e_nodes e2) = resume_waiter reuse (e_nodes e)" using res(1) by blast
      then show ?thesis using ih(3) Cons res(2) by (simp add: e2_def)
    qed
    moreover have "wdata (e_nodes e' a) = wdata (e_nodes e a)" if "a \<notin> set (take (Suc k) xs)" for a
      using that ih(6) r(3) [of a] Cons by (simp add: e2_def e1_def)
    ultimately show ?thesis using step ih Cons by (simp add: e2_def e1_def)
  qed
qed

lemma wake_all_up_to:
  assumes "wl_rep own xs (l, e_nodes e)" "\<And>w. w \<in> set xs \<Longrightarrow> plain w e" "length xs < k"
  shows "wake_all reuse l e = wake_up_to reuse (int k) l e"
  using assms
proof (induction xs arbitrary: k l e)
  case Nil
  then obtain j where "k = Suc j" by (cases k) auto
  moreover have "fst (pop_front_locked (l, e_nodes e)) = None" using pop_front_rep(1) [OF Nil(1)] by simp
  ultimately show ?case by (subst wake_all.simps, subst wake_up_to.simps) (simp add: Let_def)
next
  case (Cons w ys)
  obtain j where k: "k = Suc j" using Cons.prems(3) by (cases k) auto
  obtain l1 h1 where pop: "pop_front_locked (l, e_nodes e) = (Some w, l1, h1)"
    using pop_front_rep(1) [OF Cons.prems(1)] by (metis first_simps(2) prod_cases3 fst_conv)
  have r: "wl_rep own ys (l1, h1)" "\<And>a. wdata (h1 a) = wdata (e_nodes e a)"
    using pop_front_rep [OF Cons.prems(1)] pop by auto
  define e1 where "e1 = e\<lparr>e_nodes := h1\<rparr>"
  have pl: "plain a e1" if "a \<in> set (w # ys)" for a
    using Cons.prems(2) [OF that] wdata_eqD [OF r(2)] by (simp add: plain_def e1_def)
  define e2 where "e2 = snd (fire_waiter reuse w e1)"
  have f: "fire_waiter reuse w e1 = (True, e2)" using fire_plain [OF pl, of w] by (simp add: e2_def)
  have "w \<notin> set ys" using Cons.prems(1) by (simp add: wl_rep_def)
  then have p2: "plain a e2" if "a \<in> set ys" for a
    using pl [of a] fire_plain [OF pl, of w] that by (auto simp: plain_def e2_def e1_def)
  have "wl_rep own ys (l1, e_nodes e2)" using fire_rep [of own ys l1 e1 reuse w] r(1) by (simp add: e1_def e2_def)
  from Cons.IH [OF this p2, of j] Cons.prems(3) k have "wake_all reuse l1 e2 = wake_up_to reuse (int j) l1 e2" by simp
  then show ?case using pop f k by (subst wake_all.simps, subst wake_up_to.simps) (simp add: Let_def e1_def)
qed

section \<open>Frame\<close>

text \<open>The list operations touch no node outside the list, so lists with different nodes do not interfere.\<close>

lemma pop_front_frame:
  assumes "wl_rep own xs s" "a \<notin> set xs"
  shows "snd (snd (pop_front_locked s)) a = snd s a"
proof (cases xs)
  case Nil
  then show ?thesis using assms by (cases s) (simp add: wl_rep_def pop_front_locked_def)
next
  case (Cons w ys)
  obtain l h where s: "s = (l, h)" by (cases s)
  have "wl_head l = Some w" "w_next (h w) = first ys" using assms(1) Cons by (auto simp: wl_rep_def s first_def)
  then show ?thesis using assms(2) Cons
    by (cases ys) (auto simp: s pop_front_locked_def Let_def set_in_list_def set_next_def set_prev_def)
qed

lemma fire_frame: "a \<noteq> w \<Longrightarrow> e_nodes (snd (fire_waiter reuse w e)) a = e_nodes e a"
  by (simp add: fire_waiter_def claim_def set_winner_def split: winner.splits)

lemma wake_up_to_frame:
  assumes "wl_rep own xs (l, e_nodes e)" "wake_up_to reuse k l e = Some (l', e')" "a \<notin> set xs"
  shows "e_nodes e' a = e_nodes e a"
  using assms
proof (induction xs arbitrary: k l e)
  case Nil
  have p: "fst (pop_front_locked (l, e_nodes e)) = None" using pop_front_rep(1) [OF Nil(1)] by simp
  show ?case using Nil(2) p pop_front_frame [OF Nil(1), of a] by (subst (asm) wake_up_to.simps) (auto simp: Let_def split: if_splits)
next
  case (Cons w ys)
  show ?case
  proof (cases "k \<le> 0")
    case True
    then show ?thesis using Cons.prems(2) by (subst (asm) wake_up_to.simps) simp
  next
    case False
    define p where "p = pop_front_locked (l, e_nodes e)"
    define r where "r = fire_waiter reuse w (e\<lparr>e_nodes := snd (snd p)\<rparr>)"
    have p: "fst p = Some w" "wl_rep own ys (fst (snd p), snd (snd p))" "snd (snd p) a = e_nodes e a"
      using pop_front_rep [OF Cons.prems(1)] pop_front_frame [OF Cons.prems(1,3)] by (simp_all add: p_def)
    have "wake_up_to reuse (if fst r then k - 1 else k) (fst (snd p)) (snd r) = Some (l', e')"
      using Cons.prems(2) False p(1) by (subst (asm) wake_up_to.simps) (simp add: Let_def p_def r_def)
    moreover have "wl_rep own ys (fst (snd p), e_nodes (snd r))"
      using fire_rep [of own ys "fst (snd p)" "e\<lparr>e_nodes := snd (snd p)\<rparr>" reuse w] p(2) by (simp add: r_def)
    ultimately have "e_nodes e' a = e_nodes (snd r) a" using Cons.IH Cons.prems(3) by simp
    then show ?thesis using fire_frame [of a w reuse "e\<lparr>e_nodes := snd (snd p)\<rparr>"] Cons.prems(3) p(3) by (simp add: r_def)
  qed
qed

lemma wl_rep_frame:
  assumes "wl_rep own xs (l, h)" "\<And>a. a \<in> own \<Longrightarrow> h' a = h a"
  shows "wl_rep own xs (l, h')"
proof -
  have "set xs \<subseteq> own" using assms(1) by (simp add: wl_rep_def)
  then have "dl h' None xs None \<longleftrightarrow> dl h None xs None" using assms(2) by (intro dl_frame) auto
  then show ?thesis using assms by (simp add: wl_rep_def)
qed

section \<open>Property\<close>

datatype wl_op = L_push nat | L_pop | L_remove nat

datatype wl_res = V_push | V_pop "nat option" | V_remove bool

fun wl_exec :: "wl_op \<Rightarrow> WaitList \<times> nodes \<Rightarrow> wl_res \<times> WaitList \<times> nodes" where
  "wl_exec (L_push w) s = (V_push, push_locked w s)"
| "wl_exec L_pop s = (case pop_front_locked s of (r, s1) \<Rightarrow> (V_pop r, s1))"
| "wl_exec (L_remove w) s = (case remove_locked w s of (r, s1) \<Rightarrow> (V_remove r, s1))"

text \<open>What the list promises, on plain lists; a node is pushed only while it is in no list.\<close>

fun a_wl :: "wl_op \<Rightarrow> nat list \<Rightarrow> wl_res \<times> nat list" where
  "a_wl (L_push w) xs = (V_push, xs @ [w])"
| "a_wl L_pop xs = (V_pop (first xs), tl xs)"
| "a_wl (L_remove w) xs = (V_remove (w \<in> set xs), remove1 w xs)"

fun a_legal :: "nat set \<Rightarrow> wl_op \<Rightarrow> nat list \<Rightarrow> bool" where
  "a_legal own (L_push w) xs \<longleftrightarrow> w \<in> own \<and> w \<notin> set xs"
| "a_legal own L_pop xs \<longleftrightarrow> True"
| "a_legal own (L_remove w) xs \<longleftrightarrow> w \<in> own"

fun wl_run :: "wl_op list \<Rightarrow> WaitList \<times> nodes \<Rightarrow> wl_res list \<times> WaitList \<times> nodes" where
  "wl_run [] s = ([], s)"
| "wl_run (x # ops) s = (case wl_exec x s of (r, s1) \<Rightarrow> case wl_run ops s1 of (rs, s2) \<Rightarrow> (r # rs, s2))"

fun a_wl_run :: "wl_op list \<Rightarrow> nat list \<Rightarrow> wl_res list \<times> nat list" where
  "a_wl_run [] xs = ([], xs)"
| "a_wl_run (x # ops) xs = (case a_wl x xs of (r, xs1) \<Rightarrow> case a_wl_run ops xs1 of (rs, xs2) \<Rightarrow> (r # rs, xs2))"

fun a_legal_run :: "nat set \<Rightarrow> wl_op list \<Rightarrow> nat list \<Rightarrow> bool" where
  "a_legal_run own [] xs \<longleftrightarrow> True"
| "a_legal_run own (x # ops) xs \<longleftrightarrow> a_legal own x xs \<and> a_legal_run own ops (snd (a_wl x xs))"

lemma wl_exec_rep:
  assumes "wl_rep own xs s" "a_legal own x xs"
  shows "fst (wl_exec x s) = fst (a_wl x xs) \<and> wl_rep own (snd (a_wl x xs)) (snd (wl_exec x s))
    \<and> wdata (snd (snd (wl_exec x s)) a) = wdata (snd s a)"
proof (cases x)
  case (L_push w)
  then show ?thesis using assms wls.push_rep wls.push_data by auto
next
  case L_pop
  then show ?thesis using wls.pop_rep [OF assms(1), of a] by (auto split: prod.splits)
next
  case (L_remove w)
  then show ?thesis using wls.remove_rep [OF assms(1), of w a] assms(2) by (auto split: prod.splits)
qed

text \<open>
  C10. The intrusive \<open>WaitList\<close> is a FIFO list with removal: any sequence of pushes, pops and removals answers as
  the same sequence on a plain list (a removal tells whether the waiter was still in the list), the links
  stay a doubly linked list of exactly those waiters, and nothing but the links of a node is changed.
\<close>

theorem wait_list_refines:
  assumes "wl_rep own xs s" "a_legal_run own ops xs"
  shows "fst (wl_run ops s) = fst (a_wl_run ops xs) \<and> wl_rep own (snd (a_wl_run ops xs)) (snd (wl_run ops s))
    \<and> wdata (snd (snd (wl_run ops s)) a) = wdata (snd s a)"
  using assms
proof (induction ops arbitrary: xs s)
  case (Cons x ops)
  obtain r s1 where x: "wl_exec x s = (r, s1)" by (cases "wl_exec x s")
  have "wl_rep own (snd (a_wl x xs)) s1" "r = fst (a_wl x xs)" "wdata (snd s1 a) = wdata (snd s a)"
    using wl_exec_rep [OF Cons.prems(1), of x a] Cons.prems(2) x by auto
  then show ?case using Cons.IH [of "snd (a_wl x xs)" s1] Cons.prems(2) x by (auto split: prod.splits)
qed simp

theorem wait_list_refines_witness:
  "fst (wl_run [L_push 5, L_push 6, L_push 7, L_remove 6, L_pop, L_remove 5, L_pop, L_pop]
      (wl_new, \<lambda>_. \<lparr>w_h = 0, w_winner = Own, w_own = - 1, w_prev = None, w_next = None, w_index = 0, w_tid = 0, w_in_list = False\<rparr>))
    = [V_push, V_push, V_push, V_remove True, V_pop (Some 5), V_remove False, V_pop (Some 7), V_pop None]"
proof -
  let ?h = "\<lambda>_::nat. \<lparr>w_h = 0, w_winner = Own, w_own = - 1, w_prev = None, w_next = None, w_index = 0, w_tid = 0, w_in_list = False\<rparr>"
  have r: "wl_rep {5, 6, 7} [] (wl_new, ?h)" by (rule wl_new_rep) simp
  show ?thesis
    using wait_list_refines [OF r, of "[L_push 5, L_push 6, L_push 7, L_remove 6, L_pop, L_remove 5, L_pop, L_pop]"] by simp
qed

end
