(* ===== verification/Wait_Protocol.thy ===== *)
theory Wait_Protocol
  imports Wait_List "HOL-Library.Extended_Nat"
begin

text \<open>
  \<open>sync/Wait.h\<close>: the protocol by which a task waits on a primitive (\<open>OpWait\<close> around an operation with
  \<open>try_complete\<close>, \<open>attach\<close> and \<open>detach\<close>) and by which another task notifies it. A primitive is given by
  its operations as the code has them, \<open>wprim\<close>; \<open>wstep\<close> interleaves any number of tasks at the atomic
  accesses of the code: the attempt, the push under the list lock, the re-check after the fence, the
  removal under the list lock, the notifier's update, its test for an empty list, and its wake loop under
  the list lock. Memory accesses are sequentially consistent, which the fences of the code are there
  for. The locale \<open>wait_prim\<close> states what a primitive owes the protocol; the semaphore, the events, the
  wait group and the channels interpret it.
\<close>

text \<open>
  The operations: \<open>p_try\<close> is \<open>try_complete\<close>, \<open>p_must_wait\<close> the value \<open>attach\<close> returns after pushing,
  \<open>p_act\<close> a notifier's atomic update together with the number of waiters it then sets out to wake.
\<close>

record ('p, 'a) wprim =
  p_try :: "'p \<Rightarrow> 'p option"
  p_must_wait :: "'p \<Rightarrow> bool"
  p_allowed :: "'a \<Rightarrow> 'p \<Rightarrow> bool"
  p_act :: "'a \<Rightarrow> 'p \<Rightarrow> 'p \<times> enat"

datatype wpc = P_idle | P_try bool | P_attach | P_check | P_detach | P_park | P_notify enat | P_wake enat

record 'p wsys =
  y_prim :: 'p
  y_queue :: "nat list"
  y_pc :: "nat \<Rightarrow> wpc"
  y_fired :: "nat \<Rightarrow> bool"

definition jump :: "nat \<Rightarrow> wpc \<Rightarrow> 'p wsys \<Rightarrow> 'p wsys" where
  "jump t l s = s\<lparr>y_pc := (y_pc s)(t := l)\<rparr>"

text \<open>The waiters a wake loop with budget \<open>b\<close> pops, and the rest of the list.\<close>

definition wake_split :: "enat \<Rightarrow> nat list \<Rightarrow> nat list \<times> nat list" where
  "wake_split b q = (case b of enat k \<Rightarrow> (take k q, drop k q) | \<infinity> \<Rightarrow> (q, []))"

definition wsys_init :: "'p \<Rightarrow> 'p wsys \<Rightarrow> bool" where
  "wsys_init p s \<longleftrightarrow> s = \<lparr>y_prim = p, y_queue = [], y_pc = (\<lambda>_. P_idle), y_fired = (\<lambda>_. False)\<rparr>"

inductive wstep :: "('p, 'a) wprim \<Rightarrow> nat \<Rightarrow> 'p wsys \<Rightarrow> 'p wsys \<Rightarrow> bool" for P n where
  call: "t < n \<Longrightarrow> y_pc s t = P_idle \<Longrightarrow> wstep P n s (jump t (P_try False) s)"
| try_ok: "t < n \<Longrightarrow> y_pc s t = P_try b \<Longrightarrow> p_try P (y_prim s) = Some p \<Longrightarrow> wstep P n s (jump t P_idle (s\<lparr>y_prim := p\<rparr>))"
| try_fail: "t < n \<Longrightarrow> y_pc s t = P_try b \<Longrightarrow> p_try P (y_prim s) = None \<Longrightarrow> wstep P n s (jump t P_attach s)"
| cancelled: "t < n \<Longrightarrow> y_pc s t = P_attach \<Longrightarrow> wstep P n s (jump t P_idle s)"
| attach: "t < n \<Longrightarrow> y_pc s t = P_attach \<Longrightarrow> wstep P n s (jump t P_check (s\<lparr>y_queue := y_queue s @ [t]\<rparr>))"
| check_wait: "t < n \<Longrightarrow> y_pc s t = P_check \<Longrightarrow> p_must_wait P (y_prim s) \<Longrightarrow> wstep P n s (jump t P_park s)"
| check_ready: "t < n \<Longrightarrow> y_pc s t = P_check \<Longrightarrow> \<not> p_must_wait P (y_prim s) \<Longrightarrow> wstep P n s (jump t P_detach s)"
| detach_in: "t < n \<Longrightarrow> y_pc s t = P_detach \<Longrightarrow> t \<in> set (y_queue s) \<Longrightarrow>
    wstep P n s (jump t (P_try False) (s\<lparr>y_queue := remove1 t (y_queue s)\<rparr>))"
| detach_out: "t < n \<Longrightarrow> y_pc s t = P_detach \<Longrightarrow> t \<notin> set (y_queue s) \<Longrightarrow> wstep P n s (jump t P_park s)"
| resume: "t < n \<Longrightarrow> y_pc s t = P_park \<Longrightarrow> y_fired s t \<Longrightarrow>
    wstep P n s (jump t (P_try True) (s\<lparr>y_fired := (y_fired s)(t := False)\<rparr>))"
| cancel: "t < n \<Longrightarrow> y_pc s t = P_park \<Longrightarrow> t \<in> set (y_queue s) \<Longrightarrow>
    wstep P n s (jump t P_idle (s\<lparr>y_queue := remove1 t (y_queue s)\<rparr>))"
| act: "t < n \<Longrightarrow> y_pc s t = P_idle \<Longrightarrow> p_allowed P a (y_prim s) \<Longrightarrow> p_act P a (y_prim s) = (p, b) \<Longrightarrow>
    wstep P n s (jump t (if b = 0 then P_idle else P_notify b) (s\<lparr>y_prim := p\<rparr>))"
| notify_none: "t < n \<Longrightarrow> y_pc s t = P_notify b \<Longrightarrow> y_queue s = [] \<Longrightarrow> wstep P n s (jump t P_idle s)"
| notify_some: "t < n \<Longrightarrow> y_pc s t = P_notify b \<Longrightarrow> y_queue s \<noteq> [] \<Longrightarrow> wstep P n s (jump t (P_wake b) s)"
| wake: "t < n \<Longrightarrow> y_pc s t = P_wake b \<Longrightarrow> wake_split b (y_queue s) = (ws, q) \<Longrightarrow>
    wstep P n s (jump t P_idle (s\<lparr>y_queue := q, y_fired := (\<lambda>u. y_fired s u \<or> u \<in> set ws)\<rparr>))"

section \<open>Wake-ups in flight\<close>

fun pc_tokens :: "wpc \<Rightarrow> enat" where
  "pc_tokens (P_try True) = 1"
| "pc_tokens (P_notify b) = b"
| "pc_tokens (P_wake b) = b"
| "pc_tokens _ = 0"

definition tok :: "'p wsys \<Rightarrow> nat \<Rightarrow> enat" where
  "tok s t = (if y_fired s t then 1 else 0) + pc_tokens (y_pc s t)"

definition tokens :: "nat \<Rightarrow> 'p wsys \<Rightarrow> enat" where
  "tokens n s = (\<Sum>t<n. tok s t)"

definition attached :: "wpc \<Rightarrow> bool" where
  "attached l \<longleftrightarrow> l \<in> {P_check, P_detach, P_park}"

text \<open>The list holds exactly the attached tasks that nobody has fired yet.\<close>

definition queue_ok :: "nat \<Rightarrow> 'p wsys \<Rightarrow> bool" where
  "queue_ok n s \<longleftrightarrow> distinct (y_queue s) \<and> set (y_queue s) \<subseteq> {..<n}
     \<and> (\<forall>t. t \<in> set (y_queue s) \<longleftrightarrow> attached (y_pc s t) \<and> \<not> y_fired s t)
     \<and> (\<forall>t. y_fired s t \<longrightarrow> attached (y_pc s t))"

lemma jump_simps [simp]:
  "y_prim (jump t l s) = y_prim s" "y_queue (jump t l s) = y_queue s" "y_fired (jump t l s) = y_fired s"
  "y_pc (jump t l s) = (y_pc s)(t := l)"
  by (simp_all add: jump_def)

lemma attached_simps [simp]:
  "attached P_check" "attached P_detach" "attached P_park" "\<not> attached P_idle" "\<not> attached (P_try b)" "\<not> attached P_attach"
  "\<not> attached (P_notify b')" "\<not> attached (P_wake b')"
  by (simp_all add: attached_def)

lemma tokens_split:
  assumes "t < n"
  shows "tokens n s = tok s t + (\<Sum>u\<in>{..<n} - {t}. tok s u)"
  using assms by (simp add: tokens_def sum.remove)

text \<open>Only the task that steps changes its share.\<close>

lemma tokens_step:
  assumes "t < n" "\<And>u. u \<noteq> t \<Longrightarrow> tok s' u = tok s u"
  obtains r where "tokens n s = tok s t + r" "tokens n s' = tok s' t + r"
proof
  show "tokens n s = tok s t + (\<Sum>u\<in>{..<n} - {t}. tok s u)" using tokens_split [OF assms(1)] .
  show "tokens n s' = tok s' t + (\<Sum>u\<in>{..<n} - {t}. tok s u)"
    using tokens_split [OF assms(1), of s'] assms(2) by simp
qed

lemma tokens_le:
  assumes "t < n" "\<And>u. u \<noteq> t \<Longrightarrow> tok s' u = tok s u" "tok s t \<le> tok s' t"
  shows "tokens n s \<le> tokens n s'"
  using tokens_step [OF assms(1,2)] assms(3) by (metis add_right_mono)

text \<open>A wake loop turns its budget into fired waiters, unless it empties the list.\<close>

lemma tokens_wake:
  assumes q: "queue_ok n s" and t: "t < n" "y_pc s t = P_wake b" and w: "wake_split b (y_queue s) = (ws, q)" "q \<noteq> []"
  shows "tokens n (jump t P_idle (s\<lparr>y_queue := q, y_fired := (\<lambda>u. y_fired s u \<or> u \<in> set ws)\<rparr>)) = tokens n s" (is "tokens n ?s = _")
proof -
  obtain k where k: "b = enat k" "ws = take k (y_queue s)" "k < length (y_queue s)"
    using w by (cases b) (auto simp: wake_split_def)
  have wq: "set ws \<subseteq> set (y_queue s)" using k(2) by (simp add: set_take_subset)
  have d: "card (set ws) = k" using q k(2,3) by (simp add: queue_ok_def distinct_card)
  have m: "u \<in> set ws \<Longrightarrow> attached (y_pc s u) \<and> \<not> y_fired s u \<and> u < n" for u using q wq unfolding queue_ok_def by blast
  have tn: "t \<notin> set ws" using m [of t] t(2) by auto
  have "(\<Sum>u\<in>{..<n} - {t}. tok ?s u) = (\<Sum>u\<in>{..<n} - {t}. tok s u + (if u \<in> set ws then 1 else 0))"
    using m by (intro sum.cong) (auto simp: tok_def)
  also have "\<dots> = (\<Sum>u\<in>{..<n} - {t}. tok s u) + (\<Sum>u\<in>{..<n} - {t}. if u \<in> set ws then 1 else 0)" by (simp add: sum.distrib)
  also have "(\<Sum>u\<in>{..<n} - {t}. if u \<in> set ws then 1 else (0::enat)) = (\<Sum>u\<in>set ws. 1)"
    using m tn by (intro sum.mono_neutral_cong_right) auto
  also have "\<dots> = b" using d k(1) by (simp add: of_nat_eq_enat)
  finally have "tokens n ?s = tok ?s t + ((\<Sum>u\<in>{..<n} - {t}. tok s u) + b)" using tokens_split [OF t(1), of ?s] by simp
  moreover have "tok ?s t = (if y_fired s t then 1 else 0)" "tok s t = (if y_fired s t then 1 else 0) + b"
    using t tn by (simp_all add: tok_def)
  ultimately show ?thesis using tokens_split [OF t(1), of s] by (simp add: ac_simps)
qed

lemma wake_split_cases: "wake_split b q = (ws, r) \<Longrightarrow> q = ws @ r"
  by (auto simp: wake_split_def split: enat.splits)

lemma queue_ok_step:
  assumes q: "queue_ok n s" and st: "wstep P n s s'"
  shows "queue_ok n s'"
  using st
proof cases
  case (wake t b ws r)
  have "distinct (ws @ r)" using q wake(4) wake_split_cases by (metis queue_ok_def)
  moreover have "t \<notin> set (ws @ r)" using q wake(3) wake_split_cases [OF wake(4)] by (metis queue_ok_def attached_simps(8))
  ultimately show ?thesis using wake q wake_split_cases [OF wake(4)] by (auto simp: queue_ok_def)
qed (use q in \<open>auto simp: queue_ok_def split: if_splits\<close>)

section \<open>No wake-up is lost\<close>

text \<open>
  What a primitive owes the protocol. \<open>avail p\<close> is the number of attempts that can succeed in state \<open>p\<close>
  (infinite for a broadcast condition): a successful attempt uses one up, an attempt fails and \<open>attach\<close>
  tells the task to wait only when there is none, and a notifier sets out to wake at least as many
  waiters as it makes attempts possible.
\<close>

locale wait_prim =
  fixes P :: "('p, 'a) wprim" and pinv :: "'p \<Rightarrow> bool" and avail :: "'p \<Rightarrow> enat"
  assumes try_inv: "pinv p \<Longrightarrow> p_try P p = Some p' \<Longrightarrow> pinv p' \<and> avail p' + 1 \<le> avail p"
    and try_None: "pinv p \<Longrightarrow> p_try P p = None \<Longrightarrow> avail p = 0"
    and must_wait: "pinv p \<Longrightarrow> p_must_wait P p \<Longrightarrow> avail p = 0"
    and act_inv: "pinv p \<Longrightarrow> p_allowed P a p \<Longrightarrow> p_act P a p = (p', b) \<Longrightarrow> pinv p' \<and> avail p' \<le> avail p + b"
begin

definition wsys_inv :: "nat \<Rightarrow> 'p wsys \<Rightarrow> bool" where
  "wsys_inv n s \<longleftrightarrow> pinv (y_prim s) \<and> queue_ok n s
     \<and> ((\<exists>t\<in>set (y_queue s). y_pc s t = P_park) \<longrightarrow> avail (y_prim s) \<le> tokens n s)"

lemma wsys_inv_parked: "wsys_inv n s \<Longrightarrow> t \<in> set (y_queue s) \<Longrightarrow> y_pc s t = P_park \<Longrightarrow> avail (y_prim s) \<le> tokens n s"
  by (auto simp: wsys_inv_def)

text \<open>A step after which nothing more is available, or which takes no wake-up away.\<close>

lemma wsys_inv_step:
  assumes i: "wsys_inv n s" and st: "wstep P n s s'"
  shows "wsys_inv n s'"
proof -
  have q: "queue_ok n s'" using queue_ok_step [OF _ st] i by (simp add: wsys_inv_def)
  have p: "pinv (y_prim s)" and q0: "queue_ok n s" using i by (auto simp: wsys_inv_def)
  have p': "pinv (y_prim s')" using st p by cases (auto dest: try_inv act_inv)
  have main: "avail (y_prim s') \<le> tokens n s'" if park: "u \<in> set (y_queue s')" "y_pc s' u = P_park" for u
    using st
  proof cases
    case (call t)
    have "tokens n s \<le> tokens n s'" by (rule tokens_le [of t]) (use call in \<open>auto simp: tok_def\<close>)
    then show ?thesis using wsys_inv_parked [OF i, of u] park call by (auto split: if_splits)
  next
    case (try_ok t b p)
    obtain r where r: "tokens n s = tok s t + r" "tokens n s' = tok s' t + r"
      by (rule tokens_step [of t n s' s]) (use try_ok in \<open>auto simp: tok_def\<close>)
    have "tok s t \<le> 1" "tok s' t = 0" using try_ok q0 by (cases b; auto simp: tok_def queue_ok_def)+
    moreover have "avail (y_prim s) \<le> tokens n s" using wsys_inv_parked [OF i, of u] park try_ok by (auto split: if_splits)
    moreover have "avail (y_prim s') + 1 \<le> avail (y_prim s)" using try_inv [OF p try_ok(4)] try_ok(1) by simp
    ultimately have "avail (y_prim s') + 1 \<le> r + 1" using r(1) by (metis add.commute add_mono order_refl order_trans)
    then show ?thesis using r(2) \<open>tok s' t = 0\<close> by simp
  next
    case (try_fail t b)
    then show ?thesis using try_None [OF p] by simp
  next
    case (cancelled t)
    have "tokens n s \<le> tokens n s'" by (rule tokens_le [of t]) (use cancelled in \<open>auto simp: tok_def\<close>)
    then show ?thesis using wsys_inv_parked [OF i, of u] park cancelled by (auto split: if_splits)
  next
    case (attach t)
    have "tokens n s \<le> tokens n s'" by (rule tokens_le [of t]) (use attach in \<open>auto simp: tok_def\<close>)
    then show ?thesis using wsys_inv_parked [OF i, of u] park attach by (auto split: if_splits)
  next
    case (check_wait t)
    then show ?thesis using must_wait [OF p] by simp
  next
    case (check_ready t)
    have "tokens n s \<le> tokens n s'" by (rule tokens_le [of t]) (use check_ready in \<open>auto simp: tok_def\<close>)
    then show ?thesis using wsys_inv_parked [OF i, of u] park check_ready by (auto split: if_splits)
  next
    case (detach_in t)
    have "tokens n s \<le> tokens n s'" by (rule tokens_le [of t]) (use detach_in in \<open>auto simp: tok_def\<close>)
    then show ?thesis using wsys_inv_parked [OF i, of u] park detach_in by (auto split: if_splits dest: notin_set_remove1 in_set_remove1 [THEN iffD1, rotated])
  next
    case (detach_out t)
    have "tokens n s \<le> tokens n s'" by (rule tokens_le [of t]) (use detach_out in \<open>auto simp: tok_def\<close>)
    then show ?thesis using wsys_inv_parked [OF i, of u] park detach_out by (auto split: if_splits)
  next
    case (resume t)
    have "tokens n s \<le> tokens n s'" by (rule tokens_le [of t]) (use resume in \<open>auto simp: tok_def\<close>)
    then show ?thesis using wsys_inv_parked [OF i, of u] park resume by (auto split: if_splits)
  next
    case (cancel t)
    have "tokens n s \<le> tokens n s'" by (rule tokens_le [of t]) (use cancel q0 in \<open>auto simp: tok_def queue_ok_def\<close>)
    then show ?thesis using wsys_inv_parked [OF i, of u] park cancel by (auto split: if_splits)
  next
    case (act t a p b)
    obtain r where r: "tokens n s = tok s t + r" "tokens n s' = tok s' t + r"
      by (rule tokens_step [of t n s' s]) (use act in \<open>auto simp: tok_def\<close>)
    have "tok s t = 0" "tok s' t = b" using act q0 by (auto simp: tok_def queue_ok_def)
    moreover have "avail (y_prim s) \<le> tokens n s" using wsys_inv_parked [OF i, of u] park act by (auto split: if_splits)
    moreover have "avail (y_prim s') \<le> avail (y_prim s) + b" using act_inv [OF p act(4,5)] act(1) by simp
    ultimately show ?thesis using r by (metis add.commute add_0 add_left_mono order_trans)
  next
    case (notify_none t b)
    then show ?thesis using park by simp
  next
    case (notify_some t b)
    have "tokens n s \<le> tokens n s'" by (rule tokens_le [of t]) (use notify_some in \<open>auto simp: tok_def\<close>)
    then show ?thesis using wsys_inv_parked [OF i, of u] park notify_some by (auto split: if_splits)
  next
    case (wake t b ws r)
    then have "r \<noteq> []" using park by auto
    have "u \<in> set (y_queue s)" using wake_split_cases [OF wake(4)] park wake(1) by simp
    then have "avail (y_prim s) \<le> tokens n s" using wsys_inv_parked [OF i, of u] park wake by (auto split: if_splits)
    then show ?thesis using tokens_wake [OF q0 wake(2,3,4) \<open>r \<noteq> []\<close>] wake(1) by simp
  qed
  show ?thesis unfolding wsys_inv_def using p' q main by blast
qed

end

sublocale wait_prim \<subseteq> sys: inv_system "\<lambda>s. \<exists>p. pinv p \<and> wsys_init p s" "wstep P n" "wsys_inv n" for n
proof
  show "wsys_inv n s" if "\<exists>p. pinv p \<and> wsys_init p s" for s
    using that by (auto simp: wsys_inv_def wsys_init_def queue_ok_def)
  show "wsys_inv n s'" if "wsys_inv n s" "wstep P n s s'" for s s' using wsys_inv_step [OF that] .
qed

text \<open>Nothing is in flight: every task is idle or suspended, and no suspended task has been fired.\<close>

definition quiet :: "nat \<Rightarrow> 'p wsys \<Rightarrow> bool" where
  "quiet n s \<longleftrightarrow> (\<forall>t<n. (y_pc s t = P_idle \<or> y_pc s t = P_park) \<and> \<not> y_fired s t)"

context wait_prim
begin

lemma no_lost_wakeup:
  assumes "reach (\<lambda>s. \<exists>p. pinv p \<and> wsys_init p s) (wstep P n) s" "quiet n s" "t < n" "y_pc s t = P_park"
  shows "t \<in> set (y_queue s) \<and> avail (y_prim s) = 0 \<and> p_try P (y_prim s) = None"
proof -
  have i: "wsys_inv n s" using sys.reach_inv [OF assms(1)] .
  have t: "t \<in> set (y_queue s)" using i assms(2-4) by (auto simp: wsys_inv_def queue_ok_def quiet_def)
  have "tok s u = 0" if "u < n" for u using assms(2) that by (auto simp: tok_def quiet_def)
  then have "tokens n s = 0" by (simp add: tokens_def)
  then have a: "avail (y_prim s) = 0" using wsys_inv_parked [OF i t assms(4)] by simp
  have "p_try P (y_prim s) = None"
  proof (cases "p_try P (y_prim s)")
    case (Some p)
    then show ?thesis using try_inv [of "y_prim s" p] i a by (simp add: wsys_inv_def)
  qed
  with t a show ?thesis by simp
qed

text \<open>A suspended task that was taken off the list is always on its way back, never stranded.\<close>

lemma parked_reachable:
  assumes "reach (\<lambda>s. \<exists>p. pinv p \<and> wsys_init p s) (wstep P n) s" "y_pc s t = P_park"
  shows "t \<in> set (y_queue s) \<longleftrightarrow> \<not> y_fired s t"
  using sys.reach_inv [OF assms(1)] assms(2) by (auto simp: wsys_inv_def queue_ok_def)

end

text \<open>A task that finds nothing available and parks, as the protocol runs it: the state used by the witnesses.\<close>

definition parked_state :: "'p \<Rightarrow> 'p wsys" where
  "parked_state p = \<lparr>y_prim = p, y_queue = [0], y_pc = (\<lambda>_. P_idle)(0 := P_park), y_fired = (\<lambda>_. False)\<rparr>"

lemma parked_state_reach:
  assumes "pinv p" "p_try P p = None" "p_must_wait P p"
  shows "reach (\<lambda>s. \<exists>p. pinv p \<and> wsys_init p s) (wstep P 1) (parked_state p)"
proof -
  define s0 where "s0 = \<lparr>y_prim = p, y_queue = [], y_pc = (\<lambda>_. P_idle), y_fired = (\<lambda>_. False)\<rparr>"
  define s1 where "s1 = jump 0 (P_try False) s0"
  define s2 where "s2 = jump 0 P_attach s1"
  define s3 where "s3 = jump 0 P_check (s2\<lparr>y_queue := y_queue s2 @ [0]\<rparr>)"
  note defs = s0_def s1_def s2_def s3_def
  have r0: "reach (\<lambda>s. \<exists>p. pinv p \<and> wsys_init p s) (wstep P 1) s0"
    by (rule reach_init) (use assms(1) in \<open>auto simp: s0_def wsys_init_def\<close>)
  have r1: "reach (\<lambda>s. \<exists>p. pinv p \<and> wsys_init p s) (wstep P 1) s1"
    unfolding s1_def by (rule reach_step [OF r0 call]) (simp_all add: defs)
  have r2: "reach (\<lambda>s. \<exists>p. pinv p \<and> wsys_init p s) (wstep P 1) s2"
    unfolding s2_def by (rule reach_step [OF r1 try_fail [where b = False]]) (use assms in \<open>simp_all add: defs\<close>)
  have r3: "reach (\<lambda>s. \<exists>p. pinv p \<and> wsys_init p s) (wstep P 1) s3"
    unfolding s3_def by (rule reach_step [OF r2 attach]) (simp_all add: defs)
  have r4: "reach (\<lambda>s. \<exists>p. pinv p \<and> wsys_init p s) (wstep P 1) (jump 0 P_park s3)"
    by (rule reach_step [OF r3 check_wait]) (use assms in \<open>simp_all add: defs\<close>)
  moreover have "jump 0 P_park s3 = parked_state p" by (simp add: defs jump_def parked_state_def)
  ultimately show ?thesis by simp
qed

lemma parked_state_quiet: "quiet 1 (parked_state p)" "y_pc (parked_state p) 0 = P_park" "y_prim (parked_state p) = p"
  by (simp_all add: quiet_def parked_state_def)

end
