(* ===== verification/Sync_Primitives.thy ===== *)
theory Sync_Primitives
  imports Wait_Protocol
begin

text \<open>
  \<open>sync/AsyncSemaphore.h\<close>, \<open>sync/AsyncEvent.h\<close>, \<open>sync/AsyncWaitGroup.h\<close>, \<open>sync/AsyncBarrier.h\<close> and the awaiter
  \<open>OpWait\<close> of \<open>sync/Wait.h\<close>. Each operation is modelled on the real wait list of \<open>Wait_List\<close>; the primitives
  are then cast as \<open>wprim\<close>s, made of the same attempts and updates, to reason about interleavings.
  Counters are 32-bit signed integers; \<open>i32\<close> is their wrap-around.
\<close>

definition i32 :: "int \<Rightarrow> int" where
  "i32 x = (x + 2 ^ 31) mod 2 ^ 32 - 2 ^ 31"

lemma i32_id: "- (2 ^ 31) \<le> x \<Longrightarrow> x < 2 ^ 31 \<Longrightarrow> i32 x = x"
  by (simp add: i32_def)

section \<open>OpWait\<close>

text \<open>
  The awaiter around an operation, whose \<open>attach\<close> and \<open>detach\<close> act on the state \<open>'s\<close>. \<open>frame_cancel\<close> is the
  frame's \<open>cancel_requested()\<close> at entry and \<open>arm\<close> the frame's \<open>arm_cancel\<close>, which reports a cancellation that
  raced with it. The first component of the result is the value \<open>await_suspend\<close> returns, the second
  \<open>own_cancel\<close>.
\<close>

definition opwait_suspend :: "bool \<Rightarrow> ('s \<Rightarrow> 's) \<Rightarrow> ('s \<Rightarrow> bool \<times> 's) \<Rightarrow> ('s \<Rightarrow> bool \<times> 's) \<Rightarrow> ('s \<Rightarrow> bool \<times> 's) \<Rightarrow> ('s \<Rightarrow> 's)
    \<Rightarrow> 's \<Rightarrow> (bool \<times> bool) \<times> 's" where
  "opwait_suspend frame_cancel node_reset attach detach arm disarm s =
     (if frame_cancel then ((False, True), s)
      else case attach (node_reset s) of
        (False, s1) \<Rightarrow> (case detach s1 of (True, s2) \<Rightarrow> ((False, False), s2) | (False, s2) \<Rightarrow> ((True, False), s2))
      | (True, s1) \<Rightarrow> (case arm s1 of
          (False, s2) \<Rightarrow> ((True, False), s2)
        | (True, s2) \<Rightarrow> (case detach s2 of
            (True, s3) \<Rightarrow> ((False, True), disarm s3)
          | (False, s3) \<Rightarrow> ((True, False), s3))))"

definition opwait_resume :: "bool \<Rightarrow> (WaitList \<times> wenv \<Rightarrow> bool \<times> WaitList \<times> wenv) \<Rightarrow> nat \<Rightarrow> WaitList \<times> wenv \<Rightarrow> bool \<times> WaitList \<times> wenv" where
  "opwait_resume own_cancel detach w s =
     (if own_cancel then (False, s)
      else let s1 = (if w_h (e_nodes (snd s) w) \<noteq> 0 then snd (detach s) else s) in (\<not> cancel_claimed (e_nodes (snd s1) w), s1))"

text \<open>\<open>OpWait::on_cancel\<close>: the removal and its effect on the node and the run queue of the cancelling thread.\<close>

definition opwait_on_cancel :: "nat \<Rightarrow> nat \<Rightarrow> WaitList \<times> wenv \<Rightarrow> WaitList \<times> wenv" where
  "opwait_on_cancel w coro s = (case s of (l, e) \<Rightarrow>
     case remove_locked w (l, e_nodes e) of
       (False, l1, h1) \<Rightarrow> (l1, e\<lparr>e_nodes := h1\<rparr>)
     | (True, l1, h1) \<Rightarrow> (l1, e\<lparr>e_nodes := h1(w := (h1 w)\<lparr>w_own := kCancelledIndex\<rparr>),
         e_sched := (e_sched e)\<lparr>s_q := s_q (e_sched e) @ [coro]\<rparr>\<rparr>))"

text \<open>Pushing a node under the list lock, the common part of every \<open>attach\<close>, and its removal, every \<open>detach\<close>.\<close>

definition list_push :: "nat \<Rightarrow> WaitList \<times> wenv \<Rightarrow> WaitList \<times> wenv" where
  "list_push w s = (case s of (l, e) \<Rightarrow> case push_locked w (l, e_nodes e) of (l1, h1) \<Rightarrow> (l1, e\<lparr>e_nodes := h1\<rparr>))"

definition list_remove :: "nat \<Rightarrow> WaitList \<times> wenv \<Rightarrow> bool \<times> WaitList \<times> wenv" where
  "list_remove w s = (case s of (l, e) \<Rightarrow> case remove_locked w (l, e_nodes e) of (b, l1, h1) \<Rightarrow> (b, l1, e\<lparr>e_nodes := h1\<rparr>))"

section \<open>AsyncSemaphore\<close>

record sem =
  sem_count :: int
  sem_waiters :: WaitList

definition sem_new :: "int \<Rightarrow> sem" where
  "sem_new initial = \<lparr>sem_count = initial, sem_waiters = wl_new\<rparr>"

definition available :: "sem \<Rightarrow> int" where
  "available s = sem_count s"

text \<open>The compare-and-swap loop, read as its last, successful iteration.\<close>

definition dec_count :: "int \<Rightarrow> int option" where
  "dec_count c = (if c \<le> 0 then None else Some (i32 (c - 1)))"

definition try_acquire :: "sem \<Rightarrow> bool \<times> sem" where
  "try_acquire s = (case dec_count (sem_count s) of None \<Rightarrow> (False, s) | Some c \<Rightarrow> (True, s\<lparr>sem_count := c\<rparr>))"

definition sem_release :: "bool \<Rightarrow> int \<Rightarrow> sem \<times> wenv \<Rightarrow> (sem \<times> wenv) option" where
  "sem_release reuse k x = (case x of (s, e) \<Rightarrow>
     let s1 = s\<lparr>sem_count := i32 (sem_count s + k)\<rparr> in
     if empty_relaxed (sem_waiters s1) then Some (s1, e)
     else map_option (\<lambda>(l, e1). (s1\<lparr>sem_waiters := l\<rparr>, e1)) (wake_up_to reuse k (sem_waiters s1) e))"

definition sem_attach :: "nat \<Rightarrow> sem \<times> wenv \<Rightarrow> bool \<times> sem \<times> wenv" where
  "sem_attach w x = (case x of (s, e) \<Rightarrow> case list_push w (sem_waiters s, e) of (l, e1) \<Rightarrow>
     (sem_count s \<le> 0, s\<lparr>sem_waiters := l\<rparr>, e1))"

definition sem_detach :: "nat \<Rightarrow> sem \<times> wenv \<Rightarrow> bool \<times> sem \<times> wenv" where
  "sem_detach w x = (case x of (s, e) \<Rightarrow> case list_remove w (sem_waiters s, e) of (b, l, e1) \<Rightarrow>
     (b, s\<lparr>sem_waiters := l\<rparr>, e1))"

text \<open>The semaphore for the wait protocol: an action is \<open>release(k)\<close> without overflow of the counter.\<close>

definition sem_prim :: "(int, int) wprim" where
  "sem_prim = \<lparr>p_try = dec_count, p_must_wait = (\<lambda>c. c \<le> 0), p_allowed = (\<lambda>k c. 0 \<le> k \<and> c + k < 2 ^ 31),
     p_act = (\<lambda>k c. (i32 (c + k), enat (nat k)))\<rparr>"

definition sem_ok :: "int \<Rightarrow> bool" where
  "sem_ok c \<longleftrightarrow> - (2 ^ 31) \<le> c \<and> c < 2 ^ 31"

interpretation sem: wait_prim sem_prim sem_ok "\<lambda>c. enat (nat c)"
proof
  fix p p' a b
  show "sem_ok p \<Longrightarrow> p_try sem_prim p = Some p' \<Longrightarrow> sem_ok p' \<and> enat (nat p') + 1 \<le> enat (nat p)"
    by (auto simp: sem_prim_def dec_count_def sem_ok_def i32_id one_enat_def split: if_splits)
  show "sem_ok p \<Longrightarrow> p_allowed sem_prim a p \<Longrightarrow> p_act sem_prim a p = (p', b) \<Longrightarrow> sem_ok p' \<and> enat (nat p') \<le> enat (nat p) + b"
    by (auto simp: sem_prim_def sem_ok_def i32_id nat_add_distrib)
qed (auto simp: sem_prim_def dec_count_def zero_enat_def split: if_splits)

section \<open>AsyncEvent\<close>

datatype Reset = Auto | Manual

record event =
  ev_reset :: Reset
  ev_set :: bool
  ev_waiters :: WaitList

definition ev_new :: "Reset \<Rightarrow> bool \<Rightarrow> event" where
  "ev_new r initially_set = \<lparr>ev_reset = r, ev_set = initially_set, ev_waiters = wl_new\<rparr>"

definition is_set :: "event \<Rightarrow> bool" where
  "is_set v = ev_set v"

definition try_consume :: "event \<Rightarrow> bool \<times> event" where
  "try_consume v = (case ev_reset v of
     Auto \<Rightarrow> if ev_set v then (True, v\<lparr>ev_set := False\<rparr>) else (False, v)
   | Manual \<Rightarrow> (is_set v, v))"

definition wake_one :: "bool \<Rightarrow> event \<times> wenv \<Rightarrow> (event \<times> wenv) option" where
  "wake_one reuse x = (case x of (v, e) \<Rightarrow> if empty_relaxed (ev_waiters v) then Some (v, e)
     else map_option (\<lambda>(l, e1). (v\<lparr>ev_waiters := l\<rparr>, e1)) (wake_up_to reuse 1 (ev_waiters v) e))"

definition ev_wake_all :: "bool \<Rightarrow> event \<times> wenv \<Rightarrow> (event \<times> wenv) option" where
  "ev_wake_all reuse x = (case x of (v, e) \<Rightarrow> if empty_relaxed (ev_waiters v) then Some (v, e)
     else map_option (\<lambda>(l, e1). (v\<lparr>ev_waiters := l\<rparr>, e1)) (wake_all reuse (ev_waiters v) e))"

definition ev_set_op :: "bool \<Rightarrow> event \<times> wenv \<Rightarrow> (event \<times> wenv) option" where
  "ev_set_op reuse x = (case x of (v, e) \<Rightarrow> if ev_set v then Some (v, e)
     else (let v1 = v\<lparr>ev_set := True\<rparr> in case ev_reset v1 of Auto \<Rightarrow> wake_one reuse (v1, e) | Manual \<Rightarrow> ev_wake_all reuse (v1, e)))"

definition ev_reset_op :: "event \<Rightarrow> event" where
  "ev_reset_op v = (case ev_reset v of Manual \<Rightarrow> v\<lparr>ev_set := False\<rparr> | Auto \<Rightarrow> v)"

definition ev_attach :: "nat \<Rightarrow> event \<times> wenv \<Rightarrow> bool \<times> event \<times> wenv" where
  "ev_attach w x = (case x of (v, e) \<Rightarrow> case list_push w (ev_waiters v, e) of (l, e1) \<Rightarrow>
     (\<not> ev_set v, v\<lparr>ev_waiters := l\<rparr>, e1))"

definition ev_detach :: "nat \<Rightarrow> event \<times> wenv \<Rightarrow> bool \<times> event \<times> wenv" where
  "ev_detach w x = (case x of (v, e) \<Rightarrow> case list_remove w (ev_waiters v, e) of (b, l, e1) \<Rightarrow> (b, v\<lparr>ev_waiters := l\<rparr>, e1))"

datatype event_act = E_set | E_reset

definition event_prim :: "Reset \<Rightarrow> (bool, event_act) wprim" where
  "event_prim r = \<lparr>p_try = (\<lambda>b. if b then Some (r = Manual) else None), p_must_wait = (\<lambda>b. \<not> b), p_allowed = (\<lambda>_ _. True),
     p_act = (\<lambda>a b. case a of E_set \<Rightarrow> (True, if b then 0 else if r = Auto then 1 else \<infinity>)
                    | E_reset \<Rightarrow> (if r = Manual then False else b, 0))\<rparr>"

interpretation ev: wait_prim "event_prim r" "\<lambda>_. True" "\<lambda>b. if b then (if r = Auto then 1 else \<infinity>) else 0" for r
  by unfold_locales (cases r; auto simp: event_prim_def split: if_splits event_act.splits)+

section \<open>WaitGroup\<close>

record waitgroup =
  wg_cnt :: int
  wg_waiters :: WaitList

definition wg_add :: "int \<Rightarrow> waitgroup \<Rightarrow> waitgroup" where
  "wg_add k g = g\<lparr>wg_cnt := i32 (wg_cnt g + k)\<rparr>"

definition wg_done :: "bool \<Rightarrow> waitgroup \<times> wenv \<Rightarrow> (waitgroup \<times> wenv) option" where
  "wg_done reuse x = (case x of (g, e) \<Rightarrow>
     let g1 = g\<lparr>wg_cnt := i32 (wg_cnt g - 1)\<rparr> in
     if wg_cnt g \<noteq> 1 then Some (g1, e)
     else if empty_relaxed (wg_waiters g1) then Some (g1, e)
     else map_option (\<lambda>(l, e1). (g1\<lparr>wg_waiters := l\<rparr>, e1)) (wake_all reuse (wg_waiters g1) e))"

definition wg_try_complete :: "waitgroup \<Rightarrow> bool" where
  "wg_try_complete g \<longleftrightarrow> wg_cnt g = 0"

definition wg_attach :: "nat \<Rightarrow> waitgroup \<times> wenv \<Rightarrow> bool \<times> waitgroup \<times> wenv" where
  "wg_attach w x = (case x of (g, e) \<Rightarrow> case list_push w (wg_waiters g, e) of (l, e1) \<Rightarrow>
     (wg_cnt g \<noteq> 0, g\<lparr>wg_waiters := l\<rparr>, e1))"

definition wg_detach :: "nat \<Rightarrow> waitgroup \<times> wenv \<Rightarrow> bool \<times> waitgroup \<times> wenv" where
  "wg_detach w x = (case x of (g, e) \<Rightarrow> case list_remove w (wg_waiters g, e) of (b, l, e1) \<Rightarrow> (b, g\<lparr>wg_waiters := l\<rparr>, e1))"

datatype wg_act = W_add int | W_done

text \<open>
  The wait group for the wait protocol: \<open>add\<close> of a non-negative amount without overflow, \<open>done\<close> at most once
  for each unit added.
\<close>

definition wg_prim :: "(int, wg_act) wprim" where
  "wg_prim = \<lparr>p_try = (\<lambda>c. if c = 0 then Some c else None), p_must_wait = (\<lambda>c. c \<noteq> 0),
     p_allowed = (\<lambda>a c. case a of W_add k \<Rightarrow> 0 \<le> k \<and> c + k < 2 ^ 31 | W_done \<Rightarrow> 0 < c),
     p_act = (\<lambda>a c. case a of W_add k \<Rightarrow> (i32 (c + k), 0) | W_done \<Rightarrow> (i32 (c - 1), if c \<noteq> 1 then 0 else \<infinity>))\<rparr>"

interpretation wg: wait_prim wg_prim "\<lambda>c. 0 \<le> c \<and> c < 2 ^ 31" "\<lambda>c. if c = 0 then \<infinity> else 0"
  by unfold_locales (auto simp: wg_prim_def i32_id split: if_splits wg_act.splits)

section \<open>AsyncBarrier\<close>

record barrier =
  b_parties :: u64
  b_arrived :: u64
  b_waiters :: "(nat \<times> int) list"

definition barrier_new :: "u64 \<Rightarrow> barrier" where
  "barrier_new parties = \<lparr>b_parties = parties, b_arrived = 0, b_waiters = []\<rparr>"

text \<open>\<open>Awaiter::await_suspend\<close>: the linked stack of nodes is the list of their handles and threads, newest first.\<close>

definition arrive :: "bool \<Rightarrow> nat \<Rightarrow> barrier \<times> sched \<Rightarrow> bool \<times> barrier \<times> sched" where
  "arrive reuse h x = (case x of (b, s) \<Rightarrow>
     let n = b_arrived b + 1; node = (h, s_tid s) in
     if n = b_parties b then
       (False, b\<lparr>b_arrived := 0, b_waiters := []\<rparr>, fold (\<lambda>(h, tid). resume_on reuse h tid) (b_waiters b) s)
     else (True, b\<lparr>b_arrived := n, b_waiters := node # b_waiters b\<rparr>, s))"

section \<open>Sequential behaviour\<close>

text \<open>What a notifier sees of its waiters: the list \<open>xs\<close>, all of them plain and not yet claimed.\<close>

definition waiting :: "nat set \<Rightarrow> nat list \<Rightarrow> WaitList \<Rightarrow> wenv \<Rightarrow> bool" where
  "waiting own xs l e \<longleftrightarrow> wl_rep own xs (l, e_nodes e) \<and> length xs < 2 ^ 32 \<and> (\<forall>w\<in>set xs. plain w e)"

definition resume_all :: "bool \<Rightarrow> wenv \<Rightarrow> nat list \<Rightarrow> sched" where
  "resume_all reuse e ws = fold (resume_waiter reuse (e_nodes e)) ws (e_sched e)"

lemma wake_up_to_waiting:
  assumes "waiting own xs l e"
  shows "\<exists>l' e'. wake_up_to reuse (int k) l e = Some (l', e') \<and> waiting own (drop k xs) l' e' \<and> e_sched e' = resume_all reuse e (take k xs)"
  using wake_up_to_plain [of own xs l e reuse k] assms by (fastforce simp: waiting_def resume_all_def)

lemma wake_all_waiting:
  assumes "waiting own xs l e"
  shows "\<exists>l' e'. wake_all reuse l e = Some (l', e') \<and> waiting own [] l' e' \<and> e_sched e' = resume_all reuse e xs"
proof -
  have "wake_all reuse l e = wake_up_to reuse (int (Suc (length xs))) l e"
    using assms by (intro wake_all_up_to [of own xs]) (auto simp: waiting_def)
  then show ?thesis using wake_up_to_waiting [OF assms, of reuse "Suc (length xs)"] by simp
qed

lemma waiting_empty: "waiting own xs l e \<Longrightarrow> empty_relaxed l \<longleftrightarrow> xs = []"
  using empty_relaxed_rep by (auto simp: waiting_def)

lemma sem_release_spec:
  assumes "waiting own xs (sem_waiters s) e" "0 \<le> k" "- (2 ^ 31) \<le> sem_count s" "sem_count s + k < 2 ^ 31"
  shows "\<exists>s' e'. sem_release reuse k (s, e) = Some (s', e') \<and> sem_count s' = sem_count s + k
    \<and> waiting own (drop (nat k) xs) (sem_waiters s') e' \<and> e_sched e' = resume_all reuse e (take (nat k) xs)"
proof -
  have c: "i32 (sem_count s + k) = sem_count s + k" using assms(2-4) by (intro i32_id) auto
  show ?thesis
  proof (cases "xs = []")
    case True
    then show ?thesis using assms(1) c waiting_empty [OF assms(1)] by (auto simp: sem_release_def Let_def resume_all_def)
  next
    case False
    then show ?thesis using wake_up_to_waiting [OF assms(1), of reuse "nat k"] assms(2) c waiting_empty [OF assms(1)]
      by (auto simp: sem_release_def Let_def)
  qed
qed

lemma ev_set_spec:
  assumes "waiting own xs (ev_waiters v) e"
  shows "\<exists>v' e'. ev_set_op reuse (v, e) = Some (v', e') \<and> ev_set v' \<and> ev_reset v' = ev_reset v
    \<and> (let ws = (if ev_set v then [] else if ev_reset v = Auto then take 1 xs else xs) in
       waiting own (drop (length ws) xs) (ev_waiters v') e' \<and> e_sched e' = resume_all reuse e ws)"
proof (cases "ev_set v \<or> xs = []")
  case True
  then show ?thesis using assms waiting_empty [OF assms]
    by (cases "ev_reset v") (auto simp: ev_set_op_def Let_def wake_one_def ev_wake_all_def resume_all_def)
next
  case False
  then have ne: "\<not> ev_set v" "xs \<noteq> []" "\<not> empty_relaxed (ev_waiters v)" using waiting_empty [OF assms] by auto
  then have l: "length (take 1 xs) = 1" by (cases xs) auto
  show ?thesis
  proof (cases "ev_reset v")
    case Auto
    then show ?thesis using wake_up_to_waiting [OF assms, of reuse 1] ne l
      by (auto simp: ev_set_op_def Let_def wake_one_def)
  next
    case Manual
    then show ?thesis using wake_all_waiting [OF assms, of reuse] ne
      by (auto simp: ev_set_op_def Let_def ev_wake_all_def)
  qed
qed

lemma wg_done_spec:
  assumes "waiting own xs (wg_waiters g) e" "- (2 ^ 31) < wg_cnt g" "wg_cnt g < 2 ^ 31"
  shows "\<exists>g' e'. wg_done reuse (g, e) = Some (g', e') \<and> wg_cnt g' = wg_cnt g - 1
    \<and> waiting own (if wg_cnt g = 1 then [] else xs) (wg_waiters g') e'
    \<and> e_sched e' = resume_all reuse e (if wg_cnt g = 1 then xs else [])"
proof -
  have c: "i32 (wg_cnt g - 1) = wg_cnt g - 1" using assms(2,3) by (intro i32_id) auto
  show ?thesis using wake_all_waiting [OF assms(1), of reuse] waiting_empty [OF assms(1)] assms(1) c
    by (auto simp: wg_done_def Let_def resume_all_def)
qed

section \<open>Properties\<close>

text \<open>
  \<open>AsyncSemaphore::release(k)\<close> returns, adds \<open>k\<close> to the count, and wakes exactly the \<open>k\<close> longest waiting
  tasks (all of them when there are fewer), in the order they arrived, leaving the rest in the list.
\<close>

theorem sem_release_wakes_fifo:
  assumes "waiting own xs (sem_waiters s) e" "0 \<le> k" "- (2 ^ 31) \<le> sem_count s" "sem_count s + k < 2 ^ 31"
  shows "\<exists>s' e'. sem_release reuse k (s, e) = Some (s', e') \<and> sem_count s' = sem_count s + k
    \<and> waiting own (drop (nat k) xs) (sem_waiters s') e' \<and> e_sched e' = resume_all reuse e (take (nat k) xs)"
  using sem_release_spec [OF assms] .

definition demo_sched :: sched where
  "demo_sched = \<lparr>s_tid = 0, s_threads = 2, s_registry = True, s_q = [], s_static = [], s_spawn = [], s_wakes = 0\<rparr>"

definition demo_node :: "nat \<Rightarrow> Waiter" where
  "demo_node w = \<lparr>w_h = w + 100, w_winner = Own, w_own = - 1, w_prev = None, w_next = None, w_index = 0, w_tid = 0, w_in_list = False\<rparr>"

definition wait_demo_env :: wenv where
  "wait_demo_env = \<lparr>e_nodes = demo_node, e_shared = (\<lambda>_. - 1), e_sched = demo_sched\<rparr>"

definition demo_waiting :: "WaitList \<times> wenv" where
  "demo_waiting = list_push 6 (list_push 5 (wl_new, wait_demo_env))"

lemma demo_waiting_ok: "waiting {5, 6} [5, 6] (fst demo_waiting) (snd demo_waiting)"
proof -
  have r0: "wl_rep {5, 6} [] (wl_new, demo_node)" by (rule wl_new_rep) (simp add: demo_node_def)
  have r1: "wl_rep {5, 6} ([] @ [5]) (push_locked 5 (wl_new, demo_node))" by (rule push_locked_rep(1) [OF r0]) auto
  have r2: "wl_rep {5, 6} (([] @ [5]) @ [6]) (push_locked 6 (push_locked 5 (wl_new, demo_node)))"
    by (rule push_locked_rep(1) [OF r1]) auto
  have d: "wdata (snd (push_locked 6 (push_locked 5 (wl_new, demo_node))) a) = wdata (demo_node a)" for a
    using push_locked_rep(2) [OF r1, of 6 a] push_locked_rep(2) [OF r0, of 5 a] by simp
  have e: "demo_waiting = (fst (push_locked 6 (push_locked 5 (wl_new, demo_node))),
      wait_demo_env\<lparr>e_nodes := snd (push_locked 6 (push_locked 5 (wl_new, demo_node)))\<rparr>)"
    by (simp add: demo_waiting_def list_push_def wait_demo_env_def split: prod.splits)
  have "plain w (snd demo_waiting)" for w
    using wdata_eqD [OF d, of w] by (simp add: e plain_def demo_node_def)
  then show ?thesis using r2 by (simp add: waiting_def e)
qed

theorem sem_release_wakes_fifo_witness:
  "\<exists>s' e'. sem_release True 1 (\<lparr>sem_count = 0, sem_waiters = fst demo_waiting\<rparr>, snd demo_waiting) = Some (s', e') \<and> sem_count s' = 1
    \<and> waiting {5, 6} [6] (sem_waiters s') e' \<and> e_sched e' = resume_all True (snd demo_waiting) [5]"
  using sem_release_wakes_fifo [of "{5, 6}" "[5, 6]" "\<lparr>sem_count = 0, sem_waiters = fst demo_waiting\<rparr>" "snd demo_waiting" 1 True]
    demo_waiting_ok by simp

text \<open>
  \<open>AsyncEvent::set\<close> returns and leaves the event set. Set from the unset state it wakes the longest
  waiting task of an auto-reset event, and every waiting task of a manual-reset event, in arrival
  order; set again it wakes nobody.
\<close>

theorem event_set_wakes:
  assumes "waiting own xs (ev_waiters v) e"
  shows "\<exists>v' e'. ev_set_op reuse (v, e) = Some (v', e') \<and> ev_set v' \<and> ev_reset v' = ev_reset v
    \<and> (let ws = (if ev_set v then [] else if ev_reset v = Auto then take 1 xs else xs) in
       waiting own (drop (length ws) xs) (ev_waiters v') e' \<and> e_sched e' = resume_all reuse e ws)"
  using ev_set_spec [OF assms] .

theorem event_set_wakes_witness:
  "\<exists>v' e'. ev_set_op False (\<lparr>ev_reset = Manual, ev_set = False, ev_waiters = fst demo_waiting\<rparr>, snd demo_waiting) = Some (v', e')
    \<and> ev_set v' \<and> waiting {5, 6} [] (ev_waiters v') e' \<and> e_sched e' = resume_all False (snd demo_waiting) [5, 6]"
  using event_set_wakes [of "{5, 6}" "[5, 6]" "\<lparr>ev_reset = Manual, ev_set = False, ev_waiters = fst demo_waiting\<rparr>" "snd demo_waiting" False]
    demo_waiting_ok by (auto simp: Let_def)

text \<open>
  No wake-up of an \<open>AsyncSemaphore\<close> is lost, under every interleaving of acquiring, releasing and
  cancelled tasks: when no call is in progress and no woken task is on its way, a task that is still
  suspended is in the wait list and the semaphore has no permit left.
\<close>

theorem sem_no_lost_wakeup:
  assumes "reach (\<lambda>s. \<exists>p. sem_ok p \<and> wsys_init p s) (wstep sem_prim n) s" "quiet n s" "t < n" "y_pc s t = P_park"
  shows "t \<in> set (y_queue s) \<and> y_prim s \<le> 0"
  using sem.no_lost_wakeup [OF assms] by (simp add: zero_enat_def)

theorem sem_no_lost_wakeup_witness: "0 \<in> set (y_queue (parked_state (0::int))) \<and> y_prim (parked_state (0::int)) \<le> 0"
proof -
  have "reach (\<lambda>s. \<exists>p. sem_ok p \<and> wsys_init p s) (wstep sem_prim 1) (parked_state 0)"
    by (rule parked_state_reach) (simp_all add: sem_ok_def sem_prim_def dec_count_def)
  from sem_no_lost_wakeup [OF this parked_state_quiet(1) _ parked_state_quiet(2)] show ?thesis by simp
qed

text \<open>
  No wake-up of an \<open>AsyncEvent\<close> is lost, in either mode, under every interleaving of waiting, setting,
  resetting and cancelled tasks.
\<close>

theorem event_no_lost_wakeup:
  assumes "reach (\<lambda>s. \<exists>p. True \<and> wsys_init p s) (wstep (event_prim r) n) s" "quiet n s" "t < n" "y_pc s t = P_park"
  shows "t \<in> set (y_queue s) \<and> \<not> y_prim s"
  using ev.no_lost_wakeup [OF assms] by (auto split: if_splits)

theorem event_no_lost_wakeup_witness: "0 \<in> set (y_queue (parked_state False)) \<and> \<not> y_prim (parked_state False)"
proof -
  have "reach (\<lambda>s. \<exists>p. True \<and> wsys_init p s) (wstep (event_prim Manual) 1) (parked_state False)"
    by (rule parked_state_reach) (simp_all add: event_prim_def)
  from event_no_lost_wakeup [OF this parked_state_quiet(1) _ parked_state_quiet(2)] show ?thesis by simp
qed

text \<open>
  No wake-up of a \<open>WaitGroup\<close> is lost, as long as it is used within its contract (non-negative \<open>add\<close>,
  no more \<open>done\<close> than added): in a quiet state a suspended task means that the count is not zero.
\<close>

theorem waitgroup_no_lost_wakeup:
  assumes "reach (\<lambda>s. \<exists>p. (0 \<le> p \<and> p < 2 ^ 31) \<and> wsys_init p s) (wstep wg_prim n) s" "quiet n s" "t < n" "y_pc s t = P_park"
  shows "t \<in> set (y_queue s) \<and> y_prim s \<noteq> 0"
  using wg.no_lost_wakeup [OF assms] by (auto split: if_splits)

theorem waitgroup_no_lost_wakeup_witness: "0 \<in> set (y_queue (parked_state (3::int))) \<and> y_prim (parked_state (3::int)) \<noteq> 0"
proof -
  have "reach (\<lambda>s. \<exists>p. (0 \<le> p \<and> p < 2 ^ 31) \<and> wsys_init p s) (wstep wg_prim 1) (parked_state 3)"
    by (rule parked_state_reach) (simp_all add: wg_prim_def)
  from waitgroup_no_lost_wakeup [OF this parked_state_quiet(1) _ parked_state_quiet(2)] show ?thesis by simp
qed

section \<open>The barrier\<close>

text \<open>A history of arrivals: for each, the coroutine and the thread it arrives on.\<close>

fun arrivals :: "bool \<Rightarrow> (nat \<times> int) list \<Rightarrow> barrier \<times> sched \<Rightarrow> bool list \<times> barrier \<times> sched" where
  "arrivals reuse [] x = ([], x)"
| "arrivals reuse ((h, tid) # as) x = (case arrive reuse h (fst x, (snd x)\<lparr>s_tid := tid\<rparr>) of (r, y) \<Rightarrow>
     (case arrivals reuse as y of (rs, z) \<Rightarrow> (r # rs, z)))"

definition barrier_ok :: "barrier \<Rightarrow> bool" where
  "barrier_ok b \<longleftrightarrow> b_arrived b = of_nat (length (b_waiters b)) \<and> length (b_waiters b) < unat (b_parties b)"

lemma arrive_ok:
  assumes "barrier_ok b"
  shows "arrive reuse h (b, s) = (if Suc (length (b_waiters b)) = unat (b_parties b)
    then (False, b\<lparr>b_arrived := 0, b_waiters := []\<rparr>, fold (\<lambda>(h, tid). resume_on reuse h tid) (b_waiters b) s)
    else (True, b\<lparr>b_arrived := b_arrived b + 1, b_waiters := (h, s_tid s) # b_waiters b\<rparr>, s))"
proof -
  let ?m = "length (b_waiters b)"
  have p: "unat (b_parties b) < 2 ^ 64" using unsigned_less [of "b_parties b", where 'a = nat] by simp
  then have lt: "Suc ?m < 2 ^ 64" using assms by (simp add: barrier_ok_def)
  have "b_arrived b + 1 = of_nat (Suc ?m)" using assms by (simp add: barrier_ok_def add.commute)
  moreover have "(of_nat (Suc ?m) :: u64) = b_parties b \<longleftrightarrow> Suc ?m = unat (b_parties b)"
    using unat_of_nat_small [OF lt] by (metis word_unat_eq_iff)
  ultimately have "b_arrived b + 1 = b_parties b \<longleftrightarrow> Suc ?m = unat (b_parties b)" by (simp only:)
  then show ?thesis by (simp add: arrive_def Let_def)
qed

text \<open>
  One generation of an \<open>AsyncBarrier\<close> for \<open>n\<close> parties: the first \<open>n - 1\<close> arrivals suspend, the \<open>n\<close>-th goes
  on and resumes exactly the suspended ones (on their own threads, newest first), and the barrier is back
  in its initial state, ready for the next generation.
\<close>

theorem barrier_generation:
  assumes "length as = unat parties" "0 < unat parties"
  shows "\<exists>s'. arrivals reuse as (barrier_new parties, s) = (replicate (unat parties - 1) True @ [False], barrier_new parties, s')
    \<and> s' = fold (\<lambda>(h, tid). resume_on reuse h tid) (rev (butlast as)) (s\<lparr>s_tid := snd (last as)\<rparr>)"
proof -
  have gen: "arrivals reuse as (b, s) = (replicate (length as - 1) True @ [False], b\<lparr>b_arrived := 0, b_waiters := []\<rparr>,
      fold (\<lambda>(h, tid). resume_on reuse h tid) (rev (butlast as) @ b_waiters b) (s\<lparr>s_tid := snd (last as)\<rparr>))"
    if "barrier_ok b" "length as + length (b_waiters b) = unat (b_parties b)" "as \<noteq> []" for b s
    using that
  proof (induction as arbitrary: b s)
    case (Cons a as)
    obtain h tid where a: "a = (h, tid)" by (cases a)
    show ?case
    proof (cases "as = []")
      case True
      then show ?thesis using Cons.prems a arrive_ok [OF Cons.prems(1)] by simp
    next
      case False
      let ?b = "b\<lparr>b_arrived := b_arrived b + 1, b_waiters := (h, tid) # b_waiters b\<rparr>"
      have ar: "arrive reuse h (b, s\<lparr>s_tid := tid\<rparr>) = (True, ?b, s\<lparr>s_tid := tid\<rparr>)"
        using Cons.prems False arrive_ok [OF Cons.prems(1), of reuse h "s\<lparr>s_tid := tid\<rparr>"] by (cases as) auto
      have "barrier_ok ?b" "length as + length (b_waiters ?b) = unat (b_parties ?b)"
        using Cons.prems False by (cases as; auto simp: barrier_ok_def add.commute)+
      from Cons.IH [OF this False, of "s\<lparr>s_tid := tid\<rparr>"] show ?thesis
        using ar a False by (cases as) simp_all
    qed
  qed simp
  have "barrier_ok (barrier_new parties)" "as \<noteq> []" using assms by (auto simp: barrier_ok_def barrier_new_def)
  from gen [OF this(1) _ this(2), of s] show ?thesis using assms by (simp add: barrier_new_def)
qed

theorem barrier_generation_witness:
  "\<exists>s'. arrivals True [(7, 0), (8, 1), (9, 0)] (barrier_new 3, demo_sched) = ([True, True, False], barrier_new 3, s')
    \<and> s_q s' = [7] \<and> s_static s' = [(8, 1)]"
proof -
  have l: "length [(7::nat, 0::int), (8, 1), (9, 0)] = unat (3::u64)" "0 < unat (3::u64)" by simp_all
  have "unat (3::u64) - 1 = Suc (Suc 0)" by simp
  then have r: "replicate (unat (3::u64) - 1) True = [True, True]" by (simp only: replicate.simps)
  show ?thesis using barrier_generation [OF l, of True demo_sched] unfolding r
    by (simp add: demo_sched_def resume_on_def is_valid_thread_id_def)
qed

end
