(* ===== verification/Async_Mutex.thy ===== *)
theory Async_Mutex
  imports Sync_Primitives
begin

text \<open>
  \<open>sync/AsyncMutex.h\<close> and \<open>src/sync/AsyncMutex.cpp\<close>: the mutex with direct hand-off to the longest waiting
  task, its awaiter, and the owning \<open>Guard\<close>. The operations are modelled on the real wait list; \<open>mstep\<close>
  interleaves the atomic accesses of any number of locking, unlocking and cancelled tasks.
\<close>

record mutex =
  m_state :: u32
  m_waiters :: WaitList

definition mutex_new :: mutex where
  "mutex_new = \<lparr>m_state = 0, m_waiters = wl_new\<rparr>"

definition try_lock_raw :: "mutex \<Rightarrow> bool \<times> mutex" where
  "try_lock_raw m = (if m_state m = 0 then (True, m\<lparr>m_state := 1\<rparr>) else (False, m))"

section \<open>LockAwaiter\<close>

record lock_awaiter =
  la_node :: nat
  la_acquired :: bool
  la_cancelled :: bool

definition lock_await_ready :: "lock_awaiter \<Rightarrow> mutex \<Rightarrow> bool \<times> lock_awaiter \<times> mutex" where
  "lock_await_ready a m = (case try_lock_raw m of (r, m1) \<Rightarrow> (r, a\<lparr>la_acquired := r\<rparr>, m1))"

text \<open>
  \<open>frame_cancel\<close> is the frame's \<open>cancel_requested()\<close>, \<open>raced\<close> the result of \<open>arm_cancel\<close>: a cancellation that
  arrived while the awaiter was being queued. The removal that follows is one critical section, before which
  another task may already have popped the node.
\<close>

definition lock_await_suspend :: "bool \<Rightarrow> bool \<Rightarrow> nat \<Rightarrow> lock_awaiter \<Rightarrow> mutex \<times> wenv \<Rightarrow> bool \<times> lock_awaiter \<times> mutex \<times> wenv" where
  "lock_await_suspend frame_cancel raced h a x = (case x of (m, e) \<Rightarrow>
     if frame_cancel then (False, a\<lparr>la_cancelled := True\<rparr>, m, e)
     else
       let w = la_node a;
           e1 = e\<lparr>e_nodes := (e_nodes e)(w := waiter_reset h (s_tid (e_sched e)) (e_nodes e w))\<rparr>
       in case try_lock_raw m of
         (True, m1) \<Rightarrow> (False, a\<lparr>la_acquired := True\<rparr>, m1, e1)
       | (False, m1) \<Rightarrow> (case list_push w (m_waiters m1, e1) of (l, e2) \<Rightarrow>
           if raced then
             (case list_remove w (l, e2) of
                (True, l3, e3) \<Rightarrow> (False, a\<lparr>la_cancelled := True\<rparr>, m1\<lparr>m_waiters := l3\<rparr>, e3)
              | (False, l3, e3) \<Rightarrow> (True, a, m1\<lparr>m_waiters := l3\<rparr>, e3))
           else (True, a, m1\<lparr>m_waiters := l\<rparr>, e2)))"

definition lock_await_resume :: "lock_awaiter \<Rightarrow> wenv \<Rightarrow> bool" where
  "lock_await_resume a e = (if la_acquired a then True
     else if la_cancelled a \<or> cancel_claimed (e_nodes e (la_node a)) then False else True)"

definition lock_on_cancel :: "nat \<Rightarrow> lock_awaiter \<Rightarrow> mutex \<times> wenv \<Rightarrow> mutex \<times> wenv" where
  "lock_on_cancel coro a x = (case x of (m, e) \<Rightarrow>
     case opwait_on_cancel (la_node a) coro (m_waiters m, e) of (l, e1) \<Rightarrow> (m\<lparr>m_waiters := l\<rparr>, e1))"

definition try_lock :: "mutex \<Rightarrow> bool \<times> mutex" where
  "try_lock m = try_lock_raw m"

definition mutex_unlock :: "bool \<Rightarrow> mutex \<times> wenv \<Rightarrow> mutex \<times> wenv" where
  "mutex_unlock reuse x = (case x of (m, e) \<Rightarrow>
     case pop_front_locked (m_waiters m, e_nodes e) of
       (None, l, h) \<Rightarrow> (m\<lparr>m_waiters := l, m_state := 0\<rparr>, e\<lparr>e_nodes := h\<rparr>)
     | (Some w, l, h) \<Rightarrow> (m\<lparr>m_waiters := l\<rparr>, e\<lparr>e_nodes := h, e_sched := resume_on reuse (w_h (h w)) (w_tid (h w)) (e_sched e)\<rparr>))"

section \<open>Guard\<close>

text \<open>
  The guards of one mutex: which of them own it, and how often \<open>unlock\<close> was called through them.
\<close>

record guards =
  g_owns :: "nat \<Rightarrow> bool"
  g_unlocks :: nat

definition guard_unlock :: "nat \<Rightarrow> guards \<Rightarrow> guards" where
  "guard_unlock g s = (if g_owns s g then s\<lparr>g_owns := (g_owns s)(g := False), g_unlocks := g_unlocks s + 1\<rparr> else s)"

definition guard_move_ctor :: "nat \<Rightarrow> nat \<Rightarrow> guards \<Rightarrow> guards" where
  "guard_move_ctor g other s = s\<lparr>g_owns := (g_owns s)(g := g_owns s other, other := False)\<rparr>"

definition guard_move_assign :: "nat \<Rightarrow> nat \<Rightarrow> guards \<Rightarrow> guards" where
  "guard_move_assign g other s = (if g = other then s
     else (let s1 = (if g_owns s g then s\<lparr>g_unlocks := g_unlocks s + 1\<rparr> else s) in
       s1\<lparr>g_owns := (g_owns s1)(g := g_owns s1 other, other := False)\<rparr>))"

definition guard_dtor :: "nat \<Rightarrow> guards \<Rightarrow> guards" where
  "guard_dtor g s = (if g_owns s g then s\<lparr>g_unlocks := g_unlocks s + 1, g_owns := (g_owns s)(g := False)\<rparr> else s)"

datatype guard_op = G_unlock nat | G_move nat nat | G_assign nat nat | G_dtor nat

fun guard_exec :: "guard_op \<Rightarrow> guards \<Rightarrow> guards" where
  "guard_exec (G_unlock g) s = guard_unlock g s"
| "guard_exec (G_move g h) s = (if g = h then s else guard_move_ctor g h s)"
| "guard_exec (G_assign g h) s = guard_move_assign g h s"
| "guard_exec (G_dtor g) s = guard_dtor g s"

text \<open>A new guard is move-constructed on fresh storage; \<open>G_move\<close> onto a guard that owns the mutex does not occur.\<close>

fun guard_ok :: "guard_op \<Rightarrow> guards \<Rightarrow> bool" where
  "guard_ok (G_move g h) s \<longleftrightarrow> \<not> g_owns s g"
| "guard_ok _ s \<longleftrightarrow> True"

fun guard_run :: "guard_op list \<Rightarrow> guards \<Rightarrow> guards" where
  "guard_run [] s = s"
| "guard_run (x # xs) s = (if guard_ok x s then guard_run xs (guard_exec x s) else guard_run xs s)"

definition one_owner :: "guards \<Rightarrow> bool" where
  "one_owner s \<longleftrightarrow> (g_unlocks s = 1 \<and> (\<forall>g. \<not> g_owns s g)) \<or> (g_unlocks s = 0 \<and> (\<exists>g. \<forall>g'. g_owns s g' \<longleftrightarrow> g' = g))"

lemma guard_exec_one_owner:
  assumes "one_owner s" "guard_ok x s"
  shows "one_owner (guard_exec x s)"
proof (cases "g_unlocks s = 1")
  case True
  then have "\<forall>g. \<not> g_owns s g" using assms(1) by (auto simp: one_owner_def)
  then show ?thesis using True
    by (cases x) (auto simp: one_owner_def guard_unlock_def guard_move_ctor_def guard_move_assign_def guard_dtor_def Let_def)
next
  case False
  then obtain g where u: "g_unlocks s = 0" and g: "g_owns s = (\<lambda>g'. g' = g)"
    using assms(1) by (auto simp: one_owner_def)
  have moved: "\<exists>o1. \<forall>g'. ((\<lambda>g'. g' = g)(a := b = g, b := False)) g' \<longleftrightarrow> g' = o1" if "a \<noteq> b" "a \<noteq> g" for a b
    by (rule exI [of _ "if b = g then a else g"]) (use that in auto)
  show ?thesis using assms(2) u g moved
    by (cases x) (auto simp: one_owner_def guard_unlock_def guard_move_ctor_def guard_move_assign_def guard_dtor_def Let_def)
qed

lemma guard_run_one_owner: "one_owner s \<Longrightarrow> one_owner (guard_run ops s)"
  by (induction ops arbitrary: s) (simp_all add: guard_exec_one_owner)

section \<open>Interleavings\<close>

datatype mpc = M_idle | M_suspend | M_park | M_hold

record msys =
  ms_state :: u32
  ms_queue :: "nat list"
  ms_pc :: "nat \<Rightarrow> mpc"
  ms_granted :: "nat set"

definition mjump :: "nat \<Rightarrow> mpc \<Rightarrow> msys \<Rightarrow> msys" where
  "mjump t l s = s\<lparr>ms_pc := (ms_pc s)(t := l)\<rparr>"

definition msys_init :: "msys \<Rightarrow> bool" where
  "msys_init s \<longleftrightarrow> s = \<lparr>ms_state = 0, ms_queue = [], ms_pc = (\<lambda>_. M_idle), ms_granted = {}\<rparr>"

text \<open>
  \<open>fast\<close> is \<open>try_lock_raw\<close> in \<open>await_ready\<close> or \<open>try_lock\<close>; \<open>retry\<close> and \<open>push\<close> are the critical section of
  \<open>await_suspend\<close>; \<open>free\<close> and \<open>pass\<close> that of \<open>unlock\<close>; \<open>cancel\<close> that of \<open>on_cancel\<close>, or of the removal when a
  cancellation races with the suspension; \<open>resume\<close> is the resumed task's \<open>await_resume\<close>.
\<close>

inductive mstep :: "msys \<Rightarrow> msys \<Rightarrow> bool" where
  fast: "ms_pc s t = M_idle \<Longrightarrow> ms_state s = 0 \<Longrightarrow> mstep s (mjump t M_hold (s\<lparr>ms_state := 1\<rparr>))"
| slow: "ms_pc s t = M_idle \<Longrightarrow> ms_state s \<noteq> 0 \<Longrightarrow> mstep s (mjump t M_suspend s)"
| give_up: "ms_pc s t = M_suspend \<Longrightarrow> mstep s (mjump t M_idle s)"
| retry: "ms_pc s t = M_suspend \<Longrightarrow> ms_state s = 0 \<Longrightarrow> mstep s (mjump t M_hold (s\<lparr>ms_state := 1\<rparr>))"
| push: "ms_pc s t = M_suspend \<Longrightarrow> ms_state s \<noteq> 0 \<Longrightarrow> mstep s (mjump t M_park (s\<lparr>ms_queue := ms_queue s @ [t]\<rparr>))"
| cancel: "ms_pc s t = M_park \<Longrightarrow> t \<in> set (ms_queue s) \<Longrightarrow> mstep s (mjump t M_idle (s\<lparr>ms_queue := remove1 t (ms_queue s)\<rparr>))"
| free: "ms_pc s t = M_hold \<Longrightarrow> ms_queue s = [] \<Longrightarrow> mstep s (mjump t M_idle (s\<lparr>ms_state := 0\<rparr>))"
| pass: "ms_pc s t = M_hold \<Longrightarrow> ms_queue s = w # q \<Longrightarrow>
    mstep s (mjump t M_idle (s\<lparr>ms_queue := q, ms_granted := insert w (ms_granted s)\<rparr>))"
| resume: "ms_pc s t = M_park \<Longrightarrow> t \<in> ms_granted s \<Longrightarrow> mstep s (mjump t M_hold (s\<lparr>ms_granted := ms_granted s - {t}\<rparr>))"

text \<open>The tasks that own the mutex: inside, or handed it and on their way.\<close>

definition owners :: "msys \<Rightarrow> nat set" where
  "owners s = {t. ms_pc s t = M_hold} \<union> ms_granted s"

definition msys_inv :: "msys \<Rightarrow> bool" where
  "msys_inv s \<longleftrightarrow> distinct (ms_queue s)
     \<and> (\<forall>t. ms_pc s t = M_park \<longleftrightarrow> t \<in> set (ms_queue s) \<union> ms_granted s) \<and> set (ms_queue s) \<inter> ms_granted s = {}
     \<and> (if ms_state s = 0 then owners s = {} \<and> ms_queue s = [] else (\<exists>t. owners s = {t}))"

lemma mjump_simps [simp]:
  "ms_state (mjump t l s) = ms_state s" "ms_queue (mjump t l s) = ms_queue s" "ms_granted (mjump t l s) = ms_granted s"
  "ms_pc (mjump t l s) = (ms_pc s)(t := l)"
  by (simp_all add: mjump_def)

lemma ownersD:
  assumes "msys_inv s" "t \<in> owners s"
  shows "owners s = {t}" "ms_state s \<noteq> 0"
  using assms by (auto simp: msys_inv_def split: if_splits)

lemma hold_owner: "ms_pc s t = M_hold \<Longrightarrow> t \<in> owners s"
  by (simp add: owners_def)

lemma not_parked: "msys_inv s \<Longrightarrow> ms_pc s t \<noteq> M_park \<Longrightarrow> t \<notin> set (ms_queue s) \<and> t \<notin> ms_granted s"
  by (auto simp: msys_inv_def)

lemma holder_alone:
  assumes "msys_inv s" "ms_pc s t = M_hold"
  shows "ms_granted s = {}" "ms_pc s a = M_hold \<longleftrightarrow> a = t"
proof -
  have o: "owners s = {t}" using ownersD(1) [OF assms(1) hold_owner [OF assms(2)]] .
  moreover have "t \<notin> ms_granted s" using not_parked [OF assms(1), of t] assms(2) by simp
  ultimately show "ms_granted s = {}" by (auto simp: owners_def)
  show "ms_pc s a = M_hold \<longleftrightarrow> a = t" using o assms(2) hold_owner [of s a] by auto
qed

lemma msys_inv_step:
  assumes i: "msys_inv s" and st: "mstep s s'"
  shows "msys_inv s'"
  using st
proof cases
  case (fast t)
  have "owners s' = {t}" using i fast by (auto simp: msys_inv_def owners_def)
  then show ?thesis using i fast not_parked [OF i, of t] by (auto simp: msys_inv_def)
next
  case (slow t)
  have "owners s' = owners s" using slow by (auto simp: owners_def)
  then show ?thesis using i slow not_parked [OF i, of t] by (auto simp: msys_inv_def)
next
  case (give_up t)
  have "owners s' = owners s" using give_up by (auto simp: owners_def)
  then show ?thesis using i give_up not_parked [OF i, of t] by (auto simp: msys_inv_def)
next
  case (retry t)
  have "owners s' = {t}" using i retry by (auto simp: msys_inv_def owners_def)
  then show ?thesis using i retry not_parked [OF i, of t] by (auto simp: msys_inv_def)
next
  case (push t)
  have "owners s' = owners s" using push by (auto simp: owners_def)
  then show ?thesis using i push not_parked [OF i, of t] by (auto simp: msys_inv_def)
next
  case (cancel t)
  have "owners s' = owners s" using cancel by (auto simp: owners_def)
  then show ?thesis using i cancel by (auto simp: msys_inv_def)
next
  case (free t)
  have "owners s = {t}" using ownersD(1) [OF i hold_owner [OF free(2)]] .
  moreover have "t \<notin> ms_granted s" using not_parked [OF i, of t] free by simp
  ultimately have "owners s' = {}" using free by (auto simp: owners_def)
  then show ?thesis using i free not_parked [OF i, of t] by (auto simp: msys_inv_def)
next
  case (pass t w q)
  note o = ownersD(2) [OF i hold_owner [OF pass(2)]] and h = holder_alone [OF i pass(2)]
  have "owners s' = {w}" using pass(1) h by (auto simp: owners_def)
  moreover have "distinct (w # q)" "\<And>u. ms_pc s u = M_park \<longleftrightarrow> u \<in> set (w # q)" using i pass(3) h(1) by (simp_all add: msys_inv_def)
  moreover have "t \<notin> set (w # q)" using not_parked [OF i, of t] pass(2,3) by simp
  ultimately show ?thesis using pass(1) o h(1) by (auto simp: msys_inv_def)
next
  case (resume t)
  have "t \<in> owners s" using resume by (simp add: owners_def)
  note o = ownersD [OF i this]
  have "owners s' = owners s" using resume by (auto simp: owners_def)
  then show ?thesis using i resume o by (auto simp: msys_inv_def)
qed

interpretation msys: inv_system msys_init mstep msys_inv
proof
  show "msys_inv s" if "msys_init s" for s using that by (simp add: msys_init_def msys_inv_def owners_def)
qed (rule msys_inv_step)

section \<open>Properties\<close>

text \<open>
  C9. Mutual exclusion and hand-off of \<open>AsyncMutex\<close>, under every interleaving of locking, unlocking and
  cancelled tasks: at most one task owns the mutex (holds it, or was handed it and is on its way); the state
  word is zero exactly when nobody owns it; nobody waits for a free mutex; and an \<open>unlock\<close> with waiting tasks
  makes the longest waiting one the owner, so that no other task can take the mutex in between.
\<close>

theorem mutex_exclusion:
  assumes "reach msys_init mstep s"
  shows "(\<forall>t t'. t \<in> owners s \<and> t' \<in> owners s \<longrightarrow> t = t')
    \<and> (ms_state s = 0 \<longleftrightarrow> owners s = {}) \<and> (ms_queue s \<noteq> [] \<longrightarrow> (\<exists>t. owners s = {t}))
    \<and> (\<forall>s' t w q. mstep s s' \<and> ms_pc s t = M_hold \<and> ms_pc s' t = M_idle \<and> ms_queue s = w # q \<longrightarrow>
         owners s' = {w} \<and> ms_queue s' = q \<and> ms_state s' \<noteq> 0)"
proof -
  have i: "msys_inv s" using msys.reach_inv [OF assms] .
  have "owners s' = {w} \<and> ms_queue s' = q \<and> ms_state s' \<noteq> 0"
    if st: "mstep s s'" and h: "ms_pc s t = M_hold" "ms_pc s' t = M_idle" "ms_queue s = w # q" for s' t w q
  proof -
    have o: "owners s = {t}" "ms_state s \<noteq> 0" using ownersD [OF i hold_owner [OF h(1)]] by auto
    have "\<exists>u. s' = mjump u M_idle (s\<lparr>ms_queue := q, ms_granted := insert w (ms_granted s)\<rparr>) \<and> ms_pc s u = M_hold"
      using st by cases (use h in \<open>auto split: if_splits\<close>)
    then obtain u where u: "s' = mjump u M_idle (s\<lparr>ms_queue := q, ms_granted := insert w (ms_granted s)\<rparr>)" "ms_pc s u = M_hold"
      by blast
    show ?thesis using u(1) holder_alone [OF i u(2)] o(2) by (auto simp: owners_def)
  qed
  moreover have "\<forall>t t'. t \<in> owners s \<and> t' \<in> owners s \<longrightarrow> t = t'" "ms_state s = 0 \<longleftrightarrow> owners s = {}"
    "ms_queue s \<noteq> [] \<longrightarrow> (\<exists>t. owners s = {t})"
    using i by (auto simp: msys_inv_def split: if_splits)
  ultimately show ?thesis by blast
qed

theorem mutex_exclusion_witness:
  "\<exists>s. reach msys_init mstep s \<and> owners s = {0} \<and> ms_queue s = [1] \<and> (ms_state s = 0 \<longleftrightarrow> owners s = {})"
proof -
  define s0 where "s0 = \<lparr>ms_state = 0, ms_queue = [], ms_pc = (\<lambda>_. M_idle), ms_granted = {}\<rparr>"
  define s1 where "s1 = mjump 0 M_hold (s0\<lparr>ms_state := 1\<rparr>)"
  define s2 where "s2 = mjump 1 M_suspend s1"
  define s3 where "s3 = mjump 1 M_park (s2\<lparr>ms_queue := ms_queue s2 @ [1]\<rparr>)"
  note defs = s0_def s1_def s2_def s3_def
  have r0: "reach msys_init mstep s0" by (rule reach_init) (simp add: s0_def msys_init_def)
  have r1: "reach msys_init mstep s1" unfolding s1_def by (rule reach_step [OF r0 fast]) (simp_all add: defs)
  have r2: "reach msys_init mstep s2" unfolding s2_def by (rule reach_step [OF r1 slow]) (simp_all add: defs)
  have r3: "reach msys_init mstep s3" unfolding s3_def by (rule reach_step [OF r2 push]) (simp_all add: defs)
  have "{t. ms_pc s3 t = M_hold} = {0}" by (auto simp: defs)
  then have "owners s3 = {0}" by (simp add: owners_def defs)
  moreover have "ms_state s3 = 0 \<longleftrightarrow> owners s3 = {}" using mutex_exclusion [OF r3] by blast
  moreover have "ms_queue s3 = [1]" by (simp add: defs)
  ultimately show ?thesis using r3 by blast
qed

text \<open>
  \<open>AsyncMutex::unlock\<close> on the real wait list: without waiters the state word becomes zero; otherwise the
  state stays locked and exactly the longest waiting task is resumed, the others keep their places.
\<close>

theorem mutex_unlock_handoff:
  assumes "waiting own xs (m_waiters m) e"
  shows "case mutex_unlock reuse (m, e) of (m', e') \<Rightarrow>
    waiting own (tl xs) (m_waiters m') e' \<and> e_sched e' = resume_all reuse e (take 1 xs)
    \<and> m_state m' = (if xs = [] then 0 else m_state m)"
proof -
  obtain p l h where pop: "pop_front_locked (m_waiters m, e_nodes e) = (p, l, h)" by (metis prod_cases3)
  have rep: "wl_rep own xs (m_waiters m, e_nodes e)" using assms by (simp add: waiting_def)
  have r: "p = first xs" "wl_rep own (tl xs) (l, h)" "\<And>a. wdata (h a) = wdata (e_nodes e a)"
    using pop_front_rep [OF rep] pop by auto
  have pl: "plain a (e\<lparr>e_nodes := h, e_sched := x\<rparr>)" "plain a (e\<lparr>e_nodes := h\<rparr>)" if "a \<in> set xs" for a x
    using assms that wdata_eqD [OF r(3), of a] by (auto simp: waiting_def plain_def)
  show ?thesis
  proof (cases xs)
    case Nil
    then show ?thesis using pop r by (simp add: mutex_unlock_def waiting_def resume_all_def)
  next
    case (Cons w ys)
    then show ?thesis using pop r pl assms wdata_eqD [OF r(3), of w]
      by (simp add: mutex_unlock_def waiting_def resume_all_def resume_waiter_def)
  qed
qed

theorem mutex_unlock_handoff_witness:
  "case mutex_unlock True (\<lparr>m_state = 1, m_waiters = fst demo_waiting\<rparr>, snd demo_waiting) of (m', e') \<Rightarrow>
    waiting {5, 6} [6] (m_waiters m') e' \<and> e_sched e' = resume_all True (snd demo_waiting) [5] \<and> m_state m' = 1"
  using mutex_unlock_handoff [of "{5, 6}" "[5, 6]" "\<lparr>m_state = 1, m_waiters = fst demo_waiting\<rparr>" "snd demo_waiting" True]
    demo_waiting_ok by (simp split: prod.splits)

text \<open>
  The guards of one acquisition unlock at most once: whatever sequence of \<open>unlock\<close>, moves, move
  assignments and destructions they go through, either exactly one guard still owns the mutex and nobody
  has unlocked it, or it was unlocked exactly once and no guard owns it.
\<close>

theorem guard_unlocks_once:
  "one_owner (guard_run ops \<lparr>g_owns = (\<lambda>g. g = a), g_unlocks = 0\<rparr>)"
  by (rule guard_run_one_owner) (auto simp: one_owner_def)

end
