(* ===== verification/Segmented_Queue.thy ===== *)
theory Segmented_Queue
  imports Mpmc_Queue
begin

text \<open>
  \<open>SegmentedMPMCQueue\<close> of \<open>utils/datastructures/queue/ConcurrentQueues.h\<close>, the unbounded queue behind the
  socket inboxes and the unbounded channel: a linked list of fixed-size segments, with a spare segment
  kept per thread and retired segments handed to the hazard-pointer domain. Segments live in an explicit
  store indexed by address; \<open>N\<close> is the template parameter \<open>SegmentSize\<close>. The operations are modelled as
  one thread executes them: a compare-and-swap is a test of the current value, and a loop that waits for
  another thread is the outer \<open>None\<close>. The hazard domain's \<open>protect\<close> returns the pointer it protects, its
  \<open>retire\<close> appends to \<open>sq_retired\<close>, and \<open>sq_reclaim\<close> is the domain running the deleter later.
\<close>

datatype cell_state = KEmpty | KFull | KDead

record 'a scell =
  sc_state :: cell_state
  sc_storage :: "'a option"

record 'a seg =
  sg_enq :: nat
  sg_deq :: nat
  sg_next :: "nat option"
  sg_base :: nat
  sg_cells :: "'a scell list"

record 'a sq =
  sq_heap :: "nat \<Rightarrow> 'a seg"
  sq_brk :: nat
  sq_head :: nat
  sq_tail :: nat
  sq_spare :: "nat option"
  sq_alive :: bool
  sq_retired :: "nat list"
  sq_deleted :: "nat list"

definition new_segment :: "nat \<Rightarrow> 'a seg" where
  "new_segment N = \<lparr>sg_enq = 0, sg_deq = 0, sg_next = None, sg_base = 0,
     sg_cells = replicate N \<lparr>sc_state = KEmpty, sc_storage = None\<rparr>\<rparr>"

definition seg_reset :: "nat \<Rightarrow> 'a seg \<Rightarrow> 'a seg" where
  "seg_reset new_base s = s\<lparr>sg_enq := 0, sg_deq := 0, sg_next := None, sg_base := new_base,
     sg_cells := map (\<lambda>c. c\<lparr>sc_state := KEmpty\<rparr>) (sg_cells s)\<rparr>"

definition upd_seg :: "nat \<Rightarrow> ('a seg \<Rightarrow> 'a seg) \<Rightarrow> 'a sq \<Rightarrow> 'a sq" where
  "upd_seg p f q = q\<lparr>sq_heap := (sq_heap q)(p := f (sq_heap q p))\<rparr>"

definition alloc_seg :: "nat \<Rightarrow> 'a sq \<Rightarrow> nat \<times> 'a sq" where
  "alloc_seg N q = (sq_brk q, q\<lparr>sq_heap := (sq_heap q)(sq_brk q := new_segment N), sq_brk := Suc (sq_brk q)\<rparr>)"

definition take_segment :: "nat \<Rightarrow> nat \<Rightarrow> 'a sq \<Rightarrow> nat \<times> 'a sq" where
  "take_segment N base q = (case sq_spare q of
     Some s \<Rightarrow> (s, upd_seg s (seg_reset base) (q\<lparr>sq_spare := None\<rparr>))
   | None \<Rightarrow> (case alloc_seg N q of (s, q1) \<Rightarrow> (s, upd_seg s (\<lambda>g. g\<lparr>sg_base := base\<rparr>) q1)))"

definition give_segment :: "nat \<Rightarrow> 'a sq \<Rightarrow> 'a sq" where
  "give_segment s q = (if sq_alive q \<and> sq_spare q = None then q\<lparr>sq_spare := Some s\<rparr>
     else q\<lparr>sq_deleted := s # sq_deleted q\<rparr>)"

definition sq_reclaim :: "'a sq \<Rightarrow> 'a sq" where
  "sq_reclaim q = (case sq_retired q of [] \<Rightarrow> q | s # r \<Rightarrow> give_segment s (q\<lparr>sq_retired := r\<rparr>))"

definition spare_exit :: "'a sq \<Rightarrow> 'a sq" where
  "spare_exit q = q\<lparr>sq_deleted := (case sq_spare q of None \<Rightarrow> sq_deleted q | Some s \<Rightarrow> s # sq_deleted q),
     sq_spare := None, sq_alive := False\<rparr>"

definition sq_new :: "nat \<Rightarrow> 'a sq" where
  "sq_new N = \<lparr>sq_heap = (\<lambda>_. new_segment N), sq_brk = 1, sq_head = 0, sq_tail = 0, sq_spare = None,
     sq_alive = True, sq_retired = [], sq_deleted = []\<rparr>"

definition publish_cell :: "nat \<Rightarrow> 'a \<Rightarrow> 'a seg \<Rightarrow> 'a seg" where
  "publish_cell i v s = s\<lparr>sg_cells := (sg_cells s)[i := \<lparr>sc_state = KFull, sc_storage = Some v\<rparr>]\<rparr>"

definition consume_cell :: "nat \<Rightarrow> 'a seg \<Rightarrow> 'a \<times> 'a seg" where
  "consume_cell i s = (the (sc_storage (sg_cells s ! i)),
     s\<lparr>sg_cells := (sg_cells s)[i := (sg_cells s ! i)\<lparr>sc_storage := None\<rparr>]\<rparr>)"

definition consume_at :: "nat \<Rightarrow> nat \<Rightarrow> 'a sq \<Rightarrow> 'a \<times> 'a sq" where
  "consume_at s i q = (case consume_cell i (sq_heap q s) of (v, g) \<Rightarrow> (v, upd_seg s (\<lambda>_. g) q))"

text \<open>\<open>tail_.compare_exchange_strong(t, nx)\<close> with \<open>t = s\<close>.\<close>

definition cas_tail :: "nat \<Rightarrow> nat \<Rightarrow> 'a sq \<Rightarrow> 'a sq" where
  "cas_tail s nx q = (if sq_tail q = s then q\<lparr>sq_tail := nx\<rparr> else q)"

definition advance_tail :: "nat \<Rightarrow> nat \<Rightarrow> 'a option \<Rightarrow> 'a sq \<Rightarrow> nat option \<times> 'a sq" where
  "advance_tail N s value q = (case sg_next (sq_heap q s) of
     Some nx \<Rightarrow> (let q1 = cas_tail s nx q in (Some (sq_tail q1), q1))
   | None \<Rightarrow> (case take_segment N (sg_base (sq_heap q s) + N) q of (fresh, q1) \<Rightarrow>
       let q2 = (case value of None \<Rightarrow> q1
                 | Some v \<Rightarrow> upd_seg fresh (\<lambda>g. (publish_cell 0 v g)\<lparr>sg_enq := 1\<rparr>) q1) in
       case sg_next (sq_heap q2 s) of
         None \<Rightarrow> (let q3 = cas_tail s fresh (upd_seg s (\<lambda>g. g\<lparr>sg_next := Some fresh\<rparr>) q2) in
           if value \<noteq> None then (None, q3) else (Some (sq_tail q3), q3))
       | Some expected \<Rightarrow> (let q3 = (if value \<noteq> None
             then upd_seg fresh (\<lambda>g. g\<lparr>sg_cells := (sg_cells g)[0 := \<lparr>sc_state = KEmpty, sc_storage = None\<rparr>], sg_enq := 0\<rparr>) q2
             else q2);
           q4 = cas_tail s expected (give_segment fresh q3) in (Some (sq_tail q4), q4))))"

partial_function (option) sq_enqueue_loop :: "nat \<Rightarrow> 'a \<Rightarrow> nat \<Rightarrow> 'a sq \<Rightarrow> 'a sq option" where
  "sq_enqueue_loop N v s q = (let pos = sg_enq (sq_heap q s);
       q1 = upd_seg s (\<lambda>g. g\<lparr>sg_enq := pos + 1\<rparr>) q in
     if pos < N then Some (upd_seg s (publish_cell pos v) q1)
     else (let r = advance_tail N s (Some v) q1 in
       case fst r of None \<Rightarrow> Some (snd r) | Some s1 \<Rightarrow> sq_enqueue_loop N v s1 (snd r)))"

definition sq_do_enqueue :: "nat \<Rightarrow> 'a \<Rightarrow> 'a sq \<Rightarrow> 'a sq option" where
  "sq_do_enqueue N v q = sq_enqueue_loop N v (sq_tail q) q"

definition publish_all :: "nat \<Rightarrow> 'a list \<Rightarrow> 'a seg \<Rightarrow> 'a seg" where
  "publish_all pos vs s = snd (fold (\<lambda>v (i, g). (Suc i, publish_cell i v g)) vs (pos, s))"

partial_function (option) sq_bulk_loop :: "nat \<Rightarrow> 'a list \<Rightarrow> nat \<Rightarrow> 'a sq \<Rightarrow> 'a sq option" where
  "sq_bulk_loop N vs s q = (if vs = [] then Some q else
     (let want = length vs; pos = sg_enq (sq_heap q s);
          q1 = upd_seg s (\<lambda>g. g\<lparr>sg_enq := pos + want\<rparr>) q in
      if N \<le> pos then
        (let r = advance_tail N s None q1 in
         case fst r of None \<Rightarrow> None | Some s1 \<Rightarrow> sq_bulk_loop N vs s1 (snd r))
      else
        (let k = min (pos + want) N - pos;
             q2 = upd_seg s (publish_all pos (take k vs)) q1 in
         if N < pos + want then
           (let r = advance_tail N s None q2 in
            case fst r of None \<Rightarrow> None | Some s1 \<Rightarrow> sq_bulk_loop N (drop k vs) s1 (snd r))
         else sq_bulk_loop N (drop k vs) s q2)))"

definition sq_enqueue_bulk :: "nat \<Rightarrow> 'a list \<Rightarrow> 'a sq \<Rightarrow> (nat \<times> 'a sq) option" where
  "sq_enqueue_bulk N vs q = (if vs = [] then Some (0, q)
     else map_option (\<lambda>q1. (length vs, q1)) (sq_bulk_loop N vs (sq_tail q) q))"

definition advance_head :: "nat \<Rightarrow> 'a sq \<Rightarrow> nat option \<times> 'a sq" where
  "advance_head s q = (case sg_next (sq_heap q s) of
     None \<Rightarrow> (None, q)
   | Some nx \<Rightarrow> (let q1 = (if sq_head q = s then q\<lparr>sq_head := nx, sq_retired := sq_retired q @ [s]\<rparr> else q)
       in (Some (sq_head q1), q1)))"

text \<open>
  \<open>take_cell\<close>: the element of a claimed cell, or nothing when the cell is dead. An empty cell whose
  producer has claimed it is waited for; an unclaimed one is closed by moving the producers past it.
\<close>

partial_function (option) take_cell :: "nat \<Rightarrow> nat \<Rightarrow> 'a sq \<Rightarrow> ('a option \<times> 'a sq) option" where
  "take_cell s pos q = (let st = sc_state (sg_cells (sq_heap q s) ! pos); e = sg_enq (sq_heap q s) in
     if st = KEmpty then
       (if pos < e then take_cell s pos q
        else Some (None, upd_seg s (\<lambda>g. g\<lparr>sg_enq := pos + 1,
          sg_cells := map (\<lambda>(i, c). if e \<le> i \<and> i \<le> pos then c\<lparr>sc_state := KDead\<rparr> else c) (enumerate 0 (sg_cells g))\<rparr>) q))
     else if st = KDead then Some (None, q)
     else (case consume_at s pos q of (v, q1) \<Rightarrow> Some (Some v, q1)))"

partial_function (option) sq_dequeue_loop :: "nat \<Rightarrow> nat \<Rightarrow> 'a sq \<Rightarrow> ('a option \<times> 'a sq) option" where
  "sq_dequeue_loop N s q = (let g = sq_heap q s; d = sg_deq g in
     if N \<le> d then
       (let r = advance_head s q in
        case fst r of None \<Rightarrow> Some (None, snd r) | Some s1 \<Rightarrow> sq_dequeue_loop N s1 (snd r))
     else if sc_state (sg_cells g ! d) \<noteq> KFull then
       (if sg_enq g \<le> d then Some (None, q) else sq_dequeue_loop N s q)
     else if N \<le> d + 1 \<or> sc_state (sg_cells g ! (d + 1)) \<noteq> KFull then
       (let r = consume_at s d (upd_seg s (\<lambda>g. g\<lparr>sg_deq := d + 1\<rparr>) q) in Some (Some (fst r), snd r))
     else Option.bind (take_cell s d (upd_seg s (\<lambda>g. g\<lparr>sg_deq := d + 1\<rparr>) q)) (\<lambda>r.
       case fst r of Some v \<Rightarrow> Some (Some v, snd r) | None \<Rightarrow> sq_dequeue_loop N s (snd r)))"

definition sq_try_dequeue :: "nat \<Rightarrow> 'a sq \<Rightarrow> ('a option \<times> 'a sq) option" where
  "sq_try_dequeue N q = sq_dequeue_loop N (sq_head q) q"

fun take_cells :: "nat \<Rightarrow> nat \<Rightarrow> nat \<Rightarrow> 'a sq \<Rightarrow> ('a list \<times> 'a sq) option" where
  "take_cells s pos 0 q = Some ([], q)"
| "take_cells s pos (Suc n) q = Option.bind (take_cell s pos q) (\<lambda>(v, q1).
     map_option (\<lambda>(vs, q2). (case v of None \<Rightarrow> vs | Some x \<Rightarrow> x # vs, q2)) (take_cells s (Suc pos) n q1))"

definition ready_count :: "nat \<Rightarrow> nat \<Rightarrow> 'a seg \<Rightarrow> nat" where
  "ready_count N max_items g = length (takeWhile (\<lambda>c. sc_state c = KFull)
     (take (min (N - sg_deq g) max_items) (drop (sg_deq g) (sg_cells g))))"

partial_function (option) sq_dequeue_bulk_loop :: "nat \<Rightarrow> nat \<Rightarrow> nat \<Rightarrow> 'a sq \<Rightarrow> ('a list \<times> 'a sq) option" where
  "sq_dequeue_bulk_loop N m s q = (let g = sq_heap q s; d = sg_deq g; ready = ready_count N m g in
     if N \<le> d then
       (let r = advance_head s q in
        case fst r of None \<Rightarrow> Some ([], snd r) | Some s1 \<Rightarrow> sq_dequeue_bulk_loop N m s1 (snd r))
     else if ready = 0 then
       (if sg_enq g \<le> d then Some ([], q) else sq_dequeue_bulk_loop N m s q)
     else if ready = 1 then
       (let r = consume_at s d (upd_seg s (\<lambda>g. g\<lparr>sg_deq := d + 1\<rparr>) q) in Some ([fst r], snd r))
     else Option.bind (take_cells s d (min (d + ready) N - d) (upd_seg s (\<lambda>g. g\<lparr>sg_deq := d + ready\<rparr>) q)) (\<lambda>r.
       if fst r \<noteq> [] then Some r else sq_dequeue_bulk_loop N m s (snd r)))"

definition sq_try_dequeue_bulk :: "nat \<Rightarrow> nat \<Rightarrow> 'a sq \<Rightarrow> ('a list \<times> 'a sq) option" where
  "sq_try_dequeue_bulk N max_items q = (if max_items = 0 then Some ([], q)
     else sq_dequeue_bulk_loop N max_items (sq_head q) q)"

definition sq_empty_relaxed :: "nat \<Rightarrow> 'a sq \<Rightarrow> bool" where
  "sq_empty_relaxed N q = (let s = sq_heap q (sq_head q) in
     if sg_deq s < N then sg_enq s \<le> sg_deq s else sg_next s = None)"

definition sq_size_relaxed :: "nat \<Rightarrow> 'a sq \<Rightarrow> nat" where
  "sq_size_relaxed N q = (let h = sq_heap q (sq_head q); t = sq_heap q (sq_tail q);
       hd = sg_base h + min (sg_deq h) N; te = sg_base t + min (sg_enq t) N in
     if hd < te then te - hd else 0)"

text \<open>The destructor: the elements it destroys, segment by segment; every segment of the chain is deleted.\<close>

definition seg_destroyed :: "nat \<Rightarrow> 'a seg \<Rightarrow> 'a list" where
  "seg_destroyed N s = (let e = min (sg_enq s) N; i = min (sg_deq s) N in
     map (\<lambda>c. the (sc_storage c)) (filter (\<lambda>c. sc_state c = KFull) (take (e - i) (drop i (sg_cells s)))))"

partial_function (option) sq_destroy_loop :: "nat \<Rightarrow> nat option \<Rightarrow> 'a sq \<Rightarrow> ('a list \<times> 'a sq) option" where
  "sq_destroy_loop N p q = (case p of
     None \<Rightarrow> Some ([], q)
   | Some s \<Rightarrow> Option.bind (sq_destroy_loop N (sg_next (sq_heap q s)) (q\<lparr>sq_deleted := s # sq_deleted q\<rparr>))
       (\<lambda>r. Some (seg_destroyed N (sq_heap q s) @ fst r, snd r)))"

definition sq_destroy :: "nat \<Rightarrow> 'a sq \<Rightarrow> ('a list \<times> 'a sq) option" where
  "sq_destroy N q = sq_destroy_loop N (Some (sq_head q)) q"

section \<open>Abstraction and invariant\<close>

fun walk :: "nat \<Rightarrow> (nat \<Rightarrow> 'a seg) \<Rightarrow> nat \<Rightarrow> nat list" where
  "walk 0 h p = []"
| "walk (Suc n) h p = p # (case sg_next (h p) of None \<Rightarrow> [] | Some p' \<Rightarrow> walk n h p')"

definition seg_vals :: "nat \<Rightarrow> 'a seg \<Rightarrow> 'a list" where
  "seg_vals N s = map (\<lambda>c. the (sc_storage c)) (take (min (sg_enq s) N - sg_deq s) (drop (sg_deq s) (sg_cells s)))"

definition seg_ids :: "'a sq \<Rightarrow> nat list" where
  "seg_ids q = walk (sq_brk q) (sq_heap q) (sq_head q)"

definition sq_contents :: "nat \<Rightarrow> 'a sq \<Rightarrow> 'a list" where
  "sq_contents N q = concat (map (\<lambda>p. seg_vals N (sq_heap q p)) (seg_ids q))"

fun chain :: "(nat \<Rightarrow> 'a seg) \<Rightarrow> nat \<Rightarrow> nat list \<Rightarrow> bool" where
  "chain h p [] \<longleftrightarrow> False"
| "chain h p [a] \<longleftrightarrow> p = a \<and> sg_next (h a) = None"
| "chain h p (a # b # r) \<longleftrightarrow> p = a \<and> sg_next (h a) = Some b \<and> chain h b (b # r)"

definition seg_ok :: "nat \<Rightarrow> 'a seg \<Rightarrow> bool" where
  "seg_ok N s \<longleftrightarrow> length (sg_cells s) = N \<and> sg_deq s \<le> min (sg_enq s) N
     \<and> (\<forall>i<N. (sg_deq s \<le> i \<and> i < sg_enq s \<longrightarrow> sc_state (sg_cells s ! i) = KFull)
          \<and> (sg_enq s \<le> i \<longrightarrow> sc_state (sg_cells s ! i) = KEmpty))"

text \<open>
  The segments from \<open>head_\<close> to \<open>tail_\<close>: all but the last are completely enqueued, all but the first
  untouched by consumers, the bases count the positions, and no segment of the chain is a spare, a
  retired or a deleted one.
\<close>

definition sq_ok :: "nat \<Rightarrow> nat list \<Rightarrow> 'a sq \<Rightarrow> bool" where
  "sq_ok N ids q \<longleftrightarrow> chain (sq_heap q) (sq_head q) ids \<and> sq_tail q = last ids
     \<and> distinct (ids @ (case sq_spare q of None \<Rightarrow> [] | Some p \<Rightarrow> [p]) @ sq_retired q)
     \<and> (\<forall>p\<in>set ids \<union> set_option (sq_spare q) \<union> set (sq_retired q). p < sq_brk q \<and> length (sg_cells (sq_heap q p)) = N)
     \<and> (\<forall>p\<in>set ids. seg_ok N (sq_heap q p))
     \<and> (\<forall>p\<in>set (butlast ids). N \<le> sg_enq (sq_heap q p))
     \<and> (\<forall>p\<in>set (tl ids). sg_deq (sq_heap q p) = 0)
     \<and> (\<forall>i<length ids. sg_base (sq_heap q (ids ! i)) = sg_base (sq_heap q (hd ids)) + i * N)"

definition sq_inv :: "nat \<Rightarrow> 'a sq \<Rightarrow> bool" where
  "sq_inv N q \<longleftrightarrow> 2 \<le> N \<and> sq_ok N (seg_ids q) q
     \<and> (1 < length (seg_ids q) \<longrightarrow> 0 < sg_enq (sq_heap q (sq_tail q)))"

lemma chain_Cons: "chain h p ids \<Longrightarrow> ids = p # tl ids \<and> ids \<noteq> []"
  by (induction h p ids rule: chain.induct) auto

lemma walk_chain: "chain h p ids \<Longrightarrow> length ids \<le> n \<Longrightarrow> walk n h p = ids"
proof (induction h p ids arbitrary: n rule: chain.induct)
  case (2 h p a)
  then show ?case by (cases n) auto
next
  case (3 h p a b r)
  then show ?case by (cases n) auto
qed auto

lemma chain_cong: "(\<And>a. a \<in> set ids \<Longrightarrow> sg_next (h' a) = sg_next (h a)) \<Longrightarrow> chain h' p ids = chain h p ids"
  by (induction h p ids rule: chain.induct) auto

lemma chain_last: "chain h p ids \<Longrightarrow> sg_next (h (last ids)) = None"
  by (induction h p ids rule: chain.induct) auto

lemma chain_snoc:
  assumes "chain h p ids" "b \<notin> set ids" "distinct ids"
    "\<And>a. a \<in> set ids \<Longrightarrow> a \<noteq> last ids \<Longrightarrow> sg_next (h' a) = sg_next (h a)"
    "sg_next (h' (last ids)) = Some b" "sg_next (h' b) = None"
  shows "chain h' p (ids @ [b])"
  using assms
proof (induction h p ids rule: chain.induct)
  case (3 h p a c r)
  have "a \<noteq> last (c # r)" using 3(4) last_in_set [of "c # r"] by auto
  then have "sg_next (h' a) = sg_next (h a)" using 3(5) [of a] by simp
  then show ?case using 3 by simp
qed auto

lemma sq_okD:
  assumes "sq_ok N ids q"
  shows "chain (sq_heap q) (sq_head q) ids" "sq_tail q = last ids" "ids \<noteq> []" "distinct ids" "hd ids = sq_head q"
    "p \<in> set ids \<Longrightarrow> seg_ok N (sq_heap q p)" "p \<in> set (butlast ids) \<Longrightarrow> N \<le> sg_enq (sq_heap q p)"
    "p \<in> set (tl ids) \<Longrightarrow> sg_deq (sq_heap q p) = 0" "p \<in> set ids \<Longrightarrow> p < sq_brk q"
    "ids = butlast ids @ [last ids]" "last ids \<notin> set (butlast ids)"
    "i < length ids \<Longrightarrow> sg_base (sq_heap q (ids ! i)) = sg_base (sq_heap q (hd ids)) + i * N"
proof -
  show c: "chain (sq_heap q) (sq_head q) ids" "sq_tail q = last ids" using assms by (simp_all add: sq_ok_def)
  show d: "distinct ids" using assms by (simp add: sq_ok_def)
  show "p \<in> set ids \<Longrightarrow> seg_ok N (sq_heap q p)" "p \<in> set (butlast ids) \<Longrightarrow> N \<le> sg_enq (sq_heap q p)"
    "p \<in> set (tl ids) \<Longrightarrow> sg_deq (sq_heap q p) = 0" "p \<in> set ids \<Longrightarrow> p < sq_brk q"
    "i < length ids \<Longrightarrow> sg_base (sq_heap q (ids ! i)) = sg_base (sq_heap q (hd ids)) + i * N"
    using assms by (auto simp: sq_ok_def)
  show n: "ids \<noteq> []" "hd ids = sq_head q" using chain_Cons [OF c(1)] by (metis, metis list.sel(1))
  then show s: "ids = butlast ids @ [last ids]" by simp
  have "distinct (butlast ids @ [last ids])" using d s by simp
  then show "last ids \<notin> set (butlast ids)" by simp
qed

lemma seg_ids_eq:
  assumes "sq_ok N ids q"
  shows "seg_ids q = ids"
proof -
  have "length ids = card (set ids)" using sq_okD(4) [OF assms] by (simp add: distinct_card)
  also have "\<dots> \<le> card {..<sq_brk q}" using sq_okD(9) [OF assms] by (intro card_mono) auto
  finally show ?thesis unfolding seg_ids_def using walk_chain [OF sq_okD(1) [OF assms]] by simp
qed

lemma sq_contents_eq:
  assumes "sq_ok N ids q"
  shows "sq_contents N q = concat (map (\<lambda>p. seg_vals N (sq_heap q p)) (butlast ids)) @ seg_vals N (sq_heap q (last ids))"
    "sq_contents N q = seg_vals N (sq_heap q (sq_head q)) @ concat (map (\<lambda>p. seg_vals N (sq_heap q p)) (tl ids))"
proof -
  note i = seg_ids_eq [OF assms] and d = sq_okD [OF assms]
  show "sq_contents N q = concat (map (\<lambda>p. seg_vals N (sq_heap q p)) (butlast ids)) @ seg_vals N (sq_heap q (last ids))"
    unfolding sq_contents_def i by (subst d(10)) simp
  have "ids = sq_head q # tl ids" using d(3,5) by (metis list.collapse)
  then show "sq_contents N q = seg_vals N (sq_heap q (sq_head q)) @ concat (map (\<lambda>p. seg_vals N (sq_heap q p)) (tl ids))"
    unfolding sq_contents_def i by (metis concat.simps(2) list.simps(9))
qed

lemma upd_seg_simps [simp]:
  "sq_heap (upd_seg p f q) = (sq_heap q)(p := f (sq_heap q p))" "sq_brk (upd_seg p f q) = sq_brk q"
  "sq_head (upd_seg p f q) = sq_head q" "sq_tail (upd_seg p f q) = sq_tail q" "sq_spare (upd_seg p f q) = sq_spare q"
  "sq_alive (upd_seg p f q) = sq_alive q" "sq_retired (upd_seg p f q) = sq_retired q" "sq_deleted (upd_seg p f q) = sq_deleted q"
  by (simp_all add: upd_seg_def)

lemma upd_seg_upd_seg [simp]: "upd_seg p f (upd_seg p g q) = upd_seg p (\<lambda>s. f (g s)) q"
  by (simp add: upd_seg_def)

text \<open>A producer changes the last segment, keeping its link, base and consumer position.\<close>

lemma sq_ok_upd_last:
  assumes ok: "sq_ok N ids q" and f: "\<And>s. s = sq_heap q (last ids) \<Longrightarrow> seg_ok N (f s) \<and> sg_next (f s) = sg_next s
      \<and> sg_base (f s) = sg_base s \<and> sg_deq (f s) = sg_deq s"
  shows "sq_ok N ids (upd_seg (last ids) f q)"
    "sq_contents N (upd_seg (last ids) f q)
      = concat (map (\<lambda>p. seg_vals N (sq_heap q p)) (butlast ids)) @ seg_vals N (f (sq_heap q (last ids)))"
proof -
  note d = sq_okD [OF ok] and F = f [OF refl]
  have c: "chain (sq_heap (upd_seg (last ids) f q)) (sq_head q) ids"
    using d(1) F by (subst chain_cong [where h = "sq_heap q"]) auto
  have b: "p \<in> set (butlast ids) \<Longrightarrow> p \<noteq> last ids" for p using d(11) by auto
  show ok': "sq_ok N ids (upd_seg (last ids) f q)"
    using ok c b F unfolding sq_ok_def by (auto simp: seg_ok_def)
  show "sq_contents N (upd_seg (last ids) f q)
      = concat (map (\<lambda>p. seg_vals N (sq_heap q p)) (butlast ids)) @ seg_vals N (f (sq_heap q (last ids)))"
    unfolding sq_contents_eq(1) [OF ok'] using b by (auto intro!: arg_cong [where f = concat])
qed

section \<open>Producers\<close>

lemma publish_simps [simp]:
  "sg_enq (publish_cell i v s) = sg_enq s" "sg_deq (publish_cell i v s) = sg_deq s"
  "sg_next (publish_cell i v s) = sg_next s" "sg_base (publish_cell i v s) = sg_base s"
  "sg_cells (publish_cell i v s) = (sg_cells s)[i := \<lparr>sc_state = KFull, sc_storage = Some v\<rparr>]"
  by (simp_all add: publish_cell_def)

lemma seg_overshoot:
  assumes "seg_ok N s" "N \<le> sg_enq s" "sg_enq s \<le> e"
  shows "seg_ok N (s\<lparr>sg_enq := e\<rparr>)" "seg_vals N (s\<lparr>sg_enq := e\<rparr>) = seg_vals N s"
proof -
  have "min (sg_enq s) N = N" "min e N = N" using assms by auto
  then show "seg_ok N (s\<lparr>sg_enq := e\<rparr>)" "seg_vals N (s\<lparr>sg_enq := e\<rparr>) = seg_vals N s"
    using assms by (auto simp: seg_ok_def seg_vals_def)
qed

lemma publish_enq: "publish_cell i v (s\<lparr>sg_enq := e\<rparr>) = (publish_cell i v s)\<lparr>sg_enq := e\<rparr>"
  by (simp add: publish_cell_def)

text \<open>Publishing a run of elements at the producer position.\<close>

lemma publish_all_simps [simp]:
  "publish_all pos [] s = s"
  "publish_all pos (v # vs) s = publish_all (Suc pos) vs (publish_cell pos v s)"
  by (simp_all add: publish_all_def)

lemma publish_all_fields [simp]:
  "sg_enq (publish_all pos vs s) = sg_enq s" "sg_deq (publish_all pos vs s) = sg_deq s"
  "sg_next (publish_all pos vs s) = sg_next s" "sg_base (publish_all pos vs s) = sg_base s"
  by (induction vs arbitrary: pos s) auto

lemma seg_vals_publish:
  assumes "seg_ok N s" "sg_enq s < N"
  shows "seg_ok N (publish_cell (sg_enq s) v (s\<lparr>sg_enq := Suc (sg_enq s)\<rparr>))"
    "seg_vals N (publish_cell (sg_enq s) v (s\<lparr>sg_enq := Suc (sg_enq s)\<rparr>)) = seg_vals N s @ [v]"
proof -
  let ?c = "(sg_cells s)[sg_enq s := \<lparr>sc_state = KFull, sc_storage = Some v\<rparr>]"
  have l: "length (sg_cells s) = N" "sg_deq s \<le> sg_enq s" using assms by (auto simp: seg_ok_def)
  show "seg_ok N (publish_cell (sg_enq s) v (s\<lparr>sg_enq := Suc (sg_enq s)\<rparr>))"
    using assms by (auto simp: seg_ok_def nth_list_update)
  have "take (Suc (sg_enq s) - sg_deq s) (drop (sg_deq s) ?c)
      = take (sg_enq s - sg_deq s) (drop (sg_deq s) (sg_cells s)) @ [\<lparr>sc_state = KFull, sc_storage = Some v\<rparr>]"
    using l assms(2) by (intro nth_equalityI) (auto simp: nth_append nth_list_update)
  then show "seg_vals N (publish_cell (sg_enq s) v (s\<lparr>sg_enq := Suc (sg_enq s)\<rparr>)) = seg_vals N s @ [v]"
    using assms(2) l by (simp add: seg_vals_def)
qed

lemma publish_all_ok:
  assumes "seg_ok N s" "sg_enq s + length vs \<le> N"
  shows "seg_ok N (publish_all (sg_enq s) vs (s\<lparr>sg_enq := sg_enq s + length vs\<rparr>))
    \<and> seg_vals N (publish_all (sg_enq s) vs (s\<lparr>sg_enq := sg_enq s + length vs\<rparr>)) = seg_vals N s @ vs"
  using assms
proof (induction vs arbitrary: s)
  case (Cons v vs)
  let ?s = "publish_cell (sg_enq s) v (s\<lparr>sg_enq := Suc (sg_enq s)\<rparr>)"
  have "sg_enq s < N" using Cons.prems by simp
  note p = seg_vals_publish [OF Cons.prems(1) this, of v]
  show ?case using Cons.IH [OF p(1)] Cons.prems p(2) by (simp add: publish_enq)
qed simp

lemma take_segment_ok:
  assumes ok: "sq_ok N ids q" and t: "take_segment N b q = (p, q1)"
  shows "p \<notin> set ids \<union> set (sq_retired q)" "p < sq_brk q1" "sq_brk q \<le> sq_brk q1" "sq_spare q1 = None"
    "sq_head q1 = sq_head q" "sq_tail q1 = sq_tail q" "sq_retired q1 = sq_retired q"
    "\<exists>g. sq_heap q1 = (sq_heap q)(p := g) \<and> sg_enq g = 0 \<and> sg_deq g = 0 \<and> sg_next g = None \<and> sg_base g = b
      \<and> length (sg_cells g) = N \<and> (\<forall>i<N. sc_state (sg_cells g ! i) = KEmpty)"
  using assms unfolding sq_ok_def
  by (auto simp: take_segment_def alloc_seg_def seg_reset_def new_segment_def split: option.splits
      intro!: exI [of _ "sq_heap q1 p"])

text \<open>Appending a fresh segment to a full one.\<close>

lemma sq_ok_append:
  assumes ok: "sq_ok N ids q" and full: "N \<le> sg_enq (sq_heap q (last ids))"
    and t: "take_segment N (sg_base (sq_heap q (last ids)) + N) q = (p, q1)"
    and f: "\<And>g. sg_enq g = 0 \<Longrightarrow> sg_deq g = 0 \<Longrightarrow> length (sg_cells g) = N \<Longrightarrow>
        \<forall>i<N. sc_state (sg_cells g ! i) = KEmpty \<Longrightarrow>
        seg_ok N (f g) \<and> sg_deq (f g) = 0 \<and> sg_next (f g) = sg_next g \<and> sg_base (f g) = sg_base g \<and> seg_vals N (f g) = vs"
  defines "q2 \<equiv> (upd_seg (last ids) (\<lambda>g. g\<lparr>sg_next := Some p\<rparr>) (upd_seg p f q1))\<lparr>sq_tail := p\<rparr>"
  shows "sq_ok N (ids @ [p]) q2" "sq_contents N q2 = sq_contents N q @ vs"
proof -
  note d = sq_okD [OF ok] and k = take_segment_ok [OF ok t]
  obtain g where g: "sq_heap q1 = (sq_heap q)(p := g)" "sg_enq g = 0" "sg_deq g = 0" "sg_next g = None"
    "sg_base g = sg_base (sq_heap q (last ids)) + N" "length (sg_cells g) = N" "\<forall>i<N. sc_state (sg_cells g ! i) = KEmpty"
    using k(8) by blast
  note F = f [OF g(2,3,6,7)]
  have p: "p \<notin> set ids" "last ids \<noteq> p" "last ids \<in> set ids" using k(1) d(3) by auto
  let ?l = "last ids"
  have h: "sq_heap q2 = (sq_heap q)(p := f g, ?l := (sq_heap q ?l)\<lparr>sg_next := Some p\<rparr>)"
    using p by (auto simp: q2_def g(1) fun_upd_twist)
  have hp: "sq_heap q2 p = f g" and hl: "sq_heap q2 ?l = (sq_heap q ?l)\<lparr>sg_next := Some p\<rparr>"
    and ho: "a \<in> set ids \<Longrightarrow> a \<noteq> ?l \<Longrightarrow> sq_heap q2 a = sq_heap q a" for a using p h by auto
  have fields: "a \<in> set ids \<Longrightarrow> seg_ok N (sq_heap q2 a) \<and> sg_base (sq_heap q2 a) = sg_base (sq_heap q a)
      \<and> sg_enq (sq_heap q2 a) = sg_enq (sq_heap q a) \<and> sg_deq (sq_heap q2 a) = sg_deq (sq_heap q a)
      \<and> seg_vals N (sq_heap q2 a) = seg_vals N (sq_heap q a)" for a
    using d(6) [of a] ho [of a] hl by (cases "a = ?l") (auto simp: seg_ok_def seg_vals_def)
  have c: "chain (sq_heap q2) (sq_head q2) (ids @ [p])"
  proof -
    have "sq_head q2 = sq_head q" using k(5) by (simp add: q2_def)
    then show ?thesis using chain_snoc [OF d(1) p(1) d(4), of "sq_heap q2"] ho hl hp F g(4) by simp
  qed
  have fullall: "N \<le> sg_enq (sq_heap q2 a)" if "a \<in> set ids" for a
  proof -
    have "a \<in> set (butlast ids) \<or> a = ?l" using that d(10) by (metis Un_iff empty_iff list.set(1) set_ConsD set_append)
    then show ?thesis using d(7) [of a] full fields [OF that] by auto
  qed
  have base: "sg_base (sq_heap q2 ((ids @ [p]) ! i)) = sg_base (sq_heap q2 (hd (ids @ [p]))) + i * N" if i: "i < length (ids @ [p])" for i
  proof -
    have hd: "sg_base (sq_heap q2 (hd ids)) = sg_base (sq_heap q (hd ids))" using fields [of "hd ids"] d(3) by simp
    have "sg_base (sq_heap q ?l) = sg_base (sq_heap q (hd ids)) + (length ids - 1) * N"
      using d(12) [of "length ids - 1"] d(3) by (simp add: last_conv_nth)
    moreover have "0 < length ids" using d(3) by simp
    ultimately have "sg_base (f g) = sg_base (sq_heap q (hd ids)) + length ids * N"
      using F g(5) by (cases "length ids") auto
    then show ?thesis using i hp hd d(12) [of i] fields [of "ids ! i"] d(3)
      by (cases "i < length ids") (auto simp: nth_append less_Suc_eq)
  qed
  show ok': "sq_ok N (ids @ [p]) q2"
    unfolding sq_ok_def
  proof (intro conjI ballI allI impI)
    show "distinct ((ids @ [p]) @ (case sq_spare q2 of None \<Rightarrow> [] | Some p \<Rightarrow> [p]) @ sq_retired q2)"
      using ok k(1,4,7) by (auto simp: sq_ok_def q2_def)
    show "a < sq_brk q2" if "a \<in> set (ids @ [p]) \<union> set_option (sq_spare q2) \<union> set (sq_retired q2)" for a
      using that ok k(2,3,4,7) by (auto simp: sq_ok_def q2_def intro: less_le_trans)
    show "length (sg_cells (sq_heap q2 a)) = N" if "a \<in> set (ids @ [p]) \<union> set_option (sq_spare q2) \<union> set (sq_retired q2)" for a
    proof -
      have "sq_spare q2 = None" "sq_retired q2 = sq_retired q" using k(4,7) by (simp_all add: q2_def)
      moreover have "length (sg_cells (sq_heap q2 a)) = N" if "a \<in> set (sq_retired q)"
        using that ok k(1) p(3) unfolding h by (auto simp: sq_ok_def)
      moreover have "length (sg_cells (sq_heap q2 a)) = N" if "a \<in> set (ids @ [p])"
        using that fields [of a] hp F by (auto simp: seg_ok_def)
      ultimately show ?thesis using that by auto
    qed
    show "seg_ok N (sq_heap q2 a)" if "a \<in> set (ids @ [p])" for a using that fields hp F by auto
    show "N \<le> sg_enq (sq_heap q2 a)" if "a \<in> set (butlast (ids @ [p]))" for a using that fullall by simp
    show "sg_deq (sq_heap q2 a) = 0" if "a \<in> set (tl (ids @ [p]))" for a
      using that d(3) d(8) [of a] fields [of a] hp F by (auto simp: tl_append2 dest: list.set_sel(2))
    show "sq_tail q2 = last (ids @ [p])" by (simp add: q2_def)
  qed (use c base in auto)
  show "sq_contents N q2 = sq_contents N q @ vs"
  proof -
    have "map (\<lambda>p. seg_vals N (sq_heap q2 p)) ids = map (\<lambda>p. seg_vals N (sq_heap q p)) ids" using fields by simp
    moreover have "seg_vals N (sq_heap q2 p) = vs" using hp F by simp
    ultimately show ?thesis unfolding sq_contents_def seg_ids_eq [OF ok] seg_ids_eq [OF ok'] map_append concat_append
      by (simp only:) simp
  qed
qed

lemma advance_tail_value:
  assumes ok: "sq_ok N ids q" and "2 \<le> N" "N \<le> sg_enq (sq_heap q (last ids))"
  obtains p q' where "advance_tail N (last ids) (Some v) q = (None, q')" "sq_ok N (ids @ [p]) q'"
    "sq_contents N q' = sq_contents N q @ [v]" "sq_tail q' = p" "sg_enq (sq_heap q' p) = 1"
proof -
  let ?f = "\<lambda>g. (publish_cell 0 v g)\<lparr>sg_enq := 1\<rparr>"
  obtain p q1 where t: "take_segment N (sg_base (sq_heap q (last ids)) + N) q = (p, q1)" by fastforce
  note k = take_segment_ok [OF ok t] and d = sq_okD [OF ok]
  have p: "p \<noteq> last ids" using k(1) d(3) by auto
  have F: "seg_ok N (?f g) \<and> sg_deq (?f g) = 0 \<and> sg_next (?f g) = sg_next g \<and> sg_base (?f g) = sg_base g \<and> seg_vals N (?f g) = [v]"
    if g: "sg_enq g = 0" "sg_deq g = 0" "length (sg_cells g) = N" "\<forall>i<N. sc_state (sg_cells g ! i) = KEmpty" for g
  proof -
    have "seg_ok N g" using g by (simp add: seg_ok_def)
    moreover have "seg_vals N g = []" using g by (simp add: seg_vals_def)
    moreover have "?f g = publish_cell (sg_enq g) v (g\<lparr>sg_enq := Suc (sg_enq g)\<rparr>)" using g by (simp add: publish_cell_def)
    ultimately show ?thesis using seg_vals_publish [of N g v] g assms(2) by (simp add: publish_enq)
  qed
  note a = sq_ok_append [OF ok assms(3) t F]
  have n: "sg_next (sq_heap q (last ids)) = None" using chain_last [OF d(1)] .
  have n1: "sg_next (sq_heap (upd_seg p ?f q1) (last ids)) = None" using n p k(8) by auto
  define q' where "q' = (upd_seg (last ids) (\<lambda>g. g\<lparr>sg_next := Some p\<rparr>) (upd_seg p ?f q1))\<lparr>sq_tail := p\<rparr>"
  have "advance_tail N (last ids) (Some v) q = (None, q')"
    using n n1 t k(6) d(2) by (simp add: advance_tail_def Let_def cas_tail_def q'_def)
  moreover have "sq_tail q' = p" "sg_enq (sq_heap q' p) = 1" using p by (simp_all add: q'_def)
  ultimately show ?thesis using that a [folded q'_def] by blast
qed

lemma advance_tail_none:
  assumes ok: "sq_ok N ids q" and "2 \<le> N" "N \<le> sg_enq (sq_heap q (last ids))"
  obtains p q' where "advance_tail N (last ids) None q = (Some p, q')" "sq_ok N (ids @ [p]) q'"
    "sq_contents N q' = sq_contents N q" "sq_tail q' = p" "sg_enq (sq_heap q' p) = 0"
proof -
  obtain p q1 where t: "take_segment N (sg_base (sq_heap q (last ids)) + N) q = (p, q1)" by fastforce
  note k = take_segment_ok [OF ok t] and d = sq_okD [OF ok]
  have p: "p \<noteq> last ids" using k(1) d(3) by auto
  have F: "seg_ok N (id g) \<and> sg_deq (id g) = 0 \<and> sg_next (id g) = sg_next g \<and> sg_base (id g) = sg_base g \<and> seg_vals N (id g) = []"
    if g: "sg_enq g = 0" "sg_deq g = 0" "length (sg_cells g) = N" "\<forall>i<N. sc_state (sg_cells g ! i) = KEmpty" for g :: "'a seg"
    using g by (simp add: seg_ok_def seg_vals_def)
  have u: "upd_seg p id q1 = q1" by (simp add: upd_seg_def)
  have n: "sg_next (sq_heap q (last ids)) = None" using chain_last [OF d(1)] .
  have n1: "sg_next (sq_heap q1 (last ids)) = None" using n p k(8) by auto
  define q' where "q' = (upd_seg (last ids) (\<lambda>g. g\<lparr>sg_next := Some p\<rparr>) q1)\<lparr>sq_tail := p\<rparr>"
  have "advance_tail N (last ids) None q = (Some p, q')"
    using n n1 t k(6) d(2) by (simp add: advance_tail_def Let_def cas_tail_def q'_def)
  moreover obtain g where "sq_heap q1 = (sq_heap q)(p := g)" "sg_enq g = 0" using k(8) by blast
  then have "sq_tail q' = p" "sg_enq (sq_heap q' p) = 0" using p by (simp_all add: q'_def)
  moreover have "sq_ok N (ids @ [p]) q'" unfolding q'_def
    by (rule sq_ok_append(1) [OF ok assms(3) t, of id "[]", unfolded u]) (rule F; assumption)
  moreover have "sq_contents N q' = sq_contents N q @ []" unfolding q'_def
    by (rule sq_ok_append(2) [OF ok assms(3) t, of id "[]", unfolded u]) (rule F; assumption)
  ultimately show ?thesis using that by (metis append_Nil2)
qed

lemma sq_invI: "2 \<le> N \<Longrightarrow> sq_ok N ids q \<Longrightarrow> (1 < length ids \<longrightarrow> 0 < sg_enq (sq_heap q (sq_tail q))) \<Longrightarrow> sq_inv N q"
  by (simp add: sq_inv_def seg_ids_eq)

lemma sq_enqueue_ok:
  assumes "sq_inv N q"
  shows "\<exists>q'. sq_do_enqueue N v q = Some q' \<and> sq_inv N q' \<and> sq_contents N q' = sq_contents N q @ [v]"
proof -
  define ids where "ids = seg_ids q"
  have N: "2 \<le> N" and ok: "sq_ok N ids q" using assms by (auto simp: sq_inv_def ids_def)
  note d = sq_okD [OF ok]
  let ?l = "last ids" and ?e = "sg_enq (sq_heap q (last ids))"
  have lok: "seg_ok N (sq_heap q ?l)" using d(3,6) by simp
  show ?thesis
  proof (cases "?e < N")
    case True
    let ?f = "\<lambda>g. publish_cell ?e v (g\<lparr>sg_enq := Suc ?e\<rparr>)"
    have "sq_do_enqueue N v q = Some (upd_seg ?l ?f q)"
      unfolding sq_do_enqueue_def d(2) using True by (subst sq_enqueue_loop.simps) (simp add: Let_def)
    moreover note u = sq_ok_upd_last [OF ok, of ?f]
    moreover have "sq_inv N (upd_seg ?l ?f q)" using u(1) seg_vals_publish(1) [OF lok True, of v] d(2) N
      by (intro sq_invI [of _ ids]) auto
    ultimately show ?thesis using seg_vals_publish [OF lok True, of v] sq_contents_eq(1) [OF ok] by simp
  next
    case False
    let ?q = "upd_seg ?l (\<lambda>g. g\<lparr>sg_enq := Suc ?e\<rparr>) q"
    have o: "seg_ok N ((sq_heap q ?l)\<lparr>sg_enq := Suc ?e\<rparr>)" "seg_vals N ((sq_heap q ?l)\<lparr>sg_enq := Suc ?e\<rparr>) = seg_vals N (sq_heap q ?l)"
      using seg_overshoot [OF lok] False by auto
    note u = sq_ok_upd_last [OF ok, of "\<lambda>g. g\<lparr>sg_enq := Suc ?e\<rparr>"]
    have ok1: "sq_ok N ids ?q" using u(1) o(1) by simp
    have c1: "sq_contents N ?q = sq_contents N q" using u(2) o sq_contents_eq(1) [OF ok] by simp
    have "N \<le> sg_enq (sq_heap ?q ?l)" using False by simp
    from advance_tail_value [OF ok1 N this, of v] obtain p q' where
      a: "advance_tail N ?l (Some v) ?q = (None, q')" "sq_ok N (ids @ [p]) q'" "sq_contents N q' = sq_contents N ?q @ [v]"
        "sq_tail q' = p" "sg_enq (sq_heap q' p) = 1" by blast
    have "sq_do_enqueue N v q = Some q'"
      unfolding sq_do_enqueue_def d(2) using False a(1) by (subst sq_enqueue_loop.simps) (simp add: Let_def)
    then show ?thesis using a c1 sq_invI [OF N a(2)] by simp
  qed
qed

text \<open>The bulk loop, first when the tail segment has room: every iteration publishes something.\<close>

lemma sq_bulk_room:
  assumes "2 \<le> N" "sq_ok N ids q" "sg_enq (sq_heap q (last ids)) < N" "1 < length ids \<and> vs = [] \<longrightarrow> 0 < sg_enq (sq_heap q (last ids))"
  shows "\<exists>q'. sq_bulk_loop N vs (last ids) q = Some q' \<and> sq_inv N q' \<and> sq_contents N q' = sq_contents N q @ vs"
  using assms
proof (induction "length vs" arbitrary: vs ids q rule: less_induct)
  case less
  note N = less.prems(1) and ok = less.prems(2) and d = sq_okD [OF less.prems(2)]
  let ?l = "last ids" and ?e = "sg_enq (sq_heap q (last ids))"
  show ?case
  proof (cases "vs = []")
    case True
    then show ?thesis using sq_invI [OF N ok] less.prems d(2) by (subst sq_bulk_loop.simps) auto
  next
    case False
    have lok: "seg_ok N (sq_heap q ?l)" using d(3,6) by simp
    define k where "k = min (?e + length vs) N - ?e"
    define f where "f g = publish_all ?e (take k vs) (g\<lparr>sg_enq := ?e + length vs\<rparr>)" for g :: "'a seg"
    have k: "0 < k" "k \<le> length vs" "?e + k \<le> N" using less.prems(3) False by (auto simp: k_def)
    have p: "seg_ok N (publish_all ?e (take k vs) ((sq_heap q ?l)\<lparr>sg_enq := ?e + k\<rparr>))"
      "seg_vals N (publish_all ?e (take k vs) ((sq_heap q ?l)\<lparr>sg_enq := ?e + k\<rparr>)) = seg_vals N (sq_heap q ?l) @ take k vs"
      using publish_all_ok [OF lok, of "take k vs"] k by auto
    have over: "f (sq_heap q ?l) = (publish_all ?e (take k vs) ((sq_heap q ?l)\<lparr>sg_enq := ?e + k\<rparr>))\<lparr>sg_enq := ?e + length vs\<rparr>"
    proof -
      have "publish_all i ws (g\<lparr>sg_enq := e\<rparr>) = (publish_all i ws g)\<lparr>sg_enq := e\<rparr>" for i ws e and g :: "'a seg"
        by (induction ws arbitrary: i g) (simp_all add: publish_enq)
      then show ?thesis by (simp add: f_def)
    qed
    have fe: "sg_enq (f (sq_heap q ?l)) = ?e + length vs" by (simp add: f_def)
    have f: "seg_ok N (f (sq_heap q ?l))" "seg_vals N (f (sq_heap q ?l)) = seg_vals N (sq_heap q ?l) @ take k vs"
    proof -
      have "seg_ok N (f (sq_heap q ?l)) \<and> seg_vals N (f (sq_heap q ?l)) = seg_vals N (sq_heap q ?l) @ take k vs"
      proof (cases "?e + length vs \<le> N")
        case True
        then have "k = length vs" by (simp add: k_def)
        then show ?thesis using p over by (simp add: f_def)
      next
        case False
        then have "?e + k = N" using less.prems(3) by (simp add: k_def)
        then show ?thesis unfolding over using seg_overshoot [OF p(1), of "?e + length vs"] p(2) False by auto
      qed
      then show "seg_ok N (f (sq_heap q ?l))" "seg_vals N (f (sq_heap q ?l)) = seg_vals N (sq_heap q ?l) @ take k vs"
        by auto
    qed
    define q2 where "q2 = upd_seg ?l f q"
    have ok2: "sq_ok N ids q2" and c2: "sq_contents N q2 = sq_contents N q @ take k vs"
      unfolding q2_def using sq_ok_upd_last [OF ok, of f] f sq_contents_eq(1) [OF ok]
      by (simp_all add: f_def)
    have e2: "sg_enq (sq_heap q2 ?l) = ?e + length vs" using fe by (simp add: q2_def)
    have step: "sq_bulk_loop N vs ?l q = (if N < ?e + length vs then
        (case fst (advance_tail N ?l None q2) of None \<Rightarrow> None
          | Some s1 \<Rightarrow> sq_bulk_loop N (drop k vs) s1 (snd (advance_tail N ?l None q2)))
        else sq_bulk_loop N (drop k vs) ?l q2)"
    proof -
      have eq: "upd_seg ?l (publish_all ?e (take k vs)) (upd_seg ?l (\<lambda>g. g\<lparr>sg_enq := ?e + length vs\<rparr>) q) = q2"
        by (simp add: q2_def f_def)
      show ?thesis
        by (subst sq_bulk_loop.simps, unfold Let_def k_def [symmetric] eq) (use False less.prems(3) in simp)
    qed
    show ?thesis
    proof (cases "N < ?e + length vs")
      case True
      then have "N \<le> sg_enq (sq_heap q2 ?l)" using e2 by simp
      from advance_tail_none [OF ok2 N this] obtain p q3 where
        a: "advance_tail N ?l None q2 = (Some p, q3)" "sq_ok N (ids @ [p]) q3" "sq_contents N q3 = sq_contents N q2"
          "sg_enq (sq_heap q3 p) = 0" by blast
      have "k < length vs" using True less.prems(3) by (auto simp: k_def)
      then have "drop k vs \<noteq> []" "length (drop k vs) < length vs" using k by auto
      then have "\<exists>q'. sq_bulk_loop N (drop k vs) (last (ids @ [p])) q3 = Some q' \<and> sq_inv N q'
          \<and> sq_contents N q' = sq_contents N q3 @ drop k vs"
        using a N by (intro less.hyps) auto
      then show ?thesis unfolding step using True a c2 by auto
    next
      case False
      then have "drop k vs = []" "k = length vs" by (auto simp: k_def)
      moreover have "sq_inv N q2"
        by (rule sq_invI [OF N ok2]) (use sq_okD(2) [OF ok2] e2 k in auto)
      ultimately show ?thesis unfolding step using False c2
        by (simp add: sq_bulk_loop.simps [of N "[]"])
    qed
  qed
qed

lemma sq_bulk_ok:
  assumes "sq_inv N q"
  shows "\<exists>q'. sq_enqueue_bulk N vs q = Some (length vs, q') \<and> sq_inv N q' \<and> sq_contents N q' = sq_contents N q @ vs"
proof (cases "vs = []")
  case True
  then show ?thesis using assms by (simp add: sq_enqueue_bulk_def)
next
  case ne: False
  define ids where "ids = seg_ids q"
  have N: "2 \<le> N" and ok: "sq_ok N ids q" using assms by (auto simp: sq_inv_def ids_def)
  note d = sq_okD [OF ok]
  let ?l = "last ids" and ?e = "sg_enq (sq_heap q (last ids))"
  have lok: "seg_ok N (sq_heap q ?l)" using d(3,6) by simp
  have "\<exists>q'. sq_bulk_loop N vs ?l q = Some q' \<and> sq_inv N q' \<and> sq_contents N q' = sq_contents N q @ vs"
  proof (cases "?e < N")
    case True
    then show ?thesis using sq_bulk_room [OF N ok True] ne by simp
  next
    case False
    let ?f = "\<lambda>g. g\<lparr>sg_enq := ?e + length vs\<rparr>"
    have o: "seg_ok N (?f (sq_heap q ?l))" "seg_vals N (?f (sq_heap q ?l)) = seg_vals N (sq_heap q ?l)"
      using seg_overshoot [OF lok] False by auto
    have ok1: "sq_ok N ids (upd_seg ?l ?f q)" and c1: "sq_contents N (upd_seg ?l ?f q) = sq_contents N q"
      using sq_ok_upd_last [OF ok, of ?f] o sq_contents_eq(1) [OF ok] by simp_all
    have "N \<le> sg_enq (sq_heap (upd_seg ?l ?f q) ?l)" using False by simp
    from advance_tail_none [OF ok1 N this] obtain p q' where
      a: "advance_tail N ?l None (upd_seg ?l ?f q) = (Some p, q')" "sq_ok N (ids @ [p]) q'" "sq_contents N q' = sq_contents N q"
        "sg_enq (sq_heap q' p) = 0" using c1 by metis
    have "sq_bulk_loop N vs ?l q = sq_bulk_loop N vs p q'"
      by (subst sq_bulk_loop.simps) (use ne False a(1) in \<open>simp add: Let_def\<close>)
    then show ?thesis using sq_bulk_room [OF N a(2), of vs] a(3,4) N ne by simp
  qed
  then show ?thesis using ne d(2) by (auto simp: sq_enqueue_bulk_def)
qed

section \<open>Consumers\<close>

lemma consume_simps [simp]:
  "consume_at s i q = (the (sc_storage (sg_cells (sq_heap q s) ! i)),
     upd_seg s (\<lambda>g. g\<lparr>sg_cells := (sg_cells g)[i := (sg_cells g ! i)\<lparr>sc_storage := None\<rparr>]\<rparr>) q)"
  by (simp add: consume_at_def consume_cell_def upd_seg_def)

lemma take_cell_full:
  assumes "sc_state (sg_cells (sq_heap q s) ! i) = KFull"
  shows "take_cell s i q = Some (Some (fst (consume_at s i q)), snd (consume_at s i q))"
  using assms by (subst take_cell.simps) simp

text \<open>Consuming \<open>n\<close> ready cells of a segment.\<close>

definition consumed :: "nat \<Rightarrow> nat \<Rightarrow> 'a seg \<Rightarrow> 'a seg" where
  "consumed d n g = g\<lparr>sg_deq := d + n, sg_cells := map (\<lambda>i. if d \<le> i \<and> i < d + n
     then (sg_cells g ! i)\<lparr>sc_storage := None\<rparr> else sg_cells g ! i) [0..<length (sg_cells g)]\<rparr>"

lemma consumed_fields [simp]:
  "sg_enq (consumed d n g) = sg_enq g" "sg_deq (consumed d n g) = d + n" "sg_next (consumed d n g) = sg_next g"
  "sg_base (consumed d n g) = sg_base g" "length (sg_cells (consumed d n g)) = length (sg_cells g)"
  "i < length (sg_cells g) \<Longrightarrow> sc_state (sg_cells (consumed d n g) ! i) = sc_state (sg_cells g ! i)"
  by (simp_all add: consumed_def)

lemma consumed_one:
  "i < length (sg_cells g) \<Longrightarrow> consumed i 1 g
    = g\<lparr>sg_deq := Suc i, sg_cells := (sg_cells g)[i := (sg_cells g ! i)\<lparr>sc_storage := None\<rparr>]\<rparr>"
  unfolding consumed_def by (auto intro!: arg_cong2 [where f = "\<lambda>c d. g\<lparr>sg_deq := d, sg_cells := c\<rparr>"] nth_equalityI simp: nth_list_update)

lemma consumed_ok:
  assumes "seg_ok N g" "sg_deq g + n \<le> min (sg_enq g) N"
  shows "seg_ok N (consumed (sg_deq g) n g)"
    "seg_vals N g = map (\<lambda>c. the (sc_storage c)) (take n (drop (sg_deq g) (sg_cells g))) @ seg_vals N (consumed (sg_deq g) n g)"
proof -
  let ?d = "sg_deq g" and ?m = "min (sg_enq g) N"
  have l: "length (sg_cells g) = N" using assms(1) by (simp add: seg_ok_def)
  show "seg_ok N (consumed ?d n g)" using assms by (auto simp: seg_ok_def)
  have "take (?m - ?d) (drop ?d (sg_cells g)) = take n (drop ?d (sg_cells g)) @ take (?m - ?d - n) (drop (?d + n) (sg_cells g))"
    using assms(2) by (metis add.commute drop_drop le_diff_conv2 take_add le_add_diff_inverse add_leD1)
  moreover have "drop (?d + n) (sg_cells g) = drop (?d + n) (sg_cells (consumed ?d n g))"
    using l by (intro nth_equalityI) (auto simp: consumed_def)
  ultimately show "seg_vals N g = map (\<lambda>c. the (sc_storage c)) (take n (drop ?d (sg_cells g))) @ seg_vals N (consumed ?d n g)"
    by (simp add: seg_vals_def)
qed

lemma sq_ok_upd_head:
  assumes ok: "sq_ok N ids q" and n: "sg_deq (sq_heap q (sq_head q)) + n \<le> min (sg_enq (sq_heap q (sq_head q))) N"
  defines "q1 \<equiv> upd_seg (sq_head q) (consumed (sg_deq (sq_heap q (sq_head q))) n) q"
  shows "sq_ok N ids q1"
    "sq_contents N q = map (\<lambda>c. the (sc_storage c)) (take n (drop (sg_deq (sq_heap q (sq_head q))) (sg_cells (sq_heap q (sq_head q))))) @ sq_contents N q1"
proof -
  note d = sq_okD [OF ok]
  have h: "ids = sq_head q # tl ids" using d(3,5) by (metis list.collapse)
  then have hm: "sq_head q \<in> set ids" "sq_head q \<notin> set (tl ids)" using d(4) by (metis list.set_intros(1), metis distinct.simps(2))
  note o = consumed_ok [OF d(6) [OF hm(1)] n]
  have c: "chain (sq_heap q1) (sq_head q) ids"
    using d(1) by (subst chain_cong [where h = "sq_heap q"]) (auto simp: q1_def)
  show ok1: "sq_ok N ids q1"
    using ok c o(1) hm unfolding sq_ok_def by (auto simp: q1_def)
  have m: "map (\<lambda>p. seg_vals N (sq_heap q1 p)) (tl ids) = map (\<lambda>p. seg_vals N (sq_heap q p)) (tl ids)"
    using hm(2) by (auto simp: q1_def)
  show "sq_contents N q = map (\<lambda>c. the (sc_storage c)) (take n (drop (sg_deq (sq_heap q (sq_head q))) (sg_cells (sq_heap q (sq_head q))))) @ sq_contents N q1"
    unfolding sq_contents_eq(2) [OF ok] sq_contents_eq(2) [OF ok1] m using o(2) by (simp add: q1_def)
qed

text \<open>Dropping a consumed head segment: it is retired and its successor becomes the head.\<close>

lemma advance_head_ok:
  assumes ok: "sq_ok N ids q" and full: "N \<le> sg_deq (sq_heap q (sq_head q))" and two: "tl ids \<noteq> []"
  defines "q1 \<equiv> q\<lparr>sq_head := hd (tl ids), sq_retired := sq_retired q @ [sq_head q]\<rparr>"
  shows "advance_head (sq_head q) q = (Some (hd (tl ids)), q1)" "sq_ok N (tl ids) q1" "sq_contents N q1 = sq_contents N q"
proof -
  note d = sq_okD [OF ok]
  obtain b r where t: "tl ids = b # r" using two by (cases "tl ids") auto
  have ids: "ids = sq_head q # b # r" using d(3,5) t by (metis list.collapse)
  have c: "sg_next (sq_heap q (sq_head q)) = Some b" "chain (sq_heap q) b (b # r)" using d(1) unfolding ids by auto
  show "advance_head (sq_head q) q = (Some (hd (tl ids)), q1)" using c(1) t by (simp add: advance_head_def q1_def)
  have base: "sg_base (sq_heap q ((b # r) ! i)) = sg_base (sq_heap q b) + i * N" if "i < length (b # r)" for i
    using d(12) [of "Suc i"] d(12) [of 1] that unfolding ids by simp
  show ok1: "sq_ok N (tl ids) q1" unfolding sq_ok_def
  proof (intro conjI ballI allI impI)
    show "distinct (tl ids @ (case sq_spare q1 of None \<Rightarrow> [] | Some p \<Rightarrow> [p]) @ sq_retired q1)"
      using ok unfolding sq_ok_def ids t by (auto simp: q1_def)
    show "a < sq_brk q1" "length (sg_cells (sq_heap q1 a)) = N"
      if "a \<in> set (tl ids) \<union> set_option (sq_spare q1) \<union> set (sq_retired q1)" for a
      using that ok d(9) [of a] unfolding sq_ok_def ids t by (auto simp: q1_def)
    show "seg_ok N (sq_heap q1 a)" if "a \<in> set (tl ids)" for a using that d(6) [of a] ids by (auto simp: q1_def)
    show "N \<le> sg_enq (sq_heap q1 a)" if "a \<in> set (butlast (tl ids))" for a
      using that d(7) [of a] unfolding ids by (auto simp: q1_def)
    show "sg_deq (sq_heap q1 a) = 0" if "a \<in> set (tl (tl ids))" for a
      using that d(8) [of a] unfolding ids by (auto simp: q1_def)
    show "sq_tail q1 = last (tl ids)" using d(2) t ids by (simp add: q1_def)
  qed (use c(2) base t in \<open>auto simp: q1_def\<close>)
  have "seg_vals N (sq_heap q (sq_head q)) = []" using full by (simp add: seg_vals_def)
  then have "sq_contents N q = concat (map (\<lambda>p. seg_vals N (sq_heap q p)) (tl ids))"
    using sq_contents_eq(2) [OF ok] by simp
  then show "sq_contents N q1 = sq_contents N q"
    using seg_ids_eq [OF ok1] unfolding sq_contents_def [of N q1] by (simp add: q1_def)
qed

text \<open>A head segment that still has room for consumers: no ready element means that the queue is empty.\<close>

lemma head_seg:
  assumes ok: "sq_ok N ids q" and d: "sg_deq (sq_heap q (sq_head q)) < N" (is "?d < N")
  shows "sc_state (sg_cells (sq_heap q (sq_head q)) ! ?d) = KFull \<longleftrightarrow> ?d < sg_enq (sq_heap q (sq_head q))"
    "sg_enq (sq_heap q (sq_head q)) \<le> ?d \<Longrightarrow> sq_contents N q = []"
    "N = length (sg_cells (sq_heap q (sq_head q)))"
proof -
  note D = sq_okD [OF ok]
  have h: "ids = sq_head q # tl ids" using D(3,5) by (metis list.collapse)
  then have s: "seg_ok N (sq_heap q (sq_head q))" using D(6) by (metis list.set_intros(1))
  then show "sc_state (sg_cells (sq_heap q (sq_head q)) ! ?d) = KFull \<longleftrightarrow> ?d < sg_enq (sq_heap q (sq_head q))"
    "N = length (sg_cells (sq_heap q (sq_head q)))"
    using d by (auto simp: seg_ok_def not_less)
  assume e: "sg_enq (sq_heap q (sq_head q)) \<le> ?d"
  have "tl ids = []"
  proof (rule ccontr)
    assume "tl ids \<noteq> []"
    then have "sq_head q \<in> set (butlast ids)" using h by (metis butlast.simps(2) list.set_intros(1))
    from D(7) [OF this] e d show False by simp
  qed
  then show "sq_contents N q = []" unfolding sq_contents_eq(2) [OF ok] using e by (simp add: seg_vals_def)
qed

text \<open>What a consumer may change besides the contents.\<close>

definition same_tail :: "'a sq \<Rightarrow> 'a sq \<Rightarrow> bool" where
  "same_tail q q' \<longleftrightarrow> sq_tail q' = sq_tail q \<and> sg_enq (sq_heap q' (sq_tail q)) = sg_enq (sq_heap q (sq_tail q))"

lemma sq_dequeue_loop_ok:
  assumes "sq_ok N ids q"
  shows "\<exists>r q' ids'. sq_dequeue_loop N (sq_head q) q = Some (r, q') \<and> sq_ok N ids' q' \<and> length ids' \<le> length ids
    \<and> same_tail q q' \<and> (case r of None \<Rightarrow> sq_contents N q = [] \<and> sq_contents N q' = [] | Some x \<Rightarrow> sq_contents N q = x # sq_contents N q')"
  using assms
proof (induction "length ids" arbitrary: ids q)
  case 0
  then show ?case using sq_okD(3) by fastforce
next
  case (Suc n)
  note ok = Suc.prems and D = sq_okD [OF Suc.prems]
  let ?h = "sq_head q" let ?g = "sq_heap q (sq_head q)" let ?d = "sg_deq (sq_heap q (sq_head q))"
  show ?case
  proof (cases "N \<le> ?d")
    case True
    show ?thesis
    proof (cases "tl ids = []")
      case t: True
      have "advance_head ?h q = (None, q)"
        using D(1) chain_Cons [OF D(1)] t by (metis (no_types, lifting) advance_head_def chain.simps(2) option.simps(4))
      moreover have "sq_contents N q = []" unfolding sq_contents_eq(2) [OF ok] t using True by (simp add: seg_vals_def)
      ultimately show ?thesis using ok True by (subst sq_dequeue_loop.simps) (auto simp: Let_def same_tail_def)
    next
      case False
      let ?q = "q\<lparr>sq_head := hd (tl ids), sq_retired := sq_retired q @ [?h]\<rparr>"
      note a = advance_head_ok [OF ok True False]
      have e: "sq_dequeue_loop N ?h q = sq_dequeue_loop N (sq_head ?q) ?q"
        using True a(1) by (subst sq_dequeue_loop.simps) (simp add: Let_def)
      have "n = length (tl ids)" using Suc.hyps(2) by simp
      from Suc.hyps(1) [OF this a(2)] obtain r q' ids' where
        "sq_dequeue_loop N (sq_head ?q) ?q = Some (r, q')" "sq_ok N ids' q'" "length ids' \<le> length (tl ids)" "same_tail ?q q'"
        "case r of None \<Rightarrow> sq_contents N ?q = [] \<and> sq_contents N q' = [] | Some x \<Rightarrow> sq_contents N ?q = x # sq_contents N q'" by blast
      then show ?thesis using e a(3) by (intro exI [of _ r] exI [of _ q'] exI [of _ ids']) (auto simp: same_tail_def split: option.splits)
    qed
  next
    case False
    then have d: "?d < N" by simp
    note hs = head_seg [OF ok d]
    show ?thesis
    proof (cases "sc_state (sg_cells ?g ! ?d) = KFull")
      case full: True
      let ?q = "upd_seg ?h (consumed ?d 1) q"
      have l: "?d < length (sg_cells ?g)" using hs(3) d by simp
      have "take 1 (drop ?d (sg_cells ?g)) = [sg_cells ?g ! ?d]" using l by (simp add: take_Suc_conv_app_nth)
      then have u: "sq_ok N ids ?q" "sq_contents N q = the (sc_storage (sg_cells ?g ! ?d)) # sq_contents N ?q"
        using sq_ok_upd_head [OF ok, of 1] full hs(1) d by auto
      have "upd_seg ?h (\<lambda>s. s\<lparr>sg_deq := Suc ?d, sg_cells := (sg_cells s)[?d := (sg_cells s ! ?d)\<lparr>sc_storage := None\<rparr>]\<rparr>) q = ?q"
        unfolding upd_seg_def consumed_one [OF l] by simp
      then have "sq_dequeue_loop N ?h q = Some (Some (the (sc_storage (sg_cells ?g ! ?d))), ?q)"
        using False full by (subst sq_dequeue_loop.simps) (simp add: Let_def take_cell_full)
      then show ?thesis using u by (intro exI [of _ "Some (the (sc_storage (sg_cells ?g ! ?d)))"] exI [of _ ?q] exI [of _ ids]) (auto simp: same_tail_def)
    next
      case empty: False
      then have "sg_enq ?g \<le> ?d" using hs(1) by simp
      then show ?thesis using False empty hs(2) ok by (subst sq_dequeue_loop.simps) (auto simp: Let_def same_tail_def)
    qed
  qed
qed

lemma sq_inv_tail:
  assumes "sq_inv N q" "sq_ok N ids' q'" "length ids' \<le> length (seg_ids q)" "same_tail q q'"
  shows "sq_inv N q'"
  using assms by (auto simp: sq_inv_def seg_ids_eq [OF assms(2)] same_tail_def)

lemma sq_dequeue_ok:
  assumes "sq_inv N q"
  shows "\<exists>r q'. sq_try_dequeue N q = Some (r, q') \<and> sq_inv N q' \<and> (case r of
    None \<Rightarrow> sq_contents N q = [] \<and> sq_contents N q' = [] | Some x \<Rightarrow> sq_contents N q = x # sq_contents N q')"
proof -
  have ok: "sq_ok N (seg_ids q) q" using assms by (simp add: sq_inv_def)
  from sq_dequeue_loop_ok [OF ok] show ?thesis
    unfolding sq_try_dequeue_def using sq_inv_tail [OF assms] by blast
qed

text \<open>The bulk consumer takes a run of ready elements from one segment.\<close>

lemma takeWhile_full_prefix:
  assumes "seg_ok N g" "sg_deq g < N"
  shows "ready_count N m g = min (min (N - sg_deq g) m) (sg_enq g - sg_deq g)"
proof -
  let ?k = "min (N - sg_deq g) m" and ?e = "sg_enq g - sg_deq g"
  let ?xs = "take ?k (drop (sg_deq g) (sg_cells g))"
  have l: "length (sg_cells g) = N" using assms(1) by (simp add: seg_ok_def)
  have n: "sc_state (?xs ! i) = KFull \<longleftrightarrow> i < ?e" if "i < ?k" for i
  proof -
    have "sg_deq g + i < N" "?xs ! i = sg_cells g ! (sg_deq g + i)" using that l by auto
    moreover have "sg_deq g + i < sg_enq g \<or> sg_enq g \<le> sg_deq g + i" by auto
    ultimately show ?thesis using assms(1) by (auto simp: seg_ok_def)
  qed
  have "length ?xs = ?k" using l by simp
  show ?thesis
  proof (cases "?k \<le> ?e")
    case True
    then have "takeWhile (\<lambda>c. sc_state c = KFull) ?xs = ?xs"
      using n l by (intro takeWhile_eq_all_conv [THEN iffD2]) (auto simp: in_set_conv_nth)
    then show ?thesis using True l unfolding ready_count_def by (simp only:) simp
  next
    case False
    have "takeWhile (\<lambda>c. sc_state c = KFull) ?xs = take ?e ?xs"
      using False n l by (intro takeWhile_eq_take_P_nth) auto
    then show ?thesis using False l by (simp add: ready_count_def min.commute)
  qed
qed

lemma take_cells_ok:
  assumes "\<And>i. i < n \<Longrightarrow> d + i < length (sg_cells (sq_heap q s)) \<and> sc_state (sg_cells (sq_heap q s) ! (d + i)) = KFull"
    "d + n \<le> sg_deq (sq_heap q s)"
  shows "take_cells s d n q = Some (map (\<lambda>c. the (sc_storage c)) (take n (drop d (sg_cells (sq_heap q s)))),
    upd_seg s (\<lambda>g. (consumed d n g)\<lparr>sg_deq := sg_deq g\<rparr>) q)"
  using assms
proof (induction n arbitrary: d q)
  case 0
  have "(consumed d 0 g)\<lparr>sg_deq := sg_deq g\<rparr> = g" for g :: "'a seg"
  proof -
    have "map (\<lambda>i. if d \<le> i \<and> i < d + 0 then (sg_cells g ! i)\<lparr>sc_storage := None\<rparr> else sg_cells g ! i) [0..<length (sg_cells g)]
        = sg_cells g" by (intro nth_equalityI) auto
    then show ?thesis unfolding consumed_def by simp
  qed
  then show ?case by (simp add: upd_seg_def)
next
  case (Suc n)
  let ?g = "sq_heap q s"
  let ?c = "(sg_cells ?g ! d)\<lparr>sc_storage := None\<rparr>"
  let ?q = "upd_seg s (\<lambda>g. g\<lparr>sg_cells := (sg_cells g)[d := (sg_cells g ! d)\<lparr>sc_storage := None\<rparr>]\<rparr>) q"
  have d: "d < length (sg_cells ?g)" "sc_state (sg_cells ?g ! d) = KFull" using Suc.prems(1) [of 0] by auto
  have "\<And>i. i < n \<Longrightarrow> Suc d + i < length (sg_cells (sq_heap ?q s)) \<and> sc_state (sg_cells (sq_heap ?q s) ! (Suc d + i)) = KFull"
    using Suc.prems(1) [of "Suc _"] by simp
  note ih = Suc.IH [OF this]
  have "drop (Suc d) ((sg_cells ?g)[d := ?c]) = drop (Suc d) (sg_cells ?g)" by simp
  moreover have "take (Suc n) (drop d (sg_cells ?g)) = (sg_cells ?g ! d) # take n (drop (Suc d) (sg_cells ?g))"
    using d(1) by (simp add: Cons_nth_drop_Suc [symmetric])
  moreover have "(consumed (Suc d) n (?g\<lparr>sg_cells := (sg_cells ?g)[d := ?c]\<rparr>))\<lparr>sg_deq := sg_deq ?g\<rparr>
      = (consumed d (Suc n) ?g)\<lparr>sg_deq := sg_deq ?g\<rparr>"
    using d(1) unfolding consumed_def by (auto simp: nth_list_update)
  ultimately show ?case using ih Suc.prems(2) take_cell_full [OF d(2)] by (simp add: upd_seg_def)
qed

lemma sq_dequeue_bulk_loop_ok:
  assumes "sq_ok N ids q" "0 < m"
  shows "\<exists>xs q' ids'. sq_dequeue_bulk_loop N m (sq_head q) q = Some (xs, q') \<and> sq_ok N ids' q' \<and> length ids' \<le> length ids
    \<and> same_tail q q' \<and> sq_contents N q = xs @ sq_contents N q' \<and> length xs \<le> m \<and> (xs = [] \<longrightarrow> sq_contents N q = [])"
  using assms(1)
proof (induction "length ids" arbitrary: ids q)
  case 0
  then show ?case using sq_okD(3) by fastforce
next
  case (Suc n)
  note ok = Suc.prems and D = sq_okD [OF Suc.prems]
  let ?h = "sq_head q" let ?g = "sq_heap q (sq_head q)" let ?d = "sg_deq (sq_heap q (sq_head q))"
  show ?case
  proof (cases "N \<le> ?d")
    case True
    show ?thesis
    proof (cases "tl ids = []")
      case t: True
      have "advance_head ?h q = (None, q)"
        using D(1) chain_Cons [OF D(1)] t by (metis (no_types, lifting) advance_head_def chain.simps(2) option.simps(4))
      moreover have "sq_contents N q = []" unfolding sq_contents_eq(2) [OF ok] t using True by (simp add: seg_vals_def)
      ultimately show ?thesis using ok True by (subst sq_dequeue_bulk_loop.simps) (auto simp: Let_def same_tail_def)
    next
      case False
      let ?q = "q\<lparr>sq_head := hd (tl ids), sq_retired := sq_retired q @ [?h]\<rparr>"
      note a = advance_head_ok [OF ok True False]
      have e: "sq_dequeue_bulk_loop N m ?h q = sq_dequeue_bulk_loop N m (sq_head ?q) ?q"
        using True a(1) by (subst sq_dequeue_bulk_loop.simps) (simp add: Let_def)
      have "n = length (tl ids)" using Suc.hyps(2) by simp
      from Suc.hyps(1) [OF this a(2)] obtain xs q' ids' where
        "sq_dequeue_bulk_loop N m (sq_head ?q) ?q = Some (xs, q')" "sq_ok N ids' q'" "length ids' \<le> length (tl ids)" "same_tail ?q q'"
        "sq_contents N ?q = xs @ sq_contents N q'" "length xs \<le> m" "xs = [] \<longrightarrow> sq_contents N ?q = []" by blast
      then show ?thesis using e a(3) by (intro exI [of _ xs] exI [of _ q'] exI [of _ ids']) (auto simp: same_tail_def)
    qed
  next
    case False
    then have d: "?d < N" by simp
    have "?h \<in> set ids" using D(3,5) by (metis list.set_sel(1))
    then have gok: "seg_ok N ?g" using D(6) by blast
    note hs = head_seg [OF ok d] and rc = takeWhile_full_prefix [OF gok d, of m]
    define k where "k = ready_count N m ?g"
    show ?thesis
    proof (cases "k = 0")
      case True
      then have "sg_enq ?g \<le> ?d" using rc d assms(2) by (auto simp: k_def)
      then show ?thesis using False True hs(2) ok by (subst sq_dequeue_bulk_loop.simps) (auto simp: Let_def same_tail_def k_def)
    next
      case k0: False
      let ?q = "upd_seg ?h (consumed ?d k) q" and ?xs = "map (\<lambda>c. the (sc_storage c)) (take k (drop ?d (sg_cells ?g)))"
      have kb: "?d + k \<le> min (sg_enq ?g) N" "k \<le> m" using rc d gok by (auto simp: k_def seg_ok_def)
      note u = sq_ok_upd_head [OF ok kb(1)]
      have full: "i < k \<Longrightarrow> ?d + i < length (sg_cells ?g) \<and> sc_state (sg_cells ?g ! (?d + i)) = KFull" for i
        using gok kb by (auto simp: seg_ok_def)
      have lx: "length ?xs = k" using kb(1) hs(3) by auto
      have "sq_dequeue_bulk_loop N m ?h q = Some (?xs, ?q)"
      proof (cases "k = 1")
        case True
        have l: "?d < length (sg_cells ?g)" using hs(3) d by simp
        have "take 1 (drop ?d (sg_cells ?g)) = [sg_cells ?g ! ?d]" using l by (simp add: take_Suc_conv_app_nth)
        moreover have "upd_seg ?h (\<lambda>s. s\<lparr>sg_deq := Suc ?d, sg_cells := (sg_cells s)[?d := (sg_cells s ! ?d)\<lparr>sc_storage := None\<rparr>]\<rparr>) q
            = upd_seg ?h (consumed ?d 1) q"
          unfolding upd_seg_def consumed_one [OF l] by simp
        ultimately show ?thesis using False True by (subst sq_dequeue_bulk_loop.simps) (simp add: Let_def k_def [symmetric])
      next
        case k1: False
        let ?r = "upd_seg ?h (\<lambda>g. g\<lparr>sg_deq := ?d + k\<rparr>) q"
        have "take_cells ?h ?d k ?r = Some (?xs, upd_seg ?h (\<lambda>g. (consumed ?d k g)\<lparr>sg_deq := sg_deq g\<rparr>) ?r)"
          using take_cells_ok [of k ?d ?r ?h] full by simp
        moreover have "upd_seg ?h (\<lambda>g. (consumed ?d k g)\<lparr>sg_deq := sg_deq g\<rparr>) ?r = ?q"
        proof -
          have "(\<lambda>s. (consumed ?d k (s\<lparr>sg_deq := ?d + k\<rparr>))\<lparr>sg_deq := sg_deq (s\<lparr>sg_deq := ?d + k\<rparr>)\<rparr>) = (consumed ?d k :: 'a seg \<Rightarrow> 'a seg)"
            by (intro ext) (simp add: consumed_def)
          then show ?thesis unfolding upd_seg_upd_seg by (simp only:)
        qed
        moreover have "min (?d + k) N - ?d = k" using kb by simp
        moreover have "?xs \<noteq> []" using lx k0 by auto
        ultimately show ?thesis using False k0 k1
          by (subst sq_dequeue_bulk_loop.simps, unfold Let_def k_def [symmetric]) simp
      qed
      then show ?thesis using u lx k0 kb by (intro exI [of _ ?xs] exI [of _ ?q] exI [of _ ids]) (auto simp: same_tail_def)
    qed
  qed
qed

lemma sq_dequeue_bulk_ok:
  assumes "sq_inv N q"
  shows "\<exists>xs q'. sq_try_dequeue_bulk N m q = Some (xs, q') \<and> sq_inv N q' \<and> sq_contents N q = xs @ sq_contents N q'
    \<and> length xs \<le> m \<and> (xs = [] \<longrightarrow> m = 0 \<or> sq_contents N q = [])"
proof (cases "m = 0")
  case True
  then show ?thesis using assms by (simp add: sq_try_dequeue_bulk_def)
next
  case False
  have ok: "sq_ok N (seg_ids q) q" using assms by (simp add: sq_inv_def)
  from sq_dequeue_bulk_loop_ok [OF ok, of m] False show ?thesis
    unfolding sq_try_dequeue_bulk_def using sq_inv_tail [OF assms] by fastforce
qed

section \<open>Reports, reclamation and destruction\<close>

lemma seg_vals_length: "seg_ok N g \<Longrightarrow> length (seg_vals N g) = min (sg_enq g) N - sg_deq g"
  by (auto simp: seg_vals_def seg_ok_def)

lemma sq_size_exact:
  assumes "sq_inv N q"
  shows "sq_size_relaxed N q = length (sq_contents N q)" "sq_empty_relaxed N q \<longleftrightarrow> sq_contents N q = []"
proof -
  define ids where "ids = seg_ids q"
  have N: "2 \<le> N" and ok: "sq_ok N ids q" and ne: "1 < length ids \<longrightarrow> 0 < sg_enq (sq_heap q (sq_tail q))"
    using assms by (auto simp: sq_inv_def ids_def)
  note D = sq_okD [OF ok]
  let ?h = "sq_head q" and ?t = "sq_tail q"
  obtain r where ids: "ids = ?h # r" using D(3,5) by (cases ids) auto
  have hok: "seg_ok N (sq_heap q ?h)" using D(6) ids by simp
  then have hd: "sg_deq (sq_heap q ?h) \<le> N" "sg_deq (sq_heap q ?h) \<le> sg_enq (sq_heap q ?h)" by (auto simp: seg_ok_def)
  have tb: "sg_base (sq_heap q ?t) = sg_base (sq_heap q ?h) + length r * N"
    using D(12) [of "length r"] D(2) ids last_conv_nth [OF D(3)] by simp
  have size: "length (sq_contents N q) + sg_deq (sq_heap q ?h) = length r * N + min (sg_enq (sq_heap q ?t)) N"
  proof (cases "r = []")
    case True
    then have "?t = ?h" using D(2) ids by simp
    then show ?thesis using True sq_contents_eq(2) [OF ok] ids seg_vals_length [OF hok] hd by simp
  next
    case False
    then obtain s where r: "r = s @ [?t]" using D(2) ids by (metis append_butlast_last_id last_ConsR)
    have "length (seg_vals N (sq_heap q p)) = N" if "p \<in> set s" for p
      using D(6) [of p] D(7) [of p] D(8) [of p] that seg_vals_length [of N "sq_heap q p"] unfolding ids r by (simp add: butlast_append)
    then have "sum_list (map (\<lambda>p. length (seg_vals N (sq_heap q p))) s) = length s * N"
      by (induction s) auto
    moreover have "length (seg_vals N (sq_heap q ?h)) = N - sg_deq (sq_heap q ?h)"
      using seg_vals_length [OF hok] D(7) [of ?h] unfolding ids r by (simp add: butlast_append min_def)
    moreover have "length (seg_vals N (sq_heap q ?t)) = min (sg_enq (sq_heap q ?t)) N"
      using D(6) [of ?t] D(8) [of ?t] seg_vals_length [of N "sq_heap q ?t"] unfolding ids r by simp
    ultimately show ?thesis using sq_contents_eq(2) [OF ok] hd ids r by (simp add: length_concat comp_def)
  qed
  then show "sq_size_relaxed N q = length (sq_contents N q)"
    using tb hd unfolding sq_size_relaxed_def Let_def
    by (cases "sq_contents N q") simp_all
  have empty: "sq_contents N q = [] \<longleftrightarrow> length r * N + min (sg_enq (sq_heap q ?t)) N = sg_deq (sq_heap q ?h)"
    using size by (metis add.left_neutral add_right_cancel length_0_conv)
  show "sq_empty_relaxed N q \<longleftrightarrow> sq_contents N q = []"
  proof (cases "r = []")
    case True
    then have "?t = ?h" "sg_next (sq_heap q ?h) = None" using D(1,2) ids by auto
    then show ?thesis using True empty hd by (auto simp: sq_empty_relaxed_def Let_def min_def)
  next
    case False
    then have "0 < min (sg_enq (sq_heap q ?t)) N" using ne ids N by simp
    moreover have "N \<le> length r * N" using False by (cases r) auto
    ultimately have "sq_contents N q \<noteq> []" unfolding empty using hd(1) by linarith
    moreover have "N \<le> sg_enq (sq_heap q ?h)" using D(7) [of ?h] False unfolding ids by simp
    moreover have "sg_next (sq_heap q ?h) \<noteq> None" using D(1) False unfolding ids by (cases r) auto
    ultimately show ?thesis by (auto simp: sq_empty_relaxed_def Let_def)
  qed
qed

lemma seg_destroyed_vals:
  assumes "seg_ok N g"
  shows "seg_destroyed N g = seg_vals N g"
proof -
  let ?xs = "take (min (sg_enq g) N - sg_deq g) (drop (sg_deq g) (sg_cells g))"
  have "\<forall>c\<in>set ?xs. sc_state c = KFull" using assms by (auto simp: seg_ok_def in_set_conv_nth)
  then have "filter (\<lambda>c. sc_state c = KFull) ?xs = ?xs" by simp
  moreover have "min (sg_deq g) N = sg_deq g" using assms by (auto simp: seg_ok_def)
  ultimately show ?thesis unfolding seg_destroyed_def seg_vals_def Let_def by simp
qed

lemma sq_destroy_chain:
  assumes "chain (sq_heap q) p ids" "\<And>a. a \<in> set ids \<Longrightarrow> seg_ok N (sq_heap q a)"
  shows "\<exists>q'. sq_destroy_loop N (Some p) q = Some (concat (map (\<lambda>a. seg_vals N (sq_heap q a)) ids), q')
    \<and> sq_deleted q' = rev ids @ sq_deleted q"
  using assms
proof (induction ids arbitrary: p q)
  case (Cons a ids)
  note step = sq_destroy_loop.simps [of N "Some p"]
  show ?case
  proof (cases ids)
    case Nil
    then show ?thesis using Cons.prems seg_destroyed_vals [of N "sq_heap q a"]
      by (subst step) (simp add: sq_destroy_loop.simps [of N None])
  next
    case (Cons b r)
    then have c: "p = a" "sg_next (sq_heap q p) = Some b" "chain (sq_heap (q\<lparr>sq_deleted := p # sq_deleted q\<rparr>)) b ids"
      using Cons.prems(1) by auto
    from Cons.IH [OF c(3)] Cons.prems(2) obtain q' where
      "sq_destroy_loop N (Some b) (q\<lparr>sq_deleted := p # sq_deleted q\<rparr>) = Some (concat (map (\<lambda>a. seg_vals N (sq_heap q a)) ids), q')"
      "sq_deleted q' = rev ids @ p # sq_deleted q" by auto
    then show ?thesis using c Cons.prems(2) [of a] seg_destroyed_vals [of N "sq_heap q a"] by (subst step) simp
  qed
qed simp

lemma sq_destroy_ok:
  assumes "sq_inv N q"
  shows "\<exists>q'. sq_destroy N q = Some (sq_contents N q, q') \<and> sq_deleted q' = rev (seg_ids q) @ sq_deleted q"
proof -
  have ok: "sq_ok N (seg_ids q) q" using assms by (simp add: sq_inv_def)
  show ?thesis using sq_destroy_chain [OF sq_okD(1) [OF ok] sq_okD(6) [OF ok]]
    unfolding sq_destroy_def sq_contents_def by blast
qed

text \<open>The hazard domain may reclaim a retired segment at any time, the thread's spare holder may be torn down.\<close>

lemma sq_reclaim_ok:
  assumes "sq_inv N q"
  shows "sq_inv N (sq_reclaim q) \<and> sq_contents N (sq_reclaim q) = sq_contents N q"
    "sq_inv N (spare_exit q) \<and> sq_contents N (spare_exit q) = sq_contents N q"
proof -
  have ok: "sq_ok N (seg_ids q) q" using assms by (simp add: sq_inv_def)
  have "sq_ok N (seg_ids q) (sq_reclaim q)"
  proof (cases "sq_retired q")
    case (Cons s r)
    then show ?thesis using ok unfolding sq_ok_def sq_reclaim_def give_segment_def
      by (cases "sq_alive q \<and> sq_spare q = None") (simp; blast)+
  qed (simp add: sq_reclaim_def ok)
  moreover have "sq_ok N (seg_ids q) (spare_exit q)"
    using ok unfolding sq_ok_def spare_exit_def by (cases "sq_spare q") simp_all
  moreover have "sq_heap (sq_reclaim q) = sq_heap q" "sq_heap (spare_exit q) = sq_heap q"
    "sq_tail (sq_reclaim q) = sq_tail q" "sq_tail (spare_exit q) = sq_tail q"
    by (auto simp: sq_reclaim_def give_segment_def spare_exit_def split: list.splits)
  ultimately show "sq_inv N (sq_reclaim q) \<and> sq_contents N (sq_reclaim q) = sq_contents N q"
    "sq_inv N (spare_exit q) \<and> sq_contents N (spare_exit q) = sq_contents N q"
    using assms by (auto simp: sq_inv_def sq_contents_def seg_ids_eq)
qed

lemma sq_new_inv:
  assumes "2 \<le> N"
  shows "sq_inv N (sq_new N)" "sq_contents N (sq_new N) = []"
proof -
  have ok: "sq_ok N [0] (sq_new N)" by (simp add: sq_ok_def sq_new_def seg_ok_def new_segment_def)
  then show "sq_inv N (sq_new N)" using assms by (intro sq_invI) auto
  show "sq_contents N (sq_new N) = []"
    unfolding sq_contents_eq(2) [OF ok] by (simp add: sq_new_def seg_vals_def new_segment_def)
qed

definition sq_deq_op :: "nat \<Rightarrow> 'a sq \<Rightarrow> ('a \<times> 'a sq) option" where
  "sq_deq_op N q = (case sq_try_dequeue N q of Some (Some x, q') \<Rightarrow> Some (x, q') | _ \<Rightarrow> None)"

interpretation sq: fifo "sq_inv N" "sq_contents N" "sq_do_enqueue N" "sq_deq_op N" for N
proof
  fix q q' :: "'a sq" and x
  assume i: "sq_inv N q"
  show "sq_do_enqueue N x q = Some q' \<Longrightarrow> sq_inv N q' \<and> sq_contents N q' = sq_contents N q @ [x]"
    using sq_enqueue_ok [OF i, of x] by auto
  show "sq_deq_op N q = None \<longleftrightarrow> sq_contents N q = []"
    "sq_deq_op N q = Some (x, q') \<Longrightarrow> sq_inv N q' \<and> sq_contents N q = x # sq_contents N q'"
    using sq_dequeue_ok [OF i] by (auto simp: sq_deq_op_def split: option.splits)
qed

section \<open>Properties\<close>

datatype 'a sop = SEnq 'a | SEnqBulk "'a list" | SDeq | SDeqBulk nat | SReclaim | SExit

fun sop_in :: "'a sop \<Rightarrow> 'a list" where
  "sop_in (SEnq v) = [v]"
| "sop_in (SEnqBulk vs) = vs"
| "sop_in _ = []"

fun sq_exec :: "nat \<Rightarrow> 'a sop \<Rightarrow> 'a sq \<Rightarrow> ('a list \<times> 'a sq) option" where
  "sq_exec N (SEnq v) q = map_option (\<lambda>q1. ([], q1)) (sq_do_enqueue N v q)"
| "sq_exec N (SEnqBulk vs) q = map_option (\<lambda>(n, q1). ([], q1)) (sq_enqueue_bulk N vs q)"
| "sq_exec N SDeq q = map_option (\<lambda>(r, q1). (case r of None \<Rightarrow> [] | Some x \<Rightarrow> [x], q1)) (sq_try_dequeue N q)"
| "sq_exec N (SDeqBulk m) q = sq_try_dequeue_bulk N m q"
| "sq_exec N SReclaim q = Some ([], sq_reclaim q)"
| "sq_exec N SExit q = Some ([], spare_exit q)"

fun sq_run :: "nat \<Rightarrow> 'a sop list \<Rightarrow> 'a sq \<Rightarrow> ('a list \<times> 'a sq) option" where
  "sq_run N [] q = Some ([], q)"
| "sq_run N (x # ops) q = Option.bind (sq_exec N x q) (\<lambda>(o1, q1).
     map_option (\<lambda>(o2, q2). (o1 @ o2, q2)) (sq_run N ops q1))"

lemma sq_exec_ok:
  assumes "sq_inv N q"
  shows "\<exists>outs q'. sq_exec N x q = Some (outs, q') \<and> sq_inv N q' \<and> sq_contents N q @ sop_in x = outs @ sq_contents N q'"
proof (cases x)
  case (SEnq v)
  then show ?thesis using sq_enqueue_ok [OF assms, of v] by auto
next
  case (SEnqBulk vs)
  then show ?thesis using sq_bulk_ok [OF assms, of vs] by auto
next
  case SDeq
  obtain r q' where "sq_try_dequeue N q = Some (r, q')" "sq_inv N q'"
    "case r of None \<Rightarrow> sq_contents N q = [] \<and> sq_contents N q' = [] | Some x \<Rightarrow> sq_contents N q = x # sq_contents N q'"
    using sq_dequeue_ok [OF assms] by blast
  then show ?thesis using SDeq by (cases r) auto
next
  case (SDeqBulk m)
  then show ?thesis using sq_dequeue_bulk_ok [OF assms, of m] by auto
qed (use sq_reclaim_ok [OF assms] in auto)

lemma sq_run_ok:
  assumes "sq_inv N q"
  shows "\<exists>outs q'. sq_run N ops q = Some (outs, q') \<and> sq_inv N q'
    \<and> sq_contents N q @ concat (map sop_in ops) = outs @ sq_contents N q'"
  using assms
proof (induction ops arbitrary: q)
  case (Cons x ops)
  obtain o1 q1 where 1: "sq_exec N x q = Some (o1, q1)" "sq_inv N q1" "sq_contents N q @ sop_in x = o1 @ sq_contents N q1"
    using sq_exec_ok [OF Cons.prems, of x] by blast
  obtain o2 q2 where 2: "sq_run N ops q1 = Some (o2, q2)" "sq_inv N q2"
    "sq_contents N q1 @ concat (map sop_in ops) = o2 @ sq_contents N q2" using Cons.IH [OF 1(2)] by blast
  have "sq_contents N q @ concat (map sop_in (x # ops)) = (o1 @ o2) @ sq_contents N q2"
    using 1(3) 2(3) by (metis append_assoc concat.simps(2) list.simps(9))
  then show ?case using 1 2 by simp
qed auto

text \<open>
  C7. A \<open>SegmentedMPMCQueue\<close> is an unbounded FIFO queue for every segment size of at least two: any
  sequence of element and bulk operations, interleaved with the reclamation and reuse of retired
  segments, ends; what it delivers, followed by what is left, is exactly what was enqueued, in order;
  \<open>size\<close> and \<open>empty\<close> are exact; and the destructor destroys exactly the elements left and frees every
  segment of the list.
\<close>

theorem segmented_queue_fifo:
  fixes ops :: "'a sop list"
  assumes "2 \<le> N"
  shows "\<exists>outs q. sq_run N ops (sq_new N) = Some (outs, q) \<and> concat (map sop_in ops) = outs @ sq_contents N q
    \<and> sq_size_relaxed N q = length (sq_contents N q) \<and> (sq_empty_relaxed N q \<longleftrightarrow> sq_contents N q = [])
    \<and> (\<exists>q'. sq_destroy N q = Some (sq_contents N q, q') \<and> sq_deleted q' = rev (seg_ids q) @ sq_deleted q)"
proof -
  have n: "sq_inv N (sq_new N :: 'a sq)" "sq_contents N (sq_new N :: 'a sq) = []" using sq_new_inv [OF assms] by auto
  obtain outs q where "sq_run N ops (sq_new N) = Some (outs, q)" "sq_inv N q" "concat (map sop_in ops) = outs @ sq_contents N q"
    using sq_run_ok [OF n(1), of ops] n(2) by auto
  then show ?thesis using sq_size_exact [of N q] sq_destroy_ok [of N q] by blast
qed

theorem segmented_queue_fifo_witness:
  "2 \<le> (2::nat) \<and> (\<exists>outs q. sq_run 2 [SEnq 1, SEnqBulk [2, 3, 4], SDeq, SDeqBulk 2, SReclaim, SEnq 5] (sq_new 2) = Some (outs, q)
     \<and> [1, 2, 3, 4, 5::nat] = outs @ sq_contents 2 q)"
  using segmented_queue_fifo [of 2 "[SEnq 1, SEnqBulk [2, 3, 4], SDeq, SDeqBulk 2, SReclaim, SEnq (5::nat)]"] by auto

end
