(* ===== verification/Async_Channel.thy ===== *)
theory Async_Channel
  imports Sync_Primitives Mpmc_Queue Segmented_Queue
begin

text \<open>
  \<open>sync/AsyncChannel.h\<close> and \<open>sync/AsyncUnboundedChannel.h\<close>: a bounded channel on the \<open>MPMCQueue\<close> with one
  wait list for receivers and one for senders, and an unbounded channel on the \<open>SegmentedMPMCQueue\<close>. The
  outer \<open>None\<close> of an operation is a queue operation or a wake loop that never returns. The tuple packing of
  the variadic interface (\<open>send(Us...)\<close>, \<open>recv_into\<close>, \<open>operator<<\<close>) is left out: a payload is one value.
\<close>

record 'a chan =
  ch_queue :: "'a mpmc"
  ch_recv :: WaitList
  ch_send :: WaitList
  ch_closed :: bool

definition chan_new :: "u64 \<Rightarrow> 'a chan" where
  "chan_new capacity_pow2 = \<lparr>ch_queue = mp_new capacity_pow2, ch_recv = wl_new, ch_send = wl_new, ch_closed = False\<rparr>"

definition is_closed :: "'a chan \<Rightarrow> bool" where
  "is_closed c = ch_closed c"

definition chan_close :: "bool \<Rightarrow> 'a chan \<times> wenv \<Rightarrow> ('a chan \<times> wenv) option" where
  "chan_close reuse x = (case x of (c, e) \<Rightarrow> if ch_closed c then Some (c, e)
     else Option.bind (wake_all_waiters reuse (ch_recv c) e) (\<lambda>(l1, e1).
       Option.bind (wake_all_waiters reuse (ch_send c) e1) (\<lambda>(l2, e2).
         Some (c\<lparr>ch_closed := True, ch_recv := l1, ch_send := l2\<rparr>, e2))))"

definition try_send_tuple :: "bool \<Rightarrow> 'a \<Rightarrow> 'a chan \<times> wenv \<Rightarrow> (bool \<times> 'a chan \<times> wenv) option" where
  "try_send_tuple reuse v x = (case x of (c, e) \<Rightarrow> if is_closed c then Some (False, c, e)
     else Option.bind (mp_do_enqueue v (ch_queue c)) (\<lambda>r. case r of
       None \<Rightarrow> Some (False, c, e)
     | Some q \<Rightarrow> map_option (\<lambda>(l, e1). (True, c\<lparr>ch_queue := q, ch_recv := l\<rparr>, e1)) (wake_one_waiter reuse (ch_recv c) e)))"

definition try_recv :: "bool \<Rightarrow> 'a chan \<times> wenv \<Rightarrow> ('a option \<times> 'a chan \<times> wenv) option" where
  "try_recv reuse x = (case x of (c, e) \<Rightarrow>
     Option.bind (mp_try_dequeue (ch_queue c)) (\<lambda>r. case r of
       None \<Rightarrow> Some (None, c, e)
     | Some (v, q) \<Rightarrow> map_option (\<lambda>(l, e1). (Some v, c\<lparr>ch_queue := q, ch_send := l\<rparr>, e1)) (wake_one_waiter reuse (ch_send c) e)))"

definition attach_recv :: "nat \<Rightarrow> 'a chan \<times> wenv \<Rightarrow> bool \<times> 'a chan \<times> wenv" where
  "attach_recv w x = (case x of (c, e) \<Rightarrow> case list_push w (ch_recv c, e) of (l, e1) \<Rightarrow>
     (mp_empty_relaxed (ch_queue c) \<and> \<not> is_closed c, c\<lparr>ch_recv := l\<rparr>, e1))"

definition detach_recv :: "nat \<Rightarrow> 'a chan \<times> wenv \<Rightarrow> bool \<times> 'a chan \<times> wenv" where
  "detach_recv w x = (case x of (c, e) \<Rightarrow> case list_remove w (ch_recv c, e) of (b, l, e1) \<Rightarrow> (b, c\<lparr>ch_recv := l\<rparr>, e1))"

definition attach_send :: "nat \<Rightarrow> 'a chan \<times> wenv \<Rightarrow> bool \<times> 'a chan \<times> wenv" where
  "attach_send w x = (case x of (c, e) \<Rightarrow> case list_push w (ch_send c, e) of (l, e1) \<Rightarrow>
     (mp_size (ch_queue c) \<ge> mp_cap (ch_queue c) \<and> \<not> is_closed c, c\<lparr>ch_send := l\<rparr>, e1))"

definition detach_send :: "nat \<Rightarrow> 'a chan \<times> wenv \<Rightarrow> bool \<times> 'a chan \<times> wenv" where
  "detach_send w x = (case x of (c, e) \<Rightarrow> case list_remove w (ch_send c, e) of (b, l, e1) \<Rightarrow> (b, c\<lparr>ch_send := l\<rparr>, e1))"

text \<open>
  \<open>ChannelRecvOp::try_complete\<close> and \<open>ChannelSendOp::try_complete\<close>: not complete, or complete with the value the
  operation yields.
\<close>

datatype 'r completion = Pending | Complete 'r

definition recv_try_complete :: "bool \<Rightarrow> 'a chan \<times> wenv \<Rightarrow> ('a option completion \<times> 'a chan \<times> wenv) option" where
  "recv_try_complete reuse x = Option.bind (try_recv reuse x) (\<lambda>(r, c, e). case r of
     Some v \<Rightarrow> Some (Complete (Some v), c, e)
   | None \<Rightarrow> if is_closed c \<and> mp_empty_relaxed (ch_queue c) then Some (Complete None, c, e) else Some (Pending, c, e))"

definition send_try_complete :: "bool \<Rightarrow> 'a \<Rightarrow> 'a chan \<times> wenv \<Rightarrow> (bool completion \<times> 'a chan \<times> wenv) option" where
  "send_try_complete reuse v x = (if is_closed (fst x) then Some (Complete False, x)
     else Option.bind (try_send_tuple reuse v x) (\<lambda>(b, y). Some (if b then Complete True else Pending, y)))"

section \<open>The unbounded channel\<close>

record 'a uchan =
  u_queue :: "'a sq"
  u_recv :: WaitList
  u_closed :: bool

definition uchan_close :: "bool \<Rightarrow> 'a uchan \<times> wenv \<Rightarrow> ('a uchan \<times> wenv) option" where
  "uchan_close reuse x = (case x of (c, e) \<Rightarrow> if u_closed c then Some (c, e)
     else map_option (\<lambda>(l, e1). (c\<lparr>u_closed := True, u_recv := l\<rparr>, e1)) (wake_all_waiters reuse (u_recv c) e))"

definition utry_send_tuple :: "bool \<Rightarrow> nat \<Rightarrow> 'a \<Rightarrow> 'a uchan \<times> wenv \<Rightarrow> (bool \<times> 'a uchan \<times> wenv) option" where
  "utry_send_tuple reuse N v x = (case x of (c, e) \<Rightarrow> if u_closed c then Some (False, c, e)
     else Option.bind (sq_do_enqueue N v (u_queue c)) (\<lambda>q.
       map_option (\<lambda>(l, e1). (True, c\<lparr>u_queue := q, u_recv := l\<rparr>, e1)) (wake_one_waiter reuse (u_recv c) e)))"

definition utry_recv :: "nat \<Rightarrow> 'a uchan \<Rightarrow> ('a option \<times> 'a uchan) option" where
  "utry_recv N c = map_option (\<lambda>(r, q). (r, c\<lparr>u_queue := q\<rparr>)) (sq_try_dequeue N (u_queue c))"

definition uattach_recv :: "nat \<Rightarrow> nat \<Rightarrow> 'a uchan \<times> wenv \<Rightarrow> bool \<times> 'a uchan \<times> wenv" where
  "uattach_recv N w x = (case x of (c, e) \<Rightarrow> case list_push w (u_recv c, e) of (l, e1) \<Rightarrow>
     (sq_empty_relaxed N (u_queue c) \<and> \<not> u_closed c, c\<lparr>u_recv := l\<rparr>, e1))"

definition udetach_recv :: "nat \<Rightarrow> 'a uchan \<times> wenv \<Rightarrow> bool \<times> 'a uchan \<times> wenv" where
  "udetach_recv w x = (case x of (c, e) \<Rightarrow> case list_remove w (u_recv c, e) of (b, l, e1) \<Rightarrow> (b, c\<lparr>u_recv := l\<rparr>, e1))"

definition urecv_try_complete :: "nat \<Rightarrow> 'a uchan \<Rightarrow> ('a option completion \<times> 'a uchan) option" where
  "urecv_try_complete N c = Option.bind (utry_recv N c) (\<lambda>(r, c1). case r of
     Some v \<Rightarrow> Some (Complete (Some v), c1)
   | None \<Rightarrow> if u_closed c1 \<and> sq_empty_relaxed N (u_queue c1) then Some (Complete None, c1) else Some (Pending, c1))"

section \<open>The wake functions on a list of waiting tasks\<close>

lemma waiting_frame:
  assumes "waiting own xs l e" "\<And>a. a \<in> own \<Longrightarrow> e_nodes e' a = e_nodes e a"
  shows "waiting own xs l e'"
proof -
  have "set xs \<subseteq> own" using assms(1) by (simp add: waiting_def wl_rep_def)
  then show ?thesis using assms wl_rep_frame [of own xs l "e_nodes e" "e_nodes e'"] by (auto simp: waiting_def plain_def)
qed

lemma wake_one_waiter_spec:
  assumes "waiting own xs l e"
  shows "\<exists>l' e'. wake_one_waiter reuse l e = Some (l', e') \<and> waiting own (drop 1 xs) l' e'
    \<and> e_sched e' = resume_all reuse e (take 1 xs) \<and> (\<forall>a. a \<notin> own \<longrightarrow> e_nodes e' a = e_nodes e a)"
proof (cases "xs = []")
  case True
  then show ?thesis using assms waiting_empty [OF assms] by (simp add: wake_one_waiter_def resume_all_def)
next
  case False
  obtain l' e' where w: "wake_up_to reuse (int 1) l e = Some (l', e')" "waiting own (drop 1 xs) l' e'"
    "e_sched e' = resume_all reuse e (take 1 xs)" using wake_up_to_waiting [OF assms] by metis
  have rep: "wl_rep own xs (l, e_nodes e)" "set xs \<subseteq> own" using assms by (auto simp: waiting_def wl_rep_def)
  have "e_nodes e' a = e_nodes e a" if "a \<notin> own" for a using wake_up_to_frame [OF rep(1) w(1)] rep(2) that by blast
  then show ?thesis using w False waiting_empty [OF assms] by (auto simp: wake_one_waiter_def)
qed

lemma wake_all_waiters_spec:
  assumes "waiting own xs l e"
  shows "\<exists>l' e'. wake_all_waiters reuse l e = Some (l', e') \<and> waiting own [] l' e'
    \<and> e_sched e' = resume_all reuse e xs \<and> (\<forall>a. a \<notin> own \<longrightarrow> e_nodes e' a = e_nodes e a)"
proof (cases "xs = []")
  case True
  then show ?thesis using assms waiting_empty [OF assms] by (simp add: wake_all_waiters_def resume_all_def)
next
  case False
  obtain l' e' where w: "wake_all reuse l e = Some (l', e')" "waiting own [] l' e'" "e_sched e' = resume_all reuse e xs"
    using wake_all_waiting [OF assms] by metis
  have rep: "wl_rep own xs (l, e_nodes e)" "set xs \<subseteq> own" using assms by (auto simp: waiting_def wl_rep_def)
  have "wake_all reuse l e = wake_up_to reuse (int (Suc (length xs))) l e"
    using assms by (intro wake_all_up_to [of own xs]) (auto simp: waiting_def)
  then have "wake_up_to reuse (int (Suc (length xs))) l e = Some (l', e')" using w(1) by simp
  then have "e_nodes e' a = e_nodes e a" if "a \<notin> own" for a using wake_up_to_frame [OF rep(1)] rep(2) that by blast
  then show ?thesis using w False waiting_empty [OF assms] by (auto simp: wake_all_waiters_def)
qed

text \<open>
  A channel with receivers \<open>rs\<close> and senders \<open>ss\<close> waiting on it, in arrival order, on disjoint sets of nodes.
\<close>

definition chan_ok :: "nat set \<Rightarrow> nat set \<Rightarrow> nat list \<Rightarrow> nat list \<Rightarrow> 'a chan \<Rightarrow> wenv \<Rightarrow> bool" where
  "chan_ok R S rs ss c e \<longleftrightarrow> R \<inter> S = {} \<and> mp_inv (ch_queue c) \<and> waiting R rs (ch_recv c) e \<and> waiting S ss (ch_send c) e"

lemma mp_contents_le: "mp_inv q \<Longrightarrow> length (mp_contents q) \<le> length (mp_cells q)"
  by (simp add: mp_count_contents mp_inv_def)

lemma try_send_spec:
  assumes "chan_ok R S rs ss c e"
  shows "\<exists>b c' e'. try_send_tuple reuse v (c, e) = Some (b, c', e') \<and> ch_closed c' = ch_closed c
    \<and> b = (\<not> ch_closed c \<and> length (mp_contents (ch_queue c)) < length (mp_cells (ch_queue c)))
    \<and> mp_contents (ch_queue c') = mp_contents (ch_queue c) @ (if b then [v] else [])
    \<and> chan_ok R S (if b then drop 1 rs else rs) ss c' e'
    \<and> e_sched e' = resume_all reuse e (if b then take 1 rs else [])"
proof -
  have q: "mp_inv (ch_queue c)" and d: "R \<inter> S = {}" and w: "waiting R rs (ch_recv c) e" "waiting S ss (ch_send c) e"
    using assms by (auto simp: chan_ok_def)
  have le: "length (mp_contents (ch_queue c)) \<le> length (mp_cells (ch_queue c))" using mp_contents_le [OF q] .
  obtain r where r: "mp_do_enqueue v (ch_queue c) = Some r" "r = None \<longleftrightarrow> length (mp_contents (ch_queue c)) = length (mp_cells (ch_queue c))"
    using mp_enqueue_cases [OF q, of v] by (auto simp: mp_count_contents)
  show ?thesis
  proof (cases "ch_closed c \<or> r = None")
    case True
    then show ?thesis using assms r le by (auto simp: try_send_tuple_def is_closed_def resume_all_def)
  next
    case False
    then obtain q' where q': "mp_do_enqueue v (ch_queue c) = Some (Some q')" using r(1) by auto
    obtain l' e' where k: "wake_one_waiter reuse (ch_recv c) e = Some (l', e')" "waiting R (drop 1 rs) l' e'"
      "e_sched e' = resume_all reuse e (take 1 rs)" "\<forall>a. a \<notin> R \<longrightarrow> e_nodes e' a = e_nodes e a"
      using wake_one_waiter_spec [OF w(1)] by metis
    have "waiting S ss (ch_send c) e'" using waiting_frame [OF w(2)] k(4) d by auto
    then show ?thesis using k q' False mp_enqueue_inv [OF q q'] d r le
      by (auto simp: try_send_tuple_def is_closed_def chan_ok_def)
  qed
qed

lemma try_recv_spec:
  assumes "chan_ok R S rs ss c e"
  shows "\<exists>r c' e'. try_recv reuse (c, e) = Some (r, c', e') \<and> ch_closed c' = ch_closed c
    \<and> (case r of None \<Rightarrow> mp_contents (ch_queue c) = [] \<and> mp_contents (ch_queue c') = []
       | Some v \<Rightarrow> mp_contents (ch_queue c) = v # mp_contents (ch_queue c'))
    \<and> chan_ok R S rs (if r = None then ss else drop 1 ss) c' e'
    \<and> e_sched e' = resume_all reuse e (if r = None then [] else take 1 ss)"
proof -
  have q: "mp_inv (ch_queue c)" and d: "R \<inter> S = {}" and w: "waiting R rs (ch_recv c) e" "waiting S ss (ch_send c) e"
    using assms by (auto simp: chan_ok_def)
  obtain r where r: "mp_try_dequeue (ch_queue c) = Some r" "r = None \<longleftrightarrow> mp_contents (ch_queue c) = []"
  proof -
    have "mp_count (ch_queue c) = 0 \<longleftrightarrow> mp_contents (ch_queue c) = []" by (simp add: mp_count_contents [symmetric])
    then show ?thesis using that mp_dequeue_cases [OF q] by simp
  qed
  show ?thesis
  proof (cases r)
    case None
    then show ?thesis using assms r by (auto simp: try_recv_def resume_all_def)
  next
    case (Some vq)
    obtain v q' where vq: "vq = (v, q')" by (cases vq)
    obtain l' e' where k: "wake_one_waiter reuse (ch_send c) e = Some (l', e')" "waiting S (drop 1 ss) l' e'"
      "e_sched e' = resume_all reuse e (take 1 ss)" "\<forall>a. a \<notin> S \<longrightarrow> e_nodes e' a = e_nodes e a"
      using wake_one_waiter_spec [OF w(2)] by metis
    have "waiting R rs (ch_recv c) e'" using waiting_frame [OF w(1)] k(4) d by auto
    then show ?thesis using k Some vq mp_dequeue_inv [OF q, of v q'] d r by (auto simp: try_recv_def chan_ok_def)
  qed
qed

lemma chan_close_spec:
  assumes "chan_ok R S rs ss c e"
  shows "\<exists>c' e'. chan_close reuse (c, e) = Some (c', e') \<and> ch_closed c' \<and> ch_queue c' = ch_queue c
    \<and> (if ch_closed c then chan_ok R S rs ss c' e' \<and> e_sched e' = e_sched e
       else chan_ok R S [] [] c' e' \<and> e_sched e' = resume_all reuse e (rs @ ss))"
proof (cases "ch_closed c")
  case True
  then show ?thesis using assms by (auto simp: chan_close_def)
next
  case False
  have q: "mp_inv (ch_queue c)" and d: "R \<inter> S = {}" and w: "waiting R rs (ch_recv c) e" "waiting S ss (ch_send c) e"
    using assms by (auto simp: chan_ok_def)
  obtain l1 e1 where k1: "wake_all_waiters reuse (ch_recv c) e = Some (l1, e1)" "waiting R [] l1 e1"
    "e_sched e1 = resume_all reuse e rs" "\<forall>a. a \<notin> R \<longrightarrow> e_nodes e1 a = e_nodes e a"
    using wake_all_waiters_spec [OF w(1)] by metis
  have w2: "waiting S ss (ch_send c) e1" using waiting_frame [OF w(2)] k1(4) d by auto
  obtain l2 e2 where k2: "wake_all_waiters reuse (ch_send c) e1 = Some (l2, e2)" "waiting S [] l2 e2"
    "e_sched e2 = resume_all reuse e1 ss" "\<forall>a. a \<notin> S \<longrightarrow> e_nodes e2 a = e_nodes e1 a"
    using wake_all_waiters_spec [OF w2] by metis
  have "waiting R [] l1 e2" using waiting_frame [OF k1(2)] k2(4) d by auto
  moreover have "resume_all reuse e1 ss = resume_all reuse e (rs @ ss)"
  proof -
    have "set ss \<subseteq> S" using w(2) by (simp add: waiting_def wl_rep_def)
    then have "e_nodes e1 a = e_nodes e a" if "a \<in> set ss" for a using k1(4) d that by blast
    then have "resume_waiter reuse (e_nodes e1) a = resume_waiter reuse (e_nodes e) a" if "a \<in> set ss" for a
      using that by (intro ext) (simp add: resume_waiter_def)
    then show ?thesis using k1(3) unfolding resume_all_def fold_append comp_def by (intro fold_cong) auto
  qed
  ultimately show ?thesis using False k1 k2 q d by (auto simp: chan_close_def chan_ok_def)
qed

section \<open>The channel as an abstract buffer\<close>

datatype 'a chan_op = Send 'a | Recv | Close

datatype 'a chan_res = R_send "bool completion" | R_recv "'a option completion" | R_close

text \<open>What a channel of capacity \<open>n\<close> promises: a list of items and a closed flag.\<close>

fun a_chan :: "nat \<Rightarrow> 'a chan_op \<Rightarrow> 'a list \<times> bool \<Rightarrow> 'a chan_res \<times> 'a list \<times> bool" where
  "a_chan n (Send v) (xs, cl) = (if cl then (R_send (Complete False), xs, cl)
     else if length xs < n then (R_send (Complete True), xs @ [v], cl) else (R_send Pending, xs, cl))"
| "a_chan n Recv (xs, cl) = (case xs of x # ys \<Rightarrow> (R_recv (Complete (Some x)), ys, cl)
     | [] \<Rightarrow> (R_recv (if cl then Complete None else Pending), [], cl))"
| "a_chan n Close (xs, cl) = (R_close, xs, True)"

fun a_chan_run :: "nat \<Rightarrow> 'a chan_op list \<Rightarrow> 'a list \<times> bool \<Rightarrow> 'a chan_res list \<times> 'a list \<times> bool" where
  "a_chan_run n [] a = ([], a)"
| "a_chan_run n (x # ops) a = (case a_chan n x a of (r, a1) \<Rightarrow> case a_chan_run n ops a1 of (rs, a2) \<Rightarrow> (r # rs, a2))"

fun chan_exec :: "bool \<Rightarrow> 'a chan_op \<Rightarrow> 'a chan \<times> wenv \<Rightarrow> ('a chan_res \<times> 'a chan \<times> wenv) option" where
  "chan_exec reuse (Send v) x = map_option (\<lambda>(r, y). (R_send r, y)) (send_try_complete reuse v x)"
| "chan_exec reuse Recv x = map_option (\<lambda>(r, y). (R_recv r, y)) (recv_try_complete reuse x)"
| "chan_exec reuse Close x = map_option (\<lambda>y. (R_close, y)) (chan_close reuse x)"

fun chan_run :: "bool \<Rightarrow> 'a chan_op list \<Rightarrow> 'a chan \<times> wenv \<Rightarrow> ('a chan_res list \<times> 'a chan \<times> wenv) option" where
  "chan_run reuse [] x = Some ([], x)"
| "chan_run reuse (op # ops) x = Option.bind (chan_exec reuse op x) (\<lambda>(r, y).
     map_option (\<lambda>(rs, z). (r # rs, z)) (chan_run reuse ops y))"

definition abs_chan :: "'a chan \<Rightarrow> 'a list \<times> bool" where
  "abs_chan c = (mp_contents (ch_queue c), ch_closed c)"

definition ch_cap :: "'a chan \<Rightarrow> nat" where
  "ch_cap c = length (mp_cells (ch_queue c))"

lemma try_send_cap: "mp_inv (ch_queue c) \<Longrightarrow> try_send_tuple reuse v (c, e) = Some (b, c', e') \<Longrightarrow> ch_cap c' = ch_cap c"
  by (auto simp: try_send_tuple_def ch_cap_def mp_enqueue_inv split: if_splits option.splits bind_splits)

lemma try_recv_cap: "mp_inv (ch_queue c) \<Longrightarrow> try_recv reuse (c, e) = Some (r, c', e') \<Longrightarrow> ch_cap c' = ch_cap c"
  using mp_dequeue_inv by (fastforce simp: try_recv_def ch_cap_def split: option.splits bind_splits)

lemma chan_exec_refines:
  assumes "chan_ok R S rs ss c e"
  shows "\<exists>r c' e' rs' ss'. chan_exec reuse x (c, e) = Some (r, c', e') \<and> chan_ok R S rs' ss' c' e' \<and> ch_cap c' = ch_cap c
    \<and> a_chan (ch_cap c) x (abs_chan c) = (r, abs_chan c')"
proof (cases x)
  case (Send v)
  have q: "mp_inv (ch_queue c)" using assms by (simp add: chan_ok_def)
  obtain b c' e' where t: "try_send_tuple reuse v (c, e) = Some (b, c', e')" "ch_closed c' = ch_closed c"
    "b = (\<not> ch_closed c \<and> length (mp_contents (ch_queue c)) < length (mp_cells (ch_queue c)))"
    "mp_contents (ch_queue c') = mp_contents (ch_queue c) @ (if b then [v] else [])"
    "chan_ok R S (if b then drop 1 rs else rs) ss c' e'" using try_send_spec [OF assms, of reuse v] by blast
  show ?thesis using Send t try_send_cap [OF q t(1)] assms
    by (cases "ch_closed c") (auto simp: send_try_complete_def is_closed_def abs_chan_def ch_cap_def)
next
  case Recv
  have q: "mp_inv (ch_queue c)" using assms by (simp add: chan_ok_def)
  obtain r c' e' where t: "try_recv reuse (c, e) = Some (r, c', e')" "ch_closed c' = ch_closed c"
    "case r of None \<Rightarrow> mp_contents (ch_queue c) = [] \<and> mp_contents (ch_queue c') = []
       | Some v \<Rightarrow> mp_contents (ch_queue c) = v # mp_contents (ch_queue c')"
    "chan_ok R S rs (if r = None then ss else drop 1 ss) c' e'" using try_recv_spec [OF assms, of reuse] by blast
  have q': "mp_inv (ch_queue c')" using t(4) by (simp add: chan_ok_def)
  show ?thesis using Recv t try_recv_cap [OF q t(1)] mp_reports(2) [OF q']
    by (cases r) (auto simp: recv_try_complete_def is_closed_def abs_chan_def)
next
  case Close
  obtain c' e' where t: "chan_close reuse (c, e) = Some (c', e')" "ch_closed c'" "ch_queue c' = ch_queue c"
    "if ch_closed c then chan_ok R S rs ss c' e' \<and> e_sched e' = e_sched e
       else chan_ok R S [] [] c' e' \<and> e_sched e' = resume_all reuse e (rs @ ss)" using chan_close_spec [OF assms, of reuse] by blast
  then show ?thesis using Close by (cases "ch_closed c") (auto simp: abs_chan_def ch_cap_def)
qed

lemma chan_run_refines:
  assumes "chan_ok R S rs ss c e"
  shows "\<exists>res c' e'. chan_run reuse ops (c, e) = Some (res, c', e') \<and> a_chan_run (ch_cap c) ops (abs_chan c) = (res, abs_chan c')"
  using assms
proof (induction ops arbitrary: rs ss c e)
  case (Cons x ops)
  obtain r c1 e1 rs1 ss1 where 1: "chan_exec reuse x (c, e) = Some (r, c1, e1)" "chan_ok R S rs1 ss1 c1 e1" "ch_cap c1 = ch_cap c"
    "a_chan (ch_cap c) x (abs_chan c) = (r, abs_chan c1)" using chan_exec_refines [OF Cons.prems, of reuse x] by blast
  from Cons.IH [OF 1(2)] 1 show ?case by auto
qed simp

section \<open>Properties\<close>

text \<open>
  C11. An \<open>AsyncChannel\<close> constructed with a capacity of at least two and at most \<open>2 ^ 62\<close> refines a bounded buffer (of
  the capacity rounded up to a power of two) with a closed flag: any sequence of send attempts, receive attempts and
  \<open>close\<close> calls returns, with the results of the buffer. Values come out in the order they went in, a send is refused
  only when the buffer is full or closed, and after \<open>close\<close> the remaining values are still received before the end of
  the stream is reported. A capacity of one is excluded: its queue has a single cell, on which the sequence numbers
  of a full and of a free cell coincide.
\<close>

theorem channel_refines_buffer:
  fixes ops :: "'a chan_op list"
  assumes "2 \<le> unat cap" "unat cap \<le> 2 ^ 62" "\<And>w. \<not> w_in_list (e_nodes e w)"
  shows "\<exists>res c' e'. chan_run reuse ops (chan_new cap, e) = Some (res, c', e')
    \<and> a_chan_run (unat (cq_next_pow2 cap)) ops ([], False) = (res, abs_chan c')"
proof -
  have n: "mp_inv (mp_new cap :: 'a mpmc)" "mp_contents (mp_new cap :: 'a mpmc) = []" using mp_new_inv [OF assms(1,2)] by auto
  have w: "waiting {} [] wl_new e" using assms(3) by (simp add: waiting_def wl_new_rep)
  then have "chan_ok {} {} [] [] (chan_new cap :: 'a chan) e" using n(1) by (simp add: chan_ok_def chan_new_def)
  from chan_run_refines [OF this, of reuse ops] show ?thesis
    using n(2) by (simp add: abs_chan_def chan_new_def ch_cap_def mp_new_def Let_def)
qed

theorem channel_refines_buffer_witness:
  "\<exists>c' e'. chan_run True [Send 1, Send 2, Send 3, Recv, Close, Recv, Recv] (chan_new 2, wait_demo_env)
    = Some ([R_send (Complete True), R_send (Complete True), R_send Pending, R_recv (Complete (Some 1)), R_close,
             R_recv (Complete (Some 2)), R_recv (Complete None)], c' :: nat chan, e')"
proof -
  have c: "2 \<le> unat (2::u64)" "unat (2::u64) \<le> 2 ^ 62" by simp_all
  have p: "unat (cq_next_pow2 2) = 2" by (simp add: cq_next_pow2_def or_shift_def word_le_nat_alt)
  have d: "\<not> w_in_list (e_nodes wait_demo_env w)" for w by (simp add: wait_demo_env_def demo_node_def)
  show ?thesis using channel_refines_buffer [OF c d, of True "[Send (1::nat), Send 2, Send 3, Recv, Close, Recv, Recv]"]
    by (auto simp: p)
qed

section \<open>The channels in the wait protocol\<close>

text \<open>
  The state a waiting task depends on: the queue and the closed flag. A queue operation is one atomic step. A
  sender that has passed its test of the closed flag may push after a \<open>close\<close>, so pushing does not look at the
  flag. Of \<open>close\<close> only the first call wakes.
\<close>

datatype 'a chan_act = C_push 'a | C_pop | C_close

definition push_act :: "'a \<Rightarrow> 'a mpmc \<times> bool \<Rightarrow> ('a mpmc \<times> bool) \<times> bool" where
  "push_act v p = (case mp_do_enqueue v (fst p) of Some (Some q) \<Rightarrow> ((q, snd p), True) | _ \<Rightarrow> (p, False))"

definition pop_act :: "'a mpmc \<times> bool \<Rightarrow> ('a mpmc \<times> bool) \<times> bool" where
  "pop_act p = (case mp_try_dequeue (fst p) of Some (Some (x, q)) \<Rightarrow> ((q, snd p), True) | _ \<Rightarrow> (p, False))"

definition close_act :: "'q \<times> bool \<Rightarrow> ('q \<times> bool) \<times> enat" where
  "close_act p = (if snd p then (p, 0) else ((fst p, True), \<infinity>))"


definition send_prim :: "'a \<Rightarrow> ('a mpmc \<times> bool, 'a chan_act) wprim" where
  "send_prim v = \<lparr>p_try = (\<lambda>p. if snd p then Some p else if snd (push_act v p) then Some (fst (push_act v p)) else None),
     p_must_wait = (\<lambda>p. mp_size (fst p) \<ge> mp_cap (fst p) \<and> \<not> snd p), p_allowed = (\<lambda>_ _. True),
     p_act = (\<lambda>a p. case a of C_push u \<Rightarrow> (fst (push_act u p), 0)
       | C_pop \<Rightarrow> (fst (pop_act p), if snd (pop_act p) then 1 else 0) | C_close \<Rightarrow> close_act p)\<rparr>"

definition urecv_prim :: "nat \<Rightarrow> ('a sq \<times> bool, 'a chan_act) wprim" where
  "urecv_prim N = \<lparr>p_try = (\<lambda>p. case sq_try_dequeue N (fst p) of Some (Some x, q) \<Rightarrow> Some (q, snd p)
       | Some (None, q) \<Rightarrow> if snd p \<and> sq_empty_relaxed N q then Some (q, snd p) else None | None \<Rightarrow> None),
     p_must_wait = (\<lambda>p. sq_empty_relaxed N (fst p) \<and> \<not> snd p), p_allowed = (\<lambda>_ _. True),
     p_act = (\<lambda>a p. case a of C_push v \<Rightarrow> (case sq_do_enqueue N v (fst p) of Some q \<Rightarrow> ((q, snd p), 1) | None \<Rightarrow> (p, 0))
       | C_pop \<Rightarrow> (case sq_try_dequeue N (fst p) of Some (r, q) \<Rightarrow> ((q, snd p), 0) | None \<Rightarrow> (p, 0))
       | C_close \<Rightarrow> close_act p)\<rparr>"

definition filled :: "'a mpmc \<Rightarrow> enat" where
  "filled q = enat (length (mp_contents q))"

definition room :: "'a mpmc \<Rightarrow> enat" where
  "room q = enat (length (mp_cells q) - length (mp_contents q))"

lemma push_act_spec:
  assumes "mp_inv (fst p)" "push_act v p = (p', b)"
  shows "mp_inv (fst p') \<and> snd p' = snd p \<and> (if b then filled (fst p') = filled (fst p) + 1 \<and> room (fst p') + 1 = room (fst p)
    else p' = p \<and> room (fst p) = 0)"
proof (cases "mp_do_enqueue v (fst p)")
  case None
  then show ?thesis using mp_enqueue_cases [OF assms(1), of v] by simp
next
  case (Some r)
  show ?thesis
  proof (cases r)
    case None
    then show ?thesis using Some assms mp_enqueue_cases [OF assms(1), of v]
      by (auto simp: push_act_def room_def mp_count_contents zero_enat_def split: if_splits)
  next
    case q: (Some q)
    have s: "mp_do_enqueue v (fst p) = Some (Some q)" using Some q by simp
    have "length (mp_contents q) \<le> length (mp_cells q)" using mp_contents_le mp_enqueue_inv [OF assms(1) s] by blast
    then show ?thesis using s assms mp_enqueue_inv [OF assms(1) s]
      by (auto simp: push_act_def room_def filled_def one_enat_def)
  qed
qed

lemma pop_act_spec:
  assumes "mp_inv (fst p)" "pop_act p = (p', b)"
  shows "mp_inv (fst p') \<and> snd p' = snd p \<and> (if b then filled (fst p') + 1 = filled (fst p) \<and> room (fst p') = room (fst p) + 1
    else p' = p \<and> filled (fst p) = 0)"
proof (cases "mp_try_dequeue (fst p)")
  case None
  then show ?thesis using mp_dequeue_cases [OF assms(1)] by simp
next
  case (Some r)
  show ?thesis
  proof (cases r)
    case None
    then show ?thesis using Some assms mp_dequeue_cases [OF assms(1)]
      by (auto simp: pop_act_def filled_def mp_count_contents zero_enat_def split: if_splits)
  next
    case q: (Some xq)
    then obtain x q where s: "mp_try_dequeue (fst p) = Some (Some (x, q))" using Some by (cases xq) auto
    have "length (mp_contents (fst p)) \<le> length (mp_cells (fst p))" using mp_contents_le [OF assms(1)] .
    then show ?thesis using s assms mp_dequeue_inv [OF assms(1) s]
      by (auto simp: pop_act_def room_def filled_def one_enat_def)
  qed
qed

lemma must_wait_room:
  assumes "mp_inv q"
  shows "mp_cap q \<le> mp_size q \<longleftrightarrow> room q = 0"
proof -
  obtain k where "mp_shape k q" using assms by (auto simp: mp_inv_def)
  then have "unat (mp_cap q) = length (mp_cells q)" using mp_shapeD(2,3) by metis
  then show ?thesis using mp_reports(3) [OF assms] by (simp add: word_le_nat_alt room_def zero_enat_def)
qed



definition send_avail :: "'a mpmc \<times> bool \<Rightarrow> enat" where
  "send_avail p = (if snd p then \<infinity> else room (fst p))"

definition urecv_avail :: "nat \<Rightarrow> 'a sq \<times> bool \<Rightarrow> enat" where
  "urecv_avail N p = (if snd p then \<infinity> else enat (length (sq_contents N (fst p))))"

lemma act_spec_fst:
  assumes "mp_inv (fst p)"
  shows "mp_inv (fst (fst (push_act v p)))" "snd (fst (push_act v p)) = snd p" "mp_inv (fst (fst (pop_act p)))" "snd (fst (pop_act p)) = snd p"
  using push_act_spec [OF assms prod.collapse [symmetric], of v] pop_act_spec [OF assms prod.collapse [symmetric]] by simp_all

lemma push_act_change:
  assumes "mp_inv (fst p)"
  shows "snd (push_act v p) \<Longrightarrow> filled (fst (fst (push_act v p))) = filled (fst p) + 1 \<and> room (fst (fst (push_act v p))) + 1 = room (fst p)"
    "\<not> snd (push_act v p) \<Longrightarrow> fst (push_act v p) = p \<and> room (fst p) = 0"
  using push_act_spec [OF assms prod.collapse [symmetric], of v] by simp_all

lemma pop_act_change:
  assumes "mp_inv (fst p)"
  shows "snd (pop_act p) \<Longrightarrow> filled (fst (fst (pop_act p))) + 1 = filled (fst p) \<and> room (fst (fst (pop_act p))) = room (fst p) + 1"
    "\<not> snd (pop_act p) \<Longrightarrow> fst (pop_act p) = p \<and> filled (fst p) = 0"
  using pop_act_spec [OF assms prod.collapse [symmetric]] by simp_all

lemma enat_le_Suc: "x + 1 = y \<Longrightarrow> x \<le> (y :: enat)"
  by (cases x; cases y) (auto simp: one_enat_def)

lemma act_shrink:
  assumes "mp_inv (fst p)"
  shows "room (fst (fst (push_act v p))) \<le> room (fst p)" "filled (fst (fst (pop_act p))) \<le> filled (fst p)"
proof -
  show "room (fst (fst (push_act v p))) \<le> room (fst p)"
    using push_act_change [OF assms, of v] by (cases "snd (push_act v p)") (simp_all add: enat_le_Suc)
  show "filled (fst (fst (pop_act p))) \<le> filled (fst p)"
    using pop_act_change [OF assms] by (cases "snd (pop_act p)") (simp_all add: enat_le_Suc)
qed


interpretation cs: wait_prim "send_prim v" "\<lambda>p. mp_inv (fst p)" send_avail for v
proof
  fix p p' :: "'a mpmc \<times> bool" and a :: "'a chan_act" and b :: enat
  assume i: "mp_inv (fst p)"
  show "mp_inv (fst p') \<and> send_avail p' + 1 \<le> send_avail p" if "p_try (send_prim v) p = Some p'"
    using that act_spec_fst [OF i] push_act_change [OF i] i
    by (cases "snd p") (auto simp: send_prim_def send_avail_def split: if_splits)
  show "send_avail p = 0" if "p_try (send_prim v) p = None"
    using that push_act_change [OF i] by (auto simp: send_prim_def send_avail_def split: if_splits)
  show "send_avail p = 0" if "p_must_wait (send_prim v) p"
    using that must_wait_room [OF i] by (auto simp: send_prim_def send_avail_def)
  show "mp_inv (fst p') \<and> send_avail p' \<le> send_avail p + b" if "p_act (send_prim v) a p = (p', b)"
    using that act_spec_fst [OF i] push_act_change [OF i] pop_act_change [OF i] act_shrink [OF i] i
    by (cases a) (auto simp: send_prim_def send_avail_def close_act_def split: if_splits)
qed

lemma sq_empty_contents: "sq_inv N q \<Longrightarrow> sq_empty_relaxed N q \<longleftrightarrow> sq_contents N q = []"
  using sq_size_exact(2) by blast

interpretation cu: wait_prim "urecv_prim N" "\<lambda>p. sq_inv N (fst p)" "urecv_avail N" for N
proof
  fix p p' :: "'a sq \<times> bool" and a :: "'a chan_act" and b :: enat
  assume i: "sq_inv N (fst p)"
  obtain r q where d: "sq_try_dequeue N (fst p) = Some (r, q)" "sq_inv N q"
    "case r of None \<Rightarrow> sq_contents N (fst p) = [] \<and> sq_contents N q = [] | Some x \<Rightarrow> sq_contents N (fst p) = x # sq_contents N q"
    using sq_dequeue_ok [OF i] by blast
  show "sq_inv N (fst p') \<and> urecv_avail N p' + 1 \<le> urecv_avail N p" if "p_try (urecv_prim N) p = Some p'"
    using that d by (cases r) (auto simp: urecv_prim_def urecv_avail_def one_enat_def split: if_splits)
  show "urecv_avail N p = 0" if "p_try (urecv_prim N) p = None"
    using that d sq_empty_contents [OF d(2)]
    by (cases r) (auto simp: urecv_prim_def urecv_avail_def zero_enat_def split: if_splits)
  show "urecv_avail N p = 0" if "p_must_wait (urecv_prim N) p"
    using that sq_empty_contents [OF i] by (auto simp: urecv_prim_def urecv_avail_def zero_enat_def)
  show "sq_inv N (fst p') \<and> urecv_avail N p' \<le> urecv_avail N p + b" if "p_act (urecv_prim N) a p = (p', b)"
  proof (cases a)
    case (C_push v)
    then show ?thesis using that sq_enqueue_ok [OF i, of v] by (auto simp: urecv_prim_def urecv_avail_def one_enat_def)
  next
    case C_pop
    then show ?thesis using that d by (cases r) (auto simp: urecv_prim_def urecv_avail_def zero_enat_def)
  next
    case C_close
    then show ?thesis using that i by (auto simp: urecv_prim_def urecv_avail_def close_act_def split: if_splits)
  qed
qed



text \<open>
  No sender of an \<open>AsyncChannel\<close> misses a free place or the closing of the channel: in a quiet state a
  suspended sender is in the wait list, the channel is open and its queue is full.
\<close>

theorem channel_send_no_lost_wakeup:
  fixes s :: "('a mpmc \<times> bool) wsys"
  assumes "reach (\<lambda>s. \<exists>p. mp_inv (fst p) \<and> wsys_init p s) (wstep (send_prim v) n) s" "quiet n s" "t < n" "y_pc s t = P_park"
  shows "t \<in> set (y_queue s) \<and> \<not> snd (y_prim s)
    \<and> length (mp_cells (fst (y_prim s))) \<le> length (mp_contents (fst (y_prim s)))"
  using cs.no_lost_wakeup [OF assms] by (auto simp: send_avail_def room_def zero_enat_def split: if_splits)

definition full_chan :: "nat mpmc \<times> bool" where
  "full_chan = fst (push_act 8 (fst (push_act 7 (mp_new 2, False))))"

lemma full_chan_ok: "mp_inv (fst full_chan)" "\<not> snd full_chan" "room (fst full_chan) = 0"
proof -
  have c: "unat (cq_next_pow2 2) = 2" by (simp add: cq_next_pow2_def or_shift_def word_le_nat_alt)
  have i0: "mp_inv (mp_new 2 :: nat mpmc)" and r0: "room (mp_new 2 :: nat mpmc) = enat 2"
    using mp_new_inv [of 2, where 'a = nat] by (simp_all add: room_def mp_new_def Let_def c)
  define p1 where "p1 = fst (push_act 7 (mp_new 2 :: nat mpmc, False))"
  have "snd (push_act 7 (mp_new 2 :: nat mpmc, False))" using push_act_change(2) [of "(mp_new 2 :: nat mpmc, False)" 7] i0 r0
    by (auto simp: zero_enat_def)
  then have "room (fst p1) + 1 = enat 2" using push_act_change(1) [of "(mp_new 2 :: nat mpmc, False)" 7] i0 r0 by (simp add: p1_def)
  then have r1: "room (fst p1) = enat 1" by (cases "room (fst p1)") (auto simp: one_enat_def)
  have i1: "mp_inv (fst p1)" "\<not> snd p1" using act_spec_fst(1,2) [of "(mp_new 2 :: nat mpmc, False)" 7] i0 by (auto simp: p1_def)
  show "mp_inv (fst full_chan)" "\<not> snd full_chan" using act_spec_fst(1,2) [OF i1(1), of 8] i1(2) by (auto simp: full_chan_def p1_def)
  have "snd (push_act 8 p1)" using push_act_change(2) [OF i1(1), of 8] r1 by (auto simp: zero_enat_def)
  then have "room (fst full_chan) + 1 = enat 1" using push_act_change(1) [OF i1(1), of 8] r1 by (simp add: full_chan_def p1_def)
  then show "room (fst full_chan) = 0" by (cases "room (fst full_chan)") (auto simp: one_enat_def zero_enat_def)
qed

theorem channel_send_no_lost_wakeup_witness: "0 \<in> set (y_queue (parked_state full_chan)) \<and> \<not> snd (y_prim (parked_state full_chan))"
proof -
  note ok = full_chan_ok
  have "\<not> snd (push_act 9 full_chan)" using push_act_change(1) [OF ok(1), of 9] ok(3) by auto
  then have "reach (\<lambda>s. \<exists>p. mp_inv (fst p) \<and> wsys_init p s) (wstep (send_prim 9) 1) (parked_state full_chan)"
    using ok must_wait_room [OF ok(1)] by (intro parked_state_reach) (auto simp: send_prim_def)
  from channel_send_no_lost_wakeup [OF this parked_state_quiet(1) _ parked_state_quiet(2)] show ?thesis by simp
qed

text \<open>
  No receiver of an \<open>AsyncUnboundedChannel\<close> misses a value or the closing of the channel: in a quiet state a
  suspended receiver is in the wait list, the channel is open and its segmented queue is empty.
\<close>

theorem unbounded_recv_no_lost_wakeup:
  fixes s :: "('a sq \<times> bool) wsys"
  assumes "reach (\<lambda>s. \<exists>p. sq_inv N (fst p) \<and> wsys_init p s) (wstep (urecv_prim N) n) s" "quiet n s" "t < n" "y_pc s t = P_park"
  shows "t \<in> set (y_queue s) \<and> \<not> snd (y_prim s) \<and> sq_contents N (fst (y_prim s)) = []"
  using cu.no_lost_wakeup [OF assms] by (auto simp: urecv_avail_def zero_enat_def split: if_splits)

theorem unbounded_recv_no_lost_wakeup_witness:
  "sq_contents 2 (fst (y_prim (parked_state (sq_new 2 :: nat sq, False)))) = []"
proof -
  have i: "sq_inv 2 (sq_new 2 :: nat sq)" "sq_contents 2 (sq_new 2 :: nat sq) = []" using sq_new_inv [of 2] by simp_all
  obtain q where "sq_try_dequeue 2 (sq_new 2 :: nat sq) = Some (None, q)"
    using sq_dequeue_ok [OF i(1)] i(2) by (auto split: option.splits)
  then have "reach (\<lambda>s. \<exists>p. sq_inv 2 (fst p) \<and> wsys_init p s) (wstep (urecv_prim 2) 1) (parked_state (sq_new 2 :: nat sq, False))"
    using i sq_empty_contents [OF i(1)] by (intro parked_state_reach) (auto simp: urecv_prim_def)
  from unbounded_recv_no_lost_wakeup [OF this parked_state_quiet(1) _ parked_state_quiet(2)] show ?thesis by simp
qed

end
