(* ===== verification/Socket_Header.thy ===== *)
theory Socket_Header
  imports Uvent_Prelude
begin

text \<open>
  \<open>net/SocketMetadata.h\<close> and \<open>utils/sync/RefCountedSession.h\<close>: the header every socket handle points to. The word
  \<open>state\<close> packs the reference count, the timeout epoch and flag bits; \<open>rd\<close> and \<open>wr\<close> are the wake-up words of the two
  directions. Each method is one atomic access (its compare-exchange loops retry until they succeed on the
  value they read), so it is a function on the header. \<open>reuse\<close> tells the \<open>UVENT_ENABLE_REUSEADDR\<close> build.
\<close>

unbundle bit_operations_syntax

section \<open>The header\<close>

text \<open>The members of the header; \<open>sh_closed\<close> (ghost) records the descriptors of this header that were closed.\<close>

record SocketHeader =
  sh_fd :: int
  sh_timer_id :: u64
  sh_info :: "8 word"
  sh_connect_error :: int
  sh_rd :: u64
  sh_wr :: u64
  sh_state :: u64
  sh_owner_tid :: int
  sh_tflags :: "8 word"
  sh_pending_ops :: u32
  sh_closed :: "int list"

definition Proto_TCP :: "8 word" where "Proto_TCP = 1"
definition Proto_UDP :: "8 word" where "Proto_UDP = 2"
definition Role_PASSIVE :: "8 word" where "Role_PASSIVE = 4"
definition Role_ACTIVE :: "8 word" where "Role_ACTIVE = 8"
definition CONNECTION_PENDING :: "8 word" where "CONNECTION_PENDING = 16"
definition CONNECTION_FAILED :: "8 word" where "CONNECTION_FAILED = 32"
definition INFO_TIMEOUT :: "8 word" where "INFO_TIMEOUT = 128"

definition CLOSED_MASK :: u64 where "CLOSED_MASK = push_bit 63 1"
definition BUSY_MASK :: u64 where "BUSY_MASK = push_bit 62 1"
definition READING_MASK :: u64 where "READING_MASK = push_bit 61 1"
definition WRITING_MASK :: u64 where "WRITING_MASK = push_bit 60 1"
definition DISCONNECTED_MASK :: u64 where "DISCONNECTED_MASK = push_bit 59 1"
definition COUNT_MASK :: u64 where "COUNT_MASK = push_bit 40 1 - 1"
definition TIMEOUT_EPOCH_STEP :: u64 where "TIMEOUT_EPOCH_STEP = push_bit 40 1"
definition TIMEOUT_EPOCH_MASK :: u64 where "TIMEOUT_EPOCH_MASK = push_bit 40 (push_bit 16 1 - 1)"
definition READY :: u64 where "READY = 1"

section \<open>Flags, count and epoch\<close>

definition decrease_ref :: "SocketHeader \<Rightarrow> SocketHeader" where
  "decrease_ref h = h\<lparr>sh_state := sh_state h - 1\<rparr>"

definition close_for_new_refs :: "SocketHeader \<Rightarrow> SocketHeader" where
  "close_for_new_refs h = h\<lparr>sh_state := sh_state h OR CLOSED_MASK\<rparr>"

definition try_mark_busy :: "SocketHeader \<Rightarrow> bool \<times> SocketHeader" where
  "try_mark_busy h = (if sh_state h AND (CLOSED_MASK OR DISCONNECTED_MASK OR BUSY_MASK) \<noteq> 0 then (False, h)
     else (True, h\<lparr>sh_state := sh_state h OR BUSY_MASK\<rparr>))"

definition clear_busy :: "SocketHeader \<Rightarrow> SocketHeader" where
  "clear_busy h = h\<lparr>sh_state := sh_state h AND NOT BUSY_MASK\<rparr>"

definition is_busy_now :: "SocketHeader \<Rightarrow> bool" where
  "is_busy_now h \<longleftrightarrow> sh_state h AND BUSY_MASK \<noteq> 0"

definition try_mark_reading :: "bool \<Rightarrow> SocketHeader \<Rightarrow> bool \<times> SocketHeader" where
  "try_mark_reading reuse h = (if \<not> reuse \<and> sh_state h AND CLOSED_MASK \<noteq> 0 then (False, h)
     else (True, h\<lparr>sh_state := sh_state h OR READING_MASK\<rparr>))"

definition clear_reading :: "SocketHeader \<Rightarrow> SocketHeader" where
  "clear_reading h = h\<lparr>sh_state := sh_state h AND NOT READING_MASK\<rparr>"

definition is_reading_now :: "SocketHeader \<Rightarrow> bool" where
  "is_reading_now h \<longleftrightarrow> sh_state h AND READING_MASK \<noteq> 0"

definition try_mark_writing :: "bool \<Rightarrow> SocketHeader \<Rightarrow> bool \<times> SocketHeader" where
  "try_mark_writing reuse h = (if \<not> reuse \<and> sh_state h AND CLOSED_MASK \<noteq> 0 then (False, h)
     else (True, h\<lparr>sh_state := sh_state h OR WRITING_MASK\<rparr>))"

definition clear_writing :: "SocketHeader \<Rightarrow> SocketHeader" where
  "clear_writing h = h\<lparr>sh_state := sh_state h AND NOT WRITING_MASK\<rparr>"

definition is_writing_now :: "SocketHeader \<Rightarrow> bool" where
  "is_writing_now h \<longleftrightarrow> sh_state h AND WRITING_MASK \<noteq> 0"

definition mark_disconnected :: "SocketHeader \<Rightarrow> SocketHeader" where
  "mark_disconnected h = h\<lparr>sh_state := sh_state h OR DISCONNECTED_MASK\<rparr>"

definition is_disconnected_now :: "SocketHeader \<Rightarrow> bool" where
  "is_disconnected_now h \<longleftrightarrow> sh_state h AND DISCONNECTED_MASK \<noteq> 0"

definition timeout_epoch_load :: "SocketHeader \<Rightarrow> u64" where
  "timeout_epoch_load h = sh_state h AND TIMEOUT_EPOCH_MASK"

definition timeout_epoch_bump :: "SocketHeader \<Rightarrow> SocketHeader" where
  "timeout_epoch_bump h = h\<lparr>sh_state := sh_state h + TIMEOUT_EPOCH_STEP\<rparr>"

definition timeout_epoch_changed :: "u64 \<Rightarrow> SocketHeader \<Rightarrow> bool" where
  "timeout_epoch_changed snap h \<longleftrightarrow> sh_state h AND TIMEOUT_EPOCH_MASK \<noteq> snap"

definition is_done_client_coroutine_with_timeout :: "SocketHeader \<Rightarrow> bool" where
  "is_done_client_coroutine_with_timeout h \<longleftrightarrow> sh_state h AND COUNT_MASK = 1"

definition get_counter :: "SocketHeader \<Rightarrow> u64" where
  "get_counter h = sh_state h AND COUNT_MASK"

definition is_tcp :: "SocketHeader \<Rightarrow> bool" where
  "is_tcp h \<longleftrightarrow> sh_info h AND Proto_TCP \<noteq> 0"

definition is_passive :: "SocketHeader \<Rightarrow> bool" where
  "is_passive h \<longleftrightarrow> sh_info h AND Role_PASSIVE \<noteq> 0"

text \<open>\<open>RefCounted\<close>: \<open>release\<close> tells whether it dropped the last reference and calls \<open>destroy\<close>.\<close>

definition try_add_ref :: "SocketHeader \<Rightarrow> bool \<times> SocketHeader" where
  "try_add_ref h = (let s = sh_state h in
     if s AND CLOSED_MASK \<noteq> 0 then (False, h)
     else if s AND COUNT_MASK = COUNT_MASK then (False, h)
     else (True, h\<lparr>sh_state := (s AND NOT COUNT_MASK) OR ((s AND COUNT_MASK) + 1)\<rparr>))"

definition add_ref :: "SocketHeader \<Rightarrow> SocketHeader" where
  "add_ref h = h\<lparr>sh_state := sh_state h + 1\<rparr>"

definition release :: "SocketHeader \<Rightarrow> bool \<times> SocketHeader" where
  "release h = (sh_state h AND COUNT_MASK = 1, h\<lparr>sh_state := sh_state h - 1\<rparr>)"

section \<open>The wake-up words\<close>

definition handle_of :: "u64 \<Rightarrow> u64 option" where
  "handle_of w = (if w AND NOT READY \<noteq> 0 then Some (w AND NOT READY) else None)"

definition fire_read :: "SocketHeader \<Rightarrow> u64 option \<times> SocketHeader" where
  "fire_read h = (handle_of (sh_rd h), h\<lparr>sh_rd := READY\<rparr>)"

definition fire_write :: "SocketHeader \<Rightarrow> u64 option \<times> SocketHeader" where
  "fire_write h = (handle_of (sh_wr h), h\<lparr>sh_wr := READY\<rparr>)"

definition take_read_waiter :: "SocketHeader \<Rightarrow> u64 option \<times> SocketHeader" where
  "take_read_waiter h = (handle_of (sh_rd h), h\<lparr>sh_rd := 0\<rparr>)"

definition take_write_waiter :: "SocketHeader \<Rightarrow> u64 option \<times> SocketHeader" where
  "take_write_waiter h = (handle_of (sh_wr h), h\<lparr>sh_wr := 0\<rparr>)"

definition park :: "u64 \<Rightarrow> u64 \<Rightarrow> bool \<times> u64" where
  "park me cur = (if cur AND READY \<noteq> 0 then (False, 0) else if cur = 0 then (True, me) else (True, cur))"

definition park_read :: "u64 \<Rightarrow> SocketHeader \<Rightarrow> bool \<times> SocketHeader" where
  "park_read me h = (case park me (sh_rd h) of (b, w) \<Rightarrow> (b, h\<lparr>sh_rd := w\<rparr>))"

definition park_write :: "u64 \<Rightarrow> SocketHeader \<Rightarrow> bool \<times> SocketHeader" where
  "park_write me h = (case park me (sh_wr h) of (b, w) \<Rightarrow> (b, h\<lparr>sh_wr := w\<rparr>))"

definition unpark_read :: "u64 \<Rightarrow> SocketHeader \<Rightarrow> bool \<times> SocketHeader" where
  "unpark_read me h = (if sh_rd h = me then (True, h\<lparr>sh_rd := 0\<rparr>) else (False, h))"

definition unpark_write :: "u64 \<Rightarrow> SocketHeader \<Rightarrow> bool \<times> SocketHeader" where
  "unpark_write me h = (if sh_wr h = me then (True, h\<lparr>sh_wr := 0\<rparr>) else (False, h))"

definition is_read_armed :: "SocketHeader \<Rightarrow> bool" where
  "is_read_armed h \<longleftrightarrow> sh_rd h AND READY \<noteq> 0"

definition is_write_armed :: "SocketHeader \<Rightarrow> bool" where
  "is_write_armed h \<longleftrightarrow> sh_wr h AND READY \<noteq> 0"

definition disarm_read :: "SocketHeader \<Rightarrow> SocketHeader" where
  "disarm_read h = (if sh_rd h = READY then h\<lparr>sh_rd := 0\<rparr> else h)"

definition disarm_write :: "SocketHeader \<Rightarrow> SocketHeader" where
  "disarm_write h = (if sh_wr h = READY then h\<lparr>sh_wr := 0\<rparr> else h)"

section \<open>The state word as a record of independent fields\<close>

text \<open>
  What the packed word stands for, as \<open>RefCountedSession.h\<close> lays it out: the count in bits 0 to 39, the timeout epoch in
  the 16 bits 40 to 55, and flags from bit 56 on (\<open>READ_PENDING\<close> is bit 58, \<open>WRITE_PENDING\<close> is bit 57).
\<close>

record hstate =
  hs_count :: nat
  hs_epoch :: nat
  hs_flag :: "nat \<Rightarrow> bool"

definition decode_state :: "u64 \<Rightarrow> hstate" where
  "decode_state s = \<lparr>hs_count = unat s mod 2 ^ 40, hs_epoch = unat s div 2 ^ 40 mod 2 ^ 16,
     hs_flag = (\<lambda>i. 56 \<le> i \<and> i < 64 \<and> bit s i)\<rparr>"

lemma div_mod_Suc: "n mod m + 1 < m \<Longrightarrow> (n + 1) mod m = n mod m + 1 \<and> (n + 1) div m = n div (m :: nat)"
  by (simp add: mod_Suc div_Suc)

lemma div_mod_pred: "0 < n mod m \<Longrightarrow> (n - 1) mod m = n mod m - 1 \<and> (n - 1) div m = n div (m :: nat)"
  by (cases n) (auto simp: mod_Suc div_Suc split: if_splits)

lemma Suc_below_mult:
  assumes "n < m * k" "n mod m + 1 < (m :: nat)"
  shows "n + 1 < m * k"
proof -
  have "n div m < k" using assms(1) by (simp add: less_mult_imp_div_less mult.commute)
  then have "(n + 1) div m < k" using div_mod_Suc [OF assms(2)] by simp
  then show ?thesis using assms(2) by (simp add: div_less_iff_less_mult mult.commute)
qed

lemma power_split: "k \<le> i \<Longrightarrow> (2::nat) ^ i = 2 ^ k * 2 ^ (i - k)"
  by (simp flip: power_add)

definition fields :: "nat \<Rightarrow> nat \<Rightarrow> hstate" where
  "fields c q = \<lparr>hs_count = c, hs_epoch = q mod 2 ^ 16, hs_flag = (\<lambda>i. 56 \<le> i \<and> i < 64 \<and> odd (q div 2 ^ (i - 40)))\<rparr>"

lemma bit_u64_odd: "bit (s :: u64) i \<longleftrightarrow> i < 64 \<and> odd (unat s div 2 ^ i)"
proof -
  have "bit (unat s) i \<longleftrightarrow> i < 64 \<and> bit s i" by (auto simp: bit_unsigned_iff dest: bit_imp_le_length)
  then show ?thesis using bit_imp_le_length [of s i] by (auto simp: bit_iff_odd [of "unat s"])
qed

lemma decode_fields: "decode_state s = fields (unat s mod 2 ^ 40) (unat s div 2 ^ 40)"
proof -
  have "unat s div 2 ^ i = unat s div 2 ^ 40 div 2 ^ (i - 40)" if "56 \<le> i" for i
    using that power_split [of 40 i] div_mult2_eq [of "unat s" "2 ^ 40" "2 ^ (i - 40)"] by simp
  then show ?thesis by (auto simp: decode_state_def fields_def bit_u64_odd fun_eq_iff)
qed

lemma fields_epoch_Suc:
  assumes "q mod 2 ^ 16 + 1 < 2 ^ 16"
  shows "fields c (q + 1) = (fields c q)\<lparr>hs_epoch := hs_epoch (fields c q) + 1\<rparr>"
proof -
  have m: "(q + 1) mod 2 ^ 16 = q mod 2 ^ 16 + 1" and d: "(q + 1) div 2 ^ 16 = q div 2 ^ 16" using div_mod_Suc [OF assms] by blast+
  have "(q + 1) div 2 ^ (i - 40) = q div 2 ^ (i - 40)" if "56 \<le> i" for i
  proof -
    have "(2::nat) ^ (i - 40) = 2 ^ 16 * 2 ^ (i - 56)" using that power_split [of 16 "i - 40"] by (simp add: diff_diff_add)
    then show ?thesis using d by (simp only: div_mult2_eq)
  qed
  then show ?thesis unfolding fields_def m by (auto simp: fun_eq_iff)
qed

lemma unat_u64_lt: "unat (s :: u64) < 2 ^ 64"
  using unsigned_less [of s, where 'a = nat] by simp

lemma decode_inc:
  assumes "hs_count (decode_state s) + 1 < 2 ^ 40"
  shows "decode_state (s + 1) = (decode_state s)\<lparr>hs_count := hs_count (decode_state s) + 1\<rparr>"
proof -
  have c: "unat s mod 2 ^ 40 + 1 < 2 ^ 40" using assms by (simp add: decode_state_def)
  moreover have "unat s < 2 ^ 40 * 2 ^ 24" using unat_u64_lt [of s] by simp
  ultimately have "unat s + 1 < 2 ^ 40 * 2 ^ 24" using Suc_below_mult by blast
  then have u: "unat (s + 1) = unat s + 1" by (simp add: unat_word_ariths(1))
  show ?thesis unfolding decode_fields u using div_mod_Suc [OF c] by (simp add: fields_def)
qed

lemma decode_dec:
  assumes "0 < hs_count (decode_state s)"
  shows "decode_state (s - 1) = (decode_state s)\<lparr>hs_count := hs_count (decode_state s) - 1\<rparr>"
proof -
  have c: "0 < unat s mod 2 ^ 40" using assms by (simp add: decode_state_def)
  then have "1 \<le> unat s" by (metis One_nat_def Suc_leI mod_0 neq0_conv)
  then have u: "unat (s - 1) = unat s - 1" by (simp add: unat_sub word_le_nat_alt)
  show ?thesis unfolding decode_fields u using div_mod_pred [OF c] by (simp add: fields_def)
qed

lemma decode_bump:
  assumes "hs_epoch (decode_state s) + 1 < 2 ^ 16"
  shows "decode_state (s + TIMEOUT_EPOCH_STEP) = (decode_state s)\<lparr>hs_epoch := hs_epoch (decode_state s) + 1\<rparr>"
proof -
  have c: "unat s div 2 ^ 40 mod 2 ^ 16 + 1 < 2 ^ 16" using assms by (simp add: decode_state_def)
  moreover have "unat s div 2 ^ 40 < 2 ^ 16 * 2 ^ 8" using unat_u64_lt [of s] by (simp add: div_less_iff_less_mult)
  ultimately have "unat s div 2 ^ 40 + 1 < 2 ^ 16 * 2 ^ 8" using Suc_below_mult by blast
  then have lt: "unat s + 2 ^ 40 < 2 ^ 64" by (simp add: div_less_iff_less_mult)
  have "unat TIMEOUT_EPOCH_STEP = 2 ^ 40" by (simp add: TIMEOUT_EPOCH_STEP_def)
  then have u: "unat (s + TIMEOUT_EPOCH_STEP) = unat s + 2 ^ 40" using lt by (simp add: unat_word_ariths(1))
  have "(unat s + 2 ^ 40) mod 2 ^ 40 = unat s mod 2 ^ 40" "(unat s + 2 ^ 40) div 2 ^ 40 = unat s div 2 ^ 40 + 1" by simp_all
  then show ?thesis unfolding decode_fields u using fields_epoch_Suc [OF c] by simp
qed

definition set_flag :: "nat \<Rightarrow> bool \<Rightarrow> hstate \<Rightarrow> hstate" where
  "set_flag i b a = a\<lparr>hs_flag := (hs_flag a)(i := b)\<rparr>"

lemma bit_flag_mask: "bit (2 ^ i :: u64) j \<longleftrightarrow> j = i \<and> i < 64"
  by (auto simp: bit_exp_iff)

lemma low_bits_eq:
  assumes "\<And>j. j < 56 \<Longrightarrow> bit (s :: u64) j \<longleftrightarrow> bit t j"
  shows "unat s mod 2 ^ 40 = unat t mod 2 ^ 40" "unat s div 2 ^ 40 mod 2 ^ 16 = unat t div 2 ^ 40 mod 2 ^ 16"
proof -
  have b: "bit (unat s) j \<longleftrightarrow> bit (unat t) j" if "j < 56" for j using assms [OF that] by (simp add: bit_unsigned_iff)
  have "take_bit 40 (unat s) = take_bit 40 (unat t)" by (rule bit_eqI) (use b in \<open>auto simp: bit_take_bit_iff\<close>)
  then show "unat s mod 2 ^ 40 = unat t mod 2 ^ 40" by (simp add: take_bit_eq_mod)
  have "take_bit 16 (drop_bit 40 (unat s)) = take_bit 16 (drop_bit 40 (unat t))"
    by (rule bit_eqI) (use b in \<open>auto simp: bit_take_bit_iff bit_drop_bit_eq\<close>)
  then show "unat s div 2 ^ 40 mod 2 ^ 16 = unat t div 2 ^ 40 mod 2 ^ 16" by (simp add: take_bit_eq_mod drop_bit_eq_div)
qed

lemma decode_flag:
  assumes "56 \<le> i" "i < 64"
  shows "decode_state (s OR 2 ^ i) = set_flag i True (decode_state s)"
    "decode_state (s AND NOT (2 ^ i)) = set_flag i False (decode_state s)"
proof -
  have o: "bit (s OR 2 ^ i) j \<longleftrightarrow> bit s j \<or> j = i" for j using assms by (simp add: bit_or_iff bit_flag_mask)
  have a: "bit (s AND NOT (2 ^ i)) j \<longleftrightarrow> bit s j \<and> j \<noteq> i" for j
    using assms by (auto simp: bit_and_iff bit_not_iff bit_flag_mask dest: bit_imp_le_length)
  show "decode_state (s OR 2 ^ i) = set_flag i True (decode_state s)"
    using low_bits_eq [of "s OR 2 ^ i" s] assms by (auto simp: decode_state_def set_flag_def o fun_eq_iff)
  show "decode_state (s AND NOT (2 ^ i)) = set_flag i False (decode_state s)"
    using low_bits_eq [of "s AND NOT (2 ^ i)" s] assms by (auto simp: decode_state_def set_flag_def a fun_eq_iff)
qed

lemma flag_test:
  assumes "56 \<le> i" "i < 64"
  shows "s AND 2 ^ i \<noteq> 0 \<longleftrightarrow> hs_flag (decode_state s) i"
proof -
  have "s AND 2 ^ i \<noteq> 0 \<longleftrightarrow> (\<exists>j. bit (s AND 2 ^ i) j)" by (metis bit_0_eq bit_eqI bot_apply bot_bool_def)
  also have "\<dots> \<longleftrightarrow> bit s i" using assms by (auto simp: bit_and_iff bit_flag_mask)
  finally show ?thesis using assms by (simp add: decode_state_def)
qed

lemma count_mask: "unat (s AND COUNT_MASK) = hs_count (decode_state s)"
proof -
  have "COUNT_MASK = mask 40" by (simp add: COUNT_MASK_def mask_eq_exp_minus_1)
  then have "s AND COUNT_MASK = take_bit 40 s" by (simp add: take_bit_eq_mask)
  then have "unat (s AND COUNT_MASK) = take_bit 40 (unat s)" by (simp only: unsigned_take_bit_eq)
  then show ?thesis by (simp add: decode_state_def take_bit_eq_mod)
qed

lemma flag_masks:
  "CLOSED_MASK = 2 ^ 63" "BUSY_MASK = 2 ^ 62" "READING_MASK = 2 ^ 61" "WRITING_MASK = 2 ^ 60" "DISCONNECTED_MASK = 2 ^ 59"
  by (simp_all add: CLOSED_MASK_def BUSY_MASK_def READING_MASK_def WRITING_MASK_def DISCONNECTED_MASK_def)

text \<open>The guarded increment of \<open>try_add_ref\<close> rebuilds the word from its two parts; the result is the word plus one.\<close>

lemma guarded_inc:
  fixes s :: u64
  assumes "unat (s AND COUNT_MASK) + 1 < 2 ^ 40"
  shows "(s AND NOT COUNT_MASK) OR ((s AND COUNT_MASK) + 1) = s + 1"
proof -
  let ?x = "(s AND COUNT_MASK) + 1"
  have m: "COUNT_MASK = mask 40" by (simp add: COUNT_MASK_def mask_eq_exp_minus_1)
  have "unat ?x < 2 ^ 40" using assms by (simp add: unat_word_ariths(1))
  then have x: "take_bit 40 ?x = ?x" by (simp add: word_unat_eq_iff unsigned_take_bit_eq take_bit_nat_eq_self)
  have "\<not> bit ?x j" if "40 \<le> j" for j using that by (subst x [symmetric]) (simp add: bit_take_bit_iff)
  then have "(s AND NOT COUNT_MASK) AND ?x = 0" by (intro bit_eqI) (auto simp: m bit_and_iff bit_not_iff bit_mask_iff)
  then have "(s AND NOT COUNT_MASK) OR ?x = (s AND NOT COUNT_MASK) + ?x" by (simp only: disjunctive_add_eq_or)
  also have "\<dots> = (s AND NOT COUNT_MASK) + (s AND COUNT_MASK) + 1" by simp
  also have "(s AND NOT COUNT_MASK) + (s AND COUNT_MASK) = (s AND NOT COUNT_MASK) OR (s AND COUNT_MASK)"
    by (intro disjunctive_add_eq_or bit_eqI) (auto simp: bit_and_iff bit_not_iff)
  also have "\<dots> = s" by (intro bit_eqI) (auto simp: bit_and_iff bit_or_iff bit_not_iff dest: bit_imp_le_length)
  finally show ?thesis .
qed

datatype h_op = H_add_ref | H_try_add_ref | H_release | H_close | H_mark_busy | H_clear_busy | H_mark_reading | H_clear_reading
  | H_mark_writing | H_clear_writing | H_disconnect | H_bump

fun h_exec :: "bool \<Rightarrow> h_op \<Rightarrow> SocketHeader \<Rightarrow> bool \<times> SocketHeader" where
  "h_exec reuse H_add_ref h = (True, add_ref h)"
| "h_exec reuse H_try_add_ref h = try_add_ref h"
| "h_exec reuse H_release h = release h"
| "h_exec reuse H_close h = (True, close_for_new_refs h)"
| "h_exec reuse H_mark_busy h = try_mark_busy h"
| "h_exec reuse H_clear_busy h = (True, clear_busy h)"
| "h_exec reuse H_mark_reading h = try_mark_reading reuse h"
| "h_exec reuse H_clear_reading h = (True, clear_reading h)"
| "h_exec reuse H_mark_writing h = try_mark_writing reuse h"
| "h_exec reuse H_clear_writing h = (True, clear_writing h)"
| "h_exec reuse H_disconnect h = (True, mark_disconnected h)"
| "h_exec reuse H_bump h = (True, timeout_epoch_bump h)"

text \<open>What the operations mean on the fields; flags 63 to 59 are closed, busy, reading, writing, disconnected.\<close>

fun a_hexec :: "bool \<Rightarrow> h_op \<Rightarrow> hstate \<Rightarrow> bool \<times> hstate" where
  "a_hexec reuse H_add_ref a = (True, a\<lparr>hs_count := hs_count a + 1\<rparr>)"
| "a_hexec reuse H_try_add_ref a = (if hs_flag a 63 \<or> hs_count a = 2 ^ 40 - 1 then (False, a) else (True, a\<lparr>hs_count := hs_count a + 1\<rparr>))"
| "a_hexec reuse H_release a = (hs_count a = 1, a\<lparr>hs_count := hs_count a - 1\<rparr>)"
| "a_hexec reuse H_close a = (True, set_flag 63 True a)"
| "a_hexec reuse H_mark_busy a = (if hs_flag a 63 \<or> hs_flag a 59 \<or> hs_flag a 62 then (False, a) else (True, set_flag 62 True a))"
| "a_hexec reuse H_clear_busy a = (True, set_flag 62 False a)"
| "a_hexec reuse H_mark_reading a = (if \<not> reuse \<and> hs_flag a 63 then (False, a) else (True, set_flag 61 True a))"
| "a_hexec reuse H_clear_reading a = (True, set_flag 61 False a)"
| "a_hexec reuse H_mark_writing a = (if \<not> reuse \<and> hs_flag a 63 then (False, a) else (True, set_flag 60 True a))"
| "a_hexec reuse H_clear_writing a = (True, set_flag 60 False a)"
| "a_hexec reuse H_disconnect a = (True, set_flag 59 True a)"
| "a_hexec reuse H_bump a = (True, a\<lparr>hs_epoch := hs_epoch a + 1\<rparr>)"

fun a_hlegal :: "h_op \<Rightarrow> hstate \<Rightarrow> bool" where
  "a_hlegal H_add_ref a \<longleftrightarrow> hs_count a + 1 < 2 ^ 40"
| "a_hlegal H_release a \<longleftrightarrow> 0 < hs_count a"
| "a_hlegal H_bump a \<longleftrightarrow> hs_epoch a + 1 < 2 ^ 16"
| "a_hlegal x a \<longleftrightarrow> True"

lemma or_flags_test:
  assumes "56 \<le> i" "i < 64" "56 \<le> j" "j < 64" "56 \<le> k" "k < 64"
  shows "s AND (2 ^ i OR 2 ^ j OR 2 ^ k) \<noteq> (0 :: u64) \<longleftrightarrow> hs_flag (decode_state s) i \<or> hs_flag (decode_state s) j \<or> hs_flag (decode_state s) k"
proof -
  have "s AND (2 ^ i OR 2 ^ j OR 2 ^ k) = (s AND 2 ^ i) OR (s AND 2 ^ j) OR (s AND 2 ^ k)"
    by (simp only: bit.conj_disj_distrib)
  then show ?thesis using flag_test [of i s] flag_test [of j s] flag_test [of k s] assms by (simp add: or_eq_0_iff)
qed

lemma h_exec_fields:
  assumes "a_hlegal x (decode_state (sh_state h))"
  shows "fst (h_exec reuse x h) = fst (a_hexec reuse x (decode_state (sh_state h)))"
    "decode_state (sh_state (snd (h_exec reuse x h))) = snd (a_hexec reuse x (decode_state (sh_state h)))"
proof -
  have one: "(sh_state h AND COUNT_MASK = 1) = (hs_count (decode_state (sh_state h)) = 1)"
    using count_mask [of "sh_state h"] by (metis unat_1 word_unat_eq_iff)
  have full: "(sh_state h AND COUNT_MASK = COUNT_MASK) = (hs_count (decode_state (sh_state h)) = 2 ^ 40 - 1)"
  proof -
    have "unat COUNT_MASK = 2 ^ 40 - 1" by (simp add: COUNT_MASK_def)
    then show ?thesis using count_mask [of "sh_state h"] by (metis word_unat_eq_iff)
  qed
  have lt: "hs_count (decode_state (sh_state h)) < 2 ^ 40" by (simp add: decode_state_def)
  have ti: "sh_state (snd (try_add_ref h)) = sh_state h + 1" if "fst (try_add_ref h)"
    using that guarded_inc [of "sh_state h"] full count_mask [of "sh_state h"] lt
    by (auto simp: try_add_ref_def Let_def split: if_splits)
  note flags = flag_test decode_flag or_flags_test
  show "fst (h_exec reuse x h) = fst (a_hexec reuse x (decode_state (sh_state h)))"
    by (cases x) (simp_all add: try_add_ref_def release_def try_mark_busy_def try_mark_reading_def try_mark_writing_def
      Let_def one full flag_masks flags del: power_numeral power_Suc)
  show "decode_state (sh_state (snd (h_exec reuse x h))) = snd (a_hexec reuse x (decode_state (sh_state h)))"
  proof (cases x)
    case H_try_add_ref
    show ?thesis
    proof (cases "fst (try_add_ref h)")
      case True
      then have nf: "\<not> hs_flag (decode_state (sh_state h)) 63" "hs_count (decode_state (sh_state h)) \<noteq> 2 ^ 40 - 1"
        using full by (auto simp: try_add_ref_def Let_def flag_masks flags split: if_splits simp del: power_numeral power_Suc)
      then have "hs_count (decode_state (sh_state h)) + 1 < 2 ^ 40" using lt by linarith
      then show ?thesis using H_try_add_ref ti [OF True] decode_inc [of "sh_state h"] nf by simp
    next
      case False
      then have "snd (try_add_ref h) = h" "hs_flag (decode_state (sh_state h)) 63 \<or> hs_count (decode_state (sh_state h)) = 2 ^ 40 - 1"
        using full by (auto simp: try_add_ref_def Let_def flag_masks flags split: if_splits simp del: power_numeral power_Suc)
      then show ?thesis using H_try_add_ref by auto
    qed
  qed (use assms in \<open>simp_all add: decode_inc decode_dec decode_bump add_ref_def release_def timeout_epoch_bump_def close_for_new_refs_def
      clear_busy_def clear_reading_def clear_writing_def mark_disconnected_def try_mark_busy_def try_mark_reading_def try_mark_writing_def
      flag_masks flags del: power_numeral power_Suc\<close>)
qed

fun h_run :: "bool \<Rightarrow> h_op list \<Rightarrow> SocketHeader \<Rightarrow> bool list \<times> SocketHeader" where
  "h_run reuse [] h = ([], h)"
| "h_run reuse (x # ops) h = (case h_exec reuse x h of (r, h1) \<Rightarrow> case h_run reuse ops h1 of (rs, h2) \<Rightarrow> (r # rs, h2))"

fun a_hrun :: "bool \<Rightarrow> h_op list \<Rightarrow> hstate \<Rightarrow> bool list \<times> hstate" where
  "a_hrun reuse [] a = ([], a)"
| "a_hrun reuse (x # ops) a = (case a_hexec reuse x a of (r, a1) \<Rightarrow> case a_hrun reuse ops a1 of (rs, a2) \<Rightarrow> (r # rs, a2))"

fun a_hlegal_run :: "bool \<Rightarrow> h_op list \<Rightarrow> hstate \<Rightarrow> bool" where
  "a_hlegal_run reuse [] a \<longleftrightarrow> True"
| "a_hlegal_run reuse (x # ops) a \<longleftrightarrow> a_hlegal x a \<and> a_hlegal_run reuse ops (snd (a_hexec reuse x a))"

section \<open>Properties\<close>

text \<open>
  C18. The packed \<open>state\<close> word of a socket header behaves as a record of independent fields: under any sequence of
  reference, flag and epoch operations each operation answers and acts on its own field only, the count is
  never disturbed by flags or epochs, and \<open>release\<close> reports the last reference exactly when the count goes from
  one to zero. This holds within the fields: while the count stays below \<open>2 ^ 40\<close>, no reference is released that is not
  held, and the 16-bit epoch is bumped fewer than \<open>2 ^ 16\<close> times (\<open>timeout_epoch_bump\<close> adds without a mask, so the next
  bump carries into the flag bits).
\<close>

theorem header_word_refines:
  assumes "a_hlegal_run reuse ops (decode_state (sh_state h))"
  shows "fst (h_run reuse ops h) = fst (a_hrun reuse ops (decode_state (sh_state h)))
    \<and> decode_state (sh_state (snd (h_run reuse ops h))) = snd (a_hrun reuse ops (decode_state (sh_state h)))"
  using assms
proof (induction ops arbitrary: h)
  case (Cons x ops)
  obtain r h1 where x: "h_exec reuse x h = (r, h1)" by (cases "h_exec reuse x h")
  have l: "a_hlegal x (decode_state (sh_state h))" using Cons.prems by simp
  have "r = fst (a_hexec reuse x (decode_state (sh_state h)))" "decode_state (sh_state h1) = snd (a_hexec reuse x (decode_state (sh_state h)))"
    using h_exec_fields [OF l, of reuse] x by auto
  then show ?case using Cons.IH [of h1] Cons.prems x by (auto split: prod.splits)
qed simp

definition demo_header :: SocketHeader where
  "demo_header = \<lparr>sh_fd = 7, sh_timer_id = 0, sh_info = Proto_TCP OR Role_ACTIVE, sh_connect_error = 0, sh_rd = 0, sh_wr = 0,
     sh_state = 1, sh_owner_tid = - 1, sh_tflags = 0, sh_pending_ops = 0, sh_closed = []\<rparr>"

lemma decode_1: "decode_state 1 = \<lparr>hs_count = 1, hs_epoch = 0, hs_flag = (\<lambda>_. False)\<rparr>"
  by (auto simp: decode_state_def bit_1_iff)

theorem header_word_refines_witness:
  "fst (h_run False [H_add_ref, H_bump, H_mark_busy, H_mark_busy, H_close, H_try_add_ref, H_release, H_release] demo_header)
    = [True, True, True, False, True, False, False, True]"
proof -
  have d: "decode_state (sh_state demo_header) = \<lparr>hs_count = 1, hs_epoch = 0, hs_flag = (\<lambda>_. False)\<rparr>"
    by (simp add: demo_header_def decode_1)
  show ?thesis
    using header_word_refines [of False "[H_add_ref, H_bump, H_mark_busy, H_mark_busy, H_close, H_try_add_ref, H_release, H_release]" demo_header]
    unfolding d by (simp add: set_flag_def)
qed

text \<open>
  The epoch has no room of its own: \<open>timeout_epoch_bump\<close> adds without a mask, and after \<open>2 ^ 19\<close> bumps (one per
  successful read or write) the carry turns the \<open>DISCONNECTED\<close> flag of a connected socket on.
\<close>

theorem epoch_bump_disconnects:
  assumes "\<not> is_disconnected_now h"
  shows "is_disconnected_now ((timeout_epoch_bump ^^ (2 ^ 19)) h)"
proof -
  have st: "sh_state ((timeout_epoch_bump ^^ n) h) = sh_state h + of_nat n * TIMEOUT_EPOCH_STEP" for n
    by (induction n) (simp_all add: timeout_epoch_bump_def algebra_simps)
  have m: "(of_nat (2 ^ 19) :: u64) * TIMEOUT_EPOCH_STEP = 2 ^ 59" by (simp add: TIMEOUT_EPOCH_STEP_def)
  have b: "\<not> bit (sh_state h) 59" using assms flag_test [of 59 "sh_state h"]
    by (simp add: is_disconnected_now_def flag_masks decode_state_def del: power_numeral)
  then have "sh_state h AND 2 ^ 59 = 0" using flag_test [of 59 "sh_state h"] by (simp add: decode_state_def del: power_numeral)
  then have "sh_state h + 2 ^ 59 = sh_state h OR 2 ^ 59" by (rule disjunctive_add_eq_or)
  then have "sh_state ((timeout_epoch_bump ^^ (2 ^ 19)) h) = sh_state h OR 2 ^ 59" using st [of "2 ^ 19"] m by (simp only:)
  then show ?thesis using flag_test [of 59 "sh_state h OR 2 ^ 59"] decode_flag(1) [of 59 "sh_state h"]
    by (simp add: is_disconnected_now_def flag_masks set_flag_def del: power_numeral funpow.simps)
qed

theorem epoch_bump_disconnects_witness: "is_disconnected_now ((timeout_epoch_bump ^^ (2 ^ 19)) demo_header)"
proof -
  have "\<not> is_disconnected_now demo_header" by (simp add: is_disconnected_now_def demo_header_def DISCONNECTED_MASK_def)
  from epoch_bump_disconnects [OF this] show ?thesis .
qed

end
