(* ===== verification/Socket_Wakeup.thy ===== *)
theory Socket_Wakeup
  imports Socket_Header
begin

text \<open>
  How a coroutine waiting for a socket and the poller meet: \<open>EPoller::poll\<close> for one socket event
  (\<open>poll/EPoller.cpp\<close>), \<open>suspend_on\<close> and the cancel hooks (\<open>net/AwaiterOperations.cpp\<close>), and the timeout callback
  \<open>processSocketTimeout\<close> (\<open>net/SocketLinux.cpp\<close>). \<open>rstep\<close> interleaves a reader, the poller, the kernel and the
  timeout at their atomic accesses to the header.
\<close>

unbundle bit_operations_syntax

definition TIMER_CLAIMED :: "8 word" where "TIMER_CLAIMED = 1"
definition TEARDOWN_PENDING :: "8 word" where "TEARDOWN_PENDING = 2"
definition DESTROYED :: "8 word" where "DESTROYED = 4"

section \<open>The poller, suspension, cancellation and timeout\<close>

text \<open>\<open>::close(fd); fd = -1;\<close> \<dash> closing an invalid descriptor has no effect.\<close>

definition close_header_fd :: "SocketHeader \<Rightarrow> SocketHeader" where
  "close_header_fd h = h\<lparr>sh_fd := - 1, sh_closed := (if 0 \<le> sh_fd h then sh_closed h @ [sh_fd h] else sh_closed h)\<rparr>"

definition removeEvent :: "SocketHeader \<Rightarrow> SocketHeader" where
  "removeEvent h = close_header_fd h"

text \<open>The end of a pending connect: the poller reads \<open>SO_ERROR\<close> and records a failure in the header.\<close>

definition finish_connect :: "int \<Rightarrow> SocketHeader \<Rightarrow> SocketHeader" where
  "finish_connect err h = (if sh_info h AND CONNECTION_PENDING = 0 then h
     else let h1 = h\<lparr>sh_info := sh_info h AND NOT CONNECTION_PENDING\<rparr> in
       if err \<noteq> 0 then h1\<lparr>sh_connect_error := err, sh_info := sh_info h1 OR CONNECTION_FAILED\<rparr> else h1)"

definition opt_list :: "'a option \<Rightarrow> 'a list" where
  "opt_list x = (case x of None \<Rightarrow> [] | Some y \<Rightarrow> [y])"

record epoll_events =
  ev_in :: bool
  ev_out :: bool
  ev_hup :: bool

text \<open>One event of \<open>EPoller::poll\<close>: the coroutines handed to \<open>resume_waiter\<close>, and the header.\<close>

definition poll_socket :: "bool \<Rightarrow> epoll_events \<Rightarrow> int \<Rightarrow> SocketHeader \<Rightarrow> u64 list \<times> SocketHeader" where
  "poll_socket reuse ev so_error h =
    (if \<not> reuse \<and> (is_busy_now h \<or> is_disconnected_now h) then ([], h)
     else
       let hup = (\<not> (is_tcp h \<and> is_passive h) \<and> ev_hup ev);
           h1 = (if hup then mark_disconnected h else h);
           h2 = (if reuse then h1 else snd (try_mark_busy h1));
           (c1, h3) = (if ev_in ev then fire_read h2 else (None, h2));
           h4 = (if ev_out ev then finish_connect so_error h3 else h3);
           (c2, h5) = (if ev_out ev then fire_write h4 else (None, h4));
           h6 = (if hup then removeEvent h5 else h5)
       in (opt_list c1 @ opt_list c2, h6))"

text \<open>
  \<open>suspend_on\<close>: whether the coroutine is put straight back on the run queue, because a cancellation is pending
  (checked in the forwarding build) or a readiness hint was consumed. \<open>suspend_read\<close> and \<open>suspend_write\<close> are the part
  after \<open>clear_busy\<close>, a separate atomic access.
\<close>

definition suspend_read :: "bool \<Rightarrow> bool \<Rightarrow> u64 \<Rightarrow> SocketHeader \<Rightarrow> bool \<times> SocketHeader" where
  "suspend_read reuse cancel_pending me h = (if reuse \<and> cancel_pending then (True, h)
     else case park_read me h of (parked, h1) \<Rightarrow> (\<not> parked, h1))"

definition suspend_write :: "bool \<Rightarrow> bool \<Rightarrow> u64 \<Rightarrow> SocketHeader \<Rightarrow> bool \<times> SocketHeader" where
  "suspend_write reuse cancel_pending me h = (if reuse \<and> cancel_pending then (True, h)
     else case park_write me h of (parked, h1) \<Rightarrow> (\<not> parked, h1))"

definition suspend_on_read :: "bool \<Rightarrow> bool \<Rightarrow> u64 \<Rightarrow> SocketHeader \<Rightarrow> bool \<times> SocketHeader" where
  "suspend_on_read reuse cancel_pending me h = suspend_read reuse cancel_pending me (clear_busy h)"

definition suspend_on_write :: "bool \<Rightarrow> bool \<Rightarrow> u64 \<Rightarrow> SocketHeader \<Rightarrow> bool \<times> SocketHeader" where
  "suspend_on_write reuse cancel_pending me h = suspend_write reuse cancel_pending me (clear_busy h)"

definition cancel_socket_read :: "u64 \<Rightarrow> SocketHeader \<Rightarrow> u64 list \<times> SocketHeader" where
  "cancel_socket_read me h = (case unpark_read me h of (b, h1) \<Rightarrow> (if b then [me] else [], h1))"

definition cancel_socket_write :: "u64 \<Rightarrow> SocketHeader \<Rightarrow> u64 list \<times> SocketHeader" where
  "cancel_socket_write me h = (case unpark_write me h of (b, h1) \<Rightarrow> (if b then [me] else [], h1))"

text \<open>
  \<open>processSocketTimeout\<close>: the coroutines resumed, whether the temporary handle (\<open>from_existing\<close>) dropped the last
  reference when it went out of scope, and the header.
\<close>

definition processSocketTimeout :: "bool \<Rightarrow> SocketHeader \<Rightarrow> u64 list \<times> bool \<times> SocketHeader" where
  "processSocketTimeout reuse h =
    (if reuse then
       let prev = sh_tflags h; h0 = h\<lparr>sh_tflags := prev OR TIMER_CLAIMED\<rparr> in
       if prev AND (TIMER_CLAIMED OR TEARDOWN_PENDING) \<noteq> 0 then ([], False, h0\<lparr>sh_timer_id := 0\<rparr>)
       else
         let (r, h1) = take_read_waiter (h0\<lparr>sh_timer_id := 0\<rparr>);
             (w, h2) = take_write_waiter h1;
             h3 = removeEvent h2;
             h4 = h3\<lparr>sh_info := sh_info h3 OR INFO_TIMEOUT\<rparr>
         in (opt_list r @ opt_list w, release h4)
     else
       let h0 = h\<lparr>sh_timer_id := 0\<rparr>; expected = timeout_epoch_load h0; (b, h1) = try_mark_busy h0 in
       if \<not> b then ([], release h1)
       else if timeout_epoch_changed expected h1 then ([], release (clear_busy h1))
       else
         let (r, h2) = take_read_waiter (mark_disconnected h1);
             (w, h3) = take_write_waiter h2;
             h4 = removeEvent (clear_busy h3);
             h5 = h4\<lparr>sh_info := sh_info h4 OR INFO_TIMEOUT\<rparr>;
             rs = (if is_done_client_coroutine_with_timeout h5 then [] else opt_list r @ opt_list w)
         in (rs, release h5))"

section \<open>A reader, the poller, the kernel and the timeout\<close>

text \<open>
  The reader is at one of: before \<open>disarm_read\<close>, before the system call, after \<open>EAGAIN\<close>, between \<open>clear_busy\<close> and
  \<open>park_read\<close>, parked, on a run queue. \<open>r_avail\<close>: the kernel holds unread bytes. \<open>r_edge\<close>: an edge the poller has
  not yet fetched. \<open>r_dead\<close>: the timeout has closed the socket.
\<close>

datatype rpc = R_run | R_probe | R_again | R_suspend | R_parked | R_queued

record rsys =
  r_hdr :: SocketHeader
  r_avail :: bool
  r_edge :: bool
  r_pc :: rpc
  r_dead :: bool

definition ev_read :: epoll_events where
  "ev_read = \<lparr>ev_in = True, ev_out = False, ev_hup = False\<rparr>"

definition wake_reader :: "u64 \<Rightarrow> u64 list \<Rightarrow> rpc \<Rightarrow> rpc" where
  "wake_reader me rs l = (if me \<in> set rs then R_queued else l)"

inductive rstep :: "bool \<Rightarrow> u64 \<Rightarrow> rsys \<Rightarrow> rsys \<Rightarrow> bool" for reuse me where
  arrive: "\<not> r_dead s \<Longrightarrow> rstep reuse me s (s\<lparr>r_avail := True, r_edge := True\<rparr>)"
| poll: "r_edge s \<Longrightarrow> \<not> r_dead s \<Longrightarrow> poll_socket reuse ev_read 0 (r_hdr s) = (rs, h) \<Longrightarrow>
    rstep reuse me s (s\<lparr>r_hdr := h, r_edge := False, r_pc := wake_reader me rs (r_pc s)\<rparr>)"
| disarm: "r_pc s = R_run \<Longrightarrow>
    rstep reuse me s (s\<lparr>r_hdr := if is_read_armed (r_hdr s) then disarm_read (r_hdr s) else r_hdr s, r_pc := R_probe\<rparr>)"
| read_some: "r_pc s = R_probe \<Longrightarrow> r_avail s \<Longrightarrow> rstep reuse me s (s\<lparr>r_pc := R_run\<rparr>)"
| read_all: "r_pc s = R_probe \<Longrightarrow> r_avail s \<Longrightarrow> rstep reuse me s (s\<lparr>r_pc := R_run, r_avail := False\<rparr>)"
| again: "r_pc s = R_probe \<Longrightarrow> \<not> r_avail s \<Longrightarrow> rstep reuse me s (s\<lparr>r_pc := R_again\<rparr>)"
| clear: "r_pc s = R_again \<Longrightarrow> rstep reuse me s (s\<lparr>r_hdr := clear_busy (r_hdr s), r_pc := R_suspend\<rparr>)"
| suspend: "r_pc s = R_suspend \<Longrightarrow> suspend_read reuse c me (r_hdr s) = (queued, h) \<Longrightarrow>
    rstep reuse me s (s\<lparr>r_hdr := h, r_pc := if queued then R_queued else R_parked\<rparr>)"
| resume: "r_pc s = R_queued \<Longrightarrow> rstep reuse me s (s\<lparr>r_pc := R_run\<rparr>)"
| cancel: "reuse \<Longrightarrow> cancel_socket_read me (r_hdr s) = (rs, h) \<Longrightarrow> r_pc s = R_parked \<Longrightarrow>
    rstep reuse me s (s\<lparr>r_hdr := h, r_pc := wake_reader me rs (r_pc s)\<rparr>)"
| timeout: "\<not> r_dead s \<Longrightarrow> processSocketTimeout reuse (r_hdr s) = (rs, d, h) \<Longrightarrow>
    rstep reuse me s (s\<lparr>r_hdr := h, r_dead := sh_fd h = - 1, r_edge := r_edge s \<and> sh_fd h \<noteq> - 1, r_pc := wake_reader me rs (r_pc s)\<rparr>)"

definition rsys_init :: "rsys \<Rightarrow> bool" where
  "rsys_init s \<longleftrightarrow> sh_rd (r_hdr s) = 0 \<and> \<not> r_avail s \<and> \<not> r_edge s \<and> r_pc s = R_run \<and> \<not> r_dead s"

definition rsys_inv :: "u64 \<Rightarrow> rsys \<Rightarrow> bool" where
  "rsys_inv me s \<longleftrightarrow> sh_rd (r_hdr s) \<in> {0, READY, me} \<and> (sh_rd (r_hdr s) = me \<longrightarrow> r_pc s = R_parked)
     \<and> (\<not> r_dead s \<longrightarrow> (r_pc s = R_parked \<longrightarrow> sh_rd (r_hdr s) = me)
        \<and> (r_avail s \<longrightarrow> r_edge s \<or> sh_rd (r_hdr s) = READY \<or> r_pc s \<in> {R_run, R_probe, R_queued}))"

text \<open>A coroutine frame is an aligned address: never null, the \<open>READY\<close> bit clear.\<close>

definition frame_addr :: "u64 \<Rightarrow> bool" where
  "frame_addr me \<longleftrightarrow> me \<noteq> 0 \<and> me AND READY = 0"

lemma handle_of_simps:
  assumes "frame_addr me"
  shows "handle_of 0 = None" "handle_of READY = None" "handle_of me = Some me" "me \<noteq> READY" "me \<noteq> 0"
proof -
  have "me AND NOT READY = me"
  proof (rule bit_eqI)
    fix n
    have "\<not> bit (me AND READY) n" using assms by (simp add: frame_addr_def)
    then show "bit (me AND NOT READY) n \<longleftrightarrow> bit me n" by (auto simp: bit_and_iff bit_not_iff dest: bit_imp_le_length)
  qed
  then show "handle_of me = Some me" using assms by (simp add: handle_of_def frame_addr_def)
  show "handle_of 0 = None" "handle_of READY = None" by (simp_all add: handle_of_def)
  show "me \<noteq> READY" "me \<noteq> 0" using assms by (auto simp: frame_addr_def READY_def)
qed

lemma opt_list_simps [simp]: "opt_list None = []" "opt_list (Some x) = [x]"
  by (simp_all add: opt_list_def)

lemma flag_ops_rd [simp]:
  "sh_rd (mark_disconnected h) = sh_rd h" "sh_rd (snd (try_mark_busy h)) = sh_rd h" "sh_rd (clear_busy h) = sh_rd h"
  "sh_rd (snd (release h)) = sh_rd h" "sh_rd (removeEvent h) = sh_rd h" "sh_rd (finish_connect e h) = sh_rd h"
  by (simp_all add: mark_disconnected_def try_mark_busy_def clear_busy_def release_def removeEvent_def close_header_fd_def finish_connect_def Let_def)

text \<open>In the forwarding build no event is skipped: the reader parked in the word is always handed out, and the hint is left.\<close>

lemma poll_socket_reuse:
  assumes "poll_socket True ev_read so_error h = (rs, h')"
  shows "sh_rd h' = READY" "rs = opt_list (handle_of (sh_rd h))" "sh_fd h' = sh_fd h"
  using assms by (auto simp: poll_socket_def ev_read_def fire_read_def Let_def)

lemma timeout_rd_reuse:
  assumes "processSocketTimeout True h = (rs, d, h')"
  shows "(sh_rd h' = sh_rd h \<and> rs = []) \<or> (sh_rd h' = 0 \<and> sh_fd h' = - 1 \<and> (\<forall>me. handle_of (sh_rd h) = Some me \<longrightarrow> me \<in> set rs))"
  using assms by (auto simp: processSocketTimeout_def Let_def take_read_waiter_def take_write_waiter_def removeEvent_def close_header_fd_def release_def
    split: if_splits prod.splits)

lemma rsys_inv_step:
  assumes me: "frame_addr me" and i: "rsys_inv me s" and st: "rstep True me s s'"
  shows "rsys_inv me s'"
proof -
  note hs = handle_of_simps [OF me]
  have rd: "sh_rd (r_hdr s) \<in> {0, READY, me}" using i by (simp add: rsys_inv_def)
  show ?thesis using st
  proof cases
    case (poll rs h)
    then show ?thesis using i rd hs poll_socket_reuse [OF poll(4)]
      by (auto simp: rsys_inv_def wake_reader_def)
  next
    case disarm
    then show ?thesis using i hs by (auto simp: rsys_inv_def disarm_read_def is_read_armed_def READY_def)
  next
    case (suspend c queued h)
    have "me AND READY = 0" using me by (simp add: frame_addr_def)
    then show ?thesis using suspend i hs
      by (auto simp: rsys_inv_def suspend_read_def park_read_def park_def READY_def split: if_splits)
  next
    case (cancel rs h)
    then show ?thesis using i hs by (auto simp: rsys_inv_def cancel_socket_read_def unpark_read_def wake_reader_def split: if_splits)
  next
    case (timeout rs d h)
    then show ?thesis using i rd hs timeout_rd_reuse [OF timeout(3)] by (auto simp: rsys_inv_def wake_reader_def)
  qed (use i hs in \<open>auto simp: rsys_inv_def\<close>)
qed

interpretation rd: inv_system rsys_init "rstep True me" "\<lambda>s. frame_addr me \<longrightarrow> rsys_inv me s" for me
proof
  show "frame_addr me \<longrightarrow> rsys_inv me s" if "rsys_init s" for s
    using that handle_of_simps(5) [of me] by (auto simp: rsys_init_def rsys_inv_def)
  show "frame_addr me \<longrightarrow> rsys_inv me s'" if "frame_addr me \<longrightarrow> rsys_inv me s" "rstep True me s s'" for s s'
    using rsys_inv_step that by blast
qed

section \<open>Properties\<close>

text \<open>
  C13. In the forwarding build no readiness is lost between a reader and the poller, under every interleaving: a
  reader that is parked on an open socket with unread bytes always has an edge the poller still has to fetch,
  and fetching it resumes exactly this reader.
\<close>

theorem socket_read_not_lost:
  assumes "frame_addr me" "reach rsys_init (rstep True me) s" "r_pc s = R_parked" "r_avail s" "\<not> r_dead s"
  shows "r_edge s \<and> fst (poll_socket True ev_read so_error (r_hdr s)) = [me]"
proof -
  have i: "rsys_inv me s" using rd.reach_inv [OF assms(2)] assms(1) by blast
  obtain rs h where p: "poll_socket True ev_read so_error (r_hdr s) = (rs, h)" by fastforce
  show ?thesis using i assms(3-5) handle_of_simps [OF assms(1)] poll_socket_reuse(2) [OF p] p by (auto simp: rsys_inv_def)
qed

text \<open>The steps up to a parked reader, and the states they lead through.\<close>

definition idle_sys :: rsys where
  "idle_sys = \<lparr>r_hdr = demo_header, r_avail = False, r_edge = False, r_pc = R_run, r_dead = False\<rparr>"

lemma idle_reach: "reach rsys_init (rstep reuse me) idle_sys"
  by (rule reach_init) (simp add: rsys_init_def idle_sys_def demo_header_def)

lemma idle_again_reach: "reach rsys_init (rstep reuse me) (idle_sys\<lparr>r_pc := R_suspend\<rparr>)"
proof -
  have 1: "reach rsys_init (rstep reuse me) (idle_sys\<lparr>r_pc := R_probe\<rparr>)"
    using reach_step [OF idle_reach rstep.disarm [of idle_sys]] by (simp add: idle_sys_def demo_header_def is_read_armed_def)
  have 2: "reach rsys_init (rstep reuse me) (idle_sys\<lparr>r_pc := R_again\<rparr>)"
    using reach_step [OF 1 rstep.again] by (simp add: idle_sys_def)
  have c: "clear_busy demo_header = demo_header" by (simp add: clear_busy_def demo_header_def BUSY_MASK_def)
  show ?thesis using reach_step [OF 2 rstep.clear] c by (simp add: idle_sys_def)
qed

lemma reach_poll:
  assumes "reach rsys_init (rstep reuse me) s" "r_edge s" "\<not> r_dead s" "poll_socket reuse ev_read 0 h = (rs, h')" "r_hdr s = h"
    "s' = s\<lparr>r_hdr := h', r_edge := False, r_pc := wake_reader me rs (r_pc s)\<rparr>"
  shows "reach rsys_init (rstep reuse me) s'"
  unfolding assms(6) by (rule reach_step [OF assms(1) rstep.poll]) (use assms in auto)

lemma reach_suspend:
  assumes "reach rsys_init (rstep reuse me) s" "r_pc s = R_suspend" "sh_rd (r_hdr s) = 0"
    "s' = s\<lparr>r_hdr := (r_hdr s)\<lparr>sh_rd := me\<rparr>, r_pc := R_parked\<rparr>"
  shows "reach rsys_init (rstep reuse me) s'"
proof -
  have "suspend_read reuse False me (r_hdr s) = (False, (r_hdr s)\<lparr>sh_rd := me\<rparr>)"
    using assms(3) by (simp add: suspend_read_def park_read_def park_def)
  from reach_step [OF assms(1) rstep.suspend [OF assms(2) this]] show ?thesis by (simp add: assms(4))
qed

lemma parked_reach: "reach rsys_init (rstep reuse 16) (idle_sys\<lparr>r_hdr := demo_header\<lparr>sh_rd := 16\<rparr>, r_pc := R_parked\<rparr>)"
  by (rule reach_suspend [OF idle_again_reach]) (simp_all add: idle_sys_def demo_header_def)

lemma arrived_reach:
  "reach rsys_init (rstep reuse 16) (idle_sys\<lparr>r_hdr := demo_header\<lparr>sh_rd := 16\<rparr>, r_pc := R_parked, r_avail := True, r_edge := True\<rparr>)"
  using reach_step [OF parked_reach rstep.arrive] by (simp add: idle_sys_def)

theorem socket_read_not_lost_witness:
  "fst (poll_socket True ev_read 0 (demo_header\<lparr>sh_rd := 16\<rparr>)) = [16]"
  using socket_read_not_lost [OF _ arrived_reach, of 0] by (simp add: frame_addr_def READY_def idle_sys_def)

text \<open>
  In the other build the poller skips an event while the socket is busy, and edges are not repeated: after one
  wake-up a reader drains the socket, sees \<open>EAGAIN\<close>, new bytes arrive and their edge is fetched by another
  worker and dropped, and the reader parks. It sleeps with unread bytes in the kernel and no edge to come.
\<close>

theorem edge_lost_while_busy:
  "\<exists>s. reach rsys_init (rstep False 16) s \<and> r_pc s = R_parked \<and> r_avail s \<and> \<not> r_edge s \<and> \<not> r_dead s"
proof -
  let ?R = "reach rsys_init (rstep False 16)"
  define b where "b = demo_header\<lparr>sh_state := 1 OR BUSY_MASK\<rparr>"
  have busy: "is_busy_now b" by (simp add: b_def is_busy_now_def BUSY_MASK_def)
  have p: "poll_socket False ev_read 0 (demo_header\<lparr>sh_rd := 16\<rparr>) = ([16], b\<lparr>sh_rd := READY\<rparr>)"
    by (simp add: poll_socket_def ev_read_def fire_read_def handle_of_def Let_def b_def demo_header_def is_busy_now_def
      is_disconnected_now_def try_mark_busy_def flag_masks READY_def)
  define s1 where "s1 = idle_sys\<lparr>r_hdr := b\<lparr>sh_rd := READY\<rparr>, r_avail := True, r_pc := R_queued\<rparr>"
  have 1: "?R s1" by (rule reach_poll [OF arrived_reach _ _ p]) (simp_all add: s1_def idle_sys_def wake_reader_def)
  have 2: "?R (s1\<lparr>r_pc := R_run\<rparr>)" using reach_step [OF 1 rstep.resume] by (simp add: s1_def)
  have 3: "?R (s1\<lparr>r_pc := R_probe, r_hdr := b\<rparr>)"
    using reach_step [OF 2 rstep.disarm] by (simp add: s1_def idle_sys_def b_def demo_header_def is_read_armed_def disarm_read_def READY_def)
  have 4: "?R (s1\<lparr>r_pc := R_run, r_hdr := b, r_avail := False\<rparr>)"
    using reach_step [OF 3 rstep.read_all] by (simp add: s1_def idle_sys_def)
  have 5: "?R (s1\<lparr>r_pc := R_probe, r_hdr := b, r_avail := False\<rparr>)"
    using reach_step [OF 4 rstep.disarm] by (simp add: s1_def idle_sys_def b_def demo_header_def is_read_armed_def)
  have 6: "?R (s1\<lparr>r_pc := R_again, r_hdr := b, r_avail := False\<rparr>)"
    using reach_step [OF 5 rstep.again] by (simp add: s1_def idle_sys_def)
  have 7: "?R (s1\<lparr>r_pc := R_again, r_hdr := b, r_avail := True, r_edge := True\<rparr>)"
    using reach_step [OF 6 rstep.arrive] by (simp add: s1_def idle_sys_def)
  have skip: "poll_socket False ev_read 0 b = ([], b)" using busy by (simp add: poll_socket_def)
  have 8: "?R (s1\<lparr>r_pc := R_again, r_hdr := b\<rparr>)"
    by (rule reach_poll [OF 7 _ _ skip]) (simp_all add: s1_def idle_sys_def wake_reader_def)
  have 9: "?R (s1\<lparr>r_pc := R_suspend, r_hdr := clear_busy b\<rparr>)" using reach_step [OF 8 rstep.clear] by (simp add: s1_def idle_sys_def)
  have "?R (s1\<lparr>r_pc := R_parked, r_hdr := (clear_busy b)\<lparr>sh_rd := 16\<rparr>\<rparr>)"
    by (rule reach_suspend [OF 9]) (simp_all add: clear_busy_def b_def demo_header_def)
  then show ?thesis by (intro exI conjI) (assumption, simp_all add: s1_def idle_sys_def)
qed

text \<open>
  In both builds a timeout between the reader's test and its parking is lost: the callback finds nobody parked,
  closes the socket, and the reader then parks on a closed socket that no event and no timer will ever wake. (In the
  forwarding build this needs a reader that runs on a worker other than the socket's owner.)
\<close>

theorem timeout_lost_before_park:
  "\<exists>s. reach rsys_init (rstep reuse 16) s \<and> r_pc s = R_parked \<and> r_dead s \<and> \<not> r_edge s \<and> sh_timer_id (r_hdr s) = 0"
proof -
  obtain rs d h where t: "processSocketTimeout reuse demo_header = (rs, d, h)" by (metis prod_cases3)
  have h: "rs = []" "sh_fd h = - 1" "sh_rd h = 0" "sh_timer_id h = 0"
    using t by (auto simp: processSocketTimeout_def demo_header_def Let_def take_read_waiter_def take_write_waiter_def handle_of_def
      removeEvent_def close_header_fd_def release_def timeout_epoch_changed_def timeout_epoch_load_def try_mark_busy_def clear_busy_def mark_disconnected_def
      flag_masks TIMEOUT_EPOCH_MASK_def is_done_client_coroutine_with_timeout_def split: if_splits)
  have "reach rsys_init (rstep reuse 16) (idle_sys\<lparr>r_hdr := h, r_dead := True, r_pc := R_suspend\<rparr>)"
    using reach_step [OF idle_again_reach rstep.timeout [of "idle_sys\<lparr>r_pc := R_suspend\<rparr>" reuse rs d h]] t h
    by (simp add: idle_sys_def wake_reader_def)
  then have "reach rsys_init (rstep reuse 16) (idle_sys\<lparr>r_hdr := h\<lparr>sh_rd := 16\<rparr>, r_dead := True, r_pc := R_parked\<rparr>)"
    by (rule reach_suspend) (simp_all add: h idle_sys_def)
  then show ?thesis by (intro exI conjI) (assumption, simp_all add: idle_sys_def h)
qed

end
