(* ===== verification/Dynamic_Buffer.thy ===== *)
theory Dynamic_Buffer
  imports Uvent_Prelude
begin

text \<open>
  \<open>utils/buffer/DynamicBuffer.h\<close> and \<open>.cpp\<close>: the growable byte buffer sockets read into. A byte that was
  allocated and never written is \<open>None\<close>. \<open>grants\<close> says which sizes \<open>operator new\<close> can allocate. An operation
  that never returns is the outer \<open>None\<close>; \<open>Bad_alloc\<close> is the exception of \<open>operator new\<close>, \<open>Ub\<close> a copy
  beyond the allocated bytes.
\<close>

type_synonym byte = "8 word"

datatype 'a exec = Ret 'a | Bad_alloc | Ub

record dynbuf =
  db_data :: "byte option list option"
  db_cap :: u64
  db_size :: u64

definition db_new :: dynbuf where
  "db_new = \<lparr>db_data = None, db_cap = 0, db_size = 0\<rparr>"

text \<open>The bytes behind a pointer: none behind \<open>nullptr\<close>.\<close>

definition cells :: "dynbuf \<Rightarrow> byte option list" where
  "cells b = (case db_data b of None \<Rightarrow> [] | Some d \<Rightarrow> d)"

partial_function (option) grow_cap :: "u64 \<Rightarrow> u64 \<Rightarrow> u64 option" where
  "grow_cap need cap = (if cap < need then grow_cap need (push_bit 1 cap) else Some cap)"

definition db_grow :: "(u64 \<Rightarrow> bool) \<Rightarrow> u64 \<Rightarrow> dynbuf \<Rightarrow> dynbuf exec option" where
  "db_grow grants need b = map_option (\<lambda>cap. if \<not> grants cap then Bad_alloc
     else if unat (db_size b) > length (cells b) \<or> unat (db_size b) > unat cap then Ub
     else Ret (b\<lparr>db_data := Some (take (unat (db_size b)) (cells b) @ replicate (unat cap - unat (db_size b)) None), db_cap := cap\<rparr>))
     (grow_cap need (if db_cap b \<noteq> 0 then db_cap b else 4096))"

definition db_free :: "dynbuf \<Rightarrow> dynbuf" where
  "db_free b = (if db_data b \<noteq> None then b\<lparr>db_data := None, db_cap := 0, db_size := 0\<rparr> else b)"

definition db_reserve :: "(u64 \<Rightarrow> bool) \<Rightarrow> u64 \<Rightarrow> dynbuf \<Rightarrow> dynbuf exec option" where
  "db_reserve grants n b = (if n > db_cap b then db_grow grants n b else Some (Ret b))"

text \<open>\<open>reserve_tail\<close> returns \<open>data_ + size_\<close>, of which the offset is kept.\<close>

definition reserve_tail :: "(u64 \<Rightarrow> bool) \<Rightarrow> u64 \<Rightarrow> dynbuf \<Rightarrow> (u64 \<times> dynbuf) exec option" where
  "reserve_tail grants len b = (let need = db_size b + len in
     map_option (\<lambda>r. case r of Ret b1 \<Rightarrow> Ret (db_size b1, b1) | Bad_alloc \<Rightarrow> Bad_alloc | Ub \<Rightarrow> Ub)
       (if need > db_cap b then db_grow grants need b else Some (Ret b)))"

definition commit :: "u64 \<Rightarrow> dynbuf \<Rightarrow> dynbuf" where
  "commit n b = (let s = db_size b + n in b\<lparr>db_size := if s > db_cap b then db_cap b else s\<rparr>)"

text \<open>\<open>memcpy\<close> into the buffer at an offset, by the buffer itself or by a system call that fills it.\<close>

definition store_at :: "u64 \<Rightarrow> byte list \<Rightarrow> dynbuf \<Rightarrow> dynbuf exec" where
  "store_at off src b = (if src = [] then Ret b
     else if unat off + length src > length (cells b) then Ub
     else Ret (b\<lparr>db_data := Some (take (unat off) (cells b) @ map Some src @ drop (unat off + length src) (cells b))\<rparr>))"

definition db_append :: "(u64 \<Rightarrow> bool) \<Rightarrow> byte list \<Rightarrow> dynbuf \<Rightarrow> dynbuf exec option" where
  "db_append grants src b = map_option (\<lambda>r. case r of
       Ret (off, b1) \<Rightarrow> (case store_at off src b1 of Ret b2 \<Rightarrow> Ret (commit (of_nat (length src)) b2) | x \<Rightarrow> x)
     | Bad_alloc \<Rightarrow> Bad_alloc | Ub \<Rightarrow> Ub)
     (reserve_tail grants (of_nat (length src)) b)"

definition append_raw :: "(u64 \<Rightarrow> bool) \<Rightarrow> u64 \<Rightarrow> dynbuf \<Rightarrow> (u64 \<times> dynbuf) exec option" where
  "append_raw grants len b = map_option (\<lambda>r. case r of Ret (off, b1) \<Rightarrow> Ret (off, commit len b1) | x \<Rightarrow> x) (reserve_tail grants len b)"

definition shrink :: "u64 \<Rightarrow> dynbuf \<Rightarrow> dynbuf" where
  "shrink n b = (if n < db_size b then b\<lparr>db_size := n\<rparr> else b)"

definition db_clear :: "dynbuf \<Rightarrow> dynbuf" where
  "db_clear b = b\<lparr>db_size := 0\<rparr>"

definition db_move_ctor :: "dynbuf \<Rightarrow> dynbuf \<times> dynbuf" where
  "db_move_ctor q = (\<lparr>db_data = db_data q, db_cap = db_cap q, db_size = db_size q\<rparr>, q\<lparr>db_data := None, db_cap := 0, db_size := 0\<rparr>)"

definition db_move_assign :: "bool \<Rightarrow> dynbuf \<Rightarrow> dynbuf \<Rightarrow> dynbuf \<times> dynbuf" where
  "db_move_assign same b q = (if same then (b, q)
     else (let b1 = db_free b in
       (b1\<lparr>db_data := db_data q, db_cap := db_cap q, db_size := db_size q\<rparr>, q\<lparr>db_data := None, db_cap := 0, db_size := 0\<rparr>)))"

section \<open>The invariant and the contents\<close>

definition db_ok :: "dynbuf \<Rightarrow> bool" where
  "db_ok b \<longleftrightarrow> (if db_cap b = 0 then db_data b = None else db_data b \<noteq> None \<and> (\<exists>k. 12 \<le> k \<and> k < 64 \<and> unat (db_cap b) = 2 ^ k))
     \<and> length (cells b) = unat (db_cap b) \<and> db_size b \<le> db_cap b"

definition db_bytes :: "dynbuf \<Rightarrow> byte option list" where
  "db_bytes b = take (unat (db_size b)) (cells b)"

lemma db_new_ok [simp]: "db_ok db_new" "db_bytes db_new = []"
  by (simp_all add: db_ok_def db_new_def cells_def db_bytes_def)

lemma db_size_le: "db_ok b \<Longrightarrow> unat (db_size b) \<le> unat (db_cap b)" "db_ok b \<Longrightarrow> unat (db_size b) \<le> length (cells b)"
  by (simp_all add: db_ok_def word_le_nat_alt)

lemma db_bytes_length: "db_ok b \<Longrightarrow> length (db_bytes b) = unat (db_size b)"
  using db_size_le(2) by (simp add: db_bytes_def)

lemma unat_shl: "unat (push_bit n (x :: u64)) = 2 ^ n * unat x mod 2 ^ 64"
  unfolding unsigned_push_bit_eq by (simp add: take_bit_eq_mod push_bit_eq_mult mult.commute)

lemma unat_shl1: "unat (x :: u64) < 2 ^ 63 \<Longrightarrow> unat (push_bit 1 x) = 2 * unat x"
  unfolding unat_shl by simp

text \<open>
  The doubling loop ends for every request up to \<open>2 ^ 63\<close>, with the first power of two that covers it.
\<close>

lemma grow_cap_ends:
  assumes "unat need \<le> 2 ^ 63" "unat cap = 2 ^ k" "k < 64"
  shows "\<exists>c j. grow_cap need cap = Some c \<and> unat need \<le> unat c \<and> k \<le> j \<and> j < 64 \<and> unat c = 2 ^ j"
  using assms
proof (induction "64 - k" arbitrary: cap k rule: less_induct)
  case less
  show ?case
  proof (cases "cap < need")
    case True
    then have lt: "unat cap < 2 ^ 63" using less.prems(1) by (simp add: word_less_nat_alt)
    then have k: "k < 63" using less.prems(2) power_less_imp_less_exp [of "2::nat" k 63] by (simp only:)
    have m: "64 - Suc k < 64 - k" "Suc k < 64" using k by auto
    have "unat (push_bit 1 cap) = 2 ^ Suc k" unfolding unat_shl1 [OF lt] less.prems(2) by simp
    from less.hyps [OF m(1) less.prems(1) this m(2)] obtain c j where
      "grow_cap need (push_bit 1 cap) = Some c" "unat need \<le> unat c" "Suc k \<le> j" "j < 64" "unat c = 2 ^ j" by blast
    moreover from this have "k \<le> j" by simp
    ultimately show ?thesis using True by (subst grow_cap.simps) auto
  next
    case False
    then show ?thesis using less.prems by (subst grow_cap.simps) (auto simp: word_less_nat_alt not_less)
  qed
qed

text \<open>Beyond that it never ends: the capacity becomes zero.\<close>

lemma grow_cap_result:
  assumes "grow_cap need cap = Some c"
  shows "(\<exists>n. c = push_bit n cap) \<and> \<not> c < need"
proof (rule grow_cap.raw_induct [of "\<lambda>need cap c. (\<exists>n. c = push_bit n cap) \<and> \<not> c < need", OF _ assms])
  fix grow and need cap c :: u64
  assume ih: "\<And>need cap c. grow need cap = Some c \<Longrightarrow> (\<exists>n. c = push_bit n cap) \<and> \<not> c < need"
    and r: "(if cap < need then grow need (push_bit 1 cap) else Some cap) = Some c"
  show "(\<exists>n. c = push_bit n cap) \<and> \<not> c < need"
  proof (cases "cap < need")
    case True
    then have "grow need (push_bit 1 cap) = Some c" using r by simp
    from ih [OF this] obtain n where "c = push_bit (n + 1) cap" "\<not> c < need" by (auto simp: push_bit_push_bit)
    then show ?thesis by blast
  next
    case False
    then show ?thesis using r by (auto intro: exI [of _ 0])
  qed
qed

lemma grow_cap_diverges:
  assumes "2 ^ 63 < unat need" "unat cap = 2 ^ k"
  shows "grow_cap need cap = None"
proof (cases "grow_cap need cap")
  case (Some c)
  then obtain n where n: "c = push_bit n cap" "\<not> c < need" using grow_cap_result by blast
  have c: "unat c = 2 ^ (n + k) mod 2 ^ 64"
    unfolding n(1) unat_shl assms(2) by (simp add: power_add)
  have "unat c \<le> 2 ^ 63"
  proof (cases "n + k < 64")
    case True
    then have "(2::nat) ^ (n + k) \<le> 2 ^ 63" by (intro power_increasing) auto
    then show ?thesis using c by (metis mod_less_eq_dividend order_trans)
  next
    case False
    then have "(2::nat) ^ 64 dvd 2 ^ (n + k)" by (intro le_imp_power_dvd) auto
    then show ?thesis using c by simp
  qed
  then show ?thesis using n(2) assms(1) by (simp add: word_less_nat_alt)
qed

text \<open>Where the loop starts: the current capacity, or 4096.\<close>

lemma grow_start:
  assumes "db_ok b"
  obtains k where "12 \<le> k" "k < 64" "unat (if db_cap b \<noteq> 0 then db_cap b else (4096 :: u64)) = 2 ^ k" "unat (db_cap b) \<le> 2 ^ k"
proof (cases "db_cap b = 0")
  case True
  then show ?thesis using that [of 12] by simp
next
  case False
  then show ?thesis using that assms by (auto simp: db_ok_def)
qed

lemma db_grow_spec:
  assumes "db_ok b" "unat need \<le> 2 ^ 63" "\<And>c. grants c"
  shows "\<exists>b'. db_grow grants need b = Some (Ret b') \<and> db_ok b' \<and> db_bytes b' = db_bytes b \<and> db_size b' = db_size b
    \<and> unat need \<le> unat (db_cap b')"
proof -
  obtain k where k: "12 \<le> k" "k < 64" "unat (if db_cap b \<noteq> 0 then db_cap b else (4096 :: u64)) = 2 ^ k" "unat (db_cap b) \<le> 2 ^ k"
    by (rule grow_start [OF assms(1)])
  obtain c j where c: "grow_cap need (if db_cap b \<noteq> 0 then db_cap b else 4096) = Some c" "unat need \<le> unat c" "k \<le> j" "j < 64" "unat c = 2 ^ j"
    using grow_cap_ends [OF assms(2) k(3,2)] by blast
  have "(2::nat) ^ k \<le> 2 ^ j" using c(3) by (intro power_increasing) auto
  then have le: "unat (db_size b) \<le> unat c" using db_size_le(1) [OF assms(1)] k(4) c(5) by linarith
  have c0: "c \<noteq> 0" using c(5) by (metis power_not_zero unat_0 zero_neq_numeral)
  let ?b = "b\<lparr>db_data := Some (take (unat (db_size b)) (cells b) @ replicate (unat c - unat (db_size b)) None), db_cap := c\<rparr>"
  have "db_grow grants need b = Some (Ret ?b)" unfolding db_grow_def c(1) using assms(3) le db_size_le(2) [OF assms(1)] by simp
  moreover have "db_ok ?b" using c k(1) c0 le db_size_le(2) [OF assms(1)]
    by (auto simp: db_ok_def cells_def word_le_nat_alt intro: exI [of _ j])
  moreover have "db_bytes ?b = db_bytes b" using db_size_le(2) [OF assms(1)] by (simp add: db_bytes_def cells_def)
  ultimately show ?thesis using c(2) by auto
qed

lemma reserve_tail_spec:
  assumes "db_ok b" "unat (db_size b) + unat len \<le> 2 ^ 63" "\<And>c. grants c"
  shows "\<exists>b'. reserve_tail grants len b = Some (Ret (db_size b, b')) \<and> db_ok b' \<and> db_bytes b' = db_bytes b
    \<and> db_size b' = db_size b \<and> unat (db_size b) + unat len \<le> unat (db_cap b')"
proof -
  have n: "unat (db_size b + len) = unat (db_size b) + unat len" using assms(2) by (simp add: unat_word_ariths(1))
  show ?thesis
  proof (cases "db_size b + len > db_cap b")
    case True
    then show ?thesis using db_grow_spec [OF assms(1), of "db_size b + len" grants] assms(2,3) n
      by (auto simp: reserve_tail_def Let_def)
  next
    case False
    then show ?thesis using assms(1) n by (auto simp: reserve_tail_def Let_def word_less_nat_alt)
  qed
qed

text \<open>What a reader does: reserve, let the bytes be stored at the offset, commit their number.\<close>

lemma store_commit_spec:
  assumes "db_ok b" "unat (db_size b) + length src \<le> unat (db_cap b)"
  shows "\<exists>b'. store_at (db_size b) src b = Ret b' \<and> db_ok (commit (of_nat (length src)) b')
    \<and> db_bytes (commit (of_nat (length src)) b') = db_bytes b @ map Some src \<and> db_cap b' = db_cap b"
proof -
  have len: "length (cells b) = unat (db_cap b)" using assms(1) by (simp add: db_ok_def)
  define b1 where "b1 = (if src = [] then b else
    b\<lparr>db_data := Some (take (unat (db_size b)) (cells b) @ map Some src @ drop (unat (db_size b) + length src) (cells b))\<rparr>)"
  have st: "store_at (db_size b) src b = Ret b1" using assms(2) len by (simp add: store_at_def b1_def)
  have cb: "cells b1 = take (unat (db_size b)) (cells b) @ map Some src @ drop (unat (db_size b) + length src) (cells b)"
    by (simp add: b1_def cells_def [of "b\<lparr>db_data := d\<rparr>" for d])
  have lt: "unat (db_cap b) < 2 ^ 64" using unsigned_less [of "db_cap b", where 'a = nat] by simp
  have sz: "unat (db_size b + of_nat (length src)) = unat (db_size b) + length src"
    using assms(2) lt by (simp add: unat_word_ariths(1) unat_of_nat)
  have f: "db_cap b1 = db_cap b" "db_size b1 = db_size b" "db_data b1 = None \<longleftrightarrow> db_data b = None"
    using assms(2) len by (auto simp: b1_def cells_def split: option.splits)
  have "\<not> db_cap b < db_size b + of_nat (length src)" using assms(2) sz by (simp add: word_less_nat_alt)
  then have c: "commit (of_nat (length src)) b1 = b1\<lparr>db_size := db_size b + of_nat (length src)\<rparr>" by (simp add: commit_def f Let_def)
  have "db_bytes (commit (of_nat (length src)) b1) = db_bytes b @ map Some src"
    using db_size_le(2) [OF assms(1)] unfolding c by (simp add: db_bytes_def sz cells_def [of "x\<lparr>db_size := y\<rparr>" for x y] flip: cells_def) (simp add: cb)
  moreover have "db_ok (commit (of_nat (length src)) b1)"
    using assms len f sz cb unfolding c by (auto simp: db_ok_def word_le_nat_alt cells_def [of "x\<lparr>db_size := y\<rparr>" for x y] simp flip: cells_def)
  ultimately show ?thesis using st f(1) by auto
qed

lemma db_append_spec:
  assumes "db_ok b" "length (db_bytes b) + length src \<le> 2 ^ 63" "\<And>c. grants c"
  shows "\<exists>b'. db_append grants src b = Some (Ret b') \<and> db_ok b' \<and> db_bytes b' = db_bytes b @ map Some src"
proof -
  have l: "unat (of_nat (length src) :: u64) = length src" using assms(2) by (simp add: unat_of_nat)
  obtain b1 where b1: "reserve_tail grants (of_nat (length src)) b = Some (Ret (db_size b, b1))" "db_ok b1" "db_bytes b1 = db_bytes b"
    "db_size b1 = db_size b" "unat (db_size b) + length src \<le> unat (db_cap b1)"
    using reserve_tail_spec [OF assms(1), of "of_nat (length src)" grants] assms(2,3) l db_bytes_length [OF assms(1)] by auto
  from store_commit_spec [OF b1(2), of src] b1 show ?thesis by (auto simp: db_append_def)
qed

text \<open>What a socket does with the buffer: reserve room for \<open>n\<close> bytes, let the system call fill \<open>src\<close>, commit.\<close>

definition db_fill :: "(u64 \<Rightarrow> bool) \<Rightarrow> u64 \<Rightarrow> byte list \<Rightarrow> dynbuf \<Rightarrow> dynbuf exec option" where
  "db_fill grants n src b = map_option (\<lambda>r. case r of
       Ret (off, b1) \<Rightarrow> (case store_at off src b1 of Ret b2 \<Rightarrow> Ret (commit (of_nat (length src)) b2) | x \<Rightarrow> x)
     | Bad_alloc \<Rightarrow> Bad_alloc | Ub \<Rightarrow> Ub) (reserve_tail grants n b)"

lemma db_fill_spec:
  assumes "db_ok b" "length (db_bytes b) + unat n \<le> 2 ^ 63" "length src \<le> unat n" "\<And>c. grants c"
  shows "\<exists>b'. db_fill grants n src b = Some (Ret b') \<and> db_ok b' \<and> db_bytes b' = db_bytes b @ map Some src"
proof -
  obtain b1 where b1: "reserve_tail grants n b = Some (Ret (db_size b, b1))" "db_ok b1" "db_bytes b1 = db_bytes b"
    "db_size b1 = db_size b" "unat (db_size b) + length src \<le> unat (db_cap b1)"
    using reserve_tail_spec [OF assms(1), of n grants] assms db_bytes_length [OF assms(1)] by fastforce
  from store_commit_spec [OF b1(2), of src] b1 show ?thesis by (auto simp: db_fill_def)
qed

lemma shrink_spec: "db_ok b \<Longrightarrow> db_ok (shrink n b) \<and> db_bytes (shrink n b) = take (unat n) (db_bytes b)"
  by (auto simp: db_ok_def shrink_def db_bytes_def cells_def word_less_nat_alt word_le_nat_alt min_def)

lemma db_clear_spec: "db_ok b \<Longrightarrow> db_ok (db_clear b) \<and> db_bytes (db_clear b) = []"
  by (simp add: db_ok_def db_clear_def db_bytes_def cells_def)

lemma db_reserve_spec:
  assumes "db_ok b" "unat n \<le> 2 ^ 63" "\<And>c. grants c"
  shows "\<exists>b'. db_reserve grants n b = Some (Ret b') \<and> db_ok b' \<and> db_bytes b' = db_bytes b \<and> unat n \<le> unat (db_cap b')"
  using db_grow_spec [OF assms(1), of n grants] assms by (auto simp: db_reserve_def word_less_nat_alt)

section \<open>Properties\<close>

datatype db_op = B_append "byte list" | B_fill u64 "byte list" | B_shrink u64 | B_clear | B_reserve u64

fun db_exec :: "(u64 \<Rightarrow> bool) \<Rightarrow> db_op \<Rightarrow> dynbuf \<Rightarrow> dynbuf exec option" where
  "db_exec grants (B_append src) b = db_append grants src b"
| "db_exec grants (B_fill n src) b = db_fill grants n src b"
| "db_exec grants (B_shrink n) b = Some (Ret (shrink n b))"
| "db_exec grants B_clear b = Some (Ret (db_clear b))"
| "db_exec grants (B_reserve n) b = db_reserve grants n b"

fun db_run :: "(u64 \<Rightarrow> bool) \<Rightarrow> db_op list \<Rightarrow> dynbuf \<Rightarrow> dynbuf exec option" where
  "db_run grants [] b = Some (Ret b)"
| "db_run grants (x # ops) b = Option.bind (db_exec grants x b) (\<lambda>r. case r of Ret b1 \<Rightarrow> db_run grants ops b1 | e \<Rightarrow> Some e)"

text \<open>What the buffer promises, on byte strings, and the requests it can serve: at most \<open>2 ^ 63\<close> bytes.\<close>

fun a_db :: "db_op \<Rightarrow> byte list \<Rightarrow> byte list" where
  "a_db (B_append src) xs = xs @ src"
| "a_db (B_fill n src) xs = xs @ src"
| "a_db (B_shrink n) xs = take (unat n) xs"
| "a_db B_clear xs = []"
| "a_db (B_reserve n) xs = xs"

fun a_db_legal :: "db_op \<Rightarrow> byte list \<Rightarrow> bool" where
  "a_db_legal (B_append src) xs \<longleftrightarrow> length xs + length src \<le> 2 ^ 63"
| "a_db_legal (B_fill n src) xs \<longleftrightarrow> length xs + unat n \<le> 2 ^ 63 \<and> length src \<le> unat n"
| "a_db_legal (B_reserve n) xs \<longleftrightarrow> unat n \<le> 2 ^ 63"
| "a_db_legal x xs \<longleftrightarrow> True"

fun a_db_legal_run :: "db_op list \<Rightarrow> byte list \<Rightarrow> bool" where
  "a_db_legal_run [] xs \<longleftrightarrow> True"
| "a_db_legal_run (x # ops) xs \<longleftrightarrow> a_db_legal x xs \<and> a_db_legal_run ops (a_db x xs)"

lemma db_exec_spec:
  assumes "db_ok b" "db_bytes b = map Some xs" "a_db_legal x xs" "\<And>c. grants c"
  shows "\<exists>b'. db_exec grants x b = Some (Ret b') \<and> db_ok b' \<and> db_bytes b' = map Some (a_db x xs)"
proof (cases x)
  case (B_append src)
  then show ?thesis using db_append_spec [OF assms(1), of src grants] assms by auto
next
  case (B_fill n src)
  then show ?thesis using db_fill_spec [OF assms(1), of n src grants] assms by auto
next
  case (B_shrink n)
  then show ?thesis using shrink_spec [OF assms(1), of n] assms by (simp add: take_map)
next
  case B_clear
  then show ?thesis using db_clear_spec [OF assms(1)] by simp
next
  case (B_reserve n)
  then show ?thesis using db_reserve_spec [OF assms(1), of n grants] assms by auto
qed

lemma db_run_spec:
  assumes "db_ok b" "db_bytes b = map Some xs" "a_db_legal_run ops xs" "\<And>c. grants c"
  shows "\<exists>b'. db_run grants ops b = Some (Ret b') \<and> db_ok b' \<and> db_bytes b' = map Some (fold a_db ops xs)"
  using assms(1-3)
proof (induction ops arbitrary: b xs)
  case (Cons x ops)
  obtain b1 where b1: "db_exec grants x b = Some (Ret b1)" "db_ok b1" "db_bytes b1 = map Some (a_db x xs)"
    using db_exec_spec [OF Cons.prems(1,2), of x grants] Cons.prems(3) assms(4) by auto
  from Cons.IH [OF b1(2,3)] Cons.prems(3) b1(1) show ?case by simp
qed simp

text \<open>
  C19. A \<open>DynamicBuffer\<close> is a byte string: from a new buffer, any sequence of appends, fills of reserved room (as
  sockets do), shrinks, clears and reservations that stays within \<open>2 ^ 63\<close> bytes returns without touching
  memory outside the allocation, and leaves exactly the bytes the same sequence leaves in a string, all of
  them written, when \<open>operator new\<close> does not fail.
\<close>

theorem dynbuf_refines_string:
  assumes "a_db_legal_run ops []" "\<And>c. grants c"
  shows "\<exists>b. db_run grants ops db_new = Some (Ret b) \<and> db_ok b \<and> db_bytes b = map Some (fold a_db ops [])"
  using db_run_spec [of db_new "[]" ops grants] assms by simp

theorem dynbuf_refines_string_witness:
  "\<exists>b. db_run (\<lambda>_. True) [B_append [1, 2, 3], B_reserve 9000, B_fill 16384 [4, 5], B_shrink 4, B_append [9]] db_new = Some (Ret b)
    \<and> db_bytes b = map Some [1, 2, 3, 4, 9]"
  using dynbuf_refines_string [of "[B_append [1, 2, 3], B_reserve 9000, B_fill 16384 [4, 5], B_shrink 4, B_append [9]]" "\<lambda>_. True"]
  by auto

text \<open>
  \<open>reserve\<close> returns exactly for requests the capacity already covers or of at most \<open>2 ^ 63\<close> bytes: beyond
  that the doubled capacity wraps to zero and \<open>grow_\<close> loops forever instead of failing with \<open>bad_alloc\<close>.
\<close>

theorem dynbuf_reserve_returns_iff:
  assumes "db_ok b" "db_cap b < n"
  shows "db_reserve grants n b = None \<longleftrightarrow> 2 ^ 63 < unat n"
proof -
  obtain k where k: "12 \<le> k" "k < 64" "unat (if db_cap b \<noteq> 0 then db_cap b else (4096 :: u64)) = 2 ^ k"
    by (rule grow_start [OF assms(1)])
  show ?thesis
  proof (cases "2 ^ 63 < unat n")
    case True
    then show ?thesis using grow_cap_diverges [OF True k(3)] assms(2) by (simp add: db_reserve_def db_grow_def)
  next
    case False
    then show ?thesis using grow_cap_ends [OF _ k(3,2), of n] assms(2) by (auto simp: db_reserve_def db_grow_def)
  qed
qed

theorem dynbuf_reserve_returns_iff_witness: "db_reserve (\<lambda>_. False) (2 ^ 63 + 1) db_new = None"
proof -
  have "db_cap db_new < 2 ^ 63 + 1" by (simp add: db_new_def)
  from dynbuf_reserve_returns_iff [OF db_new_ok(1) this, of "\<lambda>_. False"] show ?thesis by simp
qed

end
