(* ===== verification/Socket_Io.thy ===== *)
theory Socket_Io
  imports Socket_Wakeup Dynamic_Buffer
begin

text \<open>
  The I/O loops of \<open>net/SocketLinux.h\<close>. The kernel is a parameter: what a system call returns and what happens while
  a coroutine is suspended (\<open>co_await\<close> of an awaiter, or the cooperative yield) is given by the record \<open>kernel\<close> over
  a state the model does not look into. A C++ loop is \<open>iter\<close> of its body: one pass either returns or goes round
  again. \<open>None\<close> is a loop that never returns; \<open>Bad_alloc\<close> and \<open>Ub\<close> come from the buffer.
\<close>

unbundle bit_operations_syntax

section \<open>Loops\<close>

datatype ('s, 'r) ctl = Again 's | Stop 'r

partial_function (option) iter :: "('s \<Rightarrow> ('s, 'r) ctl option) \<Rightarrow> 's \<Rightarrow> 'r option" where
  "iter f s = Option.bind (f s) (\<lambda>c. case c of Stop r \<Rightarrow> Some r | Again s1 \<Rightarrow> iter f s1)"

text \<open>A loop whose passes keep an invariant and decrease a measure returns.\<close>

lemma iter_returns:
  fixes m :: "'s \<Rightarrow> nat"
  assumes "I s" and body: "\<And>s. I s \<Longrightarrow> \<exists>c. f s = Some c \<and> (case c of Stop r \<Rightarrow> Q r | Again s1 \<Rightarrow> I s1 \<and> m s1 < m s)"
  shows "\<exists>r. iter f s = Some r \<and> Q r"
  using assms(1)
proof (induction "m s" arbitrary: s rule: less_induct)
  case less
  obtain c where c: "f s = Some c" "case c of Stop r \<Rightarrow> Q r | Again s1 \<Rightarrow> I s1 \<and> m s1 < m s" using body [OF less.prems] by blast
  show ?case
  proof (cases c)
    case (Again s1)
    then have "I s1" "m s1 < m s" using c(2) by auto
    from less.hyps [OF this(2) this(1)] show ?thesis using c(1) Again by (subst iter.simps) simp
  next
    case (Stop r)
    then show ?thesis using c by (subst iter.simps) simp
  qed
qed

text \<open>What holds of every result of a loop, whether or not it always returns.\<close>

lemma iter_result:
  assumes "iter f s = Some r" "I s" and body: "\<And>s c. I s \<Longrightarrow> f s = Some c \<Longrightarrow> (case c of Stop r \<Rightarrow> Q r | Again s1 \<Rightarrow> I s1)"
  shows "Q r"
proof -
  have "I s \<longrightarrow> Q r"
  proof (rule iter.raw_induct [of "\<lambda>g s r. g = f \<longrightarrow> I s \<longrightarrow> Q r" f s r, simplified])
    show "iter f s = Some r" by (rule assms(1))
  next
    fix it g s r
    assume ih: "\<And>g s r. it g s = Some r \<Longrightarrow> g = f \<longrightarrow> I s \<longrightarrow> Q r"
      and r: "Option.bind (g s) (\<lambda>c. case c of Stop r \<Rightarrow> Some r | Again s1 \<Rightarrow> it g s1) = Some r"
    show "g = f \<longrightarrow> I s \<longrightarrow> Q r"
    proof (intro impI)
      assume gf: "g = f" and i: "I s"
      obtain c where c: "f s = Some c" "(case c of Stop r \<Rightarrow> Some r | Again s1 \<Rightarrow> it g s1) = Some r"
        using r gf by (auto simp: bind_eq_Some_conv)
      show "Q r" using body [OF i c(1)] c(2) ih gf by (cases c) auto
    qed
  qed
  then show ?thesis using assms(2) by blast
qed

section \<open>Kernel, configuration and state\<close>

datatype errno = EINTR | EAGAIN | ECONNABORTED | EPROTO | ENOBUFS | ENOMEM | ENFILE | EMFILE | EINPROGRESS | ETIMEDOUT | ECANCELED | E_other int

datatype proto = TCP | UDP

datatype addr = Sockaddr_in | Sockaddr_in6 | Valueless

text \<open>\<open>recv\<close>, \<open>recvfrom\<close>: the bytes received (none is the result 0), or an error. \<open>send\<close>, \<open>sendto\<close>: the number sent.\<close>

record 'k kernel =
  k_recv :: "u64 \<Rightarrow> 'k \<Rightarrow> (errno + byte list) \<times> 'k"
  k_send :: "byte list \<Rightarrow> 'k \<Rightarrow> (errno + nat) \<times> 'k"
  k_wait :: "'k \<times> SocketHeader \<Rightarrow> bool \<times> 'k \<times> SocketHeader"
  k_yield :: "'k \<times> SocketHeader \<Rightarrow> 'k \<times> SocketHeader"

record cfg =
  c_reuse :: bool
  max_read_retries :: int
  max_write_retries :: int
  c_grants :: "u64 \<Rightarrow> bool"

record 'k io =
  io_hdr :: SocketHeader
  io_buf :: dynbuf
  io_dst :: "byte list"
  io_k :: 'k
  io_errno :: errno

definition epoch_bump :: "cfg \<Rightarrow> bool \<Rightarrow> 'k io \<Rightarrow> 'k io" where
  "epoch_bump C b x = (if \<not> c_reuse C \<and> b then x\<lparr>io_hdr := timeout_epoch_bump (io_hdr x)\<rparr> else x)"

definition remove_socket :: "'k io \<Rightarrow> 'k io" where
  "remove_socket x = x\<lparr>io_hdr := close_for_new_refs (removeEvent (io_hdr x))\<rparr>"

definition before_read :: "'k io \<Rightarrow> 'k io" where
  "before_read x = (if is_read_armed (io_hdr x) then x\<lparr>io_hdr := disarm_read (io_hdr x)\<rparr> else x)"

definition before_write :: "'k io \<Rightarrow> 'k io" where
  "before_write x = (if is_write_armed (io_hdr x) then x\<lparr>io_hdr := disarm_write (io_hdr x)\<rparr> else x)"

definition do_recv :: "'k kernel \<Rightarrow> u64 \<Rightarrow> 'k io \<Rightarrow> (errno + byte list) \<times> 'k io" where
  "do_recv K n x = (case k_recv K n (io_k x) of (r, k) \<Rightarrow> (r, x\<lparr>io_k := k\<rparr>))"

definition do_send :: "'k kernel \<Rightarrow> byte list \<Rightarrow> 'k io \<Rightarrow> (errno + nat) \<times> 'k io" where
  "do_send K bs x = (case k_send K bs (io_k x) of (r, k) \<Rightarrow> (r, x\<lparr>io_k := k\<rparr>))"

text \<open>\<open>co_await\<close> of an awaiter, and whether the coroutine finds its cancellation requested afterwards.\<close>

definition do_wait :: "'k kernel \<Rightarrow> 'k io \<Rightarrow> bool \<times> 'k io" where
  "do_wait K x = (case k_wait K (io_k x, io_hdr x) of (c, k, h) \<Rightarrow> (c, x\<lparr>io_k := k, io_hdr := h\<rparr>))"

definition do_coop :: "'k kernel \<Rightarrow> 'k io \<Rightarrow> 'k io" where
  "do_coop K x = (case k_yield K (io_k x, io_hdr x) of (k, h) \<Rightarrow> x\<lparr>io_k := k, io_hdr := h\<rparr>)"

text \<open>After \<open>EAGAIN\<close>: suspend; a cancelled coroutine gives up with \<open>ECANCELED\<close>, otherwise the loop goes on.\<close>

definition wait_or_cancel :: "'k kernel \<Rightarrow> ('k io \<Rightarrow> 's) \<Rightarrow> 'k io \<Rightarrow> ('s, (int \<times> 'k io) exec) ctl option" where
  "wait_or_cancel K next x = (case do_wait K x of (c, x1) \<Rightarrow>
     if c then Some (Stop (Ret (- 1, x1\<lparr>io_errno := ECANCELED\<rparr>))) else Some (Again (next x1)))"

section \<open>async_read into a DynamicBuffer\<close>

definition read_udp_body :: "cfg \<Rightarrow> 'k kernel \<Rightarrow> u64 \<Rightarrow> int \<times> 'k io \<Rightarrow> (int \<times> 'k io, (int \<times> 'k io) exec) ctl option" where
  "read_udp_body C K max_read_size st = (case st of (retries, x) \<Rightarrow>
     Option.bind (reserve_tail (c_grants C) max_read_size (io_buf x)) (\<lambda>r. case r of
       Bad_alloc \<Rightarrow> Some (Stop Bad_alloc) | Ub \<Rightarrow> Some (Stop Ub)
     | Ret (dst, b) \<Rightarrow>
       (case do_recv K max_read_size (before_read (x\<lparr>io_buf := b\<rparr>)) of (res, x1) \<Rightarrow>
        case res of
          Inr bs \<Rightarrow>
            (if bs = [] then Some (Stop (Ret (0, x1)))
             else case store_at dst bs (io_buf x1) of
               Ret b1 \<Rightarrow> Some (Stop (Ret (int (length bs), epoch_bump C True (x1\<lparr>io_buf := commit (of_nat (length bs)) b1\<rparr>))))
             | _ \<Rightarrow> Some (Stop Ub))
        | Inl e \<Rightarrow>
            (if e = EINTR then
               (if retries + 1 \<ge> max_read_retries C then Some (Stop (Ret (- 1, remove_socket x1))) else Some (Again (retries + 1, x1)))
             else if e = EAGAIN then wait_or_cancel K (Pair retries) x1
             else Some (Stop (Ret (- 1, remove_socket x1)))))))"

text \<open>
  One pass of the TCP loops: the inner \<open>while\<close>, and the test behind it when it ends. \<open>total_read\<close> is signed, so a
  request of \<open>2 ^ 63\<close> bytes or more is a negative bound.
\<close>

definition read_tcp_error :: "cfg \<Rightarrow> 'k kernel \<Rightarrow> int \<Rightarrow> int \<Rightarrow> errno \<Rightarrow> 'k io \<Rightarrow> (int \<times> int \<times> 'k io, (int \<times> 'k io) exec) ctl option" where
  "read_tcp_error C K tot retries e x =
    (if e = EINTR then
       (if retries + 1 \<ge> max_read_retries C then Some (Stop (Ret (- 1, epoch_bump C (tot > 0) x))) else Some (Again (tot, retries + 1, x)))
     else if e = EAGAIN then
       (if tot > 0 then Some (Stop (Ret (tot, epoch_bump C True x))) else wait_or_cancel K (\<lambda>x1. (tot, retries, x1)) x)
     else Some (Stop (Ret (- 1, epoch_bump C (tot > 0) x))))"

definition read_tcp_data :: "cfg \<Rightarrow> int \<Rightarrow> u64 \<Rightarrow> u64 \<Rightarrow> byte list \<Rightarrow> 'k io \<Rightarrow> (int \<times> int \<times> 'k io, (int \<times> 'k io) exec) ctl option" where
  "read_tcp_data C tot to_read dst bs x =
    (if bs = [] then Some (Stop (Ret (tot, epoch_bump C (tot > 0) x)))
     else case store_at dst bs (io_buf x) of
       Ret b \<Rightarrow>
         (let x1 = x\<lparr>io_buf := commit (of_nat (length bs)) b\<rparr>; tot1 = tot + int (length bs) in
          if (of_nat (length bs) :: u64) < to_read then Some (Stop (Ret (tot1, epoch_bump C True x1)))
          else Some (Again (tot1, 0, x1)))
     | _ \<Rightarrow> Some (Stop Ub))"

definition chunk :: "u64 \<Rightarrow> u64" where
  "chunk remaining = (if remaining > 16384 then 16384 else remaining)"

definition read_tcp_body :: "cfg \<Rightarrow> 'k kernel \<Rightarrow> u64 \<Rightarrow> int \<times> int \<times> 'k io \<Rightarrow> (int \<times> int \<times> 'k io, (int \<times> 'k io) exec) ctl option" where
  "read_tcp_body C K max_read_size st = (case st of (tot, retries, x) \<Rightarrow>
     if \<not> tot < sint max_read_size then Some (Stop (Ret (tot, epoch_bump C (tot > 0) x)))
     else
       let to_read = chunk (max_read_size - of_int tot) in
       Option.bind (reserve_tail (c_grants C) to_read (io_buf x)) (\<lambda>r. case r of
         Bad_alloc \<Rightarrow> Some (Stop Bad_alloc) | Ub \<Rightarrow> Some (Stop Ub)
       | Ret (dst, b) \<Rightarrow>
         (case do_recv K to_read (before_read (x\<lparr>io_buf := b\<rparr>)) of (res, x1) \<Rightarrow>
          case res of Inr bs \<Rightarrow> read_tcp_data C tot to_read dst bs x1 | Inl e \<Rightarrow> read_tcp_error C K tot retries e x1)))"

definition async_read :: "proto \<Rightarrow> cfg \<Rightarrow> 'k kernel \<Rightarrow> u64 \<Rightarrow> 'k io \<Rightarrow> (int \<times> 'k io) exec option" where
  "async_read p C K max_read_size x = (if max_read_size = 0 then Some (Ret (0, x))
     else let x1 = do_coop K x in
       if p = UDP then iter (read_udp_body C K max_read_size) (0, x1)
       else iter (read_tcp_body C K max_read_size) (0, 0, x1))"

section \<open>async_read into a raw buffer\<close>

text \<open>\<open>io_dst\<close> is what has been written from the start of the caller's array.\<close>

definition read_raw_udp_body :: "cfg \<Rightarrow> 'k kernel \<Rightarrow> u64 \<Rightarrow> int \<times> 'k io \<Rightarrow> (int \<times> 'k io, (int \<times> 'k io) exec) ctl option" where
  "read_raw_udp_body C K max_read_size st = (case st of (retries, x) \<Rightarrow>
     case do_recv K max_read_size (before_read x) of (res, x1) \<Rightarrow>
     case res of
       Inr bs \<Rightarrow> (if bs = [] then Some (Stop (Ret (0, x1)))
         else Some (Stop (Ret (int (length bs), epoch_bump C True (x1\<lparr>io_dst := bs\<rparr>)))))
     | Inl e \<Rightarrow>
         (if e = EINTR then
            (if retries + 1 \<ge> max_read_retries C then Some (Stop (Ret (- 1, remove_socket x1))) else Some (Again (retries + 1, x1)))
          else if e = EAGAIN then wait_or_cancel K (Pair retries) x1
          else Some (Stop (Ret (- 1, remove_socket x1)))))"

definition read_raw_tcp_body :: "cfg \<Rightarrow> 'k kernel \<Rightarrow> u64 \<Rightarrow> int \<times> int \<times> 'k io \<Rightarrow> (int \<times> int \<times> 'k io, (int \<times> 'k io) exec) ctl option" where
  "read_raw_tcp_body C K max_read_size st = (case st of (tot, retries, x) \<Rightarrow>
     if \<not> tot < sint max_read_size then Some (Stop (Ret (tot, epoch_bump C (tot > 0) x)))
     else
       let remaining = max_read_size - of_int tot in
       (case do_recv K remaining (before_read x) of (res, x1) \<Rightarrow>
        case res of
          Inr bs \<Rightarrow>
            (if bs = [] then Some (Stop (Ret (tot, epoch_bump C (tot > 0) x1)))
             else let x2 = x1\<lparr>io_dst := io_dst x1 @ bs\<rparr>; tot1 = tot + int (length bs) in
               if (of_nat (length bs) :: u64) < remaining then Some (Stop (Ret (tot1, epoch_bump C True x2)))
               else Some (Again (tot1, 0, x2)))
        | Inl e \<Rightarrow> read_tcp_error C K tot retries e x1))"

definition async_read_raw :: "proto \<Rightarrow> bool \<Rightarrow> cfg \<Rightarrow> 'k kernel \<Rightarrow> u64 \<Rightarrow> 'k io \<Rightarrow> (int \<times> 'k io) exec option" where
  "async_read_raw p null_dst C K max_read_size x = (if null_dst \<or> max_read_size = 0 then Some (Ret (0, x))
     else let x1 = do_coop K (x\<lparr>io_dst := []\<rparr>) in
       if p = UDP then iter (read_raw_udp_body C K max_read_size) (0, x1)
       else iter (read_raw_tcp_body C K max_read_size) (0, 0, x1))"

section \<open>Writing\<close>

definition write_udp_body :: "cfg \<Rightarrow> 'k kernel \<Rightarrow> byte list \<Rightarrow> int \<times> 'k io \<Rightarrow> (int \<times> 'k io, (int \<times> 'k io) exec) ctl option" where
  "write_udp_body C K buf st = (case st of (retries, x) \<Rightarrow>
     case do_send K buf (before_write x) of (res, x1) \<Rightarrow>
     case res of
       Inr n \<Rightarrow> Some (Stop (Ret (int n, epoch_bump C (n > 0) x1)))
     | Inl e \<Rightarrow>
         (if e = EINTR then
            (if retries + 1 \<ge> max_write_retries C then Some (Stop (Ret (- 1, x1))) else Some (Again (retries + 1, x1)))
          else if e = EAGAIN then wait_or_cancel K (Pair retries) x1
          else Some (Stop (Ret (- 1, x1)))))"

text \<open>The whole write is at most \<open>2 ^ 63 - 1\<close> bytes long, so the signed counter does not overflow.\<close>

definition write_tcp_body :: "cfg \<Rightarrow> 'k kernel \<Rightarrow> byte list \<Rightarrow> nat \<times> int \<times> 'k io \<Rightarrow> (nat \<times> int \<times> 'k io, (int \<times> 'k io) exec) ctl option" where
  "write_tcp_body C K buf st = (case st of (tot, retries, x) \<Rightarrow>
     if \<not> tot < length buf then Some (Stop (Ret (int tot, x)))
     else
       (case do_send K (drop tot buf) (before_write x) of (res, x1) \<Rightarrow>
        case res of
          Inr n \<Rightarrow>
            (if n = 0 then Some (Stop (Ret (- 1, x1)))
             else if tot + n \<ge> length buf then Some (Stop (Ret (int (tot + n), epoch_bump C True x1)))
             else Some (Again (tot + n, 0, x1)))
        | Inl e \<Rightarrow>
            (if e = EINTR then
               (if retries + 1 \<ge> max_write_retries C then Some (Stop (Ret (- 1, x1))) else Some (Again (tot, retries + 1, x1)))
             else if e = EAGAIN then wait_or_cancel K (\<lambda>x2. (tot, retries, x2)) x1
             else Some (Stop (Ret (- 1, x1))))))"

definition async_write :: "proto \<Rightarrow> bool \<Rightarrow> cfg \<Rightarrow> 'k kernel \<Rightarrow> byte list \<Rightarrow> 'k io \<Rightarrow> (int \<times> 'k io) exec option" where
  "async_write p null_buf C K buf x = (if null_buf \<or> buf = [] then Some (Ret (0, x))
     else let x1 = do_coop K x in
       if p = UDP then iter (write_udp_body C K buf) (0, x1) else iter (write_tcp_body C K buf) (0, 0, x1))"

section \<open>The synchronous calls\<close>

text \<open>\<open>read\<close>: the room left is \<open>max_read_size - buffer.size()\<close> on unsigned words.\<close>

definition sync_read_body :: "cfg \<Rightarrow> 'k kernel \<Rightarrow> u64 \<Rightarrow> int \<times> int \<times> 'k io \<Rightarrow> (int \<times> int \<times> 'k io, (int \<times> 'k io) exec) ctl option" where
  "sync_read_body C K max_read_size st = (case st of (tot, retries, x) \<Rightarrow>
     let to_read = min 16384 (max_read_size - db_size (io_buf x)) in
     (case do_recv K to_read x of (res, x1) \<Rightarrow>
      case res of
        Inr bs \<Rightarrow>
          (if bs = [] then Some (Stop (Ret (tot, x1)))
           else Option.bind (db_append (c_grants C) bs (io_buf x1)) (\<lambda>r. case r of
             Bad_alloc \<Rightarrow> Some (Stop Bad_alloc) | Ub \<Rightarrow> Some (Stop Ub)
           | Ret b \<Rightarrow> (let x2 = x1\<lparr>io_buf := b\<rparr>; tot1 = tot + int (length bs) in
               if db_size b \<ge> max_read_size then Some (Stop (Ret (tot1, x2))) else Some (Again (tot1, 0, x2)))))
      | Inl e \<Rightarrow>
          (if e = EAGAIN then Some (Stop (Ret (tot, x1)))
           else if e = EINTR then
             (if retries + 1 \<ge> max_read_retries C then Some (Stop (Ret (- 1, x1))) else Some (Again (tot, retries + 1, x1)))
           else Some (Stop (Ret (- 1, x1))))))"

definition sync_read :: "cfg \<Rightarrow> 'k kernel \<Rightarrow> u64 \<Rightarrow> 'k io \<Rightarrow> (int \<times> 'k io) exec option" where
  "sync_read C K max_read_size x = iter (sync_read_body C K max_read_size) (0, 0, x)"

definition sync_write_body :: "cfg \<Rightarrow> 'k kernel \<Rightarrow> byte list \<Rightarrow> nat \<times> int \<times> 'k io \<Rightarrow> (nat \<times> int \<times> 'k io, int \<times> 'k io) ctl option" where
  "sync_write_body C K buf st = (case st of (tot, retries, x) \<Rightarrow>
     if \<not> tot < length buf then Some (Stop (int tot, x))
     else
       (case do_send K (drop tot buf) x of (res, x1) \<Rightarrow>
        case res of
          Inr n \<Rightarrow> if n > 0 then Some (Again (tot + n, 0, x1)) else Some (Again (tot, retries, x1))
        | Inl e \<Rightarrow>
            (if e = EINTR then
               (if retries + 1 \<ge> max_write_retries C then Some (Stop (- 1, x1)) else Some (Again (tot, retries + 1, x1)))
             else if e = EAGAIN then Some (Stop (int tot, x1))
             else Some (Stop (- 1, x1)))))"

definition sync_write :: "cfg \<Rightarrow> 'k kernel \<Rightarrow> byte list \<Rightarrow> 'k io \<Rightarrow> (int \<times> 'k io) option" where
  "sync_write C K buf x = iter (sync_write_body C K buf) (0, 0, x)"

section \<open>async_send\<close>

datatype SendError = InvalidSocketFd | RecvFailed | RecvFromFailed | InvalidAddressVariant | SendTimeout | Closed | SendFailed | SendCancelled

definition async_send_body :: "proto \<Rightarrow> addr \<Rightarrow> cfg \<Rightarrow> 'k kernel \<Rightarrow> byte list \<Rightarrow> nat \<times> int \<times> 'k io
    \<Rightarrow> (nat \<times> int \<times> 'k io, (SendError + nat) \<times> 'k io) ctl option" where
  "async_send_body p a C K buf st = (case st of (tot, retries, x) \<Rightarrow>
     if \<not> tot < length buf then Some (Stop (Inr tot, epoch_bump C (tot > 0) x))
     else
       let x0 = before_write x in
       if is_disconnected_now (io_hdr x0) then Some (Stop (Inl Closed, x0))
       else if p = UDP \<and> a = Valueless then Some (Stop (Inl InvalidAddressVariant, x0))
       else
       (case do_send K (drop tot buf) x0 of (res, x1) \<Rightarrow>
        case res of
          Inr n \<Rightarrow>
            (if n = 0 then Some (Stop (Inl SendFailed, remove_socket x1))
             else if tot + n \<ge> length buf then Some (Stop (Inr (tot + n), epoch_bump C True x1))
             else Some (Again (tot + n, 0, x1)))
        | Inl e \<Rightarrow>
            (if e = EINTR then
               (if retries + 1 \<ge> max_write_retries C then Some (Stop (Inl SendFailed, remove_socket x1))
                else Some (Again (tot, retries + 1, x1)))
             else if e = EAGAIN then
               (case do_wait K x1 of (c, x2) \<Rightarrow>
                  if c then Some (Stop (Inl SendCancelled, remove_socket x2)) else Some (Again (tot, retries, x2)))
             else Some (Stop (Inl SendFailed, remove_socket x1)))))"

definition async_send :: "proto \<Rightarrow> addr \<Rightarrow> cfg \<Rightarrow> 'k kernel \<Rightarrow> byte list \<Rightarrow> 'k io \<Rightarrow> ((SendError + nat) \<times> 'k io) option" where
  "async_send p a C K buf x = iter (async_send_body p a C K buf) (0, 0, x)"

section \<open>send and receive\<close>

definition send_aux :: "proto \<Rightarrow> addr \<Rightarrow> 'k kernel \<Rightarrow> byte list \<Rightarrow> 'k io \<Rightarrow> int \<times> 'k io" where
  "send_aux p a K buf x = (if sh_fd (io_hdr x) < 0 then (- 1, x)
     else if p = UDP \<and> a = Valueless then (- 1, x)
     else case do_send K buf x of (Inl e, x1) \<Rightarrow> (- 1, x1\<lparr>io_errno := e\<rparr>) | (Inr n, x1) \<Rightarrow> (int n, x1))"

definition receive_body :: "'k kernel \<Rightarrow> nat \<Rightarrow> nat \<Rightarrow> byte list \<times> 'k io \<Rightarrow> (byte list \<times> 'k io, (SendError + byte list) \<times> 'k io) ctl option" where
  "receive_body K chunk_size maxSize st = (case st of (result, x) \<Rightarrow>
     if \<not> length result < maxSize then Some (Stop (Inr result, x))
     else let want = min chunk_size (maxSize - length result) in
       (case do_recv K (of_nat want) x of (res, x1) \<Rightarrow>
        case res of
          Inl e \<Rightarrow> if e = EAGAIN then Some (Stop (Inr result, x1)) else Some (Stop (Inl RecvFailed, x1))
        | Inr bs \<Rightarrow>
            (if bs = [] then Some (Stop (Inr result, x1))
             else if length bs < want then Some (Stop (Inr (result @ bs), x1))
             else Some (Again (result @ bs, x1)))))"

definition receive :: "proto \<Rightarrow> addr \<Rightarrow> 'k kernel \<Rightarrow> nat \<Rightarrow> nat \<Rightarrow> 'k io \<Rightarrow> ((SendError + byte list) \<times> 'k io) option" where
  "receive p a K chunk_size maxSize x = (if p = UDP \<and> a = Valueless then Some (Inl InvalidAddressVariant, x)
     else iter (receive_body K chunk_size maxSize) ([], x))"

definition send_recv :: "proto \<Rightarrow> addr \<Rightarrow> 'k kernel \<Rightarrow> byte list \<Rightarrow> nat \<Rightarrow> nat \<Rightarrow> 'k io \<Rightarrow> ((SendError + byte list) \<times> 'k io) option" where
  "send_recv p a K buf chunkSize maxSize x = (case send_aux p a K buf x of (r, x1) \<Rightarrow>
     if r \<noteq> - 1 then receive p a K chunkSize maxSize x1 else Some (Inl InvalidSocketFd, x1))"

section \<open>What the loops rely on\<close>

text \<open>
  The documented behaviour of a stream socket. \<open>inc k\<close> are the bytes the peer sends that have not been received yet:
  \<open>recv\<close> returns at most as many bytes as asked for, in order, and an error consumes none. \<open>waits k\<close> bounds how often
  the kernel will still answer \<open>EAGAIN\<close> (the peer keeps sending, or closes).
\<close>

definition kernel_stream :: "'k kernel \<Rightarrow> ('k \<Rightarrow> byte list) \<Rightarrow> ('k \<Rightarrow> nat) \<Rightarrow> bool" where
  "kernel_stream K inc waits \<longleftrightarrow>
     (\<forall>n k r k1. k_recv K n k = (r, k1) \<longrightarrow> waits k1 \<le> waits k
        \<and> (\<forall>bs. r = Inr bs \<longrightarrow> length bs \<le> unat n \<and> inc k = bs @ inc k1)
        \<and> (\<forall>e. r = Inl e \<longrightarrow> inc k1 = inc k) \<and> (r = Inl EAGAIN \<longrightarrow> 0 < waits k1))
     \<and> (\<forall>k h c k1 h1. k_wait K (k, h) = (c, k1, h1) \<longrightarrow> inc k1 = inc k \<and> (0 < waits k \<longrightarrow> waits k1 < waits k))
     \<and> (\<forall>k h k1 h1. k_yield K (k, h) = (k1, h1) \<longrightarrow> inc k1 = inc k \<and> waits k1 \<le> waits k)"

lemma do_recv_stream:
  assumes "kernel_stream K inc waits" "do_recv K n x = (r, x1)"
  shows "io_buf x1 = io_buf x" "io_dst x1 = io_dst x" "waits (io_k x1) \<le> waits (io_k x)"
    "\<And>bs. r = Inr bs \<Longrightarrow> length bs \<le> unat n \<and> inc (io_k x) = bs @ inc (io_k x1)"
    "\<And>e. r = Inl e \<Longrightarrow> inc (io_k x1) = inc (io_k x)" "r = Inl EAGAIN \<Longrightarrow> 0 < waits (io_k x1)"
proof -
  obtain k1 where k: "k_recv K n (io_k x) = (r, k1)" "x1 = x\<lparr>io_k := k1\<rparr>" using assms(2) by (auto simp: do_recv_def split: prod.splits)
  have "waits k1 \<le> waits (io_k x) \<and> (\<forall>bs. r = Inr bs \<longrightarrow> length bs \<le> unat n \<and> inc (io_k x) = bs @ inc k1)
      \<and> (\<forall>e. r = Inl e \<longrightarrow> inc k1 = inc (io_k x)) \<and> (r = Inl EAGAIN \<longrightarrow> 0 < waits k1)"
    using assms(1) k(1) unfolding kernel_stream_def by blast
  then show "io_buf x1 = io_buf x" "io_dst x1 = io_dst x" "waits (io_k x1) \<le> waits (io_k x)"
    "\<And>bs. r = Inr bs \<Longrightarrow> length bs \<le> unat n \<and> inc (io_k x) = bs @ inc (io_k x1)"
    "\<And>e. r = Inl e \<Longrightarrow> inc (io_k x1) = inc (io_k x)" "r = Inl EAGAIN \<Longrightarrow> 0 < waits (io_k x1)"
    using k(2) by simp_all
qed

lemma do_wait_stream:
  assumes "kernel_stream K inc waits" "do_wait K x = (c, x1)" "0 < waits (io_k x)"
  shows "io_buf x1 = io_buf x" "io_dst x1 = io_dst x" "inc (io_k x1) = inc (io_k x)" "waits (io_k x1) < waits (io_k x)"
proof -
  obtain k1 h1 where k: "k_wait K (io_k x, io_hdr x) = (c, k1, h1)" "x1 = x\<lparr>io_k := k1, io_hdr := h1\<rparr>"
    using assms(2) by (auto simp: do_wait_def split: prod.splits)
  then have "inc k1 = inc (io_k x) \<and> (0 < waits (io_k x) \<longrightarrow> waits k1 < waits (io_k x))"
    using assms(1) unfolding kernel_stream_def by blast
  then show "io_buf x1 = io_buf x" "io_dst x1 = io_dst x" "inc (io_k x1) = inc (io_k x)" "waits (io_k x1) < waits (io_k x)"
    using k assms(3) by simp_all
qed

lemma do_coop_stream:
  assumes "kernel_stream K inc waits"
  shows "io_buf (do_coop K x) = io_buf x" "inc (io_k (do_coop K x)) = inc (io_k x)"
proof -
  obtain k1 h1 where k: "k_yield K (io_k x, io_hdr x) = (k1, h1)" by fastforce
  then have "inc k1 = inc (io_k x)" using assms unfolding kernel_stream_def by blast
  then show "io_buf (do_coop K x) = io_buf x" "inc (io_k (do_coop K x)) = inc (io_k x)" using k by (simp_all add: do_coop_def)
qed

lemma side_steps [simp]:
  "io_buf (epoch_bump C b x) = io_buf x" "io_k (epoch_bump C b x) = io_k x" "io_dst (epoch_bump C b x) = io_dst x"
  "io_buf (before_read x) = io_buf x" "io_k (before_read x) = io_k x" "io_dst (before_read x) = io_dst x"
  "io_buf (before_write x) = io_buf x" "io_k (before_write x) = io_k x"
  "io_buf (remove_socket x) = io_buf x" "io_k (remove_socket x) = io_k x" "io_dst (remove_socket x) = io_dst x"
  by (simp_all add: epoch_bump_def before_read_def before_write_def remove_socket_def)

lemma sint_small: "unat (w :: u64) < 2 ^ 63 \<Longrightarrow> sint w = int (unat w)"
proof -
  assume "unat w < 2 ^ 63"
  then have "int (unat w) < 2 ^ 63" by (metis of_nat_less_iff of_nat_numeral of_nat_power)
  then have u: "uint w < 2 ^ 63" by simp
  have n: "- (2 ^ 63) \<le> uint w" using order_trans [of "- (2 ^ 63)" 0 "uint w"] by simp
  have "sint w = signed_take_bit 63 (uint w)" by (simp add: sint_uint)
  also have "\<dots> = uint w" by (rule signed_take_bit_int_eq_self [OF n u])
  finally show ?thesis by simp
qed

section \<open>async_read\<close>

text \<open>What one TCP read has done so far: \<open>bs\<close> were taken from the stream and appended to the buffer.\<close>

definition read_inv :: "('k \<Rightarrow> byte list) \<Rightarrow> u64 \<Rightarrow> 'k io \<Rightarrow> int \<times> int \<times> 'k io \<Rightarrow> bool" where
  "read_inv inc mx x0 st \<longleftrightarrow> (case st of (tot, retries, x) \<Rightarrow> db_ok (io_buf x) \<and> 0 \<le> retries
     \<and> (\<exists>bs. inc (io_k x0) = bs @ inc (io_k x) \<and> db_bytes (io_buf x) = db_bytes (io_buf x0) @ map Some bs
          \<and> tot = int (length bs) \<and> length bs \<le> unat mx))"

definition read_result :: "('k \<Rightarrow> byte list) \<Rightarrow> u64 \<Rightarrow> 'k io \<Rightarrow> (int \<times> 'k io) exec \<Rightarrow> bool" where
  "read_result inc mx x0 r \<longleftrightarrow> (\<exists>n x bs. r = Ret (n, x) \<and> db_ok (io_buf x) \<and> inc (io_k x0) = bs @ inc (io_k x)
     \<and> db_bytes (io_buf x) = db_bytes (io_buf x0) @ map Some bs \<and> length bs \<le> unat mx \<and> (n = int (length bs) \<or> n = - 1))"

definition read_measure :: "cfg \<Rightarrow> ('k \<Rightarrow> nat) \<Rightarrow> u64 \<Rightarrow> int \<times> int \<times> 'k io \<Rightarrow> nat" where
  "read_measure C waits mx st = (case st of (tot, retries, x) \<Rightarrow>
     waits (io_k x) + (unat mx - nat tot) * (nat (max_read_retries C) + 1) + (nat (max_read_retries C) - nat retries))"

lemma wait_or_cancel_cases:
  obtains c x1 where "do_wait K x = (c, x1)" "wait_or_cancel K nxt x =
    (if c then Some (Stop (Ret (- 1, x1\<lparr>io_errno := ECANCELED\<rparr>))) else Some (Again (nxt x1)))"
  by (cases "do_wait K x") (auto simp: wait_or_cancel_def)

definition read_ok :: "cfg \<Rightarrow> ('k \<Rightarrow> byte list) \<Rightarrow> ('k \<Rightarrow> nat) \<Rightarrow> u64 \<Rightarrow> 'k io \<Rightarrow> int \<times> int \<times> 'k io
    \<Rightarrow> (int \<times> int \<times> 'k io, (int \<times> 'k io) exec) ctl option \<Rightarrow> bool" where
  "read_ok C inc waits mx x0 st r \<longleftrightarrow> (\<exists>c. r = Some c \<and> (case c of Stop q \<Rightarrow> read_result inc mx x0 q
    | Again st1 \<Rightarrow> read_inv inc mx x0 st1 \<and> read_measure C waits mx st1 < read_measure C waits mx st))"

lemma read_okI:
  "read_result inc mx x0 q \<Longrightarrow> read_ok C inc waits mx x0 st (Some (Stop q))"
  "read_inv inc mx x0 st1 \<Longrightarrow> read_measure C waits mx st1 < read_measure C waits mx st \<Longrightarrow> read_ok C inc waits mx x0 st (Some (Again st1))"
  by (auto simp: read_ok_def)

lemma read_resultI:
  assumes "read_inv inc mx x0 (tot, retries, x)" "io_buf y = io_buf x" "io_k y = io_k x" "n = tot \<or> n = - 1"
  shows "read_result inc mx x0 (Ret (n, y))"
  using assms by (auto simp: read_result_def read_inv_def)

lemma read_tcp_error_ok:
  assumes K: "kernel_stream K inc waits" and i: "read_inv inc mx x0 (tot, retries, x1)" and e: "e = EAGAIN \<Longrightarrow> 0 < waits (io_k x1)"
    and w: "waits (io_k x1) \<le> waits (io_k x)"
  shows "read_ok C inc waits mx x0 (tot, retries, x) (read_tcp_error C K tot retries e x1)"
proof -
  have stop: "read_ok C inc waits mx x0 st (Some (Stop (Ret (n, y))))" if "io_buf y = io_buf x1" "io_k y = io_k x1" "n = tot \<or> n = - 1" for st n y
    using read_okI(1) read_resultI [OF i that] .
  show ?thesis
  proof (cases "e = EINTR")
    case True
    show ?thesis
    proof (cases "retries + 1 \<ge> max_read_retries C")
      case False
      have "0 \<le> retries" using i by (simp add: read_inv_def)
      then have "nat (max_read_retries C) - nat (retries + 1) < nat (max_read_retries C) - nat retries" using False by linarith
      then have "read_measure C waits mx (tot, retries + 1, x1) < read_measure C waits mx (tot, retries, x)"
        using w unfolding read_measure_def prod.case by (intro add_le_less_mono add_right_mono)
      moreover have "read_inv inc mx x0 (tot, retries + 1, x1)" using i by (simp add: read_inv_def)
      ultimately show ?thesis using True False by (simp add: read_tcp_error_def read_okI(2))
    qed (use True stop in \<open>simp add: read_tcp_error_def\<close>)
  next
    case False
    show ?thesis
    proof (cases "e = EAGAIN \<and> \<not> tot > 0")
      case True
      obtain c y where y: "do_wait K x1 = (c, y)" "wait_or_cancel K (\<lambda>x. (tot, retries, x)) x1 =
          (if c then Some (Stop (Ret (- 1, y\<lparr>io_errno := ECANCELED\<rparr>))) else Some (Again (tot, retries, y)))"
        by (rule wait_or_cancel_cases)
      note s = do_wait_stream [OF K y(1) e]
      have iy: "read_inv inc mx x0 (tot, retries, y)" using i s True by (simp add: read_inv_def)
      have "waits (io_k y) < waits (io_k x1)" using s(4) True by simp
      then have "read_measure C waits mx (tot, retries, y) < read_measure C waits mx (tot, retries, x)" using w by (simp add: read_measure_def)
      moreover have "read_result inc mx x0 (Ret (- 1, y\<lparr>io_errno := ECANCELED\<rparr>))" by (rule read_resultI [OF iy]) simp_all
      ultimately show ?thesis using True False y(2) iy by (auto simp: read_tcp_error_def intro!: read_okI)
    qed (use False stop in \<open>auto simp: read_tcp_error_def\<close>)
  qed
qed

lemma read_tcp_data_ok:
  assumes i: "read_inv inc mx x0 (tot, retries, x)" and b: "db_ok b" "db_bytes b = db_bytes (io_buf x)" "io_buf x1 = b"
    and k: "inc (io_k x) = cs @ inc (io_k x1)" "length cs \<le> unat n" "unat n \<le> unat mx - nat tot" "waits (io_k x1) \<le> waits (io_k x)"
    and cap: "unat (db_size b) + unat n \<le> unat (db_cap b)"
  shows "read_ok C inc waits mx x0 (tot, retries, x) (read_tcp_data C tot n (db_size b) cs x1)"
proof -
  obtain bs where bs: "inc (io_k x0) = bs @ inc (io_k x)" "db_bytes (io_buf x) = db_bytes (io_buf x0) @ map Some bs"
    "tot = int (length bs)" "length bs \<le> unat mx" using i by (auto simp: read_inv_def)
  show ?thesis
  proof (cases "cs = []")
    case True
    then have "read_inv inc mx x0 (tot, retries, x1)" using i b k by (auto simp: read_inv_def)
    from read_resultI [OF this] show ?thesis using True by (auto simp: read_tcp_data_def intro!: read_okI(1))
  next
    case False
    have "unat (db_size b) + length cs \<le> unat (db_cap b)" using cap k(2) by simp
    then obtain b2 where b2: "store_at (db_size b) cs b = Ret b2" "db_ok (commit (of_nat (length cs)) b2)"
      "db_bytes (commit (of_nat (length cs)) b2) = db_bytes b @ map Some cs" using store_commit_spec [OF b(1)] by blast
    let ?x = "x1\<lparr>io_buf := commit (of_nat (length cs)) b2\<rparr>"
    have "length bs + length cs \<le> unat mx" using bs(3) k(2,3) bs(4) by simp
    then have iv: "read_inv inc mx x0 (tot + int (length cs), 0, ?x)"
      using bs k(1) b b2 by (auto simp: read_inv_def intro!: exI [of _ "bs @ cs"])
    have lt: "unat mx - nat (tot + int (length cs)) < unat mx - nat tot" using False bs(3) \<open>length bs + length cs \<le> unat mx\<close>
      by (simp flip: of_nat_add) (metis diff_less_mono2 length_greater_0_conv less_add_same_cancel1 order_less_le_trans)
    have "read_measure C waits mx (tot + int (length cs), 0, ?x) < read_measure C waits mx (tot, retries, x)"
    proof -
      let ?R = "nat (max_read_retries C)"
      have "(unat mx - nat (tot + int (length cs)) + 1) * (?R + 1) \<le> (unat mx - nat tot) * (?R + 1)"
        using lt by (intro mult_right_mono) auto
      then show ?thesis using k(4) by (simp add: read_measure_def)
    qed
    then show ?thesis using False b(3) b2(1) iv read_resultI [OF iv] by (auto simp: read_tcp_data_def Let_def intro!: read_okI)
  qed
qed

lemma chunk_le: "unat (chunk r) \<le> unat r" "0 < unat r \<Longrightarrow> 0 < unat (chunk r)"
  by (auto simp: chunk_def word_less_nat_alt)

lemma read_tcp_body_ok:
  assumes K: "kernel_stream K inc waits" and g: "\<And>c. c_grants C c" and mx: "unat mx < 2 ^ 63" "length (db_bytes (io_buf x0)) + unat mx \<le> 2 ^ 63"
    and i: "read_inv inc mx x0 st"
  shows "read_ok C inc waits mx x0 st (read_tcp_body C K mx st)"
proof -
  obtain tot retries x where st: "st = (tot, retries, x)" by (cases st) auto
  obtain bs where bs: "db_bytes (io_buf x) = db_bytes (io_buf x0) @ map Some bs"
    "tot = int (length bs)" "length bs \<le> unat mx" and b: "db_ok (io_buf x)" using i by (auto simp: read_inv_def st)
  show ?thesis
  proof (cases "tot < sint mx")
    case False
    then show ?thesis using read_resultI [OF i [unfolded st]] by (auto simp: read_tcp_body_def st intro!: read_okI(1))
  next
    case True
    then have lt: "length bs < unat mx" unfolding bs(2) sint_small [OF mx(1)] by (simp only: of_nat_less_iff)
    define n where "n = chunk (mx - of_int tot)"
    have "unat (mx - of_int tot) = unat mx - length bs" using bs(2) lt mx(1) by (simp add: unat_sub_if' unat_of_nat)
    then have n: "unat n \<le> unat mx - nat tot" using chunk_le(1) [of "mx - of_int tot"] bs(2) by (simp add: n_def)
    have "unat (db_size (io_buf x)) + unat n \<le> 2 ^ 63" using db_bytes_length [OF b] bs n mx(2) by simp
    then obtain b1 where b1: "reserve_tail (c_grants C) n (io_buf x) = Some (Ret (db_size (io_buf x), b1))" "db_ok b1"
      "db_bytes b1 = db_bytes (io_buf x)" "db_size b1 = db_size (io_buf x)" "unat (db_size (io_buf x)) + unat n \<le> unat (db_cap b1)"
      using reserve_tail_spec [OF b, of n "c_grants C"] g by blast
    obtain r x1 where r: "do_recv K n (before_read (x\<lparr>io_buf := b1\<rparr>)) = (r, x1)" by fastforce
    note s = do_recv_stream [OF K r]
    have x1: "io_buf x1 = b1" "waits (io_k x1) \<le> waits (io_k x)" using s(1,3) by simp_all
    have body: "read_tcp_body C K mx st = (case r of Inr cs \<Rightarrow> read_tcp_data C tot n (db_size b1) cs x1 | Inl e \<Rightarrow> read_tcp_error C K tot retries e x1)"
      using True by (simp add: read_tcp_body_def st Let_def b1(1) r flip: n_def b1(4))
    show ?thesis
    proof (cases r)
      case (Inl e)
      have "read_inv inc mx x0 (tot, retries, x1)" using i s(5) [OF Inl] x1(1) b1 by (auto simp: read_inv_def st)
      from read_tcp_error_ok [OF K this _ x1(2), of e C] s(6) Inl show ?thesis unfolding body unfolding st by simp
    next
      case (Inr cs)
      then show ?thesis using read_tcp_data_ok [OF i [unfolded st] b1(2,3) x1(1) _ _ n x1(2), of cs C] s(4) [OF Inr] b1(4,5)
        unfolding body unfolding st by simp
    qed
  qed
qed

section \<open>Properties\<close>

text \<open>
  C15. \<open>async_read\<close> on a TCP socket returns whenever the kernel answers \<open>EAGAIN\<close> only finitely often, whatever
  errors and interruptions happen in between, and loses nothing: the bytes it took from the stream, at most
  \<open>max_read_size\<close> of them, are appended to the buffer in order, and the result is their number or \<open>-1\<close>.
\<close>

theorem async_read_stream:
  assumes "kernel_stream K inc waits" "\<And>c. c_grants C c" "db_ok (io_buf x)"
    "0 < unat mx" "unat mx < 2 ^ 63" "length (db_bytes (io_buf x)) + unat mx \<le> 2 ^ 63"
  shows "\<exists>n x' bs. async_read TCP C K mx x = Some (Ret (n, x')) \<and> inc (io_k x) = bs @ inc (io_k x')
    \<and> db_bytes (io_buf x') = db_bytes (io_buf x) @ map Some bs \<and> length bs \<le> unat mx \<and> (n = int (length bs) \<or> n = - 1)"
proof -
  note c = do_coop_stream [OF assms(1), of x]
  have i: "read_inv inc mx (do_coop K x) (0, 0, do_coop K x)" using assms(3) c by (simp add: read_inv_def)
  have "\<exists>r. iter (read_tcp_body C K mx) (0, 0, do_coop K x) = Some r \<and> read_result inc mx (do_coop K x) r"
    by (rule iter_returns [where I = "read_inv inc mx (do_coop K x)" and m = "read_measure C waits mx", OF i])
      (use read_tcp_body_ok [OF assms(1,2,5), of "do_coop K x"] assms(6) c in \<open>simp add: read_ok_def\<close>)
  moreover have "mx \<noteq> 0" using assms(4) by auto
  ultimately show ?thesis using c by (auto simp: async_read_def read_result_def)
qed

text \<open>A kernel that plays a script: chunks of data, \<open>EAGAIN\<close> until the coroutine has waited, other errors once; then end of file.\<close>

type_synonym script = "(errno + byte list) list"

fun script_recv :: "u64 \<Rightarrow> script \<Rightarrow> (errno + byte list) \<times> script" where
  "script_recv n [] = (Inr [], [])"
| "script_recv n (Inl e # s) = (if e = EAGAIN then (Inl e, Inl e # s) else (Inl e, s))"
| "script_recv n (Inr bs # s) = (Inr (take (unat n) bs), if length bs \<le> unat n then s else Inr (drop (unat n) bs) # s)"

definition script_kernel :: "script kernel" where
  "script_kernel = \<lparr>k_recv = script_recv, k_send = (\<lambda>bs s. (Inr (length bs), s)),
     k_wait = (\<lambda>(s, h). (False, remove1 (Inl EAGAIN) s, h)), k_yield = id\<rparr>"

definition script_bytes :: "script \<Rightarrow> byte list" where
  "script_bytes s = concat (map (\<lambda>a. case a of Inl e \<Rightarrow> [] | Inr bs \<Rightarrow> bs) s)"

lemma script_bytes_remove: "script_bytes (remove1 (Inl EAGAIN) s) = script_bytes s"
  by (induction s) (auto simp: script_bytes_def split: sum.splits)

lemma count_remove: "0 < count_list s a \<Longrightarrow> count_list (remove1 a s) a < count_list s a"
  by (induction s) auto

lemma script_kernel_stream: "kernel_stream script_kernel script_bytes (\<lambda>s. count_list s (Inl EAGAIN))"
proof -
  have r: "count_list k1 (Inl EAGAIN) \<le> count_list k (Inl EAGAIN) \<and> (\<forall>bs. r = Inr bs \<longrightarrow> length bs \<le> unat n \<and> script_bytes k = bs @ script_bytes k1)
    \<and> (\<forall>e. r = Inl e \<longrightarrow> script_bytes k1 = script_bytes k) \<and> (r = Inl EAGAIN \<longrightarrow> 0 < count_list k1 (Inl EAGAIN))"
    if "script_recv n k = (r, k1)" for n k r k1
    using that by (cases "(n, k)" rule: script_recv.cases) (auto simp: script_bytes_def split: if_splits)
  show ?thesis unfolding kernel_stream_def using r by (simp add: script_kernel_def script_bytes_remove count_remove)
qed

definition demo_cfg :: cfg where
  "demo_cfg = \<lparr>c_reuse = True, max_read_retries = 100, max_write_retries = 100, c_grants = (\<lambda>_. True)\<rparr>"

definition demo_io :: "script \<Rightarrow> script io" where
  "demo_io s = \<lparr>io_hdr = demo_header, io_buf = db_new, io_dst = [], io_k = s, io_errno = E_other 0\<rparr>"

theorem async_read_stream_witness:
  "\<exists>n x' bs. async_read TCP demo_cfg script_kernel 16 (demo_io [Inl EINTR, Inl EAGAIN, Inr [1, 2, 3], Inr [4]]) = Some (Ret (n, x'))
    \<and> [1, 2, 3, 4] = bs @ script_bytes (io_k x') \<and> db_bytes (io_buf x') = map Some bs \<and> (n = int (length bs) \<or> n = - 1)"
  using async_read_stream [OF script_kernel_stream, of demo_cfg "demo_io [Inl EINTR, Inl EAGAIN, Inr [1, 2, 3], Inr [4]]" 16]
  by (fastforce simp: demo_cfg_def demo_io_def script_bytes_def)

section \<open>async_send and async_write\<close>

text \<open>A socket that is written to: \<open>outp k\<close> is what the peer will receive; \<open>send\<close> takes a prefix of what it is given.\<close>

definition kernel_sink :: "'k kernel \<Rightarrow> ('k \<Rightarrow> byte list) \<Rightarrow> ('k \<Rightarrow> nat) \<Rightarrow> bool" where
  "kernel_sink K outp waits \<longleftrightarrow>
     (\<forall>bs k r k1. k_send K bs k = (r, k1) \<longrightarrow> waits k1 \<le> waits k
        \<and> (\<forall>n. r = Inr n \<longrightarrow> n \<le> length bs \<and> outp k1 = outp k @ take n bs)
        \<and> (\<forall>e. r = Inl e \<longrightarrow> outp k1 = outp k) \<and> (r = Inl EAGAIN \<longrightarrow> 0 < waits k1))
     \<and> (\<forall>k h c k1 h1. k_wait K (k, h) = (c, k1, h1) \<longrightarrow> outp k1 = outp k \<and> (0 < waits k \<longrightarrow> waits k1 < waits k))
     \<and> (\<forall>k h k1 h1. k_yield K (k, h) = (k1, h1) \<longrightarrow> outp k1 = outp k \<and> waits k1 \<le> waits k)"

lemma do_send_sink:
  assumes "kernel_sink K outp waits" "do_send K bs x = (r, x1)"
  shows "waits (io_k x1) \<le> waits (io_k x)" "\<And>n. r = Inr n \<Longrightarrow> n \<le> length bs \<and> outp (io_k x1) = outp (io_k x) @ take n bs"
    "\<And>e. r = Inl e \<Longrightarrow> outp (io_k x1) = outp (io_k x)" "r = Inl EAGAIN \<Longrightarrow> 0 < waits (io_k x1)"
proof -
  obtain k1 where k: "k_send K bs (io_k x) = (r, k1)" "x1 = x\<lparr>io_k := k1\<rparr>" using assms(2) by (auto simp: do_send_def split: prod.splits)
  have "waits k1 \<le> waits (io_k x) \<and> (\<forall>n. r = Inr n \<longrightarrow> n \<le> length bs \<and> outp k1 = outp (io_k x) @ take n bs)
      \<and> (\<forall>e. r = Inl e \<longrightarrow> outp k1 = outp (io_k x)) \<and> (r = Inl EAGAIN \<longrightarrow> 0 < waits k1)"
    using assms(1) k(1) unfolding kernel_sink_def by blast
  then show "waits (io_k x1) \<le> waits (io_k x)" "\<And>n. r = Inr n \<Longrightarrow> n \<le> length bs \<and> outp (io_k x1) = outp (io_k x) @ take n bs"
    "\<And>e. r = Inl e \<Longrightarrow> outp (io_k x1) = outp (io_k x)" "r = Inl EAGAIN \<Longrightarrow> 0 < waits (io_k x1)" using k(2) by simp_all
qed

lemma do_wait_sink:
  assumes "kernel_sink K outp waits" "do_wait K x = (c, x1)" "0 < waits (io_k x)"
  shows "outp (io_k x1) = outp (io_k x)" "waits (io_k x1) < waits (io_k x)"
proof -
  obtain k1 h1 where k: "k_wait K (io_k x, io_hdr x) = (c, k1, h1)" "x1 = x\<lparr>io_k := k1, io_hdr := h1\<rparr>"
    using assms(2) by (auto simp: do_wait_def split: prod.splits)
  then have "outp k1 = outp (io_k x) \<and> (0 < waits (io_k x) \<longrightarrow> waits k1 < waits (io_k x))"
    using assms(1) unfolding kernel_sink_def by blast
  then show "outp (io_k x1) = outp (io_k x)" "waits (io_k x1) < waits (io_k x)" using k assms(3) by simp_all
qed

text \<open>A writer has handed over a prefix of its buffer.\<close>

definition send_inv :: "('k \<Rightarrow> byte list) \<Rightarrow> byte list \<Rightarrow> 'k io \<Rightarrow> nat \<times> int \<times> 'k io \<Rightarrow> bool" where
  "send_inv outp buf x0 st \<longleftrightarrow> (case st of (tot, retries, x) \<Rightarrow> tot \<le> length buf \<and> 0 \<le> retries \<and> outp (io_k x) = outp (io_k x0) @ take tot buf)"

definition send_measure :: "cfg \<Rightarrow> ('k \<Rightarrow> nat) \<Rightarrow> byte list \<Rightarrow> nat \<times> int \<times> 'k io \<Rightarrow> nat" where
  "send_measure C waits buf st = (case st of (tot, retries, x) \<Rightarrow>
     waits (io_k x) + (length buf - tot) * (nat (max_write_retries C) + 1) + (nat (max_write_retries C) - nat retries))"

definition send_result :: "('k \<Rightarrow> byte list) \<Rightarrow> byte list \<Rightarrow> 'k io \<Rightarrow> (SendError + nat) \<times> 'k io \<Rightarrow> bool" where
  "send_result outp buf x0 r \<longleftrightarrow> (case r of
     (Inr n, x) \<Rightarrow> n = length buf \<and> outp (io_k x) = outp (io_k x0) @ buf
   | (Inl e, x) \<Rightarrow> \<exists>m<length buf. outp (io_k x) = outp (io_k x0) @ take m buf)"

lemma send_resultI:
  "outp (io_k x) = outp (io_k x0) @ buf \<Longrightarrow> send_result outp buf x0 (Inr (length buf), x)"
  "tot < length buf \<Longrightarrow> outp (io_k x) = outp (io_k x0) @ take tot buf \<Longrightarrow> send_result outp buf x0 (Inl e, x)"
  by (auto simp: send_result_def)

lemma measure_progress:
  assumes "tot < tot1" "tot1 \<le> (l :: nat)" "w1 \<le> w"
  shows "w1 + (l - tot1) * (R + 1) + (R - 0) < w + (l - tot) * (R + 1) + (R - r)"
proof -
  have "(l - tot1 + 1) * (R + 1) \<le> (l - tot) * (R + 1)" using assms(1,2) by (intro mult_right_mono) auto
  then show ?thesis using assms(3) by simp
qed

lemma measure_retry: "w1 \<le> w \<Longrightarrow> 0 \<le> r \<Longrightarrow> \<not> r + 1 \<ge> R \<Longrightarrow> (w1 :: nat) + c + (nat R - nat (r + 1)) < w + c + (nat R - nat r)"
  by linarith

lemma async_send_body_ok:
  assumes K: "kernel_sink K outp waits" and i: "send_inv outp buf x0 st"
  shows "\<exists>c. async_send_body p a C K buf st = Some c \<and> (case c of Stop r \<Rightarrow> send_result outp buf x0 r
    | Again st1 \<Rightarrow> send_inv outp buf x0 st1 \<and> send_measure C waits buf st1 < send_measure C waits buf st)"
proof -
  obtain tot retries x where st: "st = (tot, retries, x)" by (cases st) auto
  have iv: "tot \<le> length buf" "0 \<le> retries" "outp (io_k x) = outp (io_k x0) @ take tot buf" using i by (auto simp: send_inv_def st)
  have err: "send_result outp buf x0 (Inl e, y)" if "tot < length buf" "outp (io_k y) = outp (io_k x0) @ take tot buf" for e y
    using send_resultI(2) [OF that] .
  show ?thesis
  proof (cases "\<not> tot < length buf \<or> is_disconnected_now (io_hdr (before_write x)) \<or> p = UDP \<and> a = Valueless")
    case True
    have "send_result outp buf x0 (Inr tot, epoch_bump C b x)" if "\<not> tot < length buf" for b
      using that iv send_resultI(1) [of outp "epoch_bump C b x" x0 buf] by simp
    then show ?thesis using True iv err by (cases "tot < length buf") (auto simp: async_send_body_def st Let_def)
  next
    case False
    obtain r x1 where r: "do_send K (drop tot buf) (before_write x) = (r, x1)" by fastforce
    note s = do_send_sink [OF K r]
    have w: "waits (io_k x1) \<le> waits (io_k x)" using s(1) by simp
    show ?thesis
    proof (cases r)
      case (Inr n)
      have o: "tot + n \<le> length buf" "outp (io_k x1) = outp (io_k x0) @ take (tot + n) buf"
        using s(2) [OF Inr] iv False by (auto simp: take_add)
      have "send_measure C waits buf (tot + n, 0, x1) < send_measure C waits buf (tot, retries, x)" if "0 < n"
        unfolding send_measure_def prod.case using measure_progress [OF _ o(1) w] that by simp
      moreover have "send_result outp buf x0 (Inr (tot + n), epoch_bump C True x1)" if "length buf \<le> tot + n"
        using that o send_resultI(1) [of outp "epoch_bump C True x1" x0 buf] by simp
      ultimately show ?thesis using False Inr r o iv err [of "remove_socket x1"] by (auto simp: async_send_body_def st Let_def send_inv_def)
    next
      case (Inl e)
      have o: "outp (io_k x1) = outp (io_k x0) @ take tot buf" using s(3) [OF Inl] iv(3) by simp
      show ?thesis
      proof (cases "e = EAGAIN")
        case True
        obtain c x2 where d: "do_wait K x1 = (c, x2)" by fastforce
        have "outp (io_k x2) = outp (io_k x1)" "waits (io_k x2) < waits (io_k x1)" using do_wait_sink [OF K d] s(4) Inl True by auto
        moreover from this have "send_measure C waits buf (tot, retries, x2) < send_measure C waits buf (tot, retries, x)"
          unfolding send_measure_def prod.case using w by (intro add_strict_right_mono) simp
        ultimately show ?thesis using False Inl True r d o iv err [of "remove_socket x2"]
          by (auto simp: async_send_body_def st Let_def send_inv_def)
      next
        case ne: False
        have "send_measure C waits buf (tot, retries + 1, x1) < send_measure C waits buf (tot, retries, x)" if "\<not> retries + 1 \<ge> max_write_retries C"
          unfolding send_measure_def prod.case using measure_retry [OF w iv(2) that] .
        then show ?thesis using False Inl ne r o iv err [of "remove_socket x1"]
          by (auto simp: async_send_body_def st Let_def send_inv_def)
      qed
    qed
  qed
qed

text \<open>
  C16. \<open>async_send\<close> returns whenever the kernel answers \<open>EAGAIN\<close> only finitely often, and is exact: on success the
  peer receives the whole buffer, once and in order, and the result is its length; on any error (closed, failed,
  cancelled) the peer receives a proper prefix of it.
\<close>

theorem async_send_exact:
  assumes "kernel_sink K outp waits"
  shows "\<exists>r x'. async_send p a C K buf x = Some (r, x') \<and> (case r of
      Inr n \<Rightarrow> n = length buf \<and> outp (io_k x') = outp (io_k x) @ buf
    | Inl e \<Rightarrow> \<exists>m<length buf. outp (io_k x') = outp (io_k x) @ take m buf)"
proof -
  have "\<exists>r. iter (async_send_body p a C K buf) (0, 0, x) = Some r \<and> send_result outp buf x r"
    by (rule iter_returns [where I = "send_inv outp buf x" and m = "send_measure C waits buf"])
      (use async_send_body_ok [OF assms] in \<open>simp_all add: send_inv_def\<close>)
  then show ?thesis by (auto simp: async_send_def send_result_def)
qed

text \<open>A kernel that accepts what a script allows: at most \<open>n\<close> bytes, or an error; then everything.\<close>

type_synonym sink = "(errno + nat) list \<times> byte list"

fun sink_send :: "byte list \<Rightarrow> sink \<Rightarrow> (errno + nat) \<times> sink" where
  "sink_send bs ([], out) = (Inr (length bs), ([], out @ bs))"
| "sink_send bs (Inl e # s, out) = (if e = EAGAIN then (Inl e, (Inl e # s, out)) else (Inl e, (s, out)))"
| "sink_send bs (Inr n # s, out) = (Inr (min n (length bs)), (s, out @ take n bs))"

definition sink_kernel :: "sink kernel" where
  "sink_kernel = \<lparr>k_recv = (\<lambda>n s. (Inr [], s)), k_send = sink_send,
     k_wait = (\<lambda>((s, out), h). (False, (remove1 (Inl EAGAIN) s, out), h)), k_yield = id\<rparr>"

lemma sink_kernel_sink: "kernel_sink sink_kernel snd (\<lambda>s. count_list (fst s) (Inl EAGAIN))"
proof -
  have r: "count_list (fst k1) (Inl EAGAIN) \<le> count_list (fst k) (Inl EAGAIN)
    \<and> (\<forall>n. r = Inr n \<longrightarrow> n \<le> length bs \<and> snd k1 = snd k @ take n bs)
    \<and> (\<forall>e. r = Inl e \<longrightarrow> snd k1 = snd k) \<and> (r = Inl EAGAIN \<longrightarrow> 0 < count_list (fst k1) (Inl EAGAIN))"
    if "sink_send bs k = (r, k1)" for bs k r k1
    using that by (cases "(bs, k)" rule: sink_send.cases) (auto simp: min_def split: if_splits)
  show ?thesis unfolding kernel_sink_def using r by (auto simp: sink_kernel_def count_remove)
qed

definition demo_sink :: "sink io" where
  "demo_sink = \<lparr>io_hdr = demo_header, io_buf = db_new, io_dst = [], io_k = ([Inr 2, Inl EINTR, Inl EAGAIN, Inr 1], []), io_errno = E_other 0\<rparr>"

theorem async_send_exact_witness:
  "\<exists>r x'. async_send TCP Sockaddr_in demo_cfg sink_kernel [1, 2, 3, 4, 5] demo_sink = Some (r, x')
    \<and> (case r of Inr n \<Rightarrow> n = 5 \<and> snd (io_k x') = [1, 2, 3, 4, 5] | Inl e \<Rightarrow> \<exists>m<5. snd (io_k x') = take m [1, 2, 3, 4, 5])"
proof -
  have "snd (io_k demo_sink) = []" "length [1, 2, 3, 4, 5 :: byte] = 5" by (simp_all add: demo_sink_def)
  then show ?thesis using async_send_exact [OF sink_kernel_sink, of TCP Sockaddr_in demo_cfg "[1, 2, 3, 4, 5]" demo_sink]
    by (simp only: append_Nil)
qed

section \<open>The synchronous read overruns its bound\<close>

text \<open>
  \<open>read(buffer, max_read_size)\<close> on a buffer that already holds more than \<open>max_read_size\<close> bytes does not return at
  once: the unsigned difference wraps, a whole chunk of up to 16384 bytes is received and appended beyond the
  bound the caller gave.
\<close>

theorem sync_read_overruns:
  assumes "db_ok b" "unat mx < unat (db_size b)" "unat (db_size b) \<le> 2 ^ 62" "length bs \<le> 16384" "bs \<noteq> []" "\<And>c. c_grants C c"
    "io_buf x = b" "k_recv K 16384 (io_k x) = (Inr bs, k)"
  shows "\<exists>x'. sync_read C K mx x = Some (Ret (int (length bs), x')) \<and> db_bytes (io_buf x') = db_bytes b @ map Some bs"
proof -
  have "unat (mx - db_size b) = 2 ^ 64 + unat mx - unat (db_size b)" using assms(2) by (simp add: unat_sub_if')
  moreover have "(16384 :: nat) + 2 ^ 62 \<le> 2 ^ 64" by simp
  ultimately have "16384 \<le> unat (mx - db_size b)" using assms(3) by linarith
  then have m: "min 16384 (mx - db_size b) = 16384" by (simp add: min_def word_le_nat_alt)
  have "length (db_bytes b) + length bs \<le> 2 ^ 63" using db_bytes_length [OF assms(1)] assms(3,4) by simp
  then obtain b1 where b1: "db_append (c_grants C) bs b = Some (Ret b1)" "db_ok b1" "db_bytes b1 = db_bytes b @ map Some bs"
    using db_append_spec [OF assms(1), of bs "c_grants C"] assms(6) by blast
  have "unat (db_size b1) = unat (db_size b) + length bs" using db_bytes_length [OF b1(2)] db_bytes_length [OF assms(1)] b1(3) by simp
  then have "mx \<le> db_size b1" using assms(2) by (simp add: word_le_nat_alt)
  then have "sync_read_body C K mx (0, 0, x) = Some (Stop (Ret (int (length bs), x\<lparr>io_k := k, io_buf := b1\<rparr>)))"
    using assms(5,7,8) b1(1) m by (simp add: sync_read_body_def do_recv_def Let_def)
  then show ?thesis unfolding sync_read_def by (subst iter.simps) (simp add: b1(3))
qed

definition big_buf :: dynbuf where
  "big_buf = \<lparr>db_data = Some (replicate 4096 (Some 0)), db_cap = 4096, db_size = 4\<rparr>"

theorem sync_read_overruns_witness:
  "\<exists>x'. sync_read demo_cfg script_kernel 3 ((demo_io [Inr [7, 8]])\<lparr>io_buf := big_buf\<rparr>) = Some (Ret (2, x'))
    \<and> db_bytes (io_buf x') = replicate 4 (Some 0) @ map Some [7, 8]"
proof -
  have "unat (db_cap big_buf) = 2 ^ 12" by (simp add: big_buf_def)
  then have ok: "db_ok big_buf" unfolding db_ok_def by (auto simp: big_buf_def cells_def intro!: exI [of _ 12])
  have "db_bytes big_buf = replicate 4 (Some 0)" by (simp add: db_bytes_def big_buf_def cells_def)
  then show ?thesis
    using sync_read_overruns [OF ok, of 3 "[7, 8]" demo_cfg "(demo_io [Inr [7, 8]])\<lparr>io_buf := big_buf\<rparr>" script_kernel "[]"]
    by (simp add: big_buf_def demo_cfg_def script_kernel_def demo_io_def)
qed

end
