(* ===== verification/Socket_Owner.thy ===== *)
theory Socket_Owner
  imports Socket_Wakeup
begin

text \<open>
  Owner forwarding (\<open>UVENT_SOCKET_OWNER_FORWARDING\<close>: \<open>net/SocketLinux.h\<close>, \<open>net/SocketLinux.cpp\<close>): the timer, the poll
  registration and the deletion of a socket header belong to one worker. Another worker forwards its
  maintenance operations to that worker's queue; \<open>pending_ops\<close> and the bits of \<open>tflags\<close> decide when the header is
  handed to the delete queue \<open>q_sh\<close>. The state keeps the header, the forwarded operations not yet applied, what
  was asked of the owner's timer wheel and of \<open>shutdown(2)\<close>, and how often the header was put on \<open>q_sh\<close>.
\<close>

unbundle bit_operations_syntax

datatype sock_op = Op_Timeout u64 | Op_Shutdown | Op_Destroy

datatype wheel_call = W_addTimer u64 | W_updateTimer u64 u64 | W_cancelTimer u64

record osys =
  o_hdr :: SocketHeader
  o_ops :: "sock_op list"
  o_next_id :: u64
  o_wheel :: "wheel_call list"
  o_shutdowns :: nat
  o_qsh :: nat

definition is_foreign_owner :: "int \<Rightarrow> bool \<Rightarrow> SocketHeader \<Rightarrow> bool" where
  "is_foreign_owner t_id registry h \<longleftrightarrow> sh_owner_tid h \<ge> 0 \<and> sh_owner_tid h \<noteq> t_id \<and> registry"

definition forward_socket_op :: "sock_op \<Rightarrow> osys \<Rightarrow> osys" where
  "forward_socket_op k x = x\<lparr>o_hdr := (o_hdr x)\<lparr>sh_pending_ops := sh_pending_ops (o_hdr x) + 1\<rparr>, o_ops := o_ops x @ [k]\<rparr>"

definition arm_or_refresh_socket_timer :: "u64 \<Rightarrow> osys \<Rightarrow> osys" where
  "arm_or_refresh_socket_timer ms x = (let h = o_hdr x in
     if sh_timer_id h \<noteq> 0 then x\<lparr>o_wheel := o_wheel x @ [W_updateTimer (sh_timer_id h) ms]\<rparr>
     else x\<lparr>o_hdr := h\<lparr>sh_timer_id := o_next_id x\<rparr>, o_next_id := o_next_id x + 1, o_wheel := o_wheel x @ [W_addTimer ms]\<rparr>)"

definition cancel_owner_timer :: "osys \<Rightarrow> osys" where
  "cancel_owner_timer x = (let h = o_hdr x in
     if sh_timer_id h \<noteq> 0 then x\<lparr>o_hdr := h\<lparr>sh_timer_id := 0\<rparr>, o_wheel := o_wheel x @ [W_cancelTimer (sh_timer_id h)]\<rparr> else x)"

definition teardown_socket_header_local :: "osys \<Rightarrow> osys" where
  "teardown_socket_header_local x =
    (let x1 = cancel_owner_timer x;
         h = removeEvent (close_for_new_refs (o_hdr x1));
         h1 = h\<lparr>sh_tflags := sh_tflags h OR DESTROYED\<rparr>
     in x1\<lparr>o_hdr := h1, o_qsh := if sh_pending_ops h1 = 0 then o_qsh x1 + 1 else o_qsh x1\<rparr>)"

definition apply_kind :: "sock_op \<Rightarrow> osys \<Rightarrow> osys" where
  "apply_kind k x = (case k of
     Op_Timeout ms \<Rightarrow> (if sh_tflags (o_hdr x) AND TEARDOWN_PENDING \<noteq> 0 then x
       else if sh_timer_id (o_hdr x) = 0 \<and> sh_tflags (o_hdr x) AND TIMER_CLAIMED \<noteq> 0 then x
       else arm_or_refresh_socket_timer ms x)
   | Op_Shutdown \<Rightarrow> (let x1 = cancel_owner_timer x in
       if sh_fd (o_hdr x1) \<ge> 0 then x1\<lparr>o_shutdowns := o_shutdowns x1 + 1\<rparr> else x1)
   | Op_Destroy \<Rightarrow> teardown_socket_header_local x)"

text \<open>The owner takes the operation off its queue and applies it.\<close>

definition apply_socket_op :: "sock_op \<Rightarrow> osys \<Rightarrow> osys" where
  "apply_socket_op k x =
    (let x1 = (if sh_tflags (o_hdr x) AND DESTROYED = 0 then apply_kind k x else x);
         prev = sh_pending_ops (o_hdr x1);
         x2 = x1\<lparr>o_hdr := (o_hdr x1)\<lparr>sh_pending_ops := prev - 1\<rparr>\<rparr>
     in if prev = 1 \<and> sh_tflags (o_hdr x2) AND DESTROYED \<noteq> 0 then x2\<lparr>o_qsh := o_qsh x2 + 1\<rparr> else x2)"

definition destroy :: "bool \<Rightarrow> osys \<Rightarrow> osys" where
  "destroy foreign x = (if foreign
     then forward_socket_op Op_Destroy (x\<lparr>o_hdr := (o_hdr x)\<lparr>sh_tflags := sh_tflags (o_hdr x) OR TEARDOWN_PENDING\<rparr>\<rparr>)
     else teardown_socket_header_local x)"

text \<open>\<open>RefCounted::release\<close> with the socket's \<open>destroy\<close>, run on the owner or on another worker.\<close>

definition drop_ref :: "bool \<Rightarrow> osys \<Rightarrow> osys" where
  "drop_ref foreign x = (case release (o_hdr x) of (final_ref, h) \<Rightarrow>
     if final_ref then destroy foreign (x\<lparr>o_hdr := h\<rparr>) else x\<lparr>o_hdr := h\<rparr>)"

definition claim_timer :: "osys \<Rightarrow> bool \<times> osys" where
  "claim_timer x = (sh_tflags (o_hdr x) AND TIMER_CLAIMED = 0,
     x\<lparr>o_hdr := (o_hdr x)\<lparr>sh_tflags := sh_tflags (o_hdr x) OR TIMER_CLAIMED\<rparr>\<rparr>)"

text \<open>\<open>Socket::shutdown\<close>; \<open>cancelled\<close> is the answer of the wheel's \<open>cancelTimer\<close>.\<close>

definition shutdown_socket :: "bool \<Rightarrow> bool \<Rightarrow> osys \<Rightarrow> osys" where
  "shutdown_socket foreign cancelled x =
    (if foreign then
       let had_timer = (sh_timer_id (o_hdr x) \<noteq> 0); x1 = forward_socket_op Op_Shutdown x in
       if had_timer then (case claim_timer x1 of (b, x2) \<Rightarrow> if b then drop_ref True x2 else x2) else x1
     else if sh_timer_id (o_hdr x) \<noteq> 0 then
       let x1 = x\<lparr>o_wheel := o_wheel x @ [W_cancelTimer (sh_timer_id (o_hdr x))]\<rparr> in
       if cancelled then
         (case claim_timer (x1\<lparr>o_hdr := (o_hdr x1)\<lparr>sh_timer_id := 0\<rparr>\<rparr>) of (b, x2) \<Rightarrow>
            let x3 = x2\<lparr>o_shutdowns := o_shutdowns x2 + 1\<rparr> in if b then drop_ref False x3 else x3)
       else x1\<lparr>o_shutdowns := o_shutdowns x1 + 1\<rparr>
     else x\<lparr>o_shutdowns := o_shutdowns x + 1\<rparr>)"

definition update_timeout :: "bool \<Rightarrow> u64 \<Rightarrow> osys \<Rightarrow> osys" where
  "update_timeout foreign ms x = (if foreign
     then (if sh_timer_id (o_hdr x) \<noteq> 0 then forward_socket_op (Op_Timeout ms) x else x)
     else x\<lparr>o_wheel := o_wheel x @ [W_updateTimer (sh_timer_id (o_hdr x)) ms]\<rparr>)"

definition set_timeout_ms :: "bool \<Rightarrow> u64 \<Rightarrow> osys \<Rightarrow> osys" where
  "set_timeout_ms foreign ms x =
    (if sh_timer_id (o_hdr x) \<noteq> 0 then
       (if foreign then forward_socket_op (Op_Timeout ms) x
        else x\<lparr>o_wheel := o_wheel x @ [W_updateTimer (sh_timer_id (o_hdr x)) ms]\<rparr>)
     else
       let h1 = snd (try_add_ref (o_hdr x));
           h2 = h1\<lparr>sh_tflags := sh_tflags h1 AND NOT TIMER_CLAIMED\<rparr>;
           x1 = x\<lparr>o_hdr := h2\<rparr>
       in if foreign then forward_socket_op (Op_Timeout ms) x1 else arm_or_refresh_socket_timer ms x1)"

text \<open>The timeout callback on the owner; its temporary handle drops the timer's reference.\<close>

definition timeout_on_owner :: "osys \<Rightarrow> osys" where
  "timeout_on_owner x = (case processSocketTimeout True (o_hdr x) of (rs, final_ref, h) \<Rightarrow>
     if final_ref then teardown_socket_header_local (x\<lparr>o_hdr := h\<rparr>) else x\<lparr>o_hdr := h\<rparr>)"

section \<open>Steps\<close>

definition refs :: "osys \<Rightarrow> nat" where
  "refs x = hs_count (decode_state (sh_state (o_hdr x)))"

text \<open>
  Handles are copied and dropped on any worker; while a handle exists its holder may set or update the timeout
  or shut the socket down; the owner applies forwarded operations in order and runs the timeout.
\<close>

inductive ostep :: "osys \<Rightarrow> osys \<Rightarrow> bool" where
  copy: "0 < refs x \<Longrightarrow> refs x + 1 < 2 ^ 40 \<Longrightarrow> ostep x (x\<lparr>o_hdr := add_ref (o_hdr x)\<rparr>)"
| drop: "0 < refs x \<Longrightarrow> length (o_ops x) + 1 < 2 ^ 32 \<Longrightarrow> ostep x (drop_ref foreign x)"
| timeout: "0 < refs x \<Longrightarrow> length (o_ops x) + 1 < 2 ^ 32 \<Longrightarrow> ostep x (set_timeout_ms foreign ms x)"
| refresh: "0 < refs x \<Longrightarrow> length (o_ops x) + 1 < 2 ^ 32 \<Longrightarrow> ostep x (update_timeout foreign ms x)"
| shutdown: "0 < refs x \<Longrightarrow> length (o_ops x) + 2 < 2 ^ 32 \<Longrightarrow> ostep x (shutdown_socket foreign c x)"
| apply_op: "o_ops x = k # ks \<Longrightarrow> ostep x (apply_socket_op k (x\<lparr>o_ops := ks\<rparr>))"
| expire: "sh_timer_id (o_hdr x) \<noteq> 0 \<Longrightarrow> sh_tflags (o_hdr x) AND DESTROYED = 0 \<Longrightarrow> ostep x (timeout_on_owner x)"

definition osys_init :: "osys \<Rightarrow> bool" where
  "osys_init x \<longleftrightarrow> sh_state (o_hdr x) = 1 \<and> sh_tflags (o_hdr x) = 0 \<and> sh_pending_ops (o_hdr x) = 0 \<and> sh_timer_id (o_hdr x) = 0
     \<and> o_ops x = [] \<and> o_qsh x = 0"

section \<open>The header is freed once\<close>

definition dead :: "osys \<Rightarrow> bool" where
  "dead x \<longleftrightarrow> sh_tflags (o_hdr x) AND DESTROYED \<noteq> 0"

definition down :: "osys \<Rightarrow> bool" where
  "down x \<longleftrightarrow> sh_tflags (o_hdr x) AND TEARDOWN_PENDING \<noteq> 0"

definition ops_counted :: "osys \<Rightarrow> bool" where
  "ops_counted x \<longleftrightarrow> sh_pending_ops (o_hdr x) = of_nat (length (o_ops x)) \<and> length (o_ops x) < 2 ^ 32"

text \<open>In use: a reference exists and nothing has been torn down. \<open>idle_hdr\<close> is the same without the reference.\<close>

definition idle_hdr :: "osys \<Rightarrow> bool" where
  "idle_hdr x \<longleftrightarrow> ops_counted x \<and> \<not> down x \<and> \<not> dead x \<and> Op_Destroy \<notin> set (o_ops x) \<and> o_qsh x = 0"

definition live :: "osys \<Rightarrow> bool" where
  "live x \<longleftrightarrow> 0 < refs x \<and> idle_hdr x"

definition oinv :: "osys \<Rightarrow> bool" where
  "oinv x \<longleftrightarrow> live x
     \<or> refs x = 0 \<and> ops_counted x \<and> dead x \<and> Op_Destroy \<notin> set (o_ops x) \<and> o_qsh x = (if o_ops x = [] then 1 else 0)
     \<or> refs x = 0 \<and> ops_counted x \<and> \<not> dead x \<and> down x \<and> o_qsh x = 0
       \<and> (\<exists>pre. o_ops x = pre @ [Op_Destroy] \<and> Op_Destroy \<notin> set pre)"

lemma tflag_simps [simp]:
  fixes f :: "8 word"
  shows "(f OR TIMER_CLAIMED) AND DESTROYED = f AND DESTROYED" "(f OR TIMER_CLAIMED) AND TEARDOWN_PENDING = f AND TEARDOWN_PENDING"
    "(f AND NOT TIMER_CLAIMED) AND DESTROYED = f AND DESTROYED" "(f AND NOT TIMER_CLAIMED) AND TEARDOWN_PENDING = f AND TEARDOWN_PENDING"
    "(f OR TEARDOWN_PENDING) AND DESTROYED = f AND DESTROYED" "(f OR TEARDOWN_PENDING) AND TEARDOWN_PENDING = TEARDOWN_PENDING"
    "(f OR DESTROYED) AND DESTROYED = DESTROYED" "TEARDOWN_PENDING \<noteq> 0" "DESTROYED \<noteq> 0"
  by (simp_all add: TIMER_CLAIMED_def TEARDOWN_PENDING_def DESTROYED_def bit.conj_disj_distrib2 and.assoc)

lemma pending_zero: "ops_counted x \<Longrightarrow> sh_pending_ops (o_hdr x) = 0 \<longleftrightarrow> o_ops x = []"
proof -
  assume a: "ops_counted x"
  then have "unat (sh_pending_ops (o_hdr x)) = length (o_ops x)" by (simp add: ops_counted_def unat_of_nat)
  then show ?thesis by (metis length_0_conv unat_eq_0)
qed

lemma teardown_simps [simp]:
  "o_ops (teardown_socket_header_local x) = o_ops x" "refs (teardown_socket_header_local x) = refs x" "dead (teardown_socket_header_local x)"
  "sh_pending_ops (o_hdr (teardown_socket_header_local x)) = sh_pending_ops (o_hdr x)"
  "o_qsh (teardown_socket_header_local x) = (if sh_pending_ops (o_hdr x) = 0 then o_qsh x + 1 else o_qsh x)"
proof -
  have "hs_count (decode_state (s OR CLOSED_MASK)) = hs_count (decode_state s)" for s
    using decode_flag(1) [of 63 s] by (simp add: CLOSED_MASK_def set_flag_def)
  then show "refs (teardown_socket_header_local x) = refs x"
    by (simp add: teardown_socket_header_local_def refs_def Let_def close_for_new_refs_def removeEvent_def close_header_fd_def cancel_owner_timer_def)
qed (simp_all add: teardown_socket_header_local_def Let_def dead_def close_for_new_refs_def removeEvent_def close_header_fd_def cancel_owner_timer_def)

lemma teardown_idle: "idle_hdr x \<Longrightarrow> refs x = 0 \<Longrightarrow> oinv (teardown_socket_header_local x)"
  using pending_zero [of x] by (auto simp: oinv_def idle_hdr_def ops_counted_def)

lemma forward_live:
  assumes "live x" "length (o_ops x) + 1 < 2 ^ 32" "k \<noteq> Op_Destroy"
  shows "live (forward_socket_op k x)"
  using assms by (auto simp: live_def idle_hdr_def ops_counted_def forward_socket_op_def refs_def dead_def down_def)

lemma release_refs:
  assumes "0 < refs x"
  shows "fst (release (o_hdr x)) \<longleftrightarrow> refs x = 1" "refs (x\<lparr>o_hdr := snd (release (o_hdr x))\<rparr>) = refs x - 1"
proof -
  have "(sh_state (o_hdr x) AND COUNT_MASK = 1) \<longleftrightarrow> refs x = 1" unfolding refs_def by (metis count_mask unat_1 word_unat_eq_iff)
  then show "fst (release (o_hdr x)) \<longleftrightarrow> refs x = 1" by (simp add: release_def)
  show "refs (x\<lparr>o_hdr := snd (release (o_hdr x))\<rparr>) = refs x - 1" using assms decode_dec by (simp add: release_def refs_def)
qed

lemma release_idle: "idle_hdr x \<Longrightarrow> idle_hdr (x\<lparr>o_hdr := snd (release (o_hdr x))\<rparr>)"
  by (simp add: idle_hdr_def ops_counted_def dead_def down_def release_def)

lemma destroy_oinv:
  assumes "idle_hdr x" "refs x = 0" "length (o_ops x) + 1 < 2 ^ 32"
  shows "oinv (destroy foreign x)"
proof (cases foreign)
  case True
  then show ?thesis using assms
    by (auto simp: destroy_def forward_socket_op_def oinv_def idle_hdr_def ops_counted_def dead_def down_def refs_def)
next
  case False
  then show ?thesis using teardown_idle [OF assms(1,2)] by (simp add: destroy_def)
qed

lemma drop_ref_oinv:
  assumes "live x" "length (o_ops x) + 1 < 2 ^ 32"
  shows "oinv (drop_ref foreign x)"
proof -
  have r: "0 < refs x" "idle_hdr x" using assms(1) by (auto simp: live_def)
  let ?x = "x\<lparr>o_hdr := snd (release (o_hdr x))\<rparr>"
  show ?thesis
  proof (cases "refs x = 1")
    case True
    then have "refs ?x = 0" "fst (release (o_hdr x))" using release_refs [OF r(1)] by auto
    then show ?thesis using destroy_oinv [OF release_idle [OF r(2)], of foreign] assms(2)
      by (cases "release (o_hdr x)") (simp add: drop_ref_def)
  next
    case False
    then have "\<not> fst (release (o_hdr x))" "0 < refs ?x" using release_refs [OF r(1)] r(1) by auto
    then show ?thesis using release_idle [OF r(2)] by (cases "release (o_hdr x)") (simp add: drop_ref_def oinv_def live_def)
  qed
qed

lemma live_frame:
  assumes "live x" "o_ops x' = o_ops x" "o_qsh x' = o_qsh x" "sh_pending_ops (o_hdr x') = sh_pending_ops (o_hdr x)"
    "dead x' = dead x" "down x' = down x" "refs x \<le> refs x'"
  shows "live x'"
  using assms by (auto simp: live_def idle_hdr_def ops_counted_def)

lemma arm_simps [simp]:
  "o_ops (arm_or_refresh_socket_timer ms x) = o_ops x" "o_qsh (arm_or_refresh_socket_timer ms x) = o_qsh x"
  "sh_pending_ops (o_hdr (arm_or_refresh_socket_timer ms x)) = sh_pending_ops (o_hdr x)"
  "dead (arm_or_refresh_socket_timer ms x) = dead x" "down (arm_or_refresh_socket_timer ms x) = down x"
  "refs (arm_or_refresh_socket_timer ms x) = refs x"
  by (simp_all add: arm_or_refresh_socket_timer_def dead_def down_def refs_def Let_def)

lemma cancel_simps [simp]:
  "o_ops (cancel_owner_timer x) = o_ops x" "o_qsh (cancel_owner_timer x) = o_qsh x"
  "sh_pending_ops (o_hdr (cancel_owner_timer x)) = sh_pending_ops (o_hdr x)"
  "dead (cancel_owner_timer x) = dead x" "down (cancel_owner_timer x) = down x" "refs (cancel_owner_timer x) = refs x"
  by (simp_all add: cancel_owner_timer_def dead_def down_def refs_def Let_def)

lemma claim_live: "live x \<Longrightarrow> live (snd (claim_timer x))" "o_ops (snd (claim_timer x)) = o_ops x"
  by (simp_all add: claim_timer_def live_def idle_hdr_def ops_counted_def dead_def down_def refs_def)

lemma try_add_ref_frame:
  "sh_tflags (snd (try_add_ref h)) = sh_tflags h" "sh_pending_ops (snd (try_add_ref h)) = sh_pending_ops h"
  "hs_count (decode_state (sh_state h)) \<le> hs_count (decode_state (sh_state (snd (try_add_ref h))))"
  using h_exec_fields(2) [of H_try_add_ref h True] by (simp_all add: try_add_ref_def Let_def split: if_splits)

lemma set_timeout_live:
  assumes "live x" "length (o_ops x) + 1 < 2 ^ 32"
  shows "live (set_timeout_ms foreign ms x)"
proof -
  define x1 where "x1 = x\<lparr>o_hdr := (snd (try_add_ref (o_hdr x)))\<lparr>sh_tflags := sh_tflags (snd (try_add_ref (o_hdr x))) AND NOT TIMER_CLAIMED\<rparr>\<rparr>"
  have l1: "live x1" by (rule live_frame [OF assms(1)]) (simp_all add: x1_def try_add_ref_frame dead_def down_def refs_def)
  have "live (arm_or_refresh_socket_timer ms x1)" by (rule live_frame [OF l1]) simp_all
  moreover have "live (forward_socket_op (Op_Timeout ms) x1)" using forward_live [OF l1] assms(2) by (simp add: x1_def)
  moreover have "live (forward_socket_op (Op_Timeout ms) x)" using forward_live [OF assms] by simp
  moreover have "live (x\<lparr>o_wheel := w\<rparr>)" for w by (rule live_frame [OF assms(1)]) (simp_all add: dead_def down_def refs_def)
  ultimately show ?thesis by (auto simp: set_timeout_ms_def Let_def simp flip: x1_def)
qed

lemma shutdown_oinv:
  assumes "live x" "length (o_ops x) + 2 < 2 ^ 32"
  shows "oinv (shutdown_socket foreign c x)"
proof -
  have live_log: "live (y\<lparr>o_wheel := w\<rparr>)" "live (y\<lparr>o_shutdowns := n\<rparr>)" "live (y\<lparr>o_hdr := (o_hdr y)\<lparr>sh_timer_id := i\<rparr>\<rparr>)"
    if "live y" for y w n i by (rule live_frame [OF that]; simp add: dead_def down_def refs_def)+
  have oinv_live: "oinv y" if "live y" for y using that by (simp add: oinv_def)
  show ?thesis
  proof (cases foreign)
    case True
    let ?x = "forward_socket_op Op_Shutdown x"
    have l: "live ?x" using forward_live [OF assms(1)] assms(2) by simp
    have n: "length (o_ops ?x) + 1 < 2 ^ 32" using assms(2) by (simp add: forward_socket_op_def)
    have "oinv (drop_ref True (snd (claim_timer ?x)))" using drop_ref_oinv [OF claim_live(1) [OF l]] n claim_live(2) by simp
    then show ?thesis using True l claim_live(1) [OF l] oinv_live by (auto simp: shutdown_socket_def Let_def split: prod.splits)
  next
    case False
    let ?x = "x\<lparr>o_wheel := o_wheel x @ [W_cancelTimer (sh_timer_id (o_hdr x))]\<rparr>"
    let ?y = "snd (claim_timer (?x\<lparr>o_hdr := (o_hdr ?x)\<lparr>sh_timer_id := 0\<rparr>\<rparr>))"
    have l: "live ?x" "live ?y" using live_log claim_live(1) assms(1) by blast+
    then have l3: "live (?y\<lparr>o_shutdowns := n\<rparr>)" for n using live_log(2) by blast
    have "oinv (drop_ref False (?y\<lparr>o_shutdowns := n\<rparr>))" for n using drop_ref_oinv [OF l3] assms(2) claim_live(2) by simp
    then show ?thesis using False l l3 oinv_live live_log(2) assms(1)
      by (auto simp: shutdown_socket_def Let_def split: prod.splits)
  qed
qed

lemma log_simps [simp]:
  "dead (x\<lparr>o_shutdowns := n\<rparr>) = dead x" "down (x\<lparr>o_shutdowns := n\<rparr>) = down x" "refs (x\<lparr>o_shutdowns := n\<rparr>) = refs x"
  "dead (x\<lparr>o_wheel := w\<rparr>) = dead x" "down (x\<lparr>o_wheel := w\<rparr>) = down x" "refs (x\<lparr>o_wheel := w\<rparr>) = refs x"
  "dead (x\<lparr>o_ops := ks\<rparr>) = dead x" "down (x\<lparr>o_ops := ks\<rparr>) = down x" "refs (x\<lparr>o_ops := ks\<rparr>) = refs x"
  by (simp_all add: dead_def down_def refs_def)

lemma apply_kind_frame:
  assumes "k \<noteq> Op_Destroy"
  shows "o_ops (apply_kind k x) = o_ops x" "o_qsh (apply_kind k x) = o_qsh x" "sh_pending_ops (o_hdr (apply_kind k x)) = sh_pending_ops (o_hdr x)"
    "dead (apply_kind k x) = dead x" "down (apply_kind k x) = down x" "refs (apply_kind k x) = refs x"
  using assms by (cases k; simp add: apply_kind_def Let_def)+

lemma apply_fields:
  fixes k x
  defines "x1 \<equiv> (if dead x then x else apply_kind k x)"
  shows "o_ops (apply_socket_op k x) = o_ops x1" "dead (apply_socket_op k x) = dead x1" "down (apply_socket_op k x) = down x1"
    "refs (apply_socket_op k x) = refs x1" "sh_pending_ops (o_hdr (apply_socket_op k x)) = sh_pending_ops (o_hdr x1) - 1"
    "o_qsh (apply_socket_op k x) = (if sh_pending_ops (o_hdr x1) = 1 \<and> dead x1 then o_qsh x1 + 1 else o_qsh x1)"
  unfolding x1_def apply_socket_op_def dead_def down_def refs_def Let_def by simp_all

lemma pending_step:
  assumes "ops_counted x" "o_ops x = k # ks"
  shows "sh_pending_ops (o_hdr x) - 1 = of_nat (length ks)" "length ks < 2 ^ 32" "sh_pending_ops (o_hdr x) = 1 \<longleftrightarrow> ks = []"
proof -
  have p: "sh_pending_ops (o_hdr x) = of_nat (length ks) + 1" using assms by (simp add: ops_counted_def)
  then show "sh_pending_ops (o_hdr x) - 1 = of_nat (length ks)" by simp
  show l: "length ks < 2 ^ 32" using assms by (simp add: ops_counted_def)
  then have "unat (of_nat (length ks) :: u32) = length ks" by (simp add: unat_of_nat)
  then show "sh_pending_ops (o_hdr x) = 1 \<longleftrightarrow> ks = []" unfolding p by (metis add_cancel_left_left length_0_conv unat_eq_0)
qed

lemma apply_oinv:
  assumes i: "oinv x" and o: "o_ops x = k # ks"
  shows "oinv (apply_socket_op k (x\<lparr>o_ops := ks\<rparr>))"
proof -
  let ?x = "x\<lparr>o_ops := ks\<rparr>"
  have cnt: "ops_counted x" using i by (auto simp: oinv_def live_def idle_hdr_def)
  note p = pending_step [OF cnt o]
  show ?thesis
  proof (cases "k = Op_Destroy")
    case False
    show ?thesis using i o p False unfolding oinv_def live_def idle_hdr_def ops_counted_def apply_fields
      by (cases "dead x") (auto simp: apply_kind_frame [OF False] Cons_eq_append_conv)
  next
    case True
    then have "refs x = 0" "ks = [] \<or> dead x" using i o by (auto simp: oinv_def live_def idle_hdr_def Cons_eq_append_conv)
    moreover have "\<not> dead x" using i o True by (auto simp: oinv_def live_def idle_hdr_def)
    ultimately show ?thesis using i o p True unfolding oinv_def live_def idle_hdr_def ops_counted_def apply_fields
      by (auto simp: apply_kind_def)
  qed
qed

lemma expire_oinv:
  assumes i: "oinv x" and nd: "sh_tflags (o_hdr x) AND DESTROYED = 0"
  shows "oinv (timeout_on_owner x)"
proof (cases "sh_tflags (o_hdr x) AND (TIMER_CLAIMED OR TEARDOWN_PENDING) = 0")
  case False
  then have "timeout_on_owner x = x\<lparr>o_hdr := (o_hdr x)\<lparr>sh_tflags := sh_tflags (o_hdr x) OR TIMER_CLAIMED, sh_timer_id := 0\<rparr>\<rparr>"
    by (simp add: timeout_on_owner_def processSocketTimeout_def Let_def)
  then show ?thesis using i by (simp add: oinv_def live_def idle_hdr_def ops_counted_def dead_def down_def refs_def)
next
  case True
  then have "\<not> down x" by (simp add: down_def bit.conj_disj_distrib or_eq_0_iff)
  then have l: "live x" using i nd by (auto simp: oinv_def dead_def)
  obtain y where y: "timeout_on_owner x = (if fst (release (o_hdr y)) then teardown_socket_header_local (y\<lparr>o_hdr := snd (release (o_hdr y))\<rparr>)
      else y\<lparr>o_hdr := snd (release (o_hdr y))\<rparr>)" "live y"
  proof
    let ?h = "(o_hdr x)\<lparr>sh_tflags := sh_tflags (o_hdr x) OR TIMER_CLAIMED, sh_timer_id := 0, sh_rd := 0, sh_wr := 0, sh_fd := - 1,
      sh_closed := (if 0 \<le> sh_fd (o_hdr x) then sh_closed (o_hdr x) @ [sh_fd (o_hdr x)] else sh_closed (o_hdr x)), sh_info := sh_info (o_hdr x) OR INFO_TIMEOUT\<rparr>"
    show "timeout_on_owner x = (if fst (release (o_hdr (x\<lparr>o_hdr := ?h\<rparr>))) then teardown_socket_header_local ((x\<lparr>o_hdr := ?h\<rparr>)\<lparr>o_hdr := snd (release (o_hdr (x\<lparr>o_hdr := ?h\<rparr>)))\<rparr>)
      else (x\<lparr>o_hdr := ?h\<rparr>)\<lparr>o_hdr := snd (release (o_hdr (x\<lparr>o_hdr := ?h\<rparr>)))\<rparr>)"
      using True by (simp add: timeout_on_owner_def processSocketTimeout_def Let_def take_read_waiter_def take_write_waiter_def removeEvent_def close_header_fd_def release_def)
    show "live (x\<lparr>o_hdr := ?h\<rparr>)" by (rule live_frame [OF l]) (simp_all add: dead_def down_def refs_def)
  qed
  have r: "0 < refs y" "idle_hdr y" using y(2) by (auto simp: live_def)
  show ?thesis
  proof (cases "refs y = 1")
    case True
    then show ?thesis using teardown_idle [OF release_idle [OF r(2)]] release_refs [OF r(1)] y(1) by simp
  next
    case False
    then show ?thesis using release_idle [OF r(2)] release_refs [OF r(1)] r(1) y(1) by (simp add: oinv_def live_def)
  qed
qed

lemma oinv_step:
  assumes i: "oinv x" and st: "ostep x x'"
  shows "oinv x'"
  using st
proof cases
  case copy
  then have l: "live x" using i by (auto simp: oinv_def)
  have r: "refs x \<le> refs (x\<lparr>o_hdr := add_ref (o_hdr x)\<rparr>)"
    using decode_inc [of "sh_state (o_hdr x)"] copy(3) by (simp add: refs_def add_ref_def)
  have "live (x\<lparr>o_hdr := add_ref (o_hdr x)\<rparr>)"
    by (rule live_frame [OF l _ _ _ _ _ r]) (simp_all add: add_ref_def dead_def down_def)
  then show ?thesis using copy(1) by (simp add: oinv_def)
next
  case (drop foreign)
  then show ?thesis using i drop_ref_oinv by (auto simp: oinv_def)
next
  case (timeout foreign ms)
  then have "live x" using i by (auto simp: oinv_def)
  then show ?thesis using timeout set_timeout_live by (simp add: oinv_def)
next
  case (refresh foreign ms)
  then have l: "live x" using i by (auto simp: oinv_def)
  have "live (x\<lparr>o_wheel := w\<rparr>)" for w by (rule live_frame [OF l]) (simp_all add: dead_def down_def refs_def)
  then show ?thesis using refresh forward_live [OF l] l by (auto simp: update_timeout_def oinv_def)
next
  case (shutdown foreign c)
  then have "live x" using i by (auto simp: oinv_def)
  then show ?thesis using shutdown shutdown_oinv by blast
next
  case (apply_op k ks)
  then show ?thesis using apply_oinv [OF i] by simp
next
  case expire
  then show ?thesis using expire_oinv [OF i] by simp
qed

interpretation own: inv_system osys_init ostep oinv
proof
  show "oinv x" if "osys_init x" for x
    using that by (simp add: osys_init_def oinv_def live_def idle_hdr_def ops_counted_def dead_def down_def refs_def decode_1)
  show "oinv x'" if "oinv x" "ostep x x'" for x x' using oinv_step [OF that] .
qed

text \<open>
  C14. A socket header is freed exactly once and never too early, however handles, forwarded operations and the
  timeout interleave between workers: it is on the delete queue at most once, and then no reference is left and
  no forwarded operation is outstanding; and once the last reference is dropped and the owner has applied all
  forwarded operations it has been put there (no leak).
\<close>

theorem header_freed_once:
  assumes "reach osys_init ostep x"
  shows "o_qsh x \<le> 1 \<and> (o_qsh x = 1 \<longleftrightarrow> refs x = 0 \<and> o_ops x = [])"
  using own.reach_inv [OF assms] by (auto simp: oinv_def live_def idle_hdr_def split: if_splits)

definition owned_sys :: osys where
  "owned_sys = \<lparr>o_hdr = demo_header, o_ops = [], o_next_id = 1, o_wheel = [], o_shutdowns = 0, o_qsh = 0\<rparr>"

theorem header_freed_once_witness:
  "o_qsh (apply_socket_op Op_Destroy ((drop_ref True owned_sys)\<lparr>o_ops := []\<rparr>)) = 1"
proof -
  have 0: "reach osys_init ostep owned_sys"
    by (rule reach_init) (simp add: osys_init_def owned_sys_def demo_header_def)
  have r0: "refs owned_sys = 1" by (simp add: refs_def owned_sys_def demo_header_def decode_1)
  have 1: "reach osys_init ostep (drop_ref True owned_sys)"
    by (rule reach_step [OF 0 ostep.drop]) (simp add: r0, simp add: owned_sys_def)
  have o1: "o_ops (drop_ref True owned_sys) = [Op_Destroy]" "refs (drop_ref True owned_sys) = 0"
    using release_refs [of owned_sys] r0
    by (cases "release demo_header"; simp add: drop_ref_def destroy_def forward_socket_op_def refs_def owned_sys_def)+
  have 2: "reach osys_init ostep (apply_socket_op Op_Destroy ((drop_ref True owned_sys)\<lparr>o_ops := []\<rparr>))"
    by (rule reach_step [OF 1 ostep.apply_op [OF o1(1)]])
  show ?thesis using header_freed_once [OF 2] o1 by (simp add: apply_fields apply_kind_def)
qed

end
