(* ===== verification/Socket_Connect.thy ===== *)
theory Socket_Connect
  imports Socket_Io Socket_Owner
begin

text \<open>
  Opening connections (\<open>net/SocketLinux.h\<close>): \<open>async_connect\<close>, both \<open>async_accept\<close> loops and the file transfer calls, in the
  build with owner forwarding. The system calls and name resolution are parameters. While \<open>async_connect\<close> is suspended the poller, the timer wheel, the cancel hook
  and other holders of the socket act on the header: which of them act, and in which order, is a parameter, what they do are the definitions of
  \<open>Socket_Wakeup\<close> and \<open>Socket_Owner\<close>. Every file descriptor that is created or closed is recorded.
\<close>

unbundle bit_operations_syntax

section \<open>async_connect\<close>

datatype ConnectError = GetAddrInfoFailed | SocketCreationFailed | ConnectFailed | InvalidAddressFamily | InvalidSockType | FcntlFailed
  | EpollAddFailed | AlreadyConnected | InvalidHostname | ConnectTimeout | ConnectCancelled | ConnectUnknown

text \<open>What can happen to the header while the coroutine is suspended: an event of the poller, the timeout, the owner's next forwarded
  operation, the cancel hook, and the calls of other holders of the socket (on the owner or on another worker).\<close>

datatype sock_event = Ev_poll epoll_events int | Ev_timeout | Ev_apply_op | Ev_cancel u64 | Ev_copy | Ev_drop bool | Ev_set_timeout bool u64
  | Ev_update_timeout bool u64 | Ev_shutdown bool bool | Ev_remove

fun sock_event_exec :: "sock_event \<Rightarrow> osys \<Rightarrow> osys" where
  "sock_event_exec (Ev_poll ev so_error) s = s\<lparr>o_hdr := snd (poll_socket True ev so_error (o_hdr s))\<rparr>"
| "sock_event_exec Ev_timeout s = timeout_on_owner s"
| "sock_event_exec Ev_apply_op s = (case o_ops s of [] \<Rightarrow> s | k # ks \<Rightarrow> apply_socket_op k (s\<lparr>o_ops := ks\<rparr>))"
| "sock_event_exec (Ev_cancel me) s = s\<lparr>o_hdr := snd (cancel_socket_write me (o_hdr s))\<rparr>"
| "sock_event_exec Ev_copy s = s\<lparr>o_hdr := add_ref (o_hdr s)\<rparr>"
| "sock_event_exec (Ev_drop foreign) s = drop_ref foreign s"
| "sock_event_exec (Ev_set_timeout foreign ms) s = set_timeout_ms foreign ms s"
| "sock_event_exec (Ev_update_timeout foreign ms) s = update_timeout foreign ms s"
| "sock_event_exec (Ev_shutdown foreign c) s = shutdown_socket foreign c s"
| "sock_event_exec Ev_remove s = s\<lparr>o_hdr := close_for_new_refs (removeEvent (o_hdr s))\<rparr>"

record 'k cstate =
  cs_sock :: osys
  cs_k :: 'k
  cs_opened :: "int list"
  cs_events :: nat
  cs_me :: u64
  cs_tid :: int

text \<open>Resolution and the wait for the connection also tell the events up to the resumption; the wait tells whether a cancellation was
  pending when the coroutine suspended, and whether one is requested when it goes on.\<close>

record 'k ckernel =
  ck_resolve :: "'k \<Rightarrow> bool \<times> sock_event list \<times> 'k"
  ck_socket :: "'k \<Rightarrow> int \<times> 'k"
  ck_connect :: "'k \<Rightarrow> errno option \<times> 'k"
  ck_wait :: "'k \<Rightarrow> bool \<times> sock_event list \<times> bool \<times> 'k"
  ck_so_error :: "int \<Rightarrow> 'k \<Rightarrow> int option \<times> 'k"

definition hdr_upd :: "(SocketHeader \<Rightarrow> SocketHeader) \<Rightarrow> 'k cstate \<Rightarrow> 'k cstate" where
  "hdr_upd f x = x\<lparr>cs_sock := (cs_sock x)\<lparr>o_hdr := f (o_hdr (cs_sock x))\<rparr>\<rparr>"

definition set_fd :: "int \<Rightarrow> 'k cstate \<Rightarrow> 'k cstate" where
  "set_fd fd x = hdr_upd (\<lambda>h. h\<lparr>sh_fd := fd\<rparr>) x"

definition cur_fd :: "'k cstate \<Rightarrow> int" where
  "cur_fd x = sh_fd (o_hdr (cs_sock x))"

definition cs_closed :: "'k cstate \<Rightarrow> int list" where
  "cs_closed x = sh_closed (o_hdr (cs_sock x))"

definition close_fd :: "'k cstate \<Rightarrow> 'k cstate" where
  "close_fd x = hdr_upd close_header_fd x"

definition run_events :: "sock_event list \<Rightarrow> 'k cstate \<Rightarrow> 'k cstate" where
  "run_events es x = x\<lparr>cs_sock := fold sock_event_exec es (cs_sock x)\<rparr>"

text \<open>\<open>EPoller::addEvent\<close>: the descriptor is registered, and this worker owns the header.\<close>

definition addEvent :: "'k cstate \<Rightarrow> 'k cstate" where
  "addEvent x = hdr_upd (\<lambda>h. h\<lparr>sh_owner_tid := cs_tid x\<rparr>) (x\<lparr>cs_events := cs_events x + 1\<rparr>)"

definition ETIMEDOUT_no :: int where "ETIMEDOUT_no = 110"

text \<open>What follows the resumption: cancellation, the timeout flag, the failure flag of the poller, then \<open>SO_ERROR\<close>.\<close>

definition connect_outcome :: "'k ckernel \<Rightarrow> bool \<Rightarrow> 'k cstate \<Rightarrow> ConnectError option \<times> 'k cstate" where
  "connect_outcome K cancelled x =
    (let h = o_hdr (cs_sock x) in
     if cancelled then (Some ConnectCancelled, close_fd x)
     else if sh_info h AND INFO_TIMEOUT \<noteq> 0 then (Some ConnectTimeout, close_fd x)
     else if sh_info h AND CONNECTION_FAILED \<noteq> 0 then
       (let x1 = close_fd (hdr_upd (\<lambda>h. h\<lparr>sh_connect_error := 0\<rparr>) x) in
        (Some (if sh_connect_error h = ETIMEDOUT_no then ConnectTimeout else ConnectFailed), x1))
     else case ck_so_error K (cur_fd x) (cs_k x) of (r, k) \<Rightarrow>
       (let x1 = x\<lparr>cs_k := k\<rparr> in
        case r of None \<Rightarrow> (Some ConnectFailed, close_fd x1)
        | Some err \<Rightarrow> if err \<noteq> 0 then (Some (if err = ETIMEDOUT_no then ConnectTimeout else ConnectFailed), close_fd x1)
            else (None, x1)))"

text \<open>After success: the connect timer is cancelled, its reference dropped, the epoch bumped.\<close>

definition connect_success :: "bool \<Rightarrow> osys \<Rightarrow> osys" where
  "connect_success timed s =
    (let s1 = s\<lparr>o_wheel := o_wheel s @ [W_cancelTimer (sh_timer_id (o_hdr s))], o_hdr := (o_hdr s)\<lparr>sh_timer_id := 0\<rparr>\<rparr>;
         s2 = (if timed then s1\<lparr>o_hdr := (o_hdr s1)\<lparr>sh_state := sh_state (o_hdr s1) - 1\<rparr>\<rparr> else s1)
     in s2\<lparr>o_hdr := timeout_epoch_bump (o_hdr s2)\<rparr>)"

definition connect_open :: "'k ckernel \<Rightarrow> int \<Rightarrow> 'k cstate \<Rightarrow> ConnectError option \<times> 'k cstate" where
  "connect_open K connect_timeout x =
    (case ck_resolve K (cs_k x) of (resolved, es, k) \<Rightarrow>
     let x0 = run_events es x in
     if \<not> resolved then (Some GetAddrInfoFailed, set_fd (- 1) (x0\<lparr>cs_k := k\<rparr>))
     else case ck_socket K k of (fd, k1) \<Rightarrow>
       let x1 = set_fd fd (x0\<lparr>cs_k := k1\<rparr>) in
       if fd < 0 then (Some SocketCreationFailed, x1)
       else let x2 = x1\<lparr>cs_opened := cs_opened x1 @ [fd]\<rparr> in
         (None, if connect_timeout > 0 then x2\<lparr>cs_sock := set_timeout_ms False (of_int (sint (of_int connect_timeout :: 32 word))) (cs_sock x2)\<rparr> else x2))"

definition connect_wait :: "'k ckernel \<Rightarrow> 'k cstate \<Rightarrow> ConnectError option \<times> 'k cstate" where
  "connect_wait K x =
    (case ck_connect K (cs_k x) of (e, k) \<Rightarrow>
     let x1 = x\<lparr>cs_k := k\<rparr> in
     if e \<noteq> None \<and> e \<noteq> Some EINPROGRESS then (Some ConnectFailed, close_fd x1)
     else case ck_wait K k of (cancel_pending, es, cancelled, k1) \<Rightarrow>
       let x2 = hdr_upd (\<lambda>h. snd (suspend_on_write True cancel_pending (cs_me x1) h)) (addEvent x1)
       in connect_outcome K cancelled (run_events es (x2\<lparr>cs_k := k1\<rparr>)))"

definition async_connect :: "'k ckernel \<Rightarrow> int \<Rightarrow> 'k cstate \<Rightarrow> ConnectError option \<times> 'k cstate" where
  "async_connect K connect_timeout x =
    (case connect_open K connect_timeout x of
       (Some err, x1) \<Rightarrow> (Some err, x1)
     | (None, x1) \<Rightarrow> case connect_wait K x1 of
         (Some err, x2) \<Rightarrow> (Some err, x2)
       | (None, x2) \<Rightarrow> (None, x2\<lparr>cs_sock := connect_success (connect_timeout > 0) (cs_sock x2)\<rparr>))"

text \<open>The overload for temporary strings has the same body.\<close>

definition async_connect_rvalue :: "'k ckernel \<Rightarrow> int \<Rightarrow> 'k cstate \<Rightarrow> ConnectError option \<times> 'k cstate" where
  "async_connect_rvalue K connect_timeout x = async_connect K connect_timeout x"

section \<open>async_accept\<close>

text \<open>\<open>accept4\<close> gives a descriptor or an error; a new connection gets a header and is registered with the poller.\<close>

record 'k akernel =
  ak_accept :: "'k \<Rightarrow> (errno + int) \<times> 'k"
  ak_wait :: "'k \<times> SocketHeader \<Rightarrow> bool \<times> 'k \<times> SocketHeader"

record 'k astate =
  a_hdr :: SocketHeader
  a_k :: 'k
  a_conns :: "SocketHeader list"

definition accepted_header :: "int \<Rightarrow> SocketHeader" where
  "accepted_header cfd = \<lparr>sh_fd = cfd, sh_timer_id = 0, sh_info = Proto_TCP OR Role_ACTIVE, sh_connect_error = 0, sh_rd = 0, sh_wr = 0,
     sh_state = 1 AND COUNT_MASK, sh_owner_tid = - 1, sh_tflags = 0, sh_pending_ops = 0, sh_closed = []\<rparr>"

definition accept_retry :: "errno \<Rightarrow> bool" where
  "accept_retry e \<longleftrightarrow> e \<in> {EINTR, ECONNABORTED, EPROTO}"

definition accept_suspends :: "errno \<Rightarrow> bool" where
  "accept_suspends e \<longleftrightarrow> e \<in> {EAGAIN, ENOBUFS, ENOMEM, ENFILE, EMFILE}"

definition accept_call :: "'k akernel \<Rightarrow> 'k astate \<Rightarrow> (errno + int) \<times> 'k astate" where
  "accept_call K x = (let h = (if is_read_armed (a_hdr x) then disarm_read (a_hdr x) else a_hdr x) in
     case ak_accept K (a_k x) of (r, k) \<Rightarrow> (r, x\<lparr>a_hdr := h, a_k := k\<rparr>))"

definition accept_wait :: "'k akernel \<Rightarrow> 'k astate \<Rightarrow> bool \<times> 'k astate" where
  "accept_wait K x = (case ak_wait K (a_k x, a_hdr x) of (c, k, h) \<Rightarrow> (c, x\<lparr>a_k := k, a_hdr := h\<rparr>))"

definition accept_body :: "'k akernel \<Rightarrow> 'k astate \<Rightarrow> ('k astate, SocketHeader option \<times> 'k astate) ctl option" where
  "accept_body K x = (case accept_call K x of (r, x1) \<Rightarrow> case r of
       Inr cfd \<Rightarrow> (let h = accepted_header cfd in Some (Stop (Some h, x1\<lparr>a_conns := a_conns x1 @ [h]\<rparr>)))
     | Inl e \<Rightarrow>
         (if accept_retry e then Some (Again x1)
          else if accept_suspends e then
            (case accept_wait K x1 of (c, x2) \<Rightarrow> if c then Some (Stop (None, x2)) else Some (Again x2))
          else Some (Stop (None, x1))))"

definition async_accept :: "'k akernel \<Rightarrow> 'k astate \<Rightarrow> (SocketHeader option \<times> 'k astate) option" where
  "async_accept K x = iter (accept_body K) x"

text \<open>The accept loop that hands every connection to a callback (recorded in \<open>a_conns\<close>) and goes on.\<close>

definition accept_loop_body :: "'k akernel \<Rightarrow> 'k astate \<Rightarrow> ('k astate, 'k astate) ctl option" where
  "accept_loop_body K x = (case accept_call K x of (r, x1) \<Rightarrow> case r of
       Inr cfd \<Rightarrow> Some (Again (x1\<lparr>a_conns := a_conns x1 @ [accepted_header cfd]\<rparr>))
     | Inl e \<Rightarrow>
         (if accept_retry e then Some (Again x1)
          else if accept_suspends e then (case accept_wait K x1 of (c, x2) \<Rightarrow> if c then Some (Stop x2) else Some (Again x2))
          else Some (Stop x1)))"

definition async_accept_loop :: "'k akernel \<Rightarrow> 'k astate \<Rightarrow> 'k astate option" where
  "async_accept_loop K x = iter (accept_loop_body K) x"

section \<open>sendfile\<close>

text \<open>\<open>sf\<close> is the system call: the number of bytes, or an error.\<close>

definition async_sendfile :: "'k kernel \<Rightarrow> ('k \<Rightarrow> (errno + nat) \<times> 'k) \<Rightarrow> 'k io \<Rightarrow> int \<times> 'k io" where
  "async_sendfile K sf x = (case do_wait K x of (c, x1) \<Rightarrow>
     if c then (- 1, x1\<lparr>io_errno := ECANCELED\<rparr>)
     else if is_disconnected_now (io_hdr x1) then (- 3, x1)
     else case sf (io_k x1) of (r, k) \<Rightarrow>
       let x2 = x1\<lparr>io_k := k\<rparr> in
       case r of Inl e \<Rightarrow> (if e = EAGAIN then (- 1, remove_socket x2) else (- 1, x2))
       | Inr n \<Rightarrow> (int n, if n > 0 then x2\<lparr>io_hdr := timeout_epoch_bump (io_hdr x2)\<rparr> else x2))"

definition sync_sendfile :: "('k \<Rightarrow> (errno + nat) \<times> 'k) \<Rightarrow> 'k io \<Rightarrow> int \<times> 'k io" where
  "sync_sendfile sf x = (case sf (io_k x) of (r, k) \<Rightarrow>
     let x1 = x\<lparr>io_k := k\<rparr> in
     case r of Inl e \<Rightarrow> (- 1, if e = EAGAIN then remove_socket x1 else x1) | Inr n \<Rightarrow> (int n, x1))"

section \<open>Descriptors are not leaked\<close>

text \<open>\<open>getsockopt\<close> fails (\<open>EBADF\<close>) on a descriptor that is not open.\<close>

definition so_error_needs_fd :: "'k ckernel \<Rightarrow> bool" where
  "so_error_needs_fd K \<longleftrightarrow> (\<forall>fd k. fd < 0 \<longrightarrow> fst (ck_so_error K fd k) = None)"

text \<open>What a call may do to the descriptor of a header: leave it alone, or close it when it is open and set \<open>fd\<close> to \<open>-1\<close>.\<close>

definition fd_kept :: "SocketHeader \<Rightarrow> SocketHeader \<Rightarrow> bool" where
  "fd_kept h h' \<longleftrightarrow> sh_fd h' = sh_fd h \<and> sh_closed h' = sh_closed h \<or>
     sh_fd h' = - 1 \<and> sh_closed h' = sh_closed h @ (if 0 \<le> sh_fd h then [sh_fd h] else [])"

lemma fd_kept_trans: "fd_kept h h1 \<Longrightarrow> fd_kept h1 h2 \<Longrightarrow> fd_kept h h2"
  by (auto simp: fd_kept_def)

lemma fd_same: "sh_fd h' = sh_fd h \<Longrightarrow> sh_closed h' = sh_closed h \<Longrightarrow> fd_kept h h'"
  by (simp add: fd_kept_def)

lemma header_fd_simps [simp]:
  "sh_fd (close_header_fd h) = - 1" "sh_closed (close_header_fd h) = (if 0 \<le> sh_fd h then sh_closed h @ [sh_fd h] else sh_closed h)"
  "sh_fd (mark_disconnected h) = sh_fd h" "sh_closed (mark_disconnected h) = sh_closed h" "sh_fd (close_for_new_refs h) = sh_fd h"
  "sh_closed (close_for_new_refs h) = sh_closed h" "sh_fd (add_ref h) = sh_fd h" "sh_closed (add_ref h) = sh_closed h"
  "sh_fd (snd (release h)) = sh_fd h" "sh_closed (snd (release h)) = sh_closed h" "sh_fd (snd (try_add_ref h)) = sh_fd h"
  "sh_closed (snd (try_add_ref h)) = sh_closed h" "sh_fd (finish_connect e h) = sh_fd h" "sh_closed (finish_connect e h) = sh_closed h"
  "sh_fd (timeout_epoch_bump h) = sh_fd h" "sh_closed (timeout_epoch_bump h) = sh_closed h" "sh_fd (clear_busy h) = sh_fd h" "sh_closed (clear_busy h) = sh_closed h"
  by (simp_all add: close_header_fd_def mark_disconnected_def close_for_new_refs_def add_ref_def release_def try_add_ref_def finish_connect_def
    timeout_epoch_bump_def clear_busy_def Let_def)

lemma close_header_kept: "fd_kept h (close_header_fd h)"
  by (simp add: fd_kept_def)

lemma poll_kept: "fd_kept h (snd (poll_socket True ev e h))"
  by (auto simp: poll_socket_def Let_def removeEvent_def fire_read_def fire_write_def fd_kept_def split: prod.splits)

lemma timeout_kept: "fd_kept h (snd (snd (processSocketTimeout True h)))"
  by (auto simp: processSocketTimeout_def Let_def removeEvent_def take_read_waiter_def take_write_waiter_def fd_kept_def split: prod.splits)

lemma park_kept: "fd_kept h (snd (suspend_on_write True c me h))" "fd_kept h (snd (cancel_socket_write me h))"
  by (auto simp: suspend_on_write_def suspend_write_def park_write_def cancel_socket_write_def unpark_write_def Let_def intro!: fd_same split: prod.splits)

lemma teardown_kept: "fd_kept (o_hdr s) (o_hdr (teardown_socket_header_local s))"
  by (auto simp: teardown_socket_header_local_def cancel_owner_timer_def Let_def removeEvent_def fd_kept_def)

lemma forward_kept: "fd_kept (o_hdr s) (o_hdr (forward_socket_op k s))"
  by (simp add: forward_socket_op_def fd_same)

lemma arm_kept: "fd_kept (o_hdr s) (o_hdr (arm_or_refresh_socket_timer ms s))"
  by (simp add: arm_or_refresh_socket_timer_def Let_def fd_same)

lemma drop_ref_kept: "fd_kept (o_hdr s) (o_hdr (drop_ref foreign s))"
proof -
  let ?s = "s\<lparr>o_hdr := snd (release (o_hdr s))\<rparr>"
  have "fd_kept (o_hdr s) (o_hdr ?s)" by (rule fd_same) simp_all
  moreover have "fd_kept (o_hdr ?s) (o_hdr (destroy foreign ?s))" using teardown_kept [of ?s] by (auto simp: destroy_def forward_socket_op_def fd_same)
  ultimately show ?thesis using fd_kept_trans by (auto simp: drop_ref_def split: prod.splits)
qed

lemma apply_op_kept: "fd_kept (o_hdr s) (o_hdr (apply_socket_op k s))"
proof -
  have "fd_kept (o_hdr s) (o_hdr (apply_kind k s))" using teardown_kept [of s] arm_kept [of s]
    by (auto simp: apply_kind_def cancel_owner_timer_def Let_def fd_same split: sock_op.splits)
  moreover have "fd_kept h (h\<lparr>sh_pending_ops := n\<rparr>)" for h n by (simp add: fd_same)
  ultimately show ?thesis using fd_kept_trans by (auto simp: apply_socket_op_def Let_def)
qed

lemma set_timeout_kept: "fd_kept (o_hdr s) (o_hdr (set_timeout_ms foreign ms s))"
  by (simp add: set_timeout_ms_def forward_socket_op_def arm_or_refresh_socket_timer_def Let_def fd_same)

lemma shutdown_kept: "fd_kept (o_hdr s) (o_hdr (shutdown_socket foreign c s))"
proof -
  have d: "fd_kept (o_hdr s) (o_hdr (drop_ref f s'))" if "sh_fd (o_hdr s') = sh_fd (o_hdr s)" "sh_closed (o_hdr s') = sh_closed (o_hdr s)" for f s'
    using fd_kept_trans [OF fd_same drop_ref_kept] that by metis
  show ?thesis by (simp add: shutdown_socket_def claim_timer_def forward_socket_op_def Let_def d fd_same)
qed

lemma timeout_owner_kept: "fd_kept (o_hdr s) (o_hdr (timeout_on_owner s))"
  using timeout_kept [of "o_hdr s"] fd_kept_trans [OF _ teardown_kept [of "s\<lparr>o_hdr := h\<rparr>" for h]]
  by (auto simp: timeout_on_owner_def split: prod.splits)

lemma event_kept: "fd_kept (o_hdr s) (o_hdr (sock_event_exec e s))"
proof (cases e)
  case Ev_remove
  then show ?thesis by (simp add: removeEvent_def fd_kept_def)
qed (use apply_op_kept [of "s\<lparr>o_ops := ks\<rparr>" for ks] in \<open>auto simp: poll_kept timeout_owner_kept park_kept drop_ref_kept set_timeout_kept shutdown_kept
    update_timeout_def forward_kept fd_same split: list.split\<close>)

lemma run_events_kept: "fd_kept (o_hdr (cs_sock x)) (o_hdr (cs_sock (run_events es x)))"
proof -
  have "fd_kept (o_hdr s) (o_hdr (fold sock_event_exec es s))" for s
    by (induction es arbitrary: s) (auto intro: fd_same fd_kept_trans [OF event_kept])
  then show ?thesis by (simp add: run_events_def)
qed

text \<open>Descriptors of \<open>async_connect\<close>: the new one is the header's and open, or was closed once.\<close>

lemma cstate_simps [simp]:
  "cs_opened (close_fd x) = cs_opened x" "cs_opened (hdr_upd f x) = cs_opened x" "cs_opened (run_events es x) = cs_opened x" "cs_opened (addEvent x) = cs_opened x"
  "cs_k (hdr_upd f x) = cs_k x" "cs_me (hdr_upd f x) = cs_me x" "o_hdr (cs_sock (hdr_upd f x)) = f (o_hdr (cs_sock x))"
  "cur_fd (close_fd x) = - 1" "cs_closed (close_fd x) = (if 0 \<le> cur_fd x then cs_closed x @ [cur_fd x] else cs_closed x)"
  "cur_fd (x\<lparr>cs_k := k\<rparr>) = cur_fd x" "cs_closed (x\<lparr>cs_k := k\<rparr>) = cs_closed x"
  by (simp_all add: close_fd_def hdr_upd_def run_events_def addEvent_def cur_fd_def cs_closed_def)

definition fd_held :: "int \<Rightarrow> 'k cstate \<Rightarrow> bool" where
  "fd_held f x \<longleftrightarrow> 0 \<le> f \<and> cs_opened x = [f] \<and> (cur_fd x = f \<and> cs_closed x = [] \<or> cur_fd x = - 1 \<and> cs_closed x = [f])"

lemma held_kept: "fd_held f x \<Longrightarrow> fd_kept (o_hdr (cs_sock x)) (o_hdr (cs_sock y)) \<Longrightarrow> cs_opened y = cs_opened x \<Longrightarrow> fd_held f y"
  by (auto simp: fd_held_def fd_kept_def cur_fd_def cs_closed_def)

lemma close_held: "fd_held f x \<Longrightarrow> cs_closed (close_fd x) = [f]"
  by (auto simp: fd_held_def)

lemma connect_outcome_fd:
  assumes "so_error_needs_fd K" "fd_held f x" "connect_outcome K c x = (r, x')"
  shows "cs_opened x' = [f] \<and> (case r of Some e \<Rightarrow> cur_fd x' = - 1 \<and> cs_closed x' = [f] | None \<Rightarrow> cur_fd x' = f \<and> cs_closed x' = [])"
proof -
  have other: "fd_held f (hdr_upd (\<lambda>h. h\<lparr>sh_connect_error := 0\<rparr>) x)" "fd_held f (x\<lparr>cs_k := k\<rparr>)" for k
    by (rule held_kept [OF assms(2)]; simp add: fd_same)+
  have pos: "cur_fd x = f" "cs_closed x = []" if "ck_so_error K (cur_fd x) (cs_k x) = (Some err, k)" for err k
  proof -
    have "\<not> cur_fd x < 0" using assms(1) that by (metis fst_conv option.distinct(1) so_error_needs_fd_def)
    then show "cur_fd x = f" "cs_closed x = []" using assms(2) by (auto simp: fd_held_def)
  qed
  have o: "cs_opened x = [f]" using assms(2) by (simp add: fd_held_def)
  show ?thesis using assms(3) o pos close_held [OF assms(2)] close_held [OF other(1)] close_held [OF other(2)]
    by (auto simp: connect_outcome_def Let_def simp del: cstate_simps(9) split: if_splits prod.splits option.splits)
qed

lemma connect_open_fd:
  assumes "connect_open K t x = (r, x')" "cur_fd x < 0" "cs_opened x = []" "cs_closed x = []"
  shows "case r of Some e \<Rightarrow> cur_fd x' < 0 \<and> cs_opened x' = [] \<and> cs_closed x' = []
    | None \<Rightarrow> fd_held (cur_fd x') x' \<and> 0 \<le> cur_fd x'"
proof -
  have e: "sh_closed (o_hdr (cs_sock (run_events es x))) = []" for es
    using run_events_kept [of x es] assms(2,4) by (auto simp: fd_kept_def cur_fd_def cs_closed_def)
  have st: "sh_fd (o_hdr (set_timeout_ms False ms s)) = sh_fd (o_hdr s)" "sh_closed (o_hdr (set_timeout_ms False ms s)) = sh_closed (o_hdr s)" for ms s
    by (simp_all add: set_timeout_ms_def arm_or_refresh_socket_timer_def Let_def)
  have u: "cs_sock (set_fd f y) = (cs_sock y)\<lparr>o_hdr := (o_hdr (cs_sock y))\<lparr>sh_fd := f\<rparr>\<rparr>" "cs_opened (set_fd f y) = cs_opened y" for f and y :: "'a cstate"
    by (simp_all add: set_fd_def hdr_upd_def)
  show ?thesis using assms(1,3) by (auto simp: connect_open_def Let_def fd_held_def cur_fd_def cs_closed_def st e u split: prod.splits if_splits)
qed

lemma connect_wait_fd:
  assumes "so_error_needs_fd K" "connect_wait K x = (r, x')" "fd_held f x" "cur_fd x = f"
  shows "cs_opened x' = [f] \<and> (case r of Some e \<Rightarrow> cur_fd x' = - 1 \<and> cs_closed x' = [f] | None \<Rightarrow> cur_fd x' = f \<and> cs_closed x' = [])"
proof -
  obtain e k where e: "ck_connect K (cs_k x) = (e, k)" by fastforce
  obtain p es c k1 where w: "ck_wait K k = (p, es, c, k1)" by (cases "ck_wait K k")
  define x1 where "x1 = x\<lparr>cs_k := k\<rparr>"
  define x2 where "x2 = hdr_upd (\<lambda>h. snd (suspend_on_write True p (cs_me x1) h)) (addEvent x1)"
  have x1: "fd_held f x1" by (rule held_kept [OF assms(3)]) (simp_all add: x1_def fd_same)
  have "fd_held f (addEvent x1)" by (rule held_kept [OF x1]) (simp_all add: addEvent_def hdr_upd_def fd_same)
  then have "fd_held f x2" by (rule held_kept) (simp_all add: x2_def park_kept)
  then have "fd_held f (x2\<lparr>cs_k := k1\<rparr>)" by (rule held_kept) (simp_all add: fd_same)
  then have h: "fd_held f (run_events es (x2\<lparr>cs_k := k1\<rparr>))" by (rule held_kept) (simp_all only: run_events_kept cstate_simps)
  have run: "connect_wait K x = (if e \<noteq> None \<and> e \<noteq> Some EINPROGRESS then (Some ConnectFailed, close_fd x1)
      else connect_outcome K c (run_events es (x2\<lparr>cs_k := k1\<rparr>)))"
    using e w by (simp add: connect_wait_def Let_def x1_def x2_def)
  show ?thesis
  proof (cases "e \<noteq> None \<and> e \<noteq> Some EINPROGRESS")
    case True
    then show ?thesis using run assms(2) x1 close_held [OF x1] by (auto simp: fd_held_def)
  next
    case False
    then have "connect_outcome K c (run_events es (x2\<lparr>cs_k := k1\<rparr>)) = (r, x')" using assms(2) unfolding run by (simp only: if_False)
    then show ?thesis using connect_outcome_fd [OF assms(1) h] by blast
  qed
qed

text \<open>
  C17. \<open>async_connect\<close> on a socket that holds no open descriptor neither leaks nor doubles one, whatever the poller, the timer wheel, the cancel hook, the owner's queue and other
  holders of the socket do while it is suspended: when it fails, the descriptor it created (if it got that far) has been closed exactly once, by
  itself, by the poller, by the timeout or by a holder, and the header holds no open descriptor; when it succeeds, the header holds the new
  descriptor and it is open.
\<close>

theorem connect_no_fd_leak:
  assumes "so_error_needs_fd K" "async_connect K t x = (r, x')" "cur_fd x < 0" "cs_opened x = []" "cs_closed x = []"
  shows "case r of
      Some e \<Rightarrow> cur_fd x' < 0 \<and> cs_closed x' = cs_opened x' \<and> length (cs_opened x') \<le> 1
    | None \<Rightarrow> 0 \<le> cur_fd x' \<and> cs_opened x' = [cur_fd x'] \<and> cs_closed x' = []"
proof -
  obtain r1 x1 where o: "connect_open K t x = (r1, x1)" by fastforce
  note p = connect_open_fd [OF o assms(3-5)]
  show ?thesis
  proof (cases r1)
    case (Some e)
    then show ?thesis using o p assms(2) by (auto simp: async_connect_def)
  next
    case None
    then have f: "fd_held (cur_fd x1) x1" "0 \<le> cur_fd x1" using p by auto
    obtain r2 x2 where w: "connect_wait K x1 = (r2, x2)" by fastforce
    have s: "cur_fd (x2\<lparr>cs_sock := connect_success b (cs_sock x2)\<rparr>) = cur_fd x2" "cs_closed (x2\<lparr>cs_sock := connect_success b (cs_sock x2)\<rparr>) = cs_closed x2" for b
      by (simp_all add: cur_fd_def cs_closed_def connect_success_def Let_def)
    show ?thesis using connect_wait_fd [OF assms(1) w f(1) refl] o w None f(2) assms(2)
      by (cases r2) (auto simp: async_connect_def s)
  qed
qed

text \<open>A socket that already has an open descriptor: it is replaced without being closed, by \<open>-1\<close> or by the new one.\<close>

lemma connect_replaces_open_fd:
  assumes "ck_resolve K (cs_k x) = (resolved, [], k)" and "0 \<le> cur_fd x" and "connect_open K t x = (r, x')"
  shows "cs_closed x' = cs_closed x \<and> (resolved \<or> cur_fd x' = - 1)"
  using assms by (auto simp: connect_open_def Let_def run_events_def set_fd_def hdr_upd_def cs_closed_def cur_fd_def set_timeout_ms_def
    arm_or_refresh_socket_timer_def split: prod.splits if_splits)

text \<open>A peer that refuses: the connect is in progress, the poller records the failure and \<open>SO_ERROR\<close>.\<close>

definition refusing :: "nat ckernel" where
  "refusing = \<lparr>ck_resolve = (\<lambda>k. (True, [], k)), ck_socket = (\<lambda>k. (int k, k + 1)), ck_connect = (\<lambda>k. (Some EINPROGRESS, k)),
     ck_wait = (\<lambda>k. (False, [Ev_poll \<lparr>ev_in = False, ev_out = True, ev_hup = False\<rparr> 111], False, k)),
     ck_so_error = (\<lambda>fd k. (if fd < 0 then None else Some 0, k))\<rparr>"

definition fresh_client :: "nat cstate" where
  "fresh_client = \<lparr>cs_sock = owned_sys\<lparr>o_hdr := demo_header\<lparr>sh_fd := - 1, sh_info := Proto_TCP OR Role_ACTIVE OR CONNECTION_PENDING\<rparr>\<rparr>,
     cs_k = 9, cs_opened = [], cs_events = 0, cs_me = 64, cs_tid = 0\<rparr>"

theorem connect_no_fd_leak_witness:
  "case async_connect refusing 500 fresh_client of (r, x') \<Rightarrow> r = Some ConnectFailed \<and> cur_fd x' < 0 \<and> cs_closed x' = cs_opened x' \<and> length (cs_opened x') \<le> 1"
proof -
  have s: "so_error_needs_fd refusing" by (simp add: so_error_needs_fd_def refusing_def)
  have i: "cur_fd fresh_client < 0" "cs_opened fresh_client = []" "cs_closed fresh_client = []"
    by (simp_all add: fresh_client_def cur_fd_def cs_closed_def owned_sys_def demo_header_def)
  obtain r x' where r: "async_connect refusing 500 fresh_client = (r, x')" by fastforce
  have "r = Some ConnectFailed"
    using r by (auto simp: async_connect_def connect_open_def connect_wait_def connect_outcome_def refusing_def fresh_client_def owned_sys_def
      demo_header_def set_fd_def hdr_upd_def run_events_def addEvent_def suspend_on_write_def suspend_write_def park_write_def park_def clear_busy_def
      set_timeout_ms_def try_add_ref_def arm_or_refresh_socket_timer_def Let_def poll_socket_def finish_connect_def
      fire_write_def flag_masks COUNT_MASK_def Proto_TCP_def Role_ACTIVE_def CONNECTION_PENDING_def CONNECTION_FAILED_def INFO_TIMEOUT_def
      TIMER_CLAIMED_def ETIMEDOUT_no_def READY_def BUSY_MASK_def split: prod.splits if_splits)
  then show ?thesis using connect_no_fd_leak [OF s r i] r by simp
qed

end
