(* ===== verification/Happy_Eyeballs.thy ===== *)
theory Happy_Eyeballs
  imports Socket_Connect "HOL-Library.Multiset"
begin

text \<open>
  The connection race of \<open>net/HappyEyeballs.cpp\<close> (RFC 8305): the resolvers of both address families, the
  pacer and the connection attempts share one \<open>HEState\<close> under a mutex. Every section of code under the lock
  is a function on \<open>he\<close>; the coroutines are the tasks of a step relation whose steps are these sections, so
  that every interleaving of them is covered. Name resolution, \<open>getnameinfo\<close> and the result of
  \<open>async_connect\<close> are chosen by the environment. Sockets are named by the order in which they are connected.
\<close>

section \<open>State\<close>

datatype IPV = IPV4 | IPV6

record resolved_addr =
  ra_ip :: string
  ra_ipv :: IPV

record HappyEyeballsOptions =
  attempt_delay :: nat
  opt_attempt_timeout :: nat
  opt_max_attempts :: nat
  resolution_delay :: nat

definition default_options :: HappyEyeballsOptions where
  "default_options = \<lparr>attempt_delay = 250, opt_attempt_timeout = 10000, opt_max_attempts = 4, resolution_delay = 50\<rparr>"

type_synonym coro = nat
type_synonym csock = nat

record HEState =
  he_done :: bool
  parent_waiting :: bool
  he_parent :: "coro option"
  parent_tid :: int
  he_addrs :: "resolved_addr list"
  he_port :: string
  attempt_timeout :: nat
  max_attempts :: nat
  next_idx :: nat
  finished :: nat
  resolves_pending :: int
  v6_resolved :: bool
  winner :: "csock option"
  last_error :: "ConnectError option"

definition he_new :: "string \<Rightarrow> HappyEyeballsOptions \<Rightarrow> int \<Rightarrow> resolved_addr list \<Rightarrow> int \<Rightarrow> HEState" where
  "he_new port opts tid xs pending = \<lparr>he_done = False, parent_waiting = False, he_parent = None, parent_tid = tid,
     he_addrs = xs, he_port = port, attempt_timeout = opt_attempt_timeout opts, max_attempts = opt_max_attempts opts,
     next_idx = 0, finished = 0, resolves_pending = pending, v6_resolved = False, winner = None, last_error = None\<rparr>"

definition decided :: "HEState \<Rightarrow> bool" where
  "decided st \<longleftrightarrow> he_done st \<or>
     (resolves_pending st = 0 \<and> next_idx st = length (he_addrs st) \<and> finished st = length (he_addrs st))"

section \<open>The sections under the lock\<close>

definition take_parent_if_decided :: "HEState \<Rightarrow> coro option \<times> HEState" where
  "take_parent_if_decided st =
    (if decided st \<and> parent_waiting st then (he_parent st, st\<lparr>parent_waiting := False, he_parent := None\<rparr>) else (None, st))"

definition race_suspend :: "coro \<Rightarrow> HEState \<Rightarrow> bool \<times> HEState" where
  "race_suspend h st = (if decided st then (False, st) else (True, st\<lparr>he_parent := Some h, parent_waiting := True\<rparr>))"

definition launch_next :: "HEState \<Rightarrow> resolved_addr option \<times> HEState" where
  "launch_next st = (if he_done st \<or> next_idx st \<ge> length (he_addrs st) then (None, st)
     else (Some (he_addrs st ! next_idx st), st\<lparr>next_idx := Suc (next_idx st)\<rparr>))"

text \<open>The first section of \<open>he_attempt\<close>: whether the attempt is skipped, and the parent it wakes.\<close>

definition attempt_begin :: "HEState \<Rightarrow> bool \<times> coro option \<times> HEState" where
  "attempt_begin st = (if he_done st
     then (case take_parent_if_decided (st\<lparr>finished := Suc (finished st)\<rparr>) of (w, st1) \<Rightarrow> (True, w, st1))
     else (False, None, st))"

text \<open>The section after \<open>async_connect\<close>: the socket to shut down because another attempt won, whether to
  launch the next attempt at once, and the parent to wake.\<close>

fun attempt_settle :: "ConnectError + csock \<Rightarrow> HEState \<Rightarrow> csock option \<times> bool \<times> HEState" where
  "attempt_settle (Inr k) st = (if \<not> he_done st then (None, False, st\<lparr>he_done := True, winner := Some k\<rparr>) else (Some k, False, st))"
| "attempt_settle (Inl e) st = (None, \<not> he_done st \<and> next_idx st < length (he_addrs st), st\<lparr>last_error := Some e\<rparr>)"

definition attempt_finish :: "ConnectError + csock \<Rightarrow> HEState \<Rightarrow> csock option \<times> bool \<times> coro option \<times> HEState" where
  "attempt_finish r st = (case attempt_settle r (st\<lparr>finished := Suc (finished st)\<rparr>) of (lost, early, st1) \<Rightarrow>
     (case take_parent_if_decided st1 of (w, st2) \<Rightarrow> (lost, early, w, st2)))"

definition pacer_exits :: "HEState \<Rightarrow> bool" where
  "pacer_exits st \<longleftrightarrow> he_done st \<or> (resolves_pending st = 0 \<and> next_idx st \<ge> length (he_addrs st))"

definition kick_if_stalled :: "HEState \<Rightarrow> bool" where
  "kick_if_stalled st \<longleftrightarrow> \<not> (he_done st \<or> next_idx st \<ge> length (he_addrs st) \<or> finished st \<noteq> next_idx st)"

definition AF_INET :: nat where "AF_INET = 2"
definition AF_INET6 :: nat where "AF_INET6 = 10"

record 'a addrinfo =
  ai_family :: nat
  ai_addr :: 'a

fun collect_numeric :: "('a \<Rightarrow> string option) \<Rightarrow> 'a addrinfo list \<Rightarrow> resolved_addr list" where
  "collect_numeric nameinfo [] = []"
| "collect_numeric nameinfo (ai # ais) = (case nameinfo (ai_addr ai) of
     None \<Rightarrow> collect_numeric nameinfo ais
   | Some buf \<Rightarrow>
       if ai_family ai = AF_INET6 then \<lparr>ra_ip = buf, ra_ipv = IPV6\<rparr> # collect_numeric nameinfo ais
       else if ai_family ai = AF_INET then \<lparr>ra_ip = buf, ra_ipv = IPV4\<rparr> # collect_numeric nameinfo ais
       else collect_numeric nameinfo ais)"

definition SIZE_MAX :: nat where "SIZE_MAX = 2 ^ 64 - 1"

function weave_loop :: "nat \<Rightarrow> nat \<Rightarrow> 'a list \<Rightarrow> 'a list \<Rightarrow> 'a list \<Rightarrow> 'a list" where
  "weave_loop cap i first second xs =
    (if i < length first \<or> i < length second then
       let xs1 = (if i < length first \<and> length xs < cap then xs @ [first ! i] else xs);
           xs2 = (if i < length second \<and> length xs1 < cap then xs1 @ [second ! i] else xs1)
       in weave_loop cap (Suc i) first second xs2
     else xs)"
  by pat_completeness auto
termination by (relation "measure (\<lambda>(cap, i, f, s, xs). max (length f) (length s) - i)") auto

declare weave_loop.simps [simp del]

definition weave_tail :: "resolved_addr list \<Rightarrow> bool \<Rightarrow> HEState \<Rightarrow> HEState" where
  "weave_tail found found_first st =
    (let tail = drop (next_idx st) (he_addrs st);
         cap = (if max_attempts st \<noteq> 0 then max (max_attempts st) (next_idx st) else SIZE_MAX);
         first = (if found_first then found else tail);
         second = (if found_first then tail else found)
     in st\<lparr>he_addrs := weave_loop cap 0 first second (take (next_idx st) (he_addrs st))\<rparr>)"

text \<open>\<open>he_resolve\<close>: whether the A answer waits for the AAAA one, and the section that publishes an answer.\<close>

definition delay_considered :: "HappyEyeballsOptions \<Rightarrow> bool \<Rightarrow> resolved_addr list \<Rightarrow> bool" where
  "delay_considered opts v6 found \<longleftrightarrow> \<not> v6 \<and> found \<noteq> [] \<and> resolution_delay opts > 0"

definition aaaa_pending :: "HEState \<Rightarrow> bool" where
  "aaaa_pending st \<longleftrightarrow> \<not> v6_resolved st \<and> \<not> he_done st"

definition resolve_finish :: "bool \<Rightarrow> resolved_addr list \<Rightarrow> HEState \<Rightarrow> coro option \<times> HEState" where
  "resolve_finish v6 found st =
    (let st1 = (if v6 then st\<lparr>v6_resolved := True\<rparr> else st);
         st2 = st1\<lparr>resolves_pending := resolves_pending st1 - 1\<rparr>;
         st3 = (if \<not> he_done st2 \<and> found \<noteq> [] then weave_tail found v6 st2 else st2)
     in take_parent_if_decided st3)"

definition race_result :: "bool \<Rightarrow> HEState \<Rightarrow> ConnectError + csock" where
  "race_result by_name st = (case winner st of Some k \<Rightarrow> Inr k
     | None \<Rightarrow> if by_name \<and> he_addrs st = [] then Inl GetAddrInfoFailed
         else Inl (case last_error st of Some e \<Rightarrow> e | None \<Rightarrow> ConnectFailed))"

section \<open>The coroutines\<close>

text \<open>A task is a coroutine between two of its sections.\<close>

datatype task =
  Attempt resolved_addr
| Connecting resolved_addr
| Attempted "csock option" bool "coro option"
| Launching bool "coro option"
| Waking "coro option"
| Pacer
| PacerLaunch
| Resolving bool
| DelayCheck "resolved_addr list"
| Delaying "resolved_addr list"
| Resolved bool "resolved_addr list"
| Kick "coro option"

datatype parent_pc =
  P_launch bool
| P_spawn "task list"
| P_ready
| P_suspend
| P_parked
| P_result
| P_done "ConnectError + csock"

record world =
  hs :: HEState
  tasks :: "task multiset"
  parent_pc :: parent_pc
  resumed :: "coro list"
  launched :: "resolved_addr list"
  connected :: "csock list"
  shut :: "csock list"

definition world_new :: "HEState \<Rightarrow> parent_pc \<Rightarrow> world" where
  "world_new st p = \<lparr>hs = st, tasks = {#}, parent_pc = p, resumed = [], launched = [], connected = [], shut = []\<rparr>"

definition launch :: "world \<Rightarrow> world" where
  "launch w = (case launch_next (hs w) of (None, st) \<Rightarrow> w\<lparr>hs := st\<rparr>
     | (Some a, st) \<Rightarrow> w\<lparr>hs := st, tasks := add_mset (Attempt a) (tasks w), launched := launched w @ [a]\<rparr>)"

text \<open>\<open>connect_happy_addrs\<close> with a non-empty list, and \<open>connect_happy\<close>, up to the first effect on the race.\<close>

definition clip_attempts :: "HappyEyeballsOptions \<Rightarrow> resolved_addr list \<Rightarrow> resolved_addr list" where
  "clip_attempts opts xs =
    (if opt_max_attempts opts > 0 \<and> length xs > opt_max_attempts opts then take (opt_max_attempts opts) xs else xs)"

definition connect_happy_addrs :: "resolved_addr list \<Rightarrow> string \<Rightarrow> HappyEyeballsOptions \<Rightarrow> int \<Rightarrow> ConnectError + world" where
  "connect_happy_addrs xs port opts tid = (if xs = [] then Inl GetAddrInfoFailed
     else let st = he_new port opts tid (clip_attempts opts xs) 0 in
       Inr (world_new st (P_launch (length (he_addrs st) > 1))))"

definition connect_happy :: "string \<Rightarrow> HappyEyeballsOptions \<Rightarrow> int \<Rightarrow> world" where
  "connect_happy port opts tid =
     world_new (he_new port opts tid [] 2) (P_spawn [Resolving True, Resolving False, Pacer])"

inductive he_step :: "HappyEyeballsOptions \<Rightarrow> ('a \<Rightarrow> string option) \<Rightarrow> bool \<Rightarrow> coro \<Rightarrow> world \<Rightarrow> world \<Rightarrow> bool"
  for opts nameinfo by_name me where
  par_launch: "parent_pc w = P_launch np \<Longrightarrow>
    he_step opts nameinfo by_name me w ((launch w)\<lparr>parent_pc := P_spawn (if np then [Pacer] else [])\<rparr>)"
| par_spawn: "parent_pc w = P_spawn (t # ts) \<Longrightarrow>
    he_step opts nameinfo by_name me w (w\<lparr>tasks := add_mset t (tasks w), parent_pc := P_spawn ts\<rparr>)"
| par_spawned: "parent_pc w = P_spawn [] \<Longrightarrow> he_step opts nameinfo by_name me w (w\<lparr>parent_pc := P_ready\<rparr>)"
| par_ready: "parent_pc w = P_ready \<Longrightarrow>
    he_step opts nameinfo by_name me w (w\<lparr>parent_pc := if decided (hs w) then P_result else P_suspend\<rparr>)"
| par_suspend: "parent_pc w = P_suspend \<Longrightarrow> race_suspend me (hs w) = (b, st) \<Longrightarrow>
    he_step opts nameinfo by_name me w (w\<lparr>hs := st, parent_pc := if b then P_parked else P_result\<rparr>)"
| par_resume: "parent_pc w = P_parked \<Longrightarrow> resumed w = h # hs' \<Longrightarrow>
    he_step opts nameinfo by_name me w (w\<lparr>resumed := hs', parent_pc := P_result\<rparr>)"
| par_result: "parent_pc w = P_result \<Longrightarrow>
    he_step opts nameinfo by_name me w (w\<lparr>parent_pc := P_done (race_result by_name (hs w))\<rparr>)"
| att_begin: "tasks w = add_mset (Attempt a) M \<Longrightarrow> attempt_begin (hs w) = (skip, wk, st) \<Longrightarrow>
    he_step opts nameinfo by_name me w
      (w\<lparr>hs := st, tasks := add_mset (if skip then Waking wk else Connecting a) M\<rparr>)"
| att_fail: "tasks w = add_mset (Connecting a) M \<Longrightarrow> attempt_finish (Inl e) (hs w) = (lost, early, wk, st) \<Longrightarrow>
    he_step opts nameinfo by_name me w (w\<lparr>hs := st, tasks := add_mset (Attempted lost early wk) M\<rparr>)"
| att_connect: "tasks w = add_mset (Connecting a) M \<Longrightarrow> k = length (connected w) \<Longrightarrow>
    attempt_finish (Inr k) (hs w) = (lost, early, wk, st) \<Longrightarrow>
    he_step opts nameinfo by_name me w
      (w\<lparr>hs := st, tasks := add_mset (Attempted lost early wk) M, connected := connected w @ [k]\<rparr>)"
| att_shut: "tasks w = add_mset (Attempted lost early wk) M \<Longrightarrow>
    he_step opts nameinfo by_name me w (w\<lparr>tasks := add_mset (Launching early wk) M,
      shut := shut w @ (case lost of Some k \<Rightarrow> [k] | None \<Rightarrow> [])\<rparr>)"
| do_launch: "tasks w = add_mset (Launching early wk) M \<Longrightarrow>
    he_step opts nameinfo by_name me w (let w1 = w\<lparr>tasks := add_mset (Waking wk) M\<rparr> in if early then launch w1 else w1)"
| wake: "tasks w = add_mset (Waking wk) M \<Longrightarrow>
    he_step opts nameinfo by_name me w (w\<lparr>tasks := M, resumed := resumed w @ (case wk of Some h \<Rightarrow> [h] | None \<Rightarrow> [])\<rparr>)"
| pacer: "tasks w = add_mset Pacer M \<Longrightarrow>
    he_step opts nameinfo by_name me w (w\<lparr>tasks := (if pacer_exits (hs w) then M else add_mset PacerLaunch M)\<rparr>)"
| pacer_launch: "tasks w = add_mset PacerLaunch M \<Longrightarrow>
    he_step opts nameinfo by_name me w (launch (w\<lparr>tasks := add_mset Pacer M\<rparr>))"
| resolve: "tasks w = add_mset (Resolving v6) M \<Longrightarrow>
    found = (case answer of None \<Rightarrow> [] | Some ais \<Rightarrow> collect_numeric nameinfo ais) \<Longrightarrow>
    he_step opts nameinfo by_name me w
      (w\<lparr>tasks := add_mset (if delay_considered opts v6 found then DelayCheck found else Resolved v6 found) M\<rparr>)"
| delay_check: "tasks w = add_mset (DelayCheck found) M \<Longrightarrow>
    he_step opts nameinfo by_name me w
      (w\<lparr>tasks := add_mset (if aaaa_pending (hs w) then Delaying found else Resolved False found) M\<rparr>)"
| delayed: "tasks w = add_mset (Delaying found) M \<Longrightarrow>
    he_step opts nameinfo by_name me w (w\<lparr>tasks := add_mset (Resolved False found) M\<rparr>)"
| resolved: "tasks w = add_mset (Resolved v6 found) M \<Longrightarrow> resolve_finish v6 found (hs w) = (wk, st) \<Longrightarrow>
    he_step opts nameinfo by_name me w (w\<lparr>hs := st, tasks := add_mset (Kick wk) M\<rparr>)"
| kick: "tasks w = add_mset (Kick wk) M \<Longrightarrow>
    he_step opts nameinfo by_name me w (w\<lparr>tasks := add_mset (Launching (kick_if_stalled (hs w)) wk) M\<rparr>)"

section \<open>Weaving the answers\<close>

fun interleave :: "'a list \<Rightarrow> 'a list \<Rightarrow> 'a list" where
  "interleave [] ys = ys"
| "interleave xs [] = xs"
| "interleave (x # xs) (y # ys) = x # y # interleave xs ys"

lemma interleave_Nil2 [simp]: "interleave xs [] = xs"
  by (cases xs) auto

lemma length_interleave [simp]: "length (interleave xs ys) = length xs + length ys"
  by (induction xs ys rule: interleave.induct) auto

lemma mset_interleave [simp]: "mset (interleave xs ys) = mset xs + mset ys"
  by (induction xs ys rule: interleave.induct) auto

text \<open>One round of the loop takes at most one address of each list.\<close>

lemma interleave_round:
  "interleave (drop i f) (drop i s) =
     (if i < length f then [f ! i] else []) @ (if i < length s then [s ! i] else []) @ interleave (drop (Suc i) f) (drop (Suc i) s)"
  by (cases "i < length f"; cases "i < length s") (auto simp: Cons_nth_drop_Suc [symmetric])

lemma weave_loop_interleave:
  "weave_loop cap i f s xs = xs @ take (cap - length xs) (interleave (drop i f) (drop i s))"
proof (induction cap i f s xs rule: weave_loop.induct)
  case (1 cap i f s xs)
  show ?case
  proof (cases "i < length f \<or> i < length s")
    case False
    then show ?thesis by (simp add: weave_loop.simps)
  next
    case True
    note IH = 1 [OF True refl refl]
    show ?thesis
      apply (subst weave_loop.simps)
      apply (subst interleave_round)
      apply (simp only: True if_True Let_def IH)
      apply (cases "length xs < cap"; cases "Suc (length xs) < cap")
         apply (auto simp: Suc_diff_le diff_Suc take_Cons' split: nat.splits)
      done
  qed
qed

section \<open>Invariant of the race\<close>

text \<open>What a task still owes to the shared state.\<close>

fun in_flight :: "task \<Rightarrow> nat" where
  "in_flight (Attempt a) = 1"
| "in_flight (Connecting a) = 1"
| "in_flight _ = 0"

fun resolving :: "task \<Rightarrow> nat" where
  "resolving (Resolving v6) = 1"
| "resolving (DelayCheck found) = 1"
| "resolving (Delaying found) = 1"
| "resolving (Resolved v6 found) = 1"
| "resolving _ = 0"

fun pacing :: "task \<Rightarrow> nat" where
  "pacing Pacer = 1"
| "pacing PacerLaunch = 1"
| "pacing _ = 0"

fun wake_of :: "task \<Rightarrow> coro option" where
  "wake_of (Attempted lost early wk) = wk"
| "wake_of (Launching early wk) = wk"
| "wake_of (Waking wk) = wk"
| "wake_of (Kick wk) = wk"
| "wake_of _ = None"

definition holds :: "coro option \<Rightarrow> nat" where
  "holds wk = (if wk = None then 0 else 1)"

lemma holds_simps [simp]: "holds None = 0" "holds (Some h) = 1"
  by (simp_all add: holds_def)

definition waits :: "HEState \<Rightarrow> nat" where
  "waits st = (if parent_waiting st then 1 else 0)"

fun lost_socks :: "task \<Rightarrow> csock multiset" where
  "lost_socks (Attempted (Some k) early wk) = {#k#}"
| "lost_socks _ = {#}"

fun to_spawn :: "parent_pc \<Rightarrow> task list" where
  "to_spawn (P_spawn ts) = ts"
| "to_spawn _ = []"

text \<open>All tasks of the race, spawned or about to be spawned by the parent.\<close>

definition pool :: "world \<Rightarrow> task multiset" where
  "pool w = tasks w + mset (to_spawn (parent_pc w))"

definition owed :: "(task \<Rightarrow> nat) \<Rightarrow> world \<Rightarrow> nat" where
  "owed f w = (\<Sum>t\<in>#pool w. f t)"

definition st_core :: "HEState \<Rightarrow> bool" where
  "st_core st \<longleftrightarrow> next_idx st \<le> length (he_addrs st) \<and> (he_done st \<longleftrightarrow> winner st \<noteq> None) \<and>
     (max_attempts st \<noteq> 0 \<longrightarrow> length (he_addrs st) \<le> max_attempts st) \<and> (parent_waiting st \<longrightarrow> he_parent st \<noteq> None)"

definition st_inv :: "HEState \<Rightarrow> bool" where
  "st_inv st \<longleftrightarrow> st_core st \<and> (parent_waiting st \<longrightarrow> \<not> decided st)"

definition count_inv :: "world \<Rightarrow> bool" where
  "count_inv w \<longleftrightarrow> finished (hs w) + owed in_flight w = next_idx (hs w) \<and>
     0 \<le> resolves_pending (hs w) \<and> owed resolving w = nat (resolves_pending (hs w))"

definition pace_inv :: "world \<Rightarrow> bool" where
  "pace_inv w \<longleftrightarrow> (case parent_pc w of
     P_launch np \<Rightarrow> tasks w = {#} \<and> next_idx (hs w) = 0 \<and> (\<not> np \<longrightarrow> length (he_addrs (hs w)) = 1) \<and> resolves_pending (hs w) = 0 \<and> \<not> he_done (hs w)
   | _ \<Rightarrow> owed pacing w \<noteq> 0 \<or> pacer_exits (hs w))"

definition wake_inv :: "world \<Rightarrow> bool" where
  "wake_inv w \<longleftrightarrow> owed (\<lambda>t. holds (wake_of t)) w + length (resumed w) + waits (hs w) =
     (if parent_pc w = P_parked then 1 else 0)"

definition sock_inv :: "world \<Rightarrow> bool" where
  "sock_inv w \<longleftrightarrow> mset (connected w) = (case winner (hs w) of None \<Rightarrow> {#} | Some k \<Rightarrow> {#k#}) + mset (shut w) + (\<Sum>t\<in>#pool w. lost_socks t) \<and>
     connected w = [0..<length (connected w)] \<and> (\<not> he_done (hs w) \<longrightarrow> connected w = [])"

definition result_inv :: "bool \<Rightarrow> world \<Rightarrow> bool" where
  "result_inv by_name w \<longleftrightarrow> (parent_pc w = P_result \<longrightarrow> decided (hs w)) \<and>
     (\<forall>r. parent_pc w = P_done r \<longrightarrow> decided (hs w) \<and> r = race_result by_name (hs w)) \<and>
     launched w = take (next_idx (hs w)) (he_addrs (hs w)) \<and>
     (parent_pc w = P_parked \<and> \<not> parent_waiting (hs w) \<longrightarrow> decided (hs w))"

definition he_inv :: "bool \<Rightarrow> world \<Rightarrow> bool" where
  "he_inv by_name w \<longleftrightarrow> st_inv (hs w) \<and> count_inv w \<and> pace_inv w \<and> wake_inv w \<and> sock_inv w \<and> result_inv by_name w"

lemmas section_defs = take_parent_if_decided_def race_suspend_def launch_next_def attempt_begin_def attempt_finish_def
  resolve_finish_def launch_def Let_def

lemmas world_defs = pool_def owed_def

lemma weave_tail_keeps [simp]:
  "he_done (weave_tail f b st) = he_done st" "parent_waiting (weave_tail f b st) = parent_waiting st"
  "he_parent (weave_tail f b st) = he_parent st" "max_attempts (weave_tail f b st) = max_attempts st"
  "next_idx (weave_tail f b st) = next_idx st" "finished (weave_tail f b st) = finished st"
  "resolves_pending (weave_tail f b st) = resolves_pending st" "winner (weave_tail f b st) = winner st"
  "last_error (weave_tail f b st) = last_error st" "v6_resolved (weave_tail f b st) = v6_resolved st"
  by (simp_all add: weave_tail_def Let_def)

text \<open>Weaving never touches an address that has been launched, and never exceeds the bound on attempts.\<close>

lemma weave_tail_addrs:
  assumes "next_idx st \<le> length (he_addrs st)"
  shows "take (next_idx st) (he_addrs (weave_tail f b st)) = take (next_idx st) (he_addrs st)"
    and "next_idx st \<le> length (he_addrs (weave_tail f b st))"
    and "max_attempts st \<noteq> 0 \<Longrightarrow> length (he_addrs st) \<le> max_attempts st \<Longrightarrow> length (he_addrs (weave_tail f b st)) \<le> max_attempts st"
  using assms by (auto simp: weave_tail_def Let_def weave_loop_interleave min_def)

lemma decided_finished [simp]: "he_done st \<Longrightarrow> decided st" "pacer_exits st \<Longrightarrow> \<not> he_done st \<Longrightarrow> next_idx st \<ge> length (he_addrs st)"
  by (auto simp: decided_def pacer_exits_def)

lemma pool_add: "tasks w = add_mset t M \<Longrightarrow> pool w = add_mset t (M + mset (to_spawn (parent_pc w)))"
  by (simp add: pool_def)

lemmas tpd = take_parent_if_decided_def

lemma finished_le:
  "count_inv w \<Longrightarrow> finished (hs w) \<le> next_idx (hs w)"
  "count_inv w \<Longrightarrow> tasks w = add_mset (Attempt a) M \<Longrightarrow> finished (hs w) < next_idx (hs w)"
  "count_inv w \<Longrightarrow> tasks w = add_mset (Connecting a) M \<Longrightarrow> finished (hs w) < next_idx (hs w)"
  "count_inv w \<Longrightarrow> tasks w = add_mset (Resolved v6 found) M \<Longrightarrow> 0 < resolves_pending (hs w)"
  by (auto simp: count_inv_def world_defs)

lemma take_parent_st: "st_core st \<Longrightarrow> st_inv (snd (take_parent_if_decided st))"
  by (auto simp: st_core_def st_inv_def decided_def tpd)

lemma launch_next_st: "st_inv st \<Longrightarrow> finished st \<le> next_idx st \<Longrightarrow> st_inv (snd (launch_next st))"
  by (auto simp: st_inv_def st_core_def decided_def launch_next_def)

lemma attempt_begin_st: "st_inv st \<Longrightarrow> st_inv (snd (snd (attempt_begin st)))"
  using take_parent_st [of "st\<lparr>finished := Suc (finished st)\<rparr>"]
  by (auto simp: st_inv_def st_core_def attempt_begin_def split: prod.splits)

lemma attempt_settle_core: "st_core st \<Longrightarrow> st_core (snd (snd (attempt_settle r st)))"
  by (cases r) (auto simp: st_core_def)

lemma attempt_finish_st:
  assumes "st_inv st" "attempt_finish r st = (lost, early, wk, st')"
  shows "st_inv st'"
proof -
  have "st_core (st\<lparr>finished := Suc (finished st)\<rparr>)"
    using assms(1) by (simp add: st_inv_def st_core_def)
  then have "st_core (snd (snd (attempt_settle r (st\<lparr>finished := Suc (finished st)\<rparr>))))"
    by (rule attempt_settle_core)
  then show ?thesis
    using assms(2) by (auto simp: attempt_finish_def split: prod.splits dest: take_parent_st)
qed

lemma weave_tail_core: "st_core st \<Longrightarrow> st_core (weave_tail found b st)"
  by (auto simp: st_core_def weave_tail_addrs)

lemma resolve_finish_st: "st_inv st \<Longrightarrow> resolve_finish v6 found st = (wk, st') \<Longrightarrow> st_inv st'"
  unfolding resolve_finish_def Let_def
  by (drule arg_cong [of _ _ snd], simp, erule subst, rule take_parent_st)
    (auto simp: st_inv_def intro!: weave_tail_core, auto simp: st_core_def)

lemma st_inv_step:
  assumes "he_step opts nameinfo by_name me w w'" and I: "st_inv (hs w)" "count_inv w"
  shows "st_inv (hs w')"
  using assms(1)
proof cases
  case (par_suspend b st)
  then show ?thesis using I by (auto simp: race_suspend_def st_inv_def st_core_def decided_def split: if_splits)
qed (use I in \<open>auto simp: launch_def Let_def finished_le split: option.splits prod.splits
  dest: attempt_begin_st launch_next_st resolve_finish_st attempt_finish_st\<close>)

text \<open>What each section does to the fields the invariant reads.\<close>

definition same_race :: "HEState \<Rightarrow> HEState \<Rightarrow> bool" where
  "same_race st st' \<longleftrightarrow> he_done st' = he_done st \<and> winner st' = winner st \<and> he_addrs st' = he_addrs st \<and>
     next_idx st' = next_idx st \<and> finished st' = finished st \<and> resolves_pending st' = resolves_pending st \<and> last_error st' = last_error st"

lemma take_parent_eff:
  assumes "take_parent_if_decided st = (wk, st')" "st_core st"
  shows "same_race st st' \<and> holds wk + waits st' = waits st \<and> (wk = None \<or> decided st')"
  using assms by (auto simp: tpd same_race_def holds_def waits_def st_core_def decided_def split: if_splits)

lemma attempt_begin_eff:
  assumes "attempt_begin st = (skip, wk, st')" "st_inv st"
  shows "same_race (st\<lparr>finished := finished st + (if skip then 1 else 0)\<rparr>) st' \<and> holds wk + waits st' = waits st \<and>
    skip = he_done st \<and> wk = None"
  using assms by (auto simp: attempt_begin_def tpd same_race_def holds_def waits_def st_inv_def decided_def split: if_splits prod.splits)

lemma attempt_finish_fail_eff:
  assumes "attempt_finish (Inl e) st = (lost, early, wk, st')" "st_inv st"
  shows "same_race (st\<lparr>finished := Suc (finished st), last_error := Some e\<rparr>) st' \<and> holds wk + waits st' = waits st \<and> lost = None \<and> (wk = None \<or> decided st')"
  using assms take_parent_eff [of "st\<lparr>finished := Suc (finished st), last_error := Some e\<rparr>" wk st']
  by (auto simp: attempt_finish_def st_inv_def st_core_def waits_def split: prod.splits)

lemma attempt_finish_ok_eff:
  assumes "attempt_finish (Inr k) st = (lost, early, wk, st')" "st_inv st"
  shows "same_race (st\<lparr>finished := Suc (finished st), he_done := True,
      winner := (if he_done st then winner st else Some k)\<rparr>) st' \<and> holds wk + waits st' = waits st \<and>
    lost = (if he_done st then Some k else None) \<and> (wk = None \<or> decided st')"
proof -
  let ?st = "st\<lparr>finished := Suc (finished st), he_done := True, winner := (if he_done st then winner st else Some k)\<rparr>"
  have eq: "take_parent_if_decided ?st = (wk, st')" "lost = (if he_done st then Some k else None)"
    using assms(1) by (cases st; auto simp: attempt_finish_def split: prod.splits if_splits)+
  have "st_core ?st" using assms(2) by (auto simp: st_inv_def st_core_def)
  with take_parent_eff [OF eq(1)] eq(2) show ?thesis by (simp add: waits_def)
qed

lemma resolve_finish_eff:
  assumes "resolve_finish v6 found st = (wk, st')" "st_inv st"
  shows "\<exists>xs. same_race (st\<lparr>resolves_pending := resolves_pending st - 1, he_addrs := xs\<rparr>) st' \<and>
    holds wk + waits st' = waits st \<and> next_idx st \<le> length xs \<and> take (next_idx st) xs = take (next_idx st) (he_addrs st) \<and>
    (he_done st \<longrightarrow> xs = he_addrs st) \<and> (wk = None \<or> decided st')"
proof -
  define st2 where "st2 = (if v6 then st\<lparr>v6_resolved := True\<rparr> else st)\<lparr>resolves_pending := resolves_pending st - 1\<rparr>"
  define st3 where "st3 = (if \<not> he_done st2 \<and> found \<noteq> [] then weave_tail found v6 st2 else st2)"
  have eq: "take_parent_if_decided st3 = (wk, st')"
    using assms(1) by (cases v6) (auto simp: resolve_finish_def st3_def st2_def Let_def split: if_splits)
  have c2: "st_core st2" "he_addrs st2 = he_addrs st" "next_idx st2 = next_idx st" "he_done st2 = he_done st"
    using assms(2) by (auto simp: st2_def st_inv_def st_core_def)
  then have c3: "st_core st3" by (simp add: st3_def weave_tail_core)
  have keep: "same_race (st\<lparr>resolves_pending := resolves_pending st - 1, he_addrs := he_addrs st3\<rparr>) st3" "waits st3 = waits st"
    by (auto simp: st3_def st2_def same_race_def waits_def)
  have "next_idx st \<le> length (he_addrs st3)" "take (next_idx st) (he_addrs st3) = take (next_idx st) (he_addrs st)"
    using weave_tail_addrs [of st2 found v6] c2 by (auto simp: st3_def st_core_def)
  moreover have "he_done st \<longrightarrow> he_addrs st3 = he_addrs st" using c2 by (simp add: st3_def)
  ultimately show ?thesis using take_parent_eff [OF eq c3] keep
    by (intro exI [of _ "he_addrs st3"]) (auto simp: same_race_def)
qed

lemma launch_cases:
  obtains (idle) "launch w = w" "he_done (hs w) \<or> length (he_addrs (hs w)) \<le> next_idx (hs w)"
  | (go) a where "launch w = w\<lparr>hs := (hs w)\<lparr>next_idx := Suc (next_idx (hs w))\<rparr>, tasks := add_mset (Attempt a) (tasks w), launched := launched w @ [a]\<rparr>"
      "next_idx (hs w) < length (he_addrs (hs w))" "a = he_addrs (hs w) ! next_idx (hs w)" "\<not> he_done (hs w)"
  by (cases "he_done (hs w) \<or> length (he_addrs (hs w)) \<le> next_idx (hs w)") (auto simp: launch_def launch_next_def)

lemma count_launch: "count_inv w \<Longrightarrow> count_inv (launch w)"
  by (cases w rule: launch_cases) (simp_all add: count_inv_def world_defs)

lemma count_inv_step:
  assumes "he_step opts nameinfo by_name me w w'" and I: "st_inv (hs w)" "count_inv w" "pace_inv w"
  shows "count_inv w'"
  using assms(1)
proof cases
  case (par_launch np)
  then have "count_inv (launch w)" "parent_pc (launch w) = P_launch np"
    using count_launch I by (auto simp: launch_def split: option.splits prod.splits)
  then show ?thesis using par_launch by (auto simp: count_inv_def world_defs)
next
  case (par_suspend b st)
  then show ?thesis using I by (auto simp: count_inv_def world_defs race_suspend_def split: if_splits)
next
  case (att_begin a M skip wk st)
  then show ?thesis using I attempt_begin_eff [OF att_begin(3)] by (auto simp: count_inv_def world_defs same_race_def)
next
  case (att_fail a M e lost early wk st)
  then show ?thesis using I attempt_finish_fail_eff [OF att_fail(3)] by (auto simp: count_inv_def world_defs same_race_def)
next
  case (att_connect a M k lost early wk st)
  then show ?thesis using I attempt_finish_ok_eff [OF att_connect(4)] by (auto simp: count_inv_def world_defs same_race_def)
next
  case (do_launch early wk M)
  then have "count_inv (w\<lparr>tasks := add_mset (Waking wk) M\<rparr>)" using I by (auto simp: count_inv_def world_defs)
  then show ?thesis using do_launch count_launch by (auto simp: Let_def)
next
  case (pacer_launch M)
  then have "count_inv (w\<lparr>tasks := add_mset Pacer M\<rparr>)" using I by (auto simp: count_inv_def world_defs)
  then show ?thesis using pacer_launch count_launch by auto
next
  case (resolved v6 found M wk st)
  then show ?thesis using I resolve_finish_eff [OF resolved(3)] by (auto simp: count_inv_def world_defs same_race_def nat_diff_distrib)
qed (use I in \<open>auto simp: count_inv_def world_defs\<close>)

lemma wake_inv_step:
  assumes "he_step opts nameinfo by_name me w w'" and I: "st_inv (hs w)" "wake_inv w"
  shows "wake_inv w'"
proof -
  have L: "wake_inv v \<Longrightarrow> wake_inv (launch v)" for v
    by (cases v rule: launch_cases) (simp_all add: wake_inv_def world_defs waits_def)
  show ?thesis
    using assms(1)
  proof cases
    case (par_launch np)
    then have "wake_inv (launch w)" "parent_pc (launch w) = P_launch np"
      using L I by (auto simp: launch_def split: option.splits prod.splits)
    then show ?thesis using par_launch by (auto simp: wake_inv_def world_defs)
  next
    case (par_suspend b st)
    then show ?thesis using I by (auto simp: wake_inv_def world_defs race_suspend_def waits_def split: if_splits)
  next
    case (att_begin a M skip wk st)
    then show ?thesis using I attempt_begin_eff [OF att_begin(3)] by (auto simp: wake_inv_def world_defs)
  next
    case (att_fail a M e lost early wk st)
    then show ?thesis using I attempt_finish_fail_eff [OF att_fail(3)]
      by (auto simp: wake_inv_def world_defs)
  next
    case (att_connect a M k lost early wk st)
    then show ?thesis using I attempt_finish_ok_eff [OF att_connect(4)]
      by (auto simp: wake_inv_def world_defs)
  next
    case (do_launch early wk M)
    then have "wake_inv (w\<lparr>tasks := add_mset (Waking wk) M\<rparr>)" using I by (auto simp: wake_inv_def world_defs)
    then show ?thesis using do_launch L by (auto simp: Let_def)
  next
    case (pacer_launch M)
    then have "wake_inv (w\<lparr>tasks := add_mset Pacer M\<rparr>)" using I by (auto simp: wake_inv_def world_defs)
    then show ?thesis using pacer_launch L by auto
  next
    case (resolved v6 found M wk st)
    then show ?thesis using I resolve_finish_eff [OF resolved(3)]
      by (auto simp: wake_inv_def world_defs)
  qed (use I in \<open>auto simp: wake_inv_def world_defs split: option.splits if_splits\<close>)
qed

lemma launch_parent [simp]: "parent_pc (launch w) = parent_pc w" "resumed (launch w) = resumed w"
  "connected (launch w) = connected w" "shut (launch w) = shut w"
  by (cases w rule: launch_cases; simp)+

definition paced :: "world \<Rightarrow> bool" where
  "paced w \<longleftrightarrow> owed pacing w \<noteq> 0 \<or> pacer_exits (hs w)"

lemma pace_inv_paced: "(\<And>np. parent_pc w \<noteq> P_launch np) \<Longrightarrow> pace_inv w = paced w"
  by (cases "parent_pc w") (auto simp: pace_inv_def paced_def)

lemma paced_launch: "paced w \<Longrightarrow> paced (launch w)"
  by (cases w rule: launch_cases) (auto simp: paced_def world_defs pacer_exits_def)

lemma no_launch_pc: "pace_inv w \<Longrightarrow> tasks w = add_mset t M \<Longrightarrow> parent_pc w \<noteq> P_launch np"
  by (auto simp: pace_inv_def)

lemma pace_inv_step:
  assumes "he_step opts nameinfo by_name me w w'" and I: "st_inv (hs w)" "count_inv w" "pace_inv w"
  shows "pace_inv w'"
proof (cases "\<exists>np. parent_pc w = P_launch np")
  case True
  then obtain np where np: "parent_pc w = P_launch np" by auto
  then have "tasks w = {#}" using I by (simp add: pace_inv_def)
  with assms(1) np have w': "w' = (launch w)\<lparr>parent_pc := P_spawn (if np then [Pacer] else [])\<rparr>"
    by cases auto
  then have "paced w'" using np I
    by (cases w rule: launch_cases; cases np) (auto simp: paced_def pace_inv_def world_defs pacer_exits_def)
  with w' show ?thesis by (simp add: pace_inv_paced)
next
  case False
  then have P: "paced w" using I by (simp add: pace_inv_paced)
  have "paced w' \<and> (\<forall>np. parent_pc w' \<noteq> P_launch np)"
    using assms(1)
  proof cases
    case (par_suspend b st)
    then show ?thesis using P by (auto simp: paced_def world_defs race_suspend_def pacer_exits_def split: if_splits)
  next
    case (att_begin a M skip wk st)
    then show ?thesis using P False I attempt_begin_eff [OF att_begin(3)] by (auto simp: paced_def world_defs same_race_def pacer_exits_def)
  next
    case (att_fail a M e lost early wk st)
    then show ?thesis using P False I attempt_finish_fail_eff [OF att_fail(3)] by (auto simp: paced_def world_defs same_race_def pacer_exits_def)
  next
    case (att_connect a M k lost early wk st)
    then show ?thesis using P False I attempt_finish_ok_eff [OF att_connect(4)] by (auto simp: paced_def world_defs same_race_def pacer_exits_def)
  next
    case (do_launch early wk M)
    then have "paced (w\<lparr>tasks := add_mset (Waking wk) M\<rparr>)" using P by (auto simp: paced_def world_defs)
    then show ?thesis using do_launch paced_launch False by (auto simp: Let_def)
  next
    case (pacer_launch M)
    have "paced (w\<lparr>tasks := add_mset Pacer M\<rparr>)" by (simp add: paced_def world_defs)
    then show ?thesis using pacer_launch paced_launch False by auto
  next
    case (resolved v6 found M wk st)
    then show ?thesis using P False I resolve_finish_eff [OF resolved(3)] finished_le(4) [OF I(2) resolved(2)]
      by (auto simp: paced_def world_defs same_race_def pacer_exits_def)
  qed (use P False in \<open>auto simp: paced_def world_defs split: if_splits\<close>)
  then show ?thesis by (simp add: pace_inv_paced)
qed

lemma sock_launch: "sock_inv w \<Longrightarrow> sock_inv (launch w)"
  by (cases w rule: launch_cases) (auto simp: sock_inv_def pool_def split: option.splits)

lemma sock_inv_step:
  assumes "he_step opts nameinfo by_name me w w'" and I: "st_inv (hs w)" "sock_inv w"
  shows "sock_inv w'"
  using assms(1)
proof cases
  case (par_launch np)
  then show ?thesis using sock_launch [OF I(2)] by (auto simp: sock_inv_def pool_def)
next
  case (par_suspend b st)
  then show ?thesis using I by (auto simp: sock_inv_def pool_def race_suspend_def split: if_splits)
next
  case (att_begin a M skip wk st)
  then show ?thesis using I attempt_begin_eff [OF att_begin(3)] by (auto simp: sock_inv_def pool_def same_race_def)
next
  case (att_fail a M e lost early wk st)
  then show ?thesis using I attempt_finish_fail_eff [OF att_fail(3)] by (auto simp: sock_inv_def pool_def same_race_def)
next
  case (att_connect a M k lost early wk st)
  then show ?thesis using I attempt_finish_ok_eff [OF att_connect(4)]
    by (cases "he_done (hs w)") (auto simp: sock_inv_def pool_def same_race_def st_inv_def st_core_def)
next
  case (do_launch early wk M)
  then have "sock_inv (w\<lparr>tasks := add_mset (Waking wk) M\<rparr>)" using I by (auto simp: sock_inv_def pool_def)
  then show ?thesis using do_launch sock_launch by (auto simp: Let_def)
next
  case (pacer_launch M)
  then have "sock_inv (w\<lparr>tasks := add_mset Pacer M\<rparr>)" using I by (auto simp: sock_inv_def pool_def)
  then show ?thesis using pacer_launch sock_launch by auto
next
  case (resolved v6 found M wk st)
  then show ?thesis using I resolve_finish_eff [OF resolved(3)] by (auto simp: sock_inv_def pool_def same_race_def)
qed (use I in \<open>auto simp: sock_inv_def pool_def split: option.splits\<close>)

text \<open>Once the race is decided, no section changes its outcome.\<close>

lemma decided_stable:
  assumes "he_step opts nameinfo by_name me w w'" and I: "st_inv (hs w)" "count_inv w" and D: "decided (hs w)"
  shows "decided (hs w') \<and> race_result b (hs w') = race_result b (hs w)"
proof -
  have fin: "he_done (hs w) \<or> (resolves_pending (hs w) = 0 \<and> next_idx (hs w) = length (he_addrs (hs w)) \<and> finished (hs w) = next_idx (hs w))"
    using D by (auto simp: decided_def)
  have win: "he_done (hs w) \<Longrightarrow> winner (hs w) \<noteq> None" using I by (simp add: st_inv_def st_core_def)
  have L: "launch v = v" if "hs v = hs w" for v
    using fin that by (cases v rule: launch_cases) auto
  show ?thesis
    using assms(1)
  proof cases
    case (par_suspend b st)
    then show ?thesis using D by (auto simp: race_suspend_def)
  next
    case (att_begin a M skip wk st)
    then show ?thesis using fin win I attempt_begin_eff [OF att_begin(3)] finished_le(2) [OF I(2) att_begin(2)]
      by (auto simp: same_race_def race_result_def)
  next
    case (att_fail a M e lost early wk st)
    then show ?thesis using fin win I attempt_finish_fail_eff [OF att_fail(3)] finished_le(3) [OF I(2) att_fail(2)]
      by (auto simp: same_race_def race_result_def)
  next
    case (att_connect a M k lost early wk st)
    then show ?thesis using fin win I attempt_finish_ok_eff [OF att_connect(4)] finished_le(3) [OF I(2) att_connect(2)]
      by (auto simp: same_race_def race_result_def)
  next
    case (resolved v6 found M wk st)
    then show ?thesis using fin win I resolve_finish_eff [OF resolved(3)] finished_le(4) [OF I(2) resolved(2)]
      by (auto simp: same_race_def race_result_def)
  qed (use D L in \<open>auto simp: Let_def\<close>)
qed

lemma launched_step:
  assumes "he_step opts nameinfo by_name me w w'" and I: "st_inv (hs w)"
    and "launched w = take (next_idx (hs w)) (he_addrs (hs w))"
  shows "launched w' = take (next_idx (hs w')) (he_addrs (hs w'))"
proof -
  have L: "launched v = take (next_idx (hs v)) (he_addrs (hs v)) \<Longrightarrow>
      launched (launch v) = take (next_idx (hs (launch v))) (he_addrs (hs (launch v)))" for v
    by (cases v rule: launch_cases) (simp_all add: take_Suc_conv_app_nth)
  show ?thesis
    using assms(1)
  proof cases
    case (par_suspend b st)
    then show ?thesis using assms(3) by (auto simp: race_suspend_def split: if_splits)
  next
    case (att_begin a M skip wk st)
    then show ?thesis using assms(3) attempt_begin_eff [OF att_begin(3) I] by (auto simp: same_race_def)
  next
    case (att_fail a M e lost early wk st)
    then show ?thesis using assms(3) attempt_finish_fail_eff [OF att_fail(3) I] by (auto simp: same_race_def)
  next
    case (att_connect a M k lost early wk st)
    then show ?thesis using assms(3) attempt_finish_ok_eff [OF att_connect(4) I] by (auto simp: same_race_def)
  next
    case (resolved v6 found M wk st)
    then show ?thesis using assms(3) resolve_finish_eff [OF resolved(3) I] by (auto simp: same_race_def)
  qed (use L [of w] L assms(3) in \<open>auto simp: Let_def\<close>)
qed

lemma unparked_decided:
  assumes "he_step opts nameinfo by_name me w w'" and I: "st_inv (hs w)" "count_inv w"
    and "parent_pc w = P_parked \<and> \<not> parent_waiting (hs w) \<longrightarrow> decided (hs w)"
    and "parent_pc w' = P_parked" "\<not> parent_waiting (hs w')"
  shows "decided (hs w')"
proof (cases "parent_pc w = P_parked \<and> \<not> parent_waiting (hs w)")
  case True
  then show ?thesis using decided_stable [OF assms(1) I] assms(4) by blast
next
  case False
  have L: "parent_waiting (hs (launch v)) = parent_waiting (hs v)" for v by (cases v rule: launch_cases) simp_all
  show ?thesis
    using assms(1)
  proof cases
    case (par_suspend b st)
    then show ?thesis using assms(5,6) by (auto simp: race_suspend_def split: if_splits)
  next
    case (att_begin a M skip wk st)
    then show ?thesis using assms(5,6) False attempt_begin_eff [OF att_begin(3) I(1)] by (auto simp: waits_def split: if_splits)
  next
    case (att_fail a M e lost early wk st)
    then show ?thesis using assms(5,6) False attempt_finish_fail_eff [OF att_fail(3) I(1)] by (auto simp: waits_def split: if_splits)
  next
    case (att_connect a M k lost early wk st)
    then show ?thesis using assms(5,6) False attempt_finish_ok_eff [OF att_connect(4) I(1)] by (auto simp: waits_def split: if_splits)
  next
    case (resolved v6 found M wk st)
    then show ?thesis using assms(5,6) False resolve_finish_eff [OF resolved(3) I(1)] by (auto simp: waits_def split: if_splits)
  qed (use False L assms(5,6) in \<open>auto simp: Let_def split: if_splits\<close>)
qed

lemma result_inv_step:
  assumes "he_step opts nameinfo by_name me w w'" and "he_inv by_name w"
  shows "result_inv by_name w'"
proof -
  have I: "st_inv (hs w)" "count_inv w" "wake_inv w" "result_inv by_name w" using assms(2) by (simp_all add: he_inv_def)
  note stable = decided_stable [OF assms(1) I(1,2)]
  have parked: "parent_pc w' = P_parked \<and> \<not> parent_waiting (hs w') \<longrightarrow> decided (hs w')"
    using unparked_decided [OF assms(1) I(1,2)] I(4) by (auto simp: result_inv_def)
  have lau: "launched w' = take (next_idx (hs w')) (he_addrs (hs w'))"
    using launched_step [OF assms(1) I(1)] I(4) by (simp add: result_inv_def)
  have "(parent_pc w' = P_result \<longrightarrow> decided (hs w')) \<and>
      (\<forall>r. parent_pc w' = P_done r \<longrightarrow> decided (hs w') \<and> r = race_result by_name (hs w'))"
  proof (cases "parent_pc w' = parent_pc w")
    case True
    then show ?thesis using I(4) stable by (auto simp: result_inv_def)
  next
    case False
    with assms(1) show ?thesis
    proof cases
      case (par_suspend b st)
      then show ?thesis by (auto simp: race_suspend_def split: if_splits)
    next
      case (par_resume h hs')
      then have "\<not> parent_waiting (hs w)" using I(3) by (auto simp: wake_inv_def waits_def)
      then show ?thesis using par_resume I(4) by (auto simp: result_inv_def)
    next
      case par_result
      then show ?thesis using I(4) by (auto simp: result_inv_def)
    qed (auto simp: Let_def)
  qed
  then show ?thesis using parked lau by (simp add: result_inv_def)
qed

lemma he_inv_step: "he_step opts nameinfo by_name me w w' \<Longrightarrow> he_inv by_name w \<Longrightarrow> he_inv by_name w'"
  using result_inv_step [of opts nameinfo by_name me w w'] unfolding he_inv_def
  by (blast intro: st_inv_step count_inv_step pace_inv_step wake_inv_step sock_inv_step)

text \<open>The two entry points.\<close>

definition he_start :: "HappyEyeballsOptions \<Rightarrow> bool \<Rightarrow> resolved_addr list \<Rightarrow> string \<Rightarrow> int \<Rightarrow> ConnectError + world" where
  "he_start opts by_name xs port tid =
    (if by_name then Inr (connect_happy port opts tid) else connect_happy_addrs xs port opts tid)"

lemma he_start_inv:
  assumes "he_start opts by_name xs port tid = Inr w"
  shows "he_inv by_name w \<and> max_attempts (hs w) = opt_max_attempts opts"
proof (cases by_name)
  case True
  with assms have "w = connect_happy port opts tid" by (simp add: he_start_def)
  then show ?thesis
    by (auto simp: connect_happy_def world_new_def he_new_def he_inv_def st_inv_def st_core_def count_inv_def pace_inv_def
        wake_inv_def waits_def sock_inv_def result_inv_def world_defs)
next
  case False
  with assms have "w = world_new (he_new port opts tid (clip_attempts opts xs) 0) (P_launch (length (clip_attempts opts xs) > 1))"
    and "xs \<noteq> []" by (auto simp: he_start_def connect_happy_addrs_def Let_def he_new_def split: if_splits)
  moreover have "clip_attempts opts xs \<noteq> []" "opt_max_attempts opts \<noteq> 0 \<longrightarrow> length (clip_attempts opts xs) \<le> opt_max_attempts opts"
    using \<open>xs \<noteq> []\<close> by (auto simp: clip_attempts_def)
  ultimately show ?thesis
    by (auto simp: world_new_def he_new_def he_inv_def st_inv_def st_core_def count_inv_def pace_inv_def
        wake_inv_def waits_def sock_inv_def result_inv_def world_defs Suc_le_eq intro!: le_antisym)
qed

lemma launch_max [simp]: "max_attempts (hs (launch w)) = max_attempts (hs w)"
  by (cases w rule: launch_cases) simp_all

lemma take_parent_max: "take_parent_if_decided st = (wk, st') \<Longrightarrow> max_attempts st' = max_attempts st"
  by (auto simp: tpd split: if_splits)

lemma attempt_settle_max: "attempt_settle r st = (lost, early, st') \<Longrightarrow> max_attempts st' = max_attempts st"
  by (cases r) (auto split: if_splits)

lemma attempt_finish_max: "attempt_finish r st = (lost, early, wk, st') \<Longrightarrow> max_attempts st' = max_attempts st"
  by (auto simp: attempt_finish_def split: prod.splits dest!: take_parent_max attempt_settle_max)

lemma attempt_begin_max: "attempt_begin st = (skip, wk, st') \<Longrightarrow> max_attempts st' = max_attempts st"
  by (auto simp: attempt_begin_def split: prod.splits if_splits dest!: take_parent_max)

lemma resolve_finish_max: "resolve_finish v6 found st = (wk, st') \<Longrightarrow> max_attempts st' = max_attempts st"
  by (auto simp: resolve_finish_def Let_def split: if_splits dest!: take_parent_max)

lemma max_attempts_step: "he_step opts nameinfo by_name me w w' \<Longrightarrow> max_attempts (hs w') = max_attempts (hs w)"
  by (erule he_step.cases) (auto simp: Let_def race_suspend_def split: if_splits
      dest: attempt_finish_max attempt_begin_max resolve_finish_max)

interpretation he: inv_system "\<lambda>w. he_start opts by_name xs port tid = Inr w" "he_step opts nameinfo by_name me"
    "\<lambda>w. he_inv by_name w \<and> max_attempts (hs w) = opt_max_attempts opts" for opts by_name xs port tid nameinfo me
  by unfold_locales (use he_start_inv he_inv_step max_attempts_step in fastforce)+

abbreviation he_reach :: "HappyEyeballsOptions \<Rightarrow> bool \<Rightarrow> resolved_addr list \<Rightarrow> string \<Rightarrow> int \<Rightarrow> ('a \<Rightarrow> string option) \<Rightarrow> coro \<Rightarrow> world \<Rightarrow> bool" where
  "he_reach opts by_name xs port tid nameinfo me \<equiv>
     reach (\<lambda>w. he_start opts by_name xs port tid = Inr w) (he_step opts nameinfo by_name me)"

section \<open>Results\<close>

lemma sock_inv_distinct: "sock_inv w \<Longrightarrow> distinct (connected w)"
  unfolding sock_inv_def by (metis distinct_upt)

text \<open>A connected socket is the winner or has been given up: never both, never twice.\<close>

lemma sock_partition:
  assumes "sock_inv w"
  shows "distinct (shut w)" "set (shut w) \<subseteq> set (connected w)"
    "winner (hs w) = Some k \<Longrightarrow> k \<in> set (connected w) \<and> k \<notin> set (shut w)"
proof -
  obtain ls where ls: "mset ls = (\<Sum>t\<in>#pool w. lost_socks t)" using ex_mset by blast
  define ks where "ks = (case winner (hs w) of None \<Rightarrow> [] | Some k \<Rightarrow> [k])"
  have eq: "mset (connected w) = mset (ks @ shut w @ ls)"
    using assms ls by (simp add: sock_inv_def ks_def split: option.splits)
  have dis: "distinct (ks @ shut w @ ls)"
    using mset_eq_imp_distinct_iff [OF eq] sock_inv_distinct [OF assms] by simp
  have sets: "set (connected w) = set ks \<union> set (shut w) \<union> set ls"
    using mset_eq_setD [OF eq] by auto
  show "distinct (shut w)" "set (shut w) \<subseteq> set (connected w)" using dis sets by auto
  show "winner (hs w) = Some k \<Longrightarrow> k \<in> set (connected w) \<and> k \<notin> set (shut w)" using dis sets by (auto simp: ks_def)
qed

text \<open>A task can always take its next section, whatever the state.\<close>

lemma task_can_step: "t \<in># tasks w \<Longrightarrow> \<exists>w'. he_step opts nameinfo by_name me w w'"
proof -
  assume "t \<in># tasks w"
  then obtain M where M: "tasks w = add_mset t M" by (meson multi_member_split)
  obtain skip wk st where ab: "attempt_begin (hs w) = (skip, wk, st)" by (cases "attempt_begin (hs w)") auto
  obtain lost early wk' st' where af: "attempt_finish (Inl ConnectFailed) (hs w) = (lost, early, wk', st')"
    by (cases "attempt_finish (Inl ConnectFailed) (hs w)") auto
  show ?thesis
  proof (cases t)
    case (Resolved v6 found)
    obtain wk2 st2 where "resolve_finish v6 found (hs w) = (wk2, st2)" by (cases "resolve_finish v6 found (hs w)") auto
    then show ?thesis using M Resolved he_step.resolved by blast
  qed (use M ab af in \<open>blast intro: he_step.intros(8-)\<close>)+
qed

lemma parent_can_step:
  assumes "he_inv by_name w" "tasks w = {#}" "\<And>r. parent_pc w \<noteq> P_done r"
  shows "\<exists>w'. he_step opts nameinfo by_name me w w'"
proof (cases "parent_pc w")
  case (P_spawn ts)
  then show ?thesis by (cases ts) (auto intro: he_step.intros)
next
  case P_suspend
  then show ?thesis by (cases "race_suspend me (hs w)") (auto intro: he_step.par_suspend)
next
  case P_parked
  have "paced w" using assms(1) P_parked by (simp add: he_inv_def pace_inv_paced)
  then have "pacer_exits (hs w)" using assms(2) P_parked by (simp add: paced_def world_defs)
  then have "decided (hs w)" using assms(1,2) P_parked
    by (auto simp: he_inv_def count_inv_def world_defs pacer_exits_def decided_def st_inv_def st_core_def)
  then have "\<not> parent_waiting (hs w)" using assms(1) by (auto simp: he_inv_def st_inv_def)
  then have "length (resumed w) = 1" using assms(1,2) P_parked by (simp add: he_inv_def wake_inv_def waits_def world_defs)
  then show ?thesis using P_parked by (cases "resumed w") (auto intro: he_step.par_resume)
qed (use assms(3) in \<open>auto intro: he_step.intros\<close>)

lemma race_facts:
  assumes "he_reach opts by_name xs port tid nameinfo me w"
  shows "launched w = take (next_idx (hs w)) (he_addrs (hs w))"
    and "opt_max_attempts opts \<noteq> 0 \<longrightarrow> length (launched w) \<le> opt_max_attempts opts"
    and "parent_pc w = P_done (Inr k) \<longrightarrow> k \<in> set (connected w) \<and> k \<notin> set (shut w)"
    and "parent_pc w = P_done (Inl e) \<longrightarrow> connected w = [] \<and> launched w = he_addrs (hs w)"
    and "distinct (shut w)"
    and "tasks w = {#} \<and> parent_pc w = P_done r \<longrightarrow> set (connected w) = set (shut w) \<union> set_option (winner (hs w))"
proof -
  have I: "he_inv by_name w" "max_attempts (hs w) = opt_max_attempts opts" using he.reach_inv [OF assms] by auto
  then have si: "sock_inv w" "st_inv (hs w)" "result_inv by_name w" "pace_inv w" by (simp_all add: he_inv_def)
  note S = sock_partition [OF si(1)]
  show "launched w = take (next_idx (hs w)) (he_addrs (hs w))" using si by (simp add: result_inv_def)
  then show "opt_max_attempts opts \<noteq> 0 \<longrightarrow> length (launched w) \<le> opt_max_attempts opts"
    using si I by (auto simp: st_inv_def st_core_def)
  have res: "parent_pc w = P_done r \<Longrightarrow> decided (hs w) \<and> r = race_result by_name (hs w)" for r
    using si by (simp add: result_inv_def)
  show "parent_pc w = P_done (Inr k) \<longrightarrow> k \<in> set (connected w) \<and> k \<notin> set (shut w)"
    using res S(3) by (auto simp: race_result_def split: option.splits if_splits)
  show "parent_pc w = P_done (Inl e) \<longrightarrow> connected w = [] \<and> launched w = he_addrs (hs w)"
    using res si by (auto simp: race_result_def decided_def sock_inv_def result_inv_def st_inv_def st_core_def split: option.splits)
  show "distinct (shut w)" by (rule S(1))
  show "tasks w = {#} \<and> parent_pc w = P_done r \<longrightarrow> set (connected w) = set (shut w) \<union> set_option (winner (hs w))"
  proof
    assume "tasks w = {#} \<and> parent_pc w = P_done r"
    then have "mset (connected w) = (case winner (hs w) of None \<Rightarrow> {#} | Some k \<Rightarrow> {#k#}) + mset (shut w)"
      using si(1) by (simp add: sock_inv_def pool_def)
    from arg_cong [OF this, of set_mset] show "set (connected w) = set (shut w) \<union> set_option (winner (hs w))"
      by (auto split: option.splits)
  qed
qed

text \<open>C20. In every interleaving of the race: attempts are launched in the order of the woven list and never more
  than \<open>max_attempts\<close> of them; a returned socket is connected and not shut down; an error is returned only when
  no attempt has connected and every address has been tried; a socket that lost the race is shut down at most
  once, and exactly once when all tasks have ended.\<close>

theorem happy_eyeballs_outcome:
  assumes "he_reach opts by_name xs port tid nameinfo me w"
  shows "launched w = take (next_idx (hs w)) (he_addrs (hs w)) \<and>
    (opt_max_attempts opts \<noteq> 0 \<longrightarrow> length (launched w) \<le> opt_max_attempts opts) \<and>
    (parent_pc w = P_done (Inr k) \<longrightarrow> k \<in> set (connected w) \<and> k \<notin> set (shut w)) \<and>
    (parent_pc w = P_done (Inl e) \<longrightarrow> connected w = [] \<and> launched w = he_addrs (hs w)) \<and>
    distinct (shut w) \<and>
    (tasks w = {#} \<and> parent_pc w = P_done r \<longrightarrow> set (connected w) = set (shut w) \<union> set_option (winner (hs w)))"
  using race_facts [OF assms] by blast

text \<open>C21. The caller of the race is never left suspended: a state of the race in which nothing can run has
  returned a result to it, and it is resumed at most once.\<close>

theorem happy_eyeballs_returns:
  assumes "he_reach opts by_name xs port tid nameinfo me w"
    and "\<And>w'. \<not> he_step opts nameinfo by_name me w w'"
  shows "\<exists>r. parent_pc w = P_done r \<and> resumed w = [] \<and> \<not> parent_waiting (hs w)"
proof -
  have I: "he_inv by_name w" using he.reach_inv [OF assms(1)] by auto
  have t: "tasks w = {#}" using task_can_step assms(2) by (meson multiset_nonemptyE)
  then obtain r where "parent_pc w = P_done r" using parent_can_step [OF I] assms(2) by blast
  then show ?thesis using I by (auto simp: he_inv_def wake_inv_def waits_def split: if_splits)
qed

text \<open>A race with one address whose attempt connects.\<close>

definition demo_addr :: resolved_addr where
  "demo_addr = \<lparr>ra_ip = ''::1'', ra_ipv = IPV6\<rparr>"

definition demo_end :: world where
  "demo_end = \<lparr>hs = (he_new ''80'' default_options 0 [demo_addr] 0)\<lparr>next_idx := 1, finished := 1, he_done := True, winner := Some 0\<rparr>,
     tasks = {#}, parent_pc = P_done (Inr 0), resumed = [], launched = [demo_addr], connected = [0], shut = []\<rparr>"

lemma demo_start: "he_start default_options False [demo_addr] ''80'' 0 = Inr (world_new (he_new ''80'' default_options 0 [demo_addr] 0) (P_launch False))"
  by (simp add: he_start_def connect_happy_addrs_def clip_attempts_def default_options_def he_new_def Let_def)

lemma demo_run: "he_reach default_options False [demo_addr] ''80'' 0 (\<lambda>_::nat. None) 7 demo_end"
proof -
  let ?R = "he_step default_options (\<lambda>_::nat. None) False 7"
  define st where "st = he_new ''80'' default_options 0 [demo_addr] 0"
  define st1 where "st1 = st\<lparr>next_idx := 1\<rparr>"
  define st2 where "st2 = st1\<lparr>finished := 1, he_done := True, winner := Some 0\<rparr>"
  define w1 where "w1 = \<lparr>hs = st1, tasks = {#Attempt demo_addr#}, parent_pc = P_spawn [], resumed = [], launched = [demo_addr], connected = [], shut = []\<rparr>"
  define w2 where "w2 = w1\<lparr>tasks := {#Connecting demo_addr#}\<rparr>"
  define w3 where "w3 = w1\<lparr>hs := st2, tasks := {#Attempted None False None#}, connected := [0]\<rparr>"
  define w4 where "w4 = w3\<lparr>tasks := {#Launching False None#}\<rparr>"
  define w5 where "w5 = w3\<lparr>tasks := {#Waking None#}\<rparr>"
  define w6 where "w6 = w3\<lparr>tasks := {#}\<rparr>"
  note defs = st_def st1_def st2_def he_new_def world_new_def w1_def w2_def w3_def w4_def w5_def w6_def
  have "?R (world_new st (P_launch False)) w1"
    using he_step.par_launch [of "world_new st (P_launch False)" False default_options "\<lambda>_::nat. None" False 7]
    by (simp add: defs launch_def launch_next_def)
  moreover have "?R w1 w2"
    using he_step.att_begin [of w1 demo_addr "{#}" False None st1 default_options "\<lambda>_::nat. None" False 7]
    by (simp add: defs attempt_begin_def)
  moreover have "?R w2 w3"
    using he_step.att_connect [of w2 demo_addr "{#}" 0 None False None st2 default_options "\<lambda>_::nat. None" False 7]
    by (simp add: defs attempt_finish_def tpd)
  moreover have "?R w3 w4"
    using he_step.att_shut [of w3 None False None "{#}" default_options "\<lambda>_::nat. None" False 7] by (simp add: defs)
  moreover have "?R w4 w5"
    using he_step.do_launch [of w4 False None "{#}" default_options "\<lambda>_::nat. None" False 7] by (simp add: defs)
  moreover have "?R w5 w6"
    using he_step.wake [of w5 None "{#}" default_options "\<lambda>_::nat. None" False 7] by (simp add: defs)
  moreover have "?R w6 (w6\<lparr>parent_pc := P_ready\<rparr>)"
    by (rule he_step.par_spawned) (simp add: defs)
  moreover have "?R (w6\<lparr>parent_pc := P_ready\<rparr>) (w6\<lparr>parent_pc := P_result\<rparr>)"
    using he_step.par_ready [of "w6\<lparr>parent_pc := P_ready\<rparr>" default_options "\<lambda>_::nat. None" False 7] by (simp add: defs)
  moreover have "?R (w6\<lparr>parent_pc := P_result\<rparr>) demo_end"
    using he_step.par_result [of "w6\<lparr>parent_pc := P_result\<rparr>" default_options "\<lambda>_::nat. None" False 7]
    by (simp add: defs race_result_def demo_end_def)
  moreover have "he_reach default_options False [demo_addr] ''80'' 0 (\<lambda>_::nat. None) 7 (world_new st (P_launch False))"
    by (rule reach_init) (simp add: demo_start st_def)
  ultimately show ?thesis by (meson reach_step)
qed

lemma demo_end_stuck: "\<not> he_step default_options (\<lambda>_::nat. None) False 7 demo_end w'"
  by (rule notI, erule he_step.cases) (auto simp: demo_end_def)

theorem happy_eyeballs_outcome_witness:
  "parent_pc demo_end = P_done (Inr 0) \<and> 0 \<in> set (connected demo_end) \<and> 0 \<notin> set (shut demo_end)"
  using happy_eyeballs_outcome [OF demo_run, of 0] by (simp add: demo_end_def)

theorem happy_eyeballs_returns_witness:
  "\<exists>r. parent_pc demo_end = P_done r \<and> resumed demo_end = [] \<and> \<not> parent_waiting (hs demo_end)"
  using happy_eyeballs_returns [OF demo_run demo_end_stuck] .

end
