(* ===== verification/Intrusive_Mpsc.thy ===== *)
theory Intrusive_Mpsc
  imports Uvent_Prelude
begin

text \<open>
  The intrusive multi-producer single-consumer queue of \<open>queue/IntrusiveMPSC.h\<close>: \<open>push\<close> and \<open>pop\<close> as one thread runs
  them, and the interleavings of any number of producers with the consumer, one atomic access per step (the
  private \<open>head_\<close> moves with the step that decides it). Nodes are numbers, \<open>stub\<close> is the node inside the queue.
  A client pushes a node only while it is not in the queue. History: \<open>pushed\<close>, the nodes in the order of
  \<open>tail_.exchange\<close>, \<open>popped\<close>, the nodes returned; \<open>q_nodes\<close> lists the nodes from \<open>head_\<close> to \<open>tail_\<close>.
\<close>

section \<open>Operations\<close>

type_synonym mnode = nat

definition stub :: mnode where "stub = 0"

record mpsc =
  mpsc_next :: "mnode \<Rightarrow> mnode option"
  mq_tail :: mnode
  mq_head :: mnode

definition mpsc_new :: mpsc where
  "mpsc_new = \<lparr>mpsc_next = (\<lambda>_. None), mq_tail = stub, mq_head = stub\<rparr>"

definition set_mnext :: "mnode \<Rightarrow> mnode option \<Rightarrow> mpsc \<Rightarrow> mpsc" where
  "set_mnext a v q = q\<lparr>mpsc_next := (mpsc_next q)(a := v)\<rparr>"

definition mpsc_push :: "mnode \<Rightarrow> mpsc \<Rightarrow> mpsc" where
  "mpsc_push n q = (let q1 = set_mnext n None q; prev = mq_tail q1; q2 = q1\<lparr>mq_tail := n\<rparr> in set_mnext prev (Some n) q2)"

text \<open>The part of \<open>pop\<close> after a leading stub has been skipped.\<close>

definition pop_from :: "mnode \<Rightarrow> mpsc \<Rightarrow> mnode option \<times> mpsc" where
  "pop_from h q = (case mpsc_next q h of
     Some n \<Rightarrow> (Some h, q\<lparr>mq_head := n\<rparr>)
   | None \<Rightarrow> if mq_tail q \<noteq> h then (None, q)
       else let q1 = mpsc_push stub q in
         (case mpsc_next q1 h of Some n \<Rightarrow> (Some h, q1\<lparr>mq_head := n\<rparr>) | None \<Rightarrow> (None, q1)))"

definition mpsc_pop :: "mpsc \<Rightarrow> mnode option \<times> mpsc" where
  "mpsc_pop q = (if mq_head q = stub
     then (case mpsc_next q stub of None \<Rightarrow> (None, q) | Some n \<Rightarrow> pop_from n (q\<lparr>mq_head := n\<rparr>))
     else pop_from (mq_head q) q)"

definition mpsc_empty_relaxed :: "mpsc \<Rightarrow> bool" where
  "mpsc_empty_relaxed q \<longleftrightarrow> mq_tail q = stub \<and> mq_head q = stub"

section \<open>Interleavings\<close>

datatype producer_pc = P_idle | P_store mnode | P_xchg mnode | P_link mnode mnode

datatype consumer_pc = C_idle | C_load mnode | C_skip mnode | C_tail mnode | C_stub mnode | C_xchg mnode
  | C_link mnode mnode | C_reload mnode

record mpsc_sys =
  mq :: mpsc
  producers :: "nat \<Rightarrow> producer_pc"
  consumer :: consumer_pc
  q_nodes :: "mnode list"
  pushed :: "mnode list"
  popped :: "mnode list"
  overlapped :: bool

definition ms_init :: mpsc_sys where
  "ms_init = \<lparr>mq = mpsc_new, producers = (\<lambda>_. P_idle), consumer = C_idle, q_nodes = [stub], pushed = [], popped = [], overlapped = False\<rparr>"

definition p_goto :: "nat \<Rightarrow> producer_pc \<Rightarrow> mpsc_sys \<Rightarrow> mpsc_sys" where
  "p_goto t p s = s\<lparr>producers := (producers s)(t := p)\<rparr>"

definition p_linking :: "mpsc_sys \<Rightarrow> bool" where
  "p_linking s \<longleftrightarrow> (\<exists>t a b. producers s t = P_link a b)"

fun pushing :: "producer_pc \<Rightarrow> mnode option" where
  "pushing P_idle = None"
| "pushing (P_store n) = Some n"
| "pushing (P_xchg n) = Some n"
| "pushing (P_link p n) = Some n"

definition free_node :: "mnode \<Rightarrow> mpsc_sys \<Rightarrow> bool" where
  "free_node n s \<longleftrightarrow> n \<noteq> stub \<and> n \<notin> set (q_nodes s) \<and> (\<forall>t. pushing (producers s t) \<noteq> Some n)"

definition move_head :: "mnode \<Rightarrow> mpsc_sys \<Rightarrow> mpsc_sys" where
  "move_head n s = s\<lparr>mq := (mq s)\<lparr>mq_head := n\<rparr>, q_nodes := tl (q_nodes s)\<rparr>"

definition give :: "mnode \<Rightarrow> mnode \<Rightarrow> mpsc_sys \<Rightarrow> mpsc_sys" where
  "give h n s = (move_head n s)\<lparr>popped := popped s @ [h], consumer := C_idle\<rparr>"

definition xchg_tail :: "mnode \<Rightarrow> mpsc_sys \<Rightarrow> mpsc_sys" where
  "xchg_tail n s = s\<lparr>mq := (mq s)\<lparr>mq_tail := n\<rparr>, q_nodes := q_nodes s @ [n]\<rparr>"

definition store_next :: "mnode \<Rightarrow> mnode option \<Rightarrow> mpsc_sys \<Rightarrow> mpsc_sys" where
  "store_next a v s = s\<lparr>mq := set_mnext a v (mq s)\<rparr>"

definition next_of :: "mpsc_sys \<Rightarrow> mnode \<Rightarrow> mnode option" where
  "next_of s a = mpsc_next (mq s) a"

inductive ms_step :: "mpsc_sys \<Rightarrow> mpsc_sys \<Rightarrow> bool" where
  push_call: "producers s t = P_idle \<Longrightarrow> free_node n s \<Longrightarrow> ms_step s (p_goto t (P_store n) s)"
| push_store: "producers s t = P_store n \<Longrightarrow> ms_step s (p_goto t (P_xchg n) (store_next n None s))"
| push_xchg: "producers s t = P_xchg n \<Longrightarrow>
    ms_step s (p_goto t (P_link (mq_tail (mq s)) n) ((xchg_tail n s)\<lparr>pushed := pushed s @ [n], overlapped := True\<rparr>))"
| push_link: "producers s t = P_link p n \<Longrightarrow> ms_step s (p_goto t P_idle (store_next p (Some n) s))"
| pop_call: "consumer s = C_idle \<Longrightarrow> ms_step s (s\<lparr>consumer := C_load (mq_head (mq s)), overlapped := p_linking s\<rparr>)"
| pop_null: "consumer s = C_load h \<Longrightarrow> h = stub \<Longrightarrow> next_of s h = None \<Longrightarrow> ms_step s (s\<lparr>consumer := C_idle\<rparr>)"
| pop_skip: "consumer s = C_load h \<Longrightarrow> h = stub \<Longrightarrow> next_of s h = Some n \<Longrightarrow>
    ms_step s ((move_head n s)\<lparr>consumer := C_skip n\<rparr>)"
| pop_take: "consumer s = C_load h \<Longrightarrow> h \<noteq> stub \<Longrightarrow> next_of s h = Some n \<Longrightarrow> ms_step s (give h n s)"
| pop_last: "consumer s = C_load h \<Longrightarrow> h \<noteq> stub \<Longrightarrow> next_of s h = None \<Longrightarrow> ms_step s (s\<lparr>consumer := C_tail h\<rparr>)"
| pop_take2: "consumer s = C_skip h \<Longrightarrow> next_of s h = Some n \<Longrightarrow> ms_step s (give h n s)"
| pop_last2: "consumer s = C_skip h \<Longrightarrow> next_of s h = None \<Longrightarrow> ms_step s (s\<lparr>consumer := C_tail h\<rparr>)"
| pop_busy: "consumer s = C_tail h \<Longrightarrow> mq_tail (mq s) \<noteq> h \<Longrightarrow> ms_step s (s\<lparr>consumer := C_idle\<rparr>)"
| pop_single: "consumer s = C_tail h \<Longrightarrow> mq_tail (mq s) = h \<Longrightarrow> ms_step s (s\<lparr>consumer := C_stub h\<rparr>)"
| pop_stub: "consumer s = C_stub h \<Longrightarrow> ms_step s ((store_next stub None s)\<lparr>consumer := C_xchg h\<rparr>)"
| pop_xchg: "consumer s = C_xchg h \<Longrightarrow> ms_step s ((xchg_tail stub s)\<lparr>consumer := C_link h (mq_tail (mq s))\<rparr>)"
| pop_link: "consumer s = C_link h p \<Longrightarrow> ms_step s ((store_next p (Some stub) s)\<lparr>consumer := C_reload h\<rparr>)"
| pop_take3: "consumer s = C_reload h \<Longrightarrow> next_of s h = Some n \<Longrightarrow> ms_step s (give h n s)"
| pop_null3: "consumer s = C_reload h \<Longrightarrow> next_of s h = None \<Longrightarrow> ms_step s (s\<lparr>consumer := C_idle\<rparr>)"

section \<open>The chain of nodes\<close>

text \<open>Two neighbours are linked, or a thread is about to link them.\<close>

fun chain_ok :: "(mnode \<Rightarrow> mnode option) \<Rightarrow> (mnode \<Rightarrow> mnode \<Rightarrow> bool) \<Rightarrow> mnode list \<Rightarrow> bool" where
  "chain_ok nx L [] = False"
| "chain_ok nx L [a] = (nx a = None)"
| "chain_ok nx L (a # b # q) = ((nx a = Some b \<or> nx a = None \<and> L a b) \<and> chain_ok nx L (b # q))"

definition adj :: "mnode list \<Rightarrow> (mnode \<times> mnode) set" where
  "adj q = set (zip q (tl q))"

lemma adj_simps [simp]: "adj [] = {}" "adj [a] = {}" "adj (a # b # q) = insert (a, b) (adj (b # q))"
  by (simp_all add: adj_def)

lemma adj_mem: "(a, b) \<in> adj q \<Longrightarrow> a \<in> set q \<and> b \<in> set (tl q)"
  unfolding adj_def by (meson set_zip_leftD set_zip_rightD)

lemma adj_snoc: "q \<noteq> [] \<Longrightarrow> adj (q @ [n]) = insert (last q, n) (adj q)"
  by (induction q rule: induct_list012) auto

lemma mchain_snoc:
  assumes "chain_ok nx L q" "nx n = None" "n \<notin> set q" "\<And>a b. (a, b) \<in> adj q \<Longrightarrow> L a b \<Longrightarrow> L' a b" "L' (last q) n"
  shows "chain_ok nx L' (q @ [n])"
  using assms by (induction nx L q rule: chain_ok.induct) auto

lemma chain_mono: "chain_ok nx L q \<Longrightarrow> (\<And>a b. (a, b) \<in> adj q \<Longrightarrow> L a b \<Longrightarrow> L' a b) \<Longrightarrow> chain_ok nx L' q"
  by (induction nx L q rule: chain_ok.induct) auto

lemma chain_out: "a \<notin> set q \<Longrightarrow> chain_ok (nx(a := v)) L q = chain_ok nx L q"
  by (induction nx L q rule: chain_ok.induct) auto

lemma chain_link:
  assumes "chain_ok nx L q" "distinct q" "(p, n) \<in> adj q" "\<And>a b. (a, b) \<in> adj q \<Longrightarrow> L a b \<Longrightarrow> a \<noteq> p \<Longrightarrow> L' a b"
  shows "chain_ok (nx(p := Some n)) L' q"
  using assms
proof (induction nx L q rule: chain_ok.induct)
  case (3 nx L a b q)
  show ?case
  proof (cases "a = p")
    case True
    have "(p, n) \<notin> adj (b # q)" using 3(3) True adj_mem [of p n "b # q"] by auto
    then have "n = b" using 3(4) True by simp
    moreover have "chain_ok nx L' (b # q)"
    proof (rule chain_mono)
      show "chain_ok nx L (b # q)" using 3(2) by simp
      show "L' c d" if "(c, d) \<in> adj (b # q)" "L c d" for c d
        using 3(3,5) True that adj_mem [OF that(1)] by (metis adj_simps(3) distinct.simps(2) insertI2)
    qed
    moreover have "p \<notin> set (b # q)" using True 3(3) by simp
    ultimately show ?thesis using True chain_out [of p "b # q" nx "Some b" L'] by (simp del: fun_upd_apply add: fun_upd_same)
  next
    case False
    then have "chain_ok (nx(p := Some n)) L' (b # q)" using 3(2-) by (intro 3(1)) auto
    then show ?thesis using 3(2,5) False by (auto simp del: fun_upd_apply simp: fun_upd_other)
  qed
qed auto

lemma mchain_last: "chain_ok nx L q \<Longrightarrow> nx (last q) = None"
  by (induction nx L q rule: chain_ok.induct) auto

lemma chain_tl: "chain_ok nx L (a # q) \<Longrightarrow> nx a = Some n \<Longrightarrow> \<exists>r. q = n # r \<and> chain_ok nx L q"
  by (cases q) auto

lemma chain_none: "chain_ok nx L (a # q) \<Longrightarrow> nx a = None \<Longrightarrow> q = [] \<or> L a (hd q)"
  by (cases q) auto

section \<open>Invariant\<close>

definition mpend :: "mpsc_sys \<Rightarrow> mnode \<Rightarrow> mnode \<Rightarrow> bool" where
  "mpend s a b \<longleftrightarrow> (\<exists>t. producers s t = P_link a b) \<or> (\<exists>h. consumer s = C_link h a) \<and> b = stub"

fun producer_ok :: "mpsc_sys \<Rightarrow> producer_pc \<Rightarrow> bool" where
  "producer_ok s P_idle = True"
| "producer_ok s (P_store n) = (n \<noteq> stub \<and> n \<notin> set (q_nodes s))"
| "producer_ok s (P_xchg n) = (n \<noteq> stub \<and> n \<notin> set (q_nodes s) \<and> next_of s n = None)"
| "producer_ok s (P_link p n) = (n \<noteq> stub \<and> (p, n) \<in> adj (q_nodes s) \<and> next_of s p = None)"

fun consumer_ok :: "mpsc_sys \<Rightarrow> consumer_pc \<Rightarrow> bool" where
  "consumer_ok s C_idle = True"
| "consumer_ok s (C_load h) = (h = mq_head (mq s))"
| "consumer_ok s (C_skip h) = (h = mq_head (mq s) \<and> h \<noteq> stub)"
| "consumer_ok s (C_tail h) = (h = mq_head (mq s) \<and> h \<noteq> stub \<and> (\<not> overlapped s \<longrightarrow> q_nodes s = [h]))"
| "consumer_ok s (C_stub h) = (h = mq_head (mq s) \<and> stub \<notin> set (q_nodes s) \<and> (\<not> overlapped s \<longrightarrow> q_nodes s = [h]))"
| "consumer_ok s (C_xchg h) = (h = mq_head (mq s) \<and> stub \<notin> set (q_nodes s) \<and> next_of s stub = None \<and> (\<not> overlapped s \<longrightarrow> q_nodes s = [h]))"
| "consumer_ok s (C_link h p) = (h = mq_head (mq s) \<and> h \<noteq> stub \<and> (p, stub) \<in> adj (q_nodes s) \<and> next_of s p = None \<and> (\<not> overlapped s \<longrightarrow> p = h))"
| "consumer_ok s (C_reload h) = (h = mq_head (mq s) \<and> h \<noteq> stub \<and> (\<not> overlapped s \<longrightarrow> next_of s h \<noteq> None))"

definition ms_inv :: "mpsc_sys \<Rightarrow> bool" where
  "ms_inv s \<longleftrightarrow> distinct (q_nodes s) \<and> q_nodes s \<noteq> [] \<and> hd (q_nodes s) = mq_head (mq s) \<and> last (q_nodes s) = mq_tail (mq s) \<and>
     chain_ok (mpsc_next (mq s)) (mpend s) (q_nodes s) \<and>
     (\<forall>t. producer_ok s (producers s t)) \<and> consumer_ok s (consumer s) \<and>
     (\<forall>t u n. pushing (producers s t) = Some n \<longrightarrow> pushing (producers s u) = Some n \<longrightarrow> t = u) \<and>
     (consumer s \<noteq> C_idle \<and> \<not> overlapped s \<longrightarrow> \<not> p_linking s) \<and>
     pushed s = popped s @ filter (\<lambda>n. n \<noteq> stub) (q_nodes s)"

lemma sys_simps [simp]:
  "q_nodes (p_goto t p s) = q_nodes s" "mq (p_goto t p s) = mq s" "consumer (p_goto t p s) = consumer s"
  "overlapped (p_goto t p s) = overlapped s" "pushed (p_goto t p s) = pushed s" "popped (p_goto t p s) = popped s"
  "producers (p_goto t p s) u = (if u = t then p else producers s u)"
  "q_nodes (store_next a v s) = q_nodes s" "mq_head (mq (store_next a v s)) = mq_head (mq s)" "mq_tail (mq (store_next a v s)) = mq_tail (mq s)"
  "consumer (store_next a v s) = consumer s" "producers (store_next a v s) = producers s" "overlapped (store_next a v s) = overlapped s"
  "pushed (store_next a v s) = pushed s" "popped (store_next a v s) = popped s"
  "mpsc_next (mq (store_next a v s)) = (mpsc_next (mq s))(a := v)"
  "q_nodes (xchg_tail n s) = q_nodes s @ [n]" "mq_head (mq (xchg_tail n s)) = mq_head (mq s)" "mq_tail (mq (xchg_tail n s)) = n"
  "consumer (xchg_tail n s) = consumer s" "producers (xchg_tail n s) = producers s" "overlapped (xchg_tail n s) = overlapped s"
  "pushed (xchg_tail n s) = pushed s" "popped (xchg_tail n s) = popped s" "mpsc_next (mq (xchg_tail n s)) = mpsc_next (mq s)"
  "q_nodes (move_head n s) = tl (q_nodes s)" "mq_head (mq (move_head n s)) = n" "mq_tail (mq (move_head n s)) = mq_tail (mq s)"
  "consumer (move_head n s) = consumer s" "producers (move_head n s) = producers s" "overlapped (move_head n s) = overlapped s"
  "pushed (move_head n s) = pushed s" "popped (move_head n s) = popped s" "mpsc_next (mq (move_head n s)) = mpsc_next (mq s)"
  by (simp_all add: p_goto_def store_next_def set_mnext_def xchg_tail_def move_head_def)

lemma next_of_simps [simp]:
  "next_of (p_goto t p s) a = next_of s a" "next_of (store_next b v s) a = (if a = b then v else next_of s a)"
  "next_of (xchg_tail n s) a = next_of s a" "next_of (move_head n s) a = next_of s a"
  "next_of (consumer_update f s) a = next_of s a" "next_of (pushed_update g s) a = next_of s a"
  "next_of (popped_update g s) a = next_of s a" "next_of (overlapped_update k s) a = next_of s a"
  by (simp_all add: next_of_def)

lemma ms_invD:
  assumes "ms_inv s"
  shows "distinct (q_nodes s)" "q_nodes s \<noteq> []" "hd (q_nodes s) = mq_head (mq s)" "last (q_nodes s) = mq_tail (mq s)"
    "chain_ok (mpsc_next (mq s)) (mpend s) (q_nodes s)" "producer_ok s (producers s t)" "consumer_ok s (consumer s)"
    "pushing (producers s t) = Some n \<Longrightarrow> pushing (producers s u) = Some n \<Longrightarrow> t = u"
    "consumer s \<noteq> C_idle \<Longrightarrow> \<not> overlapped s \<Longrightarrow> \<not> p_linking s"
    "pushed s = popped s @ filter (\<lambda>n. n \<noteq> stub) (q_nodes s)"
  using assms unfolding ms_inv_def by blast+

lemma head_mem: "ms_inv s \<Longrightarrow> mq_head (mq s) \<in> set (q_nodes s)"
  using ms_invD(2,3) by (metis list.set_sel(1))

text \<open>A step of a producer that starts no link and ends none keeps the pending links.\<close>

lemma pend_goto:
  assumes "\<And>a b. producers s t \<noteq> P_link a b" "\<And>a b. p \<noteq> P_link a b" "producers s' = producers s" "consumer s' = consumer s"
  shows "mpend (p_goto t p s') = mpend s" "p_linking (p_goto t p s') = p_linking s"
  using assms by (auto simp: mpend_def p_linking_def fun_eq_iff) (metis assms(1))+

lemma ms_invI:
  assumes "distinct (q_nodes s)" "q_nodes s \<noteq> []" "hd (q_nodes s) = mq_head (mq s)" "last (q_nodes s) = mq_tail (mq s)"
    "chain_ok (mpsc_next (mq s)) (mpend s) (q_nodes s)" "\<And>t. producer_ok s (producers s t)" "consumer_ok s (consumer s)"
    "\<And>t u n. pushing (producers s t) = Some n \<Longrightarrow> pushing (producers s u) = Some n \<Longrightarrow> t = u"
    "consumer s \<noteq> C_idle \<Longrightarrow> \<not> overlapped s \<Longrightarrow> \<not> p_linking s"
    "pushed s = popped s @ filter (\<lambda>n. n \<noteq> stub) (q_nodes s)"
  shows "ms_inv s"
  unfolding ms_inv_def using assms by blast

text \<open>A producer's step that leaves the nodes of the queue alone.\<close>

lemma inv_p_goto:
  assumes I: "ms_inv s" and old: "\<And>a b. producers s t \<noteq> P_link a b" and new: "\<And>a b. p \<noteq> P_link a b"
    and s': "s' = s \<or> s' = store_next n None s \<and> producers s t = P_store n"
    and push: "\<And>m. pushing p = Some m \<Longrightarrow> pushing (producers s t) = Some m \<or> free_node m s"
    and ok: "producer_ok s' p"
  shows "ms_inv (p_goto t p s')"
proof -
  have f: "q_nodes s' = q_nodes s" "mq_head (mq s') = mq_head (mq s)" "mq_tail (mq s') = mq_tail (mq s)" "producers s' = producers s"
    "consumer s' = consumer s" "overlapped s' = overlapped s" "pushed s' = pushed s" "popped s' = popped s"
    using s' by auto
  have n: "n \<noteq> stub \<and> n \<notin> set (q_nodes s)" if "producers s t = P_store n"
    using ms_invD(6) [OF I, of t] that by simp
  have nx: "next_of s' a = next_of s a" if "a \<in> set (q_nodes s) \<or> a = stub" for a
    using s' n that by (auto split: if_splits)
  have prod: "producer_ok s' (producers s u)" if "u \<noteq> t" for u
  proof (cases "producers s u")
    case (P_xchg m)
    then have "producers s t = P_store n \<Longrightarrow> m \<noteq> n" using ms_invD(8) [OF I, of u m t] that by auto
    then show ?thesis using ms_invD(6) [OF I, of u] P_xchg s' f by auto
  next
    case (P_link a b)
    then show ?thesis using ms_invD(6) [OF I, of u] f nx adj_mem by force
  qed (use ms_invD(6) [OF I, of u] f in auto)
  have cons: "consumer_ok s' (consumer s)"
    using ms_invD(7) [OF I] f nx head_mem [OF I] adj_mem by (cases "consumer s") force+
  show ?thesis
  proof (rule ms_invI)
    show "chain_ok (mpsc_next (mq (p_goto t p s'))) (mpend (p_goto t p s')) (q_nodes (p_goto t p s'))"
      unfolding pend_goto [OF old new f(4,5)] using s' n ms_invD(5) [OF I]
      by (auto simp del: fun_upd_apply simp: chain_out)
    show "producer_ok (p_goto t p s') (producers (p_goto t p s') u)" for u
    proof -
      have "producer_ok (p_goto t p s') x = producer_ok s' x" for x by (cases x) simp_all
      then show ?thesis using ok prod f by simp
    qed
    show "consumer_ok (p_goto t p s') (consumer (p_goto t p s'))"
    proof -
      have "consumer_ok (p_goto t p s') x = consumer_ok s' x" for x by (cases x) simp_all
      then show ?thesis using cons f by simp
    qed
    show "v = u" if "pushing (producers (p_goto t p s') v) = Some m" "pushing (producers (p_goto t p s') u) = Some m" for v u m
      using that push [of m] ms_invD(8) [OF I, of _ m] unfolding f free_node_def sys_simps by (metis f(4))
    show "consumer (p_goto t p s') \<noteq> C_idle \<Longrightarrow> \<not> overlapped (p_goto t p s') \<Longrightarrow> \<not> p_linking (p_goto t p s')"
      unfolding pend_goto(2) [OF old new f(4,5)] using ms_invD(9) [OF I] f by simp
  qed (use ms_invD [OF I] f in simp_all)
qed

lemma producer_ok_cong:
  "q_nodes s' = q_nodes s \<Longrightarrow> (\<And>a. next_of s' a = next_of s a) \<Longrightarrow> producer_ok s' p = producer_ok s p"
  by (cases p) simp_all

lemma consumer_ok_cong:
  "q_nodes s' = q_nodes s \<Longrightarrow> (\<And>a. next_of s' a = next_of s a) \<Longrightarrow> mq_head (mq s') = mq_head (mq s) \<Longrightarrow> overlapped s' = overlapped s \<Longrightarrow>
    consumer_ok s' c = consumer_ok s c"
  by (cases c) simp_all

text \<open>An exchange of \<open>tail_\<close> keeps what other threads rely on.\<close>

lemma producer_ok_append:
  assumes "producer_ok s p" "q_nodes s \<noteq> []" "q_nodes s' = q_nodes s @ [n]" "\<And>a. next_of s' a = next_of s a"
    "\<And>m. pushing p = Some m \<Longrightarrow> m \<noteq> n"
  shows "producer_ok s' p"
  using assms by (cases p) (simp_all add: adj_snoc)

lemma inv_push_xchg:
  assumes I: "ms_inv s" and t: "producers s t = P_xchg n"
  shows "ms_inv (p_goto t (P_link (mq_tail (mq s)) n) ((xchg_tail n s)\<lparr>pushed := pushed s @ [n], overlapped := True\<rparr>))" (is "ms_inv ?s")
proof -
  note D = ms_invD [OF I]
  have n: "n \<noteq> stub" "n \<notin> set (q_nodes s)" "next_of s n = None" using D(6) [of t] t by simp_all
  have mpend: "mpend ?s a b" if "mpend s a b" for a b
  proof (cases "\<exists>u. producers s u = P_link a b")
    case True
    then obtain u where u: "producers s u = P_link a b" by blast
    then have "producers ?s u = P_link a b" using t by auto
    then show ?thesis unfolding mpend_def by blast
  qed (use that in \<open>auto simp: mpend_def\<close>)
  have q: "q_nodes ?s = q_nodes s @ [n]" by simp
  show ?thesis
  proof (rule ms_invI)
    show "chain_ok (mpsc_next (mq ?s)) (mpend ?s) (q_nodes ?s)"
      unfolding q using D(5,2,4) n mpend
      by (intro mchain_snoc [of _ "mpend s"]) (auto simp: next_of_def mpend_def)
    show "producer_ok ?s (producers ?s u)" for u
    proof (cases "u = t")
      case True
      have "mq_tail (mq s) = last (q_nodes s)" using D(4) by simp
      then show ?thesis using True n D(2) mchain_last [OF D(5)] by (simp add: adj_snoc next_of_def)
    next
      case False
      have "producer_ok ?s (producers s u)"
        by (rule producer_ok_append [OF D(6) D(2) q]) (use D(8) [of u n t] t False in auto)
      then show ?thesis using False by simp
    qed
    show "consumer_ok ?s (consumer ?s)"
      using D(7,2) n by (cases "consumer s") (auto simp: adj_snoc)
    show "v = u" if "pushing (producers ?s v) = Some m" "pushing (producers ?s u) = Some m" for v u m
    proof -
      have "pushing (producers ?s x) = pushing (producers s x)" for x using t by simp
      then show ?thesis using that D(8) [of v m u] by simp
    qed
  qed (use D n in simp_all)
qed

lemma adj_fun: "distinct q \<Longrightarrow> (a, b) \<in> adj q \<Longrightarrow> (a, c) \<in> adj q \<Longrightarrow> b = c"
proof (induction q rule: induct_list012)
  case (3 x y q)
  then show ?case using adj_mem [of x b "y # q"] adj_mem [of x c "y # q"] by auto
qed simp_all

lemma inv_push_link:
  assumes I: "ms_inv s" and t: "producers s t = P_link p n"
  shows "ms_inv (p_goto t P_idle (store_next p (Some n) s))" (is "ms_inv ?s")
proof -
  note D = ms_invD [OF I]
  have n: "n \<noteq> stub" "(p, n) \<in> adj (q_nodes s)" "next_of s p = None" using D(6) [of t] t by simp_all
  have p: "p \<in> set (q_nodes s)" using adj_mem [OF n(2)] by simp
  have first: "m = n" if "(p, m) \<in> adj (q_nodes s)" for m
    using adj_fun [OF D(1) that n(2)] .
  have other: "a \<noteq> p" if "producers s u = P_link a b" "u \<noteq> t" for u a b
    using D(6) [of u] D(8) [of u n t] first that t by auto
  have mpend: "mpend ?s a b" if "mpend s a b" "a \<noteq> p" for a b
  proof (cases "\<exists>u. producers s u = P_link a b")
    case True
    then obtain u where u: "producers s u = P_link a b" by blast
    then have "producers ?s u = P_link a b" using t that(2) by auto
    then show ?thesis unfolding mpend_def by blast
  qed (use that in \<open>auto simp: mpend_def\<close>)
  show ?thesis
  proof (rule ms_invI)
    show "chain_ok (mpsc_next (mq ?s)) (mpend ?s) (q_nodes ?s)"
      using chain_link [OF D(5,1) n(2), of "mpend ?s"] mpend by (simp del: fun_upd_apply)
    show "producer_ok ?s (producers ?s u)" for u
      using D(6) [of u] other [of u] p by (cases "producers s u") (auto simp: t)
    show "consumer_ok ?s (consumer ?s)"
      using D(7) n(1) p first by (cases "consumer s") auto
    show "v = u" if "pushing (producers ?s v) = Some m" "pushing (producers ?s u) = Some m" for v u m
      using that D(8) [of v m u] by (auto split: if_splits)
    show "\<not> p_linking ?s" if "consumer ?s \<noteq> C_idle" "\<not> overlapped ?s"
      using that D(9) by (auto simp: p_linking_def)
  qed (use D in simp_all)
qed

lemma pend_consumer:
  assumes "\<And>h p. consumer s \<noteq> C_link h p" "\<And>h p. consumer s' \<noteq> C_link h p" "producers s' = producers s"
  shows "mpend s' = mpend s" "p_linking s' = p_linking s"
  using assms by (auto simp: mpend_def p_linking_def fun_eq_iff)

text \<open>A step of the consumer on its own variables.\<close>

lemma inv_consumer:
  assumes I: "ms_inv s" and "\<And>h p. consumer s \<noteq> C_link h p" "\<And>h p. c \<noteq> C_link h p"
    and ok: "consumer_ok (s\<lparr>overlapped := b\<rparr>) c" and b: "b = overlapped s \<and> consumer s \<noteq> C_idle \<or> b = p_linking s"
  shows "ms_inv (s\<lparr>consumer := c, overlapped := b\<rparr>)" (is "ms_inv ?s")
proof -
  note D = ms_invD [OF I]
  have pe: "mpend ?s = mpend s" "p_linking ?s = p_linking s" by (rule pend_consumer; use assms(2,3) in simp)+
  show ?thesis
  proof (rule ms_invI)
    show "chain_ok (mpsc_next (mq ?s)) (mpend ?s) (q_nodes ?s)" using D(5) pe by simp
    show "producer_ok ?s (producers ?s u)" for u
      using D(6) [of u] producer_ok_cong [of ?s s "producers s u"] by simp
    show "consumer_ok ?s (consumer ?s)" using ok consumer_ok_cong [of ?s "s\<lparr>overlapped := b\<rparr>" c] by simp
    show "v = u" if "pushing (producers ?s v) = Some m" "pushing (producers ?s u) = Some m" for v u m
      using that D(8) [of v m u] by simp
    show "\<not> p_linking ?s" if "consumer ?s \<noteq> C_idle" "\<not> overlapped ?s" using that b D(9) pe by auto
  qed (use D in simp_all)
qed

lemma inv_consumer_same:
  assumes "ms_inv s" "\<And>h p. consumer s \<noteq> C_link h p" "\<And>h p. c \<noteq> C_link h p" "consumer_ok s c" "consumer s \<noteq> C_idle"
  shows "ms_inv (s\<lparr>consumer := c\<rparr>)"
  using inv_consumer [of s c "overlapped s"] assms by simp

lemma head_split:
  assumes I: "ms_inv s" and "next_of s (mq_head (mq s)) = Some n"
  obtains r where "q_nodes s = mq_head (mq s) # n # r"
proof -
  have "q_nodes s = mq_head (mq s) # tl (q_nodes s)" using ms_invD(2,3) [OF I] by (cases "q_nodes s") simp_all
  with chain_tl [of "mpsc_next (mq s)" "mpend s" "mq_head (mq s)" "tl (q_nodes s)" n] ms_invD(5) [OF I] assms(2) that
  show ?thesis unfolding next_of_def by metis
qed

lemma inv_move_head:
  assumes I: "ms_inv s" and nx: "next_of s (mq_head (mq s)) = Some n" and "\<And>h p. consumer s \<noteq> C_link h p" "\<And>h p. c \<noteq> C_link h p"
    and ok: "c = C_idle \<or> c = C_skip n \<and> mq_head (mq s) = stub \<and> consumer s \<noteq> C_idle"
    and ps: "ps = popped s @ filter (\<lambda>n. n \<noteq> stub) [mq_head (mq s)]"
  shows "ms_inv ((move_head n s)\<lparr>popped := ps, consumer := c\<rparr>)" (is "ms_inv ?s")
proof -
  note D = ms_invD [OF I]
  obtain r where q: "q_nodes s = mq_head (mq s) # n # r" using head_split [OF I nx] .
  have pe: "mpend ?s = mpend s" "p_linking ?s = p_linking s" by (rule pend_consumer; use assms(3,4) in simp)+
  show ?thesis
  proof (rule ms_invI)
    show "chain_ok (mpsc_next (mq ?s)) (mpend ?s) (q_nodes ?s)" using D(5) pe q by simp
    show "producer_ok ?s (producers ?s u)" for u
      using D(6) [of u] nx q by (cases "producers s u") auto
    show "consumer_ok ?s (consumer ?s)" using ok D(1) q by auto
    show "v = u" if "pushing (producers ?s v) = Some m" "pushing (producers ?s u) = Some m" for v u m
      using that D(8) [of v m u] by simp
    show "\<not> p_linking ?s" if "consumer ?s \<noteq> C_idle" "\<not> overlapped ?s" using that ok D(9) pe by auto
    show "pushed ?s = popped ?s @ filter (\<lambda>n. n \<noteq> stub) (q_nodes ?s)" using D(10) q ps by simp
  qed (use D q in simp_all)
qed

lemma inv_pop_stub:
  assumes I: "ms_inv s" and c: "consumer s = C_stub h"
  shows "ms_inv ((store_next stub None s)\<lparr>consumer := C_xchg h\<rparr>)" (is "ms_inv ?s")
proof -
  note D = ms_invD [OF I]
  have st: "stub \<notin> set (q_nodes s)" using D(7) c by simp
  have pe: "mpend ?s = mpend s" "p_linking ?s = p_linking s" by (rule pend_consumer; use c in simp)+
  show ?thesis
  proof (rule ms_invI)
    show "chain_ok (mpsc_next (mq ?s)) (mpend ?s) (q_nodes ?s)" using D(5) pe st by (simp add: chain_out del: fun_upd_apply)
    show "producer_ok ?s (producers ?s u)" for u
      using D(6) [of u] st adj_mem by (cases "producers s u") auto
    show "v = u" if "pushing (producers ?s v) = Some m" "pushing (producers ?s u) = Some m" for v u m
      using that D(8) [of v m u] by simp
  qed (use D c pe in simp_all)
qed

lemma inv_pop_xchg:
  assumes I: "ms_inv s" and c: "consumer s = C_xchg h"
  shows "ms_inv ((xchg_tail stub s)\<lparr>consumer := C_link h (mq_tail (mq s))\<rparr>)" (is "ms_inv ?s")
proof -
  note D = ms_invD [OF I]
  have st: "h = mq_head (mq s)" "stub \<notin> set (q_nodes s)" "next_of s stub = None" "\<not> overlapped s \<longrightarrow> q_nodes s = [h]"
    using D(7) c by simp_all
  have mpend: "mpend ?s a b" if "mpend s a b" for a b using that c by (auto simp: mpend_def)
  have q: "q_nodes ?s = q_nodes s @ [stub]" by simp
  have last: "last (q_nodes s) = mq_tail (mq s)" "mpsc_next (mq s) (mq_tail (mq s)) = None" using D(4) mchain_last [OF D(5)] by simp_all
  show ?thesis
  proof (rule ms_invI)
    show "chain_ok (mpsc_next (mq ?s)) (mpend ?s) (q_nodes ?s)"
      unfolding q using D(5,2,4) st mpend by (intro mchain_snoc [of _ "mpend s"]) (auto simp: next_of_def mpend_def)
    show "producer_ok ?s (producers ?s u)" for u
    proof -
      have "producer_ok ?s (producers s u)"
        by (rule producer_ok_append [OF D(6) D(2) q]) (use D(6) [of u] in \<open>cases "producers s u"; auto\<close>)+
      then show ?thesis by simp
    qed
    show "consumer_ok ?s (consumer ?s)"
      using st last D(2) head_mem [OF I] by (auto simp: adj_snoc next_of_def)
    show "v = u" if "pushing (producers ?s v) = Some m" "pushing (producers ?s u) = Some m" for v u m
      using that D(8) [of v m u] by simp
    show "\<not> p_linking ?s" if "consumer ?s \<noteq> C_idle" "\<not> overlapped ?s" using that c D(9) by (auto simp: p_linking_def)
  qed (use D st in simp_all)
qed

lemma inv_pop_link:
  assumes I: "ms_inv s" and c: "consumer s = C_link h p"
  shows "ms_inv ((store_next p (Some stub) s)\<lparr>consumer := C_reload h\<rparr>)" (is "ms_inv ?s")
proof -
  note D = ms_invD [OF I]
  have st: "h = mq_head (mq s)" "h \<noteq> stub" "(p, stub) \<in> adj (q_nodes s)" "next_of s p = None" "\<not> overlapped s \<longrightarrow> p = h"
    using D(7) c by simp_all
  have other: "a \<noteq> p" if "producers s u = P_link a b" for u a b
    using D(6) [of u] adj_fun [OF D(1) st(3)] that by auto
  have mpend: "mpend ?s a b" if "mpend s a b" "a \<noteq> p" for a b using that c by (auto simp: mpend_def)
  show ?thesis
  proof (rule ms_invI)
    show "chain_ok (mpsc_next (mq ?s)) (mpend ?s) (q_nodes ?s)"
      using chain_link [OF D(5,1) st(3), of "mpend ?s"] mpend by (simp del: fun_upd_apply)
    show "producer_ok ?s (producers ?s u)" for u
      using D(6) [of u] other [of u] adj_mem [OF st(3)] by (cases "producers s u") auto
    show "consumer_ok ?s (consumer ?s)" using st by simp
    show "v = u" if "pushing (producers ?s v) = Some m" "pushing (producers ?s u) = Some m" for v u m
      using that D(8) [of v m u] by simp
    show "\<not> p_linking ?s" if "consumer ?s \<noteq> C_idle" "\<not> overlapped ?s" using that c D(9) by (auto simp: p_linking_def)
  qed (use D in simp_all)
qed

lemma head_alone:
  assumes I: "ms_inv s" and c: "consumer s \<noteq> C_idle" "\<And>h p. consumer s \<noteq> C_link h p" "\<not> overlapped s"
    and "next_of s (mq_head (mq s)) = None"
  shows "q_nodes s = [mq_head (mq s)]"
proof -
  note D = ms_invD [OF I]
  have q: "q_nodes s = mq_head (mq s) # tl (q_nodes s)" using D(2,3) by (cases "q_nodes s") simp_all
  have "\<not> mpend s a b" for a b using D(9) [OF c(1,3)] c(2) by (auto simp: mpend_def p_linking_def)
  then have "tl (q_nodes s) = []"
    using chain_none [of "mpsc_next (mq s)" "mpend s" "mq_head (mq s)" "tl (q_nodes s)"] D(5) assms(5) q unfolding next_of_def by metis
  then show ?thesis using q by simp
qed

lemma tail_alone:
  assumes I: "ms_inv s" and "mq_tail (mq s) = mq_head (mq s)"
  shows "q_nodes s = [mq_head (mq s)]"
  using ms_invD(1-4) [OF I] assms(2) by (cases "q_nodes s") (auto split: if_splits dest: last_in_set)

lemma move_head_popped: "(move_head n s)\<lparr>popped := popped s, consumer := c\<rparr> = (move_head n s)\<lparr>consumer := c\<rparr>"
  by (cases s) (simp add: move_head_def)

lemma ms_inv_step:
  assumes I: "ms_inv s" and st: "ms_step s s'"
  shows "ms_inv s'"
proof -
  note D = ms_invD [OF I]
  from st show "ms_inv s'"
  proof cases
    case (push_call t n)
    then show ?thesis by (auto intro!: inv_p_goto [OF I] simp: free_node_def)
  next
    case (push_store t n)
    then show ?thesis using D(6) [of t] by (auto intro!: inv_p_goto [OF I])
  next
    case (push_xchg t n)
    then show ?thesis using inv_push_xchg [OF I] by simp
  next
    case (push_link t p n)
    then show ?thesis using inv_push_link [OF I] by simp
  next
    case pop_call
    then show ?thesis using inv_consumer [OF I, of "C_load (mq_head (mq s))" "p_linking s"] by simp
  next
    case (pop_skip h n)
    then show ?thesis using inv_move_head [OF I, of n "C_skip n" "popped s"] D(7) by (simp add: move_head_popped)
  next
    case (pop_take h n)
    then show ?thesis using inv_move_head [OF I, of n C_idle "popped s @ [h]"] D(7) by (simp add: give_def)
  next
    case (pop_last h)
    then show ?thesis using D(7) head_alone [OF I] by (auto intro!: inv_consumer_same [OF I])
  next
    case (pop_take2 h n)
    then show ?thesis using inv_move_head [OF I, of n C_idle "popped s @ [h]"] D(7) by (simp add: give_def)
  next
    case (pop_last2 h)
    then show ?thesis using D(7) head_alone [OF I] by (auto intro!: inv_consumer_same [OF I])
  next
    case (pop_single h)
    then show ?thesis using D(7) tail_alone [OF I] by (auto intro!: inv_consumer_same [OF I])
  next
    case (pop_stub h)
    then show ?thesis using inv_pop_stub [OF I] by simp
  next
    case (pop_xchg h)
    then show ?thesis using inv_pop_xchg [OF I] by simp
  next
    case (pop_link h p)
    then show ?thesis using inv_pop_link [OF I] by simp
  next
    case (pop_take3 h n)
    then show ?thesis using inv_move_head [OF I, of n C_idle "popped s @ [h]"] D(7) by (simp add: give_def)
  qed (auto intro!: inv_consumer_same [OF I])
qed

lemma ms_init_inv: "ms_inv ms_init"
  by (rule ms_invI) (simp_all add: ms_init_def mpsc_new_def)

interpretation mpsc: inv_system "\<lambda>s. s = ms_init" ms_step ms_inv
  by unfold_locales (auto intro: ms_init_inv ms_inv_step)

section \<open>Operations without interference\<close>

text \<open>The functions \<open>mpsc_push\<close> and \<open>mpsc_pop\<close> are the runs of the step relation in which one thread moves alone.\<close>

lemma push_alone:
  assumes "producers s t = P_idle" "free_node n s"
  shows "\<exists>s'. ms_step\<^sup>*\<^sup>* s s' \<and> mq s' = mpsc_push n (mq s) \<and> producers s' = producers s \<and> pushed s' = pushed s @ [n] \<and>
    consumer s' = consumer s \<and> popped s' = popped s"
proof -
  let ?s1 = "p_goto t (P_store n) s"
  let ?s2 = "p_goto t (P_xchg n) (store_next n None ?s1)"
  let ?s3 = "p_goto t (P_link (mq_tail (mq ?s2)) n) ((xchg_tail n ?s2)\<lparr>pushed := pushed ?s2 @ [n], overlapped := True\<rparr>)"
  let ?s4 = "p_goto t P_idle (store_next (mq_tail (mq ?s2)) (Some n) ?s3)"
  have "ms_step s ?s1" by (rule push_call [OF assms])
  moreover have "ms_step ?s1 ?s2" by (rule push_store) simp
  moreover have "ms_step ?s2 ?s3" by (rule push_xchg) simp
  moreover have "ms_step ?s3 ?s4" by (rule push_link) simp
  ultimately have "ms_step\<^sup>*\<^sup>* s ?s4" by (meson converse_rtranclp_into_rtranclp r_into_rtranclp)
  moreover have "mq ?s4 = mpsc_push n (mq s)" "pushed ?s4 = pushed s @ [n]" "consumer ?s4 = consumer s" "popped ?s4 = popped s"
    by (simp_all add: mpsc_push_def set_mnext_def store_next_def xchg_tail_def p_goto_def Let_def)
  moreover have "producers ?s4 = producers s" using assms(1) by (auto simp: fun_eq_iff)
  ultimately show ?thesis by blast
qed

lemma mq_give: "mq (give h n s) = (mq s)\<lparr>mq_head := n\<rparr>" "producers (give h n s) = producers s"
  "popped (give h n s) = popped s @ [h]" "consumer (give h n s) = C_idle"
  by (simp_all add: give_def move_head_def)

text \<open>From the load of \<open>head->next\<close> on.\<close>

definition pop_ends :: "mpsc_sys \<Rightarrow> mnode option \<times> mpsc \<Rightarrow> bool" where
  "pop_ends s r \<longleftrightarrow> (\<exists>s'. ms_step\<^sup>*\<^sup>* s s' \<and> consumer s' = C_idle \<and> mq s' = snd r \<and> producers s' = producers s \<and>
     popped s' = popped s @ (case fst r of None \<Rightarrow> [] | Some h \<Rightarrow> [h]))"

lemma pop_ends_step: "ms_step s s1 \<Longrightarrow> pop_ends s1 r \<Longrightarrow> producers s1 = producers s \<Longrightarrow> popped s1 = popped s \<Longrightarrow> pop_ends s r"
  unfolding pop_ends_def by (metis converse_rtranclp_into_rtranclp)

lemma pop_ends_last:
  assumes "ms_step s s1" "consumer s1 = C_idle" "mq s1 = snd r" "producers s1 = producers s"
    "popped s1 = popped s @ (case fst r of None \<Rightarrow> [] | Some h \<Rightarrow> [h])"
  shows "pop_ends s r"
  unfolding pop_ends_def using assms by blast

lemma pop_tail_alone:
  assumes "consumer s = C_tail h" "next_of s h = None"
  shows "pop_ends s (pop_from h (mq s))"
proof (cases "mq_tail (mq s) = h")
  case False
  then show ?thesis using assms by (intro pop_ends_last [OF pop_busy [OF assms(1)]]) (simp_all add: pop_from_def next_of_def)
next
  case True
  let ?s1 = "s\<lparr>consumer := C_stub h\<rparr>"
  let ?s2 = "(store_next stub None ?s1)\<lparr>consumer := C_xchg h\<rparr>"
  let ?s3 = "(xchg_tail stub ?s2)\<lparr>consumer := C_link h (mq_tail (mq ?s2))\<rparr>"
  let ?s4 = "(store_next (mq_tail (mq ?s2)) (Some stub) ?s3)\<lparr>consumer := C_reload h\<rparr>"
  have q: "mq ?s4 = mpsc_push stub (mq s)"
    by (simp add: mpsc_push_def set_mnext_def store_next_def xchg_tail_def Let_def)
  have st: "next_of ?s4 h = Some stub" using True by (simp add: next_of_def)
  have r: "pop_from h (mq s) = (Some h, (mq ?s4)\<lparr>mq_head := stub\<rparr>)"
    using assms(2) True st unfolding pop_from_def next_of_def q by simp
  have last: "pop_ends ?s4 (pop_from h (mq s))"
    by (rule pop_ends_last [OF pop_take3 [of ?s4 h stub]]) (use st r in \<open>simp_all add: mq_give\<close>)
  show ?thesis
    by (rule pop_ends_step [OF pop_single [OF assms(1) True]], rule pop_ends_step [OF pop_stub [of _ h]], simp,
        rule pop_ends_step [OF pop_xchg [of _ h]], simp, rule pop_ends_step [OF pop_link [of _ h]], simp)
      (use last in simp_all)
qed

lemma pop_alone:
  assumes "consumer s = C_idle"
  shows "pop_ends s (mpsc_pop (mq s))"
proof -
  let ?h = "mq_head (mq s)"
  let ?s1 = "s\<lparr>consumer := C_load ?h, overlapped := p_linking s\<rparr>"
  have "pop_ends ?s1 (mpsc_pop (mq s))"
  proof (cases "?h = stub")
    case stb: True
    show ?thesis
    proof (cases "mpsc_next (mq s) stub")
      case None
      then show ?thesis using stb
        by (intro pop_ends_last [OF pop_null [of ?s1 ?h]]) (simp_all add: mpsc_pop_def next_of_def)
    next
      case (Some n)
      let ?s2 = "(move_head n ?s1)\<lparr>consumer := C_skip n\<rparr>"
      have q: "mq ?s2 = (mq s)\<lparr>mq_head := n\<rparr>" by (simp add: move_head_def)
      have r: "mpsc_pop (mq s) = pop_from n (mq ?s2)" using Some stb unfolding q by (simp add: mpsc_pop_def)
      have "pop_ends ?s2 (pop_from n (mq ?s2))"
      proof (cases "next_of ?s2 n")
        case None
        then have e: "pop_ends (?s2\<lparr>consumer := C_tail n\<rparr>) (pop_from n (mq (?s2\<lparr>consumer := C_tail n\<rparr>)))"
          by (intro pop_tail_alone) simp_all
        have "ms_step ?s2 (?s2\<lparr>consumer := C_tail n\<rparr>)" using None by (intro pop_last2) simp_all
        then show ?thesis by (rule pop_ends_step) (use e in simp_all)
      next
        case (Some m)
        then show ?thesis
          by (intro pop_ends_last [OF pop_take2 [of ?s2 n m]]) (simp_all add: pop_from_def mq_give next_of_def)
      qed
      then show ?thesis unfolding r using Some stb by (intro pop_ends_step [OF pop_skip [of ?s1 ?h n]]) (simp_all add: next_of_def)
    qed
  next
    case False
    then have r: "mpsc_pop (mq s) = pop_from ?h (mq s)" by (simp add: mpsc_pop_def)
    show ?thesis
    proof (cases "next_of s ?h")
      case None
      then have e: "pop_ends (?s1\<lparr>consumer := C_tail ?h\<rparr>) (pop_from ?h (mq (?s1\<lparr>consumer := C_tail ?h\<rparr>)))"
        by (intro pop_tail_alone) simp_all
      have "ms_step ?s1 (?s1\<lparr>consumer := C_tail ?h\<rparr>)" using None False by (intro pop_last) simp_all
      then show ?thesis unfolding r by (rule pop_ends_step) (use e in simp_all)
    next
      case (Some n)
      then show ?thesis using False unfolding r
        by (intro pop_ends_last [OF pop_take [of ?s1 ?h n]]) (simp_all add: pop_from_def mq_give next_of_def)
    qed
  qed
  then show ?thesis by (rule pop_ends_step [OF pop_call [OF assms]]) simp_all
qed

section \<open>Results\<close>

text \<open>A step of the consumer that ends a call without a node.\<close>

definition pop_fails :: "mpsc_sys \<Rightarrow> mpsc_sys \<Rightarrow> bool" where
  "pop_fails s s' \<longleftrightarrow> ms_step s s' \<and> consumer s \<noteq> C_idle \<and> consumer s' = C_idle \<and> popped s' = popped s"

lemma pop_fails_empty:
  assumes I: "ms_inv s" and f: "pop_fails s s'" and o: "\<not> overlapped s"
  shows "filter (\<lambda>n. n \<noteq> stub) (q_nodes s) = []"
proof -
  note D = ms_invD [OF I]
  have st: "ms_step s s'" "consumer s \<noteq> C_idle" "consumer s' = C_idle" "popped s' = popped s" using f by (simp_all add: pop_fails_def)
  from st(1) show ?thesis
  proof cases
    case (pop_null h)
    then have "q_nodes s = [stub]" using head_alone [OF I st(2) _ o] D(7) by simp
    then show ?thesis by simp
  next
    case (pop_busy h)
    then show ?thesis using D(4,7) o by auto
  next
    case (pop_null3 h)
    then show ?thesis using D(7) o by simp
  qed (use st in \<open>auto simp: mq_give\<close>)
qed

text \<open>C8. In every interleaving of producers and the consumer, the nodes \<open>pop\<close> has returned, followed by the nodes in
  the queue, are the nodes pushed, in the order of their exchange of \<open>tail_\<close>: nothing is lost, duplicated or
  reordered. A thread that still has to store into \<open>mpsc_next_\<close> of a node refers to a node that has not been
  returned (so a returned node can be pushed again or freed), and a \<open>pop\<close> that no \<open>push\<close> overlaps returns no node
  only if the queue is empty.\<close>

theorem mpsc_intrusive_fifo:
  assumes "reach (\<lambda>s. s = ms_init) ms_step s"
  shows "pushed s = popped s @ filter (\<lambda>n. n \<noteq> stub) (q_nodes s) \<and>
    (\<forall>t p n. producers s t = P_link p n \<longrightarrow> p \<in> set (q_nodes s)) \<and>
    (\<forall>s'. pop_fails s s' \<and> \<not> overlapped s \<longrightarrow> filter (\<lambda>n. n \<noteq> stub) (q_nodes s) = [])"
proof -
  have I: "ms_inv s" using mpsc.reach_inv [OF assms] .
  have "p \<in> set (q_nodes s)" if "producers s t = P_link p n" for t p n
    using ms_invD(6) [OF I, of t] that adj_mem by auto
  then show ?thesis using ms_invD(10) [OF I] pop_fails_empty [OF I] by blast
qed

lemma reach_runs: "ms_step\<^sup>*\<^sup>* s s' \<Longrightarrow> reach (\<lambda>s. s = ms_init) ms_step s \<Longrightarrow> reach (\<lambda>s. s = ms_init) ms_step s'"
  by (induction rule: rtranclp_induct) (auto intro: reach_step)

text \<open>Node 5 is pushed and popped.\<close>

lemma demo_push_pop: "\<exists>s. reach (\<lambda>s. s = ms_init) ms_step s \<and> popped s = [5]"
proof -
  have i: "reach (\<lambda>s. s = ms_init) ms_step ms_init" by (rule reach_init) simp
  obtain s1 where s1: "ms_step\<^sup>*\<^sup>* ms_init s1" "mq s1 = mpsc_push 5 mpsc_new" "consumer s1 = C_idle" "popped s1 = []"
    using push_alone [of ms_init 0 5] by (auto simp: ms_init_def free_node_def stub_def)
  have "fst (mpsc_pop (mpsc_push 5 mpsc_new)) = Some 5"
    by (simp add: mpsc_pop_def mpsc_push_def mpsc_new_def pop_from_def set_mnext_def stub_def Let_def)
  then obtain s2 where "ms_step\<^sup>*\<^sup>* s1 s2" "popped s2 = [5]"
    using pop_alone [OF s1(3)] s1(2,4) unfolding pop_ends_def by auto
  then show ?thesis using reach_runs s1(1) i by blast
qed

theorem mpsc_intrusive_fifo_witness:
  "\<exists>s. reach (\<lambda>s. s = ms_init) ms_step s \<and> popped s = [5] \<and> pushed s = [5] @ filter (\<lambda>n. n \<noteq> stub) (q_nodes s)"
proof -
  obtain s where "reach (\<lambda>s. s = ms_init) ms_step s" "popped s = [5]" using demo_push_pop by blast
  with mpsc_intrusive_fifo [of s] show ?thesis by (intro exI [of _ s]) simp
qed

end
