(* ===== verification/Tagged_Ptr.thy ===== *)
theory Tagged_Ptr
  imports Uvent_Prelude
begin

text \<open>
  The tagged pointer of \<open>sync/TaggedPtr.h\<close>: a 48-bit canonical address and a 16-bit generation packed into one
  64-bit word (\<open>la57 = false\<close>). The atomic word is the state; a weak compare-exchange may fail spuriously, which
  is a parameter of the operation.
\<close>

unbundle bit_operations_syntax

section \<open>Packing\<close>

definition kPtrBits :: nat where "kPtrBits = 48"
definition kPtrMask :: "64 word" where "kPtrMask = push_bit kPtrBits 1 - 1"
definition kTagVMask :: "64 word" where "kTagVMask = push_bit (64 - kPtrBits) 1 - 1"

definition tp_pack :: "64 word \<Rightarrow> 16 word \<Rightarrow> 64 word" where
  "tp_pack ptr tag = (ptr AND kPtrMask) OR push_bit kPtrBits (ucast tag AND kTagVMask)"

definition unpack_ptr :: "64 word \<Rightarrow> 64 word" where
  "unpack_ptr v = (let raw = v AND kPtrMask; sign_bit = push_bit (kPtrBits - 1) 1 in (raw XOR sign_bit) - sign_bit)"

definition unpack_tag :: "64 word \<Rightarrow> 16 word" where
  "unpack_tag v = ucast (drop_bit kPtrBits v AND kTagVMask)"

record snapshot =
  sn_ptr :: "64 word"
  sn_tag :: "16 word"

definition tp_new :: "64 word \<Rightarrow> 16 word \<Rightarrow> 64 word" where
  "tp_new p tag = tp_pack p tag"

definition tp_load :: "64 word \<Rightarrow> snapshot" where
  "tp_load v = \<lparr>sn_ptr = unpack_ptr v, sn_tag = unpack_tag v\<rparr>"

definition tp_store :: "snapshot \<Rightarrow> 64 word \<Rightarrow> 64 word" where
  "tp_store s v = tp_pack (sn_ptr s) (sn_tag s)"

text \<open>The atomic compare-exchange on the word: whether it succeeds, the value it reports, the new word. With
  \<open>spurious\<close> (weak form only) it fails although the values agree.\<close>

definition cas_word :: "bool \<Rightarrow> 64 word \<Rightarrow> 64 word \<Rightarrow> 64 word \<Rightarrow> bool \<times> 64 word \<times> 64 word" where
  "cas_word spurious ex des v = (if v = ex \<and> \<not> spurious then (True, ex, des) else (False, v, v))"

text \<open>The forms with an explicit tag, and those that increment the tag: result, updated \<open>expected\<close>, new word.\<close>

definition tp_cas_tag :: "bool \<Rightarrow> snapshot \<Rightarrow> 64 word \<Rightarrow> 16 word \<Rightarrow> 64 word \<Rightarrow> bool \<times> snapshot \<times> 64 word" where
  "tp_cas_tag spurious expected desired tag v =
    (case cas_word spurious (tp_pack (sn_ptr expected) (sn_tag expected)) (tp_pack desired tag) v of
       (ok, ex, v') \<Rightarrow> if ok then (True, expected, v') else (False, \<lparr>sn_ptr = unpack_ptr ex, sn_tag = unpack_tag ex\<rparr>, v'))"

definition tp_cas :: "bool \<Rightarrow> snapshot \<Rightarrow> 64 word \<Rightarrow> 64 word \<Rightarrow> bool \<times> snapshot \<times> 64 word" where
  "tp_cas spurious expected desired v =
    tp_cas_tag spurious expected desired (ucast ((ucast (sn_tag expected) + 1) AND kTagVMask)) v"

section \<open>Round trips\<close>

text \<open>A canonical address repeats bit 47 in its upper bits.\<close>

definition canonical :: "64 word \<Rightarrow> bool" where
  "canonical p \<longleftrightarrow> (\<forall>n. 48 \<le> n \<and> n < 64 \<longrightarrow> bit p n = bit p 47)"

lemma kPtrMask_eq: "kPtrMask = mask 48"
  by (simp add: kPtrMask_def kPtrBits_def mask_eq_exp_minus_1)

lemma kTagVMask_eq: "kTagVMask = mask 16"
  by (simp add: kTagVMask_def kPtrBits_def mask_eq_exp_minus_1)

lemma bit_pack: "bit (tp_pack p t) n \<longleftrightarrow> (if n < 48 then bit p n else n < 64 \<and> bit t (n - 48))"
  by (auto simp: tp_pack_def kPtrMask_eq kTagVMask_eq kPtrBits_def bit_simps)

lemma unpack_tag_pack [simp]: "unpack_tag (tp_pack p t) = t"
  by (rule bit_word_eqI) (auto simp: unpack_tag_def kTagVMask_eq kPtrBits_def bit_simps bit_pack)

text \<open>Flipping and subtracting the sign bit extends the sign.\<close>

lemma top_bit: "take_bit (Suc k) (x :: 64 word) = take_bit k x + of_bool (bit x k) * 2 ^ k"
proof -
  have "take_bit k x + of_bool (bit x k) * 2 ^ k = take_bit k x OR of_bool (bit x k) * 2 ^ k"
    by (rule disjunctive_add) (auto simp: bit_simps)
  also have "\<dots> = take_bit (Suc k) x"
    by (rule bit_word_eqI) (auto simp: bit_simps less_Suc_eq)
  finally show ?thesis by simp
qed

lemma sign_extend_word:
  "((v :: 64 word) AND mask 48 XOR 2 ^ 47) - 2 ^ 47 = signed_take_bit 47 v"
proof -
  define x where "x = (v AND mask 48) XOR 2 ^ 47"
  have x1: "take_bit 48 x = x" by (rule bit_word_eqI) (auto simp: x_def bit_simps)
  have x2: "take_bit 47 x = take_bit 47 v" by (rule bit_word_eqI) (auto simp: x_def bit_simps)
  have x3: "bit x 47 = (\<not> bit v 47)" by (auto simp: x_def bit_simps)
  have x: "x = take_bit 47 v + of_bool (\<not> bit v 47) * 2 ^ 47" using top_bit [of 47 x] x1 x2 x3 by simp
  have "signed_take_bit 47 v = take_bit 47 v + of_bool (bit v 47) * 2 ^ 47 - 2 ^ 48 * of_bool (bit v 47)"
    using signed_take_bit_eq_take_bit_minus [of 47 v] top_bit [of 47 v] by simp
  then show ?thesis unfolding x_def [symmetric] x by (cases "bit v 47") simp_all
qed

lemma bit_unpack_ptr: "bit (unpack_ptr v) n \<longleftrightarrow> n < 64 \<and> bit v (min 47 n)"
proof -
  have "unpack_ptr v = signed_take_bit 47 v"
    using sign_extend_word [of v] by (simp add: unpack_ptr_def kPtrMask_eq kPtrBits_def Let_def)
  then show ?thesis by (simp add: bit_signed_take_bit_iff possible_bit_word)
qed

lemma bit_unpack_tag: "bit (unpack_tag v) n \<longleftrightarrow> n < 16 \<and> bit v (n + 48)"
  by (auto simp: unpack_tag_def kTagVMask_eq kPtrBits_def bit_simps ac_simps)

lemma canonical_unpack: "canonical (unpack_ptr v)"
  by (simp add: canonical_def bit_unpack_ptr)

lemma unpack_ptr_pack:
  assumes "canonical p"
  shows "unpack_ptr (tp_pack p t) = p"
proof (rule bit_word_eqI)
  fix n assume "n < LENGTH(64)"
  then have n: "n < 64" by simp
  show "bit (unpack_ptr (tp_pack p t)) n = bit p n"
  proof (cases "n < 48")
    case True
    then have "min 47 n = n" by simp
    then show ?thesis using n True by (simp add: bit_unpack_ptr bit_pack)
  next
    case False
    then have "bit p n = bit p 47" using assms n by (simp add: canonical_def)
    then show ?thesis using n False by (simp add: bit_unpack_ptr bit_pack)
  qed
qed

lemma pack_unpack: "tp_pack (unpack_ptr v) (unpack_tag v) = v"
proof (rule bit_word_eqI)
  fix n assume n: "n < LENGTH(64)"
  then show "bit (tp_pack (unpack_ptr v) (unpack_tag v)) n = bit v n"
  proof (cases "n < 48")
    case True
    then have "min 47 n = n" by simp
    then show ?thesis using True by (simp add: bit_pack bit_unpack_ptr)
  next
    case False
    moreover from this n have "n - 48 < 16" by simp
    ultimately show ?thesis using n by (simp add: bit_pack bit_unpack_tag)
  qed
qed

lemma pack_inj:
  assumes "canonical p" "canonical p'" "tp_pack p t = tp_pack p' t'"
  shows "p = p' \<and> t = t'"
  using assms unpack_ptr_pack unpack_tag_pack by metis

section \<open>Results\<close>

lemma next_tag: "(ucast ((ucast (t :: 16 word) + 1) AND kTagVMask) :: 16 word) = t + 1"
proof -
  have "((ucast t + 1 :: 64 word) AND kTagVMask) = take_bit 16 (ucast t + 1)" by (simp add: kTagVMask_eq take_bit_eq_mask)
  also have "(ucast (take_bit 16 (ucast t + 1 :: 64 word)) :: 16 word) = ucast (ucast t + 1 :: 64 word)"
    by (rule bit_word_eqI) (auto simp: bit_simps)
  also have "\<dots> = t + 1" by transfer (simp add: take_bit_eq_mod mod_simps)
  finally show ?thesis .
qed

lemma tp_load_pack [simp]: "canonical p \<Longrightarrow> tp_load (tp_pack p t) = \<lparr>sn_ptr = p, sn_tag = t\<rparr>"
  by (simp add: tp_load_def unpack_ptr_pack)

lemma pack_load: "tp_pack (sn_ptr (tp_load v)) (sn_tag (tp_load v)) = v"
  by (simp add: tp_load_def pack_unpack)

lemma pack_eq_iff: "canonical (sn_ptr e) \<Longrightarrow> v = tp_pack (sn_ptr e) (sn_tag e) \<longleftrightarrow> tp_load v = e"
  using pack_load [of v] tp_load_pack [of "sn_ptr e" "sn_tag e"] by (cases e) auto

lemma tp_cas_spec:
  assumes "canonical (sn_ptr e)" "canonical d" "tp_cas spurious e d v = (ok, e', v')"
  shows "ok = (tp_load v = e \<and> \<not> spurious)"
    and "ok \<Longrightarrow> tp_load v' = \<lparr>sn_ptr = d, sn_tag = sn_tag e + 1\<rparr> \<and> e' = e"
    and "\<not> ok \<Longrightarrow> v' = v \<and> e' = tp_load v"
  using assms pack_eq_iff [OF assms(1), of v]
  by (auto simp: tp_cas_def tp_cas_tag_def cas_word_def next_tag tp_load_def [of v] unpack_ptr_pack tp_load_def [of "tp_pack d (sn_tag e + 1)"]
      split: if_splits)

text \<open>C22. Every pair of a canonical address and a tag survives being stored and loaded, and every word is the store of
  what it loads as. A compare-exchange on snapshots of canonical addresses succeeds exactly if the loaded pair
  is the expected one (and the weak form does not fail spuriously); it then holds the new address and the next
  tag, and otherwise leaves the word and reports the pair it holds.\<close>

theorem tagged_ptr_roundtrip:
  assumes "canonical p" "canonical d" "tp_cas spurious \<lparr>sn_ptr = p, sn_tag = t\<rparr> d v = (ok, e', v')"
  shows "tp_load (tp_store \<lparr>sn_ptr = p, sn_tag = t\<rparr> v) = \<lparr>sn_ptr = p, sn_tag = t\<rparr> \<and>
    tp_store (tp_load v) w = v \<and>
    ok = (tp_load v = \<lparr>sn_ptr = p, sn_tag = t\<rparr> \<and> \<not> spurious) \<and>
    (if ok then tp_load v' = \<lparr>sn_ptr = d, sn_tag = t + 1\<rparr> else v' = v \<and> e' = tp_load v)"
  using tp_cas_spec [OF _ assms(2,3)] assms(1) pack_load by (simp add: tp_store_def)

theorem tagged_ptr_roundtrip_witness:
  "tp_load (tp_store \<lparr>sn_ptr = 0, sn_tag = 7\<rparr> 0) = \<lparr>sn_ptr = 0, sn_tag = 7\<rparr>"
  using tagged_ptr_roundtrip [of 0 0 False 7 "tp_pack 0 7" "fst (tp_cas False \<lparr>sn_ptr = 0, sn_tag = 7\<rparr> 0 (tp_pack 0 7))"]
  by (simp add: canonical_def tp_store_def)

text \<open>A run of successful compare-exchanges, each on the pair just loaded.\<close>

fun cas_run :: "64 word list \<Rightarrow> 64 word \<Rightarrow> 64 word" where
  "cas_run [] v = v"
| "cas_run (d # ds) v = cas_run ds (snd (snd (tp_cas False (tp_load v) d v)))"

lemma cas_run_load:
  assumes "\<forall>d \<in> set ds. canonical d" "ds \<noteq> []"
  shows "tp_load (cas_run ds v) = \<lparr>sn_ptr = last ds, sn_tag = sn_tag (tp_load v) + of_nat (length ds)\<rparr>"
  using assms
proof (induction ds arbitrary: v)
  case (Cons d ds)
  obtain ok e' v' where c: "tp_cas False (tp_load v) d v = (ok, e', v')" by (metis prod_cases3)
  have "canonical (sn_ptr (tp_load v))" by (simp add: tp_load_def canonical_unpack)
  then have "tp_load v' = \<lparr>sn_ptr = d, sn_tag = sn_tag (tp_load v) + 1\<rparr>"
    using tp_cas_spec(1,2) [OF _ _ c] Cons.prems by simp
  then show ?case using Cons c by (cases "ds = []") (simp_all add: ac_simps)
qed simp

text \<open>The tag protects a stale snapshot only for \<open>2 ^ 16 - 1\<close> exchanges: after a multiple of \<open>65536\<close> of them
  that ends on the same address, a compare-exchange with the stale snapshot succeeds.\<close>

theorem tagged_ptr_aba:
  assumes "\<forall>d \<in> set ds. canonical d" "ds \<noteq> []" "canonical d"
  shows "fst (tp_cas False (tp_load v) d (cas_run ds v)) \<longleftrightarrow> last ds = sn_ptr (tp_load v) \<and> 65536 dvd length ds"
proof -
  obtain ok e' v' where c: "tp_cas False (tp_load v) d (cas_run ds v) = (ok, e', v')" by (metis prod_cases3)
  have "canonical (sn_ptr (tp_load v))" by (simp add: tp_load_def canonical_unpack)
  then have "ok \<longleftrightarrow> tp_load (cas_run ds v) = tp_load v" using tp_cas_spec(1) [OF _ assms(3) c] by simp
  also have "\<dots> \<longleftrightarrow> last ds = sn_ptr (tp_load v) \<and> (of_nat (length ds) :: 16 word) = 0"
    using cas_run_load [OF assms(1,2), of v] by (cases "tp_load v") simp
  also have "(of_nat (length ds) :: 16 word) = 0 \<longleftrightarrow> 65536 dvd length ds"
    by (simp add: of_nat_eq_0_iff word_of_nat_eq_0_iff)
  finally show ?thesis using c by simp
qed

end
