(* ===== verification/Qsbr.thy ===== *)
theory Qsbr
  imports Uvent_Prelude
begin

text \<open>
  Quiescent-state based reclamation (\<open>utils/sync/QSBR.cpp\<close>), used by the shared-poller build to free socket headers.
  The operations as one thread runs them, and their interleavings: a step is one access to shared memory, a
  visit of one \<open>ThreadState\<close>, or one critical section of the orphan lock. A \<open>ThreadState\<close> is named by a number;
  the retired list belongs to the thread that uses it. Epochs are 64-bit words that wrap around and are compared
  linearly; \<open>qs_advances\<close> counts the advances of the global epoch (ghost). Accesses take effect in program order. The step
  relation also tracks the objects that are reachable from the shared structure and the references each
  thread has taken from it.
\<close>

section \<open>Operations\<close>

record tstate =
  ts_epoch :: u64
  ts_active :: bool
  ts_in_use :: bool

type_synonym retired_obj = "nat \<times> u64"

record qsbr =
  qs_list :: "nat list"
  qs_state :: "nat \<Rightarrow> tstate"
  global_epoch :: u64
  qs_advances :: nat
  qs_orphans :: "retired_obj list"
  qs_retired :: "nat \<Rightarrow> retired_obj list"
  deleted :: "nat list"

definition qsbr_new :: qsbr where
  "qsbr_new = \<lparr>qs_list = [], qs_state = (\<lambda>_. \<lparr>ts_epoch = 0, ts_active = False, ts_in_use = False\<rparr>), global_epoch = 1, qs_advances = 0,
     qs_orphans = [], qs_retired = (\<lambda>_. []), deleted = []\<rparr>"

definition set_ts :: "nat \<Rightarrow> tstate \<Rightarrow> qsbr \<Rightarrow> qsbr" where
  "set_ts t v q = q\<lparr>qs_state := (qs_state q)(t := v)\<rparr>"

text \<open>\<open>attach_current_thread\<close>: a state that is not in use, or a new one at the head of the list.\<close>

definition attach_reuse :: "nat \<Rightarrow> qsbr \<Rightarrow> qsbr" where
  "attach_reuse t q = set_ts t ((qs_state q t)\<lparr>ts_in_use := True, ts_active := False\<rparr>) q"

definition attach_new :: "nat \<Rightarrow> qsbr \<Rightarrow> qsbr" where
  "attach_new t q = (set_ts t \<lparr>ts_epoch = 0, ts_active = False, ts_in_use = True\<rparr> q)\<lparr>qs_list := t # qs_list q\<rparr>"

definition attach_current_thread :: "nat \<Rightarrow> qsbr \<Rightarrow> nat \<times> qsbr" where
  "attach_current_thread fresh q = (case filter (\<lambda>t. \<not> ts_in_use (qs_state q t)) (qs_list q) of
     t # _ \<Rightarrow> (t, attach_reuse t q) | [] \<Rightarrow> (fresh, attach_new fresh q))"

definition detach_current_thread :: "nat \<Rightarrow> qsbr \<Rightarrow> qsbr" where
  "detach_current_thread t q =
    (let q1 = set_ts t ((qs_state q t)\<lparr>ts_active := False\<rparr>) q;
         q2 = (if qs_retired q1 t \<noteq> [] then q1\<lparr>qs_orphans := qs_orphans q1 @ qs_retired q1 t, qs_retired := (qs_retired q1)(t := [])\<rparr> else q1)
     in set_ts t ((qs_state q2 t)\<lparr>ts_in_use := False\<rparr>) q2)"

definition qs_publish :: "nat \<Rightarrow> u64 \<Rightarrow> qsbr \<Rightarrow> qsbr" where
  "qs_publish t e q = set_ts t ((qs_state q t)\<lparr>ts_epoch := e, ts_active := True\<rparr>) q"

definition qs_enter :: "nat \<Rightarrow> qsbr \<Rightarrow> qsbr" where
  "qs_enter t q = qs_publish t (global_epoch q) q"

definition qs_leave :: "nat \<Rightarrow> qsbr \<Rightarrow> qsbr" where
  "qs_leave t q = set_ts t ((qs_state q t)\<lparr>ts_active := False\<rparr>) q"

definition qs_retire :: "nat \<Rightarrow> nat \<Rightarrow> qsbr \<Rightarrow> qsbr" where
  "qs_retire t p q = q\<lparr>qs_retired := (qs_retired q)(t := qs_retired q t @ [(p, global_epoch q)])\<rparr>"

text \<open>\<open>min_active_epoch\<close>: one iteration of the loop, and the result. The largest word stands for no active state.\<close>

definition scan_visit :: "tstate \<Rightarrow> u64 \<Rightarrow> u64" where
  "scan_visit s m = (if \<not> ts_in_use s then m else if ts_active s then (if ts_epoch s < m then ts_epoch s else m) else m)"

definition scan_result :: "u64 \<Rightarrow> qsbr \<Rightarrow> u64" where
  "scan_result m q = (if m = - 1 then global_epoch q else m)"

definition min_active_epoch :: "qsbr \<Rightarrow> u64" where
  "min_active_epoch q = scan_result (fold (\<lambda>t. scan_visit (qs_state q t)) (qs_list q) (- 1)) q"

definition advance_epoch :: "qsbr \<Rightarrow> qsbr" where
  "advance_epoch q = q\<lparr>global_epoch := global_epoch q + 1, qs_advances := Suc (qs_advances q)\<rparr>"

definition bump_epoch :: "u64 \<Rightarrow> qsbr \<Rightarrow> qsbr" where
  "bump_epoch m q = (if m = global_epoch q then advance_epoch q else q)"

definition free_old :: "nat \<Rightarrow> u64 \<Rightarrow> qsbr \<Rightarrow> qsbr" where
  "free_old t safe q = q\<lparr>qs_retired := (qs_retired q)(t := filter (\<lambda>(p, e). \<not> e < safe) (qs_retired q t)),
     deleted := deleted q @ map fst (filter (\<lambda>(p, e). e < safe) (qs_retired q t))\<rparr>"

definition adopt_orphans :: "u64 \<Rightarrow> qsbr \<Rightarrow> qsbr" where
  "adopt_orphans safe q = q\<lparr>qs_orphans := filter (\<lambda>(p, e). \<not> e < safe) (qs_orphans q),
     deleted := deleted q @ map fst (filter (\<lambda>(p, e). e < safe) (qs_orphans q))\<rparr>"

definition quiesce_tick :: "nat \<Rightarrow> qsbr \<Rightarrow> qsbr" where
  "quiesce_tick t q =
    (let q1 = bump_epoch (min_active_epoch q) q;
         safe = min_active_epoch q1;
         q2 = free_old t safe q1
     in if qs_orphans q2 \<noteq> [] then adopt_orphans safe q2 else q2)"

section \<open>Interleavings\<close>

datatype qpc =
  Q_off
| Q_out
| Q_enter u64
| Q_in
| Q_retire nat
| Q_scan bool "nat list" u64
| Q_bump u64
| Q_add
| Q_free u64
| Q_adopt u64

record qsys =
  qs :: qsbr
  qpcs :: "nat \<Rightarrow> qpc"
  shared :: "nat set"
  refs :: "nat \<Rightarrow> nat set"

definition qsys_init :: "nat set \<Rightarrow> qsys" where
  "qsys_init objs = \<lparr>qs = qsbr_new, qpcs = (\<lambda>_. Q_off), shared = objs, refs = (\<lambda>_. {})\<rparr>"

definition qjump :: "nat \<Rightarrow> qpc \<Rightarrow> qsys \<Rightarrow> qsys" where
  "qjump t pc s = s\<lparr>qpcs := (qpcs s)(t := pc)\<rparr>"

definition qmem :: "(qsbr \<Rightarrow> qsbr) \<Rightarrow> qsys \<Rightarrow> qsys" where
  "qmem f s = s\<lparr>qs := f (qs s)\<rparr>"

text \<open>The parameters switch on two uses of the interface: \<open>early\<close>, taking a reference before \<open>enter\<close>; \<open>det\<close>, threads
  that detach.\<close>

inductive qstep :: "bool \<Rightarrow> bool \<Rightarrow> qsys \<Rightarrow> qsys \<Rightarrow> bool" for early det where
  q_attach_new: "qpcs s t = Q_off \<Longrightarrow> t \<notin> set (qs_list (qs s)) \<Longrightarrow> qstep early det s (qjump t Q_out (qmem (attach_new t) s))"
| q_attach_reuse: "qpcs s t = Q_off \<Longrightarrow> t \<in> set (qs_list (qs s)) \<Longrightarrow> \<not> ts_in_use (qs_state (qs s) t) \<Longrightarrow>
    qstep early det s (qjump t Q_out (qmem (attach_reuse t) s))"
| q_detach: "det \<Longrightarrow> qpcs s t = Q_out \<Longrightarrow> qstep early det s (qjump t Q_off ((qmem (detach_current_thread t) s)\<lparr>refs := (refs s)(t := {})\<rparr>))"
| q_load_epoch: "qpcs s t = Q_out \<Longrightarrow> qstep early det s (qjump t (Q_enter (global_epoch (qs s))) s)"
| q_publish: "qpcs s t = Q_enter e \<Longrightarrow> qstep early det s (qjump t Q_in (qmem (qs_publish t e) s))"
| q_take: "qpcs s t = Q_in \<or> early \<and> qpcs s t = Q_out \<Longrightarrow> p \<in> shared s \<Longrightarrow>
    qstep early det s (s\<lparr>refs := (refs s)(t := insert p (refs s t))\<rparr>)"
| q_leave: "qpcs s t = Q_in \<Longrightarrow> qstep early det s (qjump t Q_out ((qmem (qs_leave t) s)\<lparr>refs := (refs s)(t := {})\<rparr>))"
| q_unlink: "qpcs s t = Q_out \<Longrightarrow> p \<in> shared s \<Longrightarrow> qstep early det s (qjump t (Q_retire p) (s\<lparr>shared := shared s - {p}\<rparr>))"
| q_retire: "qpcs s t = Q_retire p \<Longrightarrow> qstep early det s (qjump t Q_out (qmem (qs_retire t p) s))"
| q_tick: "qpcs s t = Q_out \<Longrightarrow> qstep early det s (qjump t (Q_scan True (qs_list (qs s)) (- 1)) s)"
| q_visit: "qpcs s t = Q_scan b (u # us) m \<Longrightarrow> qstep early det s (qjump t (Q_scan b us (scan_visit (qs_state (qs s) u) m)) s)"
| q_scanned: "qpcs s t = Q_scan b [] m \<Longrightarrow>
    qstep early det s (qjump t (if b then Q_bump (scan_result m (qs s)) else Q_free (scan_result m (qs s))) s)"
| q_bump: "qpcs s t = Q_bump m \<Longrightarrow>
    qstep early det s (qjump t (if m = global_epoch (qs s) then Q_add else Q_scan False (qs_list (qs s)) (- 1)) s)"
| q_add: "qpcs s t = Q_add \<Longrightarrow> qstep early det s (qjump t (Q_scan False (qs_list (qs s)) (- 1)) (qmem advance_epoch s))"
| q_free: "qpcs s t = Q_free safe \<Longrightarrow> qstep early det s (qjump t (Q_adopt safe) (qmem (free_old t safe) s))"
| q_adopt: "qpcs s t = Q_adopt safe \<Longrightarrow>
    qstep early det s (qjump t Q_out (if qs_orphans (qs s) \<noteq> [] then qmem (adopt_orphans safe) s else s))"

section \<open>Invariant\<close>

text \<open>What a thread in the middle of a tick has established about a reader whose epoch is \<open>e\<close>.\<close>

fun scan_covers :: "qpc \<Rightarrow> nat \<Rightarrow> u64 \<Rightarrow> bool" where
  "scan_covers (Q_scan b us m) t e = (t \<in> set us \<or> m \<le> e)"
| "scan_covers (Q_free safe) t e = (safe \<le> e)"
| "scan_covers pc t e = True"

definition qinv :: "qsys \<Rightarrow> bool" where
  "qinv s \<longleftrightarrow> qs_orphans (qs s) = [] \<and>
     (\<forall>t. refs s t \<noteq> {} \<longrightarrow> qpcs s t = Q_in) \<and>
     (\<forall>t. qpcs s t \<noteq> Q_off \<longrightarrow> t \<in> set (qs_list (qs s)) \<and> ts_in_use (qs_state (qs s) t)) \<and>
     (\<forall>t. qpcs s t = Q_in \<longrightarrow> ts_active (qs_state (qs s) t) \<and> ts_epoch (qs_state (qs s) t) \<le> global_epoch (qs s)) \<and>
     (\<forall>t e. qpcs s t = Q_enter e \<longrightarrow> e \<le> global_epoch (qs s)) \<and>
     (\<forall>p\<in>shared s. p \<notin> set (deleted (qs s)) \<and> (\<forall>u. p \<notin> fst ` set (qs_retired (qs s) u) \<and> qpcs s u \<noteq> Q_retire p)) \<and>
     (\<forall>t p u e. p \<in> refs s t \<longrightarrow> (p, e) \<in> set (qs_retired (qs s) u) \<longrightarrow> ts_epoch (qs_state (qs s) t) \<le> e) \<and>
     (\<forall>t p u e. p \<in> refs s t \<longrightarrow> (p, e) \<in> set (qs_retired (qs s) u) \<longrightarrow> scan_covers (qpcs s u) t (ts_epoch (qs_state (qs s) t))) \<and>
     (\<forall>t p. p \<in> refs s t \<longrightarrow> p \<notin> set (deleted (qs s)))"

lemma qsys_simps [simp]:
  "qpcs (qjump t pc s) u = (if u = t then pc else qpcs s u)" "qs (qjump t pc s) = qs s" "shared (qjump t pc s) = shared s" "refs (qjump t pc s) = refs s"
  "qpcs (qmem f s) = qpcs s" "qs (qmem f s) = f (qs s)" "shared (qmem f s) = shared s" "refs (qmem f s) = refs s"
  by (simp_all add: qjump_def qmem_def)

lemmas q_op_defs = attach_new_def attach_reuse_def qs_publish_def qs_leave_def qs_retire_def advance_epoch_def free_old_def set_ts_def

lemma qinvD:
  assumes "qinv s"
  shows "qs_orphans (qs s) = []" "refs s t \<noteq> {} \<Longrightarrow> qpcs s t = Q_in"
    "qpcs s t \<noteq> Q_off \<Longrightarrow> t \<in> set (qs_list (qs s))" "qpcs s t \<noteq> Q_off \<Longrightarrow> ts_in_use (qs_state (qs s) t)"
    "qpcs s t = Q_in \<Longrightarrow> ts_active (qs_state (qs s) t)" "qpcs s t = Q_in \<Longrightarrow> ts_epoch (qs_state (qs s) t) \<le> global_epoch (qs s)"
    "qpcs s t = Q_enter e \<Longrightarrow> e \<le> global_epoch (qs s)"
    "p \<in> shared s \<Longrightarrow> p \<notin> set (deleted (qs s))" "p \<in> shared s \<Longrightarrow> p \<notin> fst ` set (qs_retired (qs s) u)" "p \<in> shared s \<Longrightarrow> qpcs s u \<noteq> Q_retire p"
    "p \<in> refs s t \<Longrightarrow> (p, e) \<in> set (qs_retired (qs s) u) \<Longrightarrow> ts_epoch (qs_state (qs s) t) \<le> e"
    "p \<in> refs s t \<Longrightarrow> (p, e) \<in> set (qs_retired (qs s) u) \<Longrightarrow> scan_covers (qpcs s u) t (ts_epoch (qs_state (qs s) t))"
    "p \<in> refs s t \<Longrightarrow> p \<notin> set (deleted (qs s))"
  using assms unfolding qinv_def by (meson, meson, meson, meson, meson, meson, meson, meson, meson, meson, meson, meson, meson)

lemma qinvI:
  assumes "qs_orphans (qs s) = []" "\<And>t. refs s t \<noteq> {} \<Longrightarrow> qpcs s t = Q_in"
    "\<And>t. qpcs s t \<noteq> Q_off \<Longrightarrow> t \<in> set (qs_list (qs s)) \<and> ts_in_use (qs_state (qs s) t)"
    "\<And>t. qpcs s t = Q_in \<Longrightarrow> ts_active (qs_state (qs s) t) \<and> ts_epoch (qs_state (qs s) t) \<le> global_epoch (qs s)"
    "\<And>t e. qpcs s t = Q_enter e \<Longrightarrow> e \<le> global_epoch (qs s)"
    "\<And>p u. p \<in> shared s \<Longrightarrow> p \<notin> set (deleted (qs s)) \<and> p \<notin> fst ` set (qs_retired (qs s) u) \<and> qpcs s u \<noteq> Q_retire p"
    "\<And>t p u e. p \<in> refs s t \<Longrightarrow> (p, e) \<in> set (qs_retired (qs s) u) \<Longrightarrow>
       ts_epoch (qs_state (qs s) t) \<le> e \<and> scan_covers (qpcs s u) t (ts_epoch (qs_state (qs s) t))"
    "\<And>t p. p \<in> refs s t \<Longrightarrow> p \<notin> set (deleted (qs s))"
  shows "qinv s"
  unfolding qinv_def using assms by meson

text \<open>A reader is inside its critical section, so its state is visited by every scan that starts now.\<close>

lemma reader_listed: "qinv s \<Longrightarrow> p \<in> refs s t \<Longrightarrow> t \<in> set (qs_list (qs s))"
  using qinvD(2,3) by (metis emptyE qpc.distinct(5))

lemma visit_covers:
  assumes "qinv s" "p \<in> refs s t" "t \<in> set (u # us) \<or> m \<le> ts_epoch (qs_state (qs s) t)"
  shows "t \<in> set us \<or> scan_visit (qs_state (qs s) u) m \<le> ts_epoch (qs_state (qs s) t)"
proof -
  have "qpcs s t = Q_in" using qinvD(2) [OF assms(1), of t] assms(2) by auto
  then have "ts_in_use (qs_state (qs s) t)" "ts_active (qs_state (qs s) t)" using qinvD(4,5) [OF assms(1)] by simp_all
  moreover have "scan_visit (qs_state (qs s) u) m \<le> m" by (auto simp: scan_visit_def)
  ultimately show ?thesis using assms(3) by (auto simp: scan_visit_def split: if_splits)
qed

lemma scan_result_le: "m \<le> e \<Longrightarrow> scan_result m q \<le> e"
proof (cases "m = - 1")
  case True
  assume "m \<le> e"
  then have "e = - 1" using True by (simp add: word_order.extremum_unique)
  then show ?thesis by simp
qed (simp add: scan_result_def)

text \<open>A step that only moves a thread that is not a reader.\<close>

lemma qinv_jump:
  assumes I: "qinv s" and t: "qpcs s t \<noteq> Q_in" "qpcs s t \<noteq> Q_off" "pc \<noteq> Q_in" "\<And>e. pc = Q_enter e \<Longrightarrow> e \<le> global_epoch (qs s)"
    "\<And>p. pc \<noteq> Q_retire p"
    and scan: "\<And>p u e. p \<in> refs s u \<Longrightarrow> (p, e) \<in> set (qs_retired (qs s) t) \<Longrightarrow> scan_covers pc u (ts_epoch (qs_state (qs s) u))"
  shows "qinv (qjump t pc s)"
proof (rule qinvI)
  show "qpcs (qjump t pc s) u = Q_in" if "refs (qjump t pc s) u \<noteq> {}" for u
    using qinvD(2) [OF I, of u] that t(1) by auto
  show "u \<in> set (qs_list (qs (qjump t pc s))) \<and> ts_in_use (qs_state (qs (qjump t pc s)) u)" if "qpcs (qjump t pc s) u \<noteq> Q_off" for u
    using qinvD(3,4) [OF I, of u] that t(2) by (cases "u = t") simp_all
  show "ts_epoch (qs_state (qs (qjump t pc s)) v) \<le> e \<and> scan_covers (qpcs (qjump t pc s) u) v (ts_epoch (qs_state (qs (qjump t pc s)) v))"
    if "p \<in> refs (qjump t pc s) v" "(p, e) \<in> set (qs_retired (qs (qjump t pc s)) u)" for v p u e
    using qinvD(11,12) [OF I, of p v e u] that scan [of p v e] by (cases "u = t") simp_all
qed (use qinvD [OF I] t in \<open>auto split: if_splits\<close>)

text \<open>A step that changes the state of a thread that holds no reference afterwards.\<close>

lemma qinv_local:
  assumes I: "qinv s" and q: "qs_orphans q = qs_orphans (qs s)" "qs_retired q = qs_retired (qs s)" "deleted q = deleted (qs s)"
      "global_epoch q = global_epoch (qs s)" "set (qs_list (qs s)) \<subseteq> set (qs_list q)" "\<And>u. u \<noteq> t \<Longrightarrow> qs_state q u = qs_state (qs s) u"
    and t: "t \<in> set (qs_list q)" "ts_in_use (qs_state q t)"
      "pc = Q_out \<or> pc = Q_in \<and> ts_active (qs_state q t) \<and> ts_epoch (qs_state q t) \<le> global_epoch (qs s)"
    and r: "rs = (refs s)(t := {})"
  shows "qinv (qjump t pc (s\<lparr>qs := q, refs := rs\<rparr>))" (is "qinv ?s")
proof (rule qinvI)
  show "qpcs ?s u = Q_in" if "refs ?s u \<noteq> {}" for u
    using qinvD(2) [OF I, of u] that r by (cases "u = t") simp_all
  show "u \<in> set (qs_list (qs ?s)) \<and> ts_in_use (qs_state (qs ?s) u)" if "qpcs ?s u \<noteq> Q_off" for u
    using qinvD(3,4) [OF I, of u] that t(1,2) q(5,6) by (cases "u = t") auto
  show "ts_active (qs_state (qs ?s) u) \<and> ts_epoch (qs_state (qs ?s) u) \<le> global_epoch (qs ?s)" if "qpcs ?s u = Q_in" for u
    using qinvD(5,6) [OF I, of u] that t(3) q(4,6) by (cases "u = t") auto
  show "e \<le> global_epoch (qs ?s)" if "qpcs ?s u = Q_enter e" for u e
    using qinvD(7) [OF I, of u e] that t(3) q(4) by (cases "u = t") auto
  show "p \<notin> set (deleted (qs ?s)) \<and> p \<notin> fst ` set (qs_retired (qs ?s) u) \<and> qpcs ?s u \<noteq> Q_retire p" if "p \<in> shared ?s" for p u
    using qinvD(8,9,10) [OF I, of p] that t(3) q(2,3) by auto
  show "ts_epoch (qs_state (qs ?s) v) \<le> e \<and> scan_covers (qpcs ?s u) v (ts_epoch (qs_state (qs ?s) v))"
    if "p \<in> refs ?s v" "(p, e) \<in> set (qs_retired (qs ?s) u)" for v p u e
  proof -
    have v: "v \<noteq> t" "p \<in> refs s v" using that(1) r by (auto split: if_splits)
    have "scan_covers pc v x" for x using t(3) by auto
    then show ?thesis using qinvD(11,12) [OF I v(2), of e u] that(2) q(2,6) v(1) by simp
  qed
  show "p \<notin> set (deleted (qs ?s))" if "p \<in> refs ?s v" for v p
    using qinvD(13) [OF I, of p v] that q(3) r by (cases "v = t") simp_all
qed (simp add: q(1) qinvD(1) [OF I])

lemma no_refs: "qinv s \<Longrightarrow> qpcs s t \<noteq> Q_in \<Longrightarrow> (refs s)(t := {}) = refs s"
  using qinvD(2) [of s t] by (auto simp: fun_eq_iff)

lemma qmem_as: "qmem f s = s\<lparr>qs := f (qs s), refs := refs s\<rparr>"
  by (simp add: qmem_def)

lemma scan_free: "qinv s \<Longrightarrow> qpcs s t = Q_free safe \<Longrightarrow> (p, e) \<in> set (qs_retired (qs s) t) \<Longrightarrow> e < safe \<Longrightarrow> p \<notin> refs s u"
  using qinvD(11,12) [of s p u e t] by fastforce

lemma qinv_free:
  assumes I: "qinv s" and t: "qpcs s t = Q_free safe"
  shows "qinv (qjump t (Q_adopt safe) (qmem (free_old t safe) s))" (is "qinv ?s")
proof -
  have sub: "set (qs_retired (qs ?s) u) \<subseteq> set (qs_retired (qs s) u)" for u by (auto simp: free_old_def)
  have del: "set (deleted (qs ?s)) \<subseteq> set (deleted (qs s)) \<union> {p. \<exists>e. (p, e) \<in> set (qs_retired (qs s) t) \<and> e < safe}"
    by (auto simp: free_old_def)
  have ts: "qs_state (qs ?s) = qs_state (qs s)" "global_epoch (qs ?s) = global_epoch (qs s)" "qs_list (qs ?s) = qs_list (qs s)"
    "qs_orphans (qs ?s) = qs_orphans (qs s)" by (simp_all add: free_old_def)
  show ?thesis
  proof (rule qinvI)
    show "p \<notin> set (deleted (qs ?s)) \<and> p \<notin> fst ` set (qs_retired (qs ?s) u) \<and> qpcs ?s u \<noteq> Q_retire p" if "p \<in> shared ?s" for p u
    proof -
      have p: "p \<in> shared s" using that by simp
      have n: "(p, e) \<notin> set (qs_retired (qs s) v)" for e v using qinvD(9) [OF I p, of v] by force
      have "p \<notin> set (deleted (qs ?s))" using del n qinvD(8) [OF I p] by blast
      moreover have "p \<notin> fst ` set (qs_retired (qs ?s) u)" using sub [of u] n by auto
      moreover have "qpcs ?s u \<noteq> Q_retire p" using qinvD(10) [OF I p, of u] by simp
      ultimately show ?thesis by blast
    qed
    show "ts_epoch (qs_state (qs ?s) v) \<le> e \<and> scan_covers (qpcs ?s u) v (ts_epoch (qs_state (qs ?s) v))"
      if "p \<in> refs ?s v" "(p, e) \<in> set (qs_retired (qs ?s) u)" for v p u e
      using qinvD(11,12) [OF I, of p v e u] that sub [of u] unfolding ts by auto
    show "p \<notin> set (deleted (qs ?s))" if "p \<in> refs ?s v" for v p
      using qinvD(13) [OF I, of p v] scan_free [OF I t, of p _ v] that del by auto
    show "qpcs ?s u = Q_in" if "refs ?s u \<noteq> {}" for u using qinvD(2) [OF I, of u] that t by (cases "u = t") auto
    show "u \<in> set (qs_list (qs ?s)) \<and> ts_in_use (qs_state (qs ?s) u)" if "qpcs ?s u \<noteq> Q_off" for u
      using qinvD(3,4) [OF I, of u] that t unfolding ts by (cases "u = t") auto
    show "ts_active (qs_state (qs ?s) u) \<and> ts_epoch (qs_state (qs ?s) u) \<le> global_epoch (qs ?s)" if "qpcs ?s u = Q_in" for u
      using qinvD(5,6) [OF I, of u] that unfolding ts by (cases "u = t") auto
    show "e \<le> global_epoch (qs ?s)" if "qpcs ?s u = Q_enter e" for u e
      using qinvD(7) [OF I, of u e] that unfolding ts by (cases "u = t") auto
  qed (simp add: free_old_def qinvD(1) [OF I])
qed

lemma qinv_take:
  assumes I: "qinv s" and t: "qpcs s t = Q_in" "p \<in> shared s"
  shows "qinv (s\<lparr>refs := (refs s)(t := insert p (refs s t))\<rparr>)" (is "qinv ?s")
proof (rule qinvI)
  have n: "(p, e) \<notin> set (qs_retired (qs s) v)" for e v using qinvD(9) [OF I t(2), of v] by force
  show "qpcs ?s u = Q_in" if "refs ?s u \<noteq> {}" for u using qinvD(2) [OF I, of u] that t by (cases "u = t") auto
  show "ts_epoch (qs_state (qs ?s) v) \<le> e \<and> scan_covers (qpcs ?s u) v (ts_epoch (qs_state (qs ?s) v))"
    if "x \<in> refs ?s v" "(x, e) \<in> set (qs_retired (qs ?s) u)" for v x u e
  proof -
    have "x \<in> refs s v" using that n [of e u] by (auto split: if_splits)
    then show ?thesis using qinvD(11,12) [OF I, of x v e u] that by simp
  qed
  show "x \<notin> set (deleted (qs ?s))" if "x \<in> refs ?s v" for v x
    using qinvD(13) [OF I, of x v] qinvD(8) [OF I t(2)] that by (auto split: if_splits)
  show "x \<notin> set (deleted (qs ?s)) \<and> x \<notin> fst ` set (qs_retired (qs ?s) u) \<and> qpcs ?s u \<noteq> Q_retire x" if "x \<in> shared ?s" for x u
    using qinvD(8,9,10) [OF I, of x] that by simp
qed (use qinvD(1,3-7) [OF I] in simp_all)

lemma qinv_unlink:
  assumes I: "qinv s" and t: "qpcs s t = Q_out"
  shows "qinv (qjump t (Q_retire p) (s\<lparr>shared := shared s - {p}\<rparr>))" (is "qinv ?s")
proof (rule qinvI)
  show "qpcs ?s u = Q_in" if "refs ?s u \<noteq> {}" for u using qinvD(2) [OF I, of u] that t by (cases "u = t") auto
  show "u \<in> set (qs_list (qs ?s)) \<and> ts_in_use (qs_state (qs ?s) u)" if "qpcs ?s u \<noteq> Q_off" for u
    using qinvD(3,4) [OF I, of u] that t by (cases "u = t") simp_all
  show "x \<notin> set (deleted (qs ?s)) \<and> x \<notin> fst ` set (qs_retired (qs ?s) u) \<and> qpcs ?s u \<noteq> Q_retire x" if "x \<in> shared ?s" for x u
    using qinvD(8,9,10) [OF I, of x] that by auto
  show "ts_epoch (qs_state (qs ?s) v) \<le> e \<and> scan_covers (qpcs ?s u) v (ts_epoch (qs_state (qs ?s) v))"
    if "x \<in> refs ?s v" "(x, e) \<in> set (qs_retired (qs ?s) u)" for v x u e
    using qinvD(11,12) [OF I, of x v e u] that by simp
  show "ts_active (qs_state (qs ?s) u) \<and> ts_epoch (qs_state (qs ?s) u) \<le> global_epoch (qs ?s)" if "qpcs ?s u = Q_in" for u
    using qinvD(5,6) [OF I, of u] that by (cases "u = t") auto
  show "e \<le> global_epoch (qs ?s)" if "qpcs ?s u = Q_enter e" for u e
    using qinvD(7) [OF I, of u e] that by (cases "u = t") auto
qed (use qinvD(1,13) [OF I] in simp_all)

lemma qinv_retire:
  assumes I: "qinv s" and t: "qpcs s t = Q_retire p"
  shows "qinv (qjump t Q_out (qmem (qs_retire t p) s))" (is "qinv ?s")
proof (rule qinvI)
  show "qpcs ?s u = Q_in" if "refs ?s u \<noteq> {}" for u using qinvD(2) [OF I, of u] that t by (cases "u = t") auto
  show "u \<in> set (qs_list (qs ?s)) \<and> ts_in_use (qs_state (qs ?s) u)" if "qpcs ?s u \<noteq> Q_off" for u
    using qinvD(3,4) [OF I, of u] that t by (cases "u = t") (simp_all add: qs_retire_def)
  show "x \<notin> set (deleted (qs ?s)) \<and> x \<notin> fst ` set (qs_retired (qs ?s) u) \<and> qpcs ?s u \<noteq> Q_retire x" if "x \<in> shared ?s" for x u
  proof -
    have x: "x \<in> shared s" using that by simp
    then have "x \<noteq> p" using qinvD(10) [OF I x, of t] t by auto
    then show ?thesis using qinvD(8) [OF I x] qinvD(9,10) [OF I x, of u] by (auto simp: qs_retire_def)
  qed
  show "ts_epoch (qs_state (qs ?s) v) \<le> e \<and> scan_covers (qpcs ?s u) v (ts_epoch (qs_state (qs ?s) v))"
    if "x \<in> refs ?s v" "(x, e) \<in> set (qs_retired (qs ?s) u)" for v x u e
  proof -
    have v: "qpcs s v = Q_in" using qinvD(2) [OF I, of v] that(1) by auto
    have "(x, e) \<in> set (qs_retired (qs s) u) \<or> u = t \<and> e = global_epoch (qs s)"
      using that(2) by (auto simp: qs_retire_def split: if_splits)
    then show ?thesis using qinvD(11,12) [OF I, of x v e u] qinvD(6) [OF I v] that(1) by (auto simp: qs_retire_def)
  qed
  show "ts_active (qs_state (qs ?s) u) \<and> ts_epoch (qs_state (qs ?s) u) \<le> global_epoch (qs ?s)" if "qpcs ?s u = Q_in" for u
    using qinvD(5,6) [OF I, of u] that by (cases "u = t") (auto simp: qs_retire_def)
  show "e \<le> global_epoch (qs ?s)" if "qpcs ?s u = Q_enter e" for u e
    using qinvD(7) [OF I, of u e] that by (cases "u = t") (auto simp: qs_retire_def)
qed (use qinvD(1,13) [OF I] in \<open>simp_all add: qs_retire_def\<close>)

lemma unat_epoch_up: "unat (e + 1) = Suc (unat e)" if "e \<noteq> - 1" for e :: u64
proof -
  have "1 + e \<noteq> 0" using that by (metis add.commute minus_unique)
  then show ?thesis using unatSuc [of e] by (simp add: add.commute)
qed

lemma epoch_up: "e \<noteq> - 1 \<Longrightarrow> e \<le> e + 1" for e :: u64
  using unat_epoch_up [of e] by (simp add: word_le_nat_alt)

lemma qinv_epoch:
  assumes I: "qinv s" and w: "global_epoch (qs s) \<noteq> - 1"
  shows "qinv (qmem advance_epoch s)"
proof (rule qinvI)
  fix t e p u
  have up: "global_epoch (qs s) \<le> global_epoch (qs s) + 1" using w by (simp add: epoch_up)
  show "qpcs (qmem advance_epoch s) t = Q_enter e \<Longrightarrow> e \<le> global_epoch (qs (qmem advance_epoch s))"
    using qinvD(7) [OF I, of t e] up by (simp add: advance_epoch_def)
  show "qpcs (qmem advance_epoch s) t = Q_in \<Longrightarrow> ts_active (qs_state (qs (qmem advance_epoch s)) t) \<and>
      ts_epoch (qs_state (qs (qmem advance_epoch s)) t) \<le> global_epoch (qs (qmem advance_epoch s))"
    using qinvD(5,6) [OF I, of t] up by (simp add: advance_epoch_def)
qed (use qinvD(1-4,8-13) [OF I] in \<open>simp_all add: advance_epoch_def\<close>)

lemma qinv_step:
  assumes I: "qinv s" and "qstep False False s s'" and w: "global_epoch (qs s') = global_epoch (qs s) \<or> global_epoch (qs s) \<noteq> - 1"
  shows "qinv s'"
  using assms(2)
proof cases
  case (q_attach_new t)
  have "qinv (qjump t Q_out (s\<lparr>qs := attach_new t (qs s), refs := refs s\<rparr>))"
    by (rule qinv_local [OF I]) (use q_attach_new no_refs [OF I, of t] in \<open>auto simp: q_op_defs\<close>)
  then show ?thesis using q_attach_new qmem_as [of "attach_new t" s] by simp
next
  case (q_attach_reuse t)
  have "qinv (qjump t Q_out (s\<lparr>qs := attach_reuse t (qs s), refs := refs s\<rparr>))"
    by (rule qinv_local [OF I]) (use q_attach_reuse no_refs [OF I, of t] in \<open>auto simp: q_op_defs\<close>)
  then show ?thesis using q_attach_reuse qmem_as [of "attach_reuse t" s] by simp
next
  case (q_load_epoch t)
  then show ?thesis by (auto intro: qinv_jump [OF I])
next
  case (q_publish t e)
  have "qinv (qjump t Q_in (s\<lparr>qs := qs_publish t e (qs s), refs := refs s\<rparr>))"
    by (rule qinv_local [OF I]) (use q_publish no_refs [OF I, of t] qinvD(3,4,7) [OF I, of t] in \<open>auto simp: q_op_defs\<close>)
  then show ?thesis using q_publish qmem_as [of "qs_publish t e" s] by simp
next
  case (q_take t p)
  then show ?thesis using qinv_take [OF I] by simp
next
  case (q_leave t)
  have "qinv (qjump t Q_out (s\<lparr>qs := qs_leave t (qs s), refs := (refs s)(t := {})\<rparr>))"
    by (rule qinv_local [OF I]) (use q_leave qinvD(3,4) [OF I, of t] in \<open>auto simp: q_op_defs\<close>)
  then show ?thesis using q_leave by (simp add: qmem_def)
next
  case (q_unlink t p)
  then show ?thesis using qinv_unlink [OF I] by simp
next
  case (q_retire t p)
  then show ?thesis using qinv_retire [OF I] by simp
next
  case (q_tick t)
  then show ?thesis using reader_listed [OF I] by (auto intro!: qinv_jump [OF I])
next
  case (q_visit t b u us m)
  have "qinv (qjump t (Q_scan b us (scan_visit (qs_state (qs s) u) m)) s)"
  proof (rule qinv_jump [OF I])
    show "scan_covers (Q_scan b us (scan_visit (qs_state (qs s) u) m)) v (ts_epoch (qs_state (qs s) v))"
      if "p \<in> refs s v" "(p, e) \<in> set (qs_retired (qs s) t)" for p v e
      using qinvD(12) [OF I that] visit_covers [OF I that(1), of u us m] q_visit(2) by simp
  qed (use q_visit in simp_all)
  then show ?thesis using q_visit by simp
next
  case (q_scanned t b m)
  have "qinv (qjump t (if b then Q_bump (scan_result m (qs s)) else Q_free (scan_result m (qs s))) s)"
  proof (rule qinv_jump [OF I])
    show "scan_covers (if b then Q_bump (scan_result m (qs s)) else Q_free (scan_result m (qs s))) v (ts_epoch (qs_state (qs s) v))"
      if "p \<in> refs s v" "(p, e) \<in> set (qs_retired (qs s) t)" for p v e
      using qinvD(12) [OF I that] q_scanned(2) scan_result_le [of m "ts_epoch (qs_state (qs s) v)"] by simp
  qed (use q_scanned in \<open>auto split: if_splits\<close>)
  then show ?thesis using q_scanned by simp
next
  case (q_bump t m)
  then show ?thesis using reader_listed [OF I] by (auto intro!: qinv_jump [OF I])
next
  case (q_add t)
  then have "global_epoch (qs s) \<noteq> - 1" using w by (auto simp: advance_epoch_def)
  note E = qinv_epoch [OF I this]
  have "qinv (qjump t (Q_scan False (qs_list (qs s)) (- 1)) (qmem advance_epoch s))"
    by (rule qinv_jump [OF E]) (use q_add reader_listed [OF I] in \<open>auto simp: advance_epoch_def\<close>)
  then show ?thesis using q_add by simp
next
  case (q_free t safe)
  then show ?thesis using qinv_free [OF I] by simp
next
  case (q_adopt t safe)
  then show ?thesis using qinvD(1) [OF I] by (auto intro!: qinv_jump [OF I])
qed simp

lemma qinv_init: "qinv (qsys_init objs)"
  by (rule qinvI) (simp_all add: qsys_init_def qsbr_new_def)

text \<open>As long as the global epoch has not been advanced through its whole range, it does not wrap.\<close>

definition epoch_room :: "qsys \<Rightarrow> bool" where
  "epoch_room s \<longleftrightarrow> qs_advances (qs s) < 2 ^ 64 - 1"

lemma qstep_epoch:
  assumes "qstep early det s s'"
  shows "global_epoch (qs s') = global_epoch (qs s) \<and> qs_advances (qs s') = qs_advances (qs s) \<or>
    global_epoch (qs s') = global_epoch (qs s) + 1 \<and> qs_advances (qs s') = Suc (qs_advances (qs s))"
  using assms by cases (simp_all add: q_op_defs detach_current_thread_def adopt_orphans_def Let_def)

definition qinv_room :: "qsys \<Rightarrow> bool" where
  "qinv_room s \<longleftrightarrow> (epoch_room s \<longrightarrow> qinv s \<and> unat (global_epoch (qs s)) = Suc (qs_advances (qs s)))"

lemma qinv_room_step:
  assumes I: "qinv_room s" and st: "qstep False False s s'"
  shows "qinv_room s'"
  unfolding qinv_room_def
proof
  assume room: "epoch_room s'"
  then have "epoch_room s" using qstep_epoch [OF st] by (auto simp: epoch_room_def)
  then have inv: "qinv s" and g: "unat (global_epoch (qs s)) = Suc (qs_advances (qs s))" using I by (auto simp: qinv_room_def)
  have ok: "global_epoch (qs s') = global_epoch (qs s) \<and> qs_advances (qs s') = qs_advances (qs s) \<or>
    global_epoch (qs s') = global_epoch (qs s) + 1 \<and> qs_advances (qs s') = Suc (qs_advances (qs s)) \<and> global_epoch (qs s) \<noteq> - 1"
    using qstep_epoch [OF st] room g by (auto simp: epoch_room_def unsigned_minus_1_eq_mask mask_eq_exp_minus_1)
  then have "qinv s'" using qinv_step [OF inv st] by blast
  then show "qinv s' \<and> unat (global_epoch (qs s')) = Suc (qs_advances (qs s'))" using ok g unat_epoch_up [of "global_epoch (qs s)"] by auto
qed

interpretation qsbr: inv_system "\<lambda>s. s = qsys_init objs" "qstep False False" qinv_room for objs
proof
  show "qinv_room s" if "s = qsys_init objs" for s using qinv_init [of objs] that by (simp add: qinv_room_def qsys_init_def qsbr_new_def)
  show "qinv_room s'" if "qinv_room s" "qstep False False s s'" for s s' using qinv_room_step that by blast
qed

section \<open>Operations without interference\<close>

lemma qjump_qjump [simp]: "qjump t a (qjump t b s) = qjump t a s" "qmem f (qjump t a s) = qjump t a (qmem f s)"
  by (simp_all add: qjump_def qmem_def)

lemma scan_run:
  assumes "reach I (qstep e d) s" "qpcs s t = Q_scan b us m"
  shows "reach I (qstep e d) (qjump t (Q_scan b [] (fold (\<lambda>u. scan_visit (qs_state (qs s) u)) us m)) s)"
  using assms
proof (induction us arbitrary: m s)
  case Nil
  have "qjump t (Q_scan b [] m) s = s" using Nil(2) by (cases s) (auto simp: qjump_def fun_eq_iff)
  then show ?case using Nil by simp
next
  case (Cons u us)
  from reach_step [OF Cons.prems(1) q_visit [OF Cons.prems(2)]]
  show ?case using Cons.IH [of "qjump t (Q_scan b us (scan_visit (qs_state (qs s) u) m)) s"] by simp
qed

lemma attach_run:
  "reach I (qstep e d) s \<Longrightarrow> qpcs s t = Q_off \<Longrightarrow> t \<notin> set (qs_list (qs s)) \<Longrightarrow> reach I (qstep e d) (qjump t Q_out (qmem (attach_new t) s))"
  by (erule reach_step) (rule q_attach_new)

lemma take_run:
  "reach I (qstep e d) s \<Longrightarrow> qpcs s t = Q_in \<or> e \<and> qpcs s t = Q_out \<Longrightarrow> p \<in> shared s \<Longrightarrow>
    reach I (qstep e d) (s\<lparr>refs := (refs s)(t := insert p (refs s t))\<rparr>)"
  by (erule reach_step) (rule q_take)

lemma detach_run:
  "reach I (qstep e True) s \<Longrightarrow> qpcs s t = Q_out \<Longrightarrow>
    reach I (qstep e True) (qjump t Q_off ((qmem (detach_current_thread t) s)\<lparr>refs := (refs s)(t := {})\<rparr>))"
  by (erule reach_step) (rule q_detach, simp)

lemma enter_run:
  assumes "reach I (qstep e d) s" "qpcs s t = Q_out"
  shows "reach I (qstep e d) (qjump t Q_in (qmem (qs_enter t) s))"
proof -
  have "reach I (qstep e d) (qjump t (Q_enter (global_epoch (qs s))) s)"
    by (rule reach_step [OF assms(1)]) (rule q_load_epoch [OF assms(2)])
  from reach_step [OF this q_publish [of _ t "global_epoch (qs s)"]] show ?thesis
    by (simp add: qs_enter_def qmem_def qjump_def)
qed

lemma retire_run:
  assumes "reach I (qstep e d) s" "qpcs s t = Q_out" "p \<in> shared s"
  shows "reach I (qstep e d) (qjump t Q_out (qmem (qs_retire t p) (s\<lparr>shared := shared s - {p}\<rparr>)))"
  using reach_step [OF reach_step [OF assms(1) q_unlink [OF assms(2,3)]] q_retire [of _ t p]] by simp

text \<open>The first half of a tick, up to the second scan, and its end.\<close>

lemma tick_start_run:
  assumes "reach I (qstep e d) s" "qpcs s t = Q_out"
  shows "reach I (qstep e d) (qjump t (Q_scan False (qs_list (qs s)) (- 1)) (qmem (bump_epoch (min_active_epoch (qs s))) s))"
proof -
  have "reach I (qstep e d) (qjump t (Q_scan True (qs_list (qs s)) (- 1)) s)"
    by (rule reach_step [OF assms(1)]) (rule q_tick [OF assms(2)])
  from reach_step [OF scan_run [OF this, of t True "qs_list (qs s)" "- 1"] q_scanned [of _ t True]]
  have "reach I (qstep e d) (qjump t (Q_bump (min_active_epoch (qs s))) s)" by (simp add: min_active_epoch_def)
  from reach_step [OF this q_bump [of _ t "min_active_epoch (qs s)"]]
  have r: "reach I (qstep e d) (qjump t (if min_active_epoch (qs s) = global_epoch (qs s) then Q_add else Q_scan False (qs_list (qs s)) (- 1)) s)"
    by (simp split: if_splits)
  show ?thesis
  proof (cases "min_active_epoch (qs s) = global_epoch (qs s)")
    case True
    then show ?thesis using reach_step [OF r q_add [of _ t]] by (simp add: qmem_def qjump_def bump_epoch_def)
  next
    case False
    then show ?thesis using r by (simp add: qmem_def qjump_def bump_epoch_def)
  qed
qed

definition tick_tail :: "nat \<Rightarrow> u64 \<Rightarrow> qsbr \<Rightarrow> qsbr" where
  "tick_tail t safe q = (let q2 = free_old t safe q in if qs_orphans q2 \<noteq> [] then adopt_orphans safe q2 else q2)"

lemma tick_end_run:
  assumes "reach I (qstep e d) s" "qpcs s t = Q_scan False us m"
    "safe = scan_result (fold (\<lambda>u. scan_visit (qs_state (qs s) u)) us m) (qs s)"
  shows "reach I (qstep e d) (qjump t Q_out (qmem (tick_tail t safe) s))"
proof -
  from reach_step [OF scan_run [OF assms(1,2)] q_scanned [of _ t False]]
  have "reach I (qstep e d) (qjump t (Q_free safe) s)" using assms(3) by simp
  from reach_step [OF this q_free [of _ t safe]]
  have "reach I (qstep e d) (qjump t (Q_adopt safe) (qmem (free_old t safe) s))" by simp
  from reach_step [OF this q_adopt [of _ t safe]] show ?thesis
    by (auto simp: tick_tail_def Let_def qmem_def qjump_def split: if_splits)
qed

lemma tick_run:
  assumes "reach I (qstep e d) s" "qpcs s t = Q_out"
  shows "reach I (qstep e d) (qjump t Q_out (qmem (quiesce_tick t) s))"
proof -
  let ?q = "bump_epoch (min_active_epoch (qs s)) (qs s)"
  have l: "qs_list ?q = qs_list (qs s)" by (simp add: bump_epoch_def advance_epoch_def)
  have "reach I (qstep e d) (qjump t Q_out (qmem (tick_tail t (min_active_epoch ?q)) (qjump t (Q_scan False (qs_list (qs s)) (- 1)) (qmem (bump_epoch (min_active_epoch (qs s))) s))))"
    by (rule tick_end_run [OF tick_start_run [OF assms], of t "qs_list (qs s)" "- 1"]) (simp_all add: min_active_epoch_def [of ?q] l)
  then show ?thesis by (simp add: quiesce_tick_def tick_tail_def Let_def qmem_def qjump_def)
qed

section \<open>Results\<close>

lemmas q_run_defs = qsys_init_def qsbr_new_def q_op_defs scan_visit_def scan_result_def qs_enter_def bump_epoch_def min_active_epoch_def
  tick_tail_def adopt_orphans_def detach_current_thread_def quiesce_tick_def Let_def

lemma qsbr_frees:
  "\<exists>s. reach (\<lambda>s. s = qsys_init {5}) (qstep False False) s \<and> deleted (qs s) = [5] \<and> qs_advances (qs s) = 1"
proof -
  let ?R = "reach (\<lambda>s. s = qsys_init {5}) (qstep False False)"
  define s0 where "s0 = qsys_init {5}"
  define s1 where "s1 = qjump 0 Q_out (qmem (attach_new 0) s0)"
  define s2 where "s2 = qjump 0 Q_out (qmem (qs_retire 0 5) (s1\<lparr>shared := shared s1 - {5}\<rparr>))"
  define s3 where "s3 = qjump 0 Q_out (qmem (quiesce_tick 0) s2)"
  note defs = s0_def s1_def s2_def s3_def q_run_defs
  have "?R s0" by (rule reach_init) (simp add: s0_def)
  then have "?R s1" unfolding s1_def by (rule attach_run; simp add: defs)
  then have "?R s2" unfolding s2_def by (rule retire_run; simp add: defs)
  then have "?R s3" unfolding s3_def by (rule tick_run; simp add: defs)
  moreover have "deleted (qs s3) = [5] \<and> qs_advances (qs s3) = 1" by (simp add: defs)
  ultimately show ?thesis by blast
qed

lemma early_run:
  "\<exists>s. reach (\<lambda>s. s = qsys_init {5}) (qstep True False) s \<and> qpcs s 0 = Q_in \<and> 5 \<in> refs s 0 \<and> 5 \<in> set (deleted (qs s))"
proof -
  let ?R = "reach (\<lambda>s. s = qsys_init {5}) (qstep True False)"
  define s0 where "s0 = qsys_init {5}"
  define s1 where "s1 = qjump 0 Q_out (qmem (attach_new 0) s0)"
  define s2 where "s2 = qjump 1 Q_out (qmem (attach_new 1) s1)"
  define s3 where "s3 = s2\<lparr>refs := (refs s2)(0 := insert 5 (refs s2 0))\<rparr>"
  define s4 where "s4 = qjump 1 Q_out (qmem (qs_retire 1 5) (s3\<lparr>shared := shared s3 - {5}\<rparr>))"
  define s5 where "s5 = qjump 1 Q_out (qmem (quiesce_tick 1) s4)"
  define s6 where "s6 = qjump 0 Q_in (qmem (qs_enter 0) s5)"
  note defs = s0_def s1_def s2_def s3_def s4_def s5_def s6_def q_run_defs
  have "?R s0" by (rule reach_init) (simp add: s0_def)
  then have "?R s1" unfolding s1_def by (rule attach_run; simp add: defs)
  then have "?R s2" unfolding s2_def by (rule attach_run; simp add: defs)
  then have "?R s3" unfolding s3_def by (rule take_run; simp add: defs)
  then have "?R s4" unfolding s4_def by (rule retire_run; simp add: defs)
  then have "?R s5" unfolding s5_def by (rule tick_run; simp add: defs)
  then have "?R s6" unfolding s6_def by (rule enter_run; simp add: defs)
  moreover have "qpcs s6 0 = Q_in \<and> 5 \<in> refs s6 0 \<and> 5 \<in> set (deleted (qs s6))" by (simp add: defs)
  ultimately show ?thesis by blast
qed

lemma orphan_run:
  "\<exists>s. reach (\<lambda>s. s = qsys_init {5}) (qstep False True) s \<and> qpcs s 1 = Q_in \<and> 5 \<in> refs s 1 \<and> 5 \<in> set (deleted (qs s))"
proof -
  let ?R = "reach (\<lambda>s. s = qsys_init {5}) (qstep False True)"
  define s0 where "s0 = qsys_init {5}"
  define s1 where "s1 = qjump 0 Q_out (qmem (attach_new 0) s0)"
  define s2 where "s2 = qjump 1 Q_out (qmem (attach_new 1) s1)"
  define s3 where "s3 = qjump 2 Q_out (qmem (attach_new 2) s2)"
  define s4 where "s4 = qjump 0 (Q_scan False (qs_list (qs s3)) (- 1)) (qmem (bump_epoch (min_active_epoch (qs s3))) s3)"
  define s5 where "s5 = qjump 0 (Q_scan False [] (fold (\<lambda>u. scan_visit (qs_state (qs s4) u)) [2, 1, 0] (- 1))) s4"
  define s6 where "s6 = qjump 1 Q_in (qmem (qs_enter 1) s5)"
  define s7 where "s7 = s6\<lparr>refs := (refs s6)(1 := insert 5 (refs s6 1))\<rparr>"
  define s8 where "s8 = qjump 2 Q_out (qmem (qs_retire 2 5) (s7\<lparr>shared := shared s7 - {5}\<rparr>))"
  define s9 where "s9 = qjump 2 Q_out (qmem (quiesce_tick 2) s8)"
  define s10 where "s10 = qjump 2 Q_off ((qmem (detach_current_thread 2) s9)\<lparr>refs := (refs s9)(2 := {})\<rparr>)"
  define s11 where "s11 = qjump 0 Q_out (qmem (tick_tail 0 3) s10)"
  note defs = s0_def s1_def s2_def s3_def s4_def s5_def s6_def s7_def s8_def s9_def s10_def s11_def q_run_defs
  have "?R s0" by (rule reach_init) (simp add: s0_def)
  then have "?R s1" unfolding s1_def by (rule attach_run; simp add: defs)
  then have "?R s2" unfolding s2_def by (rule attach_run; simp add: defs)
  then have "?R s3" unfolding s3_def by (rule attach_run; simp add: defs)
  then have "?R s4" unfolding s4_def by (rule tick_start_run; simp add: defs)
  then have "?R s5" unfolding s5_def by (rule scan_run; simp add: defs)
  then have "?R s6" unfolding s6_def by (rule enter_run; simp add: defs)
  then have "?R s7" unfolding s7_def by (rule take_run; simp add: defs)
  then have "?R s8" unfolding s8_def by (rule retire_run; simp add: defs)
  then have "?R s9" unfolding s9_def by (rule tick_run; simp add: defs)
  then have "?R s10" unfolding s10_def by (rule detach_run; simp add: defs)
  then have "?R s11" unfolding s11_def by (rule tick_end_run [where us = "[]" and m = "- 1"]; simp add: defs)
  moreover have "qpcs s11 1 = Q_in \<and> 5 \<in> refs s11 1 \<and> 5 \<in> set (deleted (qs s11))" by (simp add: defs)
  ultimately show ?thesis by blast
qed

text \<open>C23. Threads that take references only between \<open>enter\<close> and \<open>leave\<close>, and do not detach, never hold a reference to an
  object that has been deleted, in any interleaving of their operations and ticks, as long as the 64-bit global epoch has been advanced fewer
  than \<open>2 ^ 64 - 1\<close> times (it wraps around after that) and with the accesses of each thread in program order.\<close>

theorem qsbr_no_use_after_free:
  assumes "reach (\<lambda>s. s = qsys_init objs) (qstep False False) s" and "qs_advances (qs s) < 2 ^ 64 - 1"
  shows "refs s t \<inter> set (deleted (qs s)) = {}"
proof -
  have "qinv s" using qsbr.reach_inv [OF assms(1)] assms(2) by (simp add: qinv_room_def epoch_room_def)
  then show ?thesis using qinvD(13) by blast
qed

theorem qsbr_no_use_after_free_witness:
  "\<exists>s. reach (\<lambda>s. s = qsys_init {5}) (qstep False False) s \<and> qs_advances (qs s) = 1 \<and> deleted (qs s) = [5] \<and> refs s 0 \<inter> set (deleted (qs s)) = {}"
proof -
  obtain s where s: "reach (\<lambda>s. s = qsys_init {5}) (qstep False False) s" "deleted (qs s) = [5]" "qs_advances (qs s) = 1" using qsbr_frees by blast
  then have "deleted (qs s) = [5] \<and> refs s 0 \<inter> set (deleted (qs s)) = {}"
    using qsbr_no_use_after_free [OF s(1), of 0] s(2,3) by simp
  then show ?thesis using s(1,3) by blast
qed

text \<open>\<open>EPoller::poll\<close> takes the header pointers from \<open>epoll_wait\<close> before it calls \<open>enter\<close>: in between, another worker
  can unlink, retire and delete a header, which the poller then uses inside its critical section.\<close>

theorem reference_before_enter:
  "\<exists>s t p. reach (\<lambda>s. s = qsys_init {5}) (qstep True False) s \<and> qpcs s t = Q_in \<and> p \<in> refs s t \<and> p \<in> set (deleted (qs s))"
  using early_run by blast

text \<open>With detaching threads the reclamation itself is unsafe: a thread that has seen no active state reads the
  global epoch after another thread has advanced it, and adopts an orphan that was retired in between and
  is still in use.\<close>

theorem orphan_adopted_in_use:
  "\<exists>s t p. reach (\<lambda>s. s = qsys_init {5}) (qstep False True) s \<and> qpcs s t = Q_in \<and> p \<in> refs s t \<and> p \<in> set (deleted (qs s))"
  using orphan_run by blast

end
