(* ===== verification/Cancel_Tree.thy ===== *)
theory Cancel_Tree
  imports Uvent_Prelude "HOL-Library.Monad_Syntax"
begin

text \<open>
  Cancellation states and tasks (\<open>sync/CancelState.h\<close>, \<open>tasks/TaskState.h\<close>, \<open>tasks/Task.cpp\<close>, and the handles of
  \<open>sync/AsyncCancellation.h\<close> and \<open>tasks/Task.h\<close>): reference-counted nodes linked into a tree through parent, first child
  and sibling pointers. Memory is a map from addresses to nodes; \<open>None\<close> as the result of an operation is an access
  to a node that is not allocated, or a loop that does not end. Lists of waiters are the sequences that
  \<open>WaitList\<close> refines; waking one appends it to \<open>cwoken\<close>. \<open>ckicks\<close> are the tasks in the
  workers' cancel-kick queues, \<open>chooked\<close> those whose innermost frame had its cancel hook run. \<open>release\<close> is two steps: the one that takes the count to zero, and
  the later one that unlinks the node under its parent's lock and deletes it; between them the node is still linked, with count zero, and in \<open>cdying\<close>. The counters
  have 32 bits and wrap. Addresses grow with allocation; an address is not reused.
\<close>

section \<open>Nodes\<close>

type_synonym cid = nat

record cancel_state =
  cs_refs :: u32
  cs_requested :: bool
  cs_live :: u32
  cs_parent :: "cid option"
  cs_first :: "cid option"
  cs_prev :: "cid option"
  cs_next :: "cid option"
  cs_cancel_waiters :: "nat list"
  cs_join_waiters :: "nat list"
  cs_is_task :: bool
  cs_status :: bool
  cs_owner_tid :: int
  cs_kick_pending :: bool
  cs_done_waiters :: "nat list"

record csys =
  cmem :: "cid \<Rightarrow> cancel_state option"
  cfresh :: cid
  cwoken :: "nat list"
  ckicks :: "cid list"
  chooked :: "cid list"
  cdying :: "cid list"

definition fresh_state :: "bool \<Rightarrow> int \<Rightarrow> cancel_state" where
  "fresh_state task tid = \<lparr>cs_refs = 1, cs_requested = False, cs_live = 0, cs_parent = None, cs_first = None, cs_prev = None,
     cs_next = None, cs_cancel_waiters = [], cs_join_waiters = [], cs_is_task = task, cs_status = False, cs_owner_tid = tid,
     cs_kick_pending = False, cs_done_waiters = []\<rparr>"

definition new_state :: "bool \<Rightarrow> int \<Rightarrow> csys \<Rightarrow> cid \<times> csys" where
  "new_state task tid s = (cfresh s, s\<lparr>cmem := (cmem s)(cfresh s \<mapsto> fresh_state task tid), cfresh := Suc (cfresh s)\<rparr>)"

definition cupd :: "cid \<Rightarrow> (cancel_state \<Rightarrow> cancel_state) \<Rightarrow> csys \<Rightarrow> csys option" where
  "cupd c f s = (case cmem s c of None \<Rightarrow> None | Some x \<Rightarrow> Some (s\<lparr>cmem := (cmem s)(c \<mapsto> f x)\<rparr>))"

definition cs_add_ref :: "cid \<Rightarrow> csys \<Rightarrow> csys option" where
  "cs_add_ref c s = cupd c (\<lambda>x. x\<lparr>cs_refs := cs_refs x + 1\<rparr>) s"

definition cs_try_add_ref :: "cid \<Rightarrow> csys \<Rightarrow> (bool \<times> csys) option" where
  "cs_try_add_ref c s = do {
     x \<leftarrow> cmem s c;
     if cs_refs x \<noteq> 0 then do { s1 \<leftarrow> cs_add_ref c s; Some (True, s1) } else Some (False, s) }"

section \<open>The tree\<close>

definition cancel_link :: "cid \<Rightarrow> cid \<Rightarrow> csys \<Rightarrow> csys option" where
  "cancel_link p c s = do {
     s \<leftarrow> cs_add_ref p s;
     s \<leftarrow> cupd c (\<lambda>x. x\<lparr>cs_parent := Some p\<rparr>) s;
     x \<leftarrow> cmem s p;
     s \<leftarrow> cupd c (\<lambda>y. y\<lparr>cs_next := cs_first x, cs_prev := None\<rparr>) s;
     s \<leftarrow> (case cs_first x of None \<Rightarrow> Some s | Some f \<Rightarrow> cupd f (\<lambda>y. y\<lparr>cs_prev := Some c\<rparr>) s);
     s \<leftarrow> cupd p (\<lambda>y. y\<lparr>cs_first := Some c\<rparr>) s;
     x \<leftarrow> cmem s p;
     if cs_requested x then cupd c (\<lambda>y. y\<lparr>cs_requested := True\<rparr>) s else Some s }"

definition unlink_from_parent :: "cid \<Rightarrow> csys \<Rightarrow> csys option" where
  "unlink_from_parent c s = do {
     x \<leftarrow> cmem s c;
     case cs_parent x of None \<Rightarrow> Some s
     | Some p \<Rightarrow> do {
         s \<leftarrow> (case cs_prev x of Some v \<Rightarrow> cupd v (\<lambda>y. y\<lparr>cs_next := cs_next x\<rparr>) s | None \<Rightarrow> cupd p (\<lambda>y. y\<lparr>cs_first := cs_next x\<rparr>) s);
         s \<leftarrow> (case cs_next x of Some n \<Rightarrow> cupd n (\<lambda>y. y\<lparr>cs_prev := cs_prev x\<rparr>) s | None \<Rightarrow> Some s);
         cupd c (\<lambda>y. y\<lparr>cs_prev := None, cs_next := None\<rparr>) s } }"

definition dealloc :: "cid \<Rightarrow> csys \<Rightarrow> csys" where
  "dealloc c s = s\<lparr>cmem := (cmem s)(c := None)\<rparr>"

text \<open>\<open>release\<close> up to the decrement; whoever takes the count to zero has to delete the node.\<close>

definition release_ref :: "cid \<Rightarrow> csys \<Rightarrow> csys option" where
  "release_ref c s = do {
     x \<leftarrow> cmem s c;
     s \<leftarrow> cupd c (\<lambda>y. y\<lparr>cs_refs := cs_refs y - 1\<rparr>) s;
     Some (if cs_refs x \<noteq> 1 then s else s\<lparr>cdying := cdying s @ [c]\<rparr>) }"

text \<open>The rest of it: unlink, delete. The result is the parent, which is released next.\<close>

definition delete_node :: "cid \<Rightarrow> csys \<Rightarrow> (cid option \<times> csys) option" where
  "delete_node c s = do {
     s \<leftarrow> unlink_from_parent c s;
     y \<leftarrow> cmem s c;
     Some (cs_parent y, (dealloc c s)\<lparr>cdying := remove1 c (cdying s)\<rparr>) }"

section \<open>Cancellation\<close>

definition wake_cancel :: "cid \<Rightarrow> csys \<Rightarrow> csys option" where
  "wake_cancel c s = do {
     x \<leftarrow> cmem s c;
     s \<leftarrow> cupd c (\<lambda>y. y\<lparr>cs_cancel_waiters := []\<rparr>) s;
     Some (s\<lparr>cwoken := cwoken s @ cs_cancel_waiters x\<rparr>) }"

text \<open>\<open>kick\<close> in the build with per-thread pollers; without it (\<open>reuse = False\<close>) it does nothing. \<open>n\<close> is the number of
  worker threads.\<close>

definition kick :: "bool \<Rightarrow> int \<Rightarrow> cid \<Rightarrow> csys \<Rightarrow> csys option" where
  "kick reuse n c s = do {
     x \<leftarrow> cmem s c;
     if \<not> reuse \<or> cs_owner_tid x < 0 \<or> cs_owner_tid x \<ge> n then Some s
     else if cs_kick_pending x then Some s
     else do {
       s \<leftarrow> cupd c (\<lambda>y. y\<lparr>cs_kick_pending := True\<rparr>) s;
       (ok, s) \<leftarrow> cs_try_add_ref c s;
       if \<not> ok then cupd c (\<lambda>y. y\<lparr>cs_kick_pending := False\<rparr>) s
       else Some (s\<lparr>ckicks := ckicks s @ [c]\<rparr>) } }"

text \<open>The part of \<open>request_cancel\<close> before the children, and the loop over the children (each with the whole of
  \<open>request_cancel\<close>).\<close>

definition mark_cancelled :: "bool \<Rightarrow> int \<Rightarrow> cid \<Rightarrow> csys \<Rightarrow> csys option" where
  "mark_cancelled reuse n c s = do {
     s \<leftarrow> cupd c (\<lambda>y. y\<lparr>cs_requested := True\<rparr>) s;
     s \<leftarrow> wake_cancel c s;
     x \<leftarrow> cmem s c;
     if cs_is_task x then kick reuse n c s else Some s }"

partial_function (option) cancel_children :: "bool \<Rightarrow> int \<Rightarrow> cid option \<Rightarrow> csys \<Rightarrow> csys option" where
  "cancel_children reuse n co s = (case co of None \<Rightarrow> Some s
     | Some c \<Rightarrow> do {
         x \<leftarrow> cmem s c;
         s \<leftarrow> (if cs_requested x then Some s
              else do { s \<leftarrow> mark_cancelled reuse n c s; y \<leftarrow> cmem s c; cancel_children reuse n (cs_first y) s });
         y \<leftarrow> cmem s c;
         cancel_children reuse n (cs_next y) s })"

definition request_cancel :: "bool \<Rightarrow> int \<Rightarrow> cid \<Rightarrow> csys \<Rightarrow> csys option" where
  "request_cancel reuse n c s = do {
     x \<leftarrow> cmem s c;
     if cs_requested x then Some s
     else do { s \<leftarrow> mark_cancelled reuse n c s; y \<leftarrow> cmem s c; cancel_children reuse n (cs_first y) s } }"

definition process_kick :: "cid \<Rightarrow> csys \<Rightarrow> csys option" where
  "process_kick c s = do {
     s \<leftarrow> cupd c (\<lambda>y. y\<lparr>cs_kick_pending := False\<rparr>) s;
     x \<leftarrow> cmem s c;
     release_ref c (if cs_status x then s else s\<lparr>chooked := chooked s @ [c]\<rparr>) }"

section \<open>Live tasks\<close>

partial_function (option) retain_live_chain :: "cid option \<Rightarrow> csys \<Rightarrow> csys option" where
  "retain_live_chain co s = (case co of None \<Rightarrow> Some s
     | Some c \<Rightarrow> do { x \<leftarrow> cmem s c; s \<leftarrow> cupd c (\<lambda>y. y\<lparr>cs_live := cs_live y + 1\<rparr>) s; retain_live_chain (cs_parent x) s })"

definition wake_join_if_drained :: "cid \<Rightarrow> csys \<Rightarrow> csys option" where
  "wake_join_if_drained c s = do {
     x \<leftarrow> cmem s c;
     if cs_join_waiters x = [] \<or> cs_live x \<noteq> 0 then Some s
     else do {
       s \<leftarrow> cupd c (\<lambda>y. y\<lparr>cs_join_waiters := []\<rparr>) s;
       Some (s\<lparr>cwoken := cwoken s @ cs_join_waiters x\<rparr>) } }"

partial_function (option) drop_live_chain :: "cid option \<Rightarrow> csys \<Rightarrow> csys option" where
  "drop_live_chain co s = (case co of None \<Rightarrow> Some s
     | Some c \<Rightarrow> do {
         x \<leftarrow> cmem s c;
         s \<leftarrow> cupd c (\<lambda>y. y\<lparr>cs_live := cs_live y - 1\<rparr>) s;
         s \<leftarrow> (if cs_live x = 1 then wake_join_if_drained c s else Some s);
         drop_live_chain (cs_parent x) s })"

definition complete :: "cid \<Rightarrow> csys \<Rightarrow> csys option" where
  "complete c s = do {
     x \<leftarrow> cmem s c;
     s \<leftarrow> cupd c (\<lambda>y. y\<lparr>cs_status := True, cs_done_waiters := []\<rparr>) s;
     s \<leftarrow> drop_live_chain (Some c) (s\<lparr>cwoken := cwoken s @ cs_done_waiters x\<rparr>);
     release_ref c s }"

section \<open>Handles\<close>

definition new_source :: "cid option \<Rightarrow> csys \<Rightarrow> (cid \<times> csys) option" where
  "new_source parent s = (case new_state False (- 1) s of (c, s1) \<Rightarrow>
     (case parent of None \<Rightarrow> Some (c, s1) | Some p \<Rightarrow> do { s2 \<leftarrow> cancel_link p c s1; Some (c, s2) }))"

definition spawn_under :: "cid option \<Rightarrow> int \<Rightarrow> csys \<Rightarrow> (cid \<times> csys) option" where
  "spawn_under parent tid s = (case new_state True tid s of (c, s1) \<Rightarrow> do {
     s2 \<leftarrow> (case parent of None \<Rightarrow> Some s1 | Some p \<Rightarrow> cancel_link p c s1);
     s3 \<leftarrow> retain_live_chain (Some c) s2;
     s4 \<leftarrow> cs_add_ref c s3;
     Some (c, s4) })"

text \<open>Copy-assignment of a token, and the destructor of a \<open>TaskScope\<close>.\<close>

definition assign_token :: "cid option \<Rightarrow> cid option \<Rightarrow> csys \<Rightarrow> csys option" where
  "assign_token old new s = do {
     s \<leftarrow> (case new of None \<Rightarrow> Some s | Some c \<Rightarrow> cs_add_ref c s);
     case old of None \<Rightarrow> Some s | Some c \<Rightarrow> release_ref c s }"

definition scope_destroy :: "bool \<Rightarrow> int \<Rightarrow> cid \<Rightarrow> csys \<Rightarrow> csys option" where
  "scope_destroy reuse n c s = do { s \<leftarrow> request_cancel reuse n c s; release_ref c s }"

section \<open>Waiting\<close>

text \<open>The operations of \<open>CancelOp\<close>, and the awaiters of a token, of a join handle and of a scope: the result says whether
  the caller suspends. \<open>own\<close> is the cancellation of the waiting task itself, checked first by \<open>OpWait::await_suspend\<close>.\<close>

definition cancel_attach :: "cid \<Rightarrow> nat \<Rightarrow> csys \<Rightarrow> (bool \<times> csys) option" where
  "cancel_attach c w s = do {
     s \<leftarrow> cupd c (\<lambda>y. y\<lparr>cs_cancel_waiters := cs_cancel_waiters y @ [w]\<rparr>) s;
     x \<leftarrow> cmem s c;
     Some (\<not> cs_requested x, s) }"

definition cancel_detach :: "cid \<Rightarrow> nat \<Rightarrow> csys \<Rightarrow> (bool \<times> csys) option" where
  "cancel_detach c w s = do {
     x \<leftarrow> cmem s c;
     s \<leftarrow> cupd c (\<lambda>y. y\<lparr>cs_cancel_waiters := remove1 w (cs_cancel_waiters y)\<rparr>) s;
     Some (w \<in> set (cs_cancel_waiters x), s) }"

definition await_cancel :: "bool \<Rightarrow> cid \<Rightarrow> nat \<Rightarrow> csys \<Rightarrow> (bool \<times> csys) option" where
  "await_cancel own c w s = do {
     x \<leftarrow> cmem s c;
     if cs_requested x \<or> own then Some (False, s)
     else do {
       (ok, s) \<leftarrow> cancel_attach c w s;
       if ok then Some (True, s) else do { (removed, s) \<leftarrow> cancel_detach c w s; Some (\<not> removed, s) } } }"

definition await_done :: "cid \<Rightarrow> nat \<Rightarrow> csys \<Rightarrow> (bool \<times> csys) option" where
  "await_done c w s = do {
     x \<leftarrow> cmem s c;
     if cs_status x then Some (False, s)
     else do {
       s \<leftarrow> cupd c (\<lambda>y. y\<lparr>cs_done_waiters := cs_done_waiters y @ [w]\<rparr>) s;
       y \<leftarrow> cmem s c;
       if cs_status y \<and> w \<in> set (cs_done_waiters y)
       then do { s \<leftarrow> cupd c (\<lambda>y. y\<lparr>cs_done_waiters := remove1 w (cs_done_waiters y)\<rparr>) s; Some (False, s) }
       else Some (True, s) } }"

definition await_join :: "cid \<Rightarrow> nat \<Rightarrow> csys \<Rightarrow> (bool \<times> csys) option" where
  "await_join c w s = do {
     x \<leftarrow> cmem s c;
     if cs_live x = 0 then Some (False, s)
     else do {
       s \<leftarrow> cupd c (\<lambda>y. y\<lparr>cs_join_waiters := cs_join_waiters y @ [w]\<rparr>) s;
       y \<leftarrow> cmem s c;
       if cs_live y = 0 \<and> w \<in> set (cs_join_waiters y)
       then do { s \<leftarrow> cupd c (\<lambda>y. y\<lparr>cs_join_waiters := remove1 w (cs_join_waiters y)\<rparr>) s; Some (False, s) }
       else Some (True, s) } }"

section \<open>Doubly linked siblings\<close>

fun dll :: "(nat \<Rightarrow> nat option) \<Rightarrow> (nat \<Rightarrow> nat option) \<Rightarrow> nat option \<Rightarrow> nat list \<Rightarrow> bool" where
  "dll pv nx p [] = True"
| "dll pv nx p [a] = (pv a = p \<and> nx a = None)"
| "dll pv nx p (a # b # cs) = (pv a = p \<and> nx a = Some b \<and> dll pv nx (Some a) (b # cs))"

definition hd_opt :: "'a list \<Rightarrow> 'a option" where
  "hd_opt xs = (case xs of [] \<Rightarrow> None | a # _ \<Rightarrow> Some a)"

lemma hd_opt_simps [simp]: "hd_opt [] = None" "hd_opt (a # xs) = Some a"
  by (simp_all add: hd_opt_def)

lemma dll_Cons: "dll pv nx p (a # cs) \<longleftrightarrow> pv a = p \<and> nx a = hd_opt cs \<and> dll pv nx (Some a) cs"
  by (cases cs) auto

lemma dll_frame: "(\<And>a. a \<in> set cs \<Longrightarrow> pv' a = pv a \<and> nx' a = nx a) \<Longrightarrow> dll pv' nx' p cs = dll pv nx p cs"
  by (induction cs arbitrary: p) (auto simp: dll_Cons)

text \<open>Removing a node: its neighbours are linked to each other.\<close>

lemma dll_remove:
  assumes "dll pv nx p (as @ c # bs)" "distinct (as @ c # bs)"
  shows "pv c = (if as = [] then p else Some (last as)) \<and> nx c = hd_opt bs \<and>
    dll (case hd_opt bs of None \<Rightarrow> pv | Some b \<Rightarrow> pv(b := pv c)) (if as = [] then nx else nx(last as := nx c)) p (as @ bs)"
  using assms
proof (induction as arbitrary: p)
  case Nil
  show ?case
  proof (cases bs)
    case (Cons b ds)
    have "dll (pv(b := pv c)) nx (Some b) ds = dll pv nx (Some b) ds"
      by (rule dll_frame) (use Nil Cons in auto)
    then show ?thesis using Nil Cons by (auto simp: dll_Cons fun_upd_same fun_upd_other simp del: fun_upd_apply)
  qed (use Nil in \<open>auto simp: dll_Cons\<close>)
next
  case (Cons a as)
  let ?pv = "case hd_opt bs of None \<Rightarrow> pv | Some b \<Rightarrow> pv(b := pv c)"
  have a: "pv a = p" "nx a = hd_opt (as @ c # bs)" "a \<notin> set (as @ c # bs)" using Cons.prems by (auto simp: dll_Cons)
  have pva: "?pv a = p" using a(1,3) by (cases bs) auto
  have IH: "pv c = (if as = [] then Some a else Some (last as)) \<and> nx c = hd_opt bs \<and>
      dll ?pv (if as = [] then nx else nx(last as := nx c)) (Some a) (as @ bs)"
    using Cons.IH [of "Some a"] Cons.prems by (simp add: dll_Cons)
  show ?case
  proof (cases "as = []")
    case True
    have "dll ?pv (nx(a := nx c)) (Some a) bs = dll ?pv nx (Some a) bs"
      by (rule dll_frame) (use a(3) True in auto)
    then show ?thesis using IH True pva by (auto simp: dll_Cons fun_upd_same simp del: fun_upd_apply)
  next
    case False
    then have "last as \<noteq> a" using a(3) last_in_set [of as] by auto
    moreover have "nx a = hd_opt (as @ bs)" using a(2) False by (cases as) auto
    ultimately show ?thesis using IH False pva by (auto simp: dll_Cons fun_upd_other simp del: fun_upd_apply)
  qed
qed

text \<open>Inserting at the front.\<close>

lemma dll_push:
  assumes "dll pv nx None cs" "distinct cs" "c \<notin> set cs"
  shows "dll (case hd_opt cs of None \<Rightarrow> pv(c := None) | Some b \<Rightarrow> (pv(c := None))(b := Some c)) (nx(c := hd_opt cs)) None (c # cs)"
proof (cases cs)
  case (Cons b ds)
  have "dll ((pv(c := None))(b := Some c)) (nx(c := Some b)) (Some b) ds = dll pv nx (Some b) ds"
    by (rule dll_frame) (use assms Cons in auto)
  then show ?thesis using assms Cons by (auto simp: dll_Cons fun_upd_same fun_upd_other simp del: fun_upd_apply)
qed simp

section \<open>Invariant\<close>

definition mprev :: "(cid \<Rightarrow> cancel_state option) \<Rightarrow> cid \<Rightarrow> cid option" where "mprev m c = (case m c of None \<Rightarrow> None | Some x \<Rightarrow> cs_prev x)"
definition mnext :: "(cid \<Rightarrow> cancel_state option) \<Rightarrow> cid \<Rightarrow> cid option" where "mnext m c = (case m c of None \<Rightarrow> None | Some x \<Rightarrow> cs_next x)"
definition mfirst :: "(cid \<Rightarrow> cancel_state option) \<Rightarrow> cid \<Rightarrow> cid option" where "mfirst m c = (case m c of None \<Rightarrow> None | Some x \<Rightarrow> cs_first x)"
definition mparent :: "(cid \<Rightarrow> cancel_state option) \<Rightarrow> cid \<Rightarrow> cid option" where "mparent m c = (case m c of None \<Rightarrow> None | Some x \<Rightarrow> cs_parent x)"
definition mrefs :: "(cid \<Rightarrow> cancel_state option) \<Rightarrow> cid \<Rightarrow> u32" where "mrefs m c = (case m c of None \<Rightarrow> 0 | Some x \<Rightarrow> cs_refs x)"

lemma acc_upd [simp]:
  "mprev (m(c \<mapsto> x)) = (mprev m)(c := cs_prev x)" "mnext (m(c \<mapsto> x)) = (mnext m)(c := cs_next x)"
  "mfirst (m(c \<mapsto> x)) = (mfirst m)(c := cs_first x)" "mparent (m(c \<mapsto> x)) = (mparent m)(c := cs_parent x)"
  "mrefs (m(c \<mapsto> x)) = (mrefs m)(c := cs_refs x)"
  "mprev (m(c := None)) = (mprev m)(c := None)" "mnext (m(c := None)) = (mnext m)(c := None)"
  "mfirst (m(c := None)) = (mfirst m)(c := None)" "mparent (m(c := None)) = (mparent m)(c := None)"
  "mrefs (m(c := None)) = (mrefs m)(c := 0)"
  by (auto simp: fun_eq_iff mprev_def mnext_def mfirst_def mparent_def mrefs_def)

lemma acc_Some [simp]:
  "m c = Some x \<Longrightarrow> mprev m c = cs_prev x" "m c = Some x \<Longrightarrow> mnext m c = cs_next x" "m c = Some x \<Longrightarrow> mfirst m c = cs_first x"
  "m c = Some x \<Longrightarrow> mparent m c = cs_parent x" "m c = Some x \<Longrightarrow> mrefs m c = cs_refs x"
  by (simp_all add: mprev_def mnext_def mfirst_def mparent_def mrefs_def)

text \<open>\<open>ch\<close> gives the children of every node. A child is younger than its parent.\<close>

definition tree_ok :: "(cid \<Rightarrow> cancel_state option) \<Rightarrow> (cid \<Rightarrow> cid list) \<Rightarrow> bool" where
  "tree_ok m ch \<longleftrightarrow>
     (\<forall>p\<in>dom m. mfirst m p = hd_opt (ch p) \<and> dll (mprev m) (mnext m) None (ch p) \<and> distinct (ch p) \<and> (\<forall>c\<in>set (ch p). c \<in> dom m \<and> mparent m c = Some p)) \<and>
     (\<forall>c q. mparent m c = Some q \<longrightarrow> q < c \<and> q \<in> dom m \<and> c \<in> set (ch q)) \<and>
     (\<forall>p. p \<notin> dom m \<longrightarrow> ch p = [])"

definition csys_ok :: "csys \<Rightarrow> (cid \<Rightarrow> cid list) \<Rightarrow> bool" where
  "csys_ok s ch \<longleftrightarrow> tree_ok (cmem s) ch \<and> (\<forall>c\<in>dom (cmem s). c < cfresh s)"

text \<open>The count of a node is that of the references to it: the children, and \<open>E\<close>, those from outside. A node without references is about to be deleted.\<close>

definition counts_ok :: "(cid \<Rightarrow> nat) \<Rightarrow> csys \<Rightarrow> (cid \<Rightarrow> cid list) \<Rightarrow> bool" where
  "counts_ok E s ch \<longleftrightarrow> (\<forall>q. E q + length (ch q) < 2 ^ 32) \<and>
     (\<forall>q x. cmem s q = Some x \<longrightarrow> cs_refs x = of_nat (E q + length (ch q)) \<and> (q \<in> set (cdying s) \<longleftrightarrow> E q + length (ch q) = 0)) \<and>
     (\<forall>q. q \<notin> dom (cmem s) \<longrightarrow> E q = 0) \<and> distinct (cdying s) \<and> set (cdying s) \<subseteq> dom (cmem s)"

lemma counts_okD:
  assumes "counts_ok E s ch"
  shows "E q + length (ch q) < 2 ^ 32" "cmem s q = Some x \<Longrightarrow> cs_refs x = of_nat (E q + length (ch q))"
    "cmem s q = Some x \<Longrightarrow> q \<in> set (cdying s) \<longleftrightarrow> E q + length (ch q) = 0" "q \<notin> dom (cmem s) \<Longrightarrow> E q = 0" "distinct (cdying s)"
    "q \<in> set (cdying s) \<Longrightarrow> q \<in> dom (cmem s)" "0 < E q \<Longrightarrow> q \<in> dom (cmem s)"
proof -
  note R = assms [unfolded counts_ok_def]
  show "E q + length (ch q) < 2 ^ 32" "distinct (cdying s)" using R by simp_all
  show "cs_refs x = of_nat (E q + length (ch q))" "q \<in> set (cdying s) \<longleftrightarrow> E q + length (ch q) = 0" if "cmem s q = Some x" using R that by simp_all
  show z: "q \<notin> dom (cmem s) \<Longrightarrow> E q = 0" using R by blast
  show "q \<in> dom (cmem s)" if "q \<in> set (cdying s)" using R that by blast
  show "q \<in> dom (cmem s)" if "0 < E q" using z that by (cases "q \<in> dom (cmem s)") simp_all
qed

lemma counts_okI:
  assumes "\<And>q. E q + length (ch q) < 2 ^ 32" "\<And>q x. cmem s q = Some x \<Longrightarrow> cs_refs x = of_nat (E q + length (ch q))"
    "\<And>q x. cmem s q = Some x \<Longrightarrow> q \<in> set (cdying s) \<longleftrightarrow> E q + length (ch q) = 0" "\<And>q. q \<notin> dom (cmem s) \<Longrightarrow> E q = 0" "distinct (cdying s)"
    "\<And>q. q \<in> set (cdying s) \<Longrightarrow> q \<in> dom (cmem s)"
  shows "counts_ok E s ch"
  unfolding counts_ok_def by (intro conjI allI impI subsetI; rule assms; assumption)

text \<open>A 32-bit count that does not overflow.\<close>

lemma count_word: "n < 2 ^ 32 \<Longrightarrow> (of_nat n :: u32) = 0 \<longleftrightarrow> n = 0" "n < 2 ^ 32 \<Longrightarrow> (of_nat n :: u32) = 1 \<longleftrightarrow> n = 1"
  "n < 2 ^ 32 \<Longrightarrow> unat (of_nat n :: u32) = n"
proof -
  assume n: "n < 2 ^ 32"
  then show u: "unat (of_nat n :: u32) = n" by (simp add: unat_of_nat)
  show "(of_nat n :: u32) = 0 \<longleftrightarrow> n = 0" unfolding word_unat_eq_iff u by simp
  show "(of_nat n :: u32) = 1 \<longleftrightarrow> n = 1" unfolding word_unat_eq_iff u by simp
qed

lemma tree_okD:
  assumes "tree_ok m ch"
  shows "m p = Some x \<Longrightarrow> cs_first x = hd_opt (ch p)" "m p = Some x \<Longrightarrow> dll (mprev m) (mnext m) None (ch p)"
    "m p = Some x \<Longrightarrow> distinct (ch p)" "c \<in> set (ch p) \<Longrightarrow> p < c" "set (ch p) \<subseteq> dom m"
    "c \<in> set (ch p) \<Longrightarrow> c \<in> dom m \<and> mparent m c = Some p"
    "mparent m c = Some q \<Longrightarrow> q < c \<and> q \<in> dom m \<and> c \<in> set (ch q)" "p \<notin> dom m \<Longrightarrow> ch p = []"
proof -
  note T = assms [unfolded tree_ok_def]
  show "m p = Some x \<Longrightarrow> cs_first x = hd_opt (ch p)" "m p = Some x \<Longrightarrow> dll (mprev m) (mnext m) None (ch p)"
    "m p = Some x \<Longrightarrow> distinct (ch p)"
    using T acc_Some [of m p x] by (metis domI)+
  show kid: "c \<in> set (ch p) \<Longrightarrow> c \<in> dom m \<and> mparent m c = Some p" for c
    using T by (metis empty_iff empty_set)
  then show "set (ch p) \<subseteq> dom m" by blast
  show "c \<in> set (ch p) \<Longrightarrow> p < c" using T kid [of c] by blast
  show "mparent m c = Some q \<Longrightarrow> q < c \<and> q \<in> dom m \<and> c \<in> set (ch q)" "p \<notin> dom m \<Longrightarrow> ch p = []"
    using T by blast+
qed

lemma tree_okI:
  assumes "\<And>p. p \<in> dom m \<Longrightarrow> mfirst m p = hd_opt (ch p) \<and> dll (mprev m) (mnext m) None (ch p) \<and> distinct (ch p)"
    "\<And>p c. c \<in> set (ch p) \<Longrightarrow> c \<in> dom m \<and> mparent m c = Some p"
    "\<And>c q. mparent m c = Some q \<Longrightarrow> q < c \<and> q \<in> dom m \<and> c \<in> set (ch q)" "\<And>p. p \<notin> dom m \<Longrightarrow> ch p = []"
  shows "tree_ok m ch"
  unfolding tree_ok_def using assms by metis

text \<open>Changes that keep the pointers.\<close>

lemma tree_ok_same:
  assumes "tree_ok m ch" "mprev m' = mprev m" "mnext m' = mnext m" "mfirst m' = mfirst m" "mparent m' = mparent m" "dom m' = dom m"
  shows "tree_ok m' ch"
  using assms unfolding tree_ok_def by metis

lemma tree_ok_write:
  assumes T: "tree_ok m ch" and x: "m c = Some x"
    and y: "cs_prev y = cs_prev x" "cs_next y = cs_next x" "cs_first y = cs_first x" "cs_parent y = cs_parent x"
  shows "tree_ok (m(c \<mapsto> y)) ch"
  by (rule tree_ok_same [OF T]) (use x y in \<open>auto simp: fun_upd_idem\<close>)

lemma csys_ok_write:
  assumes "csys_ok s ch" "cmem s c = Some x" "cs_prev y = cs_prev x" "cs_next y = cs_next x" "cs_first y = cs_first x" "cs_parent y = cs_parent x"
  shows "csys_ok (s\<lparr>cmem := (cmem s)(c \<mapsto> y)\<rparr>) ch"
  using tree_ok_write [of "cmem s" ch c x y] assms by (auto simp: csys_ok_def)

lemma children_le:
  assumes "csys_ok s ch"
  shows "length (ch q) \<le> card (dom (cmem s))" "finite (dom (cmem s))"
proof -
  have T: "tree_ok (cmem s) ch" and b: "dom (cmem s) \<subseteq> {..<cfresh s}" using assms by (auto simp: csys_ok_def)
  show fin: "finite (dom (cmem s))" using finite_subset [OF b] by simp
  have "distinct (ch q)" using tree_okD(3) [OF T, of q] tree_okD(8) [OF T, of q] by (cases "cmem s q") (simp_all add: domIff)
  then show "length (ch q) \<le> card (dom (cmem s))" using card_mono [OF fin tree_okD(5) [OF T, of q]] by (simp add: distinct_card)
qed

lemma siblings_apart:
  assumes "tree_ok m ch" "a \<in> set (ch p)" "a \<in> set (ch q)"
  shows "p = q"
  using tree_okD(6) [OF assms(1,2)] tree_okD(6) [OF assms(1,3)] by simp

text \<open>The tree without the childless node \<open>c\<close>, once its neighbours are linked to each other.\<close>

lemma tree_ok_unlinked:
  assumes T: "tree_ok m ch" and c: "c \<in> dom m" "ch c = []" "ch p = as @ c # bs"
    and m3: "dom m3 = dom m" "mparent m3 = mparent m"
      "mfirst m3 = (if as = [] then (mfirst m)(p := hd_opt bs) else mfirst m)"
      "mprev m3 = (case hd_opt bs of None \<Rightarrow> mprev m | Some b \<Rightarrow> (mprev m)(b := mprev m c))(c := None)"
      "mnext m3 = (if as = [] then mnext m else (mnext m)(last as := mnext m c))(c := None)"
  shows "tree_ok (m3(c := None)) (ch(p := as @ bs))"
proof -
  have kids: "\<And>a. a \<in> set (as @ c # bs) \<Longrightarrow> a \<in> dom m \<and> mparent m a = Some p" using tree_okD(6) [OF T] c(3) by metis
  then have pc: "p < c" "p \<in> dom m" using tree_okD(7) [OF T, of c p] by auto
  obtain px where px: "m p = Some px" using pc(2) by blast
  have dis: "distinct (as @ c # bs)" "dll (mprev m) (mnext m) None (as @ c # bs)"
    using tree_okD(2,3) [OF T px] c(3) by auto
  have rem: "mprev m c = (if as = [] then None else Some (last as))" "mnext m c = hd_opt bs"
    "dll (case hd_opt bs of None \<Rightarrow> mprev m | Some b \<Rightarrow> (mprev m)(b := mprev m c)) (if as = [] then mnext m else (mnext m)(last as := mnext m c)) None (as @ bs)"
    using dll_remove [OF dis(2,1)] by auto
  let ?m = "m3(c := None)"
  have d3: "dll (mprev ?m) (mnext ?m) None (as @ bs)"
  proof -
    have "dll (mprev ?m) (mnext ?m) None (as @ bs) =
        dll (case hd_opt bs of None \<Rightarrow> mprev m | Some b \<Rightarrow> (mprev m)(b := mprev m c)) (if as = [] then mnext m else (mnext m)(last as := mnext m c)) None (as @ bs)"
    proof (rule dll_frame)
      fix a assume "a \<in> set (as @ bs)"
      then have "a \<noteq> c" using dis(1) by auto
      then show "mprev ?m a = (case hd_opt bs of None \<Rightarrow> mprev m | Some b \<Rightarrow> (mprev m)(b := mprev m c)) a \<and>
          mnext ?m a = (if as = [] then mnext m else (mnext m)(last as := mnext m c)) a"
        unfolding acc_upd m3 by (simp only: fun_upd_other simp_thms)
    qed
    then show ?thesis using rem(3) by (rule iffD2)
  qed
  have other: "dll (mprev ?m) (mnext ?m) None (ch q)" if q: "q \<in> dom m" "q \<noteq> p" for q
  proof -
    obtain y where y: "m q = Some y" using q(1) by blast
    have nin: "a \<notin> set (ch q)" if "a \<in> set (as @ c # bs)" for a
      using siblings_apart [OF T, of a p q] that c(3) q(2) by auto
    have "dll (mprev ?m) (mnext ?m) None (ch q) = dll (mprev m) (mnext m) None (ch q)"
    proof (rule dll_frame)
      fix a assume a: "a \<in> set (ch q)"
      then have "a \<noteq> c" "as \<noteq> [] \<Longrightarrow> a \<noteq> last as" "\<And>b. hd_opt bs = Some b \<Longrightarrow> a \<noteq> b"
        using nin by (auto simp: hd_opt_def split: list.splits)
      then show "mprev ?m a = mprev m a \<and> mnext ?m a = mnext m a"
        unfolding acc_upd m3 by (auto split: option.splits)
    qed
    then show ?thesis using tree_okD(2) [OF T y] by simp
  qed
  show ?thesis
  proof (rule tree_okI)
    fix q assume q: "q \<in> dom ?m"
    then obtain y where y: "m q = Some y" "q \<noteq> c" using m3(1) by (auto split: if_splits)
    show "mfirst ?m q = hd_opt ((ch(p := as @ bs)) q) \<and> dll (mprev ?m) (mnext ?m) None ((ch(p := as @ bs)) q) \<and>
        distinct ((ch(p := as @ bs)) q)"
    proof (cases "q = p")
      case True
      have "mfirst ?m p = hd_opt (as @ bs)"
        using tree_okD(1) [OF T px] px pc(1) c(3) unfolding acc_upd m3 by (cases as) auto
      then show ?thesis using True d3 dis(1) by simp
    next
      case False
      have "mfirst ?m q = hd_opt (ch q)" using tree_okD(1) [OF T y(1)] y False unfolding acc_upd m3 by auto
      then show ?thesis using False other [OF domI [of m, OF y(1)] False] tree_okD(3) [OF T y(1)] by auto
    qed
  next
    fix q a assume a: "a \<in> set ((ch(p := as @ bs)) q)"
    then have "a \<in> set (ch q)" "a \<noteq> c" using c(3) dis(1) siblings_apart [OF T, of c p q] by (auto split: if_splits)
    then show "a \<in> dom ?m \<and> mparent ?m a = Some q" using tree_okD(6) [OF T] m3(1,2) by auto
  next
    fix a q assume a: "mparent ?m a = Some q"
    then have a': "mparent m a = Some q" "a \<noteq> c" using m3(2) by (auto split: if_splits)
    then have "q \<noteq> c" using tree_okD(7) [OF T a'(1)] c(2) by auto
    then show "q < a \<and> q \<in> dom ?m \<and> a \<in> set ((ch(p := as @ bs)) q)"
      using tree_okD(7) [OF T a'(1)] a'(2) m3(1) c(3) by auto
  next
    fix q assume "q \<notin> dom ?m"
    then show "(ch(p := as @ bs)) q = []" using tree_okD(8) [OF T, of q] c(2) m3(1) pc by auto
  qed
qed

text \<open>A write to one pointer or to the count of a node leaves the other accessors alone.\<close>

lemma write_next:
  assumes "m v = Some x"
  shows "dom (m(v \<mapsto> x\<lparr>cs_next := n\<rparr>)) = dom m" "mparent (m(v \<mapsto> x\<lparr>cs_next := n\<rparr>)) = mparent m" "mprev (m(v \<mapsto> x\<lparr>cs_next := n\<rparr>)) = mprev m"
    "mfirst (m(v \<mapsto> x\<lparr>cs_next := n\<rparr>)) = mfirst m" "mnext (m(v \<mapsto> x\<lparr>cs_next := n\<rparr>)) = (mnext m)(v := n)" "mrefs (m(v \<mapsto> x\<lparr>cs_next := n\<rparr>)) = mrefs m"
  using assms by (simp_all add: fun_upd_idem insert_absorb domI)

lemma write_prev:
  assumes "m v = Some x"
  shows "dom (m(v \<mapsto> x\<lparr>cs_prev := n\<rparr>)) = dom m" "mparent (m(v \<mapsto> x\<lparr>cs_prev := n\<rparr>)) = mparent m" "mnext (m(v \<mapsto> x\<lparr>cs_prev := n\<rparr>)) = mnext m"
    "mfirst (m(v \<mapsto> x\<lparr>cs_prev := n\<rparr>)) = mfirst m" "mprev (m(v \<mapsto> x\<lparr>cs_prev := n\<rparr>)) = (mprev m)(v := n)" "mrefs (m(v \<mapsto> x\<lparr>cs_prev := n\<rparr>)) = mrefs m"
  using assms by (simp_all add: fun_upd_idem insert_absorb domI)

lemma write_first:
  assumes "m v = Some x"
  shows "dom (m(v \<mapsto> x\<lparr>cs_first := n\<rparr>)) = dom m" "mparent (m(v \<mapsto> x\<lparr>cs_first := n\<rparr>)) = mparent m" "mnext (m(v \<mapsto> x\<lparr>cs_first := n\<rparr>)) = mnext m"
    "mprev (m(v \<mapsto> x\<lparr>cs_first := n\<rparr>)) = mprev m" "mfirst (m(v \<mapsto> x\<lparr>cs_first := n\<rparr>)) = (mfirst m)(v := n)" "mrefs (m(v \<mapsto> x\<lparr>cs_first := n\<rparr>)) = mrefs m"
  using assms by (simp_all add: fun_upd_idem insert_absorb domI)

lemma write_refs:
  assumes "m v = Some x"
  shows "dom (m(v \<mapsto> x\<lparr>cs_refs := n\<rparr>)) = dom m" "mparent (m(v \<mapsto> x\<lparr>cs_refs := n\<rparr>)) = mparent m" "mnext (m(v \<mapsto> x\<lparr>cs_refs := n\<rparr>)) = mnext m"
    "mprev (m(v \<mapsto> x\<lparr>cs_refs := n\<rparr>)) = mprev m" "mfirst (m(v \<mapsto> x\<lparr>cs_refs := n\<rparr>)) = mfirst m" "mrefs (m(v \<mapsto> x\<lparr>cs_refs := n\<rparr>)) = (mrefs m)(v := n)"
  using assms by (simp_all add: fun_upd_idem insert_absorb domI)

text \<open>What the tree operations never write: everything but the count, the sibling pointers and the first child.\<close>

definition core :: "cancel_state \<Rightarrow> cancel_state" where
  "core x = x\<lparr>cs_refs := 0, cs_first := None, cs_prev := None, cs_next := None\<rparr>"

definition mcore :: "(cid \<Rightarrow> cancel_state option) \<Rightarrow> cid \<Rightarrow> cancel_state option" where "mcore m c = map_option core (m c)"

lemma core_upd [simp]: "core (x\<lparr>cs_refs := n\<rparr>) = core x" "core (x\<lparr>cs_first := a\<rparr>) = core x"
    "core (x\<lparr>cs_prev := a\<rparr>) = core x" "core (x\<lparr>cs_next := a\<rparr>) = core x"
  by (simp_all add: core_def)

lemma mcore_upd [simp]: "m c = Some x \<Longrightarrow> core y = core x \<Longrightarrow> mcore (m(c \<mapsto> y)) = mcore m" "mcore (m(c := None)) = (mcore m)(c := None)"
  by (auto simp: mcore_def fun_eq_iff)

lemma mcore_Some: "mcore m c = Some k \<longleftrightarrow> (\<exists>x. m c = Some x \<and> core x = k)"
  by (auto simp: mcore_def)

lemma core_eqD:
  assumes "core x = core y"
  shows "cs_requested x = cs_requested y" "cs_live x = cs_live y" "cs_parent x = cs_parent y" "cs_cancel_waiters x = cs_cancel_waiters y"
    "cs_join_waiters x = cs_join_waiters y" "cs_is_task x = cs_is_task y" "cs_status x = cs_status y" "cs_done_waiters x = cs_done_waiters y"
  using assms by (cases x; cases y; simp add: core_def)+

lemma unlink_effect:
  assumes T: "tree_ok m ch" and c: "m c = Some x" "cs_parent x = Some p" "ch c = []"
    and s: "cmem s = m(c \<mapsto> x\<lparr>cs_refs := k\<rparr>)"
  shows "\<exists>as bs s' y. ch p = as @ c # bs \<and> unlink_from_parent c s = Some s' \<and> cmem s' c = Some y \<and> cs_parent y = Some p \<and>
    tree_ok ((cmem s')(c := None)) (ch(p := as @ bs)) \<and> dom (cmem s') = dom m \<and> (\<forall>q. q \<noteq> c \<longrightarrow> mrefs (cmem s') q = mrefs m q) \<and>
    mcore (cmem s') = mcore m \<and> s' = s\<lparr>cmem := cmem s'\<rparr>"
proof -
  have "c \<in> set (ch p)" "p < c" "p \<in> dom m" using tree_okD(7) [OF T, of c p] c by simp_all
  then obtain as bs px where chp: "ch p = as @ c # bs" and px: "m p = Some px" by (meson domD split_list)
  have kids: "a \<in> dom m \<and> mparent m a = Some p \<and> p < a" if "a \<in> set (as @ c # bs)" for a
    using tree_okD(6) [OF T, of a p] tree_okD(7) [OF T, of a p] that chp by auto
  have dis: "distinct (as @ c # bs)" "dll (mprev m) (mnext m) None (as @ c # bs)" using tree_okD(2,3) [OF T px] chp by auto
  have x: "cs_prev x = (if as = [] then None else Some (last as))" "cs_next x = hd_opt bs"
    using dll_remove [OF dis(2,1)] c(1) by auto
  define m1 where "m1 = (if as = [] then (cmem s)(p \<mapsto> px\<lparr>cs_first := hd_opt bs\<rparr>)
    else (cmem s)(last as \<mapsto> (the (m (last as)))\<lparr>cs_next := hd_opt bs\<rparr>))"
  define m2 where "m2 = (case hd_opt bs of None \<Rightarrow> m1 | Some b \<Rightarrow> m1(b \<mapsto> (the (m b))\<lparr>cs_prev := cs_prev x\<rparr>))"
  define y where "y = x\<lparr>cs_refs := k, cs_prev := None, cs_next := None\<rparr>"
  have la: "as \<noteq> [] \<Longrightarrow> last as \<in> dom m \<and> last as \<noteq> c \<and> last as \<noteq> p" using kids [of "last as"] dis(1) by auto
  have hb: "hd_opt bs = Some b \<Longrightarrow> b \<in> dom m \<and> b \<noteq> c \<and> b \<noteq> p \<and> (as \<noteq> [] \<longrightarrow> b \<noteq> last as)" for b
    using kids [of b] dis(1) by (auto simp: hd_opt_def split: list.splits)
  have eq: "unlink_from_parent c s = Some (s\<lparr>cmem := m2(c \<mapsto> y)\<rparr>)"
    using c px \<open>p < c\<close> x la hb
    by (cases "as = []"; cases "hd_opt bs")
      (auto simp: unlink_from_parent_def cupd_def s m1_def m2_def y_def split: option.splits)
  note r = write_refs [of m c x k, OF c(1), folded s]
  have m1: "dom m1 = dom m" "mparent m1 = mparent m" "mprev m1 = mprev m"
    "mfirst m1 = (if as = [] then (mfirst m)(p := hd_opt bs) else mfirst m)"
    "mnext m1 = (if as = [] then mnext m else (mnext m)(last as := hd_opt bs))" "mrefs m1 = (mrefs m)(c := k)"
    and m1_at: "\<And>q. q \<noteq> c \<Longrightarrow> q \<noteq> p \<Longrightarrow> (as \<noteq> [] \<Longrightarrow> q \<noteq> last as) \<Longrightarrow> m1 q = m q"
  proof -
    have "dom m1 = dom m \<and> mparent m1 = mparent m \<and> mprev m1 = mprev m \<and>
        mfirst m1 = (if as = [] then (mfirst m)(p := hd_opt bs) else mfirst m) \<and>
        mnext m1 = (if as = [] then mnext m else (mnext m)(last as := hd_opt bs)) \<and> mrefs m1 = (mrefs m)(c := k)"
    proof (cases "as = []")
      case True
      have "cmem s p = Some px" using s px \<open>p < c\<close> by simp
      from write_first [of "cmem s" p px "hd_opt bs", OF this] r True show ?thesis by (simp add: m1_def)
    next
      case False
      then obtain lx where lx: "m (last as) = Some lx" "last as \<noteq> c" using la by blast
      then have "cmem s (last as) = Some lx" using s by simp
      from write_next [of "cmem s" "last as" lx "hd_opt bs", OF this] r False lx show ?thesis by (simp add: m1_def)
    qed
    then show "dom m1 = dom m" "mparent m1 = mparent m" "mprev m1 = mprev m"
      "mfirst m1 = (if as = [] then (mfirst m)(p := hd_opt bs) else mfirst m)"
      "mnext m1 = (if as = [] then mnext m else (mnext m)(last as := hd_opt bs))" "mrefs m1 = (mrefs m)(c := k)" by blast+
    show "\<And>q. q \<noteq> c \<Longrightarrow> q \<noteq> p \<Longrightarrow> (as \<noteq> [] \<Longrightarrow> q \<noteq> last as) \<Longrightarrow> m1 q = m q" by (simp add: m1_def s)
  qed
  have m2: "dom m2 = dom m" "mparent m2 = mparent m" "mfirst m2 = mfirst m1" "mnext m2 = mnext m1" "mrefs m2 = (mrefs m)(c := k)"
    "mprev m2 = (case hd_opt bs of None \<Rightarrow> mprev m | Some b \<Rightarrow> (mprev m)(b := mprev m c))"
  proof -
    have "dom m2 = dom m \<and> mparent m2 = mparent m \<and> mfirst m2 = mfirst m1 \<and> mnext m2 = mnext m1 \<and> mrefs m2 = (mrefs m)(c := k) \<and>
        mprev m2 = (case hd_opt bs of None \<Rightarrow> mprev m | Some b \<Rightarrow> (mprev m)(b := mprev m c))"
    proof (cases "hd_opt bs")
      case None
      then show ?thesis using m1 by (simp add: m2_def)
    next
      case (Some b)
      then obtain bx where bx: "m b = Some bx" "m1 b = Some bx" using hb [OF Some] m1_at [of b] by auto
      from write_prev [of m1 b bx "cs_prev x", OF bx(2)] m1 Some bx c(1) show ?thesis by (simp add: m2_def)
    qed
    then show "dom m2 = dom m" "mparent m2 = mparent m" "mfirst m2 = mfirst m1" "mnext m2 = mnext m1" "mrefs m2 = (mrefs m)(c := k)"
      "mprev m2 = (case hd_opt bs of None \<Rightarrow> mprev m | Some b \<Rightarrow> (mprev m)(b := mprev m c))" by blast+
  qed
  have core3: "mcore (m2(c \<mapsto> y)) = mcore m"
  proof
    fix q
    show "mcore (m2(c \<mapsto> y)) q = mcore m q"
      using c(1) px la hb \<open>p < c\<close> by (cases "q = c"; cases "as = []"; cases "hd_opt bs") (auto simp: mcore_def m2_def m1_def y_def s)
  qed
  have m3: "dom (m2(c \<mapsto> y)) = dom m" "\<forall>q. q \<noteq> c \<longrightarrow> mrefs (m2(c \<mapsto> y)) q = mrefs m q"
    using m2 c(1) by auto
  have "tree_ok ((m2(c \<mapsto> y))(c := None)) (ch(p := as @ bs))"
  proof (rule tree_ok_unlinked [OF T _ c(3) chp])
    show "c \<in> dom m" using c(1) by blast
    show "mparent (m2(c \<mapsto> y)) = mparent m" using m2(2) c by (simp add: y_def fun_upd_idem)
    show "mfirst (m2(c \<mapsto> y)) = (if as = [] then (mfirst m)(p := hd_opt bs) else mfirst m)"
      using m1(4) m2(3) c \<open>p < c\<close> by (simp add: y_def fun_upd_idem)
    show "mprev (m2(c \<mapsto> y)) = (case hd_opt bs of None \<Rightarrow> mprev m | Some b \<Rightarrow> (mprev m)(b := mprev m c))(c := None)"
      using m2(6) by (simp add: y_def)
    show "mnext (m2(c \<mapsto> y)) = (if as = [] then mnext m else (mnext m)(last as := mnext m c))(c := None)"
      using m1(5) m2(4) c(1) x(2) by (simp add: y_def)
  qed (use m3 in simp_all)
  moreover note m3 core3
  ultimately show ?thesis using eq chp c(2) by (intro exI [of _ as] exI [of _ bs] exI [of _ "s\<lparr>cmem := m2(c \<mapsto> y)\<rparr>"] exI [of _ y]) (simp add: y_def)
qed

section \<open>Releasing\<close>

lemma cupd_Some: "cmem s c = Some x \<Longrightarrow> cupd c f s = Some (s\<lparr>cmem := (cmem s)(c \<mapsto> f x)\<rparr>)"
  by (simp add: cupd_def)

text \<open>The decrement: the node stays linked, and is dying when this was the last reference.\<close>

lemma release_ref_ok:
  assumes ok: "csys_ok s ch" and ref: "counts_ok E s ch" and c: "0 < E c"
  shows "\<exists>s'. release_ref c s = Some s' \<and> csys_ok s' ch \<and> counts_ok (E(c := E c - 1)) s' ch \<and> mcore (cmem s') = mcore (cmem s) \<and>
    s' = s\<lparr>cmem := cmem s', cdying := cdying s'\<rparr>"
proof -
  note D = counts_okD [OF ref]
  obtain x where x: "cmem s c = Some x" using D(7) [OF c] by blast
  let ?n = "E c + length (ch c)"
  let ?m = "(cmem s)(c \<mapsto> x\<lparr>cs_refs := cs_refs x - 1\<rparr>)" and ?d = "if ?n = 1 then cdying s @ [c] else cdying s"
  let ?s' = "s\<lparr>cmem := ?m, cdying := ?d\<rparr>"
  have cx: "cs_refs x = of_nat ?n" "cs_refs x = 1 \<longleftrightarrow> ?n = 1" using D(2) [OF x] count_word(2) [OF D(1) [of c]] by simp_all
  have nd: "c \<notin> set (cdying s)" using D(3) [OF x] c by simp
  have "release_ref c s = Some ?s'" using x cx(2) by (simp add: release_ref_def cupd_def)
  moreover have "csys_ok ?s' ch" using csys_ok_write [OF ok x, of "x\<lparr>cs_refs := cs_refs x - 1\<rparr>"] by (simp add: csys_ok_def)
  moreover have "counts_ok (E(c := E c - 1)) ?s' ch"
  proof (rule counts_okI)
    show "(E(c := E c - 1)) q + length (ch q) < 2 ^ 32" for q using D(1) [of q] by auto
    have less: "of_nat (E c - 1 + length (ch c)) = (of_nat ?n - 1 :: u32)" using c by (cases "E c") simp_all
    show "cs_refs y = of_nat ((E(c := E c - 1)) q + length (ch q))" if y: "cmem ?s' q = Some y" for q y
    proof (cases "q = c")
      case True
      then have "y = x\<lparr>cs_refs := cs_refs x - 1\<rparr>" using y by simp
      then have "cs_refs y = of_nat ?n - 1" using cx(1) by simp
      then show ?thesis using True less by simp
    qed (use y D(2) [of q y] in simp)
    show "q \<in> set (cdying ?s') \<longleftrightarrow> (E(c := E c - 1)) q + length (ch q) = 0" if "cmem ?s' q = Some y" for q y
      using that D(3) [of q y] nd c by (cases "q = c") auto
    show "(E(c := E c - 1)) q = 0" if "q \<notin> dom (cmem ?s')" for q using that D(4) [of q] by (auto split: if_splits)
    show "distinct (cdying ?s')" using D(5) nd by simp
    show "q \<in> dom (cmem ?s')" if "q \<in> set (cdying ?s')" for q using that D(6) [of q] by (auto split: if_splits)
  qed
  moreover have "mcore ?m = mcore (cmem s)" using x by (auto simp: mcore_def fun_eq_iff)
  ultimately show ?thesis by (intro exI [of _ ?s']) simp
qed

text \<open>The node \<open>c\<close> alone in its tree, deleted.\<close>

lemma dealloc_root_ok:
  assumes T: "tree_ok m ch" and c: "m c = Some x" "cs_parent x = None" "ch c = []"
  shows "tree_ok (m(c := None)) ch"
proof -
  have np: "c \<notin> set (ch q)" for q using tree_okD(6) [OF T, of c q] c by auto
  let ?m = "m(c := None)"
  show ?thesis
  proof (rule tree_okI)
    fix q assume q: "q \<in> dom ?m"
    then obtain y where y: "m q = Some y" "q \<noteq> c" by (auto split: if_splits)
    have "dll (mprev ?m) (mnext ?m) None (ch q) = dll (mprev m) (mnext m) None (ch q)"
      by (rule dll_frame) (use np [of q] in auto)
    then show "mfirst ?m q = hd_opt (ch q) \<and> dll (mprev ?m) (mnext ?m) None (ch q) \<and> distinct (ch q)"
      using tree_okD(1-3) [OF T y(1)] y by simp
  next
    show "a \<in> dom ?m \<and> mparent ?m a = Some q" if "a \<in> set (ch q)" for a q using tree_okD(6) [OF T that] np [of q] that by auto
    show "q < a \<and> q \<in> dom ?m \<and> a \<in> set (ch q)" if "mparent ?m a = Some q" for a q
      using tree_okD(7) [OF T, of a q] that c(3) by (auto split: if_splits)
    show "ch q = []" if "q \<notin> dom ?m" for q using tree_okD(8) [OF T, of q] that c(3) by auto
  qed
qed

text \<open>The deletion: the reference that the node held on its parent is left to be released.\<close>

lemma delete_node_ok:
  assumes ok: "csys_ok s ch" and ref: "counts_ok E s ch" and c: "c \<in> set (cdying s)"
  shows "\<exists>po s' ch'. delete_node c s = Some (po, s') \<and> csys_ok s' ch' \<and> counts_ok (case po of None \<Rightarrow> E | Some p \<Rightarrow> E(p := Suc (E p))) s' ch' \<and>
    dom (cmem s') = dom (cmem s) - {c} \<and> (\<forall>q\<in>dom (cmem s'). mcore (cmem s') q = mcore (cmem s) q) \<and> s' = s\<lparr>cmem := cmem s', cdying := cdying s'\<rparr>"
proof -
  let ?m = "cmem s" and ?d = "remove1 c (cdying s)"
  note D = counts_okD [OF ref]
  have T: "tree_ok ?m ch" and bound: "\<forall>d\<in>dom ?m. d < cfresh s" using ok by (simp_all add: csys_ok_def)
  obtain x where x: "?m c = Some x" using D(6) [OF c] by blast
  have z: "E c = 0" "ch c = []" using D(3) [OF x] c by simp_all
  have dy: "q \<in> set ?d \<longleftrightarrow> q \<in> set (cdying s) \<and> q \<noteq> c" "distinct ?d" for q using D(5) by auto
  show ?thesis
  proof (cases "cs_parent x")
    case None
    let ?s' = "s\<lparr>cmem := ?m(c := None), cdying := ?d\<rparr>"
    have "delete_node c s = Some (None, ?s')" using x None by (simp add: delete_node_def unlink_from_parent_def dealloc_def)
    moreover have "csys_ok ?s' ch" using dealloc_root_ok [OF T x None z(2)] bound by (auto simp: csys_ok_def)
    moreover have "counts_ok E ?s' ch"
    proof (rule counts_okI)
      show "cs_refs w = of_nat (E q + length (ch q))" if "cmem ?s' q = Some w" for q w using that D(2) [of q w] by (simp split: if_splits)
      show "q \<in> set (cdying ?s') \<longleftrightarrow> E q + length (ch q) = 0" if "cmem ?s' q = Some w" for q w
        using that D(3) [of q w] dy(1) [of q] by (simp split: if_splits)
      show "E q = 0" if "q \<notin> dom (cmem ?s')" for q using that D(4) [of q] z(1) by (cases "q = c") (simp_all add: domIff)
      show "q \<in> dom (cmem ?s')" if "q \<in> set (cdying ?s')" for q using that dy(1) [of q] D(6) [of q] by simp
    qed (use D(1) dy(2) in simp_all)
    ultimately show ?thesis by (intro exI [of _ None] exI [of _ ?s'] exI [of _ ch]) (auto simp: mcore_def)
  next
    case (Some p)
    obtain as bs s2 y where u: "ch p = as @ c # bs" "unlink_from_parent c s = Some s2" "cmem s2 c = Some y" "cs_parent y = Some p"
      "tree_ok ((cmem s2)(c := None)) (ch(p := as @ bs))" "dom (cmem s2) = dom ?m" "\<forall>q. q \<noteq> c \<longrightarrow> mrefs (cmem s2) q = mrefs ?m q"
      "mcore (cmem s2) = mcore ?m" "s2 = s\<lparr>cmem := cmem s2\<rparr>"
      using unlink_effect [OF T x Some z(2), of s "cs_refs x"] x by (auto simp: fun_upd_idem)
    let ?s3 = "s\<lparr>cmem := (cmem s2)(c := None), cdying := ?d\<rparr>" and ?ch = "ch(p := as @ bs)" and ?E = "E(p := Suc (E p))"
    have pc: "p \<noteq> c" "p \<in> dom ?m" using tree_okD(7) [OF T, of c p] x Some by auto
    have s3: "(dealloc c s2)\<lparr>cdying := remove1 c (cdying s2)\<rparr> = ?s3" by (subst u(9), subst (2) u(9)) (simp add: dealloc_def)
    have "delete_node c s = Some (Some p, ?s3)" using u(2-4) s3 by (simp add: delete_node_def)
    moreover have "csys_ok ?s3 ?ch" using u(5,6) bound by (auto simp: csys_ok_def)
    moreover have "counts_ok ?E ?s3 ?ch"
    proof (rule counts_okI)
      have sum: "?E q + length (?ch q) = E q + length (ch q)" for q using u(1) by simp
      show "?E q + length (?ch q) < 2 ^ 32" for q unfolding sum by (rule D(1))
      fix q
      have old: "\<exists>z. ?m q = Some z \<and> cs_refs w = cs_refs z" if "cmem ?s3 q = Some w" for w
      proof -
        have w: "cmem s2 q = Some w" "q \<noteq> c" using that by (simp_all split: if_splits)
        then obtain z where "?m q = Some z" using u(6) by blast
        then show ?thesis using w u(7) by (metis acc_Some(5))
      qed
      show "cs_refs w = of_nat (?E q + length (?ch q))" if w: "cmem ?s3 q = Some w" for w
        unfolding sum using D(2) [of q] old [OF w] by auto
      show "q \<in> set (cdying ?s3) \<longleftrightarrow> ?E q + length (?ch q) = 0" if w: "cmem ?s3 q = Some w" for w
        unfolding sum using D(3) [of q] old [OF w] dy(1) [of q] w by (cases "q = c") auto
      show "?E q = 0" if "q \<notin> dom (cmem ?s3)" using that D(4) [of q] pc z(1) u(6) by (auto split: if_splits)
      show "q \<in> dom (cmem ?s3)" if "q \<in> set (cdying ?s3)" using that dy(1) [of q] D(6) [of q] u(6) by auto
    qed (use dy(2) in simp)
    moreover have "dom (cmem ?s3) = dom ?m - {c}" "\<forall>q\<in>dom (cmem ?s3). mcore (cmem ?s3) q = mcore ?m q" using u(6,8) by auto
    ultimately show ?thesis by (intro exI [of _ "Some p"] exI [of _ ?s3] exI [of _ ?ch]) simp
  qed
qed

end
