(* ===== verification/Cancel_Request.thy ===== *)
theory Cancel_Request
  imports Cancel_Tree "HOL-Library.Multiset"
begin

text \<open>
  The walks over the cancellation tree: up the parents (\<open>retain_live_chain\<close>, \<open>drop_live_chain\<close>) and down the
  children (\<open>request_cancel\<close>). Each is shown to return on a well-formed tree, with its effect on every node.
\<close>

section \<open>Ancestors\<close>

definition prel :: "(cid \<Rightarrow> cancel_state option) \<Rightarrow> (cid \<times> cid) set" where
  "prel m = {(p, c). mparent m c = Some p}"

definition anc :: "(cid \<Rightarrow> cancel_state option) \<Rightarrow> cid \<Rightarrow> cid \<Rightarrow> bool" where
  "anc m a c \<longleftrightarrow> (a, c) \<in> (prel m)\<^sup>*"

lemma anc_refl [simp]: "anc m c c" by (simp add: anc_def)

lemma anc_unfold: "anc m a c \<longleftrightarrow> a = c \<or> (\<exists>p. mparent m c = Some p \<and> anc m a p)"
  unfolding anc_def by (subst rtrancl_unfold) (auto simp: prel_def)

lemma anc_down: "anc m a c \<longleftrightarrow> a = c \<or> (\<exists>b. mparent m b = Some a \<and> anc m b c)"
  unfolding anc_def by (auto simp: prel_def elim: converse_rtranclE intro: converse_rtrancl_into_rtrancl)

lemma anc_trans: "anc m a b \<Longrightarrow> anc m b c \<Longrightarrow> anc m a c"
  unfolding anc_def by (rule rtrancl_trans)

lemma anc_cong: "mparent m' = mparent m \<Longrightarrow> anc m' = anc m"
  by (simp add: anc_def prel_def fun_eq_iff)

lemma anc_linear: "anc m a c \<Longrightarrow> anc m b c \<Longrightarrow> anc m a b \<or> anc m b a"
proof -
  assume "anc m a c" "anc m b c"
  then have "(c, a) \<in> ((prel m)\<inverse>)\<^sup>*" "(c, b) \<in> ((prel m)\<inverse>)\<^sup>*" by (simp_all add: anc_def rtrancl_converse)
  moreover have "single_valued ((prel m)\<inverse>)" by (auto simp: single_valued_def prel_def)
  ultimately have "(a, b) \<in> ((prel m)\<inverse>)\<^sup>* \<or> (b, a) \<in> ((prel m)\<inverse>)\<^sup>*" by (metis single_valued_confluent)
  then show ?thesis by (auto simp: anc_def rtrancl_converse)
qed

lemma anc_le: "tree_ok m ch \<Longrightarrow> anc m a c \<Longrightarrow> a \<le> c"
proof (induction c rule: less_induct)
  case (less c)
  then show ?case using tree_okD(7) [OF less.prems(1), of c] by (subst (asm) anc_unfold) fastforce
qed

lemma anc_dom: "tree_ok m ch \<Longrightarrow> anc m a c \<Longrightarrow> c \<in> dom m \<Longrightarrow> a \<in> dom m"
proof (induction c rule: less_induct)
  case (less c)
  then show ?case using tree_okD(7) [OF less.prems(1), of c] by (subst (asm) anc_unfold) blast
qed

lemma desc_dom: "tree_ok m ch \<Longrightarrow> anc m a c \<Longrightarrow> a \<in> dom m \<Longrightarrow> c \<in> dom m"
  by (subst (asm) anc_unfold) (auto split: option.splits simp: mparent_def)

section \<open>Live chains\<close>

text \<open>\<open>retain_live_chain\<close> counts the task at every ancestor.\<close>

definition chain_upd :: "(cancel_state \<Rightarrow> cancel_state) \<Rightarrow> cid \<Rightarrow> (cid \<Rightarrow> cancel_state option) \<Rightarrow> cid \<Rightarrow> cancel_state option" where
  "chain_upd f c m q = (if anc m q c then map_option f (m q) else m q)"

lemma mparent_upd_same: "m c = Some x \<Longrightarrow> cs_parent y = cs_parent x \<Longrightarrow> mparent (m(c \<mapsto> y)) = mparent m"
  by (auto simp: fun_eq_iff mparent_def)

text \<open>One step of a walk up the parents, for a write that leaves the pointers alone.\<close>

lemma chain_upd_step:
  assumes T: "tree_ok m ch" and x: "m c = Some x" and f: "\<And>y. cs_parent (f y) = cs_parent y"
  shows "chain_upd f c m = (case cs_parent x of None \<Rightarrow> m(c \<mapsto> f x) | Some p \<Rightarrow> chain_upd f p (m(c \<mapsto> f x)))"
proof (cases "cs_parent x")
  case None
  then show ?thesis using x by (auto simp: fun_eq_iff chain_upd_def anc_unfold [of m _ c])
next
  case (Some p)
  have pc: "p < c" "mparent m c = Some p" using tree_okD(7) [OF T, of c p] x Some by auto
  have A: "anc (m(c \<mapsto> f x)) = anc m" by (rule anc_cong, rule mparent_upd_same [of m c x, OF x f])
  have "\<not> anc m c p" using anc_le [OF T, of c p] pc(1) by auto
  then show ?thesis using Some x pc(2) A by (auto simp: fun_eq_iff chain_upd_def anc_unfold [of m _ c])
qed

lemma retain_live_chain_ok:
  assumes "csys_ok s ch" "c \<in> dom (cmem s)"
  shows "retain_live_chain (Some c) s = Some (s\<lparr>cmem := chain_upd (\<lambda>y. y\<lparr>cs_live := cs_live y + 1\<rparr>) c (cmem s)\<rparr>)"
  using assms
proof (induction c arbitrary: s rule: less_induct)
  case (less c)
  let ?f = "\<lambda>y. y\<lparr>cs_live := cs_live y + 1\<rparr>"
  obtain x where x: "cmem s c = Some x" using less.prems(2) by blast
  have T: "tree_ok (cmem s) ch" using less.prems(1) by (simp add: csys_ok_def)
  let ?s1 = "s\<lparr>cmem := (cmem s)(c \<mapsto> ?f x)\<rparr>"
  have ok1: "csys_ok ?s1 ch" by (rule csys_ok_write [OF less.prems(1) x]) simp_all
  have step: "retain_live_chain (Some c) s = retain_live_chain (cs_parent x) ?s1"
    using x by (subst retain_live_chain.simps) (simp add: cupd_Some)
  note ch = chain_upd_step [of "cmem s" ch c x ?f, OF T x]
  show ?case
  proof (cases "cs_parent x")
    case None
    then show ?thesis using step ch by (simp add: retain_live_chain.simps del: fun_upd_apply)
  next
    case (Some p)
    have pc: "p < c" "p \<in> dom (cmem ?s1)" using tree_okD(7) [OF T, of c p] x Some by auto
    show ?thesis using less.IH [OF pc(1) ok1 pc(2)] step ch Some by (simp del: fun_upd_apply)
  qed
qed

text \<open>\<open>drop_live_chain\<close> counts it down, and wakes the waiters of every ancestor whose count reaches zero.\<close>

definition drop_node :: "cancel_state \<Rightarrow> cancel_state" where
  "drop_node y = y\<lparr>cs_live := cs_live y - 1, cs_join_waiters := (if cs_live y = 1 then [] else cs_join_waiters y)\<rparr>"

definition drained :: "(cid \<Rightarrow> cancel_state option) \<Rightarrow> cid \<Rightarrow> cid \<Rightarrow> nat set" where
  "drained m c a = (if anc m a c then case m a of None \<Rightarrow> {} | Some x \<Rightarrow> if cs_live x = 1 then set (cs_join_waiters x) else {} else {})"

lemma wake_join_live:
  assumes "cmem s c = Some x" "cs_live x = 0"
  shows "wake_join_if_drained c s = Some (s\<lparr>cmem := (cmem s)(c \<mapsto> x\<lparr>cs_join_waiters := []\<rparr>), cwoken := cwoken s @ cs_join_waiters x\<rparr>)"
  using assms by (cases "cs_join_waiters x = []") (auto simp: wake_join_if_drained_def cupd_def fun_upd_idem)

lemma drop_live_chain_ok:
  assumes "csys_ok s ch" "c \<in> dom (cmem s)"
  shows "\<exists>ws. drop_live_chain (Some c) s = Some (s\<lparr>cmem := chain_upd drop_node c (cmem s), cwoken := cwoken s @ ws\<rparr>) \<and>
    set ws = (\<Union>a. drained (cmem s) c a)"
  using assms
proof (induction c arbitrary: s rule: less_induct)
  case (less c)
  obtain x where x: "cmem s c = Some x" using less.prems(2) by blast
  have T: "tree_ok (cmem s) ch" using less.prems(1) by (simp add: csys_ok_def)
  let ?ws = "if cs_live x = 1 then cs_join_waiters x else []"
  let ?s1 = "s\<lparr>cmem := (cmem s)(c \<mapsto> drop_node x), cwoken := cwoken s @ ?ws\<rparr>"
  have dn: "cs_parent (drop_node y) = cs_parent y" "cs_refs (drop_node y) = cs_refs y" "cs_prev (drop_node y) = cs_prev y"
    "cs_next (drop_node y) = cs_next y" "cs_first (drop_node y) = cs_first y" for y by (simp_all add: drop_node_def)
  have ok1: "csys_ok ?s1 ch" using csys_ok_write [OF less.prems(1) x, of "drop_node x"] dn by (simp add: csys_ok_def)
  have step: "drop_live_chain (Some c) s = drop_live_chain (cs_parent x) ?s1"
    using x by (subst drop_live_chain.simps) (auto simp: cupd_Some wake_join_live drop_node_def)
  note ch = chain_upd_step [of "cmem s" ch c x drop_node, OF T x dn(1)]
  show ?case
  proof (cases "cs_parent x")
    case None
    have "(\<Union>a. drained (cmem s) c a) = set ?ws" using x None by (auto simp: drained_def anc_unfold [of "cmem s" _ c] split: if_splits)
    then show ?thesis using step ch None by (intro exI [of _ ?ws]) (simp add: drop_live_chain.simps del: fun_upd_apply)
  next
    case (Some p)
    have pc: "p < c" "p \<in> dom (cmem ?s1)" using tree_okD(7) [OF T, of c p] x Some by auto
    have A: "anc (cmem ?s1) = anc (cmem s)" using anc_cong [OF mparent_upd_same [of "cmem s" c x, OF x dn(1)]] by simp
    have ncp: "\<not> anc (cmem s) c p" using anc_le [OF T, of c p] pc(1) by auto
    then have dr: "drained (cmem s) c a = (if a = c then set ?ws else drained (cmem ?s1) p a)" "drained (cmem ?s1) p c = {}" for a
      using x Some A by (auto simp: drained_def anc_unfold [of "cmem s" _ c])
    then have "(\<Union>a. drained (cmem s) c a) = set ?ws \<union> (\<Union>a. drained (cmem ?s1) p a)"
      unfolding dr(1) using dr(2) by (auto split: if_splits)
    moreover obtain ws where "drop_live_chain (Some p) ?s1 =
        Some (?s1\<lparr>cmem := chain_upd drop_node p (cmem ?s1), cwoken := cwoken ?s1 @ ws\<rparr>)" "set ws = (\<Union>a. drained (cmem ?s1) p a)"
      using less.IH [OF pc(1) ok1 pc(2)] by blast
    ultimately show ?thesis using step ch Some by (intro exI [of _ "?ws @ ws"]) (simp del: fun_upd_apply)
  qed
qed

section \<open>Cancelling a subtree\<close>

definition cancel_node :: "nat \<Rightarrow> bool \<Rightarrow> cancel_state \<Rightarrow> cancel_state" where
  "cancel_node k b x = x\<lparr>cs_requested := True, cs_cancel_waiters := [], cs_refs := cs_refs x + of_nat k, cs_kick_pending := b\<rparr>"

definition mreq :: "(cid \<Rightarrow> cancel_state option) \<Rightarrow> cid \<Rightarrow> bool" where
  "mreq m q = (case m q of None \<Rightarrow> False | Some x \<Rightarrow> cs_requested x)"

definition pending_waiters :: "(cid \<Rightarrow> cancel_state option) \<Rightarrow> cid \<Rightarrow> nat multiset" where
  "pending_waiters m q = (case m q of None \<Rightarrow> {#} | Some x \<Rightarrow> if cs_requested x then {#} else mset (cs_cancel_waiters x))"

text \<open>Exactly the nodes of \<open>D\<close> are marked: those already requested are left alone, the others lose their cancel
  waiters to the woken ones, and gain one reference for each kick: at most one, and none for a node whose count is zero.\<close>

definition kick_max :: "cancel_state \<Rightarrow> nat \<Rightarrow> bool" where
  "kick_max x k \<longleftrightarrow> k \<le> (if cs_refs x = 0 then 0 else 1)"

definition marked_by :: "cid set \<Rightarrow> nat list \<Rightarrow> cid list \<Rightarrow> csys \<Rightarrow> csys \<Rightarrow> bool" where
  "marked_by D ws ks s s' \<longleftrightarrow> s' = s\<lparr>cmem := cmem s', cwoken := cwoken s @ ws, ckicks := ckicks s @ ks\<rparr> \<and>
     mset ws = (\<Sum>q\<in>D. pending_waiters (cmem s) q) \<and>
     (\<forall>q. if q \<in> D \<and> q \<in> dom (cmem s) \<and> \<not> mreq (cmem s) q
          then \<exists>b. cmem s' q = Some (cancel_node (count_list ks q) b (the (cmem s q))) \<and> kick_max (the (cmem s q)) (count_list ks q)
          else q \<notin> set ks \<and> cmem s' q = cmem s q)"

lemma marked_by_requested:
  assumes "\<And>q. q \<in> D \<Longrightarrow> mreq (cmem s) q"
  shows "marked_by D [] [] s s"
proof -
  have "(\<Sum>q\<in>D. pending_waiters (cmem s) q) = {#}"
    by (rule sum.neutral) (use assms in \<open>fastforce simp: mreq_def pending_waiters_def split: option.splits\<close>)
  then show ?thesis using assms by (auto simp: marked_by_def)
qed

lemma marked_by_outside: "marked_by D ws ks s s' \<Longrightarrow> q \<notin> D \<Longrightarrow> cmem s' q = cmem s q \<and> q \<notin> set ks"
  unfolding marked_by_def by metis

lemma marked_by_comp:
  assumes "marked_by D ws ks s s'" "marked_by E vs ls s' s''" "D \<inter> E = {}" "finite D" "finite E"
  shows "marked_by (D \<union> E) (ws @ vs) (ks @ ls) s s''"
proof -
  have out1: "\<And>q. q \<in> E \<Longrightarrow> cmem s' q = cmem s q \<and> q \<notin> set ks" using marked_by_outside [OF assms(1)] assms(3) by blast
  have out2: "\<And>q. q \<notin> E \<Longrightarrow> cmem s'' q = cmem s' q \<and> q \<notin> set ls" using marked_by_outside [OF assms(2)] by blast
  have "(\<Sum>q\<in>E. pending_waiters (cmem s') q) = (\<Sum>q\<in>E. pending_waiters (cmem s) q)"
    by (rule sum.cong) (use out1 in \<open>auto simp: pending_waiters_def\<close>)
  then have ws: "mset (ws @ vs) = (\<Sum>q\<in>D \<union> E. pending_waiters (cmem s) q)"
    using assms by (simp add: marked_by_def sum.union_disjoint)
  have s'': "s'' = s\<lparr>cmem := cmem s'', cwoken := cwoken s @ ws @ vs, ckicks := ckicks s @ ks @ ls\<rparr>"
  proof -
    have a: "s' = s\<lparr>cmem := cmem s', cwoken := cwoken s @ ws, ckicks := ckicks s @ ks\<rparr>"
      "s'' = s'\<lparr>cmem := cmem s'', cwoken := cwoken s' @ vs, ckicks := ckicks s' @ ls\<rparr>" using assms(1,2) by (simp_all add: marked_by_def)
    then have "cwoken s' = cwoken s @ ws" "ckicks s' = ckicks s @ ks" by (metis csys.select_convs(3,4) csys.surjective csys.update_convs(3,4))+
    then show ?thesis by (subst a(2), subst a(1)) simp
  qed
  have nodes: "if q \<in> D \<union> E \<and> q \<in> dom (cmem s) \<and> \<not> mreq (cmem s) q
      then \<exists>b. cmem s'' q = Some (cancel_node (count_list (ks @ ls) q) b (the (cmem s q))) \<and> kick_max (the (cmem s q)) (count_list (ks @ ls) q)
      else q \<notin> set (ks @ ls) \<and> cmem s'' q = cmem s q" for q
  proof (cases "q \<in> E")
    case True
    have "mreq (cmem s') q = mreq (cmem s) q" "q \<in> dom (cmem s') \<longleftrightarrow> q \<in> dom (cmem s)" "count_list ks q = 0"
      using out1 [OF True] by (auto simp: mreq_def count_list_0_iff domIff)
    moreover have "if q \<in> E \<and> q \<in> dom (cmem s') \<and> \<not> mreq (cmem s') q
      then \<exists>b. cmem s'' q = Some (cancel_node (count_list ls q) b (the (cmem s' q))) \<and> kick_max (the (cmem s' q)) (count_list ls q)
      else q \<notin> set ls \<and> cmem s'' q = cmem s' q" using assms(2) unfolding marked_by_def by blast
    ultimately show ?thesis using True out1 [OF True] by (auto split: if_splits)
  next
    case False
    moreover have "if q \<in> D \<and> q \<in> dom (cmem s) \<and> \<not> mreq (cmem s) q
      then \<exists>b. cmem s' q = Some (cancel_node (count_list ks q) b (the (cmem s q))) \<and> kick_max (the (cmem s q)) (count_list ks q)
      else q \<notin> set ks \<and> cmem s' q = cmem s q" using assms(1) unfolding marked_by_def by blast
    moreover have "count_list ls q = 0" using out2 [OF False] by (simp add: count_list_0_iff)
    ultimately show ?thesis using out2 [OF False] by (auto split: if_splits)
  qed
  show ?thesis unfolding marked_by_def using s'' ws nodes by blast
qed

lemma marked_by_at:
  assumes "marked_by D ws ks s s'"
  shows "if q \<in> D \<and> q \<in> dom (cmem s) \<and> \<not> mreq (cmem s) q
    then \<exists>b. cmem s' q = Some (cancel_node (count_list ks q) b (the (cmem s q))) \<and> kick_max (the (cmem s q)) (count_list ks q) else q \<notin> set ks \<and> cmem s' q = cmem s q"
  using assms unfolding marked_by_def by blast

lemma marked_by_requests: "marked_by D ws ks s s' \<Longrightarrow> q \<in> D \<Longrightarrow> q \<in> dom (cmem s) \<Longrightarrow> mreq (cmem s') q"
  using marked_by_at [of D ws ks s s' q] by (auto simp: mreq_def cancel_node_def split: if_splits)

lemma marked_by_node:
  assumes "marked_by D ws ks s s'" "cmem s q = Some x"
  shows "\<exists>k b y. cmem s' q = Some y \<and> (y = x \<or> y = cancel_node k b x)"
  using marked_by_at [OF assms(1), of q] assms(2) by (auto split: if_splits)

lemma marked_by_None:
  assumes "marked_by D ws ks s s'" "cmem s q = None"
  shows "cmem s' q = None"
  using marked_by_at [OF assms(1), of q] assms(2) by (auto split: if_splits)

text \<open>Marking keeps the shape of the tree.\<close>

lemma marked_by_same:
  assumes "marked_by D ws ks s s'"
  shows "mparent (cmem s') = mparent (cmem s)" "mprev (cmem s') = mprev (cmem s)" "mnext (cmem s') = mnext (cmem s)"
    "mfirst (cmem s') = mfirst (cmem s)" "dom (cmem s') = dom (cmem s)" "cdying s' = cdying s" "cfresh s' = cfresh s"
proof -
  have same: "mparent (cmem s') q = mparent (cmem s) q \<and> mprev (cmem s') q = mprev (cmem s) q \<and> mnext (cmem s') q = mnext (cmem s) q \<and>
      mfirst (cmem s') q = mfirst (cmem s) q \<and> (q \<in> dom (cmem s') \<longleftrightarrow> q \<in> dom (cmem s))" for q
  proof (cases "cmem s q")
    case None
    then have "cmem s' q = None" by (rule marked_by_None [OF assms])
    with None show ?thesis by (auto simp: mparent_def mprev_def mnext_def mfirst_def mrefs_def)
  next
    case (Some x)
    then show ?thesis using marked_by_node [OF assms, of q x] by (auto simp: cancel_node_def)
  qed
  then show "mparent (cmem s') = mparent (cmem s)" "mprev (cmem s') = mprev (cmem s)" "mnext (cmem s') = mnext (cmem s)"
    "mfirst (cmem s') = mfirst (cmem s)" "dom (cmem s') = dom (cmem s)" by blast+
  have "s' = s\<lparr>cmem := cmem s', cwoken := cwoken s @ ws, ckicks := ckicks s @ ks\<rparr>" using assms by (simp add: marked_by_def)
  then show "cfresh s' = cfresh s" "cdying s' = cdying s" by (metis csys.select_convs(2,6) csys.surjective csys.update_convs(1,3,4))+
qed

lemma marked_by_ok:
  assumes "csys_ok s ch" "marked_by D ws ks s s'"
  shows "csys_ok s' ch"
proof -
  note m = marked_by_same [OF assms(2)]
  have "tree_ok (cmem s') ch" by (rule tree_ok_same [OF _ m(2,3,4,1,5)]) (use assms(1) in \<open>simp add: csys_ok_def\<close>)
  then show ?thesis using assms(1) m(5,7) by (simp add: csys_ok_def)
qed

lemma mark_cancelled_ok:
  assumes "csys_ok s ch" "cmem s c = Some x" "\<not> cs_requested x"
  shows "\<exists>s' ws ks. mark_cancelled reuse n c s = Some s' \<and> marked_by {c} ws ks s s'"
proof -
  let ?y = "x\<lparr>cs_requested := True, cs_cancel_waiters := []\<rparr>"
  define s1 where "s1 = (\<lambda>b. s\<lparr>cmem := (cmem s)(c \<mapsto> ?y\<lparr>cs_kick_pending := b\<rparr>), cwoken := cwoken s @ cs_cancel_waiters x\<rparr>)"
  define s2 where "s2 = s\<lparr>cwoken := cwoken s @ cs_cancel_waiters x, cmem := (cmem s)(c \<mapsto> ?y\<lparr>cs_kick_pending := True, cs_refs := cs_refs x + 1\<rparr>),
    ckicks := ckicks s @ [c]\<rparr>"
  have cn: "?y\<lparr>cs_kick_pending := b\<rparr> = cancel_node 0 b x" "?y\<lparr>cs_kick_pending := True, cs_refs := cs_refs x + 1\<rparr> = cancel_node 1 True x" for b
    by (cases x; simp add: cancel_node_def)+
  have same: "?y\<lparr>cs_kick_pending := cs_kick_pending x\<rparr> = ?y" by (cases x) simp
  have "(\<exists>b. mark_cancelled reuse n c s = Some (s1 b)) \<or> cs_refs x \<noteq> 0 \<and> mark_cancelled reuse n c s = Some s2"
  proof (cases "cs_is_task x \<and> \<not> (\<not> reuse \<or> cs_owner_tid x < 0 \<or> cs_owner_tid x \<ge> n) \<and> \<not> cs_kick_pending x")
    case True
    then show ?thesis using assms(2)
      by (cases "cs_refs x = 0") (auto simp: mark_cancelled_def wake_cancel_def kick_def cs_try_add_ref_def cs_add_ref_def cupd_def s1_def s2_def intro: exI [of _ False])
  next
    case False
    then have "mark_cancelled reuse n c s = Some (s1 (cs_kick_pending x))" using assms(2) unfolding s1_def same
      by (auto simp: mark_cancelled_def wake_cancel_def kick_def cupd_def)
    then show ?thesis by blast
  qed
  moreover have "marked_by {c} (cs_cancel_waiters x) [] s (s1 b)" for b
    using assms(2,3) unfolding s1_def cn(1) by (auto simp: marked_by_def pending_waiters_def mreq_def kick_max_def)
  moreover have "marked_by {c} (cs_cancel_waiters x) [c] s s2" if "cs_refs x \<noteq> 0"
    using assms(2,3) that unfolding s2_def cn(2) by (auto simp: marked_by_def pending_waiters_def mreq_def kick_max_def)
  ultimately show ?thesis by blast
qed

text \<open>The descendants of a set of nodes, and that a request has reached every descendant of a requested node.\<close>

definition descs :: "(cid \<Rightarrow> cancel_state option) \<Rightarrow> cid set \<Rightarrow> cid set" where
  "descs m B = {q. \<exists>b\<in>B. anc m b q}"

definition closed_on :: "(cid \<Rightarrow> cancel_state option) \<Rightarrow> cid set \<Rightarrow> bool" where
  "closed_on m D \<longleftrightarrow> (\<forall>a b. a \<in> D \<longrightarrow> mparent m b = Some a \<longrightarrow> mreq m a \<longrightarrow> mreq m b)"

lemma closed_onD: "closed_on m D \<Longrightarrow> descs m {c} \<subseteq> D \<Longrightarrow> mreq m c \<Longrightarrow> q \<in> descs m {c} \<Longrightarrow> mreq m q"
proof -
  assume a: "closed_on m D" "descs m {c} \<subseteq> D" "mreq m c" "q \<in> descs m {c}"
  from a(4) have "(c, q) \<in> (prel m)\<^sup>*" by (simp add: descs_def anc_def)
  then show ?thesis
  proof (induction rule: rtrancl_induct)
    case (step y z)
    then show ?case using a(1,2) by (auto simp: closed_on_def descs_def anc_def prel_def)
  qed (rule a(3))
qed

lemma descs_finite: "csys_ok s ch \<Longrightarrow> B \<subseteq> dom (cmem s) \<Longrightarrow> finite (descs (cmem s) B)"
proof -
  assume a: "csys_ok s ch" "B \<subseteq> dom (cmem s)"
  then have "descs (cmem s) B \<subseteq> {..<cfresh s}" using desc_dom [of "cmem s" ch] by (fastforce simp: descs_def csys_ok_def)
  then show ?thesis by (rule finite_subset) simp
qed

lemma descs_Cons: "descs m (set (c # bs)) = descs m {c} \<union> descs m (set bs)"
  by (auto simp: descs_def)

lemma descs_unfold:
  assumes "tree_ok m ch"
  shows "descs m {c} = {c} \<union> descs m (set (ch c))"
proof -
  have "mparent m b = Some c \<longleftrightarrow> b \<in> set (ch c)" for b using tree_okD(6,7) [OF assms] by blast
  then show ?thesis by (auto simp: descs_def anc_down [of m c])
qed

lemma descs_disjoint:
  assumes T: "tree_ok m ch" and "ch p = as @ c # bs"
  shows "descs m {c} \<inter> descs m (set bs) = {}"
proof -
  have nanc: "\<not> anc m a b" if ab: "a \<noteq> b" "mparent m a = Some p" "mparent m b = Some p" for a b
  proof
    assume "anc m a b"
    then have "anc m a p" using ab anc_unfold [of m a b] by auto
    moreover have "p < a" using tree_okD(7) [OF T ab(2)] by simp
    ultimately show False using anc_le [OF T] by fastforce
  qed
  obtain x where "m p = Some x" using tree_okD(8) [OF T, of p] assms(2) by (cases "m p") auto
  then have dis: "distinct (as @ c # bs)" using tree_okD(3) [OF T, of p x] assms(2) by simp
  have kid: "mparent m a = Some p" if "a \<in> set (c # bs)" for a using tree_okD(6) [OF T, of a p] assms(2) that by auto
  show "descs m {c} \<inter> descs m (set bs) = {}"
  proof (rule ccontr)
    assume "descs m {c} \<inter> descs m (set bs) \<noteq> {}"
    then obtain q b where "anc m c q" "b \<in> set bs" "anc m b q" by (auto simp: descs_def)
    moreover have "b \<noteq> c" using dis calculation by auto
    ultimately show False using anc_linear [of m c q b] nanc [of c b] nanc [of b c] kid by auto
  qed
qed

lemma descs_irrefl:
  assumes "tree_ok m ch"
  shows "c \<notin> descs m (set (ch c))"
proof
  assume "c \<in> descs m (set (ch c))"
  then obtain b where b: "b \<in> set (ch c)" "anc m b c" by (auto simp: descs_def)
  then have "c < b" using tree_okD(6,7) [OF assms] by blast
  then show False using anc_le [OF assms b(2)] by simp
qed

lemma next_sibling:
  assumes T: "tree_ok m ch" and p: "ch p = as @ c # bs"
  shows "mnext m c = hd_opt bs"
proof -
  obtain px where px: "m p = Some px" using tree_okD(8) [OF T, of p] p by (cases "m p") auto
  then show ?thesis using tree_okD(2,3) [OF T, of p px] p dll_remove [of "mprev m" "mnext m" None as c bs] by simp
qed

lemma descs_marked: "marked_by D ws ks s s' \<Longrightarrow> descs (cmem s') B = descs (cmem s) B"
  using anc_cong [OF marked_by_same(1)] by (simp add: descs_def)

lemma closed_marked:
  assumes m: "marked_by D ws ks s s'" and "closed_on (cmem s) (descs (cmem s) B)" "D \<inter> descs (cmem s) B = {}"
  shows "closed_on (cmem s') (descs (cmem s') B)"
  unfolding closed_on_def descs_marked [OF m]
proof (intro allI impI)
  fix u v assume u: "u \<in> descs (cmem s) B" "mparent (cmem s') v = Some u" "mreq (cmem s') u"
  then have v: "v \<in> descs (cmem s) B" "mparent (cmem s) v = Some u"
    using marked_by_same(1) [OF m] unfolding descs_def by (auto simp: anc_unfold [of "cmem s" _ v])
  have "cmem s' q = cmem s q" if "q \<in> descs (cmem s) B" for q using marked_by_outside [OF m, of q] that assms(3) by blast
  then show "mreq (cmem s') v" using assms(2) u v by (auto simp: closed_on_def mreq_def)
qed

text \<open>The walk over the subtree of one child, given the loop over its children.\<close>

lemma cancel_subtree_ok:
  assumes ok: "csys_ok s ch" and x: "cmem s c = Some x" and cl: "closed_on (cmem s) (descs (cmem s) {c})"
    and kids: "\<And>sa. csys_ok sa ch \<Longrightarrow> cfresh sa = cfresh s \<Longrightarrow> closed_on (cmem sa) (descs (cmem sa) (set (ch c))) \<Longrightarrow>
      \<exists>s' ws ks. cancel_children reuse n (hd_opt (ch c)) sa = Some s' \<and> marked_by (descs (cmem sa) (set (ch c))) ws ks sa s'"
  shows "\<exists>s1 ws ks. request_cancel reuse n c s = Some s1 \<and> marked_by (descs (cmem s) {c}) ws ks s s1"
proof (cases "cs_requested x")
  case True
  have "marked_by (descs (cmem s) {c}) [] [] s s"
    by (rule marked_by_requested, rule closed_onD [OF cl]) (use True x in \<open>auto simp: mreq_def\<close>)
  then show ?thesis using True x by (auto simp: request_cancel_def)
next
  case False
  have T: "tree_ok (cmem s) ch" using ok by (simp add: csys_ok_def)
  have notin: "c \<notin> descs (cmem s) (set (ch c))" by (rule descs_irrefl [OF T])
  from mark_cancelled_ok [OF ok x False, of reuse n] obtain sa wa ka
    where a: "mark_cancelled reuse n c s = Some sa" "marked_by {c} wa ka s sa" by blast
  note same = marked_by_same [OF a(2)] and oka = marked_by_ok [OF ok a(2)]
  obtain y where y: "cmem sa c = Some y" using same(5) x by (metis domD domI)
  have fy: "cs_first y = hd_opt (ch c)" using tree_okD(1) [of "cmem sa" ch c y] oka y by (simp add: csys_ok_def)
  have "closed_on (cmem s) (descs (cmem s) (set (ch c)))" using cl unfolding descs_unfold [OF T, of c] by (auto simp: closed_on_def)
  then have "closed_on (cmem sa) (descs (cmem sa) (set (ch c)))" by (rule closed_marked [OF a(2)]) (use notin in auto)
  from kids [OF oka same(7) this] obtain sb wb kb where b: "cancel_children reuse n (hd_opt (ch c)) sa = Some sb"
      "marked_by (descs (cmem s) (set (ch c))) wb kb sa sb" unfolding descs_marked [OF a(2)] by blast
  have "set (ch c) \<subseteq> dom (cmem s)" using tree_okD(6) [OF T] by auto
  then have "marked_by ({c} \<union> descs (cmem s) (set (ch c))) (wa @ wb) (ka @ kb) s sb"
    using marked_by_comp [OF a(2) b(2)] notin descs_finite [OF ok] by auto
  then show ?thesis using False x a(1) y fy b(1) unfolding descs_unfold [OF T, of c] by (auto simp: request_cancel_def)
qed

lemma cancel_children_unfold:
  "cancel_children reuse n (Some c) s = do { s \<leftarrow> request_cancel reuse n c s; y \<leftarrow> cmem s c; cancel_children reuse n (cs_next y) s }"
  by (subst cancel_children.simps) (auto simp: request_cancel_def split: bind_split)

text \<open>The loop over the rest \<open>bs\<close> of the children of \<open>p\<close>.\<close>

lemma cancel_children_ok:
  assumes "csys_ok s ch" "ch p = as @ bs" "closed_on (cmem s) (descs (cmem s) (set bs))"
  shows "\<exists>s' ws ks. cancel_children reuse n (hd_opt bs) s = Some s' \<and> marked_by (descs (cmem s) (set bs)) ws ks s s'"
  using assms
proof (induction "cfresh s - p" arbitrary: p as bs s rule: less_induct)
  case (less p s0 as0 bs0)
  note outer = less.hyps
  have "\<exists>s' ws ks. cancel_children reuse n (hd_opt bs) s = Some s' \<and> marked_by (descs (cmem s) (set bs)) ws ks s s'"
    if "csys_ok s ch" "ch p = as @ bs" "closed_on (cmem s) (descs (cmem s) (set bs))" "cfresh s = cfresh s0" for as bs s
    using that
  proof (induction bs arbitrary: as s)
    case Nil
    have "marked_by {} [] [] s s" by (rule marked_by_requested) simp
    then show ?case by (auto simp: cancel_children.simps descs_def)
  next
    case (Cons c bs)
    let ?m = "cmem s"
    have T: "tree_ok ?m ch" and bound: "\<forall>d\<in>dom ?m. d < cfresh s" using Cons.prems(1) by (simp_all add: csys_ok_def)
    have kid: "a \<in> dom ?m \<and> mparent ?m a = Some p" if "a \<in> set (c # bs)" for a
      using tree_okD(6) [OF T, of a p] Cons.prems(2) that by auto
    then obtain x where x: "?m c = Some x" by auto
    have "p < c" "c < cfresh s" using tree_okD(7) [OF T, of c p] kid [of c] bound by auto
    then have pc: "cfresh s - c < cfresh s0 - p" using Cons.prems(4) by linarith
    note dis = descs_disjoint [OF T Cons.prems(2)]
    have cl: "closed_on ?m (descs ?m {c})" "closed_on ?m (descs ?m (set bs))"
      using Cons.prems(3) unfolding descs_Cons by (auto simp: closed_on_def)
    obtain s1 w1 k1 where s1: "request_cancel reuse n c s = Some s1" "marked_by (descs ?m {c}) w1 k1 s s1"
      using cancel_subtree_ok [OF Cons.prems(1) x cl(1), of reuse n] outer [of _ c "[]" "ch c"] pc by fastforce
    note same1 = marked_by_same [OF s1(2)] and ok1 = marked_by_ok [OF Cons.prems(1) s1(2)]
    obtain y where y: "cmem s1 c = Some y" using same1(5) x by (metis domD domI)
    have ny: "cs_next y = hd_opt bs" using next_sibling [OF T Cons.prems(2)] same1(3) y by (metis acc_Some(2))
    obtain s2 w2 k2 where s2: "cancel_children reuse n (hd_opt bs) s1 = Some s2" "marked_by (descs ?m (set bs)) w2 k2 s1 s2"
      using Cons.IH [OF ok1, of "as @ [c]"] Cons.prems(2,4) same1(7) closed_marked [OF s1(2) cl(2) dis]
      by (auto simp: descs_marked [OF s1(2)])
    have "marked_by (descs ?m {c} \<union> descs ?m (set bs)) (w1 @ w2) (k1 @ k2) s s2"
      by (rule marked_by_comp [OF s1(2) s2(2) dis]) (use descs_finite [OF Cons.prems(1)] kid in auto)
    then show ?case using s1(1) y ny s2(1) unfolding descs_Cons by (auto simp: cancel_children_unfold)
  qed
  then show ?case using less.prems by blast
qed

text \<open>\<open>request_cancel\<close> marks the node and everything below it.\<close>

lemma request_cancel_ok:
  assumes ok: "csys_ok s ch" and c: "c \<in> dom (cmem s)" and cl: "closed_on (cmem s) UNIV"
  shows "\<exists>s' ws ks. request_cancel reuse n c s = Some s' \<and> marked_by (descs (cmem s) {c}) ws ks s s' \<and> csys_ok s' ch \<and> closed_on (cmem s') UNIV"
proof -
  obtain x where x: "cmem s c = Some x" using c by blast
  have "closed_on (cmem s) (descs (cmem s) {c})" using cl by (auto simp: closed_on_def)
  then have "\<exists>s' ws ks. request_cancel reuse n c s = Some s' \<and> marked_by (descs (cmem s) {c}) ws ks s s'"
    by (rule cancel_subtree_ok [OF ok x]) (rule cancel_children_ok [of _ ch c "[]" "ch c"], simp_all)
  then obtain s' ws ks where r: "request_cancel reuse n c s = Some s'" "marked_by (descs (cmem s) {c}) ws ks s s'" by blast
  have "mreq (cmem s') b" if ab: "mparent (cmem s') b = Some a" "mreq (cmem s') a" for a b
  proof -
    have p: "mparent (cmem s) b = Some a" using ab(1) marked_by_same(1) [OF r(2)] by simp
    then have bd: "b \<in> dom (cmem s)" by (auto simp: mparent_def split: option.splits)
    show ?thesis
    proof (cases "b \<in> descs (cmem s) {c}")
      case True
      then show ?thesis using marked_by_requests [OF r(2) _ bd] by simp
    next
      case False
      then have "a \<notin> descs (cmem s) {c}" using p by (auto simp: descs_def anc_unfold [of "cmem s" c b])
      then have "mreq (cmem s) a" using ab(2) marked_by_outside [OF r(2), of a] by (simp add: mreq_def)
      then show ?thesis using cl p False marked_by_outside [OF r(2), of b] by (auto simp: closed_on_def mreq_def)
    qed
  qed
  then have "closed_on (cmem s') UNIV" by (simp add: closed_on_def)
  with r marked_by_ok [OF ok r(2)] show ?thesis by blast
qed

end
