(* ===== verification/Cancel_Handles.thy ===== *)
theory Cancel_Handles
  imports Cancel_Request
begin

text \<open>
  The life of cancellation states and tasks under their handles: linking a new node, and the invariant that every
  operation of a token, a source, a scope, a join handle and the runtime keeps. Counts are exact as long as they fit
  into 32 bits: the references of a node are its children, the handles, the pending kicks and the running task itself.
\<close>

section \<open>Linking a new node\<close>

definition linked_child :: "cid \<Rightarrow> cancel_state \<Rightarrow> cancel_state \<Rightarrow> cancel_state" where
  "linked_child p px x = x\<lparr>cs_parent := Some p, cs_next := cs_first px, cs_prev := None, cs_requested := cs_requested px \<or> cs_requested x\<rparr>"

lemma linked_child_simps [simp]:
  "cs_refs (linked_child p px x) = cs_refs x" "cs_parent (linked_child p px x) = Some p" "cs_next (linked_child p px x) = cs_first px"
  "cs_prev (linked_child p px x) = None" "cs_first (linked_child p px x) = cs_first x"
  by (simp_all add: linked_child_def)

lemma linked_child_eq:
  "cs_requested px \<Longrightarrow> linked_child p px x = x\<lparr>cs_parent := Some p, cs_next := cs_first px, cs_prev := None, cs_requested := True\<rparr>"
  "\<not> cs_requested px \<Longrightarrow> linked_child p px x = x\<lparr>cs_parent := Some p, cs_next := cs_first px, cs_prev := None\<rparr>"
  by (cases x; simp add: linked_child_def)+

lemma cmem_eqI: "(\<And>q. A q = B q) \<Longrightarrow> s\<lparr>cmem := A\<rparr> = s\<lparr>cmem := B\<rparr>"
  by (rule arg_cong [of A B "\<lambda>m. s\<lparr>cmem := m\<rparr>"]) auto

lemma link_effect:
  assumes "cmem s p = Some px" "cmem s c = Some x" "c \<noteq> p" "\<And>f. cs_first px = Some f \<Longrightarrow> f \<noteq> c \<and> f \<noteq> p \<and> f \<in> dom (cmem s)"
  shows "cancel_link p c s = Some (s\<lparr>cmem := (\<lambda>q. if q = p then Some (px\<lparr>cs_refs := cs_refs px + 1, cs_first := Some c\<rparr>)
    else if q = c then Some (linked_child p px x)
    else if cs_first px = Some q then map_option (\<lambda>y. y\<lparr>cs_prev := Some c\<rparr>) (cmem s q) else cmem s q)\<rparr>)"
proof (cases "cs_first px")
  case None
  then show ?thesis using assms(1-3)
    by (cases "cs_requested px") (simp add: cancel_link_def cs_add_ref_def cupd_def, rule cmem_eqI, simp add: linked_child_eq)+
next
  case (Some f)
  then obtain fx where "cmem s f = Some fx" "f \<noteq> c" "f \<noteq> p" using assms(4) by blast
  then show ?thesis using assms(1-3) Some
    by (cases "cs_requested px") (simp add: cancel_link_def cs_add_ref_def cupd_def, rule cmem_eqI, auto simp: linked_child_eq)+
qed

text \<open>The tree with a childless and parentless node \<open>c\<close> added in front of the children of \<open>p\<close>.\<close>

lemma tree_ok_linked:
  assumes T: "tree_ok m ch" and c: "m c = Some x" "mparent m c = None" "ch c = []" "p < c" "p \<in> dom m"
    and m': "dom m' = dom m" "mparent m' = (mparent m)(c := Some p)" "mfirst m' = (mfirst m)(p := Some c)"
      "mprev m' = (case hd_opt (ch p) of None \<Rightarrow> (mprev m)(c := None) | Some b \<Rightarrow> ((mprev m)(c := None))(b := Some c))"
      "mnext m' = (mnext m)(c := hd_opt (ch p))"
  shows "tree_ok m' (ch(p := c # ch p))"
proof -
  have nin: "c \<notin> set (ch q)" for q using tree_okD(6) [OF T, of c q] c(2) by auto
  obtain px where px: "m p = Some px" using c(5) by blast
  have dp: "dll (mprev m') (mnext m') None (c # ch p)"
    unfolding m' by (rule dll_push) (use tree_okD(2,3) [OF T, of p px] px nin in auto)
  have other: "dll (mprev m') (mnext m') None (ch q)" if q: "m q = Some y" "q \<noteq> p" for q y
  proof -
    have "dll (mprev m') (mnext m') None (ch q) = dll (mprev m) (mnext m) None (ch q)"
    proof (rule dll_frame)
      fix a assume a: "a \<in> set (ch q)"
      then have "a \<noteq> c" "\<And>b. hd_opt (ch p) = Some b \<Longrightarrow> a \<noteq> b"
        using nin siblings_apart [OF T, of a p q] q(2) by (auto simp: hd_opt_def split: list.splits)
      then show "mprev m' a = mprev m a \<and> mnext m' a = mnext m a" unfolding m' by (auto split: option.splits)
    qed
    then show ?thesis using tree_okD(2) [OF T, of q y] q(1) by simp
  qed
  show ?thesis
  proof (rule tree_okI)
    fix q assume "q \<in> dom m'"
    then obtain y where y: "m q = Some y" using m'(1) by auto
    show "mfirst m' q = hd_opt ((ch(p := c # ch p)) q) \<and> dll (mprev m') (mnext m') None ((ch(p := c # ch p)) q) \<and>
        distinct ((ch(p := c # ch p)) q)"
    proof (cases "q = p")
      case True
      then show ?thesis using dp nin tree_okD(3) [OF T, of p px] px unfolding m'(3) by (simp del: dll.simps)
    next
      case False
      then show ?thesis using other [OF y False] tree_okD(1,3) [OF T, of q y] y unfolding m'(3) by simp
    qed
  next
    show "a \<in> dom m' \<and> mparent m' a = Some q" if "a \<in> set ((ch(p := c # ch p)) q)" for a q
      using that tree_okD(6) [OF T, of a q] c(1) nin [of q] unfolding m'(1,2) by (auto split: if_splits)
    show "q < a \<and> q \<in> dom m' \<and> a \<in> set ((ch(p := c # ch p)) q)" if "mparent m' a = Some q" for a q
      using that tree_okD(7) [OF T, of a q] c(4,5) unfolding m'(1,2) by (auto split: if_splits)
    show "(ch(p := c # ch p)) q = []" if "q \<notin> dom m'" for q using that tree_okD(8) [OF T, of q] c(5) unfolding m'(1) by auto
  qed
qed

lemma new_state_ok:
  assumes ok: "csys_ok s ch" and ref: "counts_ok E s ch" and n: "new_state task tid s = (c, s1)"
  shows "csys_ok s1 ch \<and> counts_ok (E(c := 1)) s1 ch \<and> E c = 0 \<and> c = cfresh s \<and> c \<notin> dom (cmem s) \<and> ch c = [] \<and>
    cmem s1 = (cmem s)(c \<mapsto> fresh_state task tid) \<and> s1 = s\<lparr>cmem := cmem s1, cfresh := Suc c\<rparr>"
proof -
  let ?m = "cmem s"
  have T: "tree_ok ?m ch" and bound: "\<forall>d\<in>dom ?m. d < cfresh s" using ok by (simp_all add: csys_ok_def)
  have c: "c = cfresh s" "s1 = s\<lparr>cmem := ?m(c \<mapsto> fresh_state task tid), cfresh := Suc c\<rparr>" using n by (auto simp: new_state_def)
  have new: "c \<notin> dom ?m" using bound c(1) by blast
  then have mc: "?m c = None" by blast
  have chc: "ch c = []" using tree_okD(8) [OF T new] .
  have acc: "mprev (cmem s1) = mprev ?m" "mnext (cmem s1) = mnext ?m" "mfirst (cmem s1) = mfirst ?m" "mparent (cmem s1) = mparent ?m"
    "dom (cmem s1) = insert c (dom ?m)"
    unfolding c(2) using mc by (auto simp: fun_eq_iff fresh_state_def mprev_def mnext_def mfirst_def mparent_def)
  have "tree_ok (cmem s1) ch"
  proof (rule tree_okI)
    show "mfirst (cmem s1) q = hd_opt (ch q) \<and> dll (mprev (cmem s1)) (mnext (cmem s1)) None (ch q) \<and> distinct (ch q)" if "q \<in> dom (cmem s1)" for q
    proof (cases "q = c")
      case True
      then show ?thesis using chc mc unfolding acc by (simp add: mfirst_def)
    next
      case False
      then obtain y where "?m q = Some y" using \<open>q \<in> dom (cmem s1)\<close> unfolding acc by blast
      then show ?thesis using tree_okD(1-3) [OF T, of q y] unfolding acc by simp
    qed
    show "a \<in> dom (cmem s1) \<and> mparent (cmem s1) a = Some q" if "a \<in> set (ch q)" for a q
      using tree_okD(6) [OF T that] unfolding acc by blast
    show "q < a \<and> q \<in> dom (cmem s1) \<and> a \<in> set (ch q)" if "mparent (cmem s1) a = Some q" for a q
      using tree_okD(7) [OF T, of a q] that unfolding acc by blast
    show "ch q = []" if "q \<notin> dom (cmem s1)" for q using tree_okD(8) [OF T, of q] that unfolding acc by blast
  qed
  moreover have "\<forall>d\<in>dom (cmem s1). d < cfresh s1" using bound acc(5) c by (auto intro: less_SucI)
  moreover note D = counts_okD [OF ref]
  have "counts_ok (E(c := 1)) s1 ch"
  proof (rule counts_okI)
    show "(E(c := 1)) q + length (ch q) < 2 ^ 32" for q using D(1) [of q] chc by (cases "q = c") simp_all
    show "cs_refs x = of_nat ((E(c := 1)) q + length (ch q))" if "cmem s1 q = Some x" for q x
      using that D(2) [of q x] chc unfolding c(2) by (cases "q = c") (auto simp: fresh_state_def)
    show "q \<in> set (cdying s1) \<longleftrightarrow> (E(c := 1)) q + length (ch q) = 0" if "cmem s1 q = Some x" for q x
      using that D(3) [of q x] D(6) [of c] new unfolding c(2) by (cases "q = c") auto
    show "(E(c := 1)) q = 0" if "q \<notin> dom (cmem s1)" for q using that D(4) [of q] unfolding acc(5) by auto
    show "distinct (cdying s1)" using D(5) unfolding c(2) by simp
    show "q \<in> dom (cmem s1)" if "q \<in> set (cdying s1)" for q using that D(6) [of q] unfolding acc(5) by (simp add: c(2))
  qed
  moreover have "E c = 0" using D(4) [OF new] .
  ultimately show ?thesis using c new chc by (simp add: csys_ok_def)
qed

text \<open>The new child counts at its parent \<open>p\<close>.\<close>

lemma link_counts_ok:
  assumes ref: "counts_ok (E(c := 1)) s1 ch" and p: "cmem s1 p = Some px" "0 < E p" "E p + length (ch p) + 1 < 2 ^ 32" "p \<noteq> c"
    and m': "dom m' = dom (cmem s1)" "\<And>x. m' p = Some x \<Longrightarrow> cs_refs x = cs_refs px + 1"
      "\<And>q x. q \<noteq> p \<Longrightarrow> m' q = Some x \<Longrightarrow> \<exists>z. cmem s1 q = Some z \<and> cs_refs x = cs_refs z"
  shows "counts_ok (E(c := 1)) (s1\<lparr>cmem := m'\<rparr>) (ch(p := c # ch p))"
proof -
  note D = counts_okD [OF ref]
  show ?thesis
  proof (rule counts_okI)
    show "(E(c := 1)) q + length ((ch(p := c # ch p)) q) < 2 ^ 32" for q using D(1) [of q] p(3,4) by (cases "q = p") simp_all
    show "cs_refs x = of_nat ((E(c := 1)) q + length ((ch(p := c # ch p)) q))" if x: "cmem (s1\<lparr>cmem := m'\<rparr>) q = Some x" for q x
    proof (cases "q = p")
      case True
      then show ?thesis using m'(2) [of x] x D(2) [OF p(1)] p(4) by simp
    next
      case False
      then obtain z where "cmem s1 q = Some z" "cs_refs x = cs_refs z" using m'(3) [of q x] x by auto
      then show ?thesis using D(2) [of q z] False by simp
    qed
    show "q \<in> set (cdying (s1\<lparr>cmem := m'\<rparr>)) \<longleftrightarrow> (E(c := 1)) q + length ((ch(p := c # ch p)) q) = 0" if x: "cmem (s1\<lparr>cmem := m'\<rparr>) q = Some x" for q x
    proof (cases "q = p")
      case True
      then show ?thesis using D(3) [OF p(1)] p(2,4) by simp
    next
      case False
      then obtain z where "cmem s1 q = Some z" using m'(3) [of q x] x by auto
      then show ?thesis using D(3) [of q z] False by simp
    qed
    show "(E(c := 1)) q = 0" if "q \<notin> dom (cmem (s1\<lparr>cmem := m'\<rparr>))" for q using that D(4) [of q] m'(1) by simp
    show "q \<in> dom (cmem (s1\<lparr>cmem := m'\<rparr>))" if "q \<in> set (cdying (s1\<lparr>cmem := m'\<rparr>))" for q using that D(6) [of q] m'(1) by simp
  qed (use D(5) in simp)
qed

lemma link_fresh_ok:
  assumes ok: "csys_ok s ch" and ref: "counts_ok E s ch" and p: "0 < E p" "E p + length (ch p) + 1 < 2 ^ 32" and n: "new_state task tid s = (c, s1)"
  shows "\<exists>s2. cancel_link p c s1 = Some s2 \<and> csys_ok s2 (ch(p := c # ch p)) \<and>
    counts_ok (E(c := 1)) s2 (ch(p := c # ch p)) \<and> (\<forall>q. q \<noteq> c \<longrightarrow> mcore (cmem s2) q = mcore (cmem s) q) \<and>
    mcore (cmem s2) c = Some ((fresh_state task tid)\<lparr>cs_refs := 0, cs_parent := Some p, cs_requested := mreq (cmem s) p\<rparr>) \<and>
    dom (cmem s2) = insert c (dom (cmem s)) \<and> s2 = s\<lparr>cmem := cmem s2, cfresh := Suc c\<rparr>"
proof -
  let ?x = "fresh_state task tid"
  from new_state_ok [OF ok ref n] have n: "csys_ok s1 ch" "counts_ok (E(c := 1)) s1 ch" "c = cfresh s" "c \<notin> dom (cmem s)" "ch c = []"
    "cmem s1 = (cmem s)(c \<mapsto> ?x)" "s1 = s\<lparr>cmem := cmem s1, cfresh := Suc c\<rparr>" by blast+
  have T: "tree_ok (cmem s1) ch" and bound: "\<forall>d\<in>dom (cmem s). d < cfresh s" using n(1) ok by (simp_all add: csys_ok_def)
  have pd: "p \<in> dom (cmem s)" using counts_okD(7) [OF ref p(1)] .
  then obtain px where px: "cmem s p = Some px" by blast
  have pc: "p < c" "p \<noteq> c" using bound pd n(3,4) by auto
  have px1: "cmem s1 p = Some px" "cmem s1 c = Some ?x" using px pc n(6) by simp_all
  have fi: "cs_first px = hd_opt (ch p)" using tree_okD(1) [OF T, of p px] px1(1) by simp
  have kid: "f \<noteq> c \<and> f \<noteq> p \<and> f \<in> dom (cmem s1)" if "cs_first px = Some f" for f
  proof -
    have "f \<in> set (ch p)" using that fi by (auto simp: hd_opt_def split: list.splits)
    then have "f \<in> dom (cmem s1)" "mparent (cmem s1) f = Some p" using tree_okD(6) [OF T, of f p] by blast+
    moreover have "mparent (cmem s1) c = None" using px1(2) by (simp add: fresh_state_def)
    ultimately show ?thesis using tree_okD(7) [OF T, of f p] by auto
  qed
  define m' where "m' = (\<lambda>q. if q = p then Some (px\<lparr>cs_refs := cs_refs px + 1, cs_first := Some c\<rparr>)
    else if q = c then Some (linked_child p px ?x)
    else if cs_first px = Some q then map_option (\<lambda>y. y\<lparr>cs_prev := Some c\<rparr>) (cmem s1 q) else cmem s1 q)"
  have lk: "cancel_link p c s1 = Some (s1\<lparr>cmem := m'\<rparr>)"
    unfolding m'_def using link_effect [of s1 p px c ?x] px1 pc kid by simp
  have acc: "dom m' = dom (cmem s1)" "mparent m' = (mparent (cmem s1))(c := Some p)" "mfirst m' = (mfirst (cmem s1))(p := Some c)"
    "mprev m' = (case hd_opt (ch p) of None \<Rightarrow> (mprev (cmem s1))(c := None) | Some b \<Rightarrow> ((mprev (cmem s1))(c := None))(b := Some c))"
    "mnext m' = (mnext (cmem s1))(c := hd_opt (ch p))"
    unfolding fi [symmetric] using px1 pc kid
    by (auto simp: fun_eq_iff m'_def mparent_def mfirst_def mprev_def mnext_def fresh_state_def split: option.splits if_splits)
  have tree: "tree_ok m' (ch(p := c # ch p))"
    by (rule tree_ok_linked [OF T px1(2)]) (use acc n(5) pc px1 in \<open>auto simp: fresh_state_def\<close>)
  have cnt: "counts_ok (E(c := 1)) (s1\<lparr>cmem := m'\<rparr>) (ch(p := c # ch p))"
  proof (rule link_counts_ok [OF n(2) px1(1) p(1) p(2) pc(2) acc(1)])
    show "cs_refs x = cs_refs px + 1" if "m' p = Some x" for x using that by (auto simp: m'_def)
    show "\<exists>z. cmem s1 q = Some z \<and> cs_refs x = cs_refs z" if "q \<noteq> p" "m' q = Some x" for q x
      using that px1(2) by (cases "cmem s1 q") (auto simp: m'_def split: if_splits)
  qed
  have s2: "s1\<lparr>cmem := m'\<rparr> = s\<lparr>cmem := m', cfresh := Suc c\<rparr>" by (subst n(7)) simp
  have core: "mcore m' q = (if q = c then Some (?x\<lparr>cs_refs := 0, cs_parent := Some p, cs_requested := mreq (cmem s) p\<rparr>) else mcore (cmem s) q)" for q
    using px px1 pc kid [of q] n(6)
    by (auto simp: m'_def mcore_def linked_child_def core_def fresh_state_def mreq_def)
  show ?thesis
    by (rule exI [of _ "s1\<lparr>cmem := m'\<rparr>"]) (use lk tree cnt s2 core acc(1) n(3,6) bound in \<open>auto simp: csys_ok_def intro: less_SucI\<close>)
qed

section \<open>Invariant\<close>

text \<open>\<open>R\<close> is the set of tasks that have been spawned and have not completed; \<open>E\<close> the references that are not those of
  children.\<close>

definition node_ok :: "cid set \<Rightarrow> (cid \<Rightarrow> cancel_state option) \<Rightarrow> cid \<Rightarrow> cancel_state \<Rightarrow> bool" where
  "node_ok R m q x \<longleftrightarrow> unat (cs_live x) = card {t \<in> R. anc m q t} \<and> (cs_requested x \<longrightarrow> cs_cancel_waiters x = []) \<and>
     (cs_live x = 0 \<longrightarrow> cs_join_waiters x = []) \<and> (cs_status x \<longrightarrow> cs_done_waiters x = [])"

definition cinv :: "(cid \<Rightarrow> nat) \<Rightarrow> cid set \<Rightarrow> csys \<Rightarrow> bool" where
  "cinv E R s \<longleftrightarrow> (\<exists>ch. csys_ok s ch \<and> counts_ok E s ch) \<and> card (dom (cmem s)) < 2 ^ 32 \<and> closed_on (cmem s) UNIV \<and> (\<forall>t\<in>R. 0 < E t) \<and>
     (\<forall>q x. cmem s q = Some x \<longrightarrow> node_ok R (cmem s) q x)"

text \<open>There is room for one operation more: no counter gets to its end.\<close>

definition roomy :: "(cid \<Rightarrow> nat) \<Rightarrow> csys \<Rightarrow> bool" where
  "roomy E s \<longleftrightarrow> (\<forall>q. E q + card (dom (cmem s)) + 3 < 2 ^ 32)"

lemma cinvD:
  assumes "cinv E R s"
  shows "\<exists>ch. csys_ok s ch \<and> counts_ok E s ch" "closed_on (cmem s) UNIV" "\<And>t. t \<in> R \<Longrightarrow> 0 < E t"
    "\<And>q x. cmem s q = Some x \<Longrightarrow> node_ok R (cmem s) q x" "\<And>q. 0 < E q \<Longrightarrow> q \<in> dom (cmem s)" "finite R" "R \<subseteq> dom (cmem s)"
    "card (dom (cmem s)) < 2 ^ 32" "finite (dom (cmem s))"
proof -
  obtain ch where ch: "csys_ok s ch" "counts_ok E s ch" using assms by (auto simp: cinv_def)
  then show "\<exists>ch. csys_ok s ch \<and> counts_ok E s ch" by blast
  show "closed_on (cmem s) UNIV" "\<And>q x. cmem s q = Some x \<Longrightarrow> node_ok R (cmem s) q x" "card (dom (cmem s)) < 2 ^ 32" and pos: "\<And>t. t \<in> R \<Longrightarrow> 0 < E t"
    using assms by (simp_all add: cinv_def)
  show d: "q \<in> dom (cmem s)" if "0 < E q" for q using counts_okD(7) [OF ch(2) that] .
  then show R: "R \<subseteq> dom (cmem s)" using pos by blast
  show "finite (dom (cmem s))" using children_le(2) [OF ch(1)] .
  then show "finite R" using finite_subset [OF R] by blast
qed

lemma cinvI:
  assumes "csys_ok s ch" "counts_ok E s ch" "card (dom (cmem s)) < 2 ^ 32" "closed_on (cmem s) UNIV" "\<And>t. t \<in> R \<Longrightarrow> 0 < E t"
    "\<And>q x. cmem s q = Some x \<Longrightarrow> node_ok R (cmem s) q x"
  shows "cinv E R s"
  using assms unfolding cinv_def by blast

text \<open>Memory that lost some nodes, and where the others kept everything but counts and sibling pointers.\<close>

lemma anc_shrink:
  assumes "tree_ok m' ch'" "\<And>q. q \<in> dom m' \<Longrightarrow> mparent m' q = mparent m q" "t \<in> dom m'"
  shows "anc m' a t = anc m a t"
  using assms(3)
proof (induction t rule: less_induct)
  case (less t)
  have "anc m' a p = anc m a p" if "mparent m' t = Some p" for p using tree_okD(7) [OF assms(1) that] less.IH by blast
  then show ?case using assms(2) [OF less.prems] by (auto simp: anc_unfold [of m' a t] anc_unfold [of m a t])
qed

lemma shrink_ok:
  assumes I: "cinv E R s" and ok: "csys_ok s' ch'" "counts_ok E' s' ch'" and R: "\<And>t. t \<in> R \<Longrightarrow> 0 < E' t"
    and core: "\<And>q. q \<in> dom (cmem s') \<Longrightarrow> mcore (cmem s') q = mcore (cmem s) q"
  shows "cinv E' R s'"
proof -
  have T: "tree_ok (cmem s') ch'" using ok(1) by (simp add: csys_ok_def)
  have R': "R \<subseteq> dom (cmem s')" using counts_okD(7) [OF ok(2) R] by blast
  have old: "\<exists>x. cmem s q = Some x \<and> core y = core x" if "cmem s' q = Some y" for q y
    using core [of q] that by (cases "cmem s q") (auto simp: mcore_def)
  have par: "mparent (cmem s') q = mparent (cmem s) q" and req: "mreq (cmem s') q = mreq (cmem s) q" if "q \<in> dom (cmem s')" for q
  proof -
    obtain y where "cmem s' q = Some y" using \<open>q \<in> dom (cmem s')\<close> by blast
    moreover from old [OF this] obtain x where "cmem s q = Some x" "core y = core x" by blast
    ultimately show "mparent (cmem s') q = mparent (cmem s) q" "mreq (cmem s') q = mreq (cmem s) q"
      using core_eqD(1,3) [of y x] by (simp_all add: mreq_def)
  qed
  have "dom (cmem s') \<subseteq> dom (cmem s)" using old by blast
  then have "card (dom (cmem s')) \<le> card (dom (cmem s))" by (rule card_mono [OF cinvD(9) [OF I]])
  then have cd: "card (dom (cmem s')) < 2 ^ 32" using cinvD(8) [OF I] by linarith
  show ?thesis
  proof (rule cinvI [OF ok cd])
    show "closed_on (cmem s') UNIV" unfolding closed_on_def
    proof (intro allI impI)
      fix a b assume a: "mparent (cmem s') b = Some a" "mreq (cmem s') a"
      have d: "a \<in> dom (cmem s')" "b \<in> dom (cmem s')" using tree_okD(6,7) [OF T] a(1) by blast+
      show "mreq (cmem s') b" using cinvD(2) [OF I] a par [OF d(2)] req [OF d(1)] req [OF d(2)] by (simp add: closed_on_def)
    qed
    fix q y assume y: "cmem s' q = Some y"
    then obtain x where x: "cmem s q = Some x" "core y = core x" using old by blast
    have "{t \<in> R. anc (cmem s') q t} = {t \<in> R. anc (cmem s) q t}" using anc_shrink [OF T par] R' by blast
    then show "node_ok R (cmem s') q y" using cinvD(4) [OF I x(1)] core_eqD [OF x(2)] by (simp add: node_ok_def)
  qed (use R in auto)
qed

lemma add_ref_inv:
  assumes I: "cinv E R s" and c: "0 < E c" "E c + card (dom (cmem s)) + 1 < 2 ^ 32"
  shows "\<exists>s'. cs_add_ref c s = Some s' \<and> cinv (E(c := Suc (E c))) R s' \<and> s' = s\<lparr>cmem := cmem s'\<rparr> \<and> dom (cmem s') = dom (cmem s)"
proof -
  obtain ch where ch: "csys_ok s ch" "counts_ok E s ch" using cinvD(1) [OF I] by blast
  note D = counts_okD [OF ch(2)]
  obtain x where x: "cmem s c = Some x" using D(7) [OF c(1)] by blast
  let ?s' = "s\<lparr>cmem := (cmem s)(c \<mapsto> x\<lparr>cs_refs := cs_refs x + 1\<rparr>)\<rparr>" and ?E = "E(c := Suc (E c))"
  have ok: "csys_ok ?s' ch" by (rule csys_ok_write [OF ch(1) x]) simp_all
  have cnt: "counts_ok ?E ?s' ch"
  proof (rule counts_okI)
    show "?E q + length (ch q) < 2 ^ 32" for q using D(1) [of q] c(2) children_le(1) [OF ch(1), of c] by (cases "q = c") simp_all
    show "cs_refs y = of_nat (?E q + length (ch q))" if "cmem ?s' q = Some y" for q y
      using that D(2) [of q y] D(2) [OF x] by (cases "q = c") (auto simp: ac_simps)
    show "q \<in> set (cdying ?s') \<longleftrightarrow> ?E q + length (ch q) = 0" if "cmem ?s' q = Some y" for q y
      using that D(3) [of q y] D(3) [OF x] c(1) by (cases "q = c") auto
    show "?E q = 0" if "q \<notin> dom (cmem ?s')" for q using that D(4) [of q] by (auto split: if_splits)
    show "q \<in> dom (cmem ?s')" if "q \<in> set (cdying ?s')" for q using that D(6) [of q] by simp
  qed (use D(5) in simp)
  have "cinv ?E R ?s'"
    by (rule shrink_ok [OF I ok cnt]) (use cinvD(3) [OF I] x in \<open>auto simp: mcore_def\<close>)
  then show ?thesis using x by (auto simp: cs_add_ref_def cupd_def)
qed

lemma release_inv:
  assumes I: "cinv E R s" and c: "0 < E c" "c \<in> R \<Longrightarrow> 1 < E c"
  shows "\<exists>s'. release_ref c s = Some s' \<and> cinv (E(c := E c - 1)) R s' \<and> s' = s\<lparr>cmem := cmem s', cdying := cdying s'\<rparr>"
proof -
  obtain ch where ch: "csys_ok s ch" "counts_ok E s ch" using cinvD(1) [OF I] by blast
  from release_ref_ok [OF ch c(1)] obtain s' where s': "release_ref c s = Some s'" "csys_ok s' ch"
    "counts_ok (E(c := E c - 1)) s' ch" "mcore (cmem s') = mcore (cmem s)" "s' = s\<lparr>cmem := cmem s', cdying := cdying s'\<rparr>" by blast
  have "cinv (E(c := E c - 1)) R s'"
    by (rule shrink_ok [OF I s'(2,3)]) (use s'(4) c cinvD(3) [OF I] in auto)
  then show ?thesis using s'(1,5) by blast
qed

text \<open>The end of a release: the node is gone and its parent is still to be released.\<close>

lemma free_inv:
  assumes I: "cinv E R s" and c: "c \<in> set (cdying s)"
  shows "\<exists>po s'. delete_node c s = Some (po, s') \<and> cinv (case po of None \<Rightarrow> E | Some p \<Rightarrow> E(p := Suc (E p))) R s' \<and> s' = s\<lparr>cmem := cmem s', cdying := cdying s'\<rparr>"
proof -
  obtain ch where ch: "csys_ok s ch" "counts_ok E s ch" using cinvD(1) [OF I] by blast
  from delete_node_ok [OF ch c] obtain po s' ch' where s': "delete_node c s = Some (po, s')" "csys_ok s' ch'"
    "counts_ok (case po of None \<Rightarrow> E | Some p \<Rightarrow> E(p := Suc (E p))) s' ch'" "\<forall>q\<in>dom (cmem s'). mcore (cmem s') q = mcore (cmem s) q"
    "s' = s\<lparr>cmem := cmem s', cdying := cdying s'\<rparr>" by blast
  have "cinv (case po of None \<Rightarrow> E | Some p \<Rightarrow> E(p := Suc (E p))) R s'"
    by (rule shrink_ok [OF I s'(2,3)]) (use s'(4) cinvD(3) [OF I] in \<open>auto split: option.split\<close>)
  then show ?thesis using s'(1,5) by blast
qed

text \<open>Memory that gained a node.\<close>

lemma grow_ok:
  assumes I: "cinv E R s" and room: "roomy E s" and ok: "csys_ok s2 ch2" "counts_ok (E(c := 1)) s2 ch2" and new: "c \<notin> dom (cmem s)"
    and others: "\<And>q. q \<noteq> c \<Longrightarrow> mcore (cmem s2) q = mcore (cmem s) q" and k: "mcore (cmem s2) c = Some k"
    and fields: "cs_live k = 0" "cs_cancel_waiters k = []" "cs_join_waiters k = []" "cs_done_waiters k = []"
    and par: "\<And>p. cs_parent k = Some p \<Longrightarrow> mreq (cmem s) p \<Longrightarrow> cs_requested k"
  shows "cinv (E(c := 1)) R s2"
proof -
  obtain ch where ch: "csys_ok s ch" using cinvD(1) [OF I] by blast
  have T: "tree_ok (cmem s) ch" and T2: "tree_ok (cmem s2) ch2" using ch ok(1) by (simp_all add: csys_ok_def)
  obtain z where z: "cmem s2 c = Some z" "core z = k" using k by (auto simp: mcore_Some)
  have zf: "cs_live z = 0" "cs_cancel_waiters z = []" "cs_join_waiters z = []" "cs_done_waiters z = []" "cs_parent z = cs_parent k" "cs_requested z = cs_requested k"
    using z(2) fields by (auto simp: core_def)
  have old: "\<exists>x. cmem s q = Some x \<and> core y = core x" if "cmem s2 q = Some y" "q \<noteq> c" for q y
    using others [OF that(2)] that(1) by (cases "cmem s q") (auto simp: mcore_def)
  have dom2: "q \<in> dom (cmem s2) \<longleftrightarrow> q = c \<or> q \<in> dom (cmem s)" for q
    using others [of q] z(1) by (cases "cmem s q"; cases "cmem s2 q"; cases "q = c") (auto simp: mcore_def)
  have par2: "mparent (cmem s) q = mparent (cmem s2) q" and req2: "mreq (cmem s2) q = mreq (cmem s) q" if "q \<in> dom (cmem s)" for q
  proof -
    obtain y where "cmem s2 q = Some y" "q \<noteq> c" using \<open>q \<in> dom (cmem s)\<close> dom2 new by blast
    moreover from old [OF this] obtain x where "cmem s q = Some x" "core y = core x" by blast
    ultimately show "mparent (cmem s) q = mparent (cmem s2) q" "mreq (cmem s2) q = mreq (cmem s) q"
      using core_eqD(1,3) [of y x] by (simp_all add: mreq_def)
  qed
  have R: "R \<subseteq> dom (cmem s)" using cinvD(7) [OF I] .
  have anc2: "{t \<in> R. anc (cmem s2) q t} = {t \<in> R. anc (cmem s) q t}" for q using anc_shrink [OF T par2] R by blast
  have "{t \<in> R. anc (cmem s) c t} = {}" using anc_dom [OF T] R new by blast
  then have live_c: "card {t \<in> R. anc (cmem s2) c t} = 0" unfolding anc2 by (metis card.empty)
  have "dom (cmem s2) = insert c (dom (cmem s))" using dom2 by blast
  then have cd: "card (dom (cmem s2)) < 2 ^ 32" using room [unfolded roomy_def, rule_format, of c] cinvD(9) [OF I] new by simp
  show ?thesis
  proof (rule cinvI [OF ok cd])
    show "closed_on (cmem s2) UNIV" unfolding closed_on_def
    proof (intro allI impI)
      fix a b assume a: "mparent (cmem s2) b = Some a" "mreq (cmem s2) a"
      show "mreq (cmem s2) b"
      proof (cases "b = c")
        case True
        have "a < c" "a \<in> dom (cmem s2)" using tree_okD(7) [OF T2, of b a] a(1) True by auto
        then have "a \<in> dom (cmem s)" using dom2 [of a] by auto
        then show ?thesis using par [of a] a req2 [of a] z(1) zf(5,6) True by (simp add: mreq_def)
      next
        case False
        have "b \<in> dom (cmem s)" using False dom2 a(1) by (auto simp: mparent_def split: option.splits)
        moreover from this have ab: "mparent (cmem s) b = Some a" using par2 [of b] a(1) by simp
        moreover have "a \<in> dom (cmem s)" using tree_okD(7) [OF T ab] by blast
        ultimately show ?thesis using cinvD(2) [OF I] req2 [of a] req2 [of b] a(2) by (simp add: closed_on_def)
      qed
    qed
    show "0 < (E(c := 1)) t" if "t \<in> R" for t using cinvD(3) [OF I that] by simp
    show "node_ok R (cmem s2) q y" if y: "cmem s2 q = Some y" for q y
    proof (cases "q = c")
      case True
      then show ?thesis using zf z(1) y live_c by (simp add: node_ok_def)
    next
      case False
      then obtain x where "cmem s q = Some x" "core y = core x" using old [OF y] by blast
      then show ?thesis using cinvD(4) [OF I, of q x] core_eqD [of y x] anc2 [of q] by (simp add: node_ok_def)
    qed
  qed
qed

lemma new_source_inv:
  assumes I: "cinv E R s" and room: "roomy E s" and p: "\<And>p. po = Some p \<Longrightarrow> 0 < E p"
  shows "\<exists>s2. (case po of None \<Rightarrow> Some (snd (new_state task tid s)) | Some p \<Rightarrow> cancel_link p (cfresh s) (snd (new_state task tid s))) = Some s2 \<and>
    cinv (E(cfresh s := 1)) R s2 \<and> s2 = s\<lparr>cmem := cmem s2, cfresh := Suc (cfresh s)\<rparr> \<and> cfresh s \<notin> dom (cmem s) \<and> dom (cmem s2) = insert (cfresh s) (dom (cmem s))"
proof -
  obtain ch where ch: "csys_ok s ch" "counts_ok E s ch" using cinvD(1) [OF I] by blast
  obtain c s1 where n: "new_state task tid s = (c, s1)" by (cases "new_state task tid s")
  from new_state_ok [OF ch n] have n1: "csys_ok s1 ch" "counts_ok (E(c := 1)) s1 ch" "c = cfresh s" "c \<notin> dom (cmem s)"
    "cmem s1 = (cmem s)(c \<mapsto> fresh_state task tid)" "s1 = s\<lparr>cmem := cmem s1, cfresh := Suc c\<rparr>" by blast+
  show ?thesis
  proof (cases po)
    case None
    have "cinv (E(c := 1)) R s1"
      by (rule grow_ok [OF I room n1(1,2,4), of "core (fresh_state task tid)"]) (auto simp: n1(5) mcore_def core_def fresh_state_def)
    then show ?thesis using n n1(3-6) None by auto
  next
    case (Some p)
    have len: "E p + length (ch p) + 1 < 2 ^ 32" using room [unfolded roomy_def, rule_format, of p] children_le(1) [OF ch(1), of p] by linarith
    from link_fresh_ok [OF ch p [OF Some] len n] obtain s2 where s2: "cancel_link p c s1 = Some s2" "csys_ok s2 (ch(p := c # ch p))"
      "counts_ok (E(c := 1)) s2 (ch(p := c # ch p))" "\<And>q. q \<noteq> c \<Longrightarrow> mcore (cmem s2) q = mcore (cmem s) q"
      "mcore (cmem s2) c = Some ((fresh_state task tid)\<lparr>cs_refs := 0, cs_parent := Some p, cs_requested := mreq (cmem s) p\<rparr>)"
      "dom (cmem s2) = insert c (dom (cmem s))" "s2 = s\<lparr>cmem := cmem s2, cfresh := Suc c\<rparr>" by blast
    have "cinv (E(c := 1)) R s2"
      by (rule grow_ok [OF I room s2(2,3) n1(4) s2(4,5)]) (auto simp: fresh_state_def)
    then show ?thesis using n n1(3,4) s2(1,6,7) Some by auto
  qed
qed


text \<open>Writes to the values of nodes only.\<close>

definition keeps_links :: "(cancel_state \<Rightarrow> cancel_state) \<Rightarrow> bool" where
  "keeps_links f \<longleftrightarrow> (\<forall>x. cs_refs (f x) = cs_refs x \<and> cs_parent (f x) = cs_parent x \<and> cs_prev (f x) = cs_prev x \<and> cs_next (f x) = cs_next x \<and>
     cs_first (f x) = cs_first x \<and> cs_requested (f x) = cs_requested x)"

lemma value_upd_ok:
  assumes I: "cinv E R s" and f: "keeps_links f"
    and s': "\<And>q. cmem s' q = (if P q then map_option f (cmem s q) else cmem s q)" "cfresh s' = cfresh s" "cdying s' = cdying s"
    and R': "\<And>t. t \<in> R' \<Longrightarrow> 0 < E t"
    and nodes: "\<And>q x. cmem s q = Some x \<Longrightarrow> node_ok R (cmem s) q x \<Longrightarrow> node_ok R' (cmem s) q (if P q then f x else x)"
  shows "cinv E R' s'"
proof -
  obtain ch where ch: "csys_ok s ch" "counts_ok E s ch" using cinvD(1) [OF I] by blast
  have acc: "mparent (cmem s') = mparent (cmem s)" "mprev (cmem s') = mprev (cmem s)" "mnext (cmem s') = mnext (cmem s)"
    "mfirst (cmem s') = mfirst (cmem s)" "mreq (cmem s') = mreq (cmem s)" "dom (cmem s') = dom (cmem s)"
    using s'(1) f by (auto simp: fun_eq_iff keeps_links_def mparent_def mprev_def mnext_def mfirst_def mreq_def dom_def split: option.splits)
  have T: "tree_ok (cmem s) ch" using ch(1) by (simp add: csys_ok_def)
  have "tree_ok (cmem s') ch" by (intro tree_ok_same [OF T] acc)
  then have ok: "csys_ok s' ch" using ch(1) s'(2) acc(6) by (simp add: csys_ok_def)
  note D = counts_okD [OF ch(2)]
  have old: "\<exists>x. cmem s q = Some x \<and> y = (if P q then f x else x) \<and> cs_refs y = cs_refs x" if "cmem s' q = Some y" for q y
    using that f unfolding s'(1) by (cases "cmem s q"; cases "P q") (auto simp: keeps_links_def)
  have cnt: "counts_ok E s' ch"
  proof (rule counts_okI)
    show "cs_refs y = of_nat (E q + length (ch q))" if "cmem s' q = Some y" for q y using old [OF that] D(2) [of q] by auto
    show "q \<in> set (cdying s') \<longleftrightarrow> E q + length (ch q) = 0" if "cmem s' q = Some y" for q y using old [OF that] D(3) [of q] s'(3) by auto
  qed (use D(1,4,5,6) s'(3) acc(6) in simp_all)
  have anc': "anc (cmem s') = anc (cmem s)" by (rule anc_cong) (rule acc(1))
  show ?thesis
  proof (rule cinvI [OF ok cnt])
    show "card (dom (cmem s')) < 2 ^ 32" using cinvD(8) [OF I] acc(6) by simp
    show "closed_on (cmem s') UNIV" using cinvD(2) [OF I] acc(1,5) by (simp add: closed_on_def)
    show "0 < E t" if "t \<in> R'" for t using R' [OF that] .
    show "node_ok R' (cmem s') q y" if y: "cmem s' q = Some y" for q y
    proof -
      obtain x where x: "cmem s q = Some x" "y = (if P q then f x else x)" using old [OF y] by blast
      then have "node_ok R' (cmem s) q y" using nodes [OF x(1) cinvD(4) [OF I x(1)]] by simp
      then show ?thesis by (simp add: node_ok_def anc')
    qed
  qed
qed

lemma unat_inc: "unat (w :: u32) + 1 < 2 ^ 32 \<Longrightarrow> unat (w + 1) = unat w + 1"
  by (simp add: unat_word_ariths)

lemma unat_dec: "w \<noteq> 0 \<Longrightarrow> unat (w - 1 :: u32) = unat w - 1"
  by (rule unat_minus_one)

lemma retain_inv:
  assumes I: "cinv E R s" and c: "0 < E c" "c \<notin> R"
  shows "\<exists>s'. retain_live_chain (Some c) s = Some s' \<and> cinv E (insert c R) s' \<and> s' = s\<lparr>cmem := cmem s'\<rparr>"
proof -
  obtain ch where ch: "csys_ok s ch" using cinvD(1) [OF I] by blast
  let ?f = "\<lambda>y. y\<lparr>cs_live := cs_live y + 1\<rparr>"
  let ?s' = "s\<lparr>cmem := chain_upd ?f c (cmem s)\<rparr>"
  have "cinv E (insert c R) ?s'"
  proof (rule value_upd_ok [OF I, of ?f ?s' "\<lambda>q. anc (cmem s) q c"])
    fix q x assume x: "cmem s q = Some x" "node_ok R (cmem s) q x"
    have "{t \<in> insert c R. anc (cmem s) q t} = (if anc (cmem s) q c then insert c {t \<in> R. anc (cmem s) q t} else {t \<in> R. anc (cmem s) q t})"
      by auto
    then have set: "card {t \<in> insert c R. anc (cmem s) q t} = card {t \<in> R. anc (cmem s) q t} + (if anc (cmem s) q c then 1 else 0)"
      using c(2) cinvD(6) [OF I] by simp
    have "{t \<in> insert c R. anc (cmem s) q t} \<subseteq> dom (cmem s)" using cinvD(5) [OF I c(1)] cinvD(7) [OF I] by blast
    then have "card {t \<in> insert c R. anc (cmem s) q t} \<le> card (dom (cmem s))" by (rule card_mono [OF cinvD(9) [OF I]])
    then have "card {t \<in> insert c R. anc (cmem s) q t} < 2 ^ 32" using cinvD(8) [OF I] by linarith
    then have "unat (cs_live x + 1) = unat (cs_live x) + 1" if "anc (cmem s) q c" using that set x(2) by (intro unat_inc) (simp add: node_ok_def)
    moreover from this have "cs_live x + 1 \<noteq> 0" if "anc (cmem s) q c" using that by (metis add_eq_0_iff_both_eq_0 unat_0 zero_neq_one)
    ultimately show "node_ok (insert c R) (cmem s) q (if anc (cmem s) q c then ?f x else x)"
      using x(2) set by (simp add: node_ok_def)
  qed (use c(1) cinvD(3) [OF I] in \<open>auto simp: keeps_links_def chain_upd_def\<close>)
  then show ?thesis using retain_live_chain_ok [OF ch cinvD(5) [OF I c(1)]] by auto
qed

lemma drop_inv:
  assumes I: "cinv E R s" and c: "c \<in> R"
  shows "\<exists>s' ws. drop_live_chain (Some c) s = Some s' \<and> cinv E (R - {c}) s' \<and> s' = s\<lparr>cmem := cmem s', cwoken := cwoken s @ ws\<rparr> \<and>
    cmem s' = chain_upd drop_node c (cmem s) \<and> set ws = (\<Union>a. drained (cmem s) c a)"
proof -
  obtain ch where ch: "csys_ok s ch" using cinvD(1) [OF I] by blast
  from drop_live_chain_ok [OF ch cinvD(5) [OF I cinvD(3) [OF I c]]] obtain ws where
    ws: "drop_live_chain (Some c) s = Some (s\<lparr>cmem := chain_upd drop_node c (cmem s), cwoken := cwoken s @ ws\<rparr>)"
      "set ws = (\<Union>a. drained (cmem s) c a)" by blast
  let ?s' = "s\<lparr>cmem := chain_upd drop_node c (cmem s), cwoken := cwoken s @ ws\<rparr>"
  have "cinv E (R - {c}) ?s'"
  proof (rule value_upd_ok [OF I, of drop_node ?s' "\<lambda>q. anc (cmem s) q c"])
    fix q x assume x: "cmem s q = Some x" "node_ok R (cmem s) q x"
    have "{t \<in> R - {c}. anc (cmem s) q t} = {t \<in> R. anc (cmem s) q t} - (if anc (cmem s) q c then {c} else {})"
      by auto
    then have "card {t \<in> R - {c}. anc (cmem s) q t} = card {t \<in> R. anc (cmem s) q t} - (if anc (cmem s) q c then 1 else 0)"
      using c cinvD(6) [OF I] by (simp add: card_Diff_singleton)
    moreover have "anc (cmem s) q c \<Longrightarrow> card {t \<in> R. anc (cmem s) q t} \<noteq> 0" using c cinvD(6) [OF I] by auto
    then have nz: "cs_live x \<noteq> 0" if "anc (cmem s) q c" using that x(2) by (auto simp: node_ok_def)
    moreover have "cs_live x - 1 = 0 \<longleftrightarrow> cs_live x = 1" by simp
    ultimately show "node_ok (R - {c}) (cmem s) q (if anc (cmem s) q c then drop_node x else x)"
      using x(2) unat_dec [OF nz] by (auto simp: node_ok_def drop_node_def)
  qed (use cinvD(3) [OF I] in \<open>auto simp: keeps_links_def chain_upd_def drop_node_def\<close>)
  then show ?thesis using ws by auto
qed

text \<open>A walk kicks no dying node.\<close>

lemma marked_counts_ok:
  assumes ref: "counts_ok E s ch" and m: "marked_by D ws ks s s'" and room: "\<And>q. E q + length (ch q) + 1 < 2 ^ 32"
  shows "counts_ok (\<lambda>q. E q + count_list ks q) s' ch"
proof -
  note RD = counts_okD [OF ref] and same = marked_by_same [OF m]
  have node: "\<exists>x. cmem s q = Some x \<and> cs_refs y = cs_refs x + of_nat (count_list ks q) \<and> kick_max x (count_list ks q)" if "cmem s' q = Some y" for q y
  proof (cases "q \<in> D \<and> q \<in> dom (cmem s) \<and> \<not> mreq (cmem s) q")
    case True
    then obtain b where "cmem s' q = Some (cancel_node (count_list ks q) b (the (cmem s q)))" "kick_max (the (cmem s q)) (count_list ks q)"
      using marked_by_at [OF m, of q] by (auto split: if_splits)
    then show ?thesis using True that by (auto simp: cancel_node_def)
  next
    case False
    then have "q \<notin> set ks" "cmem s' q = cmem s q" using marked_by_at [OF m, of q] by argo+
    then have "count_list ks q = 0" "cmem s q = Some y" using that by (simp_all add: count_list_0_iff)
    then show ?thesis by (simp add: kick_max_def)
  qed
  have gone: "count_list ks q = 0" if "q \<notin> dom (cmem s)" for q using marked_by_at [OF m, of q] that by (auto simp: count_list_0_iff split: if_splits)
  have one: "count_list ks q \<le> 1" for q
  proof (cases "q \<in> dom (cmem s)")
    case True
    then obtain y where "cmem s' q = Some y" using same(5) by blast
    then show ?thesis using node [of q y] by (auto simp: kick_max_def split: if_splits)
  qed (simp add: gone)
  show ?thesis
  proof (rule counts_okI)
    show "E q + count_list ks q + length (ch q) < 2 ^ 32" for q using room [of q] one [of q] by linarith
    fix q y assume y: "cmem s' q = Some y"
    then obtain x where x: "cmem s q = Some x" "cs_refs y = cs_refs x + of_nat (count_list ks q)" "kick_max x (count_list ks q)" using node by blast
    show "cs_refs y = of_nat (E q + count_list ks q + length (ch q))" using x(2) RD(2) [OF x(1)] by simp
    have "count_list ks q = 0" if "E q + length (ch q) = 0" using RD(2) [OF x(1)] that x(3) by (simp add: kick_max_def)
    then show "q \<in> set (cdying s') \<longleftrightarrow> E q + count_list ks q + length (ch q) = 0" using RD(3) [OF x(1)] same(6) by auto
  next
    show "E q + count_list ks q = 0" if "q \<notin> dom (cmem s')" for q using that same(5) RD(4) [of q] gone [of q] by simp
  qed (use RD(5,6) same(5,6) in simp_all)
qed

lemma cancel_inv:
  assumes I: "cinv E R s" and room: "roomy E s" and c: "c \<in> dom (cmem s)"
  shows "\<exists>s' ws ks. request_cancel reuse n c s = Some s' \<and> marked_by (descs (cmem s) {c}) ws ks s s' \<and>
    cinv (\<lambda>q. E q + count_list ks q) R s' \<and> ckicks s' = ckicks s @ ks \<and> cwoken s' = cwoken s @ ws"
proof -
  obtain ch where ch: "csys_ok s ch" "counts_ok E s ch" using cinvD(1) [OF I] by blast
  from request_cancel_ok [OF ch(1) c cinvD(2) [OF I], of reuse n] obtain s' ws ks where
    r: "request_cancel reuse n c s = Some s'" "marked_by (descs (cmem s) {c}) ws ks s s'" "csys_ok s' ch" "closed_on (cmem s') UNIV" by blast
  have anc': "anc (cmem s') = anc (cmem s)" by (rule anc_cong) (rule marked_by_same(1) [OF r(2)])
  have s': "s' = s\<lparr>cmem := cmem s', cwoken := cwoken s @ ws, ckicks := ckicks s @ ks\<rparr>" using r(2) by (simp add: marked_by_def)
  have len: "E q + length (ch q) + 1 < 2 ^ 32" for q using room [unfolded roomy_def, rule_format, of q] children_le(1) [OF ch(1), of q] by linarith
  have "cinv (\<lambda>q. E q + count_list ks q) R s'"
  proof (rule cinvI [OF r(3) marked_counts_ok [OF ch(2) r(2) len] _ r(4)])
    show "card (dom (cmem s')) < 2 ^ 32" using cinvD(8) [OF I] marked_by_same(5) [OF r(2)] by simp
    show "0 < E t + count_list ks t" if "t \<in> R" for t using cinvD(3) [OF I that] by simp
    fix q y assume y: "cmem s' q = Some y"
    show "node_ok R (cmem s') q y"
      using marked_by_at [OF r(2), of q] y cinvD(4) [OF I, of q]
      by (auto simp: node_ok_def anc' cancel_node_def split: if_splits)
  qed
  moreover have "ckicks s' = ckicks s @ ks" "cwoken s' = cwoken s @ ws" by (subst s', simp)+
  ultimately show ?thesis using r(1,2) by blast
qed


section \<open>Completion and waiting\<close>

lemma one_node_ok:
  assumes I: "cinv E R s" and f: "keeps_links f" and x: "cmem s c = Some x" "node_ok R (cmem s) c (f x)"
  shows "cinv E R (s\<lparr>cmem := (cmem s)(c \<mapsto> f x)\<rparr>)"
  by (rule value_upd_ok [OF I f, of _ "\<lambda>q. q = c"]) (use x cinvD(3) [OF I] in auto)

lemma cwoken_inv: "cinv E R (s\<lparr>cwoken := ws\<rparr>) = cinv E R s" "cinv E R (s\<lparr>chooked := hs\<rparr>) = cinv E R s" "cinv E R (s\<lparr>ckicks := ks\<rparr>) = cinv E R s"
  by (simp_all add: cinv_def csys_ok_def counts_ok_def)

lemma await_cancel_inv:
  assumes I: "cinv E R s" and c: "c \<in> dom (cmem s)"
  shows "\<exists>b s'. await_cancel own c w s = Some (b, s') \<and> cinv E R s' \<and> s' = s\<lparr>cmem := cmem s'\<rparr>"
proof -
  obtain x where x: "cmem s c = Some x" using c by blast
  let ?f = "\<lambda>y. y\<lparr>cs_cancel_waiters := cs_cancel_waiters y @ [w]\<rparr>"
  have "cinv E R (s\<lparr>cmem := (cmem s)(c \<mapsto> ?f x)\<rparr>)" if "\<not> cs_requested x"
    using one_node_ok [OF I, of ?f c x] x cinvD(4) [OF I x] that by (simp add: keeps_links_def node_ok_def)
  then show ?thesis using I x by (auto simp: await_cancel_def cancel_attach_def cupd_def)
qed

lemma await_done_inv:
  assumes I: "cinv E R s" and c: "c \<in> dom (cmem s)"
  shows "\<exists>b s'. await_done c w s = Some (b, s') \<and> cinv E R s' \<and> s' = s\<lparr>cmem := cmem s'\<rparr>"
proof -
  obtain x where x: "cmem s c = Some x" using c by blast
  let ?f = "\<lambda>y. y\<lparr>cs_done_waiters := cs_done_waiters y @ [w]\<rparr>"
  have "cinv E R (s\<lparr>cmem := (cmem s)(c \<mapsto> ?f x)\<rparr>)" if "\<not> cs_status x"
    using one_node_ok [OF I, of ?f c x] x cinvD(4) [OF I x] that by (simp add: keeps_links_def node_ok_def)
  then show ?thesis using I x by (auto simp: await_done_def cupd_def)
qed

lemma await_join_inv:
  assumes I: "cinv E R s" and c: "c \<in> dom (cmem s)"
  shows "\<exists>b s'. await_join c w s = Some (b, s') \<and> cinv E R s' \<and> s' = s\<lparr>cmem := cmem s'\<rparr>"
proof -
  obtain x where x: "cmem s c = Some x" using c by blast
  let ?f = "\<lambda>y. y\<lparr>cs_join_waiters := cs_join_waiters y @ [w]\<rparr>"
  have "cinv E R (s\<lparr>cmem := (cmem s)(c \<mapsto> ?f x)\<rparr>)" if "cs_live x \<noteq> 0"
    using one_node_ok [OF I, of ?f c x] x cinvD(4) [OF I x] that by (simp add: keeps_links_def node_ok_def)
  then show ?thesis using I x by (auto simp: await_join_def cupd_def)
qed

text \<open>A task that completes wakes those that wait for it and those that wait for the subtrees it was the last task of.\<close>

lemma complete_inv:
  assumes I: "cinv E R s" and c: "c \<in> R" and x: "cmem s c = Some x"
  shows "\<exists>s' ws. complete c s = Some s' \<and> cinv (E(c := E c - 1)) (R - {c}) s' \<and>
    s' = s\<lparr>cmem := cmem s', cwoken := cwoken s @ cs_done_waiters x @ ws, cdying := cdying s'\<rparr> \<and> set ws = (\<Union>a. drained (cmem s) c a)"
proof -
  let ?f = "\<lambda>y. y\<lparr>cs_status := True, cs_done_waiters := []\<rparr>"
  let ?s1 = "s\<lparr>cmem := (cmem s)(c \<mapsto> ?f x), cwoken := cwoken s @ cs_done_waiters x\<rparr>"
  have "cinv E R (s\<lparr>cmem := (cmem s)(c \<mapsto> ?f x)\<rparr>)"
    using one_node_ok [OF I, of ?f c x] x cinvD(4) [OF I x] by (simp add: keeps_links_def node_ok_def)
  then have I1: "cinv E R ?s1" by (subst cwoken_inv(1)) simp
  from drop_inv [OF I1 c] obtain s2 ws where d: "drop_live_chain (Some c) ?s1 = Some s2" "cinv E (R - {c}) s2"
    "s2 = ?s1\<lparr>cmem := cmem s2, cwoken := cwoken ?s1 @ ws\<rparr>" "set ws = (\<Union>a. drained (cmem ?s1) c a)" by blast
  have "anc (cmem ?s1) = anc (cmem s)" by (rule anc_cong) (use x in \<open>auto simp: fun_eq_iff mparent_def\<close>)
  then have dr: "drained (cmem ?s1) c = drained (cmem s) c" using x by (auto simp: fun_eq_iff drained_def)
  from release_inv [OF d(2) cinvD(3) [OF I c]] obtain s3 where r: "release_ref c s2 = Some s3" "cinv (E(c := E c - 1)) (R - {c}) s3"
      "s3 = s2\<lparr>cmem := cmem s3, cdying := cdying s3\<rparr>"
    by auto
  have "complete c s = Some s3" using x d(1) r(1) by (simp add: complete_def cupd_def)
  moreover have "s3 = s\<lparr>cmem := cmem s3, cwoken := cwoken s @ cs_done_waiters x @ ws, cdying := cdying s3\<rparr>" by (subst r(3), subst d(3)) simp
  ultimately show ?thesis using r(2) d(4) unfolding dr by blast
qed

end
