(* ===== verification/Cancel_Props.thy ===== *)
theory Cancel_Props
  imports Cancel_Handles
begin

text \<open>
  Programs over cancellation handles: any sequence of the operations of tokens, sources, scopes, join handles and
  the runtime, each on a handle that is held (or on the state of a running task). The handles held and the
  running tasks are ghost state. Each operation is one step, except that a release which takes a count to zero leaves the deletion of the node (\<open>Finish_release\<close>), and then
  the release of its parent, to later steps: other operations may run in between, and a walk may find the node.
\<close>

section \<open>Steps of a program\<close>

datatype cop = New_source "cid option" | Spawn "cid option" int | Copy_token cid | Drop_handle cid | Assign_token "cid option" "cid option"
  | Request_cancel cid | Scope_destroy cid | Complete cid | Process_kick cid | Await_cancel bool cid nat | Await_done cid nat | Await_join cid nat
  | Finish_release cid

record cprog =
  psys :: csys
  pheld :: "cid multiset"
  pruns :: "cid set"

definition cinit :: cprog where
  "cinit = \<lparr>psys = \<lparr>cmem = Map.empty, cfresh = 0, cwoken = [], ckicks = [], chooked = [], cdying = []\<rparr>, pheld = {#}, pruns = {}\<rparr>"

text \<open>A task that pops from its worker's queue of kicks.\<close>

definition take_kick :: "cid \<Rightarrow> csys \<Rightarrow> csys option" where
  "take_kick c s = process_kick c (s\<lparr>ckicks := remove1 c (ckicks s)\<rparr>)"

fun cexec :: "bool \<Rightarrow> int \<Rightarrow> cop \<Rightarrow> csys \<Rightarrow> (cid option \<times> csys) option" where
  "cexec reuse n (New_source po) s = map_option (\<lambda>(c, s). (Some c, s)) (new_source po s)"
| "cexec reuse n (Spawn po tid) s = map_option (\<lambda>(c, s). (Some c, s)) (spawn_under po tid s)"
| "cexec reuse n (Copy_token c) s = map_option (Pair None) (cs_add_ref c s)"
| "cexec reuse n (Drop_handle c) s = map_option (Pair None) (release_ref c s)"
| "cexec reuse n (Assign_token old new) s = map_option (Pair None) (assign_token old new s)"
| "cexec reuse n (Request_cancel c) s = map_option (Pair None) (request_cancel reuse n c s)"
| "cexec reuse n (Scope_destroy c) s = map_option (Pair None) (scope_destroy reuse n c s)"
| "cexec reuse n (Complete c) s = map_option (Pair None) (complete c s)"
| "cexec reuse n (Process_kick c) s = map_option (Pair None) (take_kick c s)"
| "cexec reuse n (Await_cancel own c w) s = map_option (\<lambda>r. (None, snd r)) (await_cancel own c w s)"
| "cexec reuse n (Await_done c w) s = map_option (\<lambda>r. (None, snd r)) (await_done c w s)"
| "cexec reuse n (Await_join c w) s = map_option (\<lambda>r. (None, snd r)) (await_join c w s)"
| "cexec reuse n (Finish_release c) s = delete_node c s"

text \<open>What a program may call: operations on what it holds; the state of a running task may be named through
  \<open>current_cancel_ptr\<close> too. The parent of a deleted node counts as held until its release.\<close>

definition live_ref :: "cprog \<Rightarrow> cid \<Rightarrow> bool" where
  "live_ref P c \<longleftrightarrow> c \<in># pheld P \<or> c \<in> pruns P"

fun allowed :: "cop \<Rightarrow> cprog \<Rightarrow> bool" where
  "allowed (New_source po) P = (case po of None \<Rightarrow> True | Some p \<Rightarrow> live_ref P p)"
| "allowed (Spawn po tid) P = (case po of None \<Rightarrow> True | Some p \<Rightarrow> live_ref P p)"
| "allowed (Copy_token c) P = live_ref P c"
| "allowed (Drop_handle c) P = (c \<in># pheld P)"
| "allowed (Assign_token old new) P = (mset_set (set_option old) + mset_set (set_option new) \<subseteq># pheld P)"
| "allowed (Request_cancel c) P = live_ref P c"
| "allowed (Scope_destroy c) P = (c \<in># pheld P)"
| "allowed (Complete c) P = (c \<in> pruns P)"
| "allowed (Process_kick c) P = (c \<in> set (ckicks (psys P)))"
| "allowed (Await_cancel own c w) P = live_ref P c"
| "allowed (Await_done c w) P = live_ref P c"
| "allowed (Await_join c w) P = live_ref P c"
| "allowed (Finish_release c) P = (c \<in> set (cdying (psys P)))"

fun held_after :: "cop \<Rightarrow> cid option \<Rightarrow> cid multiset \<Rightarrow> cid multiset" where
  "held_after (New_source po) r H = H + mset_set (set_option r)"
| "held_after (Spawn po tid) r H = H + mset_set (set_option r)"
| "held_after (Copy_token c) r H = add_mset c H"
| "held_after (Drop_handle c) r H = H - {#c#}"
| "held_after (Assign_token old new) r H = H + mset_set (set_option new) - mset_set (set_option old)"
| "held_after (Scope_destroy c) r H = H - {#c#}"
| "held_after (Finish_release c) r H = H + mset_set (set_option r)"
| "held_after _ r H = H"

fun runs_after :: "cop \<Rightarrow> cid option \<Rightarrow> cid set \<Rightarrow> cid set" where
  "runs_after (Spawn po tid) r R = R \<union> set_option r"
| "runs_after (Complete c) r R = R - {c}"
| "runs_after _ r R = R"

text \<open>The references to a node from outside the tree, and the bound under which no 32-bit counter overflows in one operation: the references to one node
  and the number of nodes that exist are together below \<open>2 ^ 32 - 3\<close>.\<close>

definition prog_refs :: "cprog \<Rightarrow> cid \<Rightarrow> nat" where
  "prog_refs P c = count (pheld P) c + count_list (ckicks (psys P)) c + (if c \<in> pruns P then 1 else 0)"

definition fits :: "cprog \<Rightarrow> bool" where
  "fits P \<longleftrightarrow> (\<forall>c. prog_refs P c + card (dom (cmem (psys P))) + 3 < 2 ^ 32)"

inductive cstep :: "bool \<Rightarrow> int \<Rightarrow> cprog \<Rightarrow> cprog \<Rightarrow> bool" for reuse n where
  cstep: "allowed op P \<Longrightarrow> fits P \<Longrightarrow> cexec reuse n op (psys P) = Some (r, s') \<Longrightarrow>
    cstep reuse n P \<lparr>psys = s', pheld = held_after op r (pheld P), pruns = runs_after op r (pruns P)\<rparr>"

section \<open>Invariant of programs\<close>

definition prog_inv :: "cprog \<Rightarrow> bool" where
  "prog_inv P \<longleftrightarrow> cinv (prog_refs P) (pruns P) (psys P)"

lemma live_refD: "live_ref P c \<Longrightarrow> 0 < prog_refs P c"
  by (auto simp: live_ref_def prog_refs_def)

lemma kick_refD: "c \<in> set (ckicks (psys P)) \<Longrightarrow> 0 < prog_refs P c"
  by (auto simp: prog_refs_def count_list_0_iff intro: gr0I)

lemma fits_roomy: "fits P \<Longrightarrow> roomy (prog_refs P) (psys P)"
  by (simp add: fits_def roomy_def)

lemma spawn_under_inv:
  assumes I: "cinv E R s" and room: "roomy E s" and p: "\<And>p. po = Some p \<Longrightarrow> 0 < E p"
  shows "\<exists>s'. spawn_under po tid s = Some (cfresh s, s') \<and> cinv (E(cfresh s := 2)) (insert (cfresh s) R) s' \<and> ckicks s' = ckicks s \<and> E (cfresh s) = 0"
proof -
  let ?c = "cfresh s"
  from new_source_inv [OF I room p, of po True tid] obtain s2 where
    s2: "(case po of None \<Rightarrow> Some (snd (new_state True tid s)) | Some p \<Rightarrow> cancel_link p ?c (snd (new_state True tid s))) = Some s2"
      "cinv (E(?c := 1)) R s2" "s2 = s\<lparr>cmem := cmem s2, cfresh := Suc ?c\<rparr>" "?c \<notin> dom (cmem s)"
      "dom (cmem s2) = insert ?c (dom (cmem s))" by blast
  have "?c \<notin> R" using cinvD(7) [OF I] s2(4) by blast
  from retain_inv [OF s2(2) _ this] obtain s3 where s3: "retain_live_chain (Some ?c) s2 = Some s3" "cinv (E(?c := 1)) (insert ?c R) s3" "s3 = s2\<lparr>cmem := cmem s3\<rparr>"
    by auto
  have z: "E ?c = 0" using cinvD(5) [OF I, of ?c] s2(4) by blast
  obtain ch where ch: "csys_ok s2 ch" using cinvD(1) [OF s2(2)] by blast
  have "?c \<in> dom (cmem s2)" using s2(5) by simp
  from retain_live_chain_ok [OF ch this] s3(1) have "cmem s3 = chain_upd (\<lambda>y. y\<lparr>cs_live := cs_live y + 1\<rparr>) ?c (cmem s2)" by simp
  then have "dom (cmem s3) = dom (cmem s2)" by (auto simp: chain_upd_def dom_def split: if_splits)
  then have "1 + card (dom (cmem s3)) + 1 < 2 ^ 32"
    using room [unfolded roomy_def, rule_format, of ?c] s2(4,5) cinvD(9) [OF I] z by simp
  then have "0 < (E(?c := 1)) ?c" "(E(?c := 1)) ?c + card (dom (cmem s3)) + 1 < 2 ^ 32" by simp_all
  moreover have "(E(?c := 1))(?c := Suc ((E(?c := 1)) ?c)) = E(?c := 2)" by (simp add: numeral_2_eq_2)
  ultimately obtain s4 where s4: "cs_add_ref ?c s3 = Some s4" "cinv (E(?c := 2)) (insert ?c R) s4" "s4 = s3\<lparr>cmem := cmem s4\<rparr>"
    using add_ref_inv [OF s3(2), of ?c] by metis
  have "spawn_under po tid s = Some (?c, s4)"
    using s2(1) s3(1) s4(1) by (cases po) (simp_all add: spawn_under_def new_state_def)
  moreover have "ckicks s4 = ckicks s" by (subst s4(3), subst s3(3), subst s2(3)) simp
  ultimately show ?thesis using s4(2) z by blast
qed

lemma assign_token_inv:
  assumes I: "cinv E R s" and room: "roomy E s" and new: "\<And>c. new = Some c \<Longrightarrow> 0 < E c"
    and old: "\<And>c. old = Some c \<Longrightarrow> 0 < E c \<and> (c \<in> R \<longrightarrow> 1 < E c)"
  shows "\<exists>s'. assign_token old new s = Some s' \<and> ckicks s' = ckicks s \<and>
    cinv (\<lambda>c. E c + (if new = Some c then 1 else 0) - (if old = Some c then 1 else 0)) R s'"
proof -
  let ?E1 = "\<lambda>c. E c + (if new = Some c then 1 else 0)"
  have "\<exists>s1. (case new of None \<Rightarrow> Some s | Some c \<Rightarrow> cs_add_ref c s) = Some s1 \<and> cinv ?E1 R s1 \<and> s1 = s\<lparr>cmem := cmem s1\<rparr>"
  proof (cases new)
    case (Some c)
    have "E(c := Suc (E c)) = ?E1" using Some by auto
    moreover have "E c + card (dom (cmem s)) + 1 < 2 ^ 32" using room [unfolded roomy_def, rule_format, of c] by simp
    ultimately show ?thesis using add_ref_inv [OF I new [OF Some]] Some by auto
  qed (use I in simp)
  then obtain s1 where s1: "(case new of None \<Rightarrow> Some s | Some c \<Rightarrow> cs_add_ref c s) = Some s1" "cinv ?E1 R s1" "s1 = s\<lparr>cmem := cmem s1\<rparr>" by blast
  have k1: "ckicks s1 = ckicks s" by (subst s1(3)) simp
  show ?thesis
  proof (cases old)
    case None
    then show ?thesis using s1(1,2) k1 by (auto simp: assign_token_def)
  next
    case (Some c)
    from release_inv [OF s1(2), of c] old [OF Some] obtain s2 where s2: "release_ref c s1 = Some s2" "cinv (?E1(c := ?E1 c - 1)) R s2"
      "s2 = s1\<lparr>cmem := cmem s2, cdying := cdying s2\<rparr>" by fastforce
    have "?E1(c := ?E1 c - 1) = (\<lambda>c. E c + (if new = Some c then 1 else 0) - (if old = Some c then 1 else 0))" using Some by auto
    moreover have "ckicks s2 = ckicks s" by (subst s2(3)) (simp add: k1)
    ultimately show ?thesis using s1(1) s2(1,2) Some by (auto simp: assign_token_def)
  qed
qed

lemma process_kick_inv:
  assumes I: "cinv E R s" and c: "c \<in> set (ckicks s)" "0 < E c" "c \<in> R \<Longrightarrow> 1 < E c"
  shows "\<exists>s'. take_kick c s = Some s' \<and> cinv (E(c := E c - 1)) R s' \<and> ckicks s' = remove1 c (ckicks s)"
proof -
  obtain x where x: "cmem s c = Some x" using cinvD(5) [OF I c(2)] by blast
  let ?f = "\<lambda>y. y\<lparr>cs_kick_pending := False\<rparr>"
  let ?s0 = "s\<lparr>ckicks := remove1 c (ckicks s)\<rparr>"
  let ?s1 = "?s0\<lparr>cmem := (cmem s)(c \<mapsto> ?f x)\<rparr>"
  let ?s2 = "if cs_status x then ?s1 else ?s1\<lparr>chooked := chooked s @ [c]\<rparr>"
  have "cinv E R ?s0" using I by (simp add: cwoken_inv(3))
  then have "cinv E R ?s1"
    using one_node_ok [of E R ?s0 ?f c x] x cinvD(4) [OF I x] by (simp add: keeps_links_def node_ok_def)
  then have I2: "cinv E R ?s2" by (simp add: cwoken_inv(2))
  from release_inv [OF I2 c(2,3)] obtain s3 where s3: "release_ref c ?s2 = Some s3" "cinv (E(c := E c - 1)) R s3"
    "s3 = ?s2\<lparr>cmem := cmem s3, cdying := cdying s3\<rparr>" by blast
  have "take_kick c s = Some s3" using x s3(1) by (auto simp: take_kick_def process_kick_def cupd_def)
  moreover have "ckicks s3 = remove1 c (ckicks s)" by (subst s3(3)) simp
  ultimately show ?thesis using s3(2) by blast
qed

lemma scope_destroy_inv:
  assumes I: "cinv E R s" and room: "roomy E s" and c: "0 < E c" "c \<in> R \<Longrightarrow> 1 < E c"
  shows "\<exists>s' ks. scope_destroy reuse n c s = Some s' \<and> cinv (\<lambda>q. (E(c := E c - 1)) q + count_list ks q) R s' \<and> ckicks s' = ckicks s @ ks"
proof -
  from cancel_inv [OF I room cinvD(5) [OF I c(1)], of reuse n] obtain s1 ks where s1: "request_cancel reuse n c s = Some s1"
    "cinv (\<lambda>q. E q + count_list ks q) R s1" "ckicks s1 = ckicks s @ ks" by blast
  from release_inv [OF s1(2), of c] c obtain s2 where s2: "release_ref c s1 = Some s2"
    "cinv ((\<lambda>q. E q + count_list ks q)(c := E c + count_list ks c - 1)) R s2" "s2 = s1\<lparr>cmem := cmem s2, cdying := cdying s2\<rparr>" by fastforce
  have "(\<lambda>q. E q + count_list ks q)(c := E c + count_list ks c - 1) = (\<lambda>q. (E(c := E c - 1)) q + count_list ks q)" using c(1) by auto
  moreover have "ckicks s2 = ckicks s @ ks" by (subst s2(3)) (simp add: s1(3))
  ultimately show ?thesis using s1(1) s2(1,2) by (auto simp: scope_destroy_def)
qed

text \<open>Every allowed operation returns, on any state that satisfies the invariant, and keeps it.\<close>

definition step_ok :: "bool \<Rightarrow> int \<Rightarrow> cop \<Rightarrow> cprog \<Rightarrow> bool" where
  "step_ok reuse n op P \<longleftrightarrow> (\<exists>r s'. cexec reuse n op (psys P) = Some (r, s') \<and>
     prog_inv \<lparr>psys = s', pheld = held_after op r (pheld P), pruns = runs_after op r (pruns P)\<rparr>)"

lemma step_okI:
  assumes "cexec reuse n op (psys P) = Some (r, s')" "cinv E R s'" "R = runs_after op r (pruns P)"
    "\<And>c. E c = prog_refs \<lparr>psys = s', pheld = held_after op r (pheld P), pruns = runs_after op r (pruns P)\<rparr> c"
  shows "step_ok reuse n op P"
proof -
  have "E = prog_refs \<lparr>psys = s', pheld = held_after op r (pheld P), pruns = runs_after op r (pruns P)\<rparr>" using assms(4) by blast
  then show ?thesis using assms(1-3) unfolding step_ok_def prog_inv_def by auto
qed

lemma step_ok_new:
  assumes I: "prog_inv P" and F: "fits P" and a: "allowed (New_source po) P"
  shows "step_ok reuse n (New_source po) P"
proof -
  note I = I [unfolded prog_inv_def]
  have p: "0 < prog_refs P p" if "po = Some p" for p using a that live_refD by simp
  from new_source_inv [OF I fits_roomy [OF F] p, of po False "- 1"] obtain s2 where
    s2: "(case po of None \<Rightarrow> Some (snd (new_state False (- 1) (psys P))) | Some p \<Rightarrow> cancel_link p (cfresh (psys P)) (snd (new_state False (- 1) (psys P)))) = Some s2"
      "cinv ((prog_refs P)(cfresh (psys P) := 1)) (pruns P) s2" "s2 = psys P\<lparr>cmem := cmem s2, cfresh := Suc (cfresh (psys P))\<rparr>"
      "cfresh (psys P) \<notin> dom (cmem (psys P))" by blast
  have z: "prog_refs P (cfresh (psys P)) = 0" using cinvD(5) [OF I] s2(4) by blast
  have k: "ckicks s2 = ckicks (psys P)" by (subst s2(3)) simp
  show ?thesis
    by (rule step_okI [OF _ s2(2), of _ _ _ _ "Some (cfresh (psys P))"])
      (use s2(1) z k in \<open>auto simp: new_source_def new_state_def prog_refs_def split: option.splits\<close>)
qed

lemma step_ok_spawn:
  assumes I: "prog_inv P" and F: "fits P" and a: "allowed (Spawn po tid) P"
  shows "step_ok reuse n (Spawn po tid) P"
proof -
  note I = I [unfolded prog_inv_def]
  have p: "0 < prog_refs P p" if "po = Some p" for p using a that live_refD by simp
  from spawn_under_inv [OF I fits_roomy [OF F] p] obtain s' where s': "spawn_under po tid (psys P) = Some (cfresh (psys P), s')"
    "cinv ((prog_refs P)(cfresh (psys P) := 2)) (insert (cfresh (psys P)) (pruns P)) s'" "ckicks s' = ckicks (psys P)" "prog_refs P (cfresh (psys P)) = 0"
    by blast
  show ?thesis by (rule step_okI [OF _ s'(2), of _ _ _ _ "Some (cfresh (psys P))"]) (use s' in \<open>auto simp: prog_refs_def\<close>)
qed

lemma step_ok_refs:
  assumes I: "prog_inv P" and F: "fits P"
  shows "allowed (Copy_token c) P \<Longrightarrow> step_ok reuse n (Copy_token c) P" "allowed (Drop_handle c) P \<Longrightarrow> step_ok reuse n (Drop_handle c) P"
    "allowed (Complete c) P \<Longrightarrow> step_ok reuse n (Complete c) P" "allowed (Process_kick c) P \<Longrightarrow> step_ok reuse n (Process_kick c) P"
    "allowed (Finish_release c) P \<Longrightarrow> step_ok reuse n (Finish_release c) P"
proof -
  note I = I [unfolded prog_inv_def]
  show "step_ok reuse n (Copy_token c) P" if "allowed (Copy_token c) P"
  proof -
    have "prog_refs P c + card (dom (cmem (psys P))) + 1 < 2 ^ 32" using F [unfolded fits_def, rule_format, of c] by simp
    from that add_ref_inv [OF I live_refD this] obtain s' where s': "cs_add_ref c (psys P) = Some s'"
      "cinv ((prog_refs P)(c := Suc (prog_refs P c))) (pruns P) s'" "s' = psys P\<lparr>cmem := cmem s'\<rparr>" by auto
    have "ckicks s' = ckicks (psys P)" by (subst s'(3)) simp
    then show ?thesis by (intro step_okI [OF _ s'(2)]) (use s'(1) in \<open>auto simp: prog_refs_def\<close>)
  qed
  show "step_ok reuse n (Drop_handle c) P" if "allowed (Drop_handle c) P"
  proof -
    have "0 < prog_refs P c" "c \<in> pruns P \<Longrightarrow> 1 < prog_refs P c" using that by (auto simp: prog_refs_def)
    from release_inv [OF I this] obtain s' where s': "release_ref c (psys P) = Some s'"
      "cinv ((prog_refs P)(c := prog_refs P c - 1)) (pruns P) s'" "s' = psys P\<lparr>cmem := cmem s', cdying := cdying s'\<rparr>" by auto
    have "ckicks s' = ckicks (psys P)" by (subst s'(3)) simp
    moreover have "0 < count (pheld P) c" using that by simp
    ultimately show ?thesis by (intro step_okI [OF _ s'(2)]) (use s'(1) in \<open>auto simp: prog_refs_def\<close>)
  qed
  show "step_ok reuse n (Complete c) P" if a: "allowed (Complete c) P"
  proof -
    have c: "c \<in> pruns P" using a by simp
    obtain x where "cmem (psys P) c = Some x" using cinvD(5) [OF I cinvD(3) [OF I c]] by blast
    from complete_inv [OF I c this] obtain s' ws where s': "complete c (psys P) = Some s'"
      "cinv ((prog_refs P)(c := prog_refs P c - 1)) (pruns P - {c}) s'" "s' = psys P\<lparr>cmem := cmem s', cwoken := ws, cdying := cdying s'\<rparr>" by blast
    have "ckicks s' = ckicks (psys P)" by (subst s'(3)) simp
    then show ?thesis by (intro step_okI [OF _ s'(2)]) (use s'(1) c in \<open>auto simp: prog_refs_def\<close>)
  qed
  show "step_ok reuse n (Process_kick c) P" if a: "allowed (Process_kick c) P"
  proof -
    have c: "c \<in> set (ckicks (psys P))" "0 < count_list (ckicks (psys P)) c" using a by (auto simp: count_list_0_iff intro: gr0I)
    have "0 < prog_refs P c" "c \<in> pruns P \<Longrightarrow> 1 < prog_refs P c" using c(2) by (auto simp: prog_refs_def)
    from process_kick_inv [OF I c(1) this] obtain s' where s': "take_kick c (psys P) = Some s'"
      "cinv ((prog_refs P)(c := prog_refs P c - 1)) (pruns P) s'" "ckicks s' = remove1 c (ckicks (psys P))" by blast
    have "count_list (remove1 c xs) q = count_list xs q - (if q = c then 1 else 0)" for xs q
      by (induction xs) auto
    then show ?thesis by (intro step_okI [OF _ s'(2)]) (use s'(1,3) c(2) in \<open>auto simp: prog_refs_def\<close>)
  qed
  show "step_ok reuse n (Finish_release c) P" if a: "allowed (Finish_release c) P"
  proof -
    have "c \<in> set (cdying (psys P))" using a by simp
    from free_inv [OF I this] obtain po s' where s': "delete_node c (psys P) = Some (po, s')"
      "cinv (case po of None \<Rightarrow> prog_refs P | Some p \<Rightarrow> (prog_refs P)(p := Suc (prog_refs P p))) (pruns P) s'"
      "s' = psys P\<lparr>cmem := cmem s', cdying := cdying s'\<rparr>" by blast
    have "ckicks s' = ckicks (psys P)" by (subst s'(3)) simp
    then show ?thesis by (intro step_okI [OF _ s'(2)]) (use s'(1) in \<open>auto simp: prog_refs_def split: option.split\<close>)
  qed
qed


lemma step_ok_assign:
  assumes I: "prog_inv P" and F: "fits P" and a: "allowed (Assign_token old new) P"
  shows "step_ok reuse n (Assign_token old new) P"
proof -
  note I = I [unfolded prog_inv_def]
  have le: "count (mset_set (set_option old)) c + count (mset_set (set_option new)) c \<le> count (pheld P) c" for c
    using mset_subset_eq_count [of "mset_set (set_option old) + mset_set (set_option new)" "pheld P" c] a by simp
  have one: "count (mset_set (set_option o')) c = (if o' = Some c then 1 else 0)" for o' and c :: cid
    by (cases o') auto
  have new: "0 < prog_refs P c" if "new = Some c" for c
  proof -
    have "1 \<le> count (pheld P) c" by (rule order_trans [OF _ le [of c]]) (simp add: one that)
    then show ?thesis unfolding prog_refs_def by linarith
  qed
  have old: "0 < prog_refs P c \<and> (c \<in> pruns P \<longrightarrow> 1 < prog_refs P c)" if "old = Some c" for c
  proof -
    have "1 \<le> count (pheld P) c" by (rule order_trans [OF _ le [of c]]) (simp add: one that)
    then show ?thesis unfolding prog_refs_def by auto
  qed
  from assign_token_inv [OF I fits_roomy [OF F] new old] obtain s' where s': "assign_token old new (psys P) = Some s'" "ckicks s' = ckicks (psys P)"
    "cinv (\<lambda>c. prog_refs P c + (if new = Some c then 1 else 0) - (if old = Some c then 1 else 0)) (pruns P) s'" by blast
  show ?thesis
  proof (rule step_okI [OF _ s'(3)])
    fix c
    show "prog_refs P c + (if new = Some c then 1 else 0) - (if old = Some c then 1 else 0) =
      prog_refs \<lparr>psys = s', pheld = held_after (Assign_token old new) None (pheld P), pruns = runs_after (Assign_token old new) None (pruns P)\<rparr> c"
      using le [of c] s'(2) by (simp add: one prog_refs_def)
  qed (use s'(1) in auto)
qed

lemma step_ok_cancel:
  assumes I: "prog_inv P" and F: "fits P"
  shows "allowed (Request_cancel c) P \<Longrightarrow> step_ok reuse n (Request_cancel c) P" "allowed (Scope_destroy c) P \<Longrightarrow> step_ok reuse n (Scope_destroy c) P"
proof -
  note I = I [unfolded prog_inv_def]
  show "step_ok reuse n (Request_cancel c) P" if a: "allowed (Request_cancel c) P"
  proof -
    have "c \<in> dom (cmem (psys P))" using a cinvD(5) [OF I live_refD] by simp
    from cancel_inv [OF I fits_roomy [OF F] this, of reuse n] obtain s' ks where s': "request_cancel reuse n c (psys P) = Some s'"
      "cinv (\<lambda>q. prog_refs P q + count_list ks q) (pruns P) s'" "ckicks s' = ckicks (psys P) @ ks" by blast
    show ?thesis by (rule step_okI [OF _ s'(2)]) (use s'(1,3) in \<open>auto simp: prog_refs_def\<close>)
  qed
  show "step_ok reuse n (Scope_destroy c) P" if a: "allowed (Scope_destroy c) P"
  proof -
    have h: "0 < count (pheld P) c" using a by simp
    have "0 < prog_refs P c" "c \<in> pruns P \<Longrightarrow> 1 < prog_refs P c" using h by (auto simp: prog_refs_def)
    from scope_destroy_inv [OF I fits_roomy [OF F] this, of reuse n] obtain s' ks where s': "scope_destroy reuse n c (psys P) = Some s'"
      "cinv (\<lambda>q. ((prog_refs P)(c := prog_refs P c - 1)) q + count_list ks q) (pruns P) s'" "ckicks s' = ckicks (psys P) @ ks" by blast
    show ?thesis by (rule step_okI [OF _ s'(2)]) (use s'(1,3) h in \<open>auto simp: prog_refs_def\<close>)
  qed
qed

lemma step_ok_value:
  assumes "cexec reuse n op (psys P) = Some (r, s')" "cinv (prog_refs P) (pruns P) s'" "s' = psys P\<lparr>cmem := cmem s'\<rparr>"
    "held_after op r (pheld P) = pheld P" "runs_after op r (pruns P) = pruns P"
  shows "step_ok reuse n op P"
proof -
  have "ckicks s' = ckicks (psys P)" by (subst assms(3)) simp
  then show ?thesis by (intro step_okI [OF assms(1,2)]) (use assms(4,5) in \<open>auto simp: prog_refs_def\<close>)
qed

lemma step_ok_await:
  assumes I: "prog_inv P"
  shows "allowed (Await_cancel own c w) P \<Longrightarrow> step_ok reuse n (Await_cancel own c w) P"
    "allowed (Await_done c w) P \<Longrightarrow> step_ok reuse n (Await_done c w) P" "allowed (Await_join c w) P \<Longrightarrow> step_ok reuse n (Await_join c w) P"
proof -
  note I = I [unfolded prog_inv_def]
  have d: "live_ref P c \<Longrightarrow> c \<in> dom (cmem (psys P))" using cinvD(5) [OF I live_refD] by simp
  show "allowed (Await_cancel own c w) P \<Longrightarrow> step_ok reuse n (Await_cancel own c w) P"
    using await_cancel_inv [OF I d, of own w] by (fastforce intro: step_ok_value)
  show "allowed (Await_done c w) P \<Longrightarrow> step_ok reuse n (Await_done c w) P"
    using await_done_inv [OF I d, of w] by (fastforce intro: step_ok_value)
  show "allowed (Await_join c w) P \<Longrightarrow> step_ok reuse n (Await_join c w) P"
    using await_join_inv [OF I d, of w] by (fastforce intro: step_ok_value)
qed

lemma exec_ok: "prog_inv P \<Longrightarrow> fits P \<Longrightarrow> allowed op P \<Longrightarrow> step_ok reuse n op P"
  by (cases op) (auto intro: step_ok_new step_ok_spawn step_ok_refs step_ok_assign step_ok_cancel step_ok_await simp del: allowed.simps)

lemma cinit_inv: "prog_inv cinit"
  by (rule prog_inv_def [THEN iffD2], rule cinvI [of _ "\<lambda>_. []"])
    (auto simp: cinit_def csys_ok_def tree_ok_def counts_ok_def prog_refs_def closed_on_def mparent_def)

interpretation ctree: inv_system "\<lambda>P. P = cinit" "cstep reuse n" prog_inv for reuse n
proof
  show "prog_inv P" if "P = cinit" for P using that cinit_inv by simp
  show "prog_inv P'" if P: "prog_inv P" and s: "cstep reuse n P P'" for P P'
    using s
  proof cases
    case (cstep op r s')
    then show ?thesis using exec_ok [OF P cstep(3,2), of reuse n] by (simp add: step_ok_def)
  qed
qed


section \<open>Properties\<close>

text \<open>With no reference left that is not one of a child, and no node about to be deleted, there is no node: the youngest node would need a child.\<close>

lemma no_refs_no_nodes:
  assumes "csys_ok s ch" "counts_ok (\<lambda>_. 0) s ch" "cdying s = []"
  shows "cmem s = Map.empty"
proof (rule ccontr)
  assume "cmem s \<noteq> Map.empty"
  then have "dom (cmem s) \<noteq> {}" by auto
  moreover have T: "tree_ok (cmem s) ch" and fin: "finite (dom (cmem s))" using assms(1) children_le(2) [OF assms(1)] by (simp_all add: csys_ok_def)
  ultimately have mx: "Max (dom (cmem s)) \<in> dom (cmem s)" by simp
  then obtain x where x: "cmem s (Max (dom (cmem s))) = Some x" by blast
  have "length (ch (Max (dom (cmem s)))) \<noteq> 0" using counts_okD(3) [OF assms(2) x] assms(3) by simp
  then obtain a where "a \<in> set (ch (Max (dom (cmem s))))" by (cases "ch (Max (dom (cmem s)))") auto
  then have "Max (dom (cmem s)) < a" "a \<in> dom (cmem s)" using tree_okD(6,7) [OF T] by blast+
  then show False using Max_ge [OF fin, of a] by simp
qed

text \<open>C24. Cancellation states and tasks are memory safe and do not leak, with 32-bit counts and with other operations running between the decrement that
  takes a count to zero and the deletion of the node: after any program over handles, as long as the references to one node and the number of nodes are together below
  \<open>2 ^ 32 - 3\<close> (\<open>fits\<close>), every operation on a held handle or running task, every delivery of a pending kick and every deletion returns without touching a
  freed node (each walk over the tree ends); and once no handle is held, no task runs, no kick is pending and no node is about to be deleted, every
  node has been freed. Between these steps each operation is atomic.\<close>

theorem cancel_handles_safe:
  assumes "reach (\<lambda>P. P = cinit) (cstep reuse n) P"
  shows "(fits P \<longrightarrow> (\<forall>op. allowed op P \<longrightarrow> (\<exists>r s'. cexec reuse n op (psys P) = Some (r, s')))) \<and>
    (pheld P = {#} \<and> pruns P = {} \<and> ckicks (psys P) = [] \<and> cdying (psys P) = [] \<longrightarrow> cmem (psys P) = Map.empty)"
proof -
  have I: "prog_inv P" using ctree.reach_inv [OF assms] .
  have "cmem (psys P) = Map.empty" if "pheld P = {#}" "pruns P = {}" "ckicks (psys P) = []" "cdying (psys P) = []"
  proof -
    have "prog_refs P = (\<lambda>_. 0)" using that by (auto simp: prog_refs_def)
    then show ?thesis using I cinvD(1) [of "prog_refs P" "pruns P" "psys P"] no_refs_no_nodes that(4) by (auto simp: prog_inv_def)
  qed
  then show ?thesis using exec_ok [OF I, unfolded step_ok_def] by blast
qed

definition waiting_cancel :: "(cid \<Rightarrow> cancel_state option) \<Rightarrow> cid \<Rightarrow> nat list" where
  "waiting_cancel m q = (case m q of None \<Rightarrow> [] | Some x \<Rightarrow> cs_cancel_waiters x)"

text \<open>C25. After any program in which the 32-bit counters stay in range (\<open>fits\<close>), a cancellation request returns, reaches the node and all its descendants and nothing else, and wakes
  every waiter for a cancellation in that subtree exactly once, leaving none behind.\<close>

theorem request_cancel_subtree:
  assumes "reach (\<lambda>P. P = cinit) (cstep reuse n) P" "live_ref P c" "m = cmem (psys P)" "D = descs m {c}"
  shows "\<exists>s'. request_cancel reuse n c (psys P) = Some s' \<and> (\<forall>q\<in>D. mreq (cmem s') q \<and> waiting_cancel (cmem s') q = []) \<and>
    (\<forall>q. q \<notin> D \<longrightarrow> cmem s' q = m q) \<and> mset (cwoken s') = mset (cwoken (psys P)) + (\<Sum>q\<in>D. mset (waiting_cancel m q))"
proof -
  have I: "cinv (prog_refs P) (pruns P) (psys P)" using ctree.reach_inv [OF assms(1)] by (simp add: prog_inv_def)
  have c: "c \<in> dom m" using cinvD(5) [OF I live_refD [OF assms(2)]] assms(3) by simp
  obtain ch where ok: "csys_ok (psys P) ch" and T: "tree_ok m ch" using cinvD(1) [OF I] assms(3) by (auto simp: csys_ok_def)
  have D: "q \<in> dom m" if "q \<in> D" for q using desc_dom [OF T, of c q] that c assms(4) by (simp add: descs_def)
  from request_cancel_ok [OF ok c [unfolded assms(3)] cinvD(2) [OF I], of reuse n] obtain s' ws ks where r: "request_cancel reuse n c (psys P) = Some s'"
    "marked_by D ws ks (psys P) s'" unfolding assms(3,4) by blast
  have w: "cwoken s' = cwoken (psys P) @ ws"
    using r(2) unfolding marked_by_def by (metis csys.select_convs(3) csys.surjective csys.update_convs(3,4))
  have req: "mreq (cmem s') q" if "q \<in> D" for q using marked_by_requests [OF r(2) that] D [OF that] assms(3) by simp
  have "waiting_cancel (cmem s') q = []" if "q \<in> D" for q
    using req [OF that] marked_by_at [OF r(2), of q] cinvD(4) [OF I, of q]
    by (auto simp: waiting_cancel_def mreq_def node_ok_def cancel_node_def split: option.splits if_splits)
  moreover have "mset ws = (\<Sum>q\<in>D. mset (waiting_cancel m q))"
  proof -
    have "mset ws = (\<Sum>q\<in>D. pending_waiters m q)" using r(2) assms(3) by (simp add: marked_by_def)
    also have "\<dots> = (\<Sum>q\<in>D. mset (waiting_cancel m q))"
      using cinvD(4) [OF I] assms(3) by (intro sum.cong refl) (auto simp: pending_waiters_def waiting_cancel_def node_ok_def split: option.splits)
    finally show ?thesis .
  qed
  ultimately show ?thesis using r(1) w req marked_by_outside [OF r(2)] assms(3) by auto
qed

text \<open>C26. After any program in which the references to one node and the number of nodes stay together below \<open>2 ^ 32 - 3\<close> (so that no 32-bit counter
  wraps), the live counter of a node is the number of running tasks at or below it, so a join waits only while there
  is one; when a task completes, everything that waited for it is woken, and everything that waited for a subtree whose
  last task it was.\<close>

theorem live_tasks_joined:
  assumes "reach (\<lambda>P. P = cinit) (cstep reuse n) P" "cmem (psys P) q = Some x" "B = {t \<in> pruns P. anc (cmem (psys P)) q t}"
  shows "unat (cs_live x) = card B \<and> (cs_live x = 0 \<longrightarrow> cs_join_waiters x = []) \<and> (cs_status x \<longrightarrow> cs_done_waiters x = []) \<and>
    (\<forall>c\<in>B. \<exists>s' y. complete c (psys P) = Some s' \<and> cmem (psys P) c = Some y \<and> set (cs_done_waiters y) \<subseteq> set (cwoken s') \<and>
       (B = {c} \<longrightarrow> set (cs_join_waiters x) \<subseteq> set (cwoken s')))"
proof -
  have I: "cinv (prog_refs P) (pruns P) (psys P)" using ctree.reach_inv [OF assms(1)] by (simp add: prog_inv_def)
  note N = cinvD(4) [OF I assms(2), unfolded node_ok_def]
  have "\<exists>s' y. complete c (psys P) = Some s' \<and> cmem (psys P) c = Some y \<and> set (cs_done_waiters y) \<subseteq> set (cwoken s') \<and>
      (B = {c} \<longrightarrow> set (cs_join_waiters x) \<subseteq> set (cwoken s'))" if c: "c \<in> B" for c
  proof -
    have cR: "c \<in> pruns P" "anc (cmem (psys P)) q c" using c assms(3) by auto
    obtain y where y: "cmem (psys P) c = Some y" using cinvD(5) [OF I cinvD(3) [OF I cR(1)]] by blast
    from complete_inv [OF I cR(1) y] obtain s' ws where s': "complete c (psys P) = Some s'"
      "s' = psys P\<lparr>cmem := cmem s', cwoken := cwoken (psys P) @ cs_done_waiters y @ ws, cdying := cdying s'\<rparr>" "set ws = (\<Union>a. drained (cmem (psys P)) c a)" by blast
    have w: "cwoken s' = cwoken (psys P) @ cs_done_waiters y @ ws" by (subst s'(2)) simp
    have "set (cs_join_waiters x) \<subseteq> set ws" if "B = {c}"
    proof -
      have "unat (cs_live x) = 1" using N that assms(3) by simp
      then have "cs_live x = 1" by (metis unat_1 word_unat_eq_iff)
      then have "drained (cmem (psys P)) c q = set (cs_join_waiters x)" using cR(2) assms(2) by (simp add: drained_def)
      then show ?thesis using s'(3) by blast
    qed
    then show ?thesis using s'(1) y w by auto
  qed
  then show ?thesis using N assms(3) by simp
qed

section \<open>Witnesses\<close>

lemma retain_eval: "retain_live_chain None s = Some s"
    "cmem s c = Some x \<Longrightarrow> retain_live_chain (Some c) s = retain_live_chain (cs_parent x) (s\<lparr>cmem := (cmem s)(c \<mapsto> x\<lparr>cs_live := cs_live x + 1\<rparr>)\<rparr>)"
  by (simp add: retain_live_chain.simps) (subst retain_live_chain.simps, simp add: cupd_def)

lemma small_fits: "dom (cmem (psys P)) \<subseteq> {0, 1} \<Longrightarrow> (\<And>c. prog_refs P c \<le> 3) \<Longrightarrow> fits P"
proof -
  assume d: "dom (cmem (psys P)) \<subseteq> {0, 1}" and r: "\<And>c. prog_refs P c \<le> 3"
  have "card (dom (cmem (psys P))) \<le> 2" using card_mono [OF _ d] by simp
  then have "prog_refs P c + card (dom (cmem (psys P))) + 3 \<le> 8" for c using r [of c] by linarith
  then have "prog_refs P c + card (dom (cmem (psys P))) + 3 < 2 ^ 32" for c by (rule le_less_trans) simp
  then show "fits P" by (simp add: fits_def)
qed

text \<open>A source and a task under it, which waits for its cancellation while another waits for the task.\<close>

definition wsource :: cprog where
  "wsource = \<lparr>psys = \<lparr>cmem = [0 \<mapsto> fresh_state False (- 1)], cfresh = 1, cwoken = [], ckicks = [], chooked = [], cdying = []\<rparr>, pheld = {#0#}, pruns = {}\<rparr>"

definition wtask :: cprog where
  "wtask = \<lparr>psys = \<lparr>cmem = [0 \<mapsto> (fresh_state False (- 1))\<lparr>cs_refs := 2, cs_live := 1, cs_first := Some 1\<rparr>,
      1 \<mapsto> (fresh_state True 0)\<lparr>cs_refs := 2, cs_live := 1, cs_parent := Some 0\<rparr>],
     cfresh = 2, cwoken = [], ckicks = [], chooked = [], cdying = []\<rparr>, pheld = {#0, 1#}, pruns = {1}\<rparr>"

definition wwait :: cprog where
  "wwait = \<lparr>psys = \<lparr>cmem = [0 \<mapsto> (fresh_state False (- 1))\<lparr>cs_refs := 2, cs_live := 1, cs_first := Some 1\<rparr>,
      1 \<mapsto> (fresh_state True 0)\<lparr>cs_refs := 2, cs_live := 1, cs_parent := Some 0, cs_cancel_waiters := [7]\<rparr>],
     cfresh = 2, cwoken = [], ckicks = [], chooked = [], cdying = []\<rparr>, pheld = {#0, 1#}, pruns = {1}\<rparr>"

lemma wfits: "fits cinit" "fits wsource" "fits wtask" "fits wwait"
  by (rule small_fits; auto simp: cinit_def wsource_def wtask_def wwait_def prog_refs_def)+

lemma wsource_reach: "reach (\<lambda>P. P = cinit) (cstep True 1) wsource"
proof -
  have "cstep True 1 cinit wsource"
    using cstep.cstep [of "New_source None" cinit True 1 "Some 0" "psys wsource"] wfits(1)
    by (simp add: cinit_def wsource_def new_source_def new_state_def)
  moreover have "reach (\<lambda>P. P = cinit) (cstep True 1) cinit" by (rule reach_init) simp
  ultimately show ?thesis by (rule reach_step [rotated])
qed

lemma wtask_reach: "reach (\<lambda>P. P = cinit) (cstep True 1) wtask"
proof -
  have "spawn_under (Some 0) 0 (psys wsource) = Some (1, psys wtask)"
    by (simp add: wsource_def wtask_def spawn_under_def new_state_def cancel_link_def cs_add_ref_def cupd_def fresh_state_def retain_eval fun_upd_twist numeral_2_eq_2)
  then have "cstep True 1 wsource wtask"
    using cstep.cstep [of "Spawn (Some 0) 0" wsource True 1 "Some 1" "psys wtask"] wfits(2)
    by (simp add: live_ref_def wsource_def wtask_def add_mset_commute)
  then show ?thesis by (rule reach_step [OF wsource_reach])
qed

lemma wwait_reach: "reach (\<lambda>P. P = cinit) (cstep True 1) wwait"
proof -
  have "await_cancel False 1 7 (psys wtask) = Some (True, psys wwait)"
    by (simp add: wtask_def wwait_def await_cancel_def cancel_attach_def cupd_def fresh_state_def)
  then have "cstep True 1 wtask wwait"
    using cstep.cstep [of "Await_cancel False 1 7" wtask True 1 None "psys wwait"] wfits(3)
    by (simp add: live_ref_def wtask_def wwait_def)
  then show ?thesis by (rule reach_step [OF wtask_reach])
qed

text \<open>The source is dropped: its count is zero, then it is deleted.\<close>

definition wdying :: cprog where
  "wdying = \<lparr>psys = \<lparr>cmem = [0 \<mapsto> (fresh_state False (- 1))\<lparr>cs_refs := 0\<rparr>], cfresh = 1, cwoken = [], ckicks = [], chooked = [], cdying = [0]\<rparr>, pheld = {#}, pruns = {}\<rparr>"

definition wdrop :: cprog where
  "wdrop = \<lparr>psys = \<lparr>cmem = Map.empty, cfresh = 1, cwoken = [], ckicks = [], chooked = [], cdying = []\<rparr>, pheld = {#}, pruns = {}\<rparr>"

lemma wdrop_reach: "reach (\<lambda>P. P = cinit) (cstep True 1) wdrop"
proof -
  have "release_ref 0 (psys wsource) = Some (psys wdying)" by (simp add: release_ref_def cupd_def wsource_def wdying_def fresh_state_def)
  then have "cstep True 1 wsource wdying"
    using cstep.cstep [of "Drop_handle 0" wsource True 1 None "psys wdying"] wfits(2) by (simp add: wsource_def wdying_def)
  from reach_step [OF wsource_reach this] have d: "reach (\<lambda>P. P = cinit) (cstep True 1) wdying" .
  have "fits wdying" by (rule small_fits) (auto simp: wdying_def prog_refs_def)
  moreover have "delete_node 0 (psys wdying) = Some (None, psys wdrop)"
    by (simp add: delete_node_def unlink_from_parent_def dealloc_def wdying_def wdrop_def fresh_state_def)
  ultimately have "cstep True 1 wdying wdrop"
    using cstep.cstep [of "Finish_release 0" wdying True 1 None "psys wdrop"] by (simp add: wdying_def wdrop_def)
  then show ?thesis by (rule reach_step [OF d])
qed

text \<open>The task completed and its handle is dropped: it is linked under the source, with count zero and still to be deleted, when the source is cancelled.\<close>

definition wone :: cprog where
  "wone = \<lparr>psys = \<lparr>cmem = [0 \<mapsto> (fresh_state False (- 1))\<lparr>cs_refs := 2, cs_live := 1, cs_first := Some 1\<rparr>,
      1 \<mapsto> (fresh_state True 0)\<lparr>cs_refs := 1, cs_live := 1, cs_parent := Some 0\<rparr>],
     cfresh = 2, cwoken = [], ckicks = [], chooked = [], cdying = []\<rparr>, pheld = {#0#}, pruns = {1}\<rparr>"

definition wrace :: cprog where
  "wrace = \<lparr>psys = \<lparr>cmem = [0 \<mapsto> (fresh_state False (- 1))\<lparr>cs_refs := 2, cs_first := Some 1\<rparr>,
      1 \<mapsto> (fresh_state True 0)\<lparr>cs_refs := 0, cs_parent := Some 0, cs_status := True\<rparr>],
     cfresh = 2, cwoken = [], ckicks = [], chooked = [], cdying = [1]\<rparr>, pheld = {#0#}, pruns = {}\<rparr>"

lemma drop_eval: "drop_live_chain None s = Some s"
    "cmem s c = Some x \<Longrightarrow> cs_live x = 1 \<Longrightarrow> cs_join_waiters x = [] \<Longrightarrow>
      drop_live_chain (Some c) s = drop_live_chain (cs_parent x) (s\<lparr>cmem := (cmem s)(c \<mapsto> x\<lparr>cs_live := 0\<rparr>)\<rparr>)"
  by (simp add: drop_live_chain.simps) (subst drop_live_chain.simps, simp add: cupd_def wake_join_if_drained_def)

lemma wrace_reach: "reach (\<lambda>P. P = cinit) (cstep True 1) wrace"
proof -
  have "release_ref 1 (psys wtask) = Some (psys wone)" by (simp add: release_ref_def cupd_def wtask_def wone_def fresh_state_def)
  then have "cstep True 1 wtask wone"
    using cstep.cstep [of "Drop_handle 1" wtask True 1 None "psys wone"] wfits(3) by (simp add: wtask_def wone_def)
  from reach_step [OF wtask_reach this] have o: "reach (\<lambda>P. P = cinit) (cstep True 1) wone" .
  have "fits wone" by (rule small_fits) (auto simp: wone_def prog_refs_def)
  moreover have "complete 1 (psys wone) = Some (psys wrace)"
    by (simp add: complete_def release_ref_def cupd_def drop_eval wone_def wrace_def fresh_state_def fun_upd_twist)
  ultimately have "cstep True 1 wone wrace"
    using cstep.cstep [of "Complete 1" wone True 1 None "psys wrace"] by (simp add: wone_def wrace_def)
  then show ?thesis by (rule reach_step [OF o])
qed

theorem cancel_handles_safe_witness:
  "cdying (psys wrace) = [1] \<and> (\<exists>r s'. cexec True 1 (Request_cancel 0) (psys wrace) = Some (r, s')) \<and> (\<exists>r s'. cexec True 1 (Finish_release 1) (psys wrace) = Some (r, s')) \<and>
    (\<exists>r s'. cexec True 1 (Request_cancel 0) (psys wwait) = Some (r, s')) \<and> (\<exists>r s'. cexec True 1 (Complete 1) (psys wwait) = Some (r, s')) \<and>
    cmem (psys wdrop) = Map.empty"
proof -
  have "allowed (Request_cancel 0) wwait" "allowed (Complete 1) wwait" by (simp_all add: live_ref_def wwait_def)
  moreover have "cdying (psys wrace) = [1]" "allowed (Request_cancel 0) wrace" "allowed (Finish_release 1) wrace" by (simp_all add: live_ref_def wrace_def)
  moreover have "fits wrace" by (rule small_fits) (auto simp: wrace_def prog_refs_def)
  moreover have "pheld wdrop = {#} \<and> pruns wdrop = {} \<and> ckicks (psys wdrop) = [] \<and> cdying (psys wdrop) = []" by (simp add: wdrop_def)
  ultimately show ?thesis using cancel_handles_safe [OF wwait_reach] cancel_handles_safe [OF wrace_reach] wfits(4) cancel_handles_safe [OF wdrop_reach] by blast
qed

lemma wwait_descs: "descs (cmem (psys wwait)) {0} = {0, 1}"
proof -
  let ?m = "cmem (psys wwait)"
  have par: "mparent ?m q = (if q = 1 then Some 0 else None)" for q by (simp add: wwait_def fresh_state_def mparent_def)
  have "anc ?m 0 0" by simp
  then have "anc ?m 0 q \<longleftrightarrow> q = 0 \<or> q = 1" for q by (subst anc_unfold) (auto simp: par)
  then show ?thesis by (auto simp: descs_def)
qed

theorem request_cancel_subtree_witness:
  "\<exists>s'. request_cancel True 1 0 (psys wwait) = Some s' \<and> mreq (cmem s') 0 \<and> mreq (cmem s') 1 \<and> cwoken s' = [7]"
proof -
  have "live_ref wwait 0" by (simp add: live_ref_def wwait_def)
  from request_cancel_subtree [OF wwait_reach this refl wwait_descs [symmetric]] obtain s' where
    "request_cancel True 1 0 (psys wwait) = Some s'" "mreq (cmem s') 0" "mreq (cmem s') 1"
    "mset (cwoken s') = mset (cwoken (psys wwait)) + (\<Sum>q\<in>{0, 1}. mset (waiting_cancel (cmem (psys wwait)) q))" by auto
  moreover have "\<dots> = {#7#}" by (simp add: wwait_def waiting_cancel_def fresh_state_def)
  ultimately show ?thesis by auto
qed

theorem live_tasks_joined_witness:
  "\<exists>s'. complete 1 (psys wtask) = Some s' \<and> card {t \<in> pruns wtask. anc (cmem (psys wtask)) 0 t} = 1"
proof -
  obtain x where x: "cmem (psys wtask) 0 = Some x" "cs_live x = 1" by (simp add: wtask_def)
  have "mparent (cmem (psys wtask)) 1 = Some 0" by (simp add: wtask_def)
  then have "anc (cmem (psys wtask)) 0 1" by (subst anc_unfold) auto
  then have "1 \<in> {t \<in> pruns wtask. anc (cmem (psys wtask)) 0 t}" by (simp add: wtask_def)
  then show ?thesis using live_tasks_joined [OF wtask_reach x(1) refl] x(2) by auto
qed

end
