(* ===== verification/Select.thy ===== *)
theory Select
  imports Sync_Primitives
begin

text \<open>
  \<open>sync/Select.h\<close>: waiting for the first of several operations. Any number of tasks select over any number of
  primitives, given by their operations as in \<open>Wait_Protocol\<close>, while others notify them; every atomic access is a
  step. A node is a task and the index of the operation it stands for; all nodes of a select share one
  \<open>winner\<close> word. \<open>z_queued\<close> counts the entries of the task in the run queues.
\<close>

section \<open>State\<close>

datatype zpc = Z_idle | Z_round nat | Z_attach nat | Z_check nat | Z_back nat | Z_park | Z_detach nat | Z_own nat
  | Z_notify nat enat | Z_wake nat enat

record 'p zsys =
  z_prim :: "nat \<Rightarrow> 'p"
  z_list :: "nat \<Rightarrow> (nat \<times> nat) list"
  z_pc :: "nat \<Rightarrow> zpc"
  z_winner :: "nat \<Rightarrow> int"
  z_queued :: "nat \<Rightarrow> nat"
  z_ops :: "nat \<Rightarrow> nat list"
  z_start :: "nat \<Rightarrow> nat"

definition zsys_init :: "(nat \<Rightarrow> 'p) \<Rightarrow> 'p zsys" where
  "zsys_init p = \<lparr>z_prim = p, z_list = (\<lambda>_. []), z_pc = (\<lambda>_. Z_idle), z_winner = (\<lambda>_. - 1), z_queued = (\<lambda>_. 0),
     z_ops = (\<lambda>_. [0]), z_start = (\<lambda>_. 0)\<rparr>"

definition zjump :: "nat \<Rightarrow> zpc \<Rightarrow> 'p zsys \<Rightarrow> 'p zsys" where
  "zjump t l s = s\<lparr>z_pc := (z_pc s)(t := l)\<rparr>"

text \<open>The operation that \<open>select_try_round\<close> tries in iteration \<open>k\<close>.\<close>

definition round_index :: "nat \<Rightarrow> 'p zsys \<Rightarrow> nat \<Rightarrow> nat" where
  "round_index t s k = (z_start s t + k) mod length (z_ops s t)"

definition op_of :: "nat \<Rightarrow> 'p zsys \<Rightarrow> nat \<Rightarrow> nat" where
  "op_of t s i = z_ops s t ! i"

definition attach_node :: "nat \<Rightarrow> nat \<Rightarrow> 'p zsys \<Rightarrow> 'p zsys" where
  "attach_node t i s = s\<lparr>z_list := (z_list s)(op_of t s i := z_list s (op_of t s i) @ [(t, i)])\<rparr>"

definition detach_node :: "nat \<Rightarrow> nat \<Rightarrow> 'p zsys \<Rightarrow> 'p zsys" where
  "detach_node t i s = s\<lparr>z_list := (z_list s)(op_of t s i := remove1 (t, i) (z_list s (op_of t s i)))\<rparr>"

text \<open>\<open>fire_waiter\<close>: the compare-exchange on the shared winner and, when it succeeds, the resumption.\<close>

definition fire_node :: "nat \<times> nat \<Rightarrow> 'p zsys \<Rightarrow> bool \<times> 'p zsys" where
  "fire_node w s = (case w of (u, j) \<Rightarrow>
     if z_winner s u = - 1 then (True, s\<lparr>z_winner := (z_winner s)(u := int j), z_queued := (z_queued s)(u := Suc (z_queued s u))\<rparr>)
     else (False, s))"

text \<open>The wake loop of a primitive over the list \<open>q\<close>, with the rest of its budget.\<close>

fun zwake :: "enat \<Rightarrow> (nat \<times> nat) list \<Rightarrow> 'p zsys \<Rightarrow> (nat \<times> nat) list \<times> 'p zsys" where
  "zwake b [] s = ([], s)"
| "zwake b (w # q) s = (if b = 0 then (w # q, s)
     else case fire_node w s of (ok, s1) \<Rightarrow> zwake (if ok then b - 1 else b) q s1)"

section \<open>Steps\<close>

text \<open>\<open>n\<close> tasks over \<open>m\<close> primitives. \<open>Z_back\<close> is \<open>detach_all\<close> after a failed attach, \<open>Z_detach\<close> the one of
  \<open>await_resume\<close>, \<open>Z_own\<close> the one after the task's own cancellation won.\<close>

inductive zstep :: "('p, 'a) wprim \<Rightarrow> nat \<Rightarrow> nat \<Rightarrow> 'p zsys \<Rightarrow> 'p zsys \<Rightarrow> bool" for P n m where
  z_call: "t < n \<Longrightarrow> z_pc s t = Z_idle \<Longrightarrow> os \<noteq> [] \<Longrightarrow> set os \<subseteq> {..<m} \<Longrightarrow> k < length os \<Longrightarrow>
    zstep P n m s (zjump t (Z_round 0) (s\<lparr>z_ops := (z_ops s)(t := os), z_start := (z_start s)(t := k)\<rparr>))"
| z_round_ok: "t < n \<Longrightarrow> z_pc s t = Z_round k \<Longrightarrow> k < length (z_ops s t) \<Longrightarrow> r = op_of t s (round_index t s k) \<Longrightarrow>
    p_try P (z_prim s r) = Some p \<Longrightarrow> zstep P n m s (zjump t Z_idle (s\<lparr>z_prim := (z_prim s)(r := p)\<rparr>))"
| z_round_fail: "t < n \<Longrightarrow> z_pc s t = Z_round k \<Longrightarrow> k < length (z_ops s t) \<Longrightarrow>
    p_try P (z_prim s (op_of t s (round_index t s k))) = None \<Longrightarrow> zstep P n m s (zjump t (Z_round (Suc k)) s)"
| z_round_end: "t < n \<Longrightarrow> z_pc s t = Z_round (length (z_ops s t)) \<Longrightarrow>
    zstep P n m s (zjump t (Z_attach 0) (s\<lparr>z_winner := (z_winner s)(t := - 1)\<rparr>))"
| z_cancelled: "t < n \<Longrightarrow> z_pc s t = Z_round (length (z_ops s t)) \<Longrightarrow>
    zstep P n m s (zjump t Z_idle (s\<lparr>z_winner := (z_winner s)(t := - 1)\<rparr>))"
| z_attach: "t < n \<Longrightarrow> z_pc s t = Z_attach i \<Longrightarrow> i < length (z_ops s t) \<Longrightarrow>
    zstep P n m s (zjump t (Z_check i) (attach_node t i s))"
| z_check_wait: "t < n \<Longrightarrow> z_pc s t = Z_check i \<Longrightarrow> p_must_wait P (z_prim s (op_of t s i)) \<Longrightarrow>
    zstep P n m s (zjump t (Z_attach (Suc i)) s)"
| z_check_ready: "t < n \<Longrightarrow> z_pc s t = Z_check i \<Longrightarrow> \<not> p_must_wait P (z_prim s (op_of t s i)) \<Longrightarrow>
    zstep P n m s (zjump t (Z_back 0) s)"
| z_back: "t < n \<Longrightarrow> z_pc s t = Z_back i \<Longrightarrow> i < length (z_ops s t) \<Longrightarrow>
    zstep P n m s (zjump t (Z_back (Suc i)) (detach_node t i s))"
| z_back_run: "t < n \<Longrightarrow> z_pc s t = Z_back (length (z_ops s t)) \<Longrightarrow> z_winner s t = - 1 \<Longrightarrow>
    zstep P n m s (zjump t (Z_detach 0) s)"
| z_back_park: "t < n \<Longrightarrow> z_pc s t = Z_back (length (z_ops s t)) \<Longrightarrow> z_winner s t \<noteq> - 1 \<Longrightarrow> zstep P n m s (zjump t Z_park s)"
| z_park: "t < n \<Longrightarrow> z_pc s t = Z_attach (length (z_ops s t)) \<Longrightarrow> zstep P n m s (zjump t Z_park s)"
| z_own_cancel: "t < n \<Longrightarrow> z_pc s t = Z_attach (length (z_ops s t)) \<Longrightarrow> z_winner s t = - 1 \<Longrightarrow>
    zstep P n m s (zjump t (Z_own 0) (s\<lparr>z_winner := (z_winner s)(t := kCancelledIndex)\<rparr>))"
| z_own: "t < n \<Longrightarrow> z_pc s t = Z_own i \<Longrightarrow> i < length (z_ops s t) \<Longrightarrow>
    zstep P n m s (zjump t (Z_own (Suc i)) (detach_node t i s))"
| z_own_end: "t < n \<Longrightarrow> z_pc s t = Z_own (length (z_ops s t)) \<Longrightarrow> zstep P n m s (zjump t Z_idle s)"
| z_on_cancel: "t < n \<Longrightarrow> z_pc s t = Z_park \<Longrightarrow> z_winner s t = - 1 \<Longrightarrow>
    zstep P n m s (s\<lparr>z_winner := (z_winner s)(t := kCancelledIndex), z_queued := (z_queued s)(t := Suc (z_queued s t))\<rparr>)"
| z_resume: "t < n \<Longrightarrow> z_pc s t = Z_park \<Longrightarrow> z_queued s t > 0 \<Longrightarrow>
    zstep P n m s (zjump t (Z_detach 0) (s\<lparr>z_queued := (z_queued s)(t := z_queued s t - 1)\<rparr>))"
| z_detach: "t < n \<Longrightarrow> z_pc s t = Z_detach i \<Longrightarrow> i < length (z_ops s t) \<Longrightarrow>
    zstep P n m s (zjump t (Z_detach (Suc i)) (detach_node t i s))"
| z_detach_end: "t < n \<Longrightarrow> z_pc s t = Z_detach (length (z_ops s t)) \<Longrightarrow>
    zstep P n m s (zjump t (if z_winner s t = kCancelledIndex then Z_idle else Z_round 0) s)"
| z_act: "t < n \<Longrightarrow> z_pc s t = Z_idle \<Longrightarrow> r < m \<Longrightarrow> p_allowed P a (z_prim s r) \<Longrightarrow> p_act P a (z_prim s r) = (p, b) \<Longrightarrow>
    zstep P n m s (zjump t (if b = 0 then Z_idle else Z_notify r b) (s\<lparr>z_prim := (z_prim s)(r := p)\<rparr>))"
| z_notify_none: "t < n \<Longrightarrow> z_pc s t = Z_notify r b \<Longrightarrow> z_list s r = [] \<Longrightarrow> zstep P n m s (zjump t Z_idle s)"
| z_notify_some: "t < n \<Longrightarrow> z_pc s t = Z_notify r b \<Longrightarrow> z_list s r \<noteq> [] \<Longrightarrow> zstep P n m s (zjump t (Z_wake r b) s)"
| z_wake: "t < n \<Longrightarrow> z_pc s t = Z_wake r b \<Longrightarrow> zwake b (z_list s r) s = (q, s1) \<Longrightarrow>
    zstep P n m s (zjump t Z_idle (s1\<lparr>z_list := (z_list s1)(r := q)\<rparr>))"

section \<open>Invariant\<close>

text \<open>The window in which node \<open>i\<close> of a select may be linked, and in which it must be unless the winner is decided.\<close>

fun may_link :: "zpc \<Rightarrow> nat \<Rightarrow> bool" where
  "may_link (Z_attach j) i = (i < j)"
| "may_link (Z_check j) i = (i \<le> j)"
| "may_link (Z_back j) i = (j \<le> i)"
| "may_link Z_park i = True"
| "may_link (Z_detach j) i = (j \<le> i)"
| "may_link (Z_own j) i = (j \<le> i)"
| "may_link _ i = False"

fun must_link :: "zpc \<Rightarrow> nat \<Rightarrow> bool" where
  "must_link (Z_attach j) i = (i < j)"
| "must_link (Z_check j) i = (i \<le> j)"
| "must_link Z_park i = True"
| "must_link _ i = False"

text \<open>Where a claimed winner stands for one entry in a run queue.\<close>

fun suspended :: "zpc \<Rightarrow> bool" where
  "suspended (Z_attach j) = True"
| "suspended (Z_check j) = True"
| "suspended (Z_back j) = True"
| "suspended Z_park = True"
| "suspended _ = False"

definition zlinked :: "'p zsys \<Rightarrow> nat \<Rightarrow> nat \<Rightarrow> bool" where
  "zlinked s t i \<longleftrightarrow> (t, i) \<in> set (z_list s (op_of t s i))"

definition ztask_ok :: "'p zsys \<Rightarrow> nat \<Rightarrow> bool" where
  "ztask_ok s t \<longleftrightarrow> z_ops s t \<noteq> [] \<and>
     (\<forall>i < length (z_ops s t). must_link (z_pc s t) i \<and> z_winner s t = - 1 \<longrightarrow> zlinked s t i) \<and>
     z_queued s t = (if suspended (z_pc s t) \<and> z_winner s t \<noteq> - 1 then 1 else 0) \<and>
     (\<forall>j. z_pc s t = Z_attach j \<longrightarrow> j \<le> length (z_ops s t)) \<and> (\<forall>j. z_pc s t = Z_check j \<longrightarrow> j < length (z_ops s t))"

definition zlists_ok :: "'p zsys \<Rightarrow> bool" where
  "zlists_ok s \<longleftrightarrow> (\<forall>r. distinct (z_list s r)) \<and>
     (\<forall>r u i. (u, i) \<in> set (z_list s r) \<longrightarrow> i < length (z_ops s u) \<and> r = op_of u s i \<and> may_link (z_pc s u) i \<and>
       (\<forall>j. z_pc s u = Z_detach j \<or> z_pc s u = Z_own j \<longrightarrow> z_winner s u \<noteq> - 1))"

definition zinv :: "'p zsys \<Rightarrow> bool" where
  "zinv s \<longleftrightarrow> zlists_ok s \<and> (\<forall>t. ztask_ok s t)"


section \<open>Preservation\<close>

lemma zjump_simps [simp]:
  "z_prim (zjump t l s) = z_prim s" "z_list (zjump t l s) = z_list s" "z_pc (zjump t l s) = (z_pc s)(t := l)"
  "z_winner (zjump t l s) = z_winner s" "z_queued (zjump t l s) = z_queued s" "z_ops (zjump t l s) = z_ops s" "op_of u (zjump t l s) i = op_of u s i"
  by (simp_all add: zjump_def op_of_def)

lemma node_simps [simp]:
  "z_prim (attach_node t i s) = z_prim s" "z_pc (attach_node t i s) = z_pc s" "z_winner (attach_node t i s) = z_winner s"
  "z_queued (attach_node t i s) = z_queued s" "z_ops (attach_node t i s) = z_ops s" "op_of u (attach_node t i s) j = op_of u s j"
  "z_prim (detach_node t i s) = z_prim s" "z_pc (detach_node t i s) = z_pc s" "z_winner (detach_node t i s) = z_winner s"
  "z_queued (detach_node t i s) = z_queued s" "z_ops (detach_node t i s) = z_ops s" "op_of u (detach_node t i s) j = op_of u s j"
  by (simp_all add: attach_node_def detach_node_def op_of_def)

definition zlink_ok :: "'p zsys \<Rightarrow> nat \<Rightarrow> bool" where
  "zlink_ok s t \<longleftrightarrow> (\<forall>r i. (t, i) \<in> set (z_list s r) \<longrightarrow> i < length (z_ops s t) \<and> r = op_of t s i \<and> may_link (z_pc s t) i \<and>
     (\<forall>j. z_pc s t = Z_detach j \<or> z_pc s t = Z_own j \<longrightarrow> z_winner s t \<noteq> - 1))"

lemma zinv_alt: "zinv s \<longleftrightarrow> (\<forall>r. distinct (z_list s r)) \<and> (\<forall>t. zlink_ok s t \<and> ztask_ok s t)"
  unfolding zinv_def zlists_ok_def zlink_ok_def by blast

lemma zinvD:
  assumes "zinv s"
  shows "distinct (z_list s r)" "zlink_ok s t" "ztask_ok s t"
  using assms by (simp_all add: zinv_alt)

text \<open>A step of task \<open>t\<close> that leaves the nodes of the others where they are.\<close>

lemma zframe:
  assumes I: "zinv s" and o: "\<And>u. u \<noteq> t \<Longrightarrow> z_pc s' u = z_pc s u \<and> z_winner s' u = z_winner s u \<and> z_queued s' u = z_queued s u \<and> z_ops s' u = z_ops s u"
    and l: "\<And>r u i. u \<noteq> t \<Longrightarrow> (u, i) \<in> set (z_list s' r) \<longleftrightarrow> (u, i) \<in> set (z_list s r)" and d: "\<And>r. distinct (z_list s' r)"
    and t: "ztask_ok s' t" "zlink_ok s' t"
  shows "zinv s'"
proof -
  have "zlink_ok s' u \<and> ztask_ok s' u" if "u \<noteq> t" for u
    using zinvD(2,3) [OF I, of u] o [OF that] l [OF that] by (simp add: zlink_ok_def ztask_ok_def zlinked_def op_of_def)
  then show ?thesis unfolding zinv_alt using d t by metis
qed

text \<open>\<dots> and no lists at all.\<close>

lemma zframe_pc:
  assumes I: "zinv s" and o: "\<And>u. u \<noteq> t \<Longrightarrow> z_pc s' u = z_pc s u \<and> z_winner s' u = z_winner s u \<and> z_queued s' u = z_queued s u \<and> z_ops s' u = z_ops s u"
    and l: "z_list s' = z_list s" and t: "ztask_ok s' t" "zlink_ok s' t"
  shows "zinv s'"
  by (rule zframe [OF I o _ _ t]) (use l zinvD(1) [OF I] in auto)

lemma attach_inv:
  assumes I: "zinv s" and pc: "z_pc s t = Z_attach i" "i < length (z_ops s t)"
  shows "zinv (zjump t (Z_check i) (attach_node t i s))"
proof (rule zframe [OF I])
  have new: "(t, i) \<notin> set (z_list s r)" for r using zinvD(2) [OF I, of t] pc(1) by (auto simp: zlink_ok_def)
  show "distinct (z_list (zjump t (Z_check i) (attach_node t i s)) r)" for r
    using zinvD(1) [OF I] new by (simp add: attach_node_def)
  show "ztask_ok (zjump t (Z_check i) (attach_node t i s)) t"
    using zinvD(3) [OF I, of t] pc by (auto simp: ztask_ok_def zlinked_def attach_node_def op_of_def less_Suc_eq_le le_less)
  show "zlink_ok (zjump t (Z_check i) (attach_node t i s)) t"
    using zinvD(2) [OF I, of t] pc by (fastforce simp: zlink_ok_def attach_node_def op_of_def split: if_splits)
qed (auto simp: attach_node_def split: if_splits)

lemma detach_inv:
  assumes I: "zinv s" and pc: "z_pc s t = l i" "i < length (z_ops s t)"
    and l: "l = Z_back \<or> l = Z_detach \<or> l = Z_own"
  shows "zinv (zjump t (l (Suc i)) (detach_node t i s))"
proof (rule zframe [OF I])
  show "distinct (z_list (zjump t (l (Suc i)) (detach_node t i s)) r)" for r
    using zinvD(1) [OF I] by (simp add: detach_node_def)
  show "ztask_ok (zjump t (l (Suc i)) (detach_node t i s)) t"
    using zinvD(3) [OF I, of t] pc l by (auto simp: ztask_ok_def)
  show "zlink_ok (zjump t (l (Suc i)) (detach_node t i s)) t"
    unfolding zlink_ok_def
  proof (intro allI impI)
    fix r j assume a: "(t, j) \<in> set (z_list (zjump t (l (Suc i)) (detach_node t i s)) r)"
    then have j: "(t, j) \<in> set (z_list s r)" using set_remove1_subset by (fastforce simp: detach_node_def split: if_splits)
    have f: "j < length (z_ops s t) \<and> r = op_of t s j \<and> may_link (l i) j \<and>
        (\<forall>k. l i = Z_detach k \<or> l i = Z_own k \<longrightarrow> z_winner s t \<noteq> - 1)"
      using zinvD(2) [OF I, of t] j unfolding zlink_ok_def pc(1) by blast
    have "j \<noteq> i" using a f zinvD(1) [OF I, of r] by (auto simp: detach_node_def)
    then show "j < length (z_ops (zjump t (l (Suc i)) (detach_node t i s)) t) \<and> r = op_of t (zjump t (l (Suc i)) (detach_node t i s)) j \<and>
        may_link (z_pc (zjump t (l (Suc i)) (detach_node t i s)) t) j \<and>
        (\<forall>ja. z_pc (zjump t (l (Suc i)) (detach_node t i s)) t = Z_detach ja \<or> z_pc (zjump t (l (Suc i)) (detach_node t i s)) t = Z_own ja \<longrightarrow>
           z_winner (zjump t (l (Suc i)) (detach_node t i s)) t \<noteq> - 1)"
      using f l by (elim disjE) auto
  qed
qed (auto simp: detach_node_def split: if_splits)

text \<open>The wake loop: a prefix of the list is popped, and exactly its undecided tasks are claimed and queued once.\<close>

lemma zwake_effect:
  "zwake b q s = (q', s1) \<Longrightarrow> \<exists>pre. q = pre @ q' \<and> s1 = s\<lparr>z_winner := z_winner s1, z_queued := z_queued s1\<rparr> \<and>
    (\<forall>u. if z_winner s u = - 1 \<and> u \<in> fst ` set pre then z_winner s1 u \<noteq> - 1 \<and> z_queued s1 u = Suc (z_queued s u)
         else z_winner s1 u = z_winner s u \<and> z_queued s1 u = z_queued s u)"
proof (induction b q s rule: zwake.induct)
  case (2 b w q s)
  obtain u j where w: "w = (u, j)" by (cases w)
  show ?case
  proof (cases "b = 0")
    case True
    then show ?thesis using 2 by (intro exI [of _ "[]"]) auto
  next
    case False
    obtain ok s0 where f: "fire_node w s = (ok, s0)" by (cases "fire_node w s")
    from 2(1) [OF False f [symmetric]] 2(2) False f obtain pre where pre: "q = pre @ q'" "s1 = s0\<lparr>z_winner := z_winner s1, z_queued := z_queued s1\<rparr>"
      "\<forall>u. if z_winner s0 u = - 1 \<and> u \<in> fst ` set pre then z_winner s1 u \<noteq> - 1 \<and> z_queued s1 u = Suc (z_queued s0 u)
         else z_winner s1 u = z_winner s0 u \<and> z_queued s1 u = z_queued s0 u" by auto
    have s0: "s0 = s\<lparr>z_winner := z_winner s0, z_queued := z_queued s0\<rparr>" using f by (auto simp: fire_node_def w split: if_splits)
    have "s1 = s\<lparr>z_winner := z_winner s1, z_queued := z_queued s1\<rparr>" by (subst pre(2), subst s0) simp
    moreover have "if z_winner s v = - 1 \<and> v \<in> fst ` set (w # pre) then z_winner s1 v \<noteq> - 1 \<and> z_queued s1 v = Suc (z_queued s v)
         else z_winner s1 v = z_winner s v \<and> z_queued s1 v = z_queued s v" for v
      using spec [OF pre(3), of v] f by (auto simp: fire_node_def w split: if_splits)
    ultimately show ?thesis using pre(1) by (intro exI [of _ "w # pre"]) auto
  qed
qed (auto intro: exI [of _ "[]"])


lemma may_link_suspended: "may_link l i \<Longrightarrow> (\<forall>j. l \<noteq> Z_detach j \<and> l \<noteq> Z_own j) \<Longrightarrow> suspended l"
  by (cases l) auto

lemma zwake_inv:
  assumes I: "zinv s" and pc: "z_pc s t = Z_wake r b" and w: "zwake b (z_list s r) s = (q, s1)"
  shows "zinv (zjump t Z_idle (s1\<lparr>z_list := (z_list s1)(r := q)\<rparr>))" (is "zinv ?s'")
proof -
  from zwake_effect [OF w] obtain pre where pre: "z_list s r = pre @ q" "s1 = s\<lparr>z_winner := z_winner s1, z_queued := z_queued s1\<rparr>"
    and eff: "\<And>u. if z_winner s u = - 1 \<and> u \<in> fst ` set pre then z_winner s1 u \<noteq> - 1 \<and> z_queued s1 u = Suc (z_queued s u)
         else z_winner s1 u = z_winner s u \<and> z_queued s1 u = z_queued s u" by blast
  have f: "z_list s1 = z_list s" "z_pc s1 = z_pc s" "z_ops s1 = z_ops s" by (subst pre(2), simp)+
  have f': "z_list ?s' = (z_list s)(r := q)" "z_pc ?s' = (z_pc s)(t := Z_idle)" "z_ops ?s' = z_ops s" "z_winner ?s' = z_winner s1" "z_queued ?s' = z_queued s1"
    using f by simp_all
  have op: "op_of u ?s' i = op_of u s i" for u i using f by (simp add: op_of_def)
  have notin: "(t, i) \<notin> set (z_list s x)" for x i using zinvD(2) [OF I, of t] pc by (auto simp: zlink_ok_def)
  have link: "zlink_ok ?s' u" for u
    unfolding zlink_ok_def
  proof (intro allI impI)
    fix x i assume a: "(u, i) \<in> set (z_list ?s' x)"
    then have m: "(u, i) \<in> set (z_list s x)" using pre(1) unfolding f' by (auto split: if_splits)
    then have "u \<noteq> t" using notin by auto
    moreover have "i < length (z_ops s u) \<and> x = op_of u s i \<and> may_link (z_pc s u) i \<and> (\<forall>j. z_pc s u = Z_detach j \<or> z_pc s u = Z_own j \<longrightarrow> z_winner s u \<noteq> - 1)"
      using zinvD(2) [OF I, of u] m unfolding zlink_ok_def by blast
    moreover have "z_winner s u \<noteq> - 1 \<Longrightarrow> z_winner s1 u = z_winner s u" using eff [of u] by simp
    ultimately show "i < length (z_ops ?s' u) \<and> x = op_of u ?s' i \<and> may_link (z_pc ?s' u) i \<and>
        (\<forall>j. z_pc ?s' u = Z_detach j \<or> z_pc ?s' u = Z_own j \<longrightarrow> z_winner ?s' u \<noteq> - 1)"
      unfolding f' op by auto
  qed
  have task: "ztask_ok ?s' u" for u
  proof (cases "z_winner s u = - 1 \<and> u \<in> fst ` set pre")
    case True
    then obtain j where "(u, j) \<in> set pre" by auto
    then have j: "(u, j) \<in> set (z_list s r)" using pre(1) by simp
    then have "u \<noteq> t" using notin by auto
    have "may_link (z_pc s u) j \<and> (\<forall>j. z_pc s u = Z_detach j \<or> z_pc s u = Z_own j \<longrightarrow> z_winner s u \<noteq> - 1)"
      using zinvD(2) [OF I, of u] j unfolding zlink_ok_def by blast
    then have "suspended (z_pc s u)" using may_link_suspended True by blast
    then show ?thesis using zinvD(3) [OF I, of u] eff [of u] True \<open>u \<noteq> t\<close> unfolding ztask_ok_def f' by simp
  next
    case False
    then have e: "z_winner s1 u = z_winner s u" "z_queued s1 u = z_queued s u" using eff [of u] by simp_all
    have "zlinked ?s' u i" if l: "zlinked s u i" "z_winner s u = - 1" for i
      using l False pre(1) unfolding zlinked_def op f' by (auto simp: rev_image_eqI)
    then show ?thesis using zinvD(3) [OF I, of u] e pc unfolding ztask_ok_def f' by (cases "u = t") auto
  qed
  have "distinct (z_list ?s' x)" for x using zinvD(1) [OF I, of x] pre(1) zinvD(1) [OF I, of r] unfolding f' by simp
  then show ?thesis using link task unfolding zinv_alt by blast
qed

lemma no_links:
  assumes "zinv s" "z_pc s t = Z_back (length (z_ops s t)) \<or> z_pc s t = Z_detach (length (z_ops s t)) \<or> z_pc s t = Z_own (length (z_ops s t))"
  shows "(t, i) \<notin> set (z_list s r)"
  using zinvD(2) [OF assms(1), of t] assms(2) unfolding zlink_ok_def by fastforce

lemma zstep_inv:
  assumes "zstep P n m s s'" "zinv s"
  shows "zinv s'"
  using assms(1)
proof cases
  case (z_attach t i)
  then show ?thesis using attach_inv [OF assms(2)] by blast
next
  case (z_back t i)
  then show ?thesis using detach_inv [OF assms(2), of t Z_back] by blast
next
  case (z_detach t i)
  then show ?thesis using detach_inv [OF assms(2), of t Z_detach] by blast
next
  case (z_own t i)
  then show ?thesis using detach_inv [OF assms(2), of t Z_own] by blast
next
  case (z_wake t r b q s1)
  then show ?thesis using zwake_inv [OF assms(2)] by blast
next
  case (z_call t os k)
  then show ?thesis using zinvD(2,3) [OF assms(2), of t] unfolding z_call(1)
    by (intro zframe_pc [OF assms(2), of t]) (auto simp: ztask_ok_def zlink_ok_def)
next
  case (z_round_ok t k r p)
  then show ?thesis using zinvD(2,3) [OF assms(2), of t] unfolding z_round_ok(1)
    by (intro zframe_pc [OF assms(2), of t]) (auto simp: ztask_ok_def zlink_ok_def op_of_def)
next
  case (z_round_fail t k)
  then show ?thesis using zinvD(2,3) [OF assms(2), of t] unfolding z_round_fail(1)
    by (intro zframe_pc [OF assms(2), of t]) (auto simp: ztask_ok_def zlink_ok_def)
next
  case (z_round_end t)
  then show ?thesis using zinvD(2,3) [OF assms(2), of t] unfolding z_round_end(1)
    by (intro zframe_pc [OF assms(2), of t]) (auto simp: ztask_ok_def zlink_ok_def)
next
  case (z_cancelled t)
  then show ?thesis using zinvD(2,3) [OF assms(2), of t] unfolding z_cancelled(1)
    by (intro zframe_pc [OF assms(2), of t]) (auto simp: ztask_ok_def zlink_ok_def)
next
  case (z_check_wait t i)
  then show ?thesis using zinvD(2,3) [OF assms(2), of t] unfolding z_check_wait(1)
    by (intro zframe_pc [OF assms(2), of t]) (auto simp: ztask_ok_def zlink_ok_def zlinked_def less_Suc_eq_le)
next
  case (z_check_ready t i)
  then show ?thesis using zinvD(2,3) [OF assms(2), of t] unfolding z_check_ready(1)
    by (intro zframe_pc [OF assms(2), of t]) (auto simp: ztask_ok_def zlink_ok_def)
next
  case (z_back_run t)
  then have "(t, i) \<notin> set (z_list s r)" for i r using no_links [OF assms(2)] by blast
  then show ?thesis using z_back_run zinvD(3) [OF assms(2), of t] unfolding z_back_run(1)
    by (intro zframe_pc [OF assms(2), of t]) (auto simp: ztask_ok_def zlink_ok_def)
next
  case (z_back_park t)
  then have "(t, i) \<notin> set (z_list s r)" for i r using no_links [OF assms(2)] by blast
  then show ?thesis using z_back_park zinvD(3) [OF assms(2), of t] unfolding z_back_park(1)
    by (intro zframe_pc [OF assms(2), of t]) (auto simp: ztask_ok_def zlink_ok_def)
next
  case (z_park t)
  then show ?thesis using zinvD(2,3) [OF assms(2), of t] unfolding z_park(1)
    by (intro zframe_pc [OF assms(2), of t]) (auto simp: ztask_ok_def zlink_ok_def zlinked_def)
next
  case (z_own_cancel t)
  then show ?thesis using zinvD(2,3) [OF assms(2), of t] unfolding z_own_cancel(1)
    by (intro zframe_pc [OF assms(2), of t]) (auto simp: ztask_ok_def zlink_ok_def op_of_def kCancelledIndex_def)
next
  case (z_own_end t)
  then have "(t, i) \<notin> set (z_list s r)" for i r using no_links [OF assms(2)] by blast
  then show ?thesis using z_own_end zinvD(3) [OF assms(2), of t] unfolding z_own_end(1)
    by (intro zframe_pc [OF assms(2), of t]) (auto simp: ztask_ok_def zlink_ok_def)
next
  case (z_on_cancel t)
  then show ?thesis using zinvD(2,3) [OF assms(2), of t] unfolding z_on_cancel(1)
    by (intro zframe_pc [OF assms(2), of t]) (auto simp: ztask_ok_def zlink_ok_def op_of_def kCancelledIndex_def)
next
  case (z_resume t)
  then show ?thesis using zinvD(2,3) [OF assms(2), of t] unfolding z_resume(1)
    by (intro zframe_pc [OF assms(2), of t]) (auto simp: ztask_ok_def zlink_ok_def op_of_def split: if_splits)
next
  case (z_detach_end t)
  then have nl: "(t, i) \<notin> set (z_list s r)" for i r using no_links [OF assms(2)] by blast
  define l where "l = (if z_winner s t = kCancelledIndex then Z_idle else Z_round 0)"
  then have l: "\<not> must_link l i" "\<not> suspended l" "l \<noteq> Z_attach i" "l \<noteq> Z_check i" for i by simp_all
  have q: "z_ops s t \<noteq> []" "z_queued s t = 0" using zinvD(3) [OF assms(2), of t] z_detach_end(3) by (simp_all add: ztask_ok_def)
  have "zlink_ok (zjump t l s) t" using nl by (simp add: zlink_ok_def)
  moreover have "ztask_ok (zjump t l s) t" using q l by (simp add: ztask_ok_def)
  ultimately show ?thesis unfolding z_detach_end(1) l_def [symmetric] by (intro zframe_pc [OF assms(2), of t]) simp_all
next
  case (z_act t r a p b)
  then show ?thesis using zinvD(2,3) [OF assms(2), of t] unfolding z_act(1)
    by (intro zframe_pc [OF assms(2), of t]) (auto simp: ztask_ok_def zlink_ok_def op_of_def)
next
  case (z_notify_none t r b)
  then show ?thesis using zinvD(2,3) [OF assms(2), of t] unfolding z_notify_none(1)
    by (intro zframe_pc [OF assms(2), of t]) (auto simp: ztask_ok_def zlink_ok_def)
next
  case (z_notify_some t r b)
  then show ?thesis using zinvD(2,3) [OF assms(2), of t] unfolding z_notify_some(1)
    by (intro zframe_pc [OF assms(2), of t]) (auto simp: ztask_ok_def zlink_ok_def)
qed


section \<open>Properties\<close>

interpretation sel: inv_system "\<lambda>s. \<exists>p. s = zsys_init p" "zstep P n m" zinv for P n m
proof
  show "zinv s" if "\<exists>p. s = zsys_init p" for s :: "'a zsys"
    using that by (auto simp: zinv_alt zsys_init_def zlink_ok_def ztask_ok_def)
  show "zinv s'" if "zinv s" "zstep P n m s s'" for s s' using zstep_inv [OF that(2,1)] .
qed

text \<open>C27. A select is resumed at most once for each time it suspends: it has at most one entry in the run queues, and
  only while it is suspended. While it tries its operations, and after it returned, none of its nodes (which live
  in its coroutine frame) is linked in any list. A parked select is queued or linked with every one of its
  operations.\<close>

theorem select_safe:
  assumes "reach (\<lambda>s. \<exists>p. s = zsys_init p) (zstep P n m) s"
  shows "z_queued s t \<le> 1 \<and> (z_queued s t = 1 \<longrightarrow> suspended (z_pc s t)) \<and>
    ((z_pc s t = Z_idle \<or> (\<exists>k. z_pc s t = Z_round k)) \<longrightarrow> (\<forall>r i. (t, i) \<notin> set (z_list s r))) \<and>
    (z_pc s t = Z_park \<longrightarrow> z_queued s t = 1 \<or> (\<forall>i < length (z_ops s t). (t, i) \<in> set (z_list s (z_ops s t ! i))))"
proof -
  have I: "zinv s" using sel.reach_inv [OF assms] .
  have "(t, i) \<notin> set (z_list s r)" if "z_pc s t = Z_idle \<or> (\<exists>k. z_pc s t = Z_round k)" for r i
    using zinvD(2) [OF I, of t] that unfolding zlink_ok_def by fastforce
  moreover have "(t, i) \<in> set (z_list s (z_ops s t ! i))" if "z_pc s t = Z_park" "z_queued s t \<noteq> 1" "i < length (z_ops s t)" for i
    using zinvD(3) [OF I, of t] that by (auto simp: ztask_ok_def zlinked_def op_of_def split: if_splits)
  ultimately show ?thesis using zinvD(3) [OF I, of t] by (auto simp: ztask_ok_def)
qed

section \<open>A stranded waiter\<close>

text \<open>Two semaphores, a select over both (which tries the second one first), an acquirer of the first and a third task
  that releases both.\<close>

definition zst :: "int \<Rightarrow> int \<Rightarrow> (nat \<times> nat) list \<Rightarrow> (nat \<times> nat) list \<Rightarrow> zpc \<Rightarrow> zpc \<Rightarrow> zpc \<Rightarrow> int \<Rightarrow> int \<Rightarrow> nat \<Rightarrow> nat \<Rightarrow> nat list \<Rightarrow> nat \<Rightarrow> int zsys" where
  "zst A B l0 l1 c0 c1 c2 w0 w1 q0 q1 o0 k0 =
    \<lparr>z_prim = (\<lambda>r. if r = 0 then A else if r = 1 then B else 0), z_list = (\<lambda>r. if r = 0 then l0 else if r = 1 then l1 else []),
     z_pc = (\<lambda>t. if t = 0 then c0 else if t = 1 then c1 else if t = 2 then c2 else Z_idle),
     z_winner = (\<lambda>t. if t = 0 then w0 else if t = 1 then w1 else - 1), z_queued = (\<lambda>t. if t = 0 then q0 else if t = 1 then q1 else 0),
     z_ops = (\<lambda>t. if t = 0 then o0 else [0]), z_start = (\<lambda>t. if t = 0 then k0 else 0)\<rparr>"

lemma zst_simps:
  "z_prim (zst A B l0 l1 c0 c1 c2 w0 w1 q0 q1 o0 k0) = (\<lambda>r. if r = 0 then A else if r = 1 then B else 0)"
  "z_list (zst A B l0 l1 c0 c1 c2 w0 w1 q0 q1 o0 k0) = (\<lambda>r. if r = 0 then l0 else if r = 1 then l1 else [])"
  "z_pc (zst A B l0 l1 c0 c1 c2 w0 w1 q0 q1 o0 k0) = (\<lambda>t. if t = 0 then c0 else if t = 1 then c1 else if t = 2 then c2 else Z_idle)"
  "z_winner (zst A B l0 l1 c0 c1 c2 w0 w1 q0 q1 o0 k0) = (\<lambda>t. if t = 0 then w0 else if t = 1 then w1 else - 1)"
  "z_queued (zst A B l0 l1 c0 c1 c2 w0 w1 q0 q1 o0 k0) = (\<lambda>t. if t = 0 then q0 else if t = 1 then q1 else 0)"
  "z_ops (zst A B l0 l1 c0 c1 c2 w0 w1 q0 q1 o0 k0) = (\<lambda>t. if t = 0 then o0 else [0])"
  "z_start (zst A B l0 l1 c0 c1 c2 w0 w1 q0 q1 o0 k0) = (\<lambda>t. if t = 0 then k0 else 0)"
  by (simp_all add: zst_def)

lemma zsys_eqI:
  assumes "z_prim s = z_prim s'" "z_list s = z_list s'" "z_pc s = z_pc s'" "z_winner s = z_winner s'" "z_queued s = z_queued s'" "z_ops s = z_ops s'" "z_start s = z_start s'"
  shows "s = (s' :: 'p zsys)"
  using assms by (cases s, cases s') simp

lemmas zst_defs = sem_prim_def dec_count_def i32_def zjump_def attach_node_def detach_node_def op_of_def round_index_def fire_node_def
  kCancelledIndex_def one_enat_def zero_enat_def


definition zreach :: "int zsys \<Rightarrow> bool" where
  "zreach = reach (\<lambda>s. \<exists>p. s = zsys_init p) (zstep sem_prim 3 2)"

lemma zrun: "zreach s \<Longrightarrow> s1 = s2 \<Longrightarrow> zstep sem_prim 3 2 s s1 \<Longrightarrow> zreach s2"
  unfolding zreach_def by (rule reach_step) simp_all

lemmas zst_run = zst_simps zst_defs fun_eq_iff

lemma select_parks: "zreach (zst 0 0 [(0, 0)] [(0, 1)] (Z_park) (Z_idle) (Z_idle) (- 1) (- 1) 0 0 [0, 1] 1)"
proof -
  have "zst 0 0 [] [] Z_idle Z_idle Z_idle (- 1) (- 1) 0 0 [0] 0 = zsys_init (\<lambda>_. 0)"
    by (rule zsys_eqI) (auto simp: zst_simps zsys_init_def)
  then have run: "zreach (zst 0 0 [] [] Z_idle Z_idle Z_idle (- 1) (- 1) 0 0 [0] 0)"
    unfolding zreach_def by (intro reach_init) blast
  have run: "zreach (zst 0 0 [] [] (Z_round 0) (Z_idle) (Z_idle) (- 1) (- 1) 0 0 [0, 1] 1)"
    by (rule zrun [OF run _ zstep.z_call [of 0 3 _ "[0, 1]" 2 1]], rule zsys_eqI) (auto simp: zst_run)
  have run: "zreach (zst 0 0 [] [] (Z_round 1) (Z_idle) (Z_idle) (- 1) (- 1) 0 0 [0, 1] 1)"
    by (rule zrun [OF run _ zstep.z_round_fail [of 0 3 _ 0]], rule zsys_eqI) (auto simp: zst_run)
  have run: "zreach (zst 0 0 [] [] (Z_round 2) (Z_idle) (Z_idle) (- 1) (- 1) 0 0 [0, 1] 1)"
    by (rule zrun [OF run _ zstep.z_round_fail [of 0 3 _ 1]], rule zsys_eqI) (auto simp: zst_run)
  have run: "zreach (zst 0 0 [] [] (Z_attach 0) (Z_idle) (Z_idle) (- 1) (- 1) 0 0 [0, 1] 1)"
    by (rule zrun [OF run _ zstep.z_round_end [of 0 3]], rule zsys_eqI) (auto simp: zst_run)
  have run: "zreach (zst 0 0 [(0, 0)] [] (Z_check 0) (Z_idle) (Z_idle) (- 1) (- 1) 0 0 [0, 1] 1)"
    by (rule zrun [OF run _ zstep.z_attach [of 0 3 _ 0]], rule zsys_eqI) (auto simp: zst_run)
  have run: "zreach (zst 0 0 [(0, 0)] [] (Z_attach 1) (Z_idle) (Z_idle) (- 1) (- 1) 0 0 [0, 1] 1)"
    by (rule zrun [OF run _ zstep.z_check_wait [of 0 3 _ 0]], rule zsys_eqI) (auto simp: zst_run)
  have run: "zreach (zst 0 0 [(0, 0)] [(0, 1)] (Z_check 1) (Z_idle) (Z_idle) (- 1) (- 1) 0 0 [0, 1] 1)"
    by (rule zrun [OF run _ zstep.z_attach [of 0 3 _ 1]], rule zsys_eqI) (auto simp: zst_run)
  have run: "zreach (zst 0 0 [(0, 0)] [(0, 1)] (Z_attach 2) (Z_idle) (Z_idle) (- 1) (- 1) 0 0 [0, 1] 1)"
    by (rule zrun [OF run _ zstep.z_check_wait [of 0 3 _ 1]], rule zsys_eqI) (auto simp: zst_run)
  show ?thesis
    by (rule zrun [OF run _ zstep.z_park [of 0 3]], rule zsys_eqI) (auto simp: zst_run)
qed

lemma acquirer_parks: "zreach (zst 0 0 [(0, 0), (1, 0)] [(0, 1)] (Z_park) (Z_park) (Z_idle) (- 1) (- 1) 0 0 [0, 1] 1)"
proof -
  note run = select_parks
  have run: "zreach (zst 0 0 [(0, 0)] [(0, 1)] (Z_park) (Z_round 0) (Z_idle) (- 1) (- 1) 0 0 [0, 1] 1)"
    by (rule zrun [OF run _ zstep.z_call [of 1 3 _ "[0]" 2 0]], rule zsys_eqI) (auto simp: zst_run)
  have run: "zreach (zst 0 0 [(0, 0)] [(0, 1)] (Z_park) (Z_round 1) (Z_idle) (- 1) (- 1) 0 0 [0, 1] 1)"
    by (rule zrun [OF run _ zstep.z_round_fail [of 1 3 _ 0]], rule zsys_eqI) (auto simp: zst_run)
  have run: "zreach (zst 0 0 [(0, 0)] [(0, 1)] (Z_park) (Z_attach 0) (Z_idle) (- 1) (- 1) 0 0 [0, 1] 1)"
    by (rule zrun [OF run _ zstep.z_round_end [of 1 3]], rule zsys_eqI) (auto simp: zst_run)
  have run: "zreach (zst 0 0 [(0, 0), (1, 0)] [(0, 1)] (Z_park) (Z_check 0) (Z_idle) (- 1) (- 1) 0 0 [0, 1] 1)"
    by (rule zrun [OF run _ zstep.z_attach [of 1 3 _ 0]], rule zsys_eqI) (auto simp: zst_run)
  have run: "zreach (zst 0 0 [(0, 0), (1, 0)] [(0, 1)] (Z_park) (Z_attach 1) (Z_idle) (- 1) (- 1) 0 0 [0, 1] 1)"
    by (rule zrun [OF run _ zstep.z_check_wait [of 1 3 _ 0]], rule zsys_eqI) (auto simp: zst_run)
  show ?thesis
    by (rule zrun [OF run _ zstep.z_park [of 1 3]], rule zsys_eqI) (auto simp: zst_run)
qed

lemma both_released: "zreach (zst 1 1 [(1, 0)] [] (Z_park) (Z_park) (Z_idle) (0) (- 1) 1 0 [0, 1] 1)"
proof -
  note run = acquirer_parks
  have run: "zreach (zst 1 0 [(0, 0), (1, 0)] [(0, 1)] (Z_park) (Z_park) (Z_notify 0 1) (- 1) (- 1) 0 0 [0, 1] 1)"
    by (rule zrun [OF run _ zstep.z_act [of 2 3 _ 0 2 sem_prim 1 1 1]], rule zsys_eqI) (auto simp: zst_run)
  have run: "zreach (zst 1 0 [(0, 0), (1, 0)] [(0, 1)] (Z_park) (Z_park) (Z_wake 0 1) (- 1) (- 1) 0 0 [0, 1] 1)"
    by (rule zrun [OF run _ zstep.z_notify_some [of 2 3 _ 0 1]], rule zsys_eqI) (auto simp: zst_run)
  have run: "zreach (zst 1 0 [(1, 0)] [(0, 1)] (Z_park) (Z_park) (Z_idle) (0) (- 1) 1 0 [0, 1] 1)"
    by (rule zrun [OF run _ zstep.z_wake [of 2]], rule zsys_eqI) (auto simp: zst_run)
  have run: "zreach (zst 1 1 [(1, 0)] [(0, 1)] (Z_park) (Z_park) (Z_notify 1 1) (0) (- 1) 1 0 [0, 1] 1)"
    by (rule zrun [OF run _ zstep.z_act [of 2 3 _ 1 2 sem_prim 1 1 1]], rule zsys_eqI) (auto simp: zst_run)
  have run: "zreach (zst 1 1 [(1, 0)] [(0, 1)] (Z_park) (Z_park) (Z_wake 1 1) (0) (- 1) 1 0 [0, 1] 1)"
    by (rule zrun [OF run _ zstep.z_notify_some [of 2 3 _ 1 1]], rule zsys_eqI) (auto simp: zst_run)
  show ?thesis
    by (rule zrun [OF run _ zstep.z_wake [of 2]], rule zsys_eqI) (auto simp: zst_run)
qed

lemma other_taken: "zreach (zst 1 0 [(1, 0)] [] (Z_idle) (Z_park) (Z_idle) (0) (- 1) 0 0 [0, 1] 1)"
proof -
  note run = both_released
  have run: "zreach (zst 1 1 [(1, 0)] [] (Z_detach 0) (Z_park) (Z_idle) (0) (- 1) 0 0 [0, 1] 1)"
    by (rule zrun [OF run _ zstep.z_resume [of 0 3]], rule zsys_eqI) (auto simp: zst_run)
  have run: "zreach (zst 1 1 [(1, 0)] [] (Z_detach 1) (Z_park) (Z_idle) (0) (- 1) 0 0 [0, 1] 1)"
    by (rule zrun [OF run _ zstep.z_detach [of 0 3 _ 0]], rule zsys_eqI) (auto simp: zst_run)
  have run: "zreach (zst 1 1 [(1, 0)] [] (Z_detach 2) (Z_park) (Z_idle) (0) (- 1) 0 0 [0, 1] 1)"
    by (rule zrun [OF run _ zstep.z_detach [of 0 3 _ 1]], rule zsys_eqI) (auto simp: zst_run)
  have run: "zreach (zst 1 1 [(1, 0)] [] (Z_round 0) (Z_park) (Z_idle) (0) (- 1) 0 0 [0, 1] 1)"
    by (rule zrun [OF run _ zstep.z_detach_end [of 0 3]], rule zsys_eqI) (auto simp: zst_run)
  show ?thesis
    by (rule zrun [OF run _ zstep.z_round_ok [of 0 3 _ 0 1 sem_prim 0]], rule zsys_eqI) (auto simp: zst_run)
qed

text \<open>Select loses a wake-up that was meant for another task: the release of the first semaphore wakes the select,
  which takes a permit of the second one instead and does not pass the wake-up on. In the final state every task
  is idle or parked, nothing is queued, the first semaphore has a permit, and the acquirer is parked on it.\<close>

theorem select_strands_waiter:
  "\<exists>s :: int zsys. reach (\<lambda>s. \<exists>p. s = zsys_init p) (zstep sem_prim 3 2) s \<and> (\<forall>t. z_pc s t = Z_idle \<or> z_pc s t = Z_park) \<and>
    (\<forall>t. z_queued s t = 0) \<and> z_prim s 0 = 1 \<and> z_pc s 1 = Z_park \<and> z_ops s 1 = [0] \<and> (1, 0) \<in> set (z_list s 0)"
  using other_taken unfolding zreach_def
  by (intro exI [of _ "zst 1 0 [(1, 0)] [] (Z_idle) (Z_park) (Z_idle) (0) (- 1) 0 0 [0, 1] 1"]) (simp add: zst_simps)

theorem select_safe_witness:
  "\<exists>s :: int zsys. reach (\<lambda>s. \<exists>p. s = zsys_init p) (zstep sem_prim 3 2) s \<and> z_pc s 0 = Z_park \<and> z_queued s 0 = 0 \<and>
    (0, 0) \<in> set (z_list s 0) \<and> (0, 1) \<in> set (z_list s 1)"
proof -
  let ?s = "zst 0 0 [(0, 0), (1, 0)] [(0, 1)] (Z_park) (Z_park) (Z_idle) (- 1) (- 1) 0 0 [0, 1] 1"
  have p: "z_pc ?s 0 = Z_park" "z_queued ?s 0 = 0" "z_ops ?s 0 = [0, 1]" by (simp_all add: zst_simps)
  then have "\<forall>i < 2. (0, i) \<in> set (z_list ?s ([0, 1] ! i))"
    using select_safe [OF acquirer_parks [unfolded zreach_def], of 0] by (simp add: numeral_2_eq_2)
  then have "(0, 0) \<in> set (z_list ?s 0)" "(0, 1) \<in> set (z_list ?s 1)" by (auto simp: numeral_2_eq_2)
  then show ?thesis using acquirer_parks p unfolding zreach_def by blast
qed

end
