(* ===== verification/Worker_Wakeup.thy ===== *)
theory Worker_Wakeup
  imports Uvent_Prelude "HOL-Library.Word"
begin

text \<open>
  How work handed to a worker from another thread wakes it (\<open>pool/TLS.cpp\<close>, \<open>poll/EPoller.cpp\<close>,
  \<open>system/Thread.cpp\<close>): a producer pushes into an intrusive queue, raises the queue's flag and kicks the poller;
  the worker, woken through an edge-triggered event descriptor, drains the descriptor, clears the pending mark, and
  takes the queue when the flag was up. All atomic accesses of any number of producers and of the worker
  interleave.
\<close>

section \<open>Producers and worker\<close>

text \<open>\<open>Pr_link\<close> is the window of the intrusive push between the exchange of the tail and the link. A pop may return null
  although the queue holds elements, but only when such a window overlapped it (\<open>k_overlap\<close>, as \<open>overlapped\<close> in
  \<open>Intrusive_Mpsc\<close>, whose lemma \<open>pop_fails_empty\<close> justifies the steps here).\<close>

datatype ppc = Pr_idle | Pr_link | Pr_flag | Pr_kick | Pr_load | Pr_wake | Pr_write | Pr_dec

datatype kpc = K_poll | K_read | K_clear | K_work | K_pop | K_popping | K_unset | K_dead

record wkr =
  k_queue :: "nat list"
  k_flag :: bool
  k_pending :: bool
  k_count :: nat
  k_edge :: bool
  k_poller :: bool
  k_inflight :: nat
  k_pc :: kpc
  k_prod :: "nat \<Rightarrow> ppc"
  k_taken :: "nat list"
  k_pushed :: "nat list"
  k_overlap :: bool

definition wkr_init :: wkr where
  "wkr_init = \<lparr>k_queue = [], k_flag = False, k_pending = False, k_count = 0, k_edge = False, k_poller = True, k_inflight = 0,
     k_pc = K_poll, k_prod = (\<lambda>_. Pr_idle), k_taken = [], k_pushed = [], k_overlap = False\<rparr>"

definition pjump :: "nat \<Rightarrow> ppc \<Rightarrow> wkr \<Rightarrow> wkr" where
  "pjump p l s = s\<lparr>k_prod := (k_prod s)(p := l)\<rparr>"

definition busy :: "ppc \<Rightarrow> bool" where
  "busy l \<longleftrightarrow> l \<in> {Pr_load, Pr_wake, Pr_write, Pr_dec}"

definition nbusy :: "nat \<Rightarrow> (nat \<Rightarrow> ppc) \<Rightarrow> nat" where
  "nbusy n f = card {p. p < n \<and> busy (f p)}"

text \<open>One step of a producer \<open>p\<close> that hands over \<open>x\<close> (\<open>push_task_inbox\<close>, \<open>kick_poller\<close>, \<open>EPoller::wake\<close>).\<close>

definition producer_step :: "nat \<Rightarrow> nat \<Rightarrow> wkr \<Rightarrow> wkr" where
  "producer_step p x s = (case k_prod s p of
     Pr_idle \<Rightarrow> pjump p Pr_link (s\<lparr>k_queue := k_queue s @ [x], k_pushed := k_pushed s @ [x], k_overlap := True\<rparr>)
   | Pr_link \<Rightarrow> pjump p Pr_flag s
   | Pr_flag \<Rightarrow> pjump p Pr_kick (s\<lparr>k_flag := True\<rparr>)
   | Pr_kick \<Rightarrow> pjump p Pr_load (s\<lparr>k_inflight := Suc (k_inflight s)\<rparr>)
   | Pr_load \<Rightarrow> pjump p (if k_poller s then Pr_wake else Pr_dec) s
   | Pr_wake \<Rightarrow> pjump p (if k_pending s then Pr_dec else Pr_write) (s\<lparr>k_pending := True\<rparr>)
   | Pr_write \<Rightarrow> pjump p Pr_dec (s\<lparr>k_count := Suc (k_count s), k_edge := True\<rparr>)
   | Pr_dec \<Rightarrow> pjump p Pr_idle (s\<lparr>k_inflight := k_inflight s - 1\<rparr>))"

text \<open>The steps of the worker. \<open>epoll_wait\<close> reports the event descriptor when a write raised its edge; it may also return
  for another event or a timeout.\<close>

inductive wkr_step :: "nat \<Rightarrow> wkr \<Rightarrow> wkr \<Rightarrow> bool" for n where
  k_produce: "p < n \<Longrightarrow> wkr_step n s (producer_step p x s)"
| k_poll_wake: "k_pc s = K_poll \<Longrightarrow> k_edge s \<Longrightarrow> wkr_step n s (s\<lparr>k_edge := False, k_pc := K_read\<rparr>)"
| k_poll_other: "k_pc s = K_poll \<Longrightarrow> wkr_step n s (s\<lparr>k_pc := K_work\<rparr>)"
| k_read_fd: "k_pc s = K_read \<Longrightarrow> wkr_step n s (s\<lparr>k_count := 0, k_pc := K_clear\<rparr>)"
| k_clear_mark: "k_pc s = K_clear \<Longrightarrow> wkr_step n s (s\<lparr>k_pending := False, k_pc := K_work\<rparr>)"
| k_take_flag: "k_pc s = K_work \<Longrightarrow> wkr_step n s (s\<lparr>k_flag := False, k_pc := (if k_flag s then K_pop else K_poll)\<rparr>)"
| k_pop_call: "k_pc s = K_pop \<Longrightarrow> wkr_step n s (s\<lparr>k_overlap := (\<exists>p<n. k_prod s p = Pr_link), k_pc := K_popping\<rparr>)"
| k_pop_some: "k_pc s = K_popping \<Longrightarrow> k_queue s = x # q \<Longrightarrow> wkr_step n s (s\<lparr>k_queue := q, k_taken := k_taken s @ [x], k_pc := K_pop\<rparr>)"
| k_pop_none: "k_pc s = K_popping \<Longrightarrow> k_queue s = [] \<or> k_overlap s \<Longrightarrow> wkr_step n s (s\<lparr>k_pc := K_poll\<rparr>)"
| k_unset_poller: "k_pc s = K_poll \<Longrightarrow> wkr_step n s (s\<lparr>k_poller := False, k_pc := K_unset\<rparr>)"
| k_unset_wait: "k_pc s = K_unset \<Longrightarrow> k_inflight s = 0 \<Longrightarrow> wkr_step n s (s\<lparr>k_pc := K_dead\<rparr>)"

section \<open>Invariant\<close>

definition prod_at :: "nat \<Rightarrow> wkr \<Rightarrow> ppc set \<Rightarrow> bool" where
  "prod_at n s L \<longleftrightarrow> (\<exists>p<n. k_prod s p \<in> L)"

text \<open>A kick is on its way: an edge is raised or will be, or the worker is about to look at the flag.\<close>

definition kicked :: "nat \<Rightarrow> wkr \<Rightarrow> bool" where
  "kicked n s \<longleftrightarrow> k_edge s \<or> prod_at n s {Pr_write} \<or> k_pc s \<in> {K_read, K_clear}"

definition exiting :: "wkr \<Rightarrow> bool" where
  "exiting s \<longleftrightarrow> k_pc s \<in> {K_unset, K_dead}"

definition wkr_inv :: "nat \<Rightarrow> wkr \<Rightarrow> bool" where
  "wkr_inv n s \<longleftrightarrow> (\<forall>p\<ge>n. k_prod s p = Pr_idle) \<and> k_inflight s = nbusy n (k_prod s) \<and>
     k_pushed s = k_taken s @ k_queue s \<and> (k_poller s \<longleftrightarrow> \<not> exiting s) \<and>
     (k_pc s = K_dead \<longrightarrow> \<not> prod_at n s {Pr_wake, Pr_write}) \<and>
     (\<not> exiting s \<longrightarrow>
       (k_pending s \<longrightarrow> kicked n s) \<and>
       (k_flag s \<longrightarrow> kicked n s \<or> prod_at n s {Pr_kick, Pr_load, Pr_wake} \<or> k_pc s = K_work) \<and>
       (k_queue s \<noteq> [] \<longrightarrow> k_flag s \<or> prod_at n s {Pr_link, Pr_flag} \<or> k_pc s \<in> {K_pop, K_popping}) \<and>
       (k_pc s = K_popping \<and> k_overlap s \<longrightarrow> k_flag s \<or> prod_at n s {Pr_link, Pr_flag}))"


lemma pjump_simps [simp]:
  "k_queue (pjump p l s) = k_queue s" "k_flag (pjump p l s) = k_flag s" "k_pending (pjump p l s) = k_pending s" "k_count (pjump p l s) = k_count s"
  "k_edge (pjump p l s) = k_edge s" "k_poller (pjump p l s) = k_poller s" "k_inflight (pjump p l s) = k_inflight s" "k_overlap (pjump p l s) = k_overlap s" "k_pc (pjump p l s) = k_pc s"
  "k_prod (pjump p l s) = (k_prod s)(p := l)" "k_taken (pjump p l s) = k_taken s" "k_pushed (pjump p l s) = k_pushed s"
  by (simp_all add: pjump_def)

text \<open>What the other producers do.\<close>

definition others :: "nat \<Rightarrow> nat \<Rightarrow> wkr \<Rightarrow> ppc set \<Rightarrow> bool" where
  "others p n s L \<longleftrightarrow> (\<exists>q<n. q \<noteq> p \<and> k_prod s q \<in> L)"

lemma at_split: "p < n \<Longrightarrow> prod_at n s L \<longleftrightarrow> k_prod s p \<in> L \<or> others p n s L"
  by (auto simp: prod_at_def others_def)

lemma others_cong: "(\<And>q. q \<noteq> p \<Longrightarrow> k_prod s' q = k_prod s q) \<Longrightarrow> others p n s' L = others p n s L"
  by (auto simp: others_def)

lemma prod_at_cong: "k_prod s' = k_prod s \<Longrightarrow> prod_at n s' L = prod_at n s L"
  by (simp add: prod_at_def)

lemma others_mono: "others p n s L \<Longrightarrow> L \<subseteq> M \<Longrightarrow> others p n s M"
  by (auto simp: others_def)

lemma busy_simps [simp]:
  "busy Pr_load" "busy Pr_wake" "busy Pr_write" "busy Pr_dec" "\<not> busy Pr_idle" "\<not> busy Pr_link" "\<not> busy Pr_flag" "\<not> busy Pr_kick"
  by (simp_all add: busy_def)

lemma card_busy:
  assumes "p < n"
  shows "nbusy n (f(p := l)) + (if busy (f p) then 1 else 0) = nbusy n f + (if busy l then 1 else 0)"
proof -
  let ?R = "{q. q < n \<and> q \<noteq> p \<and> busy (f q)}"
  have "{q. q < n \<and> busy ((f(p := l)) q)} = ?R \<union> (if busy l then {p} else {})" "{q. q < n \<and> busy (f q)} = ?R \<union> (if busy (f p) then {p} else {})"
    using assms by auto
  moreover have "finite ?R" by (rule finite_subset [of _ "{..<n}"]) auto
  moreover have "p \<notin> ?R" by simp
  ultimately show ?thesis unfolding nbusy_def by simp
qed

lemma wkr_invD:
  assumes "wkr_inv n s"
  shows "p \<ge> n \<Longrightarrow> k_prod s p = Pr_idle" "k_inflight s = nbusy n (k_prod s)" "k_pushed s = k_taken s @ k_queue s"
    "k_poller s \<longleftrightarrow> \<not> exiting s" "k_pc s = K_dead \<Longrightarrow> \<not> prod_at n s {Pr_wake, Pr_write}" "\<not> exiting s \<Longrightarrow> k_pending s \<Longrightarrow> kicked n s"
    "\<not> exiting s \<Longrightarrow> k_flag s \<Longrightarrow> kicked n s \<or> prod_at n s {Pr_kick, Pr_load, Pr_wake} \<or> k_pc s = K_work"
    "\<not> exiting s \<Longrightarrow> k_queue s \<noteq> [] \<Longrightarrow> k_flag s \<or> prod_at n s {Pr_link, Pr_flag} \<or> k_pc s \<in> {K_pop, K_popping}"
    "k_pc s = K_popping \<Longrightarrow> k_overlap s \<Longrightarrow> k_flag s \<or> prod_at n s {Pr_link, Pr_flag}"
  using assms by (simp_all add: wkr_inv_def exiting_def)

lemma producer_inv:
  assumes I: "wkr_inv n s" and p: "p < n"
  shows "wkr_inv n (producer_step p x s)"
proof -
  let ?s' = "producer_step p x s"
  have oth: "others p n ?s' L = others p n s L" for L
    by (rule others_cong) (auto simp: producer_step_def split: ppc.splits)
  note D = wkr_invD [OF I]
  have pc: "k_pc ?s' = k_pc s" and po: "k_poller ?s' = k_poller s" by (auto simp: producer_step_def split: ppc.splits)
  have ex: "exiting ?s' = exiting s" using pc by (simp add: exiting_def)
  have "k_prod ?s' = (k_prod s)(p := k_prod ?s' p)" by (auto simp: producer_step_def split: ppc.splits)
  then have fl: "k_inflight ?s' = nbusy n (k_prod ?s')"
    using D(2) card_busy [OF p, of "k_prod s" "k_prod ?s' p"] by (cases "k_prod s p") (auto simp: producer_step_def)
  have kick: "kicked n ?s'" if k: "kicked n s"
    using k pc unfolding kicked_def at_split [OF p] oth by (cases "k_prod s p") (auto simp: producer_step_def)
  have dead: "\<not> prod_at n ?s' {Pr_wake, Pr_write}" if "k_pc s = K_dead"
    using D(4) D(5) [OF that] that unfolding at_split [OF p] oth
    by (cases "k_prod s p") (auto simp: producer_step_def exiting_def)
  have pend: "kicked n ?s'" if "\<not> exiting s" "k_pending ?s'"
  proof (cases "k_pending s")
    case True
    then show ?thesis using D(6) [OF that(1)] kick by blast
  next
    case False
    then show ?thesis using that pc unfolding kicked_def at_split [OF p] by (cases "k_prod s p") (auto simp: producer_step_def)
  qed
  have flag: "kicked n ?s' \<or> prod_at n ?s' {Pr_kick, Pr_load, Pr_wake} \<or> k_pc ?s' = K_work" if e: "\<not> exiting s" "k_flag ?s'"
  proof (cases "kicked n s \<or> k_pc s = K_work")
    case True
    then show ?thesis using kick pc by auto
  next
    case False
    have "k_flag s \<Longrightarrow> k_prod s p \<in> {Pr_kick, Pr_load, Pr_wake} \<or> others p n s {Pr_kick, Pr_load, Pr_wake}"
      using D(7) [OF e(1)] False unfolding at_split [OF p] by blast
    moreover have "k_pending s \<Longrightarrow> kicked n ?s'" using D(6) [OF e(1)] kick by blast
    moreover have "k_poller s" using D(4) e(1) by simp
    ultimately show ?thesis using e(2) unfolding at_split [OF p] oth
      by (cases "k_prod s p") (auto simp: producer_step_def kicked_def at_split [OF p])
  qed
  have over: "k_flag ?s' \<or> prod_at n ?s' {Pr_link, Pr_flag}" if e: "k_pc s = K_popping" "k_overlap ?s'"
  proof -
    have "k_overlap s \<Longrightarrow> k_flag s \<or> k_prod s p \<in> {Pr_link, Pr_flag} \<or> others p n s {Pr_link, Pr_flag}"
      using D(9) [OF e(1)] unfolding at_split [OF p] by blast
    then show ?thesis using e(2) unfolding at_split [OF p] oth by (cases "k_prod s p") (auto simp: producer_step_def)
  qed
  have queue: "k_flag ?s' \<or> prod_at n ?s' {Pr_link, Pr_flag} \<or> k_pc ?s' \<in> {K_pop, K_popping}" if e: "\<not> exiting s" "k_queue ?s' \<noteq> []"
  proof -
    have "k_queue s \<noteq> [] \<Longrightarrow> k_flag s \<or> k_prod s p \<in> {Pr_link, Pr_flag} \<or> others p n s {Pr_link, Pr_flag} \<or> k_pc s \<in> {K_pop, K_popping}"
      using D(8) [OF e(1)] unfolding at_split [OF p] by blast
    then show ?thesis using e(2) pc unfolding at_split [OF p] oth by (cases "k_prod s p") (auto simp: producer_step_def)
  qed
  have "k_pushed ?s' = k_taken ?s' @ k_queue ?s'" using D(3) by (cases "k_prod s p") (auto simp: producer_step_def)
  moreover have "k_prod ?s' q = Pr_idle" if "q \<ge> n" for q
    using D(1) [OF that] that p by (cases "k_prod s p") (auto simp: producer_step_def)
  moreover have "k_poller ?s' \<longleftrightarrow> \<not> exiting ?s'" using D(4) ex po by simp
  ultimately show ?thesis unfolding wkr_inv_def using fl dead pend flag queue over ex pc by auto
qed


text \<open>A step of the worker leaves the producers where they are.\<close>

lemma wkr_invI:
  assumes "wkr_inv n s" "k_prod s' = k_prod s" "k_inflight s' = k_inflight s" "k_pushed s' = k_taken s' @ k_queue s'"
    "k_poller s' \<longleftrightarrow> \<not> exiting s'" "k_pc s' = K_dead \<Longrightarrow> \<not> prod_at n s {Pr_wake, Pr_write}" "\<not> exiting s' \<Longrightarrow> k_pending s' \<Longrightarrow> kicked n s'"
    "\<not> exiting s' \<Longrightarrow> k_flag s' \<Longrightarrow> kicked n s' \<or> prod_at n s {Pr_kick, Pr_load, Pr_wake} \<or> k_pc s' = K_work"
    "\<not> exiting s' \<Longrightarrow> k_queue s' \<noteq> [] \<Longrightarrow> k_flag s' \<or> prod_at n s {Pr_link, Pr_flag} \<or> k_pc s' \<in> {K_pop, K_popping}"
    "k_pc s' = K_popping \<Longrightarrow> k_overlap s' \<Longrightarrow> k_flag s' \<or> prod_at n s {Pr_link, Pr_flag}"
  shows "wkr_inv n s'"
  using assms prod_at_cong [OF assms(2)] by (simp add: wkr_inv_def exiting_def)

lemma wkr_step_inv:
  assumes I: "wkr_inv n s" and st: "wkr_step n s s'"
  shows "wkr_inv n s'"
proof -
  note D = wkr_invD [OF I]
  have kc: "kicked n s' \<longleftrightarrow> k_edge s' \<or> prod_at n s {Pr_write} \<or> k_pc s' \<in> {K_read, K_clear}" if "k_prod s' = k_prod s"
    using prod_at_cong [OF that] by (simp add: kicked_def)
  show ?thesis using st
  proof cases
    case (k_produce p x)
    then show ?thesis using producer_inv [OF I] by simp
  next
    case k_poll_wake
    then show ?thesis using D kc by (intro wkr_invI [OF I]) (auto simp: exiting_def kicked_def)
  next
    case k_poll_other
    then show ?thesis using D kc by (intro wkr_invI [OF I]) (auto simp: exiting_def kicked_def)
  next
    case k_read_fd
    then show ?thesis using D kc by (intro wkr_invI [OF I]) (auto simp: exiting_def kicked_def)
  next
    case k_clear_mark
    then show ?thesis using D kc by (intro wkr_invI [OF I]) (auto simp: exiting_def kicked_def)
  next
    case k_take_flag
    then show ?thesis using D kc by (intro wkr_invI [OF I]) (auto simp: exiting_def kicked_def split: if_splits)
  next
    case k_pop_call
    then show ?thesis using D kc by (intro wkr_invI [OF I]) (auto simp: exiting_def kicked_def prod_at_def)
  next
    case (k_pop_some x q)
    then show ?thesis using D kc by (intro wkr_invI [OF I]) (auto simp: exiting_def kicked_def)
  next
    case k_pop_none
    then show ?thesis using D kc by (intro wkr_invI [OF I]) (auto simp: exiting_def kicked_def)
  next
    case k_unset_poller
    then show ?thesis using D by (intro wkr_invI [OF I]) (auto simp: exiting_def)
  next
    case k_unset_wait
    have "finite {p. p < n \<and> busy (k_prod s p)}" by (rule finite_subset [of _ "{..<n}"]) auto
    then have "{p. p < n \<and> busy (k_prod s p)} = {}" using D(2) k_unset_wait(3) by (simp add: nbusy_def)
    then have "\<not> prod_at n s {Pr_wake, Pr_write}" by (force simp: prod_at_def)
    then show ?thesis using k_unset_wait D by (intro wkr_invI [OF I]) (auto simp: exiting_def)
  qed
qed

interpretation wkr: inv_system "\<lambda>s. s = wkr_init" "wkr_step n" "wkr_inv n" for n
proof
  show "wkr_inv n s" if "s = wkr_init" for s using that by (simp add: wkr_inv_def wkr_init_def exiting_def prod_at_def nbusy_def)
  show "wkr_inv n s'" if "wkr_inv n s" "wkr_step n s s'" for s s' using wkr_step_inv [OF that] .
qed

text \<open>C28. No hand-over to a worker is lost: in every interleaving of producers and worker, what the worker took and what
  is still queued is what was pushed, in order; a worker that sits in \<open>epoll_wait\<close> with no wake event
  pending while no producer is inside a push has an empty queue; and once \<open>unset_poller\<close> returned nobody uses
  the poller.\<close>

theorem worker_wakeup_not_lost:
  assumes "reach (\<lambda>s. s = wkr_init) (wkr_step n) s"
  shows "k_pushed s = k_taken s @ k_queue s \<and>
    (k_pc s = K_poll \<and> \<not> k_edge s \<and> (\<forall>p. k_prod s p = Pr_idle) \<longrightarrow> k_queue s = []) \<and>
    (k_pc s = K_dead \<longrightarrow> (\<forall>p. k_prod s p \<noteq> Pr_wake \<and> k_prod s p \<noteq> Pr_write))"
proof -
  note D = wkr_invD [OF wkr.reach_inv [OF assms]]
  have "k_queue s = []" if q: "k_pc s = K_poll" "\<not> k_edge s" "\<forall>p. k_prod s p = Pr_idle"
  proof (rule ccontr)
    assume ne: "k_queue s \<noteq> []"
    have none: "\<not> prod_at n s L" if "Pr_idle \<notin> L" for L using q(3) that by (simp add: prod_at_def)
    have "\<not> exiting s" using q(1) by (simp add: exiting_def)
    from D(8) [OF this ne] have "k_flag s" using none q(1) by simp
    from D(7) [OF \<open>\<not> exiting s\<close> this] show False using none q by (simp add: kicked_def)
  qed
  moreover have "k_prod s p \<noteq> Pr_wake \<and> k_prod s p \<noteq> Pr_write" if "k_pc s = K_dead" for p
    using D(5) [OF that] D(1) [of p] by (cases "p < n") (auto simp: prod_at_def)
  ultimately show ?thesis using D(3) by blast
qed

text \<open>A producer that hands over one element, up to the write of the event descriptor.\<close>

definition wkr_demo :: wkr where
  "wkr_demo = \<lparr>k_queue = [7], k_flag = True, k_pending = True, k_count = 1, k_edge = True, k_poller = True, k_inflight = 0,
     k_pc = K_poll, k_prod = (\<lambda>_. Pr_idle), k_taken = [], k_pushed = [7], k_overlap = True\<rparr>"

lemma wkr_demo_reach: "reach (\<lambda>s. s = wkr_init) (wkr_step 1) wkr_demo"
proof -
  let ?R = "reach (\<lambda>s. s = wkr_init) (wkr_step 1)"
  have step: "?R (producer_step 0 7 s)" if "?R s" for s using reach_step [OF that k_produce [of 0 1]] by simp
  have "?R wkr_init" by (rule reach_init) simp
  then have "?R ((producer_step 0 7 ^^ k) wkr_init)" for k using step by (induction k) auto
  moreover have "(producer_step 0 7 ^^ 8) wkr_init = wkr_demo"
    by (simp add: eval_nat_numeral producer_step_def pjump_def wkr_init_def wkr_demo_def fun_eq_iff)
  ultimately show ?thesis by metis
qed

theorem worker_wakeup_not_lost_witness:
  "\<exists>s. reach (\<lambda>s. s = wkr_init) (wkr_step 1) s \<and> k_pc s = K_poll \<and> (\<forall>p. k_prod s p = Pr_idle) \<and> k_queue s = [7] \<and> k_edge s"
proof -
  have "k_pc wkr_demo = K_poll" "\<forall>p. k_prod wkr_demo p = Pr_idle" "k_queue wkr_demo = [7]" by (simp_all add: wkr_demo_def)
  moreover have "k_edge wkr_demo" using worker_wakeup_not_lost [OF wkr_demo_reach] calculation by fastforce
  ultimately show ?thesis using wkr_demo_reach by blast
qed

end
