(* ===== verification/Ticket_Lock.thy ===== *)
theory Ticket_Lock
  imports Uvent_Prelude "HOL-Library.Word"
begin

text \<open>
  The ticket lock of the shared poller (\<open>EPoller::try_lock\<close>, \<open>unlock\<close>, \<open>lock_poll\<close> of \<open>poll/EPoller.cpp\<close>): 32-bit
  counters that wrap around and the flag \<open>is_locked\<close>, one atomic access per step, for any number of worker
  threads. Numbers of tickets without wrap-around are kept as ghost state (\<open>tl_issued\<close>, \<open>tl_done\<close> and the
  number in the program points); no step depends on them. The lock excludes, serves in order and loses no wake-up as long as
  no thread sleeps between the two accesses of \<open>try_lock\<close> while \<open>2 ^ 32\<close> tickets are issued; with such a pause two threads
  enter together.
\<close>

section \<open>The code\<close>

text \<open>Program points: after the load of \<open>try_lock\<close>; at the top of the loop of \<open>lock_poll\<close>; blocked in
  \<open>ticket_serving.wait\<close>; before the store of \<open>is_locked\<close>; inside; and inside \<open>unlock\<close> before \<open>fetch_add\<close> and before
  \<open>notify_all\<close>.\<close>

datatype tpc = T_idle | T_loaded "32 word" nat | T_wait "32 word" nat | T_sleep "32 word" nat | T_got nat | T_crit nat | T_release nat | T_notify

record tlock =
  ticket_next :: "32 word"
  ticket_serving :: "32 word"
  is_locked :: bool
  tl_pc :: "nat \<Rightarrow> tpc"
  tl_issued :: nat
  tl_done :: nat

definition tl_init :: tlock where
  "tl_init = \<lparr>ticket_next = 0, ticket_serving = 0, is_locked = False, tl_pc = (\<lambda>_. T_idle), tl_issued = 0, tl_done = 0\<rparr>"

definition tl_jump :: "nat \<Rightarrow> tpc \<Rightarrow> tlock \<Rightarrow> tlock" where
  "tl_jump t l s = s\<lparr>tl_pc := (tl_pc s)(t := l)\<rparr>"

text \<open>The increment of \<open>ticket_next\<close>, by the successful compare-exchange of \<open>try_lock\<close> or the \<open>fetch_add\<close> of
  \<open>lock_poll\<close>.\<close>

definition take_ticket :: "nat \<Rightarrow> tpc \<Rightarrow> tlock \<Rightarrow> tlock" where
  "take_ticket t l s = tl_jump t l (s\<lparr>ticket_next := ticket_next s + 1, tl_issued := Suc (tl_issued s)\<rparr>)"

definition serve_next :: "nat \<Rightarrow> tlock \<Rightarrow> tlock" where
  "serve_next t s = tl_jump t T_notify (s\<lparr>ticket_serving := ticket_serving s + 1, tl_done := Suc (tl_done s)\<rparr>)"

fun wake_pc :: "tpc \<Rightarrow> tpc" where
  "wake_pc (T_sleep w k) = T_wait w k"
| "wake_pc l = l"

definition notify_waiters :: "nat \<Rightarrow> tlock \<Rightarrow> tlock" where
  "notify_waiters t s = s\<lparr>tl_pc := (\<lambda>u. wake_pc (tl_pc s u))(t := T_idle)\<rparr>"

inductive tl_step :: "nat \<Rightarrow> tlock \<Rightarrow> tlock \<Rightarrow> bool" for n where
  try_load: "t < n \<Longrightarrow> tl_pc s t = T_idle \<Longrightarrow> tl_step n s (tl_jump t (T_loaded (ticket_serving s) (tl_done s)) s)"
| try_ok: "t < n \<Longrightarrow> tl_pc s t = T_loaded w k \<Longrightarrow> ticket_next s = w \<Longrightarrow> tl_step n s (take_ticket t (T_got (tl_issued s)) s)"
| try_fail: "t < n \<Longrightarrow> tl_pc s t = T_loaded w k \<Longrightarrow> ticket_next s \<noteq> w \<Longrightarrow> tl_step n s (tl_jump t T_idle s)"
| lock_ticket: "t < n \<Longrightarrow> tl_pc s t = T_idle \<Longrightarrow> tl_step n s (take_ticket t (T_wait (ticket_next s) (tl_issued s)) s)"
| lock_enter: "t < n \<Longrightarrow> tl_pc s t = T_wait w k \<Longrightarrow> ticket_serving s = w \<Longrightarrow> tl_step n s (tl_jump t (T_got k) s)"
| lock_sleep: "t < n \<Longrightarrow> tl_pc s t = T_wait w k \<Longrightarrow> ticket_serving s \<noteq> w \<Longrightarrow> tl_step n s (tl_jump t (T_sleep w k) s)"
| set_locked: "t < n \<Longrightarrow> tl_pc s t = T_got k \<Longrightarrow> tl_step n s (tl_jump t (T_crit k) (s\<lparr>is_locked := True\<rparr>))"
| clear_locked: "t < n \<Longrightarrow> tl_pc s t = T_crit k \<Longrightarrow> tl_step n s (tl_jump t (T_release k) (s\<lparr>is_locked := False\<rparr>))"
| serve: "t < n \<Longrightarrow> tl_pc s t = T_release k \<Longrightarrow> tl_step n s (serve_next t s)"
| notify: "t < n \<Longrightarrow> tl_pc s t = T_notify \<Longrightarrow> tl_step n s (notify_waiters t s)"

text \<open>Runs in which no thread pauses in \<open>try_lock\<close> over \<open>2 ^ 32\<close> tickets.\<close>

definition tl_prompt :: "tlock \<Rightarrow> bool" where
  "tl_prompt s \<longleftrightarrow> (\<forall>t w k. tl_pc s t = T_loaded w k \<longrightarrow> tl_issued s - k < 2 ^ 32)"

definition tl_run :: "nat \<Rightarrow> tlock \<Rightarrow> tlock \<Rightarrow> bool" where
  "tl_run n s s' \<longleftrightarrow> tl_prompt s \<and> tl_step n s s'"

lemmas tl_defs [simp] = tl_jump_def take_ticket_def serve_next_def notify_waiters_def

section \<open>Invariant\<close>

fun ticket :: "tpc \<Rightarrow> nat option" where
  "ticket (T_wait w k) = Some k"
| "ticket (T_sleep w k) = Some k"
| "ticket (T_got k) = Some k"
| "ticket (T_crit k) = Some k"
| "ticket (T_release k) = Some k"
| "ticket _ = None"

text \<open>The ticket of a thread that owns the lock.\<close>

fun owner :: "tpc \<Rightarrow> nat option" where
  "owner (T_got k) = Some k"
| "owner (T_crit k) = Some k"
| "owner (T_release k) = Some k"
| "owner _ = None"

text \<open>Ticket and serving words that a program point remembers.\<close>

fun pc_ok :: "tlock \<Rightarrow> tpc \<Rightarrow> bool" where
  "pc_ok s (T_wait w k) \<longleftrightarrow> w = word_of_nat k"
| "pc_ok s (T_sleep w k) \<longleftrightarrow> w = word_of_nat k \<and> (k = tl_done s \<longrightarrow> (\<exists>u. tl_pc s u = T_notify))"
| "pc_ok s (T_loaded w k) \<longleftrightarrow> w = word_of_nat k \<and> k \<le> tl_done s"
| "pc_ok s (T_crit k) \<longleftrightarrow> k = tl_done s \<and> is_locked s"
| "pc_ok s (T_got k) \<longleftrightarrow> k = tl_done s \<and> \<not> is_locked s"
| "pc_ok s (T_release k) \<longleftrightarrow> k = tl_done s \<and> \<not> is_locked s"
| "pc_ok s _ \<longleftrightarrow> True"

definition tl_inv :: "nat \<Rightarrow> tlock \<Rightarrow> bool" where
  "tl_inv n s \<longleftrightarrow> ticket_next s = word_of_nat (tl_issued s) \<and> ticket_serving s = word_of_nat (tl_done s) \<and> tl_done s \<le> tl_issued s \<and>
     (\<forall>k. tl_done s \<le> k \<and> k < tl_issued s \<longleftrightarrow> (\<exists>t. ticket (tl_pc s t) = Some k)) \<and>
     (\<forall>t u k. ticket (tl_pc s t) = Some k \<and> ticket (tl_pc s u) = Some k \<longrightarrow> t = u) \<and>
     (\<forall>t. pc_ok s (tl_pc s t)) \<and> (is_locked s \<longrightarrow> (\<exists>t k. tl_pc s t = T_crit k)) \<and> (\<forall>t\<ge>n. tl_pc s t = T_idle)"

lemma tl_invD:
  assumes "tl_inv n s"
  shows "ticket_next s = word_of_nat (tl_issued s)" "ticket_serving s = word_of_nat (tl_done s)" "tl_done s \<le> tl_issued s"
    "tl_done s \<le> k \<and> k < tl_issued s \<longleftrightarrow> (\<exists>t. ticket (tl_pc s t) = Some k)"
    "ticket (tl_pc s t) = Some k \<Longrightarrow> ticket (tl_pc s u) = Some k \<Longrightarrow> t = u" "pc_ok s (tl_pc s t)"
    "is_locked s \<Longrightarrow> \<exists>t k. tl_pc s t = T_crit k" "t \<ge> n \<Longrightarrow> tl_pc s t = T_idle"
  using assms unfolding tl_inv_def by blast+

lemma tl_invI:
  assumes "ticket_next s = word_of_nat (tl_issued s)" "ticket_serving s = word_of_nat (tl_done s)" "tl_done s \<le> tl_issued s"
    "\<And>k. tl_done s \<le> k \<and> k < tl_issued s \<longleftrightarrow> (\<exists>t. ticket (tl_pc s t) = Some k)"
    "\<And>t u k. ticket (tl_pc s t) = Some k \<Longrightarrow> ticket (tl_pc s u) = Some k \<Longrightarrow> t = u" "\<And>t. pc_ok s (tl_pc s t)"
    "is_locked s \<Longrightarrow> \<exists>t k. tl_pc s t = T_crit k" "\<And>t. t \<ge> n \<Longrightarrow> tl_pc s t = T_idle"
  shows "tl_inv n s"
  using assms unfolding tl_inv_def by blast

lemma owner_ticket: "owner l = Some k \<Longrightarrow> ticket l = Some k"
  by (cases l) auto

lemma owner_done: "tl_inv n s \<Longrightarrow> owner (tl_pc s t) = Some k \<Longrightarrow> k = tl_done s"
  using tl_invD(6) [of n s t] by (cases "tl_pc s t") auto

lemma owner_unique: "tl_inv n s \<Longrightarrow> owner (tl_pc s t) = Some k \<Longrightarrow> owner (tl_pc s u) = Some j \<Longrightarrow> t = u"
  using owner_done [of n s t k] owner_done [of n s u j] owner_ticket tl_invD(5) by metis

text \<open>There are at most as many tickets out as threads.\<close>

lemma tickets_bounded:
  assumes "tl_inv n s"
  shows "tl_issued s - tl_done s \<le> n"
proof -
  have "\<forall>k\<in>{tl_done s..<tl_issued s}. \<exists>t. t < n \<and> ticket (tl_pc s t) = Some k"
    using tl_invD(4) [OF assms] tl_invD(8) [OF assms] by (metis atLeastLessThan_iff not_less option.distinct(1) ticket.simps(6))
  then obtain f where f: "\<And>k. k \<in> {tl_done s..<tl_issued s} \<Longrightarrow> f k < n \<and> ticket (tl_pc s (f k)) = Some k" by metis
  then have "inj_on f {tl_done s..<tl_issued s}" by (metis inj_onI option.inject)
  moreover have "f ` {tl_done s..<tl_issued s} \<subseteq> {..<n}" using f by auto
  ultimately have "card {tl_done s..<tl_issued s} \<le> card {..<n}" by (meson card_inj_on_le finite_lessThan)
  then show ?thesis by simp
qed

lemma word_of_nat_near:
  assumes "(word_of_nat a :: 32 word) = word_of_nat b" "a \<le> b" "b - a < 2 ^ 32"
  shows "a = b"
proof -
  have "b mod 2 ^ 32 = a mod 2 ^ 32" using arg_cong [OF assms(1), of unat] by (simp add: unat_of_nat)
  then have "2 ^ 32 dvd b - a" using assms(2) mod_eq_dvd_iff_nat [of a b "2 ^ 32"] by blast
  then have "b - a = 0" using assms(3) by (meson nat_dvd_not_less not_gr_zero)
  then show ?thesis using assms(2) by simp
qed

text \<open>A step that moves one thread and keeps its ticket.\<close>

lemma tl_inv_move:
  assumes inv: "tl_inv n s" and t: "t < n" and l: "ticket l = ticket (tl_pc s t)" and f: "f = (tl_pc s)(t := l)"
    and ok: "\<And>u. pc_ok (s\<lparr>is_locked := b, tl_pc := f\<rparr>) (f u)" and b: "b \<Longrightarrow> \<exists>u k. f u = T_crit k"
  shows "tl_inv n (s\<lparr>is_locked := b, tl_pc := f\<rparr>)"
proof -
  have tk: "ticket (f u) = ticket (tl_pc s u)" for u using l f by simp
  show ?thesis
    by (rule tl_invI) (use tl_invD [OF inv] tk t f ok b in \<open>simp_all\<close>)
qed

lemma pc_ok_move:
  assumes "tl_inv n s" "tl_pc s t \<noteq> T_notify" "owner (tl_pc s t) = None"
    "pc_ok (s\<lparr>tl_pc := (tl_pc s)(t := l)\<rparr>) l"
  shows "pc_ok (s\<lparr>tl_pc := (tl_pc s)(t := l)\<rparr>) (((tl_pc s)(t := l)) u)"
  using assms tl_invD(6) [OF assms(1), of u] by (cases "tl_pc s u") (auto split: if_splits)

lemma record_same_locked: "s\<lparr>is_locked := is_locked s, tl_pc := f\<rparr> = s\<lparr>tl_pc := f\<rparr>"
  by simp

lemma tl_inv_plain:
  assumes inv: "tl_inv n s" and t: "t < n" and l: "ticket l = ticket (tl_pc s t)" and o: "owner (tl_pc s t) = None" "tl_pc s t \<noteq> T_notify"
    and ok: "pc_ok (tl_jump t l s) l"
  shows "tl_inv n (tl_jump t l s)"
proof -
  have "tl_inv n (s\<lparr>is_locked := is_locked s, tl_pc := (tl_pc s)(t := l)\<rparr>)"
  proof (rule tl_inv_move [OF inv t l refl])
    show "pc_ok (s\<lparr>is_locked := is_locked s, tl_pc := (tl_pc s)(t := l)\<rparr>) (((tl_pc s)(t := l)) u)" for u
      using pc_ok_move [OF inv o(2) o(1)] ok by (simp del: fun_upd_apply)
    show "\<exists>u k. ((tl_pc s)(t := l)) u = T_crit k" if "is_locked s"
    proof -
      from tl_invD(7) [OF inv that] obtain v k where "tl_pc s v = T_crit k" by blast
      moreover from this have "v \<noteq> t" using o(1) by auto
      ultimately show ?thesis by (metis fun_upd_other)
    qed
  qed
  then show ?thesis by (simp only: record_same_locked tl_jump_def)
qed

text \<open>Taking a ticket, by a thread that has none.\<close>

lemma tl_inv_take:
  assumes inv: "tl_inv n s" and t: "t < n" and tk: "ticket (tl_pc s t) = None" "tl_pc s t \<noteq> T_notify" and l: "ticket l = Some (tl_issued s)"
    and ok: "pc_ok (take_ticket t l s) l"
  shows "tl_inv n (take_ticket t l s)"
proof (rule tl_invI)
  note D = tl_invD [OF inv]
  have upd: "ticket (((tl_pc s)(t := l)) u) = Some k \<longleftrightarrow> (u = t \<and> k = tl_issued s) \<or> (u \<noteq> t \<and> ticket (tl_pc s u) = Some k)" for u k
    using l by auto
  have ex: "(\<exists>u. ticket (((tl_pc s)(t := l)) u) = Some k) \<longleftrightarrow> k = tl_issued s \<or> (\<exists>u. ticket (tl_pc s u) = Some k)" for k
    unfolding upd using tk(1) by (metis option.distinct(1))
  have old: "ticket (tl_pc s u) \<noteq> Some (tl_issued s)" for u using D(4) [of "tl_issued s"] by auto
  let ?s = "take_ticket t l s"
  show "ticket_next ?s = word_of_nat (tl_issued ?s)" using D(1) by (simp add: add.commute)
  show "ticket_serving ?s = word_of_nat (tl_done ?s)" "tl_done ?s \<le> tl_issued ?s" using D(2,3) by simp_all
  show "tl_done ?s \<le> k \<and> k < tl_issued ?s \<longleftrightarrow> (\<exists>u. ticket (tl_pc ?s u) = Some k)" for k
    using ex [of k] D(3) D(4) [of k] by (auto simp del: fun_upd_apply)
  show "u = v" if "ticket (tl_pc ?s u) = Some k" "ticket (tl_pc ?s v) = Some k" for u v k
    using that upd [of u k] upd [of v k] old D(5) by (simp del: fun_upd_apply) metis
  show "pc_ok ?s (tl_pc ?s u)" for u using ok D(6) [of u] tk by (cases "tl_pc s u") (auto split: if_splits)
  show "\<exists>u k. tl_pc ?s u = T_crit k" if "is_locked ?s" using D(7) that tk(1) by simp (metis option.distinct(1) ticket.simps(4))
  show "tl_pc ?s u = T_idle" if "n \<le> u" for u using D(8) [OF that] t that by simp
qed

lemma tl_inv_serve:
  assumes inv: "tl_inv n s" and t: "t < n" "tl_pc s t = T_release k"
  shows "tl_inv n (serve_next t s)"
proof (rule tl_invI)
  note D = tl_invD [OF inv]
  let ?s = "serve_next t s"
  have k: "k = tl_done s" and un: "\<not> is_locked s" using D(6) [of t] t by simp_all
  have "ticket (tl_pc s t) = Some k" using t by simp
  then have lt: "tl_done s < tl_issued s" using D(4) [of k] k by blast
  have upd: "ticket (((tl_pc s)(t := T_notify)) u) = Some j \<longleftrightarrow> u \<noteq> t \<and> ticket (tl_pc s u) = Some j" for u j by simp
  have ex: "(\<exists>u. ticket (((tl_pc s)(t := T_notify)) u) = Some j) \<longleftrightarrow> j \<noteq> k \<and> (\<exists>u. ticket (tl_pc s u) = Some j)" for j
    unfolding upd using D(5) [of t k] t by (metis option.inject ticket.simps(5))
  show "ticket_next ?s = word_of_nat (tl_issued ?s)" using D(1) by simp
  show "ticket_serving ?s = word_of_nat (tl_done ?s)" using D(2) by (simp add: add.commute)
  show "tl_done ?s \<le> tl_issued ?s" using lt by simp
  show "tl_done ?s \<le> j \<and> j < tl_issued ?s \<longleftrightarrow> (\<exists>u. ticket (tl_pc ?s u) = Some j)" for j
    using ex [of j] k D(4) [of j] by (auto simp del: fun_upd_apply)
  show "u = v" if "ticket (tl_pc ?s u) = Some j" "ticket (tl_pc ?s v) = Some j" for u v j
    using that D(5) by (auto split: if_splits)
  show "pc_ok ?s (tl_pc ?s u)" for u
    using D(6) [of u] owner_unique [OF inv, of t k u] t un k by (cases "tl_pc s u") auto
  show "\<exists>u k. tl_pc ?s u = T_crit k" if "is_locked ?s" using un that by simp
  show "tl_pc ?s u = T_idle" if "n \<le> u" for u using D(8) [OF that] t that by auto
qed

lemma ticket_wake [simp]: "ticket (wake_pc l) = ticket l"
  by (cases l) auto

lemma tl_inv_notify:
  assumes inv: "tl_inv n s" and t: "t < n" "tl_pc s t = T_notify"
  shows "tl_inv n (notify_waiters t s)"
proof (rule tl_invI)
  note D = tl_invD [OF inv]
  let ?s = "notify_waiters t s"
  have tk: "ticket (tl_pc ?s u) = ticket (tl_pc s u)" for u using t by simp
  show "tl_done ?s \<le> j \<and> j < tl_issued ?s \<longleftrightarrow> (\<exists>u. ticket (tl_pc ?s u) = Some j)" for j unfolding tk using D(4) [of j] by simp
  show "u = v" if "ticket (tl_pc ?s u) = Some j" "ticket (tl_pc ?s v) = Some j" for u v j using that D(5) unfolding tk by blast
  show "pc_ok ?s (tl_pc ?s u)" for u using D(6) [of u] by (cases "tl_pc s u") auto
  show "\<exists>u k. tl_pc ?s u = T_crit k" if "is_locked ?s"
  proof -
    from that D(7) obtain u k where "tl_pc s u = T_crit k" by auto
    then have "tl_pc ?s u = T_crit k" using t by auto
    then show ?thesis by blast
  qed
  show "tl_pc ?s u = T_idle" if "n \<le> u" for u using D(8) [OF that] t that by simp
qed (use tl_invD(1-3) [OF inv] in simp_all)

lemma tl_inv_set_locked:
  assumes inv: "tl_inv n s" and t: "t < n" "owner (tl_pc s t) = Some k" and l: "l = (if b then T_crit k else T_release k)"
  shows "tl_inv n (s\<lparr>is_locked := b, tl_pc := (tl_pc s)(t := l)\<rparr>)"
proof (rule tl_inv_move [OF inv t(1) _ refl])
  have k: "k = tl_done s" using owner_done [OF inv t(2)] .
  show "ticket l = ticket (tl_pc s t)" using l owner_ticket [OF t(2)] by simp
  have notify: "\<exists>v. ((tl_pc s)(t := l)) v = T_notify" if "tl_pc s v = T_notify" for v
  proof -
    have "v \<noteq> t" using that t(2) by auto
    then show ?thesis using that by (metis fun_upd_other)
  qed
  show "pc_ok (s\<lparr>is_locked := b, tl_pc := (tl_pc s)(t := l)\<rparr>) (((tl_pc s)(t := l)) u)" for u
  proof (cases "u = t")
    case True
    then show ?thesis using l k by (cases b) simp_all
  next
    case False
    then have "owner (tl_pc s u) = None" using owner_unique [OF inv t(2), of u] by (cases "owner (tl_pc s u)") auto
    moreover have "((tl_pc s)(t := l)) u = tl_pc s u" using False by simp
    ultimately show ?thesis using tl_invD(6) [OF inv, of u] notify by (cases "tl_pc s u") (simp_all del: fun_upd_apply, blast)
  qed
  show "\<exists>u k. ((tl_pc s)(t := l)) u = T_crit k" if b using that l by auto
qed

text \<open>A thread whose ticket word is served has the ticket that is served.\<close>

lemma served_ticket:
  assumes "tl_inv n s" "n < 2 ^ 32" "ticket (tl_pc s t) = Some k" "ticket_serving s = word_of_nat k"
  shows "k = tl_done s"
proof -
  have "tl_done s \<le> k" "k < tl_issued s" using tl_invD(4) [OF assms(1)] assms(3) by blast+
  moreover have "k - tl_done s < 2 ^ 32" using tickets_bounded [OF assms(1)] assms(2) calculation by linarith
  ultimately show ?thesis using word_of_nat_near [of "tl_done s" k] tl_invD(2) [OF assms(1)] assms(4) by simp
qed

lemma tl_run_inv:
  assumes inv: "tl_inv n s" and n: "n < 2 ^ 32" and run: "tl_run n s s'"
  shows "tl_inv n s'"
proof -
  note D = tl_invD [OF inv]
  have "tl_step n s s'" and p: "tl_prompt s" using run by (auto simp: tl_run_def)
  then show ?thesis
  proof cases
    case (try_load t)
    then show ?thesis using tl_inv_plain [OF inv, of t "T_loaded (ticket_serving s) (tl_done s)"] D(2) by simp
  next
    case (try_ok t w k)
    then have w: "w = word_of_nat k" "k \<le> tl_done s" using D(6) [of t] by simp_all
    have "k = tl_issued s" using word_of_nat_near [of k "tl_issued s"] D(1,3) w try_ok p by (force simp: tl_prompt_def)
    then have "tl_done s = tl_issued s" using w D(3) by simp
    moreover from this have "\<not> is_locked s" using D(7) D(6) D(4) [of "tl_done s"] by (metis not_less_iff_gr_or_eq ticket.simps(4) pc_ok.simps(4))
    ultimately show ?thesis using tl_inv_take [OF inv, of t "T_got (tl_issued s)"] try_ok by simp
  next
    case (try_fail t w k)
    then show ?thesis using tl_inv_plain [OF inv, of t T_idle] by simp
  next
    case (lock_ticket t)
    then show ?thesis using tl_inv_take [OF inv, of t "T_wait (ticket_next s) (tl_issued s)"] D(1) by simp
  next
    case (lock_enter t w k)
    then have k: "k = tl_done s" using served_ticket [OF inv n, of t k] D(6) [of t] by simp
    have "\<not> is_locked s"
    proof
      assume "is_locked s"
      then obtain u j where u: "tl_pc s u = T_crit j" using D(7) by blast
      then have "j = k" using D(6) [of u] k by simp
      then show False using D(5) [of u k t] u lock_enter by simp
    qed
    then show ?thesis using tl_inv_plain [OF inv, of t "T_got k"] lock_enter k by simp
  next
    case (lock_sleep t w k)
    then have "w = word_of_nat k" "k \<noteq> tl_done s" using D(6) [of t] D(2) by auto
    then show ?thesis using tl_inv_plain [OF inv, of t "T_sleep w k"] lock_sleep by simp
  next
    case (set_locked t k)
    then show ?thesis using tl_inv_set_locked [OF inv, of t k _ True] by simp
  next
    case (clear_locked t k)
    then show ?thesis using tl_inv_set_locked [OF inv, of t k _ False] by simp
  next
    case (serve t k)
    then show ?thesis using tl_inv_serve [OF inv] by blast
  next
    case (notify t)
    then show ?thesis using tl_inv_notify [OF inv] by blast
  qed
qed

interpretation tl: inv_system "\<lambda>s. s = tl_init" "\<lambda>s s'. n < 2 ^ 32 \<and> tl_run n s s'" "tl_inv n" for n
proof
  show "tl_inv n s" if "s = tl_init" for s using that by (simp add: tl_inv_def tl_init_def)
  show "tl_inv n s'" if "tl_inv n s" "n < 2 ^ 32 \<and> tl_run n s s'" for s s' using tl_run_inv that by blast
qed

lemma tl_reach_inv: "n < 2 ^ 32 \<Longrightarrow> reach (\<lambda>s. s = tl_init) (tl_run n) s \<Longrightarrow> tl_inv n s"
  using tl.reach_inv [of n s] by simp

text \<open>C29. The ticket lock of the shared poller, for fewer than \<open>2 ^ 32\<close> threads that do not pause in \<open>try_lock\<close> while
  \<open>2 ^ 32\<close> tickets are issued: at most one thread owns the lock, whatever the wrap-around of the counters; \<open>is_locked\<close> is set
  exactly while a thread is inside; every waiting thread has a later ticket than the owner; and whenever tickets are out, some
  thread owns the lock, finds its ticket served, or is about to wake the thread whose ticket is served, so that nobody sleeps through
  its turn.\<close>

theorem ticket_lock_correct:
  assumes n: "n < 2 ^ 32" and r: "reach (\<lambda>s. s = tl_init) (tl_run n) s"
  shows "(\<forall>t u j k. owner (tl_pc s t) = Some j \<and> owner (tl_pc s u) = Some k \<longrightarrow> t = u) \<and>
    (is_locked s \<longleftrightarrow> (\<exists>t k. tl_pc s t = T_crit k)) \<and>
    (\<forall>t u j k. owner (tl_pc s t) = Some j \<and> t \<noteq> u \<and> ticket (tl_pc s u) = Some k \<longrightarrow> j < k) \<and>
    (\<forall>u k. ticket (tl_pc s u) = Some k \<longrightarrow> (\<exists>t. owner (tl_pc s t) \<noteq> None \<or> tl_pc s t = T_notify \<or>
       (\<exists>j. tl_pc s t = T_wait (ticket_serving s) j)))"
proof -
  note inv = tl_reach_inv [OF n r]
  note D = tl_invD [OF inv]
  have "is_locked s" if "tl_pc s t = T_crit k" for t k using D(6) [of t] that by simp
  moreover have "j < k" if "owner (tl_pc s t) = Some j" "t \<noteq> u" "ticket (tl_pc s u) = Some k" for t u j k
    using owner_done [OF inv that(1)] D(4) [of k] D(5) [of t j u] owner_ticket [OF that(1)] that by (metis le_neq_implies_less)
  moreover have "\<exists>t. owner (tl_pc s t) \<noteq> None \<or> tl_pc s t = T_notify \<or> (\<exists>j. tl_pc s t = T_wait (ticket_serving s) j)"
    if "ticket (tl_pc s u) = Some k" for u k
  proof -
    have "tl_done s < tl_issued s" using D(4) [of k] that by (meson le_less_trans)
    then obtain t where t: "ticket (tl_pc s t) = Some (tl_done s)" using D(4) [of "tl_done s"] by blast
    then show ?thesis using D(6) [of t] D(2) by (cases "tl_pc s t") (auto, (metis owner.simps option.distinct(1))+)
  qed
  ultimately show ?thesis using owner_unique [OF inv] D(7) by blast
qed

text \<open>Two threads that take a ticket each; the first one enters.\<close>

definition tl_demo :: "tpc \<Rightarrow> tpc \<Rightarrow> nat \<Rightarrow> tlock" where
  "tl_demo l l' m = \<lparr>ticket_next = word_of_nat m, ticket_serving = 0, is_locked = False,
     tl_pc = (\<lambda>t. if t = 0 then l else if t = 1 then l' else T_idle), tl_issued = m, tl_done = 0\<rparr>"

lemma tl_demo_reach: "reach (\<lambda>s. s = tl_init) (tl_run 2) (tl_demo (T_got 0) (T_wait 1 1) 2)"
proof -
  let ?R = "reach (\<lambda>s. s = tl_init) (tl_run 2)"
  have go: "?R s''" if "?R s" "tl_prompt s" "tl_step 2 s s'" "s' = s''" for s s' s'' using that reach_step by (metis tl_run_def)
  have "?R (tl_demo T_idle T_idle 0)" by (rule reach_init) (auto simp: tl_demo_def tl_init_def)
  then have "?R (tl_demo (T_wait 0 0) T_idle 1)"
    by (rule go [OF _ _ lock_ticket [of 0]]) (auto simp: tl_demo_def tl_prompt_def)
  then have "?R (tl_demo (T_wait 0 0) (T_wait 1 1) 2)"
    by (rule go [OF _ _ lock_ticket [of 1]]) (auto simp: tl_demo_def tl_prompt_def)
  then show ?thesis
    by (rule go [OF _ _ lock_enter [of 0]]) (auto simp: tl_demo_def tl_prompt_def)
qed

theorem ticket_lock_correct_witness:
  "\<exists>s. reach (\<lambda>s. s = tl_init) (tl_run 2) s \<and> owner (tl_pc s 0) = Some 0 \<and> ticket (tl_pc s 1) = Some 1 \<and> owner (tl_pc s 1) = None \<and> \<not> is_locked s"
proof -
  let ?s = "tl_demo (T_got 0) (T_wait 1 1) 2"
  have o: "owner (tl_pc ?s 0) = Some 0" "ticket (tl_pc ?s 1) = Some 1" and c: "\<not> (\<exists>t k. tl_pc ?s t = T_crit k)" by (simp_all add: tl_demo_def)
  have "(2::nat) < 2 ^ 32" by simp
  note T = ticket_lock_correct [OF this tl_demo_reach]
  have "\<not> is_locked ?s" using T c by blast
  moreover have "owner (tl_pc ?s 1) \<noteq> Some k" for k using T o(1) zero_neq_one by blast
  ultimately show ?thesis using o tl_demo_reach by (metis not_Some_eq)
qed

section \<open>Wrap-around\<close>

text \<open>The lock after \<open>m\<close> complete turns, with the first thread at \<open>l\<close> and the second one at \<open>l'\<close>.\<close>

definition tl_turns :: "nat \<Rightarrow> tpc \<Rightarrow> tpc \<Rightarrow> tlock" where
  "tl_turns m l l' = \<lparr>ticket_next = word_of_nat m, ticket_serving = word_of_nat m, is_locked = False,
     tl_pc = (\<lambda>t. if t = 0 then l else if t = 1 then l' else T_idle), tl_issued = m, tl_done = m\<rparr>"

text \<open>The same after the second thread took the next ticket.\<close>

definition tl_taken :: "nat \<Rightarrow> bool \<Rightarrow> tpc \<Rightarrow> tpc \<Rightarrow> tlock" where
  "tl_taken m b l l' = \<lparr>ticket_next = word_of_nat (Suc m), ticket_serving = word_of_nat m, is_locked = b,
     tl_pc = (\<lambda>t. if t = 0 then l else if t = 1 then l' else T_idle), tl_issued = Suc m, tl_done = m\<rparr>"

abbreviation tl_reach :: "tlock \<Rightarrow> bool" where
  "tl_reach \<equiv> reach (\<lambda>s. s = tl_init) (tl_step 2)"

lemma tl_reachI: "tl_reach s \<Longrightarrow> tl_step 2 s s' \<Longrightarrow> s' = s'' \<Longrightarrow> tl_reach s''"
  using reach_step by metis

lemma tl_enter_run:
  assumes "tl_reach (tl_turns m l T_idle)"
  shows "tl_reach (tl_taken m True l (T_crit m))"
proof -
  have "tl_reach (tl_taken m False l (T_wait (word_of_nat m) m))"
    by (rule tl_reachI [OF assms lock_ticket [of 1]]) (auto simp: tl_turns_def tl_taken_def add.commute)
  then have "tl_reach (tl_taken m False l (T_got m))"
    by (rule tl_reachI [OF _ lock_enter [of 1]]) (auto simp: tl_taken_def)
  then show ?thesis by (rule tl_reachI [OF _ set_locked [of 1]]) (auto simp: tl_taken_def)
qed

lemma wake_pc_id: "(\<And>w k. l \<noteq> T_sleep w k) \<Longrightarrow> wake_pc l = l"
  by (cases l) auto

lemma tl_turn_run:
  assumes "tl_reach (tl_turns m l T_idle)" "\<And>w k. l \<noteq> T_sleep w k"
  shows "tl_reach (tl_turns (Suc m) l T_idle)"
proof -
  have "tl_reach (tl_taken m False l (T_release m))"
    by (rule tl_reachI [OF tl_enter_run [OF assms(1)] clear_locked [of 1]]) (auto simp: tl_taken_def)
  then have "tl_reach (tl_turns (Suc m) l T_notify)"
    by (rule tl_reachI [OF _ serve [of 1]]) (auto simp: tl_taken_def tl_turns_def add.commute)
  then show ?thesis
    by (rule tl_reachI [OF _ notify [of 1]]) (simp_all add: tl_turns_def wake_pc_id [OF assms(2)] fun_eq_iff)
qed

text \<open>Two threads inside: the first one loads \<open>ticket_serving\<close> in \<open>try_lock\<close> and pauses; after \<open>2 ^ 32 - 1\<close> turns of the second
  thread and while it holds the lock for the next one, \<open>ticket_next\<close> is zero again and the compare-exchange succeeds.\<close>

theorem ticket_lock_wraps:
  "\<exists>s. tl_reach s \<and> (\<exists>j k. tl_pc s 0 = T_crit j \<and> tl_pc s 1 = T_crit k)"
proof -
  let ?l = "T_loaded 0 0"
  have init: "tl_reach (tl_turns 0 T_idle T_idle)" by (rule reach_init) (auto simp: tl_turns_def tl_init_def)
  have "tl_reach (tl_turns 0 ?l T_idle)"
    by (rule tl_reachI [OF init try_load [of 0]]) (auto simp: tl_turns_def)
  then have "tl_reach (tl_turns m ?l T_idle)" for m by (induction m) (auto intro: tl_turn_run)
  then have r: "tl_reach (tl_taken m True ?l (T_crit m))" for m by (rule tl_enter_run)
  obtain m :: nat where m: "Suc m = 2 ^ 32" by (metis Suc_pred zero_less_numeral zero_less_power)
  have "(word_of_nat (Suc m) :: 32 word) = 0" unfolding m by simp
  then have "tl_reach (take_ticket 0 (T_got (Suc m)) (tl_taken m True ?l (T_crit m)))"
    using reach_step [OF r [of m] try_ok [of 0 2 _ 0 0]] by (simp add: tl_taken_def)
  then have "tl_reach (tl_jump 0 (T_crit (Suc m)) (take_ticket 0 (T_got (Suc m)) (tl_taken m True ?l (T_crit m))\<lparr>is_locked := True\<rparr>))"
    by (rule tl_reachI [OF _ set_locked [of 0 2 _ "Suc m"] refl]) (simp_all add: tl_taken_def)
  moreover have "tl_pc (tl_jump 0 (T_crit (Suc m)) (take_ticket 0 (T_got (Suc m)) (tl_taken m True ?l (T_crit m))\<lparr>is_locked := True\<rparr>)) =
    (\<lambda>t. if t = 0 then T_crit (Suc m) else if t = 1 then T_crit m else T_idle)" by (auto simp: tl_taken_def fun_eq_iff)
  ultimately show ?thesis by (metis zero_neq_one)
qed

end
