(* ===== verification/Frame_Pool.thy ===== *)
theory Frame_Pool
  imports Uvent_Prelude "HOL-Library.Word"
begin

unbundle bit_operations_syntax

text \<open>
  Memory of coroutine frames (\<open>tasks/AwaitableFrame.h\<close>): \<open>frame_alloc\<close> and \<open>frame_free\<close>, which align a block of
  \<open>malloc\<close> and keep the raw pointer in the word before it, and the per-thread free lists of \<open>IOFramePool\<close>, with all
  arithmetic on 64-bit words. Memory is a function from the addresses of 8-byte words to their values; \<open>fh_raw\<close> is the allocator's view
  (which raw pointers are allocated, and their size). The address \<open>malloc\<close> returns is an argument of the operations; \<open>malloc_ok\<close> says
  what the C standard promises about it. Any number of threads allocate and free frames, a frame may be freed on another thread
  than the one that allocated it, and the pool of a thread may be destroyed at any time.
\<close>

section \<open>The code\<close>

type_synonym maddr = "64 word"

record frame_heap =
  fh_mem :: "maddr \<Rightarrow> maddr"
  fh_raw :: "maddr \<Rightarrow> nat option"

text \<open>\<open>None\<close> of \<open>frame_alloc\<close> and \<open>allocate\<close> is \<open>std::bad_alloc\<close>.\<close>

definition align_up :: "maddr \<Rightarrow> maddr" where
  "align_up base = (base + 64 - 1) AND NOT (64 - 1)"

definition frame_alloc :: "maddr \<Rightarrow> maddr \<Rightarrow> frame_heap \<Rightarrow> (maddr \<times> frame_heap) option" where
  "frame_alloc sz raw h = (if raw = 0 then None else
     let h1 = h\<lparr>fh_raw := (fh_raw h)(raw \<mapsto> unat (sz + 64 + 8))\<rparr>;
         base = raw + 8;
         aligned = align_up base in
     Some (aligned, h1\<lparr>fh_mem := (fh_mem h1)(aligned - 8 := raw)\<rparr>))"

text \<open>\<open>None\<close> is a \<open>free\<close> of an address that is not allocated.\<close>

definition frame_free :: "maddr \<Rightarrow> frame_heap \<Rightarrow> frame_heap option" where
  "frame_free p h = (if p = 0 then Some h else
     let raw = fh_mem h (p - 8) in
     if fh_raw h raw = None then None else Some (h\<lparr>fh_raw := (fh_raw h)(raw := None)\<rparr>))"

record frame_pool =
  heads :: "maddr list"
  counts :: "maddr list"

definition pool_new :: frame_pool where
  "pool_new = \<lparr>heads = replicate 16 0, counts = replicate 16 0\<rparr>"

definition class_of :: "maddr \<Rightarrow> maddr" where
  "class_of sz = (sz + 64 - 1) div 64"

definition pool_allocate :: "maddr \<Rightarrow> maddr \<Rightarrow> frame_pool \<Rightarrow> frame_heap \<Rightarrow> (maddr \<times> frame_pool \<times> frame_heap) option" where
  "pool_allocate sz raw f h = (
     let cls = class_of sz in
     if cls = 0 \<or> 16 < cls then map_option (\<lambda>(p, h). (p, f, h)) (frame_alloc sz raw h)
     else
       let i = unat (cls - 1); head = heads f ! i in
       if head \<noteq> 0
       then Some (head, f\<lparr>heads := (heads f)[i := fh_mem h head], counts := (counts f)[i := counts f ! i - 1]\<rparr>, h)
       else map_option (\<lambda>(p, h). (p, f, h)) (frame_alloc (cls * 64) raw h))"

definition pool_deallocate :: "maddr \<Rightarrow> maddr \<Rightarrow> frame_pool \<Rightarrow> frame_heap \<Rightarrow> (frame_pool \<times> frame_heap) option" where
  "pool_deallocate p sz f h = (
     let cls = class_of sz; i = unat (cls - 1) in
     if cls = 0 \<or> 16 < cls \<or> 4096 \<le> counts f ! i then map_option (Pair f) (frame_free p h)
     else
       let h1 = h\<lparr>fh_mem := (fh_mem h)(p := heads f ! i)\<rparr> in
       Some (f\<lparr>heads := (heads f)[i := p], counts := (counts f)[i := counts f ! i + 1]\<rparr>, h1))"

text \<open>The loops of \<open>~IOFramePool\<close>.\<close>

partial_function (option) free_list :: "maddr \<Rightarrow> frame_heap \<Rightarrow> frame_heap option" where
  "free_list head h = (if head = 0 then Some h else
     case frame_free head h of None \<Rightarrow> None | Some h1 \<Rightarrow> free_list (fh_mem h head) h1)"

fun free_lists :: "maddr list \<Rightarrow> frame_heap \<Rightarrow> frame_heap option" where
  "free_lists [] h = Some h"
| "free_lists (head # hs) h = (case free_list head h of None \<Rightarrow> None | Some h1 \<Rightarrow> free_lists hs h1)"

definition pool_destroy :: "frame_pool \<Rightarrow> frame_heap \<Rightarrow> frame_heap option" where
  "pool_destroy f h = free_lists (heads f) h"

section \<open>Threads and frames\<close>

text \<open>What \<open>malloc (n)\<close> promises: a pointer that is not null, to \<open>n\<close> bytes that do not overlap an allocated block.\<close>

definition apart :: "maddr \<Rightarrow> nat \<Rightarrow> maddr \<Rightarrow> nat \<Rightarrow> bool" where
  "apart r n q m \<longleftrightarrow> unat r + n \<le> unat q \<or> unat q + m \<le> unat r"

definition malloc_ok :: "frame_heap \<Rightarrow> nat \<Rightarrow> maddr \<Rightarrow> bool" where
  "malloc_ok h n r \<longleftrightarrow> r \<noteq> 0 \<and> fh_raw h r = None \<and> unat r + n < 2 ^ 64 \<and> (\<forall>q m. fh_raw h q = Some m \<longrightarrow> apart r n q m)"

text \<open>The bytes \<open>allocate (sz)\<close> asks for when no cached block fits.\<close>

definition frame_cap :: "maddr \<Rightarrow> maddr" where
  "frame_cap sz = (let cls = class_of sz in if cls = 0 \<or> 16 < cls then sz else cls * 64)"

record frames =
  fs_heap :: frame_heap
  fs_pool :: "nat \<Rightarrow> frame_pool"
  fs_live :: "maddr \<Rightarrow> maddr option"

definition frames_init :: "frames \<Rightarrow> bool" where
  "frames_init s \<longleftrightarrow> fh_raw (fs_heap s) = (\<lambda>_. None) \<and> fs_pool s = (\<lambda>_. pool_new) \<and> fs_live s = (\<lambda>_. None)"

text \<open>Sizes of objects are below \<open>2 ^ 63\<close>. A frame is written inside its bytes only; memory outside the allocated blocks may
  change at any time.\<close>

inductive frames_step :: "frames \<Rightarrow> frames \<Rightarrow> bool" where
  op_new: "unat sz < 2 ^ 63 \<Longrightarrow> raw = 0 \<or> malloc_ok (fs_heap s) (unat (frame_cap sz) + 72) raw \<Longrightarrow>
    pool_allocate sz raw (fs_pool s t) (fs_heap s) = Some (p, f, h) \<Longrightarrow>
    frames_step s (s\<lparr>fs_heap := h, fs_pool := (fs_pool s)(t := f), fs_live := (fs_live s)(p \<mapsto> sz)\<rparr>)"
| op_delete: "fs_live s p = Some sz \<Longrightarrow> pool_deallocate p sz (fs_pool s t) (fs_heap s) = Some (f, h) \<Longrightarrow>
    frames_step s (s\<lparr>fs_heap := h, fs_pool := (fs_pool s)(t := f), fs_live := (fs_live s)(p := None)\<rparr>)"
| op_delete_unsized: "fs_live s p = Some sz \<Longrightarrow> frame_free p (fs_heap s) = Some h \<Longrightarrow>
    frames_step s (s\<lparr>fs_heap := h, fs_live := (fs_live s)(p := None)\<rparr>)"
| op_thread_exit: "pool_destroy (fs_pool s t) (fs_heap s) = Some h \<Longrightarrow>
    frames_step s (s\<lparr>fs_heap := h, fs_pool := (fs_pool s)(t := pool_new)\<rparr>)"
| op_write: "fs_live s p = Some sz \<Longrightarrow> unat p \<le> unat a \<Longrightarrow> unat a + 8 \<le> unat p + unat sz \<Longrightarrow>
    frames_step s (s\<lparr>fs_heap := (fs_heap s)\<lparr>fh_mem := (fh_mem (fs_heap s))(a := v)\<rparr>\<rparr>)"
| op_outside: "(\<And>r n a. fh_raw (fs_heap s) r = Some n \<Longrightarrow> unat r \<le> unat a \<Longrightarrow> unat a < unat r + n \<Longrightarrow> m a = fh_mem (fs_heap s) a) \<Longrightarrow>
    frames_step s (s\<lparr>fs_heap := (fs_heap s)\<lparr>fh_mem := m\<rparr>\<rparr>)"

section \<open>Alignment\<close>

lemma and_not_mask: "x AND NOT (mask n) = push_bit n (drop_bit n x)" for x :: "'a::len word"
  by (rule bit_eqI) (auto simp: bit_simps)

lemma align_up_unat:
  assumes "unat base + 63 < 2 ^ 64"
  shows "unat (align_up base) = (unat base + 63) div 64 * 64"
proof -
  let ?x = "base + 63"
  have x: "unat ?x = unat base + 63" using assms by (subst unat_add_lem [THEN iffD1]) (simp_all)
  have "unat (take_bit 6 ?x) = take_bit 6 (unat ?x)" by (simp add: unsigned_take_bit_eq)
  then have t: "unat (take_bit 6 ?x) = unat ?x mod 64" by (simp add: take_bit_eq_mod)
  have "align_up base = push_bit 6 (drop_bit 6 ?x)" unfolding and_not_mask [symmetric] by (simp add: align_up_def mask_eq_exp_minus_1 add.commute)
  also have "\<dots> = ?x - take_bit 6 ?x" using bits_ident [of 6 ?x] by (metis add_diff_cancel_right')
  also have "unat \<dots> = unat ?x - unat (take_bit 6 ?x)"
    by (rule unat_sub) (simp add: word_le_nat_alt t)
  also have "\<dots> = unat ?x - unat ?x mod 64" by (simp add: t)
  finally show ?thesis unfolding x by (simp add: minus_mod_eq_div_mult)
qed

section \<open>Heap invariant\<close>

text \<open>Where a block is: handed out for a frame of some size, or in a free list.\<close>

datatype place = Absent | Live maddr | Cached nat nat

fun place_cap :: "place \<Rightarrow> nat" where
  "place_cap (Live sz) = unat (frame_cap sz)"
| "place_cap (Cached t i) = (i + 1) * 64"
| "place_cap Absent = 0"

definition raw_of :: "frame_heap \<Rightarrow> maddr \<Rightarrow> maddr" where
  "raw_of h p = fh_mem h (p - 8)"

text \<open>A block of \<open>c\<close> bytes at \<open>p\<close> inside its raw block.\<close>

definition blk :: "frame_heap \<Rightarrow> maddr \<Rightarrow> nat \<Rightarrow> bool" where
  "blk h p c \<longleftrightarrow> fh_raw h (raw_of h p) = Some (c + 72) \<and> unat p mod 64 = 0 \<and> unat (raw_of h p) + 8 \<le> unat p \<and> unat p < unat (raw_of h p) + 72"

definition raws_ok :: "frame_heap \<Rightarrow> bool" where
  "raws_ok h \<longleftrightarrow> (\<forall>r n. fh_raw h r = Some n \<longrightarrow> r \<noteq> 0 \<and> unat r + n < 2 ^ 64) \<and>
     (\<forall>r n q m. fh_raw h r = Some n \<and> fh_raw h q = Some m \<and> r \<noteq> q \<longrightarrow> apart r n q m)"

definition hinv :: "(maddr \<Rightarrow> place) \<Rightarrow> frame_heap \<Rightarrow> bool" where
  "hinv L h \<longleftrightarrow> raws_ok h \<and> (\<forall>p. L p \<noteq> Absent \<longrightarrow> blk h p (place_cap (L p))) \<and>
     (\<forall>p q. L p \<noteq> Absent \<and> L q \<noteq> Absent \<and> raw_of h p = raw_of h q \<longrightarrow> p = q) \<and>
     (\<forall>r. fh_raw h r \<noteq> None \<longrightarrow> (\<exists>p. L p \<noteq> Absent \<and> raw_of h p = r))"

lemma hinvD:
  assumes "hinv L h"
  shows "raws_ok h" "L p \<noteq> Absent \<Longrightarrow> blk h p (place_cap (L p))" "L p \<noteq> Absent \<Longrightarrow> L q \<noteq> Absent \<Longrightarrow> raw_of h p = raw_of h q \<Longrightarrow> p = q"
    "fh_raw h r \<noteq> None \<Longrightarrow> \<exists>p. L p \<noteq> Absent \<and> raw_of h p = r"
  using assms unfolding hinv_def by blast+

lemma hinvI:
  assumes "raws_ok h" "\<And>p. L p \<noteq> Absent \<Longrightarrow> blk h p (place_cap (L p))"
    "\<And>p q. L p \<noteq> Absent \<Longrightarrow> L q \<noteq> Absent \<Longrightarrow> raw_of h p = raw_of h q \<Longrightarrow> p = q" "\<And>r. fh_raw h r \<noteq> None \<Longrightarrow> \<exists>p. L p \<noteq> Absent \<and> raw_of h p = r"
  shows "hinv L h"
  using assms unfolding hinv_def by blast

lemma raws_okD:
  assumes "raws_ok h" "fh_raw h r = Some n"
  shows "r \<noteq> 0" "unat r + n < 2 ^ 64" "fh_raw h q = Some m \<Longrightarrow> r \<noteq> q \<Longrightarrow> apart r n q m"
  using assms unfolding raws_ok_def by blast+

text \<open>Addresses of a raw block.\<close>

definition within :: "frame_heap \<Rightarrow> maddr \<Rightarrow> maddr \<Rightarrow> bool" where
  "within h r a \<longleftrightarrow> (\<exists>n. fh_raw h r = Some n \<and> unat r \<le> unat a \<and> unat a < unat r + n)"

lemma within_unique: "raws_ok h \<Longrightarrow> within h r a \<Longrightarrow> within h q a \<Longrightarrow> r = q"
  unfolding within_def using raws_okD(3) by (fastforce simp: apart_def)

lemma unat_minus_8: "8 \<le> unat p \<Longrightarrow> unat (p - 8) = unat p - 8" for p :: maddr
  by (simp add: unat_sub word_le_nat_alt)

lemma blk_within:
  assumes "blk h p c"
  shows "within h (raw_of h p) p" "within h (raw_of h p) (p - 8)" "p \<noteq> 0" "unat p \<le> unat a \<Longrightarrow> unat a < unat p + c \<Longrightarrow> within h (raw_of h p) a \<and> a \<noteq> p - 8"
proof -
  have u: "unat (p - 8) = unat p - 8" using assms unat_minus_8 by (simp add: blk_def)
  show "within h (raw_of h p) p" "within h (raw_of h p) (p - 8)" using assms u by (auto simp: blk_def within_def)
  show "p \<noteq> 0" using assms by (auto simp: blk_def)
  show "within h (raw_of h p) a \<and> a \<noteq> p - 8" if "unat p \<le> unat a" "unat a < unat p + c"
    using assms that u by (auto simp: blk_def within_def)
qed

text \<open>Memory may change outside the words before the blocks.\<close>

lemma blk_cong: "fh_raw h' = fh_raw h \<Longrightarrow> raw_of h' p = raw_of h p \<Longrightarrow> blk h' p c = blk h p c"
  by (simp add: blk_def)

lemma hinv_mem:
  assumes "hinv L h" "\<And>p. L p \<noteq> Absent \<Longrightarrow> raw_of (h\<lparr>fh_mem := m\<rparr>) p = raw_of h p"
  shows "hinv L (h\<lparr>fh_mem := m\<rparr>)"
proof (rule hinvI)
  note D = hinvD [OF assms(1)]
  show "raws_ok (h\<lparr>fh_mem := m\<rparr>)" using D(1) by (simp add: raws_ok_def)
  show "blk (h\<lparr>fh_mem := m\<rparr>) p (place_cap (L p))" if "L p \<noteq> Absent" for p
    using D(2) [OF that] assms(2) [OF that] blk_cong by (metis frame_heap.select_convs(2) frame_heap.surjective frame_heap.update_convs(1))
  show "p = q" if "L p \<noteq> Absent" "L q \<noteq> Absent" "raw_of (h\<lparr>fh_mem := m\<rparr>) p = raw_of (h\<lparr>fh_mem := m\<rparr>) q" for p q
    using that assms(2) D(3) by metis
  show "\<exists>p. L p \<noteq> Absent \<and> raw_of (h\<lparr>fh_mem := m\<rparr>) p = r" if "fh_raw (h\<lparr>fh_mem := m\<rparr>) r \<noteq> None" for r
    using that assms(2) D(4) [of r] by auto
qed

lemma hinv_outside:
  assumes inv: "hinv L h" and m: "\<And>r a. within h r a \<Longrightarrow> m a = fh_mem h a"
  shows "hinv L (h\<lparr>fh_mem := m\<rparr>)" "L p \<noteq> Absent \<Longrightarrow> m p = fh_mem h p"
proof -
  show "hinv L (h\<lparr>fh_mem := m\<rparr>)"
  proof (rule hinv_mem [OF inv])
    show "raw_of (h\<lparr>fh_mem := m\<rparr>) p = raw_of h p" if "L p \<noteq> Absent" for p
      using m [OF blk_within(2) [OF hinvD(2) [OF inv that]]] by (simp add: raw_of_def)
  qed
  show "m p = fh_mem h p" if "L p \<noteq> Absent" using m [OF blk_within(1) [OF hinvD(2) [OF inv that]]] .
qed

lemma hinv_write:
  assumes inv: "hinv L h" and p: "L p \<noteq> Absent" and a: "unat p \<le> unat a" "unat a < unat p + place_cap (L p)"
  shows "hinv L (h\<lparr>fh_mem := (fh_mem h)(a := v)\<rparr>)" "L x \<noteq> Absent \<Longrightarrow> x \<noteq> p \<Longrightarrow> ((fh_mem h)(a := v)) x = fh_mem h x"
proof -
  note b = hinvD(2) [OF inv] and r = hinvD(1) [OF inv]
  have wa: "within h (raw_of h p) a" "a \<noteq> p - 8" using blk_within(4) [OF b [OF p] a] by blast+
  have no: "a \<noteq> y" if "L x \<noteq> Absent" "x \<noteq> p" "within h (raw_of h x) y" for x y
    using within_unique [OF r wa(1)] that hinvD(3) [OF inv p] by metis
  show "hinv L (h\<lparr>fh_mem := (fh_mem h)(a := v)\<rparr>)"
  proof (rule hinv_mem [OF inv])
    show "raw_of (h\<lparr>fh_mem := (fh_mem h)(a := v)\<rparr>) x = raw_of h x" if "L x \<noteq> Absent" for x
      using no [OF that _ blk_within(2) [OF b [OF that]]] wa(2) by (cases "x = p") (auto simp: raw_of_def)
  qed
  show "((fh_mem h)(a := v)) x = fh_mem h x" if "L x \<noteq> Absent" "x \<noteq> p"
    using no [OF that blk_within(1) [OF b [OF that(1)]]] by simp
qed

lemma hinv_relabel:
  assumes "hinv L h" "L p \<noteq> Absent" "l \<noteq> Absent" "place_cap l = place_cap (L p)"
  shows "hinv (L(p := l)) h"
proof (rule hinvI)
  have l: "(L(p := l)) q \<noteq> Absent \<longleftrightarrow> L q \<noteq> Absent" "place_cap ((L(p := l)) q) = place_cap (L q)" for q using assms(2-4) by auto
  note D = hinvD [OF assms(1)]
  show "raws_ok h" by (rule D)
  show "blk h q (place_cap ((L(p := l)) q))" if "(L(p := l)) q \<noteq> Absent" for q using that D(2) unfolding l by blast
  show "q = q'" if "(L(p := l)) q \<noteq> Absent" "(L(p := l)) q' \<noteq> Absent" "raw_of h q = raw_of h q'" for q q' using that D(3) unfolding l by blast
  show "\<exists>q. (L(p := l)) q \<noteq> Absent \<and> raw_of h q = r" if "fh_raw h r \<noteq> None" for r using that D(4) unfolding l by blast
qed

text \<open>\<open>frame_free\<close> of a block is never a bad \<open>free\<close>.\<close>

lemma hinv_free:
  assumes inv: "hinv L h" and p: "L p \<noteq> Absent"
  obtains h' where "frame_free p h = Some h'" "hinv (L(p := Absent)) h'" "fh_mem h' = fh_mem h"
proof -
  note D = hinvD [OF inv]
  note b = D(2) [OF p]
  let ?h = "h\<lparr>fh_raw := (fh_raw h)(raw_of h p := None)\<rparr>"
  have bk: "raw_of ?h q = raw_of h q" for q by (simp add: raw_of_def)
  have "frame_free p h = Some ?h" using b blk_within(3) [OF b] by (auto simp: frame_free_def Let_def blk_def raw_of_def)
  moreover have "hinv (L(p := Absent)) ?h"
  proof (rule hinvI)
    show "raws_ok ?h" using D(1) by (auto simp: raws_ok_def)
    show "blk ?h q (place_cap ((L(p := Absent)) q))" if "(L(p := Absent)) q \<noteq> Absent" for q
    proof -
      have q: "q \<noteq> p" "L q \<noteq> Absent" using that by (auto split: if_splits)
      then have "raw_of h q \<noteq> raw_of h p" using D(3) p by blast
      then show ?thesis using D(2) [OF q(2)] q(1) by (simp add: blk_def bk)
    qed
    show "q = q'" if "(L(p := Absent)) q \<noteq> Absent" "(L(p := Absent)) q' \<noteq> Absent" "raw_of ?h q = raw_of ?h q'" for q q'
      using that D(3) unfolding bk by (auto split: if_splits)
    show "\<exists>q. (L(p := Absent)) q \<noteq> Absent \<and> raw_of ?h q = r" if "fh_raw ?h r \<noteq> None" for r
      using that D(4) [of r] unfolding bk by (auto split: if_splits)
  qed
  ultimately show thesis using that by simp
qed

lemma hinv_alloc:
  assumes inv: "hinv L h" and m: "malloc_ok h (unat c + 72) raw" and l: "l \<noteq> Absent" "place_cap l = unat c"
  obtains p h' where "frame_alloc c raw h = Some (p, h')" "L p = Absent" "hinv (L(p := l)) h'" "\<And>x. L x \<noteq> Absent \<Longrightarrow> fh_mem h' x = fh_mem h x"
proof -
  note D = hinvD [OF inv]
  have u: "unat raw + unat c + 72 < 2 ^ 64" and raw: "raw \<noteq> 0" "fh_raw h raw = None" using m by (auto simp: malloc_ok_def)
  have sz: "unat (c + 64 + 8) = unat c + 72"
    using u by (subst unat_add_lem [THEN iffD1]; (subst unat_add_lem [THEN iffD1])?) simp_all
  have u8: "unat (raw + 8) = unat raw + 8" using u by (subst unat_add_lem [THEN iffD1]) simp_all
  define p where "p = align_up (raw + 8)"
  have up: "unat p = (unat raw + 8 + 63) div 64 * 64" using u u8 align_up_unat [of "raw + 8"] by (simp add: p_def)
  have "k < k div 64 * 64 + 64" "k div 64 * 64 \<le> k" for k :: nat by (simp_all add: div_mult_mod_eq dividend_less_div_times)
  from this [of "unat raw + 8 + 63"] have p: "unat p mod 64 = 0" "unat raw + 8 \<le> unat p" "unat p < unat raw + 72" unfolding up by auto
  have p8: "unat (p - 8) = unat p - 8" using p unat_minus_8 by simp
  define h' where "h' = h\<lparr>fh_raw := (fh_raw h)(raw \<mapsto> unat c + 72), fh_mem := (fh_mem h)(p - 8 := raw)\<rparr>"
  have fa: "frame_alloc c raw h = Some (p, h')" using raw(1) sz by (simp add: frame_alloc_def Let_def p_def h'_def)
  have rp: "raw_of h' p = raw" by (simp add: raw_of_def h'_def)
  have ok: "raws_ok h'" using D(1) m by (auto simp: raws_ok_def h'_def malloc_ok_def apart_def)
  have w: "within h' (raw_of h q) a" if "within h (raw_of h q) a" for q a using that raw(2) by (auto simp: within_def h'_def)
  have wp: "within h' raw (p - 8)" "within h' raw p" using p p8 by (auto simp: within_def h'_def)
  have nr: "raw_of h q \<noteq> raw" if "L q \<noteq> Absent" for q using D(2) [OF that] raw(2) by (auto simp: blk_def)
  have ne: "a \<noteq> p - 8 \<and> a \<noteq> p" if "L q \<noteq> Absent" "within h (raw_of h q) a" for q a
    using within_unique [OF ok w [OF that(2)]] wp nr [OF that(1)] by metis
  have Lp: "L p = Absent" using ne blk_within(1) [OF D(2)] by metis
  have rq: "raw_of h' q = raw_of h q" if "L q \<noteq> Absent" for q
    using ne [OF that blk_within(2) [OF D(2) [OF that]]] by (simp add: raw_of_def h'_def)
  have "hinv (L(p := l)) h'"
  proof (rule hinvI)
    show "blk h' q (place_cap ((L(p := l)) q))" if "(L(p := l)) q \<noteq> Absent" for q
      using that D(2) [of q] rq [of q] nr [of q] p rp l by (cases "q = p") (auto simp: blk_def h'_def)
    show "q = q'" if "(L(p := l)) q \<noteq> Absent" "(L(p := l)) q' \<noteq> Absent" "raw_of h' q = raw_of h' q'" for q q'
      using that rq nr rp D(3) by (metis fun_upd_apply)
    show "\<exists>q. (L(p := l)) q \<noteq> Absent \<and> raw_of h' q = r" if "fh_raw h' r \<noteq> None" for r
    proof (cases "r = raw")
      case True
      then show ?thesis using rp l(1) by (intro exI [of _ p]) simp
    next
      case False
      then have "fh_raw h r \<noteq> None" using that by (simp add: h'_def)
      then show ?thesis using D(4) [of r] rq Lp by (metis fun_upd_apply)
    qed
  qed (rule ok)
  moreover have "fh_mem h' x = fh_mem h x" if "L x \<noteq> Absent" for x
    using ne [OF that blk_within(1) [OF D(2) [OF that]]] by (simp add: h'_def)
  ultimately show thesis using that fa Lp by blast
qed

section \<open>Free lists\<close>

fun fchain :: "(maddr \<Rightarrow> maddr) \<Rightarrow> maddr \<Rightarrow> maddr list \<Rightarrow> bool" where
  "fchain m a [] \<longleftrightarrow> a = 0"
| "fchain m a (x # xs) \<longleftrightarrow> a = x \<and> x \<noteq> 0 \<and> fchain m (m x) xs"

lemma fchain_cong: "(\<And>x. x \<in> set xs \<Longrightarrow> m' x = m x) \<Longrightarrow> fchain m' a xs = fchain m a xs"
  by (induction xs arbitrary: a) auto

definition pool_ok :: "(maddr \<Rightarrow> maddr) \<Rightarrow> (maddr \<Rightarrow> place) \<Rightarrow> nat \<Rightarrow> nat \<Rightarrow> frame_pool \<Rightarrow> maddr list \<Rightarrow> bool" where
  "pool_ok m L t i f xs \<longleftrightarrow> fchain m (heads f ! i) xs \<and> distinct xs \<and> unat (counts f ! i) = length xs \<and> length xs \<le> 4096 \<and>
     (\<forall>x. x \<in> set xs \<longleftrightarrow> L x = Cached t i)"

definition finv :: "(maddr \<Rightarrow> place) \<Rightarrow> frames \<Rightarrow> bool" where
  "finv L s \<longleftrightarrow> hinv L (fs_heap s) \<and> (\<forall>p. fs_live s p = (case L p of Live sz \<Rightarrow> Some sz | _ \<Rightarrow> None)) \<and>
     (\<forall>t. length (heads (fs_pool s t)) = 16 \<and> length (counts (fs_pool s t)) = 16) \<and>
     (\<forall>t i. i < 16 \<longrightarrow> (\<exists>xs. pool_ok (fh_mem (fs_heap s)) L t i (fs_pool s t) xs)) \<and>
     (\<forall>p t i. L p = Cached t i \<longrightarrow> i < 16) \<and> (\<forall>p sz. L p = Live sz \<longrightarrow> unat sz < 2 ^ 63)"

lemma finvD:
  assumes "finv L s"
  shows "hinv L (fs_heap s)" "fs_live s p = Some sz \<longleftrightarrow> L p = Live sz" "length (heads (fs_pool s t)) = 16" "length (counts (fs_pool s t)) = 16"
    "i < 16 \<Longrightarrow> \<exists>xs. pool_ok (fh_mem (fs_heap s)) L t i (fs_pool s t) xs" "L p = Cached t i \<Longrightarrow> i < 16" "L p = Live sz \<Longrightarrow> unat sz < 2 ^ 63"
    "fs_live s p = (case L p of Live sz \<Rightarrow> Some sz | _ \<Rightarrow> None)"
proof -
  note D = assms [unfolded finv_def]
  show "hinv L (fs_heap s)" "length (heads (fs_pool s t)) = 16" "length (counts (fs_pool s t)) = 16"
    "i < 16 \<Longrightarrow> \<exists>xs. pool_ok (fh_mem (fs_heap s)) L t i (fs_pool s t) xs" "L p = Cached t i \<Longrightarrow> i < 16" "L p = Live sz \<Longrightarrow> unat sz < 2 ^ 63"
    and l: "fs_live s p = (case L p of Live sz \<Rightarrow> Some sz | _ \<Rightarrow> None)" using D by blast+
  show "fs_live s p = Some sz \<longleftrightarrow> L p = Live sz" unfolding l by (cases "L p") auto
qed

text \<open>A list that an operation leaves alone.\<close>

lemma pool_ok_frame:
  assumes "pool_ok m L t i f xs" "heads g ! i = heads f ! i" "counts g ! i = counts f ! i"
    "\<And>x. L' x = Cached t i \<longleftrightarrow> L x = Cached t i" "\<And>x. L x = Cached t i \<Longrightarrow> m' x = m x"
  shows "pool_ok m' L' t i g xs"
  using assms(1) fchain_cong [of xs m' m "heads f ! i"] assms(2-5) unfolding pool_ok_def by simp

text \<open>An operation of one thread on one list.\<close>

lemma finv_update:
  assumes inv: "finv L s" and h: "hinv L' h'" and live: "\<And>q. v q = (case L' q of Live sz \<Rightarrow> Some sz | _ \<Rightarrow> None)"
    and len: "length (heads g) = 16" "length (counts g) = 16"
    and own: "\<And>i. i < 16 \<Longrightarrow> \<exists>xs. pool_ok (fh_mem h') L' t i g xs"
    and other: "\<And>u i x. u \<noteq> t \<Longrightarrow> L' x = Cached u i \<longleftrightarrow> L x = Cached u i"
    and mem: "\<And>u i x. u \<noteq> t \<Longrightarrow> L x = Cached u i \<Longrightarrow> fh_mem h' x = fh_mem (fs_heap s) x"
    and idx: "\<And>q i. L' q = Cached t i \<Longrightarrow> i < 16" and size: "\<And>q sz. L' q = Live sz \<Longrightarrow> unat sz < 2 ^ 63"
  shows "finv L' (s\<lparr>fs_heap := h', fs_pool := (fs_pool s)(t := g), fs_live := v\<rparr>)"
proof -
  note D = finvD [OF inv]
  have "\<exists>xs. pool_ok (fh_mem h') L' u i (((fs_pool s)(t := g)) u) xs" if "i < 16" for u i
  proof (cases "u = t")
    case True
    then show ?thesis using own [OF that] by simp
  next
    case False
    obtain xs where "pool_ok (fh_mem (fs_heap s)) L u i (fs_pool s u) xs" using D(5) \<open>i < 16\<close> by blast
    then have "pool_ok (fh_mem h') L' u i (((fs_pool s)(t := g)) u) xs"
      by (rule pool_ok_frame) (simp_all add: False other mem [OF False])
    then show ?thesis by blast
  qed
  moreover have "i < 16" if "L' p = Cached u i" for p u i using that other [of u p i] D(6) [of p u i] idx by (cases "u = t") auto
  moreover have "length (heads (((fs_pool s)(t := g)) u)) = 16 \<and> length (counts (((fs_pool s)(t := g)) u)) = 16" for u using len D(3,4) by simp
  ultimately show ?thesis unfolding finv_def using h live size by (simp del: fun_upd_apply)
qed

lemma class_of_unat:
  assumes "unat sz < 2 ^ 63"
  shows "unat (class_of sz) = (unat sz + 63) div 64"
proof -
  have "unat (sz + 63) = unat sz + 63" using assms by (subst unat_add_lem [THEN iffD1]) simp_all
  moreover have "class_of sz = (sz + 63) div 64" by (simp add: class_of_def add.commute)
  moreover have "unat (64 :: maddr) = 64" by simp
  ultimately show ?thesis using unat_div [of "sz + 63" 64] by presburger
qed

text \<open>The size classes: a frame of a small size gets its class's block.\<close>

lemma small_class:
  assumes sz: "unat sz < 2 ^ 63" and c: "\<not> (class_of sz = 0 \<or> 16 < class_of sz)" and i: "i = unat (class_of sz - 1)"
  shows "i < 16" "unat (frame_cap sz) = (i + 1) * 64" "frame_cap sz = class_of sz * 64" "unat sz \<le> (i + 1) * 64"
proof -
  have "unat (class_of sz) \<noteq> 0" using c by (simp add: unat_eq_0)
  then have u: "0 < unat (class_of sz)" "unat (class_of sz) \<le> 16" using c by (simp_all add: word_le_nat_alt not_less)
  then have "1 \<le> class_of sz" by (simp add: word_le_nat_alt)
  then have i1: "i = unat (class_of sz) - 1" using i by (simp add: unat_sub)
  then show "i < 16" using u by simp
  show f: "frame_cap sz = class_of sz * 64" using c by (auto simp: frame_cap_def Let_def)
  have "unat (class_of sz * 64) = unat (class_of sz) * 64" using u by (subst unat_mult_lem [THEN iffD1]) simp_all
  then show "unat (frame_cap sz) = (i + 1) * 64" using f i1 u by simp
  show "unat sz \<le> (i + 1) * 64" using i1 u class_of_unat [OF sz] dividend_less_div_times [of 64 "unat sz + 63"] by simp
qed

lemma frame_cap_big: "class_of sz = 0 \<or> 16 < class_of sz \<Longrightarrow> frame_cap sz = sz"
  by (auto simp: frame_cap_def Let_def)

lemma frame_cap_ge: "unat sz < 2 ^ 63 \<Longrightarrow> unat sz \<le> unat (frame_cap sz)"
  using small_class(2,4) [of sz "unat (class_of sz - 1)"] frame_cap_big [of sz] by fastforce

section \<open>The operations keep the invariant\<close>

text \<open>A block that was not handed out before, or is no longer, leaves all free lists as they are.\<close>

lemma finv_fresh:
  assumes inv: "finv L s" and h: "hinv (L(p := l)) h'" and old: "\<And>t i. L p \<noteq> Cached t i" and l: "\<And>t i. l \<noteq> Cached t i"
    and v: "v = (case l of Live sz \<Rightarrow> Some sz | _ \<Rightarrow> None)" and sz: "\<And>sz. l = Live sz \<Longrightarrow> unat sz < 2 ^ 63"
    and mem: "\<And>x t i. L x = Cached t i \<Longrightarrow> fh_mem h' x = fh_mem (fs_heap s) x"
  shows "finv (L(p := l)) (s\<lparr>fs_heap := h', fs_pool := (fs_pool s)(t := fs_pool s t), fs_live := (fs_live s)(p := v)\<rparr>)"
proof (rule finv_update [OF inv h])
  note D = finvD [OF inv]
  have same: "(L(p := l)) x = Cached u i \<longleftrightarrow> L x = Cached u i" for x u i using old l by simp
  show "((fs_live s)(p := v)) q = (case (L(p := l)) q of Live sz \<Rightarrow> Some sz | _ \<Rightarrow> None)" for q using D(8) v by simp
  show "length (heads (fs_pool s t)) = 16" "length (counts (fs_pool s t)) = 16" by (rule D)+
  show "\<exists>xs. pool_ok (fh_mem h') (L(p := l)) t i (fs_pool s t) xs" if i: "i < 16" for i
  proof -
    obtain xs where "pool_ok (fh_mem (fs_heap s)) L t i (fs_pool s t) xs" using D(5) i by blast
    then have "pool_ok (fh_mem h') (L(p := l)) t i (fs_pool s t) xs" by (rule pool_ok_frame) (simp_all only: same mem)
    then show ?thesis by blast
  qed
  show "i < 16" if "(L(p := l)) q = Cached t i" for q i using that D(6) unfolding same by blast
  show "unat z < 2 ^ 63" if "(L(p := l)) q = Live z" for q z using that D(7) sz by (auto split: if_splits)
qed (use mem old l in auto)

lemma finv_new_block:
  assumes inv: "finv L s" and sz: "unat sz < 2 ^ 63" and raw: "raw = 0 \<or> malloc_ok (fs_heap s) (unat (frame_cap sz) + 72) raw"
    and al: "frame_alloc (frame_cap sz) raw (fs_heap s) = Some (p, h)"
  shows "fs_live s p = None \<and> (\<exists>L'. finv L' (s\<lparr>fs_heap := h, fs_pool := (fs_pool s)(t := fs_pool s t), fs_live := (fs_live s)(p \<mapsto> sz)\<rparr>))"
proof -
  have "malloc_ok (fs_heap s) (unat (frame_cap sz) + 72) raw" using raw al by (auto simp: frame_alloc_def)
  from hinv_alloc [OF finvD(1) [OF inv] this, of "Live sz"] al
  have h: "L p = Absent" "hinv (L(p := Live sz)) h" "\<And>x. L x \<noteq> Absent \<Longrightarrow> fh_mem h x = fh_mem (fs_heap s) x" by force+
  have "finv (L(p := Live sz)) (s\<lparr>fs_heap := h, fs_pool := (fs_pool s)(t := fs_pool s t), fs_live := (fs_live s)(p := Some sz)\<rparr>)"
    by (rule finv_fresh [OF inv h(2)]) (use h(1,3) sz in auto)
  then show ?thesis using finvD(8) [OF inv, of p] h(1) by auto
qed

lemma finv_free:
  assumes inv: "finv L s" and p: "fs_live s p = Some sz"
  obtains h where "frame_free p (fs_heap s) = Some h"
    "finv (L(p := Absent)) (s\<lparr>fs_heap := h, fs_pool := (fs_pool s)(t := fs_pool s t), fs_live := (fs_live s)(p := None)\<rparr>)"
proof -
  have Lp: "L p = Live sz" using finvD(2) [OF inv] p by blast
  obtain h where h: "frame_free p (fs_heap s) = Some h" "hinv (L(p := Absent)) h" "fh_mem h = fh_mem (fs_heap s)"
    using hinv_free [OF finvD(1) [OF inv], of p] Lp by auto
  have "finv (L(p := Absent)) (s\<lparr>fs_heap := h, fs_pool := (fs_pool s)(t := fs_pool s t), fs_live := (fs_live s)(p := None)\<rparr>)"
    by (rule finv_fresh [OF inv h(2)]) (use h(3) Lp in auto)
  then show thesis using that h(1) by blast
qed

text \<open>The lists of one thread after the head of one of them changed.\<close>

lemma pool_ok_at:
  assumes "length (heads f) = 16" "length (counts f) = 16" "i < 16" "j < 16"
    and here: "pool_ok m' L' t i (f\<lparr>heads := (heads f)[i := a], counts := (counts f)[i := c]\<rparr>) ys"
    and there: "j \<noteq> i \<Longrightarrow> pool_ok m L t j f xs" and L': "\<And>x. j \<noteq> i \<Longrightarrow> L' x = Cached t j \<longleftrightarrow> L x = Cached t j"
    and m': "\<And>x. j \<noteq> i \<Longrightarrow> L x = Cached t j \<Longrightarrow> m' x = m x"
  shows "\<exists>zs. pool_ok m' L' t j (f\<lparr>heads := (heads f)[i := a], counts := (counts f)[i := c]\<rparr>) zs"
proof (cases "j = i")
  case True
  then show ?thesis using here by blast
next
  case False
  have "pool_ok m' L' t j (f\<lparr>heads := (heads f)[i := a], counts := (counts f)[i := c]\<rparr>) xs"
    by (rule pool_ok_frame [OF there [OF False]]) (use False L' m' in simp_all)
  then show ?thesis by blast
qed

lemma finv_pop:
  assumes inv: "finv L s" and sz: "unat sz < 2 ^ 63" and c: "\<not> (class_of sz = 0 \<or> 16 < class_of sz)" and i: "i = unat (class_of sz - 1)"
    and head: "heads (fs_pool s t) ! i = p" "p \<noteq> 0"
    and f: "f = (fs_pool s t)\<lparr>heads := (heads (fs_pool s t))[i := fh_mem (fs_heap s) p], counts := (counts (fs_pool s t))[i := counts (fs_pool s t) ! i - 1]\<rparr>"
  shows "fs_live s p = None \<and> (\<exists>L'. finv L' (s\<lparr>fs_heap := fs_heap s, fs_pool := (fs_pool s)(t := f), fs_live := (fs_live s)(p \<mapsto> sz)\<rparr>))"
proof -
  note D = finvD [OF inv] and S = small_class [OF sz c i]
  let ?m = "fh_mem (fs_heap s)" and ?f = "fs_pool s t" and ?L = "L(p := Live sz)"
  obtain xs where xs: "pool_ok ?m L t i ?f xs" using D(5) S(1) by blast
  then obtain ys where ys: "xs = p # ys" using head by (cases xs) (auto simp: pool_ok_def)
  have Lp: "L p = Cached t i" using xs ys by (auto simp: pool_ok_def)
  have pk: "fchain ?m (?m p) ys" "distinct ys" "p \<notin> set ys" "unat (counts ?f ! i) = Suc (length ys)" "length ys < 4096" "\<And>x. x \<in> set (p # ys) \<longleftrightarrow> L x = Cached t i"
    using xs ys by (auto simp: pool_ok_def)
  have "unat (counts ?f ! i - 1) = length ys" using pk(4) by (subst unat_sub) (simp_all add: word_le_nat_alt)
  then have here: "pool_ok ?m ?L t i f ys"
    using pk(1,2,3,5,6) S(1) D(3,4) [of t] unfolding f by (auto simp: pool_ok_def)
  have "hinv ?L (fs_heap s)" using hinv_relabel [OF D(1), of p "Live sz"] Lp S(2) by simp
  then have "finv ?L (s\<lparr>fs_heap := fs_heap s, fs_pool := (fs_pool s)(t := f), fs_live := (fs_live s)(p \<mapsto> sz)\<rparr>)"
  proof (rule finv_update [OF inv])
    show "((fs_live s)(p \<mapsto> sz)) q = (case ?L q of Live sz \<Rightarrow> Some sz | _ \<Rightarrow> None)" for q using D(8) by simp
    show "length (heads f) = 16" "length (counts f) = 16" using D(3,4) f by simp_all
    show "\<exists>xs. pool_ok ?m ?L t j f xs" if j: "j < 16" for j
    proof -
      obtain zs where z: "pool_ok ?m L t j ?f zs" using D(5) j by blast
      show ?thesis unfolding f
        by (rule pool_ok_at [where L = L and m = "?m" and xs = zs, OF D(3,4) S(1) j here [unfolded f]]) (use z Lp in simp_all)
    qed
  qed (use Lp D(6,7) sz in \<open>auto split: if_splits\<close>)
  then show ?thesis using D(8) [of p] Lp by auto
qed

lemma finv_push:
  assumes inv: "finv L s" and p: "fs_live s p = Some sz" and c: "\<not> (class_of sz = 0 \<or> 16 < class_of sz)" and i: "i = unat (class_of sz - 1)"
    and room: "\<not> 4096 \<le> counts (fs_pool s t) ! i"
    and f: "f = (fs_pool s t)\<lparr>heads := (heads (fs_pool s t))[i := p], counts := (counts (fs_pool s t))[i := counts (fs_pool s t) ! i + 1]\<rparr>"
    and h: "h = (fs_heap s)\<lparr>fh_mem := (fh_mem (fs_heap s))(p := heads (fs_pool s t) ! i)\<rparr>"
  shows "\<exists>L'. finv L' (s\<lparr>fs_heap := h, fs_pool := (fs_pool s)(t := f), fs_live := (fs_live s)(p := None)\<rparr>)"
proof -
  note D = finvD [OF inv]
  have Lp: "L p = Live sz" using D(2) p by blast
  note S = small_class [OF D(7) [OF Lp] c i]
  let ?m = "fh_mem (fs_heap s)" and ?f = "fs_pool s t" and ?L = "L(p := Cached t i)"
  have cap: "place_cap (L p) = (i + 1) * 64" using Lp S(2) by simp
  have W: "hinv L h" "\<And>x. L x \<noteq> Absent \<Longrightarrow> x \<noteq> p \<Longrightarrow> fh_mem h x = ?m x"
    using hinv_write [OF D(1), of p p "heads ?f ! i"] Lp cap unfolding h by simp_all
  have hi: "hinv ?L h" using hinv_relabel [OF W(1), of p "Cached t i"] Lp cap by simp
  obtain xs where "pool_ok ?m L t i ?f xs" using D(5) S(1) by blast
  then have xs: "fchain ?m (heads ?f ! i) xs" "distinct xs" "unat (counts ?f ! i) = length xs" "\<And>x. x \<in> set xs \<longleftrightarrow> L x = Cached t i"
    by (auto simp: pool_ok_def)
  have len: "length xs < 4096" using room xs(3) by (simp add: word_le_nat_alt not_le)
  have u: "unat (counts ?f ! i + 1) = Suc (length xs)" using len xs(3) by (subst unat_add_lem [THEN iffD1]) simp_all
  have "fchain (fh_mem h) (heads ?f ! i) xs" using xs(1) fchain_cong [of xs "fh_mem h" ?m] W(2) xs(4) Lp by force
  moreover have "fh_mem h p = heads ?f ! i" by (simp add: h)
  moreover have "p \<noteq> 0" using blk_within(3) [OF hinvD(2) [OF W(1)]] Lp by simp
  ultimately have here: "pool_ok (fh_mem h) ?L t i f (p # xs)"
    using xs(2,4) u len S(1) D(3,4) [of t] Lp unfolding f by (auto simp: pool_ok_def)
  have "finv ?L (s\<lparr>fs_heap := h, fs_pool := (fs_pool s)(t := f), fs_live := (fs_live s)(p := None)\<rparr>)"
  proof (rule finv_update [OF inv hi])
    show "((fs_live s)(p := None)) q = (case ?L q of Live sz \<Rightarrow> Some sz | _ \<Rightarrow> None)" for q using D(8) by simp
    show "length (heads f) = 16" "length (counts f) = 16" using D(3,4) f by simp_all
    show "\<exists>xs. pool_ok (fh_mem h) ?L t j f xs" if j: "j < 16" for j
    proof -
      obtain zs where z: "pool_ok ?m L t j ?f zs" using D(5) j by blast
      have keep: "fh_mem h x = ?m x" if "L x = Cached t j" for x using W(2) [of x] that Lp by (cases "x = p") auto
      show ?thesis unfolding f
        by (rule pool_ok_at [where L = L and m = "?m" and xs = zs, OF D(3,4) S(1) j here [unfolded f]]) (use z Lp keep in simp_all)
    qed
    show "fh_mem h x = fh_mem (fs_heap s) x" if "u \<noteq> t" "L x = Cached u j" for u j x using W(2) [of x] that Lp by (cases "x = p") auto
  qed (use Lp D(6,7) S(1) in \<open>auto split: if_splits\<close>)
  then show ?thesis by blast
qed

definition drop_blocks :: "maddr set \<Rightarrow> (maddr \<Rightarrow> place) \<Rightarrow> maddr \<Rightarrow> place" where
  "drop_blocks A L = (\<lambda>p. if p \<in> A then Absent else L p)"

text \<open>The destructor's loop over one list ends and frees every block of it once.\<close>

lemma free_list_chain:
  assumes "hinv L h" "fchain (fh_mem h) a xs" "distinct xs" "\<And>x. x \<in> set xs \<Longrightarrow> L x \<noteq> Absent"
  shows "\<exists>h'. free_list a h = Some h' \<and> fh_mem h' = fh_mem h \<and> hinv (drop_blocks (set xs) L) h'"
  using assms
proof (induction xs arbitrary: a h L)
  case Nil
  then show ?case by (simp add: free_list.simps [of 0] drop_blocks_def)
next
  case (Cons x xs)
  obtain h1 where h1: "frame_free x h = Some h1" "hinv (L(x := Absent)) h1" "fh_mem h1 = fh_mem h"
    using hinv_free [OF Cons.prems(1)] Cons.prems(4) by auto
  have "\<exists>h'. free_list (fh_mem h x) h1 = Some h' \<and> fh_mem h' = fh_mem h1 \<and> hinv (drop_blocks (set xs) (L(x := Absent))) h'"
    by (rule Cons.IH [OF h1(2)]) (use Cons.prems h1(3) in auto)
  moreover have "drop_blocks (set xs) (L(x := Absent)) = drop_blocks (set (x # xs)) L" by (auto simp: drop_blocks_def)
  moreover have "free_list a h = free_list (fh_mem h x) h1" using Cons.prems(2) h1(1) by (simp add: free_list.simps [of x])
  ultimately show ?case using h1(3) by simp
qed

lemma free_lists_chains:
  assumes "hinv L h" "list_all2 (fchain (fh_mem h)) hs xss" "distinct (concat xss)" "\<And>x. x \<in> set (concat xss) \<Longrightarrow> L x \<noteq> Absent"
  shows "\<exists>h'. free_lists hs h = Some h' \<and> fh_mem h' = fh_mem h \<and> hinv (drop_blocks (set (concat xss)) L) h'"
  using assms
proof (induction hs arbitrary: h L xss)
  case Nil
  then show ?case by (simp add: drop_blocks_def)
next
  case (Cons a hs)
  obtain xs yss where xss: "xss = xs # yss" "fchain (fh_mem h) a xs" "list_all2 (fchain (fh_mem h)) hs yss"
    using Cons.prems(2) by (auto simp: list_all2_Cons1)
  obtain h1 where h1: "free_list a h = Some h1" "fh_mem h1 = fh_mem h" "hinv (drop_blocks (set xs) L) h1"
    using free_list_chain [OF Cons.prems(1) xss(2)] Cons.prems(3,4) xss(1) by auto
  have "\<exists>h'. free_lists hs h1 = Some h' \<and> fh_mem h' = fh_mem h1 \<and> hinv (drop_blocks (set (concat yss)) (drop_blocks (set xs) L)) h'"
    by (rule Cons.IH [OF h1(3)]) (use Cons.prems(3,4) xss h1(2) in \<open>auto simp: drop_blocks_def\<close>)
  moreover have "drop_blocks (set (concat yss)) (drop_blocks (set xs) L) = drop_blocks (set (concat xss)) L"
    unfolding xss(1) by (auto simp: drop_blocks_def fun_eq_iff)
  ultimately show ?case using h1 by simp
qed

lemma pool_chains:
  assumes inv: "finv L s"
  obtains xss where "list_all2 (fchain (fh_mem (fs_heap s))) (heads (fs_pool s t)) xss" "distinct (concat xss)"
    "\<And>x. x \<in> set (concat xss) \<longleftrightarrow> (\<exists>i. L x = Cached t i)"
proof -
  note D = finvD [OF inv]
  have "\<forall>i. \<exists>xs. i < 16 \<longrightarrow> pool_ok (fh_mem (fs_heap s)) L t i (fs_pool s t) xs" using D(5) by blast
  from choice [OF this] obtain F where F: "\<And>i. i < 16 \<Longrightarrow> pool_ok (fh_mem (fs_heap s)) L t i (fs_pool s t) (F i)" by blast
  let ?x = "map F [0..<16]"
  have "list_all2 (fchain (fh_mem (fs_heap s))) (heads (fs_pool s t)) ?x"
    using F D(3) [of t] by (simp add: list_all2_conv_all_nth pool_ok_def)
  moreover have mem: "x \<in> set (F i) \<longleftrightarrow> L x = Cached t i" if "i < 16" for x i using F [OF that] by (simp add: pool_ok_def)
  moreover have "x \<in> set (concat ?x) \<longleftrightarrow> (\<exists>i. L x = Cached t i)" for x using mem D(6) by auto
  moreover have "distinct (concat (map F [0..<n]))" if "n \<le> 16" for n
    using that
  proof (induction n)
    case (Suc n)
    have "distinct (F n)" using F [of n] Suc.prems by (simp add: pool_ok_def)
    then show ?case using Suc mem by auto
  qed simp
  ultimately show thesis using that [of ?x] by blast
qed

lemma finv_exit:
  assumes inv: "finv L s"
  obtains h where "pool_destroy (fs_pool s t) (fs_heap s) = Some h"
    "\<exists>L'. finv L' (s\<lparr>fs_heap := h, fs_pool := (fs_pool s)(t := pool_new), fs_live := fs_live s\<rparr>)"
proof -
  note D = finvD [OF inv]
  obtain xss where X: "list_all2 (fchain (fh_mem (fs_heap s))) (heads (fs_pool s t)) xss" "distinct (concat xss)"
    "\<And>x. x \<in> set (concat xss) \<longleftrightarrow> (\<exists>i. L x = Cached t i)" using pool_chains [OF inv] by blast
  define M where "M = drop_blocks (set (concat xss)) L"
  obtain h where h: "pool_destroy (fs_pool s t) (fs_heap s) = Some h" "fh_mem h = fh_mem (fs_heap s)" "hinv M h"
    using free_lists_chains [OF D(1) X(1,2)] X(3) unfolding pool_destroy_def M_def by force
  have L: "M x = (if \<exists>i. L x = Cached t i then Absent else L x)" for x unfolding M_def drop_blocks_def X(3) by simp
  have "finv M (s\<lparr>fs_heap := h, fs_pool := (fs_pool s)(t := pool_new), fs_live := fs_live s\<rparr>)"
  proof (rule finv_update [OF inv h(3)])
    show "fs_live s q = (case M q of Live sz \<Rightarrow> Some sz | _ \<Rightarrow> None)" for q unfolding L D(8) by (cases "L q") auto
    show "\<exists>xs. pool_ok (fh_mem h) M t i pool_new xs" if "i < 16" for i
      by (rule exI [of _ "[]"]) (use that in \<open>auto simp: pool_ok_def pool_new_def L\<close>)
  qed (use h(2) D(6,7) in \<open>auto simp: L pool_new_def split: if_splits\<close>)
  then show thesis using that h(1) by blast
qed

lemma finv_allocate:
  assumes inv: "finv L s" and sz: "unat sz < 2 ^ 63" and raw: "raw = 0 \<or> malloc_ok (fs_heap s) (unat (frame_cap sz) + 72) raw"
    and al: "pool_allocate sz raw (fs_pool s t) (fs_heap s) = Some (p, f, h)"
  shows "fs_live s p = None \<and> (\<exists>L'. finv L' (s\<lparr>fs_heap := h, fs_pool := (fs_pool s)(t := f), fs_live := (fs_live s)(p \<mapsto> sz)\<rparr>))"
proof (cases "class_of sz = 0 \<or> 16 < class_of sz")
  case True
  then have "frame_alloc (frame_cap sz) raw (fs_heap s) = Some (p, h)" "f = fs_pool s t"
    using al frame_cap_big [OF True] by (auto simp: pool_allocate_def Let_def)
  then show ?thesis using finv_new_block [OF inv sz raw] by blast
next
  case small: False
  define i where "i = unat (class_of sz - 1)"
  note S = small_class [OF sz small i_def]
  show ?thesis
  proof (cases "heads (fs_pool s t) ! i = 0")
    case True
    then have "frame_alloc (frame_cap sz) raw (fs_heap s) = Some (p, h)" "f = fs_pool s t"
      using al small S(3) unfolding pool_allocate_def Let_def i_def by auto
    then show ?thesis using finv_new_block [OF inv sz raw] by blast
  next
    case False
    define q where "q = heads (fs_pool s t) ! i"
    define g where "g = (fs_pool s t)\<lparr>heads := (heads (fs_pool s t))[i := fh_mem (fs_heap s) q], counts := (counts (fs_pool s t))[i := counts (fs_pool s t) ! i - 1]\<rparr>"
    have "pool_allocate sz raw (fs_pool s t) (fs_heap s) = Some (q, g, fs_heap s)"
      using small False unfolding pool_allocate_def Let_def i_def q_def g_def by simp
    then have "p = q" "f = g" "h = fs_heap s" using al by simp_all
    moreover have "q \<noteq> 0" using False by (simp add: q_def)
    ultimately show ?thesis using finv_pop [OF inv sz small i_def q_def [symmetric] _ g_def] by (simp only: simp_thms)
  qed
qed

lemma finv_deallocate:
  assumes inv: "finv L s" and p: "fs_live s p = Some sz"
  obtains f h where "pool_deallocate p sz (fs_pool s t) (fs_heap s) = Some (f, h)"
    "\<exists>L'. finv L' (s\<lparr>fs_heap := h, fs_pool := (fs_pool s)(t := f), fs_live := (fs_live s)(p := None)\<rparr>)"
proof -
  define i where "i = unat (class_of sz - 1)"
  let ?big = "class_of sz = 0 \<or> 16 < class_of sz \<or> 4096 \<le> counts (fs_pool s t) ! i"
  show thesis
  proof (cases ?big)
    case True
    obtain h where h: "frame_free p (fs_heap s) = Some h"
      "finv (L(p := Absent)) (s\<lparr>fs_heap := h, fs_pool := (fs_pool s)(t := fs_pool s t), fs_live := (fs_live s)(p := None)\<rparr>)"
      using finv_free [OF inv p] by blast
    have "pool_deallocate p sz (fs_pool s t) (fs_heap s) = Some (fs_pool s t, h)"
      using True h(1) unfolding pool_deallocate_def Let_def i_def by simp
    then show thesis using that h(2) by blast
  next
    case False
    define f where "f = (fs_pool s t)\<lparr>heads := (heads (fs_pool s t))[i := p], counts := (counts (fs_pool s t))[i := counts (fs_pool s t) ! i + 1]\<rparr>"
    define h where "h = (fs_heap s)\<lparr>fh_mem := (fh_mem (fs_heap s))(p := heads (fs_pool s t) ! i)\<rparr>"
    have "pool_deallocate p sz (fs_pool s t) (fs_heap s) = Some (f, h)"
      using False unfolding pool_deallocate_def Let_def i_def f_def h_def by simp
    moreover have "\<exists>L'. finv L' (s\<lparr>fs_heap := h, fs_pool := (fs_pool s)(t := f), fs_live := (fs_live s)(p := None)\<rparr>)"
      using finv_push [OF inv p _ i_def _ f_def h_def] False by blast
    ultimately show thesis using that by blast
  qed
qed

lemma frames_same: "s\<lparr>fs_heap := h, fs_live := v\<rparr> = s\<lparr>fs_heap := h, fs_pool := (fs_pool s)(t := fs_pool s t), fs_live := v\<rparr>"
  "s\<lparr>fs_heap := h, fs_pool := g\<rparr> = s\<lparr>fs_heap := h, fs_pool := g, fs_live := fs_live s\<rparr>"
  by simp_all

text \<open>Memory changed by the program inside its frames, or outside all blocks.\<close>

lemma finv_memory:
  assumes inv: "finv L s" and h: "hinv L ((fs_heap s)\<lparr>fh_mem := m\<rparr>)" and m: "\<And>x t i. L x = Cached t i \<Longrightarrow> m x = fh_mem (fs_heap s) x"
  shows "finv L (s\<lparr>fs_heap := (fs_heap s)\<lparr>fh_mem := m\<rparr>\<rparr>)"
proof -
  note D = finvD [OF inv]
  have "\<exists>xs. pool_ok m L t i (fs_pool s t) xs" if "i < 16" for t i
  proof -
    obtain xs where "pool_ok (fh_mem (fs_heap s)) L t i (fs_pool s t) xs" using D(5) \<open>i < 16\<close> by blast
    then have "pool_ok m L t i (fs_pool s t) xs" by (rule pool_ok_frame) (use m in auto)
    then show ?thesis by blast
  qed
  then show ?thesis using D(3,4,6,7,8) h unfolding finv_def by simp
qed

lemma frames_step_inv:
  assumes inv: "finv L s" and step: "frames_step s s'"
  shows "\<exists>L'. finv L' s'"
  using step
proof cases
  case (op_new sz raw t p f h)
  then show ?thesis using finv_allocate [OF inv] by blast
next
  case (op_delete p sz t f h)
  obtain f' h' where "pool_deallocate p sz (fs_pool s t) (fs_heap s) = Some (f', h')"
    "\<exists>L'. finv L' (s\<lparr>fs_heap := h', fs_pool := (fs_pool s)(t := f'), fs_live := (fs_live s)(p := None)\<rparr>)"
    using finv_deallocate [OF inv op_delete(2), of t] by blast
  then show ?thesis using op_delete(1,3) by (simp only: option.inject prod.inject)
next
  case (op_delete_unsized p sz h)
  obtain h' where h: "frame_free p (fs_heap s) = Some h'"
    and f: "finv (L(p := Absent)) (s\<lparr>fs_heap := h', fs_pool := (fs_pool s)(0 := fs_pool s 0), fs_live := (fs_live s)(p := None)\<rparr>)"
    using finv_free [OF inv op_delete_unsized(2), of 0] by blast
  have "h' = h" using h op_delete_unsized(3) by simp
  then show ?thesis using f unfolding op_delete_unsized(1) frames_same(1) [where t = 0, symmetric] by blast
next
  case (op_thread_exit t h)
  obtain h' where h: "pool_destroy (fs_pool s t) (fs_heap s) = Some h'"
    and f: "\<exists>L'. finv L' (s\<lparr>fs_heap := h', fs_pool := (fs_pool s)(t := pool_new), fs_live := fs_live s\<rparr>)"
    using finv_exit [OF inv, of t] by blast
  have "h' = h" using h op_thread_exit(2) by simp
  then show ?thesis using f unfolding op_thread_exit(1) frames_same(2) [symmetric] by blast
next
  case (op_write p sz a v)
  have Lp: "L p = Live sz" using finvD(2) [OF inv] op_write(2) by blast
  have a: "unat a < unat p + place_cap (L p)" using op_write(4) frame_cap_ge [OF finvD(7) [OF inv Lp]] Lp by simp
  note W = hinv_write [where v = v, OF finvD(1) [OF inv] _ op_write(3) a]
  have "finv L (s\<lparr>fs_heap := (fs_heap s)\<lparr>fh_mem := (fh_mem (fs_heap s))(a := v)\<rparr>\<rparr>)"
  proof (rule finv_memory [OF inv])
    show "hinv L ((fs_heap s)\<lparr>fh_mem := (fh_mem (fs_heap s))(a := v)\<rparr>)" using W(1) Lp by simp
    show "((fh_mem (fs_heap s))(a := v)) x = fh_mem (fs_heap s) x" if "L x = Cached t i" for x t i
      using W(2) [where x = x] Lp that by (cases "x = p") simp_all
  qed
  then show ?thesis unfolding op_write(1) by blast
next
  case (op_outside m)
  have w: "m a = fh_mem (fs_heap s) a" if "within (fs_heap s) r a" for r a using that op_outside(2) by (auto simp: within_def)
  have "finv L (s\<lparr>fs_heap := (fs_heap s)\<lparr>fh_mem := m\<rparr>\<rparr>)"
  proof (rule finv_memory [OF inv])
    note O = hinv_outside [where m = m, OF finvD(1) [OF inv] w]
    show "hinv L ((fs_heap s)\<lparr>fh_mem := m\<rparr>)" by (rule O(1))
    show "m x = fh_mem (fs_heap s) x" if "L x = Cached t i" for x t i using O(2) [where p = x] that by simp
  qed
  then show ?thesis unfolding op_outside(1) by blast
qed

interpretation frame_sys: inv_system frames_init frames_step "\<lambda>s. \<exists>L. finv L s"
proof
  show "\<exists>L. finv L s" if "frames_init s" for s
  proof (rule exI [of _ "\<lambda>_. Absent"])
    have "hinv (\<lambda>_. Absent) (fs_heap s)" using that by (simp add: hinv_def raws_ok_def frames_init_def)
    moreover have "pool_ok m (\<lambda>_. Absent) t i pool_new []" if "i < 16" for m t i using that by (simp add: pool_ok_def pool_new_def)
    ultimately show "finv (\<lambda>_. Absent) s" using that by (auto simp: finv_def frames_init_def) (auto simp: pool_new_def)
  qed
  show "\<exists>L. finv L s'" if "\<exists>L. finv L s" "frames_step s s'" for s s' using that frames_step_inv by blast
qed

section \<open>Properties\<close>

text \<open>Two blocks with the words before them do not overlap.\<close>

lemma blocks_apart:
  assumes inv: "hinv L h" and p: "L p \<noteq> Absent" "n \<le> place_cap (L p)" and q: "L q \<noteq> Absent" "m \<le> place_cap (L q)" and ne: "p \<noteq> q"
  shows "apart (p - 8) (n + 8) (q - 8) (m + 8)"
proof -
  note bp = hinvD(2) [OF inv p(1)] and bq = hinvD(2) [OF inv q(1)]
  have "raw_of h p \<noteq> raw_of h q" using hinvD(3) [OF inv p(1) q(1)] ne by blast
  then have "apart (raw_of h p) (place_cap (L p) + 72) (raw_of h q) (place_cap (L q) + 72)"
    using raws_okD(3) [OF hinvD(1) [OF inv]] bp bq unfolding blk_def by blast
  moreover have "unat (p - 8) = unat p - 8" "unat (q - 8) = unat q - 8" using bp bq unat_minus_8 by (simp_all add: blk_def)
  ultimately show ?thesis using bp bq p(2) q(2) unfolding apart_def blk_def by linarith
qed

text \<open>The bytes of a live frame: aligned, inside one allocated raw block.\<close>

definition frame_placed :: "frames \<Rightarrow> maddr \<Rightarrow> maddr \<Rightarrow> bool" where
  "frame_placed s p sz \<longleftrightarrow> p \<noteq> 0 \<and> 64 dvd unat p \<and>
     (\<exists>r n. fh_raw (fs_heap s) r = Some n \<and> unat r + 8 \<le> unat p \<and> unat p + unat sz \<le> unat r + n)"

lemma blk_placed:
  assumes b: "blk (fs_heap s) p c" and c: "unat sz \<le> c"
  shows "frame_placed s p sz"
  unfolding frame_placed_def
proof (intro conjI exI)
  show "p \<noteq> 0" by (rule blk_within(3) [OF b])
  show "64 dvd unat p" using b by (simp add: blk_def dvd_eq_mod_eq_0)
  show "fh_raw (fs_heap s) (raw_of (fs_heap s) p) = Some (c + 72)" "unat (raw_of (fs_heap s) p) + 8 \<le> unat p"
    "unat p + unat sz \<le> unat (raw_of (fs_heap s) p) + (c + 72)" using b c by (simp_all add: blk_def)
qed

text \<open>C30. Coroutine frames, allocated and freed on any threads in any order, with frames moving between the free lists of the
  threads and threads ending: every live frame is 64-byte aligned and lies, with its size and the word before it, in one allocated
  block of \<open>malloc\<close>; no two of them overlap, the words before them included; an allocation never returns a block that is in use; every \<open>operator delete\<close>
  (sized or not) and every destruction of a pool ends and frees only allocated memory, so nothing is freed twice; a free list holds at most
  4096 blocks; and when no frame is live and no list holds a block, all memory has been given back.\<close>

theorem frame_pool_safe:
  assumes "reach frames_init frames_step s"
  shows "(\<forall>p sz. fs_live s p = Some sz \<longrightarrow> frame_placed s p sz) \<and>
    (\<forall>p q sz sz'. fs_live s p = Some sz \<and> fs_live s q = Some sz' \<and> p \<noteq> q \<longrightarrow> apart (p - 8) (unat sz + 8) (q - 8) (unat sz' + 8)) \<and>
    (\<forall>sz raw t p f h. unat sz < 2 ^ 63 \<and> (raw = 0 \<or> malloc_ok (fs_heap s) (unat (frame_cap sz) + 72) raw) \<and>
       pool_allocate sz raw (fs_pool s t) (fs_heap s) = Some (p, f, h) \<longrightarrow> fs_live s p = None) \<and>
    (\<forall>t p sz. fs_live s p = Some sz \<longrightarrow> pool_deallocate p sz (fs_pool s t) (fs_heap s) \<noteq> None \<and> frame_free p (fs_heap s) \<noteq> None) \<and>
    (\<forall>t. pool_destroy (fs_pool s t) (fs_heap s) \<noteq> None) \<and> (\<forall>t i. i < 16 \<longrightarrow> counts (fs_pool s t) ! i \<le> 4096) \<and>
    (fs_live s = (\<lambda>_. None) \<and> (\<forall>t. heads (fs_pool s t) = replicate 16 0) \<longrightarrow> fh_raw (fs_heap s) = (\<lambda>_. None))"
proof -
  obtain L where inv: "finv L s" using frame_sys.reach_inv [OF assms] by blast
  note D = finvD [OF inv]
  have lv: "L p \<noteq> Absent" "unat sz \<le> place_cap (L p)" if "fs_live s p = Some sz" for p sz
    using that frame_cap_ge D(7) [of p sz] by (auto simp: D(2))
  have "frame_placed s p sz" if "fs_live s p = Some sz" for p sz
    using blk_placed [OF hinvD(2) [OF D(1) lv(1) [OF that]] lv(2) [OF that]] .
  moreover have "apart (p - 8) (unat sz + 8) (q - 8) (unat sz' + 8)" if "fs_live s p = Some sz" "fs_live s q = Some sz'" "p \<noteq> q" for p q sz sz'
    using blocks_apart [OF D(1) lv [OF that(1)] lv [OF that(2)] that(3)] .
  moreover have "pool_deallocate p sz (fs_pool s t) (fs_heap s) \<noteq> None \<and> frame_free p (fs_heap s) \<noteq> None" if l: "fs_live s p = Some sz" for t p sz
  proof -
    obtain f h where "pool_deallocate p sz (fs_pool s t) (fs_heap s) = Some (f, h)" using finv_deallocate [OF inv l, of t] by blast
    moreover obtain h' where "frame_free p (fs_heap s) = Some h'" using finv_free [OF inv l, of t] by blast
    ultimately show ?thesis by simp
  qed
  moreover have "pool_destroy (fs_pool s t) (fs_heap s) \<noteq> None" for t
  proof -
    obtain h where "pool_destroy (fs_pool s t) (fs_heap s) = Some h" using finv_exit [OF inv, of t] by blast
    then show ?thesis by simp
  qed
  moreover have "counts (fs_pool s t) ! i \<le> 4096" if "i < 16" for t i
    using D(5) [OF that, of t] by (auto simp: pool_ok_def word_le_nat_alt)
  moreover have "fh_raw (fs_heap s) = (\<lambda>_. None)" if e: "fs_live s = (\<lambda>_. None)" "\<forall>t. heads (fs_pool s t) = replicate 16 0"
  proof -
    have "L p \<noteq> Live sz" for p sz using D(2) [of p sz] e(1) by simp
    moreover have "L p \<noteq> Cached t i" for p t i
    proof
      assume c: "L p = Cached t i"
      then obtain xs where "pool_ok (fh_mem (fs_heap s)) L t i (fs_pool s t) xs" "i < 16" using D(5,6) by blast
      then show False using c e(2) by (cases xs) (auto simp: pool_ok_def)
    qed
    ultimately have "L p = Absent" for p by (cases "L p") blast+
    then show ?thesis using hinvD(4) [OF D(1)] by blast
  qed
  moreover have "fs_live s p = None" if "unat sz < 2 ^ 63 \<and> (raw = 0 \<or> malloc_ok (fs_heap s) (unat (frame_cap sz) + 72) raw) \<and>
    pool_allocate sz raw (fs_pool s t) (fs_heap s) = Some (p, f, h)" for sz raw t p f h
    using finv_allocate [OF inv, of sz raw t p f h] that by simp
  ultimately show ?thesis by blast
qed

text \<open>One frame of 100 bytes, from a raw block at address 4096.\<close>

definition frames_demo :: frames where
  "frames_demo = \<lparr>fs_heap = \<lparr>fh_mem = (\<lambda>_. 0)(0x1038 := 0x1000), fh_raw = (\<lambda>_. None)(0x1000 \<mapsto> 200)\<rparr>,
     fs_pool = (\<lambda>_. pool_new), fs_live = (\<lambda>_. None)(0x1040 \<mapsto> 100)\<rparr>"

lemma frames_demo_reach: "reach frames_init frames_step frames_demo"
proof -
  define s where "s = \<lparr>fs_heap = \<lparr>fh_mem = (\<lambda>_. 0), fh_raw = (\<lambda>_. None)\<rparr>, fs_pool = (\<lambda>_. pool_new), fs_live = (\<lambda>_. None)\<rparr>"
  have s: "reach frames_init frames_step s" by (rule reach_init) (simp add: s_def frames_init_def)
  have c: "class_of 100 = 2" "align_up 0x1008 = 0x1040" "frame_cap 100 = 128" by (simp_all add: class_of_def align_up_def frame_cap_def)
  have "pool_allocate 100 0x1000 (fs_pool s 0) (fs_heap s) = Some (0x1040, pool_new, fs_heap frames_demo)"
    by (simp add: pool_allocate_def frame_alloc_def Let_def c s_def frames_demo_def pool_new_def)
  moreover have "malloc_ok (fs_heap s) (unat (frame_cap 100) + 72) 0x1000" by (simp add: malloc_ok_def s_def c)
  ultimately have "frames_step s (s\<lparr>fs_heap := fs_heap frames_demo, fs_pool := (fs_pool s)(0 := pool_new), fs_live := (fs_live s)(0x1040 \<mapsto> 100)\<rparr>)"
    by (intro op_new) simp_all
  moreover have "s\<lparr>fs_heap := fs_heap frames_demo, fs_pool := (fs_pool s)(0 := pool_new), fs_live := (fs_live s)(0x1040 \<mapsto> 100)\<rparr> = frames_demo"
    by (simp add: s_def frames_demo_def fun_eq_iff)
  ultimately show ?thesis using reach_step [OF s] by metis
qed

theorem frame_pool_safe_witness:
  "\<exists>s p. reach frames_init frames_step s \<and> fs_live s p = Some 100 \<and> frame_placed s p 100 \<and> pool_deallocate p 100 (fs_pool s 1) (fs_heap s) \<noteq> None"
proof -
  have l: "fs_live frames_demo 0x1040 = Some 100" by (simp add: frames_demo_def)
  note T = frame_pool_safe [OF frames_demo_reach]
  have "frame_placed frames_demo 0x1040 100" using T l by blast
  moreover have "pool_deallocate 0x1040 100 (fs_pool frames_demo 1) (fs_heap frames_demo) \<noteq> None" using T l by blast
  ultimately show ?thesis using frames_demo_reach l by blast
qed

end
