(* ===== verification/Coroutine_Frames.thy ===== *)
theory Coroutine_Frames
  imports Uvent_Prelude "HOL-Library.Monad_Syntax"
begin

text \<open>
  The life of coroutine frames on one worker (\<open>tasks/AwaitableFrame.h\<close> and \<open>.cpp\<close>, \<open>tasks/Awaitable.h\<close>, the run and
  destroy loops of \<open>system/Thread.cpp\<close>): awaiting a lazy child, starting an I/O child and awaiting it, waiting for an event,
  yielding, finishing, symmetric transfer or the trampoline through the run queue when the stack is too deep, and destruction of
  finished frames by the loop. What a coroutine does next, when events arrive and when the stack is too deep are free choices. Every access to a frame
  that does not exist any more is a fault (\<open>None\<close>).
\<close>

section \<open>Frames\<close>

text \<open>Where a frame is: not started, in the run queue, on the machine stack, suspended for an event, for a child, at
  \<open>co_yield\<close>, or at its final suspension point (\<open>done\<close>).\<close>

datatype co_status = Created | Ready | Active | Waiting | Awaiting | Yielded | Final

text \<open>\<open>f_await\<close> is the \<open>Awaitable\<close> whose \<open>await_resume\<close> runs first when the frame continues, \<open>f_held\<close> an \<open>Awaitable\<close> of a
  started I/O child that is not awaited yet.\<close>

record co_frame =
  f_prev :: "nat option"
  f_next :: "nat option"
  f_pending :: "nat option"
  f_status :: co_status
  f_deferred :: bool
  f_await :: "nat option"
  f_held :: "nat option"

definition new_frame :: "bool \<Rightarrow> co_status \<Rightarrow> co_frame" where
  "new_frame deferred l = \<lparr>f_prev = None, f_next = None, f_pending = None, f_status = l, f_deferred = deferred, f_await = None, f_held = None\<rparr>"

text \<open>\<open>In_resume\<close> is the loop inside \<open>c.resume()\<close>, with its local variable \<open>pending\<close>.\<close>

datatype co_loop = In_loop | In_resume "nat option"

record co_sys =
  co_frames :: "nat \<Rightarrow> co_frame option"
  co_q :: "nat list"
  co_qc :: "nat list"
  co_stack :: "nat list"
  co_pc :: co_loop
  co_fresh :: nat

definition co_init :: co_sys where
  "co_init = \<lparr>co_frames = (\<lambda>_. None), co_q = [], co_qc = [], co_stack = [], co_pc = In_loop, co_fresh = 0\<rparr>"

definition frame_upd :: "nat \<Rightarrow> (co_frame \<Rightarrow> co_frame) \<Rightarrow> co_sys \<Rightarrow> co_sys option" where
  "frame_upd c g s = (case co_frames s c of None \<Rightarrow> None | Some fr \<Rightarrow> Some (s\<lparr>co_frames := (co_frames s)(c \<mapsto> g fr)\<rparr>))"

definition add_frame :: "bool \<Rightarrow> co_status \<Rightarrow> co_sys \<Rightarrow> co_sys" where
  "add_frame deferred l s = s\<lparr>co_frames := (co_frames s)(co_fresh s \<mapsto> new_frame deferred l), co_fresh := Suc (co_fresh s)\<rparr>"

text \<open>Control leaves the running coroutine (\<open>noop_coroutine\<close>), goes to another one, or the frame is put into the run queue.\<close>

definition co_leave :: "co_sys \<Rightarrow> co_sys" where
  "co_leave s = s\<lparr>co_stack := tl (co_stack s)\<rparr>"

definition co_transfer :: "nat \<Rightarrow> co_sys \<Rightarrow> co_sys option" where
  "co_transfer d s = frame_upd d (f_status_update (\<lambda>_. Active)) (s\<lparr>co_stack := d # tl (co_stack s)\<rparr>)"

definition push_task_queue :: "nat \<Rightarrow> co_sys \<Rightarrow> co_sys option" where
  "push_task_queue d s = frame_upd d (f_status_update (\<lambda>_. Ready)) (s\<lparr>co_q := co_q s @ [d]\<rparr>)"

section \<open>Awaiting\<close>

definition drop_handle :: "nat \<Rightarrow> nat option \<Rightarrow> nat option" where
  "drop_handle d h = (if h = Some d then None else h)"

text \<open>\<open>await_suspend\<close>.\<close>

definition await_suspend :: "nat \<Rightarrow> nat \<Rightarrow> bool \<Rightarrow> co_sys \<Rightarrow> co_sys option" where
  "await_suspend c d deep s = do {
     s \<leftarrow> frame_upd c (\<lambda>fr. fr\<lparr>f_next := Some d, f_await := Some d, f_held := drop_handle d (f_held fr), f_status := Awaiting\<rparr>) s;
     s \<leftarrow> frame_upd d (f_prev_update (\<lambda>_. Some c)) s;
     fd \<leftarrow> co_frames s d;
     if f_deferred fd \<or> f_status fd = Final then Some (co_leave s)
     else if deep then map_option co_leave (push_task_queue d s)
     else co_transfer d s}"

text \<open>\<open>co_await\<close>: \<open>await_ready\<close>, then \<open>await_suspend\<close> or \<open>await_resume\<close>.\<close>

definition co_await :: "nat \<Rightarrow> nat \<Rightarrow> bool \<Rightarrow> co_sys \<Rightarrow> co_sys option" where
  "co_await c d deep s = do {
     fd \<leftarrow> co_frames s d;
     if f_status fd = Final then frame_upd c (\<lambda>fr. fr\<lparr>f_await := Some d, f_held := drop_handle d (f_held fr)\<rparr>) s
     else await_suspend c d deep s}"

text \<open>\<open>await_resume\<close> reads the result of the child.\<close>

definition await_resume :: "nat \<Rightarrow> nat \<Rightarrow> co_sys \<Rightarrow> co_sys option" where
  "await_resume c d s = do {
     fd \<leftarrow> co_frames s d;
     frame_upd c (f_await_update (\<lambda>_. None)) s}"

text \<open>\<open>co_await f ()\<close> of a lazy coroutine, and the call of an I/O coroutine, which starts at once on the stack of the caller.\<close>

definition call_lazy :: "nat \<Rightarrow> bool \<Rightarrow> co_sys \<Rightarrow> co_sys option" where
  "call_lazy c deep s = co_await c (co_fresh s) deep (add_frame False Created s)"

definition start_deferred :: "nat \<Rightarrow> co_sys \<Rightarrow> co_sys option" where
  "start_deferred c s = (let d = co_fresh s; s1 = add_frame True Active s in
     frame_upd c (f_held_update (\<lambda>_. Some d)) (s1\<lparr>co_stack := d # co_stack s1\<rparr>))"

definition spawn_task :: "co_sys \<Rightarrow> co_sys" where
  "spawn_task s = (let d = co_fresh s; s1 = add_frame False Ready s in s1\<lparr>co_q := co_q s1 @ [d]\<rparr>)"

definition wait_event :: "nat \<Rightarrow> co_sys \<Rightarrow> co_sys option" where
  "wait_event c s = map_option co_leave (frame_upd c (f_status_update (\<lambda>_. Waiting)) s)"

section \<open>Finishing and yielding\<close>

text \<open>\<open>push_frame_to_be_destroyed\<close>.\<close>

definition push_destroy :: "nat \<Rightarrow> co_sys \<Rightarrow> co_sys" where
  "push_destroy c s = s\<lparr>co_qc := co_qc s @ [c]\<rparr>"

definition final_transfer :: "nat \<Rightarrow> bool \<Rightarrow> co_sys \<Rightarrow> co_sys option" where
  "final_transfer c deep s = do {
     fr \<leftarrow> co_frames s c;
     s \<leftarrow> frame_upd c (\<lambda>fr. fr\<lparr>f_prev := None, f_status := Final\<rparr>) s;
     case f_prev fr of
       None \<Rightarrow> Some (co_leave (push_destroy c s))
     | Some p \<Rightarrow> do {
         s \<leftarrow> frame_upd p (f_next_update (\<lambda>_. None)) s;
         if deep then do {
           s \<leftarrow> frame_upd p (f_pending_update (\<lambda>_. Some c)) s;
           map_option co_leave (push_task_queue p s)}
         else co_transfer p (push_destroy c s)}}"

definition yield_transfer :: "nat \<Rightarrow> bool \<Rightarrow> co_sys \<Rightarrow> co_sys option" where
  "yield_transfer c deep s = do {
     fr \<leftarrow> co_frames s c;
     s \<leftarrow> frame_upd c (f_status_update (\<lambda>_. Yielded)) s;
     case f_prev fr of
       None \<Rightarrow> Some (co_leave s)
     | Some p \<Rightarrow> if deep then map_option co_leave (push_task_queue p s) else co_transfer p s}"

section \<open>The loop of the worker\<close>

definition loop_resume :: "nat \<Rightarrow> nat list \<Rightarrow> co_sys \<Rightarrow> co_sys option" where
  "loop_resume c q s = do {
     fr \<leftarrow> co_frames s c;
     if f_status fr = Final then Some (s\<lparr>co_q := q\<rparr>)
     else frame_upd c (\<lambda>fr. fr\<lparr>f_pending := None, f_status := Active\<rparr>) (s\<lparr>co_q := q, co_stack := [c], co_pc := In_resume (f_pending fr)\<rparr>)}"

definition after_resume :: "nat option \<Rightarrow> co_sys \<Rightarrow> co_sys" where
  "after_resume pending s = (case pending of None \<Rightarrow> s | Some d \<Rightarrow> push_destroy d s)\<lparr>co_pc := In_loop\<rparr>"

definition loop_destroy :: "nat \<Rightarrow> nat list \<Rightarrow> co_sys \<Rightarrow> co_sys option" where
  "loop_destroy c qc s = do {
     fr \<leftarrow> co_frames s c;
     Some (s\<lparr>co_frames := (co_frames s)(c := None), co_qc := qc\<rparr>)}"

text \<open>One step of the worker. \<open>late\<close> allows a coroutine to go on while it holds the \<open>Awaitable\<close> of a started I/O child.
  The loop may resume and destroy in any order between two resumes.\<close>

inductive co_step :: "bool \<Rightarrow> co_sys \<Rightarrow> co_sys option \<Rightarrow> bool" for late where
  st_resume: "co_pc s = In_loop \<Longrightarrow> co_q s = c # q \<Longrightarrow> co_step late s (loop_resume c q s)"
| st_after: "co_pc s = In_resume p \<Longrightarrow> co_stack s = [] \<Longrightarrow> co_step late s (Some (after_resume p s))"
| st_destroy: "co_pc s = In_loop \<Longrightarrow> co_qc s = c # qc \<Longrightarrow> co_step late s (loop_destroy c qc s)"
| st_event: "co_frames s c = Some fr \<Longrightarrow> f_status fr = Waiting \<Longrightarrow> co_step late s (push_task_queue c s)"
| st_spawn: "co_step late s (Some (spawn_task s))"
| st_gone: "co_stack s = c # cs \<Longrightarrow> co_frames s c = None \<Longrightarrow> co_step late s None"
| st_read: "co_stack s = c # cs \<Longrightarrow> co_frames s c = Some fr \<Longrightarrow> f_await fr = Some d \<Longrightarrow> co_step late s (await_resume c d s)"
| st_await_held: "co_stack s = c # cs \<Longrightarrow> co_frames s c = Some fr \<Longrightarrow> f_await fr = None \<Longrightarrow> f_held fr = Some d \<Longrightarrow> co_step late s (co_await c d deep s)"
| st_call: "co_stack s = c # cs \<Longrightarrow> co_frames s c = Some fr \<Longrightarrow> f_await fr = None \<Longrightarrow> late \<or> f_held fr = None \<Longrightarrow> co_step late s (call_lazy c deep s)"
| st_start: "co_stack s = c # cs \<Longrightarrow> co_frames s c = Some fr \<Longrightarrow> f_await fr = None \<Longrightarrow> f_held fr = None \<Longrightarrow> co_step late s (start_deferred c s)"
| st_wait: "co_stack s = c # cs \<Longrightarrow> co_frames s c = Some fr \<Longrightarrow> f_await fr = None \<Longrightarrow> late \<or> f_held fr = None \<Longrightarrow> co_step late s (wait_event c s)"
| st_yield: "co_stack s = c # cs \<Longrightarrow> co_frames s c = Some fr \<Longrightarrow> f_await fr = None \<Longrightarrow> late \<or> f_held fr = None \<Longrightarrow> \<not> f_deferred fr \<Longrightarrow>
    co_step late s (yield_transfer c deep s)"
| st_again: "co_stack s = c # cs \<Longrightarrow> co_frames s c = Some fr \<Longrightarrow> f_await fr = None \<Longrightarrow> late \<or> f_held fr = None \<Longrightarrow>
    co_frames s d = Some fd \<Longrightarrow> f_status fd = Yielded \<Longrightarrow> f_prev fd = Some c \<Longrightarrow> co_step late s (co_await c d deep s)"
| st_finish: "co_stack s = c # cs \<Longrightarrow> co_frames s c = Some fr \<Longrightarrow> f_await fr = None \<Longrightarrow> late \<or> f_held fr = None \<Longrightarrow> co_step late s (final_transfer c deep s)"

definition co_run :: "bool \<Rightarrow> co_sys \<Rightarrow> co_sys \<Rightarrow> bool" where
  "co_run late s s' \<longleftrightarrow> co_step late s (Some s')"

section \<open>Views\<close>

text \<open>The state as functions of the frame, for the invariant.\<close>

record co_view =
  v_q :: "nat list"
  v_qc :: "nat list"
  v_stack :: "nat list"
  v_pc :: co_loop
  v_fresh :: nat
  v_st :: "nat \<Rightarrow> co_status option"
  v_aw :: "nat \<Rightarrow> nat option"
  v_pv :: "nat \<Rightarrow> nat option"
  v_pe :: "nat \<Rightarrow> nat option"
  v_he :: "nat \<Rightarrow> nat option"
  v_df :: "nat \<Rightarrow> bool option"

definition view :: "co_sys \<Rightarrow> co_view" where
  "view s = \<lparr>v_q = co_q s, v_qc = co_qc s, v_stack = co_stack s, v_pc = co_pc s, v_fresh = co_fresh s,
     v_st = (\<lambda>c. map_option f_status (co_frames s c)), v_aw = (\<lambda>c. co_frames s c \<bind> f_await), v_pv = (\<lambda>c. co_frames s c \<bind> f_prev),
     v_pe = (\<lambda>c. co_frames s c \<bind> f_pending), v_he = (\<lambda>c. co_frames s c \<bind> f_held), v_df = (\<lambda>c. map_option f_deferred (co_frames s c))\<rparr>"

lemma view_simps [simp]:
  "v_q (view s) = co_q s" "v_qc (view s) = co_qc s" "v_stack (view s) = co_stack s" "v_pc (view s) = co_pc s" "v_fresh (view s) = co_fresh s"
  "v_st (view s) c = map_option f_status (co_frames s c)" "v_aw (view s) c = co_frames s c \<bind> f_await" "v_pv (view s) c = co_frames s c \<bind> f_prev"
  "v_pe (view s) c = co_frames s c \<bind> f_pending" "v_he (view s) c = co_frames s c \<bind> f_held" "v_df (view s) c = map_option f_deferred (co_frames s c)"
  by (simp_all add: view_def)

lemma view_eqI:
  assumes "v_q v = v_q w" "v_qc v = v_qc w" "v_stack v = v_stack w" "v_pc v = v_pc w" "v_fresh v = v_fresh w" "\<And>c. v_st v c = v_st w c" "\<And>c. v_aw v c = v_aw w c"
    "\<And>c. v_pv v c = v_pv w c" "\<And>c. v_pe v c = v_pe w c" "\<And>c. v_he v c = v_he w c" "\<And>c. v_df v c = v_df w c"
  shows "v = (w :: co_view)"
  using assms by (cases v, cases w) (auto simp: fun_eq_iff)

definition v_enter :: "nat \<Rightarrow> co_view \<Rightarrow> co_view" where
  "v_enter d v = v\<lparr>v_stack := d # tl (v_stack v), v_st := (v_st v)(d \<mapsto> Active)\<rparr>"

definition v_queue :: "nat \<Rightarrow> co_view \<Rightarrow> co_view" where
  "v_queue d v = v\<lparr>v_q := v_q v @ [d], v_stack := tl (v_stack v), v_st := (v_st v)(d \<mapsto> Ready)\<rparr>"

definition v_go :: "bool \<Rightarrow> nat \<Rightarrow> co_view \<Rightarrow> co_view" where
  "v_go deep d v = (if deep then v_queue d v else v_enter d v)"

definition v_link :: "nat \<Rightarrow> nat \<Rightarrow> co_view \<Rightarrow> co_view" where
  "v_link c d v = v\<lparr>v_st := (v_st v)(c \<mapsto> Awaiting), v_aw := (v_aw v)(c \<mapsto> d), v_he := (v_he v)(c := drop_handle d (v_he v c)), v_pv := (v_pv v)(d \<mapsto> c)\<rparr>"

lemma frame_upd_Some: "co_frames s c = Some fr \<Longrightarrow> frame_upd c g s = Some (s\<lparr>co_frames := (co_frames s)(c \<mapsto> g fr)\<rparr>)"
  by (simp add: frame_upd_def)

lemma await_suspend_view:
  assumes "co_frames s c = Some fr" "co_frames s d = Some fd" "c \<noteq> d" "f_status fd \<noteq> Final"
  obtains s' where "await_suspend c d deep s = Some s'"
    "view s' = (if f_deferred fd then (v_link c d (view s))\<lparr>v_stack := tl (co_stack s)\<rparr> else v_go deep d (v_link c d (view s)))"
proof -
  have "\<exists>s'. await_suspend c d deep s = Some s' \<and>
    view s' = (if f_deferred fd then (v_link c d (view s))\<lparr>v_stack := tl (co_stack s)\<rparr> else v_go deep d (v_link c d (view s)))"
    using assms
    by (auto simp: await_suspend_def frame_upd_def push_task_queue_def co_transfer_def co_leave_def v_go_def v_queue_def v_enter_def v_link_def
        intro!: view_eqI)
  then show thesis using that by blast
qed

lemmas op_simps = frame_upd_def push_task_queue_def co_transfer_def co_leave_def v_go_def v_queue_def v_enter_def v_link_def push_destroy_def

lemma final_transfer_view:
  assumes "co_frames s c = Some fr" "\<And>p. f_prev fr = Some p \<Longrightarrow> p \<noteq> c \<and> co_frames s p \<noteq> None"
  shows "\<exists>s'. final_transfer c deep s = Some s' \<and>
    view s' = (let v = (view s)\<lparr>v_st := (v_st (view s))(c \<mapsto> Final), v_pv := (v_pv (view s))(c := None)\<rparr> in
      case f_prev fr of None \<Rightarrow> v\<lparr>v_qc := co_qc s @ [c], v_stack := tl (co_stack s)\<rparr>
      | Some p \<Rightarrow> if deep then v_queue p (v\<lparr>v_pe := (v_pe (view s))(p \<mapsto> c)\<rparr>) else v_enter p (v\<lparr>v_qc := co_qc s @ [c]\<rparr>))"
proof (cases "f_prev fr")
  case None
  then show ?thesis using assms by (auto simp: final_transfer_def op_simps intro!: view_eqI)
next
  case (Some p)
  with assms(2) obtain fp where "p \<noteq> c" "co_frames s p = Some fp" by auto
  then show ?thesis using assms(1) Some by (auto simp: final_transfer_def op_simps Let_def intro!: view_eqI)
qed

lemma yield_transfer_view:
  assumes "co_frames s c = Some fr" "\<And>p. f_prev fr = Some p \<Longrightarrow> p \<noteq> c \<and> co_frames s p \<noteq> None"
  shows "\<exists>s'. yield_transfer c deep s = Some s' \<and>
    view s' = (let v = (view s)\<lparr>v_st := (v_st (view s))(c \<mapsto> Yielded)\<rparr> in
      case f_prev fr of None \<Rightarrow> v\<lparr>v_stack := tl (co_stack s)\<rparr> | Some p \<Rightarrow> v_go deep p v)"
proof (cases "f_prev fr")
  case None
  then show ?thesis using assms by (auto simp: yield_transfer_def op_simps intro!: view_eqI)
next
  case (Some p)
  with assms(2) obtain fp where "p \<noteq> c" "co_frames s p = Some fp" by auto
  then show ?thesis using assms(1) Some by (auto simp: yield_transfer_def op_simps Let_def intro!: view_eqI)
qed

lemma add_frame_view:
  assumes "co_frames s (co_fresh s) = None"
  shows "view (add_frame b l s) = (view s)\<lparr>v_fresh := Suc (co_fresh s), v_st := (v_st (view s))(co_fresh s \<mapsto> l), v_df := (v_df (view s))(co_fresh s \<mapsto> b)\<rparr>"
  using assms by (auto simp: add_frame_def new_frame_def intro!: view_eqI)

lemma loop_resume_view:
  assumes "co_frames s c = Some fr" "f_status fr \<noteq> Final"
  shows "\<exists>s'. loop_resume c q s = Some s' \<and> view s' = (view s)\<lparr>v_q := q, v_stack := [c], v_pc := In_resume (v_pe (view s) c),
    v_pe := (v_pe (view s))(c := None), v_st := (v_st (view s))(c \<mapsto> Active)\<rparr>"
  using assms by (auto simp: loop_resume_def op_simps intro!: view_eqI)

lemma other_views:
  "view (after_resume p s) = (view s)\<lparr>v_qc := co_qc s @ (case p of None \<Rightarrow> [] | Some d \<Rightarrow> [d]), v_pc := In_loop\<rparr>"
  "co_frames s c = Some fr \<Longrightarrow> \<exists>s'. loop_destroy c qc s = Some s' \<and> view s' = (view s)\<lparr>v_qc := qc, v_st := (v_st (view s))(c := None), v_aw := (v_aw (view s))(c := None),
     v_pv := (v_pv (view s))(c := None), v_pe := (v_pe (view s))(c := None), v_he := (v_he (view s))(c := None), v_df := (v_df (view s))(c := None)\<rparr>"
  "co_frames s c = Some fr \<Longrightarrow> \<exists>s'. push_task_queue c s = Some s' \<and> view s' = (view s)\<lparr>v_q := co_q s @ [c], v_st := (v_st (view s))(c \<mapsto> Ready)\<rparr>"
  "co_frames s c = Some fr \<Longrightarrow> co_frames s d = Some fd \<Longrightarrow> \<exists>s'. await_resume c d s = Some s' \<and> view s' = (view s)\<lparr>v_aw := (v_aw (view s))(c := None)\<rparr>"
  "co_frames s c = Some fr \<Longrightarrow> co_frames s (co_fresh s) = None \<Longrightarrow> \<exists>s'. start_deferred c s = Some s' \<and> view s' = (view s)\<lparr>v_stack := co_fresh s # co_stack s, v_fresh := Suc (co_fresh s),
     v_st := (v_st (view s))(co_fresh s \<mapsto> Active), v_he := (v_he (view s))(c \<mapsto> co_fresh s), v_df := (v_df (view s))(co_fresh s \<mapsto> True)\<rparr>"
  "co_frames s (co_fresh s) = None \<Longrightarrow> view (spawn_task s) = (view s)\<lparr>v_q := co_q s @ [co_fresh s], v_fresh := Suc (co_fresh s), v_st := (v_st (view s))(co_fresh s \<mapsto> Ready), v_df := (v_df (view s))(co_fresh s \<mapsto> False)\<rparr>"
  "co_frames s c = Some fr \<Longrightarrow> \<exists>s'. wait_event c s = Some s' \<and> view s' = (view s)\<lparr>v_stack := tl (co_stack s), v_st := (v_st (view s))(c \<mapsto> Waiting)\<rparr>"
  by (auto simp: after_resume_def loop_destroy_def await_resume_def start_deferred_def spawn_task_def wait_event_def add_frame_def new_frame_def Let_def op_simps
      intro!: view_eqI split: option.splits)

section \<open>Invariant\<close>

text \<open>A frame \<open>p\<close> with \<open>d\<close> as its awaited child: suspended on a child that has not finished, or running or queued
  with the child's result still there.\<close>

definition aw_ok :: "co_view \<Rightarrow> nat \<Rightarrow> nat \<Rightarrow> bool" where
  "aw_ok v p d \<longleftrightarrow>
     (v_st v p = Some Awaiting \<and> v_pv v d = Some p \<and> v_st v d \<in> {Some Ready, Some Active, Some Waiting, Some Awaiting}) \<or>
     (v_st v p = Some Active \<and> (v_st v d = Some Final \<or> v_st v d = Some Yielded \<and> v_pv v d = Some p)) \<or>
     (v_st v p = Some Ready \<and> (v_pe v p = Some d \<or> v_st v d = Some Yielded \<and> v_pv v d = Some p))"

definition pv_ok :: "co_view \<Rightarrow> nat \<Rightarrow> nat \<Rightarrow> bool" where
  "pv_ok v d p \<longleftrightarrow> v_st v d = Some Yielded \<or> v_st v p = Some Awaiting \<and> v_aw v p = Some d"

definition he_ok :: "co_view \<Rightarrow> nat \<Rightarrow> nat \<Rightarrow> bool" where
  "he_ok v c d \<longleftrightarrow> v_st v c = Some Active \<and> v_aw v c = None \<and> c \<noteq> d \<and> v_df v d = Some True \<and> v_pv v d = None"

text \<open>Every finished frame is in the destroy queue, pending at its queued parent, or pending in the loop.\<close>

definition final_at :: "co_view \<Rightarrow> nat \<Rightarrow> bool" where
  "final_at v c \<longleftrightarrow> c \<in> set (v_qc v) \<or> (\<exists>p. v_pe v p = Some c) \<or> v_pc v = In_resume (Some c)"

definition pe_ok :: "co_view \<Rightarrow> nat \<Rightarrow> nat \<Rightarrow> bool" where
  "pe_ok v p c \<longleftrightarrow> v_st v p = Some Ready \<and> v_aw v p = Some c \<and> c \<notin> set (v_qc v) \<and> v_pc v \<noteq> In_resume (Some c)"

definition queues_ok :: "co_view \<Rightarrow> bool" where
  "queues_ok v \<longleftrightarrow> distinct (v_q v) \<and> distinct (v_stack v) \<and> distinct (v_qc v) \<and>
     (\<forall>c. c \<in> set (v_q v) \<longleftrightarrow> v_st v c = Some Ready) \<and> (\<forall>c. c \<in> set (v_stack v) \<longleftrightarrow> v_st v c = Some Active)"

definition missing_ok :: "co_view \<Rightarrow> nat \<Rightarrow> bool" where
  "missing_ok v c \<longleftrightarrow> (v_fresh v \<le> c \<longrightarrow> v_st v c = None) \<and> v_st v c \<noteq> Some Created \<and> \<not> (v_df v c = Some True \<and> v_st v c = Some Yielded) \<and>
     (v_st v c = None \<longrightarrow> v_aw v c = None \<and> v_pv v c = None \<and> v_pe v c = None \<and> v_he v c = None \<and> v_df v c = None)"

definition co_inv :: "co_view \<Rightarrow> bool" where
  "co_inv v \<longleftrightarrow> queues_ok v \<and> (\<forall>c. v_st v c = Some Final \<longleftrightarrow> final_at v c) \<and> (\<forall>p c. v_pe v p = Some c \<longrightarrow> pe_ok v p c) \<and>
     (\<forall>p p' c. v_pe v p = Some c \<and> v_pe v p' = Some c \<longrightarrow> p = p') \<and> (\<forall>c. v_pc v = In_resume (Some c) \<longrightarrow> c \<notin> set (v_qc v)) \<and>
     (v_pc v = In_loop \<longrightarrow> v_stack v = []) \<and> (\<forall>p d. v_aw v p = Some d \<longrightarrow> aw_ok v p d) \<and> (\<forall>p. v_st v p = Some Awaiting \<longrightarrow> v_aw v p \<noteq> None) \<and>
     (\<forall>d p. v_pv v d = Some p \<longrightarrow> pv_ok v d p) \<and> (\<forall>c d. v_he v c = Some d \<longrightarrow> he_ok v c d) \<and>
     (\<forall>c c' d. v_he v c = Some d \<and> v_he v c' = Some d \<longrightarrow> c = c') \<and> (\<forall>c. missing_ok v c)"

lemma co_invD:
  assumes "co_inv v"
  shows "queues_ok v" "v_st v c = Some Final \<longleftrightarrow> final_at v c" "v_pe v p = Some c \<Longrightarrow> pe_ok v p c" "v_pe v p = Some c \<Longrightarrow> v_pe v p' = Some c \<Longrightarrow> p = p'"
    "v_pc v = In_resume (Some c) \<Longrightarrow> c \<notin> set (v_qc v)" "v_pc v = In_loop \<Longrightarrow> v_stack v = []" "v_aw v p = Some d \<Longrightarrow> aw_ok v p d"
    "v_st v p = Some Awaiting \<Longrightarrow> v_aw v p \<noteq> None" "v_pv v d = Some p \<Longrightarrow> pv_ok v d p" "v_he v c = Some d \<Longrightarrow> he_ok v c d"
    "v_he v c = Some d \<Longrightarrow> v_he v c' = Some d \<Longrightarrow> c = c'" "missing_ok v c"
  using assms unfolding co_inv_def by blast+

lemma co_invI:
  assumes "queues_ok v" "\<And>c. v_st v c = Some Final \<longleftrightarrow> final_at v c" "\<And>p c. v_pe v p = Some c \<Longrightarrow> pe_ok v p c" "\<And>p p' c. v_pe v p = Some c \<Longrightarrow> v_pe v p' = Some c \<Longrightarrow> p = p'"
    "\<And>c. v_pc v = In_resume (Some c) \<Longrightarrow> c \<notin> set (v_qc v)" "v_pc v = In_loop \<Longrightarrow> v_stack v = []" "\<And>p d. v_aw v p = Some d \<Longrightarrow> aw_ok v p d"
    "\<And>p. v_st v p = Some Awaiting \<Longrightarrow> v_aw v p \<noteq> None" "\<And>d p. v_pv v d = Some p \<Longrightarrow> pv_ok v d p" "\<And>c d. v_he v c = Some d \<Longrightarrow> he_ok v c d"
    "\<And>c c' d. v_he v c = Some d \<Longrightarrow> v_he v c' = Some d \<Longrightarrow> c = c'" "\<And>c. missing_ok v c"
  shows "co_inv v"
  using assms unfolding co_inv_def by blast

lemma queues_okD:
  assumes "queues_ok v"
  shows "distinct (v_q v)" "distinct (v_stack v)" "distinct (v_qc v)" "c \<in> set (v_q v) \<longleftrightarrow> v_st v c = Some Ready" "c \<in> set (v_stack v) \<longleftrightarrow> v_st v c = Some Active"
  using assms unfolding queues_ok_def by blast+

lemma v_exists: "co_inv v \<Longrightarrow> v_st v c = None \<Longrightarrow> v_aw v c = None \<and> v_pv v c = None \<and> v_pe v c = None \<and> v_he v c = None \<and> v_df v c = None"
  using co_invD(12) [of v c] by (simp add: missing_ok_def)

lemma pe_drop: "co_inv v \<Longrightarrow> (\<exists>p. ((v_pe v)(c := None)) p = Some x) \<longleftrightarrow> (\<exists>p. v_pe v p = Some x) \<and> v_pe v c \<noteq> Some x"
  using co_invD(4) [of v] by (auto split: if_splits) metis+

lemma v_event_inv:
  assumes inv: "co_inv v" and c: "v_st v c = Some Waiting"
  shows "co_inv (v\<lparr>v_q := v_q v @ [c], v_st := (v_st v)(c \<mapsto> Ready)\<rparr>)"
proof (rule co_invI)
  note D = co_invD [OF inv] and Q = queues_okD [OF co_invD(1) [OF inv]]
  let ?v = "v\<lparr>v_q := v_q v @ [c], v_st := (v_st v)(c \<mapsto> Ready)\<rparr>"
  show "queues_ok ?v" using Q c by (auto simp: queues_ok_def)
  show "v_st ?v x = Some Final \<longleftrightarrow> final_at ?v x" for x using D(2) [of x] c by (auto simp: final_at_def)
  show "pe_ok ?v p x" if "v_pe ?v p = Some x" for p x using D(3) [of p x] that c by (auto simp: pe_ok_def)
  show "aw_ok ?v p d" if "v_aw ?v p = Some d" for p d using D(7) [of p d] that c by (auto simp: aw_ok_def)
  show "pv_ok ?v d p" if "v_pv ?v d = Some p" for p d using D(9) [of d p] that c by (auto simp: pv_ok_def)
  show "he_ok ?v x d" if "v_he ?v x = Some d" for x d using D(10) [of x d] that c by (auto simp: he_ok_def)
  show "missing_ok ?v x" for x using D(12) [of x] c by (auto simp: missing_ok_def)
qed (use co_invD [OF inv] in \<open>auto split: if_splits\<close>)

lemma v_resume_inv:
  assumes inv: "co_inv v" and pc: "v_pc v = In_loop" and q: "v_q v = c # q"
  shows "co_inv (v\<lparr>v_q := q, v_stack := [c], v_pc := In_resume (v_pe v c), v_pe := (v_pe v)(c := None), v_st := (v_st v)(c \<mapsto> Active)\<rparr>)"
    (is "co_inv ?v")
proof (rule co_invI)
  note D = co_invD [OF inv] and Q = queues_okD [OF co_invD(1) [OF inv]]
  have c: "v_st v c = Some Ready" using Q(4) [of c] q by simp
  have s: "v_stack v = []" using D(6) pc by blast
  then have na: "v_st v x \<noteq> Some Active" for x using Q(5) [of x] by simp
  show "queues_ok ?v" using Q(1,3,4) na q by (auto simp: queues_ok_def)
  have "final_at ?v x \<longleftrightarrow> final_at v x" for x using pe_drop [OF inv, of c x] pc by (auto simp: final_at_def simp del: fun_upd_apply)
  moreover have "v_st ?v x = Some Final \<longleftrightarrow> v_st v x = Some Final" for x using c by simp
  ultimately show "v_st ?v x = Some Final \<longleftrightarrow> final_at ?v x" for x using D(2) [of x] by simp
  show "pe_ok ?v p x" if "v_pe ?v p = Some x" for p x
    using D(3) [of p x] D(4) [of p x c] that by (auto simp: pe_ok_def split: if_splits)
  show "x \<notin> set (v_qc ?v)" if "v_pc ?v = In_resume (Some x)" for x using D(3) [of c x] that by (auto simp: pe_ok_def)
  show "aw_ok ?v p d" if "v_aw ?v p = Some d" for p d
  proof (cases "p = c")
    case True
    have "v_st v d = Some Final" if "v_pe v c = Some d" using D(2) [of d] that by (auto simp: final_at_def)
    then show ?thesis using D(7) [of c d] that c True by (auto simp: aw_ok_def)
  next
    case False
    then show ?thesis using D(7) [of p d] that c na by (auto simp: aw_ok_def)
  qed
  show "pv_ok ?v d p" if "v_pv ?v d = Some p" for p d using D(9) [of d p] that c by (auto simp: pv_ok_def)
  show "he_ok ?v x d" if "v_he ?v x = Some d" for x d using D(10) [of x d] that c na by (auto simp: he_ok_def)
  show "missing_ok ?v x" for x using D(12) [of x] c by (auto simp: missing_ok_def)
qed (use co_invD [OF inv] in \<open>auto split: if_splits\<close>)

lemma v_after_inv:
  assumes inv: "co_inv v" and pc: "v_pc v = In_resume p" and s: "v_stack v = []"
  shows "co_inv (v\<lparr>v_qc := v_qc v @ (case p of None \<Rightarrow> [] | Some d \<Rightarrow> [d]), v_pc := In_loop\<rparr>)" (is "co_inv ?v")
proof (rule co_invI)
  note D = co_invD [OF inv] and Q = queues_okD [OF co_invD(1) [OF inv]]
  show "queues_ok ?v" using Q D(5) pc by (auto simp: queues_ok_def split: option.splits)
  show "v_st ?v x = Some Final \<longleftrightarrow> final_at ?v x" for x using D(2) [of x] pc by (auto simp: final_at_def split: option.splits)
  show "pe_ok ?v q x" if "v_pe ?v q = Some x" for q x using D(3) [of q x] that pc by (auto simp: pe_ok_def split: option.splits)
  show "aw_ok ?v p d" if "v_aw ?v p = Some d" for p d using D(7) [of p d] that by (auto simp: aw_ok_def)
  show "pv_ok ?v d p" if "v_pv ?v d = Some p" for p d using D(9) [of d p] that by (auto simp: pv_ok_def)
  show "he_ok ?v x d" if "v_he ?v x = Some d" for x d using D(10) [of x d] that by (auto simp: he_ok_def)
  show "missing_ok ?v x" for x using D(12) [of x] by (auto simp: missing_ok_def)
qed (use co_invD [OF inv] s in \<open>auto split: if_splits\<close>)

lemma v_destroy_inv:
  assumes inv: "co_inv v" and pc: "v_pc v = In_loop" and qc: "v_qc v = c # qc"
  shows "co_inv (v\<lparr>v_qc := qc, v_st := (v_st v)(c := None), v_aw := (v_aw v)(c := None), v_pv := (v_pv v)(c := None), v_pe := (v_pe v)(c := None),
    v_he := (v_he v)(c := None), v_df := (v_df v)(c := None)\<rparr>)" (is "co_inv ?v")
proof (rule co_invI)
  note D = co_invD [OF inv] and Q = queues_okD [OF co_invD(1) [OF inv]]
  have c: "v_st v c = Some Final" using D(2) [of c] qc by (simp add: final_at_def)
  have "v_stack v = []" using D(6) pc by blast
  then have na: "v_st v x \<noteq> Some Active" for x using Q(5) [of x] by simp
  have pe: "v_pe v p \<noteq> Some c" for p using D(3) [of p c] qc by (auto simp: pe_ok_def)
  have pc0: "v_pe v c = None" using D(3) [of c] c by (cases "v_pe v c") (auto simp: pe_ok_def)
  show "queues_ok ?v" using Q c qc by (auto simp: queues_ok_def)
  have "final_at ?v x \<longleftrightarrow> final_at v x \<and> x \<noteq> c" for x
    using pe_drop [OF inv, of c x] pc pc0 pe qc Q(3) by (auto simp: final_at_def simp del: fun_upd_apply)
  then show "v_st ?v x = Some Final \<longleftrightarrow> final_at ?v x" for x using D(2) [of x] by simp
  show "pe_ok ?v p x" if "v_pe ?v p = Some x" for p x using D(3) [of p x] that qc c by (auto simp: pe_ok_def split: if_splits)
  show "aw_ok ?v p d" if "v_aw ?v p = Some d" for p d
    using D(7) [of p d] that na c pe by (auto simp: aw_ok_def split: if_splits)
  show "pv_ok ?v d p" if "v_pv ?v d = Some p" for p d using D(9) [of d p] that c by (auto simp: pv_ok_def split: if_splits)
  show "he_ok ?v x d" if "v_he ?v x = Some d" for x d using D(10) [of x d] that na by (auto simp: he_ok_def split: if_splits)
  show "missing_ok ?v x" for x using D(12) [of x] by (auto simp: missing_ok_def)
qed (use co_invD [OF inv] pc in \<open>auto split: if_splits\<close>)

lemma v_add_inv:
  assumes inv: "co_inv v" and l: "l = Ready \<and> q = v_q v @ [v_fresh v] \<and> st = v_stack v \<and> \<not> b \<or> l = Active \<and> q = v_q v \<and> st = v_fresh v # v_stack v \<and> v_stack v \<noteq> []"
  shows "co_inv (v\<lparr>v_q := q, v_stack := st, v_fresh := Suc (v_fresh v), v_st := (v_st v)(v_fresh v \<mapsto> l), v_df := (v_df v)(v_fresh v \<mapsto> b)\<rparr>)" (is "co_inv ?v")
proof (rule co_invI)
  note D = co_invD [OF inv] and Q = queues_okD [OF co_invD(1) [OF inv]]
  let ?d = "v_fresh v"
  have f: "v_st v ?d = None" using D(12) [of ?d] by (simp add: missing_ok_def)
  note E = v_exists [OF inv f]
  show "queues_ok ?v" using Q f l by (auto simp: queues_ok_def)
  have "\<not> final_at v ?d" using D(2) [of ?d] f by simp
  then show "v_st ?v x = Some Final \<longleftrightarrow> final_at ?v x" for x using D(2) [of x] l by (auto simp: final_at_def)
  show "pe_ok ?v p x" if "v_pe ?v p = Some x" for p x using D(3) [of p x] that f by (auto simp: pe_ok_def)
  show "v_stack ?v = []" if "v_pc ?v = In_loop" using D(6) l that by auto
  show "aw_ok ?v p d" if "v_aw ?v p = Some d" for p d using D(7) [of p d] that f E by (auto simp: aw_ok_def)
  show "pv_ok ?v d p" if "v_pv ?v d = Some p" for p d using D(9) [of d p] that f by (auto simp: pv_ok_def)
  show "he_ok ?v x d" if "v_he ?v x = Some d" for x d using D(10) [of x d] that f E by (auto simp: he_ok_def)
  show "missing_ok ?v x" for x using D(12) [of x] l by (auto simp: missing_ok_def)
qed (use co_invD [OF inv] v_exists [OF inv] assms(2) in \<open>auto split: if_splits\<close>)

lemma v_read_inv:
  assumes inv: "co_inv v" and c: "v_st v c = Some Active"
  shows "co_inv (v\<lparr>v_aw := (v_aw v)(c := None)\<rparr>)" (is "co_inv ?v")
proof (rule co_invI)
  note D = co_invD [OF inv]
  show "queues_ok ?v" using D(1) by (auto simp: queues_ok_def)
  show "v_st ?v x = Some Final \<longleftrightarrow> final_at ?v x" for x using D(2) [of x] by (auto simp: final_at_def)
  show "pe_ok ?v p x" if "v_pe ?v p = Some x" for p x using D(3) [of p x] that c by (auto simp: pe_ok_def)
  show "aw_ok ?v p d" if "v_aw ?v p = Some d" for p d using D(7) [of p d] that by (auto simp: aw_ok_def split: if_splits)
  show "pv_ok ?v d p" if "v_pv ?v d = Some p" for p d using D(9) [of d p] that c by (auto simp: pv_ok_def)
  show "he_ok ?v x d" if "v_he ?v x = Some d" for x d using D(10) [of x d] that by (auto simp: he_ok_def)
  show "missing_ok ?v x" for x using D(12) [of x] by (auto simp: missing_ok_def)
qed (use co_invD [OF inv] c in \<open>auto split: if_splits\<close>)

lemma v_hold_inv:
  assumes inv: "co_inv v" and c: "v_st v c = Some Active" "v_aw v c = None" "v_he v c = None"
    and d: "c \<noteq> d" "v_df v d = Some True" "v_pv v d = None" "\<And>x. v_he v x \<noteq> Some d"
  shows "co_inv (v\<lparr>v_he := (v_he v)(c \<mapsto> d)\<rparr>)" (is "co_inv ?v")
proof (rule co_invI)
  note D = co_invD [OF inv]
  show "queues_ok ?v" using D(1) by (auto simp: queues_ok_def)
  show "v_st ?v x = Some Final \<longleftrightarrow> final_at ?v x" for x using D(2) [of x] by (auto simp: final_at_def)
  show "pe_ok ?v p x" if "v_pe ?v p = Some x" for p x using D(3) [of p x] that c by (auto simp: pe_ok_def)
  show "aw_ok ?v p x" if "v_aw ?v p = Some x" for p x using D(7) [of p x] that by (auto simp: aw_ok_def)
  show "pv_ok ?v x p" if "v_pv ?v x = Some p" for p x using D(9) [of x p] that by (auto simp: pv_ok_def)
  show "he_ok ?v x y" if "v_he ?v x = Some y" for x y using D(10) [of x y] that c d by (auto simp: he_ok_def split: if_splits)
  show "missing_ok ?v x" for x using D(12) [of x] c by (auto simp: missing_ok_def)
qed (use co_invD [OF inv] d(4) in \<open>auto split: if_splits\<close>)

lemma v_ready_inv:
  assumes inv: "co_inv v" and c: "v_he v c = Some d" and d: "v_st v d = Some Final"
  shows "co_inv (v\<lparr>v_aw := (v_aw v)(c \<mapsto> d), v_he := (v_he v)(c := None)\<rparr>)" (is "co_inv ?v")
proof (rule co_invI)
  note D = co_invD [OF inv]
  have h: "v_st v c = Some Active" "v_aw v c = None" using D(10) [OF c] by (simp_all add: he_ok_def)
  show "queues_ok ?v" using D(1) by (auto simp: queues_ok_def)
  show "v_st ?v x = Some Final \<longleftrightarrow> final_at ?v x" for x using D(2) [of x] by (auto simp: final_at_def)
  show "pe_ok ?v p x" if "v_pe ?v p = Some x" for p x using D(3) [of p x] that h by (auto simp: pe_ok_def)
  show "aw_ok ?v p x" if "v_aw ?v p = Some x" for p x using D(7) [of p x] that h d by (auto simp: aw_ok_def split: if_splits)
  show "pv_ok ?v x p" if "v_pv ?v x = Some p" for p x using D(9) [of x p] that h by (auto simp: pv_ok_def)
  show "he_ok ?v x y" if "v_he ?v x = Some y" for x y using D(10) [of x y] that by (auto simp: he_ok_def split: if_splits)
  show "missing_ok ?v x" for x using D(12) [of x] h by (auto simp: missing_ok_def)
qed (use co_invD [OF inv] in \<open>auto split: if_splits\<close>)

lemma v_wait_inv:
  assumes inv: "co_inv v" and s: "v_stack v = c # cs" and c: "v_aw v c = None" "v_he v c = None"
  shows "co_inv (v\<lparr>v_stack := cs, v_st := (v_st v)(c \<mapsto> Waiting)\<rparr>)" (is "co_inv ?v")
proof (rule co_invI)
  note D = co_invD [OF inv] and Q = queues_okD [OF co_invD(1) [OF inv]]
  have a: "v_st v c = Some Active" using Q(5) [of c] s by simp
  show "queues_ok ?v" using Q a s by (auto simp: queues_ok_def)
  show "v_st ?v x = Some Final \<longleftrightarrow> final_at ?v x" for x using D(2) [of x] a by (auto simp: final_at_def)
  show "pe_ok ?v p x" if "v_pe ?v p = Some x" for p x using D(3) [of p x] that a by (auto simp: pe_ok_def)
  show "v_stack ?v = []" if "v_pc ?v = In_loop" using D(6) that s by simp
  show "aw_ok ?v p x" if "v_aw ?v p = Some x" for p x using D(7) [of p x] that a c by (auto simp: aw_ok_def)
  show "pv_ok ?v x p" if "v_pv ?v x = Some p" for p x using D(9) [of x p] that a by (auto simp: pv_ok_def)
  show "he_ok ?v x y" if "v_he ?v x = Some y" for x y using D(10) [of x y] that c by (auto simp: he_ok_def)
  show "missing_ok ?v x" for x using D(12) [of x] a by (auto simp: missing_ok_def)
qed (use co_invD [OF inv] in \<open>auto split: if_splits\<close>)

lemma top_stack:
  assumes "co_inv v" "v_stack v = c # cs"
  shows "v_st v c = Some Active" "distinct cs" "x \<in> set cs \<longleftrightarrow> v_st v x = Some Active \<and> x \<noteq> c"
  using queues_okD(2) [OF co_invD(1) [OF assms(1)]] queues_okD(5) [OF co_invD(1) [OF assms(1)]] assms(2) by auto

lemma v_await_inv:
  assumes inv: "co_inv v" and s: "v_stack v = c # cs" and c: "v_aw v c = None" "c \<noteq> d"
    and d: "v_st v d = Some Yielded \<and> v_pv v d = Some c \<and> v_he v c = None \<and>
        (l = Ready \<and> q = v_q v @ [d] \<and> k = cs \<or> l = Active \<and> q = v_q v \<and> k = d # cs) \<or>
      v_he v c = Some d \<and> v_st v d = Some l \<and> l \<noteq> Final \<and> q = v_q v \<and> k = cs"
  shows "co_inv (v\<lparr>v_q := q, v_stack := k, v_st := (v_st v)(c \<mapsto> Awaiting, d \<mapsto> l), v_aw := (v_aw v)(c \<mapsto> d), v_he := (v_he v)(c := None), v_pv := (v_pv v)(d \<mapsto> c)\<rparr>)"
    (is "co_inv ?v")
proof (rule co_invI)
  note D = co_invD [OF inv] and Q = queues_okD [OF co_invD(1) [OF inv]]
  have a: "v_st v c = Some Active" using Q(5) [of c] s by simp
  have h: "v_df v d = Some True" "v_pv v d = None" if "v_he v c = Some d" using D(10) [OF that] by (simp_all add: he_ok_def)
  have l: "l \<in> {Ready, Active, Waiting, Awaiting}" and dl: "v_st v d = Some l \<or> v_st v d = Some Yielded"
    using d h D(12) [of d] by (cases l; auto simp: missing_ok_def)+
  have fin: "v_st v d \<noteq> Some Final" using d by auto
  show "queues_ok ?v" using Q(1,3,4) top_stack [OF inv s] d c(2) by (auto simp: queues_ok_def)
  show "v_st ?v x = Some Final \<longleftrightarrow> final_at ?v x" for x using D(2) [of x] a fin l by (auto simp: final_at_def)
  show "pe_ok ?v p x" if "v_pe ?v p = Some x" for p x using D(3) [of p x] that a dl by (auto simp: pe_ok_def)
  show "v_stack ?v = []" if "v_pc ?v = In_loop" using D(6) that s by simp
  show "aw_ok ?v p x" if "v_aw ?v p = Some x" for p x
  proof (cases "p = c")
    case True
    then show ?thesis using that c l by (auto simp: aw_ok_def)
  next
    case False
    then have ok: "aw_ok v p x" using that D(7) [of p x] by simp
    have "v_pe v p \<noteq> Some d" using D(2) [of d] fin by (auto simp: final_at_def)
    moreover have "v_pv v d \<noteq> Some p" using d h(2) False by auto
    ultimately have "x \<noteq> d" using ok fin by (auto simp: aw_ok_def)
    moreover have "v_st ?v p = v_st v p" using ok False dl by (auto simp: aw_ok_def)
    ultimately show ?thesis using ok a by (cases "x = c") (auto simp: aw_ok_def)
  qed
  show "pv_ok ?v x p" if "v_pv ?v x = Some p" for p x using D(9) [of x p] that a c d by (auto simp: pv_ok_def split: if_splits)
  show "he_ok ?v x y" if "v_he ?v x = Some y" for x y
  proof -
    have "x \<noteq> c" "v_he v x = Some y" using that by (auto split: if_splits)
    moreover from this have "y \<noteq> d" using D(10) [of x y] D(11) [of x d c] d by (auto simp: he_ok_def)
    ultimately show ?thesis using D(10) [of x y] a d l by (auto simp: he_ok_def)
  qed
  show "missing_ok ?v x" for x using D(12) [of x] D(12) [of d] a d l by (auto simp: missing_ok_def)
qed (use co_invD [OF inv] d in \<open>auto split: if_splits\<close>)

text \<open>The running coroutine finishes, with no parent, or with a parent that it enters or queues.\<close>

lemma v_detach_inv:
  assumes inv: "co_inv v" and s: "v_stack v = c # cs" and c: "v_aw v c = None" "v_he v c = None" "v_pv v c = None"
    and l: "l = Final \<and> qc = v_qc v @ [c] \<or> l = Yielded \<and> qc = v_qc v \<and> v_df v c \<noteq> Some True"
  shows "co_inv (v\<lparr>v_qc := qc, v_stack := cs, v_st := (v_st v)(c \<mapsto> l)\<rparr>)" (is "co_inv ?v")
proof (rule co_invI)
  note D = co_invD [OF inv] and Q = queues_okD [OF co_invD(1) [OF inv]]
  note a = top_stack [OF inv s]
  have nf: "\<not> final_at v c" using D(2) [of c] a(1) by simp
  show "queues_ok ?v" using Q(1,3,4) a l nf by (auto simp: queues_ok_def final_at_def)
  show "v_st ?v x = Some Final \<longleftrightarrow> final_at ?v x" for x using D(2) [of x] nf l by (auto simp: final_at_def)
  show "pe_ok ?v p x" if "v_pe ?v p = Some x" for p x using D(3) [of p x] that a(1) nf l by (auto simp: pe_ok_def final_at_def)
  show "x \<notin> set (v_qc ?v)" if "v_pc ?v = In_resume (Some x)" for x using D(5) that nf l by (auto simp: final_at_def)
  show "v_stack ?v = []" if "v_pc ?v = In_loop" using D(6) that s by simp
  show "aw_ok ?v p x" if "v_aw ?v p = Some x" for p x using D(7) [of p x] that a(1) c by (auto simp: aw_ok_def)
  show "pv_ok ?v x p" if "v_pv ?v x = Some p" for p x using D(9) [of x p] that a(1) c by (auto simp: pv_ok_def)
  show "he_ok ?v x y" if "v_he ?v x = Some y" for x y using D(10) [of x y] that c by (auto simp: he_ok_def)
  show "missing_ok ?v x" for x using D(12) [of x] a(1) l by (auto simp: missing_ok_def)
qed (use co_invD [OF inv] assms(6) in \<open>auto split: if_splits\<close>)

lemma parent_waits:
  assumes inv: "co_inv v" and s: "v_stack v = c # cs" and p: "v_pv v c = Some p"
  shows "v_st v p = Some Awaiting" "v_aw v p = Some c" "p \<noteq> c"
  using co_invD(9) [OF inv p] top_stack(1) [OF inv s] by (auto simp: pv_ok_def)

lemma v_finish_inv:
  assumes inv: "co_inv v" and s: "v_stack v = c # cs" and c: "v_aw v c = None" "v_he v c = None" and p: "v_pv v c = Some p"
    and l: "l = Ready \<and> q = v_q v @ [p] \<and> qc = v_qc v \<and> k = cs \<and> pe = (v_pe v)(p \<mapsto> c) \<or> l = Active \<and> q = v_q v \<and> qc = v_qc v @ [c] \<and> k = p # cs \<and> pe = v_pe v"
  shows "co_inv (v\<lparr>v_q := q, v_qc := qc, v_stack := k, v_st := (v_st v)(c \<mapsto> Final, p \<mapsto> l), v_pv := (v_pv v)(c := None), v_pe := pe\<rparr>)" (is "co_inv ?v")
proof (rule co_invI)
  note D = co_invD [OF inv] and Q = queues_okD [OF co_invD(1) [OF inv]]
  note a = top_stack [OF inv s] and w = parent_waits [OF inv s p]
  have nf: "\<not> final_at v c" "\<not> final_at v p" using D(2) [of c] D(2) [of p] a(1) w(1) by simp_all
  have pp: "v_pe v p = None" using D(3) [of p] w(1) by (cases "v_pe v p") (auto simp: pe_ok_def)
  have pc: "v_pe v c = None" using D(3) [of c] a(1) by (cases "v_pe v c") (auto simp: pe_ok_def)
  have ac: "v_pv v x = Some p \<Longrightarrow> x = c \<or> v_st v x = Some Yielded" for x using D(9) [of x p] w(2) by (auto simp: pv_ok_def)
  show "queues_ok ?v" using Q(1,3,4) a w l nf by (auto simp: queues_ok_def final_at_def)
  have "(\<exists>y. pe y = Some x) \<longleftrightarrow> (\<exists>y. v_pe v y = Some x) \<or> l = Ready \<and> x = c" for x using l pp by (cases "l = Ready") (auto split: if_splits intro: exI [of _ p], metis option.distinct(1))
  then have "final_at ?v x \<longleftrightarrow> final_at v x \<or> x = c" for x using l by (auto simp: final_at_def)
  then show "v_st ?v x = Some Final \<longleftrightarrow> final_at ?v x" for x using D(2) [of x] nf l w by auto
  show "pe_ok ?v y x" if "v_pe ?v y = Some x" for y x using D(3) [of y x] that a(1) nf l w pc by (auto simp: pe_ok_def final_at_def split: if_splits)
  show "x \<notin> set (v_qc ?v)" if "v_pc ?v = In_resume (Some x)" for x using D(5) that nf l by (auto simp: final_at_def)
  show "y = y'" if "v_pe ?v y = Some x" "v_pe ?v y' = Some x" for y y' x
    using that D(4) [of y x y'] nf(1) l pp by (auto simp: final_at_def split: if_splits)
  show "v_stack ?v = []" if "v_pc ?v = In_loop" using D(6) that s by simp
  show "aw_ok ?v y x" if "v_aw ?v y = Some x" for y x
  proof (cases "y = p")
    case True
    then show ?thesis using that w l by (auto simp: aw_ok_def)
  next
    case False
    then show ?thesis using D(7) [of y x] that a(1) c w p l by (auto simp: aw_ok_def)
  qed
  show "pv_ok ?v x y" if "v_pv ?v x = Some y" for y x using D(9) [of x y] that a(1) w ac by (auto simp: pv_ok_def split: if_splits)
  show "he_ok ?v x y" if "v_he ?v x = Some y" for x y using D(10) [of x y] that c w by (auto simp: he_ok_def split: if_splits)
  show "missing_ok ?v x" for x using D(12) [of x] a(1) w l by (auto simp: missing_ok_def split: if_splits)
qed (use co_invD [OF inv] parent_waits [OF inv s p] assms(6) in \<open>auto split: if_splits\<close>)

lemma v_yield_inv:
  assumes inv: "co_inv v" and s: "v_stack v = c # cs" and c: "v_aw v c = None" "v_he v c = None" "v_df v c \<noteq> Some True" and p: "v_pv v c = Some p"
    and l: "l = Ready \<and> q = v_q v @ [p] \<and> k = cs \<or> l = Active \<and> q = v_q v \<and> k = p # cs"
  shows "co_inv (v\<lparr>v_q := q, v_stack := k, v_st := (v_st v)(c \<mapsto> Yielded, p \<mapsto> l)\<rparr>)" (is "co_inv ?v")
proof (rule co_invI)
  note D = co_invD [OF inv] and Q = queues_okD [OF co_invD(1) [OF inv]]
  note a = top_stack [OF inv s] and w = parent_waits [OF inv s p]
  have nf: "\<not> final_at v c" "\<not> final_at v p" using D(2) [of c] D(2) [of p] a(1) w(1) by simp_all
  have ac: "v_pv v x = Some p \<Longrightarrow> x = c \<or> v_st v x = Some Yielded" for x using D(9) [of x p] w(2) by (auto simp: pv_ok_def)
  show "queues_ok ?v" using Q(1,3,4) a w l by (auto simp: queues_ok_def)
  show "v_st ?v x = Some Final \<longleftrightarrow> final_at ?v x" for x using D(2) [of x] nf l by (auto simp: final_at_def)
  show "pe_ok ?v y x" if "v_pe ?v y = Some x" for y x using D(3) [of y x] that a(1) w by (auto simp: pe_ok_def)
  show "v_stack ?v = []" if "v_pc ?v = In_loop" using D(6) that s by simp
  show "aw_ok ?v y x" if "v_aw ?v y = Some x" for y x
  proof (cases "y = p")
    case True
    then show ?thesis using that w l p by (auto simp: aw_ok_def)
  next
    case False
    then show ?thesis using D(7) [of y x] that a(1) c w p l by (auto simp: aw_ok_def)
  qed
  show "pv_ok ?v x y" if "v_pv ?v x = Some y" for y x using D(9) [of x y] that a(1) w ac by (auto simp: pv_ok_def)
  show "he_ok ?v x y" if "v_he ?v x = Some y" for x y using D(10) [of x y] that c w by (auto simp: he_ok_def)
  show "missing_ok ?v x" for x using D(12) [of x] a(1) w l c by (auto simp: missing_ok_def)
qed (use co_invD [OF inv] parent_waits [OF inv s p] assms(7) in \<open>auto split: if_splits\<close>)

text \<open>A new lazy child, before it is entered.\<close>

lemma v_child_inv:
  assumes inv: "co_inv v"
  shows "co_inv (v\<lparr>v_fresh := Suc (v_fresh v), v_st := (v_st v)(v_fresh v \<mapsto> Yielded), v_df := (v_df v)(v_fresh v \<mapsto> False), v_pv := (v_pv v)(v_fresh v \<mapsto> c)\<rparr>)"
    (is "co_inv ?v")
proof (rule co_invI)
  note D = co_invD [OF inv] and Q = queues_okD [OF co_invD(1) [OF inv]]
  let ?d = "v_fresh v"
  have f: "v_st v ?d = None" using D(12) [of ?d] by (simp add: missing_ok_def)
  note E = v_exists [OF inv f]
  show "queues_ok ?v" using Q f by (auto simp: queues_ok_def)
  have "\<not> final_at v ?d" using D(2) [of ?d] f by simp
  then show "v_st ?v x = Some Final \<longleftrightarrow> final_at ?v x" for x using D(2) [of x] by (auto simp: final_at_def)
  show "pe_ok ?v p x" if "v_pe ?v p = Some x" for p x using D(3) [of p x] that f by (auto simp: pe_ok_def)
  show "aw_ok ?v p d" if "v_aw ?v p = Some d" for p d
  proof -
    have "v_st v d \<noteq> None" using D(7) [of p d] D(2) [of d] that by (auto simp: aw_ok_def final_at_def)
    then have "d \<noteq> ?d" using f by auto
    then show ?thesis using D(7) [of p d] that f by (auto simp: aw_ok_def)
  qed
  show "pv_ok ?v d p" if "v_pv ?v d = Some p" for p d using D(9) [of d p] that f by (auto simp: pv_ok_def split: if_splits)
  show "he_ok ?v x d" if "v_he ?v x = Some d" for x d using D(10) [of x d] that f E by (auto simp: he_ok_def)
  show "missing_ok ?v x" for x using D(12) [of x] by (auto simp: missing_ok_def)
qed (use co_invD [OF inv] v_exists [OF inv] in \<open>auto split: if_splits\<close>)

section \<open>No step faults\<close>

lemma co_frames_status: "v_st (view s) c = Some l \<Longrightarrow> \<exists>fr. co_frames s c = Some fr \<and> f_status fr = l"
  by auto

lemma fresh_missing: "co_inv (view s) \<Longrightarrow> co_frames s (co_fresh s) = None"
  using co_invD(12) [of "view s" "co_fresh s"] by (simp add: missing_ok_def)

lemma v_go_eq: "v_go deep d (v_link c d v) = v\<lparr>v_q := (if deep then v_q v @ [d] else v_q v), v_stack := (if deep then tl (v_stack v) else d # tl (v_stack v)),
    v_st := (v_st v)(c \<mapsto> Awaiting, d \<mapsto> (if deep then Ready else Active)), v_aw := (v_aw v)(c \<mapsto> d), v_he := (v_he v)(c := drop_handle d (v_he v c)), v_pv := (v_pv v)(d \<mapsto> c)\<rparr>"
  by (simp add: v_go_def v_queue_def v_enter_def v_link_def)

lemma again_step:
  assumes inv: "co_inv (view s)" and s: "co_stack s = c # cs" and c: "co_frames s c = Some fr" "f_await fr = None" "f_held fr = None"
    and d: "co_frames s d = Some fd" "f_status fd = Yielded" "f_prev fd = Some c"
  shows "\<exists>s'. co_await c d deep s = Some s' \<and> co_inv (view s')"
proof -
  have a: "f_status fr = Active" using top_stack(1) [OF inv] s c(1) by simp
  then have ne: "c \<noteq> d" using c(1) d(1,2) by auto
  have nd: "\<not> f_deferred fd" using co_invD(12) [OF inv, of d] d by (simp add: missing_ok_def)
  obtain s' where s': "await_suspend c d deep s = Some s'" "view s' = v_go deep d (v_link c d (view s))"
    using await_suspend_view [OF c(1) d(1) ne, of deep] d(2) nd by auto
  have "co_inv (v_go deep d (v_link c d (view s)))" unfolding v_go_eq
    using v_await_inv [OF inv _ _ ne, of cs] s c d by (simp add: drop_handle_def)
  then show ?thesis using s' d(1,2) by (simp add: co_await_def)
qed

lemma call_step:
  assumes inv: "co_inv (view s)" and s: "co_stack s = c # cs" and c: "co_frames s c = Some fr" "f_await fr = None" "f_held fr = None"
  shows "\<exists>s'. call_lazy c deep s = Some s' \<and> co_inv (view s')"
proof -
  let ?d = "co_fresh s" and ?s = "add_frame False Created s"
  have f: "co_frames s ?d = None" by (rule fresh_missing [OF inv])
  then have ne: "c \<noteq> ?d" using c(1) by auto
  have F: "co_frames ?s c = Some fr" "co_frames ?s ?d = Some (new_frame False Created)" using c(1) ne by (auto simp: add_frame_def)
  obtain s' where s': "await_suspend c ?d deep ?s = Some s'" "view s' = v_go deep ?d (v_link c ?d (view ?s))"
    using await_suspend_view [OF F ne, of deep] by (auto simp: new_frame_def)
  define w where "w = (view s)\<lparr>v_fresh := Suc ?d, v_st := (v_st (view s))(?d \<mapsto> Yielded), v_df := (v_df (view s))(?d \<mapsto> False), v_pv := (v_pv (view s))(?d \<mapsto> c)\<rparr>"
  have w: "co_inv w" using v_child_inv [OF inv, of c] by (simp add: w_def)
  have "v_go deep ?d (v_link c ?d (view ?s)) = v_go deep ?d (v_link c ?d w)"
    unfolding v_go_eq add_frame_view [OF f] w_def by (rule view_eqI) (use ne in \<open>auto\<close>)
  moreover have "co_inv (v_go deep ?d (v_link c ?d w))" unfolding v_go_eq
    using v_await_inv [OF w _ _ ne, of cs] s c ne by (simp add: drop_handle_def w_def)
  ultimately show ?thesis using s' F(2) by (simp add: call_lazy_def co_await_def new_frame_def)
qed

lemma held_step:
  assumes inv: "co_inv (view s)" and s: "co_stack s = c # cs" and c: "co_frames s c = Some fr" "f_await fr = None" "f_held fr = Some d"
  shows "\<exists>s'. co_await c d deep s = Some s' \<and> co_inv (view s')"
proof -
  have h: "he_ok (view s) c d" using co_invD(10) [OF inv, of c d] c by simp
  then obtain fd where fd: "co_frames s d = Some fd" "f_deferred fd" and ne: "c \<noteq> d" by (auto simp: he_ok_def)
  show ?thesis
  proof (cases "f_status fd = Final")
    case True
    have "\<exists>s'. co_await c d deep s = Some s' \<and> view s' = (view s)\<lparr>v_aw := (v_aw (view s))(c \<mapsto> d), v_he := (v_he (view s))(c := None)\<rparr>"
      using c fd(1) True ne by (auto simp: co_await_def frame_upd_def drop_handle_def intro!: view_eqI)
    moreover have "co_inv ((view s)\<lparr>v_aw := (v_aw (view s))(c \<mapsto> d), v_he := (v_he (view s))(c := None)\<rparr>)"
      by (rule v_ready_inv [OF inv]) (use c fd(1) True in simp_all)
    ultimately show ?thesis by auto
  next
    case False
    obtain s' where s': "await_suspend c d deep s = Some s'" "view s' = (v_link c d (view s))\<lparr>v_stack := cs\<rparr>"
      using await_suspend_view [OF c(1) fd(1) ne False, of deep] fd(2) s by auto
    have "(v_link c d (view s))\<lparr>v_stack := cs\<rparr> = (view s)\<lparr>v_q := co_q s, v_stack := cs, v_st := (v_st (view s))(c \<mapsto> Awaiting, d \<mapsto> f_status fd),
      v_aw := (v_aw (view s))(c \<mapsto> d), v_he := (v_he (view s))(c := None), v_pv := (v_pv (view s))(d \<mapsto> c)\<rparr>"
      by (rule view_eqI) (use c fd ne in \<open>auto simp: v_link_def drop_handle_def\<close>)
    moreover have "co_inv \<dots>" by (rule v_await_inv [OF inv _ _ ne]) (use s c fd False in auto)
    ultimately show ?thesis using s' fd(1) False by (simp add: co_await_def)
  qed
qed

lemma start_step:
  assumes inv: "co_inv (view s)" and s: "co_stack s = c # cs" and c: "co_frames s c = Some fr" "f_await fr = None" "f_held fr = None"
  shows "\<exists>s'. start_deferred c s = Some s' \<and> co_inv (view s')"
proof -
  let ?d = "co_fresh s" and ?v = "view s"
  have f: "co_frames s ?d = None" by (rule fresh_missing [OF inv])
  then have ne: "c \<noteq> ?d" using c(1) by auto
  define w where "w = ?v\<lparr>v_q := v_q ?v, v_stack := ?d # co_stack s, v_fresh := Suc ?d, v_st := (v_st ?v)(?d \<mapsto> Active), v_df := (v_df ?v)(?d \<mapsto> True)\<rparr>"
  have w: "co_inv w" using v_add_inv [OF inv, of Active _ _ True] s unfolding w_def by simp
  have a: "f_status fr = Active" using top_stack(1) [OF inv] s c(1) by simp
  have "v_he ?v x \<noteq> Some ?d" for x using co_invD(10) [OF inv, of x ?d] f by (auto simp: he_ok_def)
  then have "co_inv (w\<lparr>v_he := (v_he w)(c \<mapsto> ?d)\<rparr>)" using v_hold_inv [OF w, of c ?d] c a ne f by (simp add: w_def)
  moreover have "w\<lparr>v_he := (v_he w)(c \<mapsto> ?d)\<rparr> = ?v\<lparr>v_stack := ?d # co_stack s, v_fresh := Suc ?d, v_st := (v_st ?v)(?d \<mapsto> Active),
    v_he := (v_he ?v)(c \<mapsto> ?d), v_df := (v_df ?v)(?d \<mapsto> True)\<rparr>" by (simp add: w_def)
  ultimately show ?thesis using other_views(5) [OF c(1) f] by auto
qed

lemma parent_exists:
  assumes "co_inv (view s)" "co_stack s = c # cs" "co_frames s c = Some fr" "f_prev fr = Some p"
  shows "p \<noteq> c \<and> co_frames s p \<noteq> None"
  using parent_waits [OF assms(1), of c cs p] assms(2-4) by auto

lemma finish_step:
  assumes inv: "co_inv (view s)" and s: "co_stack s = c # cs" and c: "co_frames s c = Some fr" "f_await fr = None" "f_held fr = None"
  shows "\<exists>s'. final_transfer c deep s = Some s' \<and> co_inv (view s')"
proof -
  obtain s' where s': "final_transfer c deep s = Some s'" "view s' = (let v = (view s)\<lparr>v_st := (v_st (view s))(c \<mapsto> Final), v_pv := (v_pv (view s))(c := None)\<rparr> in
      case f_prev fr of None \<Rightarrow> v\<lparr>v_qc := co_qc s @ [c], v_stack := tl (co_stack s)\<rparr>
      | Some p \<Rightarrow> if deep then v_queue p (v\<lparr>v_pe := (v_pe (view s))(p \<mapsto> c)\<rparr>) else v_enter p (v\<lparr>v_qc := co_qc s @ [c]\<rparr>))"
    using final_transfer_view [OF c(1) parent_exists [OF inv s c(1)], of deep] by blast
  have "co_inv (view s')"
  proof (cases "f_prev fr")
    case None
    have "view s' = (view s)\<lparr>v_qc := co_qc s @ [c], v_stack := cs, v_st := (v_st (view s))(c \<mapsto> Final)\<rparr>"
      unfolding s'(2) by (rule view_eqI) (use None s c(1) in \<open>simp_all add: Let_def\<close>)
    moreover have "co_inv \<dots>" by (rule v_detach_inv [OF inv]) (use None s c in auto)
    ultimately show ?thesis by simp
  next
    case (Some p)
    define l where "l = (if deep then Ready else Active)"
    have "view s' = (view s)\<lparr>v_q := (if deep then co_q s @ [p] else co_q s), v_qc := (if deep then co_qc s else co_qc s @ [c]), v_stack := (if deep then cs else p # cs),
      v_st := (v_st (view s))(c \<mapsto> Final, p \<mapsto> l), v_pv := (v_pv (view s))(c := None), v_pe := (if deep then (v_pe (view s))(p \<mapsto> c) else v_pe (view s))\<rparr>"
      unfolding s'(2) l_def by (rule view_eqI) (use Some s in \<open>simp_all add: Let_def v_queue_def v_enter_def\<close>)
    moreover have "co_inv \<dots>" by (rule v_finish_inv [OF inv]) (use Some s c in \<open>auto simp: l_def\<close>)
    ultimately show ?thesis by simp
  qed
  then show ?thesis using s'(1) by blast
qed

lemma yield_step:
  assumes inv: "co_inv (view s)" and s: "co_stack s = c # cs" and c: "co_frames s c = Some fr" "f_await fr = None" "f_held fr = None" "\<not> f_deferred fr"
  shows "\<exists>s'. yield_transfer c deep s = Some s' \<and> co_inv (view s')"
proof -
  obtain s' where s': "yield_transfer c deep s = Some s'" "view s' = (let v = (view s)\<lparr>v_st := (v_st (view s))(c \<mapsto> Yielded)\<rparr> in
      case f_prev fr of None \<Rightarrow> v\<lparr>v_stack := tl (co_stack s)\<rparr> | Some p \<Rightarrow> v_go deep p v)"
    using yield_transfer_view [OF c(1) parent_exists [OF inv s c(1)], of deep] by blast
  have "co_inv (view s')"
  proof (cases "f_prev fr")
    case None
    have "view s' = (view s)\<lparr>v_qc := co_qc s, v_stack := cs, v_st := (v_st (view s))(c \<mapsto> Yielded)\<rparr>"
      unfolding s'(2) by (rule view_eqI) (use None s c(1) in \<open>simp_all add: Let_def\<close>)
    moreover have "co_inv \<dots>" by (rule v_detach_inv [OF inv]) (use None s c in auto)
    ultimately show ?thesis by simp
  next
    case (Some p)
    define l where "l = (if deep then Ready else Active)"
    have "view s' = (view s)\<lparr>v_q := (if deep then co_q s @ [p] else co_q s), v_stack := (if deep then cs else p # cs), v_st := (v_st (view s))(c \<mapsto> Yielded, p \<mapsto> l)\<rparr>"
      unfolding s'(2) l_def by (rule view_eqI) (use Some s in \<open>simp_all add: Let_def v_go_def v_queue_def v_enter_def\<close>)
    moreover have "co_inv \<dots>" by (rule v_yield_inv [OF inv]) (use Some s c in \<open>auto simp: l_def\<close>)
    ultimately show ?thesis by simp
  qed
  then show ?thesis using s'(1) by blast
qed

lemma co_step_inv:
  assumes inv: "co_inv (view s)" and step: "co_step False s r"
  shows "\<exists>s'. r = Some s' \<and> co_inv (view s')"
  using step
proof cases
  case (st_resume c q)
  have "v_st (view s) c = Some Ready" using queues_okD(4) [OF co_invD(1) [OF inv], of c] st_resume by simp
  then obtain fr where "co_frames s c = Some fr" "f_status fr = Ready" by auto
  then show ?thesis using loop_resume_view [of s c fr q] v_resume_inv [OF inv] st_resume by auto
next
  case (st_after p)
  then show ?thesis using v_after_inv [OF inv, of p] other_views(1) [of p s] by simp
next
  case (st_destroy c qc)
  have "v_st (view s) c = Some Final" using co_invD(2) [OF inv, of c] st_destroy by (simp add: final_at_def)
  then obtain fr where "co_frames s c = Some fr" by auto
  then show ?thesis using other_views(2) [of s c fr qc] v_destroy_inv [OF inv] st_destroy by auto
next
  case (st_event c fr)
  then show ?thesis using other_views(3) [of s c fr] v_event_inv [OF inv, of c] by auto
next
  case st_spawn
  have "view (spawn_task s) = (view s)\<lparr>v_q := co_q s @ [co_fresh s], v_stack := v_stack (view s), v_fresh := Suc (co_fresh s),
    v_st := (v_st (view s))(co_fresh s \<mapsto> Ready), v_df := (v_df (view s))(co_fresh s \<mapsto> False)\<rparr>"
    unfolding other_views(6) [OF fresh_missing [OF inv]] by (rule view_eqI) simp_all
  then show ?thesis using v_add_inv [OF inv, of Ready _ _ False] st_spawn by simp
next
  case (st_gone c cs)
  then show ?thesis using top_stack(1) [OF inv, of c cs] by simp
next
  case (st_read c cs fr d)
  have "aw_ok (view s) c d" and a: "v_st (view s) c = Some Active"
    using co_invD(7) [OF inv, of c d] top_stack(1) [OF inv, of c cs] st_read by simp_all
  then obtain fd where "co_frames s d = Some fd" by (auto simp: aw_ok_def)
  then show ?thesis using other_views(4) [of s c fr d fd] v_read_inv [OF inv a] st_read by auto
next
  case (st_await_held c cs fr d deep)
  then show ?thesis using held_step [OF inv] by blast
next
  case (st_call c cs fr deep)
  then show ?thesis using call_step [OF inv] by blast
next
  case (st_start c cs fr)
  then show ?thesis using start_step [OF inv] by blast
next
  case (st_wait c cs fr)
  then show ?thesis using other_views(7) [of s c fr] v_wait_inv [OF inv, of c cs] by auto
next
  case (st_yield c cs fr deep)
  then show ?thesis using yield_step [OF inv] by blast
next
  case (st_again c cs fr d fd deep)
  then show ?thesis using again_step [OF inv] by blast
next
  case (st_finish c cs fr deep)
  then show ?thesis using finish_step [OF inv] by blast
qed

interpretation co: inv_system "\<lambda>s. s = co_init" "co_run False" "\<lambda>s. co_inv (view s)"
proof
  show "co_inv (view s)" if "s = co_init" for s
    unfolding that by (rule co_invI) (auto simp: queues_ok_def final_at_def missing_ok_def co_init_def)
  show "co_inv (view s')" if "co_inv (view s)" "co_run False s s'" for s s'
    using co_step_inv [OF that(1)] that(2) by (auto simp: co_run_def)
qed

section \<open>Properties\<close>

text \<open>C31. The life of coroutine frames on a worker whose coroutines await a started I/O child at once: no step touches a
  destroyed frame (nothing is resumed, read, linked or destroyed after its destruction); the destroy queue holds finished frames, each once, and
  the loop never destroys a frame whose result somebody is still going to read; a frame suspended on a child is linked from that child, which has not
  finished; and when the queues of the worker are empty no finished frame is left behind.\<close>

theorem coroutine_frames_safe:
  assumes "reach (\<lambda>s. s = co_init) (co_run False) s"
  shows "(\<forall>r. co_step False s r \<longrightarrow> r \<noteq> None) \<and>
    distinct (co_qc s) \<and> (\<forall>c. c \<in> set (co_qc s) \<longrightarrow> (\<exists>fr. co_frames s c = Some fr \<and> f_status fr = Final)) \<and>
    (\<forall>c p fr. co_pc s = In_loop \<and> c \<in> set (co_qc s) \<and> co_frames s p = Some fr \<longrightarrow> f_await fr \<noteq> Some c) \<and>
    (\<forall>p fr. co_frames s p = Some fr \<and> f_status fr = Awaiting \<longrightarrow>
       (\<exists>d fd. f_await fr = Some d \<and> co_frames s d = Some fd \<and> f_prev fd = Some p \<and> f_status fd \<noteq> Final \<and> f_status fd \<noteq> Yielded)) \<and>
    (\<forall>c fr. co_pc s = In_loop \<and> co_q s = [] \<and> co_qc s = [] \<and> co_frames s c = Some fr \<longrightarrow> f_status fr \<in> {Waiting, Awaiting, Yielded})"
proof -
  have inv: "co_inv (view s)" using co.reach_inv [OF assms] .
  note D = co_invD [OF inv] and Q = queues_okD [OF co_invD(1) [OF inv]]
  have "r \<noteq> None" if "co_step False s r" for r using co_step_inv [OF inv that] by auto
  moreover have "distinct (co_qc s)" using Q(3) by simp
  moreover have F: "\<exists>fr. co_frames s c = Some fr \<and> f_status fr = Final" if "c \<in> set (co_qc s)" for c
    using D(2) [of c] that by (auto simp: final_at_def)
  moreover have "f_await fr \<noteq> Some c" if l: "co_pc s = In_loop" "c \<in> set (co_qc s)" "co_frames s p = Some fr" for c p fr
  proof
    assume w: "f_await fr = Some c"
    obtain fc where fc: "co_frames s c = Some fc" "f_status fc = Final" using F [OF l(2)] by blast
    have "f_status fr \<noteq> Active" using D(6) l(1,3) Q(5) [of p] by auto
    then have "f_pending fr = Some c" using D(7) [of p c] w l(3) fc by (auto simp: aw_ok_def)
    then show False using D(3) [of p c] l by (auto simp: pe_ok_def)
  qed
  moreover have "\<exists>d fd. f_await fr = Some d \<and> co_frames s d = Some fd \<and> f_prev fd = Some p \<and> f_status fd \<noteq> Final \<and> f_status fd \<noteq> Yielded"
    if w: "co_frames s p = Some fr" "f_status fr = Awaiting" for p fr
  proof -
    obtain d where d: "f_await fr = Some d" using D(8) [of p] w by auto
    then have "aw_ok (view s) p d" using D(7) [of p d] w by simp
    then show ?thesis using d w by (auto simp: aw_ok_def)
  qed
  moreover have "f_status fr \<in> {Waiting, Awaiting, Yielded}" if e: "co_pc s = In_loop" "co_q s = []" "co_qc s = []" "co_frames s c = Some fr" for c fr
  proof -
    have "f_status fr \<noteq> Ready" using Q(4) [of c] e by auto
    moreover have "f_status fr \<noteq> Active" using Q(5) [of c] D(6) e by auto
    moreover have "f_status fr \<noteq> Final" using D(2) [of c] D(3) Q(4) e by (auto simp: final_at_def pe_ok_def)
    moreover have "f_status fr \<noteq> Created" using D(12) [of c] e by (auto simp: missing_ok_def)
    ultimately show ?thesis by (cases "f_status fr") auto
  qed
  ultimately show ?thesis by blast
qed

section \<open>Concrete runs\<close>

text \<open>States with at most two frames.\<close>

definition two_frames :: "co_frame option \<Rightarrow> co_frame option \<Rightarrow> nat list \<Rightarrow> nat list \<Rightarrow> nat list \<Rightarrow> co_loop \<Rightarrow> nat \<Rightarrow> co_sys" where
  "two_frames f g q qc st pc n = \<lparr>co_frames = (\<lambda>c. if c = 0 then f else if c = 1 then g else None), co_q = q, co_qc = qc, co_stack = st, co_pc = pc, co_fresh = n\<rparr>"

abbreviation co_reach :: "bool \<Rightarrow> co_sys \<Rightarrow> bool" where
  "co_reach late \<equiv> reach (\<lambda>s. s = co_init) (co_run late)"

lemma co_go: "co_reach late s \<Longrightarrow> co_step late s r \<Longrightarrow> r = Some s' \<Longrightarrow> co_reach late s'"
  using reach_step [of _ "co_run late"] by (simp add: co_run_def)

abbreviation cfr :: "nat option \<Rightarrow> co_status \<Rightarrow> bool \<Rightarrow> nat option \<Rightarrow> nat option \<Rightarrow> co_frame" where
  "cfr p l b a h \<equiv> \<lparr>f_prev = p, f_next = None, f_pending = None, f_status = l, f_deferred = b, f_await = a, f_held = h\<rparr>"

lemmas run_defs = two_frames_def frame_upd_def add_frame_def new_frame_def co_leave_def co_transfer_def push_task_queue_def push_destroy_def drop_handle_def
  loop_resume_def after_resume_def loop_destroy_def await_suspend_def co_await_def await_resume_def call_lazy_def start_deferred_def spawn_task_def wait_event_def final_transfer_def Let_def fun_eq_iff

lemma root_running: "co_reach late (two_frames (Some (cfr None Active False None None)) None [] [] [0] (In_resume None) 1)"
proof -
  have "co_reach late co_init" by (rule reach_init) simp
  then have "co_reach late (two_frames (Some (cfr None Ready False None None)) None [0] [] [] In_loop 1)"
    by (rule co_go [OF _ st_spawn]) (simp add: run_defs co_init_def)
  then show ?thesis by (rule co_go [OF _ st_resume [of _ 0 "[]"]]) (auto simp: run_defs)
qed

theorem coroutine_frames_safe_witness:
  "\<exists>s fr. co_reach False s \<and> co_qc s = [1] \<and> co_frames s 0 = Some fr \<and> f_await fr = Some 1 \<and> (\<forall>r. co_step False s r \<longrightarrow> r \<noteq> None)"
proof -
  let ?s = "two_frames (Some (cfr None Active False (Some 1) None)) (Some (cfr None Final False None None)) [] [1] [0] (In_resume None) 2"
  let ?t = "two_frames (Some (cfr None Awaiting False (Some 1) None\<lparr>f_next := Some 1\<rparr>)) (Some (cfr (Some 0) Active False None None)) [] [] [1] (In_resume None) 2"
  have "co_reach False ?t" by (rule co_go [OF root_running st_call [where deep = False and c = 0]]) (auto simp: run_defs)
  then have r: "co_reach False ?s" by (rule co_go [OF _ st_finish [where deep = False and c = 1]]) (auto simp: run_defs)
  moreover have "\<forall>r. co_step False ?s r \<longrightarrow> r \<noteq> None" using coroutine_frames_safe [OF r] by blast
  moreover have "co_qc ?s = [1]" "co_frames ?s 0 = Some (cfr None Active False (Some 1) None)" by (simp_all add: two_frames_def)
  moreover have "f_await (cfr None Active False (Some 1) None) = Some 1" by simp
  ultimately show ?thesis by blast
qed

text \<open>A coroutine that starts an I/O child, waits for something else and only then awaits the child touches a destroyed
  frame when the child has finished meanwhile: without a parent the child goes to the destroy queue.\<close>

theorem late_await_faults: "\<exists>s. co_reach True s \<and> co_step True s None"
proof -
  let ?R = "co_reach True"
  let ?f = "\<lambda>l. Some (cfr None l False None (Some 1))" and ?g = "\<lambda>l. Some (cfr None l True None None)"
  let ?s = "two_frames (?f Active) None [] [] [0] (In_resume None) 2"
  have "?R (two_frames (?f Active) (?g Active) [] [] [1, 0] (In_resume None) 2)"
    by (rule co_go [OF root_running st_start [where c = 0]]) (auto simp: run_defs)
  then have "?R (two_frames (?f Active) (?g Waiting) [] [] [0] (In_resume None) 2)"
    by (rule co_go [OF _ st_wait [where c = 1]]) (auto simp: run_defs)
  then have "?R (two_frames (?f Waiting) (?g Waiting) [] [] [] (In_resume None) 2)"
    by (rule co_go [OF _ st_wait [where c = 0]]) (auto simp: run_defs)
  then have "?R (two_frames (?f Waiting) (?g Waiting) [] [] [] In_loop 2)"
    by (rule co_go [OF _ st_after]) (auto simp: run_defs)
  then have "?R (two_frames (?f Waiting) (?g Ready) [1] [] [] In_loop 2)"
    by (rule co_go [OF _ st_event [where c = 1]]) (auto simp: run_defs)
  then have "?R (two_frames (?f Waiting) (?g Active) [] [] [1] (In_resume None) 2)"
    by (rule co_go [OF _ st_resume [of _ 1 "[]"]]) (auto simp: run_defs)
  then have "?R (two_frames (?f Waiting) (?g Final) [] [1] [] (In_resume None) 2)"
    by (rule co_go [OF _ st_finish [where deep = False and c = 1]]) (auto simp: run_defs)
  then have "?R (two_frames (?f Waiting) (?g Final) [] [1] [] In_loop 2)"
    by (rule co_go [OF _ st_after]) (auto simp: run_defs)
  then have "?R (two_frames (?f Waiting) None [] [] [] In_loop 2)"
    by (rule co_go [OF _ st_destroy [of _ 1 "[]"]]) (auto simp: run_defs)
  then have "?R (two_frames (?f Ready) None [0] [] [] In_loop 2)"
    by (rule co_go [OF _ st_event [where c = 0]]) (auto simp: run_defs)
  then have "?R ?s"
    by (rule co_go [OF _ st_resume [of _ 0 "[]"]]) (auto simp: run_defs)
  moreover have "co_step True ?s (co_await 0 1 False ?s)" by (rule st_await_held) (auto simp: two_frames_def)
  moreover have "co_await 0 1 False ?s = None" by (simp add: co_await_def two_frames_def)
  ultimately show ?thesis by auto
qed

end
