(* ===== verification/Concurrent_Vector.thy ===== *)
theory Concurrent_Vector
  imports Uvent_Prelude "HOL-Library.Word" "HOL-Library.Monad_Syntax"
begin

unbundle bit_operations_syntax

text \<open>
  \<open>LockFreeVector\<close> (\<open>utils/datastructures/array/ConcurrentVector.h\<close>), which keeps the thread-local storages of the
  workers: the two-level addressing by \<open>locate\<close> on 64-bit words, every operation as a function for a vector that one thread
  uses, and all interleavings of \<open>emplace_back\<close> by any number of threads.
\<close>

section \<open>Addressing\<close>

text \<open>The scan of \<open>clz64\<close> (\<open>system/Defines.h\<close>) from the highest bit.\<close>

function clz_scan :: "64 word \<Rightarrow> nat \<Rightarrow> nat" where
  "clz_scan x n = (if n < 63 \<and> \<not> bit x (63 - n) then clz_scan x (Suc n) else n)"
  by auto
termination by (relation "measure (\<lambda>(x, n). 63 - n)") auto

declare clz_scan.simps [simp del]

definition clz64 :: "64 word \<Rightarrow> nat" where
  "clz64 x = (if x = 0 then 64 else clz_scan x 0)"

definition pow2 :: "64 word \<Rightarrow> 64 word" where
  "pow2 e = (if 64 \<le> e then push_bit (64 - 1) 1 else push_bit (unat e) 1)"

definition locate :: "64 word \<Rightarrow> 64 word \<times> 64 word" where
  "locate index = (
     let L = (if index = 0 then 0 else 63 - word_of_nat (clz64 (index + 1)));
         base = pow2 L - 1;
         off = index - base in
     (L, off))"

lemma clz_scan_bits:
  assumes "n \<le> 63" "x \<noteq> 0" "\<And>m. 63 - n < m \<Longrightarrow> \<not> bit x m"
  shows "clz_scan x n \<le> 63 \<and> bit x (63 - clz_scan x n) \<and> (\<forall>m. 63 - clz_scan x n < m \<longrightarrow> \<not> bit x m)"
  using assms
proof (induction x n rule: clz_scan.induct)
  case (1 x n)
  show ?case
  proof (cases "n < 63 \<and> \<not> bit x (63 - n)")
    case True
    have "\<not> bit x m" if "63 - Suc n < m" for m using that True 1(4) [of m] by (cases "m = 63 - n") auto
    then show ?thesis using 1(1) [OF True] True 1(3) by (simp add: clz_scan.simps [of x n])
  next
    case False
    have "bit x 0" if "n = 63" using 1(3,4) that bit_eqI [of x 0] by (metis bit_0_eq bot_apply bot_bool_def diff_self_eq_0 gr0I)
    moreover have "clz_scan x n = n" using False unfolding clz_scan.simps [of x n] by auto
    ultimately show ?thesis using False 1(2,4) by (cases "n = 63") simp_all
  qed
qed

text \<open>\<open>clz64\<close> gives the position of the highest bit.\<close>

lemma clz64_bounds:
  assumes "x \<noteq> 0"
  shows "clz64 x \<le> 63" "2 ^ (63 - clz64 x) \<le> unat x" "unat x < 2 ^ (64 - clz64 x)"
proof -
  have top: "\<not> bit x m" if "63 < m" for m using bit_imp_le_length [of x m] that by auto
  have "clz_scan x 0 \<le> 63 \<and> bit x (63 - clz_scan x 0) \<and> (\<forall>m. 63 - clz_scan x 0 < m \<longrightarrow> \<not> bit x m)"
    by (rule clz_scan_bits) (use assms top in simp_all)
  then have c: "clz64 x \<le> 63" and hi: "bit x (63 - clz64 x)" and lo: "\<And>m. 63 - clz64 x < m \<Longrightarrow> \<not> bit x m"
    using assms by (simp_all add: clz64_def)
  show "clz64 x \<le> 63" by (rule c)
  have "bit (unat x) (63 - clz64 x)" using hi by (simp add: bit_unsigned_iff)
  then show "2 ^ (63 - clz64 x) \<le> unat x" by (metis bit_iff_odd div_less even_zero leI)
  have "take_bit (64 - clz64 x) (unat x) = unat x"
  proof (rule bit_eqI)
    show "bit (take_bit (64 - clz64 x) (unat x)) m = bit (unat x) m" for m
    proof (cases "m < 64 - clz64 x")
      case False
      then have "\<not> bit x m" using lo [of m] c by simp
      then show ?thesis using False by (simp add: bit_simps)
    qed (simp add: bit_simps)
  qed
  then show "unat x < 2 ^ (64 - clz64 x)" by (metis take_bit_nat_less_exp)
qed

lemma pow2_unat:
  assumes "unat e < 64"
  shows "unat (pow2 e) = 2 ^ unat e"
proof -
  have "pow2 e = push_bit (unat e) 1" using assms by (auto simp: pow2_def word_le_nat_alt)
  then have "unat (pow2 e) = push_bit (unat e) 1 mod 2 ^ 64"
    by (simp only: unsigned_push_bit_eq) (simp add: take_bit_eq_mod)
  also have "\<dots> = 2 ^ unat e" using assms power_strict_increasing [of "unat e" 64 "2 :: nat"] by (simp add: push_bit_eq_mult)
  finally show ?thesis .
qed

text \<open>\<open>locate\<close> numbers the cells of the buckets \<open>0, 1, \<dots>\<close> with \<open>1, 2, 4, \<dots>\<close> cells one after the other.\<close>

lemma locate_level: "index \<noteq> - 1 \<Longrightarrow> unat (fst (locate index)) = 63 - clz64 (index + 1)"
proof (cases "index = 0")
  case True
  have "clz64 1 = 63" using clz64_bounds [of 1] by (cases "clz64 1 = 63") (auto simp: power_eq_if split: if_splits)
  then show ?thesis using True by (simp add: locate_def Let_def)
next
  case False
  assume "index \<noteq> - 1"
  then have "index + 1 \<noteq> 0" by (metis add.commute minus_unique)
  from clz64_bounds(1) [OF this] have c: "clz64 (index + 1) \<le> 63" .
  then have "unat (word_of_nat (clz64 (index + 1)) :: 64 word) = clz64 (index + 1)" by (simp add: unat_of_nat)
  then show ?thesis using False c by (simp add: locate_def Let_def unat_sub word_le_nat_alt)
qed

lemma locate_bounds:
  assumes "index \<noteq> - 1" "locate index = (L, off)"
  shows "unat L < 64" "unat off < 2 ^ unat L" "unat index = 2 ^ unat L - 1 + unat off"
proof -
  let ?c = "clz64 (index + 1)"
  have nz: "index + 1 \<noteq> 0" using assms(1) by (metis add.commute minus_unique)
  have ui: "unat (index + 1) = unat index + 1" using unatSuc [of index] nz by (simp add: add.commute)
  have L: "unat L = 63 - ?c" using locate_level [OF assms(1)] assms(2) by simp
  then show l: "unat L < 64" by simp
  note B = clz64_bounds [OF nz]
  have "64 - ?c = Suc (unat L)" using L B(1) by simp
  then have i: "2 ^ unat L \<le> unat index + 1" "unat index + 1 < 2 * 2 ^ unat L" using B(2,3) L ui by simp_all
  have p: "unat (pow2 L) = 2 ^ unat L" by (rule pow2_unat [OF l])
  then have "unat (pow2 L - 1) = 2 ^ unat L - 1" by (subst unat_sub) (simp_all add: word_le_nat_alt)
  moreover have "off = index - (pow2 L - 1)" using assms(2) by (auto simp: locate_def Let_def)
  ultimately have "unat off = unat index - (2 ^ unat L - 1)" using i(1) by (simp add: unat_sub word_le_nat_alt)
  then show "unat off < 2 ^ unat L" "unat index = 2 ^ unat L - 1 + unat off" using i by simp_all
qed

lemma locate_inj:
  assumes "i \<noteq> - 1" "j \<noteq> - 1" "locate i = locate j"
  shows "i = j"
  using locate_bounds(3) [OF assms(1)] locate_bounds(3) [OF assms(2)] assms(3) by (metis prod.exhaust unsigned_word_eqI)

section \<open>Operations\<close>

datatype 'a vcell = V_empty | V_writing | V_ready 'a | V_deleting

record 'a lfv =
  alloc_idx :: "64 word"
  published :: "64 word"
  vbuckets :: "nat \<Rightarrow> 'a vcell list option"

definition lfv_new :: "'a lfv" where
  "lfv_new = \<lparr>alloc_idx = 0, published = 0, vbuckets = (\<lambda>_. None)\<rparr>"

text \<open>\<open>Spin\<close> is a wait for another thread (for ever, when there is none), \<open>Trap\<close> a deliberate crash, \<open>Fault\<close> a null dereference.\<close>

datatype vec_err = Bad_alloc | Trap | Spin | Fault

definition vcell_at :: "'a lfv \<Rightarrow> 64 word \<Rightarrow> 'a vcell option" where
  "vcell_at v i = (case locate i of (L, off) \<Rightarrow> map_option (\<lambda>cs. cs ! unat off) (vbuckets v (unat L)))"

definition put_vcell :: "64 word \<Rightarrow> 'a vcell \<Rightarrow> 'a lfv \<Rightarrow> 'a lfv" where
  "put_vcell i c v = (case locate i of (L, off) \<Rightarrow>
     v\<lparr>vbuckets := (vbuckets v)(unat L := map_option (\<lambda>cs. cs[unat off := c]) (vbuckets v (unat L)))\<rparr>)"

fun is_ready :: "'a vcell option \<Rightarrow> bool" where
  "is_ready (Some (V_ready x)) = True"
| "is_ready _ = False"

text \<open>\<open>mem\<close> tells for which levels the allocation succeeds.\<close>

definition ensure_bucket :: "(nat \<Rightarrow> bool) \<Rightarrow> 64 word \<Rightarrow> 'a lfv \<Rightarrow> bool \<times> 'a lfv" where
  "ensure_bucket mem L v = (
     if vbuckets v (unat L) \<noteq> None then (True, v)
     else let cap = pow2 L in
       if push_bit 24 1 < cap then (False, v)
       else if \<not> mem (unat L) then (False, v)
       else (True, v\<lparr>vbuckets := (vbuckets v)(unat L \<mapsto> replicate (unat cap) V_empty)\<rparr>))"

partial_function (option) scan_ready :: "'a lfv \<Rightarrow> 64 word \<Rightarrow> 64 word option" where
  "scan_ready v i = (if is_ready (vcell_at v i) then scan_ready v (i + 1) else Some i)"

partial_function (option) advance_published :: "'a lfv \<Rightarrow> 'a lfv option" where
  "advance_published v = (if \<not> is_ready (vcell_at v (published v)) then Some v
     else do {scan \<leftarrow> scan_ready v (published v); advance_published (v\<lparr>published := scan\<rparr>)})"

definition emplace_back :: "(nat \<Rightarrow> bool) \<Rightarrow> 'a \<Rightarrow> 'a lfv \<Rightarrow> ((vec_err + 64 word) \<times> 'a lfv) option" where
  "emplace_back mem x v = (
     let idx = alloc_idx v; v = v\<lparr>alloc_idx := alloc_idx v + 1\<rparr>; (ok, v) = ensure_bucket mem (fst (locate idx)) v in
     if \<not> ok then Some (Inl Bad_alloc, v)
     else if vcell_at v idx \<noteq> Some V_empty then Some (Inl Spin, v)
     else
       let v = put_vcell idx (V_ready x) v in
       if idx = published v then map_option (Pair (Inr idx)) (advance_published v) else Some (Inr idx, v))"

definition vec_pop_back :: "'a lfv \<Rightarrow> (vec_err + bool) \<times> 'a lfv" where
  "vec_pop_back v = (if published v = 0 then (Inr False, v) else
     let idx = published v - 1; v = v\<lparr>published := idx\<rparr> in
     case vcell_at v idx of None \<Rightarrow> (Inl Fault, v)
     | Some (V_ready x) \<Rightarrow> (Inr True, put_vcell idx V_empty v)
     | _ \<Rightarrow> (Inl Spin, v))"

function shrink_published_tail :: "'a lfv \<Rightarrow> 'a lfv" where
  "shrink_published_tail v = (if published v = 0 then v else
     if vcell_at v (published v - 1) = Some V_empty then shrink_published_tail (v\<lparr>published := published v - 1\<rparr>) else v)"
  by auto
termination
  by (relation "measure (unat \<circ> published)") (simp_all add: measure_unat)

declare shrink_published_tail.simps [simp del]

definition vec_erase :: "64 word \<Rightarrow> 'a lfv \<Rightarrow> (vec_err + bool) \<times> 'a lfv" where
  "vec_erase i v = (if published v \<le> i then (Inr False, v) else
     case vcell_at v i of None \<Rightarrow> (Inr False, v)
     | Some V_empty \<Rightarrow> (Inr False, v)
     | Some (V_ready x) \<Rightarrow> (Inr True, shrink_published_tail (put_vcell i V_empty v))
     | _ \<Rightarrow> (Inl Spin, v))"

definition vec_index :: "'a lfv \<Rightarrow> 64 word \<Rightarrow> vec_err + 'a" where
  "vec_index v i = (case vcell_at v i of Some (V_ready x) \<Rightarrow> Inr x | Some V_empty \<Rightarrow> Inl Trap | _ \<Rightarrow> Inl Spin)"

definition vec_at :: "'a lfv \<Rightarrow> 64 word \<Rightarrow> vec_err + 'a" where
  "vec_at v i = (if published v \<le> i then Inl Trap else vec_index v i)"

fun reserve_loop :: "(nat \<Rightarrow> bool) \<Rightarrow> nat list \<Rightarrow> 'a lfv \<Rightarrow> 'a lfv" where
  "reserve_loop mem [] v = v"
| "reserve_loop mem (i # is) v = (if vbuckets v i \<noteq> None then reserve_loop mem is v else
     let (ok, v) = ensure_bucket mem (word_of_nat i) v in if ok then reserve_loop mem is v else v)"

definition vec_reserve :: "(nat \<Rightarrow> bool) \<Rightarrow> 64 word \<Rightarrow> 'a lfv \<Rightarrow> 'a lfv" where
  "vec_reserve mem n v = (if n = 0 then v else
     let n = (if push_bit 27 1 < n then push_bit 27 1 else n); L = fst (locate (n - 1)) in
     reserve_loop mem [0..<Suc (unat L)] v)"

text \<open>The elements the destructor destroys.\<close>

definition vec_destroy :: "'a lfv \<Rightarrow> 'a list" where
  "vec_destroy v = concat (map (\<lambda>i. case vcell_at v (word_of_nat i) of Some (V_ready x) \<Rightarrow> [x] | _ \<Rightarrow> []) [0..<unat (published v)])"

section \<open>Cells\<close>

definition vec_wf :: "'a lfv \<Rightarrow> bool" where
  "vec_wf v \<longleftrightarrow> (\<forall>L cs. vbuckets v L = Some cs \<longrightarrow> length cs = 2 ^ L)"

lemma vcell_set:
  assumes wf: "vec_wf v" and i: "i \<noteq> - 1" and j: "j \<noteq> - 1"
  shows "vcell_at (put_vcell i c v) j = (if j = i then map_option (\<lambda>_. c) (vcell_at v i) else vcell_at v j)"
proof -
  obtain L off where l: "locate i = (L, off)" by fastforce
  obtain K k where m: "locate j = (K, k)" by fastforce
  have len: "unat off < length cs" if "vbuckets v (unat L) = Some cs" for cs
    using wf that locate_bounds(2) [OF i l] by (simp add: vec_wf_def)
  show ?thesis
  proof (cases "j = i")
    case True
    then show ?thesis using l len by (cases "vbuckets v (unat L)") (auto simp: vcell_at_def put_vcell_def)
  next
    case False
    then have "unat K \<noteq> unat L \<or> unat k \<noteq> unat off" using locate_bounds(3) [OF i l] locate_bounds(3) [OF j m] by (metis unsigned_word_eqI)
    then show ?thesis using False l m by (cases "vbuckets v (unat L)") (auto simp: vcell_at_def put_vcell_def)
  qed
qed

lemma vec_wf_set: "vec_wf v \<Longrightarrow> vec_wf (put_vcell i c v)"
  by (auto simp: vec_wf_def put_vcell_def split: prod.splits)

lemma put_vcell_fields [simp]: "alloc_idx (put_vcell i c v) = alloc_idx v" "published (put_vcell i c v) = published v"
  by (simp_all add: put_vcell_def split: prod.splits)

lemma vcell_at_fields [simp]: "vcell_at (v\<lparr>alloc_idx := a\<rparr>) i = vcell_at v i" "vcell_at (v\<lparr>published := p\<rparr>) i = vcell_at v i"
  by (simp_all add: vcell_at_def split: prod.splits)

section \<open>Appending\<close>

definition vec_max :: nat where
  "vec_max = 2 ^ 25 - 1"

lemma unat_plus_one: "unat i < 2 ^ 63 \<Longrightarrow> unat (i + 1) = unat i + 1" for i :: "64 word"
  by (subst unat_add_lem [THEN iffD1]) simp_all

lemma not_minus_one: "unat i < 2 ^ 63 \<Longrightarrow> i \<noteq> - 1" for i :: "64 word"
  by (auto simp: unsigned_minus_1_eq_mask mask_eq_exp_minus_1)

lemma ensure_bucket_ok:
  assumes wf: "vec_wf v" and i: "unat i < vec_max" and mem: "\<And>L. L \<le> 24 \<Longrightarrow> mem L"
  obtains w where "ensure_bucket mem (fst (locate i)) v = (True, w)" "vec_wf w" "alloc_idx w = alloc_idx v" "published w = published v"
    "\<And>j. j \<noteq> - 1 \<Longrightarrow> vcell_at v j \<noteq> None \<Longrightarrow> vcell_at w j = vcell_at v j"
    "\<And>j. j \<noteq> - 1 \<Longrightarrow> vcell_at v j = None \<Longrightarrow> vcell_at w j \<in> {None, Some V_empty}" "vcell_at w i \<noteq> None"
proof -
  obtain L off where l: "locate i = (L, off)" by fastforce
  have ni: "i \<noteq> - 1" using i by (intro not_minus_one) (simp add: vec_max_def)
  note B = locate_bounds [OF ni l]
  have "(2::nat) ^ unat L < 2 ^ 25" using B(3) i by (simp add: vec_max_def)
  from power_less_imp_less_exp [OF _ this] have L: "unat L \<le> 24" by simp
  have cap: "unat (pow2 L) = 2 ^ unat L" by (rule pow2_unat [OF B(1)])
  have "(2::nat) ^ unat L \<le> 2 ^ 24" using L by (rule power_increasing) simp
  then have small: "\<not> push_bit 24 1 < pow2 L" using cap by (simp add: word_less_nat_alt not_less)
  show thesis
  proof (cases "vbuckets v (unat L)")
    case None
    let ?w = "v\<lparr>vbuckets := (vbuckets v)(unat L \<mapsto> replicate (2 ^ unat L) V_empty)\<rparr>"
    have "ensure_bucket mem (fst (locate i)) v = (True, ?w)" using None l small mem [OF L] cap by (simp add: ensure_bucket_def Let_def)
    moreover have "vec_wf ?w" using wf by (auto simp: vec_wf_def)
    moreover have "vcell_at ?w j = vcell_at v j" if "vcell_at v j \<noteq> None" for j
      using that None by (auto simp: vcell_at_def split: prod.splits)
    moreover have "vcell_at ?w j \<in> {None, Some V_empty}" if j: "j \<noteq> - 1" "vcell_at v j = None" for j
    proof -
      obtain K k where m: "locate j = (K, k)" by fastforce
      then show ?thesis using j(2) locate_bounds(2) [OF j(1) m] by (auto simp: vcell_at_def)
    qed
    moreover have "vcell_at ?w i \<noteq> None" using l by (simp add: vcell_at_def)
    ultimately show thesis using that [of ?w] by simp
  next
    case (Some cs)
    then show thesis using that [of v] wf l by (simp add: ensure_bucket_def vcell_at_def)
  qed
qed

text \<open>A vector that only grew: published up to the last allocated index, with the elements \<open>xs\<close>.\<close>

definition vec_rep :: "'a lfv \<Rightarrow> 'a list \<Rightarrow> bool" where
  "vec_rep v xs \<longleftrightarrow> vec_wf v \<and> length xs \<le> vec_max \<and> unat (alloc_idx v) = length xs \<and> unat (published v) = length xs \<and>
     (\<forall>i. i \<noteq> - 1 \<longrightarrow> (if unat i < length xs then vcell_at v i = Some (V_ready (xs ! unat i)) else vcell_at v i \<in> {None, Some V_empty}))"

lemma vec_new_rep: "vec_rep lfv_new []"
  by (simp add: vec_rep_def lfv_new_def vec_wf_def vcell_at_def split: prod.splits)

text \<open>With one more element ready behind the published ones, \<open>advance_published\<close> moves past it and stops.\<close>

lemma advance_one:
  assumes r: "is_ready (vcell_at v (published v))" and n: "\<not> is_ready (vcell_at v (published v + 1))"
  shows "advance_published v = Some (v\<lparr>published := published v + 1\<rparr>)"
proof -
  have "scan_ready v (published v + 1) = Some (published v + 1)" using n by (subst scan_ready.simps) simp
  then have s: "scan_ready v (published v) = Some (published v + 1)" using r by (subst scan_ready.simps) simp
  have "advance_published (v\<lparr>published := published v + 1\<rparr>) = Some (v\<lparr>published := published v + 1\<rparr>)"
    using n by (subst advance_published.simps) simp
  then show ?thesis using r s by (subst advance_published.simps) simp
qed

lemma emplace_back_rep:
  assumes rep: "vec_rep v xs" and len: "length xs < vec_max" and mem: "\<And>L. L \<le> 24 \<Longrightarrow> mem L"
  obtains v' where "emplace_back mem x v = Some (Inr (word_of_nat (length xs)), v')" "vec_rep v' (xs @ [x])"
proof -
  define i where "i = alloc_idx v"
  have R: "vec_wf v" "unat i = length xs" "unat (published v) = length xs"
    "\<And>j. j \<noteq> - 1 \<Longrightarrow> unat j < length xs \<Longrightarrow> vcell_at v j = Some (V_ready (xs ! unat j))" "\<And>j. j \<noteq> - 1 \<Longrightarrow> \<not> unat j < length xs \<Longrightarrow> vcell_at v j \<in> {None, Some V_empty}"
    using rep unfolding vec_rep_def i_def by auto
  have il: "unat i < vec_max" "unat i < 2 ^ 63" using R(2) len by (simp_all add: vec_max_def)
  have pi: "published v = i" using R(2,3) by (metis unsigned_word_eqI)
  note ni = not_minus_one [OF il(2)] and i1 = unat_plus_one [OF il(2)]
  have n1: "i + 1 \<noteq> - 1" using il(1) i1 by (intro not_minus_one) (simp add: vec_max_def)
  have wf1: "vec_wf (v\<lparr>alloc_idx := i + 1\<rparr>)" using R(1) by (simp add: vec_wf_def)
  obtain w where w: "ensure_bucket mem (fst (locate i)) (v\<lparr>alloc_idx := i + 1\<rparr>) = (True, w)" "vec_wf w" "alloc_idx w = i + 1" "published w = i"
    "\<And>j. j \<noteq> - 1 \<Longrightarrow> vcell_at v j \<noteq> None \<Longrightarrow> vcell_at w j = vcell_at v j"
    "\<And>j. j \<noteq> - 1 \<Longrightarrow> vcell_at v j = None \<Longrightarrow> vcell_at w j \<in> {None, Some V_empty}" "vcell_at w i \<noteq> None"
    using ensure_bucket_ok [where mem = mem, OF wf1 il(1)] mem pi by auto
  have wi: "vcell_at w i = Some V_empty" using w(5,6) [OF ni] w(7) R(5) [OF ni] R(2) by (cases "vcell_at v i") auto
  let ?u = "put_vcell i (V_ready x) w"
  have ui: "vcell_at ?u i = Some (V_ready x)" using vcell_set [OF w(2) ni ni] wi by simp
  have uj: "vcell_at ?u j = vcell_at w j" if "j \<noteq> - 1" "j \<noteq> i" for j using vcell_set [OF w(2) ni that(1)] that(2) by simp
  have free: "vcell_at w j \<in> {None, Some V_empty}" if "j \<noteq> - 1" "length xs < unat j" for j
    using R(5) [of j] w(5,6) [of j] that by (cases "vcell_at v j") auto
  have "i + 1 \<noteq> i" by simp
  then have "\<not> is_ready (vcell_at ?u (i + 1))" using uj [OF n1] free [OF n1] i1 R(2) by auto
  then have adv: "advance_published ?u = Some (?u\<lparr>published := i + 1\<rparr>)" using advance_one [of ?u] ui w(4) by simp
  have "emplace_back mem x v = Some (Inr i, ?u\<lparr>published := i + 1\<rparr>)"
    using w(1,4) wi adv by (simp add: emplace_back_def i_def [symmetric] Let_def)
  moreover have "i = word_of_nat (length xs)" by (simp add: R(2) [symmetric])
  moreover have "vec_rep (?u\<lparr>published := i + 1\<rparr>) (xs @ [x])"
  proof -
    have "vec_wf (?u\<lparr>published := i + 1\<rparr>)" using vec_wf_set [OF w(2)] by (simp add: vec_wf_def)
    moreover have "vcell_at ?u j = Some (V_ready ((xs @ [x]) ! unat j))" if j: "j \<noteq> - 1" "unat j < Suc (length xs)" for j
    proof (cases "j = i")
      case True
      then show ?thesis using ui R(2) by simp
    next
      case False
      then have "unat j \<noteq> length xs" using R(2) by (metis unsigned_word_eqI)
      then show ?thesis using uj [OF j(1) False] w(5) [OF j(1)] R(4) [OF j(1)] j(2) by (simp add: nth_append)
    qed
    moreover have "vcell_at ?u j \<in> {None, Some V_empty}" if "j \<noteq> - 1" "\<not> unat j < Suc (length xs)" for j
      using uj [OF that(1)] free [OF that(1)] that(2) R(2) by (cases "j = i") auto
    ultimately show ?thesis using len w(3) i1 R(2) by (simp add: vec_rep_def)
  qed
  ultimately show thesis using that by simp
qed

text \<open>A sequence of \<open>emplace_back\<close>; \<open>None\<close> when one of them does not return.\<close>

fun push_all :: "(nat \<Rightarrow> bool) \<Rightarrow> 'a list \<Rightarrow> 'a lfv \<Rightarrow> ((vec_err + 64 word) list \<times> 'a lfv) option" where
  "push_all mem [] v = Some ([], v)"
| "push_all mem (x # xs) v = do {(r, v) \<leftarrow> emplace_back mem x v; (rs, v) \<leftarrow> push_all mem xs v; Some (r # rs, v)}"

lemma push_all_rep:
  assumes "vec_rep v xs" "length xs + length ys \<le> vec_max" "\<And>L. L \<le> 24 \<Longrightarrow> mem L"
  shows "\<exists>v'. push_all mem ys v = Some (map (Inr \<circ> word_of_nat) [length xs..<length xs + length ys], v') \<and> vec_rep v' (xs @ ys)"
  using assms
proof (induction ys arbitrary: v xs)
  case (Cons y ys)
  obtain w where w: "emplace_back mem y v = Some (Inr (word_of_nat (length xs)), w)" "vec_rep w (xs @ [y])"
    using emplace_back_rep [OF Cons.prems(1), of mem y] Cons.prems(2,3) by auto
  have "\<exists>v'. push_all mem ys w = Some (map (Inr \<circ> word_of_nat) [length (xs @ [y])..<length (xs @ [y]) + length ys], v') \<and> vec_rep v' ((xs @ [y]) @ ys)"
    by (rule Cons.IH [OF w(2)]) (use Cons.prems(2,3) in auto)
  moreover have "[length xs..<length xs + length (y # ys)] = length xs # [length (xs @ [y])..<length (xs @ [y]) + length ys]" by (subst upt_conv_Cons) simp_all
  ultimately show ?case using w(1) by auto
qed simp

text \<open>Once the published count is behind the allocated one, it stays.\<close>

lemma emplace_back_stuck:
  assumes "emplace_back mem x v = Some (r, w)" "published v < alloc_idx v" "unat (alloc_idx v) < 2 ^ 63"
  shows "published w = published v \<and> alloc_idx w = alloc_idx v + 1"
proof -
  obtain ok u where u: "ensure_bucket mem (fst (locate (alloc_idx v))) (v\<lparr>alloc_idx := alloc_idx v + 1\<rparr>) = (ok, u)" by fastforce
  then have "published u = published v" "alloc_idx u = alloc_idx v + 1" by (auto simp: ensure_bucket_def Let_def split: if_splits)
  then show ?thesis using assms(1,2) u by (auto simp: emplace_back_def Let_def split: if_splits)
qed

lemma push_all_stuck:
  assumes "push_all mem ys v = Some (rs, w)" "published v < alloc_idx v" "unat (alloc_idx v) + length ys < 2 ^ 63"
  shows "published w = published v"
  using assms
proof (induction ys arbitrary: v rs)
  case (Cons y ys)
  obtain r u ss where u: "emplace_back mem y v = Some (r, u)" "push_all mem ys u = Some (ss, w)"
    using Cons.prems(1) by (auto split: Option.bind_splits prod.splits)
  note S = emplace_back_stuck [OF u(1) Cons.prems(2)]
  have "unat (alloc_idx v) < 2 ^ 63" using Cons.prems(3) by simp
  note S = S [OF this] and p = unat_plus_one [OF this]
  have "published u < alloc_idx u" using S p Cons.prems(2) by (simp add: word_less_nat_alt)
  then show ?case using Cons.IH [OF u(2)] S p Cons.prems(3) by simp
qed simp

section \<open>One thread\<close>

text \<open>A vector filled by \<open>emplace_back\<close> alone, up to the \<open>2 ^ 25 - 1\<close> elements its buckets allow and while memory lasts, is the list of
  its elements: every call returns with the next index, the size is their number, \<open>operator[]\<close> and \<open>at\<close> give the element at each index,
  \<open>at\<close> behind the end traps, and the destructor destroys every element once.\<close>

theorem vector_append_refines:
  assumes mem: "\<And>L. L \<le> 24 \<Longrightarrow> mem L" and len: "length xs \<le> vec_max"
  shows "\<exists>v. push_all mem xs lfv_new = Some (map (Inr \<circ> word_of_nat) [0..<length xs], v) \<and> unat (published v) = length xs \<and>
    (\<forall>i. unat i < length xs \<longrightarrow> vec_index v i = Inr (xs ! unat i) \<and> vec_at v i = Inr (xs ! unat i)) \<and>
    (\<forall>i. length xs \<le> unat i \<longrightarrow> vec_at v i = Inl Trap) \<and> vec_destroy v = xs"
proof -
  obtain v where v: "push_all mem xs lfv_new = Some (map (Inr \<circ> word_of_nat) [0..<length xs], v)" "vec_rep v xs"
    using push_all_rep [OF vec_new_rep, of xs mem] mem len by auto
  have sz: "unat (published v) = length xs" and small: "length xs < 2 ^ 63" using v(2) len by (simp_all add: vec_rep_def vec_max_def)
  have cell: "vcell_at v i = Some (V_ready (xs ! unat i))" if "unat i < length xs" for i
    using v(2) that not_minus_one [of i] small by (simp add: vec_rep_def)
  have "vec_destroy v = concat (map (\<lambda>i. [xs ! i]) [0..<length xs])"
    unfolding vec_destroy_def sz
  proof (intro arg_cong [of _ _ concat] map_cong refl)
    fix i assume "i \<in> set [0..<length xs]"
    then have "unat (word_of_nat i :: 64 word) = i" "i < length xs" using small by (simp_all add: unat_of_nat)
    then show "(case vcell_at v (word_of_nat i) of Some (V_ready x) \<Rightarrow> [x] | _ \<Rightarrow> []) = [xs ! i]" using cell [of "word_of_nat i"] by simp
  qed
  also have "\<dots> = xs" by (simp add: map_nth)
  finally show ?thesis using v(1) sz cell by (auto simp: vec_index_def vec_at_def word_le_nat_alt)
qed

theorem vector_append_refines_witness:
  "length [3 :: int, 5] \<le> vec_max \<and> (\<exists>v. push_all (\<lambda>_. True) [3 :: int, 5] lfv_new = Some (map (Inr \<circ> word_of_nat) [0..<length [3 :: int, 5]], v) \<and> vec_at v 1 = Inr 5)"
proof -
  have len: "length [3 :: int, 5] \<le> vec_max" by (simp add: vec_max_def)
  obtain v where "push_all (\<lambda>_. True) [3 :: int, 5] lfv_new = Some (map (Inr \<circ> word_of_nat) [0..<length [3 :: int, 5]], v)"
    "\<forall>i. unat i < length [3 :: int, 5] \<longrightarrow> vec_index v i = Inr ([3, 5] ! unat i) \<and> vec_at v i = Inr ([3, 5] ! unat i)"
    using vector_append_refines [of "\<lambda>_. True", OF _ len] by auto
  then show ?thesis using len by fastforce
qed

text \<open>\<open>pop_back\<close> of a vector that only grew.\<close>

lemma pop_back_rep:
  assumes rep: "vec_rep v (xs @ [x])"
  obtains w where "vec_pop_back v = (Inr True, w)" "vec_wf w" "unat (published w) = length xs" "unat (alloc_idx w) = Suc (length xs)"
    "\<And>i. i \<noteq> - 1 \<Longrightarrow> length xs \<le> unat i \<Longrightarrow> vcell_at w i \<in> {None, Some V_empty}"
proof -
  let ?i = "published v - 1"
  have R: "vec_wf v" "length xs < vec_max" "unat (published v) = Suc (length xs)" "unat (alloc_idx v) = Suc (length xs)" using rep by (simp_all add: vec_rep_def)
  have "published v \<noteq> 0" using R(3) by auto
  then have ui: "unat ?i = length xs" using R(3) by (simp add: unat_minus_one)
  have ni: "?i \<noteq> - 1" using ui R(2) by (intro not_minus_one) (simp add: vec_max_def)
  have cell: "vcell_at v ?i = Some (V_ready x)" using rep ui ni by (simp add: vec_rep_def)
  let ?v = "v\<lparr>published := ?i\<rparr>"
  have wf: "vec_wf ?v" using R(1) by (simp add: vec_wf_def)
  have "vec_pop_back v = (Inr True, put_vcell ?i V_empty ?v)" using cell \<open>published v \<noteq> 0\<close> by (simp add: vec_pop_back_def Let_def)
  moreover have "vcell_at (put_vcell ?i V_empty ?v) j \<in> {None, Some V_empty}" if j: "j \<noteq> - 1" "length xs \<le> unat j" for j
  proof (cases "j = ?i")
    case True
    then show ?thesis using vcell_set [OF wf ni j(1)] by (cases "vcell_at v ?i") auto
  next
    case False
    then have "unat j \<noteq> length xs" using ui by (metis unsigned_word_eqI)
    then show ?thesis using vcell_set [OF wf ni j(1)] False j rep by (auto simp: vec_rep_def)
  qed
  ultimately show thesis using that [of "put_vcell ?i V_empty ?v"] vec_wf_set [OF wf] ui R(4) by simp
qed

text \<open>An element that is added after \<open>pop_back\<close> is lost: \<open>emplace_back\<close> accepts it and returns an index, but the size stays, also
  after any number of further additions, and the destructor destroys none of them.\<close>

theorem vector_push_after_pop_lost:
  assumes mem: "\<And>L. L \<le> 24 \<Longrightarrow> mem L" and len: "length xs + length ys + 1 < vec_max"
    and v: "push_all mem (xs @ [x]) lfv_new = Some (rs, v)" and w: "snd (vec_pop_back v) = w"
  shows "emplace_back mem y w \<noteq> None \<and> (\<forall>r u. emplace_back mem y w = Some (r, u) \<longrightarrow> r = Inr (word_of_nat (length xs + 1)) \<and> unat (published u) = length xs) \<and>
    (\<forall>rs u. push_all mem ys w = Some (rs, u) \<longrightarrow> unat (published u) = length xs)"
proof -
  have "length ([] :: 'a list) + length (xs @ [x]) \<le> vec_max" using len by simp
  from push_all_rep [where mem = mem, OF vec_new_rep this] mem obtain v' where "push_all mem (xs @ [x]) lfv_new = Some (map (Inr \<circ> word_of_nat) [length ([] :: 'a list)..<length ([] :: 'a list) + length (xs @ [x])], v')"
    "vec_rep v' ([] @ (xs @ [x]))" by blast
  then have "vec_rep v (xs @ [x])" using v by simp
  then obtain w' where w': "vec_pop_back v = (Inr True, w')" "vec_wf w'" "unat (published w') = length xs" "unat (alloc_idx w') = Suc (length xs)"
    "\<And>i. i \<noteq> - 1 \<Longrightarrow> length xs \<le> unat i \<Longrightarrow> vcell_at w' i \<in> {None, Some V_empty}" by (rule pop_back_rep) blast
  then have [simp]: "w' = w" using w by simp
  have st: "published w < alloc_idx w" "unat (alloc_idx w) < vec_max" "unat (alloc_idx w) < 2 ^ 63"
    using w'(3,4) len by (simp_all add: word_less_nat_alt vec_max_def)
  define a where "a = alloc_idx w"
  have wf1: "vec_wf (w\<lparr>alloc_idx := a + 1\<rparr>)" using w'(2) by (simp add: vec_wf_def)
  have am: "unat a < vec_max" using st(2) by (simp add: a_def)
  obtain z where "ensure_bucket mem (fst (locate a)) (w\<lparr>alloc_idx := a + 1\<rparr>) = (True, z)" "vec_wf z" "alloc_idx z = alloc_idx (w\<lparr>alloc_idx := a + 1\<rparr>)"
    "published z = published (w\<lparr>alloc_idx := a + 1\<rparr>)" "\<And>j. j \<noteq> - 1 \<Longrightarrow> vcell_at (w\<lparr>alloc_idx := a + 1\<rparr>) j \<noteq> None \<Longrightarrow> vcell_at z j = vcell_at (w\<lparr>alloc_idx := a + 1\<rparr>) j"
    "\<And>j. j \<noteq> - 1 \<Longrightarrow> vcell_at (w\<lparr>alloc_idx := a + 1\<rparr>) j = None \<Longrightarrow> vcell_at z j \<in> {None, Some V_empty}" "vcell_at z a \<noteq> None"
    by (rule ensure_bucket_ok [where mem = mem, OF wf1 am]) (use mem in blast)+
  note z = this(1,4-7) [simplified]
  have na: "a \<noteq> - 1" using st(3) not_minus_one by (simp add: a_def)
  have "vcell_at z a = Some V_empty" using z(3,4) [OF na] z(5) w'(5) [OF na] w'(4) by (cases "vcell_at w a") (auto simp: a_def)
  moreover have "a \<noteq> published w" using st(1) by (auto simp: a_def)
  ultimately have e: "emplace_back mem y w = Some (Inr a, put_vcell a (V_ready y) z)" using z(1,2) by (simp add: emplace_back_def a_def [symmetric] Let_def)
  have "length xs + 1 = unat a" using w'(4) by (simp add: a_def)
  then have "a = word_of_nat (length xs + 1)" by simp
  moreover have "unat (published u) = length xs" if "push_all mem ys w = Some (rs, u)" for rs u
    using push_all_stuck [OF that st(1)] w'(3,4) len by (simp add: vec_max_def)
  ultimately show ?thesis using e z(2) w'(3) by auto
qed

theorem vector_push_after_pop_lost_witness:
  "\<exists>rs v w u. push_all (\<lambda>_. True) ([] @ [7 :: int]) lfv_new = Some (rs, v) \<and> snd (vec_pop_back v) = w \<and> emplace_back (\<lambda>_. True) 8 w = Some (Inr 1, u) \<and> unat (published u) = 0"
proof -
  obtain v where v: "push_all (\<lambda>_. True) ([] @ [7 :: int]) lfv_new = Some (map (Inr \<circ> word_of_nat) [0..<1], v)"
    using push_all_rep [OF vec_new_rep, of "[7 :: int]" "\<lambda>_. True"] by (auto simp: vec_max_def)
  have "length ([] :: int list) + length ([] :: int list) + 1 < vec_max" by (simp add: vec_max_def)
  from vector_push_after_pop_lost [where mem = "\<lambda>_. True" and y = 8, OF _ this v refl] show ?thesis using v by fastforce
qed

section \<open>Many threads\<close>

text \<open>What a successful \<open>ensure_bucket\<close> does to the cells.\<close>

lemma ensure_bucket_cells:
  assumes wf: "vec_wf v" and i: "i \<noteq> - 1" and e: "ensure_bucket mem (fst (locate i)) v = (True, w)"
  shows "vec_wf w" "alloc_idx w = alloc_idx v" "published w = published v" "vcell_at w i \<noteq> None"
    "j \<noteq> - 1 \<Longrightarrow> vcell_at w j = vcell_at v j \<or> vcell_at v j = None \<and> vcell_at w j = Some V_empty"
proof -
  obtain L off where l: "locate i = (L, off)" by fastforce
  have cap: "unat (pow2 L) = 2 ^ unat L" by (rule pow2_unat [OF locate_bounds(1) [OF i l]])
  have "w = v \<and> vbuckets v (unat L) \<noteq> None \<or> vbuckets v (unat L) = None \<and> w = v\<lparr>vbuckets := (vbuckets v)(unat L \<mapsto> replicate (2 ^ unat L) V_empty)\<rparr>"
    using e l cap by (auto simp: ensure_bucket_def Let_def split: if_splits)
  then consider (old) "w = v" "vbuckets v (unat L) \<noteq> None"
    | (new) "vbuckets v (unat L) = None" "w = v\<lparr>vbuckets := (vbuckets v)(unat L \<mapsto> replicate (2 ^ unat L) V_empty)\<rparr>" by (elim disjE conjE)
  then have "vec_wf w \<and> alloc_idx w = alloc_idx v \<and> published w = published v \<and> vcell_at w i \<noteq> None \<and>
      (j \<noteq> - 1 \<longrightarrow> vcell_at w j = vcell_at v j \<or> vcell_at v j = None \<and> vcell_at w j = Some V_empty)"
  proof cases
    case old
    then show ?thesis using wf l by (simp add: vcell_at_def)
  next
    case new
    obtain K k where m: "locate j = (K, k)" by fastforce
    have "vcell_at w j = vcell_at v j \<or> vcell_at v j = None \<and> vcell_at w j = Some V_empty" if "j \<noteq> - 1"
      using locate_bounds(2) [OF that m] m new by (auto simp: vcell_at_def)
    then show ?thesis using new wf l by (auto simp: vec_wf_def vcell_at_def)
  qed
  then show "vec_wf w" "alloc_idx w = alloc_idx v" "published w = published v" "vcell_at w i \<noteq> None"
    "j \<noteq> - 1 \<Longrightarrow> vcell_at w j = vcell_at v j \<or> vcell_at v j = None \<and> vcell_at w j = Some V_empty" by blast+
qed

text \<open>Program points of \<open>emplace_back\<close> and \<open>advance_published\<close>: before \<open>ensure_bucket\<close>, before the compare-exchange of the cell,
  before the store of \<open>READY\<close>, before the load of \<open>published_\<close>; at the top of the loop of \<open>advance_published\<close>, before the look at the cell
  at \<open>cur\<close>, in the scan, and before the compare-exchange of \<open>published_\<close>.\<close>

datatype 'a epc = E_idle | E_bucket "64 word" 'a | E_cell "64 word" 'a | E_store "64 word" 'a | E_load "64 word" | E_adv | E_check "64 word"
  | E_scan "64 word" "64 word" | E_cas "64 word" "64 word"

text \<open>
  The store of \<open>READY\<close> has release order and the loads that follow it have acquire order: the store may become visible after them.
  \<open>e_buf\<close> holds it until then. A thread sees its own store at once; a successful read-modify-write (acquire and release order) comes after it.
  \<open>e_vals\<close> is the list of the values in the order of their indices and \<open>e_lost\<close> the set of the indices whose call threw (both ghost).
\<close>

record 'a esys =
  e_vec :: "'a lfv"
  e_pc :: "nat \<Rightarrow> 'a epc"
  e_buf :: "nat \<Rightarrow> (64 word \<times> 'a) option"
  e_vals :: "'a list"
  e_lost :: "64 word set"

definition esys_init :: "'a esys" where
  "esys_init = \<lparr>e_vec = lfv_new, e_pc = (\<lambda>_. E_idle), e_buf = (\<lambda>_. None), e_vals = [], e_lost = {}\<rparr>"

definition e_jump :: "nat \<Rightarrow> 'a epc \<Rightarrow> 'a lfv \<Rightarrow> 'a esys \<Rightarrow> 'a esys" where
  "e_jump t l v s = s\<lparr>e_vec := v, e_pc := (e_pc s)(t := l)\<rparr>"

definition e_view :: "'a esys \<Rightarrow> nat \<Rightarrow> 'a lfv" where
  "e_view s t = (case e_buf s t of None \<Rightarrow> e_vec s | Some (i, x) \<Rightarrow> put_vcell i (V_ready x) (e_vec s))"

text \<open>
  \<open>sc\<close> tells that the store of \<open>READY\<close> is visible before the loads that follow it, as with sequentially consistent order. \<open>mem\<close> tells for which levels
  an allocation never fails; \<open>m\<close> is the success of the allocations of one call. A thread that found no bucket and cannot
  allocate one throws, also when another thread has installed the bucket meanwhile.
\<close>

inductive e_step :: "bool \<Rightarrow> (nat \<Rightarrow> bool) \<Rightarrow> 'a esys \<Rightarrow> 'a esys \<Rightarrow> bool" for sc mem where
  e_alloc: "e_pc s t = E_idle \<Longrightarrow> e_buf s t = None \<Longrightarrow> length (e_vals s) < 2 ^ 63 \<Longrightarrow> v = e_vec s \<Longrightarrow>
    e_step sc mem s (e_jump t (E_bucket (alloc_idx v) x) (v\<lparr>alloc_idx := alloc_idx v + 1\<rparr>) (s\<lparr>e_vals := e_vals s @ [x]\<rparr>))"
| e_ensure: "e_pc s t = E_bucket i x \<Longrightarrow> (\<And>L. mem L \<Longrightarrow> m L) \<Longrightarrow> ensure_bucket m (fst (locate i)) (e_vec s) = (True, v) \<Longrightarrow>
    e_step sc mem s (e_jump t (E_cell i x) v s)"
| e_throw: "e_pc s t = E_bucket i x \<Longrightarrow> (\<And>L. mem L \<Longrightarrow> m L) \<Longrightarrow> ensure_bucket m (fst (locate i)) (lfv_new :: 'a lfv) = (False, v) \<Longrightarrow>
    e_step sc mem s (e_jump t E_idle (e_vec s) (s\<lparr>e_lost := insert i (e_lost s)\<rparr>))"
| e_claim: "e_pc s t = E_cell i x \<Longrightarrow> vcell_at (e_vec s) i = Some V_empty \<Longrightarrow>
    e_step sc mem s (e_jump t (E_store i x) (put_vcell i V_writing (e_vec s)) s)"
| e_ready: "e_pc s t = E_store i x \<Longrightarrow> sc \<Longrightarrow> e_step sc mem s (e_jump t (E_load i) (put_vcell i (V_ready x) (e_vec s)) s)"
| e_buffer: "e_pc s t = E_store i x \<Longrightarrow> \<not> sc \<Longrightarrow> e_step sc mem s (e_jump t (E_load i) (e_vec s) (s\<lparr>e_buf := (e_buf s)(t \<mapsto> (i, x))\<rparr>))"
| e_flush: "e_buf s t = Some (i, x) \<Longrightarrow>
    e_step sc mem s (s\<lparr>e_vec := put_vcell i (V_ready x) (e_vec s), e_buf := (e_buf s)(t := None)\<rparr>)"
| e_load: "e_pc s t = E_load i \<Longrightarrow> e_step sc mem s (e_jump t (if i = published (e_vec s) then E_adv else E_idle) (e_vec s) s)"
| e_adv: "e_pc s t = E_adv \<Longrightarrow> e_step sc mem s (e_jump t (E_check (published (e_vec s))) (e_vec s) s)"
| e_check: "e_pc s t = E_check cur \<Longrightarrow>
    e_step sc mem s (e_jump t (if is_ready (vcell_at (e_view s t) cur) then E_scan cur cur else E_idle) (e_vec s) s)"
| e_scan: "e_pc s t = E_scan cur scan \<Longrightarrow>
    e_step sc mem s (e_jump t (if is_ready (vcell_at (e_view s t) scan) then E_scan cur (scan + 1) else E_cas cur scan) (e_vec s) s)"
| e_cas: "e_pc s t = E_cas cur scan \<Longrightarrow> e_buf s t = None \<Longrightarrow> published (e_vec s) = cur \<Longrightarrow>
    e_step sc mem s (e_jump t E_adv ((e_vec s)\<lparr>published := scan\<rparr>) s)"
| e_cas_fail: "e_pc s t = E_cas cur scan \<Longrightarrow> e_step sc mem s (e_jump t E_adv (e_vec s) s)"

subsection \<open>Invariant\<close>

text \<open>The index and value a thread still has to store, and the threads that will look at \<open>published_\<close> again.\<close>

fun e_todo :: "'a epc \<Rightarrow> (64 word \<times> 'a) option" where
  "e_todo (E_bucket i x) = Some (i, x)"
| "e_todo (E_cell i x) = Some (i, x)"
| "e_todo (E_store i x) = Some (i, x)"
| "e_todo _ = None"

definition e_owes :: "'a esys \<Rightarrow> nat \<Rightarrow> (64 word \<times> 'a) option" where
  "e_owes s t = (if e_buf s t = None then e_todo (e_pc s t) else e_buf s t)"

fun e_looks :: "64 word \<Rightarrow> 'a epc \<Rightarrow> bool" where
  "e_looks p (E_load i) \<longleftrightarrow> i = p"
| "e_looks p E_adv \<longleftrightarrow> True"
| "e_looks p (E_check cur) \<longleftrightarrow> True"
| "e_looks p (E_scan cur scan) \<longleftrightarrow> True"
| "e_looks p (E_cas cur scan) \<longleftrightarrow> True"
| "e_looks p _ \<longleftrightarrow> False"

definition e_watched :: "'a esys \<Rightarrow> bool" where
  "e_watched s \<longleftrightarrow> (is_ready (vcell_at (e_vec s) (published (e_vec s))) \<longrightarrow> (\<exists>t. e_looks (published (e_vec s)) (e_pc s t)))"

definition all_ready :: "'a lfv \<Rightarrow> 64 word \<Rightarrow> bool" where
  "all_ready v n \<longleftrightarrow> (\<forall>i. i < n \<longrightarrow> is_ready (vcell_at v i))"

fun epc_ok :: "'a lfv \<Rightarrow> 'a epc \<Rightarrow> bool" where
  "epc_ok v (E_bucket i x) \<longleftrightarrow> vcell_at v i \<in> {None, Some V_empty}"
| "epc_ok v (E_cell i x) \<longleftrightarrow> vcell_at v i = Some V_empty"
| "epc_ok v (E_store i x) \<longleftrightarrow> vcell_at v i = Some V_writing"
| "epc_ok v (E_load i) \<longleftrightarrow> i < alloc_idx v"
| "epc_ok v (E_check cur) \<longleftrightarrow> cur \<le> published v"
| "epc_ok v (E_scan cur scan) \<longleftrightarrow> scan \<le> alloc_idx v \<and> all_ready v scan \<and> cur \<le> scan"
| "epc_ok v (E_cas cur scan) \<longleftrightarrow> scan \<le> alloc_idx v \<and> all_ready v scan \<and> cur \<le> scan"
| "epc_ok v _ \<longleftrightarrow> True"

definition e_thread_ok :: "'a esys \<Rightarrow> nat \<Rightarrow> bool" where
  "e_thread_ok s t \<longleftrightarrow> epc_ok (e_view s t) (e_pc s t) \<and>
     (\<forall>i x. e_buf s t = Some (i, x) \<longrightarrow> vcell_at (e_vec s) i = Some V_writing \<and> e_todo (e_pc s t) = None)"

text \<open>Every allocated index is stored with its value, being stored, or lost.\<close>

definition e_cell_ok :: "'a esys \<Rightarrow> 64 word \<Rightarrow> bool" where
  "e_cell_ok s i \<longleftrightarrow> (if i < alloc_idx (e_vec s)
     then vcell_at (e_vec s) i = Some (V_ready (e_vals s ! unat i)) \<or> (\<exists>t. e_owes s t = Some (i, e_vals s ! unat i)) \<or> i \<in> e_lost s \<and> \<not> is_ready (vcell_at (e_vec s) i)
     else vcell_at (e_vec s) i \<in> {None, Some V_empty})"

definition e_inv :: "bool \<Rightarrow> (nat \<Rightarrow> bool) \<Rightarrow> 'a esys \<Rightarrow> bool" where
  "e_inv sc mem s \<longleftrightarrow> vec_wf (e_vec s) \<and> length (e_vals s) \<le> 2 ^ 63 \<and> unat (alloc_idx (e_vec s)) = length (e_vals s) \<and>
     published (e_vec s) \<le> alloc_idx (e_vec s) \<and> all_ready (e_vec s) (published (e_vec s)) \<and> (\<forall>i. i \<noteq> - 1 \<longrightarrow> e_cell_ok s i) \<and>
     (\<forall>t i x. e_owes s t = Some (i, x) \<longrightarrow> i < alloc_idx (e_vec s) \<and> x = e_vals s ! unat i \<and> i \<notin> e_lost s) \<and>
     (\<forall>t u i x y. e_owes s t = Some (i, x) \<and> e_owes s u = Some (i, y) \<longrightarrow> t = u) \<and> (\<forall>t. e_thread_ok s t) \<and>
     (\<forall>i. i \<in> e_lost s \<longrightarrow> i < alloc_idx (e_vec s) \<and> ((\<forall>L\<le>24. mem L) \<longrightarrow> vec_max \<le> unat i)) \<and>
     (sc \<longrightarrow> (\<forall>t. e_buf s t = None) \<and> e_watched s)"

lemma e_invD:
  assumes "e_inv sc mem s"
  shows "vec_wf (e_vec s)" "length (e_vals s) \<le> 2 ^ 63" "unat (alloc_idx (e_vec s)) = length (e_vals s)" "published (e_vec s) \<le> alloc_idx (e_vec s)"
    "all_ready (e_vec s) (published (e_vec s))" "i \<noteq> - 1 \<Longrightarrow> e_cell_ok s i" "e_owes s t = Some (i, x) \<Longrightarrow> i < alloc_idx (e_vec s) \<and> x = e_vals s ! unat i \<and> i \<notin> e_lost s"
    "e_owes s t = Some (i, x) \<Longrightarrow> e_owes s u = Some (i, y) \<Longrightarrow> t = u" "e_thread_ok s t"
    "i \<in> e_lost s \<Longrightarrow> i < alloc_idx (e_vec s) \<and> ((\<forall>L\<le>24. mem L) \<longrightarrow> vec_max \<le> unat i)"
    "sc \<Longrightarrow> e_buf s t = None" "sc \<Longrightarrow> e_watched s"
  using assms unfolding e_inv_def by blast+

lemma e_invI:
  assumes "vec_wf (e_vec s)" "length (e_vals s) \<le> 2 ^ 63" "unat (alloc_idx (e_vec s)) = length (e_vals s)" "published (e_vec s) \<le> alloc_idx (e_vec s)"
    "all_ready (e_vec s) (published (e_vec s))" "\<And>i. i \<noteq> - 1 \<Longrightarrow> e_cell_ok s i"
    "\<And>t i x. e_owes s t = Some (i, x) \<Longrightarrow> i < alloc_idx (e_vec s) \<and> x = e_vals s ! unat i \<and> i \<notin> e_lost s"
    "\<And>t u i x y. e_owes s t = Some (i, x) \<Longrightarrow> e_owes s u = Some (i, y) \<Longrightarrow> t = u" "\<And>t. e_thread_ok s t"
    "\<And>i. i \<in> e_lost s \<Longrightarrow> i < alloc_idx (e_vec s) \<and> ((\<forall>L\<le>24. mem L) \<longrightarrow> vec_max \<le> unat i)"
    "\<And>t. sc \<Longrightarrow> e_buf s t = None" "sc \<Longrightarrow> e_watched s"
  shows "e_inv sc mem s"
  using assms unfolding e_inv_def by blast

text \<open>Cells that become ready stay so; the other program points depend on their own cell only.\<close>

lemma epc_ok_mono:
  assumes "epc_ok v l" "alloc_idx v \<le> alloc_idx w" "published v \<le> published w" "\<And>i. is_ready (vcell_at v i) \<Longrightarrow> i < alloc_idx v \<Longrightarrow> is_ready (vcell_at w i)"
    "\<And>i x. e_todo l = Some (i, x) \<Longrightarrow> vcell_at w i = vcell_at v i \<or> vcell_at v i = None \<and> vcell_at w i = Some V_empty"
  shows "epc_ok w l"
  using assms by (cases l) (fastforce simp: all_ready_def)+

lemma index_ok:
  assumes "e_inv sc mem s" "i < alloc_idx (e_vec s)"
  shows "i \<noteq> - 1" "unat i < length (e_vals s)" "unat i < 2 ^ 63"
proof -
  show l: "unat i < length (e_vals s)" "unat i < 2 ^ 63" using assms(2) e_invD(2,3) [OF assms(1)] by (simp_all add: word_less_nat_alt)
  then show "i \<noteq> - 1" by (intro not_minus_one)
qed

lemma e_view_fields [simp]: "alloc_idx (e_view s t) = alloc_idx (e_vec s)" "published (e_view s t) = published (e_vec s)"
  by (simp_all add: e_view_def split: option.splits prod.splits)

lemma e_view_None: "e_buf s t = None \<Longrightarrow> e_view s t = e_vec s"
  by (simp add: e_view_def)

lemma e_view_cell:
  assumes "vec_wf (e_vec s)" "j \<noteq> - 1" "\<And>i x. e_buf s t = Some (i, x) \<Longrightarrow> i \<noteq> - 1 \<and> vcell_at (e_vec s) i \<noteq> None"
  shows "vcell_at (e_view s t) j = (case e_buf s t of Some (i, x) \<Rightarrow> if j = i then Some (V_ready x) else vcell_at (e_vec s) j | None \<Rightarrow> vcell_at (e_vec s) j)"
  using assms vcell_set [OF assms(1) _ assms(2)] by (auto simp: e_view_def split: option.splits)

text \<open>What a thread still has to store is not ready in the vector, and ready in its view only when it is buffered.\<close>

lemma owed_not_ready:
  assumes inv: "e_inv sc mem s" and o: "e_owes s t = Some (i, x)"
  shows "\<not> is_ready (vcell_at (e_vec s) i)"
proof (cases "e_buf s t")
  case None
  then have "epc_ok (e_vec s) (e_pc s t)" "e_todo (e_pc s t) = Some (i, x)" using e_invD(9) [OF inv, of t] o by (simp_all add: e_thread_ok_def e_view_None e_owes_def)
  then show ?thesis by (cases "e_pc s t") auto
next
  case (Some p)
  then show ?thesis using e_invD(9) [OF inv, of t] o by (cases p) (auto simp: e_thread_ok_def e_owes_def)
qed

lemma view_cell:
  assumes inv: "e_inv sc mem s" and j: "j \<noteq> - 1"
  shows "vcell_at (e_view s t) j = (case e_buf s t of Some (i, x) \<Rightarrow> if j = i then Some (V_ready x) else vcell_at (e_vec s) j | None \<Rightarrow> vcell_at (e_vec s) j)"
proof (rule e_view_cell [OF e_invD(1) [OF inv] j])
  show "i \<noteq> - 1 \<and> vcell_at (e_vec s) i \<noteq> None" if "e_buf s t = Some (i, x)" for i x
    using e_invD(7) [OF inv, of t i x] e_invD(9) [OF inv, of t] index_ok(1) [OF inv, of i] that by (auto simp: e_owes_def e_thread_ok_def)
qed

text \<open>
  A step of thread \<open>t\<close> that allocates no index: only the cell the thread owes and absent cells change, and what it owed is
  stored, still owed, or lost.
\<close>

definition e_change :: "bool \<Rightarrow> (nat \<Rightarrow> bool) \<Rightarrow> 'a esys \<Rightarrow> 'a esys \<Rightarrow> nat \<Rightarrow> bool" where
  "e_change sc mem s s' t \<longleftrightarrow> e_inv sc mem s \<and>
     (\<forall>u. u \<noteq> t \<longrightarrow> e_pc s' u = e_pc s u \<and> e_buf s' u = e_buf s u) \<and>
     e_vals s' = e_vals s \<and> alloc_idx (e_vec s') = alloc_idx (e_vec s) \<and> vec_wf (e_vec s') \<and>
     published (e_vec s) \<le> published (e_vec s') \<and> published (e_vec s') \<le> alloc_idx (e_vec s) \<and> all_ready (e_vec s') (published (e_vec s')) \<and>
     (\<forall>j. j \<noteq> - 1 \<longrightarrow> vcell_at (e_vec s') j = vcell_at (e_vec s) j \<or> (\<exists>x. e_owes s t = Some (j, x))
       \<or> vcell_at (e_vec s) j = None \<and> vcell_at (e_vec s') j = Some V_empty) \<and>
     (\<forall>i x. e_owes s t = Some (i, x) \<longrightarrow> vcell_at (e_vec s') i = Some (V_ready x) \<and> e_owes s' t = None \<or> e_owes s' t = Some (i, x) \<and> e_lost s' = e_lost s
       \<or> e_owes s' t = None \<and> i \<in> e_lost s' \<and> \<not> is_ready (vcell_at (e_vec s') i)) \<and>
     (e_owes s t = None \<longrightarrow> e_owes s' t = None) \<and>
     (e_lost s' = e_lost s \<or> (\<exists>i x. e_owes s t = Some (i, x) \<and> e_lost s' = insert i (e_lost s) \<and> ((\<forall>L\<le>24. mem L) \<longrightarrow> vec_max \<le> unat i))) \<and>
     e_thread_ok s' t \<and> (sc \<longrightarrow> e_buf s' t = None \<and> e_watched s')"

lemma e_changeD:
  assumes "e_change sc mem s s' t"
  shows "e_inv sc mem s" "u \<noteq> t \<Longrightarrow> e_pc s' u = e_pc s u \<and> e_buf s' u = e_buf s u" "e_vals s' = e_vals s"
    "alloc_idx (e_vec s') = alloc_idx (e_vec s)" "vec_wf (e_vec s')" "published (e_vec s) \<le> published (e_vec s')"
    "published (e_vec s') \<le> alloc_idx (e_vec s)" "all_ready (e_vec s') (published (e_vec s'))"
    "j \<noteq> - 1 \<Longrightarrow> vcell_at (e_vec s') j = vcell_at (e_vec s) j \<or> (\<exists>x. e_owes s t = Some (j, x))
      \<or> vcell_at (e_vec s) j = None \<and> vcell_at (e_vec s') j = Some V_empty"
    "e_owes s t = Some (i, x) \<Longrightarrow> vcell_at (e_vec s') i = Some (V_ready x) \<and> e_owes s' t = None \<or> e_owes s' t = Some (i, x) \<and> e_lost s' = e_lost s
      \<or> e_owes s' t = None \<and> i \<in> e_lost s' \<and> \<not> is_ready (vcell_at (e_vec s') i)"
    "e_owes s t = None \<Longrightarrow> e_owes s' t = None"
    "e_lost s' = e_lost s \<or> (\<exists>i x. e_owes s t = Some (i, x) \<and> e_lost s' = insert i (e_lost s) \<and> ((\<forall>L\<le>24. mem L) \<longrightarrow> vec_max \<le> unat i))"
    "e_thread_ok s' t" "sc \<Longrightarrow> e_buf s' t = None" "sc \<Longrightarrow> e_watched s'"
  using assms unfolding e_change_def by blast+

lemma owes_other: "e_change sc mem s s' t \<Longrightarrow> u \<noteq> t \<Longrightarrow> e_owes s' u = e_owes s u"
  using e_changeD(2) [of sc mem s s' t u] by (simp add: e_owes_def)

lemma owes_sub:
  assumes ch: "e_change sc mem s s' t"
  shows "e_owes s' u = Some (i, x) \<Longrightarrow> e_owes s u = Some (i, x)"
proof (cases "u = t")
  case True
  assume "e_owes s' u = Some (i, x)"
  then show ?thesis using True e_changeD(10,11) [OF ch] by (cases "e_owes s t") fastforce+
qed (simp add: owes_other [OF ch])

lemma keep_other:
  assumes ch: "e_change sc mem s s' t" and "e_owes s u = Some (i, x)" "u \<noteq> t"
  shows "vcell_at (e_vec s') i = vcell_at (e_vec s) i \<or> vcell_at (e_vec s) i = None \<and> vcell_at (e_vec s') i = Some V_empty"
  using e_changeD(9) [OF ch, of i] e_invD(8) [OF e_changeD(1) [OF ch] assms(2), of t] assms(3) index_ok(1) [OF e_changeD(1) [OF ch]] e_invD(7) [OF e_changeD(1) [OF ch] assms(2)] by blast

lemma ready_mono:
  assumes ch: "e_change sc mem s s' t" and "is_ready (vcell_at (e_vec s) j)" "j < alloc_idx (e_vec s)"
  shows "is_ready (vcell_at (e_vec s') j)"
  using e_changeD(9) [OF ch index_ok(1) [OF e_changeD(1) [OF ch] assms(3)]] assms(2) owed_not_ready [OF e_changeD(1) [OF ch], of t j] by auto

lemma thread_other:
  assumes ch: "e_change sc mem s s' t" and u: "u \<noteq> t"
  shows "e_thread_ok s' u"
proof -
  have ok: "e_thread_ok s u" by (rule e_invD(9) [OF e_changeD(1) [OF ch]])
  have buf: "vcell_at (e_vec s') i = Some V_writing \<and> i \<noteq> - 1" if "e_buf s u = Some (i, x)" for i x
  proof -
    have o: "e_owes s u = Some (i, x)" using that by (simp add: e_owes_def)
    then show ?thesis using keep_other [OF ch o u] ok that index_ok(1) [OF e_changeD(1) [OF ch]] e_invD(7) [OF e_changeD(1) [OF ch] o] by (auto simp: e_thread_ok_def)
  qed
  have view: "vcell_at (e_view s' u) j = (case e_buf s u of Some (i, x) \<Rightarrow> if j = i then Some (V_ready x) else vcell_at (e_vec s') j | None \<Rightarrow> vcell_at (e_vec s') j)"
    if "j \<noteq> - 1" for j
    using e_view_cell [OF e_changeD(5) [OF ch] that, of u] buf e_changeD(2) [OF ch u] by auto
  have "epc_ok (e_view s' u) (e_pc s u)"
  proof (rule epc_ok_mono [of "e_view s u"])
    show "is_ready (vcell_at (e_view s' u) j)" if "is_ready (vcell_at (e_view s u) j)" "j < alloc_idx (e_view s u)" for j
    proof -
      have j: "j < alloc_idx (e_vec s)" "j \<noteq> - 1" using that(2) index_ok(1) [OF e_changeD(1) [OF ch]] by simp_all
      show ?thesis using that(1) ready_mono [OF ch _ j(1)] unfolding view [OF j(2)] view_cell [OF e_changeD(1) [OF ch] j(2)] by (auto split: option.splits)
    qed
    show "vcell_at (e_view s' u) i = vcell_at (e_view s u) i \<or> vcell_at (e_view s u) i = None \<and> vcell_at (e_view s' u) i = Some V_empty"
      if td: "e_todo (e_pc s u) = Some (i, x)" for i x
    proof -
      have n: "e_buf s u = None" using ok td by (cases "e_buf s u") (auto simp: e_thread_ok_def)
      then have "e_owes s u = Some (i, x)" using td by (simp add: e_owes_def)
      then show ?thesis using keep_other [OF ch _ u] n e_changeD(2) [OF ch u] by (simp add: e_view_None)
    qed
  qed (use ok e_changeD(4) [OF ch] e_changeD(6) [OF ch] in \<open>simp_all add: e_thread_ok_def\<close>)
  then show ?thesis using buf ok e_changeD(2) [OF ch u] by (auto simp: e_thread_ok_def)
qed

lemma e_change_cell:
  assumes ch: "e_change sc mem s s' t" and "j \<noteq> - 1"
  shows "e_cell_ok s' j"
proof (cases "j < alloc_idx (e_vec s)")
  case True
  show ?thesis
  proof (cases "\<exists>u x. e_owes s u = Some (j, x)")
    case owed': True
    then obtain u x where u: "e_owes s u = Some (j, x)" by blast
    then have x: "x = e_vals s ! unat j" using e_invD(7) [OF e_changeD(1) [OF ch] u] by blast
    show ?thesis
    proof (cases "u = t")
      case ut: True
      show ?thesis using e_changeD(10) [OF ch, of j x] u True ut x e_changeD(4) [OF ch] e_changeD(3) [OF ch] unfolding e_cell_ok_def by (auto simp del: not_None_eq)
    next
      case False
      then show ?thesis using owes_other [OF ch, of u] u x True e_changeD(4) [OF ch] e_changeD(3) [OF ch] unfolding e_cell_ok_def by auto
    qed
  next
    case no: False
    have c: "vcell_at (e_vec s') j = vcell_at (e_vec s) j \<or> vcell_at (e_vec s) j = None \<and> vcell_at (e_vec s') j = Some V_empty"
      using e_changeD(9) [OF ch assms(2)] no by blast
    moreover have "j \<in> e_lost s \<Longrightarrow> j \<in> e_lost s'" using e_changeD(12) [OF ch] by auto
    ultimately show ?thesis using e_invD(6) [OF e_changeD(1) [OF ch] assms(2)] no True e_changeD(4) [OF ch] e_changeD(3) [OF ch] unfolding e_cell_ok_def by auto
  qed
next
  case False
  then have "\<not> (\<exists>x. e_owes s t = Some (j, x))" using e_invD(7) [OF e_changeD(1) [OF ch], of t j] by blast
  then show ?thesis using e_changeD(9) [OF ch assms(2)] e_invD(6) [OF e_changeD(1) [OF ch] assms(2)] False e_changeD(4) [OF ch] by (auto simp: e_cell_ok_def)
qed

lemma e_change_inv:
  assumes ch: "e_change sc mem s s' t"
  shows "e_inv sc mem s'"
proof (rule e_invI)
  note D = e_invD [OF e_changeD(1) [OF ch]]
  show "i < alloc_idx (e_vec s') \<and> x = e_vals s' ! unat i \<and> i \<notin> e_lost s'" if "e_owes s' u = Some (i, x)" for u i x
  proof -
    have o: "e_owes s u = Some (i, x)" by (rule owes_sub [OF ch that])
    have "i \<notin> e_lost s'"
    proof
      assume l: "i \<in> e_lost s'"
      then have ne: "e_lost s' \<noteq> e_lost s" using D(7) [OF o] by auto
      then obtain y where y: "e_owes s t = Some (i, y)" using l e_changeD(12) [OF ch] D(7) [OF o] by auto
      then have "u = t" using D(8) [OF o] by blast
      then show False using e_changeD(10) [OF ch y] that ne by auto
    qed
    then show ?thesis using D(7) [OF o] e_changeD(4) [OF ch] e_changeD(3) [OF ch] by simp
  qed
  show "u = w" if "e_owes s' u = Some (i, x)" "e_owes s' w = Some (i, y)" for u w i x y using D(8) owes_sub [OF ch] that by blast
  show "e_thread_ok s' u" for u using e_changeD(13) [OF ch] thread_other [OF ch] by (cases "u = t") auto
  show "i < alloc_idx (e_vec s') \<and> ((\<forall>L\<le>24. mem L) \<longrightarrow> vec_max \<le> unat i)" if "i \<in> e_lost s'" for i
    using e_changeD(12) [OF ch] that D(10) [of i] D(7) [of t i] e_changeD(4) [OF ch] by auto
  show "e_buf s' u = None" if sc for u using D(11) [OF that, of u] e_changeD(2) [OF ch, of u] e_changeD(14) [OF ch that] by (cases "u = t") auto
qed (use e_invD [OF e_changeD(1) [OF ch]] e_change_cell [OF ch] e_changeD(3-8,14,15) [OF ch] in simp_all)


subsection \<open>The steps\<close>

lemma e_watched_jump:
  assumes "e_watched s" "is_ready (vcell_at (e_vec s) (published (e_vec s))) \<Longrightarrow> e_looks (published (e_vec s)) (e_pc s t) \<Longrightarrow> e_looks (published (e_vec s)) l"
  shows "e_watched (e_jump t l (e_vec s) s)"
  unfolding e_watched_def
proof
  assume "is_ready (vcell_at (e_vec (e_jump t l (e_vec s) s)) (published (e_vec (e_jump t l (e_vec s) s))))"
  then have r: "is_ready (vcell_at (e_vec s) (published (e_vec s)))" by (simp add: e_jump_def)
  then obtain u where "e_looks (published (e_vec s)) (e_pc s u)" using assms(1) by (auto simp: e_watched_def)
  then have "e_looks (published (e_vec s)) (((e_pc s)(t := l)) u)" using assms(2) [OF r] by (cases "u = t") auto
  then show "\<exists>u. e_looks (published (e_vec (e_jump t l (e_vec s) s))) (e_pc (e_jump t l (e_vec s) s) u)"
    by (intro exI [of _ u]) (simp add: e_jump_def)
qed

text \<open>A step that changes neither the vector nor the buffers.\<close>

lemma e_inv_jump:
  assumes inv: "e_inv sc mem s" and t: "e_todo (e_pc s t) = None" "e_todo l = None" and ok: "epc_ok (e_view s t) l"
    and look: "sc \<Longrightarrow> is_ready (vcell_at (e_vec s) (published (e_vec s))) \<Longrightarrow> e_looks (published (e_vec s)) (e_pc s t) \<Longrightarrow> e_looks (published (e_vec s)) l"
  shows "e_inv sc mem (e_jump t l (e_vec s) s)"
proof (rule e_change_inv [where t = t and s = s], unfold e_change_def, intro conjI)
  let ?s = "e_jump t l (e_vec s) s"
  note D = e_invD [OF inv]
  have vw: "e_view ?s t = e_view s t" by (cases "e_buf s t") (auto simp: e_view_def e_jump_def)
  have o: "e_owes ?s t = e_owes s t" using t by (simp add: e_owes_def e_jump_def)
  show "e_owes s t = None \<longrightarrow> e_owes ?s t = None" using o by simp
  show "\<forall>i x. e_owes s t = Some (i, x) \<longrightarrow> vcell_at (e_vec ?s) i = Some (V_ready x) \<and> e_owes ?s t = None \<or> e_owes ?s t = Some (i, x) \<and> e_lost ?s = e_lost s
       \<or> e_owes ?s t = None \<and> i \<in> e_lost ?s \<and> \<not> is_ready (vcell_at (e_vec ?s) i)" using o by (simp add: e_jump_def)
  show "e_thread_ok ?s t" using D(9) [of t] ok t vw by (simp add: e_thread_ok_def) (simp add: e_jump_def)
  show "sc \<longrightarrow> e_buf ?s t = None \<and> e_watched ?s" using D(11,12) e_watched_jump [of s t l] look by (simp add: e_jump_def)
qed (use inv e_invD [OF inv] in \<open>auto simp: e_jump_def\<close>)

text \<open>A store to the cell the thread owes, by its program point or from its buffer.\<close>

lemma e_inv_cell:
  assumes inv: "e_inv sc mem s" and ow: "e_owes s t = Some (i, x)" and ex: "vcell_at (e_vec s) i \<noteq> None"
    and s': "s' = s\<lparr>e_vec := put_vcell i c (e_vec s), e_pc := (e_pc s)(t := l), e_buf := (e_buf s)(t := None)\<rparr>"
    and l: "c = V_writing \<and> l = E_store i x \<or> c = V_ready x \<and> e_todo l = None \<and> (epc_ok (e_view s t) l \<and> l = e_pc s t \<or> l = E_load i)"
    and look: "sc \<Longrightarrow> l = E_store i x \<or> l = E_load i" "sc \<Longrightarrow> e_todo (e_pc s t) \<noteq> None"
  shows "e_inv sc mem s'"
proof (rule e_change_inv [where t = t and s = s], unfold e_change_def, intro conjI)
  note D = e_invD [OF inv]
  have i: "i < alloc_idx (e_vec s)" "i \<noteq> - 1" using D(7) [OF ow] index_ok(1) [OF inv] by blast+
  have v: "e_vec s' = put_vcell i c (e_vec s)" using s' by simp
  have ci: "vcell_at (e_vec s') i = Some c" using vcell_set [OF D(1) i(2) i(2)] ex unfolding v by auto
  have cj: "vcell_at (e_vec s') j = vcell_at (e_vec s) j" if "j \<noteq> i" "j \<noteq> - 1" for j using vcell_set [OF D(1) i(2) that(2)] that(1) unfolding v by simp
  have nr: "\<not> is_ready (vcell_at (e_vec s) i)" by (rule owed_not_ready [OF inv ow])
  have view: "e_view s' t = e_vec s'" using s' by (simp add: e_view_None)
  show "vec_wf (e_vec s')" using vec_wf_set [OF D(1)] unfolding v .
  have mono: "is_ready (vcell_at (e_vec s') j)" if "is_ready (vcell_at (e_vec s) j)" "j < alloc_idx (e_vec s)" for j
    using that cj [of j] nr index_ok(1) [OF inv that(2)] by (cases "j = i") auto
  show "all_ready (e_vec s') (published (e_vec s'))" using D(4,5) mono unfolding all_ready_def by (auto simp: v)
  show "\<forall>j. j \<noteq> - 1 \<longrightarrow> vcell_at (e_vec s') j = vcell_at (e_vec s) j \<or> (\<exists>x. e_owes s t = Some (j, x))
       \<or> vcell_at (e_vec s) j = None \<and> vcell_at (e_vec s') j = Some V_empty" using cj ow by metis
  show "\<forall>j y. e_owes s t = Some (j, y) \<longrightarrow> vcell_at (e_vec s') j = Some (V_ready y) \<and> e_owes s' t = None \<or> e_owes s' t = Some (j, y) \<and> e_lost s' = e_lost s
       \<or> e_owes s' t = None \<and> j \<in> e_lost s' \<and> \<not> is_ready (vcell_at (e_vec s') j)" using ow ci l s' by (auto simp: e_owes_def)
  show "e_thread_ok s' t"
  proof -
    have "epc_ok (e_vec s') l"
    proof (cases "epc_ok (e_view s t) l \<and> l = e_pc s t \<and> e_todo l = None \<and> c = V_ready x")
      case True
      have "is_ready (vcell_at (e_vec s') j)" if r: "is_ready (vcell_at (e_view s t) j)" "j < alloc_idx (e_view s t)" for j
      proof -
        have j: "j < alloc_idx (e_vec s)" "j \<noteq> - 1" using r(2) index_ok(1) [OF inv] by simp_all
        have "e_buf s t = None \<or> e_buf s t = Some (i, x)" using ow by (auto simp: e_owes_def split: if_splits)
        then show ?thesis using r(1) mono [OF _ j(1)] ci True unfolding view_cell [OF inv j(2)] by (auto split: if_splits)
      qed
      moreover have "epc_ok (e_view s t) l" "e_todo l = None" using True by blast+
      ultimately show ?thesis by (intro epc_ok_mono [of "e_view s t" l "e_vec s'"]) (use v in simp_all)
    next
      case False
      then have "l = E_store i x \<and> c = V_writing \<or> l = E_load i" using l by blast
      then show ?thesis using ci i(1) v by auto
    qed
    then show ?thesis using s' view by (simp add: e_thread_ok_def)
  qed
  show "sc \<longrightarrow> e_buf s' t = None \<and> e_watched s'"
  proof
    assume sc: sc
    have "e_watched s'" unfolding e_watched_def
    proof
      assume r: "is_ready (vcell_at (e_vec s') (published (e_vec s')))"
      show "\<exists>u. e_looks (published (e_vec s')) (e_pc s' u)"
      proof (cases "published (e_vec s) = i")
        case True
        then have "l = E_load i" using r ci l look [OF sc] by (auto simp: v)
        then show ?thesis using True s' by (intro exI [of _ t]) simp
      next
        case False
        have "published (e_vec s) \<noteq> - 1" using D(2,3,4) i(1) by (intro notI) (simp add: word_le_nat_alt word_less_nat_alt unsigned_minus_1_eq_mask mask_eq_exp_minus_1)
        then obtain u where u: "e_looks (published (e_vec s)) (e_pc s u)" using D(12) [OF sc] cj [of "published (e_vec s)"] r False by (auto simp: v e_watched_def)
        have "u \<noteq> t" using u look(2) [OF sc] by (cases "e_pc s t") auto
        then show ?thesis using u s' by (intro exI [of _ u]) simp
      qed
    qed
    then show "e_buf s' t = None \<and> e_watched s'" using s' by simp
  qed
qed (use inv e_invD [OF inv] ow s' in auto)

text \<open>The store of \<open>READY\<close> into the buffer.\<close>

lemma e_inv_buffer:
  assumes inv: "e_inv sc mem s" and t: "e_pc s t = E_store i x" and sc: "\<not> sc"
  shows "e_inv sc mem (e_jump t (E_load i) (e_vec s) (s\<lparr>e_buf := (e_buf s)(t \<mapsto> (i, x))\<rparr>))" (is "e_inv sc mem ?s")
proof (rule e_change_inv [where t = t and s = s], unfold e_change_def, intro conjI)
  note D = e_invD [OF inv]
  have b: "e_buf s t = None" using D(9) [of t] t by (cases "e_buf s t") (auto simp: e_thread_ok_def)
  have ow: "e_owes s t = Some (i, x)" "e_owes ?s t = Some (i, x)" using b t by (simp_all add: e_owes_def e_jump_def)
  have w: "vcell_at (e_vec s) i = Some V_writing" using D(9) [of t] t b by (simp add: e_thread_ok_def e_view_None)
  show "e_owes s t = None \<longrightarrow> e_owes ?s t = None" using ow by simp
  show "\<forall>j y. e_owes s t = Some (j, y) \<longrightarrow> vcell_at (e_vec ?s) j = Some (V_ready y) \<and> e_owes ?s t = None \<or> e_owes ?s t = Some (j, y) \<and> e_lost ?s = e_lost s
       \<or> e_owes ?s t = None \<and> j \<in> e_lost ?s \<and> \<not> is_ready (vcell_at (e_vec ?s) j)" using ow by (simp add: e_jump_def)
  have "e_pc ?s t = E_load i" "e_buf ?s t = Some (i, x)" "e_vec ?s = e_vec s" by (simp_all add: e_jump_def)
  then show "e_thread_ok ?s t" using w D(7) [OF ow(1)] by (simp add: e_thread_ok_def)
  show "sc \<longrightarrow> e_buf ?s t = None \<and> e_watched ?s" using sc by simp
qed (use inv e_invD [OF inv] in \<open>auto simp: e_jump_def\<close>)

text \<open>\<open>ensure_bucket\<close> succeeds, or the call throws.\<close>

lemma e_inv_ensure:
  assumes inv: "e_inv sc mem s" and t: "e_pc s t = E_bucket i x" and e: "ensure_bucket m (fst (locate i)) (e_vec s) = (True, w)"
  shows "e_inv sc mem (e_jump t (E_cell i x) w s)" (is "e_inv sc mem ?s")
proof (rule e_change_inv [where t = t and s = s], unfold e_change_def, intro conjI)
  note D = e_invD [OF inv]
  have b: "e_buf s t = None" using D(9) [of t] t by (cases "e_buf s t") (auto simp: e_thread_ok_def)
  have ow: "e_owes s t = Some (i, x)" "e_owes ?s t = Some (i, x)" using b t by (simp_all add: e_owes_def e_jump_def)
  have i: "i < alloc_idx (e_vec s)" "i \<noteq> - 1" using D(7) [OF ow(1)] index_ok(1) [OF inv] by blast+
  note W = ensure_bucket_cells [OF D(1) i(2) e]
  have v: "e_vec ?s = w" by (simp add: e_jump_def)
  have rd: "is_ready (vcell_at w j) \<longleftrightarrow> is_ready (vcell_at (e_vec s) j)" if "j \<noteq> - 1" for j using W(5) [OF that] by auto
  show "all_ready (e_vec ?s) (published (e_vec ?s))" unfolding all_ready_def v W(3)
  proof (intro allI impI)
    fix j assume j: "j < published (e_vec s)"
    then have "j \<noteq> - 1" using D(4) index_ok(1) [OF inv, of j] by simp
    then show "is_ready (vcell_at w j)" using rd D(5) j by (simp add: all_ready_def)
  qed
  show "\<forall>j. j \<noteq> - 1 \<longrightarrow> vcell_at (e_vec ?s) j = vcell_at (e_vec s) j \<or> (\<exists>x. e_owes s t = Some (j, x))
       \<or> vcell_at (e_vec s) j = None \<and> vcell_at (e_vec ?s) j = Some V_empty" using W(5) unfolding v by metis
  show "\<forall>j y. e_owes s t = Some (j, y) \<longrightarrow> vcell_at (e_vec ?s) j = Some (V_ready y) \<and> e_owes ?s t = None \<or> e_owes ?s t = Some (j, y) \<and> e_lost ?s = e_lost s
       \<or> e_owes ?s t = None \<and> j \<in> e_lost ?s \<and> \<not> is_ready (vcell_at (e_vec ?s) j)" using ow by (simp add: e_jump_def)
  have "vcell_at (e_vec s) i \<in> {None, Some V_empty}" using D(9) [of t] t b by (simp add: e_thread_ok_def e_view_None)
  then have "vcell_at w i = Some V_empty" using W(5) [OF i(2)] W(4) by auto
  then show "e_thread_ok ?s t" using b by (simp add: e_thread_ok_def e_jump_def e_view_None)
  show "sc \<longrightarrow> e_buf ?s t = None \<and> e_watched ?s"
  proof
    assume sc: sc
    have "published (e_vec s) \<noteq> - 1" using D(2,3,4) by (intro notI) (simp add: word_le_nat_alt unsigned_minus_1_eq_mask mask_eq_exp_minus_1)
    then have "is_ready (vcell_at w (published w)) \<longleftrightarrow> is_ready (vcell_at (e_vec s) (published (e_vec s)))" using rd W(3) by simp
    moreover have "e_looks p (e_pc ?s u) \<longleftrightarrow> e_looks p (e_pc s u)" for p u using t by (simp add: e_jump_def)
    ultimately have "e_watched ?s" using D(12) [OF sc] unfolding e_watched_def v W(3) by simp
    then show "e_buf ?s t = None \<and> e_watched ?s" using b by (simp add: e_jump_def)
  qed
  show "vec_wf (e_vec ?s)" "alloc_idx (e_vec ?s) = alloc_idx (e_vec s)" "published (e_vec s) \<le> published (e_vec ?s)" "published (e_vec ?s) \<le> alloc_idx (e_vec s)"
    using W(1-3) D(4) by (simp_all add: v)
  show "e_owes s t = None \<longrightarrow> e_owes ?s t = None" using ow by simp
qed (use inv in \<open>simp_all add: e_jump_def\<close>)

lemma ensure_bucket_fails:
  assumes e: "ensure_bucket m (fst (locate i)) (lfv_new :: 'a lfv) = (False, w)" and m: "\<forall>L\<le>24. m L" and i: "unat i < 2 ^ 63"
  shows "vec_max \<le> unat i"
proof (rule ccontr)
  assume "\<not> vec_max \<le> unat i"
  then obtain w' where "ensure_bucket m (fst (locate i)) (lfv_new :: 'a lfv) = (True, w')"
    by (rule_tac ensure_bucket_ok [of "lfv_new :: 'a lfv" i m]) (use m in \<open>auto simp: vec_wf_def lfv_new_def not_le\<close>)
  then show False using e by simp
qed

lemma e_inv_throw:
  assumes inv: "e_inv sc mem s" and t: "e_pc s t = E_bucket i x" and m: "\<And>L. mem L \<Longrightarrow> m L"
    and e: "ensure_bucket m (fst (locate i)) (lfv_new :: 'a lfv) = (False, w)"
  shows "e_inv sc mem (e_jump t E_idle (e_vec s) (s\<lparr>e_lost := insert i (e_lost s)\<rparr>))" (is "e_inv sc mem ?s")
proof (rule e_change_inv [where t = t and s = s], unfold e_change_def, intro conjI)
  note D = e_invD [OF inv]
  have b: "e_buf s t = None" using D(9) [of t] t by (cases "e_buf s t") (auto simp: e_thread_ok_def)
  have ow: "e_owes s t = Some (i, x)" "e_owes ?s t = None" using b t by (simp_all add: e_owes_def e_jump_def)
  have i: "i < alloc_idx (e_vec s)" using D(7) [OF ow(1)] by blast
  have nr: "\<not> is_ready (vcell_at (e_vec s) i)" by (rule owed_not_ready [OF inv ow(1)])
  show "\<forall>j y. e_owes s t = Some (j, y) \<longrightarrow> vcell_at (e_vec ?s) j = Some (V_ready y) \<and> e_owes ?s t = None \<or> e_owes ?s t = Some (j, y) \<and> e_lost ?s = e_lost s
       \<or> e_owes ?s t = None \<and> j \<in> e_lost ?s \<and> \<not> is_ready (vcell_at (e_vec ?s) j)" using ow nr by (simp add: e_jump_def)
  have "vec_max \<le> unat i" if "\<forall>L\<le>24. mem L" using ensure_bucket_fails [OF e _ index_ok(3) [OF inv i]] m that by blast
  then show "e_lost ?s = e_lost s \<or> (\<exists>i x. e_owes s t = Some (i, x) \<and> e_lost ?s = insert i (e_lost s) \<and> ((\<forall>L\<le>24. mem L) \<longrightarrow> vec_max \<le> unat i))"
    using ow by (simp add: e_jump_def)
  show "e_thread_ok ?s t" using b by (simp add: e_thread_ok_def e_jump_def)
  show "sc \<longrightarrow> e_buf ?s t = None \<and> e_watched ?s"
  proof
    assume sc: sc
    have "e_looks p (e_pc ?s u) \<longleftrightarrow> e_looks p (e_pc s u)" for p u using t by (simp add: e_jump_def)
    then have "e_watched ?s" using D(12) [OF sc] unfolding e_watched_def by (simp add: e_jump_def)
    then show "e_buf ?s t = None \<and> e_watched ?s" using b by (simp add: e_jump_def)
  qed
qed (use inv e_invD [OF inv] t in \<open>auto simp: e_jump_def e_owes_def\<close>)

lemma e_inv_cas:
  assumes inv: "e_inv sc mem s" and t: "e_pc s t = E_cas (published (e_vec s)) scan" and b: "e_buf s t = None"
  shows "e_inv sc mem (e_jump t E_adv ((e_vec s)\<lparr>published := scan\<rparr>) s)" (is "e_inv sc mem ?s")
proof (rule e_change_inv [where t = t and s = s], unfold e_change_def, intro conjI)
  note D = e_invD [OF inv]
  have sc: "scan \<le> alloc_idx (e_vec s)" "all_ready (e_vec s) scan" "published (e_vec s) \<le> scan"
    using D(9) [of t] t b by (simp_all add: e_thread_ok_def e_view_None)
  show "vec_wf (e_vec ?s)" using D(1) by (simp add: vec_wf_def e_jump_def)
  show "published (e_vec ?s) \<le> alloc_idx (e_vec s)" "all_ready (e_vec ?s) (published (e_vec ?s))" "published (e_vec s) \<le> published (e_vec ?s)"
    using sc by (simp_all add: e_jump_def all_ready_def)
  show "e_thread_ok ?s t" using b by (simp add: e_thread_ok_def e_jump_def)
  have "e_watched ?s" unfolding e_watched_def by (intro impI exI [of _ t]) (simp add: e_jump_def)
  then show "sc \<longrightarrow> e_buf ?s t = None \<and> e_watched ?s" using b by (simp add: e_jump_def)
qed (use inv e_invD [OF inv] t b in \<open>auto simp: e_jump_def e_owes_def\<close>)

lemma e_inv_alloc:
  assumes inv: "e_inv sc mem s" and t: "e_pc s t = E_idle" and b: "e_buf s t = None" and len: "length (e_vals s) < 2 ^ 63"
  shows "e_inv sc mem (e_jump t (E_bucket (alloc_idx (e_vec s)) x) ((e_vec s)\<lparr>alloc_idx := alloc_idx (e_vec s) + 1\<rparr>) (s\<lparr>e_vals := e_vals s @ [x]\<rparr>))" (is "e_inv sc mem ?s")
proof (rule e_invI)
  note D = e_invD [OF inv]
  let ?a = "alloc_idx (e_vec s)"
  have ua: "unat (?a + 1) = Suc (length (e_vals s))" using D(3) len unat_plus_one [of ?a] by simp
  have na: "?a \<noteq> - 1" using D(3) len by (intro not_minus_one) simp
  have lt: "i < ?a + 1 \<longleftrightarrow> i < ?a \<or> i = ?a" for i
    using ua D(3) by (auto simp: word_less_nat_alt) (metis less_antisym unsigned_word_eqI)
  have nth: "(e_vals s @ [x]) ! unat i = (if i = ?a then x else e_vals s ! unat i)" if "i < ?a \<or> i = ?a" for i
    using that D(3) by (auto simp: nth_append word_less_nat_alt)
  have free: "vcell_at (e_vec s) ?a \<in> {None, Some V_empty}" using D(6) [OF na] by (simp add: e_cell_ok_def)
  have ow: "e_owes ?s u = (if u = t then Some (?a, x) else e_owes s u)" for u using b by (simp add: e_owes_def e_jump_def)
  have now: "e_owes s t = None" using b t by (simp add: e_owes_def)
  have vc: "vcell_at (e_vec ?s) i = vcell_at (e_vec s) i" for i by (simp add: e_jump_def)
  have al: "alloc_idx (e_vec ?s) = ?a + 1" "e_vals ?s = e_vals s @ [x]" "e_lost ?s = e_lost s" "e_buf ?s = e_buf s" by (simp_all add: e_jump_def)
  show "length (e_vals ?s) \<le> 2 ^ 63" "unat (alloc_idx (e_vec ?s)) = length (e_vals ?s)" using len ua al by simp_all
  show "vec_wf (e_vec ?s)" using D(1) by (simp add: e_jump_def vec_wf_def)
  show "published (e_vec ?s) \<le> alloc_idx (e_vec ?s)" using D(3,4) ua by (simp add: e_jump_def word_le_nat_alt)
  show "all_ready (e_vec ?s) (published (e_vec ?s))" using D(5) by (simp add: e_jump_def all_ready_def)
  show "e_cell_ok ?s i" if i: "i \<noteq> - 1" for i
  proof (cases "i = ?a")
    case True
    then show ?thesis using nth [of i] lt [of i] ow [of t] unfolding e_cell_ok_def al vc by auto
  next
    case False
    have "(\<exists>u. e_owes ?s u = Some (i, y)) \<longleftrightarrow> (\<exists>u. e_owes s u = Some (i, y))" for y
      unfolding ow using False now by (auto split: if_splits) (metis option.distinct(1))
    then show ?thesis using D(6) [OF i] nth [of i] lt [of i] False unfolding e_cell_ok_def al vc by (auto split: if_splits)
  qed
  show "i < alloc_idx (e_vec ?s) \<and> y = e_vals ?s ! unat i \<and> i \<notin> e_lost ?s" if "e_owes ?s u = Some (i, y)" for u i y
    using that D(7) [of u i y] D(10) [of i] lt [of i] nth [of i] unfolding ow al by (auto split: if_splits)
  show "u = w" if "e_owes ?s u = Some (i, y)" "e_owes ?s w = Some (i, z)" for u w i y z
    using that D(7) [of u i y] D(7) [of w i z] D(8) [of u i y w z] unfolding ow by (auto split: if_splits)
  show "e_thread_ok ?s u" for u
  proof (cases "u = t")
    case True
    then show ?thesis using free b by (simp add: e_thread_ok_def e_jump_def e_view_None)
  next
    case False
    have v: "e_view ?s u = (e_view s u)\<lparr>alloc_idx := ?a + 1\<rparr>"
      by (cases "e_buf s u") (auto simp: e_view_def e_jump_def put_vcell_def split: prod.splits)
    have "epc_ok ((e_view s u)\<lparr>alloc_idx := ?a + 1\<rparr>) (e_pc s u)"
      by (rule epc_ok_mono [of "e_view s u"]) (use ua D(3) D(9) [of u] in \<open>simp_all add: word_le_nat_alt e_thread_ok_def\<close>)
    then show ?thesis using False D(9) [of u] unfolding e_thread_ok_def v by (simp add: e_jump_def)
  qed
  show "i < alloc_idx (e_vec ?s) \<and> ((\<forall>L\<le>24. mem L) \<longrightarrow> vec_max \<le> unat i)" if "i \<in> e_lost ?s" for i
    using D(10) [of i] that lt [of i] al by simp
  show "e_buf ?s u = None" if sc for u using D(11) [OF that] al by simp
  show "e_watched ?s" if sc: sc unfolding e_watched_def
  proof
    assume "is_ready (vcell_at (e_vec ?s) (published (e_vec ?s)))"
    then obtain u where u: "e_looks (published (e_vec s)) (e_pc s u)" using D(12) [OF sc] by (auto simp: e_jump_def e_watched_def)
    then have "u \<noteq> t" using t by auto
    then show "\<exists>u. e_looks (published (e_vec ?s)) (e_pc ?s u)" using u by (intro exI [of _ u]) (simp add: e_jump_def)
  qed
qed

lemma e_inv_scan:
  assumes inv: "e_inv sc mem s" and t: "e_pc s t = E_scan cur scan"
  shows "e_inv sc mem (e_jump t (if is_ready (vcell_at (e_view s t) scan) then E_scan cur (scan + 1) else E_cas cur scan) (e_vec s) s)"
proof -
  note D = e_invD [OF inv]
  have sc: "scan \<le> alloc_idx (e_vec s)" "all_ready (e_view s t) scan" "cur \<le> scan" using D(9) [of t] t by (simp_all add: e_thread_ok_def)
  show ?thesis
  proof (cases "is_ready (vcell_at (e_view s t) scan)")
    case True
    have n: "scan \<noteq> - 1" using sc(1) D(2,3) by (intro notI) (simp add: word_le_nat_alt unsigned_minus_1_eq_mask mask_eq_exp_minus_1)
    have "scan < alloc_idx (e_vec s)"
    proof (cases "is_ready (vcell_at (e_vec s) scan)")
      case True
      then show ?thesis using D(6) [OF n] by (auto simp: e_cell_ok_def split: if_splits)
    next
      case False
      then obtain x where "e_buf s t = Some (scan, x)" using True unfolding view_cell [OF inv n] by (auto split: option.splits if_splits)
      then show ?thesis using D(7) [of t scan x] by (simp add: e_owes_def)
    qed
    moreover from this have u: "unat (scan + 1) = unat scan + 1" using unat_plus_one index_ok(3) [OF inv] by blast
    moreover have "i < scan + 1 \<longleftrightarrow> i < scan \<or> i = scan" for i
      using u by (auto simp: word_less_nat_alt) (metis less_antisym unsigned_word_eqI)
    ultimately have "epc_ok (e_view s t) (E_scan cur (scan + 1))" using sc True by (auto simp: all_ready_def word_le_nat_alt word_less_nat_alt)
    then show ?thesis using e_inv_jump [OF inv, of t "E_scan cur (scan + 1)"] t True by simp
  next
    case False
    then show ?thesis using e_inv_jump [OF inv, of t "E_cas cur scan"] t sc by simp
  qed
qed

lemma e_inv_check:
  assumes inv: "e_inv sc mem s" and t: "e_pc s t = E_check cur"
  shows "e_inv sc mem (e_jump t (if is_ready (vcell_at (e_view s t) cur) then E_scan cur cur else E_idle) (e_vec s) s)"
proof -
  note D = e_invD [OF inv]
  have le: "cur \<le> published (e_vec s)" using D(9) [of t] t by (simp add: e_thread_ok_def)
  have all: "is_ready (vcell_at (e_view s t) j)" if "j < cur" for j
  proof -
    have j: "j < published (e_vec s)" "j \<noteq> - 1" using that le D(4) index_ok(1) [OF inv, of j] by simp_all
    then show ?thesis using D(5) unfolding view_cell [OF inv j(2)] by (auto simp: all_ready_def split: option.splits)
  qed
  show ?thesis
  proof (cases "is_ready (vcell_at (e_view s t) cur)")
    case True
    then show ?thesis using e_inv_jump [OF inv, of t "E_scan cur cur"] t all le D(4) by (auto simp: all_ready_def)
  next
    case False
    have "cur = published (e_vec s)" if sc using False le D(5) e_view_None [OF D(11) [OF that, of t]] by (auto simp: all_ready_def order.order_iff_strict)
    then have "\<not> is_ready (vcell_at (e_vec s) (published (e_vec s)))" if sc using that False e_view_None [OF D(11) [OF that, of t]] by simp
    then have "e_inv sc mem (e_jump t E_idle (e_vec s) s)" by (intro e_inv_jump [OF inv]) (use t in simp_all)
    then show ?thesis using False by simp
  qed
qed

lemma e_step_inv:
  assumes inv: "e_inv sc mem s" and step: "e_step sc mem s s'"
  shows "e_inv sc mem s'"
  using step
proof cases
  case (e_alloc t v x)
  then show ?thesis using e_inv_alloc [OF inv] by simp
next
  case (e_ensure t i x m v)
  then show ?thesis using e_inv_ensure [OF inv] by simp
next
  case (e_throw t i x m v)
  then show ?thesis using e_inv_throw [OF inv, of t i x m v] by simp
next
  case (e_claim t i x)
  then have b: "e_buf s t = None" using e_invD(9) [OF inv, of t] by (cases "e_buf s t") (auto simp: e_thread_ok_def)
  then have "s' = s\<lparr>e_vec := put_vcell i V_writing (e_vec s), e_pc := (e_pc s)(t := E_store i x), e_buf := (e_buf s)(t := None)\<rparr>"
    using e_claim(1) by (simp add: e_jump_def fun_upd_idem)
  from e_inv_cell [OF inv _ _ this, of x] show ?thesis using e_claim b by (simp add: e_owes_def)
next
  case (e_ready t i x)
  then have b: "e_buf s t = None" "vcell_at (e_vec s) i = Some V_writing"
    using e_invD(9) [OF inv, of t] e_invD(11) [OF inv, of t] by (simp_all add: e_thread_ok_def e_view_None)
  then have "s' = s\<lparr>e_vec := put_vcell i (V_ready x) (e_vec s), e_pc := (e_pc s)(t := E_load i), e_buf := (e_buf s)(t := None)\<rparr>"
    using e_ready(1) by (simp add: e_jump_def fun_upd_idem)
  from e_inv_cell [OF inv _ _ this, of x] show ?thesis using e_ready b by (simp add: e_owes_def)
next
  case (e_buffer t i x)
  then show ?thesis using e_inv_buffer [OF inv] by simp
next
  case (e_flush t i x)
  note T = e_invD(9) [OF inv, of t, unfolded e_thread_ok_def]
  have "s' = s\<lparr>e_vec := put_vcell i (V_ready x) (e_vec s), e_pc := (e_pc s)(t := e_pc s t), e_buf := (e_buf s)(t := None)\<rparr>"
    using e_flush(1) by simp
  from e_inv_cell [OF inv _ _ this, of x] show ?thesis using e_flush(2) T e_invD(11) [OF inv, of t] by (auto simp: e_owes_def)
next
  case (e_load t i)
  then show ?thesis using e_inv_jump [OF inv, of t "if i = published (e_vec s) then E_adv else E_idle"] by simp
next
  case (e_adv t)
  then show ?thesis using e_inv_jump [OF inv, of t "E_check (published (e_vec s))"] by simp
next
  case (e_check t cur)
  then show ?thesis using e_inv_check [OF inv] by simp
next
  case (e_scan t cur scan)
  then show ?thesis using e_inv_scan [OF inv] by simp
next
  case (e_cas t cur scan)
  then show ?thesis using e_inv_cas [OF inv] by simp
next
  case (e_cas_fail t cur scan)
  then show ?thesis using e_inv_jump [OF inv, of t E_adv] by simp
qed

interpretation evec: inv_system "\<lambda>s. s = esys_init" "e_step sc mem" "e_inv sc mem" for sc :: bool and mem :: "nat \<Rightarrow> bool"
proof
  show "e_inv sc mem s" if "s = esys_init" for s :: "'b esys"
    unfolding that by (rule e_invI)
      (auto simp: esys_init_def lfv_new_def vec_wf_def all_ready_def e_cell_ok_def e_owes_def e_thread_ok_def e_watched_def vcell_at_def split: prod.splits)
  show "e_inv sc mem s'" if "e_inv sc mem s" "e_step sc mem s s'" for s s' :: "'b esys" using e_step_inv that by blast
qed

text \<open>C32. Any number of threads call \<open>emplace_back\<close> in any interleaving, at most \<open>2 ^ 63\<close> times, whatever allocations fail. The published
  elements are those with the first indices, each with the value of the call that was given its index, and a call never waits for
  a cell of another one; this holds also when the store of \<open>READY\<close> becomes visible late, as its release order permits. If the store is visible before the
  loads that follow it (\<open>sc\<close>, stronger than the code), then once all calls have returned \<open>published_\<close> has reached either the end or the index
  of a call that threw \<open>bad_alloc\<close>, behind which nothing is ever published. While memory lasts no call of the first \<open>2 ^ 25 - 1\<close> throws.\<close>

theorem vector_emplace_concurrent:
  assumes "reach (\<lambda>s. s = esys_init) (e_step sc mem) s"
  shows "published (e_vec s) \<le> alloc_idx (e_vec s) \<and> unat (alloc_idx (e_vec s)) = length (e_vals s) \<and>
    (\<forall>i. i < published (e_vec s) \<longrightarrow> vec_at (e_vec s) i = Inr (e_vals s ! unat i)) \<and>
    (\<forall>t i x. e_pc s t = E_cell i x \<longrightarrow> vcell_at (e_vec s) i = Some V_empty) \<and>
    (sc \<and> (\<forall>t. e_pc s t = E_idle) \<longrightarrow> published (e_vec s) = alloc_idx (e_vec s) \<or> published (e_vec s) \<in> e_lost s) \<and>
    ((\<forall>L\<le>24. mem L) \<and> length (e_vals s) \<le> vec_max \<longrightarrow> e_lost s = {})"
proof -
  have inv: "e_inv sc mem s" by (rule evec.reach_inv [OF assms])
  note D = e_invD [OF inv]
  have "vec_at (e_vec s) i = Inr (e_vals s ! unat i)" if i: "i < published (e_vec s)" for i
  proof -
    have a: "i < alloc_idx (e_vec s)" using i D(4) by simp
    have rd: "is_ready (vcell_at (e_vec s) i)" using D(5) i by (simp add: all_ready_def)
    then have "e_owes s t \<noteq> Some (i, x)" for t x using owed_not_ready [OF inv] by blast
    then have "vcell_at (e_vec s) i = Some (V_ready (e_vals s ! unat i))" using D(6) [OF index_ok(1) [OF inv a]] a rd by (auto simp: e_cell_ok_def)
    then show ?thesis using i by (simp add: vec_at_def vec_index_def flip: not_less)
  qed
  moreover have "vcell_at (e_vec s) i = Some V_empty" if "e_pc s t = E_cell i x" for t i x
    using D(9) [of t] that by (cases "e_buf s t") (auto simp: e_thread_ok_def e_view_None)
  moreover have "published (e_vec s) = alloc_idx (e_vec s) \<or> published (e_vec s) \<in> e_lost s" if sc: sc and idle: "\<forall>t. e_pc s t = E_idle"
  proof (rule disjCI)
    let ?p = "published (e_vec s)"
    assume l: "?p \<notin> e_lost s"
    show "?p = alloc_idx (e_vec s)"
    proof (rule ccontr)
      assume "?p \<noteq> alloc_idx (e_vec s)"
      then have a: "?p < alloc_idx (e_vec s)" using D(4) by simp
      have "e_owes s t = None" for t using idle D(11) [OF sc] by (simp add: e_owes_def)
      then have "is_ready (vcell_at (e_vec s) ?p)" using D(6) [OF index_ok(1) [OF inv a]] a l by (simp add: e_cell_ok_def)
      then show False using D(12) [OF sc] idle by (simp add: e_watched_def)
    qed
  qed
  moreover have "e_lost s = {}" if "\<forall>L\<le>24. mem L" "length (e_vals s) \<le> vec_max"
  proof (rule ccontr)
    assume "e_lost s \<noteq> {}"
    then obtain i where i: "i \<in> e_lost s" by blast
    then show False using D(10) [OF i] index_ok(2) [OF inv, of i] that by simp
  qed
  ultimately show ?thesis using D(3,4) by blast
qed

subsection \<open>Runs of two threads\<close>

text \<open>States in which threads 0 and 1 append the first two elements.\<close>

definition two_vec :: "64 word \<Rightarrow> 64 word \<Rightarrow> 'a vcell option \<Rightarrow> 'a vcell option \<Rightarrow> 'a lfv" where
  "two_vec a p c0 c1 = \<lparr>alloc_idx = a, published = p,
     vbuckets = (\<lambda>L. if L = 0 then map_option (\<lambda>c. [c]) c0 else if L = 1 then map_option (\<lambda>c. [c, V_empty]) c1 else None)\<rparr>"

definition two_sys :: "'a lfv \<Rightarrow> 'a epc \<Rightarrow> 'a epc \<Rightarrow> (64 word \<times> 'a) option \<Rightarrow> (64 word \<times> 'a) option \<Rightarrow> 'a list \<Rightarrow> 'a esys" where
  "two_sys v l0 l1 b0 b1 xs = \<lparr>e_vec = v, e_pc = (\<lambda>t. if t = 0 then l0 else if t = 1 then l1 else E_idle),
     e_buf = (\<lambda>t. if t = 0 then b0 else if t = 1 then b1 else None), e_vals = xs, e_lost = {}\<rparr>"

lemma clz64_2: "clz64 2 = 62"
proof -
  define c where "c = clz64 2"
  have "2 \<noteq> (0 :: 64 word)" by simp
  note B = clz64_bounds [OF this, folded c_def]
  have "(2::nat) ^ (63 - c) \<le> 2 ^ 1" using B(2) by simp
  then have "63 - c \<le> 1" by (rule power_le_imp_le_exp [rotated]) simp
  moreover have "(2::nat) ^ 1 < 2 ^ (64 - c)" using B(3) by simp
  then have "1 < 64 - c" by (rule power_less_imp_less_exp [rotated]) simp
  ultimately show ?thesis using c_def by simp
qed

lemma pow2_01: "pow2 0 = 1" "pow2 1 = 2"
proof -
  have "unat (pow2 0) = unat (1 :: 64 word)" "unat (pow2 1) = unat (2 :: 64 word)" using pow2_unat [of 0] pow2_unat [of 1] by simp_all
  then show "pow2 0 = 1" "pow2 1 = 2" by (metis unsigned_word_eqI)+
qed

lemma replicate_2: "replicate 2 x = [x, x]"
  by (simp add: numeral_2_eq_2)

lemma locate_01: "locate 0 = (0, 0)" "locate 1 = (1, 0)"
proof -
  show "locate 0 = (0, 0)" by (simp add: locate_def Let_def pow2_01)
  have "fst (locate 1) = 63 - word_of_nat 62" by (simp add: locate_def Let_def clz64_2)
  then have L: "fst (locate 1) = 1" by simp
  then have "snd (locate 1) = 1 - (pow2 1 - 1)" by (auto simp: locate_def Let_def)
  then show "locate 1 = (1, 0)" using L by (simp add: prod_eq_iff pow2_01)
qed

lemma two_vec_simps:
  "alloc_idx (two_vec a p c0 c1) = a" "published (two_vec a p c0 c1) = p"
  "(two_vec a p c0 c1)\<lparr>alloc_idx := a'\<rparr> = two_vec a' p c0 c1" "(two_vec a p c0 c1)\<lparr>published := p'\<rparr> = two_vec a p' c0 c1"
  "vcell_at (two_vec a p c0 c1) 0 = c0" "vcell_at (two_vec a p c0 c1) 1 = c1"
  "put_vcell 0 c (two_vec a p (Some d) c1) = two_vec a p (Some c) c1" "put_vcell 1 c (two_vec a p c0 (Some d)) = two_vec a p c0 (Some c)"
  "ensure_bucket (\<lambda>_. True) (fst (locate 0)) (two_vec a p None c1) = (True, two_vec a p (Some V_empty) c1)"
  "ensure_bucket (\<lambda>_. True) (fst (locate 1)) (two_vec a p c0 None) = (True, two_vec a p c0 (Some V_empty))"
  by (simp_all add: two_vec_def locate_01 vcell_at_def put_vcell_def ensure_bucket_def Let_def pow2_01 replicate_2 fun_eq_iff option.map_comp o_def option.map_ident)

lemma two_sys_simps:
  "e_vec (two_sys v l0 l1 b0 b1 xs) = v" "e_pc (two_sys v l0 l1 b0 b1 xs) 0 = l0" "e_pc (two_sys v l0 l1 b0 b1 xs) 1 = l1"
  "e_buf (two_sys v l0 l1 b0 b1 xs) 0 = b0" "e_buf (two_sys v l0 l1 b0 b1 xs) 1 = b1" "e_vals (two_sys v l0 l1 b0 b1 xs) = xs"
  "e_lost (two_sys v l0 l1 b0 b1 xs) = {}"
  "e_jump 0 l w (two_sys v l0 l1 b0 b1 xs) = two_sys w l l1 b0 b1 xs" "e_jump 1 l w (two_sys v l0 l1 b0 b1 xs) = two_sys w l0 l b0 b1 xs"
  "(two_sys v l0 l1 b0 b1 xs)\<lparr>e_vals := ys\<rparr> = two_sys v l0 l1 b0 b1 ys"
  "(two_sys v l0 l1 b0 b1 xs)\<lparr>e_buf := (e_buf (two_sys v l0 l1 b0 b1 xs))(0 := b)\<rparr> = two_sys v l0 l1 b b1 xs"
  "(two_sys v l0 l1 b0 b1 xs)\<lparr>e_buf := (e_buf (two_sys v l0 l1 b0 b1 xs))(1 := b)\<rparr> = two_sys v l0 l1 b0 b xs"
  "(two_sys v l0 l1 b0 b1 xs)\<lparr>e_vec := w, e_buf := (e_buf (two_sys v l0 l1 b0 b1 xs))(0 := b)\<rparr> = two_sys w l0 l1 b b1 xs"
  "(two_sys v l0 l1 b0 b1 xs)\<lparr>e_vec := w, e_buf := (e_buf (two_sys v l0 l1 b0 b1 xs))(1 := b)\<rparr> = two_sys w l0 l1 b0 b xs"
  by (auto simp: two_sys_def e_jump_def fun_eq_iff)

lemma two_init: "esys_init = two_sys (two_vec 0 0 None None) E_idle E_idle None None []"
  by (simp add: esys_init_def two_sys_def two_vec_def lfv_new_def fun_eq_iff)

lemma reach_run: "reach P (e_step sc mem) s \<Longrightarrow> e_step sc mem s s' \<Longrightarrow> s' = s'' \<Longrightarrow> reach P (e_step sc mem) s''"
  by (drule (1) reach_step) simp

lemmas run_simps = two_vec_simps two_sys_simps two_sys_simps [unfolded One_nat_def] e_view_None

lemma published_run:
  "reach (\<lambda>s. s = esys_init) (e_step True (\<lambda>_. True)) (two_sys (two_vec 1 1 (Some (V_ready x)) None) E_idle E_idle None None [x])"
proof -
  let ?R = "\<lambda>v l. reach (\<lambda>s. s = esys_init) (e_step True (\<lambda>_. True)) (two_sys v l E_idle None None [x])"
  have "reach (\<lambda>s. s = esys_init) (e_step True (\<lambda>_. True)) (two_sys (two_vec 0 0 None None) E_idle E_idle None None [] :: 'a esys)"
    by (rule reach_init) (simp add: two_init)
  then have "?R (two_vec 1 0 None None) (E_bucket 0 x)"
    by (rule reach_run [OF _ e_step.e_alloc [where t = 0 and x = x and v = "two_vec 0 0 None None"]]) (simp add: run_simps)+
  then have "?R (two_vec 1 0 (Some V_empty) None) (E_cell 0 x)"
    by (rule reach_run [OF _ e_step.e_ensure [where t = 0 and m = "\<lambda>_. True"]]) (simp add: run_simps)+
  then have "?R (two_vec 1 0 (Some V_writing) None) (E_store 0 x)" by (rule reach_run [OF _ e_step.e_claim [where t = 0]]) (simp add: run_simps)+
  then have "?R (two_vec 1 0 (Some (V_ready x)) None) (E_load 0)" by (rule reach_run [OF _ e_step.e_ready [where t = 0]]) (simp add: run_simps)+
  then have "?R (two_vec 1 0 (Some (V_ready x)) None) E_adv" by (rule reach_run [OF _ e_step.e_load [where t = 0]]) (simp add: run_simps)+
  then have "?R (two_vec 1 0 (Some (V_ready x)) None) (E_check 0)" by (rule reach_run [OF _ e_step.e_adv [where t = 0]]) (simp add: run_simps)+
  then have "?R (two_vec 1 0 (Some (V_ready x)) None) (E_scan 0 0)" by (rule reach_run [OF _ e_step.e_check [where t = 0]]) (simp add: run_simps)+
  then have "?R (two_vec 1 0 (Some (V_ready x)) None) (E_scan 0 1)" by (rule reach_run [OF _ e_step.e_scan [where t = 0]]) (simp add: run_simps)+
  then have "?R (two_vec 1 0 (Some (V_ready x)) None) (E_cas 0 1)" by (rule reach_run [OF _ e_step.e_scan [where t = 0]]) (simp add: run_simps)+
  then have "?R (two_vec 1 1 (Some (V_ready x)) None) E_adv" by (rule reach_run [OF _ e_step.e_cas [where t = 0]]) (simp add: run_simps)+
  then have "?R (two_vec 1 1 (Some (V_ready x)) None) (E_check 1)" by (rule reach_run [OF _ e_step.e_adv [where t = 0]]) (simp add: run_simps)+
  then show ?thesis by (rule reach_run [OF _ e_step.e_check [where t = 0]]) (simp add: run_simps)+
qed

theorem vector_emplace_concurrent_witness:
  "\<exists>s :: int esys. reach (\<lambda>s. s = esys_init) (e_step True (\<lambda>_. True)) s \<and> (\<forall>t. e_pc s t = E_idle) \<and> e_vals s = [7] \<and>
    unat (published (e_vec s)) = 1 \<and> vec_at (e_vec s) 0 = Inr 7 \<and> e_lost s = {}"
proof -
  let ?s = "two_sys (two_vec 1 1 (Some (V_ready 7)) None) E_idle E_idle None None [7 :: int]"
  have "vec_at (e_vec ?s) 0 = Inr (e_vals ?s ! unat (0 :: 64 word))"
    using vector_emplace_concurrent [OF published_run [of "7 :: int"]] by (simp add: run_simps)
  moreover have "e_pc ?s t = E_idle" for t by (simp add: two_sys_def)
  ultimately show ?thesis using published_run [of "7 :: int"] by (intro exI [of _ ?s]) (simp add: run_simps)
qed

text \<open>
  With the orders of the code a publication can be lost. Thread 1 stores \<open>READY\<close> into its cell, but the store is not visible yet when it
  loads \<open>published_\<close>, finds 0, and returns. Thread 0 publishes its element, sees the cell of thread 1 not ready and returns. Then the store of
  thread 1 becomes visible: all calls have returned normally, both cells are ready, and the second element is not published.
\<close>

theorem vector_publication_lost:
  "\<exists>s. reach (\<lambda>s. s = esys_init) (e_step False (\<lambda>_. True)) s \<and> (\<forall>t. e_pc s t = E_idle \<and> e_buf s t = None) \<and> e_lost s = {} \<and>
    e_vals s = [x, y] \<and> alloc_idx (e_vec s) = 2 \<and> published (e_vec s) = 1 \<and> vcell_at (e_vec s) 1 = Some (V_ready y)"
proof -
  let ?R = "\<lambda>v l0 l1 b0 b1 xs. reach (\<lambda>s. s = esys_init) (e_step False (\<lambda>_. True)) (two_sys v l0 l1 b0 b1 xs)"
  have "?R (two_vec 0 0 None None) E_idle E_idle None None ([] :: 'a list)"
    by (rule reach_init) (simp add: two_init)
  then have "?R (two_vec 1 0 None None) (E_bucket 0 x) E_idle None None [x]"
    by (rule reach_run [OF _ e_step.e_alloc [where t = 0 and x = x and v = "two_vec 0 0 None None"]]) (simp add: run_simps)+
  then have "?R (two_vec 2 0 None None) (E_bucket 0 x) (E_bucket 1 y) None None [x, y]"
    by (rule reach_run [OF _ e_step.e_alloc [where t = 1 and x = y and v = "two_vec 1 0 None None"]]) (simp add: run_simps)+
  then have "?R (two_vec 2 0 (Some V_empty) None) (E_cell 0 x) (E_bucket 1 y) None None [x, y]"
    by (rule reach_run [OF _ e_step.e_ensure [where t = 0 and m = "\<lambda>_. True"]]) (simp add: run_simps)+
  then have "?R (two_vec 2 0 (Some V_empty) (Some V_empty)) (E_cell 0 x) (E_cell 1 y) None None [x, y]"
    by (rule reach_run [OF _ e_step.e_ensure [where t = 1 and m = "\<lambda>_. True"]]) (simp add: run_simps)+
  then have "?R (two_vec 2 0 (Some V_writing) (Some V_empty)) (E_store 0 x) (E_cell 1 y) None None [x, y]"
    by (rule reach_run [OF _ e_step.e_claim [where t = 0]]) (simp add: run_simps)+
  then have "?R (two_vec 2 0 (Some V_writing) (Some V_writing)) (E_store 0 x) (E_store 1 y) None None [x, y]"
    by (rule reach_run [OF _ e_step.e_claim [where t = 1]]) (simp add: run_simps)+
  then have "?R (two_vec 2 0 (Some V_writing) (Some V_writing)) (E_store 0 x) (E_load 1) None (Some (1, y)) [x, y]"
    by (rule reach_run [OF _ e_step.e_buffer [where t = 1]]) (simp add: run_simps)+
  then have "?R (two_vec 2 0 (Some V_writing) (Some V_writing)) (E_store 0 x) E_idle None (Some (1, y)) [x, y]"
    by (rule reach_run [OF _ e_step.e_load [where t = 1]]) (simp add: run_simps)+
  then have "?R (two_vec 2 0 (Some V_writing) (Some V_writing)) (E_load 0) E_idle (Some (0, x)) (Some (1, y)) [x, y]"
    by (rule reach_run [OF _ e_step.e_buffer [where t = 0]]) (simp add: run_simps)+
  then have "?R (two_vec 2 0 (Some (V_ready x)) (Some V_writing)) (E_load 0) E_idle None (Some (1, y)) [x, y]"
    by (rule reach_run [OF _ e_step.e_flush [where t = 0]]) (simp add: run_simps)+
  then have "?R (two_vec 2 0 (Some (V_ready x)) (Some V_writing)) E_adv E_idle None (Some (1, y)) [x, y]"
    by (rule reach_run [OF _ e_step.e_load [where t = 0]]) (simp add: run_simps)+
  then have "?R (two_vec 2 0 (Some (V_ready x)) (Some V_writing)) (E_check 0) E_idle None (Some (1, y)) [x, y]"
    by (rule reach_run [OF _ e_step.e_adv [where t = 0]]) (simp add: run_simps)+
  then have "?R (two_vec 2 0 (Some (V_ready x)) (Some V_writing)) (E_scan 0 0) E_idle None (Some (1, y)) [x, y]"
    by (rule reach_run [OF _ e_step.e_check [where t = 0]]) (simp add: run_simps)+
  then have "?R (two_vec 2 0 (Some (V_ready x)) (Some V_writing)) (E_scan 0 1) E_idle None (Some (1, y)) [x, y]"
    by (rule reach_run [OF _ e_step.e_scan [where t = 0]]) (simp add: run_simps)+
  then have "?R (two_vec 2 0 (Some (V_ready x)) (Some V_writing)) (E_cas 0 1) E_idle None (Some (1, y)) [x, y]"
    by (rule reach_run [OF _ e_step.e_scan [where t = 0]]) (simp add: run_simps)+
  then have "?R (two_vec 2 1 (Some (V_ready x)) (Some V_writing)) E_adv E_idle None (Some (1, y)) [x, y]"
    by (rule reach_run [OF _ e_step.e_cas [where t = 0]]) (simp add: run_simps)+
  then have "?R (two_vec 2 1 (Some (V_ready x)) (Some V_writing)) (E_check 1) E_idle None (Some (1, y)) [x, y]"
    by (rule reach_run [OF _ e_step.e_adv [where t = 0]]) (simp add: run_simps)+
  then have "?R (two_vec 2 1 (Some (V_ready x)) (Some V_writing)) E_idle E_idle None (Some (1, y)) [x, y]"
    by (rule reach_run [OF _ e_step.e_check [where t = 0]]) (simp add: run_simps)+
  then have "?R (two_vec 2 1 (Some (V_ready x)) (Some (V_ready y))) E_idle E_idle None None [x, y]"
    by (rule reach_run [OF _ e_step.e_flush [where t = 1]]) (simp add: run_simps)+
  then show ?thesis by (intro exI [of _ "two_sys (two_vec 2 1 (Some (V_ready x)) (Some (V_ready y))) E_idle E_idle None None [x, y]"] conjI)
      (simp_all add: two_sys_def two_vec_simps)
qed

section \<open>Any sequence of operations\<close>

text \<open>Buckets have the size of their level and exist up to level 24 only; ready cells are below \<open>alloc_idx_\<close>, no cell is left half
  written, \<open>published_\<close> is not beyond \<open>alloc_idx_\<close>, and the cells below \<open>published_\<close> are allocated.\<close>

definition vec_type :: "'a lfv \<Rightarrow> bool" where
  "vec_type v \<longleftrightarrow> vec_wf v \<and> (\<forall>L. vbuckets v L \<noteq> None \<longrightarrow> L \<le> 24) \<and> published v \<le> alloc_idx v \<and>
     (\<forall>i. vcell_at v i \<in> {None, Some V_empty} \<or> i < alloc_idx v \<and> is_ready (vcell_at v i)) \<and>
     (\<forall>i. i < published v \<longrightarrow> vcell_at v i \<noteq> None)"

lemma vec_typeD:
  assumes "vec_type v"
  shows "vec_wf v" "vbuckets v L \<noteq> None \<Longrightarrow> L \<le> 24" "published v \<le> alloc_idx v" "vcell_at v i \<in> {None, Some V_empty} \<or> i < alloc_idx v \<and> is_ready (vcell_at v i)"
    "i < published v \<Longrightarrow> vcell_at v i \<noteq> None"
  using assms unfolding vec_type_def by blast+

lemma locate_last: "unat (fst (locate (- 1))) = 2 ^ 64 - 1"
  by (simp add: locate_def Let_def clz64_def unsigned_minus_1_eq_mask mask_eq_exp_minus_1)

lemma last_bucket: "vec_type v \<Longrightarrow> vbuckets v (2 ^ 64 - 1) = None"
proof (rule ccontr)
  assume "vec_type v" "vbuckets v (2 ^ 64 - 1) \<noteq> None"
  from vec_typeD(2) [OF this] show False by simp
qed

lemma vcell_last: "vec_type v \<Longrightarrow> vcell_at v (- 1) = None"
  using locate_last last_bucket [of v] by (auto simp: vcell_at_def split: prod.splits)

lemma vcell_put:
  assumes t: "vec_type v"
  shows "vcell_at (put_vcell i c v) j = (if j = i then map_option (\<lambda>_. c) (vcell_at v i) else vcell_at v j)"
proof -
  consider "i = - 1" | "i \<noteq> - 1" "j = - 1" | "i \<noteq> - 1" "j \<noteq> - 1" by blast
  then show ?thesis
  proof cases
    case 1
    have "put_vcell (- 1) c v = v" using locate_last last_bucket [OF t] by (cases v) (auto simp: put_vcell_def fun_upd_idem split: prod.splits)
    then show ?thesis using 1 vcell_last [OF t] by simp
  next
    case 2
    obtain L off where l: "locate i = (L, off)" by fastforce
    have "unat L \<noteq> 2 ^ 64 - 1" using locate_bounds(1) [OF 2(1) l] by simp
    then have "vbuckets (put_vcell i c v) (2 ^ 64 - 1) = None" using last_bucket [OF t] l by (simp add: put_vcell_def)
    then have "vcell_at (put_vcell i c v) (- 1) = None" using locate_last by (auto simp: vcell_at_def split: prod.splits)
    then show ?thesis using 2 vcell_last [OF t] by simp
  next
    case 3
    then show ?thesis using vcell_set [OF vec_typeD(1) [OF t]] by blast
  qed
qed

lemma put_type:
  assumes t: "vec_type v" and c: "c = V_empty \<or> (\<exists>x. c = V_ready x) \<and> i < alloc_idx v"
  shows "vec_type (put_vcell i c v)"
proof -
  have "vbuckets (put_vcell i c v) L \<noteq> None \<longleftrightarrow> vbuckets v L \<noteq> None" for L by (simp add: put_vcell_def split: prod.splits)
  moreover have "vcell_at (put_vcell i c v) j \<in> {None, Some V_empty} \<or> j < alloc_idx v \<and> is_ready (vcell_at (put_vcell i c v) j)" for j
    unfolding vcell_put [OF t] using vec_typeD(4) [OF t, of j] c by (cases "vcell_at v i") auto
  moreover have "vcell_at (put_vcell i c v) j \<noteq> None" if "j < published v" for j
    unfolding vcell_put [OF t] using vec_typeD(5) [OF t that] by auto
  ultimately show ?thesis using vec_typeD [OF t] vec_wf_set [OF vec_typeD(1) [OF t]] unfolding vec_type_def by auto
qed

lemma published_type: "vec_type v \<Longrightarrow> p \<le> alloc_idx v \<Longrightarrow> (\<And>i. i < p \<Longrightarrow> vcell_at v i \<noteq> None) \<Longrightarrow> vec_type (v\<lparr>published := p\<rparr>)"
  by (auto simp: vec_type_def vec_wf_def)

lemma published_pred:
  assumes t: "vec_type v" and p: "published v \<noteq> 0"
  shows "vec_type (v\<lparr>published := published v - 1\<rparr>)"
proof (rule published_type [OF t])
  have le: "published v - 1 \<le> published v" using unat_minus_one [OF p] by (simp add: word_le_nat_alt)
  then show "published v - 1 \<le> alloc_idx v" using vec_typeD(3) [OF t] by simp
  show "vcell_at v i \<noteq> None" if "i < published v - 1" for i using vec_typeD(5) [OF t, of i] that le by simp
qed

lemma ensure_type:
  assumes "vec_type v" "ensure_bucket mem L v = (ok, w)"
  shows "vec_type w" "published w = published v" "alloc_idx w = alloc_idx v"
proof -
  have "vec_type w \<and> published w = published v \<and> alloc_idx w = alloc_idx v"
  proof (cases "w = v")
    case False
    then have w: "w = v\<lparr>vbuckets := (vbuckets v)(unat L \<mapsto> replicate (unat (pow2 L)) V_empty)\<rparr>" and cap: "\<not> push_bit 24 1 < pow2 L" and n: "vbuckets v (unat L) = None"
      using assms(2) by (auto simp: ensure_bucket_def Let_def split: if_splits)
    have L: "unat L \<le> 24"
    proof (rule ccontr)
      assume big: "\<not> unat L \<le> 24"
      have "2 ^ 24 < unat (pow2 L)"
      proof (cases "unat L < 64")
        case True
        then show ?thesis using pow2_unat [OF True] big power_strict_increasing [of 24 "unat L" "2 :: nat"] by simp
      next
        case False
        then have "pow2 L = push_bit 63 1" by (simp add: pow2_def word_le_nat_alt)
        then show ?thesis by simp
      qed
      then show False using cap by (simp add: word_less_nat_alt)
    qed
    then have len: "length (replicate (unat (pow2 L)) V_empty) = 2 ^ unat L" using pow2_unat [of L] by simp
    have "vcell_at w i \<in> {None, Some V_empty} \<or> i < alloc_idx v \<and> is_ready (vcell_at w i)" for i
    proof -
      obtain K k where m: "locate i = (K, k)" by fastforce
      show ?thesis
      proof (cases "unat K = unat L")
        case True
        have "i \<noteq> - 1" using locate_last m True L by auto
        then have "unat k < 2 ^ unat L" using locate_bounds(2) [OF _ m] True by simp
        then show ?thesis using m True len w by (simp add: vcell_at_def)
      next
        case False
        then show ?thesis using vec_typeD(4) [OF assms(1), of i] m w by (simp add: vcell_at_def)
      qed
    qed
    moreover have "vcell_at w i \<noteq> None" if "i < published v" for i
      using vec_typeD(5) [OF assms(1) that] w by (auto simp: vcell_at_def split: prod.splits)
    ultimately show ?thesis using vec_typeD [OF assms(1)] L len unfolding w vec_type_def vec_wf_def by auto
  qed (use assms in simp)
  then show "vec_type w" "published w = published v" "alloc_idx w = alloc_idx v" by blast+
qed

text \<open>The scan stops at the latest at \<open>alloc_idx_\<close>.\<close>

lemma scan_ready_total:
  assumes "vec_type v" "i \<le> alloc_idx v"
  shows "\<exists>k. scan_ready v i = Some k \<and> i \<le> k \<and> k \<le> alloc_idx v \<and> \<not> is_ready (vcell_at v k) \<and> (\<forall>j. i \<le> j \<and> j < k \<longrightarrow> is_ready (vcell_at v j))"
  using assms
proof (induction "unat (alloc_idx v) - unat i" arbitrary: i rule: less_induct)
  case less
  show ?case
  proof (cases "is_ready (vcell_at v i)")
    case True
    then have i: "i < alloc_idx v" using vec_typeD(4) [OF less.prems(1), of i] by auto
    moreover have "unat (alloc_idx v) < 2 ^ 64" by (rule order_less_le_trans [OF unsigned_less]) simp
    ultimately have "unat i + 1 < 2 ^ 64" by (simp add: word_less_nat_alt)
    then have u: "unat (i + 1) = Suc (unat i)" by (subst unat_add_lem [THEN iffD1]) simp_all
    have "\<exists>k. scan_ready v (i + 1) = Some k \<and> i + 1 \<le> k \<and> k \<le> alloc_idx v \<and> \<not> is_ready (vcell_at v k) \<and> (\<forall>j. i + 1 \<le> j \<and> j < k \<longrightarrow> is_ready (vcell_at v j))"
      by (rule less.hyps) (use i u less.prems(1) in \<open>auto simp: word_less_nat_alt word_le_nat_alt\<close>)
    then obtain k where k: "scan_ready v (i + 1) = Some k" "i + 1 \<le> k" "k \<le> alloc_idx v" "\<not> is_ready (vcell_at v k)"
      "\<And>j. i + 1 \<le> j \<Longrightarrow> j < k \<Longrightarrow> is_ready (vcell_at v j)" by blast
    have "is_ready (vcell_at v j)" if "i \<le> j" "j < k" for j
    proof (cases "j = i")
      case False
      then have "unat i \<noteq> unat j" by (metis unsigned_word_eqI)
      then show ?thesis using k(5) [of j] that u by (simp add: word_le_nat_alt)
    qed (use True in simp)
    moreover have "i \<le> k" using k(2) u by (simp add: word_le_nat_alt)
    ultimately show ?thesis using True k by (subst scan_ready.simps) auto
  next
    case False
    then show ?thesis using less.prems by (subst scan_ready.simps) auto
  qed
qed

lemma advance_type:
  assumes "vec_type v"
  shows "\<exists>w. advance_published v = Some w \<and> vec_type w \<and> alloc_idx w = alloc_idx v"
proof (cases "is_ready (vcell_at v (published v))")
  case True
  obtain k where k: "scan_ready v (published v) = Some k" "k \<le> alloc_idx v" "\<not> is_ready (vcell_at v k)"
    "\<And>j. published v \<le> j \<Longrightarrow> j < k \<Longrightarrow> is_ready (vcell_at v j)"
    using scan_ready_total [OF assms vec_typeD(3) [OF assms]] by blast
  have cells: "vcell_at v i \<noteq> None" if "i < k" for i
    using vec_typeD(5) [OF assms, of i] k(4) [of i] that by (cases "i < published v"; cases "vcell_at v i") (auto simp: not_less)
  have "advance_published (v\<lparr>published := k\<rparr>) = Some (v\<lparr>published := k\<rparr>)" using k(3) by (subst advance_published.simps) simp
  then have "advance_published v = Some (v\<lparr>published := k\<rparr>)" using True k(1) by (subst advance_published.simps) simp
  then show ?thesis using published_type [OF assms k(2) cells] by simp
next
  case False
  then show ?thesis using assms by (subst advance_published.simps) auto
qed

lemma emplace_type:
  assumes t: "vec_type v" and a: "unat (alloc_idx v) < 2 ^ 63"
  shows "\<exists>r w. emplace_back mem x v = Some (r, w) \<and> r \<in> insert (Inl Bad_alloc) (range Inr) \<and> vec_type w \<and> unat (alloc_idx w) = Suc (unat (alloc_idx v))"
proof -
  define i where "i = alloc_idx v"
  define v1 where "v1 = v\<lparr>alloc_idx := i + 1\<rparr>"
  have u: "unat (i + 1) = Suc (unat i)" using unat_plus_one [of i] a by (simp add: i_def)
  then have lt: "i < i + 1" "j < i \<Longrightarrow> j < i + 1" "j \<le> i \<Longrightarrow> j \<le> i + 1" for j by (simp_all add: word_less_nat_alt word_le_nat_alt)
  have "vcell_at v j \<in> {None, Some V_empty} \<or> j < i + 1 \<and> is_ready (vcell_at v j)" for j using vec_typeD(4) [OF t, of j] lt(2) [of j] by (auto simp: i_def)
  then have t1: "vec_type v1" using vec_typeD(1-3,5) [OF t] lt(3) by (auto simp: v1_def vec_type_def vec_wf_def i_def)
  obtain ok w where e: "ensure_bucket mem (fst (locate i)) v1 = (ok, w)" by fastforce
  note E = ensure_type [OF t1 e]
  have aw: "alloc_idx w = i + 1" using E(3) by (simp add: v1_def)
  show ?thesis
  proof (cases ok)
    case False
    then have "emplace_back mem x v = Some (Inl Bad_alloc, w)" using e by (simp add: emplace_back_def i_def v1_def Let_def)
    then show ?thesis using E(1) aw u by (simp add: i_def)
  next
    case True
    have "vcell_at v i \<in> {None, Some V_empty}" using vec_typeD(4) [OF t, of i] by (auto simp: i_def)
    moreover have "vbuckets w (unat (fst (locate i))) \<noteq> None" using e True by (auto simp: ensure_bucket_def Let_def split: if_splits)
    moreover have "vcell_at w i = vcell_at v i \<or> vcell_at v i = None \<and> vcell_at w i \<in> {None, Some V_empty}"
      using e vec_typeD(4) [OF E(1), of i] vcell_last [OF E(1)] locate_bounds(2) [of i] pow2_unat [of "fst (locate i)"] locate_bounds(1) [of i]
      by (cases "i = - 1") (auto simp: ensure_bucket_def Let_def vcell_at_def v1_def split: if_splits prod.splits)
    ultimately have c: "vcell_at w i = Some V_empty" by (auto simp: vcell_at_def split: prod.splits)
    let ?w = "put_vcell i (V_ready x) w"
    have tw: "vec_type ?w" using put_type [OF E(1), of "V_ready x" i] aw lt(1) by simp
    have em: "emplace_back mem x v = (if i = published ?w then map_option (Pair (Inr i)) (advance_published ?w) else Some (Inr i, ?w))"
      using e True c by (simp add: emplace_back_def i_def v1_def Let_def)
    show ?thesis
    proof (cases "i = published ?w")
      case True
      then show ?thesis using em advance_type [OF tw] aw u by (auto simp: i_def)
    next
      case False
      then show ?thesis using em tw aw u by (simp add: i_def)
    qed
  qed
qed

lemma pop_type:
  assumes t: "vec_type v"
  shows "vec_type (snd (vec_pop_back v))" "alloc_idx (snd (vec_pop_back v)) = alloc_idx v"
proof -
  let ?v = "v\<lparr>published := published v - 1\<rparr>"
  have "vec_type ?v" if "published v \<noteq> 0" by (rule published_pred [OF t that])
  then show "vec_type (snd (vec_pop_back v))" using t put_type [of ?v V_empty]
    by (auto simp: vec_pop_back_def Let_def split: option.splits vcell.splits)
  show "alloc_idx (snd (vec_pop_back v)) = alloc_idx v" by (auto simp: vec_pop_back_def Let_def split: option.splits vcell.splits)
qed

lemma shrink_type: "vec_type v \<Longrightarrow> vec_type (shrink_published_tail v) \<and> alloc_idx (shrink_published_tail v) = alloc_idx v"
proof (induction v rule: shrink_published_tail.induct)
  case (1 v)
  show ?case
  proof (cases "published v \<noteq> 0 \<and> vcell_at v (published v - 1) = Some V_empty")
    case True
    have "vec_type (v\<lparr>published := published v - 1\<rparr>)"
      by (rule published_pred [OF 1(2)]) (use True in simp)
    then show ?thesis using 1(1) True by (simp add: shrink_published_tail.simps [of v])
  next
    case False
    then show ?thesis using 1(2) by (auto simp: shrink_published_tail.simps [of v])
  qed
qed

lemma erase_type:
  assumes t: "vec_type v"
  shows "vec_type (snd (vec_erase i v))" "alloc_idx (snd (vec_erase i v)) = alloc_idx v"
  using t shrink_type [OF put_type [OF t, of V_empty i]] by (auto simp: vec_erase_def split: option.splits vcell.splits)

lemma reserve_loop_type: "vec_type v \<Longrightarrow> vec_type (reserve_loop mem is v) \<and> alloc_idx (reserve_loop mem is v) = alloc_idx v"
proof (induction "is" arbitrary: v)
  case (Cons i "is")
  obtain ok w where e: "ensure_bucket mem (word_of_nat i) v = (ok, w)" by fastforce
  show ?case using Cons ensure_type [OF Cons.prems e] e by simp
qed simp

datatype 'a vop = Emplace 'a | Pop_back | Erase "64 word" | Reserve "64 word"

text \<open>One operation of a program with a single thread. It gives \<open>None\<close> when it does not return: its loop runs for ever, or it waits
  for a cell that no other thread is going to change. An error is one that the operation throws or crashes with.\<close>

fun vop_result :: "(vec_err + 'b) \<times> 'a lfv \<Rightarrow> (vec_err option \<times> 'a lfv) option" where
  "vop_result (Inr b, v) = Some (None, v)"
| "vop_result (Inl e, v) = (if e = Spin then None else Some (Some e, v))"

fun vop_run :: "(nat \<Rightarrow> bool) \<Rightarrow> 'a vop \<Rightarrow> 'a lfv \<Rightarrow> (vec_err option \<times> 'a lfv) option" where
  "vop_run mem (Emplace x) v = Option.bind (emplace_back mem x v) vop_result"
| "vop_run mem Pop_back v = vop_result (vec_pop_back v)"
| "vop_run mem (Erase i) v = vop_result (vec_erase i v)"
| "vop_run mem (Reserve n) v = Some (None, vec_reserve mem n v)"

fun vops_run :: "(nat \<Rightarrow> bool) \<Rightarrow> 'a vop list \<Rightarrow> 'a lfv \<Rightarrow> (vec_err option list \<times> 'a lfv) option" where
  "vops_run mem [] v = Some ([], v)"
| "vops_run mem (z # zs) v = do {(r, v) \<leftarrow> vop_run mem z v; (rs, v) \<leftarrow> vops_run mem zs v; Some (r # rs, v)}"

text \<open>Popping an erased cell is the only wait.\<close>

definition pops_erased :: "'a vop \<Rightarrow> 'a lfv \<Rightarrow> bool" where
  "pops_erased z v \<longleftrightarrow> z = Pop_back \<and> published v \<noteq> 0 \<and> vcell_at v (published v - 1) = Some V_empty"

lemma vcell_cases:
  assumes "vec_type v"
  obtains "vcell_at v i = None" | "vcell_at v i = Some V_empty" | x where "vcell_at v i = Some (V_ready x)"
  using vec_typeD(4) [OF assms, of i] by (cases "vcell_at v i" rule: is_ready.cases) auto

lemma pop_result:
  assumes t: "vec_type v"
  shows "fst (vec_pop_back v) = (if published v = 0 then Inr False else if pops_erased Pop_back v then Inl Spin else Inr True)"
proof (cases "published v = 0")
  case False
  have "vcell_at v (published v - 1) \<noteq> None"
    by (rule vec_typeD(5) [OF t]) (use unat_minus_one [OF False] False in \<open>simp add: word_less_nat_alt unat_gt_0\<close>)
  then show ?thesis by (rule_tac vcell_cases [OF t, of "published v - 1"]) (use False in \<open>simp_all add: vec_pop_back_def pops_erased_def Let_def\<close>)
qed (simp add: vec_pop_back_def)

lemma erase_result: "vec_type v \<Longrightarrow> fst (vec_erase i v) \<noteq> Inl e"
  by (rule vcell_cases [of v i]) (simp_all add: vec_erase_def)

lemma vop_type:
  assumes t: "vec_type v" and a: "unat (alloc_idx v) < 2 ^ 63"
  shows "vop_run mem z v = None \<longleftrightarrow> pops_erased z v"
    "vop_run mem z v = Some (r, w) \<Longrightarrow> vec_type w \<and> unat (alloc_idx w) \<le> Suc (unat (alloc_idx v)) \<and> (r = None \<or> r = Some Bad_alloc \<and> (\<exists>x. z = Emplace x))"
proof -
  have "(vop_run mem z v = None \<longleftrightarrow> pops_erased z v) \<and> (\<forall>r w. vop_run mem z v = Some (r, w) \<longrightarrow>
      vec_type w \<and> unat (alloc_idx w) \<le> Suc (unat (alloc_idx v)) \<and> (r = None \<or> r = Some Bad_alloc \<and> (\<exists>x. z = Emplace x)))"
  proof (cases z)
    case (Emplace x)
    obtain r w where "emplace_back mem x v = Some (r, w)" "r \<in> insert (Inl Bad_alloc) (range Inr)" "vec_type w" "unat (alloc_idx w) = Suc (unat (alloc_idx v))"
      using emplace_type [OF t a, of mem x] by blast
    then show ?thesis using Emplace by (auto simp: pops_erased_def)
  next
    case Pop_back
    then show ?thesis using pop_type [OF t] pop_result [OF t] by (cases "vec_pop_back v") (auto split: if_splits simp: pops_erased_def)
  next
    case (Erase i)
    then show ?thesis using erase_type [OF t, of i] erase_result [OF t, of i] by (cases "vec_erase i v" rule: vop_result.cases) (auto simp: pops_erased_def)
  next
    case (Reserve n)
    then show ?thesis using reserve_loop_type [OF t] t by (auto simp: vec_reserve_def Let_def pops_erased_def)
  qed
  then show "vop_run mem z v = None \<longleftrightarrow> pops_erased z v"
    "vop_run mem z v = Some (r, w) \<Longrightarrow> vec_type w \<and> unat (alloc_idx w) \<le> Suc (unat (alloc_idx v)) \<and> (r = None \<or> r = Some Bad_alloc \<and> (\<exists>x. z = Emplace x))"
    by blast+
qed

lemma vops_type:
  assumes "vops_run mem zs v = Some (rs, w)" "vec_type v" "unat (alloc_idx v) + length zs < 2 ^ 63"
  shows "vec_type w \<and> unat (alloc_idx w) \<le> unat (alloc_idx v) + length zs"
  using assms
proof (induction zs arbitrary: v rs)
  case (Cons z zs)
  obtain r u qs where s: "vop_run mem z v = Some (r, u)" "vops_run mem zs u = Some (qs, w)" using Cons.prems(1) by (auto simp: bind_eq_Some_conv)
  have u: "vec_type u" "unat (alloc_idx u) \<le> Suc (unat (alloc_idx v))" using vop_type(2) [OF Cons.prems(2) _ s(1)] Cons.prems(3) by auto
  then show ?case using Cons.IH [OF s(2) u(1)] Cons.prems(3) by auto
qed simp

lemma vec_new_type: "vec_type (lfv_new :: 'a lfv)"
  by (auto simp: vec_type_def lfv_new_def vec_wf_def vcell_at_def split: prod.splits)

text \<open>C33. The state of a vector used by one thread stays well-formed under any sequence of fewer than \<open>2 ^ 63\<close> calls of \<open>emplace_back\<close>,
  \<open>pop_back\<close>, \<open>erase\<close> and \<open>reserve\<close> that have returned, whatever allocations fail: buckets have the capacity of their level and exist up to
  level 24, ready cells lie below \<open>alloc_idx_\<close>, no cell stays half written, \<open>published_\<close> is at most \<open>alloc_idx_\<close> and covers allocated
  cells only, and every index except the largest word addresses a cell inside its bucket. The next call returns, with one exception: a \<open>pop_back\<close> of a
  cell that \<open>erase\<close> has emptied never does. The only error is the \<open>bad_alloc\<close> of \<open>emplace_back\<close>.\<close>

theorem vector_well_formed:
  assumes "length zs < 2 ^ 63" "vops_run mem zs lfv_new = Some (rs, v)"
  shows "vec_type v \<and>
    (\<forall>i L off cs. i \<noteq> - 1 \<and> locate i = (L, off) \<and> vbuckets v (unat L) = Some cs \<longrightarrow> unat off < length cs) \<and>
    (\<forall>z. vop_run mem z v = None \<longleftrightarrow> pops_erased z v) \<and>
    (\<forall>z e w. vop_run mem z v = Some (Some e, w) \<longrightarrow> e = Bad_alloc \<and> (\<exists>x. z = Emplace x))"
proof -
  have t: "vec_type v" and a: "unat (alloc_idx v) < 2 ^ 63"
    using vops_type [OF assms(2) vec_new_type] assms(1) by (auto simp: lfv_new_def)
  have "unat off < length cs" if "i \<noteq> - 1" "locate i = (L, off)" "vbuckets v (unat L) = Some cs" for i L off cs
    using vec_typeD(1) [OF t] locate_bounds(2) [OF that(1,2)] that(3) by (simp add: vec_wf_def)
  then show ?thesis using t vop_type(1) [OF t a, of mem] vop_type(2) [OF t a, of mem] by blast
qed

theorem vector_well_formed_witness:
  "\<exists>v. vops_run (\<lambda>_. False) [Reserve 4, Emplace (7 :: int), Erase 0, Pop_back] lfv_new = Some ([None, Some Bad_alloc, None, None], v) \<and>
    vec_type v \<and> (\<forall>z. vop_run (\<lambda>_. False) z v = None \<longleftrightarrow> pops_erased z v)"
proof -
  have "\<exists>v. vops_run (\<lambda>_. False) [Reserve 4, Emplace (7 :: int), Erase 0, Pop_back] lfv_new = Some ([None, Some Bad_alloc, None, None], v)"
    by (simp add: vec_reserve_def Let_def emplace_back_def ensure_bucket_def vec_erase_def vec_pop_back_def lfv_new_def upt_rec split: prod.splits)
  then obtain v where v: "vops_run (\<lambda>_. False) [Reserve 4, Emplace (7 :: int), Erase 0, Pop_back] lfv_new = Some ([None, Some Bad_alloc, None, None], v)" ..
  from vector_well_formed [OF _ v] show ?thesis using v by auto
qed

text \<open>\<open>pop_back\<close> waits for a cell to become ready, but \<open>erase\<close> leaves cells empty: after an inner element is erased, popping
  down to its cell never returns.\<close>

lemma push_two_rep:
  obtains v where "push_all (\<lambda>_. True) [a, b] lfv_new = Some ([Inr 0, Inr 1], v)" "vec_rep v [a, b]"
  using push_all_rep [OF vec_new_rep, of "[a, b]" "\<lambda>_. True"] by (auto simp: vec_max_def)

theorem vector_pop_after_erase_waits:
  "\<exists>v w. push_all (\<lambda>_. True) [a, b] lfv_new = Some ([Inr 0, Inr 1], v) \<and> vec_erase 0 v = (Inr True, w) \<and>
     fst (vec_pop_back w) = Inr True \<and> fst (vec_pop_back (snd (vec_pop_back w))) = Inl Spin"
proof -
  obtain v where v: "push_all (\<lambda>_. True) [a, b] lfv_new = Some ([Inr 0, Inr 1], v)" "vec_rep v [a, b]" by (rule push_two_rep)
  have "unat (published v) = unat (2 :: 64 word)" using v(2) by (simp add: vec_rep_def)
  then have p: "published v = 2" by (metis unsigned_word_eqI)
  have wf: "vec_wf v" using v(2) by (simp add: vec_rep_def)
  have c: "vcell_at v i = Some (V_ready ([a, b] ! unat i))" if "unat i < 2" for i
    using v(2) that not_minus_one [of i] by (simp add: vec_rep_def)
  define w where "w = put_vcell 0 V_empty v"
  have w1: "vcell_at w 1 = Some (V_ready b)" "vcell_at w 0 = Some V_empty" using vcell_set [OF wf, of 0] c [of 0] c [of 1] by (simp_all add: w_def)
  have pw: "published w = 2" using p by (simp add: w_def)
  have e: "vec_erase 0 v = (Inr True, w)" using p c [of 0] w1(1) pw
    by (simp add: vec_erase_def w_def [symmetric] shrink_published_tail.simps [of w])
  have wfw: "vec_wf (w\<lparr>published := 1\<rparr>)" using vec_wf_set [OF wf] by (simp add: w_def vec_wf_def)
  define u where "u = put_vcell 1 V_empty (w\<lparr>published := 1\<rparr>)"
  have pop1: "vec_pop_back w = (Inr True, u)" using pw w1(1) by (simp add: vec_pop_back_def Let_def u_def)
  have "vcell_at u 0 = Some V_empty" "published u = 1" using vcell_set [OF wfw, of 1 0] w1(2) by (simp_all add: u_def)
  then have "fst (vec_pop_back u) = Inl Spin" by (simp add: vec_pop_back_def Let_def)
  then show ?thesis using v(1) e pop1 by auto
qed

end
