(* ===== verification/Hazard_Pointers.thy ===== *)
theory Hazard_Pointers
  imports Uvent_Prelude
begin

text \<open>
  Hazard pointers (\<open>utils/sync/HazardPointers.h\<close> and \<open>.cpp\<close>), which protect the segments of the unbounded queues: \<open>protect\<close>
  with its cached slots, \<open>retire\<close>, \<open>scan\<close> with the collection of the hazards record by record, orphaned objects, and records that are
  acquired, released and reused. All atomic accesses of any number of threads interleave; memory is sequentially consistent.
  A record is named by the thread that uses it; a later thread that reuses the record goes by the same name. Objects are
  named by their address; an address may be allocated again after it was freed.
\<close>

section \<open>Reclaiming a list\<close>

text \<open>The loop of \<open>reclaim\<close> moves the objects that are still in use to the front (\<open>kept\<close>) and deletes the others (\<open>freed\<close>).\<close>

fun reclaim :: "nat list \<Rightarrow> nat list \<Rightarrow> nat list \<Rightarrow> nat list \<Rightarrow> nat list \<times> nat list" where
  "reclaim haz kept freed [] = (kept, freed)"
| "reclaim haz kept freed (p # ps) = (if p \<in> set haz then reclaim haz (kept @ [p]) freed ps else reclaim haz kept (freed @ [p]) ps)"

lemma reclaim_filter: "reclaim haz kept freed ps = (kept @ filter (\<lambda>p. p \<in> set haz) ps, freed @ filter (\<lambda>p. p \<notin> set haz) ps)"
  by (induction ps arbitrary: kept freed) auto

section \<open>Threads\<close>

text \<open>Where an object is: free memory, private to a thread (new or unlinked), linked in a shared pointer, retired by a thread, or in
  the list of orphans.\<close>

datatype oloc = Unalloc | Priv nat | Linked nat | Ret nat | Orp

text \<open>Program points. \<open>protect\<close> of the shared pointer \<open>a\<close>: before the load, before the look at the slots, before the publication, before the second load,
  and the return. \<open>scan\<close> (the flag tells that it is part of \<open>release_record\<close>, the second one that it works on the orphans): records and slots still to read and the hazards read so far; the
  loop of \<open>reclaim\<close>; the try-lock; the end. \<open>release_record\<close>: the move of the rest, clearing the slots.\<close>

datatype hpc = H_off | H_idle | H_load nat | H_check nat nat | H_pub nat nat | H_again nat nat | H_ret nat
  | H_collect bool bool "nat list" "(nat \<times> nat) list" "nat list" | H_free bool bool "nat list" "nat list" "nat list"
  | H_try bool | H_end bool | H_clear nat

record hz =
  hz_src :: "nat \<Rightarrow> nat option"
  hz_slot :: "nat \<Rightarrow> nat \<Rightarrow> nat option"
  hz_victim :: "nat \<Rightarrow> nat"
  hz_active :: "nat \<Rightarrow> bool"
  hz_recs :: "nat list"
  hz_ret :: "nat \<Rightarrow> nat list"
  hz_orph :: "nat list"
  hz_lock :: "nat option"
  hz_pc :: "nat \<Rightarrow> hpc"
  hz_loc :: "nat \<Rightarrow> oloc"
  hz_cov :: "nat \<Rightarrow> nat \<Rightarrow> bool"
  hz_held :: "nat \<Rightarrow> nat set"

definition hz_init :: hz where
  "hz_init = \<lparr>hz_src = (\<lambda>_. None), hz_slot = (\<lambda>_ _. None), hz_victim = (\<lambda>_. 0), hz_active = (\<lambda>_. False), hz_recs = [], hz_ret = (\<lambda>_. []),
     hz_orph = [], hz_lock = None, hz_pc = (\<lambda>_. H_off), hz_loc = (\<lambda>_. Unalloc), hz_cov = (\<lambda>_ _. False), hz_held = (\<lambda>_. {})\<rparr>"

definition h_jump :: "nat \<Rightarrow> hpc \<Rightarrow> hz \<Rightarrow> hz" where
  "h_jump t l s = s\<lparr>hz_pc := (hz_pc s)(t := l)\<rparr>"

text \<open>A load of a shared pointer. From then on the slots that hold its value cover it (ghost).\<close>

definition h_see :: "nat \<Rightarrow> nat \<Rightarrow> hz \<Rightarrow> hz" where
  "h_see t p s = s\<lparr>hz_cov := (hz_cov s)(t := (\<lambda>i. hz_cov s t i \<or> i < 8 \<and> hz_slot s t i = Some p))\<rparr>"

definition h_write_slot :: "nat \<Rightarrow> nat \<Rightarrow> nat option \<Rightarrow> hz \<Rightarrow> hz" where
  "h_write_slot t i x s = s\<lparr>hz_slot := (hz_slot s)(t := (hz_slot s t)(i := x)), hz_cov := (hz_cov s)(t := (hz_cov s t)(i := False)),
     hz_held := (hz_held s)(t := {p \<in> hz_held s t. hz_slot s t i \<noteq> Some p})\<rparr>"

definition h_list :: "nat \<Rightarrow> bool \<Rightarrow> hz \<Rightarrow> nat list" where
  "h_list t orph s = (if orph then hz_orph s else hz_ret s t)"

definition h_set_list :: "nat \<Rightarrow> bool \<Rightarrow> nat list \<Rightarrow> hz \<Rightarrow> hz" where
  "h_set_list t orph ps s = (if orph then s\<lparr>hz_orph := ps\<rparr> else s\<lparr>hz_ret := (hz_ret s)(t := ps)\<rparr>)"

definition threshold :: "hz \<Rightarrow> nat" where
  "threshold s = max 64 (2 * 8 * length (hz_recs s))"

inductive h_step :: "hz \<Rightarrow> hz \<Rightarrow> bool" where
  h_acquire: "hz_pc s t = H_off \<Longrightarrow> h_step s (h_jump t H_idle (s\<lparr>hz_active := (hz_active s)(t := True),
    hz_recs := (if t \<in> set (hz_recs s) then hz_recs s else t # hz_recs s)\<rparr>))"
| h_protect: "hz_pc s t = H_idle \<Longrightarrow> h_step s (h_jump t (H_load a) s)"
| h_load_null: "hz_pc s t = H_load a \<or> hz_pc s t = H_again a p \<Longrightarrow> hz_src s a = None \<Longrightarrow> h_step s (h_jump t H_idle s)"
| h_load: "hz_pc s t = H_load a \<Longrightarrow> hz_src s a = Some p \<Longrightarrow> h_step s (h_jump t (H_check a p) (h_see t p s))"
| h_hit: "hz_pc s t = H_check a p \<Longrightarrow> i < 8 \<Longrightarrow> hz_slot s t i = Some p \<Longrightarrow> h_step s (h_jump t (H_ret p) s)"
| h_miss: "hz_pc s t = H_check a p \<Longrightarrow> (\<And>i. i < 8 \<Longrightarrow> hz_slot s t i \<noteq> Some p) \<Longrightarrow> h_step s (h_jump t (H_pub a p) s)"
| h_publish: "hz_pc s t = H_pub a p \<Longrightarrow> v = hz_victim s t \<Longrightarrow>
    h_step s (h_jump t (H_again a p) (h_write_slot t v (Some p) (s\<lparr>hz_victim := (hz_victim s)(t := (v + 1) mod 8)\<rparr>)))"
| h_again_same: "hz_pc s t = H_again a p \<Longrightarrow> hz_src s a = Some p \<Longrightarrow> h_step s (h_jump t (H_ret p) (h_see t p s))"
| h_again_other: "hz_pc s t = H_again a p \<Longrightarrow> hz_src s a = Some q \<Longrightarrow> q \<noteq> p \<Longrightarrow> h_step s (h_jump t (H_check a q) (h_see t q s))"
| h_return: "hz_pc s t = H_ret p \<Longrightarrow> h_step s (h_jump t H_idle (s\<lparr>hz_held := (hz_held s)(t := insert p (hz_held s t))\<rparr>))"
| h_alloc: "hz_pc s t = H_idle \<Longrightarrow> hz_loc s p = Unalloc \<Longrightarrow> h_step s (s\<lparr>hz_loc := (hz_loc s)(p := Priv t)\<rparr>)"
| h_link: "hz_pc s t = H_idle \<Longrightarrow> hz_src s a = None \<Longrightarrow> hz_loc s q = Priv t \<Longrightarrow>
    h_step s (s\<lparr>hz_src := (hz_src s)(a \<mapsto> q), hz_loc := (hz_loc s)(q := Linked a)\<rparr>)"
| h_unlink: "hz_pc s t = H_idle \<Longrightarrow> hz_src s a = Some p \<Longrightarrow>
    h_step s (s\<lparr>hz_src := (hz_src s)(a := None), hz_loc := (hz_loc s)(p := Priv t)\<rparr>)"
| h_swap: "hz_pc s t = H_idle \<Longrightarrow> hz_src s a = Some p \<Longrightarrow> hz_loc s q = Priv t \<Longrightarrow>
    h_step s (s\<lparr>hz_src := (hz_src s)(a \<mapsto> q), hz_loc := (hz_loc s)(p := Priv t, q := Linked a)\<rparr>)"
| h_retire: "hz_pc s t = H_idle \<Longrightarrow> hz_loc s p = Priv t \<Longrightarrow> ps = hz_ret s t @ [p] \<Longrightarrow>
    h_step s (h_jump t (if threshold s \<le> length ps then H_collect False False (hz_recs s) [] [] else H_idle)
      (s\<lparr>hz_ret := (hz_ret s)(t := ps), hz_loc := (hz_loc s)(p := Ret t)\<rparr>))"
| h_scan: "hz_pc s t = H_idle \<Longrightarrow> h_step s (h_jump t (H_collect ex False (hz_recs s) [] []) s)"
| h_record: "hz_pc s t = H_collect ex o' (r # rs) [] haz \<Longrightarrow>
    h_step s (h_jump t (H_collect ex o' rs (if hz_active s r then map (Pair r) [0..<8] else []) haz) s)"
| h_slot: "hz_pc s t = H_collect ex o' rs ((r, i) # ss) haz \<Longrightarrow>
    h_step s (h_jump t (H_collect ex o' rs ss (case hz_slot s r i of None \<Rightarrow> haz | Some p \<Rightarrow> haz @ [p])) s)"
| h_sorted: "hz_pc s t = H_collect ex o' [] [] haz \<Longrightarrow> h_step s (h_jump t (H_free ex o' haz [] (h_list t o' s)) s)"
| h_keep: "hz_pc s t = H_free ex o' haz kept (p # ps) \<Longrightarrow> p \<in> set haz \<Longrightarrow> h_step s (h_jump t (H_free ex o' haz (kept @ [p]) ps) s)"
| h_delete: "hz_pc s t = H_free ex o' haz kept (p # ps) \<Longrightarrow> p \<notin> set haz \<Longrightarrow>
    h_step s (h_jump t (H_free ex o' haz kept ps) (h_set_list t o' (kept @ ps) (s\<lparr>hz_loc := (hz_loc s)(p := Unalloc)\<rparr>)))"
| h_own_done: "hz_pc s t = H_free ex False haz kept [] \<Longrightarrow> h_step s (h_jump t (H_try ex) s)"
| h_orph_done: "hz_pc s t = H_free ex True haz kept [] \<Longrightarrow> h_step s (h_jump t (H_end ex) (s\<lparr>hz_lock := None\<rparr>))"
| h_try_fail: "hz_pc s t = H_try ex \<Longrightarrow> hz_lock s \<noteq> None \<or> hz_orph s = [] \<Longrightarrow> h_step s (h_jump t (H_end ex) s)"
| h_try_ok: "hz_pc s t = H_try ex \<Longrightarrow> hz_lock s = None \<Longrightarrow> hz_orph s \<noteq> [] \<Longrightarrow>
    h_step s (h_jump t (H_collect ex True (hz_recs s) [] []) (s\<lparr>hz_lock := Some t\<rparr>))"
| h_scan_end: "hz_pc s t = H_end False \<Longrightarrow> h_step s (h_jump t H_idle s)"
| h_move: "hz_pc s t = H_end True \<Longrightarrow> hz_lock s = None \<or> hz_ret s t = [] \<Longrightarrow>
    h_step s (h_jump t (H_clear 0) (s\<lparr>hz_orph := hz_orph s @ hz_ret s t, hz_ret := (hz_ret s)(t := []),
      hz_loc := (\<lambda>p. if hz_loc s p = Ret t then Orp else hz_loc s p)\<rparr>))"
| h_clear: "hz_pc s t = H_clear i \<Longrightarrow> i < 8 \<Longrightarrow> h_step s (h_jump t (H_clear (Suc i)) (h_write_slot t i None s))"
| h_release: "hz_pc s t = H_clear 8 \<Longrightarrow> h_step s (h_jump t H_off (s\<lparr>hz_active := (hz_active s)(t := False)\<rparr>))"


section \<open>The invariant\<close>

text \<open>Every object is at one place, and the lists of retired objects and of orphans agree with it.\<close>

definition objects_placed :: "hz \<Rightarrow> bool" where
  "objects_placed s \<longleftrightarrow> (\<forall>a p. hz_src s a = Some p \<longleftrightarrow> hz_loc s p = Linked a) \<and> (\<forall>t p. hz_loc s p = Ret t \<longleftrightarrow> p \<in> set (hz_ret s t)) \<and>
     (\<forall>p. hz_loc s p = Orp \<longleftrightarrow> p \<in> set (hz_orph s)) \<and> (\<forall>t. distinct (hz_ret s t)) \<and> distinct (hz_orph s)"

text \<open>The mutex belongs to the thread that works on the orphans.\<close>

fun on_orphans :: "hpc \<Rightarrow> bool" where
  "on_orphans (H_collect ex orph rs ss haz) = orph"
| "on_orphans (H_free ex orph haz kept ps) = orph"
| "on_orphans l = False"

definition orphans_locked :: "hz \<Rightarrow> bool" where
  "orphans_locked s \<longleftrightarrow> (\<forall>t. hz_lock s = Some t \<longleftrightarrow> on_orphans (hz_pc s t))"

text \<open>A covering slot holds an object that was not deleted, in a record that a scan reads.\<close>

definition covers_live :: "hz \<Rightarrow> bool" where
  "covers_live s \<longleftrightarrow> (\<forall>u i. hz_cov s u i \<longrightarrow> hz_slot s u i \<noteq> None \<and> (\<forall>p. hz_slot s u i = Some p \<longrightarrow> hz_loc s p \<noteq> Unalloc) \<and> hz_active s u \<and> i < 8 \<and> u \<in> set (hz_recs s))"

text \<open>No covered object escapes a scan of the list it is in.\<close>

fun scan_sees :: "(nat \<Rightarrow> nat \<Rightarrow> nat option) \<Rightarrow> (nat \<Rightarrow> nat \<Rightarrow> bool) \<Rightarrow> nat list \<Rightarrow> nat list \<Rightarrow> hpc \<Rightarrow> bool" where
  "scan_sees sl cv ret orphans (H_collect ex orph rs ss haz) \<longleftrightarrow> (\<forall>u i p. cv u i \<longrightarrow> sl u i = Some p \<longrightarrow> p \<in> set (if orph then orphans else ret) \<longrightarrow>
     p \<in> set haz \<or> (u, i) \<in> set ss \<or> u \<in> set rs)"
| "scan_sees sl cv ret orphans (H_free ex orph haz kept ps) \<longleftrightarrow> (if orph then orphans else ret) = kept @ ps \<and> set kept \<subseteq> set haz \<and>
     (\<forall>u i p. cv u i \<longrightarrow> sl u i = Some p \<longrightarrow> p \<in> set (kept @ ps) \<longrightarrow> p \<in> set haz)"
| "scan_sees sl cv ret orphans l \<longleftrightarrow> True"

text \<open>What \<open>protect\<close> knows of the slots of its own record.\<close>

fun slots_known :: "(nat \<Rightarrow> nat option) \<Rightarrow> (nat \<Rightarrow> bool) \<Rightarrow> hpc \<Rightarrow> bool" where
  "slots_known sl cv (H_check a p) \<longleftrightarrow> (\<forall>i<8. sl i = Some p \<longrightarrow> cv i)"
| "slots_known sl cv (H_again a p) \<longleftrightarrow> (\<exists>i<8. sl i = Some p)"
| "slots_known sl cv (H_ret p) \<longleftrightarrow> (\<exists>i. cv i \<and> sl i = Some p)"
| "slots_known sl cv (H_clear n) \<longleftrightarrow> (\<forall>i<n. \<not> cv i)"
| "slots_known sl cv l \<longleftrightarrow> True"

definition records_used :: "hz \<Rightarrow> bool" where
  "records_used s \<longleftrightarrow> (\<forall>t. (hz_pc s t \<noteq> H_off \<longrightarrow> hz_active s t \<and> t \<in> set (hz_recs s)) \<and> hz_victim s t < 8)"

definition held_covered :: "hz \<Rightarrow> bool" where
  "held_covered s \<longleftrightarrow> (\<forall>t. \<forall>p\<in>hz_held s t. \<exists>i. hz_cov s t i \<and> hz_slot s t i = Some p)"

text \<open>A scan reads at most eight slots of every record, and what it keeps was among them.\<close>

fun scan_bounded :: "nat \<Rightarrow> nat list \<Rightarrow> hpc \<Rightarrow> bool" where
  "scan_bounded n ret (H_collect ex orph rs ss haz) \<longleftrightarrow> length haz + length ss + 8 * length rs \<le> 8 * n"
| "scan_bounded n ret (H_free ex orph haz kept ps) \<longleftrightarrow> length haz \<le> 8 * n"
| "scan_bounded n ret (H_try ex) \<longleftrightarrow> length ret \<le> 8 * n"
| "scan_bounded n ret l \<longleftrightarrow> True"

definition h_inv :: "hz \<Rightarrow> bool" where
  "h_inv s \<longleftrightarrow> objects_placed s \<and> orphans_locked s \<and> covers_live s \<and> records_used s \<and> held_covered s \<and>
     (\<forall>t. scan_sees (hz_slot s) (hz_cov s) (hz_ret s t) (hz_orph s) (hz_pc s t)) \<and>
     (\<forall>t. slots_known (hz_slot s t) (hz_cov s t) (hz_pc s t)) \<and> (\<forall>t. scan_bounded (length (hz_recs s)) (hz_ret s t) (hz_pc s t))"

lemmas h_state_defs = h_jump_def h_see_def h_write_slot_def h_list_def h_set_list_def

lemma set_list_simps [simp]:
  "hz_src (h_set_list t orph ps s) = hz_src s" "hz_slot (h_set_list t orph ps s) = hz_slot s" "hz_active (h_set_list t orph ps s) = hz_active s"
  "hz_recs (h_set_list t orph ps s) = hz_recs s" "hz_lock (h_set_list t orph ps s) = hz_lock s" "hz_pc (h_set_list t orph ps s) = hz_pc s"
  "hz_loc (h_set_list t orph ps s) = hz_loc s" "hz_cov (h_set_list t orph ps s) = hz_cov s" "hz_held (h_set_list t orph ps s) = hz_held s"
  "hz_victim (h_set_list t orph ps s) = hz_victim s"
  by (simp_all add: h_set_list_def)

lemma h_inv_init: "h_inv hz_init"
  by (simp add: h_inv_def hz_init_def objects_placed_def orphans_locked_def covers_live_def records_used_def held_covered_def)

lemma h_invD:
  assumes "h_inv s"
  shows "objects_placed s" "orphans_locked s" "covers_live s" "records_used s" "held_covered s"
    and "scan_sees (hz_slot s) (hz_cov s) (hz_ret s t) (hz_orph s) (hz_pc s t)"
      "slots_known (hz_slot s t) (hz_cov s t) (hz_pc s t)" "scan_bounded (length (hz_recs s)) (hz_ret s t) (hz_pc s t)"
  using assms by (auto simp: h_inv_def)

lemma placedD:
  assumes "objects_placed s"
  shows "hz_src s a = Some p \<longleftrightarrow> hz_loc s p = Linked a" and "hz_src s a = None \<Longrightarrow> hz_loc s p \<noteq> Linked a"
    and "hz_loc s p = Linked a \<Longrightarrow> hz_loc s q = Linked a \<longleftrightarrow> q = p"
    and "p \<in> set (hz_ret s t) \<longleftrightarrow> hz_loc s p = Ret t" and "p \<in> set (hz_orph s) \<longleftrightarrow> hz_loc s p = Orp"
    and "distinct (hz_ret s t)" and "distinct (hz_orph s)"
proof -
  show src: "hz_src s a = Some p \<longleftrightarrow> hz_loc s p = Linked a" for a p using assms by (simp add: objects_placed_def)
  show "hz_src s a = None \<Longrightarrow> hz_loc s p \<noteq> Linked a" using src [of a p] by auto
  show "hz_loc s p = Linked a \<Longrightarrow> hz_loc s q = Linked a \<longleftrightarrow> q = p" using src [of a p] src [of a q] by auto
qed (use assms in \<open>simp_all add: objects_placed_def\<close>)

lemma placed_delete:
  assumes "objects_placed s" and "h_list t orph s = kept @ p # ps"
  shows "objects_placed (h_set_list t orph (kept @ ps) (s\<lparr>hz_loc := (hz_loc s)(p := Unalloc)\<rparr>))"
proof -
  note pl = placedD [OF assms(1)]
  have dist: "distinct (h_list t orph s)" using pl(6,7) by (simp add: h_list_def)
  have loc: "hz_loc s p = (if orph then Orp else Ret t)" using assms(2) pl(4) [of p t] pl(5) [of p] by (simp add: h_list_def split: if_splits)
  have mem: "q \<in> set (kept @ ps) \<longleftrightarrow> q \<in> set (h_list t orph s) \<and> q \<noteq> p" for q using dist by (auto simp: assms(2))
  have dist': "distinct (kept @ ps)" using dist by (auto simp: assms(2))
  show ?thesis
  proof (cases orph)
    case True
    then show ?thesis using loc mem dist' pl(6) by (simp add: objects_placed_def h_set_list_def h_list_def pl(1,4,5))
  next
    case False
    then show ?thesis using loc mem dist' pl(6,7) by (auto simp add: objects_placed_def h_set_list_def h_list_def pl(1,4,5))
  qed
qed

lemma step_objects_placed:
  assumes "h_step s s'" and "h_inv s"
  shows "objects_placed s'"
proof -
  note inv = h_invD [OF assms(2)] and pl = placedD [OF h_invD(1) [OF assms(2)]]
  from assms(1) show ?thesis
  proof (cases rule: h_step.cases)
    case (h_delete t ex o' haz kept p ps)
    have "h_list t o' s = kept @ p # ps" using inv(6) [of t] h_delete by (simp add: h_list_def)
    from placed_delete [OF inv(1) this] show ?thesis using h_delete
      by (simp add: h_jump_def objects_placed_def)
  next
    case h_alloc
    then show ?thesis by (auto simp: objects_placed_def pl)
  next
    case h_link
    then show ?thesis by (auto simp: objects_placed_def pl)
  next
    case h_unlink
    then show ?thesis by (auto simp: objects_placed_def pl)
  next
    case h_swap
    then show ?thesis by (auto simp: objects_placed_def pl)
  next
    case h_retire
    then show ?thesis by (auto simp: objects_placed_def pl h_jump_def)
  next
    case h_move
    then show ?thesis by (auto simp: objects_placed_def pl h_jump_def)
  qed (use inv(1) in \<open>simp_all add: objects_placed_def h_state_defs\<close>)
qed

lemma step_orphans_locked:
  assumes "h_step s s'" and "h_inv s"
  shows "orphans_locked s'"
proof -
  note inv = h_invD(2) [OF assms(2)]
  from assms(1) show ?thesis
  proof (cases rule: h_step.cases)
    case (h_orph_done t ex haz kept)
    then have "hz_lock s = Some t" using inv by (simp add: orphans_locked_def)
    then have "\<not> on_orphans (hz_pc s u)" if "u \<noteq> t" for u using that inv by (auto simp: orphans_locked_def)
    then show ?thesis using h_orph_done by (auto simp: orphans_locked_def h_state_defs)
  qed (use inv in \<open>auto simp: orphans_locked_def h_state_defs\<close>)
qed

lemma step_records_used:
  assumes "h_step s s'" and "h_inv s"
  shows "records_used s'"
  using assms(1) h_invD(4) [OF assms(2)]
  by (cases rule: h_step.cases) (auto simp: records_used_def h_state_defs split: if_splits)


lemma coversD:
  assumes "covers_live s" and "hz_cov s u i"
  shows "hz_active s u" "i < 8" "u \<in> set (hz_recs s)" "hz_slot s u i \<noteq> None" "hz_slot s u i = Some p \<Longrightarrow> hz_loc s p \<noteq> Unalloc"
  using assms by (force simp: covers_live_def)+

lemma covers_see:
  assumes "h_inv s" and "hz_src s a = Some p" and "hz_pc s t \<noteq> H_off"
  shows "covers_live (h_jump t l (h_see t p s))"
proof -
  have "hz_loc s p = Linked a" using placedD(1) [OF h_invD(1) [OF assms(1)]] assms(2) by simp
  moreover have "hz_active s t \<and> t \<in> set (hz_recs s)" using h_invD(4) [OF assms(1)] assms(3) by (simp add: records_used_def)
  ultimately show ?thesis using h_invD(3) [OF assms(1)] by (auto simp: covers_live_def h_jump_def h_see_def)
qed

lemma step_covers_live:
  assumes "h_step s s'" and "h_inv s"
  shows "covers_live s'"
proof -
  note inv = h_invD [OF assms(2)]
  from assms(1) show ?thesis
  proof (cases rule: h_step.cases)
    case (h_load t a p)
    then show ?thesis by (simp add: covers_see assms(2))
  next
    case (h_again_same t a p)
    then show ?thesis by (simp add: covers_see assms(2))
  next
    case (h_again_other t a p q)
    then show ?thesis by (simp add: covers_see assms(2))
  next
    case (h_delete t ex o' haz kept p ps)
    have "hz_slot s u i \<noteq> Some p" if "hz_cov s u i" for u i using inv(6) [of t] h_delete that by auto
    then show ?thesis using inv(3) h_delete by (fastforce simp: covers_live_def h_jump_def)
  next
    case (h_release t)
    have "\<not> hz_cov s t i" for i using inv(7) [of t] coversD(2) [OF inv(3), of t i] h_release by auto
    then show ?thesis using inv(3) h_release by (auto simp: covers_live_def h_state_defs)
  qed (use inv(3) in \<open>auto simp: covers_live_def h_state_defs\<close>)
qed

lemma held_write: "held_covered s \<Longrightarrow> held_covered (h_write_slot t v x s)"
proof -
  assume h: "held_covered s"
  have "\<exists>i. hz_cov (h_write_slot t v x s) u i \<and> hz_slot (h_write_slot t v x s) u i = Some p" if "p \<in> hz_held (h_write_slot t v x s) u" for u p
  proof -
    from that have "p \<in> hz_held s u" by (auto simp: h_write_slot_def split: if_splits)
    with h obtain i where "hz_cov s u i" "hz_slot s u i = Some p" by (auto simp: held_covered_def)
    then show ?thesis using that by (intro exI [of _ i]) (auto simp: h_write_slot_def)
  qed
  then show ?thesis by (simp add: held_covered_def)
qed

lemma held_see: "held_covered s \<Longrightarrow> held_covered (h_see t p s)"
  by (fastforce simp: held_covered_def h_see_def)

lemma held_jump [simp]: "held_covered (h_jump t l s) = held_covered s"
  by (simp add: held_covered_def h_jump_def)

lemma step_held_covered:
  assumes "h_step s s'" and "h_inv s"
  shows "held_covered s'"
proof -
  note inv = h_invD [OF assms(2)]
  from assms(1) show ?thesis
  proof (cases rule: h_step.cases)
    case (h_return t p)
    then show ?thesis using inv(5) inv(7) [of t] by (auto simp: held_covered_def h_state_defs)
  next
    case (h_publish t a p v)
    have "held_covered (s\<lparr>hz_victim := x\<rparr>)" for x using inv(5) by (simp add: held_covered_def)
    then show ?thesis using h_publish by (simp add: held_write)
  next
    case (h_delete t ex o' haz kept p ps)
    then show ?thesis using inv(5) by (simp add: held_covered_def h_jump_def)
  qed (use inv(5) in \<open>simp_all add: held_write held_see, simp_all add: held_covered_def h_state_defs\<close>)
qed


lemma step_slots_known:
  assumes "h_step s s'" and "h_inv s"
  shows "slots_known (hz_slot s' u) (hz_cov s' u) (hz_pc s' u)"
proof -
  note inv = h_invD [OF assms(2)]
  from assms(1) show ?thesis
  proof (cases rule: h_step.cases)
    case (h_publish t a p v)
    then show ?thesis using inv(4) inv(7) [of u] by (auto simp: h_state_defs records_used_def)
  next
    case (h_hit t a p i)
    then show ?thesis using inv(7) [of u] inv(7) [of t] by (auto simp: h_state_defs)
  next
    case (h_clear t i)
    then show ?thesis using inv(7) [of u] by (auto simp: h_state_defs less_Suc_eq)
  qed (use inv(7) [of u] in \<open>auto simp: h_state_defs\<close>)
qed

lemma bounded_more: "scan_bounded n ret l \<Longrightarrow> n \<le> n' \<Longrightarrow> scan_bounded n' ret l"
  by (cases l) auto

lemma kept_bounded: "distinct kept \<Longrightarrow> set kept \<subseteq> set haz \<Longrightarrow> length kept \<le> length haz"
  by (metis card_length card_mono distinct_card finite_set order_trans)

lemma step_scan_bounded:
  assumes "h_step s s'" and "h_inv s"
  shows "scan_bounded (length (hz_recs s')) (hz_ret s' u) (hz_pc s' u)"
proof -
  note inv = h_invD [OF assms(2)]
  from assms(1) show ?thesis
  proof (cases rule: h_step.cases)
    case (h_acquire t)
    then show ?thesis using bounded_more [OF inv(8) [of u]] by (auto simp: h_jump_def)
  next
    case (h_slot t ex o' rs r i ss haz)
    then show ?thesis using inv(8) [of u] by (auto simp: h_jump_def split: option.split)
  next
    case (h_own_done t ex haz kept)
    have "hz_ret s t = kept" "set kept \<subseteq> set haz" using inv(6) [of t] h_own_done by auto
    then have "length (hz_ret s t) \<le> length haz" using kept_bounded placedD(6) [OF inv(1), of t] by blast
    then show ?thesis using h_own_done inv(8) [of u] inv(8) [of t] by (auto simp: h_jump_def)
  next
    case (h_delete t ex o' haz kept p ps)
    then show ?thesis using inv(8) [of u] by (auto simp: h_state_defs)
  qed (use inv(8) [of u] in \<open>auto simp: h_jump_def h_see_def h_write_slot_def\<close>)
qed


lemma sees_mono:
  assumes "scan_sees sl cv ret orphans l"
    and "\<And>u i p. cv' u i \<Longrightarrow> sl' u i = Some p \<Longrightarrow> cv u i \<and> sl u i = Some p \<or> p \<notin> set ret \<and> p \<notin> set orphans"
  shows "scan_sees sl' cv' ret orphans l"
proof (cases l)
  case (H_collect ex orph rs ss haz)
  have "p \<in> set haz \<or> (u, i) \<in> set ss \<or> u \<in> set rs" if "cv' u i" "sl' u i = Some p" "p \<in> set (if orph then orphans else ret)" for u i p
    using assms(1) assms(2) [OF that(1,2)] that(3) H_collect by (auto split: if_splits)
  then show ?thesis using H_collect by simp
next
  case (H_free ex orph haz kept ps)
  have "p \<in> set haz" if "cv' u i" "sl' u i = Some p" "p \<in> set (kept @ ps)" for u i p
  proof -
    have "p \<in> set ret \<or> p \<in> set orphans" using assms(1) H_free that(3) by (simp split: if_splits)
    then have "cv u i" "sl u i = Some p" using assms(2) [OF that(1,2)] by auto
    then show ?thesis using assms(1) H_free that(3) by auto
  qed
  then show ?thesis using assms(1) H_free by simp
qed simp_all

lemma sees_orphans: "\<not> on_orphans l \<Longrightarrow> scan_sees sl cv ret os l = scan_sees sl cv ret os' l"
  by (cases l) auto

lemma sees_load:
  assumes "h_inv s" and "hz_src s a = Some p" and "\<And>r o'. scan_sees (hz_slot s) (hz_cov s) r o' l"
  shows "scan_sees (hz_slot (h_jump t l (h_see t p s))) (hz_cov (h_jump t l (h_see t p s))) (hz_ret (h_jump t l (h_see t p s)) u)
    (hz_orph (h_jump t l (h_see t p s))) (hz_pc (h_jump t l (h_see t p s)) u)"
proof -
  have "hz_loc s p = Linked a" using placedD(1) [OF h_invD(1) [OF assms(1)]] assms(2) by simp
  then have "p \<notin> set (hz_ret s u)" "p \<notin> set (hz_orph s)" by (simp_all add: placedD [OF h_invD(1) [OF assms(1)]])
  moreover have "scan_sees (hz_slot s) (hz_cov s) (hz_ret s u) (hz_orph s) (if u = t then l else hz_pc s u)"
    using assms(3) h_invD(6) [OF assms(1)] by simp
  ultimately have "scan_sees (hz_slot s) ((hz_cov s)(t := (\<lambda>i. hz_cov s t i \<or> i < 8 \<and> hz_slot s t i = Some p))) (hz_ret s u) (hz_orph s) (if u = t then l else hz_pc s u)"
    by (elim sees_mono) (auto split: if_splits)
  then show ?thesis by (simp add: h_jump_def h_see_def)
qed

lemma step_scan_sees:
  assumes "h_step s s'" and "h_inv s"
  shows "scan_sees (hz_slot s') (hz_cov s') (hz_ret s' u) (hz_orph s') (hz_pc s' u)"
proof -
  note inv = h_invD [OF assms(2)]
  have free: "\<not> on_orphans (hz_pc s v)" if "hz_lock s = None \<or> hz_lock s = Some t \<and> v \<noteq> t" for v t
    using inv(2) that unfolding orphans_locked_def by (metis option.distinct(1) option.inject)
  from assms(1) show ?thesis
  proof (cases rule: h_step.cases)
    case (h_load t a p)
    then show ?thesis by (auto intro!: sees_load [OF assms(2)])
  next
    case (h_again_same t a p)
    then show ?thesis by (auto intro!: sees_load [OF assms(2)])
  next
    case (h_again_other t a p q)
    then show ?thesis by (auto intro!: sees_load [OF assms(2)])
  next
    case (h_publish t a p v)
    then show ?thesis using inv(6) [of u] by (auto simp: h_jump_def h_write_slot_def elim!: sees_mono split: if_splits)
  next
    case (h_clear t i)
    then show ?thesis using inv(6) [of u] by (auto simp: h_jump_def h_write_slot_def elim!: sees_mono split: if_splits)
  next
    case (h_retire t p ps)
    then show ?thesis using inv(6) [of u] coversD(3) [OF inv(3)] by (auto simp: h_jump_def)
  next
    case (h_scan t ex)
    then show ?thesis using inv(6) [of u] coversD(3) [OF inv(3)] by (auto simp: h_jump_def)
  next
    case (h_try_ok t ex)
    then show ?thesis using inv(6) [of u] coversD(3) [OF inv(3)] by (auto simp: h_jump_def)
  next
    case (h_record t ex o' r rs haz)
    then show ?thesis using inv(6) [of u] coversD(1,2) [OF inv(3)] by (fastforce simp: h_jump_def)
  next
    case (h_slot t ex o' rs r i ss haz)
    then show ?thesis using inv(6) [of u] by (fastforce simp: h_jump_def split: option.split)
  next
    case (h_sorted t ex o' haz)
    then show ?thesis using inv(6) [of u] by (auto simp: h_jump_def h_list_def)
  next
    case (h_delete t ex o' haz kept p ps)
    show ?thesis
    proof (cases "u = t")
      case True
      then show ?thesis using inv(6) [of t] h_delete by (auto simp: h_jump_def h_set_list_def)
    next
      case False
      have "\<not> on_orphans (hz_pc s u)" if o' using h_delete inv(2) that False free [of t u] by (simp add: orphans_locked_def)
      then show ?thesis using h_delete False inv(6) [of u] by (auto simp: h_jump_def h_set_list_def sees_orphans [of _ _ _ _ "kept @ ps" "hz_orph s"])
    qed
  next
    case (h_move t)
    show ?thesis
    proof (cases "hz_ret s t = []")
      case False
      then have "\<not> on_orphans (hz_pc s u)" using h_move free by simp
      then show ?thesis using h_move inv(6) [of u] by (auto simp: h_jump_def sees_orphans [of _ _ _ _ "hz_orph s @ hz_ret s t" "hz_orph s"])
    qed (use h_move inv(6) [of u] in \<open>auto simp: h_jump_def\<close>)
  qed (use inv(6) [of u] in \<open>auto simp: h_jump_def\<close>)
qed


lemma h_step_inv: "h_step s s' \<Longrightarrow> h_inv s \<Longrightarrow> h_inv s'"
  unfolding h_inv_def [of s']
  by (intro conjI allI step_objects_placed step_orphans_locked step_covers_live step_records_used step_held_covered
      step_scan_sees step_slots_known step_scan_bounded)

section \<open>Runs\<close>

definition hazard_run :: "hz \<Rightarrow> bool" where
  "hazard_run s \<longleftrightarrow> h_step\<^sup>*\<^sup>* hz_init s"

lemma hazard_run_inv: "hazard_run s \<Longrightarrow> h_inv s"
  unfolding hazard_run_def by (induction rule: rtranclp_induct) (auto intro: h_inv_init h_step_inv)

text \<open>A pointer that \<open>protect\<close> is about to return or that its caller may still use is not deleted by any step of any thread.\<close>

lemma held_not_deleted:
  assumes "hazard_run s" and "p \<in> hz_held s t \<or> hz_pc s t = H_ret p"
  shows "hz_loc s p \<noteq> Unalloc"
proof -
  note inv = h_invD [OF hazard_run_inv [OF assms(1)]]
  have "\<exists>i. hz_cov s t i \<and> hz_slot s t i = Some p" using assms(2) inv(5) inv(7) [of t] by (auto simp: held_covered_def)
  then show ?thesis using coversD(5) [OF inv(3)] by blast
qed

text \<open>What is deleted had been retired, by the thread that deletes it or by one that is gone, and is retired no more.\<close>

lemma deleted_was_retired:
  assumes "hazard_run s" and "h_step s s'" and "hz_loc s p \<noteq> Unalloc" and "hz_loc s' p = Unalloc"
  shows "\<exists>t. (hz_loc s p = Ret t \<or> hz_loc s p = Orp) \<and> hz_src s' = hz_src s \<and> (\<forall>a. hz_src s a \<noteq> Some p) \<and>
    (\<forall>u. p \<notin> set (hz_ret s' u)) \<and> p \<notin> set (hz_orph s')"
proof -
  note inv = h_invD [OF hazard_run_inv [OF assms(1)]]
  have pl': "objects_placed s'" using step_objects_placed [OF assms(2) hazard_run_inv [OF assms(1)]] .
  have gone: "p \<notin> set (hz_ret s' u)" "p \<notin> set (hz_orph s')" for u using assms(4) by (simp_all add: placedD [OF pl'])
  from assms(2) show ?thesis
  proof (cases rule: h_step.cases)
    case (h_delete t ex o' haz kept q ps)
    have "h_list t o' s = kept @ q # ps" using inv(6) [of t] h_delete by (simp add: h_list_def)
    then have loc: "hz_loc s q = (if o' then Orp else Ret t)"
      using placedD(4) [OF inv(1), of q t] placedD(5) [OF inv(1), of q] by (simp add: h_list_def split: if_splits)
    have "q = p" using h_delete assms(3,4) by (auto simp: h_jump_def split: if_splits)
    then show ?thesis using loc gone h_delete by (intro exI [of _ t]) (auto simp: h_jump_def placedD(1) [OF inv(1)])
  qed (use assms(3,4) in \<open>auto simp: h_jump_def h_see_def h_write_slot_def split: if_splits\<close>)
qed

text \<open>When a scan has gone through the own list of a thread, at most the eight slots of every record can hold objects of it back.\<close>

lemma scan_leaves_few: "hazard_run s \<Longrightarrow> hz_pc s t = H_try ex \<Longrightarrow> length (hz_ret s t) \<le> 8 * length (hz_recs s)"
  using h_invD(8) [OF hazard_run_inv, of s t] by simp

text \<open>The scan that \<open>retire\<close> starts at the threshold thus frees at least half of what was retired.\<close>

lemma scan_frees_half: "hazard_run s \<Longrightarrow> hz_pc s t = H_try ex \<Longrightarrow> threshold s \<le> n \<Longrightarrow> 2 * length (hz_ret s t) \<le> n"
  using scan_leaves_few [of s t ex] by (simp add: threshold_def)

text \<open>Undisturbed, the loop ends with the list that \<open>reclaim\<close> computes.\<close>

lemma reclaim_runs:
  assumes "hz_pc s t = H_free ex orph haz kept ps" and "h_list t orph s = kept @ ps"
  shows "\<exists>s'. h_step\<^sup>*\<^sup>* s s' \<and> hz_pc s' t = H_free ex orph haz (fst (reclaim haz kept freed ps)) [] \<and>
    h_list t orph s' = fst (reclaim haz kept freed ps)"
  using assms
proof (induction ps arbitrary: s kept freed)
  case (Cons p ps)
  show ?case
  proof (cases "p \<in> set haz")
    case True
    let ?s = "h_jump t (H_free ex orph haz (kept @ [p]) ps) s"
    have "h_step s ?s" using h_keep [OF Cons.prems(1) True] .
    moreover have "hz_pc ?s t = H_free ex orph haz (kept @ [p]) ps" "h_list t orph ?s = (kept @ [p]) @ ps"
      using Cons.prems(2) by (auto simp: h_jump_def h_list_def)
    note Cons.IH [OF this, of freed]
    ultimately show ?thesis using True by (auto intro: converse_rtranclp_into_rtranclp)
  next
    case False
    let ?s = "h_jump t (H_free ex orph haz kept ps) (h_set_list t orph (kept @ ps) (s\<lparr>hz_loc := (hz_loc s)(p := Unalloc)\<rparr>))"
    have "h_step s ?s" using h_delete [OF Cons.prems(1) False] .
    moreover have "hz_pc ?s t = H_free ex orph haz kept ps" "h_list t orph ?s = kept @ ps"
      by (simp_all add: h_jump_def h_list_def h_set_list_def)
    note Cons.IH [OF this, of "freed @ [p]"]
    ultimately show ?thesis using False by (auto intro: converse_rtranclp_into_rtranclp)
  qed
qed auto

text \<open>C34. In every interleaving of any number of threads that protect, publish, unlink, retire, scan, exit and reuse records (addresses
  being reused too): a pointer that \<open>protect\<close> returned and whose slot was not taken since is not freed memory; an object is deleted only while it is retired and out
  of every shared pointer, and then is in no list any more, so it is deleted once; and a scan leaves at most eight retired objects for
  every record in the list of its thread.\<close>

theorem hazard_pointers_safe:
  assumes "hazard_run s"
  shows "(\<forall>t p. p \<in> hz_held s t \<or> hz_pc s t = H_ret p \<longrightarrow> hz_loc s p \<noteq> Unalloc) \<and>
    (\<forall>s' p. h_step s s' \<longrightarrow> hz_loc s p \<noteq> Unalloc \<longrightarrow> hz_loc s' p = Unalloc \<longrightarrow>
      ((\<exists>t. hz_loc s p = Ret t) \<or> hz_loc s p = Orp) \<and> (\<forall>a. hz_src s' a \<noteq> Some p) \<and> (\<forall>u. p \<notin> set (hz_ret s' u)) \<and> p \<notin> set (hz_orph s')) \<and>
    (\<forall>t ex. hz_pc s t = H_try ex \<longrightarrow> length (hz_ret s t) \<le> 8 * length (hz_recs s))"
proof (intro conjI)
  show "\<forall>s' p. h_step s s' \<longrightarrow> hz_loc s p \<noteq> Unalloc \<longrightarrow> hz_loc s' p = Unalloc \<longrightarrow>
      ((\<exists>t. hz_loc s p = Ret t) \<or> hz_loc s p = Orp) \<and> (\<forall>a. hz_src s' a \<noteq> Some p) \<and> (\<forall>u. p \<notin> set (hz_ret s' u)) \<and> p \<notin> set (hz_orph s')"
    using deleted_was_retired [OF assms] by fastforce
qed (use held_not_deleted [OF assms] scan_leaves_few [OF assms] in blast)+


text \<open>One thread publishes an object, protects it, unlinks and retires it: it is still there.\<close>

theorem hazard_pointers_safe_witness:
  "\<exists>s. hazard_run s \<and> (5 \<in> hz_held s 0 \<and> hz_loc s 5 = Ret 0 \<and> hz_src s 0 = None) \<and> hz_loc s 5 \<noteq> Unalloc"
proof -
  define s1 where "s1 = h_jump 0 H_idle (hz_init\<lparr>hz_active := (hz_active hz_init)(0 := True), hz_recs := (if 0 \<in> set (hz_recs hz_init) then hz_recs hz_init else 0 # hz_recs hz_init)\<rparr>)"
  define s2 where "s2 = s1\<lparr>hz_loc := (hz_loc s1)(5 := Priv 0)\<rparr>"
  define s3 where "s3 = s2\<lparr>hz_src := (hz_src s2)(0 \<mapsto> 5), hz_loc := (hz_loc s2)(5 := Linked 0)\<rparr>"
  define s4 where "s4 = h_jump 0 (H_load 0) s3"
  define s5 where "s5 = h_jump 0 (H_check 0 5) (h_see 0 5 s4)"
  define s6 where "s6 = h_jump 0 (H_pub 0 5) s5"
  define s7 where "s7 = h_jump 0 (H_again 0 5) (h_write_slot 0 (hz_victim s6 0) (Some 5) (s6\<lparr>hz_victim := (hz_victim s6)(0 := (hz_victim s6 0 + 1) mod 8)\<rparr>))"
  define s8 where "s8 = h_jump 0 (H_ret 5) (h_see 0 5 s7)"
  define s9 where "s9 = h_jump 0 H_idle (s8\<lparr>hz_held := (hz_held s8)(0 := insert 5 (hz_held s8 0))\<rparr>)"
  define s10 where "s10 = s9\<lparr>hz_src := (hz_src s9)(0 := None), hz_loc := (hz_loc s9)(5 := Priv 0)\<rparr>"
  define s11 where "s11 = h_jump 0 (if threshold s10 \<le> length (hz_ret s10 0 @ [5]) then H_collect False False (hz_recs s10) [] [] else H_idle)
    (s10\<lparr>hz_ret := (hz_ret s10)(0 := hz_ret s10 0 @ [5]), hz_loc := (hz_loc s10)(5 := Ret 0)\<rparr>)"
  note e1 = s1_def [unfolded hz_init_def h_jump_def, simplified]
  note e2 = s2_def [unfolded e1, simplified]
  note e3 = s3_def [unfolded e2, simplified]
  note e4 = s4_def [unfolded e3 h_jump_def, simplified]
  note e5 = s5_def [unfolded e4 h_jump_def h_see_def, simplified]
  note e6 = s6_def [unfolded e5 h_jump_def, simplified]
  note e7 = s7_def [unfolded e6 h_jump_def h_write_slot_def, simplified]
  note e8 = s8_def [unfolded e7 h_jump_def h_see_def, simplified]
  note e9 = s9_def [unfolded e8 h_jump_def, simplified]
  note e10 = s10_def [unfolded e9, simplified]
  have "h_step hz_init s1" unfolding s1_def by (rule h_acquire) (simp add: hz_init_def)
  moreover have "h_step s1 s2" unfolding s2_def by (rule h_alloc) (simp_all add: e1)
  moreover have "h_step s2 s3" unfolding s3_def by (rule h_link [where t = 0]) (simp_all add: e2)
  moreover have "h_step s3 s4" unfolding s4_def by (rule h_protect) (simp add: e3)
  moreover have "h_step s4 s5" unfolding s5_def by (rule h_load) (simp_all add: e4)
  moreover have "h_step s5 s6" unfolding s6_def by (rule h_miss) (simp_all add: e5)
  moreover have "h_step s6 s7" unfolding s7_def by (rule h_publish) (simp_all add: e6)
  moreover have "h_step s7 s8" unfolding s8_def by (rule h_again_same) (simp_all add: e7)
  moreover have "h_step s8 s9" unfolding s9_def by (rule h_return) (simp add: e8)
  moreover have "h_step s9 s10" unfolding s10_def by (rule h_unlink) (simp_all add: e9)
  moreover have "h_step s10 s11" unfolding s11_def by (rule h_retire) (simp_all add: e10)
  ultimately have run: "hazard_run s11" unfolding hazard_run_def by (elim converse_rtranclp_into_rtranclp) (rule rtranclp.rtrancl_refl)
  have "5 \<in> hz_held s11 0 \<and> hz_loc s11 5 = Ret 0 \<and> hz_src s11 0 = None" by (simp add: s11_def h_jump_def e10)
  then show ?thesis using run hazard_pointers_safe [OF run] by blast
qed

end
