(* ===== verification/Uring_Ops.thy ===== *)
theory Uring_Ops
  imports Socket_Header
begin

text \<open>
  The multishot receive of the io_uring backend, data structures (\<open>poll/IOUringOps.h\<close>, \<open>net/SocketLinuxIOUring.h\<close>). The kernel stores received bytes in
  buffers of a shared pool and reports a segment (buffer, length) for each; a socket queues its segments in a ring of 16 cells that
  spills into a vector, and \<open>consume_ms_recv\<close> copies them to the reader and gives the buffers back.
\<close>

section \<open>The queue of segments\<close>

record rseg =
  sg_len :: u32
  sg_off :: u32
  sg_bid :: nat

definition kInlineSegs :: nat where "kInlineSegs = 16"

record msrecv =
  ms_segs :: "rseg list"
  ms_head :: nat
  ms_count :: nat
  ms_spill :: "rseg list"
  ms_armed :: bool
  ms_waiting :: bool
  ms_has_terminal :: bool
  ms_terminal :: int
  ms_header :: "nat option"

definition no_seg :: rseg where
  "no_seg = \<lparr>sg_len = 0, sg_off = 0, sg_bid = 0\<rparr>"

definition ms_new :: msrecv where
  "ms_new = \<lparr>ms_segs = replicate kInlineSegs no_seg, ms_head = 0, ms_count = 0, ms_spill = [], ms_armed = False, ms_waiting = False,
     ms_has_terminal = False, ms_terminal = 0, ms_header = None\<rparr>"

definition has_data :: "msrecv \<Rightarrow> bool" where
  "has_data op \<longleftrightarrow> ms_count op \<noteq> 0 \<or> ms_spill op \<noteq> []"

definition seg_push :: "rseg \<Rightarrow> msrecv \<Rightarrow> msrecv" where
  "seg_push s op = (if ms_count op < kInlineSegs \<and> ms_spill op = []
     then op\<lparr>ms_segs := (ms_segs op)[(ms_head op + ms_count op) mod kInlineSegs := s], ms_count := ms_count op + 1\<rparr>
     else op\<lparr>ms_spill := ms_spill op @ [s]\<rparr>)"

definition seg_front :: "msrecv \<Rightarrow> rseg option" where
  "seg_front op = (if ms_count op \<noteq> 0 then Some (ms_segs op ! ms_head op)
     else if ms_spill op \<noteq> [] then Some (hd (ms_spill op)) else None)"

text \<open>A store through the pointer that \<open>front\<close> returned.\<close>

definition seg_put_front :: "rseg \<Rightarrow> msrecv \<Rightarrow> msrecv" where
  "seg_put_front s op = (if ms_count op \<noteq> 0 then op\<lparr>ms_segs := (ms_segs op)[ms_head op := s]\<rparr>
     else op\<lparr>ms_spill := s # tl (ms_spill op)\<rparr>)"

definition seg_pop_front :: "msrecv \<Rightarrow> msrecv" where
  "seg_pop_front op = (if ms_count op \<noteq> 0 then op\<lparr>ms_head := (ms_head op + 1) mod kInlineSegs, ms_count := ms_count op - 1\<rparr>
     else if ms_spill op \<noteq> [] then op\<lparr>ms_spill := tl (ms_spill op)\<rparr> else op)"

definition segq_wf :: "msrecv \<Rightarrow> bool" where
  "segq_wf op \<longleftrightarrow> length (ms_segs op) = kInlineSegs \<and> ms_head op < kInlineSegs \<and> ms_count op \<le> kInlineSegs"

text \<open>The queue as a list: the ring from its head, then the vector.\<close>

definition segq :: "msrecv \<Rightarrow> rseg list" where
  "segq op = map (\<lambda>i. ms_segs op ! ((ms_head op + i) mod kInlineSegs)) [0..<ms_count op] @ ms_spill op"

lemma segq_new [simp]: "segq ms_new = []" "segq_wf ms_new"
  by (simp_all add: segq_def ms_new_def segq_wf_def kInlineSegs_def)

lemma segq_has_data [simp]: "has_data op \<longleftrightarrow> segq op \<noteq> []"
  by (auto simp: has_data_def segq_def)

lemma segq_push [simp]:
  assumes "segq_wf op"
  shows "segq (seg_push s op) = segq op @ [s]" and "segq_wf (seg_push s op)"
proof -
  have "(ms_head op + i) mod kInlineSegs \<noteq> (ms_head op + ms_count op) mod kInlineSegs" if "i < ms_count op" "ms_count op < kInlineSegs" for i
    using that assms by (cases "ms_head op + i < kInlineSegs"; cases "ms_head op + ms_count op < kInlineSegs") (auto simp: segq_wf_def mod_if)
  then have "(ms_segs op)[(ms_head op + ms_count op) mod kInlineSegs := s] ! ((ms_head op + i) mod kInlineSegs) = ms_segs op ! ((ms_head op + i) mod kInlineSegs)"
    if "i < ms_count op" "ms_count op < kInlineSegs" for i using that by (metis nth_list_update_neq)
  then show "segq (seg_push s op) = segq op @ [s]" using assms
    by (auto simp: seg_push_def segq_def segq_wf_def kInlineSegs_def)
  show "segq_wf (seg_push s op)" using assms by (auto simp: seg_push_def segq_wf_def)
qed

lemma segq_front: "segq_wf op \<Longrightarrow> seg_front op = (case segq op of [] \<Rightarrow> None | s # ss \<Rightarrow> Some s)"
  by (cases "ms_count op") (auto simp: seg_front_def segq_def segq_wf_def upt_conv_Cons kInlineSegs_def hd_conv_nth split: list.split simp del: upt_Suc)

lemma segq_pop:
  assumes "segq_wf op" and "segq op = s # ss"
  shows "segq (seg_pop_front op) = ss" and "segq_wf (seg_pop_front op)"
proof -
  have "map (\<lambda>i. ms_segs op ! (((ms_head op + 1) mod kInlineSegs + i) mod kInlineSegs)) [0..<n] =
      map (\<lambda>i. ms_segs op ! ((ms_head op + i) mod kInlineSegs)) [1..<Suc n]" for n
    by (simp add: map_Suc_upt [symmetric] mod_add_left_eq comp_def del: upt_Suc)
  then show "segq (seg_pop_front op) = ss" using assms
    by (cases "ms_count op") (auto simp: seg_pop_front_def segq_def upt_conv_Cons simp del: upt_Suc)
  show "segq_wf (seg_pop_front op)" using assms(1) by (auto simp: seg_pop_front_def segq_wf_def kInlineSegs_def)
qed

lemma segq_put_front:
  assumes "segq_wf op" and "segq op = s # ss"
  shows "segq (seg_put_front s' op) = s' # ss" and "segq_wf (seg_put_front s' op)"
proof (cases "ms_count op")
  case (Suc n)
  have "(ms_head op + i) mod kInlineSegs \<noteq> ms_head op" if "1 \<le> i" "i < ms_count op" for i
    using that assms(1) by (cases "ms_head op + i < kInlineSegs") (auto simp: segq_wf_def mod_if)
  then have "(ms_segs op)[ms_head op := s'] ! ((ms_head op + i) mod kInlineSegs) = ms_segs op ! ((ms_head op + i) mod kInlineSegs)"
    if "1 \<le> i" "i < ms_count op" for i using that by (metis nth_list_update_neq)
  then show "segq (seg_put_front s' op) = s' # ss" using assms Suc
    by (auto simp: seg_put_front_def segq_def segq_wf_def upt_conv_Cons simp del: upt_Suc)
qed (use assms in \<open>auto simp: seg_put_front_def segq_def segq_wf_def\<close>)


section \<open>Reading the segments\<close>

text \<open>The loop of \<open>consume_ms_recv\<close>. \<open>pool\<close> is the memory of the buffers; the result has the bytes copied so far, the queue, and the buffers
  given back, in order.\<close>

definition seg_advance :: "nat \<Rightarrow> rseg \<Rightarrow> rseg" where
  "seg_advance n s = s\<lparr>sg_off := sg_off s + of_nat n\<rparr>"

definition seg_take :: "nat \<Rightarrow> rseg \<Rightarrow> nat" where
  "seg_take room s = (let avail = unat (sg_len s - sg_off s) in if avail < room then avail else room)"

definition seg_copy :: "(nat \<Rightarrow> nat \<Rightarrow> u8) \<Rightarrow> nat \<Rightarrow> rseg \<Rightarrow> u8 list" where
  "seg_copy pool n s = map (\<lambda>k. pool (sg_bid s) (unat (sg_off s) + k)) [0..<n]"

definition seg_pending :: "msrecv \<Rightarrow> nat" where
  "seg_pending op = ms_count op + length (ms_spill op)"

lemma seg_pending_pop: "seg_front op = Some s \<Longrightarrow> seg_pending (seg_pop_front (seg_put_front s' op)) < seg_pending op"
  by (auto simp: seg_pending_def seg_front_def seg_pop_front_def seg_put_front_def split: if_splits)

lemma seg_pending_put: "seg_front op = Some s \<Longrightarrow> seg_pending (seg_put_front s' op) = seg_pending op"
  by (cases "ms_spill op") (auto simp: seg_pending_def seg_front_def seg_put_front_def split: if_splits)

lemma seg_take_all: "seg_take room s < room \<Longrightarrow> sg_off (seg_advance (seg_take room s) s) = sg_len s"
  by (auto simp: seg_take_def seg_advance_def Let_def split: if_splits)

function consume_loop :: "(nat \<Rightarrow> nat \<Rightarrow> u8) \<Rightarrow> nat \<Rightarrow> msrecv \<Rightarrow> u8 list \<Rightarrow> nat list \<Rightarrow> u8 list \<times> msrecv \<times> nat list" where
  "consume_loop pool mx op dst given = (if length dst < mx then
     (case seg_front op of
        None \<Rightarrow> (dst, op, given)
      | Some s \<Rightarrow>
         let n = seg_take (mx - length dst) s;
             dst1 = dst @ seg_copy pool n s;
             s1 = seg_advance n s;
             op1 = seg_put_front s1 op
         in if sg_off s1 = sg_len s1 then consume_loop pool mx (seg_pop_front op1) dst1 (given @ [sg_bid s1])
            else consume_loop pool mx op1 dst1 given)
     else (dst, op, given))"
  by pat_completeness auto
termination
proof (relation "measures [\<lambda>(pool, mx, op, dst, given). seg_pending op, \<lambda>(pool, mx, op, dst, given). mx - length dst]", goal_cases)
  case (3 pool mx op dst given s n dst1 s1 op1)
  then have "n = mx - length dst" using seg_take_all [of "mx - length dst" s] by (force simp: seg_take_def Let_def seg_advance_def split: if_splits)
  then show ?case using 3 by (simp add: seg_pending_put seg_copy_def)
qed (simp_all add: seg_pending_pop)

declare consume_loop.simps [simp del]

definition consume_ms_recv :: "(nat \<Rightarrow> nat \<Rightarrow> u8) \<Rightarrow> msrecv \<Rightarrow> nat \<Rightarrow> u8 list \<times> msrecv \<times> nat list" where
  "consume_ms_recv pool op mx = consume_loop pool mx op [] []"


text \<open>The bytes of a segment that are still to be read.\<close>

definition seg_bytes :: "(nat \<Rightarrow> nat \<Rightarrow> u8) \<Rightarrow> rseg \<Rightarrow> u8 list" where
  "seg_bytes pool s = seg_copy pool (unat (sg_len s) - unat (sg_off s)) s"

definition segq_bytes :: "(nat \<Rightarrow> nat \<Rightarrow> u8) \<Rightarrow> rseg list \<Rightarrow> u8 list" where
  "segq_bytes pool q = concat (map (seg_bytes pool) q)"

definition rseg_ok :: "rseg \<Rightarrow> bool" where
  "rseg_ok s \<longleftrightarrow> sg_off s < sg_len s"

lemma segq_bytes_simps [simp]: "segq_bytes pool [] = []" "segq_bytes pool (s # q) = seg_bytes pool s @ segq_bytes pool q"
  "segq_bytes pool (q @ q') = segq_bytes pool q @ segq_bytes pool q'"
  by (simp_all add: segq_bytes_def)

lemma seg_copy_split:
  assumes "unat (sg_off s) + n < 2 ^ 32"
  shows "seg_copy pool n s @ seg_copy pool m (seg_advance n s) = seg_copy pool (n + m) s"
proof -
  have "unat (sg_off s + of_nat n) = unat (sg_off s) + n" using assms by (simp add: unat_word_ariths unat_of_nat)
  moreover have "[0..<n + m] = [0..<n] @ map (\<lambda>k. n + k) [0..<m]" using map_add_upt [of n m] upt_add_eq_append [of 0 n m] by (simp add: add.commute)
  ultimately show ?thesis by (simp add: seg_copy_def seg_advance_def add.assoc)
qed

lemma seg_ok_diff: "rseg_ok s \<Longrightarrow> unat (sg_len s - sg_off s) = unat (sg_len s) - unat (sg_off s) \<and> unat (sg_off s) < unat (sg_len s)"
  by (simp add: rseg_ok_def unat_sub word_less_nat_alt order_less_imp_le word_le_nat_alt)

lemma seg_advance_ok:
  assumes "rseg_ok s" and "n \<le> unat (sg_len s) - unat (sg_off s)"
  shows "seg_copy pool n s @ seg_bytes pool (seg_advance n s) = seg_bytes pool s"
    and "sg_off (seg_advance n s) = sg_len s \<longleftrightarrow> n = unat (sg_len s) - unat (sg_off s)"
    and "n < unat (sg_len s) - unat (sg_off s) \<Longrightarrow> rseg_ok (seg_advance n s)"
proof -
  have lt: "unat (sg_off s) + n < 2 ^ 32" "unat (sg_off s) < unat (sg_len s)"
    using assms seg_ok_diff [of s] unsigned_less [of "sg_len s", where ?'a = nat] by auto
  then have n: "unat (of_nat n :: u32) = n" by (simp add: unat_of_nat)
  then have off: "unat (sg_off (seg_advance n s)) = unat (sg_off s) + n" using lt(1) by (simp add: seg_advance_def unat_word_ariths)
  show "seg_copy pool n s @ seg_bytes pool (seg_advance n s) = seg_bytes pool s"
    using seg_copy_split [OF lt(1), of pool "unat (sg_len s) - unat (sg_off (seg_advance n s))"] assms(2) off lt(2)
    by (simp add: seg_bytes_def) (simp add: seg_advance_def)
  show "sg_off (seg_advance n s) = sg_len s \<longleftrightarrow> n = unat (sg_len s) - unat (sg_off s)"
    using off lt(2) by (auto simp: word_unat_eq_iff)
  show "n < unat (sg_len s) - unat (sg_off s) \<Longrightarrow> rseg_ok (seg_advance n s)"
    using off by (simp add: rseg_ok_def word_less_nat_alt) (simp add: seg_advance_def)
qed


definition same_flags :: "msrecv \<Rightarrow> msrecv \<Rightarrow> bool" where
  "same_flags op' op \<longleftrightarrow> ms_armed op' = ms_armed op \<and> ms_waiting op' = ms_waiting op \<and> ms_has_terminal op' = ms_has_terminal op \<and>
     ms_terminal op' = ms_terminal op \<and> ms_header op' = ms_header op"

lemma same_flags_ops [simp]: "same_flags (seg_put_front s op) op" "same_flags (seg_pop_front op) op" "same_flags (seg_push s op) op" "same_flags op op"
  by (simp_all add: same_flags_def seg_put_front_def seg_pop_front_def seg_push_def)

lemma same_flags_trans: "same_flags op'' op' \<Longrightarrow> same_flags op' op \<Longrightarrow> same_flags op'' op"
  by (simp add: same_flags_def)

lemma consume_loop_spec:
  assumes "segq_wf op" and "\<forall>s\<in>set (segq op). rseg_ok s" and "consume_loop pool mx op dst given = (dst', op', given')" and "length dst \<le> mx"
  shows "segq_wf op' \<and> (\<forall>s\<in>set (segq op'). rseg_ok s) \<and> same_flags op' op \<and>
    dst' @ segq_bytes pool (segq op') = dst @ segq_bytes pool (segq op) \<and> given' @ map sg_bid (segq op') = given @ map sg_bid (segq op) \<and>
    (length dst' = mx \<or> length dst' \<le> mx \<and> segq op' = [])"
  using assms
proof (induction pool mx op dst given arbitrary: dst' op' given' rule: consume_loop.induct)
  case (1 pool mx op dst given)
  show ?case
  proof (cases "length dst < mx \<and> segq op \<noteq> []")
    case False
    then have "consume_loop pool mx op dst given = (dst, op, given)"
      using segq_front [OF "1.prems"(1)] by (cases "segq op") (auto simp: consume_loop.simps [of pool mx op])
    then show ?thesis using "1.prems" False by auto
  next
    case True
    then obtain s ss where q: "segq op = s # ss" by (cases "segq op") auto
    have fr: "seg_front op = Some s" using segq_front [OF "1.prems"(1)] q by simp
    define n where "n = seg_take (mx - length dst) s"
    define op1 where "op1 = seg_put_front (seg_advance n s) op"
    have ok: "rseg_ok s" using "1.prems"(2) q by simp
    have n: "n \<le> unat (sg_len s) - unat (sg_off s)" "n \<le> mx - length dst" "n < unat (sg_len s) - unat (sg_off s) \<Longrightarrow> n = mx - length dst"
      using seg_ok_diff [OF ok] by (auto simp: n_def seg_take_def Let_def)
    have adv: "segq op1 = seg_advance n s # ss" "segq_wf op1" using segq_put_front [OF "1.prems"(1) q] by (simp_all add: op1_def)
    have bid: "sg_bid (seg_advance n s) = sg_bid s" "sg_len (seg_advance n s) = sg_len s" by (simp_all add: seg_advance_def)
    note a = seg_advance_ok [OF ok n(1)]
    have len: "length (dst @ seg_copy pool n s) \<le> mx" using n(2) True by (auto simp: seg_copy_def)
    show ?thesis
    proof (cases "sg_off (seg_advance n s) = sg_len (seg_advance n s)")
      case pop: True
      have eq: "consume_loop pool mx op dst given = consume_loop pool mx (seg_pop_front op1) (dst @ seg_copy pool n s) (given @ [sg_bid (seg_advance n s)])"
        using True fr pop by (simp add: consume_loop.simps [of pool mx op] Let_def n_def op1_def)
      have pp: "segq (seg_pop_front op1) = ss" "segq_wf (seg_pop_front op1)" using segq_pop [OF adv(2,1)] by simp_all
      have "seg_bytes pool (seg_advance n s) = []" using pop by (simp add: seg_bytes_def seg_copy_def)
      then have b: "seg_copy pool n s = seg_bytes pool s" using a(1) [of pool] by simp
      have fl: "same_flags (seg_pop_front op1) op" unfolding op1_def by (rule same_flags_trans [OF same_flags_ops(2,1)])
      show ?thesis
        using "1.IH"(1) [OF _ fr n_def refl refl op1_def, unfolded bid] "1.prems" True pop eq pp q b len fl bid
        by (auto simp: same_flags_def)
    next
      case keep: False
      have eq: "consume_loop pool mx op dst given = consume_loop pool mx op1 (dst @ seg_copy pool n s) given"
        using True fr keep by (simp add: consume_loop.simps [of pool mx op] Let_def n_def op1_def)
      have "n \<noteq> unat (sg_len s) - unat (sg_off s)" using keep a(2) bid by simp
      then have ok1: "rseg_ok (seg_advance n s)" and full: "length (dst @ seg_copy pool n s) = mx" using a(3) n True by (auto simp: seg_copy_def)
      then have "(dst', op', given') = (dst @ seg_copy pool n s, op1, given)"
        using eq "1.prems"(3) by (simp add: consume_loop.simps [of pool mx op1])
      then show ?thesis using adv ok1 full "1.prems"(2) q a(1) [of pool] bid by (simp add: op1_def)
    qed
  qed
qed

lemma consume_ms_recv_spec:
  assumes "segq_wf op" and "\<forall>s\<in>set (segq op). rseg_ok s" and "consume_ms_recv pool op mx = (dst, op', given)"
  shows "segq_wf op'" and "\<forall>s\<in>set (segq op'). rseg_ok s" and "same_flags op' op"
    and "dst @ segq_bytes pool (segq op') = segq_bytes pool (segq op)" and "given @ map sg_bid (segq op') = map sg_bid (segq op)"
    and "length dst = min mx (length (segq_bytes pool (segq op)))"
proof -
  note sp = consume_loop_spec [OF assms(1,2) assms(3) [unfolded consume_ms_recv_def]]
  show "segq_wf op'" "\<forall>s\<in>set (segq op'). rseg_ok s" "same_flags op' op" "given @ map sg_bid (segq op') = map sg_bid (segq op)" using sp by simp_all
  show b: "dst @ segq_bytes pool (segq op') = segq_bytes pool (segq op)" using sp by simp
  then have "length (segq_bytes pool (segq op)) = length dst + length (segq_bytes pool (segq op'))" by (metis length_append)
  moreover have "length dst = mx \<or> length dst \<le> mx \<and> segq op' = []" using sp by simp
  ultimately show "length dst = min mx (length (segq_bytes pool (segq op)))" by (elim disjE) simp_all
qed

end
