(* ===== verification/Uring_Recv.thy ===== *)
theory Uring_Recv
  imports Uring_Ops
begin

text \<open>
  Receiving with io_uring (\<open>net/SocketLinuxIOUring.h\<close>, \<open>poll/IOUringPoller.cpp\<close>) in the build with \<open>UVENT_ENABLE_REUSEADDR\<close>, where the poller, its
  ring and its buffers belong to one worker: the awaiter of the multishot receive, submission, completion, the two forms of \<open>async_read\<close>, the
  timeout and the end of a socket. The kernel is part of the step relation, as io_uring documents it: a live multishot receive takes
  received bytes in order, a buffer of the group for each completion, and is over with the completion that lacks \<open>IORING_CQE_F_MORE\<close>.
\<close>

unbundle bit_operations_syntax

section \<open>State\<close>

datatype usqe = Sq_recv nat | Sq_cancel nat

record ucqe =
  cq_sock :: nat
  cq_res :: int
  cq_bid :: "nat option"
  cq_more :: bool

text \<open>Where the coroutine that reads a socket is: outside, suspended in the awaiter, or in the run queue after it was resumed.\<close>

datatype urd = R_idle | R_wait nat | R_ready nat

text \<open>The socket: its header with the operation inside it, and (ghost) the handles of the program, how often the receive was armed, and
  whether a direct \<open>recv\<close> took bytes past a receive under way or queued segments.\<close>

record usock =
  us_hdr :: SocketHeader
  us_op :: msrecv
  us_read_op :: bool
  us_first_read :: bool
  us_rd :: urd
  us_gone :: bool
  us_handles :: nat
  us_arms :: nat
  us_overtaken :: bool

text \<open>The poller (submission queue, completion queue, buffers), the kernel (live requests, bytes received and not yet taken, end of
  file), and (ghost) all bytes that arrived and all that were given to the reader.\<close>

record ursys =
  ur_sock :: "nat \<Rightarrow> usock"
  ur_pool :: "nat \<Rightarrow> nat \<Rightarrow> u8"
  ur_ring :: "nat list"
  ur_sq :: "usqe list"
  ur_cq :: "ucqe list"
  ur_live :: "nat \<Rightarrow> bool"
  ur_in :: "nat \<Rightarrow> u8 list"
  ur_eof :: "nat \<Rightarrow> bool"
  ur_arrived :: "nat \<Rightarrow> u8 list"
  ur_given :: "nat \<Rightarrow> u8 list"

definition kBufCount :: nat where "kBufCount = 256"
definition kBufSize :: nat where "kBufSize = 16384"
definition ring_entries :: nat where "ring_entries = 1024"
definition ENOBUFS :: int where "ENOBUFS = 105"

definition usock_new :: "SocketHeader \<Rightarrow> usock" where
  "usock_new h = \<lparr>us_hdr = h, us_op = ms_new, us_read_op = False, us_first_read = False, us_rd = R_idle, us_gone = False, us_handles = 1, us_arms = 0, us_overtaken = False\<rparr>"

definition ursys_init :: "(nat \<Rightarrow> SocketHeader) \<Rightarrow> ursys" where
  "ursys_init hs = \<lparr>ur_sock = (\<lambda>s. usock_new (hs s)), ur_pool = (\<lambda>_ _. 0), ur_ring = [0..<kBufCount], ur_sq = [], ur_cq = [], ur_live = (\<lambda>_. False),
     ur_in = (\<lambda>_. []), ur_eof = (\<lambda>_. False), ur_arrived = (\<lambda>_. []), ur_given = (\<lambda>_. [])\<rparr>"

definition usock_upd :: "nat \<Rightarrow> (usock \<Rightarrow> usock) \<Rightarrow> ursys \<Rightarrow> ursys" where
  "usock_upd s f y = y\<lparr>ur_sock := (ur_sock y)(s := f (ur_sock y s))\<rparr>"

section \<open>The poller\<close>

definition recycle_buf :: "nat \<Rightarrow> ursys \<Rightarrow> ursys" where
  "recycle_buf b y = y\<lparr>ur_ring := ur_ring y @ [b]\<rparr>"

lemma fold_recycle [simp]: "fold recycle_buf bs y = y\<lparr>ur_ring := ur_ring y @ bs\<rparr>"
  by (induction bs arbitrary: y) (simp_all add: recycle_buf_def)

definition uring_submit :: "ursys \<Rightarrow> ursys" where
  "uring_submit y = y\<lparr>ur_sq := [], ur_live := (\<lambda>s. ur_live y s \<or> Sq_recv s \<in> set (ur_sq y))\<rparr>"

text \<open>\<open>flushed\<close>: the kernel takes the entries of a full submission queue.\<close>

definition get_sqe_flush :: "bool \<Rightarrow> ursys \<Rightarrow> bool \<times> ursys" where
  "get_sqe_flush flushed y = (if length (ur_sq y) < ring_entries then (True, y)
     else if flushed then (True, uring_submit y) else (False, y))"

definition submit_recv_multishot :: "bool \<Rightarrow> nat \<Rightarrow> ursys \<Rightarrow> ursys" where
  "submit_recv_multishot flushed s y = (if sh_fd (us_hdr (ur_sock y s)) < 0 then y
     else (case get_sqe_flush flushed y of (False, y1) \<Rightarrow> y1
      | (True, y1) \<Rightarrow> usock_upd s (\<lambda>k. k\<lparr>us_op := (us_op k)\<lparr>ms_armed := True\<rparr>\<rparr>) (y1\<lparr>ur_sq := ur_sq y1 @ [Sq_recv s]\<rparr>)))"

definition submit_cancel :: "bool \<Rightarrow> nat \<Rightarrow> ursys \<Rightarrow> ursys" where
  "submit_cancel flushed s y = (case get_sqe_flush flushed y of (False, y1) \<Rightarrow> y1 | (True, y1) \<Rightarrow> y1\<lparr>ur_sq := ur_sq y1 @ [Sq_cancel s]\<rparr>)"

section \<open>References and the end of a socket\<close>

definition add_ref_for_ms_recv :: "SocketHeader \<Rightarrow> SocketHeader" where
  "add_ref_for_ms_recv h = (let st = sh_state h in
     if st AND CLOSED_MASK \<noteq> 0 then h
     else if st AND COUNT_MASK = COUNT_MASK then h
     else h\<lparr>sh_state := (st AND NOT COUNT_MASK) OR ((st AND COUNT_MASK) + 1)\<rparr>)"

function drain_segs :: "msrecv \<Rightarrow> nat list \<Rightarrow> msrecv \<times> nat list" where
  "drain_segs op given = (case seg_front op of None \<Rightarrow> (op, given) | Some s \<Rightarrow> drain_segs (seg_pop_front op) (given @ [sg_bid s]))"
  by pat_completeness auto
termination
  by (relation "measure (\<lambda>(op, given). seg_pending op)")
    (auto simp: seg_pending_def seg_front_def seg_pop_front_def split: if_splits)

declare drain_segs.simps [simp del]

text \<open>\<open>Socket::destroy\<close>: buffers back, descriptor closed, header on the delete queue.\<close>

definition u_destroy :: "nat \<Rightarrow> ursys \<Rightarrow> ursys" where
  "u_destroy s y = (let k = ur_sock y s; h1 = close_for_new_refs ((us_hdr k)\<lparr>sh_timer_id := 0\<rparr>); (op1, given) = drain_segs (us_op k) [] in
     usock_upd s (\<lambda>k. k\<lparr>us_hdr := (if 0 \<le> sh_fd h1 then h1\<lparr>sh_fd := -1\<rparr> else h1), us_op := op1, us_gone := True\<rparr>) (fold recycle_buf given y))"

definition u_release :: "nat \<Rightarrow> ursys \<Rightarrow> ursys" where
  "u_release s y = (case release (us_hdr (ur_sock y s)) of (final_ref, h) \<Rightarrow>
     let y1 = usock_upd s (\<lambda>k. k\<lparr>us_hdr := h\<rparr>) y in if final_ref then u_destroy s y1 else y1)"

text \<open>A handle made from the pointer in the operation and dropped at once; no handle for the null pointer.\<close>

definition drop_recv_ref :: "nat option \<Rightarrow> ursys \<Rightarrow> ursys" where
  "drop_recv_ref hp y = (case hp of None \<Rightarrow> y | Some s \<Rightarrow> u_release s y)"

section \<open>Completion\<close>

definition push_completion :: "ucqe \<Rightarrow> msrecv \<Rightarrow> msrecv" where
  "push_completion c op = (let op1 = (case cq_bid c of
        Some b \<Rightarrow> if 0 < cq_res c then seg_push \<lparr>sg_len = of_int (cq_res c), sg_off = 0, sg_bid = b\<rparr> op
                  else op\<lparr>ms_has_terminal := True, ms_terminal := cq_res c\<rparr>
      | None \<Rightarrow> op\<lparr>ms_has_terminal := True, ms_terminal := cq_res c\<rparr>)
     in if cq_more c then op1 else op1\<lparr>ms_armed := False\<rparr>)"

definition resume_reader :: "usock \<Rightarrow> usock" where
  "resume_reader k = (if ms_waiting (us_op k)
     then k\<lparr>us_op := (us_op k)\<lparr>ms_waiting := False\<rparr>, us_rd := (case us_rd k of R_wait mx \<Rightarrow> R_ready mx | r \<Rightarrow> r)\<rparr> else k)"

definition handle_cqe :: "ucqe \<Rightarrow> ursys \<Rightarrow> ursys" where
  "handle_cqe c y = (let s = cq_sock c; was_armed = ms_armed (us_op (ur_sock y s));
       y1 = usock_upd s (\<lambda>k. resume_reader (k\<lparr>us_op := push_completion c (us_op k)\<rparr>)) y; op1 = us_op (ur_sock y1 s)
     in if was_armed \<and> \<not> ms_armed op1 then drop_recv_ref (ms_header op1) y1 else y1)"

section \<open>Reading\<close>

text \<open>\<open>MultishotRecvAwaiter::await_suspend\<close>; true when the coroutine suspends.\<close>

definition ms_await_suspend :: "bool \<Rightarrow> nat \<Rightarrow> ursys \<Rightarrow> bool \<times> ursys" where
  "ms_await_suspend flushed s y = (let op = us_op (ur_sock y s);
       y1 = (if \<not> ms_armed op \<and> \<not> ms_has_terminal op then
               let y2 = submit_recv_multishot flushed s y in
               if ms_armed (us_op (ur_sock y2 s))
               then usock_upd s (\<lambda>k. k\<lparr>us_hdr := add_ref_for_ms_recv (us_hdr k), us_read_op := True, us_arms := us_arms k + 1\<rparr>) y2 else y2
             else y);
       op1 = us_op (ur_sock y1 s)
     in if has_data op1 \<or> ms_has_terminal op1 then (False, y1)
        else (True, usock_upd s (\<lambda>k. k\<lparr>us_op := (us_op k)\<lparr>ms_waiting := True\<rparr>\<rparr>) y1))"

text \<open>One round of the loop of \<open>async_read\<close>: it returns bytes, returns the end or an error, or suspends.\<close>

datatype uread_result = U_data "u8 list" | U_end int | U_suspended | U_again

definition read_round :: "bool \<Rightarrow> nat \<Rightarrow> nat \<Rightarrow> ursys \<Rightarrow> uread_result \<times> ursys" where
  "read_round flushed s mx y = (let op = us_op (ur_sock y s) in
     if has_data op then
       (case consume_ms_recv (ur_pool y) op mx of (dst, op1, given) \<Rightarrow>
          (U_data dst, usock_upd s (\<lambda>k. k\<lparr>us_op := op1\<rparr>) (fold recycle_buf given y)))
     else if ms_has_terminal op \<and> ms_terminal op \<noteq> - ENOBUFS then (U_end (ms_terminal op), y)
     else
       let y1 = (if ms_has_terminal op then usock_upd s (\<lambda>k. k\<lparr>us_op := (us_op k)\<lparr>ms_has_terminal := False, ms_terminal := 0\<rparr>\<rparr>) y else y) in
       (case ms_await_suspend flushed s y1 of (True, y2) \<Rightarrow> (U_suspended, y2)
        | (False, y2) \<Rightarrow> (U_again, usock_upd s (\<lambda>k. k\<lparr>us_op := (us_op k)\<lparr>ms_waiting := False\<rparr>\<rparr>) y2)))"

text \<open>The effect of a round on the coroutine.\<close>

definition after_round :: "nat \<Rightarrow> nat \<Rightarrow> uread_result \<times> ursys \<Rightarrow> ursys" where
  "after_round s mx ry = (case ry of (r, y) \<Rightarrow> (case r of
      U_data dst \<Rightarrow> usock_upd s (\<lambda>k. k\<lparr>us_rd := R_idle\<rparr>) (y\<lparr>ur_given := (ur_given y)(s := ur_given y s @ dst)\<rparr>)
    | U_end res \<Rightarrow> usock_upd s (\<lambda>k. k\<lparr>us_rd := R_idle\<rparr>) y
    | U_suspended \<Rightarrow> usock_upd s (\<lambda>k. k\<lparr>us_rd := R_wait mx\<rparr>) y
    | U_again \<Rightarrow> usock_upd s (\<lambda>k. k\<lparr>us_rd := R_ready mx\<rparr>) y))"

text \<open>A direct \<open>recv\<close> of \<open>n\<close> bytes from the kernel. It does not look at the operation: it takes bytes that lie behind those of queued segments, and a
  receive under way may take earlier bytes meanwhile.\<close>

definition direct_recv :: "nat \<Rightarrow> nat \<Rightarrow> ursys \<Rightarrow> u8 list \<times> ursys" where
  "direct_recv s n y = (take n (ur_in y s),
     usock_upd s (\<lambda>k. k\<lparr>us_overtaken := us_overtaken k \<or> ms_armed (us_op k) \<or> has_data (us_op k)\<rparr>) (y\<lparr>ur_in := (ur_in y)(s := drop n (ur_in y s))\<rparr>))"

text \<open>The form of \<open>async_read\<close> for a \<open>DynamicBuffer\<close> first tries \<open>recv\<close> once per socket: it takes \<open>n\<close> bytes when some are there, or fails (\<open>err\<close>).\<close>

definition first_recv :: "nat \<Rightarrow> nat \<Rightarrow> int \<Rightarrow> ursys \<Rightarrow> uread_result \<times> ursys" where
  "first_recv s n err y = (let y1 = usock_upd s (\<lambda>k. k\<lparr>us_first_read := True\<rparr>) y in
     if err < 0 then (U_end err, y1)
     else if ur_in y s \<noteq> [] then (case direct_recv s n y1 of (dst, y2) \<Rightarrow> (U_data dst, y2))
     else if ur_eof y s then (U_end 0, y1) else (U_again, y1))"

text \<open>One successful \<open>recv\<close> of the loop of the synchronous \<open>read\<close>, which appends what it got.\<close>

definition sync_recv :: "nat \<Rightarrow> nat \<Rightarrow> ursys \<Rightarrow> ursys" where
  "sync_recv s n y = (case direct_recv s n y of (dst, y1) \<Rightarrow> y1\<lparr>ur_given := (ur_given y1)(s := ur_given y1 s @ dst)\<rparr>)"

text \<open>\<open>remove\<close>: \<open>removeEvent\<close> of this poller does nothing, and the header takes no new references.\<close>

definition u_remove :: "nat \<Rightarrow> ursys \<Rightarrow> ursys" where
  "u_remove s y = usock_upd s (\<lambda>k. k\<lparr>us_hdr := close_for_new_refs (us_hdr k)\<rparr>) y"

section \<open>Timeout\<close>

definition u_set_timeout :: "nat \<Rightarrow> ursys \<Rightarrow> ursys" where
  "u_set_timeout s y = usock_upd s (\<lambda>k. if sh_timer_id (us_hdr k) \<noteq> 0 then k else k\<lparr>us_hdr := (add_ref_for_ms_recv (us_hdr k))\<lparr>sh_timer_id := 1\<rparr>\<rparr>) y"

definition u_timeout :: "bool \<Rightarrow> nat \<Rightarrow> ursys \<Rightarrow> ursys" where
  "u_timeout flushed s y = (let y1 = usock_upd s (\<lambda>k. k\<lparr>us_hdr := (us_hdr k)\<lparr>sh_timer_id := 0\<rparr>\<rparr>) y;
       y2 = (if us_read_op (ur_sock y1 s) then submit_cancel flushed s y1 else y1);
       y3 = usock_upd s (\<lambda>k. k\<lparr>us_hdr := (us_hdr k)\<lparr>sh_info := sh_info (us_hdr k) OR INFO_TIMEOUT\<rparr>\<rparr>) y2
     in u_release s y3)"


section \<open>Steps\<close>

definition hrefs :: "SocketHeader \<Rightarrow> nat" where
  "hrefs h = hs_count (decode_state (sh_state h))"

abbreviation urefs :: "usock \<Rightarrow> nat" where
  "urefs k \<equiv> hrefs (us_hdr k)"

definition hopen :: "SocketHeader \<Rightarrow> bool" where
  "hopen h \<longleftrightarrow> \<not> hs_flag (decode_state (sh_state h)) 63"

text \<open>
  \<open>ok\<close> tells that the kernel always takes the entries of a full submission queue. Fewer than \<open>2 ^ 40\<close> references are held. \<open>u_read\<close> is the raw form
  of \<open>async_read\<close>, or the one with a \<open>DynamicBuffer\<close> after its first call; \<open>u_first\<close> is that first call; a program may use both forms, and the
  synchronous \<open>read\<close> (\<open>u_sync\<close>), on one socket. After \<open>remove\<close> no read is started and no timeout is set, and it is not called while a read is pending.
\<close>

inductive u_step :: "bool \<Rightarrow> ursys \<Rightarrow> ursys \<Rightarrow> bool" for ok where
  k_arrive: "\<not> ur_eof y s \<Longrightarrow> u_step ok y (y\<lparr>ur_in := (ur_in y)(s := ur_in y s @ bs), ur_arrived := (ur_arrived y)(s := ur_arrived y s @ bs)\<rparr>)"
| k_fin: "u_step ok y (y\<lparr>ur_eof := (ur_eof y)(s := True)\<rparr>)"
| k_data: "ur_live y s \<Longrightarrow> ur_ring y = b # ring \<Longrightarrow> ur_in y s = bs @ rest \<Longrightarrow> bs \<noteq> [] \<Longrightarrow> length bs \<le> kBufSize \<Longrightarrow>
    u_step ok y (y\<lparr>ur_ring := ring, ur_pool := (ur_pool y)(b := (\<lambda>i. if i < length bs then bs ! i else ur_pool y b i)), ur_in := (ur_in y)(s := rest),
      ur_cq := ur_cq y @ [\<lparr>cq_sock = s, cq_res = int (length bs), cq_bid = Some b, cq_more = mo\<rparr>], ur_live := (ur_live y)(s := mo)\<rparr>)"
| k_end: "ur_live y s \<Longrightarrow> res < 0 \<or> res = 0 \<and> ur_eof y s \<and> ur_in y s = [] \<Longrightarrow>
    u_step ok y (y\<lparr>ur_cq := ur_cq y @ [\<lparr>cq_sock = s, cq_res = res, cq_bid = None, cq_more = False\<rparr>], ur_live := (ur_live y)(s := False)\<rparr>)"
| u_submit: "u_step ok y (uring_submit y)"
| u_complete: "ur_cq y = c # cs \<Longrightarrow> u_step ok y (handle_cqe c (y\<lparr>ur_cq := cs\<rparr>))"
| u_read: "us_rd (ur_sock y s) = R_idle \<Longrightarrow> 0 < us_handles (ur_sock y s) \<Longrightarrow> 0 < mx \<Longrightarrow> hopen (us_hdr (ur_sock y s)) \<Longrightarrow>
    urefs (ur_sock y s) + 1 < 2 ^ 40 \<Longrightarrow> (ok \<Longrightarrow> flushed) \<Longrightarrow> u_step ok y (after_round s mx (read_round flushed s mx y))"
| u_first: "us_rd (ur_sock y s) = R_idle \<Longrightarrow> 0 < us_handles (ur_sock y s) \<Longrightarrow> 0 < n \<Longrightarrow> n \<le> mx \<Longrightarrow> hopen (us_hdr (ur_sock y s)) \<Longrightarrow>
    \<not> us_first_read (ur_sock y s) \<Longrightarrow>
    u_step ok y (after_round s mx (first_recv s n err y))"
| u_resume: "us_rd (ur_sock y s) = R_ready mx \<Longrightarrow> urefs (ur_sock y s) + 1 < 2 ^ 40 \<Longrightarrow> (ok \<Longrightarrow> flushed) \<Longrightarrow>
    u_step ok y (after_round s mx (read_round flushed s mx y))"
| u_sync: "0 < us_handles (ur_sock y s) \<Longrightarrow> 0 < n \<Longrightarrow> n \<le> 16384 \<Longrightarrow> ur_in y s \<noteq> [] \<Longrightarrow> u_step ok y (sync_recv s n y)"
| u_removed: "0 < us_handles (ur_sock y s) \<Longrightarrow> us_rd (ur_sock y s) = R_idle \<Longrightarrow> u_step ok y (u_remove s y)"
| u_copy: "0 < us_handles (ur_sock y s) \<Longrightarrow> urefs (ur_sock y s) + 1 < 2 ^ 40 \<Longrightarrow>
    u_step ok y (usock_upd s (\<lambda>k. k\<lparr>us_hdr := add_ref (us_hdr k), us_handles := us_handles k + 1\<rparr>) y)"
| u_drop: "0 < us_handles (ur_sock y s) \<Longrightarrow> (us_handles (ur_sock y s) = 1 \<Longrightarrow> us_rd (ur_sock y s) = R_idle) \<Longrightarrow>
    u_step ok y (u_release s (usock_upd s (\<lambda>k. k\<lparr>us_handles := us_handles k - 1\<rparr>) y))"
| u_arm_timer: "0 < us_handles (ur_sock y s) \<Longrightarrow> hopen (us_hdr (ur_sock y s)) \<Longrightarrow> urefs (ur_sock y s) + 1 < 2 ^ 40 \<Longrightarrow> u_step ok y (u_set_timeout s y)"
| u_fire_timer: "sh_timer_id (us_hdr (ur_sock y s)) \<noteq> 0 \<Longrightarrow> u_step ok y (u_timeout flushed s y)"

section \<open>Effects\<close>

lemma usock_upd_simps [simp]:
  "ur_sock (usock_upd s f y) = (ur_sock y)(s := f (ur_sock y s))" "ur_pool (usock_upd s f y) = ur_pool y" "ur_ring (usock_upd s f y) = ur_ring y"
  "ur_sq (usock_upd s f y) = ur_sq y" "ur_cq (usock_upd s f y) = ur_cq y" "ur_live (usock_upd s f y) = ur_live y" "ur_in (usock_upd s f y) = ur_in y"
  "ur_eof (usock_upd s f y) = ur_eof y" "ur_arrived (usock_upd s f y) = ur_arrived y" "ur_given (usock_upd s f y) = ur_given y"
  by (simp_all add: usock_upd_def)

lemma drain_segs_spec:
  assumes "segq_wf op"
  shows "\<exists>op'. drain_segs op given = (op', given @ map sg_bid (segq op)) \<and> segq op' = [] \<and> segq_wf op' \<and> same_flags op' op"
  using assms
proof (induction op given rule: drain_segs.induct)
  case (1 op given)
  show ?case
  proof (cases "segq op")
    case Nil
    then show ?thesis using "1.prems" by (simp add: drain_segs.simps [of op] segq_front)
  next
    case (Cons s ss)
    have fr: "seg_front op = Some s" using Cons "1.prems" by (simp add: segq_front)
    note pp = segq_pop [OF "1.prems" Cons]
    obtain op' where "drain_segs (seg_pop_front op) (given @ [sg_bid s]) = (op', (given @ [sg_bid s]) @ map sg_bid ss)" "segq op' = []" "segq_wf op'"
      "same_flags op' (seg_pop_front op)" using "1.IH" [OF fr pp(2)] pp(1) by auto
    then show ?thesis using fr Cons same_flags_trans [OF _ same_flags_ops(2)] by (simp add: drain_segs.simps [of op])
  qed
qed

text \<open>A submission queue and the requests that are in it or live.\<close>

definition submitted :: "ursys \<Rightarrow> nat \<Rightarrow> bool" where
  "submitted y s \<longleftrightarrow> Sq_recv s \<in> set (ur_sq y)"

lemma get_sqe_flush_cases:
  obtains "get_sqe_flush flushed y = (True, y)" | "flushed" "get_sqe_flush flushed y = (True, uring_submit y)" | "\<not> flushed" "get_sqe_flush flushed y = (False, y)"
  by (cases "length (ur_sq y) < ring_entries"; cases flushed) (simp_all add: get_sqe_flush_def)


lemma add_ref_effect:
  assumes "hrefs h + 1 < 2 ^ 40"
  shows "hrefs (add_ref h) = hrefs h + 1" "hopen (add_ref h) = hopen h" "sh_fd (add_ref h) = sh_fd h" "sh_timer_id (add_ref h) = sh_timer_id h"
  using decode_inc [of "sh_state h"] assms by (simp_all add: hrefs_def hopen_def add_ref_def)

lemma ms_ref_effect:
  assumes "hrefs h + 1 < 2 ^ 40" and "hopen h"
  shows "add_ref_for_ms_recv h = add_ref h"
proof -
  have c: "sh_state h AND CLOSED_MASK = 0" using flag_test [of 63 "sh_state h"] assms(2) by (simp add: flag_masks hopen_def)
  have u: "unat (sh_state h AND COUNT_MASK) + 1 < 2 ^ 40" using assms(1) by (simp add: count_mask hrefs_def)
  moreover have "unat (COUNT_MASK) + 1 = 2 ^ 40" by (simp add: COUNT_MASK_def)
  ultimately have "sh_state h AND COUNT_MASK \<noteq> COUNT_MASK" by auto
  then show ?thesis using c guarded_inc [OF u] by (simp add: add_ref_for_ms_recv_def add_ref_def Let_def)
qed

lemma release_effect:
  assumes "0 < hrefs h"
  shows "fst (release h) \<longleftrightarrow> hrefs h = 1" "hrefs (snd (release h)) = hrefs h - 1" "hopen (snd (release h)) = hopen h"
    "sh_fd (snd (release h)) = sh_fd h" "sh_timer_id (snd (release h)) = sh_timer_id h"
proof -
  have "(sh_state h AND COUNT_MASK = 1) \<longleftrightarrow> hrefs h = 1" unfolding hrefs_def by (metis count_mask unat_1 word_unat_eq_iff)
  then show "fst (release h) \<longleftrightarrow> hrefs h = 1" by (simp add: release_def)
qed (use assms decode_dec [of "sh_state h"] in \<open>simp_all add: release_def hrefs_def hopen_def\<close>)

lemma hdr_updates [simp]: "hrefs (h\<lparr>sh_timer_id := i\<rparr>) = hrefs h" "hopen (h\<lparr>sh_timer_id := i\<rparr>) = hopen h"
  "hrefs (h\<lparr>sh_info := j\<rparr>) = hrefs h" "hopen (h\<lparr>sh_info := j\<rparr>) = hopen h"
  by (simp_all add: hrefs_def hopen_def)

text \<open>A round that finds neither bytes nor an end suspends, after arming the receive when it is not armed and the kernel takes the entry.\<close>

definition op_waits :: "msrecv \<Rightarrow> msrecv" where
  "op_waits op = (if ms_has_terminal op then op\<lparr>ms_has_terminal := False, ms_terminal := 0, ms_waiting := True\<rparr> else op\<lparr>ms_waiting := True\<rparr>)"

lemma segq_flags [simp]:
  "segq (op\<lparr>ms_armed := b\<rparr>) = segq op" "segq (op\<lparr>ms_waiting := b\<rparr>) = segq op" "segq (op\<lparr>ms_has_terminal := b\<rparr>) = segq op" "segq (op\<lparr>ms_terminal := r\<rparr>) = segq op"
  "segq_wf (op\<lparr>ms_armed := b\<rparr>) = segq_wf op" "segq_wf (op\<lparr>ms_waiting := b\<rparr>) = segq_wf op" "segq_wf (op\<lparr>ms_has_terminal := b\<rparr>) = segq_wf op"
  "segq_wf (op\<lparr>ms_terminal := r\<rparr>) = segq_wf op"
  by (simp_all add: segq_def segq_wf_def)

lemma op_waits_effect [simp]: "segq (op_waits op) = segq op" "segq_wf (op_waits op) = segq_wf op" "ms_armed (op_waits op) = ms_armed op" "ms_waiting (op_waits op)"
  "\<not> ms_has_terminal (op_waits op)" "ms_header (op_waits op) = ms_header op"
  by (simp_all add: op_waits_def)

lemma usock_upd_twice: "usock_upd s f (usock_upd s g y) = usock_upd s (\<lambda>k. f (g k)) y"
  by (simp add: usock_upd_def)

lemma usock_upd_comm: "(usock_upd s f y)\<lparr>ur_sq := q\<rparr> = usock_upd s f (y\<lparr>ur_sq := q\<rparr>)" "uring_submit (usock_upd s f y) = usock_upd s f (uring_submit y)"
  by (simp_all add: usock_upd_def uring_submit_def)

lemma usock_upd_cong: "f (ur_sock y s) = g (ur_sock y s) \<Longrightarrow> usock_upd s f y = usock_upd s g y"
  by (simp add: usock_upd_def)

lemma await_suspend_cases:
  assumes "segq (us_op (ur_sock y s)) = []" and "\<not> ms_has_terminal (us_op (ur_sock y s))"
  obtains
    (armed) "ms_armed (us_op (ur_sock y s))" "ms_await_suspend flushed s y = (True, usock_upd s (\<lambda>k. k\<lparr>us_op := (us_op k)\<lparr>ms_waiting := True\<rparr>\<rparr>) y)"
  | (refused) "\<not> ms_armed (us_op (ur_sock y s))" "sh_fd (us_hdr (ur_sock y s)) < 0 \<or> \<not> flushed"
      "ms_await_suspend flushed s y = (True, usock_upd s (\<lambda>k. k\<lparr>us_op := (us_op k)\<lparr>ms_waiting := True\<rparr>\<rparr>) y)"
  | (arms) y1 where "\<not> ms_armed (us_op (ur_sock y s))" "y1 = y \<or> y1 = uring_submit y"
      "ms_await_suspend flushed s y = (True, usock_upd s (\<lambda>k. k\<lparr>us_hdr := add_ref_for_ms_recv (us_hdr k), us_read_op := True, us_arms := us_arms k + 1,
         us_op := (us_op k)\<lparr>ms_armed := True, ms_waiting := True\<rparr>\<rparr>) (y1\<lparr>ur_sq := ur_sq y1 @ [Sq_recv s]\<rparr>))"
proof (cases "ms_armed (us_op (ur_sock y s))")
  case True
  then show thesis using assms armed by (simp add: ms_await_suspend_def)
next
  case na: False
  show thesis
  proof (cases "sh_fd (us_hdr (ur_sock y s)) < 0")
    case True
    then show thesis using assms na refused by (simp add: ms_await_suspend_def submit_recv_multishot_def)
  next
    case fd: False
    show thesis
    proof (cases rule: get_sqe_flush_cases [of flushed y])
      case 1
      then show thesis using assms na fd arms [of y] by (simp add: ms_await_suspend_def submit_recv_multishot_def usock_upd_twice)
    next
      case 2
      moreover have "ur_sock (uring_submit y) = ur_sock y" by (simp add: uring_submit_def)
      ultimately show thesis using assms na fd arms [of "uring_submit y"] by (simp add: ms_await_suspend_def submit_recv_multishot_def usock_upd_twice)
    next
      case 3
      then show thesis using assms na fd refused by (simp add: ms_await_suspend_def submit_recv_multishot_def)
    qed
  qed
qed

lemma read_round_suspends:
  assumes "segq (us_op (ur_sock y s)) = []" and "\<not> (ms_has_terminal (us_op (ur_sock y s)) \<and> ms_terminal (us_op (ur_sock y s)) \<noteq> - ENOBUFS)"
  obtains
    (armed) "ms_armed (us_op (ur_sock y s))" "read_round flushed s mx y = (U_suspended, usock_upd s (\<lambda>k. k\<lparr>us_op := op_waits (us_op k)\<rparr>) y)"
  | (refused) "\<not> ms_armed (us_op (ur_sock y s))" "sh_fd (us_hdr (ur_sock y s)) < 0 \<or> \<not> flushed" "read_round flushed s mx y = (U_suspended, usock_upd s (\<lambda>k. k\<lparr>us_op := op_waits (us_op k)\<rparr>) y)"
  | (arms) y1 where "\<not> ms_armed (us_op (ur_sock y s))" "y1 = y \<or> y1 = uring_submit y"
      "read_round flushed s mx y = (U_suspended, usock_upd s (\<lambda>k. k\<lparr>us_hdr := add_ref_for_ms_recv (us_hdr k), us_read_op := True, us_arms := us_arms k + 1,
         us_op := op_waits ((us_op k)\<lparr>ms_armed := True\<rparr>)\<rparr>) (y1\<lparr>ur_sq := ur_sq y1 @ [Sq_recv s]\<rparr>))"
proof -
  let ?op = "us_op (ur_sock y s)"
  define y0 where "y0 = (if ms_has_terminal ?op then usock_upd s (\<lambda>k. k\<lparr>us_op := (us_op k)\<lparr>ms_has_terminal := False, ms_terminal := 0\<rparr>\<rparr>) y else y)"
  have rr: "read_round flushed s mx y = (case ms_await_suspend flushed s y0 of (True, y2) \<Rightarrow> (U_suspended, y2)
        | (False, y2) \<Rightarrow> (U_again, usock_upd s (\<lambda>k. k\<lparr>us_op := (us_op k)\<lparr>ms_waiting := False\<rparr>\<rparr>) y2))"
    using assms by (auto simp: read_round_def y0_def Let_def)
  have q0: "segq (us_op (ur_sock y0 s)) = []" "\<not> ms_has_terminal (us_op (ur_sock y0 s))" using assms(1) by (simp_all add: y0_def)
  have e0: "ms_armed (us_op (ur_sock y0 s)) = ms_armed ?op" "us_hdr (ur_sock y0 s) = us_hdr (ur_sock y s)" by (simp_all add: y0_def)
  have w: "usock_upd s (\<lambda>k. k\<lparr>us_op := (us_op k)\<lparr>ms_waiting := True\<rparr>\<rparr>) y0 = usock_upd s (\<lambda>k. k\<lparr>us_op := op_waits (us_op k)\<rparr>) y"
    by (auto simp: y0_def usock_upd_twice op_waits_def intro!: usock_upd_cong)
  show thesis
  proof (cases rule: await_suspend_cases [OF q0, of flushed])
    case 1
    then show thesis using armed rr e0 w by simp
  next
    case 2
    then show thesis using refused rr e0 w by simp
  next
    case (3 y1)
    obtain z where z: "z = y \<or> z = uring_submit y" and zeq: "y1\<lparr>ur_sq := ur_sq y1 @ [Sq_recv s]\<rparr> =
        (if ms_has_terminal ?op then usock_upd s (\<lambda>k. k\<lparr>us_op := (us_op k)\<lparr>ms_has_terminal := False, ms_terminal := 0\<rparr>\<rparr>)
          (z\<lparr>ur_sq := ur_sq z @ [Sq_recv s]\<rparr>) else z\<lparr>ur_sq := ur_sq z @ [Sq_recv s]\<rparr>)"
    proof (cases "y1 = y0")
      case True
      then show ?thesis using that [of y] by (simp add: y0_def usock_upd_comm)
    next
      case False
      then have "y1 = uring_submit y0" using 3(2) by simp
      then show ?thesis using that [of "uring_submit y"] by (simp add: y0_def usock_upd_comm)
    qed
    have ord: "op\<lparr>ms_has_terminal := a, ms_terminal := b, ms_armed := c, ms_waiting := d\<rparr> =
      op\<lparr>ms_armed := c, ms_has_terminal := a, ms_terminal := b, ms_waiting := d\<rparr>" for op :: msrecv and a b c d by (cases op) simp
    have zs: "ur_sock z = ur_sock y" using z by (auto simp: uring_submit_def)
    have "usock_upd s (\<lambda>k. k\<lparr>us_hdr := add_ref_for_ms_recv (us_hdr k), us_read_op := True, us_arms := us_arms k + 1,
         us_op := (us_op k)\<lparr>ms_armed := True, ms_waiting := True\<rparr>\<rparr>) (y1\<lparr>ur_sq := ur_sq y1 @ [Sq_recv s]\<rparr>) =
      usock_upd s (\<lambda>k. k\<lparr>us_hdr := add_ref_for_ms_recv (us_hdr k), us_read_op := True, us_arms := us_arms k + 1,
         us_op := op_waits ((us_op k)\<lparr>ms_armed := True\<rparr>)\<rparr>) (z\<lparr>ur_sq := ur_sq z @ [Sq_recv s]\<rparr>)"
      unfolding zeq by (cases "ms_has_terminal ?op") (simp_all add: usock_upd_twice op_waits_def zs usock_upd_def ord)
    then show thesis using arms [of z] z 3(1,3) rr e0 by simp
  qed
qed

end
