(* ===== verification/Uring_Props.thy ===== *)
theory Uring_Props
  imports Uring_Recv "HOL-Library.Multiset"
begin

text \<open>
  The receive path of the io_uring backend is correct: bytes arrive in order and complete, no buffer is lost or shared, and a reader
  that waits has a receive under way. The reference that an armed receive takes on the header is never given back, so such a socket stays open.
\<close>

section \<open>The invariant\<close>

text \<open>An armed receive is in the submission queue, or live in the kernel, or its last completion is to be handled.\<close>

definition recv_phase :: "bool \<Rightarrow> bool \<Rightarrow> bool \<Rightarrow> ucqe list \<Rightarrow> bool" where
  "recv_phase armed sub live cs \<longleftrightarrow> (if armed
     then sub \<and> \<not> live \<and> cs = [] \<or> \<not> sub \<and> live \<and> (\<forall>c\<in>set cs. cq_more c) \<or>
       \<not> sub \<and> \<not> live \<and> (\<exists>xs c. cs = xs @ [c] \<and> \<not> cq_more c \<and> (\<forall>x\<in>set xs. cq_more x))
     else \<not> sub \<and> \<not> live \<and> cs = [])"

definition cqs :: "ursys \<Rightarrow> nat \<Rightarrow> ucqe list" where
  "cqs y s = filter (\<lambda>c. cq_sock c = s) (ur_cq y)"

text \<open>Every reference to the header is a handle of the program, an armed receive of the past or present, or the timer.\<close>

definition refs_ok :: "SocketHeader \<Rightarrow> usock \<Rightarrow> bool" where
  "refs_ok h0 k \<longleftrightarrow> (if us_gone k then us_handles k = 0 \<and> us_arms k = 0 \<and> sh_timer_id (us_hdr k) = 0
     else urefs k = us_handles k + us_arms k + (if sh_timer_id (us_hdr k) = 0 then 0 else 1) \<and> 0 < urefs k \<and> sh_fd (us_hdr k) = sh_fd h0)"

lemma refs_ok_simps [simp]: "refs_ok h0 (k\<lparr>us_op := op\<rparr>) = refs_ok h0 k" "refs_ok h0 (k\<lparr>us_rd := r\<rparr>) = refs_ok h0 k"
  "refs_ok h0 (k\<lparr>us_first_read := b\<rparr>) = refs_ok h0 k" "refs_ok h0 (k\<lparr>us_read_op := b\<rparr>) = refs_ok h0 k"
  "refs_ok h0 (k\<lparr>us_overtaken := b\<rparr>) = refs_ok h0 k"
  by (simp_all add: refs_ok_def)

definition sock_ok :: "SocketHeader \<Rightarrow> bool \<Rightarrow> usock \<Rightarrow> bool" where
  "sock_ok h0 ok k \<longleftrightarrow> segq_wf (us_op k) \<and> (\<forall>g\<in>set (segq (us_op k)). rseg_ok g) \<and> ms_header (us_op k) = None \<and>
     (ms_waiting (us_op k) \<longleftrightarrow> (\<exists>mx. us_rd k = R_wait mx)) \<and> (ms_waiting (us_op k) \<longrightarrow> segq (us_op k) = [] \<and> \<not> ms_has_terminal (us_op k)) \<and>
     (us_rd k \<noteq> R_idle \<longrightarrow> 0 < us_handles k) \<and>
     refs_ok h0 k \<and>
     (ms_armed (us_op k) \<longrightarrow> 0 < us_arms k) \<and> (us_rd k \<noteq> R_idle \<longrightarrow> hopen (us_hdr k)) \<and>
     (ok \<and> ms_waiting (us_op k) \<and> 0 \<le> sh_fd h0 \<longrightarrow> ms_armed (us_op k))"

definition cqe_ok :: "ucqe \<Rightarrow> bool" where
  "cqe_ok c \<longleftrightarrow> (case cq_bid c of Some b \<Rightarrow> 0 < cq_res c \<and> cq_res c \<le> int kBufSize | None \<Rightarrow> cq_res c \<le> 0 \<and> \<not> cq_more c)"

text \<open>The bytes of completions that are not handled yet, and the stream of a socket: delivered, queued, completed, in the kernel.\<close>

definition cqe_bytes :: "(nat \<Rightarrow> nat \<Rightarrow> u8) \<Rightarrow> ucqe \<Rightarrow> u8 list" where
  "cqe_bytes pool c = (case cq_bid c of Some b \<Rightarrow> map (pool b) [0..<nat (cq_res c)] | None \<Rightarrow> [])"

definition stream_ok :: "(nat \<Rightarrow> nat \<Rightarrow> u8) \<Rightarrow> usock \<Rightarrow> ucqe list \<Rightarrow> u8 list \<Rightarrow> u8 list \<Rightarrow> u8 list \<Rightarrow> bool" where
  "stream_ok pool k cs inb giv arr \<longleftrightarrow> (\<not> us_gone k \<longrightarrow>
     (\<not> us_overtaken k \<longrightarrow> giv @ segq_bytes pool (segq (us_op k)) @ concat (map (cqe_bytes pool) cs) @ inb = arr) \<and>
     mset giv + mset (segq_bytes pool (segq (us_op k))) + mset (concat (map (cqe_bytes pool) cs)) + mset inb = mset arr)"

text \<open>Where a buffer is: with the kernel, in a completion, or queued at a socket.\<close>

datatype bown = In_ring | In_cq | At_sock nat

definition bufs_placed :: "(nat \<Rightarrow> bown) \<Rightarrow> nat list \<Rightarrow> nat list \<Rightarrow> (nat \<Rightarrow> nat list) \<Rightarrow> bool" where
  "bufs_placed own ring cqb sb \<longleftrightarrow> distinct ring \<and> distinct cqb \<and> (\<forall>s. distinct (sb s)) \<and> (\<forall>b. b \<in> set ring \<longleftrightarrow> b < kBufCount \<and> own b = In_ring) \<and>
     (\<forall>b. b \<in> set cqb \<longleftrightarrow> b < kBufCount \<and> own b = In_cq) \<and> (\<forall>s b. b \<in> set (sb s) \<longleftrightarrow> b < kBufCount \<and> own b = At_sock s)"

definition cq_bids :: "ucqe list \<Rightarrow> nat list" where
  "cq_bids cs = concat (map (\<lambda>c. case cq_bid c of Some b \<Rightarrow> [b] | None \<Rightarrow> []) cs)"

definition sock_bids :: "ursys \<Rightarrow> nat \<Rightarrow> nat list" where
  "sock_bids y s = map sg_bid (segq (us_op (ur_sock y s)))"

definition bufs_ok :: "ursys \<Rightarrow> bool" where
  "bufs_ok y \<longleftrightarrow> (\<exists>own. bufs_placed own (ur_ring y) (cq_bids (ur_cq y)) (sock_bids y))"

definition uinv :: "(nat \<Rightarrow> SocketHeader) \<Rightarrow> bool \<Rightarrow> ursys \<Rightarrow> bool" where
  "uinv hs ok y \<longleftrightarrow> (\<forall>s. sock_ok (hs s) ok (ur_sock y s)) \<and>
     (\<forall>s. recv_phase (ms_armed (us_op (ur_sock y s))) (submitted y s) (ur_live y s) (cqs y s)) \<and> (\<forall>c\<in>set (ur_cq y). cqe_ok c) \<and>
     (\<forall>s. stream_ok (ur_pool y) (ur_sock y s) (cqs y s) (ur_in y s) (ur_given y s) (ur_arrived y s)) \<and> bufs_ok y"

lemma uinvI:
  assumes "\<And>s. sock_ok (hs s) ok (ur_sock y s)"
    and "\<And>s. recv_phase (ms_armed (us_op (ur_sock y s))) (submitted y s) (ur_live y s) (cqs y s)" and "\<And>c. c \<in> set (ur_cq y) \<Longrightarrow> cqe_ok c"
    and "\<And>s. stream_ok (ur_pool y) (ur_sock y s) (cqs y s) (ur_in y s) (ur_given y s) (ur_arrived y s)" and "bufs_ok y"
  shows "uinv hs ok y"
  using assms by (simp add: uinv_def)

lemma uinvD:
  assumes "uinv hs ok y"
  shows "sock_ok (hs s) ok (ur_sock y s)" "recv_phase (ms_armed (us_op (ur_sock y s))) (submitted y s) (ur_live y s) (cqs y s)"
    "c \<in> set (ur_cq y) \<Longrightarrow> cqe_ok c" "stream_ok (ur_pool y) (ur_sock y s) (cqs y s) (ur_in y s) (ur_given y s) (ur_arrived y s)" "bufs_ok y"
  using assms by (simp_all add: uinv_def)

lemma sockD:
  assumes "sock_ok h0 ok k"
  shows "segq_wf (us_op k)" "\<forall>g\<in>set (segq (us_op k)). rseg_ok g" "ms_header (us_op k) = None" "ms_waiting (us_op k) \<longleftrightarrow> (\<exists>mx. us_rd k = R_wait mx)"
    "ms_waiting (us_op k) \<Longrightarrow> segq (us_op k) = [] \<and> \<not> ms_has_terminal (us_op k)" "us_rd k \<noteq> R_idle \<Longrightarrow> 0 < us_handles k"
    "refs_ok h0 k"
    "ms_armed (us_op k) \<Longrightarrow> 0 < us_arms k" "us_rd k \<noteq> R_idle \<Longrightarrow> hopen (us_hdr k)"
    "ok \<Longrightarrow> ms_waiting (us_op k) \<Longrightarrow> 0 \<le> sh_fd h0 \<Longrightarrow> ms_armed (us_op k)"
  using assms unfolding sock_ok_def by blast+

section \<open>Steps that change one socket\<close>

lemma sock_bids_simps [simp]: "sock_bids (y\<lparr>ur_sq := q\<rparr>) = sock_bids y" "sock_bids (y\<lparr>ur_in := i\<rparr>) = sock_bids y" "sock_bids (y\<lparr>ur_arrived := a\<rparr>) = sock_bids y"
  "sock_bids (y\<lparr>ur_given := g\<rparr>) = sock_bids y" "sock_bids (y\<lparr>ur_cq := c\<rparr>) = sock_bids y" "sock_bids (y\<lparr>ur_live := l\<rparr>) = sock_bids y"
  "sock_bids (y\<lparr>ur_ring := r\<rparr>) = sock_bids y" "sock_bids (y\<lparr>ur_pool := p\<rparr>) = sock_bids y" "sock_bids (y\<lparr>ur_eof := e\<rparr>) = sock_bids y"
  "sock_bids (uring_submit y) = sock_bids y"
  by (simp_all add: sock_bids_def fun_eq_iff uring_submit_def)

lemma bufs_ok_cong: "ur_ring y' = ur_ring y \<Longrightarrow> cq_bids (ur_cq y') = cq_bids (ur_cq y) \<Longrightarrow> sock_bids y' = sock_bids y \<Longrightarrow> bufs_ok y' = bufs_ok y"
  by (simp add: bufs_ok_def)

lemma uinv_usock:
  assumes "uinv hs ok y" and "segq (us_op (f (ur_sock y s))) = segq (us_op (ur_sock y s))"
    and "ms_armed (us_op (f (ur_sock y s))) = ms_armed (us_op (ur_sock y s))" and "us_gone (f (ur_sock y s)) = us_gone (ur_sock y s)"
    and "us_overtaken (f (ur_sock y s)) = us_overtaken (ur_sock y s)" and "sock_ok (hs s) ok (f (ur_sock y s))"
  shows "uinv hs ok (usock_upd s f y)"
proof (rule uinvI)
  note inv = uinvD [OF assms(1)]
  have b: "sock_bids (usock_upd s f y) = sock_bids y" using assms(2) by (auto simp: sock_bids_def)
  show "bufs_ok (usock_upd s f y)" using inv(5) bufs_ok_cong [OF _ _ b] by simp
  show "sock_ok (hs u) ok (ur_sock (usock_upd s f y) u)" for u using inv(1) assms(6) by simp
  show "recv_phase (ms_armed (us_op (ur_sock (usock_upd s f y) u))) (submitted (usock_upd s f y) u) (ur_live (usock_upd s f y) u) (cqs (usock_upd s f y) u)" for u
    using inv(2) [of u] assms(3) by (cases "u = s") (simp_all add: submitted_def cqs_def)
  show "stream_ok (ur_pool (usock_upd s f y)) (ur_sock (usock_upd s f y) u) (cqs (usock_upd s f y) u) (ur_in (usock_upd s f y) u) (ur_given (usock_upd s f y) u)
      (ur_arrived (usock_upd s f y) u)" for u
    using inv(4) [of u] assms(2,4,5) by (cases "u = s") (simp_all add: stream_ok_def cqs_def)
qed (use uinvD(3) [OF assms(1)] in simp)

lemma phase_submit: "recv_phase armed sub live cs \<Longrightarrow> recv_phase armed False (live \<or> sub) cs"
  by (auto simp: recv_phase_def split: if_splits)

lemma submit_simps [simp]: "ur_sock (uring_submit y) = ur_sock y" "ur_pool (uring_submit y) = ur_pool y" "ur_ring (uring_submit y) = ur_ring y"
  "ur_cq (uring_submit y) = ur_cq y" "ur_in (uring_submit y) = ur_in y" "ur_given (uring_submit y) = ur_given y" "ur_arrived (uring_submit y) = ur_arrived y"
  "ur_live (uring_submit y) s = (ur_live y s \<or> submitted y s)" "submitted (uring_submit y) s = False" "cqs (uring_submit y) = cqs y"
  by (auto simp: uring_submit_def submitted_def cqs_def)

lemma uinv_submit: "uinv hs ok y \<Longrightarrow> uinv hs ok (uring_submit y)"
  by (rule uinvI) (simp_all add: uinvD phase_submit bufs_ok_cong [of "uring_submit y" y])

text \<open>Entries other than a receive do not matter.\<close>

lemma uinv_other_sqe: "uinv hs ok y \<Longrightarrow> (\<And>s. e \<noteq> Sq_recv s) \<Longrightarrow> uinv hs ok (y\<lparr>ur_sq := ur_sq y @ [e]\<rparr>)"
proof -
  assume inv: "uinv hs ok y" and e: "\<And>s. e \<noteq> Sq_recv s"
  have "submitted (y\<lparr>ur_sq := ur_sq y @ [e]\<rparr>) s = submitted y s" for s using e by (auto simp: submitted_def)
  then show ?thesis using inv by (simp add: uinv_def cqs_def bufs_ok_def)
qed

lemma uinv_cancel: "uinv hs ok y \<Longrightarrow> uinv hs ok (submit_cancel flushed s y)"
  by (cases rule: get_sqe_flush_cases [of flushed y]) (simp_all add: submit_cancel_def uinv_other_sqe uinv_submit)

text \<open>Arming the receive.\<close>

lemma uinv_arm:
  assumes "uinv hs ok y" and "\<not> ms_armed (us_op (ur_sock y s))" and "ms_armed (us_op (f (ur_sock y s)))"
    and "segq (us_op (f (ur_sock y s))) = segq (us_op (ur_sock y s))" and "us_gone (f (ur_sock y s)) = us_gone (ur_sock y s)"
    and "us_overtaken (f (ur_sock y s)) = us_overtaken (ur_sock y s)" and "sock_ok (hs s) ok (f (ur_sock y s))"
  shows "uinv hs ok (usock_upd s f (y\<lparr>ur_sq := ur_sq y @ [Sq_recv s]\<rparr>))" (is "uinv hs ok ?y")
proof (rule uinvI)
  note inv = uinvD [OF assms(1)]
  have b: "sock_bids ?y = sock_bids y" using assms(4) by (auto simp: sock_bids_def)
  show "bufs_ok ?y" using inv(5) bufs_ok_cong [OF _ _ b] by simp
  show "sock_ok (hs u) ok (ur_sock ?y u)" for u using inv(1) assms(7) by simp
  show "recv_phase (ms_armed (us_op (ur_sock ?y u))) (submitted ?y u) (ur_live ?y u) (cqs ?y u)" for u
    using inv(2) [of u] assms(2,3) by (cases "u = s") (simp_all add: submitted_def cqs_def recv_phase_def)
  show "stream_ok (ur_pool ?y) (ur_sock ?y u) (cqs ?y u) (ur_in ?y u) (ur_given ?y u) (ur_arrived ?y u)" for u
    using inv(4) [of u] assms(4,5,6) by (cases "u = s") (simp_all add: stream_ok_def cqs_def)
qed (use uinvD(3) [OF assms(1)] in simp)

section \<open>Reading\<close>

lemma sock_ok_waits:
  assumes "sock_ok h0 ok k" and "segq (us_op k) = []" and "0 < us_handles k" and "ok \<longrightarrow> 0 \<le> sh_fd h0 \<longrightarrow> ms_armed (us_op k)"
    and "hopen (us_hdr k)"
  shows "sock_ok h0 ok (k\<lparr>us_op := op_waits (us_op k), us_rd := R_wait mx\<rparr>)"
proof -
  note k = sockD [OF assms(1)]
  show ?thesis using k assms(2-) unfolding sock_ok_def by auto
qed

lemma sock_ok_arms:
  assumes "sock_ok h0 ok k" and "segq (us_op k) = []" and "0 < us_handles k" and "urefs k + 1 < 2 ^ 40" and "hopen (us_hdr k)"
  shows "sock_ok h0 ok (k\<lparr>us_hdr := add_ref_for_ms_recv (us_hdr k), us_read_op := True, us_arms := us_arms k + 1,
     us_op := op_waits ((us_op k)\<lparr>ms_armed := True\<rparr>), us_rd := R_wait mx\<rparr>)"
proof -
  note k = sockD [OF assms(1)]
  have g: "\<not> us_gone k" "hopen (us_hdr k)" using k(7) assms(3,5) by (auto simp: refs_ok_def split: if_splits)
  let ?k = "k\<lparr>us_hdr := add_ref_for_ms_recv (us_hdr k), us_read_op := True, us_arms := us_arms k + 1,
     us_op := op_waits ((us_op k)\<lparr>ms_armed := True\<rparr>), us_rd := R_wait mx\<rparr>"
  have "refs_ok h0 ?k" using k(7) g ms_ref_effect [OF assms(4) g(2)] add_ref_effect [OF assms(4)] by (simp add: refs_ok_def)
  moreover have "hopen (us_hdr ?k)" using ms_ref_effect [OF assms(4) g(2)] add_ref_effect(2) [OF assms(4)] g(2) by simp
  ultimately show ?thesis using k assms(2-) unfolding sock_ok_def [of _ _ ?k] by (simp del: refs_ok_simps)
qed


lemma placedE:
  assumes "bufs_placed own ring cqb sb"
  shows "distinct ring" "distinct cqb" "distinct (sb s)" "b \<in> set ring \<longleftrightarrow> b < kBufCount \<and> own b = In_ring"
    "b \<in> set cqb \<longleftrightarrow> b < kBufCount \<and> own b = In_cq" "b \<in> set (sb s) \<longleftrightarrow> b < kBufCount \<and> own b = At_sock s"
  using assms by (simp_all add: bufs_placed_def)

lemma bufs_recycle:
  assumes "bufs_placed own ring cqb sb" and "sb s = g @ r"
  shows "bufs_placed (\<lambda>b. if b \<in> set g then In_ring else own b) (ring @ g) cqb (sb(s := r))"
proof -
  note pl = placedE [OF assms(1)]
  have d: "distinct g" "distinct r" "set g \<inter> set r = {}" using pl(3) [of s] assms(2) by auto
  have g: "b < kBufCount \<and> own b = At_sock s" if "b \<in> set g" for b using pl(6) [of b s] that assms(2) by simp
  have r: "b \<in> set r \<longleftrightarrow> b < kBufCount \<and> own b = At_sock s \<and> b \<notin> set g" for b using pl(6) [of b s] d(3) assms(2) by auto
  show ?thesis unfolding bufs_placed_def
  proof (intro conjI allI)
    show "distinct (ring @ g)" using pl(1) pl(4) d(1) g by auto
    show "b \<in> set (ring @ g) \<longleftrightarrow> b < kBufCount \<and> (if b \<in> set g then In_ring else own b) = In_ring" for b using pl(4) [of b] g [of b] by auto
    show "b \<in> set cqb \<longleftrightarrow> b < kBufCount \<and> (if b \<in> set g then In_ring else own b) = In_cq" for b using pl(5) [of b] g [of b] by auto
    show "b \<in> set ((sb(s := r)) u) \<longleftrightarrow> b < kBufCount \<and> (if b \<in> set g then In_ring else own b) = At_sock u" for u b
      using pl(6) [of b u] r [of b] g [of b] by (cases "u = s") auto
    show "distinct ((sb(s := r)) u)" for u using pl(3) d(2) by simp
  qed (use pl(2) in simp)
qed

lemma uinv_read_data:
  assumes "uinv hs ok y" and "consume_ms_recv (ur_pool y) (us_op (ur_sock y s)) mx = (dst, op1, given)" and "us_rd (ur_sock y s) \<noteq> R_wait 0"
    and "\<not> ms_waiting (us_op (ur_sock y s))"
  shows "uinv hs ok (usock_upd s (\<lambda>k. k\<lparr>us_op := op1, us_rd := R_idle\<rparr>)
    (y\<lparr>ur_ring := ur_ring y @ given, ur_given := (ur_given y)(s := ur_given y s @ dst)\<rparr>))" (is "uinv hs ok ?y")
proof -
  note inv = uinvD [OF assms(1)]
  note k = sockD [OF inv(1) [of s]]
  note c = consume_ms_recv_spec [OF k(1,2) assms(2)]
  have fl: "ms_armed op1 = ms_armed (us_op (ur_sock y s))" "ms_waiting op1 = ms_waiting (us_op (ur_sock y s))" "ms_header op1 = None"
    "ms_has_terminal op1 = ms_has_terminal (us_op (ur_sock y s))" using c(3) k(3) by (simp_all add: same_flags_def)
  have empty: "segq op1 = []" if "segq (us_op (ur_sock y s)) = []" using c(5) that by simp
  show ?thesis
  proof (rule uinvI)
    show "sock_ok (hs u) ok (ur_sock ?y u)" for u
    proof (cases "u = s")
      case True
      show ?thesis unfolding True using k c(1,2) fl empty assms(4) unfolding sock_ok_def by simp
    qed (use inv(1) in simp)
    show "recv_phase (ms_armed (us_op (ur_sock ?y u))) (submitted ?y u) (ur_live ?y u) (cqs ?y u)" for u
      using inv(2) [of u] fl by (cases "u = s") (simp_all add: submitted_def cqs_def)
    show "stream_ok (ur_pool ?y) (ur_sock ?y u) (cqs ?y u) (ur_in ?y u) (ur_given ?y u) (ur_arrived ?y u)" for u
      using inv(4) [of u] c(4) [symmetric] by (cases "u = s") (simp_all add: stream_ok_def cqs_def ac_simps)
    obtain own where own: "bufs_placed own (ur_ring y) (cq_bids (ur_cq y)) (sock_bids y)" using inv(5) by (auto simp: bufs_ok_def)
    have b: "sock_bids ?y = (sock_bids y)(s := map sg_bid (segq op1))" by (auto simp: sock_bids_def)
    have "sock_bids y s = given @ map sg_bid (segq op1)" using c(5) by (simp add: sock_bids_def)
    from bufs_recycle [OF own this] show "bufs_ok ?y" unfolding bufs_ok_def b by auto
  qed (use inv(3) in simp)
qed

lemma uinv_read:
  assumes "uinv hs ok y" and "\<not> ms_waiting (us_op (ur_sock y s))" and "0 < us_handles (ur_sock y s)" and "hopen (us_hdr (ur_sock y s))"
    and "urefs (ur_sock y s) + 1 < 2 ^ 40" and "ok \<longrightarrow> flushed"
  shows "uinv hs ok (after_round s mx (read_round flushed s mx y))"
proof (cases "segq (us_op (ur_sock y s)) = []")
  case False
  obtain dst op1 given where c: "consume_ms_recv (ur_pool y) (us_op (ur_sock y s)) mx = (dst, op1, given)" by (cases "consume_ms_recv (ur_pool y) (us_op (ur_sock y s)) mx")
  have "us_rd (ur_sock y s) \<noteq> R_wait 0" using sockD(4) [OF uinvD(1) [OF assms(1), of s]] assms(2) by auto
  from uinv_read_data [OF assms(1) c this assms(2)] show ?thesis using False c
    by (simp add: read_round_def after_round_def usock_upd_def)
next
  case empty: True
  note k = uinvD(1) [OF assms(1), of s]
  show ?thesis
  proof (cases "ms_has_terminal (us_op (ur_sock y s)) \<and> ms_terminal (us_op (ur_sock y s)) \<noteq> - ENOBUFS")
    case True
    have "sock_ok (hs s) ok ((ur_sock y s)\<lparr>us_rd := R_idle\<rparr>)" using sockD [OF k] assms(2) unfolding sock_ok_def by simp
    then show ?thesis using True empty by (auto simp: read_round_def after_round_def Let_def intro!: uinv_usock [OF assms(1)])
  next
    case False
    show ?thesis
    proof (cases rule: read_round_suspends [OF empty False, of flushed mx])
      case 1
      then show ?thesis using sock_ok_waits [OF k empty assms(3) _ assms(4)]
        by (auto simp: after_round_def usock_upd_twice intro!: uinv_usock [OF assms(1)])
    next
      case 2
      have "sh_fd (us_hdr (ur_sock y s)) = sh_fd (hs s)" using sockD(7) [OF k] assms(3) by (auto simp: refs_ok_def split: if_splits)
      then show ?thesis using 2 assms(6) sock_ok_waits [OF k empty assms(3) _ assms(4)]
        by (auto simp: after_round_def usock_upd_twice intro!: uinv_usock [OF assms(1)])
    next
      case (3 y1)
      have "uinv hs ok y1" "ur_sock y1 = ur_sock y" using 3(2) assms(1) uinv_submit by auto
      then show ?thesis using 3 sock_ok_arms [OF k empty assms(3,5,4)]
        by (auto simp: after_round_def usock_upd_twice intro!: uinv_arm)
    qed
  qed
qed


section \<open>The kernel\<close>

lemma uinv_arrive:
  assumes "uinv hs ok y"
  shows "uinv hs ok (y\<lparr>ur_in := (ur_in y)(s := ur_in y s @ bs), ur_arrived := (ur_arrived y)(s := ur_arrived y s @ bs)\<rparr>)"
  using assms by (auto simp: uinv_def stream_ok_def submitted_def cqs_def bufs_ok_def simp flip: add.assoc)

lemma uinv_fin: "uinv hs ok y \<Longrightarrow> uinv hs ok (y\<lparr>ur_eof := e\<rparr>)"
  by (simp add: uinv_def submitted_def cqs_def bufs_ok_def)

lemma phase_post: "recv_phase armed sub True cs \<Longrightarrow> recv_phase armed sub (cq_more c) (cs @ [c])"
  by (auto simp: recv_phase_def split: if_splits)

text \<open>A live receive belongs to an armed operation of a socket that still exists.\<close>

lemma live_armed: "recv_phase armed sub live cs \<Longrightarrow> live \<or> cs \<noteq> [] \<or> sub \<Longrightarrow> armed"
  by (auto simp: recv_phase_def split: if_splits)

lemma armed_exists: "sock_ok h0 ok k \<Longrightarrow> ms_armed (us_op k) \<Longrightarrow> \<not> us_gone k"
  using sockD(7,8) [of h0 ok k] by (auto simp: refs_ok_def split: if_splits)

lemma bufs_take:
  assumes "bufs_placed own (b # ring) cqb sb"
  shows "bufs_placed (own(b := In_cq)) ring (cqb @ [b]) sb"
proof -
  note pl = placedE [OF assms]
  have b: "b < kBufCount" "own b = In_ring" "b \<notin> set ring" "distinct ring" using pl(1) pl(4) [of b] by auto
  then show ?thesis unfolding bufs_placed_def using pl(2,3,5,6) pl(4) by (auto simp: placedE(4) [OF assms, symmetric])
qed

lemma bufs_push:
  assumes "bufs_placed own ring (b # cqb) sb"
  shows "bufs_placed (own(b := At_sock s)) ring cqb (sb(s := sb s @ [b]))"
proof -
  note pl = placedE [OF assms]
  have b: "b < kBufCount" "own b = In_cq" "b \<notin> set cqb" "distinct cqb" using pl(2) pl(5) [of b] by auto
  then show ?thesis unfolding bufs_placed_def using pl(1,3,4,6) by (auto simp: placedE(5) [OF assms, symmetric])
qed

lemma cqs_post [simp]: "cqs (y\<lparr>ur_cq := ur_cq y @ [c]\<rparr>) s = cqs y s @ (if cq_sock c = s then [c] else [])"
  by (simp add: cqs_def)

lemma cq_bids_simps [simp]: "cq_bids [] = []" "cq_bids (c # cs) = (case cq_bid c of Some b \<Rightarrow> [b] | None \<Rightarrow> []) @ cq_bids cs" "cq_bids (cs @ cs') = cq_bids cs @ cq_bids cs'"
  by (simp_all add: cq_bids_def)

lemma uinv_end:
  assumes "uinv hs ok y" and "ur_live y s" and "res \<le> 0"
  shows "uinv hs ok (y\<lparr>ur_cq := ur_cq y @ [\<lparr>cq_sock = s, cq_res = res, cq_bid = None, cq_more = False\<rparr>], ur_live := (ur_live y)(s := False)\<rparr>)"
    (is "uinv hs ok (y\<lparr>ur_cq := ur_cq y @ [?c], ur_live := _\<rparr>)")
proof -
  note inv = uinvD [OF assms(1)]
  have "recv_phase (ms_armed (us_op (ur_sock y s))) (submitted y s) False (cqs y s @ [?c])"
    using phase_post [of _ _ _ ?c] inv(2) [of s] assms(2) by simp
  then show ?thesis using assms(3) inv unfolding uinv_def by (auto simp: submitted_def cqs_def cqe_ok_def stream_ok_def cqe_bytes_def bufs_ok_def)
qed

text \<open>Writing into a buffer that the kernel holds changes no byte that is queued or completed.\<close>

lemma segq_bytes_other: "b \<notin> set (map sg_bid q) \<Longrightarrow> segq_bytes (pool(b := f)) q = segq_bytes pool q"
  by (induction q) (auto simp: seg_bytes_def seg_copy_def)

lemma cqe_bytes_other: "b \<notin> set (cq_bids cs) \<Longrightarrow> concat (map (cqe_bytes (pool(b := f))) cs) = concat (map (cqe_bytes pool) cs)"
  by (induction cs) (auto simp: cqe_bytes_def split: option.splits)

lemma cqs_bids: "set (cq_bids (cqs y s)) \<subseteq> set (cq_bids (ur_cq y))"
  by (auto simp: cq_bids_def cqs_def split: option.splits)

lemma uinv_data:
  assumes "uinv hs ok y" and "ur_live y s" and "ur_ring y = b # ring" and "ur_in y s = bs @ rest" and "bs \<noteq> []" and "length bs \<le> kBufSize"
  shows "uinv hs ok (y\<lparr>ur_ring := ring, ur_pool := (ur_pool y)(b := (\<lambda>i. if i < length bs then bs ! i else ur_pool y b i)), ur_in := (ur_in y)(s := rest),
      ur_cq := ur_cq y @ [\<lparr>cq_sock = s, cq_res = int (length bs), cq_bid = Some b, cq_more = mo\<rparr>], ur_live := (ur_live y)(s := mo)\<rparr>)"
    (is "uinv hs ok ?y")
proof (rule uinvI)
  note inv = uinvD [OF assms(1)]
  let ?c = "\<lparr>cq_sock = s, cq_res = int (length bs), cq_bid = Some b, cq_more = mo\<rparr>"
  obtain own where own: "bufs_placed own (b # ring) (cq_bids (ur_cq y)) (sock_bids y)" using inv(5) assms(3) by (auto simp: bufs_ok_def)
  from bufs_take [OF own] show "bufs_ok ?y" by (auto simp: bufs_ok_def)
  have fresh: "b \<notin> set (cq_bids (ur_cq y))" "b \<notin> set (map sg_bid (segq (us_op (ur_sock y u))))" for u
    using placedE(4,5) [OF own, of b] placedE(6) [OF own, of b u] by (simp_all add: sock_bids_def)
  have c: "cqs ?y u = cqs y u @ (if u = s then [?c] else [])" for u by (simp add: cqs_def)
  have "recv_phase (ms_armed (us_op (ur_sock y s))) (submitted y s) mo (cqs y s @ [?c])" using phase_post [of _ _ _ ?c] inv(2) [of s] assms(2) by simp
  then show "recv_phase (ms_armed (us_op (ur_sock ?y u))) (submitted ?y u) (ur_live ?y u) (cqs ?y u)" for u
    using inv(2) [of u] unfolding c by (cases "u = s") (simp_all add: submitted_def)
  have new: "cqe_bytes ((ur_pool y)(b := (\<lambda>i. if i < length bs then bs ! i else ur_pool y b i))) ?c = bs"
    by (rule nth_equalityI) (simp_all add: cqe_bytes_def)
  have "b \<notin> set (cq_bids (cqs y u))" for u using fresh(1) cqs_bids by blast
  then show "stream_ok (ur_pool ?y) (ur_sock ?y u) (cqs ?y u) (ur_in ?y u) (ur_given ?y u) (ur_arrived ?y u)" for u
    using inv(4) [of u] fresh(2) [of u] new assms(4) unfolding c by (cases "u = s") (simp_all add: stream_ok_def segq_bytes_other cqe_bytes_other ac_simps)
  show "cqe_ok d" if "d \<in> set (ur_cq ?y)" for d using that inv(3) assms(5,6) by (auto simp: cqe_ok_def)
qed (use uinvD(1) [OF assms(1)] in simp)

section \<open>Completions\<close>

lemma sock_ok_completion:
  assumes "sock_ok h0 ok k" and "cqe_ok c" and "ms_armed (us_op k)"
  shows "sock_ok h0 ok (resume_reader (k\<lparr>us_op := push_completion c (us_op k)\<rparr>))"
    and "segq (us_op (resume_reader (k\<lparr>us_op := push_completion c (us_op k)\<rparr>))) = segq (us_op k) @
      (case cq_bid c of Some b \<Rightarrow> [\<lparr>sg_len = of_int (cq_res c), sg_off = 0, sg_bid = b\<rparr>] | None \<Rightarrow> [])"
    and "ms_armed (us_op (resume_reader (k\<lparr>us_op := push_completion c (us_op k)\<rparr>))) = cq_more c"
    and "us_gone (resume_reader (k\<lparr>us_op := push_completion c (us_op k)\<rparr>)) = us_gone k"
    and "ms_header (us_op (resume_reader (k\<lparr>us_op := push_completion c (us_op k)\<rparr>))) = None"
proof -
  note k = sockD [OF assms(1)]
  let ?op = "push_completion c (us_op k)"
  let ?g = "\<lambda>b. \<lparr>sg_len = of_int (cq_res c), sg_off = 0, sg_bid = b\<rparr> :: rseg"
  have q: "segq ?op = segq (us_op k) @ (case cq_bid c of Some b \<Rightarrow> [?g b] | None \<Rightarrow> [])" "segq_wf ?op"
    using assms(2) k(1) by (cases "cq_bid c"; simp add: push_completion_def cqe_ok_def Let_def)+
  have gok: "rseg_ok (?g b)" if "cq_bid c = Some b" for b
  proof -
    have r: "0 < cq_res c" "cq_res c \<le> 16384" using assms(2) that by (auto simp: cqe_ok_def kBufSize_def)
    then have "of_int (cq_res c) = (of_nat (nat (cq_res c)) :: u32)" by simp
    then have "unat (of_int (cq_res c) :: u32) = nat (cq_res c)" using r by (simp only: unat_of_nat) simp
    then show ?thesis using r(1) by (simp add: rseg_ok_def word_less_nat_alt)
  qed
  have fl: "ms_armed ?op = cq_more c" "ms_header ?op = None" "ms_waiting ?op = ms_waiting (us_op k)"
    using assms(2,3) k(3) by (cases "cq_bid c"; simp add: push_completion_def cqe_ok_def Let_def seg_push_def)+
  have rseg: "\<forall>g\<in>set (segq ?op). rseg_ok g" using k(2) gok by (auto simp: q split: option.splits)
  have first: "us_rd k \<noteq> R_idle \<longrightarrow> hopen (us_hdr k)" using k(9) by blast
  have arms: "0 < us_arms k" using k(8) assms(3) by blast
  show "sock_ok h0 ok (resume_reader (k\<lparr>us_op := ?op\<rparr>))"
  proof (cases "ms_waiting (us_op k)")
    case True
    then obtain mx where "us_rd k = R_wait mx" using k(4) by auto
    then show ?thesis using k(6,7) q(2) rseg fl first arms True unfolding sock_ok_def resume_reader_def by auto
  next
    case False
    then show ?thesis using k(4,6,7) q(2) rseg fl first arms unfolding sock_ok_def resume_reader_def by auto
  qed
  show "segq (us_op (resume_reader (k\<lparr>us_op := ?op\<rparr>))) = segq (us_op k) @ (case cq_bid c of Some b \<Rightarrow> [?g b] | None \<Rightarrow> [])" using q by (simp add: resume_reader_def)
qed (use assms(2,3) sockD(3) [OF assms(1)] in \<open>cases "cq_bid c"; simp add: resume_reader_def push_completion_def cqe_ok_def Let_def seg_push_def\<close>)+

lemma phase_handle:
  assumes "recv_phase armed sub live (c # cs)"
  shows "recv_phase (cq_more c) sub live cs"
proof -
  have "armed" using live_armed [OF assms] by simp
  then consider "\<not> sub" "live" "\<forall>d\<in>set (c # cs). cq_more d" | xs d where "\<not> sub" "\<not> live" "c # cs = xs @ [d]" "\<not> cq_more d" "\<forall>x\<in>set xs. cq_more x"
    using assms by (auto simp: recv_phase_def)
  then show ?thesis
  proof cases
    case 2
    then show ?thesis by (cases xs) (auto simp: recv_phase_def)
  qed (simp add: recv_phase_def)
qed

lemma seg_of_cqe: "cqe_ok c \<Longrightarrow> segq_bytes pool (case cq_bid c of Some b \<Rightarrow> [\<lparr>sg_len = of_int (cq_res c), sg_off = 0, sg_bid = b\<rparr>] | None \<Rightarrow> []) = cqe_bytes pool c"
proof (cases "cq_bid c")
  case (Some b)
  assume "cqe_ok c"
  then have r: "0 < cq_res c" "cq_res c \<le> 16384" using Some by (auto simp: cqe_ok_def kBufSize_def)
  then have "of_int (cq_res c) = (of_nat (nat (cq_res c)) :: u32)" by simp
  then have "unat (of_int (cq_res c) :: u32) = nat (cq_res c)" using r by (simp only: unat_of_nat) simp
  then show ?thesis using Some by (simp add: cqe_bytes_def seg_bytes_def seg_copy_def)
qed (simp add: cqe_bytes_def)

lemma uinv_complete:
  assumes "uinv hs ok y" and "ur_cq y = c # cs"
  shows "uinv hs ok (handle_cqe c (y\<lparr>ur_cq := cs\<rparr>))"
proof -
  note inv = uinvD [OF assms(1)]
  let ?s = "cq_sock c" and ?f = "\<lambda>k. resume_reader (k\<lparr>us_op := push_completion c (us_op k)\<rparr>)"
  have cok: "cqe_ok c" using inv(3) assms(2) by simp
  have cq: "cqs y ?s = c # cqs (y\<lparr>ur_cq := cs\<rparr>) ?s" "u \<noteq> ?s \<Longrightarrow> cqs y u = cqs (y\<lparr>ur_cq := cs\<rparr>) u" for u using assms(2) by (simp_all add: cqs_def)
  have armed: "ms_armed (us_op (ur_sock y ?s))" using live_armed [OF inv(2) [of ?s]] cq(1) by simp
  note e = sock_ok_completion [OF inv(1) [of ?s] cok armed]
  have y: "handle_cqe c (y\<lparr>ur_cq := cs\<rparr>) = usock_upd ?s ?f (y\<lparr>ur_cq := cs\<rparr>)" (is "_ = ?y")
    using e(5) by (simp add: handle_cqe_def Let_def drop_recv_ref_def)
  have phase: "recv_phase (cq_more c) (submitted y ?s) (ur_live y ?s) (cqs (y\<lparr>ur_cq := cs\<rparr>) ?s)"
    using phase_handle inv(2) [of ?s] cq(1) by simp
  obtain own where own: "bufs_placed own (ur_ring y) (cq_bids (c # cs)) (sock_bids y)" using inv(5) assms(2) by (auto simp: bufs_ok_def)
  have ov: "us_overtaken (?f k) = us_overtaken k" for k by (simp add: resume_reader_def)
  have sb: "sock_bids ?y = (sock_bids y)(?s := sock_bids y ?s @ (case cq_bid c of Some b \<Rightarrow> [b] | None \<Rightarrow> []))"
    using e(2) by (auto simp: sock_bids_def split: option.splits)
  show ?thesis unfolding y
  proof (rule uinvI)
    show "sock_ok (hs u) ok (ur_sock ?y u)" for u using inv(1) e(1) by (cases "u = ?s") simp_all
    show "recv_phase (ms_armed (us_op (ur_sock ?y u))) (submitted ?y u) (ur_live ?y u) (cqs ?y u)" for u
      using inv(2) [of u] phase e(3) cq(2) [of u] by (cases "u = ?s") (simp_all add: submitted_def cqs_def)
    show "stream_ok (ur_pool ?y) (ur_sock ?y u) (cqs ?y u) (ur_in ?y u) (ur_given ?y u) (ur_arrived ?y u)" for u
      using inv(4) [of u] e(2,4) cq(1) cq(2) [of u] seg_of_cqe [OF cok, of "ur_pool y"] by (cases "u = ?s") (simp_all add: stream_ok_def cqs_def ov add.assoc)
    show "bufs_ok ?y"
    proof (cases "cq_bid c")
      case (Some b)
      from bufs_push [of own "ur_ring y" b "cq_bids cs" "sock_bids y" ?s] show ?thesis using own Some unfolding bufs_ok_def sb by (intro exI) simp
    qed (use own sb in \<open>auto simp: bufs_ok_def\<close>)
  qed (use inv(3) assms(2) in simp)
qed


section \<open>The first read, references and the end\<close>

lemma mset_take_drop: "mset (take n xs) + mset (drop n xs) = mset xs"
  by (metis append_take_drop_id mset_append)

text \<open>A direct \<open>recv\<close>, whose bytes are given to the program. Nothing is queued, completed or under way unless the socket is marked.\<close>

lemma uinv_direct:
  assumes "uinv hs ok y"
  shows "uinv hs ok (sync_recv s n y)" (is "uinv hs ok ?y")
proof (rule uinvI)
  note inv = uinvD [OF assms]
  note k = sockD [OF inv(1) [of s]]
  let ?k = "(ur_sock y s)\<lparr>us_overtaken := us_overtaken (ur_sock y s) \<or> ms_armed (us_op (ur_sock y s)) \<or> has_data (us_op (ur_sock y s))\<rparr>"
  have y: "?y = usock_upd s (\<lambda>_. ?k) (y\<lparr>ur_in := (ur_in y)(s := drop n (ur_in y s)), ur_given := (ur_given y)(s := ur_given y s @ take n (ur_in y s))\<rparr>)"
    by (simp add: sync_recv_def direct_recv_def usock_upd_def)
  have b: "sock_bids ?y = sock_bids y" by (auto simp: sock_bids_def y)
  show "bufs_ok ?y" using inv(5) bufs_ok_cong [OF _ _ b] by (simp add: y)
  have "sock_ok (hs s) ok ?k" using k unfolding sock_ok_def by simp
  then show "sock_ok (hs u) ok (ur_sock ?y u)" for u using inv(1) by (simp add: y)
  show "recv_phase (ms_armed (us_op (ur_sock ?y u))) (submitted ?y u) (ur_live ?y u) (cqs ?y u)" for u
    using inv(2) [of u] by (cases "u = s") (simp_all add: y submitted_def cqs_def)
  have idle: "segq (us_op (ur_sock y s)) = [] \<and> cqs y s = []" if "\<not> ms_armed (us_op (ur_sock y s))" "\<not> has_data (us_op (ur_sock y s))"
    using inv(2) [of s] that by (simp add: recv_phase_def)
  show "stream_ok (ur_pool ?y) (ur_sock ?y u) (cqs ?y u) (ur_in ?y u) (ur_given ?y u) (ur_arrived ?y u)" for u
  proof (cases "u = s")
    case True
    have c: "cqs ?y s = cqs y s" by (simp add: y cqs_def)
    have td: "mset a + mset (take n (ur_in y s)) + b + d + mset (drop n (ur_in y s)) = mset a + b + d + mset (ur_in y s)" for a b d
      unfolding mset_take_drop [of n "ur_in y s", symmetric] by (simp add: ac_simps)
    show ?thesis using inv(4) [of s] idle unfolding True c by (auto simp: y stream_ok_def td)
  next
    case False
    then show ?thesis using inv(4) [of u] by (simp add: y stream_ok_def cqs_def)
  qed
  show "cqe_ok c" if "c \<in> set (ur_cq ?y)" for c using inv(3) that by (simp add: y)
qed

lemma uinv_first:
  assumes "uinv hs ok y" and "us_rd (ur_sock y s) = R_idle" and "0 < us_handles (ur_sock y s)" and "hopen (us_hdr (ur_sock y s))"
  shows "uinv hs ok (after_round s mx (first_recv s n err y))"
proof -
  note k = sockD [OF uinvD(1) [OF assms(1), of s]]
  have w: "\<not> ms_waiting (us_op (ur_sock y s))" using k(4) assms(2) by auto
  have sok: "sock_ok (hs s) ok ((ur_sock y s)\<lparr>us_first_read := True, us_rd := r\<rparr>)" if "r = R_idle \<or> r = R_ready mx" for r
    using k w assms(3,4) that unfolding sock_ok_def by auto
  have other: "uinv hs ok (usock_upd s (\<lambda>k. k\<lparr>us_first_read := True, us_rd := r\<rparr>) y)" if "r = R_idle \<or> r = R_ready mx" for r
    by (rule uinv_usock [OF assms(1)]) (use sok [OF that] in simp_all)
  show ?thesis
  proof (cases "0 \<le> err \<and> ur_in y s \<noteq> []")
    case True
    have swap: "k\<lparr>us_overtaken := a, us_rd := r\<rparr> = k\<lparr>us_rd := r, us_overtaken := a\<rparr>" "z\<lparr>ur_given := g, ur_sock := f\<rparr> = z\<lparr>ur_sock := f, ur_given := g\<rparr>"
      for k :: usock and a r and z :: ursys and f g by simp_all
    have "after_round s mx (first_recv s n err y) = sync_recv s n (usock_upd s (\<lambda>k. k\<lparr>us_first_read := True, us_rd := R_idle\<rparr>) y)"
      using True by (simp add: first_recv_def after_round_def direct_recv_def sync_recv_def usock_upd_def swap)
    then show ?thesis using uinv_direct [OF other] by simp
  next
    case False
    then show ?thesis using other by (auto simp: first_recv_def after_round_def Let_def usock_upd_twice)
  qed
qed

lemma uinv_remove:
  assumes "uinv hs ok y" and "us_rd (ur_sock y s) = R_idle"
  shows "uinv hs ok (u_remove s y)"
  unfolding u_remove_def
proof (rule uinv_usock [OF assms(1)])
  let ?k = "ur_sock y s"
  note k = sockD [OF uinvD(1) [OF assms(1), of s]]
  have "hrefs (close_for_new_refs (us_hdr ?k)) = hrefs (us_hdr ?k)"
    using decode_flag(1) [of 63 "sh_state (us_hdr ?k)"] by (simp add: hrefs_def close_for_new_refs_def flag_masks set_flag_def)
  then have "refs_ok (hs s) (?k\<lparr>us_hdr := close_for_new_refs (us_hdr ?k)\<rparr>)" using k(7) by (auto simp: refs_ok_def close_for_new_refs_def split: if_splits)
  then show "sock_ok (hs s) ok (?k\<lparr>us_hdr := close_for_new_refs (us_hdr ?k)\<rparr>)" using k assms(2) unfolding sock_ok_def by simp
qed simp_all

text \<open>Dropping one reference: \<open>f\<close> takes a handle or the timer away from a socket that still counts it.\<close>

lemma uinv_release:
  assumes "uinv hs ok y" and "us_op (f (ur_sock y s)) = us_op (ur_sock y s)" and "us_rd (f (ur_sock y s)) = us_rd (ur_sock y s)"
    and "us_first_read (f (ur_sock y s)) = us_first_read (ur_sock y s)" and "us_arms (f (ur_sock y s)) = us_arms (ur_sock y s)"
    and "\<not> us_gone (f (ur_sock y s))" and "us_rd (ur_sock y s) \<noteq> R_idle \<longrightarrow> 0 < us_handles (f (ur_sock y s))" and "us_rd (ur_sock y s) \<noteq> R_idle \<longrightarrow> hopen (us_hdr (f (ur_sock y s)))"
    and "urefs (f (ur_sock y s)) = 1 + us_handles (f (ur_sock y s)) + us_arms (f (ur_sock y s)) + (if sh_timer_id (us_hdr (f (ur_sock y s))) = 0 then 0 else 1)"
    and "sh_fd (us_hdr (f (ur_sock y s))) = sh_fd (hs s)" and "\<not> us_gone (ur_sock y s)"
    and "us_overtaken (f (ur_sock y s)) = us_overtaken (ur_sock y s)"
  shows "uinv hs ok (u_release s (usock_upd s f y))"
proof -
  note inv = uinvD [OF assms(1)]
  let ?k = "f (ur_sock y s)"
  note k = sockD [OF inv(1) [of s]]
  have pos: "0 < hrefs (us_hdr ?k)" using assms(9) by simp
  note r = release_effect [OF pos]
  obtain fin h where rel: "release (us_hdr ?k) = (fin, h)" by (cases "release (us_hdr ?k)")
  show ?thesis
  proof (cases fin)
    case False
    let ?g = "\<lambda>k. (f k)\<lparr>us_hdr := h\<rparr>"
    have "refs_ok (hs s) (?k\<lparr>us_hdr := h\<rparr>)" using r rel False assms(6,9,10) by (simp add: refs_ok_def)
    moreover have "us_rd (ur_sock y s) \<noteq> R_idle \<longrightarrow> hopen h" using r(3) rel assms(8) by simp
    ultimately have "sock_ok (hs s) ok (?k\<lparr>us_hdr := h\<rparr>)" using k assms(2-7) unfolding sock_ok_def by simp
    then have "uinv hs ok (usock_upd s ?g y)" using assms(2,6,11,12) by (intro uinv_usock [OF assms(1)]) simp_all
    then show ?thesis using rel False by (simp add: u_release_def usock_upd_twice)
  next
    case True
    then have z: "us_handles ?k = 0" "us_arms ?k = 0" "sh_timer_id (us_hdr ?k) = 0" using r(1) rel assms(9) by (auto split: if_splits)
    have rd: "us_rd (ur_sock y s) = R_idle" using assms(7) z(1) by auto
    have na: "\<not> ms_armed (us_op (ur_sock y s))" "\<not> ms_waiting (us_op (ur_sock y s))" using k(4,8) z(2) assms(5) rd by auto
    obtain op' where op': "drain_segs (us_op (ur_sock y s)) [] = (op', map sg_bid (segq (us_op (ur_sock y s))))" "segq op' = []" "segq_wf op'" "same_flags op' (us_op (ur_sock y s))"
      using drain_segs_spec [OF k(1), of "[]"] by auto
    define h1 where "h1 = close_for_new_refs (h\<lparr>sh_timer_id := 0\<rparr>)"
    define k' where "k' = (?k\<lparr>us_hdr := h\<rparr>)\<lparr>us_hdr := (if 0 \<le> sh_fd h1 then h1\<lparr>sh_fd := -1\<rparr> else h1), us_op := op', us_gone := True\<rparr>"
    let ?y = "usock_upd s (\<lambda>_. k') (y\<lparr>ur_ring := ur_ring y @ sock_bids y s\<rparr>)"
    have eq: "u_release s (usock_upd s f y) = ?y"
      using rel True op'(1) assms(2) by (simp add: u_release_def u_destroy_def Let_def h1_def k'_def sock_bids_def usock_upd_def)
    have t0: "sh_timer_id (us_hdr k') = 0" by (simp add: k'_def h1_def close_for_new_refs_def)
    have sok: "sock_ok (hs s) ok k'"
      unfolding sock_ok_def refs_ok_def using op' z(1,2) t0 rd na k(3) assms(3-5) by (simp add: k'_def same_flags_def)
    have ra: "ms_armed (us_op k') = ms_armed (us_op (ur_sock y s))" using op'(4) by (simp add: k'_def same_flags_def)
    show ?thesis unfolding eq
    proof (rule uinvI)
      show "sock_ok (hs u) ok (ur_sock ?y u)" for u using inv(1) sok by simp
      show "recv_phase (ms_armed (us_op (ur_sock ?y u))) (submitted ?y u) (ur_live ?y u) (cqs ?y u)" for u
        using inv(2) [of u] ra by (cases "u = s") (simp_all add: submitted_def cqs_def)
      show "stream_ok (ur_pool ?y) (ur_sock ?y u) (cqs ?y u) (ur_in ?y u) (ur_given ?y u) (ur_arrived ?y u)" for u
        using inv(4) [of u] by (cases "u = s") (simp_all add: stream_ok_def cqs_def k'_def)
      obtain own where own: "bufs_placed own (ur_ring y) (cq_bids (ur_cq y)) (sock_bids y)" using inv(5) by (auto simp: bufs_ok_def)
      have b: "sock_bids ?y = (sock_bids y)(s := [])" using op'(2) by (auto simp: sock_bids_def k'_def)
      from bufs_recycle [OF own, of s "sock_bids y s" "[]"] show "bufs_ok ?y" unfolding bufs_ok_def b by auto
    qed (use inv(3) in simp)
  qed
qed


lemma cancel_comm: "submit_cancel flushed s (usock_upd u f y) = usock_upd u f (submit_cancel flushed s y)"
  by (simp add: submit_cancel_def get_sqe_flush_def usock_upd_comm)

lemma cancel_sock [simp]: "ur_sock (submit_cancel flushed s y) = ur_sock y"
  by (simp add: submit_cancel_def get_sqe_flush_def)

lemma uinv_copy:
  assumes "uinv hs ok y" and "0 < us_handles (ur_sock y s)" and "urefs (ur_sock y s) + 1 < 2 ^ 40"
  shows "uinv hs ok (usock_upd s (\<lambda>k. k\<lparr>us_hdr := add_ref (us_hdr k), us_handles := us_handles k + 1\<rparr>) y)"
proof (rule uinv_usock [OF assms(1)])
  let ?k = "ur_sock y s"
  note k = sockD [OF uinvD(1) [OF assms(1), of s]]
  have "refs_ok (hs s) (?k\<lparr>us_hdr := add_ref (us_hdr ?k), us_handles := us_handles ?k + 1\<rparr>)"
    using k(7) assms(2) add_ref_effect [OF assms(3)] by (auto simp: refs_ok_def split: if_splits)
  then show "sock_ok (hs s) ok (?k\<lparr>us_hdr := add_ref (us_hdr ?k), us_handles := us_handles ?k + 1\<rparr>)"
    using k add_ref_effect(2) [OF assms(3)] unfolding sock_ok_def by simp
qed simp_all

lemma uinv_drop:
  assumes "uinv hs ok y" and "0 < us_handles (ur_sock y s)" and "us_handles (ur_sock y s) = 1 \<longrightarrow> us_rd (ur_sock y s) = R_idle"
  shows "uinv hs ok (u_release s (usock_upd s (\<lambda>k. k\<lparr>us_handles := us_handles k - 1\<rparr>) y))"
proof (rule uinv_release [OF assms(1)])
  note k = sockD [OF uinvD(1) [OF assms(1), of s]]
  show g: "\<not> us_gone (ur_sock y s)" using k(7) assms(2) by (auto simp: refs_ok_def split: if_splits)
  then have r: "urefs (ur_sock y s) = us_handles (ur_sock y s) + us_arms (ur_sock y s) + (if sh_timer_id (us_hdr (ur_sock y s)) = 0 then 0 else 1)"
    "us_rd (ur_sock y s) \<noteq> R_idle \<longrightarrow> hopen (us_hdr (ur_sock y s))" "sh_fd (us_hdr (ur_sock y s)) = sh_fd (hs s)"
    using k(7,9) by (simp_all add: refs_ok_def)
  let ?k = "(ur_sock y s)\<lparr>us_handles := us_handles (ur_sock y s) - 1\<rparr>"
  show "urefs ?k = 1 + us_handles ?k + us_arms ?k + (if sh_timer_id (us_hdr ?k) = 0 then 0 else 1)" using r(1) assms(2) by simp
  show "us_rd (ur_sock y s) \<noteq> R_idle \<longrightarrow> 0 < us_handles ?k" using assms(2,3) by auto
  show "us_rd (ur_sock y s) \<noteq> R_idle \<longrightarrow> hopen (us_hdr ?k)" "sh_fd (us_hdr ?k) = sh_fd (hs s)" "\<not> us_gone ?k" using r(2,3) g by simp_all
qed simp_all

lemma uinv_set_timeout:
  assumes "uinv hs ok y" and "0 < us_handles (ur_sock y s)" and "urefs (ur_sock y s) + 1 < 2 ^ 40" and o: "hopen (us_hdr (ur_sock y s))"
  shows "uinv hs ok (u_set_timeout s y)"
  unfolding u_set_timeout_def
proof (rule uinv_usock [OF assms(1)])
  let ?k = "ur_sock y s"
  note k = sockD [OF uinvD(1) [OF assms(1), of s]]
  have "refs_ok (hs s) (?k\<lparr>us_hdr := (add_ref_for_ms_recv (us_hdr ?k))\<lparr>sh_timer_id := 1\<rparr>\<rparr>)" if "sh_timer_id (us_hdr ?k) = 0"
    using k(7) assms(2) that add_ref_effect [OF assms(3)] ms_ref_effect [OF assms(3) o] by (auto simp: refs_ok_def split: if_splits)
  moreover have "hopen ((add_ref_for_ms_recv (us_hdr ?k))\<lparr>sh_timer_id := 1\<rparr>)" using add_ref_effect(2) [OF assms(3)] ms_ref_effect [OF assms(3) o] o by simp
  ultimately show "sock_ok (hs s) ok (if sh_timer_id (us_hdr ?k) \<noteq> 0 then ?k else ?k\<lparr>us_hdr := (add_ref_for_ms_recv (us_hdr ?k))\<lparr>sh_timer_id := 1\<rparr>\<rparr>)"
    using k uinvD(1) [OF assms(1), of s] unfolding sock_ok_def by simp
qed simp_all

lemma uinv_timeout:
  assumes "uinv hs ok y" and "sh_timer_id (us_hdr (ur_sock y s)) \<noteq> 0"
  shows "uinv hs ok (u_timeout flushed s y)"
proof -
  let ?f = "\<lambda>k. k\<lparr>us_hdr := (us_hdr k)\<lparr>sh_timer_id := 0, sh_info := sh_info (us_hdr k) OR INFO_TIMEOUT\<rparr>\<rparr>"
  define y1 where "y1 = (if us_read_op (ur_sock y s) then submit_cancel flushed s y else y)"
  have inv: "uinv hs ok y1" "ur_sock y1 = ur_sock y" using assms(1) uinv_cancel by (auto simp: y1_def)
  have eq: "u_timeout flushed s y = u_release s (usock_upd s ?f y1)" by (simp add: u_timeout_def Let_def cancel_comm usock_upd_twice y1_def)
  note k = sockD [OF uinvD(1) [OF assms(1), of s]]
  have g: "\<not> us_gone (ur_sock y s)" using k(7) assms(2) by (auto simp: refs_ok_def)
  then have r: "urefs (ur_sock y s) = us_handles (ur_sock y s) + us_arms (ur_sock y s) + 1"
    "us_rd (ur_sock y s) \<noteq> R_idle \<longrightarrow> hopen (us_hdr (ur_sock y s))" "sh_fd (us_hdr (ur_sock y s)) = sh_fd (hs s)"
    using k(7,9) assms(2) by (simp_all add: refs_ok_def)
  show ?thesis unfolding eq by (rule uinv_release [OF inv(1)]) (use r g k(6) in \<open>simp_all add: inv(2)\<close>)
qed

lemma u_step_inv: "u_step ok y y' \<Longrightarrow> uinv hs ok y \<Longrightarrow> uinv hs ok y'"
proof (induction rule: u_step.induct)
  case (u_resume y s mx flushed)
  note k = sockD [OF uinvD(1) [OF u_resume.prems, of s]]
  have "0 < us_handles (ur_sock y s)" "\<not> ms_waiting (us_op (ur_sock y s))" using k(4,6) u_resume.hyps by auto
  moreover have "hopen (us_hdr (ur_sock y s))" using k(9) u_resume.hyps(1) by simp
  ultimately show ?case using u_resume uinv_read by blast
next
  case (u_read y s mx flushed)
  note k = sockD [OF uinvD(1) [OF u_read.prems, of s]]
  have "\<not> ms_waiting (us_op (ur_sock y s))" using k(4) u_read.hyps by auto
  then show ?case using u_read uinv_read by blast
next
  case (u_copy y s)
  then show ?case using uinv_copy by blast
next
  case (u_drop y s)
  then show ?case using uinv_drop by blast
qed (auto intro: uinv_arrive uinv_fin uinv_data uinv_end uinv_submit uinv_complete uinv_first uinv_set_timeout uinv_timeout uinv_direct uinv_remove)


section \<open>Runs\<close>

text \<open>New sockets, each with one handle.\<close>

definition fresh_headers :: "(nat \<Rightarrow> SocketHeader) \<Rightarrow> bool" where
  "fresh_headers hs \<longleftrightarrow> (\<forall>s. sh_state (hs s) = 1 \<and> sh_timer_id (hs s) = 0)"

definition u_run :: "(nat \<Rightarrow> SocketHeader) \<Rightarrow> bool \<Rightarrow> ursys \<Rightarrow> bool" where
  "u_run hs ok y \<longleftrightarrow> fresh_headers hs \<and> (u_step ok)\<^sup>*\<^sup>* (ursys_init hs) y"

lemma uinv_init:
  assumes "fresh_headers hs"
  shows "uinv hs ok (ursys_init hs)"
proof (rule uinvI)
  have "hrefs (hs s) = 1 \<and> hopen (hs s) \<and> sh_timer_id (hs s) = 0" for s using assms by (simp add: fresh_headers_def hrefs_def hopen_def decode_1)
  then show "sock_ok (hs s) ok (ur_sock (ursys_init hs) s)" for s
    by (simp add: sock_ok_def refs_ok_def ursys_init_def usock_new_def) (simp add: ms_new_def)
  have "bufs_placed (\<lambda>_. In_ring) [0..<kBufCount] [] (\<lambda>_. [])" by (simp add: bufs_placed_def)
  moreover have "sock_bids (ursys_init hs) = (\<lambda>_. [])" by (simp add: fun_eq_iff sock_bids_def ursys_init_def usock_new_def)
  ultimately show "bufs_ok (ursys_init hs)" by (auto simp: bufs_ok_def ursys_init_def)
qed (simp_all add: ursys_init_def usock_new_def recv_phase_def submitted_def cqs_def stream_ok_def, simp_all add: ms_new_def)

lemma u_run_inv: "u_run hs ok y \<Longrightarrow> uinv hs ok y"
proof -
  assume r: "u_run hs ok y"
  then have "(u_step ok)\<^sup>*\<^sup>* (ursys_init hs) y" "fresh_headers hs" by (simp_all add: u_run_def)
  then show ?thesis by (induction rule: rtranclp_induct) (auto intro: uinv_init u_step_inv)
qed

text \<open>C35. Receiving with io_uring, in every run of any number of sockets read by \<open>async_read\<close> in both its forms through multishot receives and by the
  synchronous \<open>read\<close>, with the kernel ending receives at any point, running out of buffers and completing in any order between sockets. Until the end of a socket no byte is lost or
  duplicated: what the program was given, the unread bytes of its queued segments, those of the completions not handled yet, and what the kernel still holds are together what
  arrived. They are it in this order, unless a direct \<open>recv\<close> (the first \<open>async_read\<close> into a \<open>DynamicBuffer\<close>, or the synchronous \<open>read\<close>) took bytes while a multishot
  receive was armed or segments were queued. And each of the 256
  buffers is at exactly one place: with the kernel, in one completion, or in one segment of one socket. A program calls \<open>remove\<close> only while no read is pending, and starts no read after it.\<close>

theorem uring_recv_stream:
  assumes "u_run hs ok y"
  shows "(\<forall>s. \<not> us_gone (ur_sock y s) \<longrightarrow>
      mset (ur_given y s) + mset (segq_bytes (ur_pool y) (segq (us_op (ur_sock y s)))) +
        mset (concat (map (cqe_bytes (ur_pool y)) (cqs y s))) + mset (ur_in y s) = mset (ur_arrived y s)) \<and>
    (\<forall>s. \<not> us_gone (ur_sock y s) \<and> \<not> us_overtaken (ur_sock y s) \<longrightarrow> ur_given y s @ segq_bytes (ur_pool y) (segq (us_op (ur_sock y s))) @
      concat (map (cqe_bytes (ur_pool y)) (cqs y s)) @ ur_in y s = ur_arrived y s) \<and>
    (\<exists>own. bufs_placed own (ur_ring y) (cq_bids (ur_cq y)) (sock_bids y))"
  using uinvD(4,5) [OF u_run_inv [OF assms]] by (simp add: stream_ok_def bufs_ok_def)

text \<open>C36. No lost wake-up with io_uring: when the kernel takes full submission queues, a coroutine that is suspended in \<open>async_read\<close> on an open descriptor has a
  receive under way, in the submission queue, live in the kernel or with a completion to be handled; it waits only when no segment is queued and no end was reported;
  and handling any completion of the socket puts it into the run queue.\<close>

theorem uring_reader_not_stuck:
  assumes "u_run hs True y" and "us_rd (ur_sock y s) = R_wait mx" and "0 \<le> sh_fd (hs s)"
  shows "(submitted y s \<or> ur_live y s \<or> cqs y s \<noteq> []) \<and> segq (us_op (ur_sock y s)) = [] \<and> \<not> ms_has_terminal (us_op (ur_sock y s)) \<and>
    (\<forall>c cs. ur_cq y = c # cs \<longrightarrow> cq_sock c = s \<longrightarrow> us_rd (ur_sock (handle_cqe c (y\<lparr>ur_cq := cs\<rparr>)) s) = R_ready mx)"
proof -
  note inv = uinvD [OF u_run_inv [OF assms(1)]]
  note k = sockD [OF inv(1) [of s]]
  have w: "ms_waiting (us_op (ur_sock y s))" using k(4) assms(2) by simp
  then have a: "ms_armed (us_op (ur_sock y s))" using k(10) assms(3) by simp
  have "us_rd (ur_sock (handle_cqe c (y\<lparr>ur_cq := cs\<rparr>)) s) = R_ready mx" if "ur_cq y = c # cs" "cq_sock c = s" for c cs
  proof -
    have "cqe_ok c" using inv(3) that by simp
    then have "ms_waiting (push_completion c (us_op (ur_sock y s)))" "ms_header (push_completion c (us_op (ur_sock y s))) = None"
      using w k(3) by (cases "cq_bid c"; simp add: push_completion_def cqe_ok_def Let_def seg_push_def)+
    then show ?thesis using that assms(2) by (simp add: handle_cqe_def Let_def resume_reader_def drop_recv_ref_def)
  qed
  then show ?thesis using inv(2) [of s] a k(5) [OF w] by (auto simp: recv_phase_def)
qed

lemma arms_release [simp]: "us_arms (ur_sock (u_release u y) s) = us_arms (ur_sock y s)"
  by (simp add: u_release_def u_destroy_def Let_def split: prod.split)





section \<open>Example runs\<close>

text \<open>Three bytes arrive at a socket, its reader arms the receive and waits; the kernel completes it.\<close>

definition ex_arrived :: ursys where
  "ex_arrived = (let y = ursys_init (\<lambda>_. demo_header) in y\<lparr>ur_in := (ur_in y)(0 := [1, 2, 3]), ur_arrived := (ur_arrived y)(0 := [1, 2, 3])\<rparr>)"

definition ex_waiting :: ursys where
  "ex_waiting = after_round 0 10 (read_round True 0 10 ex_arrived)"

lemma ex_arrived_run: "u_run (\<lambda>_. demo_header) True ex_arrived"
proof -
  have "u_step True (ursys_init (\<lambda>_. demo_header)) ex_arrived"
    using k_arrive [of "ursys_init (\<lambda>_. demo_header)" 0 True "[1, 2, 3]"] by (simp add: ex_arrived_def ursys_init_def)
  then show ?thesis by (auto simp: u_run_def fresh_headers_def demo_header_def)
qed

lemma ex_arrived_sock: "ur_sock ex_arrived 0 = usock_new demo_header" "ur_sq ex_arrived = []"
  by (simp_all add: ex_arrived_def ursys_init_def)

lemma demo_refs: "hrefs demo_header = 1" "hopen demo_header"
  by (simp_all add: hrefs_def hopen_def demo_header_def decode_1)

lemma ex_waiting_step: "u_step True ex_arrived ex_waiting"
  unfolding ex_waiting_def by (rule u_read) (simp_all add: ex_arrived_sock usock_new_def demo_refs)

lemma ex_waiting_sock: "us_rd (ur_sock ex_waiting 0) = R_wait 10" "us_arms (ur_sock ex_waiting 0) = 1"
proof -
  have e: "segq (us_op (ur_sock ex_arrived 0)) = []" "\<not> (ms_has_terminal (us_op (ur_sock ex_arrived 0)) \<and> ms_terminal (us_op (ur_sock ex_arrived 0)) \<noteq> - ENOBUFS)"
    by (simp_all add: ex_arrived_sock usock_new_def) (simp add: ms_new_def)
  show "us_rd (ur_sock ex_waiting 0) = R_wait 10" by (cases rule: read_round_suspends [OF e, of True 10]) (simp_all add: ex_waiting_def after_round_def)
  show "us_arms (ur_sock ex_waiting 0) = 1"
    by (cases rule: read_round_suspends [OF e, of True 10]) (auto simp: ex_waiting_def after_round_def ex_arrived_sock usock_new_def ms_new_def demo_header_def)
qed

lemma ex_waiting_run: "u_run (\<lambda>_. demo_header) True ex_waiting"
  using ex_arrived_run ex_waiting_step by (auto simp: u_run_def intro: rtranclp.rtrancl_into_rtrancl)

lemma ex_waiting_queues: "ur_cq ex_waiting = []" "ur_sq ex_waiting = [Sq_recv 0]" "ur_in ex_waiting 0 = [1, 2, 3]" "us_handles (ur_sock ex_waiting 0) = 1"
  "ur_ring ex_waiting = [0..<256]" "ur_given ex_waiting 0 = []" "us_op (ur_sock ex_waiting 0) = ms_new\<lparr>ms_armed := True, ms_waiting := True\<rparr>"
  "ur_arrived ex_waiting 0 = [1, 2, 3]" "\<not> us_overtaken (ur_sock ex_waiting 0)"
proof -
  have "\<not> ms_has_terminal ms_new" "\<not> ms_armed ms_new" by (simp_all add: ms_new_def)
  moreover have "sh_fd demo_header = 7" by (simp add: demo_header_def)
  moreover have "ur_sock ex_arrived 0 = usock_new demo_header" "ur_sq ex_arrived = []" "ur_cq ex_arrived = []" "ur_in ex_arrived 0 = [1, 2, 3]" "ur_ring ex_arrived = [0..<256]"
    "ur_given ex_arrived 0 = []" "ur_arrived ex_arrived 0 = [1, 2, 3]" by (simp_all add: ex_arrived_def ursys_init_def kBufCount_def)
  ultimately show "ur_cq ex_waiting = []" "ur_sq ex_waiting = [Sq_recv 0]" "ur_in ex_waiting 0 = [1, 2, 3]" "us_handles (ur_sock ex_waiting 0) = 1"
    "ur_ring ex_waiting = [0..<256]" "ur_given ex_waiting 0 = []" "us_op (ur_sock ex_waiting 0) = ms_new\<lparr>ms_armed := True, ms_waiting := True\<rparr>" "ur_arrived ex_waiting 0 = [1, 2, 3]"
    "\<not> us_overtaken (ur_sock ex_waiting 0)" by (simp_all add: ex_waiting_def read_round_def after_round_def ms_await_suspend_def submit_recv_multishot_def get_sqe_flush_def ring_entries_def usock_new_def)
qed

text \<open>The kernel puts the bytes into the first buffer.\<close>

definition ex_completed :: ursys where
  "ex_completed = (let y = uring_submit ex_waiting in y\<lparr>ur_ring := [1..<256], ur_pool := (ur_pool y)(0 := (\<lambda>i. if i < length [1, 2, 3 :: u8] then [1, 2, 3] ! i else ur_pool y 0 i)),
     ur_in := (ur_in y)(0 := []), ur_cq := ur_cq y @ [\<lparr>cq_sock = 0, cq_res = int (length [1, 2, 3 :: u8]), cq_bid = Some 0, cq_more = True\<rparr>], ur_live := (ur_live y)(0 := True)\<rparr>)"

lemma ex_completed_run: "u_run (\<lambda>_. demo_header) True ex_completed"
proof -
  let ?y = "uring_submit ex_waiting"
  have "u_step True ex_waiting ?y" by (rule u_submit)
  moreover have "u_step True ?y ex_completed" unfolding ex_completed_def Let_def
    by (rule k_data) (simp_all add: submitted_def ex_waiting_queues kBufSize_def upt_conv_Cons)
  ultimately show ?thesis using ex_waiting_run by (auto simp: u_run_def intro: rtranclp.rtrancl_into_rtrancl)
qed

theorem uring_recv_stream_witness:
  "concat (map (cqe_bytes (ur_pool ex_completed)) (cqs ex_completed 0)) = [1, 2, 3] \<and>
    (\<exists>own. bufs_placed own (ur_ring ex_completed) (cq_bids (ur_cq ex_completed)) (sock_bids ex_completed))"
proof -
  have "\<not> us_gone (ur_sock ex_completed 0)" "ur_given ex_completed 0 = []" "segq (us_op (ur_sock ex_completed 0)) = []" "ur_in ex_completed 0 = []" "ur_arrived ex_completed 0 = [1, 2, 3]"
    "\<not> us_overtaken (ur_sock ex_completed 0)" using uinvD(1) [OF u_run_inv [OF ex_waiting_run], of 0] armed_exists [of _ _ "ur_sock ex_waiting 0"]
    by (auto simp: ex_completed_def Let_def ex_waiting_queues)
  moreover have "\<forall>s. \<not> us_gone (ur_sock ex_completed s) \<and> \<not> us_overtaken (ur_sock ex_completed s) \<longrightarrow>
      ur_given ex_completed s @ segq_bytes (ur_pool ex_completed) (segq (us_op (ur_sock ex_completed s))) @
      concat (map (cqe_bytes (ur_pool ex_completed)) (cqs ex_completed s)) @ ur_in ex_completed s = ur_arrived ex_completed s"
    "\<exists>own. bufs_placed own (ur_ring ex_completed) (cq_bids (ur_cq ex_completed)) (sock_bids ex_completed)"
    using uring_recv_stream [OF ex_completed_run] by blast+
  ultimately show ?thesis by force
qed

theorem uring_reader_not_stuck_witness:
  "us_rd (ur_sock ex_waiting 0) = R_wait 10 \<and> (submitted ex_waiting 0 \<or> ur_live ex_waiting 0 \<or> cqs ex_waiting 0 \<noteq> [])"
  using uring_reader_not_stuck [OF ex_waiting_run ex_waiting_sock(1)] ex_waiting_sock(1) by (simp add: demo_header_def)








end
