(* ===== verification/Fiber_Stacks.thy ===== *)
theory Fiber_Stacks
  imports Uvent_Prelude
begin

text \<open>
  The stacks of fibers (\<open>fiber/ContextPosix.cpp\<close>): \<open>Context::create\<close> takes a stack from the cache of the thread or maps a new one with a guard page,
  \<open>~Context\<close> puts it into the cache of the thread it runs on (any thread) or unmaps it, and a thread that exits unmaps its cache. Memory is
  the set of mappings with their sizes; unmapping a region that is not mapped with exactly that size is a fault (\<open>None\<close>).
\<close>

section \<open>Sizes\<close>

definition round_up :: "u64 \<Rightarrow> u64 \<Rightarrow> u64" where
  "round_up v a = (v + a - 1) div a * a"

definition usable_size :: "u64 \<Rightarrow> u64 \<Rightarrow> u64" where
  "usable_size ps stack_size = round_up (if stack_size < 4 * ps then 4 * ps else stack_size) ps"

definition page_size :: "int \<Rightarrow> u64" where
  "page_size v = (if 0 < v then of_int v else 4096)"

section \<open>Mappings, caches and contexts\<close>

record stack_cache =
  sc_mapping :: u64
  sc_free :: "nat list"

record fctx =
  fx_base :: "nat option"
  fx_mapping :: u64
  fx_stack :: u64

record fmem =
  fm_maps :: "nat \<Rightarrow> u64 option"
  fm_cache :: "nat \<Rightarrow> stack_cache"
  fm_ctx :: "nat \<Rightarrow> fctx"

definition fmem_init :: fmem where
  "fmem_init = \<lparr>fm_maps = (\<lambda>_. None), fm_cache = (\<lambda>_. \<lparr>sc_mapping = 0, sc_free = []\<rparr>), fm_ctx = (\<lambda>_. \<lparr>fx_base = None, fx_mapping = 0, fx_stack = 0\<rparr>)\<rparr>"

definition munmap :: "nat \<Rightarrow> u64 \<Rightarrow> fmem \<Rightarrow> fmem option" where
  "munmap p sz m = (if fm_maps m p = Some sz then Some (m\<lparr>fm_maps := (fm_maps m)(p := None)\<rparr>) else None)"

text \<open>\<open>map_stack\<close>: \<open>mm\<close> is the address that \<open>mmap\<close> returns, \<open>prot\<close> whether \<open>mprotect\<close> succeeds.\<close>

definition map_stack :: "nat option \<Rightarrow> bool \<Rightarrow> u64 \<Rightarrow> fmem \<Rightarrow> (nat option \<times> fmem) option" where
  "map_stack mm prot sz m = (case mm of None \<Rightarrow> Some (None, m)
     | Some p \<Rightarrow> let m1 = m\<lparr>fm_maps := (fm_maps m)(p := Some sz)\<rparr> in
         if prot then Some (Some p, m1) else map_option (\<lambda>m2. (None, m2)) (munmap p sz m1))"

definition put_stack :: "nat \<Rightarrow> nat \<Rightarrow> u64 \<Rightarrow> u64 \<Rightarrow> fmem \<Rightarrow> fmem" where
  "put_stack c base mapping usable m = m\<lparr>fm_ctx := (fm_ctx m)(c := \<lparr>fx_base = Some base, fx_mapping = mapping, fx_stack = usable\<rparr>)\<rparr>"

text \<open>\<open>Context::create\<close> of the context \<open>c\<close> on the thread \<open>t\<close>; the flag is false when it throws \<open>bad_alloc\<close>.\<close>

definition ctx_create :: "u64 \<Rightarrow> nat \<Rightarrow> nat \<Rightarrow> u64 \<Rightarrow> nat option \<Rightarrow> bool \<Rightarrow> fmem \<Rightarrow> (bool \<times> fmem) option" where
  "ctx_create ps t c stack_size mm prot m = (let usable = usable_size ps stack_size; mapping = usable + ps; k = fm_cache m t in
     if sc_mapping k = mapping \<and> sc_free k \<noteq> [] then
       Some (True, put_stack c (last (sc_free k)) mapping usable (m\<lparr>fm_cache := (fm_cache m)(t := k\<lparr>sc_free := butlast (sc_free k)\<rparr>)\<rparr>))
     else (case map_stack mm prot mapping m of None \<Rightarrow> None
       | Some (None, m1) \<Rightarrow> Some (False, m1)
       | Some (Some base, m1) \<Rightarrow> Some (True, put_stack c base mapping usable m1)))"

definition ctx_destroy :: "nat \<Rightarrow> nat \<Rightarrow> nat \<Rightarrow> fmem \<Rightarrow> fmem option" where
  "ctx_destroy limit t c m = (let x = fm_ctx m c; k = fm_cache m t in
     case fx_base x of None \<Rightarrow> Some m
     | Some base \<Rightarrow>
        map_option (\<lambda>m1. m1\<lparr>fm_ctx := (fm_ctx m1)(c := x\<lparr>fx_base := None\<rparr>)\<rparr>)
         (if 0 < limit \<and> (sc_mapping k = fx_mapping x \<or> sc_free k = []) \<and> length (sc_free k) < limit
          then Some (m\<lparr>fm_cache := (fm_cache m)(t := \<lparr>sc_mapping = fx_mapping x, sc_free = sc_free k @ [base]\<rparr>)\<rparr>)
          else munmap base (fx_mapping x) m))"

text \<open>\<open>~StackCache\<close> when a thread exits.\<close>

fun unmap_all :: "u64 \<Rightarrow> nat list \<Rightarrow> fmem \<Rightarrow> fmem option" where
  "unmap_all sz [] m = Some m"
| "unmap_all sz (p # ps) m = (case munmap p sz m of None \<Rightarrow> None | Some m1 \<Rightarrow> unmap_all sz ps m1)"

definition cache_exit :: "nat \<Rightarrow> fmem \<Rightarrow> fmem option" where
  "cache_exit t m = map_option (\<lambda>m1. m1\<lparr>fm_cache := (fm_cache m1)(t := \<lparr>sc_mapping = 0, sc_free = []\<rparr>)\<rparr>)
     (unmap_all (sc_mapping (fm_cache m t)) (sc_free (fm_cache m t)) m)"

section \<open>Runs\<close>

text \<open>A context is created when it has no stack; \<open>mmap\<close> returns an address that is not mapped.\<close>

inductive f_step :: "u64 \<Rightarrow> nat \<Rightarrow> fmem \<Rightarrow> fmem option \<Rightarrow> bool" for ps limit where
  f_create: "fx_base (fm_ctx m c) = None \<Longrightarrow> (\<And>p. mm = Some p \<Longrightarrow> fm_maps m p = None) \<Longrightarrow>
    f_step ps limit m (map_option snd (ctx_create ps t c stack_size mm prot m))"
| f_destroy: "f_step ps limit m (ctx_destroy limit t c m)"
| f_exit: "f_step ps limit m (cache_exit t m)"

inductive f_reach :: "u64 \<Rightarrow> nat \<Rightarrow> fmem option \<Rightarrow> bool" for ps limit where
  f_start: "f_reach ps limit (Some fmem_init)"
| f_next: "f_reach ps limit (Some m) \<Longrightarrow> f_step ps limit m r \<Longrightarrow> f_reach ps limit r"

text \<open>Who owns a mapping: a context or the cache of a thread, each with the size it was mapped with.\<close>

datatype sown = At_ctx nat | At_cache nat

definition stacks_owned :: "nat \<Rightarrow> (nat \<Rightarrow> sown) \<Rightarrow> fmem \<Rightarrow> bool" where
  "stacks_owned limit own m \<longleftrightarrow> (\<forall>c p. fx_base (fm_ctx m c) = Some p \<longleftrightarrow> fm_maps m p \<noteq> None \<and> own p = At_ctx c) \<and>
     (\<forall>c p. fx_base (fm_ctx m c) = Some p \<longrightarrow> fm_maps m p = Some (fx_mapping (fm_ctx m c))) \<and>
     (\<forall>t p. p \<in> set (sc_free (fm_cache m t)) \<longleftrightarrow> fm_maps m p \<noteq> None \<and> own p = At_cache t) \<and>
     (\<forall>t p. p \<in> set (sc_free (fm_cache m t)) \<longrightarrow> fm_maps m p = Some (sc_mapping (fm_cache m t))) \<and>
     (\<forall>t. distinct (sc_free (fm_cache m t)) \<and> length (sc_free (fm_cache m t)) \<le> limit)"


lemma ownedD:
  assumes "stacks_owned limit own m"
  shows "fx_base (fm_ctx m c) = Some p \<longleftrightarrow> fm_maps m p \<noteq> None \<and> own p = At_ctx c"
    and "fx_base (fm_ctx m c) = Some p \<Longrightarrow> fm_maps m p = Some (fx_mapping (fm_ctx m c))"
    and "p \<in> set (sc_free (fm_cache m t)) \<longleftrightarrow> fm_maps m p \<noteq> None \<and> own p = At_cache t"
    and "p \<in> set (sc_free (fm_cache m t)) \<Longrightarrow> fm_maps m p = Some (sc_mapping (fm_cache m t))"
    and "distinct (sc_free (fm_cache m t))" and "length (sc_free (fm_cache m t)) \<le> limit"
  using assms unfolding stacks_owned_def by blast+

lemma ownedI:
  assumes "\<And>c p. fx_base (fm_ctx m c) = Some p \<longleftrightarrow> fm_maps m p \<noteq> None \<and> own p = At_ctx c"
    and "\<And>c p. fx_base (fm_ctx m c) = Some p \<Longrightarrow> fm_maps m p = Some (fx_mapping (fm_ctx m c))"
    and "\<And>t p. p \<in> set (sc_free (fm_cache m t)) \<longleftrightarrow> fm_maps m p \<noteq> None \<and> own p = At_cache t"
    and "\<And>t p. p \<in> set (sc_free (fm_cache m t)) \<Longrightarrow> fm_maps m p = Some (sc_mapping (fm_cache m t))"
    and "\<And>t. distinct (sc_free (fm_cache m t)) \<and> length (sc_free (fm_cache m t)) \<le> limit"
  shows "stacks_owned limit own m"
  unfolding stacks_owned_def using assms by blast

lemma owned_map:
  assumes "stacks_owned limit own m" and "fm_maps m p = None" and "fx_base (fm_ctx m c) = None"
  shows "stacks_owned limit (own(p := At_ctx c)) (put_stack c p sz us (m\<lparr>fm_maps := (fm_maps m)(p := Some sz)\<rparr>))"
proof -
  note o = ownedD [OF assms(1)]
  have n: "fx_base (fm_ctx m d) \<noteq> Some p" "p \<notin> set (sc_free (fm_cache m t))" for d t using o(1) o(3) assms(2) by auto
  have c: "fm_maps m q = None \<or> own q \<noteq> At_ctx c" for q using o(1) [of c q] assms(3) by auto
  show ?thesis
  proof (rule ownedI)
    let ?m = "put_stack c p sz us (m\<lparr>fm_maps := (fm_maps m)(p := Some sz)\<rparr>)"
    show "fx_base (fm_ctx ?m d) = Some q \<longleftrightarrow> fm_maps ?m q \<noteq> None \<and> (own(p := At_ctx c)) q = At_ctx d" for d q
      using o(1) [of d q] n(1) [of d] c [of q] by (auto simp: put_stack_def)
    show "q \<in> set (sc_free (fm_cache ?m u)) \<longleftrightarrow> fm_maps ?m q \<noteq> None \<and> (own(p := At_ctx c)) q = At_cache u" for u q
      using o(3) [of q u] n(2) [of u] by (auto simp: put_stack_def)
    show "fx_base (fm_ctx ?m d) = Some q \<Longrightarrow> fm_maps ?m q = Some (fx_mapping (fm_ctx ?m d))" for d q
      using o(2) [of d q] n(1) [of d] by (auto simp: put_stack_def split: if_splits)
    show "q \<in> set (sc_free (fm_cache ?m u)) \<Longrightarrow> fm_maps ?m q = Some (sc_mapping (fm_cache ?m u))" for u q
      using o(4) [of q u] n(2) [of u] by (auto simp: put_stack_def)
  qed (use o(5,6) in \<open>simp add: put_stack_def\<close>)
qed

lemma owned_reuse:
  assumes "stacks_owned limit own m" and "sc_free (fm_cache m t) = ps @ [p]" and "fx_base (fm_ctx m c) = None"
  shows "stacks_owned limit (own(p := At_ctx c)) (put_stack c p (sc_mapping (fm_cache m t)) us (m\<lparr>fm_cache := (fm_cache m)(t := (fm_cache m t)\<lparr>sc_free := ps\<rparr>)\<rparr>))"
proof -
  note o = ownedD [OF assms(1)]
  have p: "fm_maps m p = Some (sc_mapping (fm_cache m t))" "own p = At_cache t" "p \<notin> set ps" "distinct ps" "length ps \<le> limit"
    using o(3) [of p t] o(4) [of p t] o(5) [of t] o(6) [of t] assms(2) by auto
  have m: "q \<in> set ps \<longleftrightarrow> fm_maps m q \<noteq> None \<and> own q = At_cache t \<and> q \<noteq> p" for q using o(3) [of q t] assms(2) p(3) by auto
  have m4: "q \<in> set ps \<Longrightarrow> fm_maps m q = Some (sc_mapping (fm_cache m t))" for q using o(4) [of q t] assms(2) by auto
  have n: "fx_base (fm_ctx m d) \<noteq> Some p" for d using o(1) [of d p] p(2) by auto
  have c: "fm_maps m q = None \<or> own q \<noteq> At_ctx c" for q using o(1) [of c q] assms(3) by auto
  have ot: "q \<in> set (sc_free (fm_cache m u)) \<longleftrightarrow> fm_maps m q \<noteq> None \<and> own q = At_cache u" for q u using o(3) .
  show ?thesis
  proof (rule ownedI)
    let ?m = "put_stack c p (sc_mapping (fm_cache m t)) us (m\<lparr>fm_cache := (fm_cache m)(t := (fm_cache m t)\<lparr>sc_free := ps\<rparr>)\<rparr>)"
    show "fx_base (fm_ctx ?m d) = Some q \<longleftrightarrow> fm_maps ?m q \<noteq> None \<and> (own(p := At_ctx c)) q = At_ctx d" for d q
      using o(1) [of d q] n [of d] c [of q] p(1) by (auto simp: put_stack_def)
    show "q \<in> set (sc_free (fm_cache ?m u)) \<longleftrightarrow> fm_maps ?m q \<noteq> None \<and> (own(p := At_ctx c)) q = At_cache u" for u q
      using m [of q] ot [of q u] p(2) by (auto simp: put_stack_def)
    show "fx_base (fm_ctx ?m d) = Some q \<Longrightarrow> fm_maps ?m q = Some (fx_mapping (fm_ctx ?m d))" for d q
      using o(2) [of d q] p(1) by (auto simp: put_stack_def split: if_splits)
    show "q \<in> set (sc_free (fm_cache ?m u)) \<Longrightarrow> fm_maps ?m q = Some (sc_mapping (fm_cache ?m u))" for u q
      using o(4) [of q u] m4 [of q] by (auto simp: put_stack_def split: if_splits)
    show "distinct (sc_free (fm_cache ?m u)) \<and> length (sc_free (fm_cache ?m u)) \<le> limit" for u using o(5,6) [of u] p(4,5) by (simp add: put_stack_def)
  qed
qed

lemma owned_cache:
  assumes "stacks_owned limit own m" and "fx_base (fm_ctx m c) = Some p" and "sc_mapping (fm_cache m t) = fx_mapping (fm_ctx m c) \<or> sc_free (fm_cache m t) = []"
    and "length (sc_free (fm_cache m t)) < limit"
  shows "stacks_owned limit (own(p := At_cache t)) (m\<lparr>fm_cache := (fm_cache m)(t := \<lparr>sc_mapping = fx_mapping (fm_ctx m c), sc_free = sc_free (fm_cache m t) @ [p]\<rparr>),
    fm_ctx := (fm_ctx m)(c := (fm_ctx m c)\<lparr>fx_base := None\<rparr>)\<rparr>)" (is "stacks_owned _ _ ?m")
proof -
  note o = ownedD [OF assms(1)]
  have p: "fm_maps m p = Some (fx_mapping (fm_ctx m c))" "own p = At_ctx c" using o(1) [of c p] o(2) [OF assms(2)] assms(2) by auto
  have n: "p \<notin> set (sc_free (fm_cache m u))" for u using o(3) [of p u] p(2) by auto
  have u: "fx_base (fm_ctx m d) = Some p \<longleftrightarrow> d = c" for d using o(1) [of d p] p by auto
  have cq: "fm_maps m q \<noteq> None \<and> own q = At_ctx c \<longleftrightarrow> q = p" for q using o(1) [of c q] assms(2) by auto
  show ?thesis
  proof (rule ownedI)
    show "fx_base (fm_ctx ?m d) = Some q \<longleftrightarrow> fm_maps ?m q \<noteq> None \<and> (own(p := At_cache t)) q = At_ctx d" for d q
      using o(1) [of d q] u [of d] cq [of q] by auto
    show "q \<in> set (sc_free (fm_cache ?m v)) \<longleftrightarrow> fm_maps ?m q \<noteq> None \<and> (own(p := At_cache t)) q = At_cache v" for v q
      using o(3) [of q v] n [of v] p(1) by auto
    show "fx_base (fm_ctx ?m d) = Some q \<Longrightarrow> fm_maps ?m q = Some (fx_mapping (fm_ctx ?m d))" for d q using o(2) [of d q] by (simp split: if_splits)
    show "q \<in> set (sc_free (fm_cache ?m v)) \<Longrightarrow> fm_maps ?m q = Some (sc_mapping (fm_cache ?m v))" for v q
      using o(4) [of q v] p(1) assms(3) by (auto split: if_splits)
    show "distinct (sc_free (fm_cache ?m v)) \<and> length (sc_free (fm_cache ?m v)) \<le> limit" for v using o(5,6) [of v] n [of v] assms(4) by (cases "v = t") simp_all
  qed
qed

lemma owned_unmap:
  assumes "stacks_owned limit own m" and "fx_base (fm_ctx m c) = Some p"
  shows "stacks_owned limit own (m\<lparr>fm_maps := (fm_maps m)(p := None), fm_ctx := (fm_ctx m)(c := (fm_ctx m c)\<lparr>fx_base := None\<rparr>)\<rparr>)" (is "stacks_owned _ _ ?m")
proof -
  note o = ownedD [OF assms(1)]
  have p: "own p = At_ctx c" using o(1) [of c p] assms(2) by auto
  have n: "p \<notin> set (sc_free (fm_cache m u))" for u using o(3) [of p u] p by auto
  have u: "fx_base (fm_ctx m d) = Some p \<longleftrightarrow> d = c" for d using o(1) [of d p] p assms(2) by auto
  show ?thesis
  proof (rule ownedI)
    show "fx_base (fm_ctx ?m d) = Some q \<longleftrightarrow> fm_maps ?m q \<noteq> None \<and> own q = At_ctx d" for d q using o(1) [of d q] u [of d] assms(2) by auto
    show "q \<in> set (sc_free (fm_cache ?m v)) \<longleftrightarrow> fm_maps ?m q \<noteq> None \<and> own q = At_cache v" for v q using o(3) [of q v] n [of v] by auto
    show "fx_base (fm_ctx ?m d) = Some q \<Longrightarrow> fm_maps ?m q = Some (fx_mapping (fm_ctx ?m d))" for d q using o(2) [of d q] u [of d] by (auto split: if_splits)
    show "q \<in> set (sc_free (fm_cache ?m v)) \<Longrightarrow> fm_maps ?m q = Some (sc_mapping (fm_cache ?m v))" for v q using o(4) [of q v] n [of v] by auto
  qed (use o(5,6) in simp)
qed


lemma unmap_all_spec:
  "distinct ps \<Longrightarrow> (\<And>p. p \<in> set ps \<Longrightarrow> fm_maps m p = Some sz) \<Longrightarrow> unmap_all sz ps m = Some (m\<lparr>fm_maps := (\<lambda>q. if q \<in> set ps then None else fm_maps m q)\<rparr>)"
proof (induction ps arbitrary: m)
  case (Cons p ps)
  let ?m = "m\<lparr>fm_maps := (fm_maps m)(p := None)\<rparr>"
  have "unmap_all sz ps ?m = Some (?m\<lparr>fm_maps := (\<lambda>q. if q \<in> set ps then None else fm_maps ?m q)\<rparr>)" using Cons by (intro Cons.IH) auto
  moreover have "(\<lambda>q. if q \<in> set ps then None else fm_maps ?m q) = (\<lambda>q. if q \<in> set (p # ps) then None else fm_maps m q)" by auto
  ultimately show ?case using Cons.prems by (simp add: munmap_def)
qed simp

lemma owned_exit:
  assumes "stacks_owned limit own m"
  shows "\<exists>m'. cache_exit t m = Some m' \<and> stacks_owned limit own m'"
proof -
  note o = ownedD [OF assms]
  let ?ps = "sc_free (fm_cache m t)"
  let ?m = "m\<lparr>fm_maps := (\<lambda>q. if q \<in> set ?ps then None else fm_maps m q), fm_cache := (fm_cache m)(t := \<lparr>sc_mapping = 0, sc_free = []\<rparr>)\<rparr>"
  have "cache_exit t m = Some ?m" using unmap_all_spec [OF o(5) [of t], of m] o(4) by (simp add: cache_exit_def)
  moreover have "stacks_owned limit own ?m"
  proof (rule ownedI)
    show "fx_base (fm_ctx ?m d) = Some q \<longleftrightarrow> fm_maps ?m q \<noteq> None \<and> own q = At_ctx d" for d q using o(1) [of d q] o(3) [of q t] by auto
    show "q \<in> set (sc_free (fm_cache ?m v)) \<longleftrightarrow> fm_maps ?m q \<noteq> None \<and> own q = At_cache v" for v q using o(3) [of q v] o(3) [of q t] by auto
    show "fx_base (fm_ctx ?m d) = Some q \<Longrightarrow> fm_maps ?m q = Some (fx_mapping (fm_ctx ?m d))" for d q using o(1) [of d q] o(2) [of d q] o(3) [of q t] by auto
    show "q \<in> set (sc_free (fm_cache ?m v)) \<Longrightarrow> fm_maps ?m q = Some (sc_mapping (fm_cache ?m v))" for v q
      using o(4) [of q v] o(3) [of q v] o(3) [of q t] by (auto split: if_splits)
  qed (use o(5,6) in simp)
  ultimately show ?thesis by blast
qed

lemma owned_destroy:
  assumes "stacks_owned limit own m"
  shows "\<exists>m' own'. ctx_destroy limit t c m = Some m' \<and> stacks_owned limit own' m'"
proof (cases "fx_base (fm_ctx m c)")
  case (Some p)
  note o = ownedD [OF assms]
  show ?thesis
  proof (cases "0 < limit \<and> (sc_mapping (fm_cache m t) = fx_mapping (fm_ctx m c) \<or> sc_free (fm_cache m t) = []) \<and> length (sc_free (fm_cache m t)) < limit")
    case True
    then show ?thesis using Some owned_cache [OF assms Some, of t] by (auto simp: ctx_destroy_def Let_def)
  next
    case False
    have eq: "ctx_destroy limit t c m = Some (m\<lparr>fm_maps := (fm_maps m)(p := None), fm_ctx := (fm_ctx m)(c := (fm_ctx m c)\<lparr>fx_base := None\<rparr>)\<rparr>)"
      unfolding ctx_destroy_def Let_def if_not_P [OF False] using Some o(2) [OF Some] by (simp add: munmap_def)
    show ?thesis using owned_unmap [OF assms Some] unfolding eq by blast
  qed
qed (use assms in \<open>auto simp: ctx_destroy_def Let_def\<close>)

lemma owned_create:
  assumes "stacks_owned limit own m" and "fx_base (fm_ctx m c) = None" and "\<And>p. mm = Some p \<Longrightarrow> fm_maps m p = None"
  shows "\<exists>b m' own'. ctx_create ps t c sz mm prot m = Some (b, m') \<and> stacks_owned limit own' m'"
proof -
  let ?k = "fm_cache m t" and ?us = "usable_size ps sz"
  show ?thesis
  proof (cases "sc_mapping ?k = ?us + ps \<and> sc_free ?k \<noteq> []")
    case True
    then have "sc_free ?k = butlast (sc_free ?k) @ [last (sc_free ?k)]" by simp
    from owned_reuse [OF assms(1) this assms(2), of ?us] show ?thesis using True by (auto simp: ctx_create_def Let_def)
  next
    case False
    show ?thesis
    proof (cases mm)
      case (Some p)
      have same: "(fm_maps m)(p := None) = fm_maps m" using assms(3) [OF Some] by auto
      show ?thesis
      proof (cases prot)
        case True
        then show ?thesis using False Some owned_map [OF assms(1) assms(3) [OF Some] assms(2)]
          by (auto simp: ctx_create_def Let_def map_stack_def)
      next
        case np: False
        then show ?thesis using False Some assms(1) same by (auto simp: ctx_create_def Let_def map_stack_def munmap_def)
      qed
    qed (use False assms(1) in \<open>auto simp: ctx_create_def Let_def map_stack_def\<close>)
  qed
qed

lemma f_reach_owned: "f_reach ps limit r \<Longrightarrow> \<exists>m own. r = Some m \<and> stacks_owned limit own m"
proof (induction rule: f_reach.induct)
  case f_start
  have "stacks_owned limit (\<lambda>_. At_cache 0) fmem_init" by (simp add: stacks_owned_def fmem_init_def)
  then show ?case by blast
next
  case (f_next m r)
  then obtain own where o: "stacks_owned limit own m" by auto
  from f_next.hyps(2) show ?case
  proof cases
    case (f_create c mm t sz prot)
    then show ?thesis using owned_create [OF o, of c mm ps t sz prot] by auto
  next
    case (f_destroy t c)
    then show ?thesis using owned_destroy [OF o, of t c] by blast
  next
    case (f_exit t)
    then show ?thesis using owned_exit [OF o, of t] by blast
  qed
qed

text \<open>C39. The stacks of fibers, for any threads that create and destroy contexts (a context may be destroyed on another thread than it was created on) and exit, with
  \<open>mmap\<close> and \<open>mprotect\<close> failing at any time: no region is ever unmapped that is not mapped with exactly the size given; every mapping belongs to exactly one context or to one place in
  one cache, with the size recorded there, so no stack is used by two fibers and none is lost; and no cache grows over its limit.\<close>

theorem fiber_stacks_safe:
  assumes "f_reach ps limit r"
  shows "\<exists>m own. r = Some m \<and> (\<forall>p. fm_maps m p \<noteq> None \<longrightarrow>
      (\<exists>!c. fx_base (fm_ctx m c) = Some p) \<and> (\<forall>t. p \<notin> set (sc_free (fm_cache m t))) \<or> (\<exists>!t. p \<in> set (sc_free (fm_cache m t))) \<and> (\<forall>c. fx_base (fm_ctx m c) \<noteq> Some p)) \<and>
    (\<forall>c p. fx_base (fm_ctx m c) = Some p \<longrightarrow> fm_maps m p = Some (fx_mapping (fm_ctx m c))) \<and>
    (\<forall>t p. p \<in> set (sc_free (fm_cache m t)) \<longrightarrow> fm_maps m p = Some (sc_mapping (fm_cache m t))) \<and>
    (\<forall>t. distinct (sc_free (fm_cache m t)) \<and> length (sc_free (fm_cache m t)) \<le> limit)"
proof -
  obtain m own where r: "r = Some m" and o: "stacks_owned limit own m" using f_reach_owned [OF assms] by blast
  note od = ownedD [OF o]
  have "(\<exists>!c. fx_base (fm_ctx m c) = Some p) \<and> (\<forall>t. p \<notin> set (sc_free (fm_cache m t))) \<or> (\<exists>!t. p \<in> set (sc_free (fm_cache m t))) \<and> (\<forall>c. fx_base (fm_ctx m c) \<noteq> Some p)"
    if "fm_maps m p \<noteq> None" for p using that od(1) [of _ p] od(3) [of p] by (cases "own p") auto
  then show ?thesis using r od(2,4,5,6) by blast
qed

text \<open>A stack created on the thread 0 is released on the thread 1 and used there again.\<close>

lemma size_example: "usable_size 4096 65536 = 65536"
  by (simp add: usable_size_def round_up_def)

theorem fiber_stacks_safe_witness:
  "\<exists>m. f_reach 4096 8 (Some m) \<and> fx_base (fm_ctx m 1) = Some 100 \<and> fm_maps m 100 = Some (fx_mapping (fm_ctx m 1))"
proof -
  define m1 where "m1 = put_stack 0 100 69632 65536 (fmem_init\<lparr>fm_maps := (fm_maps fmem_init)(100 := Some 69632)\<rparr>)"
  define m2 where "m2 = m1\<lparr>fm_cache := (fm_cache m1)(1 := \<lparr>sc_mapping = 69632, sc_free = [100]\<rparr>), fm_ctx := (fm_ctx m1)(0 := (fm_ctx m1 0)\<lparr>fx_base := None\<rparr>)\<rparr>"
  define m3 where "m3 = put_stack 1 100 69632 65536 (m2\<lparr>fm_cache := (fm_cache m2)(1 := (fm_cache m2 1)\<lparr>sc_free := []\<rparr>)\<rparr>)"
  have c1: "map_option snd (ctx_create 4096 0 0 65536 (Some 100) True fmem_init) = Some m1"
    by (simp add: ctx_create_def size_example m1_def) (auto simp: fmem_init_def map_stack_def)
  have e1: "fx_base (fm_ctx m1 0) = Some 100" "fx_mapping (fm_ctx m1 0) = 69632" "fm_cache m1 1 = \<lparr>sc_mapping = 0, sc_free = []\<rparr>" "fx_base (fm_ctx m1 1) = None"
    by (simp_all add: m1_def put_stack_def fmem_init_def)
  have c2: "ctx_destroy 8 1 0 m1 = Some m2" using e1 by (simp add: ctx_destroy_def Let_def m2_def)
  have c3: "map_option snd (ctx_create 4096 1 1 65536 None True m2) = Some m3" by (simp add: ctx_create_def size_example m3_def) (auto simp: m2_def)
  have "f_step 4096 8 fmem_init (Some m1)" unfolding c1 [symmetric] by (rule f_create) (simp_all add: fmem_init_def)
  moreover have "f_step 4096 8 m1 (Some m2)" unfolding c2 [symmetric] by (rule f_destroy)
  moreover have "f_step 4096 8 m2 (Some m3)" unfolding c3 [symmetric] using e1(4) by (intro f_create) (simp_all add: m2_def)
  ultimately have r: "f_reach 4096 8 (Some m3)" using f_start f_next by blast
  have "fx_base (fm_ctx m3 1) = Some 100" by (simp add: m3_def put_stack_def)
  then show ?thesis using fiber_stacks_safe [OF r] r by auto
qed

end
