(* ===== verification/Fiber_Run.thy ===== *)
theory Fiber_Run
  imports Uvent_Prelude
begin

text \<open>
  Fibers (\<open>fiber/Fiber.h\<close>, \<open>fiber/Fiber.cpp\<close>): a body with blocking calls runs on its own stack, hosted by a coroutine. \<open>fiber::await\<close> hands an
  awaiter to the host and switches out; the host awaits it and switches in again. A body is the tree of its awaits: what it
  does next depends on what each await gave it. Awaiters are functions of the environment, each of whose three calls may throw.
\<close>

section \<open>Awaiters and steps\<close>

text \<open>An exception (a number) or the result of \<open>await_ready\<close>, of \<open>await_suspend\<close> (whether it suspends) and of \<open>await_resume\<close>.\<close>

record awaiter =
  aw_ready :: "int + bool"
  aw_suspend :: "int + bool"
  aw_resume :: "int + int"

record fstep =
  st_aw :: nat
  st_exc :: "int option"
  st_slot :: "int option"

text \<open>What an await gives back to the body: a value, an exception, or \<open>ForcedUnwind\<close>.\<close>

datatype vresp = V_val int | V_exn int | V_unwind

definition step_new :: "nat \<Rightarrow> fstep" where
  "step_new a = \<lparr>st_aw = a, st_exc = None, st_slot = None\<rparr>"

definition step_ready :: "(nat \<Rightarrow> awaiter) \<Rightarrow> fstep \<Rightarrow> bool \<times> fstep" where
  "step_ready env s = (case aw_ready (env (st_aw s)) of Inl e \<Rightarrow> (True, s\<lparr>st_exc := Some e\<rparr>) | Inr b \<Rightarrow> (b, s))"

definition step_suspend :: "(nat \<Rightarrow> awaiter) \<Rightarrow> fstep \<Rightarrow> bool \<times> fstep" where
  "step_suspend env s = (case aw_suspend (env (st_aw s)) of Inl e \<Rightarrow> (False, s\<lparr>st_exc := Some e\<rparr>) | Inr b \<Rightarrow> (b, s))"

definition step_resume :: "(nat \<Rightarrow> awaiter) \<Rightarrow> fstep \<Rightarrow> fstep" where
  "step_resume env s = (if st_exc s \<noteq> None then s
     else (case aw_resume (env (st_aw s)) of Inl e \<Rightarrow> s\<lparr>st_exc := Some e\<rparr> | Inr v \<Rightarrow> s\<lparr>st_slot := Some v\<rparr>))"

text \<open>\<open>None\<close>: the slot is read before it was filled.\<close>

definition step_take :: "fstep \<Rightarrow> vresp option" where
  "step_take s = (case st_exc s of Some e \<Rightarrow> Some (V_exn e) | None \<Rightarrow> map_option V_val (st_slot s))"

section \<open>The fiber\<close>

datatype fbody = F_ret int | F_throw int | F_unwound | F_await nat "vresp \<Rightarrow> fbody"

text \<open>Where the context continues: at the entry, after the switch of an await, or nowhere (the body is over).\<close>

datatype fcont = C_entry fbody | C_await "vresp \<Rightarrow> fbody" | C_over

record fiber =
  fb_cont :: fcont
  fb_step :: "fstep option"
  fb_finished :: bool
  fb_unwind :: bool
  fb_result :: "int option"
  fb_exc :: "int option"
  fb_saved_current :: "nat option"
  fb_saved_base :: u64

record fthread =
  t_current :: "nat option"
  t_stack_base :: u64

definition fiber_new :: "fbody \<Rightarrow> fiber" where
  "fiber_new b = \<lparr>fb_cont = C_entry b, fb_step = None, fb_finished = False, fb_unwind = False, fb_result = None, fb_exc = None,
     fb_saved_current = None, fb_saved_base = 0\<rparr>"

text \<open>The body runs to its next switch (\<open>fiber::await\<close>) or to its end (\<open>run_body\<close> and the rest of \<open>entry\<close>). With an unwind requested an await throws at once.\<close>

primrec run_body :: "fbody \<Rightarrow> fiber \<Rightarrow> fiber" where
  "run_body (F_ret v) f = f\<lparr>fb_result := Some v, fb_finished := True, fb_cont := C_over\<rparr>"
| "run_body (F_throw e) f = f\<lparr>fb_exc := Some e, fb_finished := True, fb_cont := C_over\<rparr>"
| "run_body F_unwound f = f\<lparr>fb_finished := True, fb_cont := C_over\<rparr>"
| "run_body (F_await a k) f = (if fb_unwind f then run_body (k V_unwind) f
     else f\<lparr>fb_step := Some (step_new a), fb_cont := C_await k\<rparr>)"

text \<open>The end of \<open>fiber::await\<close>, after the host switched in again.\<close>

definition await_returns :: "fiber \<Rightarrow> vresp option" where
  "await_returns f = (if fb_unwind f then Some V_unwind else (case fb_step f of None \<Rightarrow> None | Some s \<Rightarrow> step_take s))"

text \<open>\<open>FiberBase::switch_in\<close> of the fiber \<open>me\<close> whose stack has the top \<open>stk\<close>. \<open>None\<close>: a finished context is resumed (\<open>abort\<close>) or an empty slot is read.\<close>

definition switch_in :: "nat \<Rightarrow> u64 \<Rightarrow> fiber \<Rightarrow> fthread \<Rightarrow> (fiber \<times> fthread) option" where
  "switch_in me stk f th = (let f1 = f\<lparr>fb_saved_current := t_current th, fb_saved_base := t_stack_base th\<rparr>;
       th1 = th\<lparr>t_current := Some me, t_stack_base := stk\<rparr>;
       r = (case fb_cont f1 of C_entry b \<Rightarrow> Some (run_body b f1)
          | C_await k \<Rightarrow> (case await_returns f1 of None \<Rightarrow> None | Some v \<Rightarrow> Some (run_body (k v) (f1\<lparr>fb_step := None\<rparr>)))
          | C_over \<Rightarrow> None)
     in map_option (\<lambda>f2. (f2, th1\<lparr>t_stack_base := fb_saved_base f2, t_current := fb_saved_current f2\<rparr>)) r)"

text \<open>The loop of \<open>unwind_if_suspended\<close>.\<close>

partial_function (option) unwind_loop :: "nat \<Rightarrow> u64 \<Rightarrow> fiber \<Rightarrow> fthread \<Rightarrow> (fiber \<times> fthread) option" where
  "unwind_loop me stk f th = (if fb_finished f then Some (f, th)
     else (case switch_in me stk f th of None \<Rightarrow> None | Some (f1, th1) \<Rightarrow> unwind_loop me stk f1 th1))"

definition unwind_if_suspended :: "nat \<Rightarrow> u64 \<Rightarrow> fiber \<Rightarrow> fthread \<Rightarrow> (fiber \<times> fthread) option" where
  "unwind_if_suspended me stk f th = (if fb_finished f then Some (f, th) else unwind_loop me stk (f\<lparr>fb_unwind := True\<rparr>) th)"

section \<open>The host\<close>

text \<open>The outcome of \<open>fiber::run\<close>: \<open>FiberTask::take\<close>. \<open>Out_none\<close>: a body that ended by \<open>ForcedUnwind\<close> has neither result nor exception.\<close>

datatype fout = Out_val int | Out_exn int | Out_none

definition fiber_take :: "fiber \<Rightarrow> fout" where
  "fiber_take f = (case fb_exc f of Some e \<Rightarrow> Out_exn e | None \<Rightarrow> (case fb_result f of Some v \<Rightarrow> Out_val v | None \<Rightarrow> Out_none))"

text \<open>Program points of the host coroutine: before the switch, the three calls of the awaiter, suspended, finished, destroyed.\<close>

datatype fhost = Ho_in | Ho_ready | Ho_suspend | Ho_wait | Ho_resume | Ho_done fout | Ho_gone

record fsys =
  fs_pc :: fhost
  fs_fiber :: fiber
  fs_thread :: fthread

text \<open>The host may be resumed on any worker (\<open>th\<close> is what its thread-local variables hold there).\<close>

inductive fib_step :: "(nat \<Rightarrow> awaiter) \<Rightarrow> nat \<Rightarrow> u64 \<Rightarrow> fsys \<Rightarrow> fsys option \<Rightarrow> bool" for env me stk where
  fi_switch: "fs_pc s = Ho_in \<Longrightarrow> fib_step env me stk s (map_option (\<lambda>(f, th). \<lparr>fs_pc = (if fb_finished f then Ho_done (fiber_take f) else Ho_ready),
     fs_fiber = f, fs_thread = th\<rparr>) (switch_in me stk (fs_fiber s) (fs_thread s)))"
| fi_ready: "fs_pc s = Ho_ready \<Longrightarrow> fb_step (fs_fiber s) = Some st \<Longrightarrow> step_ready env st = (b, st1) \<Longrightarrow>
    fib_step env me stk s (Some (s\<lparr>fs_pc := (if b then Ho_resume else Ho_suspend), fs_fiber := (fs_fiber s)\<lparr>fb_step := Some st1\<rparr>\<rparr>))"
| fi_suspend: "fs_pc s = Ho_suspend \<Longrightarrow> fb_step (fs_fiber s) = Some st \<Longrightarrow> step_suspend env st = (b, st1) \<Longrightarrow>
    fib_step env me stk s (Some (s\<lparr>fs_pc := (if b then Ho_wait else Ho_resume), fs_fiber := (fs_fiber s)\<lparr>fb_step := Some st1\<rparr>\<rparr>))"
| fi_wake: "fs_pc s = Ho_wait \<Longrightarrow> fib_step env me stk s (Some (s\<lparr>fs_pc := Ho_resume, fs_thread := th\<rparr>))"
| fi_resume: "fs_pc s = Ho_resume \<Longrightarrow> fb_step (fs_fiber s) = Some st \<Longrightarrow>
    fib_step env me stk s (Some (s\<lparr>fs_pc := Ho_in, fs_fiber := (fs_fiber s)\<lparr>fb_step := Some (step_resume env st)\<rparr>\<rparr>))"
| fi_destroy: "fs_pc s = Ho_wait \<Longrightarrow> fib_step env me stk s (map_option (\<lambda>(f, th1). \<lparr>fs_pc = Ho_gone, fs_fiber = f, fs_thread = th1\<rparr>)
    (unwind_if_suspended me stk (fs_fiber s) th))"

definition fsys_init :: "fbody \<Rightarrow> fthread \<Rightarrow> fsys" where
  "fsys_init b th = \<lparr>fs_pc = Ho_in, fs_fiber = fiber_new b, fs_thread = th\<rparr>"


section \<open>What a fiber computes\<close>

text \<open>What \<open>co_await\<close> gives for an awaiter, and the body evaluated directly with these answers.\<close>

definition await_outcome :: "awaiter \<Rightarrow> vresp" where
  "await_outcome w = (let r = (case aw_resume w of Inl e \<Rightarrow> V_exn e | Inr v \<Rightarrow> V_val v) in
     case aw_ready w of Inl e \<Rightarrow> V_exn e | Inr True \<Rightarrow> r | Inr False \<Rightarrow> (case aw_suspend w of Inl e \<Rightarrow> V_exn e | Inr b \<Rightarrow> r))"

primrec direct :: "(nat \<Rightarrow> awaiter) \<Rightarrow> fbody \<Rightarrow> fout" where
  "direct env (F_ret v) = Out_val v"
| "direct env (F_throw e) = Out_exn e"
| "direct env F_unwound = Out_none"
| "direct env (F_await a k) = direct env (k (await_outcome (env a)))"

definition fresh_fiber :: "fiber \<Rightarrow> bool" where
  "fresh_fiber f \<longleftrightarrow> \<not> fb_finished f \<and> \<not> fb_unwind f \<and> fb_result f = None \<and> fb_exc f = None"

text \<open>The body that the next switch into a fiber runs.\<close>

definition next_body :: "fiber \<Rightarrow> fbody option" where
  "next_body f = (case fb_cont f of C_entry b \<Rightarrow> Some b
     | C_await k \<Rightarrow> (case fb_step f of None \<Rightarrow> None | Some s \<Rightarrow> map_option k (step_take s)) | C_over \<Rightarrow> None)"

text \<open>At an await: the awaiter, and the rest of the body.\<close>

definition at_await :: "nat \<Rightarrow> (vresp \<Rightarrow> fbody) \<Rightarrow> fstep \<Rightarrow> fiber \<Rightarrow> bool" where
  "at_await a k st f \<longleftrightarrow> fresh_fiber f \<and> fb_cont f = C_await k \<and> fb_step f = Some st \<and> st_aw st = a"

lemma run_body_saved [simp]: "fb_saved_current (run_body b f) = fb_saved_current f" "fb_saved_base (run_body b f) = fb_saved_base f"
  by (induction b arbitrary: f) auto

lemma run_body_unwinds: "fb_unwind f \<Longrightarrow> fb_finished (run_body b f)"
  by (induction b arbitrary: f) auto

lemma run_body_cases:
  assumes "fresh_fiber f"
  shows "(\<exists>a k. b = F_await a k \<and> at_await a k (step_new a) (run_body b f)) \<or>
    (\<forall>a k. b \<noteq> F_await a k) \<and> fb_finished (run_body b f) \<and> fiber_take (run_body b f) = direct env b"
  using assms by (cases b) (simp_all add: fresh_fiber_def at_await_def step_new_def fiber_take_def)

lemma switch_in_restores: "switch_in me stk f th = Some (f1, th1) \<Longrightarrow> th1 = th"
  by (auto simp: switch_in_def Let_def split: fcont.splits option.splits)

lemma switch_in_runs:
  assumes "fresh_fiber f" and "next_body f = Some b"
  shows "\<exists>f1. fresh_fiber f1 \<and> switch_in me stk f th = Some (run_body b f1, th)"
proof -
  let ?f = "f\<lparr>fb_saved_current := t_current th, fb_saved_base := t_stack_base th\<rparr>"
  have fr: "fresh_fiber ?f" "fresh_fiber (?f\<lparr>fb_step := None\<rparr>)" using assms(1) by (simp_all add: fresh_fiber_def)
  show ?thesis
  proof (cases "fb_cont f")
    case (C_entry b')
    then show ?thesis using assms fr(1) by (intro exI [of _ ?f]) (simp add: switch_in_def next_body_def)
  next
    case (C_await k)
    then show ?thesis using assms fr(2) by (intro exI [of _ "?f\<lparr>fb_step := None\<rparr>"])
      (auto simp: switch_in_def next_body_def await_returns_def fresh_fiber_def split: option.splits)
  next
    case C_over
    then show ?thesis using assms(2) by (simp add: next_body_def)
  qed
qed

text \<open>Unwinding takes one switch.\<close>

lemma unwind_one_switch:
  assumes "at_await a k st f"
  shows "\<exists>f1. unwind_if_suspended me stk f th = Some (f1, th) \<and> fb_finished f1 \<and> switch_in me stk (f\<lparr>fb_unwind := True\<rparr>) th = Some (f1, th)"
proof -
  let ?g = "(f\<lparr>fb_unwind := True, fb_saved_current := t_current th, fb_saved_base := t_stack_base th, fb_step := None\<rparr>)"
  have sw: "switch_in me stk (f\<lparr>fb_unwind := True\<rparr>) th = Some (run_body (k V_unwind) ?g, th)"
    using assms by (simp add: switch_in_def at_await_def await_returns_def)
  have fin: "fb_finished (run_body (k V_unwind) ?g)" by (rule run_body_unwinds) simp
  have "unwind_loop me stk (f\<lparr>fb_unwind := True\<rparr>) th = Some (run_body (k V_unwind) ?g, th)"
    using assms sw fin by (simp add: unwind_loop.simps [of me stk "f\<lparr>fb_unwind := True\<rparr>"] unwind_loop.simps [of me stk "run_body (k V_unwind) ?g"] at_await_def fresh_fiber_def)
  then show ?thesis using assms sw fin by (simp add: unwind_if_suspended_def at_await_def fresh_fiber_def)
qed


fun host_inv :: "(nat \<Rightarrow> awaiter) \<Rightarrow> fout \<Rightarrow> fhost \<Rightarrow> fiber \<Rightarrow> bool" where
  "host_inv env d Ho_in f \<longleftrightarrow> fresh_fiber f \<and> (\<exists>b. next_body f = Some b \<and> direct env b = d)"
| "host_inv env d Ho_ready f \<longleftrightarrow> (\<exists>a k. at_await a k (step_new a) f \<and> direct env (k (await_outcome (env a))) = d)"
| "host_inv env d Ho_suspend f \<longleftrightarrow> (\<exists>a k. at_await a k (step_new a) f \<and> direct env (k (await_outcome (env a))) = d \<and> aw_ready (env a) = Inr False)"
| "host_inv env d Ho_wait f \<longleftrightarrow> (\<exists>a k. at_await a k (step_new a) f \<and> direct env (k (await_outcome (env a))) = d \<and> aw_ready (env a) = Inr False \<and> aw_suspend (env a) = Inr True)"
| "host_inv env d Ho_resume f \<longleftrightarrow> (\<exists>a k st v. at_await a k st f \<and> step_take (step_resume env st) = Some v \<and> direct env (k v) = d)"
| "host_inv env d (Ho_done x) f \<longleftrightarrow> x = d \<and> fb_finished f"
| "host_inv env d Ho_gone f \<longleftrightarrow> fb_finished f"

lemma at_await_step: "at_await a k st f \<Longrightarrow> st_aw st1 = a \<Longrightarrow> at_await a k st1 (f\<lparr>fb_step := Some st1\<rparr>)"
  by (simp add: at_await_def fresh_fiber_def)

lemma step_takes:
  "st_exc st = Some e \<Longrightarrow> step_take (step_resume env st) = Some (V_exn e)"
  "st_exc st = None \<Longrightarrow> step_take (step_resume env st) = Some (case aw_resume (env (st_aw st)) of Inl e \<Rightarrow> V_exn e | Inr v \<Rightarrow> V_val v)"
  by (simp_all add: step_resume_def step_take_def split: sum.split)

lemma step_new_simps [simp]: "st_aw (step_new a) = a" "st_exc (step_new a) = None"
  by (simp_all add: step_new_def)

lemma outcomes:
  "aw_ready w = Inl e \<Longrightarrow> await_outcome w = V_exn e"
  "aw_ready w = Inr True \<Longrightarrow> await_outcome w = (case aw_resume w of Inl e \<Rightarrow> V_exn e | Inr v \<Rightarrow> V_val v)"
  "aw_ready w = Inr False \<Longrightarrow> aw_suspend w = Inl e \<Longrightarrow> await_outcome w = V_exn e"
  "aw_ready w = Inr False \<Longrightarrow> aw_suspend w = Inr b \<Longrightarrow> await_outcome w = (case aw_resume w of Inl e \<Rightarrow> V_exn e | Inr v \<Rightarrow> V_val v)"
  by (simp_all add: await_outcome_def Let_def)

lemma host_step:
  assumes "fib_step env me stk s r" and "host_inv env d (fs_pc s) (fs_fiber s)"
  shows "\<exists>s'. r = Some s' \<and> host_inv env d (fs_pc s') (fs_fiber s')"
  using assms
proof (induction rule: fib_step.induct)
  case (fi_switch s)
  then obtain b where b: "fresh_fiber (fs_fiber s)" "next_body (fs_fiber s) = Some b" "direct env b = d" by auto
  obtain f1 where f1: "fresh_fiber f1" "switch_in me stk (fs_fiber s) (fs_thread s) = Some (run_body b f1, fs_thread s)"
    using switch_in_runs [OF b(1,2)] by blast
  from run_body_cases [OF f1(1), of b env] show ?case
  proof
    assume "\<exists>a k. b = F_await a k \<and> at_await a k (step_new a) (run_body b f1)"
    then obtain a k where ak: "b = F_await a k" "at_await a k (step_new a) (run_body b f1)" by blast
    have "\<not> fb_finished (run_body b f1)" using ak(2) by (simp add: at_await_def fresh_fiber_def)
    moreover have "direct env (k (await_outcome (env a))) = d" using b(3) ak(1) by simp
    ultimately show ?thesis using f1(2) ak(2) by (simp del: run_body.simps) blast
  next
    assume "(\<forall>a k. b \<noteq> F_await a k) \<and> fb_finished (run_body b f1) \<and> fiber_take (run_body b f1) = direct env b"
    then show ?thesis using f1(2) b(3) by simp
  qed
next
  case (fi_ready s st b st1)
  then obtain a k where ak: "at_await a k (step_new a) (fs_fiber s)" "direct env (k (await_outcome (env a))) = d" by auto
  have st: "st = step_new a" using ak(1) fi_ready.hyps(2) by (simp add: at_await_def)
  show ?case
  proof (cases "aw_ready (env a)")
    case (Inl e)
    then have "b" "st1 = (step_new a)\<lparr>st_exc := Some e\<rparr>" using fi_ready.hyps(3) st by (auto simp: step_ready_def)
    then show ?thesis using at_await_step [OF ak(1), of st1] step_takes(1) [of st1 e env] ak(2) Inl by (auto simp: await_outcome_def)
  next
    case (Inr c)
    then have "b = c" "st1 = step_new a" using fi_ready.hyps(3) st by (auto simp: step_ready_def)
    then show ?thesis using at_await_step [OF ak(1), of st1] step_takes(2) [of st1 env] ak(2) Inr outcomes(2) [of "env a"]
      by (cases c) auto
  qed
next
  case (fi_suspend s st b st1)
  then obtain a k where ak: "at_await a k (step_new a) (fs_fiber s)" "direct env (k (await_outcome (env a))) = d" "aw_ready (env a) = Inr False" by auto
  have st: "st = step_new a" using ak(1) fi_suspend.hyps(2) by (simp add: at_await_def)
  show ?case
  proof (cases "aw_suspend (env a)")
    case (Inl e)
    then have "\<not> b" "st1 = (step_new a)\<lparr>st_exc := Some e\<rparr>" using fi_suspend.hyps(3) st by (auto simp: step_suspend_def)
    then show ?thesis using at_await_step [OF ak(1), of st1] step_takes(1) [of st1 e env] ak(2,3) Inl by (auto simp: await_outcome_def Let_def)
  next
    case (Inr c)
    then have b: "b = c" "st1 = step_new a" using fi_suspend.hyps(3) st by (auto simp: step_suspend_def)
    have at: "at_await a k (step_new a) ((fs_fiber s)\<lparr>fb_step := Some (step_new a)\<rparr>)" using at_await_step [OF ak(1), of "step_new a"] by simp
    show ?thesis
    proof (cases c)
      case True
      then have "host_inv env d Ho_wait ((fs_fiber s)\<lparr>fb_step := Some (step_new a)\<rparr>)"
        unfolding host_inv.simps using at ak(2,3) Inr by (intro exI [of _ a] exI [of _ k]) simp
      then show ?thesis using b True by simp
    next
      case False
      then show ?thesis using b at step_takes(2) [of "step_new a" env] ak(2) outcomes(4) [OF ak(3) Inr] by auto
    qed
  qed
next
  case (fi_wake s th)
  then obtain a k where "at_await a k (step_new a) (fs_fiber s)" "direct env (k (await_outcome (env a))) = d" "aw_ready (env a) = Inr False" "aw_suspend (env a) = Inr True" by auto
  then show ?case using step_takes(2) [of "step_new a" env] outcomes(4) [of "env a"] by auto
next
  case (fi_resume s st)
  then obtain a k v where "at_await a k st (fs_fiber s)" "step_take (step_resume env st) = Some v" "direct env (k v) = d" by (auto simp: at_await_def)
  then show ?case by (auto simp: at_await_def fresh_fiber_def next_body_def)
next
  case (fi_destroy s th)
  then obtain a k where "at_await a k (step_new a) (fs_fiber s)" by auto
  from unwind_one_switch [OF this, of me stk th] show ?case by auto
qed

inductive fib_reach :: "(nat \<Rightarrow> awaiter) \<Rightarrow> nat \<Rightarrow> u64 \<Rightarrow> fbody \<Rightarrow> fsys option \<Rightarrow> bool" for env me stk b where
  fr_start: "fib_reach env me stk b (Some (fsys_init b th))"
| fr_next: "fib_reach env me stk b (Some s) \<Longrightarrow> fib_step env me stk s r \<Longrightarrow> fib_reach env me stk b r"

lemma fib_reach_inv: "fib_reach env me stk b r \<Longrightarrow> \<exists>s. r = Some s \<and> host_inv env (direct env b) (fs_pc s) (fs_fiber s)"
proof (induction rule: fib_reach.induct)
  case (fr_start th)
  then show ?case by (simp add: fsys_init_def fresh_fiber_def fiber_new_def next_body_def)
qed (use host_step in blast)


section \<open>The host returns\<close>

abbreviation fib_path :: "(nat \<Rightarrow> awaiter) \<Rightarrow> nat \<Rightarrow> u64 \<Rightarrow> fsys \<Rightarrow> fsys \<Rightarrow> bool" where
  "fib_path env me stk \<equiv> (\<lambda>s s'. fib_step env me stk s (Some s'))\<^sup>*\<^sup>*"

definition finishes :: "(nat \<Rightarrow> awaiter) \<Rightarrow> nat \<Rightarrow> u64 \<Rightarrow> fsys \<Rightarrow> bool" where
  "finishes env me stk s \<longleftrightarrow> (\<exists>s' x. fib_path env me stk s s' \<and> fs_pc s' = Ho_done x)"

lemma finishes_step: "fib_step env me stk s (Some s') \<Longrightarrow> finishes env me stk s' \<Longrightarrow> finishes env me stk s"
  unfolding finishes_def by (meson converse_rtranclp_into_rtranclp)

text \<open>From the resumption of an awaiter, and from the await itself.\<close>

lemma finishes_resume:
  assumes "fs_pc s = Ho_resume" and "at_await a k st (fs_fiber s)"
    and "\<And>s v. fs_pc s = Ho_in \<Longrightarrow> fresh_fiber (fs_fiber s) \<Longrightarrow> next_body (fs_fiber s) = Some (k v) \<Longrightarrow> finishes env me stk s"
  shows "finishes env me stk s"
proof -
  have st: "fb_step (fs_fiber s) = Some st" using assms(2) by (simp add: at_await_def)
  obtain v where v: "step_take (step_resume env st) = Some v" using step_takes by (cases "st_exc st") blast+
  let ?s = "s\<lparr>fs_pc := Ho_in, fs_fiber := (fs_fiber s)\<lparr>fb_step := Some (step_resume env st)\<rparr>\<rparr>"
  have "finishes env me stk ?s" by (rule assms(3) [of _ v]) (use assms(2) v in \<open>simp_all add: at_await_def fresh_fiber_def next_body_def\<close>)
  then show ?thesis by (rule finishes_step [OF fi_resume [OF assms(1) st]])
qed

lemma finishes_await:
  assumes "fs_pc s = Ho_ready" and "at_await a k (step_new a) (fs_fiber s)"
    and in_k: "\<And>s v. fs_pc s = Ho_in \<Longrightarrow> fresh_fiber (fs_fiber s) \<Longrightarrow> next_body (fs_fiber s) = Some (k v) \<Longrightarrow> finishes env me stk s"
  shows "finishes env me stk s"
proof -
  have st: "fb_step (fs_fiber s) = Some (step_new a)" using assms(2) by (simp add: at_await_def)
  obtain b st1 where r: "step_ready env (step_new a) = (b, st1)" by (cases "step_ready env (step_new a)")
  have st1: "st_aw st1 = a" "b \<or> st1 = step_new a" "st_slot st1 = None" using r by (auto simp: step_ready_def step_new_def split: sum.splits)
  let ?s = "s\<lparr>fs_pc := (if b then Ho_resume else Ho_suspend), fs_fiber := (fs_fiber s)\<lparr>fb_step := Some st1\<rparr>\<rparr>"
  have at1: "at_await a k st1 (fs_fiber ?s)" using at_await_step [OF assms(2) st1(1)] by simp
  have "finishes env me stk ?s"
  proof (cases b)
    case True
    then show ?thesis using at1 by (intro finishes_resume [of ?s a k st1]) (auto intro: in_k)
  next
    case False
    obtain c st2 where u: "step_suspend env st1 = (c, st2)" by (cases "step_suspend env st1")
    have st2: "st_aw st2 = a" "st_slot st2 = None" using u st1 False by (auto simp: step_suspend_def split: sum.splits)
    let ?t = "?s\<lparr>fs_pc := (if c then Ho_wait else Ho_resume), fs_fiber := (fs_fiber ?s)\<lparr>fb_step := Some st2\<rparr>\<rparr>"
    have at2: "at_await a k st2 (fs_fiber ?t)" using at_await_step [OF at1 st2(1)] by simp
    have res: "finishes env me stk x" if "fs_pc x = Ho_resume" "fs_fiber x = fs_fiber ?t" for x
      using finishes_resume [of x a k st2, OF that(1)] at2 that(2) in_k by auto
    have "finishes env me stk ?t"
    proof (cases c)
      case True
      have "fib_step env me stk ?t (Some (?t\<lparr>fs_pc := Ho_resume, fs_thread := fs_thread ?t\<rparr>))" using True by (intro fi_wake) simp
      then show ?thesis by (rule finishes_step) (rule res; simp)
    qed (use res in simp)
    moreover have "fib_step env me stk ?s (Some ?t)" using False u by (intro fi_suspend) simp_all
    ultimately show ?thesis by (rule finishes_step [rotated])
  qed
  then show ?thesis by (rule finishes_step [OF fi_ready [OF assms(1) st r]])
qed

lemma finishes_now:
  assumes "fs_pc s = Ho_in" and "switch_in me stk (fs_fiber s) (fs_thread s) = Some (f, th)" and "fb_finished f"
  shows "finishes env me stk s"
proof -
  have "fib_step env me stk s (Some \<lparr>fs_pc = Ho_done (fiber_take f), fs_fiber = f, fs_thread = th\<rparr>)"
    using fi_switch [OF assms(1), of env me stk] assms(2,3) by simp
  then show ?thesis unfolding finishes_def by (metis fsys.select_convs(1) r_into_rtranclp)
qed

lemma finishes_in:
  "fs_pc s = Ho_in \<Longrightarrow> fresh_fiber (fs_fiber s) \<Longrightarrow> next_body (fs_fiber s) = Some b \<Longrightarrow> finishes env me stk s"
proof (induction b arbitrary: s)
  case (F_await a k)
  obtain f1 where f1: "fresh_fiber f1" "switch_in me stk (fs_fiber s) (fs_thread s) = Some (run_body (F_await a k) f1, fs_thread s)"
    using switch_in_runs [OF F_await.prems(2,3)] by blast
  have at: "at_await a k (step_new a) (run_body (F_await a k) f1)" using run_body_cases [OF f1(1), of "F_await a k" env] by auto
  then have nf: "\<not> fb_finished (run_body (F_await a k) f1)" by (simp add: at_await_def fresh_fiber_def)
  let ?s = "\<lparr>fs_pc = Ho_ready, fs_fiber = run_body (F_await a k) f1, fs_thread = fs_thread s\<rparr>"
  have "fib_step env me stk s (Some ?s)" using fi_switch [OF F_await.prems(1), of env me stk] f1(2) nf by (simp del: run_body.simps)
  moreover have "finishes env me stk ?s" by (rule finishes_await [of ?s a k]) (use at F_await.IH [OF rangeI] in \<open>simp_all del: run_body.simps\<close>)
  ultimately show ?case by (rule finishes_step)
next
  case (F_ret v)
  then show ?case using switch_in_runs [OF F_ret.prems(2,3)] finishes_now [OF F_ret.prems(1)] by force
next
  case (F_throw e)
  then show ?case using switch_in_runs [OF F_throw.prems(2,3)] finishes_now [OF F_throw.prems(1)] by force
next
  case F_unwound
  then show ?case using switch_in_runs [OF F_unwound.prems(2,3)] finishes_now [OF F_unwound.prems(1)] by force
qed


lemma finishes_any:
  assumes "host_inv env d (fs_pc s) (fs_fiber s)" and "fs_pc s \<noteq> Ho_gone"
  shows "finishes env me stk s"
proof -
  have resume: "finishes env me stk x" if "fs_pc x = Ho_resume" "at_await a k st (fs_fiber x)" for x a k st
    using finishes_resume [OF that] finishes_in by blast
  have wait: "finishes env me stk x" if "fs_pc x = Ho_wait" "at_await a k st (fs_fiber x)" for x a k st
    by (rule finishes_step [OF fi_wake [OF that(1)]]) (rule resume, use that(2) in simp_all)
  show ?thesis
  proof (cases "fs_pc s")
    case Ho_suspend
    then obtain a k where ak: "at_await a k (step_new a) (fs_fiber s)" using assms(1) by auto
    then have st: "fb_step (fs_fiber s) = Some (step_new a)" by (simp add: at_await_def)
    obtain b st1 where u: "step_suspend env (step_new a) = (b, st1)" by (cases "step_suspend env (step_new a)")
    then have "st_aw st1 = a" by (auto simp: step_suspend_def split: sum.splits)
    from at_await_step [OF ak this] show ?thesis
      by (intro finishes_step [OF fi_suspend [OF Ho_suspend st u]]) (cases b; auto intro: wait resume)
  qed (use assms finishes_in finishes_await resume wait in \<open>auto simp: finishes_def\<close>)
qed

text \<open>C38. Fibers compute what the same code would compute with \<open>co_await\<close>: in every run of the host coroutine, resumed on any workers, a fiber that finishes has exactly the
  result or exception of its body evaluated directly with the outcomes of its awaits (each call of an awaiter may throw); no finished context is resumed and no empty slot
  is read; the host can always be driven to its end; a fiber whose host is destroyed while it waits is unwound to its end; and each switch restores
  the current fiber and the stack base of the thread.\<close>

theorem fiber_run_equals_direct:
  assumes "fib_reach env me stk b r"
  shows "\<exists>s. r = Some s \<and> (\<forall>x. fs_pc s = Ho_done x \<longrightarrow> x = direct env b \<and> fb_finished (fs_fiber s)) \<and>
    (fs_pc s = Ho_gone \<longrightarrow> fb_finished (fs_fiber s)) \<and> (fs_pc s \<noteq> Ho_gone \<longrightarrow> finishes env me stk s) \<and>
    (\<forall>f th f1 th1. switch_in me stk f th = Some (f1, th1) \<longrightarrow> th1 = th)"
proof -
  obtain s where s: "r = Some s" "host_inv env (direct env b) (fs_pc s) (fs_fiber s)" using fib_reach_inv [OF assms] by blast
  then have "\<forall>x. fs_pc s = Ho_done x \<longrightarrow> x = direct env b \<and> fb_finished (fs_fiber s)" "fs_pc s = Ho_gone \<longrightarrow> fb_finished (fs_fiber s)" by auto
  then show ?thesis using s finishes_any [OF s(2)] switch_in_restores by blast
qed

text \<open>A body that awaits twice and adds the results; the second awaiter throws.\<close>

definition ex_env :: "nat \<Rightarrow> awaiter" where
  "ex_env a = (if a = 0 then \<lparr>aw_ready = Inr False, aw_suspend = Inr True, aw_resume = Inr 7\<rparr> else \<lparr>aw_ready = Inr True, aw_suspend = Inr True, aw_resume = Inl 5\<rparr>)"

definition ex_body :: fbody where
  "ex_body = F_await 0 (\<lambda>v. case v of V_val x \<Rightarrow> F_await 1 (\<lambda>w. case w of V_val y \<Rightarrow> F_ret (x + y) | V_exn e \<Rightarrow> F_ret (x - e) | V_unwind \<Rightarrow> F_unwound) | _ \<Rightarrow> F_unwound)"

theorem fiber_run_equals_direct_witness:
  "finishes ex_env 1 4096 (fsys_init ex_body \<lparr>t_current = None, t_stack_base = 0\<rparr>) \<and> direct ex_env ex_body = Out_val 2"
proof -
  have "fib_reach ex_env 1 4096 ex_body (Some (fsys_init ex_body \<lparr>t_current = None, t_stack_base = 0\<rparr>))" by (rule fr_start)
  from fiber_run_equals_direct [OF this] show ?thesis
    by (simp add: fsys_init_def) (simp add: ex_body_def ex_env_def await_outcome_def)
qed

end
