(* ===== verification/Resolver_Pool.thy ===== *)
theory Resolver_Pool
  imports Uvent_Prelude
begin

text \<open>
  Name resolution (\<open>net/Resolver.h\<close>, \<open>net/Resolver.cpp\<close>): a coroutine first tries a numeric address; otherwise its request goes into a queue from which a pool of
  threads takes it, calls \<open>getaddrinfo\<close> and hands the coroutine back to its worker. \<open>getaddrinfo\<close> is a parameter (a return code and a list). The
  steps are the critical sections of the mutex, the notifications of the condition variable (with spurious wake-ups), and the calls outside the mutex.
\<close>

section \<open>Requests\<close>

type_synonym gai = "string option \<Rightarrow> string option \<Rightarrow> bool \<Rightarrow> nat \<Rightarrow> int \<times> nat"

record rreq =
  rq_host :: string
  rq_service :: string
  rq_hints :: nat
  rq_result :: "nat option"
  rq_rc :: int
  rq_waiter :: nat
  rq_tid :: int

definition resolve_awaiter :: "string \<Rightarrow> string \<Rightarrow> nat \<Rightarrow> rreq" where
  "resolve_awaiter host service hints = \<lparr>rq_host = host, rq_service = service, rq_hints = hints, rq_result = None, rq_rc = 0, rq_waiter = 0, rq_tid = 0\<rparr>"

definition opt_name :: "string \<Rightarrow> string option" where
  "opt_name s = (if s = [] then None else Some s)"

text \<open>\<open>await_ready\<close>: the probe with \<open>AI_NUMERICHOST\<close> (the flag).\<close>

definition resolve_ready :: "gai \<Rightarrow> rreq \<Rightarrow> bool \<times> rreq" where
  "resolve_ready gai r = (case gai (opt_name (rq_host r)) (opt_name (rq_service r)) True (rq_hints r) of (rc, res) \<Rightarrow>
     if rc = 0 then (True, r\<lparr>rq_result := Some res, rq_rc := 0\<rparr>) else (False, r\<lparr>rq_result := None\<rparr>))"

definition resolve_suspend :: "nat \<Rightarrow> int \<Rightarrow> rreq \<Rightarrow> rreq" where
  "resolve_suspend h tid r = r\<lparr>rq_waiter := h, rq_tid := tid\<rparr>"

text \<open>The call of a thread of the pool.\<close>

definition resolve_call :: "gai \<Rightarrow> rreq \<Rightarrow> rreq" where
  "resolve_call gai r = (case gai (opt_name (rq_host r)) (opt_name (rq_service r)) False (rq_hints r) of (rc, res) \<Rightarrow>
     r\<lparr>rq_rc := rc, rq_result := (if rc \<noteq> 0 then None else Some res)\<rparr>)"

definition resolve_resume :: "rreq \<Rightarrow> int + nat option" where
  "resolve_resume r = (if rq_rc r \<noteq> 0 then Inl (rq_rc r) else Inr (rq_result r))"

section \<open>The pool\<close>

datatype rvpc = W_check | W_wait | W_busy nat | W_post nat | W_exit

text \<open>Where a request is (ghost).\<close>

datatype rloc = L_new | L_queue | L_worker nat | L_ready | L_done

record rvsys =
  rs_queue :: "nat list"
  rs_stop :: bool
  rs_w :: "nat \<Rightarrow> rvpc"
  rs_req :: "nat \<Rightarrow> rreq"
  rs_ready :: "nat list"
  rs_notify :: nat
  rs_notify_all :: bool
  rs_loc :: "nat \<Rightarrow> rloc"

definition workers_of :: "int \<Rightarrow> nat" where
  "workers_of resolver_threads = nat (if resolver_threads < 1 then 1 else resolver_threads)"

definition rvsys_init :: "(nat \<Rightarrow> rreq) \<Rightarrow> rvsys" where
  "rvsys_init reqs = \<lparr>rs_queue = [], rs_stop = False, rs_w = (\<lambda>_. W_check), rs_req = reqs, rs_ready = [], rs_notify = 0, rs_notify_all = False, rs_loc = (\<lambda>_. L_new)\<rparr>"

definition set_worker :: "nat \<Rightarrow> rvpc \<Rightarrow> rvsys \<Rightarrow> rvsys" where
  "set_worker w l x = x\<lparr>rs_w := (rs_w x)(w := l)\<rparr>"

text \<open>\<open>Resolver::submit\<close> (the critical section; the notification follows as a step of its own).\<close>

definition resolver_submit :: "nat \<Rightarrow> rreq \<Rightarrow> rvsys \<Rightarrow> rvsys" where
  "resolver_submit c r x = x\<lparr>rs_req := (rs_req x)(c := r), rs_queue := rs_queue x @ [c], rs_notify := rs_notify x + 1, rs_loc := (rs_loc x)(c := L_queue)\<rparr>"

text \<open>The critical section of \<open>workerLoop\<close>.\<close>

definition worker_check :: "nat \<Rightarrow> rvsys \<Rightarrow> rvsys" where
  "worker_check w x = (if \<not> (rs_stop x \<or> rs_queue x \<noteq> []) then set_worker w W_wait x
     else if rs_stop x \<and> rs_queue x = [] then set_worker w W_exit x
     else let c = hd (rs_queue x) in set_worker w (W_busy c) (x\<lparr>rs_queue := tl (rs_queue x), rs_loc := (rs_loc x)(c := L_worker w)\<rparr>))"

inductive r_step :: "gai \<Rightarrow> nat \<Rightarrow> rvsys \<Rightarrow> rvsys \<Rightarrow> bool" for gai n where
  r_numeric: "rs_loc x c = L_new \<Longrightarrow> resolve_ready gai (rs_req x c) = (True, r) \<Longrightarrow>
    r_step gai n x (x\<lparr>rs_req := (rs_req x)(c := r), rs_loc := (rs_loc x)(c := L_done)\<rparr>)"
| r_submit: "rs_loc x c = L_new \<Longrightarrow> resolve_ready gai (rs_req x c) = (False, r) \<Longrightarrow> r_step gai n x (resolver_submit c (resolve_suspend h tid r) x)"
| r_notify: "0 < rs_notify x \<Longrightarrow> w < n \<Longrightarrow> rs_w x w = W_wait \<Longrightarrow> r_step gai n x (set_worker w W_check (x\<lparr>rs_notify := rs_notify x - 1\<rparr>))"
| r_notify_none: "0 < rs_notify x \<Longrightarrow> (\<And>w. w < n \<Longrightarrow> rs_w x w \<noteq> W_wait) \<Longrightarrow> r_step gai n x (x\<lparr>rs_notify := rs_notify x - 1\<rparr>)"
| r_spurious: "w < n \<Longrightarrow> rs_w x w = W_wait \<Longrightarrow> r_step gai n x (set_worker w W_check x)"
| r_check: "w < n \<Longrightarrow> rs_w x w = W_check \<Longrightarrow> r_step gai n x (worker_check w x)"
| r_call: "w < n \<Longrightarrow> rs_w x w = W_busy c \<Longrightarrow> r_step gai n x (set_worker w (W_post c) (x\<lparr>rs_req := (rs_req x)(c := resolve_call gai (rs_req x c))\<rparr>))"
| r_post: "w < n \<Longrightarrow> rs_w x w = W_post c \<Longrightarrow>
    r_step gai n x (set_worker w W_check (x\<lparr>rs_ready := rs_ready x @ [c], rs_loc := (rs_loc x)(c := L_ready)\<rparr>))"
| r_resume: "c \<in> set (rs_ready x) \<Longrightarrow> r_step gai n x (x\<lparr>rs_ready := removeAll c (rs_ready x), rs_loc := (rs_loc x)(c := L_done)\<rparr>)"
| r_stop: "r_step gai n x (x\<lparr>rs_stop := True, rs_notify_all := True\<rparr>)"
| r_notify_all: "rs_notify_all x \<Longrightarrow> r_step gai n x (x\<lparr>rs_notify_all := False, rs_w := (\<lambda>w. if rs_w x w = W_wait then W_check else rs_w x w)\<rparr>)"

section \<open>The invariant\<close>

definition requests_placed :: "nat \<Rightarrow> rvsys \<Rightarrow> bool" where
  "requests_placed n x \<longleftrightarrow> distinct (rs_queue x) \<and> distinct (rs_ready x) \<and> (\<forall>c. c \<in> set (rs_queue x) \<longleftrightarrow> rs_loc x c = L_queue) \<and>
     (\<forall>c. c \<in> set (rs_ready x) \<longleftrightarrow> rs_loc x c = L_ready) \<and> (\<forall>w c. w < n \<and> (rs_w x w = W_busy c \<or> rs_w x w = W_post c) \<longleftrightarrow> rs_loc x c = L_worker w)"

text \<open>The result of a request that a thread handled, or that was numeric.\<close>

definition answer :: "gai \<Rightarrow> rreq \<Rightarrow> int + nat option" where
  "answer gai r = (case gai (opt_name (rq_host r)) (opt_name (rq_service r)) True (rq_hints r) of (rc, res) \<Rightarrow>
     if rc = 0 then Inr (Some res)
     else (case gai (opt_name (rq_host r)) (opt_name (rq_service r)) False (rq_hints r) of (rc, res) \<Rightarrow> if rc = 0 then Inr (Some res) else Inl rc))"

definition same_question :: "rreq \<Rightarrow> rreq \<Rightarrow> bool" where
  "same_question r r0 \<longleftrightarrow> rq_host r = rq_host r0 \<and> rq_service r = rq_service r0 \<and> rq_hints r = rq_hints r0"

definition not_numeric :: "gai \<Rightarrow> rreq \<Rightarrow> bool" where
  "not_numeric gai r \<longleftrightarrow> fst (gai (opt_name (rq_host r)) (opt_name (rq_service r)) True (rq_hints r)) \<noteq> 0"

definition request_ok :: "gai \<Rightarrow> (nat \<Rightarrow> rvpc) \<Rightarrow> rreq \<Rightarrow> rreq \<Rightarrow> rloc \<Rightarrow> nat \<Rightarrow> bool" where
  "request_ok gai ws r0 r l c \<longleftrightarrow> same_question r r0 \<and> (l \<noteq> L_new \<and> l \<noteq> L_done \<longrightarrow> not_numeric gai r0) \<and>
     (l = L_ready \<or> l = L_done \<or> (\<exists>w. l = L_worker w \<and> ws w = W_post c) \<longrightarrow> resolve_resume r = answer gai r0)"

definition someone_awake :: "nat \<Rightarrow> rvsys \<Rightarrow> bool" where
  "someone_awake n x \<longleftrightarrow> rs_stop x \<or> rs_queue x = [] \<or> 0 < rs_notify x \<or> (\<exists>w<n. rs_w x w \<noteq> W_wait)"

text \<open>After the destructor set \<open>stop_\<close>, a sleeping thread still has the broadcast coming.\<close>

definition stop_wakes :: "nat \<Rightarrow> rvsys \<Rightarrow> bool" where
  "stop_wakes n x \<longleftrightarrow> (rs_stop x \<and> (\<exists>w<n. rs_w x w = W_wait) \<longrightarrow> rs_notify_all x)"

definition r_inv :: "gai \<Rightarrow> nat \<Rightarrow> (nat \<Rightarrow> rreq) \<Rightarrow> rvsys \<Rightarrow> bool" where
  "r_inv gai n reqs x \<longleftrightarrow> requests_placed n x \<and> (\<forall>c. request_ok gai (rs_w x) (reqs c) (rs_req x c) (rs_loc x c) c) \<and> someone_awake n x \<and>
     (\<forall>w<n. rs_w x w = W_exit \<longrightarrow> rs_stop x) \<and> stop_wakes n x"

lemma r_placedD:
  assumes "requests_placed n x"
  shows "distinct (rs_queue x)" "distinct (rs_ready x)" "c \<in> set (rs_queue x) \<longleftrightarrow> rs_loc x c = L_queue" "c \<in> set (rs_ready x) \<longleftrightarrow> rs_loc x c = L_ready"
    "w < n \<and> (rs_w x w = W_busy c \<or> rs_w x w = W_post c) \<longleftrightarrow> rs_loc x c = L_worker w"
  using assms unfolding requests_placed_def by blast+

lemma r_placedI:
  assumes "distinct (rs_queue x)" "distinct (rs_ready x)" "\<And>c. c \<in> set (rs_queue x) \<longleftrightarrow> rs_loc x c = L_queue" "\<And>c. c \<in> set (rs_ready x) \<longleftrightarrow> rs_loc x c = L_ready"
    "\<And>w c. w < n \<and> (rs_w x w = W_busy c \<or> rs_w x w = W_post c) \<longleftrightarrow> rs_loc x c = L_worker w"
  shows "requests_placed n x"
  using assms unfolding requests_placed_def by blast

text \<open>A step that only moves an idle thread.\<close>

lemma placed_idle:
  assumes "requests_placed n x" and "rs_queue y = rs_queue x" "rs_ready y = rs_ready x" "rs_loc y = rs_loc x"
    and "\<And>w c. w < n \<Longrightarrow> rs_w y w = W_busy c \<or> rs_w y w = W_post c \<longleftrightarrow> rs_w x w = W_busy c \<or> rs_w x w = W_post c"
  shows "requests_placed n y"
proof (rule r_placedI)
  note pl = r_placedD [OF assms(1)]
  show "w < n \<and> (rs_w y w = W_busy c \<or> rs_w y w = W_post c) \<longleftrightarrow> rs_loc y c = L_worker w" for w c
    using pl(5) [of w c] assms(5) [of w c] assms(4) by auto
qed (use r_placedD [OF assms(1)] assms(2-4) in simp_all)

lemma step_placed:
  assumes "r_step gai n x y" and "requests_placed n x"
  shows "requests_placed n y"
proof -
  note pl = r_placedD [OF assms(2)]
  from assms(1) show ?thesis
  proof cases
    case (r_numeric c r)
    show ?thesis unfolding r_numeric(1)
    proof (rule r_placedI)
      let ?y = "x\<lparr>rs_req := (rs_req x)(c := r), rs_loc := (rs_loc x)(c := L_done)\<rparr>"
      show "w < n \<and> (rs_w ?y w = W_busy d \<or> rs_w ?y w = W_post d) \<longleftrightarrow> rs_loc ?y d = L_worker w" for w d
        using pl(5) [of w d] r_numeric(2) by (cases "d = c") simp_all
      show "d \<in> set (rs_queue ?y) \<longleftrightarrow> rs_loc ?y d = L_queue" for d using pl(3) [of d] r_numeric(2) by (cases "d = c") simp_all
      show "d \<in> set (rs_ready ?y) \<longleftrightarrow> rs_loc ?y d = L_ready" for d using pl(4) [of d] r_numeric(2) by (cases "d = c") simp_all
    qed (use pl(1,2) in simp_all)
  next
    case (r_submit c r h tid)
    show ?thesis unfolding r_submit(1)
    proof (rule r_placedI)
      show "w < n \<and> (rs_w (resolver_submit c (resolve_suspend h tid r) x) w = W_busy d \<or> rs_w (resolver_submit c (resolve_suspend h tid r) x) w = W_post d) \<longleftrightarrow>
        rs_loc (resolver_submit c (resolve_suspend h tid r) x) d = L_worker w" for w d
        using pl(5) [of w d] r_submit(2) by (cases "d = c") (simp_all add: resolver_submit_def)
    qed (use pl(1-4) r_submit(2) in \<open>auto simp: resolver_submit_def\<close>)
  next
    case (r_check w)
    show ?thesis
    proof (cases "rs_queue x")
      case Nil
      then show ?thesis using r_check by (auto simp: worker_check_def set_worker_def intro!: placed_idle [OF assms(2)] split: if_splits)
    next
      case (Cons c q)
      have y: "y = set_worker w (W_busy c) (x\<lparr>rs_queue := q, rs_loc := (rs_loc x)(c := L_worker w)\<rparr>)" using r_check Cons by (simp add: worker_check_def)
      have c: "rs_loc x c = L_queue" "c \<notin> set q" "distinct q" using pl(1) pl(3) [of c] Cons by auto
      have q: "d \<in> set q \<longleftrightarrow> rs_loc x d = L_queue \<and> d \<noteq> c" for d using pl(3) [of d] Cons c(2) by auto
      have nw: "\<not> (v < n \<and> (rs_w x v = W_busy c \<or> rs_w x v = W_post c))" for v using pl(5) [of v c] c(1) by simp
      have idle: "rs_loc x d \<noteq> L_worker w" for d using pl(5) [of w d] r_check(3) by auto
      show ?thesis unfolding y
      proof (rule r_placedI)
        show "v < n \<and> (rs_w (set_worker w (W_busy c) (x\<lparr>rs_queue := q, rs_loc := (rs_loc x)(c := L_worker w)\<rparr>)) v = W_busy d \<or>
            rs_w (set_worker w (W_busy c) (x\<lparr>rs_queue := q, rs_loc := (rs_loc x)(c := L_worker w)\<rparr>)) v = W_post d) \<longleftrightarrow>
          rs_loc (set_worker w (W_busy c) (x\<lparr>rs_queue := q, rs_loc := (rs_loc x)(c := L_worker w)\<rparr>)) d = L_worker v" for v d
          using pl(5) [of v d] nw [of v] idle [of d] r_check(2) by (cases "v = w"; cases "d = c") (auto simp: set_worker_def)
      qed (use pl(2,4) c q in \<open>auto simp: set_worker_def\<close>)
    qed
  next
    case (r_call w c)
    then show ?thesis by (auto simp: set_worker_def intro!: placed_idle [OF assms(2)] split: if_splits)
  next
    case (r_post w c)
    have c: "rs_loc x c = L_worker w" using pl(5) [of w c] r_post by simp
    have one: "d = c" if "rs_loc x d = L_worker w" for d using pl(5) [of w d] that r_post(3) by auto
    show ?thesis unfolding r_post(1)
    proof (rule r_placedI)
      show "v < n \<and> (rs_w (set_worker w W_check (x\<lparr>rs_ready := rs_ready x @ [c], rs_loc := (rs_loc x)(c := L_ready)\<rparr>)) v = W_busy d \<or>
          rs_w (set_worker w W_check (x\<lparr>rs_ready := rs_ready x @ [c], rs_loc := (rs_loc x)(c := L_ready)\<rparr>)) v = W_post d) \<longleftrightarrow>
        rs_loc (set_worker w W_check (x\<lparr>rs_ready := rs_ready x @ [c], rs_loc := (rs_loc x)(c := L_ready)\<rparr>)) d = L_worker v" for v d
      proof (cases "v = w")
        case True
        then show ?thesis using one [of d] by (simp add: set_worker_def) blast
      next
        case False
        then show ?thesis using pl(5) [of v d] c by (cases "d = c") (simp_all add: set_worker_def)
      qed
    qed (use pl(1-4) c in \<open>auto simp: set_worker_def\<close>)
  next
    case (r_resume c)
    have c: "rs_loc x c = L_ready" using pl(4) r_resume by simp
    show ?thesis unfolding r_resume(1)
    proof (rule r_placedI)
      let ?y = "x\<lparr>rs_ready := removeAll c (rs_ready x), rs_loc := (rs_loc x)(c := L_done)\<rparr>"
      show "w < n \<and> (rs_w ?y w = W_busy d \<or> rs_w ?y w = W_post d) \<longleftrightarrow> rs_loc ?y d = L_worker w" for w d
        using pl(5) [of w d] c by (cases "d = c") simp_all
      show "d \<in> set (rs_queue ?y) \<longleftrightarrow> rs_loc ?y d = L_queue" for d using pl(3) [of d] c by (cases "d = c") simp_all
      show "d \<in> set (rs_ready ?y) \<longleftrightarrow> rs_loc ?y d = L_ready" for d using pl(4) [of d] by (cases "d = c") simp_all
    qed (use pl(1,2) in \<open>simp_all add: distinct_removeAll\<close>)
  qed (auto simp: set_worker_def intro!: placed_idle [OF assms(2)] split: if_splits)
qed


lemma step_awake:
  assumes "r_step gai n x y" and "someone_awake n x" and "0 < n" and "\<And>w. w < n \<Longrightarrow> rs_w x w = W_exit \<Longrightarrow> rs_stop x"
  shows "someone_awake n y"
  using assms(1)
proof cases
  case (r_check w)
  then show ?thesis using assms(2,3) by (fastforce simp: someone_awake_def worker_check_def set_worker_def Let_def)
next
  case r_notify_none
  then show ?thesis using assms(2,3) by (auto simp: someone_awake_def)
next
  case r_notify_all
  then show ?thesis using assms(2,3) by (auto simp: someone_awake_def)
qed (use assms(2) in \<open>auto simp: someone_awake_def set_worker_def resolver_submit_def\<close>)

lemma step_exit:
  assumes "r_step gai n x y" and "\<forall>w<n. rs_w x w = W_exit \<longrightarrow> rs_stop x"
  shows "\<forall>w<n. rs_w y w = W_exit \<longrightarrow> rs_stop y"
  using assms by (cases rule: r_step.cases) (auto simp: worker_check_def set_worker_def resolver_submit_def Let_def split: if_splits)

lemma resume_call: "not_numeric gai r0 \<Longrightarrow> same_question r r0 \<Longrightarrow> resolve_resume (resolve_call gai r) = answer gai r0"
  by (auto simp: resolve_resume_def resolve_call_def answer_def not_numeric_def same_question_def split: prod.split)

lemma resume_numeric: "resolve_ready gai r = (True, r1) \<Longrightarrow> same_question r r0 \<Longrightarrow> resolve_resume r1 = answer gai r0 \<and> same_question r1 r0"
  by (auto simp: resolve_ready_def resolve_resume_def answer_def same_question_def split: prod.splits if_splits)

lemma suspend_question: "resolve_ready gai r = (False, r1) \<Longrightarrow> same_question r r0 \<Longrightarrow> not_numeric gai r0 \<and> same_question (resolve_suspend h tid r1) r0"
  by (auto simp: resolve_ready_def resolve_suspend_def not_numeric_def same_question_def split: prod.splits if_splits)

lemma step_request:
  assumes "r_step gai n x y" and "requests_placed n x" and "\<And>c. request_ok gai (rs_w x) (reqs c) (rs_req x c) (rs_loc x c) c"
  shows "request_ok gai (rs_w y) (reqs d) (rs_req y d) (rs_loc y d) d"
proof -
  note pl = r_placedD [OF assms(2)] and rq = assms(3) [unfolded request_ok_def]
  from assms(1) show ?thesis
  proof cases
    case (r_numeric c r)
    then show ?thesis using rq [of d] rq [of c] resume_numeric [of gai "rs_req x c" r "reqs c"] by (auto simp: request_ok_def)
  next
    case (r_submit c r h tid)
    then show ?thesis using rq [of d] rq [of c] suspend_question [of gai "rs_req x c" r "reqs c" h tid] by (auto simp: request_ok_def resolver_submit_def)
  next
    case (r_check w)
    show ?thesis
    proof (cases "rs_queue x")
      case Nil
      then show ?thesis using r_check rq [of d] by (auto simp: request_ok_def worker_check_def set_worker_def split: if_splits)
    next
      case (Cons c q)
      then have "rs_loc x c = L_queue" using pl(3) [of c] by simp
      then show ?thesis using r_check Cons rq [of d] rq [of c] by (auto simp: request_ok_def worker_check_def set_worker_def split: if_splits)
    qed
  next
    case (r_call w c)
    have c: "rs_loc x c = L_worker w" using pl(5) [of w c] r_call by simp
    then have "resolve_resume (resolve_call gai (rs_req x c)) = answer gai (reqs c)" "same_question (resolve_call gai (rs_req x c)) (reqs c)"
      using resume_call [of gai "reqs c" "rs_req x c"] rq [of c] by (auto simp: resolve_call_def same_question_def split: prod.split)
    then show ?thesis using r_call rq [of d] rq [of c] c by (auto simp: request_ok_def set_worker_def split: if_splits)
  next
    case (r_post w c)
    have c: "rs_loc x c = L_worker w" using pl(5) [of w c] r_post by simp
    then show ?thesis using r_post rq [of d] rq [of c] by (auto simp: request_ok_def set_worker_def split: if_splits)
  next
    case (r_resume c)
    then have "rs_loc x c = L_ready" using pl(4) [of c] by simp
    then show ?thesis using r_resume rq [of d] rq [of c] by (auto simp: request_ok_def)
  qed (use rq [of d] in \<open>auto simp: request_ok_def set_worker_def split: if_splits\<close>)
qed

lemma step_wakes:
  assumes "r_step gai n x y" and "stop_wakes n x"
  shows "stop_wakes n y"
  using assms by (cases rule: r_step.cases) (auto simp: stop_wakes_def worker_check_def set_worker_def resolver_submit_def Let_def split: if_splits)

lemma r_step_inv: "r_step gai n x y \<Longrightarrow> 0 < n \<Longrightarrow> r_inv gai n reqs x \<Longrightarrow> r_inv gai n reqs y"
  unfolding r_inv_def [of gai n reqs y] using step_placed step_request step_awake step_exit step_wakes by (auto simp: r_inv_def)

definition r_run :: "gai \<Rightarrow> nat \<Rightarrow> (nat \<Rightarrow> rreq) \<Rightarrow> rvsys \<Rightarrow> bool" where
  "r_run gai n reqs x \<longleftrightarrow> (r_step gai n)\<^sup>*\<^sup>* (rvsys_init reqs) x"

lemma r_run_inv: "r_run gai n reqs x \<Longrightarrow> 0 < n \<Longrightarrow> r_inv gai n reqs x"
proof -
  assume r: "r_run gai n reqs x" and n: "0 < n"
  have "r_inv gai n reqs (rvsys_init reqs)"
    by (auto simp: r_inv_def rvsys_init_def requests_placed_def request_ok_def same_question_def someone_awake_def stop_wakes_def)
  with r show ?thesis unfolding r_run_def by (induction rule: rtranclp_induct) (auto intro: r_step_inv n)
qed

text \<open>No thread of the pool has anything to do: no notification is on its way and every thread waits or has returned.\<close>

definition pool_quiet :: "nat \<Rightarrow> rvsys \<Rightarrow> bool" where
  "pool_quiet n x \<longleftrightarrow> rs_notify x = 0 \<and> \<not> rs_notify_all x \<and> (\<forall>w<n. rs_w x w = W_wait \<or> rs_w x w = W_exit)"

definition answered :: "rloc \<Rightarrow> bool" where
  "answered l \<longleftrightarrow> l = L_ready \<or> l = L_done"

lemma workers_of_pos: "0 < workers_of t"
  by (simp add: workers_of_def)

lemma quiet_exited: "pool_quiet n x \<Longrightarrow> r_inv gai n reqs x \<Longrightarrow> rs_stop x \<Longrightarrow> w < n \<Longrightarrow> rs_w x w = W_exit"
  unfolding pool_quiet_def r_inv_def stop_wakes_def by blast

lemma quiet_answered:
  assumes "pool_quiet n x" and "r_inv gai n reqs x" and "\<not> rs_stop x"
  shows "rs_loc x c = L_new \<or> answered (rs_loc x c)"
proof -
  have wait: "rs_w x w = W_wait" if "w < n" for w using assms that by (auto simp: pool_quiet_def r_inv_def)
  have pl: "requests_placed n x" and q: "rs_queue x = []" using assms wait by (auto simp: r_inv_def someone_awake_def pool_quiet_def)
  have "rs_loc x c \<noteq> L_queue" using r_placedD(3) [OF pl, of c] q by simp
  moreover have "rs_loc x c \<noteq> L_worker w" for w using r_placedD(5) [OF pl, of w c] wait [of w] by auto
  ultimately show ?thesis by (cases "rs_loc x c") (auto simp: answered_def)
qed

text \<open>C40. Name resolution loses no request and answers each one correctly, for any number of configured threads (at least one is started), any requests and any interleaving
  with spurious wake-ups. At every moment a request is in exactly one place (not submitted, in the queue once, with one thread, ready once, or resumed). What the awaiting coroutine gets is
  the answer of \<open>getaddrinfo\<close>: the numeric probe's list if it succeeds, otherwise the pool's list or its error code. When the pool has come to rest, either
  every submitted request has been answered, or the destructor has run and every thread has returned, so that its joins end.\<close>

theorem resolver_requests_answered:
  assumes "r_run gai (workers_of threads) reqs x"
  shows "requests_placed (workers_of threads) x \<and>
    (\<forall>c. answered (rs_loc x c) \<longrightarrow> resolve_resume (rs_req x c) = answer gai (reqs c)) \<and>
    (pool_quiet (workers_of threads) x \<longrightarrow> (if rs_stop x then \<forall>w<workers_of threads. rs_w x w = W_exit else \<forall>c. rs_loc x c = L_new \<or> answered (rs_loc x c)))"
proof -
  have inv: "r_inv gai (workers_of threads) reqs x" by (rule r_run_inv [OF assms workers_of_pos])
  then have "\<forall>c. answered (rs_loc x c) \<longrightarrow> resolve_resume (rs_req x c) = answer gai (reqs c)"
    unfolding r_inv_def request_ok_def answered_def by blast
  moreover have "requests_placed (workers_of threads) x" using inv by (simp add: r_inv_def)
  ultimately show ?thesis using quiet_exited [OF _ inv] quiet_answered [OF _ inv] by auto
qed

text \<open>A run with one thread (the setting is 0) that has resolved one name, over a resolver that knows one host, and has gone back to sleep.\<close>

definition ex_gai :: gai where
  "ex_gai host service numeric hints = (if \<not> numeric \<and> host = Some ''host'' then (0, 7) else (- 2, 0))"

definition ex_reqs :: "nat \<Rightarrow> rreq" where
  "ex_reqs c = resolve_awaiter ''host'' ''80'' 0"

definition ex_rs1 :: rvsys where
  "ex_rs1 = resolver_submit 0 (resolve_suspend 5 2 ((ex_reqs 0)\<lparr>rq_result := None\<rparr>)) (rvsys_init ex_reqs)"

definition ex_rs2 :: rvsys where
  "ex_rs2 = worker_check 0 (ex_rs1\<lparr>rs_notify := 0\<rparr>)"

definition ex_rs3 :: rvsys where
  "ex_rs3 = set_worker 0 (W_post 0) (ex_rs2\<lparr>rs_req := (rs_req ex_rs2)(0 := resolve_call ex_gai (rs_req ex_rs2 0))\<rparr>)"

definition ex_rs4 :: rvsys where
  "ex_rs4 = set_worker 0 W_check (ex_rs3\<lparr>rs_ready := rs_ready ex_rs3 @ [0], rs_loc := (rs_loc ex_rs3)(0 := L_ready)\<rparr>)"

lemmas ex_rs_defs = ex_rs1_def ex_rs2_def ex_rs3_def ex_rs4_def resolver_submit_def worker_check_def set_worker_def rvsys_init_def

lemma ex_workers: "workers_of 0 = 1"
  by (simp add: workers_of_def)

lemma ex_rs_run: "r_run ex_gai (workers_of 0) ex_reqs (worker_check 0 ex_rs4)"
proof -
  have probe: "resolve_ready ex_gai (ex_reqs 0) = (False, (ex_reqs 0)\<lparr>rq_result := None\<rparr>)"
    by (simp add: resolve_ready_def ex_gai_def)
  have "r_step ex_gai 1 (rvsys_init ex_reqs) ex_rs1"
    unfolding ex_rs1_def by (rule r_submit) (use probe in \<open>simp_all add: rvsys_init_def\<close>)
  moreover have "r_step ex_gai 1 ex_rs1 (ex_rs1\<lparr>rs_notify := rs_notify ex_rs1 - 1\<rparr>)"
    by (rule r_notify_none) (simp_all add: ex_rs_defs)
  moreover have "ex_rs1\<lparr>rs_notify := rs_notify ex_rs1 - 1\<rparr> = ex_rs1\<lparr>rs_notify := 0\<rparr>" by (simp add: ex_rs_defs)
  moreover have "r_step ex_gai 1 (ex_rs1\<lparr>rs_notify := 0\<rparr>) ex_rs2"
    unfolding ex_rs2_def by (rule r_check) (simp_all add: ex_rs_defs)
  moreover have "r_step ex_gai 1 ex_rs2 ex_rs3" unfolding ex_rs3_def by (rule r_call) (simp_all add: ex_rs_defs)
  moreover have "r_step ex_gai 1 ex_rs3 ex_rs4" unfolding ex_rs4_def by (rule r_post) (simp_all add: ex_rs_defs)
  moreover have "r_step ex_gai 1 ex_rs4 (worker_check 0 ex_rs4)" by (rule r_check) (simp_all add: ex_rs_defs)
  ultimately show ?thesis unfolding r_run_def ex_workers by (metis (no_types) rtranclp.rtrancl_into_rtrancl rtranclp.rtrancl_refl)
qed

theorem resolver_requests_answered_witness:
  "pool_quiet (workers_of 0) (worker_check 0 ex_rs4) \<and> rs_loc (worker_check 0 ex_rs4) 0 = L_ready \<and> resolve_resume (rs_req (worker_check 0 ex_rs4) 0) = Inr (Some 7)"
proof -
  have loc: "rs_loc (worker_check 0 ex_rs4) 0 = L_ready" by (simp add: ex_rs_defs)
  have "resolve_resume (rs_req (worker_check 0 ex_rs4) 0) = answer ex_gai (ex_reqs 0)"
    using resolver_requests_answered [OF ex_rs_run] loc by (simp add: answered_def)
  also have "\<dots> = Inr (Some 7)" by (simp add: answer_def ex_gai_def ex_reqs_def resolve_awaiter_def opt_name_def)
  finally show ?thesis using loc by (simp add: pool_quiet_def ex_workers) (simp add: ex_rs_defs)
qed

end
