(* ===== verification/Spec2Isabelle.thy ===== *)
theory Spec2Isabelle
  imports Uvent_Prelude Ring_Buffer Fast_Queue Timer_Wheel_Props Mpmc_Concurrent Async_Mutex Async_Channel Happy_Eyeballs Intrusive_Mpsc Tagged_Ptr Qsbr Cancel_Props Select Worker_Wakeup Ticket_Lock Frame_Pool Coroutine_Frames Concurrent_Vector Hazard_Pointers Uring_Props Fiber_Stacks Fiber_Run Resolver_Pool
begin

text \<open>
  Verification development for uvent, an asynchronous runtime in C++ (coroutines on worker threads, timers, a
  poller, sockets, synchronisation primitives).

  \<^bold>\<open>Parts of the program.\<close> A worker thread (\<open>system/Thread.cpp\<close>) runs a loop: it polls (\<open>poll/EPoller.cpp\<close>), resumes
  the coroutines of its run queue (\<open>queue/FastQueue.h\<close>), ticks its timer wheel (\<open>utils/timer\<close>), and drains queues
  other workers push into (\<open>queue/ConcurrentQueues.h\<close>, \<open>queue/IntrusiveMPSC.h\<close>). Coroutines wait on sockets (\<open>net\<close>), on
  timers, and on synchronisation primitives (\<open>sync\<close>) that all share one wait protocol (\<open>sync/Wait.h\<close>) over one
  intrusive list of waiters (\<open>sync/WaitList.h\<close>). Memory that other workers may still read is reclaimed by
  \<open>utils/sync\<close>.

  \<^bold>\<open>Theories, their sources and what they show.\<close>
  \<^item> \<open>Uvent_Prelude\<close>: shared lemmas on words, masks, powers of two and lists; the interfaces \<open>fifo\<close> and \<open>bounded_fifo\<close>
    (every run of a queue hands out what it accepted, in order) and \<open>inv_system\<close> (invariants of reachable states).
  \<^item> \<open>Ring_Buffer\<close>, \<open>Fast_Queue\<close> (\<open>queue/FastQueue.h\<close>): power-of-two rings on 64-bit indices; \<open>Queue\<close> and \<open>RingQueue\<close> with
    growth, element and bulk operations are FIFO queues, the bulk operations equal repeated single ones.
  \<^item> \<open>Timer_Wheel\<close>, \<open>Timer_Wheel_Inv\<close>, \<open>Timer_Wheel_Firing\<close>, \<open>Timer_Wheel_Ops\<close>, \<open>Timer_Wheel_Props\<close> (\<open>utils/timer/TimerWheel.cpp\<close>):
    the hierarchical wheel with its map, queued operations and cancels refines a plain set of pending timers;
    a tick fires exactly the due ones; the poll timeout never overshoots the next expiry; a timer that is too
    far away makes the slot loop run forever.
  \<^item> \<open>Mpmc_Queue\<close>, \<open>Mpmc_Concurrent\<close>, \<open>Segmented_Queue\<close> (\<open>queue/ConcurrentQueues.h\<close>): \<open>SPSCQueue\<close>, \<open>MPMCQueue\<close> and
    \<open>SegmentedMPMCQueue\<close> as one thread runs them are bounded or unbounded FIFO queues; every interleaving of the
    bounded queue, on 64-bit positions and sequence numbers and their signed differences, hands out each value once and in
    order of the positions (fewer than \<open>2 ^ 62\<close> claims).
  \<^item> \<open>Intrusive_Mpsc\<close> (\<open>queue/IntrusiveMPSC.h\<close>): every interleaving of producers and the consumer is FIFO.
  \<^item> \<open>Wait_List\<close>, \<open>Wait_Protocol\<close>, \<open>Sync_Primitives\<close>, \<open>Async_Mutex\<close>, \<open>Async_Channel\<close> (\<open>sync\<close>): the list of waiters refines a
    sequence; \<open>wait_prim\<close> states what a primitive owes the wait protocol and proves once that no wake-up is
    lost; semaphore, event, wait group and both channels are instances of it; barrier and mutex have their own
    invariants (generation, mutual exclusion with hand-off).
  \<^item> \<open>Dynamic_Buffer\<close> (\<open>utils/buffer\<close>): a growable byte buffer refines a byte string, and \<open>reserve\<close> returns exactly up
    to \<open>2 ^ 63\<close> bytes.
  \<^item> \<open>Socket_Header\<close>, \<open>Socket_Wakeup\<close>, \<open>Socket_Owner\<close> (\<open>net/SocketMetadata.h\<close>, \<open>net/AwaiterOperations\<close>, \<open>net/SocketLinux.cpp\<close>,
    one event of \<open>poll/EPoller.cpp\<close>): the packed state word behaves as independent fields while the 16-bit epoch does not
    overflow; the wake-up words lose no
    readiness edge; a header is freed exactly once.
  \<^item> \<open>Socket_Io\<close>, \<open>Socket_Connect\<close> (\<open>net/SocketLinux.h\<close>): the read, write, send, connect, accept and file transfer loops
    over a kernel that is a parameter; they return, move exactly the bytes they report, and leak no
    descriptor; what acts on a header while a connect is suspended are the definitions of the theories above.
  \<^item> \<open>Happy_Eyeballs\<close> (\<open>net/HappyEyeballs.cpp\<close>): all interleavings of the connection race.
  \<^item> \<open>Tagged_Ptr\<close> (\<open>utils/sync/TaggedPtr.h\<close>): packing round trips, compare-exchange, and the ABA window of the tag.
  \<^item> \<open>Qsbr\<close> (\<open>utils/sync/QSBR.cpp\<close>): safety of the reclamation with 64-bit epochs (fewer than \<open>2 ^ 64 - 1\<close> advances), and the two uses
    that break it.
  \<^item> \<open>Cancel_Tree\<close>, \<open>Cancel_Request\<close>, \<open>Cancel_Handles\<close>, \<open>Cancel_Props\<close> (\<open>sync/CancelState.h\<close>, \<open>sync/AsyncCancellation.h\<close>, \<open>tasks/TaskState.h\<close>,
    \<open>tasks/Task.cpp\<close>): the reference-counted tree of cancellation states with 32-bit counts; every program over its handles accesses only
    allocated nodes and frees each once, also when a walk meets a node whose last reference is gone, a cancel reaches exactly the subtree, a scope ends when its tasks have ended.
  \<^item> \<open>Select\<close> (\<open>sync/Select.h\<close>): a select is resumed at most once for each time it suspends.
  \<^item> \<open>Worker_Wakeup\<close>, \<open>Ticket_Lock\<close> (\<open>pool/TLS.cpp\<close>, \<open>poll/EPoller.cpp\<close>): work handed to another worker wakes it; the lock of the
    shared poller excludes, serves in order and loses no wake-up.
  \<^item> \<open>Frame_Pool\<close>, \<open>Coroutine_Frames\<close> (\<open>tasks/AwaitableFrame.h\<close>): blocks of frame memory are disjoint and given back once; no coroutine
    frame is touched after its destruction, if a started I/O child is awaited at once.
  \<^item> \<open>Concurrent_Vector\<close> (\<open>ConcurrentVector.h\<close>): the two-level vector is well formed after operations that return (a \<open>pop_back\<close> behind an erased element
    waits for ever); all interleavings of \<open>emplace_back\<close> keep their elements, and publish every one under sequential consistency, not under release and
    acquire order.
  \<^item> \<open>Hazard_Pointers\<close> (\<open>utils/sync/HazardPointers.cpp\<close>): no protected object is deleted, each retired one at most once.
  \<^item> \<open>Uring_Ops\<close>, \<open>Uring_Recv\<close>, \<open>Uring_Props\<close> (\<open>poll/IOUringOps.h\<close>, \<open>poll/IOUringPoller.cpp\<close>, \<open>net/SocketLinuxIOUring.h\<close>): the multishot
    receive loses no byte and shares no buffer, and keeps the order unless a direct \<open>recv\<close> overtakes it; a waiting reader has a receive under way; a
    socket that was read is never closed.
  \<^item> \<open>Fiber_Stacks\<close>, \<open>Fiber_Run\<close> (\<open>fiber\<close>): stacks are mapped, cached and unmapped without fault; a fiber computes what its body
    computes when it is evaluated directly.
  \<^item> \<open>Resolver_Pool\<close> (\<open>net/Resolver.cpp\<close>): name resolution over a pool of threads loses no request and answers each with what
    \<open>getaddrinfo\<close> returned.

  \<^bold>\<open>Modelling conventions.\<close> Structs are records, enumerations datatypes, fixed-width integers words (or integers
  with the wrap-around written out); errors are values. A loop that may not end is a \<open>partial_function (option)\<close> or
  the combinator \<open>iter\<close> of \<open>Socket_Io\<close>: \<open>None\<close> is non-termination, and termination is proved where the code
  terminates, so no fuel is needed. Concurrency is a step relation whose steps are single atomic accesses or
  critical sections of a lock, under sequentially consistent memory; \<open>Concurrent_Vector\<close> also has the stores of a published element
  wait in a buffer, as release order allows, and shows what is lost then. In \<open>Cancel_Tree\<close> an operation is one step, but the last decrement of a count and
  the deletion of the node are two. The kernel, \<open>getaddrinfo\<close>, allocation
  failure and the scheduler are parameters or nondeterministic choices; the hypotheses on them
  (\<open>kernel_stream\<close>, \<open>kernel_sink\<close>) state documented behaviour of the system calls. Hypotheses that bound counters
  (queue positions below \<open>2 ^ 62\<close>, references of a header below \<open>2 ^ 40\<close>, fewer than \<open>2 ^ 16\<close> timeout epochs, references and nodes of the
  cancellation tree below \<open>2 ^ 32 - 3\<close>, fewer than \<open>2 ^ 64 - 1\<close> advances of the reclamation epoch) are part of the statements.

  \<^bold>\<open>Not modelled.\<close> The Windows and BSD sockets and pollers offer the Linux interface over other system calls; of the
  \<open>io_uring\<close> backend the receive path is modelled, its send, connect, accept and file transfer are not. The assembly
  of the context switch, the worker loop around the modelled parts, start-up and drain of the threads, registration calls of the
  poller, settings and the introspection dump are glue or system calls. \<open>ShardedConcurrentVector.h\<close> does not compile.
\<close>

end
